(* ===== verification/Prelude.thy ===== *)
theory Prelude
  imports Main "HOL-Library.Word"
begin

text \<open>
  Shared vocabulary of the development: the names of Rust's integer and array types, the
  checked and saturating integer operations the code calls, fallible computations, the
  byte encodings of integers and 32-byte arrays, and generic list lemmas.

  A \<open>[u8; 32]\<close> is a \<open>256 word\<close>: the number its bytes spell big-endian.  \<open>bytes_of\<close> lists
  the bytes (index 0 first), \<open>array_of\<close> rebuilds the array; \<open>array_of_bytes_of\<close>,
  \<open>bytes_of_array_of\<close> and \<open>be_value_less_iff\<close> show that this loses nothing, the derived
  (lexicographic) order of the arrays included.  The \<open>U256\<close> of the crate
  primitive-types is the same word type with the crate's documented checked addition.
\<close>

unbundle bit_operations_syntax

named_theorems size_simps \<open>lengths of the encodings\<close>

subsection \<open>Rust's types\<close>

type_synonym byte = "8 word"
type_synonym bytes = "8 word list"
type_synonym u16 = "16 word"
type_synonym u32 = "32 word"
type_synonym u64 = "64 word"
type_synonym i64 = "64 word"
type_synonym u128 = "128 word"
type_synonym u256 = "256 word"
type_synonym bytes32 = "256 word"

subsection \<open>Fallible computations\<close>

text \<open>\<open>and_then m f\<close> is Rust's \<open>f(m?)\<close>: the first error is returned.\<close>

definition and_then :: "'e + 'a \<Rightarrow> ('a \<Rightarrow> 'e + 'b) \<Rightarrow> 'e + 'b" where
  "and_then m f = (case m of Inl e \<Rightarrow> Inl e | Inr x \<Rightarrow> f x)"

lemma and_then_simps [simp]:
  "and_then (Inl e) f = Inl e"
  "and_then (Inr x) f = f x"
  by (simp_all add: and_then_def)

lemma and_then_Inr_iff:
  "and_then m f = Inr y \<longleftrightarrow> (\<exists>x. m = Inr x \<and> f x = Inr y)"
  by (cases m) auto

lemma and_then_Inr_E [elim!]:
  assumes "and_then m f = Inr y"
  obtains x where "m = Inr x" "f x = Inr y"
  using assms by (auto simp: and_then_Inr_iff)

text \<open>\<open>ok_or e o\<close> is \<open>Option::ok_or\<close>.\<close>

definition ok_or :: "'e \<Rightarrow> 'a option \<Rightarrow> 'e + 'a" where
  "ok_or e v = (case v of None \<Rightarrow> Inl e | Some x \<Rightarrow> Inr x)"

lemma ok_or_simps [simp]:
  "ok_or e None = Inl e"
  "ok_or e (Some x) = Inr x"
  by (simp_all add: ok_or_def)

lemma ok_or_Inr_iff [simp]: "ok_or e v = Inr x \<longleftrightarrow> v = Some x"
  by (cases v) auto

subsection \<open>Integer operations\<close>

definition checked_add :: "'a::len word \<Rightarrow> 'a word \<Rightarrow> 'a word option" where
  "checked_add a b = (if unat a + unat b < 2 ^ LENGTH('a) then Some (a + b) else None)"

definition saturating_add :: "'a::len word \<Rightarrow> 'a word \<Rightarrow> 'a word" where
  "saturating_add a b = (if unat a + unat b < 2 ^ LENGTH('a) then a + b else - 1)"

definition saturating_mul :: "'a::len word \<Rightarrow> 'a word \<Rightarrow> 'a word" where
  "saturating_mul a b = (if unat a * unat b < 2 ^ LENGTH('a) then a * b else - 1)"

definition saturating_sub :: "'a::len word \<Rightarrow> 'a word \<Rightarrow> 'a word" where
  "saturating_sub a b = (if b \<le> a then a - b else 0)"

lemma unat_add_no_wrap:
  fixes a b :: "'a::len word"
  shows "unat a + unat b < 2 ^ LENGTH('a) \<Longrightarrow> unat (a + b) = unat a + unat b"
  by (simp add: unat_word_ariths)

lemma checked_add_Some:
  "checked_add a b = Some c \<Longrightarrow> unat c = unat a + unat b"
  by (auto simp: checked_add_def unat_add_no_wrap split: if_splits)

lemma checked_add_iff:
  fixes a b :: "'a::len word"
  shows "checked_add a b = None \<longleftrightarrow> 2 ^ LENGTH('a) \<le> unat a + unat b"
  by (auto simp: checked_add_def)

lemma eq_word_of_natI: "unat w = v \<Longrightarrow> w = word_of_nat v"
  by auto

lemma unat_minus_one: "unat (- 1 :: 'a::len word) = 2 ^ LENGTH('a) - 1"
  by (simp add: unsigned_minus_1_eq_mask mask_eq_exp_minus_1)

lemma unat_saturating_add:
  fixes a b :: "'a::len word"
  shows "unat (saturating_add a b) = min (unat a + unat b) (2 ^ LENGTH('a) - 1)"
  by (auto simp: saturating_add_def unat_add_no_wrap unat_minus_one min_def)

lemma unat_saturating_mul:
  fixes a b :: "'a::len word"
  shows "unat (saturating_mul a b) = min (unat a * unat b) (2 ^ LENGTH('a) - 1)"
proof (cases "unat a * unat b < 2 ^ LENGTH('a)")
  case True
  then show ?thesis by (simp add: saturating_mul_def unat_word_ariths)
next
  case False
  then have "2 ^ LENGTH('a) - 1 \<le> unat a * unat b" by linarith
  with False show ?thesis by (simp add: saturating_mul_def unat_minus_one min_absorb2)
qed

lemma unat_not: "unat (NOT a) = 2 ^ LENGTH('a) - 1 - unat a" for a :: "'a::len word"
proof -
  have "a \<le> - 1" by simp
  then have "unat (- 1 - a) = unat (- 1 :: 'a word) - unat a"
    by (simp add: unat_sub)
  then show ?thesis by (simp add: not_eq_complement unat_minus_one minus_diff_commute)
qed

text \<open>\<open>i64\<close> values: \<open>sint\<close> agrees with \<open>unat\<close> below \<open>2^63\<close> and is negative from there on.\<close>

lemma sint_i64_cases:
  fixes x :: i64
  shows "sint x = (if unat x < 2 ^ 63 then int (unat x) else int (unat x) - 2 ^ 64)"
proof -
  define u where "u = int (unat x)"
  have bounds: "0 \<le> u" "u < 2 ^ 64"
    using uint_lt2p [of x] by (simp_all add: u_def)
  have less: "unat x < 2 ^ 63 \<longleftrightarrow> u < 2 ^ 63"
    unfolding u_def by (metis of_nat_less_iff of_nat_numeral of_nat_power)
  have "sint x = signed_take_bit 63 u"
    by (simp add: sint_uint u_def)
  also have "\<dots> = (u + 2 ^ 63) mod 2 ^ 64 - 2 ^ 63"
    by (simp add: signed_take_bit_eq_take_bit_shift take_bit_eq_mod)
  also have "\<dots> = (if u < 2 ^ 63 then u else u - 2 ^ 64)"
  proof (cases "u < 2 ^ 63")
    case True
    with bounds show ?thesis by (simp add: mod_pos_pos_trivial)
  next
    case False
    have "(u + 2 ^ 63) mod 2 ^ 64 = (u + 2 ^ 63 - 2 ^ 64) mod 2 ^ 64"
      by (rule minus_mod_self2 [symmetric])
    also have "\<dots> = u + 2 ^ 63 - 2 ^ 64"
      using bounds False by (intro mod_pos_pos_trivial) simp_all
    finally show ?thesis using False by simp
  qed
  finally show ?thesis by (simp only: less u_def)
qed

lemma sint_small: "unat x < 2 ^ 63 \<Longrightarrow> sint x = int (unat x)" for x :: i64
  by (simp add: sint_i64_cases)

lemma sint_nonneg: "0 \<le> sint x \<Longrightarrow> sint x = int (unat x)" for x :: i64
  using uint_lt2p [of x] by (auto simp: sint_i64_cases split: if_splits)

subsection \<open>Big-endian byte encodings\<close>

text \<open>\<open>be_bytes n v\<close>: the \<open>n\<close> bytes of \<open>v.to_be_bytes()\<close>; \<open>le_bytes\<close> the little-endian form.\<close>

fun be_bytes :: "nat \<Rightarrow> nat \<Rightarrow> bytes" where
  "be_bytes 0 v = []"
| "be_bytes (Suc n) v = be_bytes n (v div 256) @ [word_of_nat (v mod 256)]"

lemma be_bytes_numeral:
  "be_bytes (numeral k) v = be_bytes (pred_numeral k) (v div 256) @ [word_of_nat (v mod 256)]"
  by (simp only: numeral_eq_Suc [of k] be_bytes.simps)

definition le_bytes :: "nat \<Rightarrow> nat \<Rightarrow> bytes" where
  "le_bytes n v = rev (be_bytes n v)"

definition be_value :: "bytes \<Rightarrow> nat" where
  "be_value bs = foldl (\<lambda>acc b. acc * 256 + unat b) 0 bs"

definition le_value :: "bytes \<Rightarrow> nat" where
  "le_value bs = be_value (rev bs)"

definition bytes_of :: "bytes32 \<Rightarrow> bytes" where
  "bytes_of w = be_bytes 32 (unat w)"

definition array_of :: "bytes \<Rightarrow> bytes32" where
  "array_of bs = word_of_nat (be_value bs)"

lemma length_be_bytes [simp, size_simps]: "length (be_bytes n v) = n"
  by (induction n arbitrary: v) auto

lemma length_le_bytes [simp, size_simps]: "length (le_bytes n v) = n"
  by (simp add: le_bytes_def)

lemma length_bytes_of [simp, size_simps]: "length (bytes_of w) = 32"
  by (simp add: bytes_of_def)

lemma be_value_Nil [simp]: "be_value [] = 0"
  by (simp add: be_value_def)

lemma be_value_snoc [simp]: "be_value (bs @ [b]) = be_value bs * 256 + unat b"
  by (simp add: be_value_def)

lemma unat_byte_less: "unat (b :: byte) < 256"
  using unsigned_less [of b, where 'a = nat] by simp

lemma be_value_less: "be_value bs < 256 ^ length bs"
proof (induction bs rule: rev_induct)
  case (snoc b bs)
  then have "Suc (be_value bs) * 256 \<le> 256 ^ length bs * 256"
    by (intro mult_right_mono) auto
  then show ?case using unat_byte_less [of b] by simp
qed simp

lemma be_value_be_bytes: "be_value (be_bytes n v) = v mod 256 ^ n"
proof (induction n arbitrary: v)
  case (Suc n)
  have "v mod (256 * 256 ^ n) = 256 * (v div 256 mod 256 ^ n) + v mod 256"
    by (rule mod_mult2_eq)
  moreover have "unat (word_of_nat (v mod 256) :: byte) = v mod 256"
    by (simp add: unat_of_nat)
  ultimately show ?case using Suc by simp
qed simp

lemma be_bytes_be_value: "be_bytes (length bs) (be_value bs) = bs"
proof (induction bs rule: rev_induct)
  case (snoc b bs)
  have "(be_value bs * 256 + unat b) div 256 = be_value bs"
    "(be_value bs * 256 + unat b) mod 256 = unat b"
    using unat_byte_less [of b] by (simp_all add: div_add1_eq)
  with snoc show ?case by simp
qed simp

lemma be_bytes_inj: "v < 256 ^ n \<Longrightarrow> w < 256 ^ n \<Longrightarrow> be_bytes n v = be_bytes n w \<longleftrightarrow> v = w"
  by (metis be_value_be_bytes mod_less)

lemma unat_u256_less: "unat (w :: u256) < 256 ^ 32"
  using unsigned_less [of w, where 'a = nat] by simp

lemma array_of_bytes_of [simp]: "array_of (bytes_of w) = w"
  using unat_u256_less [of w]
  by (simp add: array_of_def bytes_of_def be_value_be_bytes)

lemma bytes_of_array_of: "length bs = 32 \<Longrightarrow> bytes_of (array_of bs) = bs"
proof -
  assume 32: "length bs = 32"
  then have "unat (array_of bs) = be_value bs"
    using be_value_less [of bs] by (simp add: array_of_def unat_of_nat)
  with 32 show ?thesis using be_bytes_be_value [of bs] by (simp add: bytes_of_def)
qed

lemma bytes_of_inject [simp]: "bytes_of v = bytes_of w \<longleftrightarrow> v = w"
  by (metis array_of_bytes_of)

lemma be_value_bytes_of [simp]: "be_value (bytes_of w) = unat w"
  using unat_u256_less [of w] by (simp add: bytes_of_def be_value_be_bytes)

lemma be_value_Cons: "be_value (b # bs) = unat b * 256 ^ length bs + be_value bs"
proof (induction bs rule: rev_induct)
  case Nil
  show ?case using be_value_snoc [of "[]" b] by simp
next
  case (snoc c bs)
  then show ?case using be_value_snoc [of "b # bs" c] by (simp add: algebra_simps)
qed

text \<open>The derived order of \<open>[u8; 32]\<close> is the order of the numbers the arrays spell.\<close>

lemma be_value_less_iff:
  assumes "length xs = length ys"
  shows "be_value xs < be_value ys \<longleftrightarrow> (xs, ys) \<in> lexord {(a, b). a < b}"
  using assms
proof (induction xs ys rule: list_induct2)
  case (Cons x xs y ys)
  note lt = be_value_less [of xs] be_value_less [of ys]
  show ?case
  proof (cases "x = y")
    case True
    with Cons show ?thesis by (simp add: be_value_Cons)
  next
    case False
    have less: "be_value (a # as) < be_value (b # bs)"
      if "a < b" and "length as = length bs" for a b :: byte and as bs
    proof -
      from that have "Suc (unat a) * 256 ^ length as \<le> unat b * 256 ^ length as"
        by (intro mult_right_mono) (auto simp: word_less_nat_alt)
      with be_value_less [of as] that show ?thesis by (simp add: be_value_Cons)
    qed
    consider "x < y" | "y < x" using False by force
    then show ?thesis
    proof cases
      case 1
      with less [of x y xs ys] Cons.hyps show ?thesis by simp
    next
      case 2
      with less [of y x ys xs] Cons.hyps have "\<not> be_value (x # xs) < be_value (y # ys)" by simp
      with 2 show ?thesis by auto
    qed
  qed
qed simp

subsection \<open>Lists\<close>

text \<open>\<open>chunks n xs\<close> is \<open>xs.chunks(n)\<close>, \<open>pairs\<close> the case \<open>n = 2\<close> on a list of even length.\<close>

fun pairs :: "'a list \<Rightarrow> ('a \<times> 'a) list" where
  "pairs (x # y # xs) = (x, y) # pairs xs"
| "pairs _ = []"

lemma length_pairs [simp]: "length (pairs xs) = length xs div 2"
  by (induction xs rule: pairs.induct) auto

lemma pairs_append: "even (length xs) \<Longrightarrow> pairs (xs @ ys) = pairs xs @ pairs ys"
  by (induction xs rule: pairs.induct) auto

lemma pairs_nth: "i < length xs div 2 \<Longrightarrow> pairs xs ! i = (xs ! (2 * i), xs ! Suc (2 * i))"
proof (induction xs arbitrary: i rule: pairs.induct)
  case (1 x y xs)
  then show ?case by (cases i) auto
qed auto

lemma takeWhile_sorted_split:
  assumes "\<And>i j. i \<le> j \<Longrightarrow> j < length xs \<Longrightarrow> P (xs ! j) \<Longrightarrow> P (xs ! i)"
  shows "takeWhile P xs = filter P xs" "dropWhile P xs = filter (\<lambda>x. \<not> P x) xs"
  using assms
proof (induction xs)
  case (Cons x xs)
  {
    case 1
    show ?case
    proof (cases "P x")
      case True
      have "takeWhile P xs = filter P xs"
        by (rule Cons.IH(1)) (use 1 in \<open>metis Suc_le_mono Suc_less_eq length_Cons nth_Cons_Suc\<close>)
      with True show ?thesis by simp
    next
      case False
      then have "\<not> P y" if "y \<in> set xs" for y
        using that 1 [of 0 "Suc i" for i] by (fastforce simp: in_set_conv_nth)
      with False show ?thesis by (simp add: filter_empty_conv)
    qed
  next
    case 2
    show ?case
    proof (cases "P x")
      case True
      have "dropWhile P xs = filter (\<lambda>x. \<not> P x) xs"
        by (rule Cons.IH(2)) (use 2 in \<open>metis Suc_le_mono Suc_less_eq length_Cons nth_Cons_Suc\<close>)
      with True show ?thesis by simp
    next
      case False
      then have "\<not> P y" if "y \<in> set xs" for y
        using that 2 [of 0 "Suc i" for i] by (fastforce simp: in_set_conv_nth)
      with False show ?thesis by (simp add: filter_True)
    qed
  }
qed auto

end
