(* ===== verification/Target.thy ===== *)
theory Target
  imports Prelude
begin

text \<open>
  PoW targets and chain work: \<^verbatim>\<open>crates/tao-consensus/src/target.rs\<close>.

  \<open>Target\<close> is a 32-byte big-endian threshold.  The lemmas relate the byte loops to numbers:
  \<open>to_u256\<close>/\<open>from_u256\<close> are inverse, \<open>work_for_target\<close> is the rounded-down quotient
  \<open>2^256 / (target + 1)\<close> and antitone, \<open>leading_zero_bits\<close> locates the top bit, and
  \<open>pow_level\<close> brackets the hash between two powers of two.
\<close>

type_synonym target = bytes32

definition to_u256 :: "bytes32 \<Rightarrow> u256" where
  "to_u256 bs = foldl (\<lambda>acc b. acc * 256 + ucast b) 0 (bytes_of bs)"

definition from_u256 :: "u256 \<Rightarrow> bytes32" where
  "from_u256 v = array_of (be_bytes 32 (unat v))"

definition meets_target :: "bytes32 \<Rightarrow> target \<Rightarrow> bool" where
  "meets_target h t \<longleftrightarrow> to_u256 h \<le> to_u256 t"

text \<open>The final \<open>+ 1\<close> is \<open>U256\<close>'s addition, which panics on overflow: \<open>None\<close>.\<close>

definition work_for_target_checked :: "target \<Rightarrow> u256 option" where
  "work_for_target_checked tgt =
     (let t = to_u256 tgt in
      if t = 0 then Some (- 1)
      else let numerator = NOT t; denom = saturating_add t 1
           in checked_add (numerator div denom) 1)"

definition work_for_target :: "target \<Rightarrow> u256" where
  "work_for_target tgt =
     (let t = to_u256 tgt in
      if t = 0 then - 1
      else let numerator = NOT t; denom = saturating_add t 1
           in numerator div denom + 1)"

definition leading_zeros_u8 :: "byte \<Rightarrow> nat" where
  "leading_zeros_u8 b = length (takeWhile (\<lambda>i. \<not> bit b i) [7, 6, 5, 4, 3, 2, 1, 0])"

fun leading_zero_bits_loop :: "nat \<Rightarrow> bytes \<Rightarrow> nat" where
  "leading_zero_bits_loop z [] = z"
| "leading_zero_bits_loop z (b # bs) =
     (if b = 0 then leading_zero_bits_loop (z + 8) bs else z + leading_zeros_u8 b)"

definition leading_zero_bits :: "bytes32 \<Rightarrow> nat" where
  "leading_zero_bits x = leading_zero_bits_loop 0 (bytes_of x)"

definition pow_level :: "bytes32 \<Rightarrow> target \<Rightarrow> nat" where
  "pow_level pow_hash tgt =
     (if \<not> meets_target pow_hash tgt then 0
      else leading_zero_bits pow_hash - leading_zero_bits tgt)"

subsection \<open>Conversions\<close>

lemma foldl_word_value:
  "foldl (\<lambda>acc b. acc * 256 + ucast b) (0::u256) bs = word_of_nat (be_value bs)"
  by (induction bs rule: rev_induct) auto

lemma to_u256_id [simp]: "to_u256 w = w"
  by (simp add: to_u256_def foldl_word_value)

lemma from_u256_id [simp]: "from_u256 v = v"
  using array_of_bytes_of [of v] by (simp add: from_u256_def bytes_of_def)

lemma meets_target_iff [simp]: "meets_target h t \<longleftrightarrow> h \<le> t"
  by (simp add: meets_target_def)

lemma meets_target_lexord:
  "meets_target h t \<longleftrightarrow> h = t \<or> (bytes_of h, bytes_of t) \<in> lexord {(a, b). a < b}"
  using be_value_less_iff [of "bytes_of h" "bytes_of t"]
  by (auto simp: le_less word_less_nat_alt)

subsection \<open>Work\<close>

lemma unat_work_quotient:
  fixes t :: u256
  assumes "t \<noteq> 0"
  shows "unat (NOT t div saturating_add t 1) + 1 = 2 ^ 256 div (unat t + 1)"
proof -
  have less: "unat t < 2 ^ 256" using unsigned_less [of t, where 'a = nat] by simp
  show ?thesis
  proof (cases "unat t + 1 < 2 ^ 256")
    case True
    then have "unat (NOT t div saturating_add t 1) = (2 ^ 256 - (unat t + 1)) div (unat t + 1)"
      by (simp add: unat_div_distrib unat_not unat_saturating_add)
    moreover have "(2 ^ 256 - (unat t + 1)) div (unat t + 1) + 1 = 2 ^ 256 div (unat t + 1)"
      using True by (subst (2) le_div_geq) auto
    ultimately show ?thesis by linarith
  next
    case False
    with less have t: "unat t = 2 ^ 256 - 1" by linarith
    have "unat (NOT t) = 2 ^ LENGTH(256) - 1 - unat t" by (rule unat_not)
    also have "\<dots> = 0" using t by simp
    finally have "unat (NOT t div saturating_add t 1) = 0" by (simp add: unat_div_distrib)
    moreover have "2 ^ 256 div (unat t + 1) = 1" using t by simp
    ultimately show ?thesis by simp
  qed
qed

lemma work_quotient_bound:
  assumes "(t :: u256) \<noteq> 0"
  shows "2 ^ 256 div (unat t + 1) \<le> (2 :: nat) ^ 255"
proof -
  have "0 < unat t" using assms by (simp add: unat_gt_0)
  then have "2 \<le> unat t + 1" by linarith
  then have "2 ^ 256 div (unat t + 1) \<le> (2 ^ 256 :: nat) div 2"
    by (rule div_le_mono2 [rotated]) simp
  then show ?thesis by simp
qed

lemma unat_work_for_target:
  assumes "t \<noteq> 0"
  shows "unat (work_for_target t) = 2 ^ 256 div (unat t + 1)"
proof -
  have "unat (NOT t div saturating_add t 1) + 1 < 2 ^ 256"
    using unat_work_quotient [OF assms] work_quotient_bound [OF assms] by simp
  then have "unat (NOT t div saturating_add t 1 + 1) = unat (NOT t div saturating_add t 1) + 1"
    by (subst unat_add_no_wrap) simp_all
  with assms unat_work_quotient [OF assms] show ?thesis
    by (simp add: work_for_target_def Let_def)
qed

lemma work_for_target_zero [simp]: "work_for_target 0 = - 1"
  by (simp add: work_for_target_def)

text \<open>The addition never overflows, so the code never panics here.\<close>

lemma work_for_target_no_panic: "work_for_target_checked t = Some (work_for_target t)"
proof (cases "t = 0")
  case False
  then have "unat (NOT t div saturating_add t 1) + 1 < 2 ^ 256"
    using unat_work_quotient [OF False] work_quotient_bound [OF False] by simp
  with False show ?thesis
    by (simp add: work_for_target_checked_def work_for_target_def checked_add_def Let_def)
qed (simp add: work_for_target_checked_def)

lemma work_for_target_pos: "0 < unat (work_for_target t)"
proof (cases "t = 0")
  case False
  have "unat t < 2 ^ 256" using unsigned_less [of t, where 'a = nat] by simp
  then have "unat t + 1 \<le> 2 ^ 256" by linarith
  with False show ?thesis by (simp add: unat_work_for_target div_greater_zero_iff)
qed (simp add: unat_minus_one)

lemma work_for_target_antimono:
  assumes "t \<le> t'"
  shows "work_for_target t' \<le> work_for_target t"
proof (cases "t = 0")
  case False
  with assms have "t' \<noteq> 0" by auto
  have "2 ^ 256 div (unat t' + 1) \<le> (2 :: nat) ^ 256 div (unat t + 1)"
    using assms by (intro div_le_mono2) (auto simp: word_le_nat_alt)
  with False \<open>t' \<noteq> 0\<close> show ?thesis
    by (simp add: word_le_nat_alt unat_work_for_target)
qed simp

subsection \<open>Leading zeros\<close>

lemma leading_zeros_u8_bounds:
  "leading_zeros_u8 b \<le> 8"
  "unat b < 2 ^ (8 - leading_zeros_u8 b)"
  "b \<noteq> 0 \<Longrightarrow> 2 ^ (8 - leading_zeros_u8 b) \<le> 2 * unat b"
proof -
  let ?P = "\<lambda>i. \<not> bit b i" and ?k = "leading_zeros_u8 b"
  have tops: "[7, 6, 5, 4, 3, 2, 1, 0 :: nat] = map (\<lambda>j. 7 - j) [0..<8]"
    by (simp add: upt_rec)
  have k: "?k = length (takeWhile ?P (map (\<lambda>j. 7 - j) [0..<8]))"
    by (simp only: leading_zeros_u8_def tops)
  show le: "?k \<le> 8"
    using length_takeWhile_le [of ?P "map (\<lambda>j. 7 - j) [0..<8]"] by (simp add: k)
  have unset: "\<not> bit b i" if "8 - ?k \<le> i" for i
  proof (cases "i < 8")
    case True
    then have "7 - i < ?k" using that le by linarith
    then have "?P (takeWhile ?P (map (\<lambda>j. 7 - j) [0..<8]) ! (7 - i))"
      unfolding k using set_takeWhileD [OF nth_mem] by blast
    then show ?thesis
      using True \<open>7 - i < ?k\<close> by (simp add: takeWhile_nth k)
  next
    case False
    then show ?thesis using bit_imp_le_length [of b i] by auto
  qed
  have "drop_bit (8 - ?k) b = 0"
    by (rule bit_eqI) (simp add: bit_simps unset)
  then have "unat b div 2 ^ (8 - ?k) = 0"
    by (metis drop_bit_eq_div unat_drop_bit_eq unsigned_0)
  then show "unat b < 2 ^ (8 - ?k)" by (simp add: div_eq_0_iff)
  assume "b \<noteq> 0"
  have "?k < 8"
  proof (rule ccontr)
    assume "\<not> ?k < 8"
    then have "\<not> bit b i" for i using unset [of i] by simp
    with \<open>b \<noteq> 0\<close> show False by (auto intro: bit_eqI)
  qed
  then have "\<not> ?P (map (\<lambda>j. 7 - j) [0..<8] ! ?k)"
    unfolding k by (intro nth_length_takeWhile) simp
  with \<open>?k < 8\<close> have "bit (unat b) (7 - ?k)" by (simp add: bit_unsigned_iff)
  then have "2 ^ (7 - ?k) \<le> unat b"
    by (metis bit_iff_odd div_less even_zero linorder_not_le)
  moreover have "8 - ?k = Suc (7 - ?k)" using \<open>?k < 8\<close> by simp
  ultimately show "2 ^ (8 - ?k) \<le> 2 * unat b" by simp
qed

lemma leading_zero_bits_loop_add:
  "leading_zero_bits_loop z bs = z + leading_zero_bits_loop 0 bs"
proof (induction bs arbitrary: z)
  case (Cons b bs)
  show ?case using Cons [of "z + 8"] Cons [of 8] by simp
qed simp

lemma leading_zero_bits_loop_bounds:
  "leading_zero_bits_loop 0 bs \<le> 8 * length bs
   \<and> be_value bs < 2 ^ (8 * length bs - leading_zero_bits_loop 0 bs)
   \<and> (be_value bs \<noteq> 0 \<longrightarrow> 2 ^ (8 * length bs - leading_zero_bits_loop 0 bs) \<le> 2 * be_value bs)"
proof (induction bs)
  case (Cons b bs)
  let ?n = "length bs" and ?k = "leading_zeros_u8 b"
  show ?case
  proof (cases "b = 0")
    case True
    with Cons show ?thesis
      by (simp add: leading_zero_bits_loop_add [of 8] be_value_Cons)
  next
    case False
    note bs = be_value_less [of bs] and k = leading_zeros_u8_bounds [of b]
    have exp: "2 ^ (8 * length (b # bs) - ?k) = 2 ^ (8 - ?k) * (256 :: nat) ^ ?n"
    proof -
      have "8 * length (b # bs) - ?k = (8 - ?k) + 8 * ?n" using k(1) by simp
      then show ?thesis by (simp add: power_add power_mult)
    qed
    have "Suc (unat b) * 256 ^ ?n \<le> 2 ^ (8 - ?k) * 256 ^ ?n"
      using k(2) by (intro mult_right_mono) auto
    moreover have "2 ^ (8 - ?k) * 256 ^ ?n \<le> 2 * (unat b * 256 ^ ?n)"
      using mult_right_mono [OF k(3) [OF False], of "256 ^ ?n"] by (simp only: mult.assoc zero_le)
    ultimately show ?thesis using False bs k(1) exp
      by (simp add: be_value_Cons trans_le_add1)
  qed
qed simp

lemma leading_zero_bits_le: "leading_zero_bits x \<le> 256"
  using leading_zero_bits_loop_bounds [of "bytes_of x"] by (simp add: leading_zero_bits_def)

lemma leading_zero_bits_upper: "unat x < 2 ^ (256 - leading_zero_bits x)"
  using leading_zero_bits_loop_bounds [of "bytes_of x"] by (simp add: leading_zero_bits_def)

lemma leading_zero_bits_lower: "x \<noteq> 0 \<Longrightarrow> 2 ^ (256 - leading_zero_bits x) \<le> 2 * unat x"
  using leading_zero_bits_loop_bounds [of "bytes_of x"]
  by (simp add: leading_zero_bits_def unat_gt_0 [symmetric])

lemma leading_zero_bits_zero: "leading_zero_bits 0 = 256"
proof (rule ccontr)
  assume "leading_zero_bits 0 \<noteq> 256"
  with leading_zero_bits_le [of 0]
  obtain k where k: "256 - leading_zero_bits 0 = Suc k" by (cases "256 - leading_zero_bits 0") auto
  have "leading_zero_bits_loop 0 (bytes_of 0) = 256"
  proof -
    have z: "be_bytes n 0 = replicate n 0" for n
      by (induction n) (auto simp: replicate_append_same)
    have "leading_zero_bits_loop 0 (replicate n 0) = 8 * n" for n
      by (induction n) (auto simp: leading_zero_bits_loop_add [of 8])
    then show ?thesis by (simp add: bytes_of_def z)
  qed
  with \<open>leading_zero_bits 0 \<noteq> 256\<close> show False by (simp add: leading_zero_bits_def)
qed

lemma leading_zero_bits_antimono:
  assumes "h \<le> t"
  shows "leading_zero_bits t \<le> leading_zero_bits h"
proof (cases "h = 0")
  case True
  then show ?thesis using leading_zero_bits_le [of t] by (simp add: leading_zero_bits_zero)
next
  case False
  have "2 ^ (256 - leading_zero_bits h) \<le> 2 * unat h" by (rule leading_zero_bits_lower [OF False])
  also have "\<dots> \<le> 2 * unat t" using assms by (simp add: word_le_nat_alt)
  also have "\<dots> < 2 * 2 ^ (256 - leading_zero_bits t)" using leading_zero_bits_upper [of t] by simp
  finally have "(2 :: nat) ^ (256 - leading_zero_bits h) < 2 ^ Suc (256 - leading_zero_bits t)"
    by simp
  then have "256 - leading_zero_bits h \<le> 256 - leading_zero_bits t"
    by (simp only: power_strict_increasing_iff less_Suc_eq_le)
  then show ?thesis using leading_zero_bits_le [of h] leading_zero_bits_le [of t] by linarith
qed

subsection \<open>PoW level\<close>

lemma pow_level_split:
  assumes "h \<le> t"
  shows "256 - leading_zero_bits t = (256 - leading_zero_bits h) + pow_level h t"
  using leading_zero_bits_antimono [OF assms] leading_zero_bits_le [of h] assms
  by (simp add: pow_level_def)

text \<open>The level over-states the rarity by less than a factor of two.\<close>

lemma pow_level_factor_two:
  assumes "h \<le> t" and "t \<noteq> 0"
  shows "unat h * 2 ^ pow_level h t < 2 * unat t"
proof -
  have "unat h * 2 ^ pow_level h t < 2 ^ (256 - leading_zero_bits h) * 2 ^ pow_level h t"
    using leading_zero_bits_upper [of h] by simp
  also have "\<dots> = 2 ^ (256 - leading_zero_bits t)"
    by (simp add: pow_level_split [OF assms(1)] power_add)
  also have "\<dots> \<le> 2 * unat t" by (rule leading_zero_bits_lower [OF assms(2)])
  finally show ?thesis .
qed

text \<open>The number of leading zero bits is the position of the top bit.\<close>

lemma leading_zero_bits_unique:
  assumes "2 ^ n \<le> unat x" and "unat x < 2 ^ Suc n"
  shows "leading_zero_bits x = 255 - n"
proof -
  let ?m = "256 - leading_zero_bits x"
  have "x \<noteq> 0" using assms(1) by (cases "x = 0") auto
  have "(2::nat) ^ n < 2 ^ ?m" using assms(1) leading_zero_bits_upper [of x] by linarith
  moreover have "(2::nat) ^ ?m < 2 ^ Suc (Suc n)"
    using assms(2) leading_zero_bits_lower [OF \<open>x \<noteq> 0\<close>] by simp
  ultimately have "n < ?m \<and> ?m < Suc (Suc n)"
    by (simp only: power_strict_increasing_iff one_less_numeral_iff semiring_norm)
  then show ?thesis by linarith
qed

text \<open>
  The documented reading \<open>hash \<le> target / 2^level\<close> does not hold: a hash just below a target
  that is a power of two has level 1.
\<close>

lemma pow_level_doc_counterexample:
  "pow_level (2 ^ 247 - 1) (2 ^ 247) = 1 \<and>
   unat (2 ^ 247 :: bytes32) < unat (2 ^ 247 - 1 :: bytes32) * 2 ^ 1"
proof -
  have "leading_zero_bits (2 ^ 247) = 8" by (subst leading_zero_bits_unique [of 247]) simp_all
  moreover have "leading_zero_bits (2 ^ 247 - 1) = 9"
    by (subst leading_zero_bits_unique [of 246]) simp_all
  ultimately show ?thesis by (simp add: pow_level_def)
qed

subsection \<open>Properties\<close>

text \<open>
  Property C31.  Chain work: for every target the computation of the work returns (its final
  addition never overflows), the result is \<open>2^256 / (target + 1)\<close> rounded down, saturated at
  \<open>2^256 - 1\<close> for the zero target, and is never zero.
\<close>

theorem work_is_expected_hashes:
  "\<exists>w. work_for_target_checked t = Some w \<and> 0 < unat w
    \<and> unat w = min (2 ^ 256 div (unat t + 1)) (2 ^ 256 - 1)"
proof (cases "t = 0")
  case False
  then have "unat (work_for_target t) \<le> 2 ^ 256 - 1"
    using unsigned_less [of "work_for_target t", where 'a = nat] by simp
  with False show ?thesis
    using unat_work_for_target [OF False] work_for_target_pos [of t]
    by (simp add: work_for_target_no_panic min_absorb1)
qed (simp add: work_for_target_no_panic unat_minus_one)

text \<open>
  The PoW level of a hash that meets its target over-states the rarity of the
  hash by less than a factor of two: \<open>hash * 2^level < 2 * target\<close>.
\<close>

theorem pow_level_rarity:
  assumes "meets_target h t" and "t \<noteq> 0"
  shows "unat h * 2 ^ pow_level h t < 2 * unat t"
  using assms by (intro pow_level_factor_two) simp_all

theorem pow_level_rarity_witness: "unat (3 :: bytes32) * 2 ^ pow_level 3 5 < 2 * unat (5 :: target)"
  by (rule pow_level_rarity) simp_all

end
