(* ===== verification/Block.thy ===== *)
theory Block
  imports Target
begin

text \<open>
  Block and header types: \<^verbatim>\<open>crates/tao-consensus/src/block.rs\<close>.

  The two hashes the code takes from outside are parameters: \<open>H\<close> is \<open>blake3::hash\<close> (and
  the incremental hasher, whose documented result is the hash of the concatenated updates),
  \<open>ser\<close> is \<open>bincode::serialize\<close>.  The Merkle root is the code's level-by-level loop.  Its
  lemmas: the loop ends in one node; two transaction lists of one length with one root are
  equal unless the two computations hash two distinct inputs to one value; and appending a
  copy of the last transaction of an odd list keeps the root.
\<close>

type_synonym block_id = bytes32
type_synonym hasher = "bytes \<Rightarrow> bytes32"

definition HEADER_VERSION :: u32 where
  "HEADER_VERSION = 1"

record block_header =
  bh_version :: u32
  bh_prev_hash :: bytes32
  bh_height :: u64
  bh_timestamp :: i64
  bh_tx_merkle_root :: bytes32
  bh_state_root :: bytes32
  bh_target :: target
  bh_nonce :: u64
  bh_miner :: bytes32

definition header_id :: "hasher \<Rightarrow> (block_header \<Rightarrow> bytes) \<Rightarrow> block_header \<Rightarrow> block_id" where
  "header_id H ser h = H (ser h)"

definition is_genesis :: "block_header \<Rightarrow> bool" where
  "is_genesis h \<longleftrightarrow> bh_height h = 0 \<and> bh_prev_hash h = 0"

record block =
  blk_header :: block_header
  blk_transactions :: "bytes list"

definition block_new :: "block_header \<Rightarrow> bytes list \<Rightarrow> block" where
  "block_new h txs = \<lparr>blk_header = h, blk_transactions = txs\<rparr>"

definition block_id_of :: "hasher \<Rightarrow> (block_header \<Rightarrow> bytes) \<Rightarrow> block \<Rightarrow> block_id" where
  "block_id_of H ser b = header_id H ser (blk_header b)"

subsection \<open>The multi-parent header\<close>

record dag_block_header =
  dh_version :: u32
  dh_parents :: "block_id list"
  dh_timestamp :: i64
  dh_tx_merkle_root :: bytes32
  dh_state_root :: bytes32
  dh_target :: target
  dh_interlink :: "block_id list"
  dh_nonce :: u64
  dh_miner :: bytes32

definition dag_header_id ::
    "hasher \<Rightarrow> (dag_block_header \<Rightarrow> bytes) \<Rightarrow> dag_block_header \<Rightarrow> block_id" where
  "dag_header_id H ser h = H (ser h)"

record dag_block =
  db_header :: dag_block_header
  db_transactions :: "bytes list"

definition dag_block_id :: "hasher \<Rightarrow> (dag_block_header \<Rightarrow> bytes) \<Rightarrow> dag_block \<Rightarrow> block_id" where
  "dag_block_id H ser b = dag_header_id H ser (db_header b)"

record legacy_dag_block_v1 =
  v1_version :: u32
  v1_parents :: "block_id list"
  v1_timestamp :: i64
  v1_tx_merkle_root :: bytes32
  v1_target :: target
  v1_nonce :: u64
  v1_miner :: bytes32
  v1_transactions :: "bytes list"

record legacy_dag_block_v2 =
  v2_version :: u32
  v2_parents :: "block_id list"
  v2_timestamp :: i64
  v2_tx_merkle_root :: bytes32
  v2_state_root :: bytes32
  v2_target :: target
  v2_nonce :: u64
  v2_miner :: bytes32
  v2_transactions :: "bytes list"

definition dag_block_from_v1 :: "legacy_dag_block_v1 \<Rightarrow> dag_block" where
  "dag_block_from_v1 v =
     \<lparr>db_header = \<lparr>dh_version = v1_version v, dh_parents = v1_parents v,
        dh_timestamp = v1_timestamp v, dh_tx_merkle_root = v1_tx_merkle_root v,
        dh_state_root = 0, dh_target = v1_target v, dh_interlink = [],
        dh_nonce = v1_nonce v, dh_miner = v1_miner v\<rparr>,
      db_transactions = v1_transactions v\<rparr>"

definition dag_block_from_v2 :: "legacy_dag_block_v2 \<Rightarrow> dag_block" where
  "dag_block_from_v2 v =
     \<lparr>db_header = \<lparr>dh_version = v2_version v, dh_parents = v2_parents v,
        dh_timestamp = v2_timestamp v, dh_tx_merkle_root = v2_tx_merkle_root v,
        dh_state_root = v2_state_root v, dh_target = v2_target v, dh_interlink = [],
        dh_nonce = v2_nonce v, dh_miner = v2_miner v\<rparr>,
      db_transactions = v2_transactions v\<rparr>"

text \<open>The three decoders are \<open>bincode::deserialize\<close> at the three types.\<close>

definition dag_block_from_bytes ::
    "(bytes \<Rightarrow> 'e + dag_block) \<Rightarrow> (bytes \<Rightarrow> 'e + legacy_dag_block_v2) \<Rightarrow>
     (bytes \<Rightarrow> 'e + legacy_dag_block_v1) \<Rightarrow> bytes \<Rightarrow> 'e + dag_block" where
  "dag_block_from_bytes de de2 de1 bs =
     (case de bs of Inr b \<Rightarrow> Inr b
      | Inl _ \<Rightarrow> (case de2 bs of Inr v \<Rightarrow> Inr (dag_block_from_v2 v)
        | Inl _ \<Rightarrow> (case de1 bs of Inr v \<Rightarrow> Inr (dag_block_from_v1 v)
          | Inl _ \<Rightarrow> de bs)))"

subsection \<open>The transaction Merkle root\<close>

definition merkle_node :: "hasher \<Rightarrow> bytes32 \<times> bytes32 \<Rightarrow> bytes32" where
  "merkle_node H p = H (bytes_of (fst p) @ bytes_of (snd p))"

definition pad_odd :: "'a list \<Rightarrow> 'a list" where
  "pad_odd level = (if length level mod 2 = 1 then level @ [last level] else level)"

definition next_level :: "hasher \<Rightarrow> bytes32 list \<Rightarrow> bytes32 list" where
  "next_level H level = map (merkle_node H) (pairs (pad_odd level))"

lemma length_pad_odd: "length (pad_odd xs) = 2 * ((length xs + 1) div 2)"
  unfolding pad_odd_def by (simp; presburger)

lemma length_next_level: "length (next_level H level) = (length level + 1) div 2"
  by (simp add: next_level_def length_pad_odd)

function merkle_levels :: "hasher \<Rightarrow> bytes32 list \<Rightarrow> bytes32 list" where
  "merkle_levels H level =
     (if length level > 1 then merkle_levels H (next_level H level) else level)"
  by pat_completeness auto
termination
  by (relation "measure (\<lambda>(H, level). length level)") (auto simp: length_next_level)

declare merkle_levels.simps [simp del]

definition tx_merkle_root :: "hasher \<Rightarrow> bytes list \<Rightarrow> bytes32" where
  "tx_merkle_root H txs =
     (if txs = [] then 0 else merkle_levels H (map H txs) ! 0)"

lemma merkle_levels_single:
  "level \<noteq> [] \<Longrightarrow> length (merkle_levels H level) = 1"
proof (induction H level rule: merkle_levels.induct)
  case (1 H level)
  show ?case
  proof (cases "length level > 1")
    case True
    then have "next_level H level \<noteq> []"
      by (simp add: length_next_level flip: length_greater_0_conv)
    with True 1 show ?thesis by (simp add: merkle_levels.simps [of H level])
  next
    case False
    with "1.prems" have "length level = 1" by (cases level) auto
    then show ?thesis by (simp add: merkle_levels.simps [of H level])
  qed
qed

text \<open>The inputs that one computation of the root hashes, level by level.\<close>

definition level_inputs :: "bytes32 list \<Rightarrow> bytes list" where
  "level_inputs level = map (\<lambda>p. bytes_of (fst p) @ bytes_of (snd p)) (pairs (pad_odd level))"

function merkle_inputs :: "hasher \<Rightarrow> bytes32 list \<Rightarrow> bytes list" where
  "merkle_inputs H level =
     (if length level > 1 then level_inputs level @ merkle_inputs H (next_level H level) else [])"
  by pat_completeness auto
termination
  by (relation "measure (\<lambda>(H, level). length level)") (auto simp: length_next_level)

declare merkle_inputs.simps [simp del]

definition tx_root_inputs :: "hasher \<Rightarrow> bytes list \<Rightarrow> bytes set" where
  "tx_root_inputs H txs = set txs \<union> set (merkle_inputs H (map H txs))"

lemma next_level_inputs: "next_level H level = map H (level_inputs level)"
  by (simp add: next_level_def level_inputs_def merkle_node_def comp_def)

lemma pairs_inject:
  assumes "length xs = length ys" and "even (length xs)" and "pairs xs = pairs ys"
  shows "xs = ys"
  using assms
proof (induction xs arbitrary: ys rule: pairs.induct)
  case (1 x y xs)
  then show ?case by (cases ys rule: pairs.cases) auto
qed auto

lemma pad_odd_inject:
  assumes "length xs = length ys" and "pad_odd xs = pad_odd ys"
  shows "xs = ys"
  using assms by (auto simp: pad_odd_def split: if_splits)

lemma even_length_pad_odd: "even (length (pad_odd xs))"
  by (simp add: length_pad_odd)

lemma level_inputs_inject:
  assumes "length xs = length ys" and "level_inputs xs = level_inputs ys"
  shows "xs = ys"
proof -
  have inj: "inj (\<lambda>p. bytes_of (fst p) @ bytes_of (snd p))"
    by (rule injI) (auto simp: prod_eq_iff append_eq_append_conv)
  have "pairs (pad_odd xs) = pairs (pad_odd ys)"
    using assms(2) inj by (simp add: level_inputs_def inj_map_eq_map)
  moreover have "length (pad_odd xs) = length (pad_odd ys)"
    using assms(1) by (simp add: length_pad_odd)
  ultimately have "pad_odd xs = pad_odd ys"
    using even_length_pad_odd pairs_inject by blast
  with assms(1) show ?thesis by (rule pad_odd_inject)
qed

lemma merkle_levels_binding:
  assumes "length xs = length ys"
    and "inj_on H (set (merkle_inputs H xs) \<union> set (merkle_inputs H ys))"
    and "merkle_levels H xs = merkle_levels H ys"
  shows "xs = ys"
  using assms
proof (induction H xs arbitrary: ys rule: merkle_levels.induct)
  case (1 H xs)
  show ?case
  proof (cases "length xs > 1")
    case True
    note unfold = merkle_inputs.simps [of H xs] merkle_inputs.simps [of H ys]
      merkle_levels.simps [of H xs] merkle_levels.simps [of H ys]
    have "length (next_level H xs) = length (next_level H ys)"
      using "1.prems"(1) by (simp add: length_next_level)
    moreover have "inj_on H (set (merkle_inputs H (next_level H xs)) \<union>
        set (merkle_inputs H (next_level H ys)))"
      using "1.prems"(1,2) True by (auto simp: unfold elim!: inj_on_subset)
    ultimately have "next_level H xs = next_level H ys"
      using True "1.prems"(1,3) by (intro "1.IH") (simp_all add: unfold)
    then have "map H (level_inputs xs) = map H (level_inputs ys)"
      by (simp add: next_level_inputs)
    moreover have "inj_on H (set (level_inputs xs) \<union> set (level_inputs ys))"
      using "1.prems"(1,2) True by (auto simp: unfold elim!: inj_on_subset)
    ultimately have "level_inputs xs = level_inputs ys"
      by (rule map_inj_on)
    with "1.prems"(1) show ?thesis by (rule level_inputs_inject)
  next
    case False
    with 1 show ?thesis
      by (simp add: merkle_levels.simps [of H xs] merkle_levels.simps [of H ys])
  qed
qed

lemma tx_merkle_root_binding_lemma:
  assumes len: "length xs = length ys"
    and inj: "inj_on H (tx_root_inputs H xs \<union> tx_root_inputs H ys)"
    and root: "tx_merkle_root H xs = tx_merkle_root H ys"
  shows "xs = ys"
proof (cases "xs = []")
  case False
  with len have "ys \<noteq> []" by auto
  have single: "merkle_levels H (map H zs) = [tx_merkle_root H zs]" if "zs \<noteq> []" for zs
  proof -
    have "length (merkle_levels H (map H zs)) = Suc 0"
      using that merkle_levels_single [of "map H zs" H] by simp
    then obtain r where "merkle_levels H (map H zs) = [r]" by (auto simp: length_Suc_conv)
    with that show ?thesis by (simp add: tx_merkle_root_def)
  qed
  have "length (map H xs) = length (map H ys)" using len by simp
  moreover have "inj_on H (set (merkle_inputs H (map H xs)) \<union> set (merkle_inputs H (map H ys)))"
    by (rule inj_on_subset [OF inj]) (auto simp: tx_root_inputs_def)
  moreover have "merkle_levels H (map H xs) = merkle_levels H (map H ys)"
    by (simp only: single [OF False] single [OF \<open>ys \<noteq> []\<close>] root)
  ultimately have "map H xs = map H ys" by (rule merkle_levels_binding)
  moreover have "inj_on H (set xs \<union> set ys)"
    by (rule inj_on_subset [OF inj]) (auto simp: tx_root_inputs_def)
  ultimately show ?thesis by (rule map_inj_on)
qed (use len in simp)

text \<open>An odd level and its padded form have one next level, hence one root.\<close>

lemma merkle_levels_pad:
  assumes "odd (length level)" and "length level > 1"
  shows "merkle_levels H (level @ [last level]) = merkle_levels H level"
proof -
  have "pad_odd (level @ [last level]) = level @ [last level]" "pad_odd level = level @ [last level]"
    using assms(1) by (auto simp: pad_odd_def odd_iff_mod_2_eq_one)
  then have same: "next_level H (level @ [last level]) = next_level H level"
    by (simp add: next_level_def)
  have "merkle_levels H l = merkle_levels H (next_level H l)" if "length l > 1" for l
    using that by (simp add: merkle_levels.simps [of H l])
  from this [of level] this [of "level @ [last level]"] assms(2) same show ?thesis
    by (metis length_append less_add_same_cancel1 trans_less_add1)
qed

lemma tx_merkle_root_duplicate_last_lemma:
  assumes "odd (length txs)" and "length txs > 1"
  shows "tx_merkle_root H (txs @ [last txs]) = tx_merkle_root H txs"
proof -
  have "txs \<noteq> []" using assms by auto
  then have "last (map H txs) = H (last txs)" by (rule last_map)
  with assms \<open>txs \<noteq> []\<close> merkle_levels_pad [of "map H txs" H] show ?thesis
    by (simp add: tx_merkle_root_def)
qed

subsection \<open>Properties\<close>

text \<open>
  Property C30.  The transaction Merkle root binds the transactions: two lists of one length
  with one root are equal, unless the two computations hash two distinct byte strings to the
  same value.
\<close>

theorem tx_merkle_root_binding:
  assumes "length xs = length ys"
    and "inj_on H (tx_root_inputs H xs \<union> tx_root_inputs H ys)"
    and "tx_merkle_root H xs = tx_merkle_root H ys"
  shows "xs = ys"
  using assms by (rule tx_merkle_root_binding_lemma)

text \<open>
  The hash of the witness, a table that tells apart the byte strings hashed for the two lists
  below: three transactions each, so the leaf level is padded and two levels follow.
\<close>

definition table_hash :: hasher where
  "table_hash bs =
    (if bs = [1] then 1 else if bs = [2] then 2 else if bs = [3] then 3 else if bs = [4] then 4
     else if bs = bytes_of 1 @ bytes_of 2 then 5
     else if bs = bytes_of 3 @ bytes_of 3 then 6
     else if bs = bytes_of 4 @ bytes_of 4 then 7
     else if bs = bytes_of 5 @ bytes_of 6 then 8
     else if bs = bytes_of 5 @ bytes_of 7 then 9 else 0)"

lemma pair_not_single: "bytes_of x @ bytes_of y \<noteq> [b]"
proof
  assume "bytes_of x @ bytes_of y = [b]"
  then have "length (bytes_of x @ bytes_of y) = 1" by simp
  then show False by simp
qed

lemma pair_inject: "bytes_of x @ bytes_of y = bytes_of x' @ bytes_of y' \<longleftrightarrow> x = x' \<and> y = y'"
  by (simp add: append_eq_append_conv)

lemma table_hash_simps:
  "table_hash [1] = 1" "table_hash [2] = 2" "table_hash [3] = 3" "table_hash [4] = 4"
  "table_hash (bytes_of 1 @ bytes_of 2) = 5" "table_hash (bytes_of 3 @ bytes_of 3) = 6"
  "table_hash (bytes_of 4 @ bytes_of 4) = 7" "table_hash (bytes_of 5 @ bytes_of 6) = 8"
  "table_hash (bytes_of 5 @ bytes_of 7) = 9"
  by (simp_all add: table_hash_def pair_not_single pair_inject)

lemma table_root:
  assumes "table_hash [b] = x" "table_hash (bytes_of x @ bytes_of x) = y"
    and "table_hash (bytes_of 5 @ bytes_of y) = z"
  shows "tx_merkle_root table_hash [[1], [2], [b]] = z"
    and "tx_root_inputs table_hash [[1], [2], [b]] =
      {[1], [2], [b], bytes_of 1 @ bytes_of 2, bytes_of x @ bytes_of x, bytes_of 5 @ bytes_of y}"
  using assms
  by (auto simp: tx_merkle_root_def tx_root_inputs_def merkle_levels.simps merkle_inputs.simps
      level_inputs_def next_level_def pad_odd_def merkle_node_def table_hash_simps)

theorem tx_merkle_root_binding_witness:
  "inj_on table_hash (tx_root_inputs table_hash [[1], [2], [3]] \<union>
      tx_root_inputs table_hash [[1], [2], [4]]) \<and>
   tx_merkle_root table_hash [[1], [2], [3]] \<noteq> tx_merkle_root table_hash [[1], [2], [4]]"
proof
  show inj: "inj_on table_hash (tx_root_inputs table_hash [[1], [2], [3]] \<union>
      tx_root_inputs table_hash [[1], [2], [4]])"
    by (simp add: table_root(2) [of 3 3 6 8] table_root(2) [of 4 4 7 9] table_hash_simps
        inj_on_def pair_not_single pair_not_single [symmetric] pair_inject)
  show "tx_merkle_root table_hash [[1], [2], [3]] \<noteq> tx_merkle_root table_hash [[1], [2], [4]]"
  proof
    assume "tx_merkle_root table_hash [[1], [2], [3]] = tx_merkle_root table_hash [[1], [2], [4]]"
    from tx_merkle_root_binding [OF _ inj this] show False by simp
  qed
qed

text \<open>
  The root does not bind the number of transactions: a list of odd length above
  one and the list with its last transaction repeated have the same root, for every hash.
\<close>

theorem tx_merkle_root_malleable:
  assumes "odd (length txs)" and "1 < length txs"
  shows "tx_merkle_root H (txs @ [last txs]) = tx_merkle_root H txs"
  using assms by (rule tx_merkle_root_duplicate_last_lemma)

theorem tx_merkle_root_malleable_witness:
  "tx_merkle_root (\<lambda>bs. word_of_nat (length bs)) ([[1], [2, 2], [3]] @ [[3 :: byte]]) =
   tx_merkle_root (\<lambda>bs. word_of_nat (length bs)) [[1], [2, 2], [3]]"
  using tx_merkle_root_malleable [of "[[1], [2, 2], [3 :: byte]]" "\<lambda>bs. word_of_nat (length bs)"]
  by simp

end
