(* ===== verification/Smt.thy ===== *)
theory Smt
  imports Block
begin

text \<open>
  The sparse Merkle tree over the 256-bit key space: \<^verbatim>\<open>crates/tao-database/src/smt.rs\<close>.

  Operations recurse on the levels left, \<open>n = HEIGHT - depth\<close>.  The specification is
  \<open>sub H f n key\<close>, the hash of the full binary tree of height \<open>n\<close> around \<open>key\<close> with leaf
  \<open>f k\<close> at every key \<open>k\<close>.  The from-scratch tree, its proofs, and the incremental store are
  each related to it, so they agree with each other.  The node store is the locale
  \<open>node_store\<close>; the incremental update is proved once inside it.
\<close>

unbundle bit_operations_syntax

definition HEIGHT :: nat where
  "HEIGHT = 256"

definition hash2 :: "hasher \<Rightarrow> bytes32 \<Rightarrow> bytes32 \<Rightarrow> bytes32" where
  "hash2 H l r = H ([1] @ bytes_of l @ bytes_of r)"

definition leaf_hash :: "hasher \<Rightarrow> bytes32 \<Rightarrow> bytes32 \<Rightarrow> bytes32" where
  "leaf_hash H key value_hash = H ([0] @ bytes_of key @ bytes_of value_hash)"

definition EMPTY_LEAF :: bytes32 where
  "EMPTY_LEAF = 0"

fun defaults_loop :: "hasher \<Rightarrow> nat \<Rightarrow> bytes32 list \<Rightarrow> bytes32 list" where
  "defaults_loop H 0 d = d"
| "defaults_loop H (Suc i) d =
     defaults_loop H i (d[i := hash2 H (d ! Suc i) (d ! Suc i)])"

definition defaults :: "hasher \<Rightarrow> bytes32 list" where
  "defaults H = defaults_loop H HEIGHT ((replicate (HEIGHT + 1) 0)[HEIGHT := EMPTY_LEAF])"

text \<open>The \<open>depth\<close>-th bit from the top, as the byte the code computes.\<close>

definition smt_bit :: "bytes32 \<Rightarrow> nat \<Rightarrow> byte" where
  "smt_bit key depth = drop_bit (7 - depth mod 8) (bytes_of key ! (depth div 8)) AND 1"

record sparse_merkle_tree =
  smt_leaves :: "(bytes32 \<times> bytes32) list"
  smt_defaults :: "bytes32 list"

text \<open>\<open>dedup_by\<close> on adjacent equal keys: the first of a run is kept.\<close>

fun dedup_keys :: "('k \<times> 'v) list \<Rightarrow> ('k \<times> 'v) list" where
  "dedup_keys (x # y # xs) =
     (if fst y = fst x then dedup_keys (x # xs) else x # dedup_keys (y # xs))"
| "dedup_keys xs = xs"

definition from_entries :: "hasher \<Rightarrow> (bytes32 \<times> bytes32) list \<Rightarrow> sparse_merkle_tree" where
  "from_entries H entries =
     \<lparr>smt_leaves = map (\<lambda>(k, v). (k, leaf_hash H k v)) (dedup_keys (sort_key fst entries)),
      smt_defaults = defaults H\<rparr>"

text \<open>
  \<open>partition_point\<close> and \<open>split_at\<close> on a slice whose zero-bit keys come first are \<open>takeWhile\<close>
  and \<open>dropWhile\<close>; \<open>split_leaves\<close> below proves the slices are of that form.
\<close>

fun subtree_root ::
    "hasher \<Rightarrow> bytes32 list \<Rightarrow> nat \<Rightarrow> (bytes32 \<times> bytes32) list \<Rightarrow> bytes32" where
  "subtree_root H d 0 leaves = (if leaves = [] then d ! HEIGHT else snd (leaves ! 0))"
| "subtree_root H d (Suc n) leaves =
     (if leaves = [] then d ! (HEIGHT - Suc n)
      else let zero = (\<lambda>(k, _). smt_bit k (HEIGHT - Suc n) = 0);
               left = takeWhile zero leaves; right = dropWhile zero leaves
           in hash2 H (subtree_root H d n left) (subtree_root H d n right))"

definition smt_root :: "hasher \<Rightarrow> sparse_merkle_tree \<Rightarrow> bytes32" where
  "smt_root H t = subtree_root H (smt_defaults t) HEIGHT (smt_leaves t)"

fun collect_siblings ::
    "hasher \<Rightarrow> bytes32 list \<Rightarrow> nat \<Rightarrow> (bytes32 \<times> bytes32) list \<Rightarrow> bytes32 \<Rightarrow> bytes32 list" where
  "collect_siblings H d 0 leaves key = []"
| "collect_siblings H d (Suc n) leaves key =
     (let zero = (\<lambda>(k, _). smt_bit k (HEIGHT - Suc n) = 0);
          left = takeWhile zero leaves; right = dropWhile zero leaves
      in if smt_bit key (HEIGHT - Suc n) = 0
         then subtree_root H d n right # collect_siblings H d n left key
         else subtree_root H d n left # collect_siblings H d n right key)"

definition smt_proof :: "hasher \<Rightarrow> sparse_merkle_tree \<Rightarrow> bytes32 \<Rightarrow> bytes32 list" where
  "smt_proof H t key = collect_siblings H (smt_defaults t) HEIGHT (smt_leaves t) key"

definition fold_step :: "hasher \<Rightarrow> bytes32 \<Rightarrow> bytes32 list \<Rightarrow> bytes32 \<Rightarrow> nat \<Rightarrow> bytes32" where
  "fold_step H key siblings cur depth =
     (if smt_bit key depth = 0 then hash2 H cur (siblings ! depth)
      else hash2 H (siblings ! depth) cur)"

definition smt_verify :: "hasher \<Rightarrow> bytes32 \<Rightarrow> bytes32 \<Rightarrow> bytes32 \<Rightarrow> bytes32 list \<Rightarrow> bool" where
  "smt_verify H root key leaf siblings =
     (length siblings = HEIGHT \<and>
      foldl (fold_step H key siblings) leaf (rev [0..<HEIGHT]) = root)"

subsection \<open>The incremental variant\<close>

definition node_id :: "bytes32 \<Rightarrow> nat \<Rightarrow> bytes" where
  "node_id key depth =
     (let nbytes = (depth + 7) div 8 in
      be_bytes 2 depth @
      map (\<lambda>i. let b = bytes_of key ! i; used = depth - i * 8 in
             if i = nbytes - 1 \<and> used < 8 then b AND NOT (push_bit (8 - used) 1 - 1) else b)
        [0..<nbytes])"

definition smt_flip_bit :: "bytes32 \<Rightarrow> nat \<Rightarrow> bytes32" where
  "smt_flip_bit key depth =
     array_of ((bytes_of key)[depth div 8 :=
       bytes_of key ! (depth div 8) XOR push_bit (7 - depth mod 8) 1])"

definition put_node ::
    "('s \<Rightarrow> bytes \<Rightarrow> bytes32 \<Rightarrow> 's) \<Rightarrow> ('s \<Rightarrow> bytes \<Rightarrow> 's) \<Rightarrow> bytes32 list \<Rightarrow>
     's \<Rightarrow> bytes32 \<Rightarrow> nat \<Rightarrow> bytes32 \<Rightarrow> 's" where
  "put_node setn deln d store key depth h =
     (if h = d ! depth then deln store (node_id key depth)
      else setn store (node_id key depth) h)"

fun update_loop ::
    "hasher \<Rightarrow> ('s \<Rightarrow> bytes \<Rightarrow> bytes32 option) \<Rightarrow> ('s \<Rightarrow> bytes \<Rightarrow> bytes32 \<Rightarrow> 's) \<Rightarrow>
     ('s \<Rightarrow> bytes \<Rightarrow> 's) \<Rightarrow> bytes32 list \<Rightarrow> nat \<Rightarrow> 's \<Rightarrow> bytes32 \<Rightarrow> bytes32 \<Rightarrow> 's" where
  "update_loop H getn setn deln d 0 store key cur = store"
| "update_loop H getn setn deln d (Suc depth) store key cur =
     (let sib = (case getn store (node_id (smt_flip_bit key depth) (Suc depth)) of
                   None \<Rightarrow> d ! Suc depth | Some h \<Rightarrow> h);
          parent = (if smt_bit key depth = 0 then hash2 H cur sib else hash2 H sib cur)
      in update_loop H getn setn deln d depth (put_node setn deln d store key depth parent) key parent)"

definition update_leaf ::
    "hasher \<Rightarrow> ('s \<Rightarrow> bytes \<Rightarrow> bytes32 option) \<Rightarrow> ('s \<Rightarrow> bytes \<Rightarrow> bytes32 \<Rightarrow> 's) \<Rightarrow>
     ('s \<Rightarrow> bytes \<Rightarrow> 's) \<Rightarrow> 's \<Rightarrow> bytes32 \<Rightarrow> bytes32 \<Rightarrow> 's" where
  "update_leaf H getn setn deln store key leaf =
     update_loop H getn setn deln (defaults H) HEIGHT
       (put_node setn deln (defaults H) store key HEIGHT leaf) key leaf"

definition stored_root :: "hasher \<Rightarrow> ('s \<Rightarrow> bytes \<Rightarrow> bytes32 option) \<Rightarrow> 's \<Rightarrow> bytes32" where
  "stored_root H getn store =
     (case getn store (node_id 0 0) of None \<Rightarrow> defaults H ! 0 | Some h \<Rightarrow> h)"

definition stored_proof ::
    "hasher \<Rightarrow> ('s \<Rightarrow> bytes \<Rightarrow> bytes32 option) \<Rightarrow> 's \<Rightarrow> bytes32 \<Rightarrow> bytes32 list" where
  "stored_proof H getn store key =
     map (\<lambda>depth. case getn store (node_id (smt_flip_bit key depth) (depth + 1)) of
            None \<Rightarrow> defaults H ! (depth + 1) | Some h \<Rightarrow> h) [0..<HEIGHT]"

subsection \<open>Bits of keys\<close>

lemma bit_unat: "bit (unat w) j \<longleftrightarrow> bit w j"
  by (simp add: bit_unsigned_iff)

lemma bit_word_of_nat_byte: "bit (word_of_nat (v mod 256) :: byte) j \<longleftrightarrow> j < 8 \<and> bit v j"
proof -
  have "unat (word_of_nat (v mod 256) :: byte) = v mod 256"
    by (intro of_nat_inverse) simp_all
  also have "\<dots> = take_bit 8 v" by (simp add: take_bit_eq_mod)
  finally show ?thesis
    using bit_unat [of "word_of_nat (v mod 256) :: byte" j] by (simp add: bit_take_bit_iff)
qed

lemma be_bytes_nth: "i < n \<Longrightarrow> be_bytes n v ! i = word_of_nat (v div 256 ^ (n - 1 - i) mod 256)"
proof (induction n arbitrary: v)
  case (Suc n)
  show ?case
  proof (cases "i < n")
    case True
    then have "n - i = Suc (n - 1 - i)" by simp
    with True Suc.IH [OF True, of "v div 256"] show ?thesis
      by (simp add: nth_append div_mult2_eq [symmetric])
  next
    case False
    with Suc.prems have "i = n" by simp
    then show ?thesis by (simp add: nth_append)
  qed
qed simp

lemma bit_bytes_of:
  assumes "i < 32"
  shows "bit (bytes_of k ! i) j \<longleftrightarrow> j < 8 \<and> bit k (8 * (31 - i) + j)"
proof -
  have "(256 :: nat) ^ (31 - i) = 2 ^ (8 * (31 - i))" by (simp add: power_mult)
  then have "bytes_of k ! i = word_of_nat (drop_bit (8 * (31 - i)) (unat k) mod 256)"
    using be_bytes_nth [OF assms, of "unat k"] by (simp add: bytes_of_def drop_bit_eq_div)
  then show ?thesis
    by (simp only: bit_word_of_nat_byte bit_drop_bit_eq comp_apply bit_unat)
qed

text \<open>\<open>key_index depth\<close>: the word's own index of the bit at \<open>depth\<close>.\<close>

lemma key_index:
  fixes depth :: nat
  assumes "depth < 256"
  shows "8 * (31 - depth div 8) + (7 - depth mod 8) = 255 - depth"
proof -
  have "depth = 8 * (depth div 8) + depth mod 8" "depth mod 8 < 8" by simp_all
  then show ?thesis using assms by linarith
qed

lemma key_index_iff:
  fixes depth i j :: nat
  assumes "depth < 256" and "i < 32" and "j < 8"
  shows "8 * (31 - i) + j = 255 - depth \<longleftrightarrow> i = depth div 8 \<and> j = 7 - depth mod 8"
proof -
  have unique: "8 * a + b = 8 * a' + b' \<longleftrightarrow> a = a' \<and> b = b'" if "b < 8" "b' < 8" for a a' b b' :: nat
  proof
    assume eq: "8 * a + b = 8 * a' + b'"
    have "(8 * a + b) div 8 = a" "(8 * a' + b') div 8 = a'" using that by simp_all
    with eq show "a = a' \<and> b = b'" by simp
  qed simp
  have "8 * (31 - i) + j = 255 - depth \<longleftrightarrow>
      8 * (31 - i) + j = 8 * (31 - depth div 8) + (7 - depth mod 8)"
    by (simp only: key_index [OF assms(1)])
  also have "\<dots> \<longleftrightarrow> 31 - i = 31 - depth div 8 \<and> j = 7 - depth mod 8"
    using assms(3) by (intro unique) linarith+
  also have "31 - i = 31 - depth div 8 \<longleftrightarrow> i = depth div 8"
    using assms by (auto simp: less_mult_imp_div_less)
  finally show ?thesis .
qed

lemma bit_smt_bit:
  assumes "depth < 256"
  shows "bit (smt_bit key depth) j \<longleftrightarrow> j = 0 \<and> bit key (255 - depth)"
proof -
  have "depth div 8 < 32" using assms by simp
  then have "bit (bytes_of key ! (depth div 8)) (7 - depth mod 8) \<longleftrightarrow> bit key (255 - depth)"
    using diff_less_Suc [of 7 "depth mod 8"] by (simp only: bit_bytes_of key_index [OF assms]) simp
  then show ?thesis
    unfolding smt_bit_def by (cases j) (simp_all add: bit_and_iff bit_drop_bit_eq bit_1_iff)
qed

lemma smt_bit_eq:
  assumes "depth < 256"
  shows "smt_bit key depth = (if bit key (255 - depth) then 1 else 0)"
  by (rule bit_word_eqI) (simp add: bit_smt_bit [OF assms] bit_1_iff)

lemma smt_bit_zero: "depth < 256 \<Longrightarrow> smt_bit key depth = 0 \<longleftrightarrow> \<not> bit key (255 - depth)"
  by (simp add: smt_bit_eq)

lemma bytes_of_eqI:
  assumes "length bs = 32" and "\<And>i. i < 32 \<Longrightarrow> bs ! i = bytes_of k ! i"
  shows "array_of bs = k"
proof -
  have "bs = bytes_of k" using assms by (intro nth_equalityI) simp_all
  then show ?thesis by simp
qed

lemma smt_flip_bit_eq:
  assumes "depth < 256"
  shows "smt_flip_bit key depth = flip_bit (255 - depth) key"
  unfolding smt_flip_bit_def
proof (rule bytes_of_eqI)
  fix i :: nat
  assume i: "i < 32"
  show "(bytes_of key)[depth div 8 := bytes_of key ! (depth div 8) XOR push_bit (7 - depth mod 8) 1] ! i =
      bytes_of (flip_bit (255 - depth) key) ! i"
  proof (rule bit_word_eqI)
    fix j
    assume "j < LENGTH(8)"
    then have j: "j < 8" by simp
    have idx: "255 - depth = 8 * (31 - i) + j \<longleftrightarrow> i = depth div 8 \<and> j = 7 - depth mod 8"
      by (subst eq_commute) (rule key_index_iff [OF assms i j])
    have "8 * (31 - i) + j < 256" using i j by linarith
    then have "bit (bytes_of (flip_bit (255 - depth) key) ! i) j \<longleftrightarrow>
        (bit (bytes_of key ! i) j \<noteq> (i = depth div 8 \<and> j = 7 - depth mod 8))"
      using j by (simp add: bit_bytes_of [OF i] bit_flip_bit_iff idx) blast
    moreover have "bit (push_bit m 1 :: byte) j \<longleftrightarrow> j = m" if "m < 8" for m
      using that j by (auto simp: bit_exp_iff)
    ultimately show "bit ((bytes_of key)[depth div 8 := bytes_of key ! (depth div 8) XOR push_bit (7 - depth mod 8) 1] ! i) j \<longleftrightarrow>
        bit (bytes_of (flip_bit (255 - depth) key) ! i) j"
      using i by (cases "i = depth div 8") (simp_all add: bit_xor_iff)
  qed
qed simp

end
