(* ===== verification/SmtTree.thy ===== *)
theory SmtTree
  imports Smt
begin

text \<open>
  The specification of the sparse Merkle tree, and the from-scratch tree of
  \<^verbatim>\<open>crates/tao-database/src/smt.rs\<close> proved against it: its root is the root of the full
  tree over the key space, its proofs list the siblings of that tree, a proof verifies
  exactly the leaf stored at its key, and two proofs that verify at one key under one root
  are the same.
\<close>

fun sub :: "hasher \<Rightarrow> (bytes32 \<Rightarrow> bytes32) \<Rightarrow> nat \<Rightarrow> bytes32 \<Rightarrow> bytes32" where
  "sub H f 0 k = f k"
| "sub H f (Suc n) k = hash2 H (sub H f n (unset_bit n k)) (sub H f n (set_bit n k))"

text \<open>Two keys in one subtree of height \<open>n\<close>.\<close>

definition agree :: "nat \<Rightarrow> bytes32 \<Rightarrow> bytes32 \<Rightarrow> bool" where
  "agree n a b \<longleftrightarrow> drop_bit n a = drop_bit n b"

lemma agree_iff: "agree n a b \<longleftrightarrow> (\<forall>m \<ge> n. bit a m = bit b m)"
proof
  assume "agree n a b"
  then have "bit (drop_bit n a) m = bit (drop_bit n b) m" for m by (simp only: agree_def)
  then have "bit a (n + m) = bit b (n + m)" for m by (simp only: bit_drop_bit_eq comp_apply)
  then show "\<forall>m \<ge> n. bit a m = bit b m" by (metis le_add_diff_inverse)
next
  assume "\<forall>m \<ge> n. bit a m = bit b m"
  then show "agree n a b" unfolding agree_def by (intro bit_word_eqI) (simp add: bit_drop_bit_eq)
qed

lemma agree_refl [simp]: "agree n a a"
  by (simp add: agree_def)

lemma agree_0 [simp]: "agree 0 a b \<longleftrightarrow> a = b"
  by (simp add: agree_def)

lemma agree_sym: "agree n a b \<longleftrightarrow> agree n b a"
  by (auto simp: agree_def)

lemma agree_256 [simp]: "agree 256 a b"
  by (auto simp: agree_iff dest: bit_imp_le_length)

lemma bit_unset: "bit (unset_bit n k) m \<longleftrightarrow> bit k m \<and> m \<noteq> n"
  by (auto simp: bit_unset_bit_iff)

lemma bit_set: "n < 256 \<Longrightarrow> bit (set_bit n k) m \<longleftrightarrow> bit k m \<or> m = n" for k :: bytes32
  by (auto simp: bit_set_bit_iff)

lemma bit_flip: "n < 256 \<Longrightarrow> bit (flip_bit n k) m \<longleftrightarrow> bit k m \<noteq> (m = n)" for k :: bytes32
  using bit_imp_le_length [of k m] by (auto simp: bit_flip_bit_iff)

text \<open>The two halves of a subtree.\<close>

lemma agree_unset: "agree n x (unset_bit n k) \<longleftrightarrow> agree (Suc n) x k \<and> \<not> bit x n"
  by (auto simp: agree_iff bit_unset Suc_le_eq nat_less_le)

lemma agree_set: "n < 256 \<Longrightarrow> agree n x (set_bit n k) \<longleftrightarrow> agree (Suc n) x k \<and> bit x n"
  by (auto simp: agree_iff bit_set Suc_le_eq nat_less_le)

lemma agree_flip: "n < 256 \<Longrightarrow> agree n x (flip_bit n k) \<longleftrightarrow> agree (Suc n) x k \<and> bit x n \<noteq> bit k n"
  by (auto simp: agree_iff bit_flip Suc_le_eq nat_less_le)

lemma agree_Suc: "agree n x k \<longleftrightarrow> agree (Suc n) x k \<and> bit x n = bit k n"
  by (auto simp: agree_iff Suc_le_eq nat_less_le)

lemma agree_trans: "agree n a b \<Longrightarrow> agree n b c \<Longrightarrow> agree n a c"
  by (simp add: agree_def)

lemma agree_half [simp]:
  "agree (Suc n) (unset_bit n k) k' \<longleftrightarrow> agree (Suc n) k k'"
  "n < 256 \<Longrightarrow> agree (Suc n) (set_bit n k) k' \<longleftrightarrow> agree (Suc n) k k'"
  "n < 256 \<Longrightarrow> agree (Suc n) (flip_bit n k) k' \<longleftrightarrow> agree (Suc n) k k'"
  "agree (Suc n) k' (unset_bit n k) \<longleftrightarrow> agree (Suc n) k' k"
  "n < 256 \<Longrightarrow> agree (Suc n) k' (set_bit n k) \<longleftrightarrow> agree (Suc n) k' k"
  "n < 256 \<Longrightarrow> agree (Suc n) k' (flip_bit n k) \<longleftrightarrow> agree (Suc n) k' k"
  by (auto simp: agree_iff bit_unset bit_set bit_flip Suc_le_eq)

lemma sub_cong:
  assumes "n \<le> 256" and "agree n k k'" and "\<And>x. agree n x k \<Longrightarrow> f x = g x"
  shows "sub H f n k = sub H g n k'"
  using assms
proof (induction n arbitrary: k k')
  case (Suc n)
  have "sub H f n (unset_bit n k) = sub H g n (unset_bit n k')"
    using Suc.prems by (intro Suc.IH) (auto simp: agree_unset bit_unset intro: agree_trans)
  moreover have "sub H f n (set_bit n k) = sub H g n (set_bit n k')"
    using Suc.prems by (intro Suc.IH) (auto simp: agree_set bit_set intro: agree_trans)
  ultimately show ?case by simp
qed simp

lemma sub_halves:
  assumes "n < 256"
  shows "sub H f (Suc n) k =
    (if bit k n then hash2 H (sub H f n (flip_bit n k)) (sub H f n k)
     else hash2 H (sub H f n k) (sub H f n (flip_bit n k)))"
proof -
  have "unset_bit n k = (if bit k n then flip_bit n k else k)"
    "set_bit n k = (if bit k n then k else flip_bit n k)"
    using assms by (auto intro!: bit_word_eqI simp: bit_unset bit_set bit_flip)
  then show ?thesis by simp
qed

lemma sub_upd_other:
  assumes "n \<le> 256" and "\<not> agree n k key"
  shows "sub H (f(key := l)) n k = sub H f n k"
  using assms by (intro sub_cong) (auto simp: agree_sym)

subsection \<open>Default hashes\<close>

definition default_at :: "hasher \<Rightarrow> nat \<Rightarrow> bytes32" where
  "default_at H n = sub H (\<lambda>_. EMPTY_LEAF) n 0"

lemma sub_empty: "sub H (\<lambda>_. EMPTY_LEAF) n k = default_at H n"
proof -
  have "sub H (\<lambda>_. EMPTY_LEAF) n k = sub H (\<lambda>_. EMPTY_LEAF) n k'" for k k'
    by (induction n arbitrary: k k') (simp, metis sub.simps(2))
  then show ?thesis by (simp only: default_at_def)
qed

lemma default_at_Suc: "default_at H (Suc n) = hash2 H (default_at H n) (default_at H n)"
  unfolding default_at_def sub.simps by (simp only: sub_empty)

lemma defaults_loop_correct:
  assumes "i \<le> 256" and "length d = 257" and "\<And>m. i \<le> m \<Longrightarrow> m \<le> 256 \<Longrightarrow> d ! m = default_at H (256 - m)"
    and "m \<le> 256"
  shows "defaults_loop H i d ! m = default_at H (256 - m)"
  using assms
proof (induction i arbitrary: d)
  case (Suc i)
  have len: "length (d[i := hash2 H (d ! Suc i) (d ! Suc i)]) = 257" using Suc.prems(2) by simp
  have at: "d[i := hash2 H (d ! Suc i) (d ! Suc i)] ! j = default_at H (256 - j)"
    if "i \<le> j" "j \<le> 256" for j
  proof (cases "j = i")
    case True
    have "256 - i = Suc (256 - Suc i)" using Suc.prems(1) by simp
    then have "default_at H (256 - i) = hash2 H (d ! Suc i) (d ! Suc i)"
      using Suc.prems(1) Suc.prems(3) [of "Suc i"] by (simp add: default_at_Suc)
    with True Suc.prems(1,2) show ?thesis by simp
  next
    case False
    with that Suc.prems(3) [of j] show ?thesis by simp
  qed
  have "i \<le> 256" using Suc.prems(1) by simp
  from Suc.IH [OF this len at Suc.prems(4)] show ?case by simp
qed simp

lemma defaults_nth: "m \<le> 256 \<Longrightarrow> defaults H ! m = default_at H (256 - m)"
  unfolding defaults_def HEIGHT_def
  by (rule defaults_loop_correct) (auto simp: default_at_def EMPTY_LEAF_def simp del: replicate_Suc)

subsection \<open>Slices of leaves\<close>

definition leaf_at :: "(bytes32 \<times> bytes32) list \<Rightarrow> bytes32 \<Rightarrow> bytes32" where
  "leaf_at leaves k = (case map_of leaves k of None \<Rightarrow> EMPTY_LEAF | Some l \<Rightarrow> l)"

definition slice :: "nat \<Rightarrow> bytes32 \<Rightarrow> (bytes32 \<times> bytes32) list \<Rightarrow> bool" where
  "slice n p leaves \<longleftrightarrow> sorted (map fst leaves) \<and> distinct (map fst leaves)
     \<and> (\<forall>k \<in> fst ` set leaves. agree n k p)"

abbreviation zero_bit :: "nat \<Rightarrow> bytes32 \<times> bytes32 \<Rightarrow> bool" where
  "zero_bit depth \<equiv> \<lambda>(k, _). smt_bit k depth = 0"

lemma zero_bit_iff: "n < 256 \<Longrightarrow> zero_bit (HEIGHT - Suc n) = (\<lambda>kl. \<not> bit (fst kl) n)"
  by (auto simp: HEIGHT_def smt_bit_zero fun_eq_iff)

lemma odd_of_half: "x \<le> y \<Longrightarrow> x div 2 = y div 2 \<Longrightarrow> odd x \<Longrightarrow> odd y" for x y :: nat
  by presburger

lemma sorted_bit:
  fixes a b :: bytes32
  assumes "a \<le> b" and "agree (Suc n) a b" and "bit a n"
  shows "bit b n"
proof -
  have "unat a div 2 ^ n \<le> unat b div 2 ^ n" using assms(1) by (simp add: word_le_nat_alt div_le_mono)
  moreover have "unat a div 2 ^ n div 2 = unat b div 2 ^ n div 2"
  proof -
    have "drop_bit (Suc n) (unat a) = drop_bit (Suc n) (unat b)"
      using assms(2) by (simp only: agree_def flip: unat_drop_bit_eq)
    then show ?thesis by (simp add: drop_bit_eq_div div_mult2_eq [symmetric] mult.commute)
  qed
  moreover have "odd (unat a div 2 ^ n)" using assms(3) bit_unat [of a n] by (simp add: bit_iff_odd)
  ultimately have "odd (unat b div 2 ^ n)"
    by (rule odd_of_half)
  then have "bit (unat b) n" by (simp add: bit_iff_odd)
  then show ?thesis by (simp add: bit_unat)
qed

lemma split_leaves:
  assumes "slice (Suc n) p leaves" and "n < 256"
  shows "takeWhile (zero_bit (HEIGHT - Suc n)) leaves = filter (\<lambda>kl. \<not> bit (fst kl) n) leaves"
    and "dropWhile (zero_bit (HEIGHT - Suc n)) leaves = filter (\<lambda>kl. bit (fst kl) n) leaves"
    and "slice n (unset_bit n p) (filter (\<lambda>kl. \<not> bit (fst kl) n) leaves)"
    and "slice n (set_bit n p) (filter (\<lambda>kl. bit (fst kl) n) leaves)"
proof -
  have mono: "\<not> bit (fst (leaves ! i)) n"
    if "i \<le> j" "j < length leaves" "\<not> bit (fst (leaves ! j)) n" for i j
  proof
    assume "bit (fst (leaves ! i)) n"
    moreover have "fst (leaves ! i) \<le> fst (leaves ! j)"
      using assms(1) that by (auto simp: slice_def sorted_iff_nth_mono)
    moreover have "agree (Suc n) (fst (leaves ! i)) (fst (leaves ! j))"
      using assms(1) that unfolding slice_def
      by (meson agree_sym agree_trans image_eqI le_less_trans nth_mem)
    ultimately show False using sorted_bit that(3) by blast
  qed
  show "takeWhile (zero_bit (HEIGHT - Suc n)) leaves = filter (\<lambda>kl. \<not> bit (fst kl) n) leaves"
    unfolding zero_bit_iff [OF assms(2)] by (rule takeWhile_sorted_split(1)) (rule mono)
  show "dropWhile (zero_bit (HEIGHT - Suc n)) leaves = filter (\<lambda>kl. bit (fst kl) n) leaves"
    unfolding zero_bit_iff [OF assms(2)]
    using takeWhile_sorted_split(2) [of leaves "\<lambda>kl. \<not> bit (fst kl) n"] mono by auto
  show "slice n (unset_bit n p) (filter (\<lambda>kl. \<not> bit (fst kl) n) leaves)"
    using assms by (auto simp: slice_def agree_unset sorted_filter distinct_map_filter)
  show "slice n (set_bit n p) (filter (\<lambda>kl. bit (fst kl) n) leaves)"
    using assms by (auto simp: slice_def agree_set sorted_filter distinct_map_filter)
qed

lemma map_of_filter_key: "map_of (filter (\<lambda>kl. P (fst kl)) xs) k = (if P k then map_of xs k else None)"
  by (induction xs) auto

lemma leaf_at_filter:
  "P k \<Longrightarrow> leaf_at (filter (\<lambda>kl. P (fst kl)) leaves) k = leaf_at leaves k"
  by (simp add: leaf_at_def map_of_filter_key)

lemma slice_half_view:
  assumes "n < 256"
  shows "sub H (leaf_at (filter (\<lambda>kl. \<not> bit (fst kl) n) leaves)) n (unset_bit n p) =
      sub H (leaf_at leaves) n (unset_bit n p)"
    and "sub H (leaf_at (filter (\<lambda>kl. bit (fst kl) n) leaves)) n (set_bit n p) =
      sub H (leaf_at leaves) n (set_bit n p)"
proof -
  show "sub H (leaf_at (filter (\<lambda>kl. \<not> bit (fst kl) n) leaves)) n (unset_bit n p) =
      sub H (leaf_at leaves) n (unset_bit n p)"
    using assms leaf_at_filter [of "\<lambda>k. \<not> bit k n"] by (intro sub_cong) (auto simp: agree_unset)
  show "sub H (leaf_at (filter (\<lambda>kl. bit (fst kl) n) leaves)) n (set_bit n p) =
      sub H (leaf_at leaves) n (set_bit n p)"
    using assms leaf_at_filter [of "\<lambda>k. bit k n"] by (intro sub_cong) (auto simp: agree_set)
qed

lemma subtree_root_correct:
  assumes "n \<le> 256" and "slice n p leaves"
  shows "subtree_root H (defaults H) n leaves = sub H (leaf_at leaves) n p"
  using assms
proof (induction n arbitrary: p leaves)
  case 0
  show ?case
  proof (cases leaves)
    case Nil
    then show ?thesis by (simp add: leaf_at_def HEIGHT_def defaults_nth default_at_def)
  next
    case (Cons kl rest)
    with 0 have "fst kl = p" by (simp add: slice_def)
    with Cons show ?thesis by (cases kl) (simp add: leaf_at_def)
  qed
next
  case (Suc n)
  show ?case
  proof (cases "leaves = []")
    case True
    then have "leaf_at leaves = (\<lambda>_. EMPTY_LEAF)" by (simp add: leaf_at_def fun_eq_iff)
    with True Suc.prems(1) show ?thesis
      by (simp add: sub_empty HEIGHT_def defaults_nth del: sub.simps)
  next
    case False
    have n: "n < 256" "n \<le> 256" using Suc.prems(1) by simp_all
    note split = split_leaves [OF Suc.prems(2) n(1)]
    show ?thesis
      using False Suc.IH [OF n(2) split(3)] Suc.IH [OF n(2) split(4)] split(1,2)
        slice_half_view [OF n(1), of H leaves p]
      by (simp add: Let_def)
  qed
qed

subsection \<open>Proofs\<close>

text \<open>The siblings of the path to \<open>key\<close>, from the root down.\<close>

definition path_siblings :: "hasher \<Rightarrow> (bytes32 \<Rightarrow> bytes32) \<Rightarrow> bytes32 \<Rightarrow> bytes32 list" where
  "path_siblings H f key =
     map (\<lambda>depth. sub H f (255 - depth) (flip_bit (255 - depth) key)) [0..<256]"

fun siblings_below :: "hasher \<Rightarrow> (bytes32 \<Rightarrow> bytes32) \<Rightarrow> nat \<Rightarrow> bytes32 \<Rightarrow> bytes32 list" where
  "siblings_below H f 0 key = []"
| "siblings_below H f (Suc n) key = sub H f n (flip_bit n key) # siblings_below H f n key"

lemma siblings_below_nth:
  "i < n \<Longrightarrow> siblings_below H f n key ! i = sub H f (n - Suc i) (flip_bit (n - Suc i) key)"
proof (induction n arbitrary: i)
  case (Suc n)
  then show ?case by (cases i) auto
qed simp

lemma length_siblings_below [simp]: "length (siblings_below H f n key) = n"
  by (induction n) auto

lemma siblings_below_256: "siblings_below H f 256 key = path_siblings H f key"
  by (rule nth_equalityI) (auto simp: path_siblings_def siblings_below_nth diff_diff_eq)

lemma collect_siblings_correct:
  assumes "n \<le> 256" and "slice n p leaves" and "agree n key p"
  shows "collect_siblings H (defaults H) n leaves key = siblings_below H (leaf_at leaves) n key"
  using assms
proof (induction n arbitrary: p leaves)
  case (Suc n)
  have n: "n < 256" "n \<le> 256" using Suc.prems(1) by simp_all
  let ?zeros = "filter (\<lambda>kl. \<not> bit (fst kl) n) leaves" and ?ones = "filter (\<lambda>kl. bit (fst kl) n) leaves"
  note split = split_leaves [OF Suc.prems(2) n(1)]
  have below: "siblings_below H (leaf_at ls) n key = siblings_below H (leaf_at leaves) n key"
    if "\<And>x. agree n x key \<Longrightarrow> leaf_at ls x = leaf_at leaves x" for ls
  proof (rule nth_equalityI)
    fix i
    assume "i < length (siblings_below H (leaf_at ls) n key)"
    then have "i < n" by simp
    moreover have "agree n x key" if "agree (n - Suc i) x (flip_bit (n - Suc i) key)" for x
    proof -
      have "agree (Suc (n - Suc i)) x key" using that \<open>i < n\<close> n by (simp add: agree_flip)
      then show ?thesis using \<open>i < n\<close> by (auto simp: agree_iff)
    qed
    ultimately show "siblings_below H (leaf_at ls) n key ! i = siblings_below H (leaf_at leaves) n key ! i"
      using n that by (auto simp: siblings_below_nth intro!: sub_cong)
  qed simp
  note root = subtree_root_correct [OF n(2) split(3), of H] subtree_root_correct [OF n(2) split(4), of H]
    and half = slice_half_view [OF n(1), of H leaves p]
  show ?case
  proof (cases "bit key n")
    case False
    have at: "agree n key (unset_bit n p)" using Suc.prems(3) False by (simp add: agree_unset)
    have "sub H (leaf_at leaves) n (set_bit n p) = sub H (leaf_at leaves) n (flip_bit n key)"
      using n False Suc.prems(3) by (intro sub_cong) (auto simp: agree_flip agree_set bit_set bit_flip agree_sym)
    moreover have "siblings_below H (leaf_at ?zeros) n key = siblings_below H (leaf_at leaves) n key"
      using False leaf_at_filter [of "\<lambda>k. \<not> bit k n"] by (intro below) (auto simp: agree_Suc [of n])
    ultimately show ?thesis
      using False Suc.IH [OF n(2) split(3) at] split(1,2) root(2) half(2) n
      by (simp add: Let_def HEIGHT_def smt_bit_zero)
  next
    case True
    have at: "agree n key (set_bit n p)" using Suc.prems(3) True n by (simp add: agree_set)
    have "sub H (leaf_at leaves) n (unset_bit n p) = sub H (leaf_at leaves) n (flip_bit n key)"
      using n True Suc.prems(3) by (intro sub_cong) (auto simp: agree_flip agree_unset bit_unset bit_flip agree_sym)
    moreover have "siblings_below H (leaf_at ?ones) n key = siblings_below H (leaf_at leaves) n key"
      using True leaf_at_filter [of "\<lambda>k. bit k n"] by (intro below) (auto simp: agree_Suc [of n])
    ultimately show ?thesis
      using True Suc.IH [OF n(2) split(4) at] split(1,2) root(1) half(1) n
      by (simp add: Let_def HEIGHT_def smt_bit_zero)
  qed
qed simp

text \<open>Folding a leaf up its path replaces the leaf in the tree.\<close>

lemma fold_step_path:
  assumes "n < 256"
  shows "fold_step H key (path_siblings H f key) (sub H (f(key := l)) n key) (255 - n) =
    sub H (f(key := l)) (Suc n) key"
proof -
  have "\<not> agree n (flip_bit n key) key" using assms by (auto simp: agree_iff bit_flip)
  then have "sub H (f(key := l)) n (flip_bit n key) = sub H f n (flip_bit n key)"
    using assms by (intro sub_upd_other) simp_all
  moreover have "path_siblings H f key ! (255 - n) = sub H f n (flip_bit n key)"
  proof -
    have "255 - n < 256" by linarith
    with assms show ?thesis by (simp add: path_siblings_def)
  qed
  ultimately show ?thesis
    using assms unfolding fold_step_def sub_halves [OF assms] by (simp add: smt_bit_zero)
qed

lemma fold_path:
  assumes "n \<le> 256"
  shows "foldl (fold_step H key (path_siblings H f key)) l (rev [256 - n..<256]) =
    sub H (f(key := l)) n key"
  using assms
proof (induction n)
  case (Suc n)
  have "255 - n < 256" "Suc (255 - n) = 256 - n" using Suc.prems by linarith+
  then have "[256 - Suc n..<256] = (255 - n) # [256 - n..<256]"
    by (simp add: upt_rec [of "255 - n"])
  with Suc.IH Suc.prems fold_step_path [of n H key f l] show ?case
    by (simp del: fun_upd_apply sub.simps)
qed simp

lemma smt_verify_path:
  "smt_verify H root key leaf (path_siblings H f key) \<longleftrightarrow> sub H (f(key := leaf)) 256 0 = root"
proof -
  have "sub H (f(key := leaf)) 256 key = sub H (f(key := leaf)) 256 0"
    by (intro sub_cong) simp_all
  then show ?thesis
    using fold_path [of 256 H key f leaf] by (simp add: smt_verify_def HEIGHT_def path_siblings_def)
qed

subsection \<open>Building from entries\<close>

lemma map_of_dedup_keys: "sorted (map fst xs) \<Longrightarrow> map_of (dedup_keys xs) = map_of xs"
  by (induction xs rule: dedup_keys.induct) (auto simp: fun_eq_iff)

lemma set_dedup_keys: "fst ` set (dedup_keys xs) = fst ` set xs"
  by (induction xs rule: dedup_keys.induct) auto

lemma sorted_dedup_keys:
  "sorted (map fst xs) \<Longrightarrow>
   sorted (map fst (dedup_keys xs)) \<and> distinct (map fst (dedup_keys xs))" for xs :: "('k::linorder \<times> 'v) list"
proof (induction xs rule: dedup_keys.induct)
  case (1 x y xs)
  show ?case
  proof (cases "fst y = fst x")
    case False
    have "fst x \<notin> fst ` set (y # xs)" using "1.prems" False by force
    then have "fst x \<notin> fst ` set (dedup_keys (y # xs))" unfolding set_dedup_keys .
    moreover have "\<forall>k \<in> fst ` set (dedup_keys (y # xs)). fst x \<le> k"
      using "1.prems" by (simp only: set_dedup_keys) auto
    ultimately show ?thesis using 1 False by auto
  qed (use 1 in auto)
qed auto

text \<open>\<open>sort_by\<close> is stable, so the first of equal keys stays the first.\<close>

lemma map_of_first: "map_of xs k = (case filter (\<lambda>kv. fst kv = k) xs of [] \<Rightarrow> None | kv # _ \<Rightarrow> Some (snd kv))"
  by (induction xs) auto

lemma map_of_sort_key: "map_of (sort_key fst xs) = map_of xs"
  by (rule ext) (simp only: map_of_first [of "sort_key fst xs"] map_of_first [of xs] sort_key_stable)

definition entries_leaf :: "hasher \<Rightarrow> (bytes32 \<rightharpoonup> bytes32) \<Rightarrow> bytes32 \<Rightarrow> bytes32" where
  "entries_leaf H m k = (case m k of None \<Rightarrow> EMPTY_LEAF | Some v \<Rightarrow> leaf_hash H k v)"

lemma from_entries_leaves:
  "slice 256 0 (smt_leaves (from_entries H entries))"
  "leaf_at (smt_leaves (from_entries H entries)) = entries_leaf H (map_of entries)"
proof -
  let ?xs = "dedup_keys (sort_key fst entries)"
  have keys: "map fst (smt_leaves (from_entries H entries)) = map fst ?xs"
    by (simp add: from_entries_def comp_def case_prod_beta)
  have sorted: "sorted (map fst (sort_key fst entries))" by simp
  show "slice 256 0 (smt_leaves (from_entries H entries))"
    unfolding slice_def keys using sorted_dedup_keys [OF sorted] by simp
  have at: "map_of (map (\<lambda>(k, v). (k, leaf_hash H k v)) xs) k = map_option (leaf_hash H k) (map_of xs k)"
    for xs k by (induction xs) auto
  have "map_of ?xs = map_of entries" by (simp only: map_of_dedup_keys [OF sorted] map_of_sort_key)
  then show "leaf_at (smt_leaves (from_entries H entries)) = entries_leaf H (map_of entries)"
    by (auto simp: fun_eq_iff leaf_at_def entries_leaf_def from_entries_def at split: option.split)
qed

lemma smt_root_spec: "smt_root H (from_entries H entries) = sub H (entries_leaf H (map_of entries)) 256 0"
  using subtree_root_correct [OF order_refl from_entries_leaves(1), of H H entries]
  by (simp add: smt_root_def HEIGHT_def from_entries_leaves(2)) (simp add: from_entries_def)

lemma smt_proof_spec:
  "smt_proof H (from_entries H entries) key = path_siblings H (entries_leaf H (map_of entries)) key"
  using collect_siblings_correct [OF order_refl from_entries_leaves(1), of key H H entries]
  by (simp add: smt_proof_def HEIGHT_def from_entries_leaves(2) siblings_below_256)
    (simp add: from_entries_def)

subsection \<open>Proofs bind\<close>

definition step_input :: "bytes32 \<Rightarrow> bytes32 list \<Rightarrow> bytes32 \<Rightarrow> nat \<Rightarrow> bytes" where
  "step_input key siblings cur depth =
     [1] @ (if smt_bit key depth = 0 then bytes_of cur @ bytes_of (siblings ! depth)
            else bytes_of (siblings ! depth) @ bytes_of cur)"

definition verify_node :: "hasher \<Rightarrow> bytes32 \<Rightarrow> bytes32 \<Rightarrow> bytes32 list \<Rightarrow> nat \<Rightarrow> bytes32" where
  "verify_node H key leaf siblings depth = foldl (fold_step H key siblings) leaf (rev [depth..<256])"

text \<open>The byte strings that one verification hashes.\<close>

definition verify_inputs :: "hasher \<Rightarrow> bytes32 \<Rightarrow> bytes32 \<Rightarrow> bytes32 list \<Rightarrow> bytes set" where
  "verify_inputs H key leaf siblings =
     (\<lambda>d. step_input key siblings (verify_node H key leaf siblings (Suc d)) d) ` {0..<256}"

lemma verify_node_step:
  assumes "d < 256"
  shows "verify_node H key leaf sibs d = H (step_input key sibs (verify_node H key leaf sibs (Suc d)) d)"
proof -
  have "[d..<256] = d # [Suc d..<256]" using assms by (simp add: upt_rec [of d])
  then show ?thesis
    by (simp add: verify_node_def fold_step_def step_input_def hash2_def)
qed

lemma step_input_inject:
  assumes "step_input key s c d = step_input key s' c' d"
  shows "c = c' \<and> s ! d = s' ! d"
  using assms by (auto simp: step_input_def append_eq_append_conv split: if_splits)

lemma verify_binding:
  assumes v: "smt_verify H root key l s" "smt_verify H root key l' s'"
    and inj: "inj_on H (verify_inputs H key l s \<union> verify_inputs H key l' s')"
  shows "l = l' \<and> s = s'"
proof -
  have len: "length s = 256" "length s' = 256" using v by (simp_all add: smt_verify_def HEIGHT_def)
  have root: "verify_node H key l s 0 = root" "verify_node H key l' s' 0 = root"
    using v by (simp_all add: smt_verify_def HEIGHT_def verify_node_def)
  have step: "verify_node H key l s (Suc d) = verify_node H key l' s' (Suc d) \<and> s ! d = s' ! d"
    if "d < 256" "verify_node H key l s d = verify_node H key l' s' d" for d
  proof -
    have "step_input key s (verify_node H key l s (Suc d)) d =
        step_input key s' (verify_node H key l' s' (Suc d)) d"
      using that inj by (intro inj_onD [OF inj])
        (auto simp: verify_node_step [OF that(1), symmetric] verify_inputs_def)
    then show ?thesis by (rule step_input_inject)
  qed
  have eq: "verify_node H key l s d = verify_node H key l' s' d" if "d \<le> 256" for d
    using that by (induction d) (use root step in \<open>auto simp: Suc_le_eq\<close>)
  have "l = l'" using eq [of 256] by (simp add: verify_node_def)
  moreover have "s = s'" using len step eq by (intro nth_equalityI) (auto simp: less_imp_le)
  ultimately show ?thesis by simp
qed

subsection \<open>Properties\<close>

text \<open>
  Property C22.  Light-client completeness: for every set of entries and every key, present or
  absent, the proof the tree gives verifies against its root with the leaf the entries
  determine (the leaf hash of the first entry for the key, or the empty leaf).
\<close>

theorem smt_proof_complete:
  "smt_verify H (smt_root H (from_entries H entries)) key (entries_leaf H (map_of entries) key)
     (smt_proof H (from_entries H entries) key)"
  unfolding smt_proof_spec smt_verify_path smt_root_spec by (simp add: fun_upd_idem)

text \<open>
  Property C23.  Light-client soundness: two proofs that verify at one key under one root carry
  the same leaf and the same siblings, unless the two verifications hash two distinct byte
  strings to the same value.  In particular no key has both an inclusion and an exclusion proof.
\<close>

theorem smt_proof_binding:
  assumes "smt_verify H root key l s" and "smt_verify H root key l' s'"
    and "inj_on H (verify_inputs H key l s \<union> verify_inputs H key l' s')"
  shows "l = l' \<and> s = s'"
  using assms by (rule verify_binding)

lemma verify_node_zero: "verify_node (\<lambda>_. 0) key 0 s d = 0"
proof -
  have "foldl (fold_step (\<lambda>_. 0) key s) 0 ds = 0" for ds
    by (induction ds) (simp_all add: fold_step_def hash2_def)
  then show ?thesis by (simp add: verify_node_def)
qed

theorem smt_proof_binding_witness:
  "smt_verify (\<lambda>_. 0) 0 9 0 (replicate 256 0) \<and> (0 :: bytes32) = 0 \<and>
   replicate 256 (0 :: bytes32) = replicate 256 0"
proof -
  have v: "smt_verify (\<lambda>_. 0) 0 9 0 (replicate 256 0)"
    using verify_node_zero [of 9 "replicate 256 0" 0] by (simp add: smt_verify_def verify_node_def HEIGHT_def)
  have "step_input 9 (replicate 256 0) 0 d = [1] @ bytes_of 0 @ bytes_of 0" if "d < 256" for d
    using that by (simp add: step_input_def)
  then have "inj_on (\<lambda>_. 0 :: bytes32) (verify_inputs (\<lambda>_. 0) 9 0 (replicate 256 0))"
    by (auto simp: inj_on_def verify_inputs_def verify_node_zero)
  then have "inj_on (\<lambda>_. 0 :: bytes32)
      (verify_inputs (\<lambda>_. 0) 9 0 (replicate 256 0) \<union> verify_inputs (\<lambda>_. 0) 9 0 (replicate 256 0))"
    by simp
  from smt_proof_binding [OF v v this] v show ?thesis by simp
qed

text \<open>
  The root is a function of the mapping the entries spell, where the first
  of several entries for one key counts: reordering entries with distinct keys, or adding a
  later entry for a key that is present, does not change it.
\<close>

theorem smt_root_order_independent:
  assumes "map_of entries = map_of entries'"
  shows "smt_root H (from_entries H entries) = smt_root H (from_entries H entries')"
  using assms by (simp add: smt_root_spec)

theorem smt_root_order_independent_witness:
  "smt_root (\<lambda>_. 0) (from_entries (\<lambda>_. 0) [(1, 5), (2, 6), (1, 7)]) =
   smt_root (\<lambda>_. 0) (from_entries (\<lambda>_. 0) [(2, 6), (1, 5)])"
  by (rule smt_root_order_independent) (simp add: fun_eq_iff)

end
