(* ===== verification/SmtStore.thy ===== *)
theory SmtStore
  imports SmtTree
begin

text \<open>
  The incremental sparse Merkle tree of \<^verbatim>\<open>crates/tao-database/src/smt.rs\<close>: node ids name
  exactly the subtrees, and in any node store with lawful get, set and delete, an update of
  one leaf turns a store that represents the tree of \<open>f\<close> into one that represents the tree
  of the updated \<open>f\<close>.
\<close>

unbundle bit_operations_syntax

subsection \<open>Node ids\<close>

definition masked_byte :: "bytes32 \<Rightarrow> nat \<Rightarrow> nat \<Rightarrow> byte" where
  "masked_byte key depth i =
     (let b = bytes_of key ! i; used = depth - i * 8 in
      if i = (depth + 7) div 8 - 1 \<and> used < 8 then b AND NOT (push_bit (8 - used) 1 - 1) else b)"

lemma node_id_masked:
  "node_id key depth = be_bytes 2 depth @ map (masked_byte key depth) [0..<(depth + 7) div 8]"
  by (simp add: node_id_def masked_byte_def Let_def)

lemma bit_low_mask:
  fixes j n :: nat
  assumes "j < 8" and "n < 9"
  shows "bit (NOT (push_bit n 1 - 1) :: byte) j \<longleftrightarrow> n \<le> j"
proof -
  have "push_bit n 1 - 1 = (mask n :: byte)" by (simp add: mask_eq_exp_minus_1)
  with assms show ?thesis by (simp add: bit_not_iff bit_mask_iff not_less)
qed

text \<open>The bit of byte \<open>i\<close> for key position \<open>8 i + q\<close>, counted from the top.\<close>

lemma bit_masked_byte:
  assumes "depth \<le> 256" and "i < (depth + 7) div 8" and "q < 8"
  shows "bit (masked_byte key depth i) (7 - q) \<longleftrightarrow> 8 * i + q < depth \<and> bit key (255 - (8 * i + q))"
proof -
  have i: "i < 32" "8 * i < depth" using assms(1,2) by linarith+
  have "8 * (31 - i) + (7 - q) = 255 - (8 * i + q)" using i assms(3) by linarith
  moreover have q: "7 - q < 8" by linarith
  ultimately have b: "bit (bytes_of key ! i) (7 - q) \<longleftrightarrow> bit key (255 - (8 * i + q))"
    by (simp only: bit_bytes_of [OF i(1)]) simp
  show ?thesis
  proof (cases "i = (depth + 7) div 8 - 1 \<and> depth - i * 8 < 8")
    case True
    then have mb: "masked_byte key depth i = bytes_of key ! i AND NOT (push_bit (8 - (depth - i * 8)) 1 - 1)"
      by (simp add: masked_byte_def Let_def)
    have "8 - (depth - i * 8) \<le> 7 - q \<longleftrightarrow> 8 * i + q < depth" using i True assms(3) by linarith
    moreover have "8 - (depth - i * 8) < 9" by linarith
    ultimately show ?thesis
      unfolding mb bit_and_iff b using bit_low_mask [OF q] by auto
  next
    case False
    then have "8 * i + q < depth" using assms i by linarith
    with False b show ?thesis by (auto simp: masked_byte_def Let_def)
  qed
qed

lemma masked_bytes_eq_iff:
  assumes "depth \<le> 256"
  shows "map (masked_byte k depth) [0..<(depth + 7) div 8] = map (masked_byte k' depth) [0..<(depth + 7) div 8]
    \<longleftrightarrow> agree (256 - depth) k k'"
proof
  assume eq: "map (masked_byte k depth) [0..<(depth + 7) div 8] =
    map (masked_byte k' depth) [0..<(depth + 7) div 8]"
  have "bit k m = bit k' m" if "256 - depth \<le> m" for m
  proof (cases "m < 256")
    case True
    define p where "p = 255 - m"
    have p: "p < depth" "255 - p = m" using that True assms by (auto simp: p_def)
    have split: "p = 8 * (p div 8) + p mod 8" "p mod 8 < 8" by simp_all
    have i: "p div 8 < (depth + 7) div 8" using p(1) by linarith
    have "masked_byte k depth (p div 8) = masked_byte k' depth (p div 8)"
      using eq i by (simp add: list_eq_iff_nth_eq)
    then show ?thesis
      using bit_masked_byte [OF assms i split(2), of k] bit_masked_byte [OF assms i split(2), of k']
        p by simp
  next
    case False
    then show ?thesis using bit_imp_le_length [of k m] bit_imp_le_length [of k' m] by auto
  qed
  then show "agree (256 - depth) k k'" by (simp add: agree_iff)
next
  assume agree: "agree (256 - depth) k k'"
  have "masked_byte k depth i = masked_byte k' depth i" if i: "i < (depth + 7) div 8" for i
  proof (rule bit_word_eqI)
    fix j
    assume "j < LENGTH(8)"
    then have j: "7 - j < 8" "7 - (7 - j) = j" by simp_all
    have "256 - depth \<le> 255 - (8 * i + (7 - j))" if "8 * i + (7 - j) < depth"
      using that assms by linarith
    with agree show "bit (masked_byte k depth i) j = bit (masked_byte k' depth i) j"
      using bit_masked_byte [OF assms i j(1), of k] bit_masked_byte [OF assms i j(1), of k']
      unfolding j(2) agree_iff by blast
  qed
  then show "map (masked_byte k depth) [0..<(depth + 7) div 8] =
    map (masked_byte k' depth) [0..<(depth + 7) div 8]" by simp
qed

lemma node_id_eq_iff:
  assumes "d \<le> 256" and "d' \<le> 256"
  shows "node_id k d = node_id k' d' \<longleftrightarrow> d = d' \<and> agree (256 - d) k k'"
proof -
  have "be_bytes 2 d = be_bytes 2 d' \<longleftrightarrow> d = d'"
    using assms by (intro be_bytes_inj) simp_all
  then show ?thesis
    using masked_bytes_eq_iff [OF assms(1), of k k']
    by (auto simp: node_id_masked append_eq_append_conv)
qed

subsection \<open>Any lawful node store\<close>

locale node_store =
  fixes getn :: "'s \<Rightarrow> bytes \<Rightarrow> bytes32 option"
    and setn :: "'s \<Rightarrow> bytes \<Rightarrow> bytes32 \<Rightarrow> 's"
    and deln :: "'s \<Rightarrow> bytes \<Rightarrow> 's"
  assumes get_set: "getn (setn s i h) j = (if j = i then Some h else getn s j)"
    and get_del: "getn (deln s i) j = (if j = i then None else getn s j)"
begin

definition node_value :: "hasher \<Rightarrow> 's \<Rightarrow> bytes32 \<Rightarrow> nat \<Rightarrow> bytes32" where
  "node_value H s key depth =
     (case getn s (node_id key depth) of None \<Rightarrow> defaults H ! depth | Some h \<Rightarrow> h)"

definition represents :: "hasher \<Rightarrow> 's \<Rightarrow> (bytes32 \<Rightarrow> bytes32) \<Rightarrow> bool" where
  "represents H s f \<longleftrightarrow> (\<forall>depth \<le> 256. \<forall>key. node_value H s key depth = sub H f (256 - depth) key)"

lemma node_value_put:
  assumes "d \<le> 256" and "d' \<le> 256"
  shows "node_value H (put_node setn deln (defaults H) s key d h) k d' =
    (if d' = d \<and> agree (256 - d) k key then h else node_value H s k d')"
  using assms by (auto simp: node_value_def put_node_def get_set get_del node_id_eq_iff)

lemma update_loop_represents:
  assumes "n \<le> 256" and "cur = sub H (f(key := leaf)) (256 - n) key"
    and "\<And>d k. n \<le> d \<Longrightarrow> d \<le> 256 \<Longrightarrow> node_value H s k d = sub H (f(key := leaf)) (256 - d) k"
    and "\<And>d k. d < n \<Longrightarrow> node_value H s k d = sub H f (256 - d) k"
  shows "represents H (update_loop H getn setn deln (defaults H) n s key cur) (f(key := leaf))"
  using assms
proof (induction n arbitrary: s cur)
  case 0
  then show ?case by (simp add: represents_def)
next
  case (Suc n)
  let ?f = "f(key := leaf)"
  have n: "n < 256" "256 - n = Suc (255 - n)" "256 - Suc n = 255 - n" using Suc.prems(1) by simp_all
  define sib where "sib = node_value H s (smt_flip_bit key n) (Suc n)"
  define parent where "parent = (if smt_bit key n = 0 then hash2 H cur sib else hash2 H sib cur)"
  have sib: "sib = sub H ?f (255 - n) (flip_bit (255 - n) key)"
    using Suc.prems(1) Suc.prems(3) [of "Suc n"] n by (simp add: sib_def smt_flip_bit_eq del: fun_upd_apply)
  have parent: "parent = sub H ?f (256 - n) key"
    using Suc.prems(2) sub_halves [of "255 - n" H ?f key] n sib
    by (simp add: parent_def smt_bit_zero del: fun_upd_apply sub.simps)
  let ?s = "put_node setn deln (defaults H) s key n parent"
  have "represents H (update_loop H getn setn deln (defaults H) n ?s key parent) ?f"
  proof (rule Suc.IH)
    show "n \<le> 256" using n by simp
    show "parent = sub H ?f (256 - n) key" by (rule parent)
    show "node_value H ?s k d = sub H ?f (256 - d) k" if "n \<le> d" "d \<le> 256" for d k
    proof (cases "d = n")
      case True
      show ?thesis
      proof (cases "agree (256 - n) k key")
        case True
        then have "sub H ?f (256 - n) k = sub H ?f (256 - n) key" by (intro sub_cong) simp_all
        with True \<open>d = n\<close> parent that show ?thesis by (simp add: node_value_put)
      next
        case False
        then have "sub H ?f (256 - n) k = sub H f (256 - n) k" by (intro sub_upd_other) simp_all
        with False \<open>d = n\<close> that Suc.prems(4) [of n k] show ?thesis by (simp add: node_value_put)
      qed
    next
      case False
      with that n Suc.prems(3) [of d k] show ?thesis by (simp add: node_value_put del: fun_upd_apply)
    qed
    show "node_value H ?s k d = sub H f (256 - d) k" if "d < n" for d k
      using that n Suc.prems(4) [of d k] by (simp add: node_value_put)
  qed
  then show ?case
    unfolding parent_def sib_def node_value_def update_loop.simps Let_def .
qed

lemma update_leaf_represents:
  assumes "represents H s f"
  shows "represents H (update_leaf H getn setn deln s key leaf) (f(key := leaf))"
  unfolding update_leaf_def HEIGHT_def
proof (rule update_loop_represents)
  fix d k
  show "node_value H (put_node setn deln (defaults H) s key 256 leaf) k d =
      sub H (f(key := leaf)) (256 - d) k" if "256 \<le> d" "d \<le> 256"
    using that assms by (auto simp: node_value_put represents_def)
  show "node_value H (put_node setn deln (defaults H) s key 256 leaf) k d = sub H f (256 - d) k"
    if "d < 256"
    using that assms by (simp add: node_value_put represents_def)
qed simp_all

lemma empty_represents:
  assumes "\<And>i. getn s i = None"
  shows "represents H s (\<lambda>_. EMPTY_LEAF)"
  using assms by (simp add: represents_def node_value_def defaults_nth sub_empty)

lemma stored_root_represents: "represents H s f \<Longrightarrow> stored_root H getn s = sub H f 256 0"
  by (force simp: represents_def node_value_def stored_root_def)

lemma stored_proof_represents:
  assumes "represents H s f"
  shows "stored_proof H getn s key = path_siblings H f key"
  unfolding path_siblings_def stored_proof_def HEIGHT_def
proof (rule map_cong)
  fix depth
  assume "depth \<in> set [0..<256]"
  then have d: "depth < 256" "depth + 1 \<le> 256" "256 - (depth + 1) = 255 - depth" by simp_all
  then have "node_value H s (smt_flip_bit key depth) (depth + 1) =
      sub H f (255 - depth) (flip_bit (255 - depth) key)"
    using assms by (simp only: represents_def smt_flip_bit_eq [OF d(1)])
  then show "(case getn s (node_id (smt_flip_bit key depth) (depth + 1)) of
      None \<Rightarrow> defaults H ! (depth + 1) | Some h \<Rightarrow> h) = sub H f (255 - depth) (flip_bit (255 - depth) key)"
    by (simp only: node_value_def)
qed simp

end

end
