(* ===== verification/Core.thy ===== *)
theory Core
  imports Block
begin

text \<open>
  Shared types of the workspace: the error type (\<^verbatim>\<open>crates/tao-core/src/error.rs\<close>), the
  node configuration and its defaults (\<^verbatim>\<open>config.rs\<close>) and the genesis configuration with its
  commitment (\<^verbatim>\<open>genesis.rs\<close>).  Reading and printing TOML is outside the model; the bincode
  encoding of the genesis configuration is the parameter \<open>ser\<close>.
\<close>

datatype tao_error =
  Io string | Config string | Genesis string | Serialization string | Consensus string
  | Runtime string | Storage string | Network string | Other string

definition tao_error_other :: "string \<Rightarrow> tao_error" where
  "tao_error_other msg = Other msg"

subsection \<open>Node configuration\<close>

record rpc_config =
  rpc_enabled :: bool
  rpc_bind :: string
  rpc_port :: u16

record p2p_config =
  p2p_bind :: string
  p2p_port :: u16
  p2p_bootstrap :: "string list"

record miner_config =
  miner_enabled :: bool
  miner_reward_address :: "string option"
  miner_threads :: nat

record node_config =
  nc_data_dir :: string
  nc_network :: string
  nc_rpc :: rpc_config
  nc_p2p :: p2p_config
  nc_miner :: miner_config

definition rpc_config_default :: rpc_config where
  "rpc_config_default = \<lparr>rpc_enabled = True, rpc_bind = ''127.0.0.1'', rpc_port = 8899\<rparr>"

definition p2p_config_default :: p2p_config where
  "p2p_config_default = \<lparr>p2p_bind = ''0.0.0.0'', p2p_port = 9001, p2p_bootstrap = []\<rparr>"

definition miner_config_default :: miner_config where
  "miner_config_default =
     \<lparr>miner_enabled = False, miner_reward_address = None, miner_threads = 0\<rparr>"

definition node_config_default :: node_config where
  "node_config_default =
     \<lparr>nc_data_dir = ''.tao'', nc_network = ''tao-devnet'', nc_rpc = rpc_config_default,
      nc_p2p = p2p_config_default, nc_miner = miner_config_default\<rparr>"

subsection \<open>Genesis configuration\<close>

record pouw_model_params =
  pm_name :: string
  pm_n :: nat
  pm_rank :: nat
  pm_tiles :: nat
  pm_weight_seed :: string
  pm_model_id :: "string option"

record pow_params =
  pp_target_block_time_secs :: u64
  pp_lwma_window :: u64
  pp_initial_target :: string
  pp_algorithm :: string
  pp_switch_height :: "u64 option"

record reward_params =
  rp_initial_lamports :: u64
  rp_halving_interval :: u64

record allocation =
  al_address :: string
  al_lamports :: u64

record genesis_config =
  gc_network :: string
  gc_creation_time :: i64
  gc_pow :: pow_params
  gc_reward :: reward_params
  gc_allocations :: "allocation list"
  gc_pouw :: "pouw_model_params option"

definition default_pow_algorithm :: string where
  "default_pow_algorithm = ''blake3''"

definition genesis_commitment :: "hasher \<Rightarrow> (genesis_config \<Rightarrow> bytes) \<Rightarrow> genesis_config \<Rightarrow> bytes32" where
  "genesis_commitment H ser g = H (ser g)"

definition genesis_devnet :: genesis_config where
  "genesis_devnet =
     \<lparr>gc_network = ''tao-devnet'', gc_creation_time = 1750000000,
      gc_pow = \<lparr>pp_target_block_time_secs = 10, pp_lwma_window = 90,
        pp_initial_target = ''00'' @ replicate 62 (CHR ''f''),
        pp_algorithm = default_pow_algorithm, pp_switch_height = None\<rparr>,
      gc_reward = \<lparr>rp_initial_lamports = 1000000000, rp_halving_interval = 2100000\<rparr>,
      gc_allocations = [],
      gc_pouw = Some \<lparr>pm_name = ''tao-devnet-pouw'', pm_n = 8, pm_rank = 2, pm_tiles = 8,
        pm_weight_seed = replicate 64 (CHR ''1''), pm_model_id = None\<rparr>\<rparr>"

end
