(* ===== verification/AccountsDb.thy ===== *)
theory AccountsDb
  imports SmtStore Core
begin

text \<open>
  The account store: \<^verbatim>\<open>crates/tao-database/src/accounts_db.rs\<close>.

  RocksDB and the account encoding are outside the repository: their operations are the
  records \<open>rocks_ops\<close> and \<open>account_ops\<close>, arguments of every operation here.  A batch keeps the
  account writes in order; its writes to the tree's column family carry one entry per node
  id, so they are a map.  What is relied on of a write is the hypothesis \<open>rocks_law\<close>: after it
  each read returns the batch's last word on the key, or the old value.
\<close>

datatype batch_op = Put bytes bytes | Delete bytes

record write_batch =
  wb_ops :: "batch_op list"
  wb_smt :: "bytes \<rightharpoonup> bytes32 option"

record 'db rocks_ops =
  rk_get :: "'db \<Rightarrow> bytes \<Rightarrow> string + bytes option"
  rk_get_smt :: "'db \<Rightarrow> bytes \<Rightarrow> string + bytes option"
  rk_write :: "'db \<Rightarrow> write_batch \<Rightarrow> string + 'db"
  rk_iter :: "'db \<Rightarrow> (string + bytes \<times> bytes) list"

record 'a account_ops =
  ao_ser :: "'a \<Rightarrow> string + bytes"
  ao_de :: "bytes \<Rightarrow> string + 'a"
  ao_lamports :: "'a \<Rightarrow> u64"
  ao_data :: "'a \<Rightarrow> bytes"

definition map_err :: "('e \<Rightarrow> 'f) \<Rightarrow> 'e + 'a \<Rightarrow> 'f + 'a" where
  "map_err f r = (case r of Inl e \<Rightarrow> Inl (f e) | Inr x \<Rightarrow> Inr x)"

lemma map_err_Inr [simp]: "map_err f r = Inr x \<longleftrightarrow> r = Inr x"
  by (auto simp: map_err_def split: sum.splits)

lemma map_err_simps [simp]: "map_err f (Inl e) = Inl (f e)" "map_err f (Inr x) = Inr x"
  by (simp_all add: map_err_def)

subsection \<open>The write overlay\<close>

record 'db overlay =
  ov_db :: 'db
  ov_pending :: "bytes \<rightharpoonup> bytes32 option"

text \<open>A failed read (\<open>.ok().flatten()?\<close>) counts as an absent node.\<close>

definition ov_get :: "'db rocks_ops \<Rightarrow> 'db overlay \<Rightarrow> bytes \<Rightarrow> bytes32 option" where
  "ov_get rk ov i =
     (case ov_pending ov i of
        Some v \<Rightarrow> v
      | None \<Rightarrow>
          (case rk_get_smt rk (ov_db ov) i of
             Inr (Some bs) \<Rightarrow> if length bs = 32 then Some (array_of bs) else None
           | _ \<Rightarrow> None))"

definition ov_set :: "'db overlay \<Rightarrow> bytes \<Rightarrow> bytes32 \<Rightarrow> 'db overlay" where
  "ov_set ov i h = ov\<lparr>ov_pending := (ov_pending ov)(i \<mapsto> Some h)\<rparr>"

definition ov_del :: "'db overlay \<Rightarrow> bytes \<Rightarrow> 'db overlay" where
  "ov_del ov i = ov\<lparr>ov_pending := (ov_pending ov)(i \<mapsto> None)\<rparr>"

definition ov_new :: "'db \<Rightarrow> 'db overlay" where
  "ov_new db = \<lparr>ov_db = db, ov_pending = Map.empty\<rparr>"

interpretation overlay: node_store "ov_get rk" ov_set ov_del for rk :: "'db rocks_ops"
  by unfold_locales (auto simp: ov_get_def ov_set_def ov_del_def split: option.split)

subsection \<open>Operations\<close>

definition account_value_hash :: "hasher \<Rightarrow> bytes \<Rightarrow> bytes32" where
  "account_value_hash H bs = H bs"

definition leaf_for :: "hasher \<Rightarrow> bytes32 \<Rightarrow> bytes option \<Rightarrow> bytes32" where
  "leaf_for H key bs =
     (case bs of Some b \<Rightarrow> leaf_hash H key (account_value_hash H b) | None \<Rightarrow> EMPTY_LEAF)"

definition adb_get ::
    "'db rocks_ops \<Rightarrow> 'a account_ops \<Rightarrow> 'db \<Rightarrow> bytes32 \<Rightarrow>
     tao_error + 'a option" where
  "adb_get rk ao db key =
     and_then (map_err Storage (rk_get rk db (bytes_of key))) (\<lambda>r.
       case r of
         Some bs \<Rightarrow> and_then (map_err Serialization (ao_de ao bs)) (\<lambda>a. Inr (Some a))
       | None \<Rightarrow> Inr None)"

definition smt_update ::
    "hasher \<Rightarrow> 'db rocks_ops \<Rightarrow> 'db \<Rightarrow> (bytes32 \<times> bytes32) list \<Rightarrow>
     write_batch \<Rightarrow> write_batch" where
  "smt_update H rk db leaves batch =
     (let ov = foldl (\<lambda>ov (key, leaf). update_leaf H (ov_get rk) ov_set ov_del ov key leaf)
                 (ov_new db) leaves
      in batch\<lparr>wb_smt := wb_smt batch ++ ov_pending ov\<rparr>)"

definition batch_new :: write_batch where
  "batch_new = \<lparr>wb_ops = [], wb_smt = Map.empty\<rparr>"

definition batch_add :: "write_batch \<Rightarrow> batch_op \<Rightarrow> write_batch" where
  "batch_add b op = b\<lparr>wb_ops := wb_ops b @ [op]\<rparr>"

definition adb_set ::
    "hasher \<Rightarrow> 'db rocks_ops \<Rightarrow> 'a account_ops \<Rightarrow> 'db \<Rightarrow> bytes32 \<Rightarrow>
     'a \<Rightarrow> tao_error + 'db" where
  "adb_set H rk ao db key account =
     and_then (map_err Serialization (ao_ser ao account)) (\<lambda>bs.
       let leaf = leaf_for H key (Some bs);
           batch = batch_add batch_new (Put (bytes_of key) bs);
           batch = smt_update H rk db [(key, leaf)] batch
       in map_err Storage (rk_write rk db batch))"

definition adb_delete ::
    "hasher \<Rightarrow> 'db rocks_ops \<Rightarrow> 'db \<Rightarrow> bytes32 \<Rightarrow> tao_error + 'db" where
  "adb_delete H rk db key =
     (let batch = batch_add batch_new (Delete (bytes_of key));
          batch = smt_update H rk db [(key, EMPTY_LEAF)] batch
      in map_err Storage (rk_write rk db batch))"

fun commit_loop ::
    "hasher \<Rightarrow> 'a account_ops \<Rightarrow> (bytes32 \<times> 'a) list \<Rightarrow> write_batch \<Rightarrow>
     (bytes32 \<times> bytes32) list \<Rightarrow> tao_error + write_batch \<times> (bytes32 \<times> bytes32) list" where
  "commit_loop H ao [] batch leaves = Inr (batch, leaves)"
| "commit_loop H ao ((key, account) # changes) batch leaves =
     (if ao_lamports ao account = 0 \<and> ao_data ao account = []
      then commit_loop H ao changes (batch_add batch (Delete (bytes_of key)))
             (leaves @ [(key, EMPTY_LEAF)])
      else and_then (map_err Serialization (ao_ser ao account)) (\<lambda>bs.
             commit_loop H ao changes (batch_add batch (Put (bytes_of key) bs))
               (leaves @ [(key, leaf_for H key (Some bs))])))"

definition adb_commit ::
    "hasher \<Rightarrow> 'db rocks_ops \<Rightarrow> 'a account_ops \<Rightarrow> 'db \<Rightarrow>
     (bytes32 \<times> 'a) list \<Rightarrow> tao_error + 'db" where
  "adb_commit H rk ao db changes =
     and_then (commit_loop H ao changes batch_new []) (\<lambda>(batch, leaves).
       map_err Storage (rk_write rk db (smt_update H rk db leaves batch)))"

definition state_root :: "hasher \<Rightarrow> 'db rocks_ops \<Rightarrow> 'db \<Rightarrow> bytes32" where
  "state_root H rk db = stored_root H (ov_get rk) (ov_new db)"

definition state_proof ::
    "hasher \<Rightarrow> 'db rocks_ops \<Rightarrow> 'a account_ops \<Rightarrow> 'db \<Rightarrow> bytes32 \<Rightarrow>
     tao_error + 'a option \<times> bytes32 list" where
  "state_proof H rk ao db key =
     (let proof = stored_proof H (ov_get rk) (ov_new db) key
      in and_then (adb_get rk ao db key) (\<lambda>a. Inr (a, proof)))"

fun dump_loop ::
    "'a account_ops \<Rightarrow> (string + bytes \<times> bytes) list \<Rightarrow>
     tao_error + (bytes32 \<times> 'a) list" where
  "dump_loop ao [] = Inr []"
| "dump_loop ao (item # items) =
     and_then (map_err Storage item) (\<lambda>(k, v).
       if length k \<noteq> 32 then Inl (Storage ''bad pubkey key'')
       else and_then (map_err Serialization (ao_de ao v)) (\<lambda>account.
              and_then (dump_loop ao items) (\<lambda>rest. Inr ((array_of k, account) # rest))))"

definition adb_dump ::
    "'db rocks_ops \<Rightarrow> 'a account_ops \<Rightarrow> 'db \<Rightarrow>
     tao_error + (bytes32 \<times> 'a) list" where
  "adb_dump rk ao db = dump_loop ao (rk_iter rk db)"

fun len_loop :: "(string + bytes \<times> bytes) list \<Rightarrow> nat \<Rightarrow> tao_error + nat" where
  "len_loop [] n = Inr n"
| "len_loop (item # items) n = and_then (map_err Storage item) (\<lambda>_. len_loop items (n + 1))"

definition adb_len :: "'db rocks_ops \<Rightarrow> 'db \<Rightarrow> tao_error + nat" where
  "adb_len rk db = len_loop (rk_iter rk db) 0"

definition adb_is_empty :: "'db rocks_ops \<Rightarrow> 'db \<Rightarrow> tao_error + bool" where
  "adb_is_empty rk db = Inr (rk_iter rk db = [])"

subsection \<open>What is relied on of the database\<close>

fun last_op :: "batch_op list \<Rightarrow> bytes \<Rightarrow> bytes option option" where
  "last_op [] k = None"
| "last_op (op # ops) k =
     (case last_op ops k of
        Some v \<Rightarrow> Some v
      | None \<Rightarrow>
          (case op of
             Put k' v \<Rightarrow> if k' = k then Some (Some v) else None
           | Delete k' \<Rightarrow> if k' = k then Some None else None))"

definition rocks_law :: "'db rocks_ops \<Rightarrow> bool" where
  "rocks_law rk \<longleftrightarrow> (\<forall>db b db'. rk_write rk db b = Inr db' \<longrightarrow>
     (\<forall>k. rk_get rk db' k = (case last_op (wb_ops b) k of None \<Rightarrow> rk_get rk db k | Some v \<Rightarrow> Inr v)) \<and>
     (\<forall>i. rk_get_smt rk db' i =
        (case wb_smt b i of None \<Rightarrow> rk_get_smt rk db i | Some v \<Rightarrow> Inr (map_option bytes_of v))))"

text \<open>
  \<open>adb_view H rk db acc\<close>: the database holds the accounts \<open>acc\<close> (serialized), and its node
  column family is the tree over their leaves.
\<close>

definition adb_view ::
    "hasher \<Rightarrow> 'db rocks_ops \<Rightarrow> 'db \<Rightarrow> (bytes32 \<rightharpoonup> bytes) \<Rightarrow> bool" where
  "adb_view H rk db acc \<longleftrightarrow>
     (\<forall>k. rk_get rk db (bytes_of k) = Inr (acc k)) \<and>
     overlay.represents rk H (ov_new db) (\<lambda>k. leaf_for H k (acc k))"

text \<open>A run of leaf updates, as a function of the key.\<close>

definition apply_leaves :: "(bytes32 \<times> bytes32) list \<Rightarrow> (bytes32 \<Rightarrow> bytes32) \<Rightarrow> bytes32 \<Rightarrow> bytes32" where
  "apply_leaves leaves f = foldl (\<lambda>f (key, leaf). f(key := leaf)) f leaves"

lemma apply_leaves_simps [simp]:
  "apply_leaves [] f = f"
  "apply_leaves ((k, l) # leaves) f = apply_leaves leaves (f(k := l))"
  "apply_leaves (leaves @ [(k, l)]) f = (apply_leaves leaves f)(k := l)"
  by (simp_all add: apply_leaves_def)

lemma update_leaves_represents:
  assumes "overlay.represents rk H ov f"
  shows "overlay.represents rk H
    (foldl (\<lambda>ov (key, leaf). update_leaf H (ov_get rk) ov_set ov_del ov key leaf) ov leaves)
    (apply_leaves leaves f)"
  using assms
proof (induction leaves arbitrary: ov f)
  case (Cons kl leaves)
  then show ?case by (cases kl) (simp add: overlay.update_leaf_represents del: fun_upd_apply)
qed simp

text \<open>An update only queues writes.\<close>

lemma ov_db_update_loop: "ov_db (update_loop H (ov_get rk) ov_set ov_del d n ov key cur) = ov_db ov"
  by (induction n arbitrary: ov cur) (simp_all add: Let_def put_node_def ov_set_def ov_del_def)

lemma ov_db_updates:
  "ov_db (foldl (\<lambda>ov (key, leaf). update_leaf H (ov_get rk) ov_set ov_del ov key leaf) ov leaves) = ov_db ov"
  by (induction leaves arbitrary: ov)
    (auto simp: update_leaf_def ov_db_update_loop put_node_def ov_set_def ov_del_def)

lemma represents_same_reads:
  assumes "\<And>i. ov_get rk ov i = ov_get rk ov' i" and "overlay.represents rk H ov f"
  shows "overlay.represents rk H ov' f"
  using assms(2) by (simp add: overlay.represents_def overlay.node_value_def assms(1))

text \<open>Writing the batch makes the queued nodes the stored ones.\<close>

lemma write_represents:
  assumes "rocks_law rk" and "overlay.represents rk H (ov_new db) f"
    and "wb_smt batch = Map.empty"
    and wr: "rk_write rk db (smt_update H rk db leaves batch) = Inr db'"
  shows "overlay.represents rk H (ov_new db') (apply_leaves leaves f)"
proof -
  define ov where "ov = foldl (\<lambda>ov (key, leaf). update_leaf H (ov_get rk) ov_set ov_del ov key leaf)
    (ov_new db) leaves"
  have db: "ov_db ov = db" by (simp add: ov_def ov_db_updates) (simp add: ov_new_def)
  have smt: "wb_smt (smt_update H rk db leaves batch) = ov_pending ov"
    using assms(3) by (simp add: smt_update_def Let_def flip: ov_def)
  have "rk_get_smt rk db' i =
      (case ov_pending ov i of None \<Rightarrow> rk_get_smt rk db i | Some v \<Rightarrow> Inr (map_option bytes_of v))" for i
    using assms(1) wr smt unfolding rocks_law_def by metis
  then have "ov_get rk ov i = ov_get rk (ov_new db') i" for i
    by (auto simp: ov_get_def ov_new_def db split: option.split sum.split)
  moreover have "overlay.represents rk H ov (apply_leaves leaves f)"
    unfolding ov_def using assms(2) by (rule update_leaves_represents)
  ultimately show ?thesis by (rule represents_same_reads)
qed

lemma wb_ops_smt_update [simp]: "wb_ops (smt_update H rk db leaves batch) = wb_ops batch"
  by (simp add: smt_update_def Let_def)

lemma last_op_append: "last_op (ops @ ops') k = (case last_op ops' k of None \<Rightarrow> last_op ops k | Some v \<Rightarrow> Some v)"
  by (induction ops) (auto split: option.splits)

subsection \<open>Commit\<close>

text \<open>What a commit means for the accounts: purge the empty ones, store the others.\<close>

fun commit_accounts ::
    "'a account_ops \<Rightarrow> (bytes32 \<times> 'a) list \<Rightarrow> (bytes32 \<rightharpoonup> bytes) \<Rightarrow> (bytes32 \<rightharpoonup> bytes)" where
  "commit_accounts ao [] acc = acc"
| "commit_accounts ao ((key, account) # changes) acc =
     commit_accounts ao changes
       (if ao_lamports ao account = 0 \<and> ao_data ao account = [] then acc(key := None)
        else acc(key := Some (projr (ao_ser ao account))))"

definition batch_accounts :: "batch_op list \<Rightarrow> (bytes32 \<rightharpoonup> bytes) \<Rightarrow> (bytes32 \<rightharpoonup> bytes)" where
  "batch_accounts ops acc k = (case last_op ops (bytes_of k) of None \<Rightarrow> acc k | Some v \<Rightarrow> v)"

lemma batch_accounts_simps [simp]:
  "batch_accounts [] acc = acc"
  "batch_accounts (ops @ [Put (bytes_of k) v]) acc = (batch_accounts ops acc)(k := Some v)"
  "batch_accounts (ops @ [Delete (bytes_of k)]) acc = (batch_accounts ops acc)(k := None)"
  by (auto simp: batch_accounts_def fun_eq_iff last_op_append)

lemma leaf_for_upd: "(\<lambda>x. leaf_for H x ((acc(k := v)) x)) = (\<lambda>x. leaf_for H x (acc x))(k := leaf_for H k v)"
  by auto

lemma commit_loop_correct:
  assumes "commit_loop H ao changes batch leaves = Inr (batch', leaves')"
    and "wb_smt batch = Map.empty"
    and "apply_leaves leaves f = (\<lambda>k. leaf_for H k (batch_accounts (wb_ops batch) acc k))"
  shows "wb_smt batch' = Map.empty
    \<and> batch_accounts (wb_ops batch') acc = commit_accounts ao changes (batch_accounts (wb_ops batch) acc)
    \<and> apply_leaves leaves' f = (\<lambda>k. leaf_for H k (batch_accounts (wb_ops batch') acc k))"
  using assms
proof (induction H ao changes batch leaves rule: commit_loop.induct)
  case (2 H ao key account changes batch leaves)
  show ?case
  proof (cases "ao_lamports ao account = 0 \<and> ao_data ao account = []")
    case True
    with "2.prems"(1) have loop: "commit_loop H ao changes (batch_add batch (Delete (bytes_of key)))
      (leaves @ [(key, EMPTY_LEAF)]) = Inr (batch', leaves')" by simp
    have "wb_smt (batch_add batch (Delete (bytes_of key))) = Map.empty"
      using "2.prems"(2) by (simp add: batch_add_def)
    moreover have "EMPTY_LEAF = leaf_for H key None" by (simp add: leaf_for_def)
    then have "apply_leaves (leaves @ [(key, EMPTY_LEAF)]) f =
        (\<lambda>k. leaf_for H k (batch_accounts (wb_ops (batch_add batch (Delete (bytes_of key)))) acc k))"
      using "2.prems"(3) by (simp add: batch_add_def leaf_for_upd del: fun_upd_apply)
    ultimately show ?thesis
      using "2.IH"(1) [OF True loop] True by (simp add: batch_add_def del: fun_upd_apply)
  next
    case False
    with "2.prems"(1) obtain bs where bs: "ao_ser ao account = Inr bs"
      and loop: "commit_loop H ao changes (batch_add batch (Put (bytes_of key) bs))
        (leaves @ [(key, leaf_for H key (Some bs))]) = Inr (batch', leaves')"
      by auto
    have "wb_smt (batch_add batch (Put (bytes_of key) bs)) = Map.empty"
      using "2.prems"(2) by (simp add: batch_add_def)
    moreover have "apply_leaves (leaves @ [(key, leaf_for H key (Some bs))]) f =
        (\<lambda>k. leaf_for H k (batch_accounts (wb_ops (batch_add batch (Put (bytes_of key) bs))) acc k))"
      using "2.prems"(3) by (simp add: batch_add_def leaf_for_upd del: fun_upd_apply)
    ultimately show ?thesis
      using "2.IH"(2) [OF False loop] False bs by (auto simp: batch_add_def simp del: fun_upd_apply)
  qed
qed auto

lemma adb_commit_lemma:
  assumes law: "rocks_law rk" and view: "adb_view H rk db acc"
    and commit: "adb_commit H rk ao db changes = Inr db'"
  shows "adb_view H rk db' (commit_accounts ao changes acc)"
proof -
  from commit obtain batch leaves where
    loop: "commit_loop H ao changes batch_new [] = Inr (batch, leaves)"
    and wr: "rk_write rk db (smt_update H rk db leaves batch) = Inr db'"
    by (auto simp: adb_commit_def)
  have "wb_smt batch_new = Map.empty" "wb_ops batch_new = []" by (simp_all add: batch_new_def)
  with commit_loop_correct [OF loop, of "\<lambda>k. leaf_for H k (acc k)" acc]
  have b: "wb_smt batch = Map.empty" "batch_accounts (wb_ops batch) acc = commit_accounts ao changes acc"
    "apply_leaves leaves (\<lambda>k. leaf_for H k (acc k)) = (\<lambda>k. leaf_for H k (commit_accounts ao changes acc k))"
    by auto
  have "rk_get rk db' (bytes_of k) = Inr (commit_accounts ao changes acc k)" for k
  proof -
    have "rk_get rk db' (bytes_of k) =
        (case last_op (wb_ops batch) (bytes_of k) of None \<Rightarrow> rk_get rk db (bytes_of k) | Some v \<Rightarrow> Inr v)"
      using law wr unfolding rocks_law_def by (metis wb_ops_smt_update)
    also have "\<dots> = Inr (batch_accounts (wb_ops batch) acc k)"
      using view by (auto simp: adb_view_def batch_accounts_def split: option.split)
    finally show ?thesis by (simp only: b(2))
  qed
  moreover have "overlay.represents rk H (ov_new db') (apply_leaves leaves (\<lambda>k. leaf_for H k (acc k)))"
    using view by (intro write_represents [OF law _ b(1) wr]) (simp add: adb_view_def)
  ultimately show ?thesis by (simp add: adb_view_def b(3))
qed

text \<open>\<open>set\<close> and \<open>delete\<close> of one account.\<close>

lemma write_one:
  assumes law: "rocks_law rk" and view: "adb_view H rk db acc"
    and "leaf = leaf_for H key v"
    and "op = (case v of None \<Rightarrow> Delete (bytes_of key) | Some bs \<Rightarrow> Put (bytes_of key) bs)"
    and wr: "rk_write rk db (smt_update H rk db [(key, leaf)] (batch_add batch_new op)) = Inr db'"
  shows "adb_view H rk db' (acc(key := v))"
proof -
  let ?b = "batch_add batch_new op"
  have ops: "wb_ops ?b = [op]" "wb_smt ?b = Map.empty" by (simp_all add: batch_add_def batch_new_def)
  have "rk_get rk db' (bytes_of k) = Inr ((acc(key := v)) k)" for k
  proof -
    have "rk_get rk db' (bytes_of k) =
        (case last_op [op] (bytes_of k) of None \<Rightarrow> rk_get rk db (bytes_of k) | Some v \<Rightarrow> Inr v)"
      using law wr unfolding rocks_law_def by (metis wb_ops_smt_update ops(1))
    then show ?thesis using view assms(4) by (auto simp: adb_view_def split: option.splits)
  qed
  moreover have "overlay.represents rk H (ov_new db') (apply_leaves [(key, leaf)] (\<lambda>k. leaf_for H k (acc k)))"
    using view by (intro write_represents [OF law _ ops(2) wr]) (simp add: adb_view_def)
  ultimately show ?thesis
    by (simp add: adb_view_def leaf_for_upd assms(3) del: fun_upd_apply)
qed

lemma adb_set_lemma:
  assumes "rocks_law rk" and "adb_view H rk db acc" and "adb_set H rk ao db key a = Inr db'"
  shows "\<exists>bs. ao_ser ao a = Inr bs \<and> adb_view H rk db' (acc(key := Some bs))"
proof -
  from assms(3) obtain bs where bs: "ao_ser ao a = Inr bs"
    "rk_write rk db (smt_update H rk db [(key, leaf_for H key (Some bs))]
       (batch_add batch_new (Put (bytes_of key) bs))) = Inr db'"
    by (auto simp: adb_set_def Let_def)
  from write_one [where v = "Some bs", OF assms(1,2) refl _ bs(2)] bs(1) show ?thesis by simp
qed

lemma adb_delete_lemma:
  assumes "rocks_law rk" and "adb_view H rk db acc" and "adb_delete H rk db key = Inr db'"
  shows "adb_view H rk db' (acc(key := None))"
  using assms(3)
  by (intro write_one [OF assms(1,2), where leaf = EMPTY_LEAF and op = "Delete (bytes_of key)"])
    (simp_all add: adb_delete_def Let_def leaf_for_def)

subsection \<open>Roots and proofs\<close>

definition value_hashes :: "hasher \<Rightarrow> (bytes32 \<times> bytes) list \<Rightarrow> (bytes32 \<times> bytes32) list" where
  "value_hashes H xs = map (\<lambda>(k, b). (k, account_value_hash H b)) xs"

lemma entries_leaf_value_hashes:
  "entries_leaf H (map_of (value_hashes H xs)) = (\<lambda>k. leaf_for H k (map_of xs k))"
proof -
  have "map_of (value_hashes H xs) k = map_option (account_value_hash H) (map_of xs k)" for k
    by (induction xs) (auto simp: value_hashes_def)
  then show ?thesis by (auto simp: entries_leaf_def leaf_for_def split: option.split)
qed

lemma state_root_lemma:
  assumes "adb_view H rk db (map_of xs)"
  shows "state_root H rk db = smt_root H (from_entries H (value_hashes H xs))"
  using assms overlay.stored_root_represents [of rk H "ov_new db"]
  by (simp add: adb_view_def state_root_def smt_root_spec entries_leaf_value_hashes)

lemma state_proof_lemma:
  assumes view: "adb_view H rk db acc" and proof_eq: "state_proof H rk ao db key = Inr (a, p)"
  shows "smt_verify H (state_root H rk db) key l p \<longleftrightarrow>
      sub H ((\<lambda>k. leaf_for H k (acc k))(key := l)) 256 0 = sub H (\<lambda>k. leaf_for H k (acc k)) 256 0"
    and "case a of None \<Rightarrow> acc key = None
      | Some x \<Rightarrow> \<exists>bs. acc key = Some bs \<and> ao_de ao bs = Inr x"
proof -
  have rep: "overlay.represents rk H (ov_new db) (\<lambda>k. leaf_for H k (acc k))"
    using view by (simp add: adb_view_def)
  have p: "p = path_siblings H (\<lambda>k. leaf_for H k (acc k)) key"
    using proof_eq overlay.stored_proof_represents [OF rep] by (auto simp: state_proof_def)
  show "smt_verify H (state_root H rk db) key l p \<longleftrightarrow>
      sub H ((\<lambda>k. leaf_for H k (acc k))(key := l)) 256 0 = sub H (\<lambda>k. leaf_for H k (acc k)) 256 0"
    using overlay.stored_root_represents [OF rep]
    by (simp add: p smt_verify_path state_root_def del: fun_upd_apply)
  show "case a of None \<Rightarrow> acc key = None
      | Some x \<Rightarrow> \<exists>bs. acc key = Some bs \<and> ao_de ao bs = Inr x"
    using proof_eq view
    by (auto simp: state_proof_def adb_get_def adb_view_def split: option.splits)
qed

subsection \<open>Histories of commits\<close>

fun adb_commits ::
    "hasher \<Rightarrow> 'db rocks_ops \<Rightarrow> 'a account_ops \<Rightarrow> 'db \<Rightarrow> (bytes32 \<times> 'a) list list \<Rightarrow> tao_error + 'db"
where
  "adb_commits H rk ao db [] = Inr db"
| "adb_commits H rk ao db (cs # css) =
     and_then (adb_commit H rk ao db cs) (\<lambda>db'. adb_commits H rk ao db' css)"

definition empty_db :: "'db rocks_ops \<Rightarrow> 'db \<Rightarrow> bool" where
  "empty_db rk db \<longleftrightarrow> (\<forall>k. rk_get rk db k = Inr None) \<and> (\<forall>i. rk_get_smt rk db i = Inr None)"

lemma empty_db_view: "empty_db rk db \<Longrightarrow> adb_view H rk db Map.empty"
  using overlay.empty_represents [of rk "ov_new db" H]
  by (simp add: adb_view_def empty_db_def leaf_for_def ov_get_def ov_new_def)

lemma adb_commits_view:
  assumes "rocks_law rk" and "adb_view H rk db acc" and "adb_commits H rk ao db css = Inr db'"
  shows "adb_view H rk db' (commit_accounts ao (concat css) acc)"
  using assms(2,3)
proof (induction css arbitrary: db acc)
  case (Cons cs css)
  have append: "commit_accounts ao (xs @ ys) a = commit_accounts ao ys (commit_accounts ao xs a)" for xs ys a
    by (induction ao xs a rule: commit_accounts.induct) auto
  from Cons.prems(2) obtain d where "adb_commit H rk ao db cs = Inr d" "adb_commits H rk ao d css = Inr db'"
    by auto
  from Cons.IH [OF adb_commit_lemma [OF assms(1) Cons.prems(1) this(1)] this(2)]
  show ?case by (simp add: append)
qed simp

text \<open>A database in memory, for the witnesses.\<close>

definition mem_rocks :: "((bytes \<rightharpoonup> bytes) \<times> (bytes \<rightharpoonup> bytes)) rocks_ops" where
  "mem_rocks =
     \<lparr>rk_get = (\<lambda>db k. Inr (fst db k)), rk_get_smt = (\<lambda>db i. Inr (snd db i)),
      rk_write = (\<lambda>db b. Inr
        (\<lambda>k. case last_op (wb_ops b) k of None \<Rightarrow> fst db k | Some v \<Rightarrow> v,
         \<lambda>i. case wb_smt b i of None \<Rightarrow> snd db i | Some v \<Rightarrow> map_option bytes_of v)),
      rk_iter = (\<lambda>db. [])\<rparr>"

definition byte_accounts :: "byte account_ops" where
  "byte_accounts =
     \<lparr>ao_ser = (\<lambda>b. Inr [b]), ao_de = (\<lambda>bs. if length bs = 1 then Inr (bs ! 0) else Inl ''eof''),
      ao_lamports = ucast, ao_data = (\<lambda>_. [])\<rparr>"

lemma mem_rocks_law: "rocks_law mem_rocks"
  by (auto simp: rocks_law_def mem_rocks_def split: option.split)

lemma mem_rocks_empty: "empty_db mem_rocks (Map.empty, Map.empty)"
  by (simp add: empty_db_def mem_rocks_def)

definition mem_changes :: "(bytes32 \<times> byte) list list" where
  "mem_changes = [[(1, 5), (2, 6)], [(2, 0), (3, 9)]]"

lemma mem_commits: "\<exists>db. adb_commits H mem_rocks byte_accounts (Map.empty, Map.empty) mem_changes = Inr db"
  by (simp add: mem_changes_def adb_commit_def byte_accounts_def mem_rocks_def)

lemma mem_accounts:
  "commit_accounts byte_accounts (concat mem_changes) Map.empty = map_of [(1, [5]), (3, [9])]"
  by (simp add: mem_changes_def byte_accounts_def fun_eq_iff)

subsection \<open>Properties\<close>

text \<open>
  Property C21.  State commitment: after any history of commits on an empty store, each account
  reads as the last commit left it (purged when it had no lamports and no data), and the
  incrementally maintained state root equals the root of the tree built from scratch over the
  final accounts, in any order, so nodes that hold the same accounts agree on the root.
\<close>

theorem state_root_from_scratch:
  assumes "rocks_law rk" and "empty_db rk db"
    and "adb_commits H rk ao db css = Inr db'"
    and "map_of xs = commit_accounts ao (concat css) Map.empty"
  shows "(\<forall>k. rk_get rk db' (bytes_of k) = Inr (map_of xs k))
    \<and> state_root H rk db' = smt_root H (from_entries H (value_hashes H xs))"
proof -
  have "adb_view H rk db' (map_of xs)"
    using adb_commits_view [OF assms(1) empty_db_view [OF assms(2)] assms(3)] by (simp only: assms(4))
  from state_root_lemma [OF this] this show ?thesis by (simp add: adb_view_def)
qed

theorem state_root_from_scratch_witness:
  "\<exists>db. adb_commits (\<lambda>bs. word_of_nat (length bs)) mem_rocks byte_accounts (Map.empty, Map.empty) mem_changes = Inr db
    \<and> rk_get mem_rocks db (bytes_of 3) = Inr (Some [9]) \<and> rk_get mem_rocks db (bytes_of 2) = Inr None"
proof -
  obtain db where db: "adb_commits (\<lambda>bs. word_of_nat (length bs)) mem_rocks byte_accounts
      (Map.empty, Map.empty) mem_changes = Inr db"
    using mem_commits by blast
  from state_root_from_scratch [OF mem_rocks_law mem_rocks_empty db mem_accounts [symmetric]]
  have "\<forall>k. rk_get mem_rocks db (bytes_of k) = Inr (map_of [(1, [5]), (3, [9])] k)" by (rule conjunct1)
  then have "rk_get mem_rocks db (bytes_of 3) = Inr (Some [9])" "rk_get mem_rocks db (bytes_of 2) = Inr None"
    by simp_all
  with db show ?thesis by blast
qed

text \<open>Light-client proofs of accounts: after any history of commits, the proof
  returned for a key verifies against the state root with the leaf of the stored bytes, or with
  the empty leaf when the returned account is \<open>None\<close>, and the returned account decodes those
  bytes.
\<close>

theorem state_proof_verifies:
  assumes "rocks_law rk" and "empty_db rk db"
    and "adb_commits H rk ao db css = Inr db'"
    and "state_proof H rk ao db' key = Inr (a, p)"
  shows "case commit_accounts ao (concat css) Map.empty key of
      None \<Rightarrow> a = None \<and> smt_verify H (state_root H rk db') key EMPTY_LEAF p
    | Some bs \<Rightarrow> (\<exists>x. a = Some x \<and> ao_de ao bs = Inr x)
        \<and> smt_verify H (state_root H rk db') key (leaf_hash H key (account_value_hash H bs)) p"
proof -
  let ?acc = "commit_accounts ao (concat css) Map.empty"
  have view: "adb_view H rk db' ?acc"
    by (rule adb_commits_view [OF assms(1) empty_db_view [OF assms(2)] assms(3)])
  note p = state_proof_lemma [OF view assms(4)]
  have "smt_verify H (state_root H rk db') key (leaf_for H key (?acc key)) p"
    by (simp add: p(1) fun_upd_idem)
  with p(2) show ?thesis by (cases "?acc key"; cases a) (auto simp: leaf_for_def)
qed

theorem state_proof_verifies_witness:
  "\<exists>db p. smt_verify (\<lambda>_. 0) (state_root (\<lambda>_. 0) mem_rocks db) 2 EMPTY_LEAF p"
proof -
  obtain db where db: "adb_commits (\<lambda>_. 0) mem_rocks byte_accounts
      (Map.empty, Map.empty) mem_changes = Inr db"
    using mem_commits by blast
  have view: "adb_view (\<lambda>_. 0) mem_rocks db (map_of [(1, [5]), (3, [9])])"
    using adb_commits_view [OF mem_rocks_law empty_db_view [OF mem_rocks_empty] db] by (simp only: mem_accounts)
  then have "rk_get mem_rocks db (bytes_of 2) = Inr None" by (simp add: adb_view_def)
  then obtain p where "state_proof (\<lambda>_. 0) mem_rocks byte_accounts db 2 = Inr (None, p)"
    by (simp add: state_proof_def adb_get_def)
  from state_proof_verifies [OF mem_rocks_law mem_rocks_empty db this]
  have "smt_verify (\<lambda>_. 0) (state_root (\<lambda>_. 0) mem_rocks db) 2 EMPTY_LEAF p"
    by (simp add: mem_accounts)
  then show ?thesis by blast
qed

end
