(* ===== verification/Pow.thy ===== *)
theory Pow
  imports Block
begin

text \<open>
  The PoW abstraction and the miner's inner loop: \<^verbatim>\<open>crates/tao-consensus/src/pow/mod.rs\<close>,
  \<^verbatim>\<open>pow/blake3pow.rs\<close> and \<^verbatim>\<open>mine.rs\<close>.

  A \<open>dyn PowAlgorithm\<close> is a record of its methods.  The contract every implementation
  keeps (a header verifies exactly when its PoW hash meets its target) is the locale
  \<open>pow_contract\<close>; grinding is proved against it, the height switch inherits it from its two
  parts by a sublocale, and the BLAKE3 algorithm and the switch are its interpretations here.
\<close>

record pow_algorithm =
  pa_name :: string
  pa_pow_hash :: "block_header \<Rightarrow> bytes32"
  pa_verify :: "block_header \<Rightarrow> bool"

text \<open>The trait's default \<open>verify\<close>.\<close>

definition default_verify :: "(block_header \<Rightarrow> bytes32) \<Rightarrow> block_header \<Rightarrow> bool" where
  "default_verify hash h = meets_target (hash h) (bh_target h)"

definition blake3_pow_hash :: "hasher \<Rightarrow> (block_header \<Rightarrow> bytes) \<Rightarrow> block_header \<Rightarrow> bytes32" where
  "blake3_pow_hash H ser h = H (ser h)"

definition blake3_pow :: "hasher \<Rightarrow> (block_header \<Rightarrow> bytes) \<Rightarrow> pow_algorithm" where
  "blake3_pow H ser =
     \<lparr>pa_name = ''blake3'', pa_pow_hash = blake3_pow_hash H ser,
      pa_verify = default_verify (blake3_pow_hash H ser)\<rparr>"

record height_switch_pow =
  hs_before :: pow_algorithm
  hs_after :: pow_algorithm
  hs_activation_height :: u64

definition hs_active :: "height_switch_pow \<Rightarrow> u64 \<Rightarrow> pow_algorithm" where
  "hs_active s height = (if height \<ge> hs_activation_height s then hs_after s else hs_before s)"

definition height_switch :: "height_switch_pow \<Rightarrow> pow_algorithm" where
  "height_switch s =
     \<lparr>pa_name = ''height-switch'',
      pa_pow_hash = (\<lambda>h. pa_pow_hash (hs_active s (bh_height h)) h),
      pa_verify = (\<lambda>h. pa_verify (hs_active s (bh_height h)) h)\<rparr>"

subsection \<open>Grinding\<close>

datatype grind_result = Found u64 | Exhausted u64

text \<open>\<open>grind_loop verify n i header\<close>: \<open>n\<close> attempts are left and \<open>i\<close> were made.\<close>

fun grind_loop :: "(block_header \<Rightarrow> bool) \<Rightarrow> nat \<Rightarrow> u64 \<Rightarrow> block_header \<Rightarrow> block_header \<times> grind_result"
where
  "grind_loop verify 0 i h = (h, Exhausted i)"
| "grind_loop verify (Suc n) i h =
     (if verify h then (h, Found (i + 1))
      else grind_loop verify n (i + 1) (h\<lparr>bh_nonce := bh_nonce h + 1\<rparr>))"

definition grind :: "block_header \<Rightarrow> pow_algorithm \<Rightarrow> u64 \<Rightarrow> block_header \<times> grind_result" where
  "grind h pow max_iters = grind_loop (pa_verify pow) (unat max_iters) 0 h"

definition with_nonce :: "block_header \<Rightarrow> nat \<Rightarrow> block_header" where
  "with_nonce h j = h\<lparr>bh_nonce := bh_nonce h + word_of_nat j\<rparr>"

lemma with_nonce_0 [simp]: "with_nonce h 0 = h"
  by (simp add: with_nonce_def)

lemma with_nonce_Suc:
  "with_nonce (h\<lparr>bh_nonce := bh_nonce h + 1\<rparr>) j = with_nonce h (Suc j)"
  "with_nonce (h\<lparr>bh_nonce := 1 + bh_nonce h\<rparr>) j = with_nonce h (Suc j)"
  by (simp_all add: with_nonce_def add_ac)

lemma with_nonce_fields [simp]:
  "bh_target (with_nonce h j) = bh_target h"
  "bh_height (with_nonce h j) = bh_height h"
  "bh_prev_hash (with_nonce h j) = bh_prev_hash h"
  "bh_timestamp (with_nonce h j) = bh_timestamp h"
  by (simp_all add: with_nonce_def)

text \<open>The loop stops at the first nonce, counting from the given one, that verifies.\<close>

lemma grind_loop_least:
  assumes "j < n" and "verify (with_nonce h j)" and "\<And>i. i < j \<Longrightarrow> \<not> verify (with_nonce h i)"
  shows "grind_loop verify n c h = (with_nonce h j, Found (c + word_of_nat (Suc j)))"
  using assms
proof (induction n arbitrary: j c h)
  case (Suc n)
  show ?case
  proof (cases j)
    case 0
    with Suc.prems show ?thesis by simp
  next
    case (Suc j')
    then have "\<not> verify h" using Suc.prems(3) [of 0] by simp
    have "grind_loop verify n (c + 1) (h\<lparr>bh_nonce := bh_nonce h + 1\<rparr>) =
        (with_nonce (h\<lparr>bh_nonce := bh_nonce h + 1\<rparr>) j', Found (c + 1 + word_of_nat (Suc j')))"
    proof (rule Suc.IH)
      show "j' < n" using Suc.prems(1) Suc by simp
      show "verify (with_nonce (h\<lparr>bh_nonce := bh_nonce h + 1\<rparr>) j')"
        using Suc.prems(2) Suc by (simp add: with_nonce_Suc)
      show "\<not> verify (with_nonce (h\<lparr>bh_nonce := bh_nonce h + 1\<rparr>) i)" if "i < j'" for i
        using Suc.prems(3) [of "Suc i"] that Suc by (simp add: with_nonce_Suc)
    qed
    with \<open>\<not> verify h\<close> Suc show ?thesis by (simp add: with_nonce_Suc add_ac)
  qed
qed simp

lemma grind_loop_none:
  assumes "\<And>j. j < n \<Longrightarrow> \<not> verify (with_nonce h j)"
  shows "grind_loop verify n c h = (with_nonce h n, Exhausted (c + word_of_nat n))"
  using assms
proof (induction n arbitrary: c h)
  case (Suc n)
  have "\<not> verify h" using Suc.prems [of 0] by simp
  have "grind_loop verify n (c + 1) (h\<lparr>bh_nonce := bh_nonce h + 1\<rparr>) =
      (with_nonce (h\<lparr>bh_nonce := bh_nonce h + 1\<rparr>) n, Exhausted (c + 1 + word_of_nat n))"
    using Suc.prems [of "Suc j" for j] by (intro Suc.IH) (simp add: with_nonce_Suc)
  with \<open>\<not> verify h\<close> show ?case by (simp add: with_nonce_Suc add_ac)
qed simp

lemma grind_cases:
  obtains (found) j where "j < unat m" "pa_verify pow (with_nonce h j)"
      "\<And>i. i < j \<Longrightarrow> \<not> pa_verify pow (with_nonce h i)"
      "grind h pow m = (with_nonce h j, Found (word_of_nat (Suc j)))"
    | (exhausted) "\<And>j. j < unat m \<Longrightarrow> \<not> pa_verify pow (with_nonce h j)"
      "grind h pow m = (with_nonce h (unat m), Exhausted m)"
proof (cases "\<exists>j < unat m. pa_verify pow (with_nonce h j)")
  case True
  define j where "j = (LEAST j. j < unat m \<and> pa_verify pow (with_nonce h j))"
  have "j < unat m \<and> pa_verify pow (with_nonce h j)"
    unfolding j_def using True by (rule LeastI_ex)
  moreover have "\<not> pa_verify pow (with_nonce h i)" if "i < j" for i
    using not_less_Least [of i "\<lambda>j. j < unat m \<and> pa_verify pow (with_nonce h j)"] that calculation
    by (auto simp: j_def)
  ultimately show ?thesis
    using found [of j] grind_loop_least [of j "unat m" "pa_verify pow" h 0] by (auto simp: grind_def)
next
  case False
  then show ?thesis
    using exhausted grind_loop_none [of "unat m" "pa_verify pow" h 0] by (auto simp: grind_def)
qed

subsection \<open>The contract of an algorithm\<close>

locale pow_contract =
  fixes hash :: "block_header \<Rightarrow> bytes32"
    and verify :: "block_header \<Rightarrow> bool"
  assumes verify_iff: "verify h \<longleftrightarrow> meets_target (hash h) (bh_target h)"
begin

lemma verified_hash: "verify h \<Longrightarrow> unat (hash h) \<le> unat (bh_target h)"
  by (simp add: verify_iff word_le_nat_alt)

lemma full_target_verifies: "bh_target h = - 1 \<Longrightarrow> verify h"
  by (simp add: verify_iff)

lemma grind_sound:
  assumes "pa_verify pow = verify" and "grind h pow m = (h', Found k)"
  shows "unat (hash h') \<le> unat (bh_target h)
    \<and> 1 \<le> unat k \<and> unat k \<le> unat m
    \<and> h' = with_nonce h (unat k - 1)
    \<and> (\<forall>i < unat k - 1. \<not> verify (with_nonce h i))"
proof (cases rule: grind_cases [of m pow h])
  case (found j)
  have "Suc j < 2 ^ 64"
    using found(1) unsigned_less [of m, where 'a = nat] by simp
  then have k: "unat k = Suc j"
    using found(4) assms(2) by (auto simp: unat_of_nat simp del: of_nat_Suc)
  with found assms show ?thesis
    using verified_hash [of "with_nonce h j"] by (auto simp: le_simps)
next
  case exhausted
  with assms(2) show ?thesis by simp
qed

end

locale pow_switch_contract =
  before: pow_contract before_hash before_verify + after: pow_contract after_hash after_verify
  for before_hash before_verify after_hash after_verify +
  fixes activation :: u64
begin

definition switch_hash :: "block_header \<Rightarrow> bytes32" where
  "switch_hash h = (if bh_height h \<ge> activation then after_hash h else before_hash h)"

definition switch_verify :: "block_header \<Rightarrow> bool" where
  "switch_verify h = (if bh_height h \<ge> activation then after_verify h else before_verify h)"

lemma switch_verify_iff: "switch_verify h \<longleftrightarrow> meets_target (switch_hash h) (bh_target h)"
  by (simp add: switch_verify_def switch_hash_def before.verify_iff after.verify_iff)

end

sublocale pow_switch_contract \<subseteq> switch: pow_contract switch_hash switch_verify
  by unfold_locales (rule switch_verify_iff)

interpretation blake3: pow_contract "pa_pow_hash (blake3_pow H ser)" "pa_verify (blake3_pow H ser)"
  for H :: hasher and ser :: "block_header \<Rightarrow> bytes"
  by unfold_locales (simp add: blake3_pow_def default_verify_def)

text \<open>A hard fork from one BLAKE3-style algorithm to another keeps the contract.\<close>

interpretation blake3_switch: pow_switch_contract
  "pa_pow_hash (blake3_pow H ser)" "pa_verify (blake3_pow H ser)"
  "pa_pow_hash (blake3_pow H' ser')" "pa_verify (blake3_pow H' ser')" activation
  for H H' :: hasher and ser ser' :: "block_header \<Rightarrow> bytes" and activation :: u64
  by unfold_locales

definition pow_ok :: "pow_algorithm \<Rightarrow> bool" where
  "pow_ok p \<longleftrightarrow> pow_contract (pa_pow_hash p) (pa_verify p)"

lemma blake3_pow_ok: "pow_ok (blake3_pow H ser)"
  unfolding pow_ok_def by (rule blake3.pow_contract_axioms)

lemma height_switch_contract:
  assumes "pow_ok (hs_before s)" and "pow_ok (hs_after s)"
  shows "pow_ok (height_switch s)"
  using assms by (auto simp: pow_ok_def pow_contract_def height_switch_def hs_active_def)

subsection \<open>Properties\<close>

text \<open>
  Mining with the BLAKE3 algorithm below a hard fork and another BLAKE3-style
  algorithm from it on: a \<open>Found\<close> after \<open>k\<close> attempts returns the header with the first
  verifying nonce at or after the given one, its hash under the algorithm active at its height
  meets the target, and \<open>k\<close> is within the given budget; otherwise no nonce of the budget
  verifies and the count is the budget.
\<close>

theorem grind_correct:
  fixes before after :: "block_header \<Rightarrow> bytes" and H H' :: hasher
    and a :: u64
  defines "s \<equiv> \<lparr>hs_before = blake3_pow H before, hs_after = blake3_pow H' after,
    hs_activation_height = a\<rparr>"
  shows "case grind h (height_switch s) m of
    (h', Found k) \<Rightarrow>
      unat (pa_pow_hash (hs_active s (bh_height h)) h') \<le> unat (bh_target h)
      \<and> 1 \<le> unat k \<and> unat k \<le> unat m \<and> h' = with_nonce h (unat k - 1)
      \<and> list_all (\<lambda>i. \<not> pa_verify (height_switch s) (with_nonce h i)) [0..<unat k - 1]
  | (h', Exhausted k) \<Rightarrow>
      k = m \<and> list_all (\<lambda>i. \<not> pa_verify (height_switch s) (with_nonce h i)) [0..<unat m]"
proof (cases "grind h (height_switch s) m")
  case (Pair h' r)
  have "pow_ok (height_switch s)"
    by (rule height_switch_contract) (simp_all add: s_def blake3_pow_ok)
  then have contract: "pow_contract (pa_pow_hash (height_switch s)) (pa_verify (height_switch s))"
    by (simp only: pow_ok_def)
  show ?thesis
  proof (cases r)
    case (Found k)
    note sound = pow_contract.grind_sound [OF contract refl, of h m h' k]
    from sound Pair Found have "h' = with_nonce h (unat k - 1)" by simp
    then have "bh_height h' = bh_height h" by simp
    then have "pa_pow_hash (height_switch s) h' = pa_pow_hash (hs_active s (bh_height h)) h'"
      by (simp add: height_switch_def)
    with sound Pair Found show ?thesis by (auto simp: list_all_iff)
  next
    case (Exhausted k)
    with Pair show ?thesis
      by (cases rule: grind_cases [of m "height_switch s" h]) (auto simp: list_all_iff)
  qed
qed

end
