(* ===== verification/Difficulty.thy ===== *)
theory Difficulty
  imports Block
begin

text \<open>
  Per-block LWMA retargeting: \<^verbatim>\<open>crates/tao-consensus/src/difficulty.rs\<close>.

  \<open>i64\<close> values are words read by \<open>sint\<close>; \<open>+\<close>, \<open>-\<close> and \<open>*\<close> on them wrap, as in a release
  build.  \<open>None\<close> is a panic (\<open>clamp\<close> with an empty range, \<open>U256\<close> addition overflow,
  division by zero).  The lemmas turn the loop into two sums over the window, bound the
  weighted time, and derive the retarget limits.
\<close>

record difficulty_params =
  dp_target_block_time_secs :: u64
  dp_window :: u64

definition difficulty_params_new :: "u64 \<Rightarrow> u64 \<Rightarrow> difficulty_params option" where
  "difficulty_params_new t w =
     (if t > 0 \<and> w \<ge> 2
      then Some \<lparr>dp_target_block_time_secs = t, dp_window = w\<rparr> else None)"

definition i64_clamp :: "i64 \<Rightarrow> i64 \<Rightarrow> i64 \<Rightarrow> i64 option" where
  "i64_clamp x lo hi =
     (if sint hi < sint lo then None
      else Some (if sint x < sint lo then lo else if sint hi < sint x then hi else x))"

fun lwma_loop :: "i64 \<Rightarrow> nat \<Rightarrow> block_header list \<Rightarrow> i64 \<Rightarrow> u256 \<Rightarrow> (i64 \<times> u256) option" where
  "lwma_loop max_solvetime i (prev # cur # rest) weighted_time difficulty_sum =
     (case i64_clamp (bh_timestamp cur - bh_timestamp prev) 1 max_solvetime of
        None \<Rightarrow> None
      | Some solvetime \<Rightarrow>
          (case checked_add difficulty_sum (work_for_target (bh_target cur)) of
             None \<Rightarrow> None
           | Some dsum \<Rightarrow>
               lwma_loop max_solvetime (Suc i) (cur # rest)
                 (weighted_time + word_of_nat i * solvetime) dsum))"
| "lwma_loop max_solvetime i window weighted_time difficulty_sum =
     Some (weighted_time, difficulty_sum)"

definition difficulty_to_target :: "u256 \<Rightarrow> target" where
  "difficulty_to_target d = (if d = 0 then - 1 else from_u256 (- 1 div d))"

definition next_target ::
    "block_header list \<Rightarrow> difficulty_params \<Rightarrow> target \<Rightarrow> target option" where
  "next_target recent params genesis_target =
     (let n = dp_window params; t = dp_target_block_time_secs params in
      if length recent \<le> unat n
      then Some (if recent = [] then genesis_target else bh_target (last recent))
      else
        let window = drop (length recent - (unat n + 1)) recent;
            max_solvetime = 6 * t
        in case lwma_loop max_solvetime 1 window 0 0 of
             None \<Rightarrow> None
           | Some (weighted_time, difficulty_sum) \<Rightarrow>
               if n = 0 then None
               else
                 let avg_difficulty = difficulty_sum div ucast n;
                     k = t * (n * (n + 1) div 2);
                     wt = (if sint weighted_time < 1 then 1 else weighted_time);
                     next_difficulty = saturating_mul avg_difficulty (ucast k) div ucast wt
                 in Some (difficulty_to_target next_difficulty))"

subsection \<open>The loop as two sums\<close>

definition solvetime :: "i64 \<Rightarrow> block_header \<Rightarrow> block_header \<Rightarrow> nat" where
  "solvetime hi prev cur =
     (let d = bh_timestamp cur - bh_timestamp prev
      in if sint d < 1 then 1 else if sint hi < sint d then unat hi else unat d)"

fun solvetimes :: "i64 \<Rightarrow> block_header list \<Rightarrow> nat list" where
  "solvetimes hi (prev # cur # rest) = solvetime hi prev cur # solvetimes hi (cur # rest)"
| "solvetimes hi _ = []"

fun weighted :: "nat \<Rightarrow> nat list \<Rightarrow> nat" where
  "weighted i [] = 0"
| "weighted i (x # xs) = i * x + weighted (Suc i) xs"

definition work_sum :: "block_header list \<Rightarrow> nat" where
  "work_sum hs = (\<Sum>h \<leftarrow> hs. unat (work_for_target (bh_target h)))"

lemma solvetime_bounds:
  assumes "1 \<le> sint hi"
  shows "1 \<le> solvetime hi prev cur \<and> solvetime hi prev cur \<le> unat hi"
proof -
  define d where "d = bh_timestamp cur - bh_timestamp prev"
  have pos: "1 \<le> unat x" if "1 \<le> sint x" for x :: i64
    using that sint_nonneg [of x] by (cases "unat x") auto
  consider "sint d < 1" | "1 \<le> sint d" "sint hi < sint d" | "1 \<le> sint d" "sint d \<le> sint hi"
    by linarith
  then show ?thesis
  proof cases
    case 1
    with pos [OF assms] show ?thesis by (simp add: solvetime_def Let_def flip: d_def)
  next
    case 2
    with pos [OF assms] show ?thesis by (simp add: solvetime_def Let_def flip: d_def)
  next
    case 3
    then have "int (unat d) \<le> int (unat hi)"
      using sint_nonneg [of d] sint_nonneg [of hi] by linarith
    then have "unat d \<le> unat hi" by (simp only: of_nat_le_iff)
    with 3 pos [OF 3(1)] show ?thesis by (simp add: solvetime_def Let_def flip: d_def)
  qed
qed

lemma i64_clamp_solvetime:
  assumes "1 \<le> sint hi"
  shows "i64_clamp (bh_timestamp cur - bh_timestamp prev) 1 hi =
    Some (word_of_nat (solvetime hi prev cur))"
  using assms by (auto simp: i64_clamp_def solvetime_def Let_def)

lemma length_solvetimes [simp]: "length (solvetimes hi hs) = length hs - 1"
  by (induction hi hs rule: solvetimes.induct) auto

lemma lwma_loop_sums:
  assumes "1 \<le> sint hi"
    and "unat wt + weighted i (solvetimes hi hs) < 2 ^ 64"
    and "unat ds + work_sum (tl hs) < 2 ^ 256"
  shows "lwma_loop hi i hs wt ds =
    Some (word_of_nat (unat wt + weighted i (solvetimes hi hs)),
          word_of_nat (unat ds + work_sum (tl hs)))"
  using assms
proof (induction hi i hs wt ds rule: lwma_loop.induct)
  case (1 hi i prev cur rest wt ds)
  let ?st = "solvetime hi prev cur" and ?w = "work_for_target (bh_target cur)"
  have sum: "checked_add ds ?w = Some (ds + ?w)"
    using "1.prems"(3) by (simp add: checked_add_def work_sum_def)
  have wt: "unat (wt + word_of_nat i * word_of_nat ?st) = unat wt + i * ?st"
  proof -
    have "unat (word_of_nat (unat wt + i * ?st) :: i64) = unat wt + i * ?st"
      using "1.prems"(2) by (intro of_nat_inverse) simp_all
    moreover have "word_of_nat (unat wt + i * ?st) = wt + word_of_nat i * word_of_nat ?st"
      by simp
    ultimately show ?thesis by metis
  qed
  have ds: "unat (ds + ?w) = unat ds + unat ?w"
    using "1.prems"(3) by (intro unat_add_no_wrap) (simp add: work_sum_def)
  have "lwma_loop hi (Suc i) (cur # rest) (wt + word_of_nat i * word_of_nat ?st) (ds + ?w) =
     Some (word_of_nat (unat (wt + word_of_nat i * word_of_nat ?st) +
             weighted (Suc i) (solvetimes hi (cur # rest))),
           word_of_nat (unat (ds + ?w) + work_sum (tl (cur # rest))))"
    using "1.prems" by (intro "1.IH" i64_clamp_solvetime sum)
      (simp_all only: wt ds, simp_all add: work_sum_def)
  with "1.prems"(1) sum wt ds show ?case
    by (simp add: i64_clamp_solvetime work_sum_def add_ac)
qed (simp_all add: work_sum_def)

lemma sum_ivl_head: "(\<Sum>j = i..<i + Suc n. j) = i + (\<Sum>j = Suc i..<Suc i + n. j)" for i n :: nat
  by (simp add: sum.atLeast_Suc_lessThan del: sum.op_ivl_Suc)

lemma weighted_lower:
  "(\<forall>x \<in> set xs. 1 \<le> x) \<Longrightarrow> weighted i xs \<ge> (\<Sum>j = i..<i + length xs. j)"
proof (induction xs arbitrary: i)
  case (Cons x xs)
  have "i \<le> i * x" using Cons.prems by simp
  moreover have "(\<Sum>j = Suc i..<Suc i + length xs. j) \<le> weighted (Suc i) xs"
    using Cons.prems by (intro Cons.IH) simp
  ultimately have "i + (\<Sum>j = Suc i..<Suc i + length xs. j) \<le> i * x + weighted (Suc i) xs"
    by (rule add_mono)
  then show ?case using sum_ivl_head [of i "length xs"] by (simp del: sum.op_ivl_Suc)
qed simp

lemma weighted_upper:
  "(\<forall>x \<in> set xs. x \<le> m) \<Longrightarrow> weighted i xs \<le> m * (\<Sum>j = i..<i + length xs. j)"
proof (induction xs arbitrary: i)
  case (Cons x xs)
  have "i * x \<le> m * i" using Cons.prems by (simp add: mult.commute)
  moreover have "weighted (Suc i) xs \<le> m * (\<Sum>j = Suc i..<Suc i + length xs. j)"
    using Cons.prems by (intro Cons.IH) simp
  ultimately have "i * x + weighted (Suc i) xs \<le> m * i + m * (\<Sum>j = Suc i..<Suc i + length xs. j)"
    by (rule add_mono)
  then show ?case
    using sum_ivl_head [of i "length xs"] by (simp add: distrib_left del: sum.op_ivl_Suc)
qed simp

lemma weighted_const: "weighted i (replicate n m) = m * (\<Sum>j = i..<i + n. j)"
proof (induction n arbitrary: i)
  case (Suc n)
  then show ?case
    using sum_ivl_head [of i n] by (simp add: distrib_left mult.commute del: sum.op_ivl_Suc)
qed simp

lemma triangle: "(\<Sum>j = 1..<1 + n. j) = n * (n + 1) div 2" for n :: nat
  using gauss_sum_from_Suc_0 [of n, where 'a = nat]
  by (simp add: atLeastLessThanSuc_atLeastAtMost)

lemma solvetimes_bounds:
  assumes "1 \<le> sint hi" and "x \<in> set (solvetimes hi hs)"
  shows "1 \<le> x \<and> x \<le> unat hi"
  using assms
proof (induction hi hs rule: solvetimes.induct)
  case (1 hi prev cur rest)
  then show ?case using solvetime_bounds [OF "1.prems"(1), of prev cur] by auto
qed auto

subsection \<open>The retarget in closed form\<close>

text \<open>
  \<open>small_params\<close>: the window and the block time are small enough for the \<open>i64\<close>/\<open>u64\<close>
  arithmetic of one retarget (a 10 s block time admits windows of up to half a billion).
\<close>

definition small_params :: "difficulty_params \<Rightarrow> bool" where
  "small_params p \<longleftrightarrow>
     1 \<le> unat (dp_target_block_time_secs p) \<and> 2 \<le> unat (dp_window p) \<and>
     6 * unat (dp_target_block_time_secs p) *
       (unat (dp_window p) * (unat (dp_window p) + 1)) < 2 ^ 63"

definition lwma_window :: "difficulty_params \<Rightarrow> block_header list \<Rightarrow> block_header list" where
  "lwma_window p recent = drop (length recent - (unat (dp_window p) + 1)) recent"

definition avg_work :: "difficulty_params \<Rightarrow> block_header list \<Rightarrow> nat" where
  "avg_work p recent = work_sum (tl (lwma_window p recent)) div unat (dp_window p)"

definition weighted_time_of :: "difficulty_params \<Rightarrow> block_header list \<Rightarrow> nat" where
  "weighted_time_of p recent =
     weighted 1 (solvetimes (6 * dp_target_block_time_secs p) (lwma_window p recent))"

definition on_time_weight :: "difficulty_params \<Rightarrow> nat" where
  "on_time_weight p =
     unat (dp_target_block_time_secs p) * (unat (dp_window p) * (unat (dp_window p) + 1) div 2)"

lemma small_params_block_time:
  assumes "small_params p"
  shows "6 * unat (dp_target_block_time_secs p) < 2 ^ 63"
proof -
  let ?t = "unat (dp_target_block_time_secs p)" and ?n = "unat (dp_window p)"
  have "6 * ?t * 1 \<le> 6 * ?t * (?n * (?n + 1))"
    using assms by (intro mult_left_mono) (auto simp: small_params_def)
  moreover have "6 * ?t * (?n * (?n + 1)) < 2 ^ 63" using assms by (simp only: small_params_def)
  ultimately show ?thesis by linarith
qed

lemma small_params_max_solvetime:
  assumes "small_params p"
  shows "unat (6 * dp_target_block_time_secs p) = 6 * unat (dp_target_block_time_secs p)"
    and "1 \<le> sint (6 * dp_target_block_time_secs p)"
proof -
  let ?t = "unat (dp_target_block_time_secs p)" and ?n = "unat (dp_window p)"
  have le: "6 * ?t < 2 ^ 63" by (rule small_params_block_time [OF assms])
  have "unat (word_of_nat (6 * ?t) :: i64) = 6 * ?t"
    using le by (intro of_nat_inverse) simp_all
  then show eq: "unat (6 * dp_target_block_time_secs p) = 6 * ?t" by simp
  have "sint (6 * dp_target_block_time_secs p) = int (6 * ?t)"
    using le eq by (simp add: sint_small)
  moreover have "1 \<le> 6 * ?t" using assms by (simp add: small_params_def)
  then have "int 1 \<le> int (6 * ?t)" by (simp only: of_nat_le_iff)
  ultimately show "1 \<le> sint (6 * dp_target_block_time_secs p)" by linarith
qed

lemma weighted_time_bounds:
  assumes "small_params p" and "unat (dp_window p) < length recent"
  shows "unat (dp_window p) * (unat (dp_window p) + 1) div 2 \<le> weighted_time_of p recent"
    and "weighted_time_of p recent \<le> 6 * on_time_weight p"
proof -
  let ?n = "unat (dp_window p)" and ?hi = "6 * dp_target_block_time_secs p"
  let ?st = "solvetimes ?hi (lwma_window p recent)"
  have len: "length ?st = ?n" using assms(2) by (simp add: lwma_window_def)
  have bounds: "\<forall>x \<in> set ?st. 1 \<le> x" "\<forall>x \<in> set ?st. x \<le> unat ?hi"
    using solvetimes_bounds [OF small_params_max_solvetime(2) [OF assms(1)]] by auto
  have sum: "(\<Sum>j = 1..<1 + length ?st. j) = ?n * (?n + 1) div 2"
    using triangle [of ?n] len by (simp del: sum.op_ivl_Suc)
  show "?n * (?n + 1) div 2 \<le> weighted_time_of p recent"
    using weighted_lower [OF bounds(1), of 1] unfolding sum by (simp add: weighted_time_of_def)
  show "weighted_time_of p recent \<le> 6 * on_time_weight p"
    using weighted_upper [OF bounds(2), of 1] small_params_max_solvetime(1) [OF assms(1)]
    unfolding sum by (simp add: weighted_time_of_def on_time_weight_def mult.assoc)
qed

lemma on_time_weight_small:
  assumes "small_params p"
  shows "6 * on_time_weight p < 2 ^ 63"
    and "unat (dp_target_block_time_secs p * (dp_window p * (dp_window p + 1) div 2)) = on_time_weight p"
proof -
  let ?t = "unat (dp_target_block_time_secs p)" and ?n = "unat (dp_window p)"
  have prod: "6 * ?t * (?n * (?n + 1)) < 2 ^ 63" using assms by (simp only: small_params_def)
  have "?t * (?n * (?n + 1) div 2) \<le> ?t * (?n * (?n + 1))" by (intro mult_left_mono) simp_all
  then show small: "6 * on_time_weight p < 2 ^ 63" using prod by (simp only: on_time_weight_def mult.assoc)
  have "1 * (?n * (?n + 1)) \<le> 6 * ?t * (?n * (?n + 1))"
    using assms by (intro mult_right_mono) (auto simp: small_params_def)
  with prod have nn: "?n * (?n + 1) < 2 ^ 63" by linarith
  moreover have "?n + 1 \<le> ?n * (?n + 1)" using assms by (simp add: small_params_def)
  ultimately have "?n + 1 < 2 ^ 63" by linarith
  then have "unat (dp_window p + 1) = ?n + 1" by (subst unat_add_no_wrap) simp_all
  with nn have "unat (dp_window p * (dp_window p + 1)) = ?n * (?n + 1)"
    by (simp only: unat_word_ariths) simp
  then have "unat (dp_window p * (dp_window p + 1) div 2) = ?n * (?n + 1) div 2"
    by (simp add: unat_div_distrib)
  moreover have "on_time_weight p < 2 ^ 64" using small by simp
  then have "?t * (?n * (?n + 1) div 2) < 2 ^ 64" by (simp only: on_time_weight_def)
  ultimately show "unat (dp_target_block_time_secs p * (dp_window p * (dp_window p + 1) div 2)) = on_time_weight p"
    by (simp add: unat_word_ariths(2) on_time_weight_def)
qed

text \<open>The whole retarget, as natural-number arithmetic.\<close>

lemma next_target_closed_form:
  assumes small: "small_params p" and len: "unat (dp_window p) < length recent"
    and work: "work_sum (tl (lwma_window p recent)) < 2 ^ 256"
  shows "next_target recent p g = Some (difficulty_to_target (word_of_nat
    (min (avg_work p recent * on_time_weight p) (2 ^ 256 - 1) div weighted_time_of p recent)))"
proof -
  let ?n = "unat (dp_window p)" and ?hi = "6 * dp_target_block_time_secs p"
  let ?W = "weighted_time_of p recent" and ?S = "work_sum (tl (lwma_window p recent))"
  note w = weighted_time_bounds [OF small len] and k = on_time_weight_small [OF small]
  have n: "2 \<le> ?n" using small by (simp add: small_params_def)
  then have "1 \<le> ?n * (?n + 1) div 2"
    using div_le_mono [of "2 * 1" "?n * (?n + 1)" 2] mult_le_mono [of 2 ?n 1 "?n + 1"] by simp
  with w(1) have W1: "1 \<le> ?W" by linarith
  have W63: "?W < 2 ^ 63" using w(2) k(1) by linarith
  have loop: "lwma_loop ?hi 1 (lwma_window p recent) 0 0 = Some (word_of_nat ?W, word_of_nat ?S)"
    using lwma_loop_sums [OF small_params_max_solvetime(2) [OF small], of 0 1 "lwma_window p recent" 0]
      W63 work by (simp add: weighted_time_of_def)
  have unatW: "unat (word_of_nat ?W :: i64) = ?W" using W63 by (intro of_nat_inverse) simp_all
  then have sintW: "\<not> sint (word_of_nat ?W :: i64) < 1"
    using W1 W63 sint_small [of "word_of_nat ?W"] by simp
  have unatS: "unat (word_of_nat ?S :: u256) = ?S" using work by (intro of_nat_inverse) simp_all
  have ucast: "unat (ucast x :: u256) = unat x" for x :: u64
    using unsigned_less [of x, where 'a = nat] by (simp add: unsigned_ucast_eq take_bit_nat_eq_self)
  have n0: "dp_window p \<noteq> 0" using n by auto
  have "saturating_mul (word_of_nat ?S div ucast (dp_window p))
      (ucast (dp_target_block_time_secs p * (dp_window p * (dp_window p + 1) div 2)))
      div ucast (word_of_nat ?W :: i64) =
    (word_of_nat (min (avg_work p recent * on_time_weight p) (2 ^ 256 - 1) div ?W) :: u256)"
    (is "?l = ?r")
  proof -
    have "unat ?l = min (avg_work p recent * on_time_weight p) (2 ^ 256 - 1) div ?W"
      by (simp add: unat_div_distrib unat_saturating_mul ucast unatS avg_work_def k(2) unatW)
    then show ?thesis by (rule eq_word_of_natI)
  qed
  moreover have "\<not> length recent \<le> ?n" using len by simp
  ultimately show ?thesis using loop sintW n0
    unfolding next_target_def Let_def lwma_window_def [symmetric] by simp
qed

subsection \<open>Retarget limits\<close>

text \<open>
  The difficulty a retarget asks for: at most \<open>T\<close> times, at least a sixth of, the window's
  average work (\<open>T\<close> the block time), and exactly the average when every block took \<open>T\<close>.
\<close>

definition next_difficulty :: "difficulty_params \<Rightarrow> block_header list \<Rightarrow> nat" where
  "next_difficulty p recent =
     min (avg_work p recent * on_time_weight p) (2 ^ 256 - 1) div weighted_time_of p recent"

lemma weighted_time_pos:
  assumes "small_params p" and "unat (dp_window p) < length recent"
  shows "1 \<le> weighted_time_of p recent"
proof -
  let ?n = "unat (dp_window p)"
  have "2 \<le> ?n" using assms(1) by (simp add: small_params_def)
  then have "1 \<le> ?n * (?n + 1) div 2"
    using div_le_mono [of "2 * 1" "?n * (?n + 1)" 2] mult_le_mono [of 2 ?n 1 "?n + 1"] by simp
  with weighted_time_bounds(1) [OF assms] show ?thesis by linarith
qed

lemma on_time_weight_pos: "small_params p \<Longrightarrow> 1 \<le> on_time_weight p"
proof -
  assume p: "small_params p"
  let ?n = "unat (dp_window p)"
  have "2 \<le> ?n" using p by (simp add: small_params_def)
  then have "1 \<le> ?n * (?n + 1) div 2"
    using div_le_mono [of "2 * 1" "?n * (?n + 1)" 2] mult_le_mono [of 2 ?n 1 "?n + 1"] by simp
  then have "1 * 1 \<le> unat (dp_target_block_time_secs p) * (?n * (?n + 1) div 2)"
    using p by (intro mult_le_mono) (auto simp: small_params_def)
  then show ?thesis by (simp add: on_time_weight_def)
qed

lemma next_difficulty_limits:
  assumes "small_params p" and "unat (dp_window p) < length recent"
    and fits: "avg_work p recent * on_time_weight p < 2 ^ 256"
  shows "avg_work p recent div 6 \<le> next_difficulty p recent"
    and "next_difficulty p recent \<le> avg_work p recent * unat (dp_target_block_time_secs p)"
proof -
  let ?n = "unat (dp_window p)" and ?t = "unat (dp_target_block_time_secs p)"
  let ?A = "avg_work p recent" and ?K = "on_time_weight p" and ?W = "weighted_time_of p recent"
  let ?S = "?n * (?n + 1) div 2"
  note w = weighted_time_bounds [OF assms(1,2)]
  have D: "next_difficulty p recent = ?A * ?K div ?W"
    using fits by (simp add: next_difficulty_def min_absorb1)
  have "?A div 6 = (?A * ?K) div (6 * ?K)"
    using on_time_weight_pos [OF assms(1)] by simp
  also have "\<dots> \<le> ?A * ?K div ?W"
    using w(2) weighted_time_pos [OF assms(1,2)] by (intro div_le_mono2) simp_all
  finally show "?A div 6 \<le> next_difficulty p recent" by (simp only: D)
  have "0 < ?S"
    using on_time_weight_pos [OF assms(1)] by (auto simp: on_time_weight_def intro: Nat.gr0I)
  then have "?A * ?K div ?W \<le> ?A * ?K div ?S" using w(1) by (intro div_le_mono2)
  also have "?A * ?K = (?A * ?t) * ?S" by (simp only: on_time_weight_def mult.assoc)
  also have "(?A * ?t) * ?S div ?S = ?A * ?t"
    using \<open>0 < ?S\<close> by (intro nonzero_mult_div_cancel_right) linarith
  finally show "next_difficulty p recent \<le> ?A * ?t"
    by (simp only: D on_time_weight_def mult.assoc)
qed

text \<open>Blocks exactly on time: the weighted time is the nominal one.\<close>

definition on_time :: "difficulty_params \<Rightarrow> block_header list \<Rightarrow> bool" where
  "on_time p hs \<longleftrightarrow> successively
     (\<lambda>prev cur. bh_timestamp cur = bh_timestamp prev + dp_target_block_time_secs p) hs"

lemma solvetimes_on_time:
  assumes "small_params p" and "on_time p hs"
  shows "solvetimes (6 * dp_target_block_time_secs p) hs =
    replicate (length hs - 1) (unat (dp_target_block_time_secs p))"
  using assms(2)
proof (induction "6 * dp_target_block_time_secs p" hs rule: solvetimes.induct)
  case (1 prev cur rest)
  let ?T = "dp_target_block_time_secs p"
  have six: "sint (6 * ?T) = int (6 * unat ?T)"
    using small_params_max_solvetime [OF assms(1)] sint_nonneg [of "6 * ?T"] by simp
  have "6 * unat ?T < 2 ^ 63" by (rule small_params_block_time [OF assms(1)])
  then have T: "sint ?T = int (unat ?T)" by (intro sint_small) linarith
  have "1 \<le> unat ?T" using assms(1) by (simp add: small_params_def)
  then have "int 1 \<le> int (unat ?T)" by (simp only: of_nat_le_iff)
  then have "\<not> sint ?T < 1" "\<not> sint (6 * ?T) < sint ?T" using T six by linarith+
  have "bh_timestamp cur - bh_timestamp prev = ?T" using 1 by (simp add: on_time_def)
  then have "solvetime (6 * ?T) prev cur = unat ?T"
    using \<open>\<not> sint ?T < 1\<close> \<open>\<not> sint (6 * ?T) < sint ?T\<close> by (simp add: solvetime_def Let_def)
  moreover have "on_time p (cur # rest)" using 1 by (simp add: on_time_def)
  ultimately show ?case using 1 by simp
qed auto

lemma next_difficulty_on_time:
  assumes "small_params p" and len: "unat (dp_window p) < length recent"
    and fits: "avg_work p recent * on_time_weight p < 2 ^ 256"
    and "on_time p (lwma_window p recent)"
  shows "next_difficulty p recent = avg_work p recent"
proof -
  let ?n = "unat (dp_window p)"
  have "solvetimes (6 * dp_target_block_time_secs p) (lwma_window p recent) =
      replicate ?n (unat (dp_target_block_time_secs p))"
    using solvetimes_on_time [OF assms(1,4)] len by (simp add: lwma_window_def)
  then have "weighted_time_of p recent = on_time_weight p"
    unfolding weighted_time_of_def on_time_weight_def using triangle [of ?n]
    by (simp add: weighted_const del: sum.op_ivl_Suc)
  with fits on_time_weight_pos [OF assms(1)] show ?thesis
    by (simp add: next_difficulty_def min_absorb1)
qed

text \<open>Turning a difficulty into a target and back loses at most one unit.\<close>

lemma difficulty_target_roundtrip:
  assumes "1 \<le> unat d" and "unat d \<le> 2 ^ 128"
  shows "unat (work_for_target (difficulty_to_target d)) \<le> unat d"
    and "unat d \<le> unat (work_for_target (difficulty_to_target d)) + 1"
proof -
  define N where "N = (2 :: nat) ^ 256"
  let ?D = "unat d" and ?N = N
  have N1: "1 \<le> N" by (simp add: N_def)
  have "d \<noteq> 0" using assms(1) by auto
  have t: "unat (difficulty_to_target d) = (?N - 1) div ?D"
    using \<open>d \<noteq> 0\<close> by (simp add: difficulty_to_target_def unat_div_distrib unat_minus_one N_def)
  have "?D < N" using unsigned_less [of d, where 'a = nat] unfolding N_def by simp
  then have "?D \<le> N - 1" by simp
  then have "0 < (?N - 1) div ?D" using assms(1) by (simp add: div_greater_zero_iff)
  then have "difficulty_to_target d \<noteq> 0" using t by auto
  then have w: "unat (work_for_target (difficulty_to_target d)) = ?N div ((?N - 1) div ?D + 1)"
    by (simp add: unat_work_for_target t N_def)
  define q where q: "q = (?N - 1) div ?D + 1"
  have "?N - 1 = ?D * ((?N - 1) div ?D) + (?N - 1) mod ?D" by (simp only: mult_div_mod_eq)
  moreover have "(?N - 1) mod ?D < ?D" using assms(1) by simp
  ultimately have "?N \<le> ?D * q" and upper: "?D * q \<le> ?N - 1 + ?D"
    unfolding q distrib_left using N1 by linarith+
  have "0 < q" by (simp add: q)
  have "?N div q \<le> ?D * q div q" using \<open>?N \<le> ?D * q\<close> by (rule div_le_mono)
  then show "unat (work_for_target (difficulty_to_target d)) \<le> ?D"
    using \<open>0 < q\<close> by (simp add: w [folded q])
  have "?D * ?D \<le> 2 ^ 128 * 2 ^ 128" using assms(2) by (intro mult_le_mono)
  also have "\<dots> = N" by (simp only: N_def flip: power_add) simp
  finally have "?D * ?D \<le> N" .
  with \<open>?N \<le> ?D * q\<close> have "?D * ?D \<le> ?D * q" by linarith
  then have "?D \<le> q" using assms(1) by simp
  have "(?D - 1) * q = ?D * q - q" by (simp add: diff_mult_distrib)
  also have "\<dots> \<le> ?N" using upper \<open>?D \<le> q\<close> by linarith
  finally have "(?D - 1) * q div q \<le> ?N div q" by (rule div_le_mono)
  then have "?D - 1 \<le> ?N div q" using \<open>0 < q\<close> by simp
  then show "?D \<le> unat (work_for_target (difficulty_to_target d)) + 1"
    by (simp add: w [folded q])
qed

subsection \<open>Panics\<close>

text \<open>A retarget panics only on an empty clamp range, an empty window or an overflowing sum.\<close>

lemma lwma_loop_no_panic:
  assumes "1 \<le> sint hi" and "unat ds + work_sum (tl hs) < 2 ^ 256"
  shows "lwma_loop hi i hs wt ds \<noteq> None"
  using assms
proof (induction hi i hs wt ds rule: lwma_loop.induct)
  case (1 hi i prev cur rest wt ds)
  let ?w = "work_for_target (bh_target cur)"
  have ds: "unat ds + unat ?w + work_sum rest < 2 ^ 256"
    using "1.prems"(2) by (simp add: work_sum_def)
  then have fits: "unat ds + unat ?w < 2 ^ 256" by linarith
  then have "unat (ds + ?w) = unat ds + unat ?w" by (intro unat_add_no_wrap) simp
  moreover have add: "checked_add ds ?w = Some (ds + ?w)" using fits by (simp add: checked_add_def)
  ultimately show ?case
    using "1.IH" [OF i64_clamp_solvetime [OF "1.prems"(1)] add "1.prems"(1)] ds
      i64_clamp_solvetime [OF "1.prems"(1)] by simp
qed simp_all

lemma next_target_no_panic:
  assumes "1 \<le> sint (6 * dp_target_block_time_secs p)" and "dp_window p \<noteq> 0"
    and "work_sum (tl (lwma_window p recent)) < 2 ^ 256"
  shows "next_target recent p g \<noteq> None"
proof -
  have "lwma_loop (6 * dp_target_block_time_secs p) 1 (lwma_window p recent) 0 0 \<noteq> None"
    using assms by (intro lwma_loop_no_panic) simp_all
  with assms(2) show ?thesis
    unfolding next_target_def Let_def lwma_window_def [symmetric] by auto
qed

subsection \<open>Solve times as integers\<close>

definition int_solvetime :: "u64 \<Rightarrow> block_header \<Rightarrow> block_header \<Rightarrow> nat" where
  "int_solvetime t prev cur =
     nat (max 1 (min (6 * int (unat t)) (sint (bh_timestamp cur) - sint (bh_timestamp prev))))"

fun int_solvetimes :: "u64 \<Rightarrow> block_header list \<Rightarrow> nat list" where
  "int_solvetimes t (prev # cur # rest) = int_solvetime t prev cur # int_solvetimes t (cur # rest)"
| "int_solvetimes t _ = []"

definition times_fit :: "block_header list \<Rightarrow> bool" where
  "times_fit hs \<longleftrightarrow> successively (\<lambda>prev cur.
     - (2 ^ 63) \<le> sint (bh_timestamp cur) - sint (bh_timestamp prev)
     \<and> sint (bh_timestamp cur) - sint (bh_timestamp prev) < 2 ^ 63) hs"

definition lwma_difficulty :: "difficulty_params \<Rightarrow> block_header list \<Rightarrow> nat" where
  "lwma_difficulty p recent =
     min (avg_work p recent * on_time_weight p) (2 ^ 256 - 1)
       div weighted 1 (int_solvetimes (dp_target_block_time_secs p) (lwma_window p recent))"

lemma sint_diff:
  fixes a b :: i64
  assumes "- (2 ^ 63) \<le> sint a - sint b" "sint a - sint b < 2 ^ 63"
  shows "sint (a - b) = sint a - sint b"
  using assms by (simp add: sint_word_ariths signed_take_bit_int_eq_self)

lemma int_solvetime_eq:
  assumes p: "small_params p" and fit: "- (2 ^ 63) \<le> sint (bh_timestamp cur) - sint (bh_timestamp prev)"
    "sint (bh_timestamp cur) - sint (bh_timestamp prev) < 2 ^ 63"
  shows "solvetime (6 * dp_target_block_time_secs p) prev cur = int_solvetime (dp_target_block_time_secs p) prev cur"
proof -
  let ?hi = "6 * dp_target_block_time_secs p" and ?d = "bh_timestamp cur - bh_timestamp prev"
  have hi: "sint ?hi = 6 * int (unat (dp_target_block_time_secs p))" "1 \<le> sint ?hi"
    using small_params_max_solvetime [OF p] sint_nonneg [of ?hi] by simp_all
  have pos: "unat x = nat (sint x)" if "1 \<le> sint x" for x :: i64
    using that sint_nonneg [of x] by simp
  have d: "sint ?d = sint (bh_timestamp cur) - sint (bh_timestamp prev)" by (rule sint_diff [OF fit])
  show ?thesis unfolding solvetime_def Let_def int_solvetime_def hi(1) [symmetric] d [symmetric]
    using pos [OF hi(2)] pos [of ?d] hi(2) by auto
qed

lemma int_solvetimes_eq:
  assumes "small_params p" and "times_fit hs"
  shows "solvetimes (6 * dp_target_block_time_secs p) hs = int_solvetimes (dp_target_block_time_secs p) hs"
  using assms(2)
proof (induction "dp_target_block_time_secs p" hs rule: int_solvetimes.induct)
  case (1 prev cur rest)
  then show ?case using int_solvetime_eq [OF assms(1)] by (simp add: times_fit_def)
qed simp_all

subsection \<open>Properties\<close>

text \<open>
  Property C28.  The LWMA retarget is the formula over the integers: with more than \<open>N\<close> headers, parameters small
  enough for the 64-bit products, work of the window below \<open>2^256\<close> and timestamps whose successive
  differences fit an \<open>i64\<close>, the code does not panic and the new target is the one of the difficulty
  \<open>avg * T * N (N + 1) / 2\<close> (capped at \<open>2^256 - 1\<close> before the division) divided by the weighted sum of the
  solve times, each the difference of two timestamps as integers, clamped to \<open>1 .. 6 T\<close>.
\<close>

theorem next_target_formula:
  assumes "small_params p" and "unat (dp_window p) < length recent"
    and "work_sum (tl (lwma_window p recent)) < 2 ^ 256" and "times_fit (lwma_window p recent)"
  shows "next_target recent p g = Some (difficulty_to_target (word_of_nat (lwma_difficulty p recent)))"
  using next_target_closed_form [OF assms(1-3)] int_solvetimes_eq [OF assms(1,4)]
  by (simp add: lwma_difficulty_def weighted_time_of_def)

text \<open>
  Outside that range the subtraction wraps: between the least and the greatest timestamp the solve time
  counts as one second instead of the maximum.
\<close>

theorem solvetime_wraps:
  assumes "bh_timestamp prev = word_of_int (- (2 ^ 63))" and "bh_timestamp cur = word_of_int (2 ^ 63 - 1)"
    and "1 \<le> sint hi"
  shows "i64_clamp (bh_timestamp cur - bh_timestamp prev) 1 hi = Some 1"
proof -
  have "bh_timestamp cur - bh_timestamp prev = - 1" using assms(1,2) by simp
  then show ?thesis using assms(3) by (simp add: i64_clamp_def)
qed

text \<open>Retarget limits: the new difficulty is between a sixth of the window's average
  work and \<open>T\<close> times that average, whatever the timestamps are, and is exactly the average
  when every block of the window took \<open>T\<close> seconds.
\<close>

theorem retarget_limits:
  assumes "small_params p" and "unat (dp_window p) < length recent"
    and "avg_work p recent * on_time_weight p < 2 ^ 256"
  shows "avg_work p recent div 6 \<le> next_difficulty p recent
    \<and> next_difficulty p recent \<le> avg_work p recent * unat (dp_target_block_time_secs p)
    \<and> (on_time p (lwma_window p recent) \<longrightarrow> next_difficulty p recent = avg_work p recent)"
  using next_difficulty_limits [OF assms] next_difficulty_on_time [OF assms] by blast

text \<open>
  Storing a difficulty as a target and reading its work back loses at most one
  unit, for difficulties up to \<open>2^128\<close>.
\<close>

theorem difficulty_roundtrip:
  assumes "1 \<le> unat d" and "unat d \<le> 2 ^ 128"
  shows "unat (work_for_target (difficulty_to_target d)) \<in> {unat d - 1, unat d}"
  using difficulty_target_roundtrip [OF assms] by auto

theorem difficulty_roundtrip_witness:
  "unat (work_for_target (difficulty_to_target 1000)) \<in> {unat (1000 :: u256) - 1, unat (1000 :: u256)}"
  by (rule difficulty_roundtrip) simp_all

text \<open>Three headers, ten seconds apart, at one target, for the witnesses.\<close>

definition plain_header :: "nat \<Rightarrow> i64 \<Rightarrow> target \<Rightarrow> bytes32 \<Rightarrow> block_header" where
  "plain_header h ts t prev =
     \<lparr>bh_version = HEADER_VERSION, bh_prev_hash = prev, bh_height = word_of_nat h,
      bh_timestamp = ts, bh_tx_merkle_root = 0, bh_state_root = 0, bh_target = t,
      bh_nonce = 0, bh_miner = 0\<rparr>"

definition plain_params :: difficulty_params where
  "plain_params = \<lparr>dp_target_block_time_secs = 10, dp_window = 2\<rparr>"

definition plain_headers :: "block_header list" where
  "plain_headers = [plain_header 0 100 999 0, plain_header 1 110 999 0, plain_header 2 120 999 0]"

lemma plain_headers_ok:
  "small_params plain_params" "unat (dp_window plain_params) < length plain_headers"
  "lwma_window plain_params plain_headers = plain_headers"
  "work_sum (tl plain_headers) = 2 * (2 ^ 256 div 1000)"
  by (simp_all add: small_params_def plain_params_def plain_headers_def lwma_window_def
    work_sum_def plain_header_def unat_work_for_target)

theorem next_target_formula_witness:
  "next_target plain_headers plain_params 0 =
    Some (difficulty_to_target (word_of_nat ((2 ^ 256 div 1000) * 30 div 30)))"
proof -
  have fit: "times_fit (lwma_window plain_params plain_headers)"
    unfolding plain_headers_ok(3) by (simp add: times_fit_def plain_headers_def plain_header_def)
  have avg: "avg_work plain_params plain_headers = 2 ^ 256 div 1000"
    by (simp add: avg_work_def plain_headers_ok) (simp add: plain_params_def)
  have "lwma_difficulty plain_params plain_headers = (2 ^ 256 div 1000) * 30 div 30"
    unfolding lwma_difficulty_def avg plain_headers_ok(3)
    by (simp add: on_time_weight_def plain_params_def plain_headers_def plain_header_def int_solvetime_def)
  then show ?thesis
    using next_target_formula [OF plain_headers_ok(1,2) _ fit, of 0] by (simp add: plain_headers_ok)
qed

theorem solvetime_wraps_witness:
  "i64_clamp (bh_timestamp (plain_header 1 (word_of_int (2 ^ 63 - 1)) 0 0)
     - bh_timestamp (plain_header 0 (word_of_int (- (2 ^ 63))) 0 0)) 1 60 = Some 1"
  by (rule solvetime_wraps) (simp_all add: plain_header_def)

theorem retarget_limits_witness:
  "avg_work plain_params plain_headers div 6 \<le> next_difficulty plain_params plain_headers
    \<and> next_difficulty plain_params plain_headers = avg_work plain_params plain_headers"
proof -
  have "avg_work plain_params plain_headers * on_time_weight plain_params < 2 ^ 256"
    by (simp add: avg_work_def plain_headers_ok)
      (simp add: on_time_weight_def plain_params_def)
  moreover have "on_time plain_params (lwma_window plain_params plain_headers)"
    unfolding plain_headers_ok(3)
    by (simp add: on_time_def plain_headers_def plain_header_def plain_params_def)
  ultimately show ?thesis using retarget_limits [OF plain_headers_ok(1,2)] by blast
qed

end
