(* ===== verification/Chain.thy ===== *)
theory Chain
  imports Pow Difficulty
begin

text \<open>
  The linear chain state and its fork choice: \<^verbatim>\<open>crates/tao-consensus/src/chain.rs\<close>.

  The block index is a map from ids to entries.  A successful \<open>add_header\<close> returns the status
  and the new state; every early return is an \<open>Inl\<close>, and all of them leave the state as it
  was.  \<open>ChainPanic\<close> stands for the panics of the code (the \<open>U256\<close> sum, the retarget, an
  index without its key).  The lemmas show that every state reached from \<open>chain_new\<close> is a tree
  of validated headers whose cumulative work is the sum over the path to genesis and whose tip
  is heaviest, and that \<open>recent_headers\<close> is the end of that path.
\<close>

record chain_entry =
  ce_header :: block_header
  ce_cumulative_work :: u256

datatype block_status = ExtendedTip | Reorg block_id block_id | SideChain

datatype chain_error =
  Duplicate | UnknownParent | BadHeight u64 u64 | BadTimestamp | BadTarget | BadPow | ChainPanic

record chain_state =
  cs_blocks :: "block_id \<rightharpoonup> chain_entry"
  cs_tip :: block_id
  cs_genesis :: block_id
  cs_params :: difficulty_params
  cs_genesis_target :: target
  cs_pow :: pow_algorithm

subsection \<open>Operations\<close>

definition chain_new ::
    "hasher \<Rightarrow> (block_header \<Rightarrow> bytes) \<Rightarrow> block_header \<Rightarrow> difficulty_params \<Rightarrow> pow_algorithm \<Rightarrow>
     chain_state option" where
  "chain_new H ser g params pow =
     (if \<not> is_genesis g then None
      else Some \<lparr>cs_blocks =
          [header_id H ser g \<mapsto> \<lparr>ce_header = g, ce_cumulative_work = work_for_target (bh_target g)\<rparr>],
        cs_tip = header_id H ser g, cs_genesis = header_id H ser g, cs_params = params,
        cs_genesis_target = bh_target g, cs_pow = pow\<rparr>)"

definition tip_header :: "chain_state \<Rightarrow> block_header option" where
  "tip_header s = map_option ce_header (cs_blocks s (cs_tip s))"

definition chain_height :: "chain_state \<Rightarrow> u64 option" where
  "chain_height s = map_option bh_height (tip_header s)"

definition tip_work :: "chain_state \<Rightarrow> u256 option" where
  "tip_work s = map_option ce_cumulative_work (cs_blocks s (cs_tip s))"

definition chain_contains :: "chain_state \<Rightarrow> block_id \<Rightarrow> bool" where
  "chain_contains s i \<longleftrightarrow> cs_blocks s i \<noteq> None"

definition chain_header :: "chain_state \<Rightarrow> block_id \<Rightarrow> block_header option" where
  "chain_header s i = map_option ce_header (cs_blocks s i)"

text \<open>The loop of \<open>recent_headers\<close>, newest header first.\<close>

fun recent_walk :: "(block_id \<rightharpoonup> chain_entry) \<Rightarrow> nat \<Rightarrow> block_id \<Rightarrow> block_header list" where
  "recent_walk blocks 0 cur = []"
| "recent_walk blocks (Suc n) cur =
     (case blocks cur of
        None \<Rightarrow> []
      | Some e \<Rightarrow>
          if is_genesis (ce_header e) then [ce_header e]
          else ce_header e # recent_walk blocks n (bh_prev_hash (ce_header e)))"

text \<open>
  \<open>Vec::with_capacity(count)\<close> panics when the bytes asked for exceed \<open>isize::MAX\<close>; a \<open>BlockHeader\<close> takes 192
  bytes (five 32-byte arrays, three 8-byte integers and one of 4, aligned to 8).
\<close>

definition capacity_ok :: "nat \<Rightarrow> bool" where
  "capacity_ok count \<longleftrightarrow> 192 * count < 2 ^ 63"

definition recent_headers :: "chain_state \<Rightarrow> block_id \<Rightarrow> nat \<Rightarrow> block_header list option" where
  "recent_headers s from count =
     (if capacity_ok count then Some (rev (recent_walk (cs_blocks s) count from)) else None)"

definition recent_count :: "chain_state \<Rightarrow> nat" where
  "recent_count s = unat (dp_window (cs_params s) + 1)"

definition chain_next_target :: "chain_state \<Rightarrow> target option" where
  "chain_next_target s =
     Option.bind (recent_headers s (cs_tip s) (recent_count s)) (\<lambda>recent.
     next_target recent (cs_params s) (cs_genesis_target s))"

definition build_candidate ::
    "hasher \<Rightarrow> chain_state \<Rightarrow> bytes32 \<Rightarrow> i64 \<Rightarrow> bytes list \<Rightarrow> block_header option" where
  "build_candidate H s miner timestamp transactions =
     (case (tip_header s, chain_next_target s) of
        (Some parent, Some t) \<Rightarrow>
          Some \<lparr>bh_version = HEADER_VERSION, bh_prev_hash = cs_tip s,
            bh_height = bh_height parent + 1, bh_timestamp = timestamp,
            bh_tx_merkle_root = tx_merkle_root H transactions, bh_state_root = 0,
            bh_target = t, bh_nonce = 0, bh_miner = miner\<rparr>
      | _ \<Rightarrow> None)"

definition add_header ::
    "hasher \<Rightarrow> (block_header \<Rightarrow> bytes) \<Rightarrow> chain_state \<Rightarrow> block_header \<Rightarrow>
     chain_error + block_status \<times> chain_state" where
  "add_header H ser s h =
     (let i = header_id H ser h; parent_id = bh_prev_hash h in
      if cs_blocks s i \<noteq> None then Inl Duplicate
      else case cs_blocks s parent_id of
        None \<Rightarrow> Inl UnknownParent
      | Some parent \<Rightarrow>
          if bh_height h \<noteq> bh_height (ce_header parent) + 1
          then Inl (BadHeight (bh_height (ce_header parent) + 1) (bh_height h))
          else if sint (bh_timestamp h) < sint (bh_timestamp (ce_header parent))
          then Inl BadTimestamp
          else case Option.bind (recent_headers s parent_id (recent_count s)) (\<lambda>recent.
                      next_target recent (cs_params s) (cs_genesis_target s)) of
            None \<Rightarrow> Inl ChainPanic
          | Some expected \<Rightarrow>
              if bh_target h \<noteq> expected then Inl BadTarget
              else if \<not> pa_verify (cs_pow s) h then Inl BadPow
              else case checked_add (ce_cumulative_work parent) (work_for_target (bh_target h)) of
                None \<Rightarrow> Inl ChainPanic
              | Some cumulative_work \<Rightarrow>
                  let blocks = (cs_blocks s)(i \<mapsto>
                        \<lparr>ce_header = h, ce_cumulative_work = cumulative_work\<rparr>)
                  in case blocks (cs_tip s) of
                    None \<Rightarrow> Inl ChainPanic
                  | Some t \<Rightarrow>
                      if cumulative_work > ce_cumulative_work t
                      then Inr (if parent_id = cs_tip s then ExtendedTip else Reorg (cs_tip s) i,
                                s\<lparr>cs_blocks := blocks, cs_tip := i\<rparr>)
                      else Inr (SideChain, s\<lparr>cs_blocks := blocks\<rparr>))"

inductive chain_reachable ::
    "hasher \<Rightarrow> (block_header \<Rightarrow> bytes) \<Rightarrow> block_header \<Rightarrow> difficulty_params \<Rightarrow> pow_algorithm \<Rightarrow>
     chain_state \<Rightarrow> bool"
  for H ser g params pow where
  start: "chain_new H ser g params pow = Some s \<Longrightarrow> chain_reachable H ser g params pow s"
| add: "chain_reachable H ser g params pow s \<Longrightarrow> add_header H ser s h = Inr (st, s')
    \<Longrightarrow> chain_reachable H ser g params pow s'"

subsection \<open>What an accepted header is\<close>

text \<open>
  The one rule every stored header but genesis was accepted by, over the index it was checked
  against.
\<close>

definition valid_child ::
    "chain_state \<Rightarrow> (block_id \<rightharpoonup> chain_entry) \<Rightarrow> chain_entry \<Rightarrow> chain_entry \<Rightarrow> bool" where
  "valid_child s blocks parent e \<longleftrightarrow>
     bh_height (ce_header e) = bh_height (ce_header parent) + 1
     \<and> sint (bh_timestamp (ce_header parent)) \<le> sint (bh_timestamp (ce_header e))
     \<and> next_target (rev (recent_walk blocks (recent_count s) (bh_prev_hash (ce_header e))))
         (cs_params s) (cs_genesis_target s) = Some (bh_target (ce_header e))
     \<and> pa_verify (cs_pow s) (ce_header e)
     \<and> unat (ce_cumulative_work e) =
         unat (ce_cumulative_work parent) + unat (work_for_target (bh_target (ce_header e)))"

definition same_config :: "chain_state \<Rightarrow> chain_state \<Rightarrow> bool" where
  "same_config s s' \<longleftrightarrow> cs_genesis s' = cs_genesis s \<and> cs_params s' = cs_params s \<and>
     cs_genesis_target s' = cs_genesis_target s \<and> cs_pow s' = cs_pow s"

lemma add_header_accepts:
  assumes "add_header H ser s h = Inr (st, s')"
  obtains parent tip e where
    "cs_blocks s (header_id H ser h) = None" "cs_blocks s (bh_prev_hash h) = Some parent"
    "ce_header e = h" "valid_child s (cs_blocks s) parent e"
    "cs_blocks s' = (cs_blocks s)(header_id H ser h \<mapsto> e)"
    "same_config s s'"
    "((cs_blocks s)(header_id H ser h \<mapsto> e)) (cs_tip s) = Some tip"
    "if ce_cumulative_work tip < ce_cumulative_work e
     then cs_tip s' = header_id H ser h \<and>
       st = (if bh_prev_hash h = cs_tip s then ExtendedTip else Reorg (cs_tip s) (header_id H ser h))
     else cs_tip s' = cs_tip s \<and> st = SideChain"
proof -
  define i where "i = header_id H ser h"
  from assms obtain parent t w tip where
    p: "cs_blocks s i = None" "cs_blocks s (bh_prev_hash h) = Some parent"
      "bh_height h = bh_height (ce_header parent) + 1"
      "\<not> sint (bh_timestamp h) < sint (bh_timestamp (ce_header parent))"
      "Option.bind (recent_headers s (bh_prev_hash h) (recent_count s)) (\<lambda>recent.
         next_target recent (cs_params s) (cs_genesis_target s)) = Some (bh_target h)"
      "pa_verify (cs_pow s) h"
      "checked_add (ce_cumulative_work parent) (work_for_target (bh_target h)) = Some w"
      "((cs_blocks s)(i \<mapsto> \<lparr>ce_header = h, ce_cumulative_work = w\<rparr>)) (cs_tip s) = Some tip"
    and out: "(st, s') =
      (if w > ce_cumulative_work tip
       then (if bh_prev_hash h = cs_tip s then ExtendedTip else Reorg (cs_tip s) i,
         s\<lparr>cs_blocks := (cs_blocks s)(i \<mapsto> \<lparr>ce_header = h, ce_cumulative_work = w\<rparr>), cs_tip := i\<rparr>)
       else (SideChain,
         s\<lparr>cs_blocks := (cs_blocks s)(i \<mapsto> \<lparr>ce_header = h, ce_cumulative_work = w\<rparr>)\<rparr>))"
    unfolding add_header_def Let_def i_def [symmetric]
    by (auto split: if_splits option.splits)
  have "unat w = unat (ce_cumulative_work parent) + unat (work_for_target (bh_target h))"
    using p(7) by (rule checked_add_Some)
  then have "valid_child s (cs_blocks s) parent \<lparr>ce_header = h, ce_cumulative_work = w\<rparr>"
    using p by (simp add: valid_child_def recent_headers_def split: if_splits)
  then show ?thesis
    using that [of parent "\<lparr>ce_header = h, ce_cumulative_work = w\<rparr>" tip] p out
    unfolding i_def [symmetric] by (auto simp: same_config_def split: if_splits)
qed

subsection \<open>The block tree\<close>

text \<open>\<open>chain_path blocks g i p\<close>: \<open>p\<close> lists the entries from block \<open>i\<close> down to genesis \<open>g\<close>.\<close>

inductive chain_path ::
    "(block_id \<rightharpoonup> chain_entry) \<Rightarrow> block_id \<Rightarrow> block_id \<Rightarrow> chain_entry list \<Rightarrow> bool"
  for blocks g where
  genesis: "blocks g = Some e \<Longrightarrow> chain_path blocks g g [e]"
| child: "blocks i = Some e \<Longrightarrow> i \<noteq> g \<Longrightarrow> chain_path blocks g (bh_prev_hash (ce_header e)) p
    \<Longrightarrow> chain_path blocks g i (e # p)"

inductive_cases chain_path_E: "chain_path blocks g i p"

lemma chain_path_unique:
  "chain_path blocks g i p \<Longrightarrow> chain_path blocks g i q \<Longrightarrow> p = q"
proof (induction arbitrary: q rule: chain_path.induct)
  case (genesis e)
  then show ?case by (auto elim: chain_path_E)
next
  case (child i e p)
  from child.prems child.hyps(1,2) obtain q' where
    "q = e # q'" "chain_path blocks g (bh_prev_hash (ce_header e)) q'"
    by (auto elim: chain_path_E)
  with child.IH show ?case by simp
qed

lemma chain_path_mono:
  "chain_path blocks g i p \<Longrightarrow> blocks \<subseteq>\<^sub>m blocks' \<Longrightarrow> chain_path blocks' g i p"
  by (induction rule: chain_path.induct) (auto intro!: chain_path.intros simp: map_le_def dom_def)

lemma chain_path_hd: "chain_path blocks g i p \<Longrightarrow> p \<noteq> [] \<and> blocks i = Some (hd p)"
  by (induction rule: chain_path.induct) auto

lemma chain_path_entries: "chain_path blocks g i p \<Longrightarrow> e \<in> set p \<Longrightarrow> \<exists>j. blocks j = Some e"
  by (induction rule: chain_path.induct) auto

definition chain_inv :: "hasher \<Rightarrow> (block_header \<Rightarrow> bytes) \<Rightarrow> chain_state \<Rightarrow> bool" where
  "chain_inv H ser s \<longleftrightarrow>
     (\<exists>e. cs_blocks s (cs_genesis s) = Some e \<and> is_genesis (ce_header e) \<and>
        bh_target (ce_header e) = cs_genesis_target s \<and>
        ce_cumulative_work e = work_for_target (cs_genesis_target s))
     \<and> (\<forall>i e. cs_blocks s i = Some e \<longrightarrow> header_id H ser (ce_header e) = i)
     \<and> (\<forall>i e. cs_blocks s i = Some e \<longrightarrow> i \<noteq> cs_genesis s \<longrightarrow>
          (\<exists>p. cs_blocks s (bh_prev_hash (ce_header e)) = Some p \<and> valid_child s (cs_blocks s) p e))
     \<and> (\<forall>i e. cs_blocks s i = Some e \<longrightarrow> (\<exists>p. chain_path (cs_blocks s) (cs_genesis s) i p))
     \<and> (\<exists>t. cs_blocks s (cs_tip s) = Some t \<and>
          (\<forall>i e. cs_blocks s i = Some e \<longrightarrow> ce_cumulative_work e \<le> ce_cumulative_work t))"

lemma chain_invD:
  assumes "chain_inv H ser s"
  shows "\<exists>e. cs_blocks s (cs_genesis s) = Some e \<and> is_genesis (ce_header e) \<and>
        bh_target (ce_header e) = cs_genesis_target s \<and>
        ce_cumulative_work e = work_for_target (cs_genesis_target s)"
    and "cs_blocks s i = Some e \<Longrightarrow> header_id H ser (ce_header e) = i"
    and "cs_blocks s i = Some e \<Longrightarrow> i \<noteq> cs_genesis s \<Longrightarrow>
      \<exists>p. cs_blocks s (bh_prev_hash (ce_header e)) = Some p \<and> valid_child s (cs_blocks s) p e"
    and "cs_blocks s i = Some e \<Longrightarrow> \<exists>p. chain_path (cs_blocks s) (cs_genesis s) i p"
    and "\<exists>t. cs_blocks s (cs_tip s) = Some t \<and>
      (\<forall>i e. cs_blocks s i = Some e \<longrightarrow> ce_cumulative_work e \<le> ce_cumulative_work t)"
  using assms unfolding chain_inv_def by blast+

text \<open>A walk over a closed index never leaves it, so a new block does not change it.\<close>

lemma recent_walk_upd:
  assumes closed: "\<And>i e. blocks i = Some e \<Longrightarrow> \<not> is_genesis (ce_header e)
      \<Longrightarrow> blocks (bh_prev_hash (ce_header e)) \<noteq> None"
    and "blocks j = None" and "blocks i \<noteq> None"
  shows "recent_walk (blocks(j \<mapsto> e)) n i = recent_walk blocks n i"
  using assms(3)
proof (induction n arbitrary: i)
  case (Suc n)
  then obtain f where f: "blocks i = Some f" by auto
  moreover have "i \<noteq> j" using f assms(2) by auto
  moreover have "recent_walk (blocks(j \<mapsto> e)) n (bh_prev_hash (ce_header f)) =
      recent_walk blocks n (bh_prev_hash (ce_header f))" if "\<not> is_genesis (ce_header f)"
    using closed [OF f that] by (rule Suc.IH)
  ultimately show ?case by (simp del: fun_upd_apply add: fun_upd_other)
qed simp

lemma chain_inv_closed:
  assumes "chain_inv H ser s" and "cs_blocks s i = Some e" and "\<not> is_genesis (ce_header e)"
  shows "cs_blocks s (bh_prev_hash (ce_header e)) \<noteq> None"
proof -
  have "i \<noteq> cs_genesis s" using assms(2,3) chain_invD(1) [OF assms(1)] by auto
  from chain_invD(3) [OF assms(1,2) this] show ?thesis by auto
qed

lemma chain_new_inv:
  assumes "chain_new H ser g params pow = Some s"
  shows "chain_inv H ser s"
proof -
  let ?i = "header_id H ser g"
  let ?b = "[?i \<mapsto> \<lparr>ce_header = g, ce_cumulative_work = work_for_target (bh_target g)\<rparr>]"
  have "chain_path ?b ?i ?i [\<lparr>ce_header = g, ce_cumulative_work = work_for_target (bh_target g)\<rparr>]"
    by (rule chain_path.genesis) simp
  with assms show ?thesis
    unfolding chain_inv_def chain_new_def by (auto split: if_splits)
qed

lemma valid_child_upd:
  assumes inv: "chain_inv H ser s" and new: "cs_blocks s i = None"
    and parent: "cs_blocks s (bh_prev_hash (ce_header e)) = Some p" and "same_config s s'"
    and "valid_child s (cs_blocks s) p e"
  shows "valid_child s' ((cs_blocks s)(i \<mapsto> f)) p e"
proof -
  have "recent_walk ((cs_blocks s)(i \<mapsto> f)) n (bh_prev_hash (ce_header e)) =
      recent_walk (cs_blocks s) n (bh_prev_hash (ce_header e))" for n
    using chain_inv_closed [OF inv] new parent by (intro recent_walk_upd) auto
  with assms(4,5) show ?thesis
    by (simp add: valid_child_def same_config_def recent_count_def)
qed

lemma add_header_inv:
  assumes inv: "chain_inv H ser s" and "add_header H ser s h = Inr (st, s')"
  shows "chain_inv H ser s'"
proof -
  let ?i = "header_id H ser h" and ?g = "cs_genesis s"
  from assms(2) obtain parent tip e where
    new: "cs_blocks s ?i = None" and parent: "cs_blocks s (bh_prev_hash h) = Some parent"
    and e: "ce_header e = h" "valid_child s (cs_blocks s) parent e"
    and blocks: "cs_blocks s' = (cs_blocks s)(?i \<mapsto> e)" and cfg: "same_config s s'"
    and tip: "((cs_blocks s)(?i \<mapsto> e)) (cs_tip s) = Some tip"
    and choice: "if ce_cumulative_work tip < ce_cumulative_work e then cs_tip s' = ?i \<and>
       st = (if bh_prev_hash h = cs_tip s then ExtendedTip else Reorg (cs_tip s) ?i)
     else cs_tip s' = cs_tip s \<and> st = SideChain"
    by (rule add_header_accepts)
  have g: "?g \<noteq> ?i" using chain_invD(1) [OF inv] new by auto
  have le: "cs_blocks s \<subseteq>\<^sub>m cs_blocks s'" using new by (auto simp: blocks map_le_def)
  have cfg': "cs_genesis s' = ?g" "cs_genesis_target s' = cs_genesis_target s"
    using cfg by (simp_all add: same_config_def)
  have valid: "\<exists>p. cs_blocks s' (bh_prev_hash (ce_header f)) = Some p \<and> valid_child s' (cs_blocks s') p f"
    if "cs_blocks s' j = Some f" "j \<noteq> ?g" for j f
  proof -
    have "\<exists>p. cs_blocks s (bh_prev_hash (ce_header f)) = Some p \<and> valid_child s (cs_blocks s) p f"
    proof (cases "j = ?i")
      case True
      then have "f = e" using that(1) by (simp add: blocks)
      with parent e show ?thesis by auto
    next
      case False
      then have "cs_blocks s j = Some f" using \<open>cs_blocks s' j = Some f\<close> by (simp add: blocks)
      then show ?thesis using that(2) by (rule chain_invD(3) [OF inv])
    qed
    then obtain p where p: "cs_blocks s (bh_prev_hash (ce_header f)) = Some p"
      "valid_child s (cs_blocks s) p f" by blast
    moreover have "bh_prev_hash (ce_header f) \<noteq> ?i" using p(1) new by auto
    ultimately show ?thesis
      using valid_child_upd [OF inv new p(1) cfg p(2), of e] by (auto simp: blocks)
  qed
  have path: "\<exists>p. chain_path (cs_blocks s') ?g j p" if "cs_blocks s' j = Some f" for j f
  proof (cases "j = ?i")
    case True
    obtain p where "chain_path (cs_blocks s) ?g (bh_prev_hash h) p"
      using chain_invD(4) [OF inv parent] by auto
    then have "chain_path (cs_blocks s') ?g (bh_prev_hash (ce_header e)) p"
      using e(1) le by (simp add: chain_path_mono)
    then have "chain_path (cs_blocks s') ?g ?i (e # p)"
      using g by (intro chain_path.child) (auto simp: blocks)
    with True show ?thesis by blast
  next
    case False
    with that obtain p where "chain_path (cs_blocks s) ?g j p"
      using chain_invD(4) [OF inv, of j f] by (auto simp: blocks)
    then show ?thesis using chain_path_mono le by blast
  qed
  have "cs_tip s \<noteq> ?i" using chain_invD(5) [OF inv] new by auto
  with tip have tip': "cs_blocks s (cs_tip s) = Some tip" by simp
  then have max: "ce_cumulative_work f \<le> ce_cumulative_work tip" if "cs_blocks s j = Some f" for j f
    using chain_invD(5) [OF inv] that by auto
  have tips: "\<exists>t. cs_blocks s' (cs_tip s') = Some t \<and>
      (\<forall>j f. cs_blocks s' j = Some f \<longrightarrow> ce_cumulative_work f \<le> ce_cumulative_work t)"
  proof (cases "ce_cumulative_work tip < ce_cumulative_work e")
    case True
    then have "ce_cumulative_work f \<le> ce_cumulative_work e" if "cs_blocks s j = Some f" for j f
      using max [OF that] by simp
    with True show ?thesis using choice by (auto simp: blocks)
  next
    case False
    then show ?thesis using choice max tip by (auto simp: blocks)
  qed
  show ?thesis
    unfolding chain_inv_def cfg'
    using chain_invD(1,2) [OF inv] valid path tips e(1) g by (auto simp: blocks)
qed

lemma chain_reachable_inv_lemma:
  "chain_reachable H ser g params pow s \<Longrightarrow> chain_inv H ser s"
  by (induction rule: chain_reachable.induct) (auto intro: chain_new_inv add_header_inv)

subsection \<open>Cumulative work and heights along a path\<close>

definition path_work :: "chain_entry list \<Rightarrow> nat" where
  "path_work p = (\<Sum>e \<leftarrow> p. unat (work_for_target (bh_target (ce_header e))))"

lemma chain_path_work:
  assumes inv: "chain_inv H ser s" and "chain_path (cs_blocks s) (cs_genesis s) i p"
  shows "unat (ce_cumulative_work (hd p)) = path_work p
    \<and> bh_height (ce_header (hd p)) = word_of_nat (length p - 1)"
  using assms(2)
proof (induction rule: chain_path.induct)
  case (genesis e)
  then show ?case
    using chain_invD(1) [OF inv] by (auto simp: path_work_def is_genesis_def)
next
  case (child i e p)
  from chain_invD(3) [OF inv child.hyps(1,2)] obtain f where
    f: "cs_blocks s (bh_prev_hash (ce_header e)) = Some f" "valid_child s (cs_blocks s) f e" by blast
  have p: "p \<noteq> []" "f = hd p" using chain_path_hd [OF child.hyps(3)] f(1) by auto
  have "word_of_nat (length p - 1) + 1 = (word_of_nat (length p) :: u64)"
    using p(1) by (cases p) (simp_all add: add.commute)
  with child.IH f(2) p show ?case by (simp add: valid_child_def path_work_def)
qed

text \<open>The headers handed to the retarget are an initial part of the path.\<close>

lemma recent_walk_prefix:
  assumes "chain_inv H ser s" and "chain_path (cs_blocks s) (cs_genesis s) i p"
  shows "\<exists>k. recent_walk (cs_blocks s) n i = map ce_header (take k p)"
  using assms(2)
proof (induction arbitrary: n rule: chain_path.induct)
  case (genesis e)
  have "is_genesis (ce_header e)" using genesis chain_invD(1) [OF assms(1)] by auto
  with genesis show ?case
    by (cases n) (auto intro: exI [of _ "0 :: nat"] exI [of _ "1 :: nat"])
next
  case (child i e p)
  show ?case
  proof (cases n)
    case 0
    then show ?thesis by (auto intro: exI [of _ 0])
  next
    case (Suc m)
    obtain k where "recent_walk (cs_blocks s) m (bh_prev_hash (ce_header e)) = map ce_header (take k p)"
      using child.IH by blast
    with child.hyps(1) Suc show ?thesis
      by (cases "is_genesis (ce_header e)") (auto intro: exI [of _ "Suc 0"] exI [of _ "Suc k"])
  qed
qed

lemma recent_walk_take:
  assumes inv: "chain_inv H ser s" and "chain_path (cs_blocks s) (cs_genesis s) i p"
    and "length p \<le> 2 ^ 64"
  shows "recent_walk (cs_blocks s) n i = map ce_header (take n p)"
  using assms(2,3)
proof (induction arbitrary: n rule: chain_path.induct)
  case (genesis e)
  have "is_genesis (ce_header e)" using genesis chain_invD(1) [OF inv] by auto
  with genesis show ?case by (cases n) auto
next
  case (child i e p)
  have "chain_path (cs_blocks s) (cs_genesis s) i (e # p)"
    using child.hyps by (rule chain_path.child)
  from chain_path_work [OF inv this]
  have "bh_height (ce_header e) = word_of_nat (length p)" by simp
  moreover have "p \<noteq> []" using chain_path_hd [OF child.hyps(3)] by simp
  then have "unat (word_of_nat (length p) :: u64) \<noteq> 0"
    using child.prems by (subst of_nat_inverse) auto
  ultimately have "\<not> is_genesis (ce_header e)" by (auto simp: is_genesis_def)
  with child show ?case by (cases n) auto
qed

lemma path_work_take: "path_work (take k p) \<le> path_work p"
  unfolding path_work_def by (subst (2) append_take_drop_id [of k p, symmetric]) (simp only: map_append sum_list_append le_add1)

lemma work_sum_map: "work_sum (map ce_header p) = path_work p"
  by (simp add: work_sum_def path_work_def comp_def)

lemma work_sum_rev: "work_sum (rev hs) = work_sum hs"
  unfolding work_sum_def rev_map [symmetric] by (rule sum_list_rev)

lemma work_sum_drop: "work_sum (drop n hs) \<le> work_sum hs"
  unfolding work_sum_def
  by (subst (2) append_take_drop_id [of n hs, symmetric]) (simp only: map_append sum_list_append le_add2)

text \<open>The work inside one retarget window is part of the parent's cumulative work.\<close>

lemma recent_work_bound:
  assumes inv: "chain_inv H ser s" and "cs_blocks s i = Some e"
  shows "work_sum (tl (lwma_window q (rev (recent_walk (cs_blocks s) n i)))) \<le> unat (ce_cumulative_work e)"
proof -
  obtain p where p: "chain_path (cs_blocks s) (cs_genesis s) i p"
    using chain_invD(4) [OF assms] by blast
  then obtain k where k: "recent_walk (cs_blocks s) n i = map ce_header (take k p)"
    using recent_walk_prefix [OF inv] by blast
  have "work_sum (tl (lwma_window q (rev (recent_walk (cs_blocks s) n i)))) \<le> work_sum (rev (recent_walk (cs_blocks s) n i))"
    unfolding lwma_window_def tl_drop drop_Suc [symmetric] drop_drop
    by (simp only: drop_Suc [symmetric] tl_drop work_sum_drop drop_drop)
  also have "\<dots> = path_work (take k p)"
    by (simp only: work_sum_rev k work_sum_map)
  also have "\<dots> \<le> path_work p" by (rule path_work_take)
  also have "\<dots> = unat (ce_cumulative_work e)"
    using chain_path_work [OF inv p] chain_path_hd [OF p] assms(2) by simp
  finally show ?thesis .
qed

text \<open>Sane parameters: \<open>6 T\<close> fits in an \<open>i64\<close>, the window is not empty.\<close>

definition params_sane :: "difficulty_params \<Rightarrow> bool" where
  "params_sane p \<longleftrightarrow> 1 \<le> sint (6 * dp_target_block_time_secs p) \<and> dp_window p \<noteq> 0"

lemma recent_next_target_no_panic:
  assumes inv: "chain_inv H ser s" and "params_sane (cs_params s)" and "cs_blocks s i = Some e"
  shows "next_target (rev (recent_walk (cs_blocks s) n i)) (cs_params s) g \<noteq> None"
proof (rule next_target_no_panic)
  have "unat (ce_cumulative_work e) < 2 ^ 256"
    using unsigned_less [of "ce_cumulative_work e", where 'a = nat] by simp
  then show "work_sum (tl (lwma_window (cs_params s) (rev (recent_walk (cs_blocks s) n i)))) < 2 ^ 256"
    using recent_work_bound [OF inv assms(3), of "cs_params s" n] by linarith
qed (use assms(2) in \<open>simp_all add: params_sane_def\<close>)

subsection \<open>Outcomes of \<open>add_header\<close>\<close>

lemma chain_reachable_config:
  assumes "chain_reachable H ser g params pow s"
  shows "cs_genesis s = header_id H ser g \<and> cs_params s = params \<and> cs_pow s = pow
    \<and> cs_genesis_target s = bh_target g \<and> is_genesis g"
  using assms
proof (induction rule: chain_reachable.induct)
  case (start s)
  then show ?case by (auto simp: chain_new_def split: if_splits)
next
  case (add s h st s')
  from add.hyps(2) have "same_config s s'" by (rule add_header_accepts)
  with add.IH show ?case by (simp add: same_config_def)
qed

lemma add_header_outcome:
  assumes inv: "chain_inv H ser s" and "add_header H ser s h = Inr (st, s')"
  obtains e t where "cs_blocks s (header_id H ser h) = None" "ce_header e = h"
    "cs_blocks s' = (cs_blocks s)(header_id H ser h \<mapsto> e)"
    "cs_blocks s (cs_tip s) = Some t" "cs_tip s \<noteq> header_id H ser h"
    "bh_prev_hash h = cs_tip s \<Longrightarrow> ce_cumulative_work t < ce_cumulative_work e"
    "if ce_cumulative_work t < ce_cumulative_work e
     then cs_tip s' = header_id H ser h \<and>
       st = (if bh_prev_hash h = cs_tip s then ExtendedTip else Reorg (cs_tip s) (header_id H ser h))
     else cs_tip s' = cs_tip s \<and> st = SideChain"
proof -
  from assms(2) obtain parent t e where
    new: "cs_blocks s (header_id H ser h) = None" and
    parent: "cs_blocks s (bh_prev_hash h) = Some parent"
    and e: "ce_header e = h" "valid_child s (cs_blocks s) parent e"
    and blocks: "cs_blocks s' = (cs_blocks s)(header_id H ser h \<mapsto> e)"
    and tip: "((cs_blocks s)(header_id H ser h \<mapsto> e)) (cs_tip s) = Some t"
    and choice: "if ce_cumulative_work t < ce_cumulative_work e
     then cs_tip s' = header_id H ser h \<and>
       st = (if bh_prev_hash h = cs_tip s then ExtendedTip else Reorg (cs_tip s) (header_id H ser h))
     else cs_tip s' = cs_tip s \<and> st = SideChain"
    by (rule add_header_accepts)
  have neq: "cs_tip s \<noteq> header_id H ser h" using chain_invD(5) [OF inv] new by auto
  with tip have t: "cs_blocks s (cs_tip s) = Some t" by simp
  have "ce_cumulative_work t < ce_cumulative_work e" if "bh_prev_hash h = cs_tip s"
  proof -
    have "t = parent" using parent t that by simp
    then show ?thesis
      using e(2) work_for_target_pos [of "bh_target (ce_header e)"]
      by (simp add: valid_child_def word_less_nat_alt)
  qed
  then show ?thesis using that new e(1) blocks t neq choice by blast
qed

lemma fork_choice_lemma:
  assumes inv: "chain_inv H ser s" and "add_header H ser s h = Inr (st, s')"
  shows "cs_blocks s (header_id H ser h) = None
    \<and> (\<exists>e. ce_header e = h \<and> cs_blocks s' = (cs_blocks s)(header_id H ser h \<mapsto> e))
    \<and> (case st of
         ExtendedTip \<Rightarrow> cs_tip s' = header_id H ser h \<and> bh_prev_hash h = cs_tip s
           \<and> the (tip_work s) < the (tip_work s')
       | Reorg old new \<Rightarrow> old = cs_tip s \<and> new = header_id H ser h \<and> cs_tip s' = new
           \<and> bh_prev_hash h \<noteq> cs_tip s \<and> the (tip_work s) < the (tip_work s')
       | SideChain \<Rightarrow> cs_tip s' = cs_tip s \<and> bh_prev_hash h \<noteq> cs_tip s
           \<and> tip_work s' = tip_work s)"
  using assms by (rule add_header_outcome) (auto simp: tip_work_def split: if_splits)

text \<open>The target a child of block \<open>i\<close> must have.\<close>

definition chain_target :: "chain_state \<Rightarrow> block_id \<Rightarrow> target option" where
  "chain_target s i =
     Option.bind (recent_headers s i (recent_count s)) (\<lambda>recent.
     next_target recent (cs_params s) (cs_genesis_target s))"

lemma add_header_panics_iff:
  assumes inv: "chain_inv H ser s" and sane: "params_sane (cs_params s)"
  shows "add_header H ser s h = Inl ChainPanic \<longleftrightarrow>
    (\<exists>parent. cs_blocks s (header_id H ser h) = None
      \<and> cs_blocks s (bh_prev_hash h) = Some parent
      \<and> bh_height h = bh_height (ce_header parent) + 1
      \<and> sint (bh_timestamp (ce_header parent)) \<le> sint (bh_timestamp h)
      \<and> (\<not> capacity_ok (recent_count s)
         \<or> chain_target s (bh_prev_hash h) = Some (bh_target h) \<and> pa_verify (cs_pow s) h
           \<and> 2 ^ 256 \<le> unat (ce_cumulative_work parent) + unat (work_for_target (bh_target h))))"
proof (cases "cs_blocks s (bh_prev_hash h)")
  case None
  then show ?thesis by (simp add: add_header_def Let_def)
next
  case (Some parent)
  obtain t where t: "cs_blocks s (cs_tip s) = Some t" using chain_invD(5) [OF inv] by blast
  show ?thesis
  proof (cases "capacity_ok (recent_count s)")
    case False
    then show ?thesis using Some by (auto simp: add_header_def Let_def recent_headers_def not_less)
  next
    case True
    then obtain target where "Option.bind (recent_headers s (bh_prev_hash h) (recent_count s)) (\<lambda>recent.
        next_target recent (cs_params s) (cs_genesis_target s)) = Some target"
      using recent_next_target_no_panic [OF inv sane Some] by (auto simp: recent_headers_def)
    then show ?thesis
      using Some t True checked_add_iff [of "ce_cumulative_work parent" "work_for_target (bh_target h)"]
      by (auto simp: add_header_def Let_def chain_target_def not_less split: option.split)
  qed
qed

lemma candidate_accepted_lemma:
  assumes inv: "chain_inv H ser s"
    and cand: "build_candidate H s miner ts txs = Some c"
    and ts: "sint (bh_timestamp (the (tip_header s))) \<le> sint ts"
    and mined: "grind c (cs_pow s) m = (h, Found k)"
    and new: "cs_blocks s (header_id H ser h) = None"
    and fits: "unat (the (tip_work s)) + unat (work_for_target (bh_target c)) < 2 ^ 256"
  shows "\<exists>s'. add_header H ser s h = Inr (ExtendedTip, s') \<and> cs_tip s' = header_id H ser h
    \<and> tip_header s' = Some h \<and> chain_height s' = map_option (\<lambda>x. x + 1) (chain_height s)"
proof -
  obtain t where t: "cs_blocks s (cs_tip s) = Some t" using chain_invD(5) [OF inv] by blast
  from cand t have c: "bh_prev_hash c = cs_tip s" "bh_height c = bh_height (ce_header t) + 1"
    "bh_timestamp c = ts" "chain_next_target s = Some (bh_target c)"
    by (auto simp: build_candidate_def tip_header_def split: option.splits)
  obtain j where h: "h = with_nonce c j" "pa_verify (cs_pow s) h"
    using mined by (cases rule: grind_cases [of m "cs_pow s" c]) auto
  have neq: "cs_tip s \<noteq> header_id H ser h" using t new by auto
  have add: "checked_add (ce_cumulative_work t) (work_for_target (bh_target c)) =
      Some (ce_cumulative_work t + work_for_target (bh_target c))"
    using fits t by (simp add: checked_add_def tip_work_def)
  then have "ce_cumulative_work t < ce_cumulative_work t + work_for_target (bh_target c)"
    using checked_add_Some [OF add] work_for_target_pos [of "bh_target c"]
    by (simp add: word_less_nat_alt)
  with t c h new neq add ts show ?thesis
    by (simp add: add_header_def Let_def chain_next_target_def tip_header_def chain_height_def)
qed

text \<open>Two nodes that hold the same headers hold the same index and weigh their tips equally.\<close>

definition stored_headers :: "chain_state \<Rightarrow> block_header set" where
  "stored_headers s = ce_header ` ran (cs_blocks s)"

lemma stored_headers_lookup:
  assumes "chain_inv H ser s" and "chain_inv H ser s'" and "stored_headers s \<subseteq> stored_headers s'"
    and e: "cs_blocks s i = Some e"
  shows "\<exists>e'. cs_blocks s' i = Some e' \<and> ce_header e' = ce_header e"
proof -
  have "ce_header e \<in> stored_headers s'"
    using assms(3) ranI [of "cs_blocks s" i e] e by (auto simp: stored_headers_def)
  then obtain j e' where j: "cs_blocks s' j = Some e'" "ce_header e' = ce_header e"
    by (auto simp: stored_headers_def ran_def)
  have "j = i"
    using chain_invD(2) [OF assms(2) j(1)] chain_invD(2) [OF assms(1) e] j(2) by simp
  with j show ?thesis by blast
qed

lemma stored_headers_work:
  assumes inv: "chain_inv H ser s" "chain_inv H ser s'"
    and "stored_headers s \<subseteq> stored_headers s'" and "same_config s s'"
    and "chain_path (cs_blocks s) (cs_genesis s) i p"
  shows "cs_blocks s' i = Some (hd p)"
  using assms(5)
proof (induction rule: chain_path.induct)
  case (genesis e)
  from stored_headers_lookup [OF inv assms(3) genesis] obtain e' where
    e': "cs_blocks s' (cs_genesis s) = Some e'" "ce_header e' = ce_header e" by blast
  moreover have "ce_cumulative_work e' = ce_cumulative_work e"
    using chain_invD(1) [OF inv(1)] chain_invD(1) [OF inv(2)] genesis e'(1) assms(4)
    by (auto simp: same_config_def)
  ultimately show ?case by (cases e, cases e') auto
next
  case (child i e p)
  from stored_headers_lookup [OF inv assms(3) child.hyps(1)] obtain e' where
    e': "cs_blocks s' i = Some e'" "ce_header e' = ce_header e" by blast
  have "i \<noteq> cs_genesis s'" using child.hyps(2) assms(4) by (simp add: same_config_def)
  from chain_invD(3) [OF inv(2) e'(1) this] child.IH e'(2) have "valid_child s' (cs_blocks s') (hd p) e'"
    by auto
  moreover from chain_invD(3) [OF inv(1) child.hyps(1,2)] chain_path_hd [OF child.hyps(3)]
  have "valid_child s (cs_blocks s) (hd p) e" by auto
  ultimately have "unat (ce_cumulative_work e') = unat (ce_cumulative_work e)"
    using e'(2) by (simp add: valid_child_def)
  then have "ce_cumulative_work e' = ce_cumulative_work e" by (simp only: word_unat_eq_iff)
  with e' show ?case by (cases e, cases e') auto
qed

lemma convergence_lemma:
  assumes "chain_reachable H ser g params pow s" and "chain_reachable H ser g params pow s'"
    and "stored_headers s = stored_headers s'"
  shows "cs_blocks s = cs_blocks s' \<and> tip_work s = tip_work s'"
proof -
  have inv: "chain_inv H ser s" "chain_inv H ser s'"
    using assms(1,2) by (simp_all add: chain_reachable_inv_lemma)
  have cfg: "same_config s s'" "same_config s' s"
    using chain_reachable_config [OF assms(1)] chain_reachable_config [OF assms(2)]
    by (simp_all add: same_config_def)
  have sub: "cs_blocks a i = Some e \<Longrightarrow> cs_blocks b i = Some e"
    if "chain_inv H ser a" "chain_inv H ser b" "stored_headers a = stored_headers b" "same_config a b"
    for a b i e
  proof -
    assume e: "cs_blocks a i = Some e"
    from chain_invD(4) [OF that(1) e] obtain p where
      p: "chain_path (cs_blocks a) (cs_genesis a) i p" by blast
    from that(3) have "stored_headers a \<subseteq> stored_headers b" by simp
    from stored_headers_work [OF that(1,2) this that(4) p] chain_path_hd [OF p] e
    show "cs_blocks b i = Some e" by simp
  qed
  have blocks: "cs_blocks s = cs_blocks s'"
  proof
    fix i
    show "cs_blocks s i = cs_blocks s' i"
      using sub [OF inv assms(3) cfg(1), of i] sub [OF inv(2,1) assms(3) [symmetric] cfg(2), of i]
      by (cases "cs_blocks s i"; cases "cs_blocks s' i") auto
  qed
  obtain t t' where t: "cs_blocks s (cs_tip s) = Some t" "cs_blocks s' (cs_tip s') = Some t'"
    "ce_cumulative_work t' \<le> ce_cumulative_work t" "ce_cumulative_work t \<le> ce_cumulative_work t'"
    using chain_invD(5) [OF inv(1)] chain_invD(5) [OF inv(2)] blocks by metis
  with blocks show ?thesis by (simp add: tip_work_def)
qed

subsection \<open>Properties\<close>

text \<open>
  Property C1.  Every reachable chain state is a tree of validated headers rooted at genesis:
  ids are header hashes, every block but genesis was accepted by the protocol rules relative to
  its stored parent (height, timestamp, retarget, proof of work, cumulative work without
  overflow), every block has a path to genesis, and the tip has the most cumulative work.
\<close>

theorem chain_reachable_inv:
  assumes "chain_reachable H ser g params pow s"
  shows "chain_inv H ser s"
  using assms by (rule chain_reachable_inv_lemma)

text \<open>
  Property C2.  Fork choice: an accepted header is new and only adds its own entry; the three
  statuses mean what they say (the tip moved to a child of the old tip, moved to a heavier
  branch, or stayed), a child of the tip always becomes the tip, and the tip moves only to
  strictly more work.
\<close>

theorem fork_choice:
  assumes "chain_reachable H ser g params pow s" and "add_header H ser s h = Inr (st, s')"
  shows "cs_blocks s (header_id H ser h) = None
    \<and> (\<exists>e. ce_header e = h \<and> cs_blocks s' = (cs_blocks s)(header_id H ser h \<mapsto> e))
    \<and> (case st of
         ExtendedTip \<Rightarrow> cs_tip s' = header_id H ser h \<and> bh_prev_hash h = cs_tip s
           \<and> the (tip_work s) < the (tip_work s')
       | Reorg old new \<Rightarrow> old = cs_tip s \<and> new = header_id H ser h \<and> cs_tip s' = new
           \<and> bh_prev_hash h \<noteq> cs_tip s \<and> the (tip_work s) < the (tip_work s')
       | SideChain \<Rightarrow> cs_tip s' = cs_tip s \<and> bh_prev_hash h \<noteq> cs_tip s
           \<and> tip_work s' = tip_work s)"
  by (rule fork_choice_lemma [OF chain_reachable_inv_lemma [OF assms(1)] assms(2)])

text \<open>
  Property C3.  Convergence: two nodes started from one genesis that have accepted the same set
  of headers, in whatever orders, hold the same index with the same cumulative works, and their
  tips weigh the same.
\<close>

theorem chain_convergence:
  assumes "chain_reachable H ser g params pow s" and "chain_reachable H ser g params pow s'"
    and "stored_headers s = stored_headers s'"
  shows "cs_blocks s = cs_blocks s' \<and> tip_work s = tip_work s'"
  using assms by (rule convergence_lemma)

text \<open>
  Property C4.  A mined candidate is accepted: a header built on the tip with a timestamp not
  before the tip's, on which grinding found a nonce, extends the tip when its id is new and
  the cumulative work does not overflow.
\<close>

theorem mined_candidate_extends_tip:
  assumes "chain_reachable H ser g params pow s"
    and "build_candidate H s miner ts txs = Some c"
    and "sint (bh_timestamp (the (tip_header s))) \<le> sint ts"
    and "grind c pow m = (h, Found k)"
    and "\<not> chain_contains s (header_id H ser h)"
    and "unat (the (tip_work s)) + unat (work_for_target (bh_target c)) < 2 ^ 256"
  shows "\<exists>s'. add_header H ser s h = Inr (ExtendedTip, s') \<and> cs_tip s' = header_id H ser h
    \<and> tip_header s' = Some h \<and> chain_height s' = map_option (\<lambda>x. x + 1) (chain_height s)"
proof (rule candidate_accepted_lemma [OF chain_reachable_inv_lemma [OF assms(1)] assms(2,3) _ _ assms(6)])
  show "grind c (cs_pow s) m = (h, Found k)"
    using assms(4) chain_reachable_config [OF assms(1)] by simp
  show "cs_blocks s (header_id H ser h) = None"
    using assms(5) by (simp add: chain_contains_def)
qed

text \<open>
  Property C5.  The panics of \<open>add_header\<close> with sane parameters (the largest solve time fits an \<open>i64\<close>, the
  window is not empty), exactly: a new header on a known parent with the right height and timestamp panics
  when the buffer for the retarget's \<open>window + 1\<close> headers exceeds the allocator's limit (windows above
  \<open>4.8 * 10^16\<close>), and when, every protocol check having passed, the cumulative work overflows.  Nothing else
  panics: the arithmetic of the retarget does not, because the work of its window is part of the parent's
  cumulative work.
\<close>

theorem add_header_panic_freedom:
  assumes "chain_reachable H ser g params pow s" and "params_sane params"
  shows "add_header H ser s h = Inl ChainPanic \<longleftrightarrow>
    (\<exists>parent. cs_blocks s (header_id H ser h) = None
      \<and> cs_blocks s (bh_prev_hash h) = Some parent
      \<and> bh_height h = bh_height (ce_header parent) + 1
      \<and> sint (bh_timestamp (ce_header parent)) \<le> sint (bh_timestamp h)
      \<and> (\<not> capacity_ok (recent_count s)
         \<or> chain_target s (bh_prev_hash h) = Some (bh_target h) \<and> pa_verify (cs_pow s) h
           \<and> 2 ^ 256 \<le> unat (ce_cumulative_work parent) + unat (work_for_target (bh_target h))))"
  using assms chain_reachable_config [OF assms(1)]
  by (intro add_header_panics_iff chain_reachable_inv_lemma) simp_all

subsection \<open>Witnesses: a chain of two blocks\<close>

definition demo_hash :: hasher where
  "demo_hash bs = word_of_nat (length bs)"

definition demo_ser :: "block_header \<Rightarrow> bytes" where
  "demo_ser h = replicate (unat (bh_height h)) 0"

definition demo_genesis :: block_header where
  "demo_genesis = plain_header 0 100 (- 1) 0"

definition demo_child :: block_header where
  "demo_child = plain_header 1 110 (- 1) 0"

definition demo_chain :: "block_header list \<Rightarrow> block_id \<Rightarrow> chain_state" where
  "demo_chain hs tip =
     \<lparr>cs_blocks = (\<lambda>i. if unat i < length hs
        then Some \<lparr>ce_header = hs ! unat i, ce_cumulative_work = i + 1\<rparr> else None),
      cs_tip = tip, cs_genesis = 0, cs_params = plain_params, cs_genesis_target = - 1,
      cs_pow = blake3_pow demo_hash demo_ser\<rparr>"

lemma work_for_max_target: "work_for_target (- 1) = 1"
proof -
  have "unat (work_for_target (- 1)) = 1"
    by (subst unat_work_for_target) (simp_all add: unat_minus_one)
  then show ?thesis by (metis eq_word_of_natI of_nat_1)
qed

lemma unat_eq_one: "unat i = Suc 0 \<longleftrightarrow> i = 1" for i :: block_id
  using unat_1 word_unat_eq_iff [of i 1] by simp

lemma demo_new: "chain_new demo_hash demo_ser demo_genesis plain_params (blake3_pow demo_hash demo_ser)
    = Some (demo_chain [demo_genesis] 0)"
proof -
  have "(\<lambda>i :: block_id. if unat i = 0 then Some \<lparr>ce_header = demo_genesis, ce_cumulative_work = i + 1\<rparr>
      else None) = [0 \<mapsto> \<lparr>ce_header = demo_genesis, ce_cumulative_work = 1\<rparr>]"
    by (rule ext) (simp add: unat_eq_zero)
  then show ?thesis
    by (simp add: chain_new_def demo_chain_def header_id_def demo_hash_def demo_ser_def is_genesis_def
      demo_genesis_def plain_header_def work_for_max_target less_Suc_eq cong: if_cong)
qed

lemma demo_recent:
  "recent_headers (demo_chain [demo_genesis] 0) 0 3 = Some [demo_genesis]"
  "recent_count (demo_chain [demo_genesis] 0) = 3"
proof -
  show "recent_headers (demo_chain [demo_genesis] 0) 0 3 = Some [demo_genesis]"
    by (simp add: recent_headers_def capacity_ok_def demo_chain_def numeral_3_eq_3 is_genesis_def
      demo_genesis_def plain_header_def)
  show "recent_count (demo_chain [demo_genesis] 0) = 3"
    by (simp add: recent_count_def demo_chain_def plain_params_def)
qed

lemma demo_add: "add_header demo_hash demo_ser (demo_chain [demo_genesis] 0) demo_child =
    Inr (ExtendedTip, demo_chain [demo_genesis, demo_child] 1)"
proof -
  have blocks: "(cs_blocks (demo_chain [demo_genesis] 0))(1 \<mapsto>
      \<lparr>ce_header = demo_child, ce_cumulative_work = 2\<rparr>) =
    cs_blocks (demo_chain [demo_genesis, demo_child] 1)"
    by (rule ext) (auto simp: demo_chain_def less_Suc_eq unat_eq_zero unat_eq_one)
  have "header_id demo_hash demo_ser demo_child = 1"
    by (simp add: header_id_def demo_hash_def demo_ser_def demo_child_def plain_header_def)
  moreover note demo_recent
  moreover have "pa_verify (blake3_pow demo_hash demo_ser) demo_child"
    by (simp add: blake3_pow_def default_verify_def demo_child_def plain_header_def)
  ultimately show ?thesis using blocks
    by (simp add: add_header_def Let_def)
      (simp add: demo_chain_def demo_child_def demo_genesis_def plain_header_def next_target_def
        plain_params_def work_for_max_target checked_add_def)
qed

lemma demo_reachable: "chain_reachable demo_hash demo_ser demo_genesis plain_params
    (blake3_pow demo_hash demo_ser) (demo_chain [demo_genesis, demo_child] 1)"
  by (rule chain_reachable.add [OF chain_reachable.start [OF demo_new] demo_add])

theorem chain_reachable_inv_witness:
  "chain_inv demo_hash demo_ser (demo_chain [demo_genesis, demo_child] 1)"
  by (rule chain_reachable_inv [OF demo_reachable])

theorem fork_choice_witness:
  "bh_prev_hash demo_child = 0 \<and>
   the (tip_work (demo_chain [demo_genesis] 0)) < the (tip_work (demo_chain [demo_genesis, demo_child] 1))"
  using fork_choice [OF chain_reachable.start [OF demo_new] demo_add] by (simp add: demo_chain_def)

text \<open>Two blocks on genesis, told apart by their nonce, received in either order.\<close>

definition fork_ser :: "block_header \<Rightarrow> bytes" where
  "fork_ser h = replicate (unat (bh_nonce h)) 0"

definition fork_child :: "u64 \<Rightarrow> block_header" where
  "fork_child n = demo_child\<lparr>bh_nonce := n\<rparr>"

definition fork_chain :: "(block_id \<rightharpoonup> chain_entry) \<Rightarrow> block_id \<Rightarrow> chain_state" where
  "fork_chain kids tip =
     \<lparr>cs_blocks = kids(0 \<mapsto> \<lparr>ce_header = demo_genesis, ce_cumulative_work = 1\<rparr>), cs_tip = tip, cs_genesis = 0,
      cs_params = plain_params, cs_genesis_target = - 1, cs_pow = blake3_pow demo_hash fork_ser\<rparr>"

definition fork_entry :: "u64 \<Rightarrow> chain_entry" where
  "fork_entry n = \<lparr>ce_header = fork_child n, ce_cumulative_work = 2\<rparr>"

lemma fork_new: "chain_new demo_hash fork_ser demo_genesis plain_params (blake3_pow demo_hash fork_ser)
    = Some (fork_chain Map.empty 0)"
  by (simp add: chain_new_def fork_chain_def header_id_def demo_hash_def fork_ser_def is_genesis_def
      demo_genesis_def plain_header_def work_for_max_target)

lemma fork_add:
  assumes "header_id demo_hash fork_ser (fork_child n) = i" "kids i = None" "i \<noteq> 0"
    and "tip = 0 \<or> tip \<noteq> i \<and> (\<exists>m. kids tip = Some (fork_entry m))"
  shows "add_header demo_hash fork_ser (fork_chain kids tip) (fork_child n) =
    Inr (if tip = 0 then (ExtendedTip, fork_chain (kids(i \<mapsto> fork_entry n)) i)
         else (SideChain, fork_chain (kids(i \<mapsto> fork_entry n)) tip))"
proof -
  have count: "recent_count (fork_chain kids tip) = 3" by (simp add: recent_count_def fork_chain_def plain_params_def)
  have recent: "recent_headers (fork_chain kids tip) 0 3 = Some [demo_genesis]"
    by (simp add: recent_headers_def capacity_ok_def fork_chain_def numeral_3_eq_3 is_genesis_def demo_genesis_def
      plain_header_def)
  have h: "bh_prev_hash (fork_child n) = 0" "bh_height (fork_child n) = 1" "bh_timestamp (fork_child n) = 110"
    "bh_target (fork_child n) = - 1" by (simp_all add: fork_child_def demo_child_def plain_header_def)
  have g: "bh_height demo_genesis = 0" "bh_timestamp demo_genesis = 100" "bh_target demo_genesis = - 1"
    by (simp_all add: demo_genesis_def plain_header_def)
  have t: "next_target [demo_genesis] plain_params (- 1) = Some (- 1)"
    by (simp add: next_target_def plain_params_def demo_genesis_def plain_header_def)
  have v: "pa_verify (blake3_pow demo_hash fork_ser) (fork_child n)"
    by (simp add: blake3_pow_def default_verify_def h)
  have sel: "cs_blocks (fork_chain kids tip) = kids(0 \<mapsto> \<lparr>ce_header = demo_genesis, ce_cumulative_work = 1\<rparr>)"
    "cs_params (fork_chain kids tip) = plain_params" "cs_genesis_target (fork_chain kids tip) = - 1"
    "cs_pow (fork_chain kids tip) = blake3_pow demo_hash fork_ser" "cs_tip (fork_chain kids tip) = tip"
    by (simp_all add: fork_chain_def)
  have w: "checked_add 1 (work_for_target (- 1)) = Some 2" by (simp add: work_for_max_target checked_add_def)
  have swap: "kids(0 \<mapsto> a, i \<mapsto> b) = kids(i \<mapsto> b, 0 \<mapsto> a)" for a b using assms(3) by (simp add: fun_upd_twist)
  show ?thesis using assms
    by (auto simp: add_header_def Let_def count recent h g t v sel w fork_entry_def swap)
      (simp_all add: fork_chain_def)
qed

lemma fork_ids: "header_id demo_hash fork_ser (fork_child 1) = 1" "header_id demo_hash fork_ser (fork_child 2) = 2"
  by (simp_all add: header_id_def demo_hash_def fork_ser_def fork_child_def)

lemma fork_reachable:
  "chain_reachable demo_hash fork_ser demo_genesis plain_params (blake3_pow demo_hash fork_ser)
     (fork_chain [1 \<mapsto> fork_entry 1, 2 \<mapsto> fork_entry 2] 1)"
  "chain_reachable demo_hash fork_ser demo_genesis plain_params (blake3_pow demo_hash fork_ser)
     (fork_chain [2 \<mapsto> fork_entry 2, 1 \<mapsto> fork_entry 1] 2)"
proof -
  have step: "chain_reachable demo_hash fork_ser demo_genesis plain_params (blake3_pow demo_hash fork_ser)
      (fork_chain [i \<mapsto> fork_entry n, j \<mapsto> fork_entry m] i)"
    if ids: "header_id demo_hash fork_ser (fork_child n) = i" "header_id demo_hash fork_ser (fork_child m) = j"
      "i \<noteq> j" "i \<noteq> 0" "j \<noteq> 0" for i j n m
  proof -
    have "add_header demo_hash fork_ser (fork_chain Map.empty 0) (fork_child n)
        = Inr (ExtendedTip, fork_chain [i \<mapsto> fork_entry n] i)" using fork_add [OF ids(1), of Map.empty 0] ids by simp
    from chain_reachable.add [OF chain_reachable.start [OF fork_new] this]
    have first: "chain_reachable demo_hash fork_ser demo_genesis plain_params (blake3_pow demo_hash fork_ser)
      (fork_chain [i \<mapsto> fork_entry n] i)" .
    have "add_header demo_hash fork_ser (fork_chain [i \<mapsto> fork_entry n] i) (fork_child m)
        = Inr (SideChain, fork_chain [i \<mapsto> fork_entry n, j \<mapsto> fork_entry m] i)"
      using fork_add [OF ids(2), of "[i \<mapsto> fork_entry n]" i] ids by auto
    from chain_reachable.add [OF first this] show ?thesis .
  qed
  show "chain_reachable demo_hash fork_ser demo_genesis plain_params (blake3_pow demo_hash fork_ser)
     (fork_chain [1 \<mapsto> fork_entry 1, 2 \<mapsto> fork_entry 2] 1)" by (rule step [OF fork_ids]) simp_all
  show "chain_reachable demo_hash fork_ser demo_genesis plain_params (blake3_pow demo_hash fork_ser)
     (fork_chain [2 \<mapsto> fork_entry 2, 1 \<mapsto> fork_entry 1] 2)" by (rule step [OF fork_ids(2,1)]) simp_all
qed

theorem chain_convergence_witness:
  "\<exists>s s'. chain_reachable demo_hash fork_ser demo_genesis plain_params (blake3_pow demo_hash fork_ser) s
    \<and> chain_reachable demo_hash fork_ser demo_genesis plain_params (blake3_pow demo_hash fork_ser) s'
    \<and> cs_tip s = 1 \<and> cs_tip s' = 2 \<and> cs_blocks s = cs_blocks s' \<and> tip_work s = tip_work s'"
proof -
  have "stored_headers (fork_chain [1 \<mapsto> fork_entry 1, 2 \<mapsto> fork_entry 2] 1)
      = stored_headers (fork_chain [2 \<mapsto> fork_entry 2, 1 \<mapsto> fork_entry 1] 2)"
    by (simp add: stored_headers_def fork_chain_def fun_upd_twist)
  note same = chain_convergence [OF fork_reachable this]
  show ?thesis
  proof (intro exI conjI)
    show "cs_tip (fork_chain [1 \<mapsto> fork_entry 1, 2 \<mapsto> fork_entry 2] 1) = 1"
      "cs_tip (fork_chain [2 \<mapsto> fork_entry 2, 1 \<mapsto> fork_entry 1] 2) = 2" by (simp_all add: fork_chain_def)
  qed (use same fork_reachable in blast)+
qed

theorem add_header_panic_freedom_witness:
  "add_header demo_hash demo_ser (demo_chain [demo_genesis] 0) demo_child \<noteq> Inl ChainPanic"
proof -
  have "params_sane plain_params" by (simp add: params_sane_def plain_params_def)
  from add_header_panic_freedom [OF chain_reachable.start [OF demo_new] this, of demo_child]
  show ?thesis by (auto simp: demo_add)
qed

lemma demo_candidate:
  "build_candidate demo_hash (demo_chain [demo_genesis] 0) 0 110 [] = Some demo_child"
proof -
  have "chain_next_target (demo_chain [demo_genesis] 0) = Some (- 1)"
    using demo_recent
    by (simp add: chain_next_target_def demo_chain_def plain_params_def demo_genesis_def
      plain_header_def next_target_def)
  then show ?thesis
    by (simp add: build_candidate_def tip_header_def demo_chain_def demo_child_def demo_genesis_def
      plain_header_def tx_merkle_root_def)
qed

theorem mined_candidate_extends_tip_witness:
  "\<exists>s'. add_header demo_hash demo_ser (demo_chain [demo_genesis] 0) demo_child = Inr (ExtendedTip, s')
    \<and> tip_header s' = Some demo_child"
proof -
  let ?s = "demo_chain [demo_genesis] 0" and ?pow = "blake3_pow demo_hash demo_ser"
  have mined: "grind demo_child ?pow 1 = (demo_child, Found 1)"
    by (simp add: grind_def blake3_pow_def default_verify_def demo_child_def plain_header_def)
  have new: "\<not> chain_contains ?s (header_id demo_hash demo_ser demo_child)"
    by (simp add: chain_contains_def header_id_def demo_hash_def demo_ser_def demo_child_def
      plain_header_def demo_chain_def)
  have "sint (bh_timestamp (the (tip_header ?s))) \<le> sint (110 :: i64)"
    by (simp add: tip_header_def demo_chain_def demo_genesis_def plain_header_def)
  moreover have "unat (the (tip_work ?s)) + unat (work_for_target (bh_target demo_child)) < 2 ^ 256"
    by (simp add: tip_work_def demo_chain_def demo_child_def plain_header_def work_for_max_target)
  ultimately show ?thesis
    using mined_candidate_extends_tip [OF chain_reachable.start [OF demo_new] demo_candidate _ mined new]
    by blast
qed

end
