(* ===== verification/GenesisLoad.thy ===== *)
theory GenesisLoad
  imports AccountsDb Chain
begin

text \<open>
  Genesis: the header built from the configuration
  (\<^verbatim>\<open>crates/tao-consensus/src/genesis.rs\<close>) and the initial balances loaded into the account
  store (\<^verbatim>\<open>crates/tao-runtime/src/genesis.rs\<close>).  Parameters: \<open>hexdec\<close> is \<open>hex::decode\<close>,
  \<open>parse_key\<close> is \<open>Pubkey::from_str\<close>, \<open>mk\<close> is \<open>AccountSharedData::new(lamports, 0, system)\<close>.
  Error texts carry the cause's text where the code formats it.
\<close>

definition parse_target :: "(string \<Rightarrow> string + bytes) \<Rightarrow> string \<Rightarrow> string + target" where
  "parse_target hexdec hex =
     and_then (map_err (\<lambda>e. ''invalid target hex: '' @ e) (hexdec hex)) (\<lambda>bs.
       if length bs \<noteq> 32 then Inl ''target must be 32 bytes'' else Inr (array_of bs))"

definition genesis_header ::
    "hasher \<Rightarrow> (genesis_config \<Rightarrow> bytes) \<Rightarrow> (string \<Rightarrow> string + bytes) \<Rightarrow> genesis_config \<Rightarrow>
     string + block_header" where
  "genesis_header H ser_cfg hexdec cfg =
     and_then (parse_target hexdec (pp_initial_target (gc_pow cfg))) (\<lambda>tgt.
       Inr \<lparr>bh_version = HEADER_VERSION, bh_prev_hash = 0, bh_height = 0,
         bh_timestamp = gc_creation_time cfg, bh_tx_merkle_root = 0,
         bh_state_root = genesis_commitment H ser_cfg cfg, bh_target = tgt,
         bh_nonce = 0, bh_miner = 0\<rparr>)"

record genesis_load =
  gl_created :: nat
  gl_skipped :: nat

definition err_text :: "tao_error \<Rightarrow> string" where
  "err_text e = (case e of
     Io s \<Rightarrow> ''I/O error: '' @ s | Config s \<Rightarrow> ''configuration error: '' @ s
   | Genesis s \<Rightarrow> ''genesis error: '' @ s | Serialization s \<Rightarrow> ''serialization error: '' @ s
   | Consensus s \<Rightarrow> ''consensus error: '' @ s | Runtime s \<Rightarrow> ''runtime/execution error: '' @ s
   | Storage s \<Rightarrow> ''storage error: '' @ s | Network s \<Rightarrow> ''network error: '' @ s | Other s \<Rightarrow> s)"

fun load_loop ::
    "hasher \<Rightarrow> 'db rocks_ops \<Rightarrow> 'a account_ops \<Rightarrow> (string \<Rightarrow> string + bytes32) \<Rightarrow> (u64 \<Rightarrow> 'a) \<Rightarrow>
     allocation list \<Rightarrow> 'db \<Rightarrow> genesis_load \<Rightarrow> string + genesis_load \<times> 'db" where
  "load_loop H rk ao parse_key mk [] db load = Inr (load, db)"
| "load_loop H rk ao parse_key mk (al # als) db load =
     and_then (map_err (\<lambda>e. ''invalid allocation address '' @ al_address al @ '': '' @ e)
                (parse_key (al_address al))) (\<lambda>pubkey.
       and_then (map_err err_text (adb_get rk ao db pubkey)) (\<lambda>found.
         if found \<noteq> None
         then load_loop H rk ao parse_key mk als db (load\<lparr>gl_skipped := gl_skipped load + 1\<rparr>)
         else and_then (map_err err_text (adb_set H rk ao db pubkey (mk (al_lamports al)))) (\<lambda>db'.
                load_loop H rk ao parse_key mk als db' (load\<lparr>gl_created := gl_created load + 1\<rparr>))))"

definition load_allocations ::
    "hasher \<Rightarrow> 'db rocks_ops \<Rightarrow> 'a account_ops \<Rightarrow> (string \<Rightarrow> string + bytes32) \<Rightarrow> (u64 \<Rightarrow> 'a) \<Rightarrow>
     genesis_config \<Rightarrow> 'db \<Rightarrow> string + genesis_load \<times> 'db" where
  "load_allocations H rk ao parse_key mk g db =
     load_loop H rk ao parse_key mk (gc_allocations g) db \<lparr>gl_created = 0, gl_skipped = 0\<rparr>"

subsection \<open>The genesis header\<close>

lemma genesis_header_Inr:
  "genesis_header H ser_cfg hexdec cfg = Inr h \<Longrightarrow>
   is_genesis h \<and> bh_state_root h = H (ser_cfg cfg)"
  by (auto simp: genesis_header_def is_genesis_def genesis_commitment_def)

subsection \<open>Loading\<close>

text \<open>
  The stored bytes decode: the encoding of an account reads back as some account, and so do
  all the bytes in the store.
\<close>

definition decodes :: "'a account_ops \<Rightarrow> (bytes32 \<rightharpoonup> bytes) \<Rightarrow> bool" where
  "decodes ao acc \<longleftrightarrow> (\<forall>k bs. acc k = Some bs \<longrightarrow> (\<exists>a. ao_de ao bs = Inr a))"

definition codec_ok :: "'a account_ops \<Rightarrow> bool" where
  "codec_ok ao \<longleftrightarrow> (\<forall>a bs. ao_ser ao a = Inr bs \<longrightarrow> ao_de ao bs = Inr a)"

lemma adb_get_view:
  assumes "adb_view H rk db acc" and "decodes ao acc"
  shows "adb_get rk ao db k =
    Inr (case acc k of None \<Rightarrow> None | Some bs \<Rightarrow> Some (projr (ao_de ao bs)))"
  using assms by (fastforce simp: adb_get_def adb_view_def decodes_def split: option.split)

text \<open>\<open>loaded als acc acc' c n\<close>: from \<open>acc\<close>, loading \<open>als\<close> gives \<open>acc'\<close> with \<open>c\<close> created, \<open>n\<close> skipped.\<close>

definition allocated :: "(string \<Rightarrow> string + bytes32) \<Rightarrow> allocation list \<Rightarrow> bytes32 set" where
  "allocated parse_key als = (\<lambda>al. projr (parse_key (al_address al))) ` set als"

definition funded :: "(string \<Rightarrow> string + bytes32) \<Rightarrow> (bytes32 \<rightharpoonup> bytes) \<Rightarrow> allocation \<Rightarrow> bool" where
  "funded parse_key acc al \<longleftrightarrow> (\<exists>k bs. parse_key (al_address al) = Inr k \<and> acc k = Some bs)"

definition loaded ::
    "'a account_ops \<Rightarrow> (string \<Rightarrow> string + bytes32) \<Rightarrow> allocation list \<Rightarrow>
     (bytes32 \<rightharpoonup> bytes) \<Rightarrow> (bytes32 \<rightharpoonup> bytes) \<Rightarrow> nat \<Rightarrow> nat \<Rightarrow> bool" where
  "loaded ao parse_key als acc acc' c n \<longleftrightarrow>
     decodes ao acc' \<and> acc \<subseteq>\<^sub>m acc' \<and> list_all (funded parse_key acc') als
     \<and> c + n = length als \<and> dom acc' = dom acc \<union> allocated parse_key als
     \<and> c = card (dom acc' - dom acc)"

lemma map_leD: "m \<subseteq>\<^sub>m m' \<Longrightarrow> m k = Some v \<Longrightarrow> m' k = Some v"
  by (metis domI map_le_def)

lemma loaded_skip:
  assumes "loaded ao parse_key als acc acc' c n"
    and "parse_key (al_address al) = Inr k" and "acc k = Some bs"
  shows "loaded ao parse_key (al # als) acc acc' c (n + 1)"
proof -
  have "acc \<subseteq>\<^sub>m acc'" using assms(1) by (simp only: loaded_def)
  then have "acc' k = Some bs" using assms(3) by (rule map_leD)
  with assms show ?thesis by (auto simp: loaded_def funded_def allocated_def)
qed

lemma loaded_create:
  assumes l: "loaded ao parse_key als (acc(k := Some bs)) acc' c n"
    and k: "parse_key (al_address al) = Inr k" and None: "acc k = None"
  shows "loaded ao parse_key (al # als) acc acc' (c + 1) n"
proof -
  have le': "acc(k := Some bs) \<subseteq>\<^sub>m acc'" using l by (simp only: loaded_def)
  then have at: "acc' k = Some bs" by (rule map_leD) simp
  have "acc \<subseteq>\<^sub>m acc(k := Some bs)" using None by (auto simp: map_le_def)
  then have le: "acc \<subseteq>\<^sub>m acc'" using le' by (rule map_le_trans)
  have dom: "dom acc' = insert k (dom acc) \<union> allocated parse_key als"
    and c: "c = card (dom acc' - insert k (dom acc))"
    using l by (simp_all add: loaded_def del: fun_upd_apply)
  have "finite (dom acc' - dom acc)" unfolding dom
    by (rule finite_subset [of _ "insert k (allocated parse_key als)"]) (auto simp: allocated_def)
  moreover have "k \<in> dom acc' - dom acc" using at None by auto
  ultimately have "card (dom acc' - dom acc) = Suc (card (dom acc' - dom acc - {k}))"
    by (rule card.remove)
  also have "dom acc' - dom acc - {k} = dom acc' - insert k (dom acc)" by blast
  finally have "c + 1 = card (dom acc' - dom acc)" using c by linarith
  moreover have "dom acc' = dom acc \<union> allocated parse_key (al # als)"
    unfolding dom using k by (simp add: allocated_def)
  moreover have "list_all (funded parse_key acc') (al # als)"
    using l at k by (simp add: loaded_def funded_def)
  moreover have "decodes ao acc'" "c + n = length als" using l unfolding loaded_def by blast+
  then have "decodes ao acc'" "c + 1 + n = length (al # als)" by simp_all
  ultimately show ?thesis using le unfolding loaded_def by (intro conjI)
qed

lemma load_loop_view:
  assumes law: "rocks_law rk" and codec: "codec_ok ao"
    and "adb_view H rk db acc" and "decodes ao acc"
    and "load_loop H rk ao parse_key mk als db load = Inr (load', db')"
  shows "\<exists>acc' c n. adb_view H rk db' acc' \<and> loaded ao parse_key als acc acc' c n
    \<and> load' = load\<lparr>gl_created := gl_created load + c, gl_skipped := gl_skipped load + n\<rparr>"
  using assms(3-5)
proof (induction als arbitrary: db acc load)
  case Nil
  then have "loaded ao parse_key [] acc acc 0 0" by (simp add: loaded_def allocated_def)
  with Nil show ?case by (intro exI [of _ acc] exI [of _ 0]) simp
next
  case (Cons al als)
  from Cons.prems(3) obtain k where k: "parse_key (al_address al) = Inr k" by auto
  note get = adb_get_view [OF Cons.prems(1,2), of k]
  show ?case
  proof (cases "acc k")
    case (Some bs)
    with Cons.prems(3) k get have "load_loop H rk ao parse_key mk als db
        (load\<lparr>gl_skipped := gl_skipped load + 1\<rparr>) = Inr (load', db')"
      by simp
    from Cons.IH [OF Cons.prems(1,2) this] obtain acc' c n where
      "adb_view H rk db' acc'" "loaded ao parse_key als acc acc' c n"
      "load' = load\<lparr>gl_created := gl_created load + c, gl_skipped := gl_skipped load + (n + 1)\<rparr>"
      by auto
    with loaded_skip [OF this(2) k Some] show ?thesis by blast
  next
    case None
    with Cons.prems(3) k get obtain d where
      set: "adb_set H rk ao db k (mk (al_lamports al)) = Inr d"
      and loop: "load_loop H rk ao parse_key mk als d (load\<lparr>gl_created := gl_created load + 1\<rparr>) =
        Inr (load', db')"
      by auto
    from adb_set_lemma [OF law Cons.prems(1) set] obtain bs where
      bs: "ao_ser ao (mk (al_lamports al)) = Inr bs" "adb_view H rk d (acc(k := Some bs))" by blast
    have "decodes ao (acc(k := Some bs))"
      using Cons.prems(2) codec bs(1) by (auto simp: decodes_def codec_ok_def)
    from Cons.IH [OF bs(2) this loop] obtain acc' c n where
      "adb_view H rk db' acc'" "loaded ao parse_key als (acc(k := Some bs)) acc' c n"
      "load' = load\<lparr>gl_created := gl_created load + (c + 1), gl_skipped := gl_skipped load + n\<rparr>"
      by (auto simp del: fun_upd_apply)
    with loaded_create [OF this(2) k None] show ?thesis by blast
  qed
qed

lemma load_loop_skips:
  assumes "adb_view H rk db acc" and "decodes ao acc"
    and "list_all (funded parse_key acc) als"
  shows "load_loop H rk ao parse_key mk als db load =
    Inr (load\<lparr>gl_skipped := gl_skipped load + length als\<rparr>, db)"
  using assms(3)
proof (induction als arbitrary: load)
  case (Cons al als)
  then obtain k bs where "parse_key (al_address al) = Inr k" "acc k = Some bs"
    by (auto simp: funded_def)
  with Cons show ?case using adb_get_view [OF assms(1,2), of k] by simp
qed simp

subsection \<open>Properties\<close>

text \<open>
  The genesis id commits to the configuration: two configurations whose genesis
  headers have one id have the same encoding, unless one of the four byte strings hashed
  collides with another; a header is always a valid start of a chain.
\<close>

theorem genesis_id_binding:
  assumes "genesis_header H ser_cfg hexdec cfg = Inr h" and "genesis_header H ser_cfg hexdec cfg' = Inr h'"
    and "header_id H ser h = header_id H ser h'"
    and "inj_on H {ser h, ser h', ser_cfg cfg, ser_cfg cfg'}" and "inj_on ser {h, h'}"
  shows "ser_cfg cfg = ser_cfg cfg' \<and> (\<exists>s. chain_new H ser h params pow = Some s)"
proof -
  have "H (ser h) = H (ser h')" using assms(3) by (simp only: header_id_def)
  then have "ser h = ser h'" by (rule inj_onD [OF assms(4)]) simp_all
  then have "h = h'" by (rule inj_onD [OF assms(5)]) simp_all
  then have "H (ser_cfg cfg) = H (ser_cfg cfg')"
    using genesis_header_Inr [OF assms(1)] genesis_header_Inr [OF assms(2)] by simp
  then have "ser_cfg cfg = ser_cfg cfg'" by (rule inj_onD [OF assms(4)]) simp_all
  then show ?thesis using genesis_header_Inr [OF assms(1)] by (simp add: chain_new_def)
qed

definition dec32 :: "string \<Rightarrow> string + bytes" where
  "dec32 s = Inr (replicate 32 255)"

theorem genesis_id_binding_witness:
  "\<exists>h. genesis_header (\<lambda>bs. word_of_nat (length bs)) (\<lambda>_. [1]) dec32 genesis_devnet = Inr h
    \<and> (\<exists>s. chain_new (\<lambda>bs. word_of_nat (length bs)) (\<lambda>_. []) h plain_params
      (blake3_pow (\<lambda>bs. word_of_nat (length bs)) (\<lambda>_. [])) = Some s)"
proof -
  obtain h where h: "genesis_header (\<lambda>bs. word_of_nat (length bs)) (\<lambda>_. [1]) dec32 genesis_devnet = Inr h"
    by (simp add: genesis_header_def parse_target_def dec32_def)
  have "inj_on (\<lambda>bs :: bytes. word_of_nat (length bs) :: bytes32) {[], [], [1], [1]}"
    by (simp add: inj_on_def)
  from genesis_id_binding [where ser = "\<lambda>_. []", OF h h refl this] h show ?thesis by (auto simp: inj_on_def)
qed

text \<open>
  Loading the genesis allocations is idempotent: after a successful load every
  allocated address has an account, no account that existed before was touched, the counts
  are the number of accounts created and of allocations skipped, and a second load creates
  nothing and leaves the store unchanged.
\<close>

theorem load_allocations_idempotent:
  assumes "rocks_law rk" and "codec_ok ao" and "adb_view H rk db acc" and "decodes ao acc"
    and "load_allocations H rk ao parse_key mk g db = Inr (load, db')"
  shows "(\<exists>acc'. adb_view H rk db' acc' \<and> acc \<subseteq>\<^sub>m acc'
      \<and> dom acc' = dom acc \<union> allocated parse_key (gc_allocations g)
      \<and> gl_created load = card (dom acc' - dom acc)
      \<and> gl_created load + gl_skipped load = length (gc_allocations g))
    \<and> load_allocations H rk ao parse_key mk g db' =
      Inr (\<lparr>gl_created = 0, gl_skipped = length (gc_allocations g)\<rparr>, db')"
proof -
  from load_loop_view [OF assms(1-4) assms(5) [unfolded load_allocations_def]] obtain acc' c n where
    view: "adb_view H rk db' acc'" and l: "loaded ao parse_key (gc_allocations g) acc acc' c n"
    and load: "load = \<lparr>gl_created = c, gl_skipped = n\<rparr>" by auto
  have "decodes ao acc'" "list_all (funded parse_key acc') (gc_allocations g)"
    using l by (simp_all only: loaded_def)
  from load_loop_skips [OF view this] view l load show ?thesis
    by (auto simp: load_allocations_def loaded_def)
qed

definition demo_key :: "string \<Rightarrow> string + bytes32" where
  "demo_key s = Inr (word_of_nat (length s))"

definition demo_cfg :: genesis_config where
  "demo_cfg = genesis_devnet\<lparr>gc_allocations :=
     [\<lparr>al_address = ''a'', al_lamports = 5\<rparr>, \<lparr>al_address = ''b'', al_lamports = 6\<rparr>]\<rparr>"

theorem load_allocations_idempotent_witness:
  "\<exists>load db. load_allocations (\<lambda>_. 0) mem_rocks byte_accounts demo_key ucast demo_cfg
      (Map.empty, Map.empty) = Inr (load, db)
    \<and> load_allocations (\<lambda>_. 0) mem_rocks byte_accounts demo_key ucast demo_cfg db =
        Inr (\<lparr>gl_created = 0, gl_skipped = 2\<rparr>, db)"
proof -
  have codec: "codec_ok byte_accounts" by (auto simp: codec_ok_def byte_accounts_def)
  have view: "adb_view (\<lambda>_. 0) mem_rocks (Map.empty, Map.empty) Map.empty"
    by (rule empty_db_view [OF mem_rocks_empty])
  have get: "adb_get mem_rocks byte_accounts db k = Inr None \<or>
      (\<exists>a. adb_get mem_rocks byte_accounts db k = Inr (Some a))"
    if "\<forall>k bs. fst db k = Some bs \<longrightarrow> length bs = 1" for db k
    using that by (cases "fst db (bytes_of k)") (auto simp: adb_get_def mem_rocks_def byte_accounts_def)
  have "\<exists>load db. load_allocations (\<lambda>_. 0) mem_rocks byte_accounts demo_key ucast demo_cfg
      (Map.empty, Map.empty) = Inr (load, db)"
    by (simp add: load_allocations_def demo_cfg_def demo_key_def adb_get_def adb_set_def
      mem_rocks_def byte_accounts_def Let_def batch_add_def batch_new_def)
  then obtain load db where
    load: "load_allocations (\<lambda>_. 0) mem_rocks byte_accounts demo_key ucast demo_cfg
      (Map.empty, Map.empty) = Inr (load, db)" by blast
  from load_allocations_idempotent [OF mem_rocks_law codec view _ load] load show ?thesis
    by (auto simp: decodes_def demo_cfg_def)
qed

end
