(* ===== verification/Effects.thy ===== *)
theory Effects
  imports Prelude
begin

text \<open>
  Effects of the code as a monad: a computation takes the state, and returns an error or a value
  together with the state, which survives an error (the code mutates in place before it fails);
  \<open>None\<close> is a panic that unwinds or a loop that does not end.  \<open>rbind\<close> is sequencing with the
  operator \<open>?\<close>, \<open>rfor\<close> a \<open>for\<close> loop; the monotonicity rules make the monad usable in
  \<open>partial_function\<close>.
\<close>

type_synonym ('s, 'e, 'a) eff = "'s \<Rightarrow> (('e + 'a) \<times> 's) option"

definition rret :: "'a \<Rightarrow> ('s, 'e, 'a) eff" where
  "rret x s = Some (Inr x, s)"

definition rfail :: "'e \<Rightarrow> ('s, 'e, 'a) eff" where
  "rfail e s = Some (Inl e, s)"

definition rbind :: "('s, 'e, 'a) eff \<Rightarrow> ('a \<Rightarrow> ('s, 'e, 'b) eff) \<Rightarrow> ('s, 'e, 'b) eff" where
  "rbind m f s =
     (case m s of None \<Rightarrow> None
      | Some (r, s') \<Rightarrow> (case r of Inl e \<Rightarrow> Some (Inl e, s') | Inr x \<Rightarrow> f x s'))"

definition rread :: "('s \<Rightarrow> 'e + 'a) \<Rightarrow> ('s, 'e, 'a) eff" where
  "rread q s = Some (q s, s)"

definition rwrite :: "('s \<Rightarrow> 'e + 's) \<Rightarrow> ('s, 'e, unit) eff" where
  "rwrite u s = (case u s of Inl e \<Rightarrow> Some (Inl e, s) | Inr s' \<Rightarrow> Some (Inr (), s'))"

fun rfor :: "'a list \<Rightarrow> ('a \<Rightarrow> ('s, 'e, unit) eff) \<Rightarrow> ('s, 'e, unit) eff" where
  "rfor [] f = rret ()"
| "rfor (x # xs) f = rbind (f x) (\<lambda>_. rfor xs f)"

lemma rm_simps [simp]:
  "rret x s = Some (Inr x, s)"
  "rfail e s = Some (Inl e, s)"
  "rread q s = Some (q s, s)"
  by (simp_all add: rret_def rfail_def rread_def)

lemma rwrite_Inr: "u s = Inr s' \<Longrightarrow> rwrite u s = Some (Inr (), s')"
  by (simp add: rwrite_def)

lemma rbind_Some:
  "m s = Some (Inr x, s') \<Longrightarrow> rbind m f s = f x s'"
  "m s = Some (Inl e, s') \<Longrightarrow> rbind m f s = Some (Inl e, s')"
  by (simp_all add: rbind_def)

lemma rbind_simps [simp]:
  "rbind (rret x) f s = f x s"
  "rbind (rfail e) f s = Some (Inl e, s)"
  "rbind (rread q) f s = (case q s of Inl e \<Rightarrow> Some (Inl e, s) | Inr x \<Rightarrow> f x s)"
  by (simp_all add: rbind_def)

lemma rbind_assoc: "rbind (rbind m f) g s = rbind m (\<lambda>x. rbind (f x) g) s"
  by (auto simp: rbind_def split: option.split sum.split)

lemma rbind_Inr_E:
  assumes "rbind m f s = Some (Inr y, t)"
  obtains x s' where "m s = Some (Inr x, s')" "f x s' = Some (Inr y, t)"
  using assms by (auto simp: rbind_def split: option.splits sum.splits)

lemma rwrite_Inr_E:
  assumes "rwrite u s = Some (Inr y, t)"
  obtains "u s = Inr t"
  using assms by (auto simp: rwrite_def split: sum.splits)

lemma rbind_mono [partial_function_mono]:
  fixes B :: "('q \<Rightarrow> 'p option) \<Rightarrow> ('s, 'e, 'a) eff" and C :: "'a \<Rightarrow> ('q \<Rightarrow> 'p option) \<Rightarrow> ('s, 'e, 'b) eff"
  assumes m: "\<And>s. mono_option (\<lambda>f. B f s)" and k: "\<And>y s. mono_option (\<lambda>f. C y f s)"
  shows "mono_option (\<lambda>f. rbind (\<lambda>s. B f s) (\<lambda>y s. C y f s) s)"
proof (rule monotoneI)
  fix f g :: "'q \<Rightarrow> 'p option" assume fg: "fun_ord option_ord f g"
  have m': "option_ord (B f s) (B g s)" 
    using monotoneD [of _ _ "\<lambda>f. B f s" f g] m fg by blast
  have k': "option_ord (C y f t) (C y g t)" for y t
    using monotoneD [of _ _ "\<lambda>f. C y f t" f g] k fg by blast
  show "option_ord (rbind (\<lambda>s. B f s) (\<lambda>y s. C y f s) s) (rbind (\<lambda>s. B g s) (\<lambda>y s. C y g s) s)"
  proof (cases "B f s")
    case None
    then show ?thesis by (simp add: rbind_def flat_ord_def)
  next
    case (Some p)
    with m' have "B g s = Some p" by (simp add: flat_ord_def)
    with Some k' show ?thesis
      by (cases p; cases "fst p") (auto simp: rbind_def flat_ord_def)
  qed
qed

lemma if_app_mono [partial_function_mono]:
  assumes "mono_option (\<lambda>f. A f s)" "mono_option (\<lambda>f. B f s)"
  shows "mono_option (\<lambda>f. (if c then A f else B f) s)"
  using assms by (cases c) simp_all

lemma Let_app_mono [partial_function_mono]:
  assumes "\<And>x. mono_option (\<lambda>f. A x f s)"
  shows "mono_option (\<lambda>f. (let x = t in A x f) s)"
  using assms by (simp add: Let_def)

lemma rfor_append: "rfor (xs @ ys) f s = rbind (rfor xs f) (\<lambda>_. rfor ys f) s"
  by (induction xs arbitrary: s) (auto simp: rbind_def split: option.split sum.split)

subsection \<open>Preserved properties\<close>

text \<open>
  \<open>keeps P m\<close>: whatever \<open>m\<close> does, an error included, it leads from a state with \<open>P\<close> to one with
  \<open>P\<close>.  The rules follow the structure of a computation; for a loop, \<open>keeps_at\<close> is the statement
  at one state, which is admissible.
\<close>

definition keeps_at :: "('s \<Rightarrow> bool) \<Rightarrow> ('r \<times> 's) option \<Rightarrow> bool" where
  "keeps_at P r \<longleftrightarrow> (case r of None \<Rightarrow> True | Some (_, t) \<Rightarrow> P t)"

definition keeps :: "('s \<Rightarrow> bool) \<Rightarrow> ('s, 'e, 'a) eff \<Rightarrow> bool" where
  "keeps P m \<longleftrightarrow> (\<forall>s. P s \<longrightarrow> keeps_at P (m s))"

named_theorems keeps_rules \<open>preservation, by the structure of a computation\<close>

lemma keepsI: "(\<And>s. P s \<Longrightarrow> keeps_at P (m s)) \<Longrightarrow> keeps P m"
  by (simp add: keeps_def)

lemma keepsD: "keeps P m \<Longrightarrow> P s \<Longrightarrow> keeps_at P (m s)"
  by (simp add: keeps_def)

lemma keeps_atD: "keeps_at P (Some (r, t)) \<Longrightarrow> P t"
  by (simp add: keeps_at_def)

lemma keeps_run: "keeps P m \<Longrightarrow> P s \<Longrightarrow> m s = Some (r, t) \<Longrightarrow> P t"
  by (auto simp: keeps_def keeps_at_def)

lemma keeps_basic [keeps_rules]:
  "keeps P (rret x)" "keeps P (rfail e)" "keeps P (rread q)"
  by (simp_all add: keeps_def keeps_at_def)

lemma keeps_rbind [keeps_rules]:
  assumes "keeps P m" "\<And>x. keeps P (f x)"
  shows "keeps P (rbind m f)"
proof (rule keepsI)
  fix s assume "P s"
  then have m: "keeps_at P (m s)" using assms(1) by (rule keepsD [rotated])
  show "keeps_at P (rbind m f s)"
  proof (cases "m s")
    case None
    then show ?thesis by (simp add: rbind_def keeps_at_def)
  next
    case (Some p)
    with m have "P (snd p)" by (cases p) (simp add: keeps_at_def)
    with Some assms(2) show ?thesis
      by (cases p; cases "fst p") (auto simp: rbind_def keeps_def keeps_at_def)
  qed
qed

lemma keeps_rwrite [keeps_rules]:
  "(\<And>s t. P s \<Longrightarrow> u s = Inr t \<Longrightarrow> P t) \<Longrightarrow> keeps P (rwrite u)"
  by (auto simp: keeps_def keeps_at_def rwrite_def split: sum.split)

lemma keeps_if [keeps_rules]:
  "(b \<Longrightarrow> keeps P m) \<Longrightarrow> (\<not> b \<Longrightarrow> keeps P m') \<Longrightarrow> keeps P (if b then m else m')"
  by simp

lemma keeps_case [keeps_rules]:
  "(\<And>x. keeps P (f x)) \<Longrightarrow> keeps P g \<Longrightarrow> keeps P (case v of None \<Rightarrow> g | Some x \<Rightarrow> f x)"
  "(\<And>x. keeps P (h x)) \<Longrightarrow> (\<And>y. keeps P (k y)) \<Longrightarrow> keeps P (case w of Inl x \<Rightarrow> h x | Inr y \<Rightarrow> k y)"
  "(\<And>x y. keeps P (l x y)) \<Longrightarrow> keeps P (case p of (x, y) \<Rightarrow> l x y)"
  "keeps P m \<Longrightarrow> (\<And>x xs. keeps P (n x xs)) \<Longrightarrow> keeps P (case zs of [] \<Rightarrow> m | x # xs \<Rightarrow> n x xs)"
  by (simp_all split: option.split sum.split prod.split list.split)

text \<open>The same with the state applied inside the branches.\<close>

lemma keeps_case_option_at [keeps_rules]:
  "(\<And>x. keeps P (f x)) \<Longrightarrow> keeps P g \<Longrightarrow> keeps P (\<lambda>s. case v of None \<Rightarrow> g s | Some x \<Rightarrow> f x s)"
  by (cases v) simp_all

lemma keeps_case_prod_at [keeps_rules]:
  "(\<And>x y. keeps P (l x y)) \<Longrightarrow> keeps P (\<lambda>s. case p of (x, y) \<Rightarrow> l x y s)"
  by (cases p) simp

lemma keeps_case_list_at [keeps_rules]:
  "keeps P m \<Longrightarrow> (\<And>x xs. keeps P (n x xs)) \<Longrightarrow>
   keeps P (\<lambda>s. case zs of [] \<Rightarrow> m s | x # xs \<Rightarrow> n x xs s)"
  by (cases zs) simp_all

lemma keeps_ite [keeps_rules]: "keeps P m \<Longrightarrow> keeps P n \<Longrightarrow> keeps P (\<lambda>s. if v s then m s else n s)"
  by (simp add: keeps_def)

lemma keeps_Let_at [keeps_rules]: "(\<And>x. keeps P (f x)) \<Longrightarrow> keeps P (\<lambda>s. let x = t s in f x s)"
  by (simp add: keeps_def)

lemma keeps_Let [keeps_rules]: "(\<And>x. keeps P (f x)) \<Longrightarrow> keeps P (let x = t in f x)"
  by simp

lemma keeps_rfor [keeps_rules]: "(\<And>x. keeps P (f x)) \<Longrightarrow> keeps P (rfor xs f)"
  by (induction xs) (auto intro: keeps_rules)

lemma keeps_at_rbind:
  assumes "keeps_at P (m s)" and "\<And>x t. P t \<Longrightarrow> keeps_at P (f x t)"
  shows "keeps_at P (rbind m f s)"
proof (cases "m s")
  case (Some p)
  with assms(1) have "P (snd p)" by (cases p) (simp add: keeps_at_def)
  with Some assms(2) show ?thesis
    by (cases p; cases "fst p") (simp_all add: rbind_def keeps_at_def)
qed (simp add: rbind_def keeps_at_def)

end
