(* ===== verification/Bank.thy ===== *)
theory Bank
  imports GenesisLoad Effects
begin

text \<open>
  The execution bank: \<^verbatim>\<open>crates/tao-runtime/src/bank.rs\<close>.

  The bank owns an account store and a transaction processor.  Code outside the repository is a
  parameter: \<open>account_maker\<close> builds accounts (\<open>AccountSharedData\<close>), \<open>sdk_ids\<close> are the constants
  of \<open>solana_sdk_ids\<close>, \<open>svm_ops\<close> is the embedded SVM.  The processor caches compiled programs
  behind a shared reference, so it is a state that every call may change; it reads accounts
  through the callback only.  The operations run in the monad of \<open>Effects\<close> over the bank, since
  the code changes the store before it reports an error; an \<open>expect\<close> or \<open>unwrap\<close> that fails is
  \<open>None\<close>.
\<close>

type_synonym pubkey = bytes32
type_synonym slot = u64

definition LAMPORTS_PER_SIGNATURE :: u64 where "LAMPORTS_PER_SIGNATURE = 5000"

datatype block_relation = Ancestor | EqualSlot | Descendant

definition relationship :: "slot \<Rightarrow> slot \<Rightarrow> block_relation" where
  "relationship a b = (if a < b then Ancestor else if a = b then EqualSlot else Descendant)"

record tx_outcome =
  to_succeeded :: bool
  to_fee :: u64
  to_error :: "string option"

datatype bank_error = BadSignature string | BankStorage string

definition bank_err_text :: "bank_error \<Rightarrow> string" where
  "bank_err_text e = (case e of
     BadSignature s \<Rightarrow> ''signature verification failed: '' @ s
   | BankStorage s \<Rightarrow> ''storage error: '' @ s)"

definition storage :: "tao_error + 'a \<Rightarrow> bank_error + 'a" where
  "storage r = map_err (\<lambda>e. BankStorage (err_text e)) r"

subsection \<open>What is outside the repository\<close>

text \<open>
  \<open>am_from\<close> is \<open>AccountSharedData::from\<close> of the fields lamports, data, owner, executable and rent
  epoch; \<open>am_new\<close> is \<open>AccountSharedData::new\<close> of lamports, space and owner.
\<close>

record 'a account_maker =
  am_from :: "u64 \<Rightarrow> bytes \<Rightarrow> pubkey \<Rightarrow> bool \<Rightarrow> u64 \<Rightarrow> 'a"
  am_new :: "u64 \<Rightarrow> nat \<Rightarrow> pubkey \<Rightarrow> 'a"
  am_set_data :: "bytes \<Rightarrow> 'a \<Rightarrow> 'a"
  am_set_lamports :: "u64 \<Rightarrow> 'a \<Rightarrow> 'a"

record sdk_ids =
  id_clock :: pubkey
  id_rent :: pubkey
  id_epoch_schedule :: pubkey
  id_sysvar :: pubkey
  id_system :: pubkey
  id_native_loader :: pubkey
  id_bpf_loader :: pubkey
  id_bpf_loader_deprecated :: pubkey
  id_bpf_loader_upgradeable :: pubkey

record clock =
  ck_slot :: slot
  ck_epoch_start_timestamp :: i64
  ck_epoch :: u64
  ck_leader_schedule_epoch :: u64
  ck_unix_timestamp :: i64

datatype entrypoint = SystemEntry | BpfLoaderEntry

record svm_environment =
  en_blockhash :: bytes32
  en_lamports_per_signature :: u64
  en_epoch_total_stake :: u64

text \<open>
  A processed transaction, with the fields the bank reads: the total fee, the status (its debug
  text when it is an error), the loaded accounts and the accounts of a rollback.
\<close>

record 'a executed_tx =
  ex_fee :: u64
  ex_status :: "string option"
  ex_accounts :: "(pubkey \<times> 'a) list"
  ex_rollback :: "(pubkey \<times> 'a) list"

record 'a fees_only_tx =
  fo_fee :: u64
  fo_load_error :: string
  fo_rollback :: "(pubkey \<times> 'a) list"

datatype 'a processed = Executed "'a executed_tx" | FeesOnly "'a fees_only_tx"

type_synonym 'a loader = "pubkey \<Rightarrow> ('a \<times> slot) option"

record ('a, 'p, 'tx, 'san, 'chk) svm_ops =
  sv_processor :: "slot \<Rightarrow> u64 \<Rightarrow> 'p option"
  sv_fill_sysvars :: "'a loader \<Rightarrow> 'p \<Rightarrow> 'p"
  sv_add_builtin :: "pubkey \<Rightarrow> u64 \<Rightarrow> nat \<Rightarrow> entrypoint \<Rightarrow> 'p \<Rightarrow> 'p"
  sv_clock_bytes :: "clock \<Rightarrow> bytes"
  sv_rent_bytes :: bytes
  sv_epoch_schedule_bytes :: bytes
  sv_rent_minimum :: "nat \<Rightarrow> u64"
  sv_verify :: "'tx \<Rightarrow> string option"
  sv_sanitize :: "'tx \<Rightarrow> 'san option"
  sv_signatures :: "'san \<Rightarrow> nat"
  sv_is_writable :: "'san \<Rightarrow> nat \<Rightarrow> bool"
  sv_check_details :: "u64 \<Rightarrow> 'chk"
  sv_execute :: "'a loader \<Rightarrow> 'san \<Rightarrow> 'chk \<Rightarrow> u64 \<Rightarrow> svm_environment \<Rightarrow> 'p \<Rightarrow> (string + 'a processed) list \<times> 'p"

record ('db, 'a, 'p, 'tx, 'san, 'chk) bank_env =
  be_hash :: hasher
  be_rocks :: "'db rocks_ops"
  be_ao :: "'a account_ops"
  be_am :: "'a account_maker"
  be_ids :: sdk_ids
  be_svm :: "('a, 'p, 'tx, 'san, 'chk) svm_ops"

subsection \<open>The bank\<close>

record ('db, 'p) bank =
  bk_db :: 'db
  bk_processor :: 'p
  bk_slot :: slot
  bk_epoch :: u64

type_synonym ('db, 'p, 'x) bm = "(('db, 'p) bank, bank_error, 'x) eff"

text \<open>An update of the store; the last one ignores its error, as the code does with \<open>let _ =\<close>.\<close>

definition db_write :: "('db \<Rightarrow> tao_error + 'db) \<Rightarrow> ('db, 'p, unit) bm" where
  "db_write u = rwrite (\<lambda>b. and_then (storage (u (bk_db b))) (\<lambda>db. Inr (b\<lparr>bk_db := db\<rparr>)))"

definition db_write_ignore :: "('db \<Rightarrow> tao_error + 'db) \<Rightarrow> ('db, 'p) bank \<Rightarrow> ('db, 'p) bank" where
  "db_write_ignore u b = (case u (bk_db b) of Inl _ \<Rightarrow> b | Inr db \<Rightarrow> b\<lparr>bk_db := db\<rparr>)"

definition get_account_shared_data :: "('db, 'a, 'p, 'tx, 'san, 'chk) bank_env \<Rightarrow> 'db \<Rightarrow> 'a loader" where
  "get_account_shared_data ev db k =
     (case adb_get (be_rocks ev) (be_ao ev) db k of Inr (Some a) \<Rightarrow> Some (a, 0) | _ \<Rightarrow> None)"

definition put_sysvar ::
    "('db, 'a, 'p, 'tx, 'san, 'chk) bank_env \<Rightarrow> pubkey \<Rightarrow> bytes \<Rightarrow> ('db, 'p) bank \<Rightarrow> ('db, 'p) bank" where
  "put_sysvar ev i data = db_write_ignore (\<lambda>db.
     adb_set (be_hash ev) (be_rocks ev) (be_ao ev) db i
       (am_set_data (be_am ev) data (am_new (be_am ev) 1 (length data) (id_sysvar (be_ids ev)))))"

definition install_sysvars ::
    "('db, 'a, 'p, 'tx, 'san, 'chk) bank_env \<Rightarrow> ('db, 'p) bank \<Rightarrow> ('db, 'p) bank" where
  "install_sysvars ev b =
     (let ck = \<lparr>ck_slot = bk_slot b, ck_epoch_start_timestamp = 0, ck_epoch = bk_epoch b,
                ck_leader_schedule_epoch = bk_epoch b, ck_unix_timestamp = 0\<rparr>;
          b = put_sysvar ev (id_clock (be_ids ev)) (sv_clock_bytes (be_svm ev) ck) b;
          b = put_sysvar ev (id_rent (be_ids ev)) (sv_rent_bytes (be_svm ev)) b;
          b = put_sysvar ev (id_epoch_schedule (be_ids ev)) (sv_epoch_schedule_bytes (be_svm ev)) b
      in b\<lparr>bk_processor :=
            sv_fill_sysvars (be_svm ev) (get_account_shared_data ev (bk_db b)) (bk_processor b)\<rparr>)"

definition ascii_bytes :: "string \<Rightarrow> bytes" where
  "ascii_bytes s = map of_char s"

definition register_builtin ::
    "('db, 'a, 'p, 'tx, 'san, 'chk) bank_env \<Rightarrow> entrypoint \<Rightarrow> pubkey \<Rightarrow> string \<Rightarrow> ('db, 'p) bank \<Rightarrow> ('db, 'p) bank"
where
  "register_builtin ev entry i name b =
     (let b = db_write_ignore (\<lambda>db. adb_set (be_hash ev) (be_rocks ev) (be_ao ev) db i
                (am_from (be_am ev) 1 (ascii_bytes name) (id_native_loader (be_ids ev)) True 0)) b
      in b\<lparr>bk_processor := sv_add_builtin (be_svm ev) i 0 (length name) entry (bk_processor b)\<rparr>)"

definition register_system_builtin ::
    "('db, 'a, 'p, 'tx, 'san, 'chk) bank_env \<Rightarrow> ('db, 'p) bank \<Rightarrow> ('db, 'p) bank" where
  "register_system_builtin ev =
     register_builtin ev SystemEntry (id_system (be_ids ev)) ''system_program''"

definition loaders :: "sdk_ids \<Rightarrow> (pubkey \<times> string) list" where
  "loaders ids =
     [(id_bpf_loader ids, ''solana_bpf_loader_program''),
      (id_bpf_loader_deprecated ids, ''solana_bpf_loader_deprecated_program''),
      (id_bpf_loader_upgradeable ids, ''solana_bpf_loader_upgradeable_program'')]"

definition register_loader_builtins ::
    "('db, 'a, 'p, 'tx, 'san, 'chk) bank_env \<Rightarrow> ('db, 'p) bank \<Rightarrow> ('db, 'p) bank" where
  "register_loader_builtins ev b =
     foldl (\<lambda>b (i, name). register_builtin ev BpfLoaderEntry i name b) b (loaders (be_ids ev))"

definition bank_new ::
    "('db, 'a, 'p, 'tx, 'san, 'chk) bank_env \<Rightarrow> 'db \<Rightarrow> slot \<Rightarrow> ('db, 'p) bank option" where
  "bank_new ev db slot =
     map_option (\<lambda>p. register_loader_builtins ev (register_system_builtin ev (install_sysvars ev
         \<lparr>bk_db = db, bk_processor = p, bk_slot = slot, bk_epoch = 0\<rparr>)))
       (sv_processor (be_svm ev) slot 0)"

definition rent_exempt_minimum :: "('db, 'a, 'p, 'tx, 'san, 'chk) bank_env \<Rightarrow> nat \<Rightarrow> u64" where
  "rent_exempt_minimum ev space = sv_rent_minimum (be_svm ev) space"

definition deploy_program ::
    "('db, 'a, 'p, 'tx, 'san, 'chk) bank_env \<Rightarrow> pubkey \<Rightarrow> bytes \<Rightarrow> ('db, 'p, unit) bm" where
  "deploy_program ev program_id elf =
     (let lamports = max (rent_exempt_minimum ev (length elf)) 1 in
      db_write (\<lambda>db. adb_set (be_hash ev) (be_rocks ev) (be_ao ev) db program_id
        (am_from (be_am ev) lamports elf (id_bpf_loader (be_ids ev)) True 0)))"

definition bank_state_root :: "('db, 'a, 'p, 'tx, 'san, 'chk) bank_env \<Rightarrow> ('db, 'p) bank \<Rightarrow> bytes32" where
  "bank_state_root ev b = state_root (be_hash ev) (be_rocks ev) (bk_db b)"

subsection \<open>Executing a transaction\<close>

definition build_check_result :: "('db, 'a, 'p, 'tx, 'san, 'chk) bank_env \<Rightarrow> 'san \<Rightarrow> 'chk" where
  "build_check_result ev san =
     (let sig_count = word_of_nat (sv_signatures (be_svm ev) san) in
      sv_check_details (be_svm ev) (saturating_mul sig_count LAMPORTS_PER_SIGNATURE))"

definition commit_accounts_to ::
    "('db, 'a, 'p, 'tx, 'san, 'chk) bank_env \<Rightarrow> (pubkey \<times> 'a) list \<Rightarrow> ('db, 'p, unit) bm" where
  "commit_accounts_to ev changes =
     db_write (\<lambda>db. adb_commit (be_hash ev) (be_rocks ev) (be_ao ev) db changes)"

definition commit_rollback ::
    "('db, 'a, 'p, 'tx, 'san, 'chk) bank_env \<Rightarrow> (pubkey \<times> 'a) list \<Rightarrow> ('db, 'p, unit) bm" where
  "commit_rollback ev changes = (if changes = [] then rret () else commit_accounts_to ev changes)"

definition writable_accounts :: "(nat \<Rightarrow> bool) \<Rightarrow> 'x list \<Rightarrow> 'x list" where
  "writable_accounts w xs = map snd (filter (\<lambda>(i, _). w i) (zip [0..<length xs] xs))"

definition apply_result ::
    "('db, 'a, 'p, 'tx, 'san, 'chk) bank_env \<Rightarrow> 'san \<Rightarrow> string + 'a processed \<Rightarrow> ('db, 'p, tx_outcome) bm"
where
  "apply_result ev san r =
     (case r of
        Inr (Executed ex) \<Rightarrow>
          (case ex_status ex of
             None \<Rightarrow>
               rbind (commit_accounts_to ev (writable_accounts (sv_is_writable (be_svm ev) san) (ex_accounts ex)))
                 (\<lambda>_. rret \<lparr>to_succeeded = True, to_fee = ex_fee ex, to_error = None\<rparr>)
           | Some e \<Rightarrow>
               rbind (commit_rollback ev (ex_rollback ex))
                 (\<lambda>_. rret \<lparr>to_succeeded = False, to_fee = ex_fee ex, to_error = Some e\<rparr>))
      | Inr (FeesOnly fo) \<Rightarrow>
          rbind (commit_rollback ev (fo_rollback fo))
            (\<lambda>_. rret \<lparr>to_succeeded = False, to_fee = fo_fee fo, to_error = Some (fo_load_error fo)\<rparr>)
      | Inl e \<Rightarrow> rret \<lparr>to_succeeded = False, to_fee = 0, to_error = Some e\<rparr>)"

definition execute_transaction ::
    "('db, 'a, 'p, 'tx, 'san, 'chk) bank_env \<Rightarrow> 'tx \<Rightarrow> bytes32 \<Rightarrow> ('db, 'p, tx_outcome) bm" where
  "execute_transaction ev tx blockhash b =
     (case sv_verify (be_svm ev) tx of
        Some e \<Rightarrow> rfail (BadSignature e) b
      | None \<Rightarrow>
          (case sv_sanitize (be_svm ev) tx of
             None \<Rightarrow> None
           | Some san \<Rightarrow>
               (let env = \<lparr>en_blockhash = blockhash, en_lamports_per_signature = LAMPORTS_PER_SIGNATURE,
                           en_epoch_total_stake = 0\<rparr>;
                    (results, p) = sv_execute (be_svm ev) (get_account_shared_data ev (bk_db b)) san
                      (build_check_result ev san) (bk_epoch b) env (bk_processor b)
                in case results of [] \<Rightarrow> None
                   | r # _ \<Rightarrow> apply_result ev san r (b\<lparr>bk_processor := p\<rparr>))))"

subsection \<open>Blocks\<close>

definition balance :: "('db, 'a, 'p, 'tx, 'san, 'chk) bank_env \<Rightarrow> ('db, 'p) bank \<Rightarrow> pubkey \<Rightarrow> u64" where
  "balance ev b k =
     (case adb_get (be_rocks ev) (be_ao ev) (bk_db b) k of
        Inr (Some a) \<Rightarrow> ao_lamports (be_ao ev) a | _ \<Rightarrow> 0)"

definition credit ::
    "('db, 'a, 'p, 'tx, 'san, 'chk) bank_env \<Rightarrow> pubkey \<Rightarrow> u64 \<Rightarrow> ('db, 'p, unit) bm" where
  "credit ev k lamports =
     (if lamports = 0 then rret ()
      else
        rbind (rread (\<lambda>b. storage (adb_get (be_rocks ev) (be_ao ev) (bk_db b) k))) (\<lambda>found.
        let account = (case found of Some a \<Rightarrow> a | None \<Rightarrow> am_new (be_am ev) 0 0 (id_system (be_ids ev)));
            account = am_set_lamports (be_am ev)
              (saturating_add (ao_lamports (be_ao ev) account) lamports) account
        in db_write (\<lambda>db. adb_set (be_hash ev) (be_rocks ev) (be_ao ev) db k account)))"

definition airdrop ::
    "('db, 'a, 'p, 'tx, 'san, 'chk) bank_env \<Rightarrow> pubkey \<Rightarrow> u64 \<Rightarrow> ('db, 'p, unit) bm" where
  "airdrop ev k lamports = credit ev k lamports"

record block_execution =
  bx_state_root :: bytes32
  bx_fees :: u64
  bx_reward :: u64
  bx_outcomes :: "tx_outcome list"

definition bx_executed :: "block_execution \<Rightarrow> nat" where
  "bx_executed x = length (filter to_succeeded (bx_outcomes x))"

definition bx_failed :: "block_execution \<Rightarrow> nat" where
  "bx_failed x = length (filter (\<lambda>t. \<not> to_succeeded t) (bx_outcomes x))"

text \<open>The loop over the transactions: a rejected one becomes a failed outcome.\<close>

fun execute_loop ::
    "('db, 'a, 'p, 'tx, 'san, 'chk) bank_env \<Rightarrow> bytes32 \<Rightarrow> 'tx list \<Rightarrow> u64 \<Rightarrow> tx_outcome list \<Rightarrow>
     ('db, 'p, u64 \<times> tx_outcome list) bm" where
  "execute_loop ev blockhash [] fees outcomes b = rret (fees, outcomes) b"
| "execute_loop ev blockhash (tx # txs) fees outcomes b =
     (case execute_transaction ev tx blockhash b of
        None \<Rightarrow> None
      | Some (Inr t, b') \<Rightarrow>
          execute_loop ev blockhash txs (saturating_add fees (to_fee t)) (outcomes @ [t]) b'
      | Some (Inl e, b') \<Rightarrow>
          execute_loop ev blockhash txs fees
            (outcomes @ [\<lparr>to_succeeded = False, to_fee = 0, to_error = Some (bank_err_text e)\<rparr>]) b')"

definition execute_block ::
    "('db, 'a, 'p, 'tx, 'san, 'chk) bank_env \<Rightarrow> 'tx list \<Rightarrow> bytes32 \<Rightarrow> pubkey \<Rightarrow> u64 \<Rightarrow>
     ('db, 'p, block_execution) bm" where
  "execute_block ev transactions blockhash miner block_reward =
     rbind (execute_loop ev blockhash transactions 0 []) (\<lambda>(fees, outcomes).
     rbind (credit ev miner (saturating_add block_reward fees)) (\<lambda>_ b.
     rret \<lparr>bx_state_root = bank_state_root ev b, bx_fees = fees, bx_reward = block_reward,
           bx_outcomes = outcomes\<rparr> b))"

end
