(* ===== verification/Interval.thy ===== *)
theory Interval
  imports Prelude
begin

text \<open>
  \<open>tao-reachability/src/interval.rs\<close>: intervals of \<open>u64\<close> labels and the three ways of splitting
  one.  Arithmetic wraps, as in a release build.  \<open>split_half\<close> goes through \<open>f32\<close>: \<open>f32_of_nat\<close>
  is the conversion \<open>as f32\<close> (24 significant bits, ties to even), and halving and \<open>ceil\<close> are exact
  on its values.  \<open>exponential_fractions\<close> goes through \<open>f64::powf\<close>, whose precision Rust leaves
  open: its operations are the parameter \<open>f64_ops\<close>, and nothing is assumed of them.

  The lemmas show that \<open>split_exact\<close>, \<open>split_exponential\<close> and \<open>split_half\<close> cut a legal interval
  into adjacent legal parts that cover it, whatever the floating-point fractions are.
\<close>

record interval =
  iv_start :: u64
  iv_end :: u64

definition iv_new :: "u64 \<Rightarrow> u64 \<Rightarrow> interval" where
  "iv_new a b = \<lparr>iv_start = a, iv_end = b\<rparr>"

definition iv_empty :: interval where
  "iv_empty = iv_new 1 0"

definition iv_maximal :: interval where
  "iv_maximal = iv_new 1 (- 1 - 1)"

definition iv_size :: "interval \<Rightarrow> u64" where
  "iv_size i = (iv_end i + 1) - iv_start i"

definition iv_is_empty :: "interval \<Rightarrow> bool" where
  "iv_is_empty i \<longleftrightarrow> iv_size i = 0"

definition increase :: "interval \<Rightarrow> u64 \<Rightarrow> interval" where
  "increase i d = iv_new (iv_start i + d) (iv_end i + d)"

definition decrease :: "interval \<Rightarrow> u64 \<Rightarrow> interval" where
  "decrease i d = iv_new (iv_start i - d) (iv_end i - d)"

definition increase_start :: "interval \<Rightarrow> u64 \<Rightarrow> interval" where
  "increase_start i d = iv_new (iv_start i + d) (iv_end i)"

definition decrease_start :: "interval \<Rightarrow> u64 \<Rightarrow> interval" where
  "decrease_start i d = iv_new (iv_start i - d) (iv_end i)"

definition increase_end :: "interval \<Rightarrow> u64 \<Rightarrow> interval" where
  "increase_end i d = iv_new (iv_start i) (iv_end i + d)"

definition decrease_end :: "interval \<Rightarrow> u64 \<Rightarrow> interval" where
  "decrease_end i d = iv_new (iv_start i) (iv_end i - d)"

definition iv_contains :: "interval \<Rightarrow> interval \<Rightarrow> bool" where
  "iv_contains i j \<longleftrightarrow> iv_start i \<le> iv_start j \<and> iv_end j \<le> iv_end i"

definition iv_strictly_contains :: "interval \<Rightarrow> interval \<Rightarrow> bool" where
  "iv_strictly_contains i j \<longleftrightarrow> iv_start i \<le> iv_start j \<and> iv_end j < iv_end i"

subsection \<open>Splitting in half\<close>

fun bit_len :: "nat \<Rightarrow> nat" where
  "bit_len n = (if n = 0 then 0 else Suc (bit_len (n div 2)))"

declare bit_len.simps [simp del]

text \<open>\<open>n as f32\<close>: the nearest number with 24 significant bits, ties to the even one.\<close>

definition f32_of_nat :: "nat \<Rightarrow> nat" where
  "f32_of_nat n =
     (let e = bit_len n - 24; q = n div 2 ^ e; r = n mod 2 ^ e in
      (if 2 ^ e < 2 * r \<or> 2 * r = 2 ^ e \<and> odd q then q + 1 else q) * 2 ^ e)"

text \<open>\<open>f32::ceil(size as f32 * 0.5) as u64\<close>.\<close>

definition half_up :: "u64 \<Rightarrow> u64" where
  "half_up s = word_of_nat ((f32_of_nat (unat s) + 1) div 2)"

definition split_half :: "interval \<Rightarrow> interval \<times> interval" where
  "split_half i =
     (let left_size = half_up (iv_size i) in
      (iv_new (iv_start i) (iv_start i + left_size - 1), iv_new (iv_start i + left_size) (iv_end i)))"

subsection \<open>Splitting by sizes\<close>

fun split_parts :: "u64 \<Rightarrow> u64 list \<Rightarrow> interval list" where
  "split_parts start [] = []"
| "split_parts start (n # ns) = iv_new start (start + n - 1) # split_parts (start + n) ns"

text \<open>The assertion on the sum panics: \<open>None\<close>.\<close>

definition split_exact :: "interval \<Rightarrow> u64 list \<Rightarrow> interval list option" where
  "split_exact i sizes =
     (if sum_list sizes = iv_size i then Some (split_parts (iv_start i) sizes) else None)"

text \<open>
  The floating-point operations of \<open>exponential_fractions\<close> and \<open>split_exponential\<close>:
  \<open>2f64.powf(x as f64)\<close>, \<open>1f64 / x\<close>, the sum of a vector, division, and
  \<open>f64::round(total as f64 * fraction) as u64\<close>.
\<close>

record 'f f64_ops =
  f64_pow2 :: "u64 \<Rightarrow> 'f"
  f64_recip :: "'f \<Rightarrow> 'f"
  f64_sum :: "'f list \<Rightarrow> 'f"
  f64_div :: "'f \<Rightarrow> 'f \<Rightarrow> 'f"
  f64_bias :: "u64 \<Rightarrow> 'f \<Rightarrow> u64"

definition exponential_fractions :: "'f f64_ops \<Rightarrow> u64 list \<Rightarrow> 'f list" where
  "exponential_fractions fo sizes =
     (let max_size = fold max sizes 0;
          fractions = map (\<lambda>s. f64_recip fo (f64_pow2 fo (max_size - s))) sizes;
          fractions_sum = f64_sum fo fractions in
      map (\<lambda>x. f64_div fo x fractions_sum) fractions)"

text \<open>The loop over the fractions; the last part takes all that remains.\<close>

fun biased_sizes :: "'f f64_ops \<Rightarrow> u64 \<Rightarrow> u64 \<Rightarrow> u64 list \<Rightarrow> 'f list \<Rightarrow> u64 list" where
  "biased_sizes fo total_bias remaining (s # sizes) (x # fractions) =
     (let bias = (if fractions = [] then remaining else min remaining (f64_bias fo total_bias x)) in
      (s + bias) # biased_sizes fo total_bias (remaining - bias) sizes fractions)"
| "biased_sizes fo total_bias remaining _ _ = []"

definition split_exponential :: "'f f64_ops \<Rightarrow> interval \<Rightarrow> u64 list \<Rightarrow> interval list option" where
  "split_exponential fo i sizes =
     (let interval_size = iv_size i; sizes_sum = sum_list sizes in
      if interval_size < sizes_sum then None
      else if sizes_sum = 0 then None
      else if interval_size = sizes_sum then split_exact i sizes
      else split_exact i
        (biased_sizes fo (interval_size - sizes_sum) (interval_size - sizes_sum) sizes
          (exponential_fractions fo sizes)))"

subsection \<open>Legal intervals\<close>

text \<open>
  A legal interval reads as the half-open range from \<open>lo\<close> to \<open>hi\<close>; an empty one has
  \<open>end = start - 1\<close>.
\<close>

definition lo :: "interval \<Rightarrow> nat" where
  "lo i = unat (iv_start i)"

definition hi :: "interval \<Rightarrow> nat" where
  "hi i = unat (iv_end i) + 1"

definition legal :: "interval \<Rightarrow> bool" where
  "legal i \<longleftrightarrow> 0 < lo i \<and> lo i \<le> hi i \<and> hi i < 2 ^ 64"

lemma iv_new_sel [simp]: "iv_start (iv_new a b) = a" "iv_end (iv_new a b) = b"
  by (simp_all add: iv_new_def)

lemma unat_less_u64: "unat (x :: u64) < 2 ^ 64"
  using unsigned_less [of x, where 'a = nat] by simp

lemma unat_word_of_nat_u64 [simp]: "n < 2 ^ 64 \<Longrightarrow> unat (word_of_nat n :: u64) = n"
  by (simp add: unat_of_nat)

lemma unat_add_u64: "unat a + unat b < 2 ^ 64 \<Longrightarrow> unat (a + b) = unat a + unat b" for a b :: u64
  using unat_add_no_wrap [of a b] by simp

lemma unat_sub_u64: "unat b \<le> unat a \<Longrightarrow> unat (a - b) = unat a - unat b" for a b :: u64
  by (simp add: unat_sub word_le_nat_alt)

lemma unat_pred_u64: "0 < unat a \<Longrightarrow> unat (a - 1) = unat a - 1" for a :: u64
  by (simp add: unat_sub_u64)

lemma unat_end_Suc: "legal i \<Longrightarrow> unat (iv_end i + 1) = hi i"
  using unat_add_u64 [of "iv_end i" 1] by (simp add: legal_def hi_def)

lemma unat_iv_size: "legal i \<Longrightarrow> unat (iv_size i) = hi i - lo i"
  using unat_end_Suc [of i] unat_sub_u64 [of "iv_start i" "iv_end i + 1"]
  by (simp add: iv_size_def legal_def lo_def)

lemma iv_is_empty_iff: "legal i \<Longrightarrow> iv_is_empty i \<longleftrightarrow> hi i = lo i"
  using unat_iv_size [of i] by (auto simp: iv_is_empty_def legal_def unat_eq_zero)

lemma iv_contains_iff: "iv_contains i j \<longleftrightarrow> lo i \<le> lo j \<and> hi j \<le> hi i"
  by (simp add: iv_contains_def lo_def hi_def word_le_nat_alt)

lemma iv_strictly_contains_iff: "iv_strictly_contains i j \<longleftrightarrow> lo i \<le> lo j \<and> hi j < hi i"
  by (simp add: iv_strictly_contains_def lo_def hi_def word_le_nat_alt word_less_nat_alt)

lemma legal_maximal: "legal iv_maximal" "lo iv_maximal = 1" "hi iv_maximal = 2 ^ 64 - 1"
proof -
  have "unat (- 1 - 1 :: u64) = 2 ^ 64 - 2" by simp
  then show "legal iv_maximal" "lo iv_maximal = 1" "hi iv_maximal = 2 ^ 64 - 1"
    by (simp_all add: iv_maximal_def legal_def lo_def hi_def)
qed

text \<open>Adjacent parts from \<open>a\<close> to \<open>b\<close>.\<close>

fun tiling :: "nat \<Rightarrow> interval list \<Rightarrow> nat \<Rightarrow> bool" where
  "tiling a [] b \<longleftrightarrow> a = b"
| "tiling a (i # ivs) b \<longleftrightarrow> legal i \<and> lo i = a \<and> tiling (hi i) ivs b"

lemma tiling_le: "tiling a ivs b \<Longrightarrow> a \<le> b"
  by (induction a ivs b rule: tiling.induct) (auto simp: legal_def)

lemma tiling_in: "tiling a ivs b \<Longrightarrow> i \<in> set ivs \<Longrightarrow> legal i \<and> a \<le> lo i \<and> hi i \<le> b"
proof (induction a ivs b rule: tiling.induct)
  case (2 a j ivs b)
  then show ?case using tiling_le [of "hi j" ivs b] by (auto simp: legal_def)
qed simp

lemma tiling_append: "tiling a (xs @ ys) c \<longleftrightarrow> (\<exists>b. tiling a xs b \<and> tiling b ys c)"
  by (induction xs arbitrary: a) auto

lemma part_legal:
  fixes start n :: u64
  assumes "0 < unat start" "unat start + unat n < 2 ^ 64"
  shows "legal (iv_new start (start + n - 1))" "lo (iv_new start (start + n - 1)) = unat start"
    "hi (iv_new start (start + n - 1)) = unat start + unat n"
proof -
  have "unat (start + n) = unat start + unat n" using assms by (intro unat_add_u64)
  then have "unat (start + n - 1) = unat start + unat n - 1"
    using assms(1) by (subst unat_pred_u64) simp_all
  then show "hi (iv_new start (start + n - 1)) = unat start + unat n"
    "lo (iv_new start (start + n - 1)) = unat start"
    "legal (iv_new start (start + n - 1))"
    using assms by (simp_all add: lo_def hi_def legal_def)
qed

definition sizes_sum :: "u64 list \<Rightarrow> nat" where
  "sizes_sum ns = sum_list (map unat ns)"

lemma sizes_sum_simps [simp]: "sizes_sum [] = 0" "sizes_sum (n # ns) = unat n + sizes_sum ns"
  by (simp_all add: sizes_sum_def)

lemma sizes_sum_append [simp]: "sizes_sum (ms @ ns) = sizes_sum ms + sizes_sum ns"
  by (simp add: sizes_sum_def)

lemma unat_sum_list: "sizes_sum ns < 2 ^ 64 \<Longrightarrow> unat (sum_list ns) = sizes_sum ns"
proof (induction ns)
  case (Cons n ns)
  then show ?case using unat_add_u64 [of n "sum_list ns"] by simp
qed simp

lemma length_split_parts [simp]: "length (split_parts start ns) = length ns"
  by (induction start ns rule: split_parts.induct) simp_all

lemma split_parts_tiling:
  assumes "0 < unat start" "unat start + sizes_sum ns < 2 ^ 64"
  shows "tiling (unat start) (split_parts start ns) (unat start + sizes_sum ns)
    \<and> map (\<lambda>i. hi i - lo i) (split_parts start ns) = map unat ns"
  using assms
proof (induction start ns rule: split_parts.induct)
  case (2 start n ns)
  then have small: "unat start + unat n < 2 ^ 64" by simp
  note part = part_legal [OF "2.prems"(1) small]
  have "unat (start + n) = unat start + unat n" by (rule unat_add_u64 [OF small])
  then show ?case using 2 part by (simp add: add.assoc)
qed simp

definition splits :: "interval \<Rightarrow> interval list \<Rightarrow> bool" where
  "splits i ivs \<longleftrightarrow> tiling (lo i) ivs (hi i)"

lemma map_eq_nth: "map f xs = map g ys \<Longrightarrow> i < length ys \<Longrightarrow> f (xs ! i) = g (ys ! i)"
  by (metis length_map nth_map)

lemma split_exact_splits:
  assumes "legal i" "sizes_sum ns = hi i - lo i"
  obtains ivs where "split_exact i ns = Some ivs" "splits i ivs" "length ivs = length ns"
    "map (\<lambda>j. hi j - lo j) ivs = map unat ns"
proof -
  have le: "lo i \<le> hi i" "0 < lo i" "hi i < 2 ^ 64" using assms(1) by (simp_all add: legal_def)
  then have "unat (sum_list ns) = unat (iv_size i)"
    using assms by (simp add: unat_sum_list unat_iv_size)
  then have "sum_list ns = iv_size i" by (simp only: word_unat_eq_iff)
  moreover have "tiling (lo i) (split_parts (iv_start i) ns) (hi i)
      \<and> map (\<lambda>j. hi j - lo j) (split_parts (iv_start i) ns) = map unat ns"
    using split_parts_tiling [of "iv_start i" ns] assms(2) le by (simp add: lo_def)
  ultimately show thesis
    using that [of "split_parts (iv_start i) ns"] by (simp add: split_exact_def splits_def)
qed

lemma length_exponential_fractions [simp]: "length (exponential_fractions fo ns) = length ns"
  by (simp add: exponential_fractions_def Let_def)

lemma biased_sizes_spec:
  assumes "length xs = length ns" "ns \<noteq> []" "sizes_sum ns + unat r < 2 ^ 64"
  shows "sizes_sum (biased_sizes fo t r ns xs) = sizes_sum ns + unat r
    \<and> list_all2 (\<lambda>n m. unat n \<le> unat m) ns (biased_sizes fo t r ns xs)"
  using assms
proof (induction fo t r ns xs rule: biased_sizes.induct)
  case (1 fo t r n ns x xs)
  define b where "b = (if xs = [] then r else min r (f64_bias fo t x))"
  have "b \<le> r" by (simp add: b_def)
  then have br: "unat b \<le> unat r" by (simp add: word_le_nat_alt)
  have nb: "unat (n + b) = unat n + unat b"
    using 1(4) br by (intro unat_add_u64) simp
  have rb: "unat (r - b) = unat r - unat b" by (rule unat_sub_u64 [OF br])
  show ?case
  proof (cases "xs = []")
    case True
    then have "ns = []" using 1(2) by simp
    with True nb show ?thesis by (simp add: b_def)
  next
    case False
    then have ns: "length xs = length ns" "ns \<noteq> []" using 1(2) by auto
    have "sizes_sum ns + unat (r - b) < 2 ^ 64" using 1(4) rb by simp
    from 1(1) [OF b_def ns this] show ?thesis
      using nb rb br by (simp add: Let_def b_def [symmetric])
  qed
qed simp_all

lemma split_exponential_splits:
  assumes "legal i" "0 < sizes_sum ns" "sizes_sum ns \<le> hi i - lo i"
  obtains ivs where "split_exponential fo i ns = Some ivs" "splits i ivs" "length ivs = length ns"
    "list_all2 (\<lambda>n j. unat n \<le> hi j - lo j) ns ivs"
proof -
  have le: "lo i \<le> hi i" "0 < lo i" "hi i < 2 ^ 64" using assms(1) by (simp_all add: legal_def)
  have sum: "unat (sum_list ns) = sizes_sum ns" using assms(3) le by (simp add: unat_sum_list)
  have size: "unat (iv_size i) = hi i - lo i" using assms(1) by (rule unat_iv_size)
  have guards: "\<not> iv_size i < sum_list ns" "sum_list ns \<noteq> 0"
    using sum size assms(2,3) by (auto simp: word_less_nat_alt)
  show thesis
  proof (cases "iv_size i = sum_list ns")
    case True
    then have "sizes_sum ns = hi i - lo i" using sum size by simp
    from split_exact_splits [OF assms(1) this] obtain ivs where
      ivs: "split_exact i ns = Some ivs" "splits i ivs" "length ivs = length ns"
      and m: "map (\<lambda>j. hi j - lo j) ivs = map unat ns" .
    have "list_all2 (\<lambda>n j. unat n \<le> hi j - lo j) ns ivs"
      using ivs(3) map_eq_nth [OF m]
      by (auto simp: list_all2_conv_all_nth)
    with that [of ivs] ivs guards True show thesis by (simp add: split_exponential_def Let_def)
  next
    case False
    define r where "r = iv_size i - sum_list ns"
    have r: "unat r = (hi i - lo i) - sizes_sum ns"
      using unat_sub_u64 [of "sum_list ns" "iv_size i"] sum size assms(3) by (simp add: r_def)
    define bs where "bs = biased_sizes fo r r ns (exponential_fractions fo ns)"
    have "ns \<noteq> []" using assms(2) by auto
    moreover have "sizes_sum ns + unat r = hi i - lo i" using r assms(3) by simp
    moreover have "hi i - lo i < 2 ^ 64" using le by linarith
    ultimately have bs: "sizes_sum bs = hi i - lo i" "list_all2 (\<lambda>n m. unat n \<le> unat m) ns bs"
      using biased_sizes_spec [of "exponential_fractions fo ns" ns r fo r] unfolding bs_def by simp_all
    from split_exact_splits [OF assms(1) bs(1)] obtain ivs where
      ivs: "split_exact i bs = Some ivs" "splits i ivs" "length ivs = length bs"
      and m: "map (\<lambda>j. hi j - lo j) ivs = map unat bs" .
    have "list_all2 (\<lambda>n j. unat n \<le> hi j - lo j) ns ivs"
      using ivs(3) bs(2) map_eq_nth [OF m]
      by (auto simp: list_all2_conv_all_nth)
    moreover have "length ivs = length ns" using ivs(3) bs(2) by (simp add: list_all2_lengthD)
    moreover have "split_exponential fo i ns = Some ivs"
      using ivs(1) guards False by (simp add: split_exponential_def Let_def bs_def r_def)
    ultimately show thesis using that ivs(2) by blast
  qed
qed

lemma bit_len_upper: "n < 2 ^ bit_len n"
proof (induction n rule: bit_len.induct)
  case (1 n)
  then show ?case by (cases "n = 0") (auto simp: bit_len.simps [of n])
qed

lemma bit_len_lower: "0 < n \<Longrightarrow> 2 ^ (bit_len n - 1) \<le> n"
proof (induction n rule: bit_len.induct)
  case (1 n)
  show ?case
  proof (cases "n = 1")
    case True
    then show ?thesis by (simp add: bit_len.simps [of "Suc 0"] bit_len.simps [of 0])
  next
    case False
    then have pos: "0 < n div 2" using 1(2) by linarith
    then have "0 < bit_len (n div 2)" by (simp add: bit_len.simps [of "n div 2"])
    moreover have "2 ^ (bit_len (n div 2) - 1) \<le> n div 2" using 1 pos by simp
    moreover have "bit_len n = Suc (bit_len (n div 2))"
      using 1(2) by (subst bit_len.simps) simp
    ultimately have "2 ^ (bit_len n - 1) \<le> 2 * (n div 2)"
      using power_Suc [of "2 :: nat" "bit_len (n div 2) - 1"] by simp
    also have "\<dots> \<le> n" by simp
    finally show ?thesis .
  qed
qed

lemma f32_of_nat_bounds: "0 < n \<Longrightarrow> 0 < f32_of_nat n \<and> f32_of_nat n \<le> 2 * n"
proof -
  assume n: "0 < n"
  define e where "e = bit_len n - 24"
  define q where "q = n div 2 ^ e"
  define q' where "q' = (if 2 ^ e < 2 * (n mod 2 ^ e) \<or> 2 * (n mod 2 ^ e) = 2 ^ e \<and> odd q then q + 1 else q)"
  have eq: "f32_of_nat n = q' * 2 ^ e"
    by (simp add: f32_of_nat_def Let_def e_def q_def q'_def)
  have "2 ^ e \<le> n"
  proof -
    have "(2::nat) ^ e \<le> 2 ^ (bit_len n - 1)" by (intro power_increasing) (simp_all add: e_def)
    also have "\<dots> \<le> n" using n by (rule bit_len_lower)
    finally show ?thesis .
  qed
  then have "1 \<le> q" by (simp add: q_def div_greater_zero_iff Suc_le_eq)
  have "q * 2 ^ e \<le> n" by (simp add: q_def)
  have "q' \<le> 2 * q" "1 \<le> q'" using \<open>1 \<le> q\<close> by (auto simp: q'_def)
  then have "q' * 2 ^ e \<le> 2 * q * 2 ^ e" by (intro mult_right_mono) simp_all
  also have "\<dots> \<le> 2 * n" using \<open>q * 2 ^ e \<le> n\<close> by simp
  finally show ?thesis using \<open>1 \<le> q'\<close> by (simp add: eq)
qed

lemma half_up_bounds: "0 < unat s \<Longrightarrow> 0 < unat (half_up s) \<and> unat (half_up s) \<le> unat s"
proof -
  assume s: "0 < unat s"
  have b: "0 < f32_of_nat (unat s)" "f32_of_nat (unat s) \<le> 2 * unat s"
    using f32_of_nat_bounds [OF s] by simp_all
  define h where "h = (f32_of_nat (unat s) + 1) div 2"
  have "0 < h" "h \<le> unat s" using b by (simp_all add: h_def)
  moreover have "h < 2 ^ 64" using \<open>h \<le> unat s\<close> unat_less_u64 [of s] by linarith
  ultimately show ?thesis by (simp only: half_up_def h_def [symmetric] unat_word_of_nat_u64)
qed

lemma split_half_spec:
  assumes "legal i" "lo i < hi i"
  shows "legal (fst (split_half i))" "lo (fst (split_half i)) = lo i"
    "lo i < hi (fst (split_half i))" "hi (fst (split_half i)) \<le> hi i"
proof -
  define h where "h = half_up (iv_size i)"
  have size: "unat (iv_size i) = hi i - lo i" using assms(1) by (rule unat_iv_size)
  have h: "0 < unat h" "unat h \<le> hi i - lo i"
    using half_up_bounds [of "iv_size i"] size assms(2) by (simp_all add: h_def)
  have le: "0 < unat (iv_start i)" "unat (iv_start i) + unat h < 2 ^ 64"
    using assms h unfolding legal_def lo_def by linarith+
  have fst: "fst (split_half i) = iv_new (iv_start i) (iv_start i + h - 1)"
    by (simp add: split_half_def Let_def h_def)
  show "legal (fst (split_half i))" "lo (fst (split_half i)) = lo i"
    "lo i < hi (fst (split_half i))" "hi (fst (split_half i)) \<le> hi i"
    using part_legal [OF le] h assms by (simp_all add: fst lo_def)
qed

end
