(* ===== verification/ReachStore.thy ===== *)
theory ReachStore
  imports Interval Effects
begin

text \<open>
  \<open>tao-reachability/src/lib.rs\<close>, \<open>store.rs\<close> and \<open>extensions.rs\<close>: the errors, the in-memory store
  (the only implementation of the store traits), and the capacity queries on it.  A read is a
  function from the store to a result, a write returns the updated store; a panic (an index out
  of range, an \<open>unwrap\<close>) is the error \<open>ReachPanic\<close>.

  The algorithms over the store run in the monad \<open>rm\<close> of \<open>Effects\<close>.
\<close>

type_synonym blk = bytes32

definition ORIGIN :: blk where "ORIGIN = - 1"
definition NONE :: blk where "NONE = 0"

definition blk_is_none :: "blk \<Rightarrow> bool" where
  "blk_is_none b \<longleftrightarrow> b = NONE"

definition blk_of_u64 :: "u64 \<Rightarrow> blk" where
  "blk_of_u64 v = array_of (le_bytes 8 (unat v) @ replicate 24 0)"

definition DEFAULT_REINDEX_DEPTH :: u64 where "DEFAULT_REINDEX_DEPTH = 100"
definition DEFAULT_REINDEX_SLACK :: u64 where "DEFAULT_REINDEX_SLACK = push_bit 14 1"

text \<open>
  \<open>ReachabilityError\<close> with \<open>StoreError\<close> inlined.  The two messages of \<open>DataOverflow\<close> are kept
  apart: a missing tree parent (no argument), the reindex root out of capacity (its id).
\<close>

datatype reach_error =
  KeyNotFound blk | HashAlreadyExists blk | DataOverflow "blk option" | DataInconsistency | BadQuery |
  ReachPanic

definition is_key_not_found :: "reach_error \<Rightarrow> bool" where
  "is_key_not_found e = (case e of KeyNotFound _ \<Rightarrow> True | _ \<Rightarrow> False)"

type_synonym ('s, 'a) rm = "('s, reach_error, 'a) eff"

subsection \<open>The store\<close>

record mem_data =
  md_children :: "blk list"
  md_parent :: blk
  md_interval :: interval
  md_height :: u64
  md_future_covering_set :: "blk list"

definition mem_data_new :: "blk \<Rightarrow> interval \<Rightarrow> u64 \<Rightarrow> mem_data" where
  "mem_data_new parent i height =
     \<lparr>md_children = [], md_parent = parent, md_interval = i, md_height = height,
      md_future_covering_set = []\<rparr>"

record mem_store =
  ms_map :: "blk \<rightharpoonup> mem_data"
  ms_reindex_root :: "blk option"

definition mem_store_new :: mem_store where
  "mem_store_new = \<lparr>ms_map = (\<lambda>_. None), ms_reindex_root = None\<rparr>"

definition get_data :: "mem_store \<Rightarrow> blk \<Rightarrow> reach_error + mem_data" where
  "get_data s b = ok_or (KeyNotFound b) (ms_map s b)"

definition put_data :: "mem_store \<Rightarrow> blk \<Rightarrow> mem_data \<Rightarrow> mem_store" where
  "put_data s b d = s\<lparr>ms_map := (ms_map s)(b \<mapsto> d)\<rparr>"

definition store_has :: "mem_store \<Rightarrow> blk \<Rightarrow> bool" where
  "store_has s b \<longleftrightarrow> ms_map s b \<noteq> None"

definition get_interval :: "mem_store \<Rightarrow> blk \<Rightarrow> reach_error + interval" where
  "get_interval s b = and_then (get_data s b) (\<lambda>d. Inr (md_interval d))"

definition get_parent :: "mem_store \<Rightarrow> blk \<Rightarrow> reach_error + blk" where
  "get_parent s b = and_then (get_data s b) (\<lambda>d. Inr (md_parent d))"

definition get_children :: "mem_store \<Rightarrow> blk \<Rightarrow> reach_error + blk list" where
  "get_children s b = and_then (get_data s b) (\<lambda>d. Inr (md_children d))"

definition get_future_covering_set :: "mem_store \<Rightarrow> blk \<Rightarrow> reach_error + blk list" where
  "get_future_covering_set s b = and_then (get_data s b) (\<lambda>d. Inr (md_future_covering_set d))"

definition get_height :: "mem_store \<Rightarrow> blk \<Rightarrow> reach_error + u64" where
  "get_height s b = and_then (get_data s b) (\<lambda>d. Inr (md_height d))"

definition store_count :: "mem_store \<Rightarrow> nat" where
  "store_count s = card (dom (ms_map s))"

definition get_reindex_root :: "mem_store \<Rightarrow> reach_error + blk" where
  "get_reindex_root s = ok_or (KeyNotFound NONE) (ms_reindex_root s)"

definition set_reindex_root :: "blk \<Rightarrow> mem_store \<Rightarrow> reach_error + mem_store" where
  "set_reindex_root b s = Inr (s\<lparr>ms_reindex_root := Some b\<rparr>)"

definition store_insert :: "blk \<Rightarrow> blk \<Rightarrow> interval \<Rightarrow> u64 \<Rightarrow> mem_store \<Rightarrow> reach_error + mem_store" where
  "store_insert b parent i height s =
     (if ms_map s b = None then Inr (put_data s b (mem_data_new parent i height))
      else Inl (HashAlreadyExists b))"

definition store_init :: "blk \<Rightarrow> interval \<Rightarrow> mem_store \<Rightarrow> reach_error + mem_store" where
  "store_init origin capacity s =
     and_then (store_insert origin NONE capacity 0 s) (\<lambda>s. set_reindex_root origin s)"

definition set_interval :: "blk \<Rightarrow> interval \<Rightarrow> mem_store \<Rightarrow> reach_error + mem_store" where
  "set_interval b i s =
     and_then (get_data s b) (\<lambda>d. Inr (put_data s b (d\<lparr>md_interval := i\<rparr>)))"

definition append_child :: "blk \<Rightarrow> blk \<Rightarrow> mem_store \<Rightarrow> reach_error + mem_store" where
  "append_child b child s =
     and_then (get_data s b) (\<lambda>d. Inr (put_data s b (d\<lparr>md_children := md_children d @ [child]\<rparr>)))"

text \<open>\<open>Vec::insert\<close> and \<open>Vec::splice\<close> panic out of range.\<close>

definition vec_insert :: "'a list \<Rightarrow> nat \<Rightarrow> 'a \<Rightarrow> 'a list option" where
  "vec_insert xs i x = (if i \<le> length xs then Some (take i xs @ x # drop i xs) else None)"

definition vec_splice1 :: "'a list \<Rightarrow> nat \<Rightarrow> 'a list \<Rightarrow> 'a list option" where
  "vec_splice1 xs i ys = (if i + 1 \<le> length xs then Some (take i xs @ ys @ drop (i + 1) xs) else None)"

definition insert_future_covering_item ::
    "blk \<Rightarrow> blk \<Rightarrow> nat \<Rightarrow> mem_store \<Rightarrow> reach_error + mem_store" where
  "insert_future_covering_item b fci i s =
     and_then (get_data s b) (\<lambda>d.
     and_then (ok_or ReachPanic (vec_insert (md_future_covering_set d) i fci)) (\<lambda>fcs.
     Inr (put_data s b (d\<lparr>md_future_covering_set := fcs\<rparr>))))"

definition set_parent :: "blk \<Rightarrow> blk \<Rightarrow> mem_store \<Rightarrow> reach_error + mem_store" where
  "set_parent b new_parent s =
     and_then (get_data s b) (\<lambda>d. Inr (put_data s b (d\<lparr>md_parent := new_parent\<rparr>)))"

definition replace_child ::
    "blk \<Rightarrow> nat \<Rightarrow> blk list \<Rightarrow> mem_store \<Rightarrow> reach_error + mem_store" where
  "replace_child b i replace_with s =
     and_then (get_data s b) (\<lambda>d.
     and_then (ok_or ReachPanic (vec_splice1 (md_children d) i replace_with)) (\<lambda>cs.
     Inr (put_data s b (d\<lparr>md_children := cs\<rparr>))))"

definition replace_future_covering_item ::
    "blk \<Rightarrow> nat \<Rightarrow> blk list \<Rightarrow> mem_store \<Rightarrow> reach_error + mem_store" where
  "replace_future_covering_item b i replace_with s =
     and_then (get_data s b) (\<lambda>d.
     and_then (ok_or ReachPanic (vec_splice1 (md_future_covering_set d) i replace_with)) (\<lambda>fcs.
     Inr (put_data s b (d\<lparr>md_future_covering_set := fcs\<rparr>))))"

definition store_delete :: "blk \<Rightarrow> mem_store \<Rightarrow> reach_error + mem_store" where
  "store_delete b s = Inr (s\<lparr>ms_map := (ms_map s)(b := None)\<rparr>)"

subsection \<open>Capacity queries\<close>

definition interval_children_capacity :: "mem_store \<Rightarrow> blk \<Rightarrow> reach_error + interval" where
  "interval_children_capacity s b = and_then (get_interval s b) (\<lambda>i. Inr (decrease_end i 1))"

definition interval_remaining_before :: "mem_store \<Rightarrow> blk \<Rightarrow> reach_error + interval" where
  "interval_remaining_before s b =
     and_then (interval_children_capacity s b) (\<lambda>cap.
     and_then (get_children s b) (\<lambda>cs.
     case cs of [] \<Rightarrow> Inr cap
     | c # _ \<Rightarrow> and_then (get_interval s c) (\<lambda>i. Inr (iv_new (iv_start cap) (iv_start i - 1)))))"

definition interval_remaining_after :: "mem_store \<Rightarrow> blk \<Rightarrow> reach_error + interval" where
  "interval_remaining_after s b =
     and_then (interval_children_capacity s b) (\<lambda>cap.
     and_then (get_children s b) (\<lambda>cs.
     if cs = [] then Inr cap
     else and_then (get_interval s (last cs)) (\<lambda>i. Inr (iv_new (iv_end i + 1) (iv_end cap)))))"

end
