(* ===== verification/Inquirer.thy ===== *)
theory Inquirer
  imports ReachStore
begin

text \<open>
  The queries of \<open>tao-reachability/src/inquirer.rs\<close>: chain ancestry is containment of intervals,
  the child on the way to a descendant and the covering item of a descendant are found by binary
  search.  \<open>binary_search_by\<close> is the loop of Rust's \<open>slice::binary_search_by_key\<close>; the key of a
  block without data is a panic.
\<close>

definition is_strict_chain_ancestor_of :: "mem_store \<Rightarrow> blk \<Rightarrow> blk \<Rightarrow> reach_error + bool" where
  "is_strict_chain_ancestor_of s this queried =
     and_then (get_interval s this) (\<lambda>i.
     and_then (get_interval s queried) (\<lambda>j. Inr (iv_strictly_contains i j)))"

definition is_chain_ancestor_of :: "mem_store \<Rightarrow> blk \<Rightarrow> blk \<Rightarrow> reach_error + bool" where
  "is_chain_ancestor_of s this queried =
     and_then (get_interval s this) (\<lambda>i.
     and_then (get_interval s queried) (\<lambda>j. Inr (iv_contains i j)))"

text \<open>The base of the search: \<open>len\<close> elements from \<open>base\<close> on are left.\<close>

function bisect :: "(nat \<Rightarrow> 'e + u64) \<Rightarrow> u64 \<Rightarrow> nat \<Rightarrow> nat \<Rightarrow> 'e + nat" where
  "bisect key point base len =
     (if len \<le> 1 then Inr base
      else and_then (key (base + len div 2)) (\<lambda>k.
        bisect key point (if point < k then base else base + len div 2) (len - len div 2)))"
  by pat_completeness auto
termination by (relation "measure (\<lambda>(key, point, base, len). len)") auto

declare bisect.simps [simp del]

text \<open>\<open>Ok(i)\<close> is \<open>Inr\<close>, \<open>Err(i)\<close> is \<open>Inl\<close>, both inside the panic-carrying sum.\<close>

definition binary_search_by :: "(nat \<Rightarrow> 'e + u64) \<Rightarrow> u64 \<Rightarrow> nat \<Rightarrow> 'e + (nat + nat)" where
  "binary_search_by key point n =
     (if n = 0 then Inr (Inl 0)
      else and_then (bisect key point 0 n) (\<lambda>base.
        and_then (key base) (\<lambda>k.
          Inr (if k = point then Inr base else Inl (base + (if k < point then 1 else 0))))))"

datatype search_output = NotFound nat | Found blk nat

definition start_key :: "mem_store \<Rightarrow> blk list \<Rightarrow> nat \<Rightarrow> reach_error + u64" where
  "start_key s hs i =
     (case get_interval s (hs ! i) of Inl _ \<Rightarrow> Inl ReachPanic | Inr j \<Rightarrow> Inr (iv_start j))"

definition binary_search_descendant :: "mem_store \<Rightarrow> blk list \<Rightarrow> blk \<Rightarrow> reach_error + search_output" where
  "binary_search_descendant s hs descendant =
     and_then (get_interval s descendant) (\<lambda>d.
     and_then (binary_search_by (start_key s hs) (iv_end d) (length hs)) (\<lambda>r.
     case r of Inr i \<Rightarrow> Inr (Found (hs ! i) i)
     | Inl i \<Rightarrow>
         if 0 < i then
           and_then (is_chain_ancestor_of s (hs ! (i - 1)) descendant) (\<lambda>anc.
             Inr (if anc then Found (hs ! (i - 1)) (i - 1) else NotFound i))
         else Inr (NotFound i)))"

definition is_dag_ancestor_of :: "mem_store \<Rightarrow> blk \<Rightarrow> blk \<Rightarrow> reach_error + bool" where
  "is_dag_ancestor_of s this queried =
     and_then (is_chain_ancestor_of s this queried) (\<lambda>anc.
     if anc then Inr True
     else
       and_then (get_future_covering_set s this) (\<lambda>fcs.
       and_then (binary_search_descendant s fcs queried) (\<lambda>r.
       Inr (case r of Found _ _ \<Rightarrow> True | NotFound _ \<Rightarrow> False))))"

definition get_next_chain_ancestor_unchecked :: "mem_store \<Rightarrow> blk \<Rightarrow> blk \<Rightarrow> reach_error + blk" where
  "get_next_chain_ancestor_unchecked s descendant ancestor =
     and_then (get_children s ancestor) (\<lambda>cs.
     and_then (binary_search_descendant s cs descendant) (\<lambda>r.
     case r of Found h _ \<Rightarrow> Inr h | NotFound _ \<Rightarrow> Inl BadQuery))"

definition get_next_chain_ancestor :: "mem_store \<Rightarrow> blk \<Rightarrow> blk \<Rightarrow> reach_error + blk" where
  "get_next_chain_ancestor s descendant ancestor =
     (if descendant = ancestor then Inl BadQuery
      else and_then (is_strict_chain_ancestor_of s ancestor descendant) (\<lambda>anc.
        if \<not> anc then Inl BadQuery
        else get_next_chain_ancestor_unchecked s descendant ancestor))"

subsection \<open>Binary search on increasing keys\<close>

lemma bisect_spec:
  assumes "\<And>i. i < n \<Longrightarrow> key i = Inr (k i)" "\<And>i j. i < j \<Longrightarrow> j < n \<Longrightarrow> k i < k j"
    and "0 < len" "base + len \<le> n"
    and "\<And>i. i < n \<Longrightarrow> base + len \<le> i \<Longrightarrow> point < k i" "base = 0 \<or> k base \<le> point"
  shows "\<exists>b < n. bisect key point base len = Inr b
    \<and> (b = 0 \<or> k b \<le> point) \<and> (\<forall>i < n. b < i \<longrightarrow> point < k i)"
  using assms(3-)
proof (induction len arbitrary: base rule: less_induct)
  case (less len)
  show ?case
  proof (cases "len \<le> 1")
    case True
    with less.prems show ?thesis
      by (intro exI [of _ base]) (auto simp: bisect.simps [of key point base len])
  next
    case False
    define mid where "mid = base + len div 2"
    have mid: "mid < n" "base < mid" using False less.prems(2) by (auto simp: mid_def)
    have step: "bisect key point base len =
        bisect key point (if point < k mid then base else mid) (len - len div 2)"
      using False assms(1) [OF mid(1)]
      by (subst bisect.simps) (simp add: mid_def)
    show ?thesis
    proof (cases "point < k mid")
      case True
      have "point < k i" if "i < n" "base + (len - len div 2) \<le> i" for i
      proof -
        have "mid \<le> i" using that by (simp add: mid_def)
        then show ?thesis using True assms(2) [of mid i] that(1) by (cases "mid = i") auto
      qed
      then show ?thesis unfolding step
        using less.IH [of "len - len div 2" base] less.prems False True by auto
    next
      case False: False
      have "point < k i" if "i < n" "mid + (len - len div 2) \<le> i" for i
        using less.prems(3) [of i] that by (simp add: mid_def)
      moreover have "0 < len - len div 2" "len - len div 2 < len" "mid + (len - len div 2) \<le> n"
        using less.prems \<open>\<not> len \<le> 1\<close> by (auto simp: mid_def)
      moreover have "k mid \<le> point" using False by simp
      ultimately show ?thesis unfolding step
        using less.IH [of "len - len div 2" mid] False by simp
    qed
  qed
qed

lemma binary_search_by_spec:
  assumes "\<And>i. i < n \<Longrightarrow> key i = Inr (k i)" "\<And>i j. i < j \<Longrightarrow> j < n \<Longrightarrow> k i < k j"
  shows "(\<exists>i < n. binary_search_by key point n = Inr (Inr i) \<and> k i = point)
    \<or> (\<exists>i \<le> n. binary_search_by key point n = Inr (Inl i)
        \<and> (\<forall>j < i. k j < point) \<and> (\<forall>j < n. i \<le> j \<longrightarrow> point < k j))"
proof (cases "n = 0")
  case True
  then show ?thesis by (simp add: binary_search_by_def)
next
  case False
  then obtain b where b: "b < n" "bisect key point 0 n = Inr b" "b = 0 \<or> k b \<le> point"
    "\<forall>i < n. b < i \<longrightarrow> point < k i"
    using bisect_spec [of n key k n 0 point] assms by auto
  have before: "k j < k b" if "j < b" for j using assms(2) [OF that] b(1) by simp
  have eq: "binary_search_by key point n =
      Inr (if k b = point then Inr b else Inl (b + (if k b < point then 1 else 0)))"
    using False b(2) assms(1) [OF b(1)] by (simp add: binary_search_by_def)
  consider "k b = point" | "k b < point" | "point < k b" by (rule linorder_cases)
  then show ?thesis
  proof cases
    case 1
    then show ?thesis using eq b(1) by auto
  next
    case 2
    then have "k j < point" if "j < Suc b" for j
      using that before [of j] by (cases "j = b") auto
    with 2 show ?thesis using eq b by (intro disjI2 exI [of _ "Suc b"]) auto
  next
    case 3
    then have "b = 0" using b(3) by auto
    with 3 have "point < k j" if "j < n" for j using b(4) that by (cases "j = 0") auto
    with 3 \<open>b = 0\<close> show ?thesis using eq by auto
  qed
qed

end
