(* ===== verification/Reindex.thy ===== *)
theory Reindex
  imports Inquirer
begin

text \<open>
  \<open>tao-reachability/src/reindex.rs\<close>: the reallocation of intervals.  The state is the
  \<open>ReindexOperationContext\<close> (the store, the cache of subtree sizes, the slack); every loop is a
  \<open>partial_function\<close>, so a loop that does not end is \<open>None\<close>.  Indexing the cache with a missing
  key and the assertions of the splits are panics.
\<close>

record reindex_ctx =
  rc_store :: mem_store
  rc_subtree_sizes :: "blk \<rightharpoonup> u64"
  rc_depth :: u64
  rc_slack :: u64

definition reindex_ctx_new :: "mem_store \<Rightarrow> u64 \<Rightarrow> u64 \<Rightarrow> reindex_ctx" where
  "reindex_ctx_new s depth slack =
     \<lparr>rc_store = s, rc_subtree_sizes = (\<lambda>_. None), rc_depth = depth, rc_slack = slack\<rparr>"

text \<open>Running a computation on the store inside the context, and one with a fresh context.\<close>

definition cread :: "(mem_store \<Rightarrow> reach_error + 'a) \<Rightarrow> (reindex_ctx, 'a) rm" where
  "cread q c = Some (q (rc_store c), c)"

definition cwrite :: "(mem_store \<Rightarrow> reach_error + mem_store) \<Rightarrow> (reindex_ctx, unit) rm" where
  "cwrite u = rwrite (\<lambda>c. and_then (u (rc_store c)) (\<lambda>s. Inr (c\<lparr>rc_store := s\<rparr>)))"

definition with_ctx :: "u64 \<Rightarrow> u64 \<Rightarrow> (reindex_ctx, 'a) rm \<Rightarrow> (mem_store, 'a) rm" where
  "with_ctx depth slack m s =
     map_option (\<lambda>(r, c). (r, rc_store c)) (m (reindex_ctx_new s depth slack))"

fun sizes_of :: "(blk \<rightharpoonup> u64) \<Rightarrow> blk list \<Rightarrow> u64 list option" where
  "sizes_of m [] = Some []"
| "sizes_of m (b # bs) =
     (case m b of None \<Rightarrow> None | Some n \<Rightarrow> map_option ((#) n) (sizes_of m bs))"

definition subtree_size :: "blk \<Rightarrow> (reindex_ctx, u64) rm" where
  "subtree_size b = rread (\<lambda>c. ok_or ReachPanic (rc_subtree_sizes c b))"

definition subtree_sizes_of :: "blk list \<Rightarrow> (reindex_ctx, u64 list) rm" where
  "subtree_sizes_of bs = rread (\<lambda>c. ok_or ReachPanic (sizes_of (rc_subtree_sizes c) bs))"

definition set_size :: "blk \<Rightarrow> u64 \<Rightarrow> (reindex_ctx, unit) rm" where
  "set_size b n = rwrite (\<lambda>c. Inr (c\<lparr>rc_subtree_sizes := (rc_subtree_sizes c)(b \<mapsto> n)\<rparr>))"

subsection \<open>Counting subtrees\<close>

definition count_of :: "(blk \<rightharpoonup> u64) \<Rightarrow> blk \<Rightarrow> u64" where
  "count_of counts b = (case counts b of None \<Rightarrow> 0 | Some n \<Rightarrow> n)"

partial_function (option) count_up ::
    "blk \<Rightarrow> blk \<Rightarrow> (blk \<rightharpoonup> u64) \<Rightarrow> reindex_ctx \<Rightarrow> ((reach_error + (blk \<rightharpoonup> u64)) \<times> reindex_ctx) option"
where
  "count_up block current counts c =
     (if current = block then rret counts c
      else rbind (cread (\<lambda>s. get_parent s current)) (\<lambda>parent.
        rbind (cread (\<lambda>s. get_children s parent)) (\<lambda>children.
        (if count_of counts parent + 1 < word_of_nat (length children)
         then rret (counts(parent \<mapsto> count_of counts parent + 1))
         else rbind (subtree_sizes_of children) (\<lambda>sizes.
           rbind (set_size parent (sum_list sizes + 1)) (\<lambda>_ c.
           count_up block parent (counts(parent \<mapsto> count_of counts parent + 1)) c))))) c)"

partial_function (option) count_loop ::
    "blk \<Rightarrow> blk list \<Rightarrow> (blk \<rightharpoonup> u64) \<Rightarrow> reindex_ctx \<Rightarrow> ((reach_error + unit) \<times> reindex_ctx) option"
where
  "count_loop block queue counts c =
     (case queue of [] \<Rightarrow> rret () c
      | current # rest \<Rightarrow>
          rbind (cread (\<lambda>s. get_children s current)) (\<lambda>children c.
          if children \<noteq> [] \<and> rc_subtree_sizes c current = None
          then count_loop block (rest @ children) counts c
          else rbind (if children = [] then set_size current 1 else rret ()) (\<lambda>_.
            rbind (count_up block current counts) (\<lambda>counts c.
            count_loop block rest counts c)) c) c)"

definition count_subtrees :: "blk \<Rightarrow> (reindex_ctx, unit) rm" where
  "count_subtrees block c =
     (if rc_subtree_sizes c block \<noteq> None then rret () c
      else count_loop block [block] (\<lambda>_. None) c)"

subsection \<open>Propagating intervals\<close>

definition set_intervals :: "blk list \<Rightarrow> interval list \<Rightarrow> (reindex_ctx, unit) rm" where
  "set_intervals bs ivs = rfor (zip bs ivs) (\<lambda>(b, i). cwrite (set_interval b i))"

partial_function (option) propagate_loop ::
    "'f f64_ops \<Rightarrow> blk list \<Rightarrow> reindex_ctx \<Rightarrow> ((reach_error + unit) \<times> reindex_ctx) option"
where
  "propagate_loop fo queue c =
     (case queue of [] \<Rightarrow> rret () c
      | current # rest \<Rightarrow>
          rbind (cread (\<lambda>s. get_children s current)) (\<lambda>children.
          if children = [] then (\<lambda>c. propagate_loop fo rest c)
          else rbind (subtree_sizes_of children) (\<lambda>sizes.
            rbind (cread (\<lambda>s. interval_children_capacity s current)) (\<lambda>i.
            rbind (rread (\<lambda>_. ok_or ReachPanic (split_exponential fo i sizes))) (\<lambda>ivs.
            rbind (set_intervals children ivs) (\<lambda>_ c.
            propagate_loop fo (rest @ children) c))))) c)"

definition propagate_interval :: "'f f64_ops \<Rightarrow> blk \<Rightarrow> (reindex_ctx, unit) rm" where
  "propagate_interval fo block =
     rbind (count_subtrees block) (\<lambda>_. propagate_loop fo [block])"

subsection \<open>Reclaiming slack before and after the chosen child\<close>

definition apply_interval_op ::
    "blk \<Rightarrow> u64 \<Rightarrow> (interval \<Rightarrow> u64 \<Rightarrow> interval) \<Rightarrow> (reindex_ctx, unit) rm" where
  "apply_interval_op block offset op =
     rbind (cread (\<lambda>s. get_interval s block)) (\<lambda>i. cwrite (set_interval block (op i offset)))"

definition apply_interval_op_and_propagate ::
    "'f f64_ops \<Rightarrow> blk \<Rightarrow> u64 \<Rightarrow> (interval \<Rightarrow> u64 \<Rightarrow> interval) \<Rightarrow> (reindex_ctx, unit) rm" where
  "apply_interval_op_and_propagate fo block offset op =
     rbind (cread (\<lambda>s. get_interval s block)) (\<lambda>i.
     rbind (cwrite (set_interval block (op i offset))) (\<lambda>_.
     propagate_interval fo block))"

fun position :: "'a \<Rightarrow> 'a list \<Rightarrow> nat option" where
  "position x [] = None"
| "position x (y # ys) = (if y = x then Some 0 else map_option Suc (position x ys))"

definition split_children :: "blk list \<Rightarrow> blk \<Rightarrow> reach_error + (blk list \<times> blk list)" where
  "split_children children pivot =
     (case position pivot children of
        Some i \<Rightarrow> Inr (take i children, drop (i + 1) children)
      | None \<Rightarrow> Inl DataInconsistency)"

text \<open>The loop over the siblings, ended by the allocation block; \<open>op\<close> moves the others.\<close>

fun offset_loop ::
    "'f f64_ops \<Rightarrow> blk \<Rightarrow> u64 \<Rightarrow> (interval \<Rightarrow> u64 \<Rightarrow> interval) \<Rightarrow> (interval \<Rightarrow> u64 \<Rightarrow> interval) \<Rightarrow>
     blk list \<Rightarrow> (reindex_ctx, unit) rm" where
  "offset_loop fo allocation_block offset op last_op [] = rret ()"
| "offset_loop fo allocation_block offset op last_op (sibling # siblings) =
     (if sibling = allocation_block
      then apply_interval_op_and_propagate fo allocation_block offset last_op
      else rbind (apply_interval_op_and_propagate fo sibling offset op) (\<lambda>_.
        offset_loop fo allocation_block offset op last_op siblings))"

definition offset_siblings_before ::
    "'f f64_ops \<Rightarrow> blk \<Rightarrow> blk \<Rightarrow> u64 \<Rightarrow> (reindex_ctx, unit) rm" where
  "offset_siblings_before fo allocation_block current offset =
     rbind (cread (\<lambda>s. get_parent s current)) (\<lambda>parent.
     rbind (cread (\<lambda>s. get_children s parent)) (\<lambda>children.
     rbind (rread (\<lambda>_. split_children children current)) (\<lambda>(sibs_before, _).
     offset_loop fo allocation_block offset increase increase_end (rev sibs_before))))"

definition offset_siblings_after ::
    "'f f64_ops \<Rightarrow> blk \<Rightarrow> blk \<Rightarrow> u64 \<Rightarrow> (reindex_ctx, unit) rm" where
  "offset_siblings_after fo allocation_block current offset =
     rbind (cread (\<lambda>s. get_parent s current)) (\<lambda>parent.
     rbind (cread (\<lambda>s. get_children s parent)) (\<lambda>children.
     rbind (rread (\<lambda>_. split_children children current)) (\<lambda>(_, sibs_after).
     offset_loop fo allocation_block offset decrease decrease_start sibs_after)))"

text \<open>The descent of \<open>reclaim_interval_before\<close>: the block it stops at and \<open>path_slack_alloc\<close>.\<close>

partial_function (option) reclaim_down_before ::
    "'f f64_ops \<Rightarrow> blk \<Rightarrow> blk \<Rightarrow> u64 \<Rightarrow> blk \<Rightarrow> u64 \<Rightarrow> u64 \<Rightarrow> reindex_ctx \<Rightarrow>
     ((reach_error + (blk \<times> u64)) \<times> reindex_ctx) option"
where
  "reclaim_down_before fo alloc root required current slack_sum path_len c =
     (if current = root then
        let offset = required + rc_slack c * path_len - slack_sum in
        rbind (apply_interval_op_and_propagate fo current offset increase_start) (\<lambda>_.
        rbind (offset_siblings_before fo alloc current offset) (\<lambda>_.
        rret (current, rc_slack c))) c
      else
        rbind (cread (\<lambda>s. interval_remaining_before s current)) (\<lambda>i.
        let slack_before = iv_size i; sum = slack_sum + slack_before in
        if required \<le> sum then
          let offset = slack_before - (sum - required) in
          rbind (apply_interval_op current offset increase_start) (\<lambda>_.
          rbind (offset_siblings_before fo alloc current offset) (\<lambda>_.
          rret (current, 0)))
        else
          rbind (cread (\<lambda>s. get_next_chain_ancestor_unchecked s root current)) (\<lambda>child c.
          reclaim_down_before fo alloc root required child sum (path_len + 1) c)) c)"

partial_function (option) reclaim_up_before ::
    "'f f64_ops \<Rightarrow> blk \<Rightarrow> blk \<Rightarrow> u64 \<Rightarrow> blk \<Rightarrow> reindex_ctx \<Rightarrow>
     ((reach_error + unit) \<times> reindex_ctx) option"
where
  "reclaim_up_before fo alloc common path_slack_alloc child c =
     rbind (cread (\<lambda>s. get_parent s child)) (\<lambda>current.
     if current = common then rret ()
     else
       rbind (cread (\<lambda>s. interval_remaining_before s current)) (\<lambda>i.
       let offset = iv_size i - path_slack_alloc in
       rbind (apply_interval_op current offset increase_start) (\<lambda>_.
       rbind (offset_siblings_before fo alloc current offset) (\<lambda>_ c.
       reclaim_up_before fo alloc common path_slack_alloc current c)))) c"

definition reclaim_interval_before ::
    "'f f64_ops \<Rightarrow> blk \<Rightarrow> blk \<Rightarrow> blk \<Rightarrow> blk \<Rightarrow> u64 \<Rightarrow> (reindex_ctx, unit) rm" where
  "reclaim_interval_before fo alloc common chosen root required =
     rbind (reclaim_down_before fo alloc root required chosen 0 0) (\<lambda>(current, path_slack_alloc).
     reclaim_up_before fo alloc common path_slack_alloc current)"

partial_function (option) reclaim_down_after ::
    "'f f64_ops \<Rightarrow> blk \<Rightarrow> blk \<Rightarrow> u64 \<Rightarrow> blk \<Rightarrow> u64 \<Rightarrow> u64 \<Rightarrow> reindex_ctx \<Rightarrow>
     ((reach_error + (blk \<times> u64)) \<times> reindex_ctx) option"
where
  "reclaim_down_after fo alloc root required current slack_sum path_len c =
     (if current = root then
        let offset = required + rc_slack c * path_len - slack_sum in
        rbind (apply_interval_op_and_propagate fo current offset decrease_end) (\<lambda>_.
        rbind (offset_siblings_after fo alloc current offset) (\<lambda>_.
        rret (current, rc_slack c))) c
      else
        rbind (cread (\<lambda>s. interval_remaining_after s current)) (\<lambda>i.
        let slack_after = iv_size i; sum = slack_sum + slack_after in
        if required \<le> sum then
          let offset = slack_after - (sum - required) in
          rbind (apply_interval_op current offset decrease_end) (\<lambda>_.
          rbind (offset_siblings_after fo alloc current offset) (\<lambda>_.
          rret (current, 0)))
        else
          rbind (cread (\<lambda>s. get_next_chain_ancestor_unchecked s root current)) (\<lambda>child c.
          reclaim_down_after fo alloc root required child sum (path_len + 1) c)) c)"

partial_function (option) reclaim_up_after ::
    "'f f64_ops \<Rightarrow> blk \<Rightarrow> blk \<Rightarrow> u64 \<Rightarrow> blk \<Rightarrow> reindex_ctx \<Rightarrow>
     ((reach_error + unit) \<times> reindex_ctx) option"
where
  "reclaim_up_after fo alloc common path_slack_alloc child c =
     rbind (cread (\<lambda>s. get_parent s child)) (\<lambda>current.
     if current = common then rret ()
     else
       rbind (cread (\<lambda>s. interval_remaining_after s current)) (\<lambda>i.
       let offset = iv_size i - path_slack_alloc in
       rbind (apply_interval_op current offset decrease_end) (\<lambda>_.
       rbind (offset_siblings_after fo alloc current offset) (\<lambda>_ c.
       reclaim_up_after fo alloc common path_slack_alloc current c)))) c"

definition reclaim_interval_after ::
    "'f f64_ops \<Rightarrow> blk \<Rightarrow> blk \<Rightarrow> blk \<Rightarrow> blk \<Rightarrow> u64 \<Rightarrow> (reindex_ctx, unit) rm" where
  "reclaim_interval_after fo alloc common chosen root required =
     rbind (reclaim_down_after fo alloc root required chosen 0 0) (\<lambda>(current, path_slack_alloc).
     reclaim_up_after fo alloc common path_slack_alloc current)"

subsection \<open>Reindexing for a new child\<close>

definition reindex_intervals_earlier_than_root ::
    "'f f64_ops \<Rightarrow> blk \<Rightarrow> blk \<Rightarrow> blk \<Rightarrow> u64 \<Rightarrow> (reindex_ctx, unit) rm" where
  "reindex_intervals_earlier_than_root fo alloc root common required =
     rbind (cread (\<lambda>s. get_next_chain_ancestor_unchecked s root common)) (\<lambda>chosen.
     rbind (cread (\<lambda>s. get_interval s alloc)) (\<lambda>block_interval.
     rbind (cread (\<lambda>s. get_interval s chosen)) (\<lambda>chosen_interval.
     if iv_start block_interval < iv_start chosen_interval
     then reclaim_interval_before fo alloc common chosen root required
     else reclaim_interval_after fo alloc common chosen root required)))"

partial_function (option) reindex_loop ::
    "'f f64_ops \<Rightarrow> blk \<Rightarrow> blk \<Rightarrow> reindex_ctx \<Rightarrow> ((reach_error + unit) \<times> reindex_ctx) option"
where
  "reindex_loop fo current root c =
     rbind (cread (\<lambda>s. get_interval s current)) (\<lambda>i.
     rbind (count_subtrees current) (\<lambda>_.
     rbind (subtree_size current) (\<lambda>n.
     if n \<le> iv_size i then propagate_interval fo current
     else
       rbind (cread (\<lambda>s. get_parent s current)) (\<lambda>parent.
       if blk_is_none parent then rfail (DataOverflow None)
       else if current = root then rfail (DataOverflow (Some root))
       else
         rbind (cread (\<lambda>s. is_strict_chain_ancestor_of s parent root)) (\<lambda>earlier.
         if earlier then reindex_intervals_earlier_than_root fo current root parent n
         else (\<lambda>c. reindex_loop fo parent root c)))))) c"

definition reindex_intervals :: "'f f64_ops \<Rightarrow> blk \<Rightarrow> blk \<Rightarrow> (reindex_ctx, unit) rm" where
  "reindex_intervals fo new_child root = reindex_loop fo new_child root"

declare count_up.simps [code] count_loop.simps [code] propagate_loop.simps [code]
  reclaim_down_before.simps [code] reclaim_up_before.simps [code]
  reclaim_down_after.simps [code] reclaim_up_after.simps [code] reindex_loop.simps [code]

end
