(* ===== verification/Reach.thy ===== *)
theory Reach
  imports Reindex
begin

text \<open>
  \<open>tao-reachability/src/tree.rs\<close> and the updates of \<open>inquirer.rs\<close>: adding a block to the
  reachability tree and to the future covering sets, moving the reindex root, deleting a block.
\<close>

fun concentrate_sizes :: "blk list \<Rightarrow> (reindex_ctx, u64 list) rm" where
  "concentrate_sizes [] = rret []"
| "concentrate_sizes (b # bs) =
     rbind (count_subtrees b) (\<lambda>_.
     rbind (subtree_size b) (\<lambda>n.
     rbind (concentrate_sizes bs) (\<lambda>ns. rret (n # ns))))"

text \<open>The loop over the tightened siblings: set the interval, then propagate it.\<close>

definition place_siblings :: "'f f64_ops \<Rightarrow> blk list \<Rightarrow> interval list \<Rightarrow> (reindex_ctx, unit) rm" where
  "place_siblings fo bs ivs =
     rfor (zip bs ivs) (\<lambda>(b, i). rbind (cwrite (set_interval b i)) (\<lambda>_. propagate_interval fo b))"

definition tighten_intervals_before ::
    "'f f64_ops \<Rightarrow> blk \<Rightarrow> blk list \<Rightarrow> (reindex_ctx, u64) rm" where
  "tighten_intervals_before fo parent sibs =
     rbind (concentrate_sizes sibs) (\<lambda>sizes.
     let sum = sum_list sizes in
     rbind (cread (\<lambda>s. get_interval s parent)) (\<lambda>i.
     rbind (rread (\<lambda>c. let st = iv_start i + rc_slack c in
       ok_or ReachPanic (split_exact (iv_new st (st + sum - 1)) sizes))) (\<lambda>ivs.
     rbind (place_siblings fo sibs ivs) (\<lambda>_. rret sum))))"

definition tighten_intervals_after ::
    "'f f64_ops \<Rightarrow> blk \<Rightarrow> blk list \<Rightarrow> (reindex_ctx, u64) rm" where
  "tighten_intervals_after fo parent sibs =
     rbind (concentrate_sizes sibs) (\<lambda>sizes.
     let sum = sum_list sizes in
     rbind (cread (\<lambda>s. get_interval s parent)) (\<lambda>i.
     rbind (rread (\<lambda>c. let en = iv_end i - rc_slack c in
       ok_or ReachPanic (split_exact (iv_new (en - sum) (en - 1)) sizes))) (\<lambda>ivs.
     rbind (place_siblings fo sibs ivs) (\<lambda>_. rret sum))))"

definition expand_interval_to_chosen ::
    "'f f64_ops \<Rightarrow> blk \<Rightarrow> blk \<Rightarrow> u64 \<Rightarrow> u64 \<Rightarrow> bool \<Rightarrow> (reindex_ctx, unit) rm" where
  "expand_interval_to_chosen fo parent child sum_before sum_after is_final =
     rbind (rread (\<lambda>c. Inr (rc_slack c))) (\<lambda>slack.
     rbind (cread (\<lambda>s. get_interval s parent)) (\<lambda>i.
     let allocation = iv_new (iv_start i + sum_before + slack) (iv_end i - sum_after - slack - 1) in
     rbind (cread (\<lambda>s. get_interval s child)) (\<lambda>current.
     rbind (if is_final \<and> \<not> iv_contains allocation current
            then rbind (cwrite (set_interval child
                (iv_new (iv_start allocation + slack) (iv_end allocation - slack)))) (\<lambda>_.
              propagate_interval fo child)
            else rret ()) (\<lambda>_.
     cwrite (set_interval child allocation)))))"

definition concentrate_interval ::
    "'f f64_ops \<Rightarrow> blk \<Rightarrow> blk \<Rightarrow> bool \<Rightarrow> (reindex_ctx, unit) rm" where
  "concentrate_interval fo parent child is_final =
     rbind (cread (\<lambda>s. get_children s parent)) (\<lambda>children.
     rbind (rread (\<lambda>_. split_children children child)) (\<lambda>(sibs_before, sibs_after).
     rbind (tighten_intervals_before fo parent sibs_before) (\<lambda>sum_before.
     rbind (tighten_intervals_after fo parent sibs_after) (\<lambda>sum_after.
     expand_interval_to_chosen fo parent child sum_before sum_after is_final))))"

subsection \<open>The tree\<close>

definition add_tree_block ::
    "'f f64_ops \<Rightarrow> blk \<Rightarrow> blk \<Rightarrow> u64 \<Rightarrow> u64 \<Rightarrow> (mem_store, unit) rm" where
  "add_tree_block fo new_block parent depth slack =
     rbind (rread (\<lambda>s. interval_remaining_after s parent)) (\<lambda>remaining.
     rbind (rwrite (append_child parent new_block)) (\<lambda>_.
     rbind (rread (\<lambda>s. get_height s parent)) (\<lambda>parent_height.
     if iv_is_empty remaining then
       rbind (rwrite (store_insert new_block parent remaining (parent_height + 1))) (\<lambda>_.
       rbind (rread get_reindex_root) (\<lambda>root.
       with_ctx depth slack (reindex_intervals fo new_block root)))
     else
       rwrite (store_insert new_block parent (fst (split_half remaining)) (parent_height + 1)))))"

partial_function (option) find_common_tree_ancestor ::
    "blk \<Rightarrow> blk \<Rightarrow> mem_store \<Rightarrow> ((reach_error + blk) \<times> mem_store) option"
where
  "find_common_tree_ancestor current reindex_root s =
     rbind (rread (\<lambda>s. is_chain_ancestor_of s current reindex_root)) (\<lambda>anc.
     if anc then rret current
     else rbind (rread (\<lambda>s. get_parent s current)) (\<lambda>parent s.
       find_common_tree_ancestor parent reindex_root s)) s"

partial_function (option) next_root_loop ::
    "blk \<Rightarrow> u64 \<Rightarrow> u64 \<Rightarrow> blk \<Rightarrow> mem_store \<Rightarrow> ((reach_error + blk) \<times> mem_store) option"
where
  "next_root_loop hint hint_height depth next s =
     rbind (rread (\<lambda>s. get_next_chain_ancestor_unchecked s hint next)) (\<lambda>child.
     rbind (rread (\<lambda>s. get_height s child)) (\<lambda>child_height.
     if hint_height < child_height then rfail DataInconsistency
     else if hint_height - child_height < depth then rret next
     else (\<lambda>s. next_root_loop hint hint_height depth child s))) s"

definition find_next_reindex_root ::
    "blk \<Rightarrow> blk \<Rightarrow> u64 \<Rightarrow> u64 \<Rightarrow> (mem_store, blk \<times> blk) rm" where
  "find_next_reindex_root current hint depth slack =
     rbind (rread (\<lambda>s. get_height s hint)) (\<lambda>hint_height.
     rbind (rread (\<lambda>s. is_chain_ancestor_of s current hint)) (\<lambda>anc.
     if \<not> anc then
       rbind (rread (\<lambda>s. get_height s current)) (\<lambda>current_height.
       if hint_height < current_height \<or> hint_height - current_height < slack
       then rret (current, current)
       else
         rbind (find_common_tree_ancestor hint current) (\<lambda>common.
         rbind (next_root_loop hint hint_height depth common) (\<lambda>nxt. rret (common, nxt))))
     else rbind (next_root_loop hint hint_height depth current) (\<lambda>nxt. rret (current, nxt))))"

partial_function (option) advance_loop ::
    "'f f64_ops \<Rightarrow> u64 \<Rightarrow> u64 \<Rightarrow> blk \<Rightarrow> blk \<Rightarrow> mem_store \<Rightarrow> ((reach_error + unit) \<times> mem_store) option"
where
  "advance_loop fo depth slack nxt ancestor s =
     (if ancestor = nxt then rret () s
      else
        rbind (rread (\<lambda>s. get_next_chain_ancestor_unchecked s nxt ancestor)) (\<lambda>child.
        rbind (with_ctx depth slack (concentrate_interval fo ancestor child (child = nxt))) (\<lambda>_ s.
        advance_loop fo depth slack nxt child s)) s)"

definition try_advancing_reindex_root ::
    "'f f64_ops \<Rightarrow> blk \<Rightarrow> u64 \<Rightarrow> u64 \<Rightarrow> (mem_store, unit) rm" where
  "try_advancing_reindex_root fo hint depth slack =
     rbind (rread get_reindex_root) (\<lambda>current.
     rbind (find_next_reindex_root current hint depth slack) (\<lambda>(ancestor, nxt).
     if current = nxt then rret ()
     else
       rbind (advance_loop fo depth slack nxt ancestor) (\<lambda>_.
       rwrite (set_reindex_root nxt))))"

subsection \<open>The DAG\<close>

definition init_with_params :: "blk \<Rightarrow> interval \<Rightarrow> (mem_store, unit) rm" where
  "init_with_params origin capacity =
     rbind (rread (\<lambda>s. Inr (store_has s origin))) (\<lambda>has.
     if has then rret () else rwrite (store_init origin capacity))"

definition reach_init :: "(mem_store, unit) rm" where
  "reach_init = init_with_params ORIGIN iv_maximal"

definition insert_to_future_covering_set :: "blk \<Rightarrow> blk \<Rightarrow> (mem_store, unit) rm" where
  "insert_to_future_covering_set merged_block new_block =
     rbind (rread (\<lambda>s. get_future_covering_set s merged_block)) (\<lambda>fcs.
     rbind (rread (\<lambda>s. binary_search_descendant s fcs new_block)) (\<lambda>r.
     case r of Found _ _ \<Rightarrow> rfail DataInconsistency
     | NotFound i \<Rightarrow> rwrite (insert_future_covering_item merged_block new_block i)))"

definition add_dag_block :: "blk \<Rightarrow> blk list \<Rightarrow> (mem_store, unit) rm" where
  "add_dag_block new_block mergeset =
     rfor mergeset (\<lambda>merged_block. insert_to_future_covering_set merged_block new_block)"

definition add_block_with_params ::
    "'f f64_ops \<Rightarrow> blk \<Rightarrow> blk \<Rightarrow> blk list \<Rightarrow> u64 option \<Rightarrow> u64 option \<Rightarrow> (mem_store, unit) rm" where
  "add_block_with_params fo new_block selected_parent mergeset depth slack =
     rbind (add_tree_block fo new_block selected_parent
         (case depth of None \<Rightarrow> DEFAULT_REINDEX_DEPTH | Some d \<Rightarrow> d)
         (case slack of None \<Rightarrow> DEFAULT_REINDEX_SLACK | Some n \<Rightarrow> n)) (\<lambda>_.
     add_dag_block new_block mergeset)"

definition reach_add_block :: "'f f64_ops \<Rightarrow> blk \<Rightarrow> blk \<Rightarrow> blk list \<Rightarrow> (mem_store, unit) rm" where
  "reach_add_block fo new_block selected_parent mergeset =
     add_block_with_params fo new_block selected_parent mergeset None None"

definition hint_virtual_selected_parent :: "'f f64_ops \<Rightarrow> blk \<Rightarrow> (mem_store, unit) rm" where
  "hint_virtual_selected_parent fo hint =
     try_advancing_reindex_root fo hint DEFAULT_REINDEX_DEPTH DEFAULT_REINDEX_SLACK"

text \<open>Deletion: the children take the place of the block, and the interval of the block is handed on.\<close>

definition replace_in_covering :: "blk \<Rightarrow> blk list \<Rightarrow> blk \<Rightarrow> (mem_store, unit) rm" where
  "replace_in_covering block children merged_block =
     rbind (rread (\<lambda>s. get_future_covering_set s merged_block)) (\<lambda>fcs.
     rbind (rread (\<lambda>s. binary_search_descendant s fcs block)) (\<lambda>r.
     case r of NotFound _ \<Rightarrow> rfail DataInconsistency
     | Found _ i \<Rightarrow> rwrite (replace_future_covering_item merged_block i children)))"

definition inherit_interval :: "blk \<Rightarrow> nat \<Rightarrow> interval \<Rightarrow> blk list \<Rightarrow> (mem_store, unit) rm" where
  "inherit_interval parent index i children =
     (if children = [] then
        (if 0 < index then
           rbind (rread (\<lambda>s. get_children s parent)) (\<lambda>cs.
           rbind (rread (\<lambda>_. if index - 1 < length cs then Inr (cs ! (index - 1)) else Inl ReachPanic))
             (\<lambda>sibling.
           rbind (rread (\<lambda>s. get_interval s sibling)) (\<lambda>j.
           rwrite (set_interval sibling (iv_new (iv_start j) (iv_end i))))))
         else rret ())
      else if length children = 1 then rwrite (set_interval (hd children) i)
      else
        rbind (rread (\<lambda>s. get_interval s (hd children))) (\<lambda>j.
        rbind (rwrite (set_interval (hd children) (iv_new (iv_start i) (iv_end j)))) (\<lambda>_.
        rbind (rread (\<lambda>s. get_interval s (last children))) (\<lambda>k.
        rwrite (set_interval (last children) (iv_new (iv_start k) (iv_end i)))))))"

definition delete_block :: "blk \<Rightarrow> blk list \<Rightarrow> (mem_store, unit) rm" where
  "delete_block block mergeset =
     rbind (rread (\<lambda>s. get_interval s block)) (\<lambda>i.
     rbind (rread (\<lambda>s. get_parent s block)) (\<lambda>parent.
     rbind (rread (\<lambda>s. get_children s block)) (\<lambda>children.
     rbind (rread (\<lambda>s. get_children s parent)) (\<lambda>siblings.
     rbind (rread (\<lambda>s. binary_search_descendant s siblings block)) (\<lambda>r.
     case r of NotFound _ \<Rightarrow> rfail DataInconsistency
     | Found _ index \<Rightarrow>
         rbind (rwrite (replace_child parent index children)) (\<lambda>_.
         rbind (rfor children (\<lambda>child. rwrite (set_parent child parent))) (\<lambda>_.
         rbind (rfor mergeset (replace_in_covering block children)) (\<lambda>_.
         rbind (inherit_interval parent index i children) (\<lambda>_.
         rwrite (store_delete block))))))))))"

declare find_common_tree_ancestor.simps [code] next_root_loop.simps [code] advance_loop.simps [code]

end
