(* ===== verification/Ghostdag.thy ===== *)
theory Ghostdag
  imports Reach
begin

text \<open>
  \<open>tao-ghostdag/src/lib.rs\<close> and \<open>protocol.rs\<close>: GHOSTDAG over the reachability index.  The stores
  are maps from block ids; an \<open>unwrap\<close> on an error, an assertion and a \<open>panic!\<close> are \<open>None\<close>, as is
  a loop that does not end.  The per-block work is the parameter \<open>work\<close> (the trait \<open>WorkStore\<close>).

  The hash set of the merge set is kept as the list of its elements in insertion order; it is
  only ever sorted, by a key that is different for different blocks.
\<close>

record ghostdag_data =
  gd_blue_score :: u64
  gd_blue_work :: u128
  gd_selected_parent :: blk
  gd_mergeset_blues :: "blk list"
  gd_mergeset_reds :: "blk list"
  gd_blues_anticone_sizes :: "blk \<rightharpoonup> u16"

definition ghostdag_data_new ::
    "u64 \<Rightarrow> u128 \<Rightarrow> blk \<Rightarrow> blk list \<Rightarrow> blk list \<Rightarrow> (blk \<rightharpoonup> u16) \<Rightarrow> ghostdag_data" where
  "ghostdag_data_new score work sp blues reds sizes =
     \<lparr>gd_blue_score = score, gd_blue_work = work, gd_selected_parent = sp, gd_mergeset_blues = blues,
      gd_mergeset_reds = reds, gd_blues_anticone_sizes = sizes\<rparr>"

definition new_with_selected_parent :: "blk \<Rightarrow> ghostdag_data" where
  "new_with_selected_parent sp = ghostdag_data_new 0 0 sp [sp] [] [sp \<mapsto> 0]"

definition unordered_mergeset :: "ghostdag_data \<Rightarrow> blk list" where
  "unordered_mergeset d = drop 1 (gd_mergeset_blues d) @ gd_mergeset_reds d"

definition add_blue :: "blk \<Rightarrow> u16 \<Rightarrow> (blk \<rightharpoonup> u16) \<Rightarrow> ghostdag_data \<Rightarrow> ghostdag_data" where
  "add_blue block own block_sizes d =
     d\<lparr>gd_mergeset_blues := gd_mergeset_blues d @ [block],
       gd_blues_anticone_sizes := (\<lambda>b. case block_sizes b of
           Some n \<Rightarrow> Some (n + 1)
         | None \<Rightarrow> ((gd_blues_anticone_sizes d)(block \<mapsto> own)) b)\<rparr>"

definition add_red :: "blk \<Rightarrow> ghostdag_data \<Rightarrow> ghostdag_data" where
  "add_red block d = d\<lparr>gd_mergeset_reds := gd_mergeset_reds d @ [block]\<rparr>"

definition finalize_score_and_work :: "u64 \<Rightarrow> u128 \<Rightarrow> ghostdag_data \<Rightarrow> ghostdag_data" where
  "finalize_score_and_work score work d = d\<lparr>gd_blue_score := score, gd_blue_work := work\<rparr>"

subsection \<open>The order of blocks\<close>

datatype sortable_block = SortableBlock (sb_hash: blk) (sb_blue_work: u128)

instantiation sortable_block :: linorder
begin

definition less_eq_sortable_block :: "sortable_block \<Rightarrow> sortable_block \<Rightarrow> bool" where
  "a \<le> b \<longleftrightarrow> sb_blue_work a < sb_blue_work b \<or> sb_blue_work a = sb_blue_work b \<and> sb_hash a \<le> sb_hash b"

definition less_sortable_block :: "sortable_block \<Rightarrow> sortable_block \<Rightarrow> bool" where
  "a < b \<longleftrightarrow> sb_blue_work a < sb_blue_work b \<or> sb_blue_work a = sb_blue_work b \<and> sb_hash a < sb_hash b"

instance
  by intro_classes
    (auto simp: less_eq_sortable_block_def less_sortable_block_def intro: sortable_block.expand)

end

subsection \<open>The manager\<close>

record ghostdag_manager =
  gm_genesis :: blk
  gm_k :: u16
  gm_store :: "blk \<rightharpoonup> ghostdag_data"
  gm_relations :: "blk \<rightharpoonup> blk list"
  gm_reach :: mem_store

definition ok_value :: "'e + 'a \<Rightarrow> 'a option" where
  "ok_value r = (case r of Inl _ \<Rightarrow> None | Inr x \<Rightarrow> Some x)"

definition dag_anc_query :: "ghostdag_manager \<Rightarrow> blk \<Rightarrow> blk \<Rightarrow> bool option" where
  "dag_anc_query g a b = ok_value (is_dag_ancestor_of (gm_reach g) a b)"

definition chain_anc_query :: "ghostdag_manager \<Rightarrow> blk \<Rightarrow> blk \<Rightarrow> bool option" where
  "chain_anc_query g a b = ok_value (is_chain_ancestor_of (gm_reach g) a b)"

definition blue_work_of :: "ghostdag_manager \<Rightarrow> blk \<Rightarrow> u128 option" where
  "blue_work_of g b = map_option gd_blue_work (gm_store g b)"

definition blue_score_of :: "ghostdag_manager \<Rightarrow> blk \<Rightarrow> u64 option" where
  "blue_score_of g b = map_option gd_blue_score (gm_store g b)"

definition selected_parent_of :: "ghostdag_manager \<Rightarrow> blk \<Rightarrow> blk option" where
  "selected_parent_of g b = map_option gd_selected_parent (gm_store g b)"

definition anticone_sizes_of :: "ghostdag_manager \<Rightarrow> blk \<Rightarrow> (blk \<rightharpoonup> u16) option" where
  "anticone_sizes_of g b = map_option gd_blues_anticone_sizes (gm_store g b)"

definition origin_ghostdag_data :: ghostdag_data where
  "origin_ghostdag_data = ghostdag_data_new 0 0 NONE [] [] (\<lambda>_. None)"

definition is_origin :: "blk \<Rightarrow> bool" where
  "is_origin b \<longleftrightarrow> b = ORIGIN"

definition sortable :: "ghostdag_manager \<Rightarrow> blk \<Rightarrow> sortable_block option" where
  "sortable g b = map_option (SortableBlock b) (blue_work_of g b)"

text \<open>\<open>max().unwrap()\<close> over the sortable parents.\<close>

definition find_selected_parent :: "ghostdag_manager \<Rightarrow> blk list \<Rightarrow> blk option" where
  "find_selected_parent g parents =
     Option.bind (those (map (sortable g) parents)) (\<lambda>bs.
     case bs of [] \<Rightarrow> None | b # bs \<Rightarrow> Some (sb_hash (fold max bs b)))"

definition sort_blocks :: "ghostdag_manager \<Rightarrow> blk list \<Rightarrow> blk list option" where
  "sort_blocks g bs = map_option (\<lambda>ss. map sb_hash (sort ss)) (those (map (sortable g) bs))"

subsection \<open>The merge set\<close>

text \<open>The loop over the parents of one block: the queue, the merge set and the known past.\<close>

fun scan_parents ::
    "ghostdag_manager \<Rightarrow> blk \<Rightarrow> blk list \<Rightarrow> blk list \<times> blk list \<times> blk set \<Rightarrow>
     (blk list \<times> blk list \<times> blk set) option" where
  "scan_parents g sp [] st = Some st"
| "scan_parents g sp (p # ps) (queue, mergeset, past) =
     (if p \<in> set mergeset \<or> p \<in> past then scan_parents g sp ps (queue, mergeset, past)
      else Option.bind (dag_anc_query g p sp) (\<lambda>anc.
        if anc then scan_parents g sp ps (queue, mergeset, insert p past)
        else scan_parents g sp ps (queue @ [p], mergeset @ [p], past)))"

partial_function (option) mergeset_loop ::
    "ghostdag_manager \<Rightarrow> blk \<Rightarrow> blk list \<times> blk list \<times> blk set \<Rightarrow> blk list option" where
  "mergeset_loop g sp st =
     (case st of (queue, mergeset, past) \<Rightarrow>
        (case queue of [] \<Rightarrow> Some mergeset
         | current # rest \<Rightarrow>
             Option.bind (gm_relations g current) (\<lambda>ps.
             Option.bind (scan_parents g sp ps (rest, mergeset, past)) (\<lambda>st'.
             mergeset_loop g sp st'))))"

definition unordered_mergeset_without_selected_parent ::
    "ghostdag_manager \<Rightarrow> blk \<Rightarrow> blk list \<Rightarrow> blk list option" where
  "unordered_mergeset_without_selected_parent g sp parents =
     (let queue = filter (\<lambda>p. p \<noteq> sp) parents in
      mergeset_loop g sp (queue, remdups queue, {}))"

definition ordered_mergeset_without_selected_parent ::
    "ghostdag_manager \<Rightarrow> blk \<Rightarrow> blk list \<Rightarrow> blk list option" where
  "ordered_mergeset_without_selected_parent g sp parents =
     Option.bind (unordered_mergeset_without_selected_parent g sp parents) (sort_blocks g)"

subsection \<open>Colouring\<close>

text \<open>The blue anticone size of a block, looked up along the selected chain.\<close>

partial_function (option) anticone_size_loop ::
    "ghostdag_manager \<Rightarrow> blk \<Rightarrow> (blk \<rightharpoonup> u16) \<Rightarrow> blk \<Rightarrow> u16 option" where
  "anticone_size_loop g block sizes sp =
     (case sizes block of Some n \<Rightarrow> Some n
      | None \<Rightarrow>
          if sp = gm_genesis g \<or> sp = ORIGIN then None
          else Option.bind (anticone_sizes_of g sp) (\<lambda>sizes'.
            Option.bind (selected_parent_of g sp) (\<lambda>sp'.
            anticone_size_loop g block sizes' sp')))"

definition blue_anticone_size :: "ghostdag_manager \<Rightarrow> blk \<Rightarrow> ghostdag_data \<Rightarrow> u16 option" where
  "blue_anticone_size g block ctx =
     anticone_size_loop g block (gd_blues_anticone_sizes ctx) (gd_selected_parent ctx)"

text \<open>The state of a colouring carries the two values the code mutates.\<close>

datatype coloring_state =
  Blue "blk \<rightharpoonup> u16" u16 | Red | Pending "blk \<rightharpoonup> u16" u16

fun color_peers ::
    "ghostdag_manager \<Rightarrow> ghostdag_data \<Rightarrow> blk \<Rightarrow> u16 \<Rightarrow> blk list \<Rightarrow> (blk \<rightharpoonup> u16) \<Rightarrow> u16 \<Rightarrow>
     coloring_state option" where
  "color_peers g new cand k [] sizes n = Some (Pending sizes n)"
| "color_peers g new cand k (peer # peers) sizes n =
     Option.bind (dag_anc_query g peer cand) (\<lambda>anc.
     if anc then color_peers g new cand k peers sizes n
     else Option.bind (blue_anticone_size g peer new) (\<lambda>pn.
       if k < n + 1 then Some Red
       else if pn = k then Some Red
       else if k < pn then None
       else color_peers g new cand k peers (sizes(peer \<mapsto> pn)) (n + 1)))"

definition check_blue_candidate_with_chain_block ::
    "ghostdag_manager \<Rightarrow> ghostdag_data \<Rightarrow> blk option \<times> ghostdag_data \<Rightarrow> blk \<Rightarrow> (blk \<rightharpoonup> u16) \<Rightarrow> u16 \<Rightarrow> u16 \<Rightarrow>
     coloring_state option" where
  "check_blue_candidate_with_chain_block g new chain_block cand sizes n k =
     Option.bind (case fst chain_block of None \<Rightarrow> Some False | Some h \<Rightarrow> dag_anc_query g h cand)
       (\<lambda>anc. if anc then Some (Blue sizes n)
        else color_peers g new cand k (gd_mergeset_blues (snd chain_block)) sizes n)"

partial_function (option) candidate_loop ::
    "ghostdag_manager \<Rightarrow> ghostdag_data \<Rightarrow> blk \<Rightarrow> u16 \<Rightarrow> blk option \<times> ghostdag_data \<Rightarrow> (blk \<rightharpoonup> u16) \<Rightarrow> u16 \<Rightarrow>
     ((blk \<rightharpoonup> u16) \<times> u16) option option" where
  "candidate_loop g new cand k chain_block sizes n =
     Option.bind (check_blue_candidate_with_chain_block g new chain_block cand sizes n k) (\<lambda>st.
     case st of
       Blue sizes' n' \<Rightarrow> Some (Some (sizes', n'))
     | Red \<Rightarrow> Some None
     | Pending sizes' n' \<Rightarrow>
         (let sp = gd_selected_parent (snd chain_block) in
          Option.bind (gm_store g sp) (\<lambda>d. candidate_loop g new cand k (Some sp, d) sizes' n')))"

text \<open>\<open>Some None\<close> is red, \<open>Some (Some (sizes, n))\<close> is blue.\<close>

definition check_blue_candidate ::
    "ghostdag_manager \<Rightarrow> ghostdag_data \<Rightarrow> blk \<Rightarrow> u16 \<Rightarrow> ((blk \<rightharpoonup> u16) \<times> u16) option option" where
  "check_blue_candidate g new cand k =
     (if word_of_nat (length (gd_mergeset_blues new)) = k + 1 then Some None
      else candidate_loop g new cand k (None, new) (\<lambda>_. None) 0)"

fun color_all :: "ghostdag_manager \<Rightarrow> blk list \<Rightarrow> ghostdag_data \<Rightarrow> ghostdag_data option" where
  "color_all g [] new = Some new"
| "color_all g (cand # cands) new =
     Option.bind (check_blue_candidate g new cand (gm_k g)) (\<lambda>c.
     color_all g cands (case c of
         Some (sizes, n) \<Rightarrow> add_blue cand n sizes new
       | None \<Rightarrow> add_red cand new))"

definition ghostdag :: "(blk \<Rightarrow> u128) \<Rightarrow> ghostdag_manager \<Rightarrow> blk list \<Rightarrow> ghostdag_data option" where
  "ghostdag work g parents =
     (if parents = [] then None
      else Option.bind (find_selected_parent g parents) (\<lambda>sp.
        if is_origin sp then Some (new_with_selected_parent sp)
        else Option.bind (ordered_mergeset_without_selected_parent g sp parents) (\<lambda>mergeset.
          Option.bind (color_all g mergeset (new_with_selected_parent sp)) (\<lambda>new.
          Option.bind (blue_score_of g sp) (\<lambda>score.
          Option.bind (blue_work_of g sp) (\<lambda>bw.
          Some (finalize_score_and_work (score + word_of_nat (length (gd_mergeset_blues new)))
            (bw + sum_list (map work (gd_mergeset_blues new))) new)))))))"

declare mergeset_loop.simps [code] anticone_size_loop.simps [code] candidate_loop.simps [code]

end
