(* ===== verification/DagEngine.thy ===== *)
theory DagEngine
  imports Ghostdag
begin

text \<open>
  \<open>tao-ghostdag/src/engine.rs\<close>: the engine that keeps the reachability index, the GHOSTDAG data
  and the relations together, moves the tip, and linearises the DAG.  The engine assigns unit
  work to every block.
\<close>

record dag_engine =
  de_genesis :: blk
  de_k :: u16
  de_reach :: mem_store
  de_gd :: "blk \<rightharpoonup> ghostdag_data"
  de_relations :: "blk \<rightharpoonup> blk list"
  de_tip :: blk

definition unit_work :: "blk \<Rightarrow> u128" where
  "unit_work b = 1"

definition manager_of :: "dag_engine \<Rightarrow> ghostdag_manager" where
  "manager_of e =
     \<lparr>gm_genesis = de_genesis e, gm_k = de_k e, gm_store = de_gd e, gm_relations = de_relations e,
      gm_reach = de_reach e\<rparr>"

text \<open>\<open>unwrap\<close> on the effect of an update of the index.\<close>

definition unwrap_rm :: "('s, 'a) rm \<Rightarrow> 's \<Rightarrow> 's option" where
  "unwrap_rm m s = (case m s of Some (Inr _, s') \<Rightarrow> Some s' | _ \<Rightarrow> None)"

definition engine_new :: "u16 \<Rightarrow> blk \<Rightarrow> dag_engine option" where
  "engine_new k genesis =
     Option.bind (unwrap_rm reach_init mem_store_new) (\<lambda>r.
     Some \<lparr>de_genesis = genesis, de_k = k, de_reach = r, de_gd = [ORIGIN \<mapsto> origin_ghostdag_data],
       de_relations = (\<lambda>_. None), de_tip = genesis\<rparr>)"

definition engine_add_block ::
    "'f f64_ops \<Rightarrow> blk \<Rightarrow> blk list \<Rightarrow> dag_engine \<Rightarrow> (ghostdag_data \<times> dag_engine) option" where
  "engine_add_block fo block parents e =
     Option.bind (ghostdag unit_work (manager_of e) parents) (\<lambda>data.
     Option.bind (unwrap_rm (reach_add_block fo block (gd_selected_parent data)
         (unordered_mergeset data)) (de_reach e)) (\<lambda>r.
     Option.bind (unwrap_rm (hint_virtual_selected_parent fo block) r) (\<lambda>r.
     let gd = (de_gd e)(block \<mapsto> data) in
     Option.bind (gd (de_tip e)) (\<lambda>tip_data.
     Some (data, e\<lparr>de_reach := r, de_gd := gd, de_relations := (de_relations e)(block \<mapsto> parents),
       de_tip := (if gd_blue_work tip_data < gd_blue_work data
           \<or> gd_blue_work data = gd_blue_work tip_data \<and> de_tip e < block
         then block else de_tip e)\<rparr>)))))"

definition engine_blue_score :: "dag_engine \<Rightarrow> blk \<Rightarrow> u64 option" where
  "engine_blue_score e b = map_option gd_blue_score (de_gd e b)"

definition engine_selected_parent :: "dag_engine \<Rightarrow> blk \<Rightarrow> blk option" where
  "engine_selected_parent e b = map_option gd_selected_parent (de_gd e b)"

definition engine_data :: "dag_engine \<Rightarrow> blk \<Rightarrow> ghostdag_data option" where
  "engine_data e b = de_gd e b"

definition engine_is_dag_ancestor_of :: "dag_engine \<Rightarrow> blk \<Rightarrow> blk \<Rightarrow> bool option" where
  "engine_is_dag_ancestor_of e a b = ok_value (is_dag_ancestor_of (de_reach e) a b)"

subsection \<open>The total order\<close>

text \<open>The selected chain from a block to genesis, accumulated genesis first.\<close>

partial_function (option) chain_loop :: "dag_engine \<Rightarrow> blk \<Rightarrow> blk list \<Rightarrow> blk list option" where
  "chain_loop e cur chain =
     (if cur = de_genesis e then Some (cur # chain)
      else Option.bind (engine_selected_parent e cur) (\<lambda>sp. chain_loop e sp (cur # chain)))"

definition work_key :: "dag_engine \<Rightarrow> blk \<Rightarrow> sortable_block option" where
  "work_key e b = map_option (\<lambda>d. SortableBlock b (gd_blue_work d)) (de_gd e b)"

definition sort_by_work :: "dag_engine \<Rightarrow> blk list \<Rightarrow> blk list option" where
  "sort_by_work e bs = map_option (\<lambda>ss. map sb_hash (sort ss)) (those (map (work_key e) bs))"

fun order_chain :: "dag_engine \<Rightarrow> blk list \<Rightarrow> blk list option" where
  "order_chain e [] = Some []"
| "order_chain e (b # bs) =
     Option.bind
       (if b = de_genesis e then Some [b]
        else Option.bind (de_gd e b) (\<lambda>d.
          map_option (\<lambda>ms. ms @ [b]) (sort_by_work e (unordered_mergeset d))))
       (\<lambda>xs. map_option (\<lambda>ys. xs @ ys) (order_chain e bs))"

definition total_order :: "dag_engine \<Rightarrow> blk list option" where
  "total_order e = Option.bind (chain_loop e (de_tip e) []) (order_chain e)"

declare chain_loop.simps [code]

end
