(* ===== verification/DagVm.thy ===== *)
theory DagVm
  imports Bank DagEngine
begin

text \<open>
  \<^verbatim>\<open>crates/tao-dagvm/src/lib.rs\<close>: the DAG virtual machine that executes the transactions of a
  blockDAG in the GHOSTDAG order.
\<close>

record ('db, 'p, 'tx) dag_vm =
  vm_engine :: dag_engine
  vm_bank :: "('db, 'p) bank"
  vm_block_txs :: "blk \<rightharpoonup> 'tx list"

definition dag_vm_new ::
    "('db, 'a, 'p, 'tx, 'san, 'chk) bank_env \<Rightarrow> 'f f64_ops \<Rightarrow> u16 \<Rightarrow> blk \<Rightarrow> 'db \<Rightarrow> ('db, 'p, 'tx) dag_vm option" where
  "dag_vm_new bv fo k genesis accounts =
     Option.bind (bank_new bv accounts 0) (\<lambda>bank.
     Option.bind (engine_new k genesis) (\<lambda>e.
     Option.bind (engine_add_block fo genesis [ORIGIN] e) (\<lambda>(_, e).
     Some \<lparr>vm_engine = e, vm_bank = bank, vm_block_txs = (\<lambda>_. None)\<rparr>)))"

definition dag_vm_add_block ::
    "'f f64_ops \<Rightarrow> blk \<Rightarrow> blk list \<Rightarrow> 'tx list \<Rightarrow> ('db, 'p, 'tx) dag_vm \<Rightarrow> ('db, 'p, 'tx) dag_vm option" where
  "dag_vm_add_block fo h parents transactions v =
     Option.bind (engine_add_block fo h parents (vm_engine v)) (\<lambda>(_, e).
     Some (v\<lparr>vm_engine := e,
       vm_block_txs := (if transactions = [] then vm_block_txs v
         else (vm_block_txs v)(h \<mapsto> transactions))\<rparr>))"

definition dag_vm_total_order :: "('db, 'p, 'tx) dag_vm \<Rightarrow> blk list option" where
  "dag_vm_total_order v = total_order (vm_engine v)"

definition execute_txs ::
    "('db, 'a, 'p, 'tx, 'san, 'chk) bank_env \<Rightarrow> bytes32 \<Rightarrow> 'tx list \<Rightarrow> ('db, 'p, unit) bm" where
  "execute_txs bv env_hash txs =
     rfor txs (\<lambda>tx. rbind (execute_transaction bv tx env_hash) (\<lambda>_. rret ()))"

definition execute_linear ::
    "('db, 'a, 'p, 'tx, 'san, 'chk) bank_env \<Rightarrow> bytes32 \<Rightarrow> (('db, 'p, 'tx) dag_vm, bank_error, bytes32) eff" where
  "execute_linear bv env_hash v =
     Option.bind (total_order (vm_engine v)) (\<lambda>order.
     map_option (\<lambda>(r, b). (and_then r (\<lambda>_. Inr (bank_state_root bv b)), v\<lparr>vm_bank := b\<rparr>))
       (rfor order (\<lambda>i. case vm_block_txs v i of
           None \<Rightarrow> rret () | Some txs \<Rightarrow> execute_txs bv env_hash txs) (vm_bank v)))"

end
