(* ===== verification/BlockLog.thy ===== *)
theory BlockLog
  imports Core
begin

text \<open>
  The append-only block log: \<^verbatim>\<open>crates/tao-database/src/block_log.rs\<close>.

  The state is the content of the log file.  A record is a big-endian \<open>u32\<close> length and the
  payload.  Failures of the file system calls are outside the model, but what a crash in the
  middle of a write leaves behind is not: it is a proper prefix of a record.
\<close>

definition log_record :: "bytes \<Rightarrow> bytes" where
  "log_record payload = be_bytes 4 (length payload) @ payload"

definition too_large :: tao_error where
  "too_large = Storage ''block too large for log record''"

definition log_append :: "bytes \<Rightarrow> bytes \<Rightarrow> tao_error + bytes" where
  "log_append file payload =
     (if length payload < 2 ^ 32 then Inr (file @ log_record payload) else Inl too_large)"

text \<open>The loop that fills the temporary file.\<close>

fun compact_loop :: "bytes \<Rightarrow> bytes list \<Rightarrow> tao_error + bytes" where
  "compact_loop temp [] = Inr temp"
| "compact_loop temp (payload # records) =
     (if length payload < 2 ^ 32 then compact_loop (temp @ log_record payload) records
      else Inl too_large)"

text \<open>On an error the log file is still the old one; on success it is renamed over.\<close>

definition log_replace_all :: "bytes \<Rightarrow> bytes list \<Rightarrow> tao_error option \<times> bytes" where
  "log_replace_all file records =
     (case compact_loop [] records of Inl e \<Rightarrow> (Some e, file) | Inr temp \<Rightarrow> (None, temp))"

function log_read_all :: "bytes \<Rightarrow> tao_error + bytes list" where
  "log_read_all reader =
     (if length reader < 4 then Inr []
      else let len = be_value (take 4 reader); rest = drop 4 reader in
        if length rest < len then Inl (Storage ''truncated block log record'')
        else and_then (log_read_all (drop len rest)) (\<lambda>records. Inr (take len rest # records)))"
  by pat_completeness auto
termination
  by (relation "measure length") auto

declare log_read_all.simps [simp del]

definition log_len :: "bytes \<Rightarrow> tao_error + nat" where
  "log_len file = and_then (log_read_all file) (\<lambda>records. Inr (length records))"

definition log_is_empty :: "bytes \<Rightarrow> tao_error + bool" where
  "log_is_empty file = and_then (log_len file) (\<lambda>n. Inr (n = 0))"

fun log_append_all :: "bytes \<Rightarrow> bytes list \<Rightarrow> tao_error + bytes" where
  "log_append_all file [] = Inr file"
| "log_append_all file (p # ps) = and_then (log_append file p) (\<lambda>file'. log_append_all file' ps)"

subsection \<open>Reading back what was written\<close>

lemma log_record_value: "length p < 2 ^ 32 \<Longrightarrow> be_value (be_bytes 4 (length p)) = length p"
  by (simp add: be_value_be_bytes)

lemma log_read_record:
  assumes "length p < 2 ^ 32"
  shows "log_read_all (log_record p @ rest) = and_then (log_read_all rest) (\<lambda>ps. Inr (p # ps))"
  using log_record_value [OF assms]
  by (subst log_read_all.simps) (simp add: log_record_def Let_def)

definition log_of :: "bytes list \<Rightarrow> bytes" where
  "log_of ps = concat (map log_record ps)"

lemma log_read_of:
  assumes "\<forall>p \<in> set ps. length p < 2 ^ 32"
  shows "log_read_all (log_of ps @ rest) = and_then (log_read_all rest) (\<lambda>qs. Inr (ps @ qs))"
  using assms
proof (induction ps)
  case Nil
  then show ?case by (cases "log_read_all rest") (simp_all add: log_of_def)
next
  case (Cons p ps)
  have "log_of (p # ps) @ rest = log_record p @ (log_of ps @ rest)" by (simp add: log_of_def)
  with Cons show ?case by (cases "log_read_all rest") (simp_all add: log_read_record)
qed

lemma log_read_short: "length t < 4 \<Longrightarrow> log_read_all t = Inr []"
  by (subst log_read_all.simps) simp

lemma log_append_all_of:
  "log_append_all (log_of ps) qs = Inr file \<Longrightarrow>
   file = log_of (ps @ qs) \<and> (\<forall>p \<in> set qs. length p < 2 ^ 32)"
proof (induction qs arbitrary: ps)
  case (Cons q qs)
  from Cons.prems have "length q < 2 ^ 32" "log_append_all (log_of (ps @ [q])) qs = Inr file"
    by (auto simp: log_append_def log_of_def split: if_splits)
  with Cons.IH [of "ps @ [q]"] show ?case by simp
qed simp

lemma compact_loop_of:
  "compact_loop temp ps = (if \<forall>p \<in> set ps. length p < 2 ^ 32 then Inr (temp @ log_of ps) else Inl too_large)"
  by (induction ps arbitrary: temp) (auto simp: log_of_def)

text \<open>A record cut short after its header makes the whole read fail.\<close>

lemma log_read_truncated:
  assumes "length p < 2 ^ 32" and "4 \<le> k" and "k < length (log_record p)"
  shows "log_read_all (take k (log_record p)) = Inl (Storage ''truncated block log record'')"
proof -
  have "take k (log_record p) = be_bytes 4 (length p) @ take (k - 4) p"
    using assms(2) by (simp add: log_record_def)
  moreover have "k - 4 < length p" using assms(2,3) by (simp add: log_record_def)
  ultimately show ?thesis
    using log_record_value [OF assms(1)] by (subst log_read_all.simps) (simp add: Let_def)
qed

subsection \<open>Properties\<close>

text \<open>
  Property C32.  Log round trip: reading a log returns exactly the appended payloads in order,
  a compaction replaces them by exactly the given records and later appends follow them, and
  a compaction with an oversized record fails and leaves the file as it was.
\<close>

theorem block_log_roundtrip:
  assumes "log_append_all [] ps = Inr file"
    and "log_replace_all file qs = (e, file')"
  shows "log_read_all file = Inr ps
    \<and> (case e of Some _ \<Rightarrow> file' = file
       | None \<Rightarrow> log_read_all file' = Inr qs \<and>
           (\<forall>rs file''. log_append_all file' rs = Inr file'' \<longrightarrow> log_read_all file'' = Inr (qs @ rs)))"
proof -
  have f: "file = log_of ps" "\<forall>p \<in> set ps. length p < 2 ^ 32"
    using log_append_all_of [of "[]" ps] assms(1) by (simp_all add: log_of_def)
  have read: "log_read_all (log_of rs) = Inr rs" if "\<forall>p \<in> set rs. length p < 2 ^ 32" for rs
    using log_read_of [OF that, of "[]"] by (simp add: log_read_short)
  show ?thesis
  proof (cases "\<forall>p \<in> set qs. length p < 2 ^ 32")
    case True
    then have "e = None" "file' = log_of qs"
      using assms(2) by (simp_all add: log_replace_all_def compact_loop_of)
    moreover have "log_read_all file'' = Inr (qs @ rs)"
      if "log_append_all (log_of qs) rs = Inr file''" for rs file''
      using log_append_all_of [OF that] True read [of "qs @ rs"] by auto
    ultimately show ?thesis using read f True by auto
  next
    case False
    then have "e = Some too_large" "file' = file"
      using assms(2) by (simp_all add: log_replace_all_def compact_loop_of if_not_P)
    then show ?thesis using read f by simp
  qed
qed

theorem block_log_roundtrip_witness:
  "log_read_all (log_record [1, 2] @ log_record []) = Inr [[1, 2], []]"
proof -
  have "log_append_all [] [[1, 2], []] = Inr (log_record [1, 2] @ log_record [])"
    by (simp add: log_append_def)
  from block_log_roundtrip [OF this, of "[[3]]" None "log_record [3]"] show ?thesis
    by (simp add: log_replace_all_def)
qed

text \<open>
  A crash in the middle of an append: after any complete records, a torn payload
  makes the read fail, while a torn length header (up to three bytes) is ignored and the
  complete records are returned.
\<close>

theorem block_log_torn_write:
  assumes "log_append_all [] ps = Inr file" and "length p < 2 ^ 32" and "k < length (log_record p)"
  shows "log_read_all (file @ take k (log_record p)) =
    (if k < 4 then Inr ps else Inl (Storage ''truncated block log record''))"
proof -
  have f: "file = log_of ps" "\<forall>p \<in> set ps. length p < 2 ^ 32"
    using log_append_all_of [of "[]" ps] assms(1) by (simp_all add: log_of_def)
  show ?thesis
    using log_read_of [OF f(2)] log_read_truncated [OF assms(2) _ assms(3)]
    by (cases "k < 4") (simp_all add: f(1) log_read_short)
qed

theorem block_log_torn_write_witness:
  "log_read_all (take 5 (log_record [7, 8 :: byte])) = Inl (Storage ''truncated block log record'')"
  using block_log_torn_write [of "[]" "[]" "[7, 8]" 5] by (simp add: log_record_def)

text \<open>
  A torn header is not repaired: the next append is glued to it, and a block
  that was appended successfully after the crash is silently missing from every later read.
\<close>

theorem block_log_append_after_torn_header:
  "case log_append (take 1 (log_record [7])) [7] of
     Inl _ \<Rightarrow> False | Inr file \<Rightarrow> log_read_all file = Inr [[]]"
proof -
  have r7: "log_record [7] = [0, 0, 0, 1, 7]"
    by (simp add: log_record_def be_bytes_numeral)
  have "log_read_all [0, 0, 0, 0, 1, 7] = Inr [[]]"
    by (simp add: log_read_all.simps [of "[0, 0, 0, 0, 1, 7]"] log_read_short be_value_def)
  then show ?thesis by (auto simp: log_append_def r7)
qed

end
