(* ===== verification/DagChain.thy ===== *)
theory DagChain
  imports Bank BlockLog DagEngine
begin

text \<open>
  The blockDAG node core: \<^verbatim>\<open>crates/tao-dagvm/src/dag_chain.rs\<close>, its data, the proofs of
  work of a pruned history, block building and block acceptance.  \<open>DagState\<close> holds the derived
  state, \<open>DagPrune\<close> pruning and snapshots.

  Parameters are in \<open>dag_env\<close>: the bank's, the encodings (\<open>bincode\<close>) of headers, transactions,
  log records and snapshots, opening a wiped account directory, and the floating-point
  operations of the index.  The clock is the argument \<open>now\<close>.  An operation of the chain runs in
  the monad of \<open>Effects\<close>: the chain it leaves behind survives an error; a panic is \<open>None\<close>, and so
  is a loop that does not end.  Each error message of the code is a constructor.
\<close>

definition MAX_SNAPSHOT_BYTES :: nat where "MAX_SNAPSHOT_BYTES = 256 * 1024 * 1024"
definition MAX_PARENTS :: nat where "MAX_PARENTS = 16"
definition MAX_BLOCK_TXS :: nat where "MAX_BLOCK_TXS = 4096"
definition MAX_BLOCK_TX_BYTES :: nat where "MAX_BLOCK_TX_BYTES = 1048576"
definition MAX_TIMESTAMP_DRIFT_SECS :: i64 where "MAX_TIMESTAMP_DRIFT_SECS = 600"
definition DEFAULT_FINALITY_DEPTH :: u64 where "DEFAULT_FINALITY_DEPTH = 100"

definition env_blockhash :: bytes32 where
  "env_blockhash = array_of (replicate 32 7)"

datatype 'a dag_record =
  RecBlock dag_block
| RecSnapshot dag_block_header "(pubkey \<times> 'a) list" "dag_block_header list"

record legacy_dag_header =
  lh_version :: u32
  lh_parents :: "bytes32 list"
  lh_timestamp :: i64
  lh_tx_merkle_root :: bytes32
  lh_target :: target
  lh_nonce :: u64
  lh_miner :: pubkey

record legacy_dag_block =
  lb_header :: legacy_dag_header
  lb_transactions :: "bytes list"

datatype legacy_dag_record = LegacyBlock legacy_dag_block

record 'a sync_snapshot =
  sn_origin_header :: dag_block_header
  sn_accounts :: "(pubkey \<times> 'a) list"
  sn_suffix :: "dag_block list"
  sn_proof :: "dag_block_header list"

record 'a dag_checkpoint =
  cp_len :: nat
  cp_last_id :: bytes32
  cp_accounts :: "(pubkey \<times> 'a) list"

datatype dag_chain_error =
  EmptyProof | ProofNotAtGenesis | ProofNotAtOrigin | ProofBadPow | ProofNotConnected
| InvalidPow | NoParents | TooManyParents nat | DuplicateParent | TooManyTransactions nat
| BlockTooLarge nat | TxRootMismatch | TimestampInFuture | ParentPruned | UnknownParent
| UnexpectedTarget | TimestampRegresses | InvalidInterlink | SnapshotTooLarge nat
| DecodeTx string | Codec string | LogFailure string

datatype store_dir = AccountsDir | StateDir | CheckpointDir

record ('db, 'a, 'p, 'tx, 'san, 'chk, 'f) dag_env =
  ev_bank :: "('db, 'a, 'p, 'tx, 'san, 'chk) bank_env"
  ev_floats :: "'f f64_ops"
  ev_ser_header :: "dag_block_header \<Rightarrow> bytes"
  ev_ser_legacy_header :: "legacy_dag_header \<Rightarrow> string + bytes"
  ev_ser_tx :: "'tx \<Rightarrow> string + bytes"
  ev_de_tx :: "bytes \<Rightarrow> string + 'tx"
  ev_ser_record :: "'a dag_record \<Rightarrow> string + bytes"
  ev_de_record :: "bytes \<Rightarrow> string + 'a dag_record"
  ev_de_legacy :: "bytes \<Rightarrow> string + legacy_dag_record"
  ev_ser_snapshot :: "'a sync_snapshot \<Rightarrow> string + bytes"
  ev_de_snapshot :: "bytes \<Rightarrow> string + 'a sync_snapshot"
  ev_open_wiped :: "store_dir \<Rightarrow> string + 'db"

definition hid :: "('db, 'a, 'p, 'tx, 'san, 'chk, 'f) dag_env \<Rightarrow> dag_block_header \<Rightarrow> bytes32" where
  "hid ev h = dag_header_id (be_hash (ev_bank ev)) (ev_ser_header ev) h"

definition bid :: "('db, 'a, 'p, 'tx, 'san, 'chk, 'f) dag_env \<Rightarrow> dag_block \<Rightarrow> bytes32" where
  "bid ev b = dag_block_id (be_hash (ev_bank ev)) (ev_ser_header ev) b"

lemma bid_hid: "bid ev b = hid ev (db_header b)"
  by (simp add: bid_def hid_def dag_block_id_def)

definition legacy_block_id ::
    "('db, 'a, 'p, 'tx, 'san, 'chk, 'f) dag_env \<Rightarrow> legacy_dag_header \<Rightarrow> dag_chain_error + bytes32" where
  "legacy_block_id ev h =
     map_err Codec (and_then (ev_ser_legacy_header ev h) (\<lambda>bs. Inr (be_hash (ev_bank ev) bs)))"

subsection \<open>Checking a proof of a pruned history\<close>

fun verify_steps ::
    "('db, 'a, 'p, 'tx, 'san, 'chk, 'f) dag_env \<Rightarrow> bytes32 \<Rightarrow> u256 \<Rightarrow> dag_block_header list \<Rightarrow> dag_chain_error + u256"
where
  "verify_steps ev prev work [] = Inr work"
| "verify_steps ev prev work (h # hs) =
     (if \<not> meets_target (hid ev h) (dh_target h) then Inl ProofBadPow
      else if dh_interlink h = [] \<or> last (dh_interlink h) \<noteq> prev then Inl ProofNotConnected
      else verify_steps ev (hid ev h) (saturating_add work (work_for_target (dh_target h))) hs)"

definition verify_proof ::
    "('db, 'a, 'p, 'tx, 'san, 'chk, 'f) dag_env \<Rightarrow> dag_block_header list \<Rightarrow> bytes32 \<Rightarrow> bytes32 \<Rightarrow>
     dag_chain_error + u256" where
  "verify_proof ev proof origin genesis_id =
     (case proof of
        [] \<Rightarrow> Inl EmptyProof
      | g # hs \<Rightarrow>
          if hid ev g \<noteq> genesis_id then Inl ProofNotAtGenesis
          else if hid ev (last proof) \<noteq> origin then Inl ProofNotAtOrigin
          else verify_steps ev (hid ev g) (work_for_target (dh_target g)) hs)"

subsection \<open>The chain\<close>

record ('db, 'a, 'p, 'tx) dag_chain =
  dc_engine :: dag_engine
  dc_log :: bytes
  dc_tips :: "bytes32 list"
  dc_blocks :: "bytes32 set"
  dc_block_txs :: "bytes32 \<rightharpoonup> 'tx list"
  dc_headers :: "bytes32 \<rightharpoonup> dag_block_header"
  dc_genesis_dag :: bytes32
  dc_genesis_target :: target
  dc_block_time_secs :: u64
  dc_lwma_window :: u64
  dc_k :: u16
  dc_miner :: pubkey
  dc_reward :: u64
  dc_allocations :: "(pubkey \<times> u64) list"
  dc_base_accounts :: "(pubkey \<times> 'a) list option"
  dc_state :: "('db, 'p) bank option"
  dc_executed :: "bytes32 list"
  dc_finality_depth :: u64
  dc_checkpoint :: "'a dag_checkpoint option"
  dc_history_pruned :: bool
  dc_proof :: "dag_block_header list"
  dc_bootstrapped :: bool
  dc_bootstrap_work :: u256
  dc_original_genesis :: bytes32

type_synonym ('db, 'a, 'p, 'tx, 'x) cm = "(('db, 'a, 'p, 'tx) dag_chain, dag_chain_error, 'x) eff"

subsection \<open>Difficulty\<close>

definition selected_parent_dag :: "('db, 'a, 'p, 'tx) dag_chain \<Rightarrow> bytes32 list \<Rightarrow> bytes32 option" where
  "selected_parent_dag c parents =
     map_option (\<lambda>bs. case bs of [] \<Rightarrow> dc_genesis_dag c | b # bs \<Rightarrow> sb_hash (fold max bs b))
       (those (map (work_key (dc_engine c)) parents))"

text \<open>The walk down the selected chain, at most \<open>take\<close> blocks; accumulated genesis-most first.\<close>

partial_function (option) target_chain ::
    "dag_engine \<Rightarrow> bytes32 \<Rightarrow> nat \<Rightarrow> bytes32 \<Rightarrow> bytes32 list \<Rightarrow> bytes32 list option" where
  "target_chain e g taken cur chain =
     (if taken \<le> length (cur # chain) \<or> cur = g then Some (cur # chain)
      else Option.bind (engine_selected_parent e cur) (\<lambda>sp. target_chain e g taken sp (cur # chain)))"

definition cons_header :: "dag_block_header \<Rightarrow> block_header" where
  "cons_header h =
     \<lparr>bh_version = dh_version h, bh_prev_hash = 0, bh_height = 0, bh_timestamp = dh_timestamp h,
      bh_tx_merkle_root = 0, bh_state_root = 0, bh_target = dh_target h, bh_nonce = 0, bh_miner = 0\<rparr>"

definition selected_chain_target :: "('db, 'a, 'p, 'tx) dag_chain \<Rightarrow> bytes32 \<Rightarrow> target option" where
  "selected_chain_target c sp =
     Option.bind (target_chain (dc_engine c) (dc_genesis_dag c)
         (unat (saturating_add (dc_lwma_window c) 1)) sp []) (\<lambda>chain.
     Option.bind (difficulty_params_new (max (dc_block_time_secs c) 1) (max (dc_lwma_window c) 2)) (\<lambda>params.
     next_target (map cons_header (List.map_filter (dc_headers c) chain)) params (dc_genesis_target c)))"

definition dc_next_target :: "('db, 'a, 'p, 'tx) dag_chain \<Rightarrow> target option" where
  "dc_next_target c = selected_chain_target c (de_tip (dc_engine c))"

definition expected_target :: "('db, 'a, 'p, 'tx) dag_chain \<Rightarrow> bytes32 list \<Rightarrow> target option" where
  "expected_target c parents =
     Option.bind (selected_parent_dag c parents) (selected_chain_target c)"

subsection \<open>Interlinks and proofs\<close>

text \<open>The loop over the levels of the selected parent.\<close>

definition interlink_step :: "bytes32 \<Rightarrow> bytes32 list \<Rightarrow> nat \<Rightarrow> bytes32 list" where
  "interlink_step sp il k = (if k < length il then il[k := sp] else il @ [sp])"

definition interlink_for_parent :: "('db, 'a, 'p, 'tx) dag_chain \<Rightarrow> bytes32 \<Rightarrow> bytes32 list" where
  "interlink_for_parent c sp =
     (case dc_headers c sp of
        None \<Rightarrow> []
      | Some h \<Rightarrow> foldl (interlink_step sp) (dh_interlink h) [0..<pow_level sp (dh_target h) + 1])"

definition proof_header ::
    "('db, 'a, 'p, 'tx, 'san, 'chk, 'f) dag_env \<Rightarrow> ('db, 'a, 'p, 'tx) dag_chain \<Rightarrow> bytes32 \<Rightarrow>
     dag_block_header option" where
  "proof_header ev c cur =
     (case dc_headers c cur of
        Some h \<Rightarrow> Some h
      | None \<Rightarrow> if dc_history_pruned c then find (\<lambda>h. hid ev h = cur) (dc_proof c) else None)"

text \<open>The walk along the highest interlinks; \<open>guard\<close> more steps are allowed.\<close>

fun proof_walk ::
    "('db, 'a, 'p, 'tx, 'san, 'chk, 'f) dag_env \<Rightarrow> ('db, 'a, 'p, 'tx) dag_chain \<Rightarrow> nat \<Rightarrow> bytes32 \<Rightarrow>
     bytes32 set \<Rightarrow> dag_block_header list" where
  "proof_walk ev c guard cur seen =
     (case proof_header ev c cur of
        None \<Rightarrow> []
      | Some h \<Rightarrow>
          if hid ev h \<in> seen then []
          else if dh_interlink h = [] \<or> last (dh_interlink h) = cur then [h]
          else (case guard of 0 \<Rightarrow> [h]
            | Suc n \<Rightarrow> h # proof_walk ev c n (last (dh_interlink h)) (insert (hid ev h) seen)))"

declare proof_walk.simps [simp del]

definition build_proof_for ::
    "('db, 'a, 'p, 'tx, 'san, 'chk, 'f) dag_env \<Rightarrow> ('db, 'a, 'p, 'tx) dag_chain \<Rightarrow> bytes32 \<Rightarrow>
     dag_block_header list" where
  "build_proof_for ev c p = rev (proof_walk ev c 1000000 p {})"

subsection \<open>Building a block\<close>

text \<open>The parents of a new block: all tips, cut to the cap with the heaviest first.\<close>

definition block_parents :: "('db, 'a, 'p, 'tx) dag_chain \<Rightarrow> bytes32 list" where
  "block_parents c =
     (let parents = dc_tips c; heaviest = de_tip (dc_engine c) in
      if MAX_PARENTS < length parents
      then heaviest # take (MAX_PARENTS - 1) (filter (\<lambda>p. p \<noteq> heaviest) parents)
      else parents)"

definition encode_tx :: "('db, 'a, 'p, 'tx, 'san, 'chk, 'f) dag_env \<Rightarrow> 'tx \<Rightarrow> bytes" where
  "encode_tx ev tx = (case ev_ser_tx ev tx of Inr bs \<Rightarrow> bs | Inl _ \<Rightarrow> [])"

partial_function (option) mine_loop ::
    "(dag_block_header \<Rightarrow> bytes32) \<Rightarrow> target \<Rightarrow> dag_block_header \<Rightarrow> dag_block_header option" where
  "mine_loop id_of t h =
     (if meets_target (id_of h) t then Some h else mine_loop id_of t (h\<lparr>dh_nonce := dh_nonce h + 1\<rparr>))"

definition build_block_at ::
    "('db, 'a, 'p, 'tx, 'san, 'chk, 'f) dag_env \<Rightarrow> ('db, 'a, 'p, 'tx) dag_chain \<Rightarrow> 'tx list \<Rightarrow> i64 \<Rightarrow>
     dag_block option" where
  "build_block_at ev c transactions timestamp =
     (let serialized = map (encode_tx ev) transactions in
      Option.bind (dc_next_target c) (\<lambda>t.
      Option.bind (mine_loop (hid ev) t
        \<lparr>dh_version = HEADER_VERSION, dh_parents = block_parents c, dh_timestamp = timestamp,
         dh_tx_merkle_root = tx_merkle_root (be_hash (ev_bank ev)) serialized, dh_state_root = 0,
         dh_target = t, dh_interlink = interlink_for_parent c (de_tip (dc_engine c)),
         dh_nonce = 0, dh_miner = dc_miner c\<rparr>) (\<lambda>h.
      Some \<lparr>db_header = h, db_transactions = serialized\<rparr>)))"

subsection \<open>Adding a block to the DAG\<close>

text \<open>Unknown parents become the origin; duplicates are dropped, keeping the first.\<close>

fun dedup :: "'x set \<Rightarrow> 'x list \<Rightarrow> 'x list" where
  "dedup seen [] = []"
| "dedup seen (x # xs) = (if x \<in> seen then dedup seen xs else x # dedup (insert x seen) xs)"

definition remap_parents :: "bytes32 \<Rightarrow> bytes32 set \<Rightarrow> bytes32 list \<Rightarrow> bytes32 list" where
  "remap_parents origin known parents =
     (let ps = dedup {} (map (\<lambda>p. if p = origin \<or> p \<in> known then p else origin) parents) in
      if ps = [] then [origin] else ps)"

fun decode_txs ::
    "('db, 'a, 'p, 'tx, 'san, 'chk, 'f) dag_env \<Rightarrow> bytes list \<Rightarrow> dag_chain_error + 'tx list" where
  "decode_txs ev [] = Inr []"
| "decode_txs ev (b # bs) =
     and_then (map_err DecodeTx (ev_de_tx ev b)) (\<lambda>tx.
     and_then (decode_txs ev bs) (\<lambda>txs. Inr (tx # txs)))"

definition apply_with_id ::
    "('db, 'a, 'p, 'tx, 'san, 'chk, 'f) dag_env \<Rightarrow> dag_block \<Rightarrow> bytes32 \<Rightarrow> ('db, 'a, 'p, 'tx, unit) cm" where
  "apply_with_id ev b i c =
     (if i \<in> dc_blocks c then rret () c
      else
        Option.bind (engine_add_block (ev_floats ev) i
            (remap_parents (dc_genesis_dag c) (dc_blocks c) (dh_parents (db_header b))) (dc_engine c))
          (\<lambda>(_, e).
        let c = c\<lparr>dc_engine := e\<rparr> in
        case decode_txs ev (db_transactions b) of
          Inl err \<Rightarrow> rfail err c
        | Inr txs \<Rightarrow>
            rret () (c\<lparr>dc_block_txs := (if txs = [] then dc_block_txs c else (dc_block_txs c)(i \<mapsto> txs)),
              dc_headers := (dc_headers c)(i \<mapsto> db_header b),
              dc_blocks := insert i (dc_blocks c),
              dc_tips := filter (\<lambda>t. t \<notin> set (dh_parents (db_header b))) (dc_tips c) @ [i]\<rparr>)))"

definition dag_apply ::
    "('db, 'a, 'p, 'tx, 'san, 'chk, 'f) dag_env \<Rightarrow> dag_block \<Rightarrow> ('db, 'a, 'p, 'tx, unit) cm" where
  "dag_apply ev b = apply_with_id ev b (bid ev b)"

text \<open>Serializing a record and appending it to the log.\<close>

definition log_block ::
    "('db, 'a, 'p, 'tx, 'san, 'chk, 'f) dag_env \<Rightarrow> dag_block \<Rightarrow> ('db, 'a, 'p, 'tx, unit) cm" where
  "log_block ev b =
     rbind (rread (\<lambda>_. map_err Codec (ev_ser_record ev (RecBlock b)))) (\<lambda>rec.
     rwrite (\<lambda>c. and_then (map_err (\<lambda>e. LogFailure (err_text e)) (log_append (dc_log c) rec))
       (\<lambda>file. Inr (c\<lparr>dc_log := file\<rparr>))))"

definition mine_at ::
    "('db, 'a, 'p, 'tx, 'san, 'chk, 'f) dag_env \<Rightarrow> 'tx list \<Rightarrow> i64 \<Rightarrow> ('db, 'a, 'p, 'tx, dag_block) cm" where
  "mine_at ev transactions timestamp c =
     Option.bind (build_block_at ev c transactions timestamp) (\<lambda>b.
     rbind (log_block ev b) (\<lambda>_.
     rbind (dag_apply ev b) (\<lambda>_. rret b)) c)"

definition dag_mine ::
    "('db, 'a, 'p, 'tx, 'san, 'chk, 'f) dag_env \<Rightarrow> i64 \<Rightarrow> 'tx list \<Rightarrow> ('db, 'a, 'p, 'tx, dag_block) cm" where
  "dag_mine ev now transactions = mine_at ev transactions now"

subsection \<open>Accepting a block\<close>

definition i64_saturating_add :: "i64 \<Rightarrow> i64 \<Rightarrow> i64" where
  "i64_saturating_add a b =
     (let s = sint a + sint b in
      if s < - (2 ^ 63) then word_of_int (- (2 ^ 63))
      else if 2 ^ 63 \<le> s then word_of_int (2 ^ 63 - 1) else a + b)"

definition validate_block_intrinsic ::
    "('db, 'a, 'p, 'tx, 'san, 'chk, 'f) dag_env \<Rightarrow> i64 \<Rightarrow> dag_block \<Rightarrow> dag_chain_error + unit" where
  "validate_block_intrinsic ev now b =
     (let h = db_header b; txs = db_transactions b; tx_bytes = sum_list (map length txs) in
      if \<not> meets_target (hid ev h) (dh_target h) then Inl InvalidPow
      else if dh_parents h = [] then Inl NoParents
      else if MAX_PARENTS < length (dh_parents h) then Inl (TooManyParents (length (dh_parents h)))
      else if \<not> distinct (dh_parents h) then Inl DuplicateParent
      else if MAX_BLOCK_TXS < length txs then Inl (TooManyTransactions (length txs))
      else if MAX_BLOCK_TX_BYTES < tx_bytes then Inl (BlockTooLarge tx_bytes)
      else if tx_merkle_root (be_hash (ev_bank ev)) txs \<noteq> dh_tx_merkle_root h then Inl TxRootMismatch
      else if sint (i64_saturating_add now MAX_TIMESTAMP_DRIFT_SECS) < sint (dh_timestamp h)
        then Inl TimestampInFuture
      else Inr ())"

text \<open>The checks against the DAG, with the selected parent already found.\<close>

definition regresses :: "('db, 'a, 'p, 'tx) dag_chain \<Rightarrow> bytes32 \<Rightarrow> dag_block_header \<Rightarrow> bool" where
  "regresses c sp h =
     (case dc_headers c sp of
        None \<Rightarrow> False
      | Some sph \<Rightarrow> sint (dh_timestamp h) < sint (dh_timestamp sph - MAX_TIMESTAMP_DRIFT_SECS))"

definition accept ::
    "('db, 'a, 'p, 'tx, 'san, 'chk, 'f) dag_env \<Rightarrow> i64 \<Rightarrow> dag_block \<Rightarrow> ('db, 'a, 'p, 'tx, unit) cm" where
  "accept ev now b c =
     (if bid ev b \<in> dc_blocks c then rret () c
      else case validate_block_intrinsic ev now b of
        Inl e \<Rightarrow> rfail e c
      | Inr _ \<Rightarrow>
          let h = db_header b in
          if \<not> set (dh_parents h) \<subseteq> dc_blocks c then
            if dc_history_pruned c \<and> (\<exists>p \<in> set (dh_parents h). p \<noteq> dc_genesis_dag c \<and> p \<notin> dc_blocks c)
            then rfail ParentPruned c else rfail UnknownParent c
          else
            Option.bind (selected_parent_dag c (dh_parents h)) (\<lambda>sp.
            Option.bind (selected_chain_target c sp) (\<lambda>expected.
            if dh_target h \<noteq> expected then rfail UnexpectedTarget c
            else if regresses c sp h then rfail TimestampRegresses c
            else if dh_interlink h \<noteq> interlink_for_parent c sp then rfail InvalidInterlink c
            else rbind (log_block ev b) (\<lambda>_. dag_apply ev b) c)))"

subsection \<open>Queries\<close>

definition dc_total_order :: "('db, 'a, 'p, 'tx) dag_chain \<Rightarrow> bytes32 list option" where
  "dc_total_order c = total_order (dc_engine c)"

fun encode_all :: "('db, 'a, 'p, 'tx, 'san, 'chk, 'f) dag_env \<Rightarrow> 'tx list \<Rightarrow> bytes list option" where
  "encode_all ev [] = Some []"
| "encode_all ev (tx # txs) =
     (case ev_ser_tx ev tx of Inl _ \<Rightarrow> None | Inr bs \<Rightarrow> map_option ((#) bs) (encode_all ev txs))"

definition get_block ::
    "('db, 'a, 'p, 'tx, 'san, 'chk, 'f) dag_env \<Rightarrow> ('db, 'a, 'p, 'tx) dag_chain \<Rightarrow> bytes32 \<Rightarrow> dag_block option" where
  "get_block ev c i =
     Option.bind (dc_headers c i) (\<lambda>h.
     let transactions = (case dc_block_txs c i of
           None \<Rightarrow> []
         | Some txs \<Rightarrow> (case encode_all ev txs of None \<Rightarrow> [] | Some bss \<Rightarrow> bss)) in
     if transactions = [] \<and> dc_block_txs c i \<noteq> None then None
     else Some \<lparr>db_header = h, db_transactions = transactions\<rparr>)"

definition has_block :: "('db, 'a, 'p, 'tx) dag_chain \<Rightarrow> bytes32 \<Rightarrow> bool" where
  "has_block c i \<longleftrightarrow> i \<in> dc_blocks c"

definition block_count :: "('db, 'a, 'p, 'tx) dag_chain \<Rightarrow> nat" where
  "block_count c = card (dc_blocks c)"

definition set_finality_depth :: "u64 \<Rightarrow> ('db, 'a, 'p, 'tx) dag_chain \<Rightarrow> ('db, 'a, 'p, 'tx) dag_chain" where
  "set_finality_depth depth c = c\<lparr>dc_finality_depth := max depth 1\<rparr>"

subsection \<open>Opening\<close>

text \<open>A fresh engine with its genesis block.\<close>

definition fresh_engine :: "'f f64_ops \<Rightarrow> u16 \<Rightarrow> bytes32 \<Rightarrow> dag_engine option" where
  "fresh_engine fo k genesis =
     Option.bind (engine_new k genesis) (\<lambda>e.
     map_option snd (engine_add_block fo genesis [ORIGIN] e))"

definition load_snapshot ::
    "('db, 'a, 'p, 'tx, 'san, 'chk, 'f) dag_env \<Rightarrow> dag_block_header \<Rightarrow> (pubkey \<times> 'a) list \<Rightarrow>
     dag_block_header list \<Rightarrow> ('db, 'a, 'p, 'tx) dag_chain \<Rightarrow> ('db, 'a, 'p, 'tx) dag_chain option" where
  "load_snapshot ev origin_header accounts prf c =
     (let origin = hid ev origin_header in
      map_option (\<lambda>e. c\<lparr>dc_engine := e, dc_genesis_dag := origin, dc_tips := [origin],
          dc_blocks := {origin}, dc_headers := [origin \<mapsto> origin_header], dc_block_txs := (\<lambda>_. None),
          dc_base_accounts := Some accounts, dc_history_pruned := True, dc_checkpoint := None,
          dc_proof := prf, dc_state := None, dc_executed := []\<rparr>)
        (fresh_engine (ev_floats ev) (dc_k c) origin))"

definition from_legacy :: "legacy_dag_block \<Rightarrow> dag_block" where
  "from_legacy b =
     (let h = lb_header b in
      \<lparr>db_header = \<lparr>dh_version = lh_version h, dh_parents = lh_parents h, dh_timestamp = lh_timestamp h,
         dh_tx_merkle_root = lh_tx_merkle_root h, dh_state_root = 0, dh_target = lh_target h,
         dh_interlink = [], dh_nonce = lh_nonce h, dh_miner = lh_miner h\<rparr>,
       db_transactions = lb_transactions b\<rparr>)"

definition replay_record ::
    "('db, 'a, 'p, 'tx, 'san, 'chk, 'f) dag_env \<Rightarrow> bytes \<Rightarrow> ('db, 'a, 'p, 'tx, unit) cm" where
  "replay_record ev bs c =
     (case ev_de_record ev bs of
        Inr (RecSnapshot h accounts prf) \<Rightarrow>
          Option.bind (load_snapshot ev h accounts prf c) (\<lambda>c. rret () c)
      | Inr (RecBlock b) \<Rightarrow> dag_apply ev b c
      | Inl e \<Rightarrow>
          (case ev_de_legacy ev bs of
             Inr (LegacyBlock b) \<Rightarrow>
               rbind (rread (\<lambda>_. legacy_block_id ev (lb_header b))) (apply_with_id ev (from_legacy b)) c
           | Inl _ \<Rightarrow> rfail (Codec e) c))"

definition dag_genesis_header :: "target \<Rightarrow> bytes32 \<Rightarrow> dag_block_header" where
  "dag_genesis_header genesis_target commitment =
     \<lparr>dh_version = HEADER_VERSION, dh_parents = [], dh_timestamp = 1750000000, dh_tx_merkle_root = 0,
      dh_state_root = commitment, dh_target = genesis_target, dh_interlink = [], dh_nonce = 0, dh_miner = 0\<rparr>"

record open_params =
  op_k :: u16
  op_target :: target
  op_miner :: pubkey
  op_reward :: u64
  op_allocations :: "(pubkey \<times> u64) list"
  op_block_time_secs :: u64
  op_lwma_window :: u64
  op_commitment :: bytes32

definition chain_init ::
    "('db, 'a, 'p, 'tx, 'san, 'chk, 'f) dag_env \<Rightarrow> open_params \<Rightarrow> bytes \<Rightarrow> ('db, 'a, 'p, 'tx) dag_chain option"
where
  "chain_init ev op file =
     (let h = dag_genesis_header (op_target op) (op_commitment op); g = hid ev h in
      map_option (\<lambda>e.
        \<lparr>dc_engine = e, dc_log = file, dc_tips = [g], dc_blocks = {g}, dc_block_txs = (\<lambda>_. None),
         dc_headers = [g \<mapsto> h], dc_genesis_dag = g, dc_genesis_target = op_target op,
         dc_block_time_secs = op_block_time_secs op, dc_lwma_window = op_lwma_window op, dc_k = op_k op,
         dc_miner = op_miner op, dc_reward = op_reward op, dc_allocations = op_allocations op,
         dc_base_accounts = None, dc_state = None, dc_executed = [],
         dc_finality_depth = DEFAULT_FINALITY_DEPTH, dc_checkpoint = None, dc_history_pruned = False,
         dc_proof = [], dc_bootstrapped = False, dc_bootstrap_work = 0, dc_original_genesis = g\<rparr>)
      (fresh_engine (ev_floats ev) (op_k op) g))"

definition open_with_genesis ::
    "('db, 'a, 'p, 'tx, 'san, 'chk, 'f) dag_env \<Rightarrow> open_params \<Rightarrow> bytes \<Rightarrow>
     (dag_chain_error + ('db, 'a, 'p, 'tx) dag_chain) option" where
  "open_with_genesis ev op file =
     Option.bind (chain_init ev op file) (\<lambda>c.
     case log_read_all file of
       Inl e \<Rightarrow> Some (Inl (LogFailure (err_text e)))
     | Inr records \<Rightarrow>
         map_option (\<lambda>(r, c). and_then r (\<lambda>_. Inr c)) (rfor records (replay_record ev) c))"

definition open_with_daa ::
    "('db, 'a, 'p, 'tx, 'san, 'chk, 'f) dag_env \<Rightarrow> open_params \<Rightarrow> bytes \<Rightarrow>
     (dag_chain_error + ('db, 'a, 'p, 'tx) dag_chain) option" where
  "open_with_daa ev op file = open_with_genesis ev (op\<lparr>op_commitment := 0\<rparr>) file"

definition open_fixed ::
    "('db, 'a, 'p, 'tx, 'san, 'chk, 'f) dag_env \<Rightarrow> open_params \<Rightarrow> bytes \<Rightarrow>
     (dag_chain_error + ('db, 'a, 'p, 'tx) dag_chain) option" where
  "open_fixed ev op file =
     open_with_daa ev (op\<lparr>op_block_time_secs := 10, op_lwma_window := - 1\<rparr>) file"

declare target_chain.simps [code] mine_loop.simps [code]

end
