(* ===== verification/DagState.thy ===== *)
theory DagState
  imports DagChain
begin

text \<open>
  The derived state of \<^verbatim>\<open>crates/tao-dagvm/src/dag_chain.rs\<close>: a fresh bank over a wiped
  directory, the replay of blocks through a bank, the full rebuild, the incremental virtual state
  and the finalized checkpoint.  Lengths are \<open>usize\<close>: \<open>usize_add\<close> and \<open>usize_sub\<close> wrap, a slice
  out of range is a panic.
\<close>

definition usize_add :: "nat \<Rightarrow> nat \<Rightarrow> nat" where
  "usize_add a b = (a + b) mod 2 ^ 64"

definition usize_sub :: "nat \<Rightarrow> nat \<Rightarrow> nat" where
  "usize_sub a b = (a + 2 ^ 64 - b) mod 2 ^ 64"

text \<open>\<open>&xs[a..b]\<close>.\<close>

definition slice :: "nat \<Rightarrow> nat \<Rightarrow> 'x list \<Rightarrow> 'x list option" where
  "slice a b xs = (if a \<le> b \<and> b \<le> length xs then Some (take (b - a) (drop a xs)) else None)"

definition list_get :: "'x list \<Rightarrow> nat \<Rightarrow> 'x option" where
  "list_get xs i = (if i < length xs then Some (xs ! i) else None)"

subsection \<open>Banks\<close>

fun seed_allocations ::
    "('db, 'a, 'p, 'tx, 'san, 'chk) bank_env \<Rightarrow> (pubkey \<times> u64) list \<Rightarrow> 'db \<Rightarrow> bank_error + 'db" where
  "seed_allocations bv [] db = Inr db"
| "seed_allocations bv ((k, lamports) # als) db =
     and_then (storage (adb_set (be_hash bv) (be_rocks bv) (be_ao bv) db k
         (am_new (be_am bv) lamports 0 (id_system (be_ids bv))))) (seed_allocations bv als)"

definition seed_db ::
    "('db, 'a, 'p, 'tx, 'san, 'chk) bank_env \<Rightarrow> ('db, 'a, 'p, 'tx) dag_chain \<Rightarrow> 'db \<Rightarrow> bank_error + 'db" where
  "seed_db bv c db =
     (case dc_base_accounts c of
        Some base \<Rightarrow> storage (adb_commit (be_hash bv) (be_rocks bv) (be_ao bv) db base)
      | None \<Rightarrow> seed_allocations bv (dc_allocations c) db)"

definition open_bank ::
    "('db, 'a, 'p, 'tx, 'san, 'chk, 'f) dag_env \<Rightarrow> ('db, 'a, 'p, 'tx) dag_chain \<Rightarrow> store_dir \<Rightarrow> bool \<Rightarrow>
     (bank_error + ('db, 'p) bank) option" where
  "open_bank ev c dir seed_genesis =
     (case and_then (map_err BankStorage (ev_open_wiped ev dir))
             (\<lambda>db. if seed_genesis then seed_db (ev_bank ev) c db else Inr db) of
        Inl e \<Rightarrow> Some (Inl e)
      | Inr db \<Rightarrow> map_option Inr (bank_new (ev_bank ev) db 0))"

definition fresh_bank ::
    "('db, 'a, 'p, 'tx, 'san, 'chk, 'f) dag_env \<Rightarrow> ('db, 'a, 'p, 'tx) dag_chain \<Rightarrow> store_dir \<Rightarrow>
     (bank_error + ('db, 'p) bank) option" where
  "fresh_bank ev c dir = open_bank ev c dir True"

subsection \<open>Replaying blocks\<close>

definition replay_txs ::
    "('db, 'a, 'p, 'tx, 'san, 'chk) bank_env \<Rightarrow> 'tx list \<Rightarrow> ('db, 'p, unit) bm" where
  "replay_txs bv txs =
     rfor txs (\<lambda>tx. rbind (execute_transaction bv tx env_blockhash) (\<lambda>_. rret ()))"

definition pay_coinbase ::
    "('db, 'a, 'p, 'tx, 'san, 'chk) bank_env \<Rightarrow> ('db, 'a, 'p, 'tx) dag_chain \<Rightarrow> bytes32 \<Rightarrow> ('db, 'p, unit) bm" where
  "pay_coinbase bv c i =
     (if 0 < dc_reward c then
        (case dc_headers c i of
           None \<Rightarrow> rfail (BankStorage ''missing header for coinbase'')
         | Some h \<Rightarrow> airdrop bv (dh_miner h) (dc_reward c))
      else rret ())"

definition replay_block ::
    "('db, 'a, 'p, 'tx, 'san, 'chk) bank_env \<Rightarrow> ('db, 'a, 'p, 'tx) dag_chain \<Rightarrow> bytes32 \<Rightarrow> ('db, 'p, unit) bm" where
  "replay_block bv c i =
     (if i = dc_genesis_dag c then rret ()
      else rbind (pay_coinbase bv c i) (\<lambda>_.
        case dc_block_txs c i of None \<Rightarrow> rret () | Some txs \<Rightarrow> replay_txs bv txs))"

definition replay_blocks ::
    "('db, 'a, 'p, 'tx, 'san, 'chk) bank_env \<Rightarrow> ('db, 'a, 'p, 'tx) dag_chain \<Rightarrow> bytes32 list \<Rightarrow>
     ('db, 'p, unit) bm" where
  "replay_blocks bv c ids = rfor ids (replay_block bv c)"

text \<open>A bank run through a computation, as \<open>Result<Bank, _>\<close>.\<close>

definition run_bank :: "('db, 'p, 'x) bm \<Rightarrow> ('db, 'p) bank \<Rightarrow> (bank_error + ('db, 'p) bank) option" where
  "run_bank m b = map_option (\<lambda>(r, b). and_then r (\<lambda>_. Inr b)) (m b)"

definition bank_then ::
    "(bank_error + 'x) option \<Rightarrow> ('x \<Rightarrow> (bank_error + 'y) option) \<Rightarrow> (bank_error + 'y) option" where
  "bank_then m f =
     (case m of None \<Rightarrow> None | Some (Inl e) \<Rightarrow> Some (Inl e) | Some (Inr x) \<Rightarrow> f x)"

lemma bank_then_simps [simp]:
  "bank_then None f = None"
  "bank_then (Some (Inl e)) f = Some (Inl e)"
  "bank_then (Some (Inr x)) f = f x"
  by (simp_all add: bank_then_def)

definition prune_gone :: "('db, 'a, 'p, 'tx) dag_chain \<Rightarrow> bool" where
  "prune_gone c \<longleftrightarrow> dc_history_pruned c \<and> dc_base_accounts c = None"

definition rebuild_state ::
    "('db, 'a, 'p, 'tx, 'san, 'chk, 'f) dag_env \<Rightarrow> ('db, 'a, 'p, 'tx) dag_chain \<Rightarrow>
     (bank_error + ('db, 'p) bank) option" where
  "rebuild_state ev c =
     (if prune_gone c
      then Some (Inl (BankStorage ''history pruned; query state via virtual_state''))
      else
        bank_then (fresh_bank ev c AccountsDir) (\<lambda>bank.
        Option.bind (dc_total_order c) (\<lambda>order.
        run_bank (replay_blocks (ev_bank ev) c order) bank)))"

subsection \<open>The virtual state\<close>

definition can_extend :: "('db, 'a, 'p, 'tx) dag_chain \<Rightarrow> bytes32 list \<Rightarrow> bool" where
  "can_extend c order \<longleftrightarrow> dc_state c \<noteq> None \<and> length (dc_executed c) \<le> length order
     \<and> dc_executed c = take (length (dc_executed c)) order"

text \<open>
  The length of the checkpoint when it matches the order: \<open>None\<close> is the panic of \<open>order[len - 1]\<close>
  at length zero.
\<close>

definition from_checkpoint :: "('db, 'a, 'p, 'tx) dag_chain \<Rightarrow> bytes32 list \<Rightarrow> 'a dag_checkpoint option option" where
  "from_checkpoint c order =
     (case dc_checkpoint c of
        None \<Rightarrow> Some None
      | Some cp \<Rightarrow>
          if length order < cp_len cp then Some None
          else if cp_len cp = 0 then None
          else Some (if order ! (cp_len cp - 1) = cp_last_id cp then Some cp else None))"

definition restore_checkpoint ::
    "('db, 'a, 'p, 'tx, 'san, 'chk) bank_env \<Rightarrow> (pubkey \<times> 'a) list \<Rightarrow> ('db, 'p, unit) bm" where
  "restore_checkpoint bv accounts = commit_accounts_to bv accounts"

definition virtual_bank ::
    "('db, 'a, 'p, 'tx, 'san, 'chk, 'f) dag_env \<Rightarrow> ('db, 'a, 'p, 'tx) dag_chain \<Rightarrow> bytes32 list \<Rightarrow>
     (bank_error + ('db, 'p) bank) option" where
  "virtual_bank ev c order =
     Option.bind (from_checkpoint c order) (\<lambda>found.
     case found of
       Some cp \<Rightarrow>
         bank_then (open_bank ev c StateDir False) (\<lambda>bank.
         run_bank (rbind (restore_checkpoint (ev_bank ev) (cp_accounts cp)) (\<lambda>_.
           replay_blocks (ev_bank ev) c (drop (cp_len cp) order))) bank)
     | None \<Rightarrow>
         if prune_gone c
         then Some (Inl (BankStorage ''reorg below pruned history (deeper than finality)''))
         else bank_then (fresh_bank ev c StateDir) (\<lambda>bank.
           run_bank (replay_blocks (ev_bank ev) c order) bank))"

text \<open>The snapshot after the first \<open>target\<close> executed blocks, from the previous checkpoint.\<close>

definition checkpoint_bank ::
    "('db, 'a, 'p, 'tx, 'san, 'chk, 'f) dag_env \<Rightarrow> ('db, 'a, 'p, 'tx) dag_chain \<Rightarrow> nat \<Rightarrow>
     (bank_error + ('db, 'p) bank) option" where
  "checkpoint_bank ev c t =
     bank_then (open_bank ev c CheckpointDir (dc_checkpoint c = None)) (\<lambda>bank.
     case dc_checkpoint c of
       Some cp \<Rightarrow>
         bank_then (run_bank (restore_checkpoint (ev_bank ev) (cp_accounts cp)) bank) (\<lambda>bank.
         Option.bind (slice (cp_len cp) t (dc_executed c)) (\<lambda>ids.
         run_bank (replay_blocks (ev_bank ev) c ids) bank))
     | None \<Rightarrow>
         Option.bind (slice 0 t (dc_executed c)) (\<lambda>ids.
         run_bank (replay_blocks (ev_bank ev) c ids) bank))"

definition dump_bank ::
    "('db, 'a, 'p, 'tx, 'san, 'chk) bank_env \<Rightarrow> ('db, 'p) bank \<Rightarrow> bank_error + (pubkey \<times> 'a) list" where
  "dump_bank bv b = storage (adb_dump (be_rocks bv) (be_ao bv) (bk_db b))"

definition maybe_advance_checkpoint ::
    "('db, 'a, 'p, 'tx, 'san, 'chk, 'f) dag_env \<Rightarrow> (('db, 'a, 'p, 'tx) dag_chain, bank_error, unit) eff" where
  "maybe_advance_checkpoint ev c =
     (let fd = unat (dc_finality_depth c);
          cp_l = (case dc_checkpoint c of None \<Rightarrow> 0 | Some cp \<Rightarrow> cp_len cp);
          t = usize_sub (length (dc_executed c)) fd in
      if fd = 0 then rret () c
      else if length (dc_executed c) < usize_add cp_l ((2 * fd) mod 2 ^ 64) then rret () c
      else if t \<le> cp_l then rret () c
      else
        (case checkpoint_bank ev c t of
           None \<Rightarrow> None
         | Some (Inl e) \<Rightarrow> rfail e c
         | Some (Inr bank) \<Rightarrow>
             (case dump_bank (ev_bank ev) bank of
                Inl e \<Rightarrow> rfail e c
              | Inr accounts \<Rightarrow>
                  Option.bind (list_get (dc_executed c) (t - 1)) (\<lambda>last_id.
                  rret () (c\<lparr>dc_checkpoint := Some
                    \<lparr>cp_len = t, cp_last_id = last_id, cp_accounts = accounts\<rparr>\<rparr>)))))"

text \<open>The bank of the new order: the cached one extended, or a rebuilt one.  Its state is lost on an error.\<close>

definition next_bank ::
    "('db, 'a, 'p, 'tx, 'san, 'chk, 'f) dag_env \<Rightarrow> ('db, 'a, 'p, 'tx) dag_chain \<Rightarrow> bytes32 list \<Rightarrow>
     (bank_error + ('db, 'p) bank) option" where
  "next_bank ev c order =
     (if can_extend c order
      then run_bank (replay_blocks (ev_bank ev) c (drop (length (dc_executed c)) order)) (the (dc_state c))
      else virtual_bank ev c order)"

definition virtual_state ::
    "('db, 'a, 'p, 'tx, 'san, 'chk, 'f) dag_env \<Rightarrow>
     (('db, 'a, 'p, 'tx) dag_chain, bank_error, ('db, 'p) bank) eff" where
  "virtual_state ev c =
     Option.bind (dc_total_order c) (\<lambda>order.
     case next_bank ev c order of
       None \<Rightarrow> None
     | Some (Inl e) \<Rightarrow> rfail e (c\<lparr>dc_state := None\<rparr>)
     | Some (Inr bank) \<Rightarrow>
         rbind (maybe_advance_checkpoint ev) (\<lambda>_. rret bank)
           (c\<lparr>dc_state := Some bank, dc_executed := order\<rparr>))"

end
