(* ===== verification/DagPrune.thy ===== *)
theory DagPrune
  imports DagState
begin

text \<open>
  Pruning and snapshots of \<^verbatim>\<open>crates/tao-dagvm/src/dag_chain.rs\<close>: dropping the transactions of
  finalized blocks, re-anchoring the chain at a pruning point, exporting a snapshot and adopting
  one from a peer.
\<close>

definition prune_finalized_transactions ::
    "(('db, 'a, 'p, 'tx) dag_chain, bank_error, nat) eff" where
  "prune_finalized_transactions c =
     (case dc_checkpoint c of
        None \<Rightarrow> rret 0 c
      | Some cp \<Rightarrow>
          Option.bind (slice 0 (cp_len cp) (dc_executed c)) (\<lambda>prefix.
          let pruned = card {i \<in> set prefix. dc_block_txs c i \<noteq> None};
              c' = c\<lparr>dc_block_txs := (dc_block_txs c) |` (- set prefix)\<rparr>
          in rret pruned
            (if 0 < pruned
             then c'\<lparr>dc_history_pruned := True, dc_state := None, dc_executed := []\<rparr> else c')))"

definition is_history_pruned :: "('db, 'a, 'p, 'tx) dag_chain \<Rightarrow> bool" where
  "is_history_pruned c = dc_history_pruned c"

subsection \<open>Snapshots for peers\<close>

text \<open>The outer option is a panic of the total order, the inner one the code's \<open>None\<close>.\<close>

definition export_snapshot ::
    "('db, 'a, 'p, 'tx, 'san, 'chk, 'f) dag_env \<Rightarrow> ('db, 'a, 'p, 'tx) dag_chain \<Rightarrow> bytes option option" where
  "export_snapshot ev c =
     (if \<not> dc_history_pruned c then Some None
      else
        (case (dc_headers c (dc_genesis_dag c), dc_base_accounts c) of
           (Some h, Some accounts) \<Rightarrow>
             map_option (\<lambda>order.
               case ev_ser_snapshot ev
                   \<lparr>sn_origin_header = h, sn_accounts = accounts,
                    sn_suffix = List.map_filter (get_block ev c) (drop 1 order), sn_proof = dc_proof c\<rparr> of
                 Inl _ \<Rightarrow> None | Inr bs \<Rightarrow> Some bs)
               (dc_total_order c)
         | _ \<Rightarrow> Some None))"

fun serialize_blocks ::
    "('db, 'a, 'p, 'tx, 'san, 'chk, 'f) dag_env \<Rightarrow> dag_block list \<Rightarrow> string + bytes list" where
  "serialize_blocks ev [] = Inr []"
| "serialize_blocks ev (b # bs) =
     and_then (ev_ser_record ev (RecBlock b)) (\<lambda>rec.
     and_then (serialize_blocks ev bs) (\<lambda>recs. Inr (rec # recs)))"

definition compacted_records ::
    "('db, 'a, 'p, 'tx, 'san, 'chk, 'f) dag_env \<Rightarrow> dag_block_header \<Rightarrow> (pubkey \<times> 'a) list \<Rightarrow>
     dag_block_header list \<Rightarrow> dag_block list \<Rightarrow> string + bytes list" where
  "compacted_records ev h accounts prf suffix =
     and_then (ev_ser_record ev (RecSnapshot h accounts prf)) (\<lambda>rec.
     and_then (serialize_blocks ev suffix) (\<lambda>recs. Inr (rec # recs)))"

text \<open>Rewriting the log; on an error the old file is kept.\<close>

definition replace_log :: "bytes list \<Rightarrow> ('db, 'a, 'p, 'tx) dag_chain \<Rightarrow> tao_error + ('db, 'a, 'p, 'tx) dag_chain" where
  "replace_log records c =
     (case log_replace_all (dc_log c) records of
        (Some e, _) \<Rightarrow> Inl e
      | (None, file) \<Rightarrow> Inr (c\<lparr>dc_log := file\<rparr>))"

definition snapshot_wanted :: "('db, 'a, 'p, 'tx) dag_chain \<Rightarrow> u256 \<Rightarrow> bool" where
  "snapshot_wanted c work \<longleftrightarrow>
     (block_count c = 1 \<and> \<not> dc_history_pruned c) \<or> (dc_bootstrapped c \<and> dc_bootstrap_work c < work)"

fun validate_suffix ::
    "('db, 'a, 'p, 'tx, 'san, 'chk, 'f) dag_env \<Rightarrow> i64 \<Rightarrow> dag_block list \<Rightarrow> dag_chain_error + unit" where
  "validate_suffix ev now [] = Inr ()"
| "validate_suffix ev now (b # bs) =
     and_then (validate_block_intrinsic ev now b) (\<lambda>_. validate_suffix ev now bs)"

text \<open>Adopting a snapshot once it is wanted: re-anchor, apply the suffix, rewrite the log.\<close>

definition adopt_snapshot ::
    "('db, 'a, 'p, 'tx, 'san, 'chk, 'f) dag_env \<Rightarrow> 'a sync_snapshot \<Rightarrow> u256 \<Rightarrow> ('db, 'a, 'p, 'tx, bool) cm" where
  "adopt_snapshot ev snap work c =
     Option.bind (load_snapshot ev (sn_origin_header snap) (sn_accounts snap) (sn_proof snap) c) (\<lambda>c.
     rbind (rfor (sn_suffix snap) (dag_apply ev)) (\<lambda>_.
     rbind (rread (\<lambda>_. map_err Codec (compacted_records ev (sn_origin_header snap) (sn_accounts snap)
         (sn_proof snap) (sn_suffix snap)))) (\<lambda>records.
     rbind (rwrite (\<lambda>c. map_err (\<lambda>e. LogFailure (err_text e)) (replace_log records c))) (\<lambda>_.
     rbind (rwrite (\<lambda>c. Inr (c\<lparr>dc_bootstrapped := True, dc_bootstrap_work := work\<rparr>))) (\<lambda>_.
     rret True)))) c)"

definition import_snapshot ::
    "('db, 'a, 'p, 'tx, 'san, 'chk, 'f) dag_env \<Rightarrow> i64 \<Rightarrow> bytes \<Rightarrow> ('db, 'a, 'p, 'tx, bool) cm" where
  "import_snapshot ev now bs c =
     (if MAX_SNAPSHOT_BYTES < length bs then rfail (SnapshotTooLarge (length bs)) c
      else case ev_de_snapshot ev bs of
        Inl e \<Rightarrow> rfail (Codec e) c
      | Inr snap \<Rightarrow>
          let origin = hid ev (sn_origin_header snap) in
          if origin \<in> dc_blocks c then rret False c
          else (case verify_proof ev (sn_proof snap) origin (dc_original_genesis c) of
            Inl e \<Rightarrow> rfail e c
          | Inr work \<Rightarrow>
              if \<not> snapshot_wanted c work then rret False c
              else (case validate_suffix ev now (sn_suffix snap) of
                Inl e \<Rightarrow> rfail e c
              | Inr _ \<Rightarrow> adopt_snapshot ev snap work c)))"

subsection \<open>Re-anchoring at a pruning point\<close>

text \<open>The deepest index at most \<open>i\<close>, and at least 1, of a block on the selected chain.\<close>

fun find_prune_index :: "bytes32 set \<Rightarrow> bytes32 list \<Rightarrow> nat \<Rightarrow> nat option" where
  "find_prune_index on_chain order 0 = None"
| "find_prune_index on_chain order (Suc i) =
     (if order ! Suc i \<in> on_chain then Some (Suc i) else find_prune_index on_chain order i)"

definition retain_depth :: "('db, 'a, 'p, 'tx) dag_chain \<Rightarrow> nat" where
  "retain_depth c = unat (saturating_add (dc_lwma_window c) (max (dc_finality_depth c) 1))"

definition prune_index :: "('db, 'a, 'p, 'tx) dag_chain \<Rightarrow> bytes32 list \<Rightarrow> nat option option" where
  "prune_index c order =
     (let n = length order; retain = retain_depth c in
      if n \<le> min (retain + 1) (2 ^ 64 - 1) then Some None
      else
        Option.bind (chain_loop ((dc_engine c)\<lparr>de_genesis := dc_genesis_dag c\<rparr>) (de_tip (dc_engine c)) [])
          (\<lambda>chain. Some (find_prune_index (set chain) order (min (n - retain) (n - 1)))))"

text \<open>The account set after the pruned prefix.\<close>

definition prune_base ::
    "('db, 'a, 'p, 'tx, 'san, 'chk, 'f) dag_env \<Rightarrow> ('db, 'a, 'p, 'tx) dag_chain \<Rightarrow> bytes32 list \<Rightarrow> nat \<Rightarrow>
     (bank_error + (pubkey \<times> 'a) list) option" where
  "prune_base ev c order i =
     bank_then
       (bank_then (open_bank ev c CheckpointDir (dc_base_accounts c = None \<and> \<not> dc_history_pruned c)) (\<lambda>bank.
        if prune_gone c then
          (case dc_checkpoint c of
             None \<Rightarrow> Some (Inl (BankStorage ''history pruned; no checkpoint available''))
           | Some cp \<Rightarrow>
               if i + 1 < cp_len cp then Some (Inl (BankStorage ''prune point is before checkpoint''))
               else run_bank (rbind (restore_checkpoint (ev_bank ev) (cp_accounts cp)) (\<lambda>_.
                 if cp_len cp \<le> i
                 then replay_blocks (ev_bank ev) c (take (i + 1 - cp_len cp) (drop (cp_len cp) order))
                 else rret ())) bank)
        else
          (case dc_base_accounts c of
             Some base \<Rightarrow>
               run_bank (rbind (restore_checkpoint (ev_bank ev) base) (\<lambda>_.
                 replay_blocks (ev_bank ev) c (take (i + 1) order))) bank
           | None \<Rightarrow> run_bank (replay_blocks (ev_bank ev) c (take (i + 1) order)) bank)))
       (\<lambda>bank. Some (dump_bank (ev_bank ev) bank))"

text \<open>The engine over the kept suffix; a missing header panics.\<close>

definition kept_parents :: "bytes32 \<Rightarrow> bytes32 set \<Rightarrow> bytes32 list \<Rightarrow> bytes32 list" where
  "kept_parents p kept parents =
     (let ps = dedup {} (map (\<lambda>q. if q \<in> kept then q else p) parents) in if ps = [] then [p] else ps)"

fun readd_blocks ::
    "'f f64_ops \<Rightarrow> (bytes32 \<rightharpoonup> dag_block_header) \<Rightarrow> bytes32 \<Rightarrow> bytes32 set \<Rightarrow> bytes32 list \<Rightarrow> dag_engine \<Rightarrow>
     dag_engine option" where
  "readd_blocks fo headers p kept [] e = Some e"
| "readd_blocks fo headers p kept (i # ids) e =
     Option.bind (headers i) (\<lambda>h.
     Option.bind (engine_add_block fo i (kept_parents p kept (dh_parents h)) e) (\<lambda>(_, e).
     readd_blocks fo headers p kept ids e))"

definition reanchor ::
    "dag_engine \<Rightarrow> bytes32 \<Rightarrow> bytes32 set \<Rightarrow> (pubkey \<times> 'a) list \<Rightarrow> dag_block_header list \<Rightarrow>
     ('db, 'a, 'p, 'tx) dag_chain \<Rightarrow> ('db, 'a, 'p, 'tx) dag_chain" where
  "reanchor e p kept base prf c =
     c\<lparr>dc_engine := e, dc_genesis_dag := p, dc_base_accounts := Some base, dc_history_pruned := True,
       dc_checkpoint := None, dc_headers := (dc_headers c) |` kept, dc_block_txs := (dc_block_txs c) |` kept,
       dc_blocks := kept, dc_state := None, dc_executed := [], dc_tips := [de_tip e], dc_proof := prf\<rparr>"

definition prune_at ::
    "('db, 'a, 'p, 'tx, 'san, 'chk, 'f) dag_env \<Rightarrow> bytes32 list \<Rightarrow> nat \<Rightarrow>
     (('db, 'a, 'p, 'tx) dag_chain, bank_error, nat) eff" where
  "prune_at ev order i c =
     (let p = order ! i; prf = build_proof_for ev c p; kept = set (drop i order) in
      case prune_base ev c order i of
        None \<Rightarrow> None
      | Some (Inl e) \<Rightarrow> rfail e c
      | Some (Inr base) \<Rightarrow>
          Option.bind (fresh_engine (ev_floats ev) (dc_k c) p) (\<lambda>e.
          Option.bind (readd_blocks (ev_floats ev) (dc_headers c) p kept (drop (i + 1) order) e) (\<lambda>e.
          Option.bind (dc_headers c p) (\<lambda>h.
          let pruned = card (dc_blocks c) - card kept;
              suffix = List.map_filter (get_block ev c) (drop (i + 1) order) in
          rbind (rread (\<lambda>_. map_err BankStorage (compacted_records ev h base prf suffix))) (\<lambda>records.
          rbind (rwrite (\<lambda>c. storage (replace_log records c))) (\<lambda>_.
          rbind (rwrite (\<lambda>c. Inr (reanchor e p kept base prf c))) (\<lambda>_. rret pruned))) c))))"

definition prune_chain ::
    "('db, 'a, 'p, 'tx, 'san, 'chk, 'f) dag_env \<Rightarrow> (('db, 'a, 'p, 'tx) dag_chain, bank_error, nat) eff" where
  "prune_chain ev c =
     Option.bind (dc_total_order c) (\<lambda>order.
     Option.bind (prune_index c order) (\<lambda>found.
     case found of None \<Rightarrow> rret 0 c | Some i \<Rightarrow> prune_at ev order i c))"

end
