(* ===== verification/ReachKeeps.thy ===== *)
theory ReachKeeps
  imports Reach
begin

text \<open>
  What the reallocation of intervals leaves alone: every property of the store that setting an
  interval and moving the reindex root preserve is preserved by all of \<open>reindex.rs\<close> and by the
  advance of the reindex root, whether they succeed or fail.
\<close>

definition stable :: "(mem_store \<Rightarrow> bool) \<Rightarrow> bool" where
  "stable Q \<longleftrightarrow> (\<forall>b i s t. Q s \<longrightarrow> set_interval b i s = Inr t \<longrightarrow> Q t)
     \<and> (\<forall>s r. Q s \<longrightarrow> Q (s\<lparr>ms_reindex_root := r\<rparr>))"

abbreviation on_store :: "(mem_store \<Rightarrow> bool) \<Rightarrow> reindex_ctx \<Rightarrow> bool" where
  "on_store Q \<equiv> \<lambda>c. Q (rc_store c)"

text \<open>From the calls of a loop to the loop: the induction rules speak of runs that return.\<close>

lemma keeps_of_runs:
  assumes "\<And>s y. m s = Some y \<Longrightarrow> P s \<longrightarrow> P (snd y)"
  shows "keeps P m"
  using assms by (auto simp: keeps_def keeps_at_def split: option.split)

lemma run_of_keeps_at: "keeps_at P r \<Longrightarrow> r = Some y \<Longrightarrow> P (snd y)"
  by (auto simp: keeps_at_def)

lemma keeps_cread [keeps_rules]: "keeps P (cread q)"
  by (simp add: keeps_def keeps_at_def cread_def)

lemma keeps_set_interval [keeps_rules]: "stable Q \<Longrightarrow> keeps (on_store Q) (cwrite (set_interval b i))"
  unfolding cwrite_def by (rule keeps_rwrite) (auto simp: stable_def)

lemma keeps_sizes [keeps_rules]:
  "keeps P (subtree_size b)" "keeps P (subtree_sizes_of bs)" "keeps (on_store Q) (set_size b n)"
  unfolding subtree_size_def subtree_sizes_of_def set_size_def
  by (auto intro!: keeps_rules)

lemma keeps_count_up [keeps_rules]: "keeps (on_store Q) (count_up block current counts)"
proof (rule keeps_of_runs)
  fix c y assume "count_up block current counts c = Some y"
  then show "on_store Q c \<longrightarrow> on_store Q (snd y)"
  proof (induction rule: count_up.raw_induct [rotated, consumes 1])
    case (1 f block current counts c y)
    have IH: "keeps (on_store Q) (f a b d)" for a b d using 1(1) by (rule keeps_of_runs)
    show ?case
      by (rule impI, rule run_of_keeps_at [OF _ 1(2)], rule keepsD [where s = c], intro keeps_rules IH)
  qed
qed

lemma keeps_count_loop [keeps_rules]:
  "keeps (on_store Q) (count_loop block queue counts)"
proof (rule keeps_of_runs)
  fix c y assume "count_loop block queue counts c = Some y"
  then show "on_store Q c \<longrightarrow> on_store Q (snd y)"
  proof (induction rule: count_loop.raw_induct [rotated, consumes 1])
    case (1 g block queue counts c y)
    have IH: "keeps (on_store Q) (g a b c)" for a b c using 1(1) by (rule keeps_of_runs)
    show ?case
      by (rule impI, rule run_of_keeps_at [OF _ 1(2)], rule keepsD [where s = c],
          intro keeps_rules IH)
  qed
qed

lemma keeps_count_subtrees [keeps_rules]: "keeps (on_store Q) (count_subtrees block)"
  unfolding count_subtrees_def by (intro keeps_rules)

lemma keeps_set_intervals [keeps_rules]: "stable Q \<Longrightarrow> keeps (on_store Q) (set_intervals bs ivs)"
  unfolding set_intervals_def by (intro keeps_rules)

lemma keeps_propagate_loop [keeps_rules]:
  assumes "stable Q"
  shows "keeps (on_store Q) (propagate_loop fo queue)"
proof (rule keeps_of_runs)
  fix c y assume "propagate_loop fo queue c = Some y"
  then show "on_store Q c \<longrightarrow> on_store Q (snd y)"
  proof (induction rule: propagate_loop.raw_induct [rotated, consumes 1])
    case (1 g fo queue c y)
    have IH: "keeps (on_store Q) (g a b)" for a b using 1(1) by (rule keeps_of_runs)
    show ?case
      by (rule impI, rule run_of_keeps_at [OF _ 1(2)], rule keepsD [where s = c],
          intro keeps_rules IH assms)
  qed
qed

lemma keeps_propagate_interval [keeps_rules]: "stable Q \<Longrightarrow> keeps (on_store Q) (propagate_interval fo b)"
  unfolding propagate_interval_def by (intro keeps_rules)

lemma keeps_apply_ops [keeps_rules]:
  assumes "stable Q"
  shows "keeps (on_store Q) (apply_interval_op b d op)"
    and "keeps (on_store Q) (apply_interval_op_and_propagate fo b d op)"
  unfolding apply_interval_op_def apply_interval_op_and_propagate_def
  by (intro keeps_rules assms)+

lemma keeps_offset_loop [keeps_rules]:
  "stable Q \<Longrightarrow> keeps (on_store Q) (offset_loop fo a d op last_op bs)"
  by (induction bs) (auto intro!: keeps_rules)

lemma keeps_offset_siblings [keeps_rules]:
  assumes "stable Q"
  shows "keeps (on_store Q) (offset_siblings_before fo a b d)"
    and "keeps (on_store Q) (offset_siblings_after fo a b d)"
  unfolding offset_siblings_before_def offset_siblings_after_def
  by (intro keeps_rules assms)+

subsection \<open>Reclaiming, reindexing\<close>

lemma keeps_reclaim_down_before [keeps_rules]:
  assumes "stable Q"
  shows "keeps (on_store Q) (reclaim_down_before fo alloc root required current slack_sum path_len)"
proof (rule keeps_of_runs)
  fix c y assume "reclaim_down_before fo alloc root required current slack_sum path_len c = Some y"
  then show "on_store Q c \<longrightarrow> on_store Q (snd y)"
  proof (induction rule: reclaim_down_before.raw_induct [rotated, consumes 1])
    case (1 g fo alloc root required current slack_sum path_len c y)
    have IH: "keeps (on_store Q) (g a b c d e f h)" for a b c d e f h using 1(1) by (rule keeps_of_runs)
    show ?case
      by (rule impI, rule run_of_keeps_at [OF _ 1(2)], rule keepsD [where s = c],
          intro keeps_rules IH assms)
  qed
qed

lemma keeps_reclaim_up_before [keeps_rules]:
  assumes "stable Q"
  shows "keeps (on_store Q) (reclaim_up_before fo alloc common path_slack_alloc child)"
proof (rule keeps_of_runs)
  fix c y assume "reclaim_up_before fo alloc common path_slack_alloc child c = Some y"
  then show "on_store Q c \<longrightarrow> on_store Q (snd y)"
  proof (induction rule: reclaim_up_before.raw_induct [rotated, consumes 1])
    case (1 g fo alloc common path_slack_alloc child c y)
    have IH: "keeps (on_store Q) (g a b c d e)" for a b c d e using 1(1) by (rule keeps_of_runs)
    show ?case
      by (rule impI, rule run_of_keeps_at [OF _ 1(2)], rule keepsD [where s = c],
          intro keeps_rules IH assms)
  qed
qed

lemma keeps_reclaim_down_after [keeps_rules]:
  assumes "stable Q"
  shows "keeps (on_store Q) (reclaim_down_after fo alloc root required current slack_sum path_len)"
proof (rule keeps_of_runs)
  fix c y assume "reclaim_down_after fo alloc root required current slack_sum path_len c = Some y"
  then show "on_store Q c \<longrightarrow> on_store Q (snd y)"
  proof (induction rule: reclaim_down_after.raw_induct [rotated, consumes 1])
    case (1 g fo alloc root required current slack_sum path_len c y)
    have IH: "keeps (on_store Q) (g a b c d e f h)" for a b c d e f h using 1(1) by (rule keeps_of_runs)
    show ?case
      by (rule impI, rule run_of_keeps_at [OF _ 1(2)], rule keepsD [where s = c],
          intro keeps_rules IH assms)
  qed
qed

lemma keeps_reclaim_up_after [keeps_rules]:
  assumes "stable Q"
  shows "keeps (on_store Q) (reclaim_up_after fo alloc common path_slack_alloc child)"
proof (rule keeps_of_runs)
  fix c y assume "reclaim_up_after fo alloc common path_slack_alloc child c = Some y"
  then show "on_store Q c \<longrightarrow> on_store Q (snd y)"
  proof (induction rule: reclaim_up_after.raw_induct [rotated, consumes 1])
    case (1 g fo alloc common path_slack_alloc child c y)
    have IH: "keeps (on_store Q) (g a b c d e)" for a b c d e using 1(1) by (rule keeps_of_runs)
    show ?case
      by (rule impI, rule run_of_keeps_at [OF _ 1(2)], rule keepsD [where s = c],
          intro keeps_rules IH assms)
  qed
qed

lemma keeps_reclaim [keeps_rules]:
  assumes "stable Q"
  shows "keeps (on_store Q) (reclaim_interval_before fo a co ch ro re)"
    and "keeps (on_store Q) (reclaim_interval_after fo a co ch ro re)"
    and "keeps (on_store Q) (reindex_intervals_earlier_than_root fo a ro co re)"
  unfolding reclaim_interval_before_def reclaim_interval_after_def reindex_intervals_earlier_than_root_def
  by (intro keeps_rules assms)+

lemma keeps_reindex_loop [keeps_rules]:
  assumes "stable Q"
  shows "keeps (on_store Q) (reindex_loop fo current root)"
proof (rule keeps_of_runs)
  fix c y assume "reindex_loop fo current root c = Some y"
  then show "on_store Q c \<longrightarrow> on_store Q (snd y)"
  proof (induction rule: reindex_loop.raw_induct [rotated, consumes 1])
    case (1 g fo current root c y)
    have IH: "keeps (on_store Q) (g a b c)" for a b c using 1(1) by (rule keeps_of_runs)
    show ?case
      by (rule impI, rule run_of_keeps_at [OF _ 1(2)], rule keepsD [where s = c],
          intro keeps_rules IH assms)
  qed
qed

lemma keeps_reindex_intervals [keeps_rules]: "stable Q \<Longrightarrow> keeps (on_store Q) (reindex_intervals fo b r)"
  unfolding reindex_intervals_def by (rule keeps_reindex_loop)

lemma keeps_concentrate_sizes [keeps_rules]: "keeps (on_store Q) (concentrate_sizes bs)"
  by (induction bs) (simp_all only: concentrate_sizes.simps, (intro keeps_rules | assumption)+)

lemma keeps_place_siblings [keeps_rules]: "stable Q \<Longrightarrow> keeps (on_store Q) (place_siblings fo bs ivs)"
  unfolding place_siblings_def by (intro keeps_rules)

lemma keeps_concentrate_interval [keeps_rules]:
  "stable Q \<Longrightarrow> keeps (on_store Q) (concentrate_interval fo p ch fin)"
  unfolding concentrate_interval_def tighten_intervals_before_def tighten_intervals_after_def
    expand_interval_to_chosen_def
  by (intro keeps_rules)

text \<open>A computation in a fresh context is one on the store.\<close>

lemma keeps_with_ctx [keeps_rules]:
  assumes "keeps (on_store Q) m"
  shows "keeps Q (with_ctx depth slack m)"
proof (rule keepsI)
  fix s assume "Q s"
  then have "keeps_at (on_store Q) (m (reindex_ctx_new s depth slack))"
    by (intro keepsD [OF assms]) (simp add: reindex_ctx_new_def)
  then show "keeps_at Q (with_ctx depth slack m s)"
    by (simp add: with_ctx_def keeps_at_def split: option.splits prod.splits)
qed

lemma keeps_advance_loop [keeps_rules]:
  assumes "stable Q"
  shows "keeps Q (advance_loop fo depth slack nxt ancestor)"
proof (rule keeps_of_runs)
  fix s y assume "advance_loop fo depth slack nxt ancestor s = Some y"
  then show "Q s \<longrightarrow> Q (snd y)"
  proof (induction rule: advance_loop.raw_induct [rotated, consumes 1])
    case (1 g fo depth slack nxt ancestor s y)
    have IH: "keeps Q (g a b c d e)" for a b c d e using 1(1) by (rule keeps_of_runs)
    show ?case
      by (rule impI, rule run_of_keeps_at [OF _ 1(2)], rule keepsD [where s = s],
          intro keeps_rules IH assms)
  qed
qed

lemma keeps_find_common_tree_ancestor [keeps_rules]:
  "keeps Q (find_common_tree_ancestor current reindex_root)"
proof (rule keeps_of_runs)
  fix s y assume "find_common_tree_ancestor current reindex_root s = Some y"
  then show "Q s \<longrightarrow> Q (snd y)"
  proof (induction rule: find_common_tree_ancestor.raw_induct [rotated, consumes 1])
    case (1 g current reindex_root s y)
    have IH: "keeps Q (g a b)" for a b using 1(1) by (rule keeps_of_runs)
    show ?case
      by (rule impI, rule run_of_keeps_at [OF _ 1(2)], rule keepsD [where s = s],
          intro keeps_rules IH)
  qed
qed

lemma keeps_next_root_loop [keeps_rules]:
  "keeps Q (next_root_loop hint hint_height depth nxt)"
proof (rule keeps_of_runs)
  fix s y assume "next_root_loop hint hint_height depth nxt s = Some y"
  then show "Q s \<longrightarrow> Q (snd y)"
  proof (induction rule: next_root_loop.raw_induct [rotated, consumes 1])
    case (1 g hint hint_height depth nxt s y)
    have IH: "keeps Q (g a b c d)" for a b c d using 1(1) by (rule keeps_of_runs)
    show ?case
      by (rule impI, rule run_of_keeps_at [OF _ 1(2)], rule keepsD [where s = s],
          intro keeps_rules IH)
  qed
qed

lemma keeps_hint [keeps_rules]:
  assumes "stable Q"
  shows "keeps Q (hint_virtual_selected_parent fo b)"
  unfolding hint_virtual_selected_parent_def try_advancing_reindex_root_def find_next_reindex_root_def
  using assms by (intro keeps_rules) (auto simp: stable_def set_reindex_root_def intro!: keeps_rules)

subsection \<open>The blocks of the index\<close>

definition has_data :: "blk set \<Rightarrow> mem_store \<Rightarrow> bool" where
  "has_data X s \<longleftrightarrow> X \<subseteq> dom (ms_map s)"

lemma has_data_put: "has_data X s \<Longrightarrow> has_data (insert b X) (put_data s b d)"
  by (auto simp: has_data_def put_data_def)

lemma has_data_mono: "has_data X s \<Longrightarrow> Y \<subseteq> X \<Longrightarrow> has_data Y s"
  by (auto simp: has_data_def)

lemma stable_has_data [simp]: "stable (has_data X)"
  by (auto simp: stable_def set_interval_def has_data_def put_data_def)

lemma keeps_add_dag_block [keeps_rules]: "keeps (has_data X) (add_dag_block b ms)"
  unfolding add_dag_block_def insert_to_future_covering_set_def
  by (intro keeps_rules keeps_rfor, case_tac xb)
     (auto intro!: keeps_rules simp: insert_future_covering_item_def has_data_def put_data_def subset_iff domIff)

text \<open>Adding a block succeeds only for a block without data, which then has some.\<close>

lemma add_tree_block_data:
  assumes run: "add_tree_block fo b parent depth slack s = Some (Inr u, t)"
  shows "ms_map s b = None \<and> (has_data X s \<longrightarrow> has_data (insert b X) t)"
proof -
  obtain remaining where rem: "interval_remaining_after s parent = Inr remaining"
    using run by (cases "interval_remaining_after s parent") (auto simp: add_tree_block_def)
  obtain s1 where s1: "append_child parent b s = Inr s1"
    using run rem by (cases "append_child parent b s") (auto simp: add_tree_block_def rbind_def rwrite_def)
  obtain h where h: "get_height s1 parent = Inr h"
    using run rem s1 by (cases "get_height s1 parent") (auto simp: add_tree_block_def rbind_def rwrite_def)
  define i where "i = (if iv_is_empty remaining then remaining else fst (split_half remaining))"
  obtain s2 where s2: "store_insert b parent i (h + 1) s1 = Inr s2"
    using run rem s1 h
    by (cases "store_insert b parent i (h + 1) s1")
      (auto simp: add_tree_block_def rbind_def rwrite_def i_def split: if_splits)
  have dom1: "dom (ms_map s1) = dom (ms_map s)"
    using s1 by (auto simp: append_child_def put_data_def get_data_def split: if_splits)
  have new: "ms_map s1 b = None" and s2': "s2 = put_data s1 b (mem_data_new parent i (h + 1))"
    using s2 by (auto simp: store_insert_def split: if_splits)
  have "has_data (insert b X) t" if X: "has_data X s"
  proof -
    have "has_data (insert b X) s2" unfolding s2'
      using X dom1 by (intro has_data_put) (simp add: has_data_def)
    moreover have "t = s2 \<or> (\<exists>root r. with_ctx depth slack (reindex_intervals fo b root) s2 = Some (r, t))"
      using run rem s1 h s2
      by (auto simp: add_tree_block_def rbind_def rwrite_def i_def split: if_splits option.splits sum.splits)
    ultimately show ?thesis
      using keeps_run [of "has_data (insert b X)" "with_ctx depth slack (reindex_intervals fo b _)"]
        keeps_with_ctx [OF keeps_reindex_intervals [OF stable_has_data]] by blast
  qed
  moreover have "ms_map s b = None" using new dom1 by (auto simp: domIff)
  ultimately show ?thesis by blast
qed

lemma reach_add_block_data:
  assumes run: "reach_add_block fo b parent ms s = Some (Inr u, t)"
  shows "ms_map s b = None \<and> (has_data X s \<longrightarrow> has_data (insert b X) t)"
proof -
  obtain x s1 where s1: "add_tree_block fo b parent DEFAULT_REINDEX_DEPTH DEFAULT_REINDEX_SLACK s = Some (Inr x, s1)"
    "add_dag_block b ms s1 = Some (Inr u, t)"
    using run unfolding reach_add_block_def add_block_with_params_def option.case
    by (rule rbind_Inr_E)
  have "has_data (insert b X) t" if "has_data X s"
    using keeps_run [OF keeps_add_dag_block _ s1(2)] add_tree_block_data [OF s1(1), of X] that by blast
  then show ?thesis using add_tree_block_data [OF s1(1)] by blast
qed

end
