(* ===== verification/DagRuns.thy ===== *)
theory DagRuns
  imports DagPrune ReachKeeps
begin

text \<open>
  Runs of the node: \<open>dag_runs ev op c\<close> are the chains reached from an empty log by accepting and
  mining blocks (in any order and with any outcome but an undecodable transaction), querying the
  virtual state and setting the finality depth.  The lemmas: what an accepted block satisfies; a
  run survives a restart; the incremental state is the rebuilt one.
\<close>

subsection \<open>Computations that ignore a part of the state\<close>

text \<open>\<open>commutes g m\<close>: \<open>m\<close> neither reads nor writes what \<open>g\<close> overwrites.\<close>

definition commutes :: "('s \<Rightarrow> 's) \<Rightarrow> ('s, 'e, 'a) eff \<Rightarrow> bool" where
  "commutes g m \<longleftrightarrow> (\<forall>s. m (g s) = map_option (map_prod id g) (m s))"

lemma commutes_rbind:
  assumes "commutes g m" "\<And>x. commutes g (f x)"
  shows "commutes g (rbind m f)"
  unfolding commutes_def
proof
  fix s
  show "rbind m f (g s) = map_option (map_prod id g) (rbind m f s)"
    using assms by (cases "m s") (auto simp: rbind_def commutes_def split: sum.split)
qed

lemma commutes_rfor: "(\<And>x. commutes g (f x)) \<Longrightarrow> commutes g (rfor xs f)"
proof (induction xs)
  case (Cons x xs)
  then show ?case unfolding rfor.simps by (intro commutes_rbind) blast+
qed (simp add: commutes_def)

lemma commutes_run: "commutes g m \<Longrightarrow> m s = Some (r, t) \<Longrightarrow> m (g s) = Some (r, g t)"
  by (simp add: commutes_def)

text \<open>What is not in the log: the cached state, the checkpoint, the finality depth.\<close>

definition volatile :: "bytes \<Rightarrow> ('db, 'a, 'p, 'tx) dag_chain \<Rightarrow> ('db, 'a, 'p, 'tx) dag_chain" where
  "volatile L c = c\<lparr>dc_log := L, dc_state := None, dc_executed := [],
     dc_finality_depth := DEFAULT_FINALITY_DEPTH, dc_checkpoint := None\<rparr>"

lemma volatile_sel [simp]:
  "dc_engine (volatile L c) = dc_engine c" "dc_blocks (volatile L c) = dc_blocks c"
  "dc_genesis_dag (volatile L c) = dc_genesis_dag c" "dc_block_txs (volatile L c) = dc_block_txs c"
  "dc_headers (volatile L c) = dc_headers c" "dc_tips (volatile L c) = dc_tips c"
  "dc_k (volatile L c) = dc_k c" "dc_log (volatile L c) = L"
  by (simp_all add: volatile_def)

lemma volatile_volatile [simp]: "volatile L (volatile L' c) = volatile L c"
  by (simp add: volatile_def)

lemma commutes_apply: "commutes (volatile L) (apply_with_id ev b i)"
  unfolding commutes_def
proof
  fix c :: "('a, 'b, 'c, 'd) dag_chain"
  show "apply_with_id ev b i (volatile L c) = map_option (map_prod id (volatile L)) (apply_with_id ev b i c)"
  proof (cases "engine_add_block (ev_floats ev) i
      (remap_parents (dc_genesis_dag c) (dc_blocks c) (dh_parents (db_header b))) (dc_engine c)")
    case None
    then show ?thesis by (simp add: apply_with_id_def)
  next
    case (Some de)
    then show ?thesis
      by (cases de; cases "decode_txs ev (db_transactions b)")
        (simp_all add: apply_with_id_def volatile_def Let_def)
  qed
qed

lemma commutes_replay: "commutes (volatile L) (replay_record ev bs)"
proof -
  have load: "load_snapshot ev h accounts pr (volatile L c) =
      map_option (volatile L) (load_snapshot ev h accounts pr c)" for h accounts pr c
    by (cases "fresh_engine (ev_floats ev) (dc_k c) (hid ev h)")
      (simp_all add: load_snapshot_def volatile_def Let_def)
  show ?thesis
  proof (cases "ev_de_record ev bs")
    case (Inl e)
    then show ?thesis
    proof (cases "ev_de_legacy ev bs")
      case (Inr r)
      obtain b where "r = LegacyBlock b" by (cases r)
      then show ?thesis using Inl Inr commutes_apply [of L ev "from_legacy b"]
        by (cases "legacy_block_id ev (lb_header b)") (simp_all add: replay_record_def commutes_def)
    qed (simp add: replay_record_def commutes_def)
  next
    case (Inr r)
    then show ?thesis
      by (cases r)
        (simp_all add: replay_record_def commutes_def dag_apply_def load
           commutes_apply [unfolded commutes_def, rule_format] option.map_comp comp_def
           map_option_bind bind_map_option)
  qed
qed

subsection \<open>Accepting a block\<close>

text \<open>What the checks of \<open>accept\<close> establish of a block, against the chain it is accepted into.\<close>

definition valid_block ::
    "('db, 'a, 'p, 'tx, 'san, 'chk, 'f) dag_env \<Rightarrow> i64 \<Rightarrow> ('db, 'a, 'p, 'tx) dag_chain \<Rightarrow> dag_block \<Rightarrow> bool" where
  "valid_block ev now c b \<longleftrightarrow>
     validate_block_intrinsic ev now b = Inr ()
     \<and> set (dh_parents (db_header b)) \<subseteq> dc_blocks c
     \<and> (\<exists>sp. selected_parent_dag c (dh_parents (db_header b)) = Some sp
          \<and> selected_chain_target c sp = Some (dh_target (db_header b))
          \<and> \<not> regresses c sp (db_header b)
          \<and> dh_interlink (db_header b) = interlink_for_parent c sp)"

lemma validate_Inr:
  "validate_block_intrinsic ev now b = Inr () \<longleftrightarrow>
   (let h = db_header b; txs = db_transactions b in
    meets_target (hid ev h) (dh_target h)
    \<and> dh_parents h \<noteq> [] \<and> length (dh_parents h) \<le> MAX_PARENTS \<and> distinct (dh_parents h)
    \<and> length txs \<le> MAX_BLOCK_TXS \<and> sum_list (map length txs) \<le> MAX_BLOCK_TX_BYTES
    \<and> tx_merkle_root (be_hash (ev_bank ev)) txs = dh_tx_merkle_root h
    \<and> sint (dh_timestamp h) \<le> sint (i64_saturating_add now MAX_TIMESTAMP_DRIFT_SECS))"
  by (auto simp: validate_block_intrinsic_def Let_def not_less)

text \<open>\<open>accept\<close> in one equation: the checks, then the log, then the DAG.\<close>

lemma accept_new:
  assumes "bid ev b \<notin> dc_blocks c" and "accept ev now b c = Some (r, c')"
  shows "valid_block ev now c b \<and> rbind (log_block ev b) (\<lambda>_. dag_apply ev b) c = Some (r, c')
    \<or> \<not> valid_block ev now c b \<and> c' = c \<and> (\<exists>e. r = Inl e \<and> (\<forall>x. e \<noteq> DecodeTx x))"
proof (cases "validate_block_intrinsic ev now b")
  case (Inl e)
  moreover have "e \<noteq> DecodeTx x" for x
    using Inl by (auto simp: validate_block_intrinsic_def Let_def split: if_splits)
  moreover have "r = Inl e" "c' = c" using assms Inl by (simp_all add: accept_def)
  ultimately show ?thesis using Inl by (simp add: valid_block_def)
next
  case (Inr u)
  show ?thesis
  proof (cases "set (dh_parents (db_header b)) \<subseteq> dc_blocks c")
    case False
    then show ?thesis using assms Inr by (auto simp: accept_def valid_block_def Let_def split: if_splits)
  next
    case known: True
    then obtain sp where sp: "selected_parent_dag c (dh_parents (db_header b)) = Some sp"
      using assms Inr by (auto simp: accept_def Let_def bind_eq_Some_conv)
    then obtain t where t: "selected_chain_target c sp = Some t"
      using known assms Inr sp by (auto simp: accept_def Let_def bind_eq_Some_conv)
    show ?thesis
      using assms Inr known sp t by (auto simp: accept_def valid_block_def Let_def split: if_splits)
  qed
qed

lemma log_block_run:
  assumes "log_block ev b c = Some (r, c')"
  shows "(case r of
      Inr _ \<Rightarrow> \<exists>rec. ev_ser_record ev (RecBlock b) = Inr rec \<and> length rec < 2 ^ 32
        \<and> c' = c\<lparr>dc_log := dc_log c @ log_record rec\<rparr>
    | Inl e \<Rightarrow> c' = c \<and> (\<forall>x. e \<noteq> DecodeTx x))"
  using assms
  by (cases "ev_ser_record ev (RecBlock b)")
    (auto simp: log_block_def rwrite_def log_append_def split: if_splits)

lemma apply_run:
  assumes "apply_with_id ev b i c = Some (r, c')" and "i \<notin> dc_blocks c"
  shows "\<exists>d e. engine_add_block (ev_floats ev) i
        (remap_parents (dc_genesis_dag c) (dc_blocks c) (dh_parents (db_header b))) (dc_engine c) = Some (d, e)
    \<and> (case r of
        Inr _ \<Rightarrow> (\<exists>txs. decode_txs ev (db_transactions b) = Inr txs \<and>
          c' = c\<lparr>dc_engine := e,
            dc_block_txs := (if txs = [] then dc_block_txs c else (dc_block_txs c)(i \<mapsto> txs)),
            dc_headers := (dc_headers c)(i \<mapsto> db_header b), dc_blocks := insert i (dc_blocks c),
            dc_tips := filter (\<lambda>t. t \<notin> set (dh_parents (db_header b))) (dc_tips c) @ [i]\<rparr>)
      | Inl err \<Rightarrow> decode_txs ev (db_transactions b) = Inl err \<and> c' = c\<lparr>dc_engine := e\<rparr>)"
  using assms
  by (cases "decode_txs ev (db_transactions b)")
    (fastforce simp: apply_with_id_def bind_eq_Some_conv Let_def)+

lemma apply_log: "apply_with_id ev b i c = Some (r, c') \<Longrightarrow> dc_log c' = dc_log c"
  by (cases "decode_txs ev (db_transactions b)")
    (auto simp: apply_with_id_def bind_eq_Some_conv Let_def split: if_splits)

lemma decode_txs_Inl: "decode_txs ev bs = Inl e \<Longrightarrow> \<exists>x. e = DecodeTx x"
proof (induction bs)
  case (Cons b bs)
  then show ?case by (cases "ev_de_tx ev b"; cases "decode_txs ev bs") auto
qed simp

text \<open>Logging and applying a block, by outcome.\<close>

lemma log_apply_run:
  assumes "rbind (log_block ev b) (\<lambda>_. dag_apply ev b) c = Some (r, c')" and "bid ev b \<notin> dc_blocks c"
  shows "(case r of
      Inr _ \<Rightarrow> \<exists>rec c1. ev_ser_record ev (RecBlock b) = Inr rec \<and> length rec < 2 ^ 32
        \<and> c1 = c\<lparr>dc_log := dc_log c @ log_record rec\<rparr> \<and> dag_apply ev b c1 = Some (Inr (), c')
    | Inl e \<Rightarrow> c' = c \<or> (\<exists>x rec. e = DecodeTx x \<and> ev_ser_record ev (RecBlock b) = Inr rec
        \<and> dc_log c' = dc_log c @ log_record rec \<and> decode_txs ev (db_transactions b) = Inl e))"
proof -
  obtain r1 c1 where l: "log_block ev b c = Some (r1, c1)"
    using assms(1) by (cases "log_block ev b c") (auto simp: rbind_def)
  show ?thesis
  proof (cases r1)
    case (Inl e)
    then have "r = Inl e" "c' = c1" using assms(1) l by (simp_all add: rbind_def)
    moreover have "c1 = c" using log_block_run [OF l] Inl by simp
    ultimately show ?thesis by simp
  next
    case (Inr u)
    then obtain rec where rec: "ev_ser_record ev (RecBlock b) = Inr rec" "length rec < 2 ^ 32"
      "c1 = c\<lparr>dc_log := dc_log c @ log_record rec\<rparr>"
      using log_block_run [OF l] by auto
    have a: "apply_with_id ev b (bid ev b) c1 = Some (r, c')"
      using assms(1) l Inr by (simp add: rbind_def dag_apply_def)
    have i: "bid ev b \<notin> dc_blocks c1" using assms(2) rec(3) by simp
    show ?thesis
    proof (cases r)
      case (Inl e)
      then have d: "decode_txs ev (db_transactions b) = Inl e" "dc_log c' = dc_log c1"
        using apply_run [OF a i] by auto
      with decode_txs_Inl [OF d(1)] Inl rec show ?thesis by auto
    next
      case (Inr v)
      with a rec show ?thesis by (auto simp: dag_apply_def)
    qed
  qed
qed

lemma log_run_blocks:
  assumes "rbind (log_block ev b) (\<lambda>_. dag_apply ev b) c = Some (Inl e, c')" and "bid ev b \<notin> dc_blocks c"
  shows "dc_blocks c' = dc_blocks c"
proof -
  obtain r1 c1 where l: "log_block ev b c = Some (r1, c1)"
    using assms(1) by (cases "log_block ev b c") (auto simp: rbind_def)
  show ?thesis
  proof (cases r1)
    case (Inl x)
    then show ?thesis using assms(1) l log_block_run [OF l] by (simp add: rbind_def)
  next
    case (Inr u)
    have run: "apply_with_id ev b (bid ev b) c1 = Some (Inl e, c')"
      using assms(1) l Inr by (simp add: rbind_def dag_apply_def)
    have same: "dc_blocks c1 = dc_blocks c" using log_block_run [OF l] Inr by auto
    obtain d where "c' = c1\<lparr>dc_engine := d\<rparr>"
      using apply_run [OF run] assms(2) unfolding same sum.case by blast
    then show ?thesis using same by simp
  qed
qed

subsection \<open>Runs\<close>

inductive dag_runs ::
    "('db, 'a, 'p, 'tx, 'san, 'chk, 'f) dag_env \<Rightarrow> open_params \<Rightarrow> ('db, 'a, 'p, 'tx) dag_chain \<Rightarrow> bool"
  for ev op where
  runs_init: "chain_init ev op [] = Some c \<Longrightarrow> dag_runs ev op c"
| runs_accept: "dag_runs ev op c \<Longrightarrow> accept ev now b c = Some (r, c') \<Longrightarrow> \<forall>x. r \<noteq> Inl (DecodeTx x) \<Longrightarrow>
    dag_runs ev op c'"
| runs_mine: "dag_runs ev op c \<Longrightarrow> mine_at ev txs timestamp c = Some (r, c') \<Longrightarrow> \<forall>x. r \<noteq> Inl (DecodeTx x) \<Longrightarrow>
    dag_runs ev op c'"
| runs_state: "dag_runs ev op c \<Longrightarrow> virtual_state ev c = Some (r, c') \<Longrightarrow> dag_runs ev op c'"
| runs_finality: "dag_runs ev op c \<Longrightarrow> dag_runs ev op (set_finality_depth d c)"

text \<open>Accepting and mining either change nothing or log a block and apply it.\<close>

definition adds_block ::
    "('db, 'a, 'p, 'tx, 'san, 'chk, 'f) dag_env \<Rightarrow> dag_block \<Rightarrow> ('db, 'a, 'p, 'tx) dag_chain \<Rightarrow>
     ('db, 'a, 'p, 'tx) dag_chain \<Rightarrow> bool" where
  "adds_block ev b c c' \<longleftrightarrow> (\<exists>rec. ev_ser_record ev (RecBlock b) = Inr rec \<and> length rec < 2 ^ 32
     \<and> dag_apply ev b (c\<lparr>dc_log := dc_log c @ log_record rec\<rparr>) = Some (Inr (), c'))"

lemma accept_adds:
  assumes "accept ev now b c = Some (r, c')" and "\<forall>x. r \<noteq> Inl (DecodeTx x)"
  shows "c' = c \<or> bid ev b \<notin> dc_blocks c \<and> valid_block ev now c b \<and> adds_block ev b c c'"
proof (cases "bid ev b \<in> dc_blocks c")
  case True
  then show ?thesis using assms(1) by (simp add: accept_def)
next
  case False
  show ?thesis
  proof (cases "valid_block ev now c b")
    case True
    then have run: "rbind (log_block ev b) (\<lambda>_. dag_apply ev b) c = Some (r, c')"
      using accept_new [OF False assms(1)] by blast
    show ?thesis using log_apply_run [OF run False] True False assms(2)
      by (cases r) (auto simp: adds_block_def)
  next
    case invalid: False
    then show ?thesis using accept_new [OF False assms(1)] by blast
  qed
qed

lemma mine_adds:
  assumes "mine_at ev txs timestamp c = Some (r, c')" and "\<forall>x. r \<noteq> Inl (DecodeTx x)"
  shows "\<exists>b. build_block_at ev c txs timestamp = Some b \<and>
    (c' = c \<or> bid ev b \<in> dc_blocks c \<and> (\<exists>L. c' = c\<lparr>dc_log := L\<rparr>) \<and> adds_block ev b c c'
     \<or> bid ev b \<notin> dc_blocks c \<and> adds_block ev b c c')"
proof -
  obtain b where b: "build_block_at ev c txs timestamp = Some b"
    "rbind (log_block ev b) (\<lambda>_. rbind (dag_apply ev b) (\<lambda>_. rret b)) c = Some (r, c')"
    using assms(1) by (auto simp: mine_at_def bind_eq_Some_conv)
  obtain r1 c1 where m: "rbind (log_block ev b) (\<lambda>_. dag_apply ev b) c = Some (r1, c')"
    "\<forall>e. r1 = Inl e \<longleftrightarrow> r = Inl e"
    using b(2) by (auto simp: rbind_def split: option.splits sum.splits)
  have ok: "\<forall>x. r1 \<noteq> Inl (DecodeTx x)" using m(2) assms(2) by auto
  show ?thesis
  proof (cases "bid ev b \<in> dc_blocks c")
    case False
    show ?thesis using log_apply_run [OF m(1) False] ok b(1) False
      by (cases r1) (auto simp: adds_block_def)
  next
    case True
    obtain r2 c2 where l: "log_block ev b c = Some (r2, c2)"
      using m(1) by (cases "log_block ev b c") (auto simp: rbind_def)
    show ?thesis
    proof (cases r2)
      case (Inl e)
      then have "c' = c2" using m(1) l by (simp add: rbind_def)
      moreover have "c2 = c" using log_block_run [OF l] Inl by simp
      ultimately show ?thesis using b(1) by simp
    next
      case (Inr u)
      then have "c' = c2" using m(1) l True log_block_run [OF l]
        by (auto simp: rbind_def dag_apply_def apply_with_id_def)
      then show ?thesis using log_block_run [OF l] Inr b(1) True
        by (auto simp: adds_block_def dag_apply_def apply_with_id_def)
    qed
  qed
qed

text \<open>Queries of the state touch the caches only.\<close>

lemma advance_run:
  assumes "maybe_advance_checkpoint ev c = Some (r, c')"
  shows "\<exists>K. c' = c\<lparr>dc_checkpoint := K\<rparr> \<and> (dc_checkpoint c \<noteq> None \<longrightarrow> K \<noteq> None)"
proof -
  have "c' = c \<or> (\<exists>cp. c' = c\<lparr>dc_checkpoint := Some cp\<rparr>)"
    using assms
    by (auto simp: maybe_advance_checkpoint_def Let_def bind_eq_Some_conv
        split: if_splits option.splits sum.splits)
  then show ?thesis
  proof
    assume "c' = c"
    then show ?thesis by (intro exI [of _ "dc_checkpoint c"]) simp
  qed auto
qed

lemma virtual_state_run:
  assumes "virtual_state ev c = Some (r, c')"
  obtains order nb where "dc_total_order c = Some order" "next_bank ev c order = Some nb"
    and "case nb of
        Inl e \<Rightarrow> r = Inl e \<and> c' = c\<lparr>dc_state := None\<rparr>
      | Inr bank \<Rightarrow> (r = Inr bank \<or> (\<exists>e. r = Inl e)) \<and>
          (\<exists>K. c' = c\<lparr>dc_state := Some bank, dc_executed := order, dc_checkpoint := K\<rparr>
             \<and> (dc_checkpoint c \<noteq> None \<longrightarrow> K \<noteq> None))"
proof -
  obtain order where o: "dc_total_order c = Some order" using assms
    by (auto simp: virtual_state_def bind_eq_Some_conv)
  then obtain nb where nb: "next_bank ev c order = Some nb" using assms
    by (auto simp: virtual_state_def split: option.splits)
  show thesis
  proof (rule that [OF o nb])
    show "case nb of
        Inl e \<Rightarrow> r = Inl e \<and> c' = c\<lparr>dc_state := None\<rparr>
      | Inr bank \<Rightarrow> (r = Inr bank \<or> (\<exists>e. r = Inl e)) \<and>
          (\<exists>K. c' = c\<lparr>dc_state := Some bank, dc_executed := order, dc_checkpoint := K\<rparr>
             \<and> (dc_checkpoint c \<noteq> None \<longrightarrow> K \<noteq> None))"
    proof (cases nb)
      case (Inl e)
      then have vs: "virtual_state ev c = Some (Inl e, c\<lparr>dc_state := None\<rparr>)" using o nb
        by (simp add: virtual_state_def)
      have "(r, c') = (Inl e, c\<lparr>dc_state := None\<rparr>)"
        by (rule option.inject [THEN iffD1], rule trans [OF assms [symmetric] vs])
      then have "r = Inl e \<and> c' = c\<lparr>dc_state := None\<rparr>" by (rule prod.inject [THEN iffD1])
      then show ?thesis unfolding Inl sum.case .
    next
      case (Inr bank)
      define d where "d = c\<lparr>dc_state := Some bank, dc_executed := order\<rparr>"
      have run: "rbind (maybe_advance_checkpoint ev) (\<lambda>_. rret bank) d = Some (r, c')"
        using assms o nb Inr by (simp add: virtual_state_def d_def)
      then obtain r1 where adv: "maybe_advance_checkpoint ev d = Some (r1, c')"
        "r = (case r1 of Inl e \<Rightarrow> Inl e | Inr _ \<Rightarrow> Inr bank)"
        by (auto simp: rbind_def split: option.splits sum.splits)
      have "dc_checkpoint d = dc_checkpoint c" by (simp add: d_def)
      with advance_run [OF adv(1)] obtain K where "c' = d\<lparr>dc_checkpoint := K\<rparr>"
        "dc_checkpoint c \<noteq> None \<longrightarrow> K \<noteq> None" by auto
      then have "\<exists>K. c' = c\<lparr>dc_state := Some bank, dc_executed := order, dc_checkpoint := K\<rparr>
          \<and> (dc_checkpoint c \<noteq> None \<longrightarrow> K \<noteq> None)" unfolding d_def by blast
      moreover have "r = Inr bank \<or> (\<exists>e. r = Inl e)" using adv(2) by (cases r1) simp_all
      ultimately show ?thesis unfolding Inr sum.case by blast
    qed
  qed
qed

lemma virtual_state_volatile:
  assumes "virtual_state ev c = Some (r, c')"
  shows "volatile [] c' = volatile [] c \<and> dc_log c' = dc_log c"
  using assms
proof (rule virtual_state_run)
  fix order nb
  assume nb: "case nb of
      Inl e \<Rightarrow> r = Inl e \<and> c' = c\<lparr>dc_state := None\<rparr>
    | Inr bank \<Rightarrow> (r = Inr bank \<or> (\<exists>e. r = Inl e)) \<and>
        (\<exists>K. c' = c\<lparr>dc_state := Some bank, dc_executed := order, dc_checkpoint := K\<rparr>
           \<and> (dc_checkpoint c \<noteq> None \<longrightarrow> K \<noteq> None))"
  show "volatile [] c' = volatile [] c \<and> dc_log c' = dc_log c"
    using nb by (cases nb) (auto simp: volatile_def)
qed

subsection \<open>A restart\<close>

text \<open>What is relied on of the encoding of log records: it reads back.\<close>

definition record_codec :: "('db, 'a, 'p, 'tx, 'san, 'chk, 'f) dag_env \<Rightarrow> bool" where
  "record_codec ev \<longleftrightarrow> (\<forall>r bs. ev_ser_record ev r = Inr bs \<longrightarrow> ev_de_record ev bs = Inr r)"

definition logged ::
    "('db, 'a, 'p, 'tx, 'san, 'chk, 'f) dag_env \<Rightarrow> open_params \<Rightarrow> ('db, 'a, 'p, 'tx) dag_chain \<Rightarrow> bool" where
  "logged ev op c \<longleftrightarrow> (\<exists>c0 ps. chain_init ev op [] = Some c0 \<and> dc_log c = log_of ps
     \<and> (\<forall>p \<in> set ps. length p < 2 ^ 32) \<and> rfor ps (replay_record ev) c0 = Some (Inr (), volatile [] c))"

lemma chain_init_log: "chain_init ev op file = map_option (\<lambda>c. c\<lparr>dc_log := file\<rparr>) (chain_init ev op [])"
  by (simp add: chain_init_def Let_def option.map_comp comp_def)

lemma chain_init_volatile: "chain_init ev op file = Some c \<Longrightarrow> volatile file c = c"
  by (auto simp: chain_init_def volatile_def Let_def)

lemma logged_adds:
  assumes codec: "record_codec ev" and c: "logged ev op c" and add: "adds_block ev b c c'"
  shows "logged ev op c'"
proof -
  obtain rec where rec: "ev_ser_record ev (RecBlock b) = Inr rec" "length rec < 2 ^ 32"
    "dag_apply ev b (c\<lparr>dc_log := dc_log c @ log_record rec\<rparr>) = Some (Inr (), c')"
    using add by (auto simp: adds_block_def)
  obtain c0 ps where ps: "chain_init ev op [] = Some c0" "dc_log c = log_of ps"
    "\<forall>p \<in> set ps. length p < 2 ^ 32" "rfor ps (replay_record ev) c0 = Some (Inr (), volatile [] c)"
    using c by (auto simp: logged_def)
  have comm: "commutes (volatile L) (dag_apply ev b)" for L
    by (simp add: dag_apply_def commutes_apply)
  have "dag_apply ev b (volatile [] (c\<lparr>dc_log := dc_log c @ log_record rec\<rparr>)) = Some (Inr (), volatile [] c')"
    by (rule commutes_run [OF comm rec(3)])
  moreover have "volatile [] (c\<lparr>dc_log := dc_log c @ log_record rec\<rparr>) = volatile [] c"
    by (simp add: volatile_def)
  ultimately have "replay_record ev rec (volatile [] c) = Some (Inr (), volatile [] c')"
    using codec rec(1) by (auto simp: replay_record_def record_codec_def)
  then have run: "rfor (ps @ [rec]) (replay_record ev) c0 = Some (Inr (), volatile [] c')"
    using ps(4) by (simp add: rfor_append rbind_def)
  define L where "L = dc_log c @ log_record rec"
  have "dag_apply ev b (c\<lparr>dc_log := L\<rparr>) = Some (Inr (), c')" using rec(3) by (simp add: L_def)
  then have log: "dc_log c' = L"
    unfolding dag_apply_def by (drule_tac apply_log) simp
  have "L = log_of (ps @ [rec])" using ps(2) by (simp add: L_def log_of_def)
  with run ps log rec(2) show ?thesis unfolding logged_def by (intro exI [of _ c0] exI [of _ "ps @ [rec]"]) auto
qed

lemma runs_logged:
  assumes "record_codec ev" and "dag_runs ev op c"
  shows "logged ev op c"
  using assms(2)
proof induction
  case (runs_init c)
  then show ?case using chain_init_volatile [OF runs_init]
    by (auto simp: logged_def log_of_def chain_init_def Let_def intro!: exI [of _ "[]"])
next
  case (runs_accept c now b r c')
  with accept_adds [OF runs_accept(2,3)] logged_adds [OF assms(1)] show ?case by blast
next
  case (runs_mine c txs timestamp r c')
  with mine_adds [OF runs_mine(2,3)] logged_adds [OF assms(1)] show ?case by blast
next
  case (runs_state c r c')
  with virtual_state_volatile [OF runs_state(2)] show ?case by (simp add: logged_def)
next
  case (runs_finality c d)
  then show ?case by (simp add: logged_def set_finality_depth_def volatile_def)
qed

definition restarted :: "('db, 'a, 'p, 'tx) dag_chain \<Rightarrow> ('db, 'a, 'p, 'tx) dag_chain" where
  "restarted c = volatile (dc_log c) c"

lemma reopen_logged:
  assumes "logged ev op c"
  shows "open_with_genesis ev op (dc_log c) = Some (Inr (restarted c))"
proof -
  obtain c0 ps where ps: "chain_init ev op [] = Some c0" "dc_log c = log_of ps"
    "\<forall>p \<in> set ps. length p < 2 ^ 32" "rfor ps (replay_record ev) c0 = Some (Inr (), volatile [] c)"
    using assms by (auto simp: logged_def)
  have read: "log_read_all (dc_log c) = Inr ps"
    using log_read_of [of ps "[]"] ps(2,3) log_read_short [of "[]"] by simp
  have init: "chain_init ev op (dc_log c) = Some (volatile (dc_log c) c0)"
  proof -
    have "chain_init ev op (dc_log c) = Some (c0\<lparr>dc_log := dc_log c\<rparr>)"
      using ps(1) by (subst chain_init_log) simp
    with chain_init_volatile [OF this] show ?thesis
      by (simp add: volatile_def)
  qed
  have "commutes (volatile (dc_log c)) (rfor ps (replay_record ev))"
    by (intro commutes_rfor commutes_replay)
  from commutes_run [OF this ps(4)]
  have "rfor ps (replay_record ev) (volatile (dc_log c) c0) = Some (Inr (), restarted c)"
    by (simp add: restarted_def)
  then show ?thesis using init read by (simp add: open_with_genesis_def)
qed

end
