(* ===== verification/DagReplay.thy ===== *)
theory DagReplay
  imports DagRuns
begin

text \<open>
  The virtual state of a run is the rebuilt one.  The engine only ever adds data for a block that
  has none, and the total order only names blocks with data; so replaying the executed blocks
  gives the same bank however many blocks were added since, and replaying the rest of the order
  on it is the full replay.
\<close>

subsection \<open>The engine\<close>

definition engine_ok :: "dag_engine \<Rightarrow> bool" where
  "engine_ok e \<longleftrightarrow> has_data (dom (de_gd e)) (de_reach e) \<and> de_gd e (de_genesis e) \<noteq> None"

lemma unwrap_rm_Some: "unwrap_rm m s = Some t \<longleftrightarrow> (\<exists>u. m s = Some (Inr u, t))"
  by (auto simp: unwrap_rm_def split: option.splits sum.splits)

lemma engine_add_block_run:
  assumes "engine_add_block fo b ps e = Some (d, e')" and "has_data (dom (de_gd e)) (de_reach e)"
  shows "de_gd e b = None \<and> de_gd e' = (de_gd e)(b \<mapsto> d) \<and> de_genesis e' = de_genesis e
    \<and> de_relations e' = (de_relations e)(b \<mapsto> ps) \<and> has_data (dom (de_gd e')) (de_reach e')"
proof -
  obtain data u v r r' where run: "reach_add_block fo b (gd_selected_parent data) (unordered_mergeset data) (de_reach e)
      = Some (Inr u, r)" "hint_virtual_selected_parent fo b r = Some (Inr v, r')"
    and e': "d = data" "de_gd e' = (de_gd e)(b \<mapsto> data)" "de_genesis e' = de_genesis e" "de_reach e' = r'"
      "de_relations e' = (de_relations e)(b \<mapsto> ps)"
    using assms(1) by (auto simp: engine_add_block_def bind_eq_Some_conv unwrap_rm_Some Let_def)
  have data: "ms_map (de_reach e) b = None" "has_data (insert b (dom (de_gd e))) r"
    using reach_add_block_data [OF run(1)] assms(2) by blast+
  have "has_data (insert b (dom (de_gd e))) r'"
    by (rule keeps_run [OF keeps_hint [OF stable_has_data] data(2) run(2)])
  moreover have "de_gd e b = None" using data(1) assms(2) by (force simp: has_data_def domIff)
  ultimately show ?thesis using e' by (auto simp: has_data_def)
qed

lemma engine_ok_add:
  "engine_add_block fo b ps e = Some (d, e') \<Longrightarrow> engine_ok e \<Longrightarrow> engine_ok e'"
  using engine_add_block_run [of fo b ps e d e'] by (auto simp: engine_ok_def)

lemma fresh_engine_ok: "fresh_engine fo k g = Some e \<Longrightarrow> engine_ok e \<and> de_genesis e = g"
proof -
  assume "fresh_engine fo k g = Some e"
  then obtain e0 d where e0: "engine_new k g = Some e0" "engine_add_block fo g [ORIGIN] e0 = Some (d, e)"
    by (auto simp: fresh_engine_def bind_eq_Some_conv)
  have "has_data (dom (de_gd e0)) (de_reach e0) \<and> de_genesis e0 = g"
    using e0(1)
    by (auto simp: engine_new_def bind_eq_Some_conv unwrap_rm_Some reach_init_def init_with_params_def
        store_has_def mem_store_new_def rwrite_def store_init_def store_insert_def put_data_def
        set_reindex_root_def has_data_def split: if_splits)
  with engine_add_block_run [OF e0(2)] show ?thesis by (auto simp: engine_ok_def)
qed

lemma chain_loop_in:
  assumes "chain_loop e cur chain = Some cs"
  shows "set cs \<subseteq> set chain \<union> insert (de_genesis e) (dom (de_gd e))"
  using assms
proof (induction rule: chain_loop.raw_induct [rotated, consumes 1])
  case (1 f e cur chain cs)
  show ?case
  proof (cases "cur = de_genesis e")
    case True
    then show ?thesis using 1(2) by auto
  next
    case False
    with 1(2) obtain sp where sp: "engine_selected_parent e cur = Some sp" "f e sp (cur # chain) = Some cs"
      by (auto simp: bind_eq_Some_conv)
    have "cur \<in> dom (de_gd e)" using sp(1) by (auto simp: engine_selected_parent_def)
    with 1(1) [OF sp(2)] show ?thesis by auto
  qed
qed

lemma those_dom: "those (map f xs) = Some ys \<Longrightarrow> set xs \<subseteq> dom f \<and> ys = map (the \<circ> f) xs"
  by (induction xs arbitrary: ys) (auto split: option.splits)

lemma sort_by_work_set: "sort_by_work e bs = Some xs \<Longrightarrow> set xs = set bs \<and> set bs \<subseteq> dom (de_gd e)"
proof -
  assume "sort_by_work e bs = Some xs"
  then obtain ss where ss: "those (map (work_key e) bs) = Some ss" "xs = map sb_hash (sort ss)"
    by (auto simp: sort_by_work_def)
  have dom: "set bs \<subseteq> dom (work_key e)" "ss = map (the \<circ> work_key e) bs" using those_dom [OF ss(1)] by auto
  have gd: "dom (work_key e) = dom (de_gd e)" by (auto simp: work_key_def domIff)
  have "sb_hash (the (work_key e b)) = b" if "b \<in> set bs" for b
    using that dom(1) gd by (cases "de_gd e b") (auto simp: work_key_def)
  then have "set xs = set bs" using ss(2) dom(2) by (auto simp: image_image)
  with dom(1) gd show ?thesis by blast
qed

lemma order_chain_in:
  "order_chain e bs = Some xs \<Longrightarrow> set xs \<subseteq> insert (de_genesis e) (dom (de_gd e))"
proof (induction bs arbitrary: xs)
  case (Cons b bs)
  then obtain ys where ys: "order_chain e bs = Some ys" by (auto simp: bind_eq_Some_conv)
  show ?case
  proof (cases "b = de_genesis e")
    case True
    then show ?thesis using Cons.prems ys Cons.IH [OF ys] by auto
  next
    case False
    then obtain d ms where "de_gd e b = Some d" "sort_by_work e (unordered_mergeset d) = Some ms" "xs = ms @ b # ys"
      using Cons.prems ys by (auto simp: bind_eq_Some_conv)
    then show ?thesis using sort_by_work_set Cons.IH [OF ys] by fastforce
  qed
qed simp

lemma total_order_in: "total_order e = Some xs \<Longrightarrow> engine_ok e \<Longrightarrow> set xs \<subseteq> dom (de_gd e)"
  using order_chain_in [of e] by (fastforce simp: total_order_def bind_eq_Some_conv engine_ok_def)

subsection \<open>Replaying on a grown chain\<close>

lemma rfor_cong: "(\<And>x. x \<in> set xs \<Longrightarrow> f x = g x) \<Longrightarrow> rfor xs f = rfor xs g"
  by (induction xs) simp_all

text \<open>What a replay reads of the chain.\<close>

definition same_block :: "('db, 'a, 'p, 'tx) dag_chain \<Rightarrow> ('db, 'a, 'p, 'tx) dag_chain \<Rightarrow> bytes32 \<Rightarrow> bool" where
  "same_block c c' i \<longleftrightarrow> dc_headers c' i = dc_headers c i \<and> dc_block_txs c' i = dc_block_txs c i"

definition same_rules :: "('db, 'a, 'p, 'tx) dag_chain \<Rightarrow> ('db, 'a, 'p, 'tx) dag_chain \<Rightarrow> bool" where
  "same_rules c c' \<longleftrightarrow> dc_genesis_dag c' = dc_genesis_dag c \<and> dc_reward c' = dc_reward c
     \<and> dc_base_accounts c' = dc_base_accounts c \<and> dc_allocations c' = dc_allocations c
     \<and> dc_history_pruned c' = dc_history_pruned c"

lemma replay_same:
  assumes "same_rules c c'" and "\<And>i. i \<in> set ids \<Longrightarrow> same_block c c' i"
  shows "replay_blocks bv c' ids = replay_blocks bv c ids"
  unfolding replay_blocks_def
proof (rule rfor_cong)
  fix i assume "i \<in> set ids"
  then have "same_block c c' i" by (rule assms(2))
  then have "pay_coinbase bv c' i = pay_coinbase bv c i"
    using assms(1) by (cases "dc_headers c i") (simp_all add: pay_coinbase_def same_block_def same_rules_def)
  then show "replay_block bv c' i = replay_block bv c i"
    using assms(1) \<open>same_block c c' i\<close> by (simp add: replay_block_def same_block_def same_rules_def)
qed

lemma fresh_bank_same: "same_rules c c' \<Longrightarrow> fresh_bank ev c' dir = fresh_bank ev c dir"
  by (cases "dc_base_accounts c") (simp_all add: fresh_bank_def open_bank_def seed_db_def same_rules_def)

lemma run_bank_append:
  assumes "run_bank (replay_blocks bv c xs) b0 = Some (Inr b)"
  shows "run_bank (replay_blocks bv c (xs @ ys)) b0 = run_bank (replay_blocks bv c ys) b"
proof -
  obtain u where "replay_blocks bv c xs b0 = Some (Inr u, b)"
    using assms by (auto simp: run_bank_def)
  then show ?thesis by (simp add: run_bank_def replay_blocks_def rfor_append rbind_def)
qed

subsection \<open>The cached state\<close>

text \<open>The bank a full rebuild in the directory of the cached state gives.\<close>

definition rebuilt ::
    "('db, 'a, 'p, 'tx, 'san, 'chk, 'f) dag_env \<Rightarrow> ('db, 'a, 'p, 'tx) dag_chain \<Rightarrow> bytes32 list \<Rightarrow>
     (bank_error + ('db, 'p) bank) option" where
  "rebuilt ev c ids =
     bank_then (fresh_bank ev c StateDir) (\<lambda>b. run_bank (replay_blocks (ev_bank ev) c ids) b)"

definition cache_ok ::
    "('db, 'a, 'p, 'tx, 'san, 'chk, 'f) dag_env \<Rightarrow> ('db, 'a, 'p, 'tx) dag_chain \<Rightarrow> bool" where
  "cache_ok ev c \<longleftrightarrow> engine_ok (dc_engine c) \<and> de_genesis (dc_engine c) = dc_genesis_dag c
     \<and> \<not> dc_history_pruned c
     \<and> (dc_checkpoint c = None \<longrightarrow> (case dc_state c of
          None \<Rightarrow> True
        | Some b \<Rightarrow> set (dc_executed c) \<subseteq> dom (de_gd (dc_engine c)) \<and> rebuilt ev c (dc_executed c) = Some (Inr b)))"

lemma rebuilt_same:
  "same_rules c c' \<Longrightarrow> (\<And>i. i \<in> set ids \<Longrightarrow> same_block c c' i) \<Longrightarrow> rebuilt ev c' ids = rebuilt ev c ids"
  unfolding rebuilt_def by (simp add: fresh_bank_same replay_same)

lemma rebuilt_append:
  "rebuilt ev c xs = Some (Inr b) \<Longrightarrow> rebuilt ev c (xs @ ys) = run_bank (replay_blocks (ev_bank ev) c ys) b"
  unfolding rebuilt_def bank_then_def
  by (auto simp: run_bank_append split: option.splits sum.splits)

lemma next_bank_rebuilt:
  assumes "cache_ok ev c" and "dc_checkpoint c = None"
  shows "next_bank ev c order = rebuilt ev c order"
proof (cases "can_extend c order")
  case True
  then obtain b where b: "dc_state c = Some b" "dc_executed c = take (length (dc_executed c)) order"
    by (auto simp: can_extend_def)
  then have "rebuilt ev c (dc_executed c) = Some (Inr b)" using assms by (simp add: cache_ok_def)
  from rebuilt_append [OF this, of "drop (length (dc_executed c)) order"]
  have "rebuilt ev c order = run_bank (replay_blocks (ev_bank ev) c (drop (length (dc_executed c)) order)) b"
    by (metis append_take_drop_id b(2))
  then show ?thesis using True b(1) by (simp add: next_bank_def)
next
  case False
  then show ?thesis using assms
    by (simp add: next_bank_def virtual_bank_def from_checkpoint_def prune_gone_def cache_ok_def rebuilt_def)
qed

lemma cache_ok_apply:
  assumes "apply_with_id ev b i c = Some (Inr u, c')" and "cache_ok ev c"
  shows "cache_ok ev c'"
proof (cases "i \<in> dc_blocks c")
  case True
  then show ?thesis using assms by (simp add: apply_with_id_def)
next
  case False
  obtain d e txs where e: "engine_add_block (ev_floats ev) i
      (remap_parents (dc_genesis_dag c) (dc_blocks c) (dh_parents (db_header b))) (dc_engine c) = Some (d, e)"
    and c': "c' = c\<lparr>dc_engine := e,
        dc_block_txs := (if txs = [] then dc_block_txs c else (dc_block_txs c)(i \<mapsto> txs)),
        dc_headers := (dc_headers c)(i \<mapsto> db_header b), dc_blocks := insert i (dc_blocks c),
        dc_tips := filter (\<lambda>t. t \<notin> set (dh_parents (db_header b))) (dc_tips c) @ [i]\<rparr>"
    using apply_run [OF assms(1) False] by auto
  have ok: "engine_ok (dc_engine c)" using assms(2) by (simp add: cache_ok_def)
  then have data: "has_data (dom (de_gd (dc_engine c))) (de_reach (dc_engine c))" by (simp add: engine_ok_def)
  note run = engine_add_block_run [OF e data]
  have rules: "same_rules c c'" by (simp add: same_rules_def c')
  have "same_block c c' j" if "j \<in> dom (de_gd (dc_engine c))" for j
    using that run by (auto simp: same_block_def c')
  then have "rebuilt ev c' (dc_executed c) = rebuilt ev c (dc_executed c)"
    if "set (dc_executed c) \<subseteq> dom (de_gd (dc_engine c))"
    using that by (intro rebuilt_same [OF rules]) blast
  then show ?thesis using assms(2) run engine_ok_add [OF e ok]
    by (auto simp: cache_ok_def c' split: option.splits)
qed

lemma cache_ok_log: "cache_ok ev (c\<lparr>dc_log := L\<rparr>) = cache_ok ev c"
proof -
  have "rebuilt ev (c\<lparr>dc_log := L\<rparr>) ids = rebuilt ev c ids" for ids
    by (rule rebuilt_same) (simp_all add: same_rules_def same_block_def)
  then show ?thesis by (auto simp: cache_ok_def split: option.splits)
qed

lemma cache_ok_adds: "adds_block ev b c c' \<Longrightarrow> cache_ok ev c \<Longrightarrow> cache_ok ev c'"
  unfolding adds_block_def dag_apply_def using cache_ok_apply cache_ok_log by metis

lemma cache_ok_state:
  assumes "virtual_state ev c = Some (r, c')" and ok: "cache_ok ev c"
  shows "cache_ok ev c'"
  using assms(1)
proof (rule virtual_state_run)
  fix order nb
  assume o: "dc_total_order c = Some order" and nb: "next_bank ev c order = Some nb"
    and r: "case nb of
      Inl e \<Rightarrow> r = Inl e \<and> c' = c\<lparr>dc_state := None\<rparr>
    | Inr bank \<Rightarrow> (r = Inr bank \<or> (\<exists>e. r = Inl e)) \<and>
        (\<exists>K. c' = c\<lparr>dc_state := Some bank, dc_executed := order, dc_checkpoint := K\<rparr>
           \<and> (dc_checkpoint c \<noteq> None \<longrightarrow> K \<noteq> None))"
  show ?thesis
  proof (cases nb)
    case (Inl e)
    then show ?thesis using r ok by (simp add: cache_ok_def)
  next
    case (Inr bank)
    then obtain K where K: "c' = c\<lparr>dc_state := Some bank, dc_executed := order, dc_checkpoint := K\<rparr>"
      "dc_checkpoint c \<noteq> None \<longrightarrow> K \<noteq> None" using r by auto
    have "rebuilt ev c' order = rebuilt ev c order"
      by (rule rebuilt_same) (simp_all add: K(1) same_rules_def same_block_def)
    moreover have "rebuilt ev c order = Some (Inr bank)" if "K = None"
      using next_bank_rebuilt [OF ok, of order] K(2) that nb Inr by auto
    moreover have "set order \<subseteq> dom (de_gd (dc_engine c))"
      using total_order_in o ok by (auto simp: dc_total_order_def cache_ok_def)
    ultimately show ?thesis using ok K(1) by (auto simp: cache_ok_def)
  qed
qed

lemma chain_init_fields:
  assumes "chain_init ev op file = Some c"
  shows "engine_ok (dc_engine c) \<and> de_genesis (dc_engine c) = dc_genesis_dag c \<and> \<not> dc_history_pruned c
    \<and> dc_state c = None"
proof -
  obtain e where e: "fresh_engine (ev_floats ev) (op_k op)
      (hid ev (dag_genesis_header (op_target op) (op_commitment op))) = Some e"
    using assms by (auto simp: chain_init_def Let_def)
  with assms fresh_engine_ok [OF e] show ?thesis by (auto simp: chain_init_def Let_def)
qed

lemma runs_cache_ok: "dag_runs ev op c \<Longrightarrow> cache_ok ev c"
proof (induction rule: dag_runs.induct)
  case (runs_init c)
  from chain_init_fields [OF this] show ?case by (simp add: cache_ok_def)
next
  case (runs_accept c now b r c')
  show ?case using accept_adds [OF runs_accept(2,3)] cache_ok_adds [of ev b c c'] runs_accept.IH by blast
next
  case (runs_mine c txs timestamp r c')
  from mine_adds [OF runs_mine(2,3)] obtain b where "c' = c \<or> adds_block ev b c c'" by blast
  then show ?case using cache_ok_adds [of ev b c c'] runs_mine.IH by blast
next
  case (runs_state c r c')
  show ?case by (rule cache_ok_state [OF runs_state(2) runs_state.IH])
next
  case (runs_finality c d)
  have "rebuilt ev (set_finality_depth d c) ids = rebuilt ev c ids" for ids
    by (rule rebuilt_same) (simp_all add: set_finality_depth_def same_rules_def same_block_def)
  with runs_finality show ?case
    by (auto simp: cache_ok_def set_finality_depth_def split: option.splits)
qed

subsection \<open>The result\<close>

text \<open>A wiped directory gives the same (empty) database whichever it is.\<close>

definition same_when_wiped :: "('db, 'a, 'p, 'tx, 'san, 'chk, 'f) dag_env \<Rightarrow> bool" where
  "same_when_wiped ev \<longleftrightarrow> ev_open_wiped ev StateDir = ev_open_wiped ev AccountsDir"

lemma rebuild_state_rebuilt:
  assumes "same_when_wiped ev" and "\<not> dc_history_pruned c" and "dc_total_order c = Some order"
  shows "rebuild_state ev c = rebuilt ev c order"
proof -
  have "fresh_bank ev c AccountsDir = fresh_bank ev c StateDir"
    using assms(1) by (simp add: fresh_bank_def open_bank_def same_when_wiped_def)
  then show ?thesis using assms(2,3) by (simp add: rebuild_state_def rebuilt_def prune_gone_def)
qed

lemma virtual_state_is_rebuilt:
  assumes "same_when_wiped ev" and "dag_runs ev op c" and "dc_checkpoint c = None"
    and "virtual_state ev c = Some (r, c')"
  shows "(case r of
      Inr bank \<Rightarrow> rebuild_state ev c = Some (Inr bank)
    | Inl e \<Rightarrow> rebuild_state ev c = Some (Inl e) \<or> (\<exists>bank. rebuild_state ev c = Some (Inr bank) \<and> dc_state c' = Some bank))"
  using assms(4)
proof (rule virtual_state_run)
  fix order nb
  assume o: "dc_total_order c = Some order" and nb: "next_bank ev c order = Some nb"
    and r: "case nb of
      Inl e \<Rightarrow> r = Inl e \<and> c' = c\<lparr>dc_state := None\<rparr>
    | Inr bank \<Rightarrow> (r = Inr bank \<or> (\<exists>e. r = Inl e)) \<and>
        (\<exists>K. c' = c\<lparr>dc_state := Some bank, dc_executed := order, dc_checkpoint := K\<rparr>
           \<and> (dc_checkpoint c \<noteq> None \<longrightarrow> K \<noteq> None))"
  have ok: "cache_ok ev c" using assms(2) by (rule runs_cache_ok)
  then have "rebuild_state ev c = Some nb"
    using rebuild_state_rebuilt [OF assms(1) _ o] next_bank_rebuilt [OF ok assms(3), of order] nb
    by (simp add: cache_ok_def)
  then show ?thesis using r by (cases nb) (auto split: sum.split)
qed

end
