(* ===== verification/DagProof.thy ===== *)
theory DagProof
  imports DagReplay
begin

text \<open>
  Proofs of a pruned history: the proof a node builds for any of its blocks is one a verifier at
  the same genesis accepts, with the work of its headers.  The walk goes down because every
  interlink entry names a block that was there before.
\<close>

subsection \<open>Checking a list of linked headers\<close>

definition proof_work :: "dag_block_header list \<Rightarrow> u256" where
  "proof_work proof =
     (case proof of [] \<Rightarrow> 0
      | g # hs \<Rightarrow> foldl (\<lambda>w h. saturating_add w (work_for_target (dh_target h))) (work_for_target (dh_target g)) hs)"

text \<open>Newest first: each header has its work and its highest interlink is the next one.\<close>

fun linked :: "('db, 'a, 'p, 'tx, 'san, 'chk, 'f) dag_env \<Rightarrow> bytes32 \<Rightarrow> dag_block_header list \<Rightarrow> bool" where
  "linked ev g [] \<longleftrightarrow> False"
| "linked ev g [h] \<longleftrightarrow> hid ev h = g"
| "linked ev g (h # h' # hs) \<longleftrightarrow> meets_target (hid ev h) (dh_target h) \<and> dh_interlink h \<noteq> []
     \<and> last (dh_interlink h) = hid ev h' \<and> linked ev g (h' # hs)"

lemma verify_steps_snoc:
  assumes "verify_steps ev prev w hs = Inr w'" and "meets_target (hid ev h) (dh_target h)"
    and "dh_interlink h \<noteq> []" and "last (dh_interlink h) = (if hs = [] then prev else hid ev (last hs))"
  shows "verify_steps ev prev w (hs @ [h]) = Inr (saturating_add w' (work_for_target (dh_target h)))"
  using assms by (induction ev prev w hs rule: verify_steps.induct) (auto split: if_splits)

lemma proof_work_snoc:
  "hs \<noteq> [] \<Longrightarrow> proof_work (hs @ [h]) = saturating_add (proof_work hs) (work_for_target (dh_target h))"
  by (cases hs) (simp_all add: proof_work_def)

lemma linked_verifies:
  "linked ev g hs \<Longrightarrow> verify_proof ev (rev hs) (hid ev (hd hs)) g = Inr (proof_work (rev hs))"
proof (induction hs rule: linked.induct [of _ ev g, case_names Nil One Cons])
  case (Cons ev g h h' hs)
  then have IH: "verify_proof ev (rev (h' # hs)) (hid ev h') g = Inr (proof_work (rev (h' # hs)))" by simp
  obtain a as where as: "rev (h' # hs) = a # as" by (cases "rev (h' # hs)") simp_all
  have a: "hid ev a = g" "hid ev (last (a # as)) = hid ev h'"
    and steps: "verify_steps ev (hid ev a) (work_for_target (dh_target a)) as = Inr (proof_work (a # as))"
    using IH unfolding as by (auto simp: verify_proof_def split: if_splits)
  have "last (dh_interlink h) = (if as = [] then hid ev a else hid ev (last as))"
    using a(2) Cons.prems by (auto split: if_splits)
  from verify_steps_snoc [OF steps _ _ this] Cons.prems
  have "verify_steps ev (hid ev a) (work_for_target (dh_target a)) (as @ [h])
      = Inr (saturating_add (proof_work (a # as)) (work_for_target (dh_target h)))" by simp
  moreover have "rev (h # h' # hs) = a # (as @ [h])" using as by simp
  moreover have "proof_work (a # (as @ [h])) = saturating_add (proof_work (a # as)) (work_for_target (dh_target h))"
    using proof_work_snoc [of "a # as" h] by simp
  ultimately show ?case using a(1) by (simp add: verify_proof_def)
qed (simp_all add: verify_proof_def proof_work_def)

subsection \<open>The headers of a run\<close>

text \<open>A header built on known blocks: work, and an interlink into the known blocks.\<close>

definition built_on ::
    "('db, 'a, 'p, 'tx, 'san, 'chk, 'f) dag_env \<Rightarrow> bytes32 set \<Rightarrow> dag_block_header \<Rightarrow> bool" where
  "built_on ev known h \<longleftrightarrow> meets_target (hid ev h) (dh_target h) \<and> dh_interlink h \<noteq> []
     \<and> set (dh_interlink h) \<subseteq> known"

definition headers_ok ::
    "('db, 'a, 'p, 'tx, 'san, 'chk, 'f) dag_env \<Rightarrow> ('db, 'a, 'p, 'tx) dag_chain \<Rightarrow> bool" where
  "headers_ok ev c \<longleftrightarrow> finite (dc_blocks c) \<and> dom (dc_headers c) = dc_blocks c
     \<and> (\<forall>i h. dc_headers c i = Some h \<longrightarrow> hid ev h = i)
     \<and> (\<exists>h. dc_headers c (dc_genesis_dag c) = Some h \<and> dh_interlink h = [])
     \<and> de_tip (dc_engine c) \<in> dc_blocks c
     \<and> dc_original_genesis c = dc_genesis_dag c \<and> \<not> dc_history_pruned c
     \<and> (\<exists>rank :: bytes32 \<Rightarrow> nat. \<forall>i h. dc_headers c i = Some h \<longrightarrow> rank i < card (dc_blocks c)
          \<and> (i \<noteq> dc_genesis_dag c \<longrightarrow> built_on ev {j \<in> dc_blocks c. rank j < rank i} h))"

lemma interlink_fold:
  "set (foldl (interlink_step sp) il ks) \<subseteq> insert sp (set il) \<and> (il \<noteq> [] \<longrightarrow> foldl (interlink_step sp) il ks \<noteq> [])"
proof (induction ks arbitrary: il)
  case (Cons k ks)
  have "set (interlink_step sp il k) \<subseteq> insert sp (set il)" "interlink_step sp il k \<noteq> []"
    using set_update_subset_insert [of il k sp] by (auto simp: interlink_step_def)
  with Cons.IH [of "interlink_step sp il k"] show ?case by auto
qed auto

lemma interlink_for_parent_ok:
  assumes "headers_ok ev c" and "sp \<in> dc_blocks c"
  shows "interlink_for_parent c sp \<noteq> [] \<and> set (interlink_for_parent c sp) \<subseteq> dc_blocks c"
proof -
  have "sp \<in> dom (dc_headers c)" using assms by (simp add: headers_ok_def)
  then obtain h where h: "dc_headers c sp = Some h" by auto
  have "set (dh_interlink h) \<subseteq> dc_blocks c"
  proof (cases "sp = dc_genesis_dag c")
    case True
    then show ?thesis using assms(1) h by (auto simp: headers_ok_def)
  next
    case False
    with assms(1) h obtain rank :: "bytes32 \<Rightarrow> nat" where "built_on ev {j \<in> dc_blocks c. rank j < rank sp} h"
      unfolding headers_ok_def by blast
    then show ?thesis by (auto simp: built_on_def)
  qed
  moreover have "interlink_for_parent c sp =
      foldl (interlink_step sp) (interlink_step sp (dh_interlink h) 0) [1..<pow_level sp (dh_target h) + 1]"
    using h by (simp add: interlink_for_parent_def upt_rec [of 0] del: upt_Suc)
  moreover have "interlink_step sp (dh_interlink h) 0 \<noteq> []"
    "set (interlink_step sp (dh_interlink h) 0) \<subseteq> insert sp (set (dh_interlink h))"
    using set_update_subset_insert [of "dh_interlink h" 0 sp] by (auto simp: interlink_step_def)
  moreover have "foldl (interlink_step sp) (interlink_step sp (dh_interlink h) 0) ks \<noteq> []
      \<and> set (foldl (interlink_step sp) (interlink_step sp (dh_interlink h) 0) ks)
        \<subseteq> insert sp (set (interlink_step sp (dh_interlink h) 0))"
    if "interlink_step sp (dh_interlink h) 0 \<noteq> []" for ks
    using interlink_fold [of sp "interlink_step sp (dh_interlink h) 0" ks] that by blast
  ultimately show ?thesis using assms(2) by (metis (no_types, lifting) insert_subset subset_trans)
qed

lemma fold_max_in: "fold max bs b \<in> insert b (set bs)" for b :: "'x::linorder"
proof (induction bs arbitrary: b)
  case (Cons x xs)
  from Cons.IH [of "max x b"] show ?case by (auto simp: max_def split: if_splits)
qed simp

lemma selected_parent_in:
  assumes "selected_parent_dag c ps = Some sp" and "ps \<noteq> []"
  shows "sp \<in> set ps"
proof -
  obtain bs where bs: "those (map (work_key (dc_engine c)) ps) = Some bs"
    "sp = (case bs of [] \<Rightarrow> dc_genesis_dag c | b # bs \<Rightarrow> sb_hash (fold max bs b))"
    using assms(1) by (auto simp: selected_parent_dag_def)
  have k: "set ps \<subseteq> dom (work_key (dc_engine c))" "bs = map (the \<circ> work_key (dc_engine c)) ps"
    using those_dom [OF bs(1)] by auto
  have id: "sb_hash (the (work_key (dc_engine c) i)) = i" if "i \<in> set ps" for i
    using that k(1) by (fastforce simp: work_key_def)
  obtain b bs' where b: "bs = b # bs'" using k(2) assms(2) by (cases bs) auto
  have "fold max bs' b \<in> set bs" using fold_max_in [of bs' b] b by auto
  then show ?thesis using bs(2) b k(2) id by auto
qed

lemma mine_loop_run:
  assumes "mine_loop idf t h = Some h'"
  shows "meets_target (idf h') t \<and> (\<exists>n. h' = h\<lparr>dh_nonce := n\<rparr>)"
  using assms
proof (induction rule: mine_loop.raw_induct [rotated, consumes 1])
  case (1 f idf t h h')
  show ?case
  proof (cases "meets_target (idf h) t")
    case True
    then show ?thesis using 1(2) by (auto intro!: exI [of _ "dh_nonce h"])
  next
    case False
    with 1(2) have "f idf t (h\<lparr>dh_nonce := dh_nonce h + 1\<rparr>) = Some h'" by simp
    from 1(1) [OF this] show ?thesis by auto
  qed
qed

lemma headers_ok_apply:
  assumes ok: "headers_ok ev c" and run: "dag_apply ev b (c\<lparr>dc_log := L\<rparr>) = Some (Inr u, c')"
    and new: "bid ev b \<notin> dc_blocks c" and built: "built_on ev (dc_blocks c) (db_header b)"
  shows "headers_ok ev c'"
proof -
  let ?i = "bid ev b"
  have "?i \<notin> dc_blocks (c\<lparr>dc_log := L\<rparr>)" using new by simp
  from apply_run [OF run [unfolded dag_apply_def] this]
  obtain d e T where e: "engine_add_block (ev_floats ev) ?i
      (remap_parents (dc_genesis_dag c) (dc_blocks c) (dh_parents (db_header b))) (dc_engine c) = Some (d, e)"
    and c': "c' = c\<lparr>dc_log := L, dc_engine := e,
        dc_block_txs := T, dc_headers := (dc_headers c)(?i \<mapsto> db_header b), dc_blocks := insert ?i (dc_blocks c),
        dc_tips := filter (\<lambda>t. t \<notin> set (dh_parents (db_header b))) (dc_tips c) @ [?i]\<rparr>"
    by auto
  have tip: "de_tip e = ?i \<or> de_tip e = de_tip (dc_engine c)"
    using e by (auto simp: engine_add_block_def bind_eq_Some_conv Let_def)
  obtain rank :: "bytes32 \<Rightarrow> nat" where rank: "\<forall>i h. dc_headers c i = Some h \<longrightarrow> rank i < card (dc_blocks c)
      \<and> (i \<noteq> dc_genesis_dag c \<longrightarrow> built_on ev {j \<in> dc_blocks c. rank j < rank i} h)"
    using ok unfolding headers_ok_def by blast
  have dom: "dom (dc_headers c) = dc_blocks c" "finite (dc_blocks c)" using ok by (simp_all add: headers_ok_def)
  have g: "dc_genesis_dag c \<noteq> ?i" using ok new dom by (auto simp: headers_ok_def)
  define rank' where "rank' = rank(?i := card (dc_blocks c))"
  have below: "rank' j = rank j \<and> rank j < card (dc_blocks c)" if "j \<in> dc_blocks c" for j
  proof -
    have "j \<in> dom (dc_headers c)" using that dom(1) by simp
    then obtain h where "dc_headers c j = Some h" by auto
    from rank [rule_format, OF this] have "rank j < card (dc_blocks c)" by (rule conjunct1)
    then show ?thesis using that new by (auto simp: rank'_def)
  qed
  have sub: "{j \<in> dc_blocks c. rank j < n} \<subseteq> {j \<in> insert ?i (dc_blocks c). rank' j < n}" for n
    using below by auto
  have mono: "built_on ev X h \<Longrightarrow> X \<subseteq> Y \<Longrightarrow> built_on ev Y h" for X Y h
    by (auto simp: built_on_def)
  have card: "card (insert ?i (dc_blocks c)) = Suc (card (dc_blocks c))" using new dom by simp
  have old: "rank' i < card (insert ?i (dc_blocks c)) \<and>
      (i \<noteq> dc_genesis_dag c \<longrightarrow> built_on ev {j \<in> insert ?i (dc_blocks c). rank' j < rank' i} h)"
    if h: "dc_headers c i = Some h" for i h
  proof -
    have i: "i \<in> dc_blocks c" using h dom by auto
    have r: "rank' i = rank i" "rank i < card (dc_blocks c)" using below [OF i] by simp_all
    have "built_on ev {j \<in> insert ?i (dc_blocks c). rank' j < rank' i} h" if "i \<noteq> dc_genesis_dag c"
      unfolding r(1) by (rule mono [OF _ sub]) (rule rank [rule_format, OF h, THEN conjunct2, rule_format, OF that])
    then show ?thesis using r card by simp
  qed
  have new_one: "rank' ?i < card (insert ?i (dc_blocks c)) \<and>
      built_on ev {j \<in> insert ?i (dc_blocks c). rank' j < rank' ?i} (db_header b)"
  proof
    show "rank' ?i < card (insert ?i (dc_blocks c))" using card by (simp add: rank'_def)
    have "dc_blocks c \<subseteq> {j \<in> insert ?i (dc_blocks c). rank' j < rank' ?i}"
    proof
      fix j
      assume j: "j \<in> dc_blocks c"
      have "rank' ?i = card (dc_blocks c)" by (simp add: rank'_def)
      with below [OF j] j show "j \<in> {j \<in> insert ?i (dc_blocks c). rank' j < rank' ?i}" by simp
    qed
    then show "built_on ev {j \<in> insert ?i (dc_blocks c). rank' j < rank' ?i} (db_header b)"
      by (rule mono [OF built])
  qed
  have ranked: "\<forall>i h. dc_headers c' i = Some h \<longrightarrow> rank' i < card (dc_blocks c')
      \<and> (i \<noteq> dc_genesis_dag c' \<longrightarrow> built_on ev {j \<in> dc_blocks c'. rank' j < rank' i} h)"
    using old new_one by (simp add: c')
  have "dom (dc_headers c') = dc_blocks c'" using dom by (simp add: c')
  moreover have "\<forall>i h. dc_headers c' i = Some h \<longrightarrow> hid ev h = i"
    using ok by (simp add: c' bid_hid headers_ok_def)
  moreover have "\<exists>h. dc_headers c' (dc_genesis_dag c') = Some h \<and> dh_interlink h = []"
    using ok g by (simp add: c' headers_ok_def)
  moreover have "de_tip (dc_engine c') \<in> dc_blocks c'" using ok tip by (auto simp: c' headers_ok_def)
  moreover have "dc_original_genesis c' = dc_genesis_dag c'" "\<not> dc_history_pruned c'" "finite (dc_blocks c')"
    using ok dom by (simp_all add: c' headers_ok_def)
  ultimately show ?thesis unfolding headers_ok_def by (intro conjI exI [of _ rank'] ranked)
qed

lemma headers_ok_cong:
  assumes "headers_ok ev c" and "dc_headers c' = dc_headers c" "dc_blocks c' = dc_blocks c"
    "dc_genesis_dag c' = dc_genesis_dag c" "dc_engine c' = dc_engine c"
    "dc_original_genesis c' = dc_original_genesis c" "dc_history_pruned c' = dc_history_pruned c"
  shows "headers_ok ev c'"
  using assms by (simp add: headers_ok_def)

lemma adds_headers_ok:
  assumes "headers_ok ev c" and "adds_block ev b c c'"
    and "bid ev b \<notin> dc_blocks c \<Longrightarrow> built_on ev (dc_blocks c) (db_header b)"
  shows "headers_ok ev c'"
proof (cases "bid ev b \<in> dc_blocks c")
  case True
  then obtain L where "c' = c\<lparr>dc_log := L\<rparr>"
    using assms(2) by (auto simp: adds_block_def dag_apply_def apply_with_id_def)
  then show ?thesis using assms(1) by (auto intro: headers_ok_cong)
next
  case False
  then show ?thesis using assms headers_ok_apply by (fastforce simp: adds_block_def)
qed

lemma valid_block_built:
  assumes "headers_ok ev c" and "valid_block ev now c b"
  shows "built_on ev (dc_blocks c) (db_header b)"
proof -
  obtain sp where sp: "selected_parent_dag c (dh_parents (db_header b)) = Some sp"
    "dh_interlink (db_header b) = interlink_for_parent c sp"
    using assms(2) by (auto simp: valid_block_def)
  have v: "meets_target (hid ev (db_header b)) (dh_target (db_header b))" "dh_parents (db_header b) \<noteq> []"
    "set (dh_parents (db_header b)) \<subseteq> dc_blocks c"
    using assms(2) validate_Inr [of ev now b] by (auto simp: valid_block_def Let_def)
  have "sp \<in> dc_blocks c" using selected_parent_in [OF sp(1) v(2)] v(3) by auto
  from interlink_for_parent_ok [OF assms(1) this] show ?thesis
    using v(1) by (simp add: built_on_def sp(2))
qed

lemma built_block_built:
  assumes "headers_ok ev c" and "build_block_at ev c txs timestamp = Some b"
  shows "built_on ev (dc_blocks c) (db_header b)"
proof -
  obtain t h where h: "mine_loop (hid ev) t
      \<lparr>dh_version = HEADER_VERSION, dh_parents = block_parents c, dh_timestamp = timestamp,
       dh_tx_merkle_root = tx_merkle_root (be_hash (ev_bank ev)) (map (encode_tx ev) txs), dh_state_root = 0,
       dh_target = t, dh_interlink = interlink_for_parent c (de_tip (dc_engine c)),
       dh_nonce = 0, dh_miner = dc_miner c\<rparr> = Some h" "db_header b = h"
    using assms(2) by (auto simp: build_block_at_def Let_def bind_eq_Some_conv)
  have "meets_target (hid ev h) (dh_target h)" "dh_interlink h = interlink_for_parent c (de_tip (dc_engine c))"
    using mine_loop_run [OF h(1)] by auto
  moreover have "de_tip (dc_engine c) \<in> dc_blocks c" using assms(1) by (simp add: headers_ok_def)
  ultimately show ?thesis using interlink_for_parent_ok [OF assms(1)] by (simp add: built_on_def h(2))
qed

lemma chain_init_headers:
  assumes "chain_init ev op [] = Some c"
  shows "headers_ok ev c"
proof -
  let ?h = "dag_genesis_header (op_target op) (op_commitment op)"
  obtain e where e: "fresh_engine (ev_floats ev) (op_k op) (hid ev ?h) = Some e" "dc_engine c = e"
    "dc_blocks c = {hid ev ?h}" "dc_headers c = [hid ev ?h \<mapsto> ?h]" "dc_genesis_dag c = hid ev ?h"
    "dc_original_genesis c = hid ev ?h" "\<not> dc_history_pruned c"
    using assms by (auto simp: chain_init_def Let_def)
  have "de_tip e = hid ev ?h"
    using e(1) by (auto simp: fresh_engine_def engine_new_def engine_add_block_def bind_eq_Some_conv Let_def)
  with e show ?thesis by (auto simp: headers_ok_def dag_genesis_header_def)
qed

lemma runs_headers_ok: "dag_runs ev op c \<Longrightarrow> headers_ok ev c"
proof (induction rule: dag_runs.induct)
  case (runs_init c)
  then show ?case by (rule chain_init_headers)
next
  case (runs_accept c now b r c')
  from accept_adds [OF runs_accept(2,3)] show ?case
    using runs_accept.IH adds_headers_ok [of ev c b c'] valid_block_built [of ev c now b] by blast
next
  case (runs_mine c txs timestamp r c')
  from mine_adds [OF runs_mine(2,3)] obtain b where b: "build_block_at ev c txs timestamp = Some b"
    "c' = c \<or> adds_block ev b c c'" by blast
  show ?case
    using b(2) runs_mine.IH adds_headers_ok [of ev c b c'] built_block_built [OF runs_mine.IH b(1)] by blast
next
  case (runs_state c r c')
  from virtual_state_volatile [OF runs_state(2)] have v: "volatile [] c' = volatile [] c" by simp
  have "dc_original_genesis x = dc_original_genesis (volatile [] x)"
    "dc_history_pruned x = dc_history_pruned (volatile [] x)" for x :: "('a, 'b, 'c, 'd) dag_chain"
    by (simp_all add: volatile_def)
  with v show ?case by (intro headers_ok_cong [OF runs_state.IH]) (metis volatile_sel)+
next
  case (runs_finality c d)
  show ?case by (rule headers_ok_cong [OF runs_finality.IH]) (simp_all add: set_finality_depth_def)
qed

subsection \<open>The walk\<close>

lemma proof_walk_linked:
  assumes ok: "headers_ok ev c"
    and rank: "\<forall>i h. dc_headers c i = Some h \<longrightarrow> i \<noteq> dc_genesis_dag c \<longrightarrow>
      built_on ev {j \<in> dc_blocks c. rank j < rank i} h"
  shows "p \<in> dc_blocks c \<Longrightarrow> rank p \<le> n \<Longrightarrow> \<forall>j \<in> seen. rank p < rank j \<Longrightarrow>
    linked ev (dc_genesis_dag c) (proof_walk ev c n p seen) \<and> hid ev (hd (proof_walk ev c n p seen)) = p"
proof (induction n arbitrary: p seen rule: less_induct)
  case (less n)
  have "p \<in> dom (dc_headers c)" using ok less.prems(1) by (simp add: headers_ok_def)
  then obtain h where h: "dc_headers c p = Some h" by auto
  have hid: "hid ev h = p" using ok h by (simp add: headers_ok_def)
  have seen: "p \<notin> seen" using less.prems(3) by auto
  have head: "proof_header ev c p = Some h" using h by (simp add: proof_header_def)
  show ?case
  proof (cases "p = dc_genesis_dag c")
    case True
    then have "dh_interlink h = []" using ok h by (auto simp: headers_ok_def)
    then show ?thesis using head hid seen True by (subst (1 2) proof_walk.simps) simp
  next
    case False
    define q where "q = last (dh_interlink h)"
    have b: "built_on ev {j \<in> dc_blocks c. rank j < rank p} h" using rank h False by blast
    have il: "dh_interlink h \<noteq> []" "meets_target (hid ev h) (dh_target h)"
      "set (dh_interlink h) \<subseteq> {j \<in> dc_blocks c. rank j < rank p}"
      using b unfolding built_on_def by blast+
    then have "q \<in> {j \<in> dc_blocks c. rank j < rank p}" using last_in_set [OF il(1)] unfolding q_def by blast
    then have q: "q \<in> dc_blocks c" "rank q < rank p" by simp_all
    obtain m where m: "n = Suc m" using q(2) less.prems(2) by (cases n) auto
    have walk: "proof_walk ev c n p seen = h # proof_walk ev c m q (insert p seen)"
      using head hid seen il(1) q(2) by (subst proof_walk.simps) (auto simp: m q_def)
    have IH: "linked ev (dc_genesis_dag c) (proof_walk ev c m q (insert p seen))
        \<and> hid ev (hd (proof_walk ev c m q (insert p seen))) = q"
      using q less.prems(2,3) by (intro less.IH) (auto simp: m)
    obtain h' hs where "proof_walk ev c m q (insert p seen) = h' # hs"
      using IH by (cases "proof_walk ev c m q (insert p seen)") auto
    with IH il hid walk show ?thesis by (simp add: q_def)
  qed
qed

end
