(* ===== verification/DagDemo.thy ===== *)
theory DagDemo
  imports DagProof
begin

text \<open>
  A concrete node: toy encodings, a store in memory and a machine that processes no transaction.
  The blocks of its first steps are computed here, for the witnesses.
\<close>

definition demo_am :: "byte account_maker" where
  "demo_am = \<lparr>am_from = (\<lambda>l _ _ _ _. ucast l), am_new = (\<lambda>l _ _. ucast l),
     am_set_data = (\<lambda>_ a. a), am_set_lamports = (\<lambda>l _. ucast l)\<rparr>"

definition demo_ids :: sdk_ids where
  "demo_ids = \<lparr>id_clock = 101, id_rent = 102, id_epoch_schedule = 103, id_sysvar = 104,
     id_system = 105, id_native_loader = 106, id_bpf_loader = 107, id_bpf_loader_deprecated = 108,
     id_bpf_loader_upgradeable = 109\<rparr>"

definition demo_svm :: "(byte, unit, byte, byte, unit) svm_ops" where
  "demo_svm = \<lparr>sv_processor = (\<lambda>_ _. Some ()), sv_fill_sysvars = (\<lambda>_ p. p),
     sv_add_builtin = (\<lambda>_ _ _ _ p. p), sv_clock_bytes = (\<lambda>_. []), sv_rent_bytes = [],
     sv_epoch_schedule_bytes = [], sv_rent_minimum = (\<lambda>_. 0), sv_verify = (\<lambda>_. None),
     sv_sanitize = Some, sv_signatures = (\<lambda>_. 1), sv_is_writable = (\<lambda>_ _. True),
     sv_check_details = (\<lambda>_. ()), sv_execute = (\<lambda>_ _ _ _ _ p. ([Inl ''unsupported''], p))\<rparr>"

text \<open>Accounts of one byte, their balance.\<close>

definition demo_accounts :: "byte account_ops" where
  "demo_accounts = \<lparr>ao_ser = (\<lambda>b. Inr [b]), ao_de = (\<lambda>bs. Inr (hd (bs @ [0]))), ao_lamports = ucast, ao_data = (\<lambda>_. [])\<rparr>"

type_synonym demo_db = "(bytes \<rightharpoonup> bytes) \<times> (bytes \<rightharpoonup> bytes)"

definition demo_bank :: "(demo_db, byte, unit, byte, byte, unit) bank_env" where
  "demo_bank = \<lparr>be_hash = (\<lambda>bs. - 10 - word_of_nat (length bs)), be_rocks = mem_rocks,
     be_ao = demo_accounts, be_am = demo_am, be_ids = demo_ids, be_svm = demo_svm\<rparr>"

definition demo_floats :: "nat f64_ops" where
  "demo_floats = \<lparr>f64_pow2 = (\<lambda>n. 2 ^ unat n), f64_recip = (\<lambda>n. n), f64_sum = sum_list,
     f64_div = (div), f64_bias = (\<lambda>x _. x)\<rparr>"

text \<open>
  A header is encoded by its number of parents; the only records are the first block's and the
  snapshots anchored at it with one account.
\<close>

definition demo_block :: dag_block where
  "demo_block = \<lparr>db_header = \<lparr>dh_version = HEADER_VERSION, dh_parents = [- 10], dh_timestamp = 1750000005,
       dh_tx_merkle_root = tx_merkle_root (be_hash demo_bank) [], dh_state_root = 0, dh_target = - 1,
       dh_interlink = [- 10], dh_nonce = 0, dh_miner = 7\<rparr>, db_transactions = []\<rparr>"

definition demo_proof :: "dag_block_header list" where
  "demo_proof = [dag_genesis_header (- 1) 0, db_header demo_block]"

definition demo_snapshot :: "byte \<Rightarrow> byte sync_snapshot" where
  "demo_snapshot a = \<lparr>sn_origin_header = db_header demo_block, sn_accounts = [(7, a)], sn_suffix = [],
     sn_proof = demo_proof\<rparr>"

definition demo_env :: "(demo_db, byte, unit, byte, byte, unit, nat) dag_env" where
  "demo_env = \<lparr>ev_bank = demo_bank, ev_floats = demo_floats,
     ev_ser_header = (\<lambda>h. replicate (length (dh_parents h)) 0), ev_ser_legacy_header = (\<lambda>_. Inl ''eof''),
     ev_ser_tx = (\<lambda>t. Inr [t]), ev_de_tx = (\<lambda>bs. if length bs = 1 then Inr (bs ! 0) else Inl ''eof''),
     ev_ser_record = (\<lambda>r. case r of
         RecBlock b \<Rightarrow> if b = demo_block then Inr [1] else Inl ''unsupported''
       | RecSnapshot h accounts prf \<Rightarrow>
           if h = db_header demo_block \<and> prf = demo_proof \<and> map fst accounts = [7]
           then Inr (2 # map snd accounts) else Inl ''unsupported''),
     ev_de_record = (\<lambda>bs. if bs = [1] then Inr (RecBlock demo_block)
       else if length bs = 2 \<and> bs ! 0 = 2 then Inr (RecSnapshot (db_header demo_block) [(7, bs ! 1)] demo_proof)
       else Inl ''eof''), ev_de_legacy = (\<lambda>_. Inl ''eof''),
     ev_ser_snapshot = (\<lambda>_. Inl ''eof''), ev_de_snapshot = (\<lambda>bs. if length bs = 1 then Inr (demo_snapshot (bs ! 0)) else Inl ''eof''),
     ev_open_wiped = (\<lambda>_. Inr (Map.empty, Map.empty))\<rparr>"

definition demo_params :: open_params where
  "demo_params = \<lparr>op_k = 3, op_target = - 1, op_miner = 7, op_reward = 50, op_allocations = [],
     op_block_time_secs = 10, op_lwma_window = 5, op_commitment = 0\<rparr>"

subsection \<open>The genesis engine\<close>

definition demo_reach :: "blk \<Rightarrow> mem_store" where
  "demo_reach g = \<lparr>ms_map = [ORIGIN \<mapsto> \<lparr>md_children = [g], md_parent = NONE, md_interval = iv_maximal, md_height = 0,
      md_future_covering_set = []\<rparr>,
    g \<mapsto> mem_data_new ORIGIN (fst (split_half (decrease_end iv_maximal 1))) 1], ms_reindex_root = Some ORIGIN\<rparr>"

lemma demo_half: "split_half (decrease_end iv_maximal 1) = (iv_new 1 0x8000000000000000, iv_new 0x8000000000000001 (- 3))"
  by (simp add: split_half_def half_up_def iv_size_def decrease_end_def iv_maximal_def iv_new_def
      f32_of_nat_def bit_len.simps)

lemma demo_engine_new:
  "engine_new k g = Some \<lparr>de_genesis = g, de_k = k,
     de_reach = \<lparr>ms_map = [ORIGIN \<mapsto> mem_data_new NONE iv_maximal 0], ms_reindex_root = Some ORIGIN\<rparr>,
     de_gd = [ORIGIN \<mapsto> origin_ghostdag_data], de_relations = (\<lambda>_. None), de_tip = g\<rparr>"
  by (simp add: engine_new_def unwrap_rm_def reach_init_def init_with_params_def store_has_def mem_store_new_def
      rwrite_def store_init_def store_insert_def put_data_def set_reindex_root_def)

lemma demo_ghostdag:
  "ghostdag unit_work \<lparr>gm_genesis = g, gm_k = k, gm_store = [ORIGIN \<mapsto> origin_ghostdag_data],
     gm_relations = r, gm_reach = s\<rparr> [ORIGIN] = Some (new_with_selected_parent ORIGIN)"
  by (simp add: ghostdag_def find_selected_parent_def sortable_def blue_work_of_def is_origin_def)

lemma demo_add_genesis:
  assumes "g \<noteq> ORIGIN"
  shows "reach_add_block fo g ORIGIN [] 
      \<lparr>ms_map = [ORIGIN \<mapsto> mem_data_new NONE iv_maximal 0], ms_reindex_root = Some ORIGIN\<rparr> = Some (Inr (), demo_reach g)"
  using assms
  by (simp add: reach_add_block_def add_block_with_params_def add_tree_block_def add_dag_block_def
      interval_remaining_after_def interval_children_capacity_def get_interval_def get_data_def get_children_def
      mem_data_new_def append_child_def rwrite_def rbind_def put_data_def get_height_def store_insert_def
      iv_is_empty_def iv_size_def decrease_end_def iv_maximal_def iv_new_def demo_reach_def)

lemma demo_reach_data:
  assumes "g \<noteq> ORIGIN"
  shows "get_interval (demo_reach g) ORIGIN = Inr iv_maximal"
    "get_interval (demo_reach g) g = Inr (iv_new 1 0x8000000000000000)"
    "get_height (demo_reach g) ORIGIN = Inr 0" "get_height (demo_reach g) g = Inr 1"
    "get_children (demo_reach g) ORIGIN = Inr [g]" "get_children (demo_reach g) g = Inr []"
    "get_reindex_root (demo_reach g) = Inr ORIGIN"
  using assms
  by (simp_all add: get_interval_def get_height_def get_children_def get_reindex_root_def get_data_def
      demo_reach_def demo_half mem_data_new_def)

lemma demo_ancestor:
  assumes "g \<noteq> ORIGIN"
  shows "is_chain_ancestor_of (demo_reach g) ORIGIN g = Inr True"
    "is_chain_ancestor_of (demo_reach g) g g = Inr True"
    "get_next_chain_ancestor_unchecked (demo_reach g) g ORIGIN = Inr g"
  using assms
  by (simp_all add: is_chain_ancestor_of_def get_next_chain_ancestor_unchecked_def binary_search_descendant_def
      binary_search_by_def bisect.simps start_key_def demo_reach_data iv_contains_def iv_maximal_def iv_new_def)

lemma demo_hint:
  assumes "g \<noteq> ORIGIN"
  shows "hint_virtual_selected_parent fo g (demo_reach g) = Some (Inr (), demo_reach g)"
proof -
  have "next_root_loop g 1 100 ORIGIN (demo_reach g) = Some (Inr ORIGIN, demo_reach g)"
    using assms by (subst next_root_loop.simps) (simp add: demo_ancestor demo_reach_data)
  then show ?thesis using assms
    by (simp add: hint_virtual_selected_parent_def try_advancing_reindex_root_def find_next_reindex_root_def
        demo_reach_data demo_ancestor DEFAULT_REINDEX_DEPTH_def DEFAULT_REINDEX_SLACK_def rbind_def)
qed

text \<open>The engine of any node that has opened an empty log.\<close>

definition demo_engine :: "u16 \<Rightarrow> blk \<Rightarrow> dag_engine" where
  "demo_engine k g = \<lparr>de_genesis = g, de_k = k, de_reach = demo_reach g,
     de_gd = [ORIGIN \<mapsto> origin_ghostdag_data, g \<mapsto> new_with_selected_parent ORIGIN],
     de_relations = [g \<mapsto> [ORIGIN]], de_tip = g\<rparr>"

lemma demo_fresh_engine:
  assumes "g \<noteq> ORIGIN"
  shows "fresh_engine fo k g = Some (demo_engine k g)"
proof -
  have m: "unordered_mergeset (new_with_selected_parent ORIGIN) = []" "gd_selected_parent (new_with_selected_parent ORIGIN) = ORIGIN"
    by (simp_all add: unordered_mergeset_def new_with_selected_parent_def ghostdag_data_new_def)
  show ?thesis
    by (simp add: fresh_engine_def demo_engine_new engine_add_block_def manager_of_def demo_ghostdag m unwrap_rm_def
        demo_add_genesis [OF assms] demo_hint [OF assms] demo_engine_def Let_def)
qed

subsection \<open>The first block\<close>

lemma demo_ids_of_headers:
  "hid demo_env (dag_genesis_header t k) = - 10" "bid demo_env demo_block = - 11" "hid demo_env (db_header demo_block) = - 11"
  by (simp_all add: hid_def bid_def dag_block_id_def dag_header_id_def demo_env_def demo_bank_def dag_genesis_header_def demo_block_def)

definition demo_dag :: "(demo_db, byte, unit, byte) dag_chain" where
  "demo_dag = the (chain_init demo_env demo_params [])"

lemma demo_dag_init: "chain_init demo_env demo_params [] = Some demo_dag"
  by (simp add: demo_dag_def chain_init_def demo_ids_of_headers demo_fresh_engine ORIGIN_def)

lemma demo_dag_sel:
  "dc_engine demo_dag = demo_engine 3 (- 10)" "dc_blocks demo_dag = {- 10}" "dc_tips demo_dag = [- 10]"
  "dc_headers demo_dag = [- 10 \<mapsto> dag_genesis_header (- 1) 0]" "dc_genesis_dag demo_dag = - 10"
  "dc_genesis_target demo_dag = - 1" "dc_block_time_secs demo_dag = 10" "dc_lwma_window demo_dag = 5"
  "dc_log demo_dag = []" "dc_block_txs demo_dag = Map.empty" "dc_history_pruned demo_dag = False"
  by (simp_all add: demo_dag_def chain_init_def demo_ids_of_headers demo_fresh_engine ORIGIN_def Let_def demo_params_def)

lemma demo_valid: "validate_block_intrinsic demo_env 1750000005 demo_block = Inr ()"
proof -
  have "meets_target (- 11) (- 1)" by (simp add: meets_target_def)
  then show ?thesis
  by (simp add: validate_block_intrinsic_def Let_def demo_ids_of_headers)
    (simp add: demo_block_def demo_env_def MAX_PARENTS_def MAX_BLOCK_TXS_def MAX_BLOCK_TX_BYTES_def
      i64_saturating_add_def MAX_TIMESTAMP_DRIFT_SECS_def)
qed

lemma demo_target:
  "selected_parent_dag demo_dag [- 10] = Some (- 10)" "selected_chain_target demo_dag (- 10) = Some (- 1)"
proof -
  show "selected_parent_dag demo_dag [- 10] = Some (- 10)"
    by (simp add: selected_parent_dag_def demo_dag_sel work_key_def demo_engine_def)
  have "target_chain (demo_engine 3 (- 10)) (- 10) n (- 10) [] = Some [- 10]" for n
    by (subst target_chain.simps) simp
  then show "selected_chain_target demo_dag (- 10) = Some (- 1)"
    by (simp add: selected_chain_target_def demo_dag_sel difficulty_params_new_def next_target_def
        cons_header_def dag_genesis_header_def map_filter_simps)
qed

lemma demo_levels: "leading_zero_bits (- 10) = 0"
proof -
  have "(2::u256) ^ 255 \<le> - 10" by simp
  then have "(2::nat) ^ 255 \<le> unat (- 10 :: u256)" by (simp add: word_le_nat_alt)
  then have "(2::nat) ^ 255 < 2 ^ (256 - leading_zero_bits (- 10))"
    using leading_zero_bits_upper [of "- 10"] by (rule order_le_less_trans)
  then show ?thesis using power_less_imp_less_exp [of "2::nat" 255 "256 - leading_zero_bits (- 10)"] by simp
qed

lemma demo_interlink: "interlink_for_parent demo_dag (- 10) = [- 10]"
  by (simp add: interlink_for_parent_def demo_dag_sel pow_level_def demo_levels interlink_step_def dag_genesis_header_def)

definition demo_data :: "blk \<Rightarrow> ghostdag_data" where
  "demo_data g = ghostdag_data_new 1 1 g [g] [] [g \<mapsto> 0]"

lemma demo_ghostdag_next:
  assumes "g \<noteq> ORIGIN"
  shows "ghostdag unit_work (manager_of (demo_engine k g)) [g] = Some (demo_data g)"
proof -
  have "find_selected_parent (manager_of (demo_engine k g)) [g] = Some g"
    by (simp add: find_selected_parent_def manager_of_def demo_engine_def sortable_def blue_work_of_def)
  moreover have "mergeset_loop (manager_of (demo_engine k g)) g ([], [], {}) = Some []"
    by (subst mergeset_loop.simps) simp
  then have "ordered_mergeset_without_selected_parent (manager_of (demo_engine k g)) g [g] = Some []"
    by (simp add: ordered_mergeset_without_selected_parent_def unordered_mergeset_without_selected_parent_def
        sort_blocks_def)
  ultimately show ?thesis using assms
    by (simp add: ghostdag_def is_origin_def blue_score_of_def blue_work_of_def manager_of_def demo_engine_def
        new_with_selected_parent_def ghostdag_data_new_def demo_data_def unit_work_def finalize_score_and_work_def)
qed

text \<open>A block on the genesis takes half of the interval of the genesis.\<close>

definition demo_reach_next :: "blk \<Rightarrow> blk \<Rightarrow> mem_store" where
  "demo_reach_next g b = (demo_reach g)\<lparr>ms_map := (ms_map (demo_reach g))
     (g \<mapsto> (mem_data_new ORIGIN (iv_new 1 0x8000000000000000) 1)\<lparr>md_children := [b]\<rparr>,
      b \<mapsto> mem_data_new g (iv_new 1 0x4000000000000000) 2)\<rparr>"

lemma demo_quarter: "fst (split_half (decrease_end (iv_new 1 0x8000000000000000) 1)) = iv_new 1 0x4000000000000000"
  by (simp add: split_half_def half_up_def iv_size_def decrease_end_def iv_new_def f32_of_nat_def bit_len.simps)

lemma demo_add_next:
  assumes "g \<noteq> ORIGIN" and "b \<noteq> g" and "b \<noteq> ORIGIN"
  shows "reach_add_block fo b g [] (demo_reach g) = Some (Inr (), demo_reach_next g b)"
proof -
  have "interval_remaining_after (demo_reach g) g = Inr (decrease_end (iv_new 1 0x8000000000000000) 1)"
    by (simp add: interval_remaining_after_def interval_children_capacity_def demo_reach_data [OF assms(1)])
  moreover have "\<not> iv_is_empty (decrease_end (iv_new 1 0x8000000000000000) 1)"
    by (simp add: iv_is_empty_def iv_size_def decrease_end_def iv_new_def)
  moreover have "append_child g b (demo_reach g) = Inr ((demo_reach g)\<lparr>ms_map := (ms_map (demo_reach g))
     (g \<mapsto> (mem_data_new ORIGIN (iv_new 1 0x8000000000000000) 1)\<lparr>md_children := [b]\<rparr>)\<rparr>)"
    using assms(1) by (simp add: append_child_def get_data_def demo_reach_def put_data_def demo_half mem_data_new_def)
  ultimately show ?thesis using assms
    by (simp add: reach_add_block_def add_block_with_params_def add_tree_block_def add_dag_block_def rwrite_def rbind_def
        get_height_def get_data_def mem_data_new_def store_insert_def put_data_def demo_reach_next_def demo_quarter)
      (simp add: demo_reach_def)
qed

lemma demo_next_data:
  assumes "g \<noteq> ORIGIN" and "b \<noteq> g" and "b \<noteq> ORIGIN"
  shows "get_interval (demo_reach_next g b) ORIGIN = Inr iv_maximal"
    "get_interval (demo_reach_next g b) g = Inr (iv_new 1 0x8000000000000000)"
    "get_interval (demo_reach_next g b) b = Inr (iv_new 1 0x4000000000000000)"
    "get_height (demo_reach_next g b) ORIGIN = Inr 0" "get_height (demo_reach_next g b) g = Inr 1"
    "get_height (demo_reach_next g b) b = Inr 2"
    "get_children (demo_reach_next g b) ORIGIN = Inr [g]"
    "get_reindex_root (demo_reach_next g b) = Inr ORIGIN"
  using assms
  by (simp_all add: get_interval_def get_height_def get_children_def get_reindex_root_def get_data_def
      demo_reach_next_def demo_reach_def mem_data_new_def)

lemma demo_next_ancestor:
  assumes "g \<noteq> ORIGIN" and "b \<noteq> g" and "b \<noteq> ORIGIN"
  shows "is_chain_ancestor_of (demo_reach_next g b) ORIGIN b = Inr True"
    "get_next_chain_ancestor_unchecked (demo_reach_next g b) b ORIGIN = Inr g"
proof -
  note data = demo_next_data [OF assms]
  show "is_chain_ancestor_of (demo_reach_next g b) ORIGIN b = Inr True"
    by (simp add: is_chain_ancestor_of_def data iv_contains_def iv_maximal_def iv_new_def)
  show "get_next_chain_ancestor_unchecked (demo_reach_next g b) b ORIGIN = Inr g"
    by (simp add: is_chain_ancestor_of_def get_next_chain_ancestor_unchecked_def binary_search_descendant_def
        binary_search_by_def bisect.simps start_key_def data iv_contains_def iv_maximal_def iv_new_def)
qed

lemma demo_hint_next:
  assumes "g \<noteq> ORIGIN" and "b \<noteq> g" and "b \<noteq> ORIGIN"
  shows "hint_virtual_selected_parent fo b (demo_reach_next g b) = Some (Inr (), demo_reach_next g b)"
proof -
  note data = demo_next_data [OF assms] demo_next_ancestor [OF assms]
  have "next_root_loop b 2 100 ORIGIN (demo_reach_next g b) = Some (Inr ORIGIN, demo_reach_next g b)"
    by (subst next_root_loop.simps) (simp add: data)
  then show ?thesis
    by (simp add: hint_virtual_selected_parent_def try_advancing_reindex_root_def find_next_reindex_root_def
        data DEFAULT_REINDEX_DEPTH_def DEFAULT_REINDEX_SLACK_def rbind_def)
qed

definition demo_engine_next :: "u16 \<Rightarrow> blk \<Rightarrow> blk \<Rightarrow> dag_engine" where
  "demo_engine_next k g b = \<lparr>de_genesis = g, de_k = k, de_reach = demo_reach_next g b,
     de_gd = [ORIGIN \<mapsto> origin_ghostdag_data, g \<mapsto> new_with_selected_parent ORIGIN, b \<mapsto> demo_data g],
     de_relations = [g \<mapsto> [ORIGIN], b \<mapsto> [g]], de_tip = b\<rparr>"

lemma demo_add_block:
  assumes "g \<noteq> ORIGIN" and "b \<noteq> g" and "b \<noteq> ORIGIN"
  shows "engine_add_block fo b [g] (demo_engine k g) = Some (demo_data g, demo_engine_next k g b)"
proof -
  have "unordered_mergeset (demo_data g) = []" "gd_selected_parent (demo_data g) = g" "gd_blue_work (demo_data g) = 1"
    "gd_blue_work (new_with_selected_parent ORIGIN) = 0"
    by (simp_all add: unordered_mergeset_def demo_data_def ghostdag_data_new_def new_with_selected_parent_def)
  moreover have "de_reach (demo_engine k g) = demo_reach g" "de_tip (demo_engine k g) = g"
    "de_gd (demo_engine k g) g = Some (new_with_selected_parent ORIGIN)"
    using assms(1) by (simp_all add: demo_engine_def)
  ultimately have "engine_add_block fo b [g] (demo_engine k g) = Some (demo_data g, (demo_engine k g)
      \<lparr>de_reach := demo_reach_next g b, de_gd := (de_gd (demo_engine k g))(b \<mapsto> demo_data g),
        de_relations := (de_relations (demo_engine k g))(b \<mapsto> [g]), de_tip := b\<rparr>)"
    using assms by (simp add: engine_add_block_def demo_ghostdag_next unwrap_rm_def demo_add_next demo_hint_next Let_def)
  then show ?thesis by (simp add: demo_engine_def demo_engine_next_def)
qed

definition demo_grown :: "(demo_db, byte, unit, byte) dag_chain" where
  "demo_grown = demo_dag\<lparr>dc_log := log_record [1], dc_engine := demo_engine_next 3 (- 10) (- 11),
     dc_headers := (dc_headers demo_dag)(- 11 \<mapsto> db_header demo_block), dc_blocks := {- 11, - 10}, dc_tips := [- 11]\<rparr>"

lemma demo_head:
  "dh_parents (db_header demo_block) = [- 10]" "dh_target (db_header demo_block) = - 1"
  "dh_interlink (db_header demo_block) = [- 10]" "db_transactions demo_block = []"
  by (simp_all add: demo_block_def)

lemma demo_accept: "accept demo_env 1750000005 demo_block demo_dag = Some (Inr (), demo_grown)"
proof -
  have new: "bid demo_env demo_block \<notin> dc_blocks demo_dag" by (simp add: demo_ids_of_headers demo_dag_sel)
  have time: "\<not> regresses demo_dag (- 10) (db_header demo_block)"
    by (simp add: regresses_def demo_dag_sel demo_block_def dag_genesis_header_def MAX_TIMESTAMP_DRIFT_SECS_def)
  have log: "log_block demo_env demo_block demo_dag = Some (Inr (), demo_dag\<lparr>dc_log := log_record [1]\<rparr>)"
    by (simp add: log_block_def demo_env_def rwrite_def log_append_def demo_dag_sel)
  have remap: "remap_parents (- 10) {- 10} [- 10] = [- 10]" by (simp add: remap_parents_def)
  have added: "dag_apply demo_env demo_block (demo_dag\<lparr>dc_log := log_record [1]\<rparr>) = Some (Inr (), demo_grown)"
    by (simp add: dag_apply_def apply_with_id_def demo_ids_of_headers demo_dag_sel demo_head remap
        demo_add_block ORIGIN_def demo_grown_def Let_def)
  show ?thesis using new
    by (simp add: accept_def demo_valid demo_head demo_dag_sel demo_target time demo_interlink rbind_Some(1) [where m = "log_block demo_env demo_block", OF log] added Let_def)
qed

lemma demo_runs: "dag_runs demo_env demo_params demo_dag" "dag_runs demo_env demo_params demo_grown"
proof -
  show "dag_runs demo_env demo_params demo_dag" by (rule runs_init [OF demo_dag_init])
  from runs_accept [OF this demo_accept] show "dag_runs demo_env demo_params demo_grown" by simp
qed

lemma demo_codec: "record_codec demo_env"
  by (auto simp: record_codec_def demo_env_def demo_bank_def split: dag_record.splits if_splits)

subsection \<open>The state after the first block\<close>

lemma demo_dag_rest:
  "dc_checkpoint demo_dag = None" "dc_state demo_dag = None" "dc_base_accounts demo_dag = None"
  "dc_allocations demo_dag = []" "dc_reward demo_dag = 50" "dc_finality_depth demo_dag = 100"
  "dc_original_genesis demo_dag = - 10" "dc_executed demo_dag = []"
  by (simp_all add: demo_dag_def chain_init_def demo_ids_of_headers demo_fresh_engine ORIGIN_def Let_def
      demo_params_def DEFAULT_FINALITY_DEPTH_def)

lemma demo_order: "dc_total_order demo_grown = Some [- 10, - 11]"
proof -
  let ?e = "demo_engine_next 3 (- 10) (- 11)"
  have sel: "de_tip ?e = - 11" "de_genesis ?e = - 10" "de_gd ?e (- 11) = Some (demo_data (- 10))"
    by (simp_all add: demo_engine_next_def)
  have "chain_loop ?e (- 10) [- 11] = Some [- 10, - 11]"
    by (subst chain_loop.simps) (simp add: sel)
  then have "chain_loop ?e (- 11) [] = Some [- 10, - 11]"
    by (subst chain_loop.simps) (simp add: sel engine_selected_parent_def demo_data_def ghostdag_data_new_def)
  moreover have "sort_by_work ?e (unordered_mergeset (demo_data (- 10))) = Some []"
    by (simp add: sort_by_work_def unordered_mergeset_def demo_data_def ghostdag_data_new_def)
  ultimately show ?thesis by (simp add: dc_total_order_def demo_grown_def total_order_def sel)
qed

lemma demo_airdrop: "\<exists>b'. airdrop demo_bank k v b = Some (Inr (), b')"
  by (simp add: airdrop_def credit_def rbind_def adb_get_def demo_bank_def mem_rocks_def demo_accounts_def storage_def
      map_err_def db_write_def rwrite_def adb_set_def demo_am_def Let_def split: option.split)

lemma demo_virtual_state: "\<exists>bank c'. virtual_state demo_env demo_grown = Some (Inr bank, c')"
proof -
  obtain b0 where b0: "fresh_bank demo_env demo_grown StateDir = Some (Inr b0)"
    by (simp add: fresh_bank_def open_bank_def demo_env_def seed_db_def demo_grown_def demo_dag_rest bank_new_def
        demo_bank_def demo_svm_def)
  obtain b1 where b1: "airdrop demo_bank 7 50 b0 = Some (Inr (), b1)" using demo_airdrop by blast
  have "replay_blocks demo_bank demo_grown [- 10, - 11] b0 = Some (Inr (), b1)"
    using b1 by (simp add: replay_blocks_def replay_block_def pay_coinbase_def demo_grown_def demo_dag_sel
        demo_dag_rest demo_block_def rbind_def)
  then have "next_bank demo_env demo_grown [- 10, - 11] = Some (Inr b1)"
    using b0 by (simp add: next_bank_def can_extend_def demo_grown_def demo_dag_rest virtual_bank_def
        from_checkpoint_def prune_gone_def demo_dag_sel run_bank_def demo_env_def)
  moreover have "maybe_advance_checkpoint demo_env (demo_grown\<lparr>dc_state := Some b1, dc_executed := [- 10, - 11]\<rparr>)
      = Some (Inr (), demo_grown\<lparr>dc_state := Some b1, dc_executed := [- 10, - 11]\<rparr>)"
    by (simp add: maybe_advance_checkpoint_def demo_grown_def demo_dag_rest usize_add_def Let_def)
  ultimately show ?thesis by (simp add: virtual_state_def demo_order rbind_def)
qed

end
