(* ===== verification/DagProps.thy ===== *)
theory DagProps
  imports DagDemo
begin

text \<open>
  The properties of the DAG chain: acceptance, the log, the derived state, and the proofs of
  work that stand for a pruned history.
\<close>

text \<open>
  Property C6.  Acceptance of a new block: it succeeds only if the header meets its target, has between
  1 and 16 distinct parents, all known, the transactions are within the limits and match the
  Merkle root, the timestamp is neither too far ahead nor behind the selected parent, and target
  and interlink are the ones the chain computes for the selected parent; then exactly the
  block's record is appended to the log, and the block, its header and its transactions are
  added, its parents leaving the tips.  A rejection leaves the chain as it was, except for a
  valid block with an undecodable transaction, whose record stays in the log.
\<close>

theorem accept_correct:
  assumes "bid ev b \<notin> dc_blocks c" and "accept ev now b c = Some (r, c')"
  shows "let h = db_header b; txs = db_transactions b in
    case r of
      Inr _ \<Rightarrow>
        meets_target (hid ev h) (dh_target h)
        \<and> dh_parents h \<noteq> [] \<and> length (dh_parents h) \<le> 16 \<and> distinct (dh_parents h)
        \<and> set (dh_parents h) \<subseteq> dc_blocks c
        \<and> length txs \<le> 4096 \<and> sum_list (map length txs) \<le> 1048576
        \<and> tx_merkle_root (be_hash (ev_bank ev)) txs = dh_tx_merkle_root h
        \<and> sint (dh_timestamp h) \<le> sint (i64_saturating_add now 600)
        \<and> (\<exists>sp \<in> set (dh_parents h). selected_parent_dag c (dh_parents h) = Some sp
            \<and> selected_chain_target c sp = Some (dh_target h) \<and> \<not> regresses c sp h
            \<and> dh_interlink h = interlink_for_parent c sp)
        \<and> (\<exists>rec decoded. ev_ser_record ev (RecBlock b) = Inr rec \<and> decode_txs ev txs = Inr decoded
            \<and> dc_log c' = dc_log c @ log_record rec
            \<and> dc_blocks c' = insert (bid ev b) (dc_blocks c)
            \<and> dc_headers c' = (dc_headers c)(bid ev b \<mapsto> h)
            \<and> dc_block_txs c' = (if decoded = [] then dc_block_txs c else (dc_block_txs c)(bid ev b \<mapsto> decoded))
            \<and> dc_tips c' = filter (\<lambda>t. t \<notin> set (dh_parents h)) (dc_tips c) @ [bid ev b])
    | Inl e \<Rightarrow> c' = c
        \<or> valid_block ev now c b \<and> (\<exists>x rec. e = DecodeTx x \<and> ev_ser_record ev (RecBlock b) = Inr rec
            \<and> dc_log c' = dc_log c @ log_record rec \<and> dc_blocks c' = dc_blocks c)"
proof (cases r)
  case (Inl e)
  show ?thesis
  proof (cases "c' = c")
    case False
    then have valid: "valid_block ev now c b" and run: "rbind (log_block ev b) (\<lambda>_. dag_apply ev b) c = Some (r, c')"
      using accept_new [OF assms] by blast+
    have "dc_blocks c' = dc_blocks c" by (rule log_run_blocks [OF run [unfolded Inl] assms(1)])
    then show ?thesis using log_apply_run [OF run assms(1)] Inl False valid by (auto simp: Let_def)
  qed (simp add: Inl)
next
  case (Inr u)
  then have valid: "valid_block ev now c b" and run: "rbind (log_block ev b) (\<lambda>_. dag_apply ev b) c = Some (r, c')"
    using accept_new [OF assms] by auto
  obtain rec where rec: "ev_ser_record ev (RecBlock b) = Inr rec"
    "dag_apply ev b (c\<lparr>dc_log := dc_log c @ log_record rec\<rparr>) = Some (Inr (), c')"
    using log_apply_run [OF run assms(1)] Inr by auto
  have new: "bid ev b \<notin> dc_blocks (c\<lparr>dc_log := dc_log c @ log_record rec\<rparr>)" using assms(1) by simp
  have "dc_block_txs (c\<lparr>dc_log := L\<rparr>) = dc_block_txs c" for L by simp
  note applied = apply_run [OF rec(2) [unfolded dag_apply_def] new, simplified, unfolded this]
  obtain decoded e where st: "decode_txs ev (db_transactions b) = Inr decoded"
    "c' = c\<lparr>dc_log := dc_log c @ log_record rec, dc_engine := e,
            dc_block_txs := (if decoded = [] then dc_block_txs c else (dc_block_txs c)(bid ev b \<mapsto> decoded)),
            dc_headers := (dc_headers c)(bid ev b \<mapsto> db_header b), dc_blocks := insert (bid ev b) (dc_blocks c),
            dc_tips := filter (\<lambda>t. t \<notin> set (dh_parents (db_header b))) (dc_tips c) @ [bid ev b]\<rparr>"
    using applied by (elim exE conjE) (rule that)
  have v: "validate_block_intrinsic ev now b = Inr ()" "set (dh_parents (db_header b)) \<subseteq> dc_blocks c"
    using valid by (simp_all add: valid_block_def)
  note intrinsic = v(1) [unfolded validate_Inr Let_def MAX_PARENTS_def MAX_BLOCK_TXS_def MAX_BLOCK_TX_BYTES_def
      MAX_TIMESTAMP_DRIFT_SECS_def]
  obtain sp where sp: "selected_parent_dag c (dh_parents (db_header b)) = Some sp"
    "selected_chain_target c sp = Some (dh_target (db_header b))" "\<not> regresses c sp (db_header b)"
    "dh_interlink (db_header b) = interlink_for_parent c sp"
    using valid by (auto simp: valid_block_def)
  moreover have "sp \<in> set (dh_parents (db_header b))" using selected_parent_in [OF sp(1)] intrinsic by blast
  ultimately show ?thesis using Inr st rec(1) v(2) intrinsic by (auto simp: Let_def)
qed

theorem accept_correct_witness:
  "accept demo_env 1750000005 demo_block demo_dag = Some (Inr (), demo_grown)
    \<and> dc_log demo_grown = dc_log demo_dag @ log_record [1] \<and> dc_tips demo_grown = [- 11]"
proof -
  have new: "bid demo_env demo_block \<notin> dc_blocks demo_dag" by (simp add: demo_ids_of_headers demo_dag_sel)
  have "ev_ser_record demo_env (RecBlock demo_block) = Inr [1]" by (simp add: demo_env_def)
  moreover have "\<exists>rec. ev_ser_record demo_env (RecBlock demo_block) = Inr rec
      \<and> dc_log demo_grown = dc_log demo_dag @ log_record rec
      \<and> dc_tips demo_grown = filter (\<lambda>t. t \<notin> set (dh_parents (db_header demo_block))) (dc_tips demo_dag) @ [bid demo_env demo_block]"
    using accept_correct [OF new demo_accept] unfolding Let_def sum.case by blast
  ultimately show ?thesis using demo_accept by (simp add: demo_head demo_dag_sel demo_ids_of_headers)
qed

text \<open>
  A transaction that does not decode is found out after its block is in the log, so opening that
  log again fails at the same record.
\<close>

lemma undecodable_in_log:
  assumes codec: "record_codec ev" and c: "dag_runs ev op c"
    and run: "rbind (log_block ev b) (\<lambda>_. dag_apply ev b) c = Some (Inl (DecodeTx x), c')"
  shows "open_with_genesis ev op (dc_log c') = Some (Inl (DecodeTx x))"
proof -
  obtain r1 c1 where l: "log_block ev b c = Some (r1, c1)"
    using run by (cases "log_block ev b c") (auto simp: rbind_def)
  with run log_block_run [OF l] obtain u where u: "r1 = Inr u" by (cases r1) (auto simp: rbind_def)
  with log_block_run [OF l] obtain rec where rec: "ev_ser_record ev (RecBlock b) = Inr rec"
    "length rec < 2 ^ 32" "c1 = c\<lparr>dc_log := dc_log c @ log_record rec\<rparr>" by auto
  have apply1: "apply_with_id ev b (bid ev b) c1 = Some (Inl (DecodeTx x), c')"
    using run l u by (simp add: rbind_def dag_apply_def)
  obtain c0 ps where ps: "chain_init ev op [] = Some c0" "dc_log c = log_of ps"
    "\<forall>p \<in> set ps. length p < 2 ^ 32" "rfor ps (replay_record ev) c0 = Some (Inr (), volatile [] c)"
    using runs_logged [OF codec c] by (auto simp: logged_def)
  define L where "L = dc_log c @ log_record rec"
  have "log_read_all (log_of (ps @ [rec]) @ []) = Inr (ps @ [rec])"
    using ps(3) rec(2) by (subst log_read_of) (simp_all add: log_read_short)
  then have read: "log_read_all L = Inr (ps @ [rec])" by (simp add: L_def ps(2) log_of_def)
  have "chain_init ev op L = Some (c0\<lparr>dc_log := L\<rparr>)" using ps(1) by (subst chain_init_log) simp
  with chain_init_volatile [OF this] have init: "chain_init ev op L = Some (volatile L c0)"
    by (simp add: volatile_def)
  have "commutes (volatile L) (rfor ps (replay_record ev))" by (intro commutes_rfor commutes_replay)
  from commutes_run [OF this ps(4)]
  have before: "rfor ps (replay_record ev) (volatile L c0) = Some (Inr (), volatile L c1)"
    by (simp add: rec(3) volatile_def)
  have "replay_record ev rec (volatile L c1) = Some (Inl (DecodeTx x), volatile L c')"
    using codec rec(1) commutes_run [OF commutes_apply apply1]
    by (simp add: replay_record_def record_codec_def dag_apply_def)
  then have "rfor (ps @ [rec]) (replay_record ev) (volatile L c0) = Some (Inl (DecodeTx x), volatile L c')"
    using before by (simp add: rfor_append rbind_def)
  then have "open_with_genesis ev op L = Some (Inl (DecodeTx x))"
    using init read by (simp add: open_with_genesis_def)
  moreover have "dc_log c' = L" using apply_log [OF apply1] by (simp add: rec(3) L_def)
  ultimately show ?thesis by simp
qed

lemma accept_undecodable:
  assumes "record_codec ev" "dag_runs ev op c" "accept ev now b c = Some (Inl (DecodeTx x), c')"
  shows "open_with_genesis ev op (dc_log c') = Some (Inl (DecodeTx x))"
proof (rule undecodable_in_log [OF assms(1,2)])
  have "bid ev b \<notin> dc_blocks c" using assms(3) by (auto simp: accept_def)
  from accept_new [OF this assms(3)]
  show "rbind (log_block ev b) (\<lambda>_. dag_apply ev b) c = Some (Inl (DecodeTx x), c')" by blast
qed

lemma mine_undecodable:
  assumes "record_codec ev" "dag_runs ev op c" "mine_at ev txs timestamp c = Some (Inl (DecodeTx x), c')"
  shows "open_with_genesis ev op (dc_log c') = Some (Inl (DecodeTx x))"
proof -
  obtain b where "rbind (log_block ev b) (\<lambda>_. rbind (dag_apply ev b) (\<lambda>_. rret b)) c =
      Some (Inl (DecodeTx x), c')"
    using assms(3) by (auto simp: mine_at_def bind_eq_Some_conv)
  then have "rbind (log_block ev b) (\<lambda>_. dag_apply ev b) c = Some (Inl (DecodeTx x), c')"
    by (auto simp: rbind_def split: option.splits sum.splits)
  then show ?thesis by (rule undecodable_in_log [OF assms(1,2)])
qed

text \<open>
  Property C7.  Durability: for a node that has been running from an empty log (accepting and
  mining blocks, querying its state, changing the finality depth, in any order, where no accepted or
  mined block so far turned out to hold an undecodable transaction), opening the log it has
  written gives the node back, with all blocks, headers, transactions, tips and the whole GHOSTDAG
  engine, and with empty caches; provided the encoding of records reads back.  The excluded step is
  where durability ends: when accepting or mining reports an undecodable transaction, the
  log left behind no longer opens, and opening it reports the same error.
\<close>

theorem restart_restores:
  assumes "record_codec ev" and "dag_runs ev op c"
  shows "open_with_genesis ev op (dc_log c) = Some (Inr (c\<lparr>dc_state := None, dc_executed := [],
      dc_finality_depth := DEFAULT_FINALITY_DEPTH, dc_checkpoint := None\<rparr>))
    \<and> (case accept ev now b c of
        Some (Inl (DecodeTx x), c') \<Rightarrow> open_with_genesis ev op (dc_log c') = Some (Inl (DecodeTx x))
      | _ \<Rightarrow> True)
    \<and> (case mine_at ev txs timestamp c of
        Some (Inl (DecodeTx x), c') \<Rightarrow> open_with_genesis ev op (dc_log c') = Some (Inl (DecodeTx x))
      | _ \<Rightarrow> True)"
proof (intro conjI)
  have "restarted c = c\<lparr>dc_state := None, dc_executed := [],
    dc_finality_depth := DEFAULT_FINALITY_DEPTH, dc_checkpoint := None\<rparr>"
    by (simp add: restarted_def volatile_def)
  then show "open_with_genesis ev op (dc_log c) = Some (Inr (c\<lparr>dc_state := None, dc_executed := [],
      dc_finality_depth := DEFAULT_FINALITY_DEPTH, dc_checkpoint := None\<rparr>))"
    using reopen_logged [OF runs_logged [OF assms]] by simp
qed (auto split: option.splits sum.splits dag_chain_error.splits
    dest: accept_undecodable [OF assms] mine_undecodable [OF assms])

text \<open>
  The first block of the demonstration with an empty byte string for a transaction, and the node
  whose records are that block.
\<close>

definition bad_block :: dag_block where
  "bad_block = demo_block\<lparr>db_header := (db_header demo_block)\<lparr>dh_tx_merkle_root := - 10\<rparr>,
     db_transactions := [[]]\<rparr>"

definition bad_env :: "(demo_db, byte, unit, byte, byte, unit, nat) dag_env" where
  "bad_env = demo_env\<lparr>ev_ser_record := (\<lambda>r. if r = RecBlock bad_block then Inr [1] else Inl ''unsupported''),
     ev_de_record := (\<lambda>bs. if bs = [1] then Inr (RecBlock bad_block) else Inl ''eof'')\<rparr>"

lemma bad_env_sel:
  "hid bad_env = hid demo_env" "bid bad_env bad_block = - 11" "ev_bank bad_env = demo_bank"
  "ev_ser_record bad_env (RecBlock bad_block) = Inr [1]" "ev_de_tx bad_env [] = Inl ''eof''"
  by (simp_all add: fun_eq_iff bad_env_def bad_block_def demo_block_def hid_def bid_def dag_block_id_def
      dag_header_id_def demo_env_def demo_bank_def)

lemma bad_head:
  "dh_parents (db_header bad_block) = [- 10]" "dh_target (db_header bad_block) = - 1"
  "dh_interlink (db_header bad_block) = [- 10]" "db_transactions bad_block = [[]]"
  "dh_tx_merkle_root (db_header bad_block) = - 10" "dh_timestamp (db_header bad_block) = 1750000005"
  by (simp_all add: bad_block_def demo_block_def)

lemma bad_runs: "dag_runs bad_env demo_params demo_dag"
proof (rule runs_init)
  have "chain_init bad_env demo_params [] = chain_init demo_env demo_params []"
    by (simp add: chain_init_def bad_env_sel) (simp add: bad_env_def demo_fresh_engine ORIGIN_def demo_ids_of_headers)
  then show "chain_init bad_env demo_params [] = Some demo_dag" by (simp add: demo_dag_init)
qed

lemma bad_accept: "\<exists>c'. accept bad_env 1750000005 bad_block demo_dag = Some (Inl (DecodeTx ''eof''), c')"
proof -
  have "hid bad_env (db_header bad_block) = - 11"
    by (simp add: bad_env_sel(1) hid_def dag_header_id_def bad_head demo_env_def demo_bank_def)
  moreover have "tx_merkle_root (be_hash demo_bank) [[]] = - 10"
    by (simp add: tx_merkle_root_def merkle_levels.simps demo_bank_def)
  ultimately have valid: "validate_block_intrinsic bad_env 1750000005 bad_block = Inr ()"
    by (simp add: validate_Inr bad_head bad_env_sel Let_def MAX_PARENTS_def MAX_BLOCK_TXS_def
        MAX_BLOCK_TX_BYTES_def i64_saturating_add_def MAX_TIMESTAMP_DRIFT_SECS_def meets_target_def)
  have time: "\<not> regresses demo_dag (- 10) (db_header bad_block)"
    by (simp add: regresses_def demo_dag_sel bad_head dag_genesis_header_def MAX_TIMESTAMP_DRIFT_SECS_def)
  have log: "log_block bad_env bad_block demo_dag = Some (Inr (), demo_dag\<lparr>dc_log := log_record [1]\<rparr>)"
    by (simp add: log_block_def bad_env_sel rwrite_def log_append_def demo_dag_sel)
  have "remap_parents (- 10) {- 10} [- 10] = [- 10]" by (simp add: remap_parents_def)
  then obtain c' where
    "dag_apply bad_env bad_block (demo_dag\<lparr>dc_log := log_record [1]\<rparr>) = Some (Inl (DecodeTx ''eof''), c')"
    by (simp add: dag_apply_def apply_with_id_def bad_env_sel demo_dag_sel bad_head demo_add_block ORIGIN_def
        map_err_def Let_def)
  then show ?thesis
    by (simp add: accept_def valid bad_head bad_env_sel demo_dag_sel demo_target time demo_interlink
        rbind_Some(1) [where m = "log_block bad_env bad_block", OF log] Let_def)
qed

text \<open>Both parts of the property: a log that gives its node back, and one that is lost.\<close>

theorem restart_restores_witness:
  "(\<exists>c. open_with_genesis demo_env demo_params (dc_log demo_grown) = Some (Inr c)
      \<and> dc_blocks c = {- 11, - 10} \<and> dc_tips c = [- 11])
    \<and> (\<exists>c'. accept bad_env 1750000005 bad_block demo_dag = Some (Inl (DecodeTx ''eof''), c')
      \<and> open_with_genesis bad_env demo_params (dc_log c') = Some (Inl (DecodeTx ''eof'')))"
proof
  show "\<exists>c. open_with_genesis demo_env demo_params (dc_log demo_grown) = Some (Inr c)
      \<and> dc_blocks c = {- 11, - 10} \<and> dc_tips c = [- 11]"
    using restart_restores [OF demo_codec demo_runs(2)] by (simp add: demo_grown_def)
  obtain c' where c': "accept bad_env 1750000005 bad_block demo_dag = Some (Inl (DecodeTx ''eof''), c')"
    using bad_accept by blast
  have "record_codec bad_env" by (simp add: record_codec_def bad_env_def)
  from restart_restores [OF this bad_runs, of 1750000005 bad_block] c'
  show "\<exists>c'. accept bad_env 1750000005 bad_block demo_dag = Some (Inl (DecodeTx ''eof''), c')
      \<and> open_with_genesis bad_env demo_params (dc_log c') = Some (Inl (DecodeTx ''eof''))" by simp
qed

text \<open>
  Property C8.  The incremental state is the rebuilt one: in every run in which no checkpoint has been taken, a
  query of the virtual state that succeeds returns the bank that replaying the whole total order on a fresh
  store gives; a query fails only if that rebuild fails, or after the new state is in place
  (when forming a checkpoint fails).
\<close>

theorem virtual_state_correct:
  assumes "ev_open_wiped ev StateDir = ev_open_wiped ev AccountsDir"
    and "dag_runs ev op c" and "dc_checkpoint c = None"
    and "virtual_state ev c = Some (r, c')"
  shows "case r of
      Inr bank \<Rightarrow> rebuild_state ev c = Some (Inr bank)
    | Inl e \<Rightarrow> rebuild_state ev c = Some (Inl e)
        \<or> (\<exists>bank. rebuild_state ev c = Some (Inr bank) \<and> dc_state c' = Some bank)"
  using virtual_state_is_rebuilt [OF _ assms(2-4)] assms(1) by (simp add: same_when_wiped_def)

theorem virtual_state_correct_witness:
  "\<exists>bank c'. virtual_state demo_env demo_grown = Some (Inr bank, c') \<and> rebuild_state demo_env demo_grown = Some (Inr bank)"
proof -
  have wiped: "ev_open_wiped demo_env StateDir = ev_open_wiped demo_env AccountsDir" by (simp add: demo_env_def)
  have "dc_checkpoint demo_grown = None" by (simp add: demo_grown_def demo_dag_rest)
  note rebuilt = virtual_state_correct [OF wiped demo_runs(2) this]
  obtain bank c' where "virtual_state demo_env demo_grown = Some (Inr bank, c')"
    using demo_virtual_state by blast
  with rebuilt [OF this] show ?thesis by (intro exI conjI) simp_all
qed

text \<open>
  Property C13.  Completeness of the proofs of a pruned history: in every run with at most 1000001 blocks, the
  proof the node builds for any of its blocks is accepted by a verifier that knows only the
  genesis, and its work is the saturating sum of the work of its headers.
\<close>

theorem honest_proof_verifies:
  assumes "dag_runs ev op c" and "p \<in> dc_blocks c" and "card (dc_blocks c) \<le> 1000001"
  shows "verify_proof ev (build_proof_for ev c p) p (dc_original_genesis c)
    = Inr (proof_work (build_proof_for ev c p))"
proof -
  have ok: "headers_ok ev c" by (rule runs_headers_ok [OF assms(1)])
  then obtain rank :: "bytes32 \<Rightarrow> nat" where rank: "\<forall>i h. dc_headers c i = Some h \<longrightarrow> rank i < card (dc_blocks c)
      \<and> (i \<noteq> dc_genesis_dag c \<longrightarrow> built_on ev {j \<in> dc_blocks c. rank j < rank i} h)"
    unfolding headers_ok_def by blast
  have "p \<in> dom (dc_headers c)" using ok assms(2) by (simp add: headers_ok_def)
  then obtain h where h: "dc_headers c p = Some h" by auto
  have "rank p < card (dc_blocks c)" using rank [rule_format, OF h] by (rule conjunct1)
  then have "rank p \<le> 1000000" using assms(3) by simp
  have "linked ev (dc_genesis_dag c) (proof_walk ev c 1000000 p {})
      \<and> hid ev (hd (proof_walk ev c 1000000 p {})) = p"
    using rank by (intro proof_walk_linked [where rank = rank, OF ok _ assms(2) \<open>rank p \<le> 1000000\<close>]) auto
  then have "verify_proof ev (build_proof_for ev c p) p (dc_genesis_dag c)
    = Inr (proof_work (build_proof_for ev c p))"
    using linked_verifies [of ev "dc_genesis_dag c" "proof_walk ev c 1000000 p {}"] by (simp add: build_proof_for_def)
  then show ?thesis using ok by (simp add: headers_ok_def)
qed

theorem honest_proof_verifies_witness:
  "verify_proof demo_env (build_proof_for demo_env demo_grown (- 11)) (- 11) (- 10)
    = Inr (proof_work (build_proof_for demo_env demo_grown (- 11)))"
proof -
  have "dc_original_genesis demo_grown = - 10"
    by (simp add: demo_grown_def demo_dag_def chain_init_def demo_ids_of_headers demo_fresh_engine ORIGIN_def Let_def)
  then show ?thesis
    using honest_proof_verifies [OF demo_runs(2), of "- 11"] by (simp add: demo_grown_def)
qed

end
