(* ===== verification/DagMine.thy ===== *)
theory DagMine
  imports DagDemo
begin

text \<open>
  The mining loop of \<^verbatim>\<open>dag_chain.rs\<close>: when it ends, and with which nonce.
\<close>

subsection \<open>The mining loop\<close>

lemma mine_loop_at:
  assumes "meets_target (idf (h\<lparr>dh_nonce := dh_nonce h + word_of_nat k\<rparr>)) t"
    and "list_all (\<lambda>i. \<not> meets_target (idf (h\<lparr>dh_nonce := dh_nonce h + word_of_nat i\<rparr>)) t) [0..<k]"
  shows "mine_loop idf t h = Some (h\<lparr>dh_nonce := dh_nonce h + word_of_nat k\<rparr>)"
  using assms
proof (induction k arbitrary: h)
  case 0
  then show ?case by (subst mine_loop.simps) simp
next
  case (Suc k)
  let ?h = "h\<lparr>dh_nonce := dh_nonce h + 1\<rparr>"
  have miss: "\<not> meets_target (idf (h\<lparr>dh_nonce := dh_nonce h + word_of_nat i\<rparr>)) t" if "i < Suc k" for i
    using Suc.prems(2) that by (simp add: list_all_iff del: upt_Suc)
  have "list_all (\<lambda>i. \<not> meets_target (idf (?h\<lparr>dh_nonce := dh_nonce ?h + word_of_nat i\<rparr>)) t) [0..<k]"
    using miss [of "Suc _"] by (auto simp: list_all_iff add.assoc)
  moreover have "meets_target (idf (?h\<lparr>dh_nonce := dh_nonce ?h + word_of_nat k\<rparr>)) t"
    using Suc.prems(1) by (simp add: add.assoc)
  ultimately have "mine_loop idf t ?h = Some (?h\<lparr>dh_nonce := dh_nonce ?h + word_of_nat k\<rparr>)"
    by (rule Suc.IH [rotated])
  then show ?case using miss [of 0] by (subst mine_loop.simps) (simp add: add.assoc)
qed

lemma mine_loop_finds:
  assumes "meets_target (idf (h\<lparr>dh_nonce := n\<rparr>)) t"
  shows "\<exists>k. mine_loop idf t h = Some (h\<lparr>dh_nonce := dh_nonce h + word_of_nat k\<rparr>)
    \<and> meets_target (idf (h\<lparr>dh_nonce := dh_nonce h + word_of_nat k\<rparr>)) t
    \<and> list_all (\<lambda>i. \<not> meets_target (idf (h\<lparr>dh_nonce := dh_nonce h + word_of_nat i\<rparr>)) t) [0..<k]"
proof -
  define P where "P k \<longleftrightarrow> meets_target (idf (h\<lparr>dh_nonce := dh_nonce h + word_of_nat k\<rparr>)) t" for k
  have "P (unat (n - dh_nonce h))" using assms by (simp add: P_def)
  then have hit: "P (Least P)" by (rule LeastI)
  have "\<not> P i" if "i < Least P" for i using that by (rule not_less_Least)
  then have "list_all (\<lambda>i. \<not> P i) [0..<Least P]" by (simp add: list_all_iff)
  with hit show ?thesis using mine_loop_at [where idf = idf and h = h and k = "Least P" and t = t] unfolding P_def by blast
qed

lemma mine_loop_None:
  "mine_loop idf t h = None \<longleftrightarrow> (\<forall>n. \<not> meets_target (idf (h\<lparr>dh_nonce := n\<rparr>)) t)"
  (is "?l \<longleftrightarrow> ?r")
proof
  show "?l \<Longrightarrow> ?r" using mine_loop_finds by fastforce
  show "?l" if "?r"
  proof (cases "mine_loop idf t h")
    case (Some h')
    from mine_loop_run [OF this] that show ?thesis by blast
  qed
qed

lemma mine_loop_Some:
  "mine_loop idf t h = Some h' \<longleftrightarrow>
     (\<exists>k. h' = h\<lparr>dh_nonce := dh_nonce h + word_of_nat k\<rparr> \<and> meets_target (idf h') t
       \<and> list_all (\<lambda>i. \<not> meets_target (idf (h\<lparr>dh_nonce := dh_nonce h + word_of_nat i\<rparr>)) t) [0..<k])"
  (is "?l \<longleftrightarrow> ?r")
proof
  assume l: ?l
  from mine_loop_run [OF l] obtain n where "h' = h\<lparr>dh_nonce := n\<rparr>" "meets_target (idf h') t" by blast
  with mine_loop_finds [where idf = idf and h = h and n = n and t = t] l show ?r by auto
next
  assume ?r
  then obtain k where "h' = h\<lparr>dh_nonce := dh_nonce h + word_of_nat k\<rparr>" "meets_target (idf h') t"
    "list_all (\<lambda>i. \<not> meets_target (idf (h\<lparr>dh_nonce := dh_nonce h + word_of_nat i\<rparr>)) t) [0..<k]" by blast
  then show ?l using mine_loop_at [where idf = idf and h = h and k = k and t = t] by simp
qed

text \<open>
  Property C29.  Termination of mining: for any header, target and hash, the mining loop ends if and only if some nonce
  meets the target; it then returns the header with the first such nonce, counting up from the
  header's and wrapping around, and changes nothing else.
\<close>

theorem mining_terminates:
  "(mine_loop idf t h = None \<longleftrightarrow> (\<forall>n. \<not> meets_target (idf (h\<lparr>dh_nonce := n\<rparr>)) t))
   \<and> (mine_loop idf t h = Some h' \<longleftrightarrow>
       (\<exists>k. h' = h\<lparr>dh_nonce := dh_nonce h + word_of_nat k\<rparr> \<and> meets_target (idf h') t
         \<and> list_all (\<lambda>i. \<not> meets_target (idf (h\<lparr>dh_nonce := dh_nonce h + word_of_nat i\<rparr>)) t) [0..<k]))"
  by (simp only: mine_loop_None mine_loop_Some simp_thms)
end
