(* ===== verification/DagImport.thy ===== *)
theory DagImport
  imports DagDemo
begin

text \<open>
  Snapshots: what the verifier of a proof accepts, what the adoption of a snapshot guarantees, and
  what it does not (the accounts of a snapshot are bound to nothing).
\<close>

subsection \<open>The verifier\<close>

lemma verify_steps_linked:
  assumes "verify_steps ev (hid ev g) w hs = Inr w'" and "linked ev i (rev (p @ [g]))"
  shows "linked ev i (rev (p @ g # hs))
    \<and> w' = foldl (\<lambda>w h. saturating_add w (work_for_target (dh_target h))) w hs"
  using assms
proof (induction hs arbitrary: p g w)
  case (Cons h hs)
  have h: "meets_target (hid ev h) (dh_target h)" "dh_interlink h \<noteq> []" "last (dh_interlink h) = hid ev g"
    and rest: "verify_steps ev (hid ev h) (saturating_add w (work_for_target (dh_target h))) hs = Inr w'"
    using Cons.prems(1) by (auto split: if_splits)
  have "linked ev i (rev ((p @ [g]) @ [h]))" using h Cons.prems(2) by simp
  from Cons.IH [OF rest this] show ?case by simp
qed simp

lemma verify_proof_linked:
  assumes "verify_proof ev ps origin g = Inr w"
  shows "linked ev g (rev ps) \<and> hid ev (last ps) = origin \<and> w = proof_work ps"
proof -
  obtain a as where as: "ps = a # as" using assms by (cases ps) (auto simp: verify_proof_def)
  have a: "hid ev a = g" "hid ev (last ps) = origin"
    "verify_steps ev (hid ev a) (work_for_target (dh_target a)) as = Inr w"
    using assms as by (auto simp: verify_proof_def split: if_splits)
  have "linked ev g (rev ([] @ [a]))" using a(1) by simp
  from verify_steps_linked [OF a(3) this] a(2) show ?thesis by (simp add: as proof_work_def)
qed

definition step_ok :: "('db, 'a, 'p, 'tx, 'san, 'chk, 'f) dag_env \<Rightarrow> dag_block_header list \<Rightarrow> nat \<Rightarrow> bool" where
  "step_ok ev ps i \<longleftrightarrow> meets_target (hid ev (ps ! i)) (dh_target (ps ! i))
     \<and> dh_interlink (ps ! i) \<noteq> [] \<and> last (dh_interlink (ps ! i)) = hid ev (ps ! (i - 1))"

lemma linked_nth:
  "linked ev g (rev ps) \<longleftrightarrow> ps \<noteq> [] \<and> hid ev (hd ps) = g \<and> list_all (step_ok ev ps) [1..<length ps]"
proof (induction ps rule: rev_induct)
  case (snoc h ps)
  show ?case
  proof (cases "ps = []")
    case False
    then obtain xs x where ps: "ps = xs @ [x]" by (cases ps rule: rev_cases) auto
    have "step_ok ev (ps @ [h]) i = step_ok ev ps i" if "i \<in> set [1..<length ps]" for i
    proof -
      have "i < length ps" "i - 1 < length ps" using that by auto
      then show ?thesis by (simp add: step_ok_def nth_append)
    qed
    then have "list_all (step_ok ev (ps @ [h])) [1..<length ps] = list_all (step_ok ev ps) [1..<length ps]"
      by (rule list.pred_cong [OF refl])
    moreover have "[1..<length (ps @ [h])] = [1..<length ps] @ [length ps]" using False by (cases ps) simp_all
    moreover have "linked ev g (rev (ps @ [h])) \<longleftrightarrow> step_ok ev (ps @ [h]) (length ps) \<and> linked ev g (rev ps)"
      by (simp add: step_ok_def ps nth_append)
    ultimately show ?thesis using snoc.IH False by auto
  qed simp
qed simp

text \<open>
  Property C27.  The verifier of a pruned history accepts exactly the lists of headers that start at the genesis, end at
  the claimed origin, and in which every header after the first meets its own target and has the
  id of its predecessor as its highest interlink; the work it reports is the saturating sum of
  the work of all the headers.
\<close>

theorem proof_verifier_exact:
  "verify_proof ev ps origin g = Inr w \<longleftrightarrow>
     ps \<noteq> [] \<and> hid ev (hd ps) = g \<and> hid ev (last ps) = origin
     \<and> list_all (\<lambda>i. meets_target (hid ev (ps ! i)) (dh_target (ps ! i))
          \<and> dh_interlink (ps ! i) \<noteq> [] \<and> last (dh_interlink (ps ! i)) = hid ev (ps ! (i - 1))) [1..<length ps]
     \<and> w = foldl (\<lambda>w h. saturating_add w (work_for_target (dh_target h)))
         (work_for_target (dh_target (hd ps))) (tl ps)"
proof -
  have "verify_proof ev ps origin g = Inr w \<longleftrightarrow> linked ev g (rev ps) \<and> hid ev (last ps) = origin \<and> w = proof_work ps"
  proof
    assume l: "linked ev g (rev ps) \<and> hid ev (last ps) = origin \<and> w = proof_work ps"
    then have "hd (rev ps) = last ps" by (auto simp: hd_rev)
    with l linked_verifies [of ev g "rev ps"] show "verify_proof ev ps origin g = Inr w" by simp
  qed (rule verify_proof_linked)
  moreover have "ps \<noteq> [] \<Longrightarrow> proof_work ps = foldl (\<lambda>w h. saturating_add w (work_for_target (dh_target h)))
      (work_for_target (dh_target (hd ps))) (tl ps)"
    by (cases ps) (simp_all add: proof_work_def)
  ultimately show ?thesis unfolding linked_nth step_ok_def [abs_def] by auto
qed

subsection \<open>Adoption\<close>

lemma apply_frame:
  assumes "apply_with_id ev b i c = Some (r, c')"
  shows "\<exists>e T H B t. c' = c\<lparr>dc_engine := e, dc_block_txs := T, dc_headers := H, dc_blocks := B, dc_tips := t\<rparr>
    \<and> (r = Inr () \<longrightarrow> B = insert i (dc_blocks c))"
proof (cases "i \<in> dc_blocks c")
  case True
  then have "c' = c" using assms by (simp add: apply_with_id_def)
  then show ?thesis using True
    by (intro exI [of _ "dc_engine c"] exI [of _ "dc_block_txs c"] exI [of _ "dc_headers c"] exI [of _ "dc_blocks c"]
        exI [of _ "dc_tips c"]) (simp add: insert_absorb)
next
  case False
  from apply_run [OF assms False] obtain e where
    cases: "case r of
        Inr _ \<Rightarrow> (\<exists>txs. decode_txs ev (db_transactions b) = Inr txs \<and>
          c' = c\<lparr>dc_engine := e,
            dc_block_txs := (if txs = [] then dc_block_txs c else (dc_block_txs c)(i \<mapsto> txs)),
            dc_headers := (dc_headers c)(i \<mapsto> db_header b), dc_blocks := insert i (dc_blocks c),
            dc_tips := filter (\<lambda>t. t \<notin> set (dh_parents (db_header b))) (dc_tips c) @ [i]\<rparr>)
      | Inl err \<Rightarrow> decode_txs ev (db_transactions b) = Inl err \<and> c' = c\<lparr>dc_engine := e\<rparr>" by blast
  show ?thesis
  proof (cases r)
    case (Inl err)
    then have "c' = c\<lparr>dc_engine := e\<rparr>" using cases by simp
    then show ?thesis using Inl
      by (intro exI [of _ e] exI [of _ "dc_block_txs c"] exI [of _ "dc_headers c"] exI [of _ "dc_blocks c"]
          exI [of _ "dc_tips c"]) simp
  next
    case (Inr u)
    then obtain T where "c' = c\<lparr>dc_engine := e, dc_block_txs := T, dc_headers := (dc_headers c)(i \<mapsto> db_header b),
        dc_blocks := insert i (dc_blocks c),
        dc_tips := filter (\<lambda>t. t \<notin> set (dh_parents (db_header b))) (dc_tips c) @ [i]\<rparr>"
      using cases by auto
    then show ?thesis by blast
  qed
qed

lemma applies_frame:
  assumes "rfor bs (dag_apply ev) c = Some (r, c')"
  shows "\<exists>e T H B t. c' = c\<lparr>dc_engine := e, dc_block_txs := T, dc_headers := H, dc_blocks := B, dc_tips := t\<rparr>
    \<and> (r = Inr () \<longrightarrow> B = set (map (bid ev) bs) \<union> dc_blocks c)"
  using assms
proof (induction bs arbitrary: c)
  case Nil
  then have "c' = c" by simp
  then show ?case
    by (intro exI [of _ "dc_engine c"] exI [of _ "dc_block_txs c"] exI [of _ "dc_headers c"] exI [of _ "dc_blocks c"]
        exI [of _ "dc_tips c"]) simp
next
  case (Cons b bs)
  obtain r1 c1 where d: "dag_apply ev b c = Some (r1, c1)"
    using Cons.prems by (cases "dag_apply ev b c") (auto simp: rbind_def)
  then have b: "apply_with_id ev b (bid ev b) c = Some (r1, c1)" by (simp add: dag_apply_def)
  from apply_frame [OF b] obtain e T H B t where
    c1: "c1 = c\<lparr>dc_engine := e, dc_block_txs := T, dc_headers := H, dc_blocks := B, dc_tips := t\<rparr>"
    "r1 = Inr () \<longrightarrow> B = insert (bid ev b) (dc_blocks c)" by blast
  show ?case
  proof (cases r1)
    case (Inl x)
    then have "c' = c1" "r = Inl x" using Cons.prems d by (simp_all add: rbind_def)
    then have "c' = c\<lparr>dc_engine := e, dc_block_txs := T, dc_headers := H, dc_blocks := B, dc_tips := t\<rparr>"
      "r = Inr () \<longrightarrow> B = set (map (bid ev) (b # bs)) \<union> dc_blocks c" using c1(1) by simp_all
    then show ?thesis by (intro exI conjI)
  next
    case (Inr u)
    then have run: "rfor bs (dag_apply ev) c1 = Some (r, c')"
      using Cons.prems d by (simp add: rbind_def)
    from Cons.IH [OF this] obtain e' T' H' B' t' where
      c': "c' = c1\<lparr>dc_engine := e', dc_block_txs := T', dc_headers := H', dc_blocks := B', dc_tips := t'\<rparr>"
      "r = Inr () \<longrightarrow> B' = set (map (bid ev) bs) \<union> dc_blocks c1" by blast
    have "c' = c\<lparr>dc_engine := e', dc_block_txs := T', dc_headers := H', dc_blocks := B', dc_tips := t'\<rparr>"
      using c'(1) c1(1) by simp
    moreover have "dc_blocks c1 = insert (bid ev b) (dc_blocks c)" using c1 Inr by simp
    then have "r = Inr () \<longrightarrow> B' = set (map (bid ev) (b # bs)) \<union> dc_blocks c" using c'(2) by simp
    ultimately show ?thesis by (intro exI conjI)
  qed
qed

lemma adopt_run:
  assumes "adopt_snapshot ev snap work c = Some (r, c')"
  shows "\<exists>c1 r2 c2. load_snapshot ev (sn_origin_header snap) (sn_accounts snap) (sn_proof snap) c = Some c1
    \<and> rfor (sn_suffix snap) (dag_apply ev) c1 = Some (r2, c2)
    \<and> (if r = Inr True then r2 = Inr () \<and> (\<exists>records L. compacted_records ev (sn_origin_header snap) (sn_accounts snap)
          (sn_proof snap) (sn_suffix snap) = Inr records \<and> log_replace_all (dc_log c2) records = (None, L)
          \<and> c' = c2\<lparr>dc_log := L, dc_bootstrapped := True, dc_bootstrap_work := work\<rparr>)
       else c' = c2 \<and> (\<exists>e. r = Inl e))"
proof -
  obtain c1 where c1: "load_snapshot ev (sn_origin_header snap) (sn_accounts snap) (sn_proof snap) c = Some c1"
    using assms by (auto simp: adopt_snapshot_def bind_eq_Some_conv)
  then obtain r2 c2 where c2: "rfor (sn_suffix snap) (dag_apply ev) c1 = Some (r2, c2)"
    using assms by (cases "rfor (sn_suffix snap) (dag_apply ev) c1") (auto simp: adopt_snapshot_def rbind_def)
  have "if r = Inr True then r2 = Inr () \<and> (\<exists>records L. compacted_records ev (sn_origin_header snap) (sn_accounts snap)
          (sn_proof snap) (sn_suffix snap) = Inr records \<and> log_replace_all (dc_log c2) records = (None, L)
          \<and> c' = c2\<lparr>dc_log := L, dc_bootstrapped := True, dc_bootstrap_work := work\<rparr>)
       else c' = c2 \<and> (\<exists>e. r = Inl e)"
  proof (cases r2)
    case (Inl e)
    then show ?thesis using assms c1 c2 by (auto simp: adopt_snapshot_def rbind_def)
  next
    case (Inr u)
    note run = assms [unfolded adopt_snapshot_def c1 Option.bind.bind_lunit,
        unfolded rbind_Some(1) [where m = "rfor _ _", OF c2 [unfolded Inr]]]
    show ?thesis
    proof (cases "compacted_records ev (sn_origin_header snap) (sn_accounts snap) (sn_proof snap) (sn_suffix snap)")
      case (Inl e)
      then show ?thesis using run by (auto simp: map_err_def)
    next
      case rec: (Inr records)
      obtain e L where L: "log_replace_all (dc_log c2) records = (e, L)" by fastforce
      show ?thesis using run Inr rec L
        by (cases e) (auto simp: map_err_def rbind_def rwrite_def replace_log_def)
    qed
  qed
  with c1 c2 show ?thesis by blast
qed

lemma import_run:
  assumes "import_snapshot ev now bs c = Some (r, c')"
  shows "r = Inr False \<and> c' = c \<or> (\<exists>e. r = Inl e \<and> c' = c)
    \<or> (\<exists>snap work. length bs \<le> MAX_SNAPSHOT_BYTES \<and> ev_de_snapshot ev bs = Inr snap
        \<and> hid ev (sn_origin_header snap) \<notin> dc_blocks c
        \<and> verify_proof ev (sn_proof snap) (hid ev (sn_origin_header snap)) (dc_original_genesis c) = Inr work
        \<and> snapshot_wanted c work \<and> validate_suffix ev now (sn_suffix snap) = Inr ()
        \<and> adopt_snapshot ev snap work c = Some (r, c'))"
proof (cases "MAX_SNAPSHOT_BYTES < length bs")
  case size: False
  show ?thesis
  proof (cases "ev_de_snapshot ev bs")
    case snap: (Inr snap)
    show ?thesis
    proof (cases "hid ev (sn_origin_header snap) \<in> dc_blocks c")
      case new: False
      show ?thesis
      proof (cases "verify_proof ev (sn_proof snap) (hid ev (sn_origin_header snap)) (dc_original_genesis c)")
        case work: (Inr work)
        show ?thesis
        proof (cases "snapshot_wanted c work")
          case wanted: True
          show ?thesis using assms size snap new work wanted
            by (cases "validate_suffix ev now (sn_suffix snap)") (auto simp: import_snapshot_def)
        qed (use assms size snap new work in \<open>auto simp: import_snapshot_def\<close>)
      qed (use assms size snap new in \<open>auto simp: import_snapshot_def\<close>)
    qed (use assms size snap in \<open>auto simp: import_snapshot_def\<close>)
  qed (use assms size in \<open>auto simp: import_snapshot_def\<close>)
qed (use assms in \<open>auto simp: import_snapshot_def\<close>)

lemma validate_suffix_all: "validate_suffix ev now bs = Inr () \<longleftrightarrow> list_all (\<lambda>b. validate_block_intrinsic ev now b = Inr ()) bs"
proof (induction bs)
  case (Cons b bs)
  then show ?case by (cases "validate_block_intrinsic ev now b") simp_all
qed simp

text \<open>
  Property C14.  Adopting a snapshot: an import that succeeds either leaves the chain as it was, or has checked a proof
  of work from the node's own genesis to the origin of the snapshot, is the first history of the
  node or replaces a bootstrapped one by one of strictly more work, and leaves a chain anchored at
  that origin with exactly the origin and the (intrinsically valid) blocks of the suffix.  A
  failed import leaves the chain as it was, unless the adoption itself failed half way.
\<close>

theorem import_snapshot_safe:
  assumes "import_snapshot ev now bs c = Some (r, c')"
  shows "case r of
      Inr False \<Rightarrow> c' = c
    | Inr True \<Rightarrow>
        (\<exists>snap. length bs \<le> 268435456 \<and> ev_de_snapshot ev bs = Inr snap
          \<and> hid ev (sn_origin_header snap) \<notin> dc_blocks c
          \<and> verify_proof ev (sn_proof snap) (hid ev (sn_origin_header snap)) (dc_original_genesis c)
            = Inr (dc_bootstrap_work c')
          \<and> (card (dc_blocks c) = 1 \<and> \<not> dc_history_pruned c
             \<or> dc_bootstrapped c \<and> dc_bootstrap_work c < dc_bootstrap_work c')
          \<and> list_all (\<lambda>b. validate_block_intrinsic ev now b = Inr ()) (sn_suffix snap)
          \<and> dc_genesis_dag c' = hid ev (sn_origin_header snap)
          \<and> dc_blocks c' = insert (hid ev (sn_origin_header snap)) (set (map (bid ev) (sn_suffix snap)))
          \<and> dc_proof c' = sn_proof snap \<and> dc_original_genesis c' = dc_original_genesis c
          \<and> dc_history_pruned c' \<and> dc_bootstrapped c')
    | Inl e \<Rightarrow> c' = c
        \<or> (\<exists>snap. ev_de_snapshot ev bs = Inr snap \<and> dc_genesis_dag c' = hid ev (sn_origin_header snap)
            \<and> dc_bootstrap_work c' = dc_bootstrap_work c \<and> dc_log c' = dc_log c)"
  using import_run [OF assms]
proof (elim disjE exE conjE)
  fix snap work
  assume snap: "length bs \<le> MAX_SNAPSHOT_BYTES" "ev_de_snapshot ev bs = Inr snap" "hid ev (sn_origin_header snap) \<notin> dc_blocks c"
    and work: "verify_proof ev (sn_proof snap) (hid ev (sn_origin_header snap)) (dc_original_genesis c) = Inr work"
    and wanted: "snapshot_wanted c work" and suffix: "validate_suffix ev now (sn_suffix snap) = Inr ()"
    and run: "adopt_snapshot ev snap work c = Some (r, c')"
  from adopt_run [OF run] obtain c1 r2 c2 where
    c1: "load_snapshot ev (sn_origin_header snap) (sn_accounts snap) (sn_proof snap) c = Some c1"
    and c2: "rfor (sn_suffix snap) (dag_apply ev) c1 = Some (r2, c2)"
    and last: "if r = Inr True then r2 = Inr () \<and> (\<exists>records L. compacted_records ev (sn_origin_header snap) (sn_accounts snap)
          (sn_proof snap) (sn_suffix snap) = Inr records \<and> log_replace_all (dc_log c2) records = (None, L)
          \<and> c' = c2\<lparr>dc_log := L, dc_bootstrapped := True, dc_bootstrap_work := work\<rparr>)
       else c' = c2 \<and> (\<exists>e. r = Inl e)" by blast
  from c1 have f1: "dc_genesis_dag c1 = hid ev (sn_origin_header snap)" "dc_blocks c1 = {hid ev (sn_origin_header snap)}"
    "dc_proof c1 = sn_proof snap" "dc_original_genesis c1 = dc_original_genesis c" "dc_history_pruned c1"
    "dc_bootstrap_work c1 = dc_bootstrap_work c" "dc_log c1 = dc_log c"
    by (auto simp: load_snapshot_def Let_def)
  from applies_frame [OF c2] obtain e T H B t where
    f2: "c2 = c1\<lparr>dc_engine := e, dc_block_txs := T, dc_headers := H, dc_blocks := B, dc_tips := t\<rparr>"
    "r2 = Inr () \<longrightarrow> B = set (map (bid ev) (sn_suffix snap)) \<union> dc_blocks c1" by blast
  show ?thesis
  proof (cases "r = Inr True")
    case True
    then obtain L where c': "c' = c2\<lparr>dc_log := L, dc_bootstrapped := True, dc_bootstrap_work := work\<rparr>" and "r2 = Inr ()"
      using last by auto
    then have B: "B = insert (hid ev (sn_origin_header snap)) (set (map (bid ev) (sn_suffix snap)))"
      using f2(2) f1(2) by simp
    have "c' = c1\<lparr>dc_engine := e, dc_block_txs := T, dc_headers := H, dc_blocks := B, dc_tips := t,
        dc_log := L, dc_bootstrapped := True, dc_bootstrap_work := work\<rparr>" using c' f2(1) by simp
    then show ?thesis using True snap work wanted suffix f1 B
      by (auto simp: MAX_SNAPSHOT_BYTES_def snapshot_wanted_def block_count_def validate_suffix_all)
  next
    case False
    then obtain e where "r = Inl e" "c' = c2" using last by auto
    then show ?thesis using snap(2) f1 f2(1) by auto
  qed
qed simp_all

subsection \<open>The accounts of a snapshot\<close>

abbreviation with_base :: "(pubkey \<times> 'a) list \<Rightarrow> ('db, 'a, 'p, 'tx) dag_chain \<Rightarrow> ('db, 'a, 'p, 'tx) dag_chain" where
  "with_base accounts c \<equiv> c\<lparr>dc_base_accounts := Some accounts\<rparr>"

lemma commutes_base: "commutes (with_base accounts) (dag_apply ev b)"
  unfolding commutes_def
proof
  fix c
  show "dag_apply ev b (with_base accounts c) = map_option (map_prod id (with_base accounts)) (dag_apply ev b c)"
  proof (cases "engine_add_block (ev_floats ev) (bid ev b)
      (remap_parents (dc_genesis_dag c) (dc_blocks c) (dh_parents (db_header b))) (dc_engine c)")
    case None
    then show ?thesis by (simp add: dag_apply_def apply_with_id_def)
  next
    case (Some de)
    then show ?thesis
      by (cases de; cases "decode_txs ev (db_transactions b)") (simp_all add: dag_apply_def apply_with_id_def Let_def)
  qed
qed

lemma load_base: "load_snapshot ev h accounts prf c = map_option (with_base accounts) (load_snapshot ev h other prf c)"
  by (cases "fresh_engine (ev_floats ev) (dc_k c) (hid ev h)") (simp_all add: load_snapshot_def Let_def)

lemma compacted_base:
  assumes "compacted_records ev h accounts prf suffix = Inr records"
    and "ev_ser_record ev (RecSnapshot h forged prf) = Inr rec"
  shows "compacted_records ev h forged prf suffix = Inr (rec # tl records)"
  using assms by (cases "ev_ser_record ev (RecSnapshot h accounts prf)"; cases "serialize_blocks ev suffix")
    (auto simp: compacted_records_def)

text \<open>
  What a bootstrap does not check: replacing the accounts of a snapshot that a node would adopt by any
  other accounts (of an encoding within the limits) gives a snapshot the node adopts just as well,
  with the same proof, blocks and engine, and with the forged accounts as the state the whole
  chain is replayed on.
\<close>

theorem import_ignores_accounts:
  assumes "import_snapshot ev now bs c = Some (Inr True, c')" and "ev_de_snapshot ev bs = Inr snap"
    and "ev_de_snapshot ev bs' = Inr (snap\<lparr>sn_accounts := forged\<rparr>)" and "length bs' \<le> 268435456"
    and "ev_ser_record ev (RecSnapshot (sn_origin_header snap) forged (sn_proof snap)) = Inr rec"
    and "length rec < 2 ^ 32"
  shows "\<exists>file. import_snapshot ev now bs' c
    = Some (Inr True, c'\<lparr>dc_base_accounts := Some forged, dc_log := file\<rparr>)"
proof -
  obtain work where snap: "hid ev (sn_origin_header snap) \<notin> dc_blocks c"
    "verify_proof ev (sn_proof snap) (hid ev (sn_origin_header snap)) (dc_original_genesis c) = Inr work"
    "snapshot_wanted c work" "validate_suffix ev now (sn_suffix snap) = Inr ()"
    and run: "adopt_snapshot ev snap work c = Some (Inr True, c')"
    using import_run [OF assms(1)] assms(2) by auto
  from adopt_run [OF run] obtain c1 c2 records L where
    c1: "load_snapshot ev (sn_origin_header snap) (sn_accounts snap) (sn_proof snap) c = Some c1"
    and c2: "rfor (sn_suffix snap) (dag_apply ev) c1 = Some (Inr (), c2)"
    and rec: "compacted_records ev (sn_origin_header snap) (sn_accounts snap) (sn_proof snap) (sn_suffix snap) = Inr records"
    and L: "log_replace_all (dc_log c2) records = (None, L)"
    and c': "c' = c2\<lparr>dc_log := L, dc_bootstrapped := True, dc_bootstrap_work := work\<rparr>" by auto
  let ?snap = "snap\<lparr>sn_accounts := forged\<rparr>" and ?records = "rec # tl records"
  have "load_snapshot ev (sn_origin_header snap) forged (sn_proof snap) c = Some (with_base forged c1)"
    using c1 by (subst load_base [where other = "sn_accounts snap"]) simp
  moreover have "rfor (sn_suffix snap) (dag_apply ev) (with_base forged c1) = Some (Inr (), with_base forged c2)"
    by (rule commutes_run [OF commutes_rfor [OF commutes_base] c2])
  moreover have "compacted_records ev (sn_origin_header snap) forged (sn_proof snap) (sn_suffix snap) = Inr ?records"
    by (rule compacted_base [OF rec assms(5)])
  moreover have "log_replace_all (dc_log c2) ?records = (None, log_of ?records)"
    using L assms(6) by (cases records) (auto simp: log_replace_all_def compact_loop_of split: if_splits)
  ultimately have "adopt_snapshot ev ?snap work c = Some (Inr True,
      with_base forged c2\<lparr>dc_log := log_of ?records, dc_bootstrapped := True, dc_bootstrap_work := work\<rparr>)"
    by (simp add: adopt_snapshot_def rbind_def map_err_def rwrite_def replace_log_def)
  then have "import_snapshot ev now bs' c = Some (Inr True, c'\<lparr>dc_base_accounts := Some forged, dc_log := log_of ?records\<rparr>)"
    using assms(3,4) snap by (simp add: import_snapshot_def MAX_SNAPSHOT_BYTES_def c')
  then show ?thesis ..
qed

lemma demo_import: "\<exists>c'. import_snapshot demo_env 0 [5] demo_dag = Some (Inr True, c')"
proof -
  have "hid demo_env (dag_genesis_header (- 1) 0) = - 10" by (rule demo_ids_of_headers)
  then have "\<exists>work. verify_proof demo_env demo_proof (- 11) (- 10) = Inr work"
    by (simp add: verify_proof_def demo_proof_def demo_ids_of_headers demo_head)
  then obtain work where work: "verify_proof demo_env demo_proof (- 11) (- 10) = Inr work" ..
  have "ev_de_snapshot demo_env [5] = Inr (demo_snapshot 5)" by (simp add: demo_env_def)
  moreover have "ev_ser_record demo_env (RecSnapshot (db_header demo_block) [(7, 5)] demo_proof) = Inr [2, 5]"
    by (simp add: demo_env_def)
  moreover have "fresh_engine (ev_floats demo_env) k (- 11) = Some (demo_engine k (- 11))" for k
    by (rule demo_fresh_engine) (simp add: ORIGIN_def)
  ultimately show ?thesis using work
    by (simp add: import_snapshot_def MAX_SNAPSHOT_BYTES_def demo_snapshot_def demo_ids_of_headers demo_dag_sel
        demo_dag_rest snapshot_wanted_def block_count_def adopt_snapshot_def load_snapshot_def compacted_records_def
        Let_def rbind_def map_err_def rwrite_def replace_log_def log_replace_all_def)
qed

theorem import_snapshot_safe_witness:
  "\<exists>c'. import_snapshot demo_env 0 [5] demo_dag = Some (Inr True, c') \<and> dc_blocks c' = {- 11} \<and> dc_genesis_dag c' = - 11"
proof -
  obtain c' where c': "import_snapshot demo_env 0 [5] demo_dag = Some (Inr True, c')" using demo_import ..
  have "ev_de_snapshot demo_env [5] = Inr (demo_snapshot 5)" by (simp add: demo_env_def)
  with import_snapshot_safe [OF c'] have "dc_blocks c' = {- 11}" "dc_genesis_dag c' = - 11"
    by (auto simp: demo_snapshot_def demo_ids_of_headers)
  with c' show ?thesis by blast
qed

theorem import_ignores_accounts_witness:
  "\<exists>c'. import_snapshot demo_env 0 [200] demo_dag = Some (Inr True, c') \<and> dc_base_accounts c' = Some [(7, 200)]"
proof -
  obtain c' where c': "import_snapshot demo_env 0 [5] demo_dag = Some (Inr True, c')" using demo_import ..
  have de: "ev_de_snapshot demo_env [5] = Inr (demo_snapshot 5)"
    "ev_de_snapshot demo_env [200] = Inr ((demo_snapshot 5)\<lparr>sn_accounts := [(7, 200)]\<rparr>)"
    by (simp_all add: demo_env_def demo_snapshot_def)
  have "ev_ser_record demo_env (RecSnapshot (sn_origin_header (demo_snapshot 5)) [(7, 200)] (sn_proof (demo_snapshot 5))) = Inr [2, 200]"
    by (simp add: demo_env_def demo_snapshot_def)
  from import_ignores_accounts [OF c' de _ this] show ?thesis by fastforce
qed

end
