(* ===== verification/DagTips.thy ===== *)
theory DagTips
  imports DagDemo
begin

text \<open>
  The bookkeeping of the DAG chain: which blocks have headers, parents, bodies, and which are tips.
\<close>

definition tips_ok :: "('db, 'a, 'p, 'tx) dag_chain \<Rightarrow> bool" where
  "tips_ok c \<longleftrightarrow> distinct (dc_tips c) \<and> dc_tips c \<noteq> [] \<and> dom (dc_block_txs c) \<subseteq> dc_blocks c
     \<and> (\<forall>h \<in> ran (dc_headers c). set (dh_parents h) \<subseteq> dc_blocks c)
     \<and> set (dc_tips c) = dc_blocks c - (\<Union>h \<in> ran (dc_headers c). set (dh_parents h))"

lemma tips_ok_cong:
  assumes "tips_ok c" and "dc_tips c' = dc_tips c" "dc_block_txs c' = dc_block_txs c" "dc_blocks c' = dc_blocks c"
    "dc_headers c' = dc_headers c"
  shows "tips_ok c'"
  using assms by (simp add: tips_ok_def)

lemma tips_ok_apply:
  assumes ok: "tips_ok c" and dom: "dom (dc_headers c) = dc_blocks c"
    and run: "dag_apply ev b (c\<lparr>dc_log := L\<rparr>) = Some (Inr u, c')"
    and new: "bid ev b \<notin> dc_blocks c" and parents: "set (dh_parents (db_header b)) \<subseteq> dc_blocks c"
  shows "tips_ok c'"
proof -
  let ?i = "bid ev b" and ?h = "db_header b"
  have "?i \<notin> dc_blocks (c\<lparr>dc_log := L\<rparr>)" using new by simp
  from apply_run [OF run [unfolded dag_apply_def] this] obtain e txs where
    c': "c' = c\<lparr>dc_log := L, dc_engine := e,
        dc_block_txs := (if txs = [] then dc_block_txs (c\<lparr>dc_log := L\<rparr>) else (dc_block_txs (c\<lparr>dc_log := L\<rparr>))(?i \<mapsto> txs)),
        dc_headers := (dc_headers c)(?i \<mapsto> ?h), dc_blocks := insert ?i (dc_blocks c),
        dc_tips := filter (\<lambda>t. t \<notin> set (dh_parents ?h)) (dc_tips c) @ [?i]\<rparr>"
    by auto
  have fresh: "dc_headers c ?i = None" using new dom by (metis domIff)
  then have ran: "ran ((dc_headers c)(?i \<mapsto> ?h)) = insert ?h (ran (dc_headers c))" by (rule ran_map_upd)
  have old: "set (dc_tips c) = dc_blocks c - (\<Union>h \<in> ran (dc_headers c). set (dh_parents h))"
    "\<And>h. h \<in> ran (dc_headers c) \<Longrightarrow> set (dh_parents h) \<subseteq> dc_blocks c"
    using ok by (simp_all add: tips_ok_def)
  have tips: "set (dc_tips c') = insert ?i (set (dc_tips c) - set (dh_parents ?h))" by (auto simp: c')
  have "insert ?i (set (dc_tips c) - set (dh_parents ?h))
      = insert ?i (dc_blocks c) - (\<Union>h \<in> insert ?h (ran (dc_headers c)). set (dh_parents h))"
    using old new parents by auto
  then have "set (dc_tips c') = dc_blocks c' - (\<Union>h \<in> ran (dc_headers c'). set (dh_parents h))"
    using tips ran by (simp add: c')
  moreover have "distinct (dc_tips c')" using ok new old(1) by (auto simp: tips_ok_def c')
  moreover have "dc_tips c' \<noteq> []" by (simp add: c')
  moreover have "dom (dc_block_txs c') \<subseteq> dc_blocks c'" using ok by (auto simp: tips_ok_def c' split: if_splits)
  moreover have "\<forall>h \<in> ran (dc_headers c'). set (dh_parents h) \<subseteq> dc_blocks c'"
    using old(2) parents ran by (auto simp: c')
  ultimately show ?thesis by (simp add: tips_ok_def)
qed

lemma adds_tips_ok:
  assumes "tips_ok c" and "dom (dc_headers c) = dc_blocks c" and "adds_block ev b c c'"
    and "bid ev b \<notin> dc_blocks c \<Longrightarrow> set (dh_parents (db_header b)) \<subseteq> dc_blocks c"
  shows "tips_ok c'"
proof (cases "bid ev b \<in> dc_blocks c")
  case True
  then obtain L where "c' = c\<lparr>dc_log := L\<rparr>"
    using assms(3) by (auto simp: adds_block_def dag_apply_def apply_with_id_def)
  then show ?thesis using assms(1) by (auto intro: tips_ok_cong)
next
  case False
  obtain rec where run: "dag_apply ev b (c\<lparr>dc_log := dc_log c @ log_record rec\<rparr>) = Some (Inr (), c')"
    using assms(3) by (auto simp: adds_block_def)
  show ?thesis by (rule tips_ok_apply [OF assms(1,2) run False assms(4) [OF False]])
qed

lemma runs_tips_ok: "dag_runs ev op c \<Longrightarrow> tips_ok c"
proof (induction rule: dag_runs.induct)
  case (runs_init c)
  then show ?case
    by (auto simp: tips_ok_def chain_init_def Let_def bind_eq_Some_conv dag_genesis_header_def)
next
  case (runs_accept c now b r c')
  have dom: "dom (dc_headers c) = dc_blocks c" using runs_headers_ok [OF runs_accept(1)] by (simp add: headers_ok_def)
  consider "c' = c" | "valid_block ev now c b" "adds_block ev b c c'"
    using accept_adds [OF runs_accept(2,3)] by blast
  then show ?case
  proof cases
    case 2
    then show ?thesis by (intro adds_tips_ok [OF runs_accept.IH dom]) (auto simp: valid_block_def)
  qed (simp add: runs_accept.IH)
next
  case (runs_mine c txs timestamp r c')
  have ok: "headers_ok ev c" by (rule runs_headers_ok [OF runs_mine(1)])
  obtain b where b: "build_block_at ev c txs timestamp = Some b" "c' = c \<or> adds_block ev b c c'"
    using mine_adds [OF runs_mine(2,3)] by blast
  have "set (block_parents c) \<subseteq> dc_blocks c"
    using ok runs_mine.IH by (auto simp: block_parents_def Let_def headers_ok_def tips_ok_def dest: in_set_takeD)
  then have parents: "set (dh_parents (db_header b)) \<subseteq> dc_blocks c"
    using b(1) mine_loop_run by (fastforce simp: build_block_at_def Let_def bind_eq_Some_conv)
  have dom: "dom (dc_headers c) = dc_blocks c" using ok by (simp add: headers_ok_def)
  show ?case using b(2)
  proof
    assume "adds_block ev b c c'"
    from adds_tips_ok [OF runs_mine.IH dom this parents] show ?thesis .
  qed (simp add: runs_mine.IH)
next
  case (runs_state c r c')
  from virtual_state_volatile [OF runs_state(2)] have v: "volatile [] c' = volatile [] c" by simp
  show ?case by (rule tips_ok_cong [OF runs_state.IH]) (metis v volatile_sel)+
next
  case (runs_finality c d)
  then show ?case by (auto intro: tips_ok_cong simp: set_finality_depth_def)
qed

text \<open>
  Property C12.  Well-formedness of a DAG chain: in every run, exactly the known blocks have a header, each
  stored under the id of its header; bodies are kept for known blocks only; every parent is a
  known block; and the tips are, without repetition and at least one, the known blocks that are
  the parent of none.
\<close>

theorem dag_chain_well_formed:
  assumes "dag_runs ev op c"
  shows "dom (dc_headers c) = dc_blocks c \<and> dom (dc_block_txs c) \<subseteq> dc_blocks c
    \<and> (dc_headers c i = Some h \<longrightarrow> hid ev h = i \<and> set (dh_parents h) \<subseteq> dc_blocks c)
    \<and> distinct (dc_tips c) \<and> dc_tips c \<noteq> []
    \<and> (t \<in> set (dc_tips c) \<longleftrightarrow> t \<in> dc_blocks c \<and> (\<nexists>j p. dc_headers c j = Some p \<and> t \<in> set (dh_parents p)))"
proof -
  have h: "headers_ok ev c" by (rule runs_headers_ok [OF assms])
  have t: "tips_ok c" by (rule runs_tips_ok [OF assms])
  show ?thesis using h t
    by (auto simp: headers_ok_def tips_ok_def ran_def)
qed

theorem dag_chain_well_formed_witness:
  "hid demo_env (the (dc_headers demo_grown (- 11))) = - 11 \<and> (- 11) \<in> set (dc_tips demo_grown)
    \<and> (- 10) \<notin> set (dc_tips demo_grown)"
proof -
  have h: "dc_headers demo_grown (- 11) = Some (db_header demo_block)" by (simp add: demo_grown_def)
  from dag_chain_well_formed [OF demo_runs(2), of "- 11" "db_header demo_block" "- 10"] h
  have "hid demo_env (db_header demo_block) = - 11"
    "(- 10) \<in> set (dc_tips demo_grown) \<longrightarrow> \<not> (\<exists>j p. dc_headers demo_grown j = Some p \<and> - 10 \<in> set (dh_parents p))"
    by blast+
  moreover have "- 10 \<in> set (dh_parents (db_header demo_block))" by (simp add: demo_head)
  ultimately have "hid demo_env (db_header demo_block) = - 11" "(- 10) \<notin> set (dc_tips demo_grown)" using h by blast+
  moreover have "(- 11) \<in> set (dc_tips demo_grown)" by (simp add: demo_grown_def)
  ultimately show ?thesis by (simp add: h)
qed

end
