(* ===== verification/Mempool.thy ===== *)
theory Mempool
  imports Prelude
begin

text \<open>
  The transaction pool: \<^verbatim>\<open>crates/tao-mempool/src/lib.rs\<close>.

  Transactions are the SDK's; what the pool reads of one is its first signature as 64 bytes,
  the parameter \<open>first_sig\<close>.  \<open>None\<close> as a result is a panic (\<open>Vec::remove\<close> on an empty list).
\<close>

record 'tx mempool =
  mp_txs :: "'tx list"
  mp_seen :: "bytes set"
  mp_max_size :: nat

definition mempool_new :: "nat \<Rightarrow> 'tx mempool" where
  "mempool_new max_size = \<lparr>mp_txs = [], mp_seen = {}, mp_max_size = max_size\<rparr>"

definition unsee :: "('tx \<Rightarrow> bytes option) \<Rightarrow> 'tx \<Rightarrow> bytes set \<Rightarrow> bytes set" where
  "unsee first_sig tx seen = (case first_sig tx of None \<Rightarrow> seen | Some s \<Rightarrow> seen - {s})"

definition mempool_submit ::
    "('tx \<Rightarrow> bytes option) \<Rightarrow> 'tx mempool \<Rightarrow> 'tx \<Rightarrow> (bool \<times> 'tx mempool) option" where
  "mempool_submit first_sig m tx =
     (case first_sig tx of
        None \<Rightarrow> Some (False, m)
      | Some s \<Rightarrow>
          if s \<in> mp_seen m then Some (False, m)
          else if length (mp_txs m) \<ge> mp_max_size m
          then (case mp_txs m of
                  [] \<Rightarrow> None
                | old # rest \<Rightarrow>
                    Some (True, m\<lparr>mp_txs := rest @ [tx],
                      mp_seen := insert s (unsee first_sig old (mp_seen m))\<rparr>))
          else Some (True, m\<lparr>mp_txs := mp_txs m @ [tx], mp_seen := insert s (mp_seen m)\<rparr>))"

definition mempool_drain :: "('tx \<Rightarrow> bytes option) \<Rightarrow> 'tx mempool \<Rightarrow> nat \<Rightarrow> 'tx list \<times> 'tx mempool" where
  "mempool_drain first_sig m max_count =
     (let count = min max_count (length (mp_txs m)); drained = take count (mp_txs m)
      in (drained, m\<lparr>mp_txs := drop count (mp_txs m),
            mp_seen := foldl (\<lambda>seen tx. unsee first_sig tx seen) (mp_seen m) drained\<rparr>))"

definition mempool_len :: "'tx mempool \<Rightarrow> nat" where
  "mempool_len m = length (mp_txs m)"

definition mempool_is_empty :: "'tx mempool \<Rightarrow> bool" where
  "mempool_is_empty m \<longleftrightarrow> mp_txs m = []"

inductive mempool_reachable :: "('tx \<Rightarrow> bytes option) \<Rightarrow> nat \<Rightarrow> 'tx mempool \<Rightarrow> bool"
  for first_sig max_size where
  start: "mempool_reachable first_sig max_size (mempool_new max_size)"
| submit: "mempool_reachable first_sig max_size m \<Longrightarrow> mempool_submit first_sig m tx = Some (b, m')
    \<Longrightarrow> mempool_reachable first_sig max_size m'"
| drain: "mempool_reachable first_sig max_size m \<Longrightarrow>
    mempool_reachable first_sig max_size (snd (mempool_drain first_sig m n))"

subsection \<open>The pool invariant\<close>

text \<open>
  Every pooled transaction is signed, no two share a first signature, \<open>seen\<close> holds exactly
  those signatures, and the pool is within its bound.
\<close>

definition mempool_ok :: "('tx \<Rightarrow> bytes option) \<Rightarrow> nat \<Rightarrow> 'tx mempool \<Rightarrow> bool" where
  "mempool_ok first_sig max_size m \<longleftrightarrow>
     mp_max_size m = max_size \<and> length (mp_txs m) \<le> max_size
     \<and> distinct (map first_sig (mp_txs m))
     \<and> first_sig ` set (mp_txs m) = Some ` mp_seen m"

lemma unsee_Some: "first_sig tx = Some s \<Longrightarrow> Some ` unsee first_sig tx seen = Some ` seen - {Some s}"
  by (auto simp: unsee_def)

text \<open>The three ways a submission ends.\<close>

lemma mempool_submit_cases:
  assumes "mempool_submit first_sig m tx = Some (b, m')"
  obtains (rejected) "\<not> b" "m' = m" "first_sig tx = None \<or> (\<exists>s \<in> mp_seen m. first_sig tx = Some s)"
    | (evicted) s old rest where "b" "first_sig tx = Some s" "s \<notin> mp_seen m" "mp_txs m = old # rest"
        "length (mp_txs m) \<ge> mp_max_size m"
        "m' = m\<lparr>mp_txs := rest @ [tx], mp_seen := insert s (unsee first_sig old (mp_seen m))\<rparr>"
    | (added) s where "b" "first_sig tx = Some s" "s \<notin> mp_seen m" "length (mp_txs m) < mp_max_size m"
        "m' = m\<lparr>mp_txs := mp_txs m @ [tx], mp_seen := insert s (mp_seen m)\<rparr>"
proof (cases "first_sig tx")
  case None
  with assms rejected show ?thesis by (simp add: mempool_submit_def)
next
  case (Some s)
  note sig = this
  consider "s \<in> mp_seen m" | "s \<notin> mp_seen m" "length (mp_txs m) \<ge> mp_max_size m"
    | "s \<notin> mp_seen m" "length (mp_txs m) < mp_max_size m" by linarith
  then show ?thesis
  proof cases
    case 1
    with assms sig rejected show ?thesis by (simp add: mempool_submit_def)
  next
    case 2
    with assms sig evicted show ?thesis
      by (cases "mp_txs m") (simp_all add: mempool_submit_def)
  next
    case 3
    with assms sig added show ?thesis by (simp add: mempool_submit_def)
  qed
qed

lemma mempool_submit_None: "mempool_submit first_sig m tx = None \<Longrightarrow> mp_max_size m = 0"
  by (auto simp: mempool_submit_def split: option.splits if_splits list.splits)

lemma mempool_seen_iff:
  "mempool_ok first_sig max_size m \<Longrightarrow> s \<in> mp_seen m \<longleftrightarrow> Some s \<in> first_sig ` set (mp_txs m)"
  by (simp add: mempool_ok_def inj_image_mem_iff)

lemma mempool_submit_ok:
  assumes ok: "mempool_ok first_sig max_size m" and "mempool_submit first_sig m tx = Some (b, m')"
  shows "mempool_ok first_sig max_size m'"
  using assms(2)
proof (cases rule: mempool_submit_cases)
  case rejected
  with ok show ?thesis by simp
next
  case (evicted s old rest)
  have new: "Some s \<notin> first_sig ` set (mp_txs m)"
    using evicted(3) mempool_seen_iff [OF ok] by simp
  have "first_sig old \<in> Some ` mp_seen m"
    using ok evicted(4) unfolding mempool_ok_def by (metis image_eqI list.set_intros(1))
  then obtain t where t: "first_sig old = Some t" by auto
  have "Some t \<notin> first_sig ` set rest"
    using ok evicted(4) t by (simp add: mempool_ok_def)
  moreover have "insert (Some t) (first_sig ` set rest) = Some ` mp_seen m"
    using ok evicted(4) t by (simp add: mempool_ok_def)
  ultimately have "first_sig ` set rest = Some ` unsee first_sig old (mp_seen m)"
    using t by (simp add: unsee_Some) (metis Diff_insert_absorb)
  moreover have "s \<notin> unsee first_sig old (mp_seen m)"
    using evicted(3) by (auto simp: unsee_def split: option.split)
  ultimately show ?thesis using ok new evicted by (simp add: mempool_ok_def inj_image_mem_iff)
next
  case (added s)
  have "Some s \<notin> first_sig ` set (mp_txs m)"
    using added(3) mempool_seen_iff [OF ok] by simp
  with ok added show ?thesis by (simp add: mempool_ok_def)
qed

lemma unsee_prefix:
  assumes "distinct (map first_sig (ds @ txs))" and "first_sig ` set (ds @ txs) = Some ` seen"
  shows "first_sig ` set txs = Some ` foldl (\<lambda>seen tx. unsee first_sig tx seen) seen ds"
  using assms
proof (induction ds arbitrary: seen)
  case (Cons d ds)
  obtain s where s: "first_sig d = Some s" using Cons.prems(2) by force
  have "first_sig ` set (ds @ txs) = first_sig ` set (d # ds @ txs) - {Some s}"
  proof -
    have "Some s \<notin> first_sig ` set (ds @ txs)" using Cons.prems(1) by (simp flip: s image_Un)
    with s show ?thesis by simp
  qed
  also have "\<dots> = Some ` unsee first_sig d seen" using Cons.prems(2) s by (simp add: unsee_Some)
  finally show ?case using Cons.IH [of "unsee first_sig d seen"] Cons.prems(1) by simp
qed simp

lemma mempool_drain_ok:
  assumes "mempool_ok first_sig max_size m"
  shows "mempool_ok first_sig max_size (snd (mempool_drain first_sig m n))"
proof -
  let ?c = "min n (length (mp_txs m))"
  have split: "mp_txs m = take ?c (mp_txs m) @ drop ?c (mp_txs m)" by simp
  have "first_sig ` set (drop ?c (mp_txs m)) =
      Some ` foldl (\<lambda>seen tx. unsee first_sig tx seen) (mp_seen m) (take ?c (mp_txs m))"
    using assms by (intro unsee_prefix) (simp_all only: append_take_drop_id mempool_ok_def)
  moreover have "distinct (map first_sig (drop ?c (mp_txs m)))"
    using assms by (simp add: mempool_ok_def flip: drop_map)
  moreover have "length (mp_txs m) - ?c \<le> max_size"
    using assms le_trans [OF diff_le_self] by (auto simp: mempool_ok_def)
  ultimately show ?thesis using assms by (simp add: mempool_ok_def mempool_drain_def Let_def)
qed

lemma mempool_reachable_ok: "mempool_reachable first_sig max_size m \<Longrightarrow> mempool_ok first_sig max_size m"
proof (induction rule: mempool_reachable.induct)
  case start
  then show ?case by (simp add: mempool_ok_def mempool_new_def)
qed (auto intro: mempool_submit_ok mempool_drain_ok)

subsection \<open>Properties\<close>

text \<open>
  Property C33.  A pool with a positive bound: in every reachable pool the transactions carry
  pairwise distinct first signatures, \<open>seen\<close> is exactly their set, the bound holds, and
  \<open>submit\<close> never panics; it accepts exactly the signed transactions whose signature is not
  pooled, appends them, and evicts only the oldest one and only when full.  So a full pool still accepts,
  although the comment of \<open>submit\<close> says that it returns true only when the pool was not full.
\<close>

theorem mempool_correct:
  assumes "mempool_reachable first_sig max_size m" and "0 < max_size"
  shows "mempool_ok first_sig max_size m \<and>
    (\<exists>b m'. mempool_submit first_sig m tx = Some (b, m')
      \<and> (b \<longleftrightarrow> first_sig tx \<noteq> None \<and> first_sig tx \<notin> first_sig ` set (mp_txs m))
      \<and> mp_txs m' = (if \<not> b then mp_txs m
          else (if length (mp_txs m) = max_size then tl (mp_txs m) else mp_txs m) @ [tx]))"
proof -
  have ok: "mempool_ok first_sig max_size m" using assms(1) by (rule mempool_reachable_ok)
  have "mempool_submit first_sig m tx \<noteq> None"
    using ok assms(2) mempool_submit_None [of first_sig m tx] unfolding mempool_ok_def by linarith
  then obtain r where "mempool_submit first_sig m tx = Some r" by blast
  then obtain b m' where sub: "mempool_submit first_sig m tx = Some (b, m')" by (cases r) simp
  moreover have "(b \<longleftrightarrow> first_sig tx \<noteq> None \<and> first_sig tx \<notin> first_sig ` set (mp_txs m))
      \<and> mp_txs m' = (if \<not> b then mp_txs m
          else (if length (mp_txs m) = max_size then tl (mp_txs m) else mp_txs m) @ [tx])"
    using sub
  proof (cases rule: mempool_submit_cases)
    case rejected
    then show ?thesis using mempool_seen_iff [OF ok] by auto
  next
    case (evicted s old rest)
    moreover have "length (mp_txs m) = max_size" using evicted ok by (simp add: mempool_ok_def)
    ultimately show ?thesis using mempool_seen_iff [OF ok, of s] by simp
  next
    case (added s)
    moreover have "length (mp_txs m) \<noteq> max_size" using added ok by (simp add: mempool_ok_def)
    ultimately show ?thesis using mempool_seen_iff [OF ok, of s] by simp
  qed
  ultimately show ?thesis using ok by blast
qed

text \<open>
  A pool with bound zero (what \<open>Mempool::default()\<close> builds) panics on the first
  signed transaction.
\<close>

theorem mempool_zero_capacity_panics:
  "mempool_submit (Some \<circ> f) (mempool_new 0) tx = None"
  by (simp add: mempool_submit_def mempool_new_def)

definition demo_sig :: "byte \<Rightarrow> bytes option" where
  "demo_sig b = (if b = 0 then None else Some [b])"

theorem mempool_correct_witness:
  "\<exists>m. mempool_reachable demo_sig 2 m \<and> mp_txs m = [2, 3] \<and>
    (\<exists>m'. mempool_submit demo_sig m 1 = Some (True, m') \<and> mp_txs m' = [3, 1])"
proof -
  let ?m1 = "\<lparr>mp_txs = [1], mp_seen = {[1]}, mp_max_size = 2\<rparr>"
  let ?m2 = "\<lparr>mp_txs = [1, 2], mp_seen = {[1], [2]}, mp_max_size = 2\<rparr>"
  let ?m3 = "\<lparr>mp_txs = [2, 3], mp_seen = {[2], [3]}, mp_max_size = 2\<rparr>"
  have "mempool_submit demo_sig (mempool_new 2) 1 = Some (True, ?m1)"
    by (simp add: mempool_submit_def mempool_new_def demo_sig_def)
  then have r1: "mempool_reachable demo_sig 2 ?m1"
    by (rule mempool_reachable.submit [OF mempool_reachable.start])
  have "mempool_submit demo_sig ?m1 2 = Some (True, ?m2)"
    by (simp add: mempool_submit_def demo_sig_def insert_commute)
  then have r2: "mempool_reachable demo_sig 2 ?m2" by (rule mempool_reachable.submit [OF r1])
  have "mempool_submit demo_sig ?m2 3 = Some (True, ?m3)"
    by (auto simp: mempool_submit_def demo_sig_def unsee_def)
  then have r3: "mempool_reachable demo_sig 2 ?m3" by (rule mempool_reachable.submit [OF r2])
  have "\<exists>m'. mempool_submit demo_sig ?m3 1 = Some (True, m') \<and> mp_txs m' = [3, 1]"
    using mempool_correct [OF r3, of 1] by (auto simp: demo_sig_def)
  with r3 show ?thesis by fastforce
qed

end
