(* ===== verification/P2p.thy ===== *)
theory P2p
  imports BlockLog
begin

text \<open>
  The gossip network: \<^verbatim>\<open>crates/tao-p2p/src/lib.rs\<close>.

  The encoding of a message (\<open>bincode\<close>) is the parameter record \<open>msg_codec\<close>; a TCP stream is a
  parameter type whose \<open>write_all\<close> and \<open>flush\<close> are the function \<open>wr\<close>: whether they succeeded, and
  the stream after it.  What a reader has before it is the list of the bytes that the peer sends until the
  connection ends.  Binding, dialling and the threads around the loops are outside the model; the
  body of each loop is a function of it.
\<close>

definition MAX_MSG_SIZE :: nat where "MAX_MSG_SIZE = 8 * 1024 * 1024"

type_synonym peer_id = nat

datatype net_msg =
  NewBlock bytes | NewTx bytes | GetBlock bytes32 | GetTips | Tips "bytes32 list" | GetSnapshot | Snapshot bytes

record inbound_msg =
  in_from :: peer_id
  in_msg :: net_msg

record 's network =
  nw_peers :: "(peer_id \<times> 's) list"
  nw_next_peer :: peer_id

record msg_codec =
  mc_ser :: "net_msg \<Rightarrow> string + bytes"
  mc_de :: "bytes \<Rightarrow> string + net_msg"

subsection \<open>Frames\<close>

definition frame :: "msg_codec \<Rightarrow> net_msg \<Rightarrow> tao_error + bytes" where
  "frame mc msg =
     (case mc_ser mc msg of
        Inl e \<Rightarrow> Inl (Network e)
      | Inr body \<Rightarrow>
          if length body < 2 ^ 32 then Inr (be_bytes 4 (length body) @ body)
          else Inl (Network ''message too large''))"

definition read_exact :: "nat \<Rightarrow> bytes \<Rightarrow> tao_error + bytes \<times> bytes" where
  "read_exact n stream =
     (if n \<le> length stream then Inr (take n stream, drop n stream)
      else Inl (Io ''failed to fill whole buffer''))"

fun decimal :: "nat \<Rightarrow> string" where
  "decimal n = (if n < 10 then [char_of (48 + n)] else decimal (n div 10) @ [char_of (48 + n mod 10)])"

declare decimal.simps [simp del]

definition frame_too_large :: "nat \<Rightarrow> tao_error" where
  "frame_too_large len = Network (''frame too large: '' @ decimal len @ '' > '' @ decimal MAX_MSG_SIZE)"

definition read_frame :: "msg_codec \<Rightarrow> bytes \<Rightarrow> tao_error + net_msg \<times> bytes" where
  "read_frame mc stream =
     and_then (read_exact 4 stream) (\<lambda>(len_buf, stream).
     let len = be_value len_buf in
     if MAX_MSG_SIZE < len then Inl (frame_too_large len)
     else and_then (read_exact len stream) (\<lambda>(body, stream).
       case mc_de mc body of Inl e \<Rightarrow> Inl (Network e) | Inr msg \<Rightarrow> Inr (msg, stream)))"

lemma read_exact_append [simp]: "length xs = n \<Longrightarrow> read_exact n (xs @ ys) = Inr (xs, ys)"
  by (auto simp: read_exact_def)

lemma read_frame_shrinks: "read_frame mc stream = Inr (msg, rest) \<Longrightarrow> length rest < length stream"
  by (auto simp: read_frame_def read_exact_def Let_def split: if_splits sum.splits)

subsection \<open>Connections\<close>

definition any_peer :: "'s network \<Rightarrow> peer_id option" where
  "any_peer n = (case nw_peers n of [] \<Rightarrow> None | (i, _) # _ \<Rightarrow> Some i)"

definition peer_count :: "'s network \<Rightarrow> nat" where
  "peer_count n = length (nw_peers n)"

text \<open>\<open>cloned\<close> is the result of \<open>try_clone\<close>; the id of the connection is returned with the network.\<close>

definition add_connection :: "'s option \<Rightarrow> 's \<Rightarrow> 's network \<Rightarrow> peer_id option \<times> 's network" where
  "add_connection cloned stream n =
     (case cloned of
        None \<Rightarrow> (None, n)
      | Some _ \<Rightarrow>
          let peer = nw_next_peer n in
          (Some peer, n\<lparr>nw_peers := nw_peers n @ [(peer, stream)],
             nw_next_peer := (peer + 1) mod 2 ^ 64\<rparr>))"

definition drop_peer :: "peer_id \<Rightarrow> 's network \<Rightarrow> 's network" where
  "drop_peer peer n = n\<lparr>nw_peers := filter (\<lambda>(i, _). i \<noteq> peer) (nw_peers n)\<rparr>"

text \<open>
  The reading loop of a connection: \<open>gone i\<close> is whether the consumer has hung up when the \<open>i\<close>-th
  message is sent.  The messages delivered, and whether the peer is dropped.
\<close>

function read_loop :: "msg_codec \<Rightarrow> peer_id \<Rightarrow> (nat \<Rightarrow> bool) \<Rightarrow> nat \<Rightarrow> bytes \<Rightarrow> inbound_msg list \<times> bool" where
  "read_loop mc peer gone i stream =
     (case read_frame mc stream of
        Inl _ \<Rightarrow> ([], True)
      | Inr (msg, rest) \<Rightarrow>
          if gone i then ([], False)
          else (case read_loop mc peer gone (i + 1) rest of
            (msgs, dropped) \<Rightarrow> (\<lparr>in_from = peer, in_msg = msg\<rparr> # msgs, dropped)))"
  by pat_completeness auto
termination
  by (relation "measure (\<lambda>(mc, peer, gone, i, stream). length stream)") (auto dest: read_frame_shrinks)

declare read_loop.simps [simp del]

subsection \<open>Sending\<close>

fun retain_writes :: "('s \<Rightarrow> bytes \<Rightarrow> bool \<times> 's) \<Rightarrow> bytes \<Rightarrow> (peer_id \<times> 's) list \<Rightarrow> (peer_id \<times> 's) list" where
  "retain_writes wr bs [] = []"
| "retain_writes wr bs ((i, s) # ps) =
     (case wr s bs of (ok, s') \<Rightarrow> if ok then (i, s') # retain_writes wr bs ps else retain_writes wr bs ps)"

definition broadcast :: "msg_codec \<Rightarrow> ('s \<Rightarrow> bytes \<Rightarrow> bool \<times> 's) \<Rightarrow> net_msg \<Rightarrow> 's network \<Rightarrow> 's network" where
  "broadcast mc wr msg n =
     (case frame mc msg of
        Inl _ \<Rightarrow> n
      | Inr framed \<Rightarrow> n\<lparr>nw_peers := retain_writes wr framed (nw_peers n)\<rparr>)"

fun send_pos :: "('s \<Rightarrow> bytes \<Rightarrow> bool \<times> 's) \<Rightarrow> bytes \<Rightarrow> peer_id \<Rightarrow> (peer_id \<times> 's) list \<Rightarrow>
    (tao_error + unit) \<times> (peer_id \<times> 's) list" where
  "send_pos wr bs peer [] = (Inl (Network ''unknown peer''), [])"
| "send_pos wr bs peer ((i, s) # ps) =
     (if i = peer then
        (case wr s bs of (ok, s') \<Rightarrow>
           if ok then (Inr (), (i, s') # ps) else (Inl (Network ''peer write failed''), ps))
      else (case send_pos wr bs peer ps of (r, ps') \<Rightarrow> (r, (i, s) # ps')))"

definition send_to ::
    "msg_codec \<Rightarrow> ('s \<Rightarrow> bytes \<Rightarrow> bool \<times> 's) \<Rightarrow> peer_id \<Rightarrow> net_msg \<Rightarrow> 's network \<Rightarrow>
     (tao_error + unit) \<times> 's network" where
  "send_to mc wr peer msg n =
     (case frame mc msg of
        Inl e \<Rightarrow> (Inl e, n)
      | Inr framed \<Rightarrow>
          (case send_pos wr framed peer (nw_peers n) of (r, ps) \<Rightarrow> (r, n\<lparr>nw_peers := ps\<rparr>)))"

subsection \<open>Frames survive the wire\<close>

text \<open>What is relied on of the encoding: it reads back.\<close>

definition msg_codec_ok :: "msg_codec \<Rightarrow> bool" where
  "msg_codec_ok mc \<longleftrightarrow> (\<forall>msg body. mc_ser mc msg = Inr body \<longrightarrow> mc_de mc body = Inr msg)"

fun frames :: "msg_codec \<Rightarrow> net_msg list \<Rightarrow> tao_error + bytes" where
  "frames mc [] = Inr []"
| "frames mc (msg # msgs) =
     and_then (frame mc msg) (\<lambda>bs. and_then (frames mc msgs) (\<lambda>rest. Inr (bs @ rest)))"

lemma read_frame_frame:
  assumes "msg_codec_ok mc" and "frame mc msg = Inr bs" and "length bs \<le> MAX_MSG_SIZE + 4"
  shows "read_frame mc (bs @ rest) = Inr (msg, rest)"
proof -
  obtain body where body: "mc_ser mc msg = Inr body" "length body < 2 ^ 32" "bs = be_bytes 4 (length body) @ body"
    using assms(2) by (auto simp: frame_def split: sum.splits if_splits)
  have "mc_de mc body = Inr msg" using assms(1) body(1) by (simp add: msg_codec_ok_def)
  moreover have "length body \<le> MAX_MSG_SIZE" using assms(3) body(3) by simp
  ultimately show ?thesis using body(2) by (simp add: read_frame_def body(3) log_record_value Let_def)
qed

lemma read_frame_oversized:
  assumes "frame mc msg = Inr bs" and "MAX_MSG_SIZE + 4 < length bs"
  shows "\<exists>len. read_frame mc (bs @ rest) = Inl (frame_too_large len)"
proof -
  obtain body where body: "mc_ser mc msg = Inr body" "length body < 2 ^ 32" "bs = be_bytes 4 (length body) @ body"
    using assms(1) by (auto simp: frame_def split: sum.splits if_splits)
  then have "read_frame mc (bs @ rest) = Inl (frame_too_large (length body))"
    using assms(2) by (simp add: read_frame_def log_record_value Let_def)
  then show ?thesis ..
qed

text \<open>
  Property C37.  The wire: what a peer sends as consecutive frames, each of a body of at most 8 MiB, the reading loop delivers
  message by message, in order and under the peer's id, before it sees what follows.
\<close>

theorem frames_delivered:
  assumes "msg_codec_ok mc" and "frames mc msgs = Inr bs"
    and "\<forall>msg \<in> set msgs. \<forall>f. frame mc msg = Inr f \<longrightarrow> length f \<le> 8 * 1024 * 1024 + 4"
    and "\<forall>i. \<not> gone i"
  shows "read_loop mc peer gone i (bs @ rest) =
    (case read_loop mc peer gone (i + length msgs) rest of
       (later, dropped) \<Rightarrow> (map (\<lambda>msg. \<lparr>in_from = peer, in_msg = msg\<rparr>) msgs @ later, dropped))"
  using assms(2,3)
proof (induction msgs arbitrary: bs i)
  case (Cons msg msgs)
  obtain f bs' where f: "frame mc msg = Inr f" "frames mc msgs = Inr bs'" "bs = f @ bs'"
    using Cons.prems(1) by (cases "frame mc msg"; cases "frames mc msgs") auto
  have "read_frame mc (f @ (bs' @ rest)) = Inr (msg, bs' @ rest)"
    using Cons.prems(2) f(1) by (intro read_frame_frame [OF assms(1) f(1)]) (simp add: MAX_MSG_SIZE_def)
  moreover have "read_loop mc peer gone (i + 1) (bs' @ rest) =
      (case read_loop mc peer gone (i + 1 + length msgs) rest of
         (later, dropped) \<Rightarrow> (map (\<lambda>msg. \<lparr>in_from = peer, in_msg = msg\<rparr>) msgs @ later, dropped))"
    using Cons.prems(2) by (intro Cons.IH f(2)) simp
  ultimately show ?case using assms(4) f(3)
    by (subst read_loop.simps) (simp split: prod.split)
qed (simp split: prod.split)

definition demo_codec :: msg_codec where
  "demo_codec = \<lparr>mc_ser = (\<lambda>msg. case msg of GetTips \<Rightarrow> Inr [3] | NewTx bs \<Rightarrow> Inr (1 # bs) | _ \<Rightarrow> Inl ''unsupported''),
     mc_de = (\<lambda>bs. case bs of b # bs \<Rightarrow> if b = 1 then Inr (NewTx bs) else Inr GetTips | [] \<Rightarrow> Inl ''eof'')\<rparr>"

lemma demo_codec_ok: "msg_codec_ok demo_codec"
  by (auto simp: msg_codec_ok_def demo_codec_def split: net_msg.splits)

theorem frames_delivered_witness:
  "fst (read_loop demo_codec 5 (\<lambda>_. False) 0 ([0, 0, 0, 3, 1, 7, 8, 0, 0, 0, 1, 3] @ []))
    = [\<lparr>in_from = 5, in_msg = NewTx [7, 8]\<rparr>, \<lparr>in_from = 5, in_msg = GetTips\<rparr>]"
proof -
  have frames: "frames demo_codec [NewTx [7, 8], GetTips] = Inr [0, 0, 0, 3, 1, 7, 8, 0, 0, 0, 1, 3]"
    by (simp add: frame_def demo_codec_def be_bytes_numeral)
  have "\<forall>msg \<in> set [NewTx [7, 8], GetTips]. \<forall>f. frame demo_codec msg = Inr f \<longrightarrow> length f \<le> 8 * 1024 * 1024 + 4"
    by (simp add: frame_def demo_codec_def)
  from frames_delivered [OF demo_codec_ok frames this, of "\<lambda>_. False" 5 0 "[]"]
  show ?thesis by (simp add: read_loop.simps [of _ _ _ _ "[]"] read_frame_def read_exact_def)
qed

text \<open>
  The limit is on the reading side only: a message whose body is between 8 MiB and 4 GiB is framed and
  sent without an error, and its reader drops the connection without delivering it or anything
  sent after it.
\<close>

theorem oversized_frame_disconnects:
  assumes "frame mc msg = Inr bs" and "8 * 1024 * 1024 + 4 < length bs"
    and "wr s bs = (True, s')"
  shows "send_to mc wr peer msg \<lparr>nw_peers = [(peer, s)], nw_next_peer = n\<rparr>
      = (Inr (), \<lparr>nw_peers = [(peer, s')], nw_next_peer = n\<rparr>)
    \<and> read_loop mc reader gone i (bs @ rest) = ([], True)"
proof -
  obtain len where "read_frame mc (bs @ rest) = Inl (frame_too_large len)"
    using read_frame_oversized [OF assms(1)] assms(2) by (force simp: MAX_MSG_SIZE_def)
  then have "read_loop mc reader gone i (bs @ rest) = ([], True)" by (subst read_loop.simps) simp
  then show ?thesis using assms by (simp add: send_to_def)
qed

theorem oversized_frame_disconnects_witness:
  "\<exists>msg bs. frame demo_codec msg = Inr bs
    \<and> send_to demo_codec (\<lambda>s bs. (True, s + length bs)) 5 msg \<lparr>nw_peers = [(5, 0)], nw_next_peer = 6\<rparr>
      = (Inr (), \<lparr>nw_peers = [(5, length bs)], nw_next_peer = 6\<rparr>)
    \<and> read_loop demo_codec 0 (\<lambda>_. False) 0 (bs @ [0, 0, 0, 1, 3]) = ([], True)"
proof -
  obtain body :: bytes where body: "length body = 8 * 1024 * 1024" by (rule that [OF length_replicate])
  define bs where "bs = be_bytes 4 (length (1 # body)) @ 1 # body"
  have frame: "frame demo_codec (NewTx body) = Inr bs" by (simp add: frame_def demo_codec_def body bs_def)
  have "8 * 1024 * 1024 + 4 < length bs" by (simp add: bs_def body)
  from oversized_frame_disconnects [OF frame this, of "\<lambda>s bs. (True, s + length bs)" 0 "length bs" 5 6 0 "\<lambda>_. False" 0]
  show ?thesis using frame by fastforce
qed

end
