(* ===== verification/NodeShared.thy ===== *)
theory NodeShared
  imports Mempool P2p
begin

text \<open>
  The state shared by the node loop and the RPC server: \<^verbatim>\<open>crates/tao-node/src/shared.rs\<close>.

  The account store is a handle to the database of the bank; the handle in this record is the store
  the RPC reads.  The first signature of a transaction, as 64 bytes, is the parameter of the
  mempool.  The locks make each operation atomic, so an operation is a function of the record.
\<close>

type_synonym sig_result = "string option"

record ('db, 'tx, 's) shared =
  sh_accounts :: 'db
  sh_genesis_hash :: bytes32
  sh_faucet :: "bytes option"
  sh_slot :: u64
  sh_latest_blockhash :: bytes32
  sh_mempool :: "'tx mempool"
  sh_sig_status :: "bytes \<rightharpoonup> sig_result"
  sh_network :: "'s network option"

definition shared_new :: "'db \<Rightarrow> bytes32 \<Rightarrow> u64 \<Rightarrow> bytes32 \<Rightarrow> bytes option \<Rightarrow> ('db, 'tx, 's) shared" where
  "shared_new accounts genesis_hash slot latest_blockhash faucet =
     \<lparr>sh_accounts = accounts, sh_genesis_hash = genesis_hash, sh_faucet = faucet, sh_slot = slot,
      sh_latest_blockhash = latest_blockhash, sh_mempool = mempool_new 4096,
      sh_sig_status = Map.empty, sh_network = None\<rparr>"

text \<open>\<open>OnceLock::set\<close> fails, and is ignored, the second time.\<close>

definition attach_network :: "'s network \<Rightarrow> ('db, 'tx, 's) shared \<Rightarrow> ('db, 'tx, 's) shared" where
  "attach_network n sh = (case sh_network sh of None \<Rightarrow> sh\<lparr>sh_network := Some n\<rparr> | Some _ \<Rightarrow> sh)"

definition gossip_tx ::
    "msg_codec \<Rightarrow> ('s \<Rightarrow> bytes \<Rightarrow> bool \<times> 's) \<Rightarrow> bytes \<Rightarrow> ('db, 'tx, 's) shared \<Rightarrow> ('db, 'tx, 's) shared" where
  "gossip_tx mc wr raw sh = sh\<lparr>sh_network := map_option (broadcast mc wr (NewTx raw)) (sh_network sh)\<rparr>"

definition set_accounts :: "'db \<Rightarrow> ('db, 'tx, 's) shared \<Rightarrow> ('db, 'tx, 's) shared" where
  "set_accounts db sh = sh\<lparr>sh_accounts := db\<rparr>"

definition advance :: "u64 \<Rightarrow> bytes32 \<Rightarrow> ('db, 'tx, 's) shared \<Rightarrow> ('db, 'tx, 's) shared" where
  "advance slot blockhash sh = sh\<lparr>sh_slot := slot, sh_latest_blockhash := blockhash\<rparr>"

definition submit_tx ::
    "('tx \<Rightarrow> bytes option) \<Rightarrow> 'tx \<Rightarrow> ('db, 'tx, 's) shared \<Rightarrow> ('db, 'tx, 's) shared option" where
  "submit_tx first_sig tx sh =
     map_option (\<lambda>(_, m). sh\<lparr>sh_mempool := m\<rparr>) (mempool_submit first_sig (sh_mempool sh) tx)"

definition drain_mempool ::
    "('tx \<Rightarrow> bytes option) \<Rightarrow> ('db, 'tx, 's) shared \<Rightarrow> 'tx list \<times> ('db, 'tx, 's) shared" where
  "drain_mempool first_sig sh =
     (case mempool_drain first_sig (sh_mempool sh) 4096 of (txs, m) \<Rightarrow> (txs, sh\<lparr>sh_mempool := m\<rparr>))"

definition confirm :: "bytes \<Rightarrow> sig_result \<Rightarrow> ('db, 'tx, 's) shared \<Rightarrow> ('db, 'tx, 's) shared" where
  "confirm signature result sh = sh\<lparr>sh_sig_status := (sh_sig_status sh)(signature \<mapsto> result)\<rparr>"

definition signature_status :: "bytes \<Rightarrow> ('db, 'tx, 's) shared \<Rightarrow> sig_result option" where
  "signature_status signature sh = sh_sig_status sh signature"

end
