(* ===== verification/Node.thy ===== *)
theory Node
  imports Bank Chain NodeShared
begin

text \<open>
  The linear node: \<^verbatim>\<open>crates/tao-node/src/node.rs\<close>.  It owns the header chain, the block log and the
  bank; \<open>prepare\<close> rebuilds them from the log, \<open>mine_one\<close> and \<open>apply_peer_block\<close> extend them.

  Parameters are in \<open>node_env\<close>: the bank's, the encodings (\<open>bincode\<close>) of headers, transactions and
  blocks, the parsers \<open>genesis_header\<close> and \<open>load_allocations\<close> need, and the network's.  The account store is
  one object shared by the bank and the RPC state, so every execution is seen by both: \<open>see_bank\<close>.
  The clock is the argument \<open>clk\<close>: its \<open>n\<close>-th reading.  A panic is \<open>None\<close>, and so is mining that
  never ends.
\<close>

definition GRIND_BATCH_FAST :: u64 where "GRIND_BATCH_FAST = 200000"
definition GRIND_BATCH_SLOW :: u64 where "GRIND_BATCH_SLOW = 200"

datatype node_error =
  GenesisFailure string | AccountsFailure string | AllocationsFailure string | ReadLogFailure tao_error
| CorruptBlock string | BadTransaction string | BankFailure bank_error | StateRootMismatch u64
| AppendFailure tao_error | SelfMinedRejected chain_error | BadPeerBlock string

record ('db, 'a, 'p, 'tx, 'san, 'chk, 's) node_env =
  ne_bank :: "('db, 'a, 'p, 'tx, 'san, 'chk) bank_env"
  ne_ser_header :: "block_header \<Rightarrow> bytes"
  ne_ser_cfg :: "genesis_config \<Rightarrow> bytes"
  ne_hexdec :: "string \<Rightarrow> string + bytes"
  ne_parse_key :: "string \<Rightarrow> string + bytes32"
  ne_ser_tx :: "'tx \<Rightarrow> string + bytes"
  ne_de_tx :: "bytes \<Rightarrow> string + 'tx"
  ne_ser_block :: "block \<Rightarrow> string + bytes"
  ne_de_block :: "bytes \<Rightarrow> string + block"
  ne_first_sig :: "'tx \<Rightarrow> bytes option"
  ne_open_wiped :: "string + 'db"
  ne_codec :: msg_codec
  ne_write :: "'s \<Rightarrow> bytes \<Rightarrow> bool \<times> 's"

record mine_options =
  mo_log :: bytes
  mo_genesis :: genesis_config
  mo_miner :: pubkey
  mo_blocks :: u64
  mo_mine :: bool
  mo_faucet :: "bytes option"
  mo_pow :: pow_algorithm

text \<open>The miner with the shared state; \<open>nd_log\<close> is the content of the log file.\<close>

record ('db, 'p, 'tx, 's) node =
  nd_chain :: chain_state
  nd_log :: bytes
  nd_bank :: "('db, 'p) bank"
  nd_genesis :: genesis_config
  nd_miner :: pubkey
  nd_blocks :: u64
  nd_mine :: bool
  nd_pow :: pow_algorithm
  nd_shared :: "('db, 'tx, 's) shared"

type_synonym ('db, 'p, 'tx, 's, 'x) nm = "(('db, 'p, 'tx, 's) node, node_error, 'x) eff"

definition emission :: "genesis_config \<Rightarrow> u64 \<Rightarrow> u64" where
  "emission g height =
     (let r = gc_reward g in
      if rp_halving_interval r = 0 then rp_initial_lamports r
      else let halvings = height div rp_halving_interval r in
        if halvings \<ge> 64 then 0 else drop_bit (unat halvings) (rp_initial_lamports r))"

fun node_decode_txs ::
    "('db, 'a, 'p, 'tx, 'san, 'chk, 's) node_env \<Rightarrow> bytes list \<Rightarrow> node_error + 'tx list" where
  "node_decode_txs ne [] = Inr []"
| "node_decode_txs ne (b # bs) =
     and_then (map_err BadTransaction (ne_de_tx ne b)) (\<lambda>tx.
     and_then (node_decode_txs ne bs) (\<lambda>txs. Inr (tx # txs)))"

subsection \<open>Replaying the log\<close>

definition linear_id :: "('db, 'a, 'p, 'tx, 'san, 'chk, 's) node_env \<Rightarrow> block_header \<Rightarrow> bytes32" where
  "linear_id ne h = header_id (be_hash (ne_bank ne)) (ne_ser_header ne) h"

text \<open>The chain after \<open>let _ = chain.add_header(..)\<close>; a panic is \<open>None\<close>.\<close>

definition add_ignoring ::
    "('db, 'a, 'p, 'tx, 'san, 'chk, 's) node_env \<Rightarrow> chain_state \<Rightarrow> block_header \<Rightarrow> chain_state option" where
  "add_ignoring ne s h =
     (case add_header (be_hash (ne_bank ne)) (ne_ser_header ne) s h of
        Inr (_, s') \<Rightarrow> Some s' | Inl ChainPanic \<Rightarrow> None | Inl _ \<Rightarrow> Some s)"

definition replay_block_of ::
    "('db, 'a, 'p, 'tx, 'san, 'chk, 's) node_env \<Rightarrow> genesis_config \<Rightarrow> bytes \<Rightarrow>
     (chain_state \<times> ('db, 'p) bank, node_error, unit) eff" where
  "replay_block_of ne g bs =
     rbind (rread (\<lambda>_. map_err CorruptBlock (ne_de_block ne bs))) (\<lambda>b.
     rbind (rread (\<lambda>_. node_decode_txs ne (blk_transactions b))) (\<lambda>txs (chain, bank).
       let h = blk_header b in
       Option.bind (add_ignoring ne chain h) (\<lambda>chain'.
       case execute_block (ne_bank ne) txs (bh_prev_hash h) (bh_miner h) (emission g (bh_height h)) bank of
         None \<Rightarrow> None
       | Some (Inl e, bank') \<Rightarrow> rfail (BankFailure e) (chain', bank')
       | Some (Inr ex, bank') \<Rightarrow>
           if bx_state_root ex \<noteq> bh_state_root h
           then rfail (StateRootMismatch (bh_height h)) (chain', bank')
           else rret () (chain', bank'))))"

text \<open>The chain and the bank before any block.\<close>

definition node_fresh ::
    "('db, 'a, 'p, 'tx, 'san, 'chk, 's) node_env \<Rightarrow> mine_options \<Rightarrow>
     (node_error + bytes32 \<times> chain_state \<times> ('db, 'p) bank) option" where
  "node_fresh ne mo =
     (let g = mo_genesis mo; H = be_hash (ne_bank ne) in
      case genesis_header H (ne_ser_cfg ne) (ne_hexdec ne) g of
        Inl e \<Rightarrow> Some (Inl (GenesisFailure e))
      | Inr gh \<Rightarrow>
          Option.bind (difficulty_params_new (pp_target_block_time_secs (gc_pow g)) (pp_lwma_window (gc_pow g)))
            (\<lambda>params.
          Option.bind (chain_new H (ne_ser_header ne) gh params (mo_pow mo)) (\<lambda>chain.
          case ne_open_wiped ne of
            Inl e \<Rightarrow> Some (Inl (AccountsFailure e))
          | Inr db \<Rightarrow>
              (case load_allocations H (be_rocks (ne_bank ne)) (be_ao (ne_bank ne)) (ne_parse_key ne)
                  (\<lambda>l. am_new (be_am (ne_bank ne)) l 0 (id_system (be_ids (ne_bank ne)))) g db of
                 Inl e \<Rightarrow> Some (Inl (AllocationsFailure e))
               | Inr (_, db) \<Rightarrow>
                   map_option (\<lambda>bank. Inr (linear_id ne gh, chain, bank)) (bank_new (ne_bank ne) db 0)))))"

definition prepare ::
    "('db, 'a, 'p, 'tx, 'san, 'chk, 's) node_env \<Rightarrow> mine_options \<Rightarrow>
     (node_error + ('db, 'p, 'tx, 's) node) option" where
  "prepare ne mo =
     Option.bind (node_fresh ne mo) (\<lambda>fresh.
     case fresh of
       Inl e \<Rightarrow> Some (Inl e)
     | Inr (genesis_hash, chain, bank) \<Rightarrow>
         (case log_read_all (mo_log mo) of
            Inl e \<Rightarrow> Some (Inl (ReadLogFailure e))
          | Inr records \<Rightarrow>
              (case rfor records (replay_block_of ne (mo_genesis mo)) (chain, bank) of
                 None \<Rightarrow> None
               | Some (Inl e, _) \<Rightarrow> Some (Inl e)
               | Some (Inr _, (chain, bank)) \<Rightarrow>
                   map_option (\<lambda>height. Inr
                     \<lparr>nd_chain = chain, nd_log = mo_log mo, nd_bank = bank, nd_genesis = mo_genesis mo,
                      nd_miner = mo_miner mo, nd_blocks = mo_blocks mo, nd_mine = mo_mine mo, nd_pow = mo_pow mo,
                      nd_shared = shared_new (bk_db bank) genesis_hash height (cs_tip chain) (mo_faucet mo)\<rparr>)
                     (chain_height chain))))"

subsection \<open>Mining\<close>

text \<open>The batches of \<open>grind\<close>, the timestamp refreshed after each: the header found, and the readings used.\<close>

partial_function (option) grind_until ::
    "pow_algorithm \<Rightarrow> u64 \<Rightarrow> (nat \<Rightarrow> i64) \<Rightarrow> nat \<Rightarrow> block_header \<Rightarrow> block_header option" where
  "grind_until pow batch clk n h =
     (case grind h pow batch of
        (h', Found _) \<Rightarrow> Some h'
      | (h', Exhausted _) \<Rightarrow> grind_until pow batch clk (n + 1) (h'\<lparr>bh_timestamp := clk n\<rparr>))"

definition contains_str :: "string \<Rightarrow> string \<Rightarrow> bool" where
  "contains_str s pat \<longleftrightarrow> list_ex (\<lambda>i. take (length pat) (drop i s) = pat) [0..<length s + 1]"

definition batch_of :: "pow_algorithm \<Rightarrow> u64" where
  "batch_of pow = (if contains_str (pa_name pow) ''matmul'' then GRIND_BATCH_SLOW else GRIND_BATCH_FAST)"

fun ser_txs :: "('tx \<Rightarrow> string + bytes) \<Rightarrow> 'tx list \<Rightarrow> bytes list option" where
  "ser_txs ser [] = Some []"
| "ser_txs ser (tx # txs) =
     (case ser tx of Inl _ \<Rightarrow> None | Inr bs \<Rightarrow> map_option ((#) bs) (ser_txs ser txs))"

fun confirm_all ::
    "('tx \<Rightarrow> bytes option) \<Rightarrow> ('tx \<times> tx_outcome) list \<Rightarrow> ('db, 'tx, 's) shared \<Rightarrow> ('db, 'tx, 's) shared" where
  "confirm_all first_sig [] sh = sh"
| "confirm_all first_sig ((tx, outcome) # rest) sh =
     confirm_all first_sig rest
       (case first_sig tx of None \<Rightarrow> sh | Some sig \<Rightarrow> confirm sig (to_error outcome) sh)"

text \<open>The bank after an execution, seen through the shared store as well.\<close>

definition see_bank :: "('db, 'p) bank \<Rightarrow> ('db, 'p, 'tx, 's) node \<Rightarrow> ('db, 'p, 'tx, 's) node" where
  "see_bank b n = n\<lparr>nd_bank := b, nd_shared := set_accounts (bk_db b) (nd_shared n)\<rparr>"

definition on_bank :: "('db, 'p, 'x) bm \<Rightarrow> ('db, 'p, 'tx, 's, 'x) nm" where
  "on_bank m n =
     (case m (nd_bank n) of
        None \<Rightarrow> None
      | Some (Inl e, b) \<Rightarrow> rfail (BankFailure e) (see_bank b n)
      | Some (Inr x, b) \<Rightarrow> rret x (see_bank b n))"

definition append_log :: "bytes \<Rightarrow> ('db, 'p, 'tx, 's, unit) nm" where
  "append_log bs =
     rwrite (\<lambda>n. map_err AppendFailure (and_then (log_append (nd_log n) bs) (\<lambda>file. Inr (n\<lparr>nd_log := file\<rparr>))))"

text \<open>Confirming the transactions of a block and moving the head.\<close>

definition publish ::
    "('db, 'a, 'p, 'tx, 'san, 'chk, 's) node_env \<Rightarrow> 'tx list \<Rightarrow> block_execution \<Rightarrow> u64 \<Rightarrow>
     ('db, 'p, 'tx, 's) node \<Rightarrow> ('db, 'p, 'tx, 's) node" where
  "publish ne txs ex height n =
     n\<lparr>nd_shared := advance height (cs_tip (nd_chain n))
        (confirm_all (ne_first_sig ne) (zip txs (bx_outcomes ex)) (nd_shared n))\<rparr>"

definition gossip ::
    "('db, 'a, 'p, 'tx, 'san, 'chk, 's) node_env \<Rightarrow> net_msg \<Rightarrow> ('db, 'p, 'tx, 's) node \<Rightarrow> ('db, 'p, 'tx, 's) node" where
  "gossip ne msg n =
     n\<lparr>nd_shared := (nd_shared n)\<lparr>sh_network :=
        map_option (broadcast (ne_codec ne) (ne_write ne) msg) (sh_network (nd_shared n))\<rparr>\<rparr>"

text \<open>The header to mine on the tip: the candidate with the state root of the execution.\<close>

definition mine_header ::
    "('db, 'a, 'p, 'tx, 'san, 'chk, 's) node_env \<Rightarrow> (nat \<Rightarrow> i64) \<Rightarrow> bytes list \<Rightarrow> bytes32 \<Rightarrow>
     ('db, 'p, 'tx, 's) node \<Rightarrow> block_header option" where
  "mine_header ne clk serialized root n =
     Option.bind (build_candidate (be_hash (ne_bank ne)) (nd_chain n) (nd_miner n) (clk 0) serialized) (\<lambda>h.
     grind_until (nd_pow n) (batch_of (nd_pow n)) clk 1 (h\<lparr>bh_state_root := root\<rparr>))"

definition mine_one ::
    "('db, 'a, 'p, 'tx, 'san, 'chk, 's) node_env \<Rightarrow> (nat \<Rightarrow> i64) \<Rightarrow> ('db, 'p, 'tx, 's, unit) nm" where
  "mine_one ne clk n =
     Option.bind (chain_height (nd_chain n)) (\<lambda>tip_height.
     let height = tip_height + 1; parent_hash = cs_tip (nd_chain n);
         (txs, sh) = drain_mempool (ne_first_sig ne) (nd_shared n) in
     Option.bind (ser_txs (ne_ser_tx ne) txs) (\<lambda>serialized.
     rbind (on_bank (execute_block (ne_bank ne) txs parent_hash (nd_miner n) (emission (nd_genesis n) height)))
       (\<lambda>ex n.
     Option.bind (mine_header ne clk serialized (bx_state_root ex) n) (\<lambda>header.
     case ne_ser_block ne (block_new header serialized) of
       Inl _ \<Rightarrow> None
     | Inr block_bytes \<Rightarrow>
         rbind (append_log block_bytes) (\<lambda>_ n.
           case add_header (be_hash (ne_bank ne)) (ne_ser_header ne) (nd_chain n) header of
             Inl ChainPanic \<Rightarrow> None
           | Inl e \<Rightarrow> rfail (SelfMinedRejected e) n
           | Inr (_, chain) \<Rightarrow>
               rret () (gossip ne (NewBlock block_bytes) (publish ne txs ex height (n\<lparr>nd_chain := chain\<rparr>)))) n))
       (n\<lparr>nd_shared := sh\<rparr>)))"

subsection \<open>Blocks and messages of peers\<close>

definition apply_peer_block ::
    "('db, 'a, 'p, 'tx, 'san, 'chk, 's) node_env \<Rightarrow> bytes \<Rightarrow> ('db, 'p, 'tx, 's, unit) nm" where
  "apply_peer_block ne bs n =
     (case ne_de_block ne bs of
        Inl e \<Rightarrow> rfail (BadPeerBlock e) n
      | Inr b \<Rightarrow>
          let h = blk_header b in
          if chain_contains (nd_chain n) (linear_id ne h) then rret () n
          else (case node_decode_txs ne (blk_transactions b) of
            Inl e \<Rightarrow> rfail e n
          | Inr txs \<Rightarrow>
              (case add_header (be_hash (ne_bank ne)) (ne_ser_header ne) (nd_chain n) h of
                 Inl ChainPanic \<Rightarrow> None
               | Inl _ \<Rightarrow> rret () n
               | Inr (_, chain) \<Rightarrow>
                   rbind (on_bank (execute_block (ne_bank ne) txs (bh_prev_hash h) (bh_miner h)
                       (emission (nd_genesis n) (bh_height h)))) (\<lambda>ex n.
                     if bx_state_root ex \<noteq> bh_state_root h then rret () n
                     else rbind (append_log bs) (\<lambda>_ n. rret () (publish ne txs ex (bh_height h) n)) n)
                     (n\<lparr>nd_chain := chain\<rparr>))))"

definition node_handle ::
    "('db, 'a, 'p, 'tx, 'san, 'chk, 's) node_env \<Rightarrow> net_msg \<Rightarrow> ('db, 'p, 'tx, 's, unit) nm" where
  "node_handle ne msg =
     (case msg of
        NewBlock bs \<Rightarrow> apply_peer_block ne bs
      | NewTx bs \<Rightarrow> (\<lambda>n.
          case ne_de_tx ne bs of
            Inl _ \<Rightarrow> rret () n
          | Inr tx \<Rightarrow> map_option (\<lambda>sh. (Inr (), n\<lparr>nd_shared := sh\<rparr>)) (submit_tx (ne_first_sig ne) tx (nd_shared n)))
      | _ \<Rightarrow> rret ())"

text \<open>
  The node loop.  Each element of the list is one iteration: the messages waiting, the clock
  readings of its mining; the list ends when the node is shut down.
\<close>

fun node_loop ::
    "('db, 'a, 'p, 'tx, 'san, 'chk, 's) node_env \<Rightarrow> u64 \<Rightarrow> (net_msg list \<times> (nat \<Rightarrow> i64)) list \<Rightarrow>
     ('db, 'p, 'tx, 's, unit) nm" where
  "node_loop ne produced [] n = rret () n"
| "node_loop ne produced ((msgs, clk) # rest) n =
     (if nd_mine n \<and> nd_blocks n \<noteq> 0 \<and> produced \<ge> nd_blocks n then rret () n
      else
        rbind (rfor msgs (node_handle ne)) (\<lambda>_ n.
        if nd_mine n
        then rbind (mine_one ne clk) (\<lambda>_. node_loop ne (produced + 1) rest) n
        else node_loop ne produced rest n) n)"

definition status_label :: "block_status \<Rightarrow> string" where
  "status_label s = (case s of ExtendedTip \<Rightarrow> ''extend'' | Reorg _ _ \<Rightarrow> ''reorg'' | SideChain \<Rightarrow> ''side'')"

declare grind_until.simps [code]

end
