(* ===== verification/NodeRuns.thy ===== *)
theory NodeRuns
  imports Node
begin

text \<open>
  Runs of the linear node: the emission schedule, and what a restart gives back.
\<close>

subsection \<open>Emission\<close>

lemma unat_drop_u64: "unat (drop_bit n w) = unat w div 2 ^ n" for w :: u64
  unfolding unat_drop_bit_eq by (rule drop_bit_eq_div)

lemma emission_value:
  assumes "rp_halving_interval (gc_reward g) \<noteq> 0"
  shows "unat (emission g h) = unat (rp_initial_lamports (gc_reward g))
    div 2 ^ (unat h div unat (rp_halving_interval (gc_reward g)))"
proof -
  let ?A = "rp_initial_lamports (gc_reward g)" and ?k = "h div rp_halving_interval (gc_reward g)"
  have k: "unat ?k = unat h div unat (rp_halving_interval (gc_reward g))" by (simp add: unat_div)
  show ?thesis
  proof (cases "?k \<ge> 64")
    case True
    then have "64 \<le> unat ?k" by (simp add: word_le_nat_alt)
    then have "(2::nat) ^ 64 \<le> 2 ^ unat ?k" by (rule power_increasing) simp
    moreover have "unat ?A < 2 ^ 64" using unsigned_less [of ?A] by simp
    ultimately have "unat ?A div 2 ^ unat ?k = 0" by simp
    then show ?thesis using True assms by (simp add: emission_def Let_def k [symmetric])
  next
    case False
    then show ?thesis using assms by (simp add: emission_def Let_def unat_drop_u64 k)
  qed
qed

lemma halving_sum: "(\<Sum>k<m. A div 2 ^ k) + 2 * (A div 2 ^ m) \<le> 2 * (A :: nat)"
proof (induction m)
  case (Suc m)
  have "A div 2 ^ Suc m = A div 2 ^ m div 2" by (simp only: power_Suc2 div_mult2_eq)
  then have "2 * (A div 2 ^ Suc m) \<le> A div 2 ^ m" by simp
  with Suc show ?case by simp
qed simp

lemma epoch_sum: "0 < I \<Longrightarrow> (\<Sum>h<m * I. f (h div I)) = I * (\<Sum>k<m. f k)" for f :: "nat \<Rightarrow> nat"
proof -
  assume I: "0 < I"
  have "(\<Sum>h<m * I. f (h div I)) = (\<Sum>k<m. \<Sum>h = k * I..<k * I + I. f (h div I))"
    by (rule sum.nat_group [symmetric])
  also have "\<dots> = (\<Sum>k<m. I * f k)"
  proof (rule sum.cong [OF refl])
    fix k
    have "(\<Sum>h = k * I..<k * I + I. f (h div I)) = (\<Sum>h = k * I..<k * I + I. f k)"
    proof (rule sum.cong [OF refl])
      fix h
      assume "h \<in> {k * I..<k * I + I}"
      then have "h div I = k" using I by (intro div_nat_eqI) (auto simp: algebra_simps)
      then show "f (h div I) = f k" by simp
    qed
    then show "(\<Sum>h = k * I..<k * I + I. f (h div I)) = I * f k" by simp
  qed
  also have "\<dots> = I * (\<Sum>k<m. f k)" by (simp add: sum_distrib_left)
  finally show ?thesis .
qed

text \<open>
  Property C34.  Emission: the reward halves (rounding down) after every interval of the genesis schedule, and all the
  rewards of the first \<open>n\<close> heights together are at most twice the initial reward for each block
  of one interval, however large \<open>n\<close> is.
\<close>

theorem emission_bounded:
  assumes "rp_halving_interval (gc_reward g) \<noteq> 0" and "n \<le> 2 ^ 64"
  shows "unat (emission g h) = unat (rp_initial_lamports (gc_reward g))
      div 2 ^ (unat h div unat (rp_halving_interval (gc_reward g)))
    \<and> (\<Sum>i<n. unat (emission g (word_of_nat i)))
      \<le> 2 * unat (rp_initial_lamports (gc_reward g)) * unat (rp_halving_interval (gc_reward g))"
proof
  let ?A = "unat (rp_initial_lamports (gc_reward g))" and ?I = "unat (rp_halving_interval (gc_reward g))"
  show "unat (emission g h) = ?A div 2 ^ (unat h div ?I)" by (rule emission_value [OF assms(1)])
  have I: "0 < ?I" using assms(1) by (simp add: unat_gt_0)
  have "(\<Sum>i<n. unat (emission g (word_of_nat i))) = (\<Sum>i<n. ?A div 2 ^ (i div ?I))"
  proof (rule sum.cong [OF refl])
    fix i
    assume "i \<in> {..<n}"
    then have "unat (word_of_nat i :: u64) = i" using assms(2) by (simp add: unsigned_of_nat take_bit_nat_eq_self)
    then show "unat (emission g (word_of_nat i)) = ?A div 2 ^ (i div ?I)" by (simp add: emission_value [OF assms(1)])
  qed
  also have "\<dots> \<le> (\<Sum>i<n * ?I. ?A div 2 ^ (i div ?I))"
    using I by (intro sum_mono2) (auto intro: order.strict_trans2)
  also have "\<dots> = ?I * (\<Sum>k<n. ?A div 2 ^ k)" by (rule epoch_sum [OF I])
  also have "\<dots> \<le> ?I * (2 * ?A)" using halving_sum [of ?A n] by (intro mult_le_mono2) linarith
  finally show "(\<Sum>i<n. unat (emission g (word_of_nat i))) \<le> 2 * ?A * ?I" by (simp add: ac_simps)
qed

theorem emission_bounded_witness:
  "(\<Sum>i<100000000. unat (emission genesis_devnet (word_of_nat i))) \<le> 4200000000000000"
proof -
  have "rp_halving_interval (gc_reward genesis_devnet) \<noteq> 0" by (simp add: genesis_devnet_def)
  from emission_bounded [OF this, of 100000000 0] show ?thesis by (simp add: genesis_devnet_def)
qed

subsection \<open>The header that is mined\<close>

lemma grind_fields:
  assumes "grind h pow m = (h', r)"
  shows "bh_prev_hash h' = bh_prev_hash h \<and> bh_height h' = bh_height h \<and> bh_miner h' = bh_miner h
    \<and> bh_state_root h' = bh_state_root h"
  by (rule grind_cases [of m pow h]) (use assms in \<open>auto simp: with_nonce_def\<close>)

lemma grind_until_fields:
  assumes "grind_until pow batch clk n h = Some h'"
  shows "bh_prev_hash h' = bh_prev_hash h \<and> bh_height h' = bh_height h \<and> bh_miner h' = bh_miner h
    \<and> bh_state_root h' = bh_state_root h"
  using assms
proof (induction rule: grind_until.raw_induct [rotated, consumes 1])
  case (1 f pow batch clk n h h')
  obtain h1 r where g: "grind h pow batch = (h1, r)" by fastforce
  show ?case
  proof (cases r)
    case (Found k)
    then show ?thesis using 1(2) g grind_fields [OF g] by simp
  next
    case (Exhausted k)
    then have "f pow batch clk (n + 1) (h1\<lparr>bh_timestamp := clk n\<rparr>) = Some h'" using 1(2) g by simp
    from 1(1) [OF this] show ?thesis using grind_fields [OF g] by simp
  qed
qed

lemma mine_header_fields:
  assumes "mine_header ne clk txs root n = Some h"
  shows "bh_prev_hash h = cs_tip (nd_chain n) \<and> bh_miner h = nd_miner n \<and> bh_state_root h = root
    \<and> chain_height (nd_chain n) = Some (bh_height h - 1)"
proof -
  obtain c where c: "build_candidate (be_hash (ne_bank ne)) (nd_chain n) (nd_miner n) (clk 0) txs = Some c"
    "grind_until (nd_pow n) (batch_of (nd_pow n)) clk 1 (c\<lparr>bh_state_root := root\<rparr>) = Some h"
    using assms by (auto simp: mine_header_def bind_eq_Some_conv)
  then show ?thesis using grind_until_fields [OF c(2)]
    by (auto simp: build_candidate_def chain_height_def split: option.splits)
qed

lemma add_header_height:
  assumes "add_header H ser s h = Inr (st, s')"
  shows "chain_height s' \<noteq> None"
  using assms
  by (auto simp: add_header_def Let_def chain_height_def tip_header_def split: option.splits if_splits)

subsection \<open>Runs\<close>

text \<open>
  Runs of one node from an empty log: it mines, applies peer blocks (either to no effect, or so
  that the block is logged), and its RPC side changes the shared state at any time.
\<close>

inductive node_runs ::
    "('db, 'a, 'p, 'tx, 'san, 'chk, 's) node_env \<Rightarrow> mine_options \<Rightarrow> ('db, 'p, 'tx, 's) node \<Rightarrow> bool"
  for ne mo where
  node_start: "prepare ne (mo\<lparr>mo_log := []\<rparr>) = Some (Inr n) \<Longrightarrow> node_runs ne mo n"
| node_mine: "node_runs ne mo n \<Longrightarrow> mine_one ne clk n = Some (Inr (), n') \<Longrightarrow> node_runs ne mo n'"
| node_peer: "node_runs ne mo n \<Longrightarrow> apply_peer_block ne bs n = Some (Inr (), n') \<Longrightarrow>
    n' = n \<or> nd_log n' \<noteq> nd_log n \<Longrightarrow> node_runs ne mo n'"
| node_shared: "node_runs ne mo n \<Longrightarrow> node_runs ne mo (n\<lparr>nd_shared := sh\<rparr>)"

text \<open>What is relied on of the encodings: they read back.\<close>

definition node_codec :: "('db, 'a, 'p, 'tx, 'san, 'chk, 's) node_env \<Rightarrow> bool" where
  "node_codec ne \<longleftrightarrow> (\<forall>b bs. ne_ser_block ne b = Inr bs \<longrightarrow> ne_de_block ne bs = Inr b)
     \<and> (\<forall>tx bs. ne_ser_tx ne tx = Inr bs \<longrightarrow> ne_de_tx ne bs = Inr tx)"

text \<open>The log replays to the chain and the bank.\<close>

definition node_logged ::
    "('db, 'a, 'p, 'tx, 'san, 'chk, 's) node_env \<Rightarrow> mine_options \<Rightarrow> ('db, 'p, 'tx, 's) node \<Rightarrow> bool" where
  "node_logged ne mo n \<longleftrightarrow> (\<exists>g chain bank ps. node_fresh ne mo = Some (Inr (g, chain, bank)) \<and> nd_log n = log_of ps
     \<and> (\<forall>p \<in> set ps. length p < 2 ^ 32)
     \<and> rfor ps (replay_block_of ne (mo_genesis mo)) (chain, bank) = Some (Inr (), (nd_chain n, nd_bank n)))
     \<and> nd_genesis n = mo_genesis mo \<and> chain_height (nd_chain n) \<noteq> None"

lemma node_fresh_log: "node_fresh ne (mo\<lparr>mo_log := L\<rparr>) = node_fresh ne mo"
proof -
  have "mo_pow (mo\<lparr>mo_log := L\<rparr>) = mo_pow mo" "mo_genesis (mo\<lparr>mo_log := L\<rparr>) = mo_genesis mo" by simp_all
  then show ?thesis by (simp only: node_fresh_def)
qed

lemma ser_txs_decode: "node_codec ne \<Longrightarrow> ser_txs (ne_ser_tx ne) txs = Some bss \<Longrightarrow> node_decode_txs ne bss = Inr txs"
proof (induction txs arbitrary: bss)
  case (Cons tx txs)
  then obtain bs rest where "ne_ser_tx ne tx = Inr bs" "ser_txs (ne_ser_tx ne) txs = Some rest" "bss = bs # rest"
    by (auto split: sum.splits)
  with Cons show ?case by (simp add: node_codec_def map_err_def)
qed simp

text \<open>One more record, replayed on the state of the node.\<close>

lemma node_logged_step:
  assumes n: "node_logged ne mo n" and size: "length bs < 2 ^ 32"
    and step: "replay_block_of ne (mo_genesis mo) bs (nd_chain n, nd_bank n) = Some (Inr (), (nd_chain n', nd_bank n'))"
    and n': "nd_log n' = nd_log n @ log_record bs" "nd_genesis n' = nd_genesis n" "chain_height (nd_chain n') \<noteq> None"
  shows "node_logged ne mo n'"
proof -
  obtain g chain bank ps where ps: "node_fresh ne mo = Some (Inr (g, chain, bank))" "nd_log n = log_of ps"
    "\<forall>p \<in> set ps. length p < 2 ^ 32"
    "rfor ps (replay_block_of ne (mo_genesis mo)) (chain, bank) = Some (Inr (), (nd_chain n, nd_bank n))"
    using n by (auto simp: node_logged_def)
  have "rfor (ps @ [bs]) (replay_block_of ne (mo_genesis mo)) (chain, bank) = Some (Inr (), (nd_chain n', nd_bank n'))"
    using ps(4) step by (simp add: rfor_append rbind_def)
  moreover have "nd_log n' = log_of (ps @ [bs])" using ps(2) n'(1) by (simp add: log_of_def)
  moreover have "nd_genesis n = mo_genesis mo" using n by (simp add: node_logged_def)
  ultimately show ?thesis using ps(1,3) size n'(2,3) unfolding node_logged_def
    by (intro conjI exI [of _ g] exI [of _ chain] exI [of _ bank] exI [of _ "ps @ [bs]"]) auto
qed

lemma append_log_run:
  "append_log bs n = Some (Inr (), n') \<longleftrightarrow> length bs < 2 ^ 32 \<and> n' = n\<lparr>nd_log := nd_log n @ log_record bs\<rparr>"
  by (auto simp: append_log_def rwrite_def log_append_def map_err_def)

lemma on_bank_run:
  "on_bank m n = Some (Inr x, n') \<longleftrightarrow> (\<exists>b. m (nd_bank n) = Some (Inr x, b) \<and> n' = see_bank b n)"
  by (auto simp: on_bank_def split: option.splits sum.splits)

lemma see_bank_sel [simp]:
  "nd_chain (see_bank b n) = nd_chain n" "nd_log (see_bank b n) = nd_log n" "nd_bank (see_bank b n) = b"
  "nd_genesis (see_bank b n) = nd_genesis n" "nd_miner (see_bank b n) = nd_miner n"
  by (simp_all add: see_bank_def)

text \<open>A successful mining step, spelled out.\<close>

lemma mine_one_run:
  assumes "mine_one ne clk n = Some (Inr (), n')"
  obtains txs serialized ex bank header bs st chain sh where
    "ser_txs (ne_ser_tx ne) txs = Some serialized"
    "execute_block (ne_bank ne) txs (bh_prev_hash header) (bh_miner header) (emission (nd_genesis n) (bh_height header))
       (nd_bank n) = Some (Inr ex, bank)"
    "bh_state_root header = bx_state_root ex" "bh_prev_hash header = cs_tip (nd_chain n)"
    "ne_ser_block ne (block_new header serialized) = Inr bs" "length bs < 2 ^ 32"
    "add_header (be_hash (ne_bank ne)) (ne_ser_header ne) (nd_chain n) header = Inr (st, chain)"
    "n' = n\<lparr>nd_chain := chain, nd_log := nd_log n @ log_record bs, nd_bank := bank, nd_shared := sh\<rparr>"
proof -
  obtain h0 where h0: "chain_height (nd_chain n) = Some h0"
    using assms by (auto simp: mine_one_def bind_eq_Some_conv)
  obtain txs sh where drain: "drain_mempool (ne_first_sig ne) (nd_shared n) = (txs, sh)" by fastforce
  obtain serialized where ser: "ser_txs (ne_ser_tx ne) txs = Some serialized"
    using assms h0 drain by (auto simp: mine_one_def bind_eq_Some_conv Let_def)
  define n0 where "n0 = n\<lparr>nd_shared := sh\<rparr>"
  define rest where "rest ex n1 =
     Option.bind (mine_header ne clk serialized (bx_state_root ex) n1) (\<lambda>header.
     case ne_ser_block ne (block_new header serialized) of
       Inl _ \<Rightarrow> None
     | Inr block_bytes \<Rightarrow>
         rbind (append_log block_bytes) (\<lambda>_ n.
           case add_header (be_hash (ne_bank ne)) (ne_ser_header ne) (nd_chain n) header of
             Inl ChainPanic \<Rightarrow> None
           | Inl e \<Rightarrow> rfail (SelfMinedRejected e) n
           | Inr (_, chain) \<Rightarrow>
               rret () (gossip ne (NewBlock block_bytes) (publish ne txs ex (h0 + 1) (n\<lparr>nd_chain := chain\<rparr>)))) n1)"
    for ex n1
  have "rbind (on_bank (execute_block (ne_bank ne) txs (cs_tip (nd_chain n)) (nd_miner n) (emission (nd_genesis n) (h0 + 1))))
      rest n0 = Some (Inr (), n')"
    using assms h0 drain ser unfolding mine_one_def n0_def rest_def by (simp add: Let_def)
  then obtain ex n1 where b: "on_bank (execute_block (ne_bank ne) txs (cs_tip (nd_chain n)) (nd_miner n)
      (emission (nd_genesis n) (h0 + 1))) n0 = Some (Inr ex, n1)" and r: "rest ex n1 = Some (Inr (), n')"
    by (rule rbind_Inr_E)
  obtain bank where bank: "execute_block (ne_bank ne) txs (cs_tip (nd_chain n)) (nd_miner n)
      (emission (nd_genesis n) (h0 + 1)) (nd_bank n) = Some (Inr ex, bank)" "n1 = see_bank bank n0"
    using b by (auto simp: on_bank_run n0_def)
  obtain header where header: "mine_header ne clk serialized (bx_state_root ex) n1 = Some header"
    using r by (auto simp: rest_def bind_eq_Some_conv)
  obtain bs where bs: "ne_ser_block ne (block_new header serialized) = Inr bs"
    using r header by (cases "ne_ser_block ne (block_new header serialized)") (simp_all add: rest_def)
  have "rbind (append_log bs) (\<lambda>_ n.
           case add_header (be_hash (ne_bank ne)) (ne_ser_header ne) (nd_chain n) header of
             Inl ChainPanic \<Rightarrow> None
           | Inl e \<Rightarrow> rfail (SelfMinedRejected e) n
           | Inr (_, chain) \<Rightarrow>
               rret () (gossip ne (NewBlock bs) (publish ne txs ex (h0 + 1) (n\<lparr>nd_chain := chain\<rparr>)))) n1 = Some (Inr (), n')"
    using r header bs by (simp add: rest_def)
  then obtain u n2 where app: "append_log bs n1 = Some (Inr u, n2)" and
    add: "(case add_header (be_hash (ne_bank ne)) (ne_ser_header ne) (nd_chain n2) header of
             Inl ChainPanic \<Rightarrow> None
           | Inl e \<Rightarrow> rfail (SelfMinedRejected e) n2
           | Inr (_, chain) \<Rightarrow>
               rret () (gossip ne (NewBlock bs) (publish ne txs ex (h0 + 1) (n2\<lparr>nd_chain := chain\<rparr>)))) = Some (Inr (), n')"
    by (rule rbind_Inr_E)
  have n2: "length bs < 2 ^ 32" "n2 = n1\<lparr>nd_log := nd_log n @ log_record bs\<rparr>"
    using app bank(2) by (simp_all add: append_log_run n0_def)
  have chain2: "nd_chain n2 = nd_chain n" using n2(2) bank(2) by (simp add: n0_def)
  obtain st chain where chain: "add_header (be_hash (ne_bank ne)) (ne_ser_header ne) (nd_chain n) header = Inr (st, chain)"
    "n' = gossip ne (NewBlock bs) (publish ne txs ex (h0 + 1) (n2\<lparr>nd_chain := chain\<rparr>))"
    using add chain2 by (auto split: sum.splits chain_error.splits)
  have fields: "bh_prev_hash header = cs_tip (nd_chain n)" "bh_miner header = nd_miner n"
    "bh_state_root header = bx_state_root ex" "bh_height header = h0 + 1"
    using mine_header_fields [OF header] bank(2) h0 by (simp_all add: n0_def algebra_simps)
  have "\<exists>sh. n' = n\<lparr>nd_chain := chain, nd_log := nd_log n @ log_record bs, nd_bank := bank, nd_shared := sh\<rparr>"
    unfolding chain(2) n2(2) bank(2) n0_def see_bank_def publish_def gossip_def by (cases n) simp
  then obtain sh' where n': "n' = n\<lparr>nd_chain := chain, nd_log := nd_log n @ log_record bs, nd_bank := bank, nd_shared := sh'\<rparr>" ..
  show thesis
    by (rule that [OF ser _ fields(3,1) bs n2(1) chain(1) n']) (use bank(1) fields in simp)
qed

lemma replay_block_run:
  assumes "ne_de_block ne bs = Inr b" and "node_decode_txs ne (blk_transactions b) = Inr txs"
    and "add_ignoring ne chain (blk_header b) = Some chain'"
    and "execute_block (ne_bank ne) txs (bh_prev_hash (blk_header b)) (bh_miner (blk_header b))
      (emission g (bh_height (blk_header b))) bank = Some (Inr ex, bank')"
    and "bx_state_root ex = bh_state_root (blk_header b)"
  shows "replay_block_of ne g bs (chain, bank) = Some (Inr (), (chain', bank'))"
  using assms by (simp add: replay_block_of_def map_err_def Let_def)

lemma mine_logged:
  assumes codec: "node_codec ne" and n: "node_logged ne mo n" and mine: "mine_one ne clk n = Some (Inr (), n')"
  shows "node_logged ne mo n'"
  using mine
proof (rule mine_one_run)
  fix txs serialized ex bank header bs st chain sh
  assume ser: "ser_txs (ne_ser_tx ne) txs = Some serialized"
    and exec: "execute_block (ne_bank ne) txs (bh_prev_hash header) (bh_miner header)
      (emission (nd_genesis n) (bh_height header)) (nd_bank n) = Some (Inr ex, bank)"
    and root: "bh_state_root header = bx_state_root ex"
    and bs: "ne_ser_block ne (block_new header serialized) = Inr bs" "length bs < 2 ^ 32"
    and add: "add_header (be_hash (ne_bank ne)) (ne_ser_header ne) (nd_chain n) header = Inr (st, chain)"
    and n': "n' = n\<lparr>nd_chain := chain, nd_log := nd_log n @ log_record bs, nd_bank := bank, nd_shared := sh\<rparr>"
  have de: "ne_de_block ne bs = Inr (block_new header serialized)" using codec bs(1) by (simp add: node_codec_def)
  have g: "nd_genesis n = mo_genesis mo" using n by (simp add: node_logged_def)
  have "replay_block_of ne (mo_genesis mo) bs (nd_chain n, nd_bank n) = Some (Inr (), (chain, bank))"
    using exec root add g ser_txs_decode [OF codec ser]
    by (intro replay_block_run [OF de, where txs = txs and ex = ex]) (simp_all add: block_new_def add_ignoring_def)
  then show ?thesis using add_header_height [OF add] n'
    by (intro node_logged_step [OF n bs(2)]) simp_all
qed

text \<open>An applied peer block.\<close>

lemma peer_block_run:
  assumes "apply_peer_block ne bs n = Some (Inr (), n')"
  shows "n' = n \<or> (\<exists>b txs st chain ex bank sh.
      ne_de_block ne bs = Inr b \<and> node_decode_txs ne (blk_transactions b) = Inr txs
      \<and> add_header (be_hash (ne_bank ne)) (ne_ser_header ne) (nd_chain n) (blk_header b) = Inr (st, chain)
      \<and> execute_block (ne_bank ne) txs (bh_prev_hash (blk_header b)) (bh_miner (blk_header b))
          (emission (nd_genesis n) (bh_height (blk_header b))) (nd_bank n) = Some (Inr ex, bank)
      \<and> (if bx_state_root ex = bh_state_root (blk_header b)
          then length bs < 2 ^ 32 \<and> n' = n\<lparr>nd_chain := chain, nd_log := nd_log n @ log_record bs, nd_bank := bank, nd_shared := sh\<rparr>
          else n' = see_bank bank (n\<lparr>nd_chain := chain\<rparr>)))"
proof (cases "ne_de_block ne bs")
  case (Inr b)
  show ?thesis
  proof (cases "chain_contains (nd_chain n) (linear_id ne (blk_header b))")
    case True
    then show ?thesis using assms Inr by (simp add: apply_peer_block_def Let_def)
  next
    case new: False
    then obtain txs where txs: "node_decode_txs ne (blk_transactions b) = Inr txs"
      using assms Inr by (cases "node_decode_txs ne (blk_transactions b)") (simp_all add: apply_peer_block_def Let_def)
    show ?thesis
    proof (cases "add_header (be_hash (ne_bank ne)) (ne_ser_header ne) (nd_chain n) (blk_header b)")
      case (Inl e)
      then show ?thesis using assms Inr new txs
        by (cases e) (simp_all add: apply_peer_block_def Let_def)
    next
      case add: (Inr p)
      obtain st chain where p: "p = (st, chain)" by fastforce
      have "rbind (on_bank (execute_block (ne_bank ne) txs (bh_prev_hash (blk_header b)) (bh_miner (blk_header b))
          (emission (nd_genesis n) (bh_height (blk_header b))))) (\<lambda>ex n.
            if bx_state_root ex \<noteq> bh_state_root (blk_header b) then rret () n
            else rbind (append_log bs) (\<lambda>_ n. rret () (publish ne txs ex (bh_height (blk_header b)) n)) n)
          (n\<lparr>nd_chain := chain\<rparr>) = Some (Inr (), n')"
        using assms Inr new txs add p by (simp add: apply_peer_block_def Let_def)
      then obtain ex n1 where e: "on_bank (execute_block (ne_bank ne) txs (bh_prev_hash (blk_header b)) (bh_miner (blk_header b))
          (emission (nd_genesis n) (bh_height (blk_header b)))) (n\<lparr>nd_chain := chain\<rparr>) = Some (Inr ex, n1)"
        and rest: "(if bx_state_root ex \<noteq> bh_state_root (blk_header b) then rret () n1
            else rbind (append_log bs) (\<lambda>_ n. rret () (publish ne txs ex (bh_height (blk_header b)) n)) n1) = Some (Inr (), n')"
        by (rule rbind_Inr_E)
      obtain bank where bank: "execute_block (ne_bank ne) txs (bh_prev_hash (blk_header b)) (bh_miner (blk_header b))
          (emission (nd_genesis n) (bh_height (blk_header b))) (nd_bank n) = Some (Inr ex, bank)"
        "n1 = see_bank bank (n\<lparr>nd_chain := chain\<rparr>)"
        using e by (auto simp: on_bank_run)
      have "\<exists>sh. if bx_state_root ex = bh_state_root (blk_header b)
          then length bs < 2 ^ 32 \<and> n' = n\<lparr>nd_chain := chain, nd_log := nd_log n @ log_record bs, nd_bank := bank, nd_shared := sh\<rparr>
          else n' = see_bank bank (n\<lparr>nd_chain := chain\<rparr>)"
      proof (cases "bx_state_root ex = bh_state_root (blk_header b)")
        case True
        then have "rbind (append_log bs) (\<lambda>_ n. rret () (publish ne txs ex (bh_height (blk_header b)) n)) n1 = Some (Inr (), n')"
          using rest by simp
        then obtain u n2 where app: "append_log bs n1 = Some (Inr u, n2)" and n': "n' = publish ne txs ex (bh_height (blk_header b)) n2"
          by (rule rbind_Inr_E) simp
        have n2: "length bs < 2 ^ 32" "n2 = n1\<lparr>nd_log := nd_log n @ log_record bs\<rparr>"
          using app bank(2) by (simp_all add: append_log_run)
        have "\<exists>sh. n' = n\<lparr>nd_chain := chain, nd_log := nd_log n @ log_record bs, nd_bank := bank, nd_shared := sh\<rparr>"
          unfolding n' n2(2) bank(2) see_bank_def publish_def by (cases n) simp
        then show ?thesis using True n2(1) by simp
      next
        case False
        then show ?thesis using rest bank(2) by simp
      qed
      then show ?thesis using Inr txs add p bank(1) by blast
    qed
  qed
qed (use assms in \<open>simp add: apply_peer_block_def\<close>)

lemma peer_logged:
  assumes n: "node_logged ne mo n" and run: "apply_peer_block ne bs n = Some (Inr (), n')"
    and kept: "n' = n \<or> nd_log n' \<noteq> nd_log n"
  shows "node_logged ne mo n'"
proof (cases "n' = n")
  case False
  then obtain b txs st chain ex bank sh where de: "ne_de_block ne bs = Inr b"
    and txs: "node_decode_txs ne (blk_transactions b) = Inr txs"
    and add: "add_header (be_hash (ne_bank ne)) (ne_ser_header ne) (nd_chain n) (blk_header b) = Inr (st, chain)"
    and exec: "execute_block (ne_bank ne) txs (bh_prev_hash (blk_header b)) (bh_miner (blk_header b))
          (emission (nd_genesis n) (bh_height (blk_header b))) (nd_bank n) = Some (Inr ex, bank)"
    and out: "if bx_state_root ex = bh_state_root (blk_header b)
          then length bs < 2 ^ 32 \<and> n' = n\<lparr>nd_chain := chain, nd_log := nd_log n @ log_record bs, nd_bank := bank, nd_shared := sh\<rparr>
          else n' = see_bank bank (n\<lparr>nd_chain := chain\<rparr>)"
    using peer_block_run [OF run] by blast
  have root: "bx_state_root ex = bh_state_root (blk_header b)"
  proof (rule ccontr)
    assume "\<not> ?thesis"
    then have "nd_log n' = nd_log n" using out by simp
    then show False using kept False by simp
  qed
  then have n': "length bs < 2 ^ 32"
    "n' = n\<lparr>nd_chain := chain, nd_log := nd_log n @ log_record bs, nd_bank := bank, nd_shared := sh\<rparr>"
    using out by simp_all
  have g: "nd_genesis n = mo_genesis mo" using n by (simp add: node_logged_def)
  have "replay_block_of ne (mo_genesis mo) bs (nd_chain n, nd_bank n) = Some (Inr (), (chain, bank))"
    using exec root add g by (intro replay_block_run [OF de txs, where ex = ex]) (simp_all add: add_ignoring_def)
  then show ?thesis using add_header_height [OF add] n'(2)
    by (intro node_logged_step [OF n n'(1)]) simp_all
qed (use n in simp)

lemma start_logged:
  assumes "prepare ne (mo\<lparr>mo_log := []\<rparr>) = Some (Inr n)"
  shows "node_logged ne mo n"
proof -
  obtain r where r: "node_fresh ne mo = Some r" using assms by (auto simp: prepare_def node_fresh_log bind_eq_Some_conv)
  obtain g chain bank where r': "r = Inr (g, chain, bank)"
    using assms r by (cases r) (auto simp: prepare_def node_fresh_log)
  obtain h where h: "chain_height chain = Some h" and n: "n = \<lparr>nd_chain = chain, nd_log = [], nd_bank = bank,
      nd_genesis = mo_genesis mo, nd_miner = mo_miner mo, nd_blocks = mo_blocks mo, nd_mine = mo_mine mo, nd_pow = mo_pow mo,
      nd_shared = shared_new (bk_db bank) g h (cs_tip chain) (mo_faucet mo)\<rparr>"
    using assms r r' log_read_short [of "[]"] by (auto simp: prepare_def node_fresh_log)
  have fresh: "node_fresh ne mo = Some (Inr (g, chain, bank))" using r r' by simp
  show ?thesis unfolding node_logged_def
    by (intro conjI exI [of _ g] exI [of _ chain] exI [of _ bank] exI [of _ "[]"]) (simp_all add: log_of_def fresh n h)
qed

lemma runs_node_logged:
  assumes "node_codec ne" and "node_runs ne mo n"
  shows "node_logged ne mo n"
  using assms(2)
proof induction
  case (node_start n)
  then show ?case by (rule start_logged)
next
  case (node_mine n clk n')
  show ?case by (rule mine_logged [OF assms(1) node_mine.IH node_mine(2)])
next
  case (node_peer n bs n')
  show ?case by (rule peer_logged [OF node_peer.IH node_peer(2,3)])
next
  case (node_shared n sh)
  then show ?case by (simp add: node_logged_def)
qed

lemma prepare_logged:
  fixes ne :: "('db, 'a, 'p, 'tx, 'san, 'chk, 's) node_env" and n :: "('db, 'p, 'tx, 's) node"
  assumes "node_logged ne mo n"
  obtains n' where "prepare ne (mo\<lparr>mo_log := nd_log n\<rparr>) = Some (Inr n')" "nd_chain n' = nd_chain n"
    "nd_bank n' = nd_bank n" "nd_log n' = nd_log n" "nd_genesis n' = nd_genesis n"
    "chain_height (nd_chain n) = Some (sh_slot (nd_shared n'))"
    "sh_latest_blockhash (nd_shared n') = cs_tip (nd_chain n)"
proof -
  obtain g chain bank ps where ps: "node_fresh ne mo = Some (Inr (g, chain, bank))" "nd_log n = log_of ps"
    "\<forall>p \<in> set ps. length p < 2 ^ 32"
    "rfor ps (replay_block_of ne (mo_genesis mo)) (chain, bank) = Some (Inr (), (nd_chain n, nd_bank n))"
    using assms by (auto simp: node_logged_def)
  obtain h where h: "chain_height (nd_chain n) = Some h" using assms by (auto simp: node_logged_def)
  have g: "nd_genesis n = mo_genesis mo" using assms by (simp add: node_logged_def)
  define nback :: "('db, 'p, 'tx, 's) node" where "nback = \<lparr>nd_chain = nd_chain n, nd_log = nd_log n, nd_bank = nd_bank n, nd_genesis = mo_genesis mo,
      nd_miner = mo_miner mo, nd_blocks = mo_blocks mo, nd_mine = mo_mine mo, nd_pow = mo_pow mo,
      nd_shared = shared_new (bk_db (nd_bank n)) g h (cs_tip (nd_chain n)) (mo_faucet mo)\<rparr>"
  have "log_read_all (nd_log n) = Inr ps"
    using log_read_of [of ps "[]"] ps(2,3) log_read_short [of "[]"] by simp
  then have "prepare ne (mo\<lparr>mo_log := nd_log n\<rparr>) = Some (Inr nback)"
    using ps(1,4) h by (simp add: prepare_def node_fresh_log nback_def)
  then show thesis by (rule that) (simp_all add: nback_def shared_new_def h g)
qed

lemma mismatch_run:
  assumes "apply_peer_block ne bs n = Some (Inr (), n')" and "nd_log n' = nd_log n" and "n' \<noteq> n"
  obtains b txs st ex where "ne_de_block ne bs = Inr b" "node_decode_txs ne (blk_transactions b) = Inr txs"
    "add_header (be_hash (ne_bank ne)) (ne_ser_header ne) (nd_chain n) (blk_header b) = Inr (st, nd_chain n')"
    "execute_block (ne_bank ne) txs (bh_prev_hash (blk_header b)) (bh_miner (blk_header b))
          (emission (nd_genesis n) (bh_height (blk_header b))) (nd_bank n) = Some (Inr ex, nd_bank n')"
    "bx_state_root ex \<noteq> bh_state_root (blk_header b)"
proof -
  obtain b txs st chain ex bank sh where de: "ne_de_block ne bs = Inr b"
    and txs: "node_decode_txs ne (blk_transactions b) = Inr txs"
    and add: "add_header (be_hash (ne_bank ne)) (ne_ser_header ne) (nd_chain n) (blk_header b) = Inr (st, chain)"
    and exec: "execute_block (ne_bank ne) txs (bh_prev_hash (blk_header b)) (bh_miner (blk_header b))
          (emission (nd_genesis n) (bh_height (blk_header b))) (nd_bank n) = Some (Inr ex, bank)"
    and out: "if bx_state_root ex = bh_state_root (blk_header b)
          then length bs < 2 ^ 32 \<and> n' = n\<lparr>nd_chain := chain, nd_log := nd_log n @ log_record bs, nd_bank := bank, nd_shared := sh\<rparr>
          else n' = see_bank bank (n\<lparr>nd_chain := chain\<rparr>)"
    using peer_block_run [OF assms(1)] assms(3) by blast
  have root: "bx_state_root ex \<noteq> bh_state_root (blk_header b)"
  proof
    assume "bx_state_root ex = bh_state_root (blk_header b)"
    then have "nd_log n' = nd_log n @ log_record bs" using out by simp
    then show False using assms(2) by (simp add: log_record_def be_bytes_numeral)
  qed
  then have n': "nd_chain n' = chain" "nd_bank n' = bank" using out by simp_all
  show thesis by (rule that [OF de txs _ _ root]) (use add exec n' in simp_all)
qed

lemma add_header_new:
  assumes "add_header H ser s h = Inr (st, s')"
  shows "\<not> chain_contains s (header_id H ser h)" "chain_contains s' (header_id H ser h)"
  using assms by (auto simp: add_header_def Let_def chain_contains_def split: option.splits if_splits)

end
