(* ===== verification/NodeProps.thy ===== *)
theory NodeProps
  imports NodeRuns DagDemo
begin

text \<open>
  What a restart of the linear node gives back, with a node on toy encodings as witness.
\<close>

subsection \<open>A node\<close>

text \<open>Its blocks carry no transaction; a block of height 1 is encoded by its state root.\<close>

definition demo_mine_options :: mine_options where
  "demo_mine_options = \<lparr>mo_log = [], mo_genesis = genesis_devnet, mo_miner = 7, mo_blocks = 0, mo_mine = True,
     mo_faucet = None, mo_pow = \<lparr>pa_name = ''blake3'', pa_pow_hash = (\<lambda>_. 0), pa_verify = (\<lambda>_. True)\<rparr>\<rparr>"

definition demo_peer :: "bytes32 \<Rightarrow> block" where
  "demo_peer root = block_new \<lparr>bh_version = HEADER_VERSION, bh_prev_hash = 0, bh_height = 1, bh_timestamp = 1750000010,
     bh_tx_merkle_root = 0, bh_state_root = root, bh_target = - 1, bh_nonce = 0, bh_miner = 9\<rparr> []"

definition demo_node_env :: "(demo_db, byte, unit, byte, byte, unit, bytes) node_env" where
  "demo_node_env = \<lparr>ne_bank = demo_bank\<lparr>be_hash := demo_hash\<rparr>, ne_ser_header = demo_ser, ne_ser_cfg = (\<lambda>_. []),
     ne_hexdec = (\<lambda>_. Inr (bytes_of (- 1))), ne_parse_key = (\<lambda>_. Inl ''bad key''),
     ne_ser_tx = (\<lambda>t. Inr [t]), ne_de_tx = (\<lambda>bs. if length bs = 1 then Inr (bs ! 0) else Inl ''eof''),
     ne_ser_block = (\<lambda>b. if b = demo_peer (bh_state_root (blk_header b)) then Inr (bytes_of (bh_state_root (blk_header b))) else Inl ''unsupported''),
     ne_de_block = (\<lambda>bs. if length bs = 32 then Inr (demo_peer (array_of bs)) else Inl ''eof''),
     ne_first_sig = (\<lambda>_. None), ne_open_wiped = Inr (Map.empty, Map.empty), ne_codec = demo_codec,
     ne_write = (\<lambda>s bs. (True, s @ bs))\<rparr>"

lemma demo_node_codec: "node_codec demo_node_env"
  by (auto simp: node_codec_def demo_node_env_def split: if_splits)

lemma demo_node_sel:
  "ne_bank demo_node_env = demo_bank\<lparr>be_hash := demo_hash\<rparr>" "be_hash (ne_bank demo_node_env) = demo_hash"
  "ne_ser_header demo_node_env = demo_ser" "ne_open_wiped demo_node_env = Inr (Map.empty, Map.empty)"
  "ne_de_block demo_node_env (bytes_of r) = Inr (demo_peer r)"
  "mo_pow demo_mine_options = \<lparr>pa_name = ''blake3'', pa_pow_hash = (\<lambda>_. 0), pa_verify = (\<lambda>_. True)\<rparr>"
  by (simp_all add: demo_node_env_def demo_mine_options_def)

definition demo_root :: block_header where
  "demo_root = \<lparr>bh_version = HEADER_VERSION, bh_prev_hash = 0, bh_height = 0, bh_timestamp = 1750000000,
     bh_tx_merkle_root = 0, bh_state_root = 0, bh_target = - 1, bh_nonce = 0, bh_miner = 0\<rparr>"

definition demo_linear :: chain_state where
  "demo_linear = \<lparr>cs_blocks = [0 \<mapsto> \<lparr>ce_header = demo_root, ce_cumulative_work = 1\<rparr>], cs_tip = 0, cs_genesis = 0,
     cs_params = \<lparr>dp_target_block_time_secs = 10, dp_window = 90\<rparr>, cs_genesis_target = - 1,
     cs_pow = mo_pow demo_mine_options\<rparr>"

definition demo_linear_bank :: "(demo_db, unit) bank" where
  "demo_linear_bank = the (bank_new (ne_bank demo_node_env) (Map.empty, Map.empty) 0)"

lemma demo_node_fresh: "node_fresh demo_node_env demo_mine_options = Some (Inr (0, demo_linear, demo_linear_bank))"
proof -
  have gh: "genesis_header demo_hash (ne_ser_cfg demo_node_env) (ne_hexdec demo_node_env) genesis_devnet = Inr demo_root"
    by (simp add: genesis_header_def parse_target_def map_err_def genesis_commitment_def demo_hash_def genesis_devnet_def
        demo_node_env_def demo_root_def)
  have chain: "chain_new demo_hash demo_ser demo_root \<lparr>dp_target_block_time_secs = 10, dp_window = 90\<rparr> (mo_pow demo_mine_options)
      = Some demo_linear"
    by (simp add: chain_new_def demo_linear_def is_genesis_def demo_root_def header_id_def demo_hash_def demo_ser_def work_for_max_target)
  have params: "difficulty_params_new (pp_target_block_time_secs (gc_pow genesis_devnet)) (pp_lwma_window (gc_pow genesis_devnet))
      = Some \<lparr>dp_target_block_time_secs = 10, dp_window = 90\<rparr>"
    by (simp add: difficulty_params_new_def genesis_devnet_def)
  have alloc: "load_allocations H rk ao pk mk genesis_devnet db = Inr (\<lparr>gl_created = 0, gl_skipped = 0\<rparr>, db)" for H rk ao pk mk db
    by (simp add: load_allocations_def genesis_devnet_def)
  have bank: "bank_new (ne_bank demo_node_env) (Map.empty, Map.empty) 0 = Some demo_linear_bank"
    by (simp add: demo_linear_bank_def bank_new_def demo_node_sel demo_bank_def demo_svm_def)
  have g: "mo_genesis demo_mine_options = genesis_devnet" by (simp add: demo_mine_options_def)
  have i: "linear_id demo_node_env demo_root = 0"
    by (simp add: linear_id_def demo_node_sel header_id_def demo_hash_def demo_ser_def demo_root_def)
  show ?thesis unfolding node_fresh_def Let_def g demo_node_sel(2) gh
    by (simp add: params chain demo_node_sel(3,4) alloc bank i)
qed

lemma demo_linear_start:
  obtains n where "prepare demo_node_env (demo_mine_options\<lparr>mo_log := []\<rparr>) = Some (Inr n)"
    "nd_chain n = demo_linear" "nd_log n = []" "nd_genesis n = genesis_devnet"
proof -
  have h: "chain_height demo_linear = Some 0" by (simp add: chain_height_def tip_header_def demo_linear_def demo_root_def)
  have g: "mo_genesis demo_mine_options = genesis_devnet" by (simp add: demo_mine_options_def)
  have "\<exists>n. prepare demo_node_env (demo_mine_options\<lparr>mo_log := []\<rparr>) = Some (Inr n) \<and> nd_chain n = demo_linear
      \<and> nd_log n = [] \<and> nd_genesis n = genesis_devnet"
    by (simp add: prepare_def node_fresh_log demo_node_fresh h g log_read_short [of "[]", simplified])
  then show thesis using that by blast
qed

lemma demo_linear_add:
  "\<exists>s'. add_header demo_hash demo_ser demo_linear (blk_header (demo_peer r)) = Inr (ExtendedTip, s')"
proof -
  have "recent_count demo_linear = Suc 90" by (simp add: recent_count_def demo_linear_def)
  moreover have "recent_walk (cs_blocks demo_linear) (Suc 90) 0 = [demo_root]"
    by (simp only: recent_walk.simps) (simp add: demo_linear_def demo_root_def is_genesis_def)
  ultimately have "recent_headers demo_linear 0 (recent_count demo_linear) = Some [demo_root]"
    by (simp add: recent_headers_def capacity_ok_def)
  moreover have "header_id demo_hash demo_ser (blk_header (demo_peer r)) = 1"
    by (simp add: header_id_def demo_hash_def demo_ser_def demo_peer_def block_new_def)
  ultimately show ?thesis
    by (simp add: add_header_def Let_def)
      (simp add: demo_linear_def demo_peer_def block_new_def demo_root_def next_target_def work_for_max_target
        checked_add_def demo_mine_options_def)
qed

lemma demo_linear_execute:
  "\<exists>ex b'. execute_block (ne_bank demo_node_env) [] h m r b = Some (Inr ex, b')"
  by (simp add: execute_block_def credit_def rbind_def rread_def adb_get_def demo_node_sel demo_bank_def mem_rocks_def
      demo_accounts_def storage_def map_err_def db_write_def rwrite_def adb_set_def demo_am_def Let_def split: option.split)

text \<open>Executing the peer block gives a root that does not depend on the one its header claims.\<close>

lemma demo_peer_block:
  assumes "nd_chain n = demo_linear" and "nd_genesis n = genesis_devnet"
  obtains root b' where
    "\<And>r. r \<noteq> root \<Longrightarrow> \<exists>s'. s' \<noteq> demo_linear \<and>
       apply_peer_block demo_node_env (bytes_of r) n = Some (Inr (), see_bank b' (n\<lparr>nd_chain := s'\<rparr>))"
    "\<exists>n'. apply_peer_block demo_node_env (bytes_of root) n = Some (Inr (), n')
       \<and> nd_log n' = nd_log n @ log_record (bytes_of root)"
proof -
  obtain ex b' where ex: "execute_block (ne_bank demo_node_env) [] 0 9 (emission genesis_devnet 1) (nd_bank n) = Some (Inr ex, b')"
    using demo_linear_execute by blast
  have new: "\<not> chain_contains demo_linear (linear_id demo_node_env (blk_header (demo_peer r)))" for r
    by (simp add: chain_contains_def demo_linear_def linear_id_def demo_node_sel header_id_def demo_hash_def demo_ser_def
        demo_peer_def block_new_def)
  have fields: "blk_transactions (demo_peer r) = []" "bh_prev_hash (blk_header (demo_peer r)) = 0"
    "bh_miner (blk_header (demo_peer r)) = 9" "bh_height (blk_header (demo_peer r)) = 1"
    "bh_state_root (blk_header (demo_peer r)) = r" for r
    by (simp_all add: demo_peer_def block_new_def)
  have run: "apply_peer_block demo_node_env (bytes_of r) n = (if bx_state_root ex \<noteq> r
      then Some (Inr (), see_bank b' (n\<lparr>nd_chain := s'\<rparr>))
      else Some (Inr (), publish demo_node_env [] ex 1 ((see_bank b' (n\<lparr>nd_chain := s'\<rparr>))\<lparr>nd_log := nd_log n @ log_record (bytes_of r)\<rparr>)))"
    if "add_header demo_hash demo_ser demo_linear (blk_header (demo_peer r)) = Inr (ExtendedTip, s')" for r s'
    using that ex
    by (simp add: apply_peer_block_def demo_node_sel(2-5) assms new fields Let_def rbind_def on_bank_def append_log_def
        rwrite_def log_append_def map_err_def)
  show thesis
  proof (rule that [of "bx_state_root ex" b'])
    fix r
    assume r: "r \<noteq> bx_state_root ex"
    obtain s' where s': "add_header demo_hash demo_ser demo_linear (blk_header (demo_peer r)) = Inr (ExtendedTip, s')"
      using demo_linear_add by blast
    have "s' \<noteq> demo_linear" using add_header_new [OF s'] by auto
    then show "\<exists>s'. s' \<noteq> demo_linear \<and>
       apply_peer_block demo_node_env (bytes_of r) n = Some (Inr (), see_bank b' (n\<lparr>nd_chain := s'\<rparr>))"
      using run [OF s'] r by auto
  next
    obtain s' where s': "add_header demo_hash demo_ser demo_linear (blk_header (demo_peer (bx_state_root ex))) = Inr (ExtendedTip, s')"
      using demo_linear_add by blast
    show "\<exists>n'. apply_peer_block demo_node_env (bytes_of (bx_state_root ex)) n = Some (Inr (), n')
       \<and> nd_log n' = nd_log n @ log_record (bytes_of (bx_state_root ex))"
      using run [OF s'] by (simp add: publish_def)
  qed
qed

lemma log_record_not_Nil: "log_record bs \<noteq> []"
  by (simp add: log_record_def be_bytes_numeral)

text \<open>
  Property C24.  Durability of the linear node: a node that has been mining, applying peer blocks (each
  ignored, or executed with the state root its header claims) and serving its RPC comes back after
  a restart on the log it has written with the same header chain, the same bank and the same head,
  provided the encodings of blocks and transactions read back.
\<close>

theorem node_restart_restores:
  assumes "node_codec ne" and "node_runs ne mo n"
  shows "\<exists>n'. prepare ne (mo\<lparr>mo_log := nd_log n\<rparr>) = Some (Inr n') \<and> nd_chain n' = nd_chain n
    \<and> nd_bank n' = nd_bank n \<and> nd_log n' = nd_log n
    \<and> chain_height (nd_chain n) = Some (sh_slot (nd_shared n'))
    \<and> sh_latest_blockhash (nd_shared n') = cs_tip (nd_chain n)"
  by (rule prepare_logged [OF runs_node_logged [OF assms]]) blast

text \<open>
  A peer block whose execution does not give the state root its header claims is reported
  as handled, yet it changes the node: its header joins the chain and its execution is kept, and
  neither is logged, so a restart comes back without them.
\<close>

theorem mismatched_block_kept_unlogged:
  assumes "node_codec ne" and "node_runs ne mo n"
    and "ne_de_block ne bs = Inr b" and "apply_peer_block ne bs n = Some (Inr (), n1)"
    and "n1 \<noteq> n" and "nd_log n1 = nd_log n"
  shows "chain_contains (nd_chain n1) (linear_id ne (blk_header b)) \<and> \<not> chain_contains (nd_chain n) (linear_id ne (blk_header b))
    \<and> (\<exists>txs ex. node_decode_txs ne (blk_transactions b) = Inr txs
        \<and> execute_block (ne_bank ne) txs (bh_prev_hash (blk_header b)) (bh_miner (blk_header b))
            (emission (nd_genesis n) (bh_height (blk_header b))) (nd_bank n) = Some (Inr ex, nd_bank n1)
        \<and> bx_state_root ex \<noteq> bh_state_root (blk_header b))
    \<and> (\<exists>n2. prepare ne (mo\<lparr>mo_log := nd_log n1\<rparr>) = Some (Inr n2) \<and> nd_chain n2 = nd_chain n \<and> nd_bank n2 = nd_bank n)"
proof (rule mismatch_run [OF assms(4,6,5)])
  fix b' txs st ex
  assume m: "ne_de_block ne bs = Inr b'" "node_decode_txs ne (blk_transactions b') = Inr txs"
    "add_header (be_hash (ne_bank ne)) (ne_ser_header ne) (nd_chain n) (blk_header b') = Inr (st, nd_chain n1)"
    "execute_block (ne_bank ne) txs (bh_prev_hash (blk_header b')) (bh_miner (blk_header b'))
          (emission (nd_genesis n) (bh_height (blk_header b'))) (nd_bank n) = Some (Inr ex, nd_bank n1)"
    "bx_state_root ex \<noteq> bh_state_root (blk_header b')"
  have b: "b' = b" using m(1) assms(3) by simp
  have new: "\<not> chain_contains (nd_chain n) (linear_id ne (blk_header b))"
    "chain_contains (nd_chain n1) (linear_id ne (blk_header b))"
    using add_header_new [OF m(3)] b by (simp_all add: linear_id_def)
  obtain n2 where "prepare ne (mo\<lparr>mo_log := nd_log n1\<rparr>) = Some (Inr n2)" "nd_chain n2 = nd_chain n" "nd_bank n2 = nd_bank n"
    using prepare_logged [OF runs_node_logged [OF assms(1,2)]] unfolding assms(6) by metis
  then show ?thesis using new m b by blast
qed

theorem node_restart_restores_witness:
  "\<exists>(n :: (demo_db, unit, byte, bytes) node) n'. nd_log n \<noteq> [] \<and> nd_chain n' = nd_chain n \<and> nd_bank n' = nd_bank n
    \<and> prepare demo_node_env (demo_mine_options\<lparr>mo_log := nd_log n\<rparr>) = Some (Inr n')"
proof -
  obtain n0 where n0: "prepare demo_node_env (demo_mine_options\<lparr>mo_log := []\<rparr>) = Some (Inr n0)" "nd_chain n0 = demo_linear"
    "nd_genesis n0 = genesis_devnet" "nd_log n0 = []"
    using demo_linear_start by metis
  obtain root n1 where n1: "apply_peer_block demo_node_env (bytes_of root) n0 = Some (Inr (), n1)"
    "nd_log n1 = nd_log n0 @ log_record (bytes_of root)"
    using demo_peer_block [OF n0(2,3)] by metis
  have log: "nd_log n1 \<noteq> []" "nd_log n1 \<noteq> nd_log n0" using n1(2) n0(4) log_record_not_Nil by simp_all
  have "node_runs demo_node_env demo_mine_options n1"
    using n1(1) log(2) by (intro node_peer [OF node_start [OF n0(1)]]) simp_all
  from node_restart_restores [OF demo_node_codec this] show ?thesis using log(1) by blast
qed

theorem mismatched_block_kept_unlogged_witness:
  "\<exists>n n1 n2 r. apply_peer_block demo_node_env (bytes_of r) n = Some (Inr (), n1) \<and> nd_chain n1 \<noteq> nd_chain n
    \<and> prepare demo_node_env (demo_mine_options\<lparr>mo_log := nd_log n1\<rparr>) = Some (Inr n2) \<and> nd_chain n2 = nd_chain n"
proof -
  obtain n0 where n0: "prepare demo_node_env (demo_mine_options\<lparr>mo_log := []\<rparr>) = Some (Inr n0)" "nd_chain n0 = demo_linear"
    "nd_genesis n0 = genesis_devnet" "nd_log n0 = []"
    using demo_linear_start by metis
  obtain root b' where other: "\<And>r. r \<noteq> root \<Longrightarrow> \<exists>s'. s' \<noteq> demo_linear \<and>
       apply_peer_block demo_node_env (bytes_of r) n0 = Some (Inr (), see_bank b' (n0\<lparr>nd_chain := s'\<rparr>))"
    using demo_peer_block [OF n0(2,3)] by metis
  obtain s' where s': "s' \<noteq> demo_linear"
    "apply_peer_block demo_node_env (bytes_of (root + 1)) n0 = Some (Inr (), see_bank b' (n0\<lparr>nd_chain := s'\<rparr>))"
    using other [of "root + 1"] by auto
  let ?n1 = "see_bank b' (n0\<lparr>nd_chain := s'\<rparr>)"
  have chain: "nd_chain ?n1 \<noteq> nd_chain n0" "nd_log ?n1 = nd_log n0" using s'(1) n0(2) by simp_all
  have "?n1 \<noteq> n0" using chain(1) by metis
  from mismatched_block_kept_unlogged [OF demo_node_codec node_start [OF n0(1)] demo_node_sel(5) s'(2) this chain(2)]
  obtain n2 where "prepare demo_node_env (demo_mine_options\<lparr>mo_log := nd_log ?n1\<rparr>) = Some (Inr n2)" "nd_chain n2 = nd_chain n0"
    by blast
  then show ?thesis using s'(2) chain(1) by blast
qed

end
