(* ===== verification/DagNode.thy ===== *)
theory DagNode
  imports DagPrune DagState NodeShared GenesisLoad
begin

text \<open>
  The networked DAG node: \<open>dag_open\<close>, \<open>dag_run\<close> and \<open>dag_mine\<close> of \<^verbatim>\<open>crates/tao-node/src/main.rs\<close>.

  The state of \<open>dag_run\<close> is the record \<open>run_node\<close>: the chain, the shared state with its network, the pending
  blocks, the signatures seen, and the timers as instants in milliseconds.  An iteration of its
  loop is \<open>dag_tick\<close>; what it reads from outside is a \<open>dag_input\<close>: the waiting messages, each with the wall
  clock at its handling, and the clock readings of the rest of the iteration in their order.  The encodings
  are parameters, as is \<open>dv_order\<close>, the order in which a hash set is iterated.  A panic is \<open>None\<close>.

  The store the RPC reads is the one of the last \<open>set_accounts\<close>, and of a later virtual state as long as
  that extends it in place.
\<close>

record ('db, 'a, 'p, 'tx, 'san, 'chk, 'f, 's) dnode_env =
  dv_chain :: "('db, 'a, 'p, 'tx, 'san, 'chk, 'f) dag_env"
  dv_ser_block :: "dag_block \<Rightarrow> string + bytes"
  dv_de_block :: "bytes \<Rightarrow> string + dag_block"
  dv_first_sig :: "'tx \<Rightarrow> bytes option"
  dv_codec :: msg_codec
  dv_write :: "'s \<Rightarrow> bytes \<Rightarrow> bool \<times> 's"
  dv_order :: "bytes32 set \<Rightarrow> bytes32 list"

record ('db, 'a, 'p, 'tx, 's) run_node =
  dn_chain :: "('db, 'a, 'p, 'tx) dag_chain"
  dn_shared :: "('db, 'tx, 's) shared"
  dn_pending :: "dag_block list"
  dn_seen :: "bytes set"
  dn_produced :: u64
  dn_last_mine :: int
  dn_last_request :: int
  dn_last_snapshot :: int
  dn_last_tipreq :: int
  dn_last_maint :: int

record dag_input =
  di_inbound :: "(inbound_msg \<times> i64) list"
  di_accept_clock :: "nat \<Rightarrow> i64"
  di_mine_clock :: i64
  di_instant :: "nat \<Rightarrow> int"

datatype dag_node_error =
  BadMiner string | BadGenesisTarget string | BadAllocation string string | OpenFailure dag_chain_error
| StateFailure bank_error | MineFailure dag_chain_error

subsection \<open>Opening the chain\<close>

fun parse_allocations ::
    "(string \<Rightarrow> string + bytes32) \<Rightarrow> allocation list \<Rightarrow> dag_node_error + (pubkey \<times> u64) list" where
  "parse_allocations parse_key [] = Inr []"
| "parse_allocations parse_key (a # as) =
     and_then (map_err (BadAllocation (al_address a)) (parse_key (al_address a))) (\<lambda>pk.
     and_then (parse_allocations parse_key as) (\<lambda>rest. Inr ((pk, al_lamports a) # rest)))"

definition dag_params ::
    "(string \<Rightarrow> string + bytes32) \<Rightarrow> (string \<Rightarrow> string + bytes) \<Rightarrow> hasher \<Rightarrow> (genesis_config \<Rightarrow> bytes) \<Rightarrow>
     genesis_config \<Rightarrow> string \<Rightarrow> u16 \<Rightarrow> dag_node_error + open_params" where
  "dag_params parse_key hexdec H ser_cfg g miner k =
     and_then (map_err BadMiner (parse_key miner)) (\<lambda>miner_pubkey.
     and_then (map_err BadGenesisTarget (parse_target hexdec (pp_initial_target (gc_pow g)))) (\<lambda>target.
     and_then (parse_allocations parse_key (gc_allocations g)) (\<lambda>allocations.
     Inr \<lparr>op_k = k, op_target = target, op_miner = miner_pubkey,
       op_reward = rp_initial_lamports (gc_reward g), op_allocations = allocations,
       op_block_time_secs = pp_target_block_time_secs (gc_pow g), op_lwma_window = pp_lwma_window (gc_pow g),
       op_commitment = genesis_commitment H ser_cfg g\<rparr>)))"

definition dag_open ::
    "('db, 'a, 'p, 'tx, 'san, 'chk, 'f) dag_env \<Rightarrow> open_params \<Rightarrow> bytes \<Rightarrow>
     (dag_node_error + ('db, 'a, 'p, 'tx) dag_chain) option" where
  "dag_open ev op file = map_option (map_err OpenFailure) (open_with_genesis ev op file)"

subsection \<open>Telling the peers\<close>

definition on_network ::
    "('s network \<Rightarrow> 's network) \<Rightarrow> ('db, 'a, 'p, 'tx, 's) run_node \<Rightarrow> ('db, 'a, 'p, 'tx, 's) run_node" where
  "on_network f n = n\<lparr>dn_shared := (dn_shared n)\<lparr>sh_network := map_option f (sh_network (dn_shared n))\<rparr>\<rparr>"

definition tell_all ::
    "('db, 'a, 'p, 'tx, 'san, 'chk, 'f, 's) dnode_env \<Rightarrow> net_msg \<Rightarrow>
     ('db, 'a, 'p, 'tx, 's) run_node \<Rightarrow> ('db, 'a, 'p, 'tx, 's) run_node" where
  "tell_all dv msg = on_network (broadcast (dv_codec dv) (dv_write dv) msg)"

definition tell ::
    "('db, 'a, 'p, 'tx, 'san, 'chk, 'f, 's) dnode_env \<Rightarrow> peer_id \<Rightarrow> net_msg \<Rightarrow>
     ('db, 'a, 'p, 'tx, 's) run_node \<Rightarrow> ('db, 'a, 'p, 'tx, 's) run_node" where
  "tell dv peer msg = on_network (snd \<circ> send_to (dv_codec dv) (dv_write dv) peer msg)"

subsection \<open>Messages\<close>

definition gossiped_tx ::
    "('db, 'a, 'p, 'tx, 'san, 'chk, 'f, 's) dnode_env \<Rightarrow> bytes \<Rightarrow>
     ('db, 'a, 'p, 'tx, 's) run_node \<Rightarrow> ('db, 'a, 'p, 'tx, 's) run_node option" where
  "gossiped_tx dv bs n =
     (case ev_de_tx (dv_chain dv) bs of
        Inl _ \<Rightarrow> Some n
      | Inr tx \<Rightarrow>
          (case dv_first_sig dv tx of
             None \<Rightarrow> Some n
           | Some sig \<Rightarrow>
               if sig \<in> dn_seen n then Some n
               else map_option
                 (\<lambda>sh. tell_all dv (NewTx bs) (n\<lparr>dn_seen := insert sig (dn_seen n), dn_shared := sh\<rparr>))
                 (submit_tx (dv_first_sig dv) tx (dn_shared n))))"

definition dag_handle ::
    "('db, 'a, 'p, 'tx, 'san, 'chk, 'f, 's) dnode_env \<Rightarrow> inbound_msg \<times> i64 \<Rightarrow>
     ('db, 'a, 'p, 'tx, 's) run_node \<Rightarrow> ('db, 'a, 'p, 'tx, 's) run_node option" where
  "dag_handle dv m n =
     (let from = in_from (fst m); now = snd m; ev = dv_chain dv; c = dn_chain n in
      case in_msg (fst m) of
        NewBlock bs \<Rightarrow>
          (case dv_de_block dv bs of
             Inl _ \<Rightarrow> Some n | Inr b \<Rightarrow> Some (n\<lparr>dn_pending := dn_pending n @ [b]\<rparr>))
      | GetBlock i \<Rightarrow>
          (case get_block ev c i of
             None \<Rightarrow> Some n
           | Some b \<Rightarrow> (case dv_ser_block dv b of Inl _ \<Rightarrow> None | Inr bs \<Rightarrow> Some (tell dv from (NewBlock bs) n)))
      | GetTips \<Rightarrow> Some (tell dv from (Tips (dc_tips c)) n)
      | Tips tips \<Rightarrow> Some (fold (\<lambda>i n. if has_block (dn_chain n) i then n else tell_all dv (GetBlock i) n) tips n)
      | GetSnapshot \<Rightarrow>
          map_option (\<lambda>snap. case snap of None \<Rightarrow> n | Some bs \<Rightarrow> tell dv from (Snapshot bs) n) (export_snapshot ev c)
      | Snapshot bs \<Rightarrow> map_option (\<lambda>(_, c'). n\<lparr>dn_chain := c'\<rparr>) (import_snapshot ev now bs c)
      | NewTx bs \<Rightarrow> gossiped_tx dv bs n)"

fun dag_handle_all ::
    "('db, 'a, 'p, 'tx, 'san, 'chk, 'f, 's) dnode_env \<Rightarrow> (inbound_msg \<times> i64) list \<Rightarrow>
     ('db, 'a, 'p, 'tx, 's) run_node \<Rightarrow> ('db, 'a, 'p, 'tx, 's) run_node option" where
  "dag_handle_all dv [] n = Some n"
| "dag_handle_all dv (m # ms) n = Option.bind (dag_handle dv m n) (dag_handle_all dv ms)"

subsection \<open>Pending blocks\<close>

text \<open>
  One pass over the pending blocks: the accepted ones, the orphans kept, the chain.  The code keeps a block
  when the error text contains ``orphan'', which is the text of \<open>UnknownParent\<close>; \<open>clk i\<close> is the clock of the
  \<open>i\<close>-th call of \<open>accept\<close>.
\<close>

fun settle_pass ::
    "('db, 'a, 'p, 'tx, 'san, 'chk, 'f) dag_env \<Rightarrow> (nat \<Rightarrow> i64) \<Rightarrow> nat \<Rightarrow> dag_block list \<Rightarrow>
     ('db, 'a, 'p, 'tx) dag_chain \<Rightarrow> (dag_block list \<times> dag_block list \<times> ('db, 'a, 'p, 'tx) dag_chain) option" where
  "settle_pass ev clk i [] c = Some ([], [], c)"
| "settle_pass ev clk i (b # bs) c =
     (case accept ev (clk i) b c of
        None \<Rightarrow> None
      | Some (r, c') \<Rightarrow>
          (case settle_pass ev clk (i + 1) bs c' of
             None \<Rightarrow> None
           | Some (taken, still, c'') \<Rightarrow>
               (case r of
                  Inr _ \<Rightarrow> Some (b # taken, still, c'')
                | Inl e \<Rightarrow> Some (taken, (if e = dag_chain_error.UnknownParent then b # still else still), c''))))"

lemma settle_pass_length:
  "settle_pass ev clk i bs c = Some (taken, still, c') \<Longrightarrow> length taken + length still \<le> length bs"
  by (induction bs arbitrary: i c taken still c') (fastforce split: option.splits prod.splits sum.splits if_splits)+

lemma settle_pass_shrinks:
  assumes "settle_pass ev clk i bs c = Some (taken, still, c')" and "taken \<noteq> []"
  shows "length still < length bs"
  using settle_pass_length [OF assms(1)] assms(2) by (cases taken) simp_all

text \<open>Passes until one accepts nothing.\<close>

function settle ::
    "('db, 'a, 'p, 'tx, 'san, 'chk, 'f) dag_env \<Rightarrow> (nat \<Rightarrow> i64) \<Rightarrow> nat \<Rightarrow> dag_block list \<Rightarrow>
     ('db, 'a, 'p, 'tx) dag_chain \<Rightarrow> (dag_block list \<times> dag_block list \<times> ('db, 'a, 'p, 'tx) dag_chain) option" where
  "settle ev clk i blocks c =
     (case settle_pass ev clk i blocks c of
        None \<Rightarrow> None
      | Some (taken, still, c') \<Rightarrow>
          if taken = [] then Some ([], still, c')
          else (case settle ev clk (i + length blocks) still c' of
             None \<Rightarrow> None
           | Some (taken', still', c'') \<Rightarrow> Some (taken @ taken', still', c'')))"
  by pat_completeness auto
termination
  by (relation "measure (\<lambda>(ev, clk, i, blocks, c). length blocks)") (auto dest: settle_pass_shrinks)

declare settle.simps [simp del]

fun relay_all ::
    "('db, 'a, 'p, 'tx, 'san, 'chk, 'f, 's) dnode_env \<Rightarrow> dag_block list \<Rightarrow>
     ('db, 'a, 'p, 'tx, 's) run_node \<Rightarrow> ('db, 'a, 'p, 'tx, 's) run_node option" where
  "relay_all dv [] n = Some n"
| "relay_all dv (b # bs) n =
     (case dv_ser_block dv b of
        Inl _ \<Rightarrow> None | Inr bytes \<Rightarrow> relay_all dv bs (tell_all dv (NewBlock bytes) n))"

definition apply_pending ::
    "('db, 'a, 'p, 'tx, 'san, 'chk, 'f, 's) dnode_env \<Rightarrow> (nat \<Rightarrow> i64) \<Rightarrow>
     ('db, 'a, 'p, 'tx, 's) run_node \<Rightarrow> ('db, 'a, 'p, 'tx, 's) run_node option" where
  "apply_pending dv clk n =
     (case settle (dv_chain dv) clk 0 (dn_pending n) (dn_chain n) of
        None \<Rightarrow> None
      | Some (taken, still, c) \<Rightarrow> relay_all dv taken (n\<lparr>dn_pending := still, dn_chain := c\<rparr>))"

subsection \<open>Backfill, heartbeat, maintenance\<close>

definition wanted :: "('db, 'a, 'p, 'tx, 's) run_node \<Rightarrow> bytes32 set" where
  "wanted n = set (filter (\<lambda>p. \<not> has_block (dn_chain n) p) (concat (map (\<lambda>b. dh_parents (db_header b)) (dn_pending n))))"

definition request_snapshot ::
    "('db, 'a, 'p, 'tx, 'san, 'chk, 'f, 's) dnode_env \<Rightarrow> int \<Rightarrow>
     ('db, 'a, 'p, 'tx, 's) run_node \<Rightarrow> ('db, 'a, 'p, 'tx, 's) run_node" where
  "request_snapshot dv now n =
     (case sh_network (dn_shared n) of
        None \<Rightarrow> n
      | Some net \<Rightarrow>
          (case any_peer net of
             None \<Rightarrow> n
           | Some peer \<Rightarrow>
               (case send_to (dv_codec dv) (dv_write dv) peer GetSnapshot net of
                  (Inl _, _) \<Rightarrow> tell dv peer GetSnapshot n
                | (Inr _, _) \<Rightarrow> (tell dv peer GetSnapshot n)\<lparr>dn_last_snapshot := now\<rparr>)))"

definition backfill ::
    "('db, 'a, 'p, 'tx, 'san, 'chk, 'f, 's) dnode_env \<Rightarrow> dag_input \<Rightarrow>
     ('db, 'a, 'p, 'tx, 's) run_node \<Rightarrow> ('db, 'a, 'p, 'tx, 's) run_node" where
  "backfill dv inp n =
     (if dn_pending n \<noteq> [] \<and> di_instant inp 0 - dn_last_request n \<ge> 300 then
        let n1 = fold (\<lambda>i. tell_all dv (GetBlock i)) (dv_order dv (wanted n)) n;
            n2 = (if di_instant inp 1 - dn_last_snapshot n1 \<ge> 60000
                  then request_snapshot dv (di_instant inp 2) n1 else n1)
        in n2\<lparr>dn_last_request := di_instant inp 3\<rparr>
      else n)"

definition heartbeat ::
    "('db, 'a, 'p, 'tx, 'san, 'chk, 'f, 's) dnode_env \<Rightarrow> dag_input \<Rightarrow>
     ('db, 'a, 'p, 'tx, 's) run_node \<Rightarrow> ('db, 'a, 'p, 'tx, 's) run_node" where
  "heartbeat dv inp n =
     (if di_instant inp 4 - dn_last_tipreq n \<ge> 2000
      then (tell_all dv GetTips n)\<lparr>dn_last_tipreq := di_instant inp 5\<rparr> else n)"

text \<open>A virtual state that extends the cached store in place is seen through the handle of the RPC.\<close>

definition seen_state ::
    "('db, 'a, 'p, 'tx) dag_chain \<Rightarrow> ('db, 'p) bank \<Rightarrow> ('db, 'a, 'p, 'tx, 's) run_node \<Rightarrow>
     ('db, 'a, 'p, 'tx, 's) run_node" where
  "seen_state c bank n =
     (case dc_total_order c of
        Some order \<Rightarrow>
          if can_extend c order then n\<lparr>dn_shared := set_accounts (bk_db bank) (dn_shared n)\<rparr> else n
      | None \<Rightarrow> n)"

definition maintain ::
    "('db, 'a, 'p, 'tx, 'san, 'chk, 'f, 's) dnode_env \<Rightarrow> dag_input \<Rightarrow>
     ('db, 'a, 'p, 'tx, 's) run_node \<Rightarrow> ('db, 'a, 'p, 'tx, 's) run_node option" where
  "maintain dv inp n =
     (if di_instant inp 6 - dn_last_maint n \<ge> 5000 then
        map_option (\<lambda>n. n\<lparr>dn_last_maint := di_instant inp 7\<rparr>)
          (case virtual_state (dv_chain dv) (dn_chain n) of
             None \<Rightarrow> None
           | Some (Inl _, c) \<Rightarrow> Some (n\<lparr>dn_chain := c\<rparr>)
           | Some (Inr bank, c) \<Rightarrow>
               map_option (\<lambda>(_, c'). seen_state (dn_chain n) bank n\<lparr>dn_chain := c'\<rparr>)
                 (prune_chain (dv_chain dv) c))
      else Some n)"

subsection \<open>Mining\<close>

text \<open>The transactions of a mined block are confirmed without an error.\<close>

fun confirm_mined ::
    "('tx \<Rightarrow> bytes option) \<Rightarrow> 'tx list \<Rightarrow> ('db, 'tx, 's) shared \<Rightarrow> ('db, 'tx, 's) shared" where
  "confirm_mined first_sig [] sh = sh"
| "confirm_mined first_sig (tx # txs) sh =
     confirm_mined first_sig txs (case first_sig tx of None \<Rightarrow> sh | Some sig \<Rightarrow> confirm sig None sh)"

text \<open>After a mined block: the store the RPC reads, the head, the confirmations.\<close>

definition refresh ::
    "('db, 'a, 'p, 'tx, 'san, 'chk, 'f, 's) dnode_env \<Rightarrow> 'tx list \<Rightarrow>
     ('db, 'a, 'p, 'tx, 's) run_node \<Rightarrow> ('db, 'a, 'p, 'tx, 's) run_node option" where
  "refresh dv txs n =
     Option.bind (virtual_state (dv_chain dv) (dn_chain n)) (\<lambda>(r, c).
     let sh = (case r of Inr bank \<Rightarrow> set_accounts (bk_db bank) (dn_shared n) | Inl _ \<Rightarrow> dn_shared n) in
     map_option (\<lambda>order. n\<lparr>dn_chain := c,
         dn_shared := confirm_mined (dv_first_sig dv) txs
           (advance (word_of_nat (length order - 1)) env_blockhash sh)\<rparr>)
       (dc_total_order c))"

text \<open>The result is whether the node has mined its last block.\<close>

definition mine_tick ::
    "('db, 'a, 'p, 'tx, 'san, 'chk, 'f, 's) dnode_env \<Rightarrow> u64 \<Rightarrow> u64 \<Rightarrow> dag_input \<Rightarrow>
     (('db, 'a, 'p, 'tx, 's) run_node, dag_node_error, bool) eff" where
  "mine_tick dv interval blocks inp n =
     (if di_instant inp 8 - dn_last_mine n \<ge> int (unat interval) then
        let (txs, sh) = drain_mempool (dv_first_sig dv) (dn_shared n); n = n\<lparr>dn_shared := sh\<rparr> in
        (case dag_mine (dv_chain dv) (di_mine_clock inp) txs (dn_chain n) of
           None \<Rightarrow> None
         | Some (Inl e, c) \<Rightarrow> rfail (MineFailure e) (n\<lparr>dn_chain := c\<rparr>)
         | Some (Inr b, c) \<Rightarrow>
             (case dv_ser_block dv b of
                Inl _ \<Rightarrow> None
              | Inr bytes \<Rightarrow>
                  Option.bind
                    (refresh dv txs ((tell_all dv (NewBlock bytes) (n\<lparr>dn_chain := c\<rparr>))
                       \<lparr>dn_produced := dn_produced n + 1\<rparr>)) (\<lambda>n.
                  rret (blocks \<noteq> 0 \<and> dn_produced n \<ge> blocks) (n\<lparr>dn_last_mine := di_instant inp 9\<rparr>))))
      else rret False n)"

subsection \<open>The loop\<close>

definition dag_tick ::
    "('db, 'a, 'p, 'tx, 'san, 'chk, 'f, 's) dnode_env \<Rightarrow> u64 \<Rightarrow> u64 \<Rightarrow> dag_input \<Rightarrow>
     (('db, 'a, 'p, 'tx, 's) run_node, dag_node_error, bool) eff" where
  "dag_tick dv interval blocks inp n =
     Option.bind (dag_handle_all dv (di_inbound inp) n) (\<lambda>n.
     Option.bind (apply_pending dv (di_accept_clock inp) n) (\<lambda>n.
     Option.bind (maintain dv inp (heartbeat dv inp (backfill dv inp n))) (\<lambda>n.
     mine_tick dv interval blocks inp n)))"

text \<open>The list ends when the node is shut down.\<close>

fun dag_loop ::
    "('db, 'a, 'p, 'tx, 'san, 'chk, 'f, 's) dnode_env \<Rightarrow> u64 \<Rightarrow> u64 \<Rightarrow> dag_input list \<Rightarrow>
     (('db, 'a, 'p, 'tx, 's) run_node, dag_node_error, unit) eff" where
  "dag_loop dv interval blocks [] n = rret () n"
| "dag_loop dv interval blocks (inp # inps) n =
     rbind (dag_tick dv interval blocks inp)
       (\<lambda>stop. if stop then rret () else dag_loop dv interval blocks inps) n"

text \<open>Starting: the opened chain, the attached network, the instant \<open>now\<close>.\<close>

definition dag_start ::
    "('db, 'a, 'p, 'tx, 'san, 'chk, 'f, 's) dnode_env \<Rightarrow> u64 \<Rightarrow> u64 \<Rightarrow> 's network \<Rightarrow> int \<Rightarrow>
     ('db, 'a, 'p, 'tx) dag_chain \<Rightarrow> (dag_node_error + ('db, 'a, 'p, 'tx, 's) run_node) option" where
  "dag_start dv finality_depth interval net now chain =
     (let chain = set_finality_depth (max finality_depth 1) chain in
      Option.bind (dc_total_order chain) (\<lambda>order.
      let genesis_hash = (case order of i # _ \<Rightarrow> i | [] \<Rightarrow> 0) in
      case virtual_state (dv_chain dv) chain of
        None \<Rightarrow> None
      | Some (Inl e, _) \<Rightarrow> Some (Inl (StateFailure e))
      | Some (Inr bank, chain) \<Rightarrow>
          map_option (\<lambda>order. Inr \<lparr>dn_chain = chain,
              dn_shared = attach_network net
                (shared_new (bk_db bank) genesis_hash (word_of_nat (length order - 1)) env_blockhash None),
              dn_pending = [], dn_seen = {}, dn_produced = 0, dn_last_mine = now - int (unat interval),
              dn_last_request = now - 1000, dn_last_snapshot = now - 60000, dn_last_tipreq = now - 10000,
              dn_last_maint = now\<rparr>)
            (dc_total_order chain)))"

text \<open>\<open>dag_mine\<close>, the single-node command: blocks without transactions, one for each clock reading.\<close>

fun mine_empty_blocks ::
    "('db, 'a, 'p, 'tx, 'san, 'chk, 'f) dag_env \<Rightarrow> i64 list \<Rightarrow>
     (('db, 'a, 'p, 'tx) dag_chain, dag_node_error, unit) eff" where
  "mine_empty_blocks ev [] = rret ()"
| "mine_empty_blocks ev (now # clk) = (\<lambda>c.
     case dag_mine ev now [] c of
       None \<Rightarrow> None
     | Some (Inl e, c') \<Rightarrow> rfail (MineFailure e) c'
     | Some (Inr _, c') \<Rightarrow> mine_empty_blocks ev clk c')"

end
