(* ===== verification/DagNodeProps.thy ===== *)
theory DagNodeProps
  imports DagNode DagDemo "HOL-Library.Multiset"
begin

text \<open>
  The networked DAG node: pending blocks, gossip, backfill, and what it reports of mined
  transactions.
\<close>

subsection \<open>Accepting, by the known blocks\<close>

lemma accept_orphan:
  assumes "accept ev now b c = Some (Inl dag_chain_error.UnknownParent, c')"
  shows "\<not> set (dh_parents (db_header b)) \<subseteq> dc_blocks c \<and> c' = c"
proof (cases "bid ev b \<in> dc_blocks c")
  case new: False
  have intrinsic: "validate_block_intrinsic ev now b \<noteq> Inl dag_chain_error.UnknownParent"
    by (auto simp: validate_block_intrinsic_def Let_def split: if_splits)
  have "rbind (log_block ev b) (\<lambda>_. dag_apply ev b) c \<noteq> Some (Inl dag_chain_error.UnknownParent, c')"
  proof
    assume run: "rbind (log_block ev b) (\<lambda>_. dag_apply ev b) c = Some (Inl dag_chain_error.UnknownParent, c')"
    obtain r1 c1 where l: "log_block ev b c = Some (r1, c1)"
      using run by (cases "log_block ev b c") (auto simp: rbind_def)
    show False
    proof (cases r1)
      case (Inl x)
      then show ?thesis using run l by (cases "ev_ser_record ev (RecBlock b)")
        (auto simp: rbind_def log_block_def rwrite_def log_append_def split: if_splits)
    next
      case (Inr u)
      have "dag_apply ev b c1 = Some (Inl dag_chain_error.UnknownParent, c')" using run l Inr by (simp add: rbind_def)
      moreover have "bid ev b \<notin> dc_blocks c1" using log_block_run [OF l] Inr new by auto
      ultimately have "decode_txs ev (db_transactions b) = Inl dag_chain_error.UnknownParent"
        using apply_run [of ev b "bid ev b" c1] by (fastforce simp: dag_apply_def)
      then show ?thesis using decode_txs_Inl by blast
    qed
  qed
  then have "\<not> valid_block ev now c b" and c': "c' = c" using accept_new [OF new assms] by auto
  moreover have "\<not> set (dh_parents (db_header b)) \<subseteq> dc_blocks c"
  proof
    assume "set (dh_parents (db_header b)) \<subseteq> dc_blocks c"
    then show False using assms new intrinsic \<open>rbind _ _ c \<noteq> _\<close>
      by (auto simp: accept_def Let_def bind_eq_Some_conv split: sum.splits if_splits)
  qed
  ultimately show ?thesis by simp
qed (use assms in \<open>simp add: accept_def\<close>)

lemma accept_blocks:
  assumes "accept ev now b c = Some (r, c')"
  shows "dc_blocks c' = (case r of Inr _ \<Rightarrow> insert (bid ev b) (dc_blocks c) | Inl _ \<Rightarrow> dc_blocks c)"
proof (cases "bid ev b \<in> dc_blocks c")
  case True
  then show ?thesis using assms by (auto simp: accept_def)
next
  case new: False
  show ?thesis
  proof (cases "valid_block ev now c b")
    case True
    then have run: "rbind (log_block ev b) (\<lambda>_. dag_apply ev b) c = Some (r, c')"
      using accept_new [OF new assms] by blast
    show ?thesis
    proof (cases r)
      case (Inl e)
      then show ?thesis using log_run_blocks [OF run [unfolded Inl] new] by simp
    next
      case (Inr u)
      then obtain rec where "dag_apply ev b (c\<lparr>dc_log := dc_log c @ log_record rec\<rparr>) = Some (Inr (), c')"
        using log_apply_run [OF run new] by auto
      then have "apply_with_id ev b (bid ev b) (c\<lparr>dc_log := dc_log c @ log_record rec\<rparr>) = Some (Inr (), c')"
        by (simp add: dag_apply_def)
      from apply_run [OF this] new Inr show ?thesis by auto
    qed
  next
    case False
    then obtain e where "c' = c" "r = Inl e" using accept_new [OF new assms] by blast
    then show ?thesis by simp
  qed
qed

subsection \<open>Pending blocks\<close>

text \<open>
  The calls of \<open>accept\<close> that the loop makes: one block after the other, each on the chain the call
  before left and at the next reading of the clock.  The outcomes are listed in order.
\<close>

fun run_calls ::
    "('db, 'a, 'p, 'tx, 'san, 'chk, 'f) dag_env \<Rightarrow> (nat \<Rightarrow> i64) \<Rightarrow> nat \<Rightarrow> dag_block list \<Rightarrow>
     ('db, 'a, 'p, 'tx) dag_chain \<Rightarrow> ((dag_chain_error + unit) list \<times> ('db, 'a, 'p, 'tx) dag_chain) option" where
  "run_calls ev clk i [] c = Some ([], c)"
| "run_calls ev clk i (b # bs) c =
     Option.bind (accept ev (clk i) b c) (\<lambda>(r, c1).
       map_option (\<lambda>(rs, c2). (r # rs, c2)) (run_calls ev clk (i + 1) bs c1))"

definition call_accepted :: "dag_chain_error + unit \<Rightarrow> bool" where
  "call_accepted r \<longleftrightarrow> (case r of Inl _ \<Rightarrow> False | Inr _ \<Rightarrow> True)"

text \<open>Refused for good: for another reason than a missing parent.\<close>

definition call_refused :: "dag_chain_error + unit \<Rightarrow> bool" where
  "call_refused r \<longleftrightarrow> (case r of Inl e \<Rightarrow> e \<noteq> dag_chain_error.UnknownParent | Inr _ \<Rightarrow> False)"

definition calls_with :: "('r \<Rightarrow> bool) \<Rightarrow> 'b list \<Rightarrow> 'r list \<Rightarrow> 'b list" where
  "calls_with P bs rs = map fst (filter (\<lambda>(b, r). P r) (zip bs rs))"

lemma calls_with_simps [simp]:
  "calls_with P [] [] = []"
  "calls_with P (b # bs) (r # rs) = (if P r then b # calls_with P bs rs else calls_with P bs rs)"
  by (simp_all add: calls_with_def)

lemma calls_with_append:
  "length bs = length rs \<Longrightarrow>
   calls_with P (bs @ bs') (rs @ rs') = calls_with P bs rs @ calls_with P bs' rs'"
  by (simp add: calls_with_def)

lemma run_calls_length: "run_calls ev clk i bs c = Some (rs, c') \<Longrightarrow> length bs = length rs"
  by (induction bs arbitrary: i c rs) (auto simp: bind_eq_Some_conv)

lemma run_calls_append:
  assumes "run_calls ev clk i bs c = Some (rs, c1)"
    and "run_calls ev clk (i + length bs) bs' c1 = Some (rs', c2)"
  shows "run_calls ev clk i (bs @ bs') c = Some (rs @ rs', c2)"
  using assms
proof (induction bs arbitrary: i c rs)
  case (Cons b bs)
  obtain r c3 rs3 where a: "accept ev (clk i) b c = Some (r, c3)"
    and rest: "run_calls ev clk (i + 1) bs c3 = Some (rs3, c1)" and rs: "rs = r # rs3"
    using Cons.prems(1) by (auto simp: bind_eq_Some_conv)
  have "run_calls ev clk (i + 1) (bs @ bs') c3 = Some (rs3 @ rs', c2)"
    using Cons.IH [OF rest] Cons.prems(2) by simp
  then show ?case using a rs by simp
qed simp

lemma settle_pass_run:
  "settle_pass ev clk i bs c = Some (taken, still, c') \<Longrightarrow>
   \<exists>rs. run_calls ev clk i bs c = Some (rs, c') \<and> taken = calls_with call_accepted bs rs
   \<and> mset bs = mset taken + mset still + mset (calls_with call_refused bs rs)
   \<and> dc_blocks c' = dc_blocks c \<union> bid ev ` set taken
   \<and> (taken = [] \<longrightarrow> list_all (\<lambda>b. \<not> set (dh_parents (db_header b)) \<subseteq> dc_blocks c') still)"
proof (induction bs arbitrary: i c taken still)
  case (Cons b bs)
  obtain r c1 where a: "accept ev (clk i) b c = Some (r, c1)"
    using Cons.prems by (auto split: option.splits)
  obtain taken1 still1 where rest: "settle_pass ev clk (i + 1) bs c1 = Some (taken1, still1, c')"
    and out: "(case r of Inr _ \<Rightarrow> taken = b # taken1 \<and> still = still1
      | Inl e \<Rightarrow> taken = taken1 \<and> still = (if e = dag_chain_error.UnknownParent then b # still1 else still1))"
    using Cons.prems a by (auto split: option.splits sum.splits)
  from Cons.IH [OF rest] obtain rs where rs: "run_calls ev clk (i + 1) bs c1 = Some (rs, c')"
    and ih: "taken1 = calls_with call_accepted bs rs"
      "mset bs = mset taken1 + mset still1 + mset (calls_with call_refused bs rs)"
      "dc_blocks c' = dc_blocks c1 \<union> bid ev ` set taken1"
      "taken1 = [] \<longrightarrow> list_all (\<lambda>b. \<not> set (dh_parents (db_header b)) \<subseteq> dc_blocks c') still1" by blast
  have run: "run_calls ev clk i (b # bs) c = Some (r # rs, c')" using a rs by simp
  note blocks = accept_blocks [OF a]
  have "taken = calls_with call_accepted (b # bs) (r # rs)
      \<and> mset (b # bs) = mset taken + mset still + mset (calls_with call_refused (b # bs) (r # rs))
      \<and> dc_blocks c' = dc_blocks c \<union> bid ev ` set taken"
    using out ih(1,2,3) blocks by (cases r) (auto simp: call_accepted_def call_refused_def)
  moreover have "list_all (\<lambda>b. \<not> set (dh_parents (db_header b)) \<subseteq> dc_blocks c') still" if "taken = []"
  proof (cases r)
    case (Inl e)
    have same: "taken1 = []" "dc_blocks c' = dc_blocks c" using that out Inl ih(3) blocks by simp_all
    show ?thesis
    proof (cases "e = dag_chain_error.UnknownParent")
      case True
      have "\<not> set (dh_parents (db_header b)) \<subseteq> dc_blocks c" using accept_orphan a Inl True by blast
      then show ?thesis using out Inl True ih(4) same by simp
    qed (use out Inl ih(4) same in simp)
  qed (use that out in simp)
  ultimately show ?case using run by blast
qed simp

lemma settle_pass_panics:
  "settle_pass ev clk i bs c = None \<Longrightarrow>
   \<exists>calls rs c1 b. run_calls ev clk i calls c = Some (rs, c1) \<and> set (b # calls) \<subseteq> set bs
     \<and> accept ev (clk (i + length calls)) b c1 = None"
proof (induction bs arbitrary: i c)
  case (Cons b bs)
  show ?case
  proof (cases "accept ev (clk i) b c")
    case None
    then have "run_calls ev clk i [] c = Some ([], c) \<and> set [b] \<subseteq> set (b # bs)
        \<and> accept ev (clk (i + length ([] :: dag_block list))) b c = None" by simp
    then show ?thesis by blast
  next
    case (Some p)
    obtain r c1 where p: "p = (r, c1)" by (cases p)
    have "settle_pass ev clk (i + 1) bs c1 = None"
      using Cons.prems Some p by (auto split: option.splits prod.splits sum.splits)
    from Cons.IH [OF this] obtain calls rs c2 b' where
      later: "run_calls ev clk (i + 1) calls c1 = Some (rs, c2)" "set (b' # calls) \<subseteq> set bs"
      "accept ev (clk (i + 1 + length calls)) b' c2 = None" by blast
    have "run_calls ev clk i (b # calls) c = Some (r # rs, c2)" using Some p later(1) by simp
    moreover have "set (b' # b # calls) \<subseteq> set (b # bs)" using later(2) by auto
    moreover have "accept ev (clk (i + length (b # calls))) b' c2 = None" using later(3) by simp
    ultimately show ?thesis by blast
  qed
qed simp

text \<open>What the loop has done with the pending blocks when it stops at \<open>(taken, still, c')\<close>.\<close>

definition settled ::
    "('db, 'a, 'p, 'tx, 'san, 'chk, 'f) dag_env \<Rightarrow> (nat \<Rightarrow> i64) \<Rightarrow> nat \<Rightarrow> dag_block list \<Rightarrow>
     ('db, 'a, 'p, 'tx) dag_chain \<Rightarrow> dag_block list \<times> dag_block list \<times> ('db, 'a, 'p, 'tx) dag_chain \<Rightarrow> bool" where
  "settled ev clk i bs c = (\<lambda>(taken, still, c'). \<exists>calls rs.
     run_calls ev clk i calls c = Some (rs, c') \<and> set calls \<subseteq> set bs
     \<and> taken = calls_with call_accepted calls rs
     \<and> mset bs = mset taken + mset still + mset (calls_with call_refused calls rs)
     \<and> dc_blocks c' = dc_blocks c \<union> bid ev ` set taken
     \<and> list_all (\<lambda>b. \<not> set (dh_parents (db_header b)) \<subseteq> dc_blocks c') still)"

lemma settle_step:
  assumes pass: "settle_pass ev clk i bs c = Some (taken, still, c1)"
    and later: "settled ev clk (i + length bs) still c1 (taken', still', c2)"
  shows "settled ev clk i bs c (taken @ taken', still', c2)"
proof -
  from settle_pass_run [OF pass] obtain rs where rs: "run_calls ev clk i bs c = Some (rs, c1)"
    "taken = calls_with call_accepted bs rs"
    "mset bs = mset taken + mset still + mset (calls_with call_refused bs rs)"
    "dc_blocks c1 = dc_blocks c \<union> bid ev ` set taken" by blast
  from later obtain calls rs' where l: "run_calls ev clk (i + length bs) calls c1 = Some (rs', c2)"
    "set calls \<subseteq> set still" "taken' = calls_with call_accepted calls rs'"
    "mset still = mset taken' + mset still' + mset (calls_with call_refused calls rs')"
    "dc_blocks c2 = dc_blocks c1 \<union> bid ev ` set taken'"
    "list_all (\<lambda>b. \<not> set (dh_parents (db_header b)) \<subseteq> dc_blocks c2) still'"
    by (auto simp: settled_def)
  have "set_mset (mset still) \<subseteq> set_mset (mset bs)" unfolding rs(3) by auto
  then have "set (bs @ calls) \<subseteq> set bs" using l(2) by auto
  moreover note len = run_calls_length [OF rs(1)]
  have "mset bs = mset (taken @ taken') + mset still'
      + mset (calls_with call_refused (bs @ calls) (rs @ rs'))"
    unfolding calls_with_append [OF len] by (subst rs(3), subst l(4)) simp
  moreover have "dc_blocks c2 = dc_blocks c \<union> bid ev ` set (taken @ taken')" using rs(4) l(5) by auto
  moreover have "taken @ taken' = calls_with call_accepted (bs @ calls) (rs @ rs')"
    by (simp add: calls_with_append [OF len] rs(2) l(3))
  ultimately show ?thesis
    unfolding settled_def prod.case
    by (intro exI [of _ "bs @ calls"] exI [of _ "rs @ rs'"] conjI run_calls_append [OF rs(1) l(1)] l(6))
qed

lemma settle_run: "settle ev clk i bs c = Some out \<Longrightarrow> settled ev clk i bs c out"
proof (induction ev clk i bs c arbitrary: out rule: settle.induct)
  case (1 ev clk i bs c)
  obtain taken still c1 where pass: "settle_pass ev clk i bs c = Some (taken, still, c1)"
    using "1.prems" by (auto simp: settle.simps [of ev clk i bs c] split: option.splits)
  show ?case
  proof (cases "taken = []")
    case True
    then have "out = ([], still, c1)" using "1.prems" pass by (simp add: settle.simps [of ev clk i bs c])
    then show ?thesis using settle_pass_run [OF pass] True by (auto simp: settled_def)
  next
    case False
    obtain taken' still' c2 where later: "settle ev clk (i + length bs) still c1 = Some (taken', still', c2)"
      and out: "out = (taken @ taken', still', c2)"
      using "1.prems" pass False by (auto simp: settle.simps [of ev clk i bs c] split: option.splits)
    show ?thesis
      unfolding out by (rule settle_step [OF pass "1.IH" [OF pass refl refl False later]])
  qed
qed

lemma settle_panics:
  "settle ev clk i bs c = None \<Longrightarrow>
   \<exists>calls rs c1 b. run_calls ev clk i calls c = Some (rs, c1) \<and> set (b # calls) \<subseteq> set bs
     \<and> accept ev (clk (i + length calls)) b c1 = None"
proof (induction ev clk i bs c rule: settle.induct)
  case (1 ev clk i bs c)
  show ?case
  proof (cases "settle_pass ev clk i bs c")
    case None
    then show ?thesis by (rule settle_pass_panics)
  next
    case (Some p)
    obtain taken still c1 where p: "p = (taken, still, c1)" by (cases p)
    note pass = Some [unfolded p]
    have ne: "taken \<noteq> []" and none: "settle ev clk (i + length bs) still c1 = None"
      using "1.prems" pass by (auto simp: settle.simps [of ev clk i bs c] split: option.splits if_splits)
    from "1.IH" [OF pass refl refl ne none] obtain calls rs c2 b where
      l: "run_calls ev clk (i + length bs) calls c1 = Some (rs, c2)" "set (b # calls) \<subseteq> set still"
      "accept ev (clk (i + length bs + length calls)) b c2 = None" by blast
    from settle_pass_run [OF pass] obtain rs1 where rs1: "run_calls ev clk i bs c = Some (rs1, c1)"
      and m: "mset bs = mset taken + mset still + mset (calls_with call_refused bs rs1)" by blast
    have "set_mset (mset still) \<subseteq> set_mset (mset bs)" unfolding m by auto
    then have "set (b # bs @ calls) \<subseteq> set bs" using l(2) by auto
    moreover have "accept ev (clk (i + length (bs @ calls))) b c2 = None" using l(3) by (simp add: add.assoc)
    ultimately show ?thesis using run_calls_append [OF rs1 l(1)] by blast
  qed
qed

text \<open>
  Property C25.  Orphans: the loop over the pending blocks always ends.  It is a sequence of calls
  of \<open>accept\<close> on pending blocks, each on the chain the calls before left, and it fails only when
  such a call panics.  It loses nothing: counted with repetitions, the pending blocks are those
  whose call succeeded, those it keeps, and those whose call failed for another reason than a
  missing parent.  What it keeps has a parent that is still unknown in the chain where it stops,
  and the blocks known there are those known before and the accepted ones.
\<close>

theorem pending_settled:
  "case settle ev clk i bs c of
     None \<Rightarrow> \<exists>calls rs c1 b. run_calls ev clk i calls c = Some (rs, c1) \<and> set (b # calls) \<subseteq> set bs
       \<and> accept ev (clk (i + length calls)) b c1 = None
   | Some (taken, still, c') \<Rightarrow> \<exists>calls rs.
       run_calls ev clk i calls c = Some (rs, c') \<and> set calls \<subseteq> set bs
       \<and> taken = calls_with call_accepted calls rs
       \<and> mset bs = mset taken + mset still + mset (calls_with call_refused calls rs)
       \<and> dc_blocks c' = dc_blocks c \<union> bid ev ` set taken
       \<and> list_all (\<lambda>b. \<not> set (dh_parents (db_header b)) \<subseteq> dc_blocks c') still"
proof (cases "settle ev clk i bs c")
  case None
  then show ?thesis using settle_panics by simp
next
  case (Some out)
  then show ?thesis using settle_run [OF Some] by (auto simp: settled_def)
qed

subsection \<open>Gossip\<close>

lemma on_network_sel [simp]:
  "dn_seen (on_network f n) = dn_seen n" "dn_chain (on_network f n) = dn_chain n"
  "dn_pending (on_network f n) = dn_pending n" "sh_sig_status (dn_shared (on_network f n)) = sh_sig_status (dn_shared n)"
  by (simp_all add: on_network_def)

lemma tell_all_sel [simp]:
  "dn_seen (tell_all dv msg n) = dn_seen n" "dn_chain (tell_all dv msg n) = dn_chain n"
  "dn_pending (tell_all dv msg n) = dn_pending n" "sh_sig_status (dn_shared (tell_all dv msg n)) = sh_sig_status (dn_shared n)"
  by (simp_all add: tell_all_def)

text \<open>
  Transaction gossip dies out: a transaction relayed to a node is submitted and relayed on
  the first time only; hearing it again changes nothing and sends nothing.
\<close>

theorem gossip_once:
  assumes "gossiped_tx dv bs n = Some n'"
  shows "gossiped_tx dv bs n' = Some n'"
proof (cases "ev_de_tx (dv_chain dv) bs")
  case (Inr tx)
  show ?thesis
  proof (cases "dv_first_sig dv tx")
    case (Some sig)
    have "sig \<in> dn_seen n'" using assms Inr Some by (auto simp: gossiped_tx_def split: if_splits)
    then show ?thesis using Inr Some by (simp add: gossiped_tx_def)
  qed (use assms Inr in \<open>simp add: gossiped_tx_def\<close>)
qed (use assms in \<open>simp add: gossiped_tx_def\<close>)

subsection \<open>Serving blocks\<close>

lemma decode_encode:
  assumes "\<forall>bs tx. ev_de_tx ev bs = Inr tx \<longrightarrow> ev_ser_tx ev tx = Inr bs"
  shows "decode_txs ev bss = Inr txs \<Longrightarrow> encode_all ev txs = Some bss"
proof (induction bss arbitrary: txs)
  case (Cons bs bss)
  then obtain tx rest where "ev_de_tx ev bs = Inr tx" "decode_txs ev bss = Inr rest" "txs = tx # rest"
    by (cases "ev_de_tx ev bs"; cases "decode_txs ev bss") (auto simp: map_err_def)
  with Cons assms show ?case by simp
qed simp

text \<open>
  Backfill: a block a node has just accepted it serves to a peer unchanged, and accepting it
  changes no answer about another block, provided a transaction is encoded as it was received.
\<close>

theorem accepted_block_served:
  assumes "\<forall>bs tx. ev_de_tx ev bs = Inr tx \<longrightarrow> ev_ser_tx ev tx = Inr bs"
    and "bid ev b \<notin> dc_blocks c" and "dc_block_txs c (bid ev b) = None"
    and "accept ev now b c = Some (Inr (), c')"
  shows "get_block ev c' = (get_block ev c)(bid ev b \<mapsto> b)"
proof -
  have run: "rbind (log_block ev b) (\<lambda>_. dag_apply ev b) c = Some (Inr (), c')"
    using accept_new [OF assms(2,4)] by blast
  then obtain rec where "dag_apply ev b (c\<lparr>dc_log := dc_log c @ log_record rec\<rparr>) = Some (Inr (), c')"
    using log_apply_run [OF run assms(2)] by auto
  then have applied: "apply_with_id ev b (bid ev b) (c\<lparr>dc_log := dc_log c @ log_record rec\<rparr>) = Some (Inr (), c')"
    by (simp add: dag_apply_def)
  obtain txs where txs: "decode_txs ev (db_transactions b) = Inr txs"
    "dc_block_txs c' = (if txs = [] then dc_block_txs c else (dc_block_txs c)(bid ev b \<mapsto> txs))"
    "dc_headers c' = (dc_headers c)(bid ev b \<mapsto> db_header b)"
    using apply_run [OF applied] assms(2) by auto
  have enc: "encode_all ev txs = Some (db_transactions b)" by (rule decode_encode [OF assms(1) txs(1)])
  have empty: "db_transactions b = [] \<longleftrightarrow> txs = []" using enc txs(1) by (cases txs) (auto split: sum.splits option.splits)
  show ?thesis
  proof (rule ext)
    fix i
    show "get_block ev c' i = ((get_block ev c)(bid ev b \<mapsto> b)) i"
    proof (cases "i = bid ev b")
      case True
      then show ?thesis using txs(2,3) enc empty assms(3) by (auto simp: get_block_def Let_def)
    next
      case False
      then have "dc_block_txs c' i = dc_block_txs c i" "dc_headers c' i = dc_headers c i" using txs(2,3) by simp_all
      then show ?thesis using False by (simp add: get_block_def)
    qed
  qed
qed

subsection \<open>What the node reports\<close>

lemma confirm_mined_status:
  assumes "tx \<in> set txs" and "first_sig tx = Some sig"
  shows "sh_sig_status (confirm_mined first_sig txs sh) sig = Some None"
proof -
  have kept: "sh_sig_status (confirm_mined first_sig txs sh) sig = Some None"
    if "sh_sig_status sh sig = Some None" for txs sh
    using that by (induction txs arbitrary: sh) (simp_all add: confirm_def split: option.split)
  show ?thesis using assms
  proof (induction txs arbitrary: sh)
    case (Cons t txs)
    then show ?case by (cases "t = tx") (simp_all add: kept confirm_def)
  qed simp
qed

text \<open>
  The status of a mined transaction: once the node has mined a block, it reports every signed
  transaction of it as executed without an error, whatever its execution gave.
\<close>

theorem mined_txs_reported_ok:
  assumes "mine_tick dv interval blocks inp n = Some (Inr stop, n')"
    and "int (unat interval) \<le> di_instant inp 8 - dn_last_mine n"
    and "tx \<in> set (fst (drain_mempool (dv_first_sig dv) (dn_shared n)))" and "dv_first_sig dv tx = Some sig"
  shows "signature_status sig (dn_shared n') = Some None"
proof -
  obtain txs sh where drain: "drain_mempool (dv_first_sig dv) (dn_shared n) = (txs, sh)" by fastforce
  have mine: "(case dag_mine (dv_chain dv) (di_mine_clock inp) txs (dn_chain n) of
           None \<Rightarrow> None
         | Some (Inl e, c) \<Rightarrow> rfail (MineFailure e) (n\<lparr>dn_shared := sh, dn_chain := c\<rparr>)
         | Some (Inr b, c) \<Rightarrow>
             (case dv_ser_block dv b of
                Inl _ \<Rightarrow> None
              | Inr bytes \<Rightarrow>
                  Option.bind
                    (refresh dv txs ((tell_all dv (NewBlock bytes) (n\<lparr>dn_shared := sh, dn_chain := c\<rparr>))
                       \<lparr>dn_produced := dn_produced (n\<lparr>dn_shared := sh\<rparr>) + 1\<rparr>)) (\<lambda>n.
                  rret (blocks \<noteq> 0 \<and> dn_produced n \<ge> blocks) (n\<lparr>dn_last_mine := di_instant inp 9\<rparr>))))
      = Some (Inr stop, n')"
    using assms(1,2) drain by (simp add: mine_tick_def Let_def)
  then obtain b c bytes n1 n2 where "refresh dv txs n1 = Some n2" "n' = n2\<lparr>dn_last_mine := di_instant inp 9\<rparr>"
    by (auto simp: bind_eq_Some_conv split: option.splits sum.splits prod.splits)
  then show ?thesis using confirm_mined_status [where tx = tx and first_sig = "dv_first_sig dv" and sig = sig] assms(3,4) drain
    by (auto simp: refresh_def bind_eq_Some_conv Let_def signature_status_def)
qed

subsection \<open>Witnesses\<close>

definition demo_log_any :: "(demo_db, byte, unit, byte, byte, unit, nat) dag_env" where
  "demo_log_any = demo_env\<lparr>ev_ser_record := (\<lambda>_. Inr [9])\<rparr>"

definition demo_dnode :: "(demo_db, byte, unit, byte, byte, unit, nat, bytes) dnode_env" where
  "demo_dnode = \<lparr>dv_chain = demo_log_any, dv_ser_block = (\<lambda>_. Inr [8]), dv_de_block = (\<lambda>_. Inl ''eof''),
     dv_first_sig = (\<lambda>t. Some [t]), dv_codec = demo_codec, dv_write = (\<lambda>s bs. (True, s @ bs)), dv_order = (\<lambda>_. [])\<rparr>"

definition demo_run_node :: "(demo_db, byte, unit, byte, bytes) run_node" where
  "demo_run_node = \<lparr>dn_chain = demo_dag,
     dn_shared = (shared_new (Map.empty, Map.empty) (- 10) 0 env_blockhash None)
       \<lparr>sh_mempool := \<lparr>mp_txs = [5], mp_seen = {[5]}, mp_max_size = 4096\<rparr>\<rparr>,
     dn_pending = [], dn_seen = {}, dn_produced = 0, dn_last_mine = 0, dn_last_request = 0, dn_last_snapshot = 0,
     dn_last_tipreq = 0, dn_last_maint = 0\<rparr>"

definition demo_input :: dag_input where
  "demo_input = \<lparr>di_inbound = [], di_accept_clock = (\<lambda>_. 0), di_mine_clock = 1750000005, di_instant = (\<lambda>i. 1000 * int i)\<rparr>"

lemma demo_dnode_sel:
  "dv_chain demo_dnode = demo_log_any" "dv_first_sig demo_dnode = (\<lambda>t. Some [t])" "dv_ser_block demo_dnode b = Inr [8]"
  "ev_de_tx demo_log_any [x] = Inr x" "ev_ser_tx demo_log_any x = Inr [x]" "ev_bank demo_log_any = demo_bank"
  "ev_floats demo_log_any = demo_floats" "ev_ser_record demo_log_any r = Inr [9]" "hid demo_log_any h = hid demo_env h"
  "bid demo_log_any blk = bid demo_env blk"
  "dn_chain demo_run_node = demo_dag" "dn_seen demo_run_node = {}" "dn_last_mine demo_run_node = 0"
  by (simp_all add: demo_dnode_def demo_log_any_def demo_env_def demo_run_node_def hid_def bid_def dag_block_id_def)

theorem gossip_once_witness:
  "\<exists>n'. gossiped_tx demo_dnode [6] demo_run_node = Some n' \<and> n' \<noteq> demo_run_node \<and> gossiped_tx demo_dnode [6] n' = Some n'"
proof -
  obtain sh where "submit_tx (\<lambda>t. Some [t]) 6 (dn_shared demo_run_node) = Some sh"
    unfolding demo_run_node_def by (simp add: submit_tx_def mempool_submit_def)
  then have "\<exists>n'. gossiped_tx demo_dnode [6] demo_run_node = Some n' \<and> dn_seen n' = {[6]}"
    by (simp add: gossiped_tx_def demo_dnode_sel)
  then obtain n' where n': "gossiped_tx demo_dnode [6] demo_run_node = Some n'" "dn_seen n' = {[6]}" by blast
  then have "n' \<noteq> demo_run_node" using demo_dnode_sel(12) by (metis insert_not_empty)
  with n'(1) gossip_once [OF n'(1)] show ?thesis by (intro exI conjI)
qed

theorem accepted_block_served_witness:
  "get_block demo_env demo_grown (- 11) = Some demo_block"
proof -
  have canonical: "\<forall>bs tx. ev_de_tx demo_env bs = Inr tx \<longrightarrow> ev_ser_tx demo_env tx = Inr bs"
    by (auto simp: demo_env_def length_Suc_conv split: if_splits)
  have new: "bid demo_env demo_block \<notin> dc_blocks demo_dag" "dc_block_txs demo_dag (bid demo_env demo_block) = None"
    by (simp_all add: demo_ids_of_headers demo_dag_sel)
  show ?thesis using accepted_block_served [OF canonical new demo_accept] by (simp add: demo_ids_of_headers)
qed

text \<open>The machine of the demonstration rejects every transaction.\<close>

lemma demo_tx_fails:
  "\<exists>outcome b'. execute_transaction demo_bank t h b = Some (Inr outcome, b') \<and> \<not> to_succeeded outcome"
  by (simp add: execute_transaction_def demo_bank_def demo_svm_def apply_result_def Let_def)

lemma demo_mine_any:
  "\<exists>b c. dag_mine demo_log_any 1750000005 [5] demo_dag = Some (Inr b, c) \<and> dc_engine c = demo_engine_next 3 (- 10) (- 11)
     \<and> dc_state c = None \<and> dc_checkpoint c = None \<and> dc_base_accounts c = None \<and> dc_allocations c = []
     \<and> dc_history_pruned c = False \<and> dc_finality_depth c = 100 \<and> dc_genesis_dag c = - 10
     \<and> dc_block_txs c (- 11) = Some [5] \<and> dc_headers c (- 11) \<noteq> None"
proof -
  have "dc_next_target demo_dag = Some (- 1)"
    using demo_target(2) by (simp add: dc_next_target_def demo_dag_sel demo_engine_def)
  moreover have "meets_target (hid demo_log_any h) (- 1)" for h
    by (simp add: meets_target_def)
  then have "mine_loop (hid demo_log_any) (- 1) h = Some h" for h by (subst mine_loop.simps) simp
  ultimately obtain b where b: "build_block_at demo_log_any demo_dag [5] 1750000005 = Some b"
    "dh_parents (db_header b) = [- 10]" "db_transactions b = [[5]]"
    by (simp add: build_block_at_def block_parents_def demo_dag_sel MAX_PARENTS_def encode_tx_def demo_dnode_sel
        Let_def)
  have i: "bid demo_log_any b = - 11"
    using b(2) by (simp add: demo_dnode_sel) (simp add: bid_def dag_block_id_def dag_header_id_def demo_env_def demo_bank_def)
  have log: "log_block demo_log_any b demo_dag = Some (Inr (), demo_dag\<lparr>dc_log := log_record [9]\<rparr>)"
    by (simp add: log_block_def demo_dnode_sel rwrite_def log_append_def demo_dag_sel)
  have remap: "remap_parents (- 10) {- 10} [- 10] = [- 10]" by (simp add: remap_parents_def)
  have dec: "decode_txs demo_log_any [[5]] = Inr [5]" by (simp add: demo_dnode_sel)
  obtain c where c: "dag_apply demo_log_any b (demo_dag\<lparr>dc_log := log_record [9]\<rparr>) = Some (Inr (), c)"
    "c = demo_dag\<lparr>dc_log := log_record [9], dc_engine := demo_engine_next 3 (- 10) (- 11), dc_block_txs := [- 11 \<mapsto> [5]],
       dc_headers := (dc_headers demo_dag)(- 11 \<mapsto> db_header b), dc_blocks := {- 11, - 10}, dc_tips := [- 11]\<rparr>"
    by (simp add: dag_apply_def apply_with_id_def i demo_dag_sel b remap demo_add_block ORIGIN_def dec Let_def
        del: decode_txs.simps)
  have "dag_mine demo_log_any 1750000005 [5] demo_dag = Some (Inr b, c)"
    using b(1) log c(1) by (simp add: dag_mine_def mine_at_def rbind_def)
  then show ?thesis by (intro exI conjI, assumption) (simp_all add: c(2) demo_dag_rest demo_dag_sel)
qed

lemma demo_mined_state:
  assumes "dc_engine c = demo_engine_next 3 (- 10) (- 11)" "dc_state c = None" "dc_checkpoint c = None"
    "dc_base_accounts c = None" "dc_allocations c = []" "dc_history_pruned c = False" "dc_finality_depth c = 100"
    "dc_genesis_dag c = - 10" "dc_block_txs c (- 11) = Some [5]" "dc_headers c (- 11) \<noteq> None"
  shows "dc_total_order c = Some [- 10, - 11]"
    "\<exists>bank. virtual_state demo_log_any c = Some (Inr bank, c\<lparr>dc_state := Some bank, dc_executed := [- 10, - 11]\<rparr>)"
proof -
  show order: "dc_total_order c = Some [- 10, - 11]"
    using demo_order assms(1) by (simp add: dc_total_order_def demo_grown_def)
  obtain b0 where b0: "fresh_bank demo_log_any c StateDir = Some (Inr b0)"
    by (simp add: fresh_bank_def open_bank_def demo_log_any_def demo_env_def seed_db_def assms bank_new_def
        demo_bank_def demo_svm_def)
  obtain h where h: "dc_headers c (- 11) = Some h" using assms(10) by auto
  have "\<exists>b1. pay_coinbase demo_bank c (- 11) b0 = Some (Inr (), b1)"
    using demo_airdrop [of "dh_miner h" "dc_reward c" b0] h by (simp add: pay_coinbase_def)
  then obtain b1 where b1: "pay_coinbase demo_bank c (- 11) b0 = Some (Inr (), b1)" ..
  obtain o1 b2 where b2: "execute_transaction demo_bank 5 env_blockhash b1 = Some (Inr o1, b2)"
    using demo_tx_fails by blast
  have "replay_blocks demo_bank c [- 10, - 11] b0 = Some (Inr (), b2)"
    using b1 b2 by (simp add: replay_blocks_def replay_block_def replay_txs_def assms rbind_def)
  then have "next_bank demo_log_any c [- 10, - 11] = Some (Inr b2)"
    using b0 by (simp add: next_bank_def can_extend_def assms virtual_bank_def from_checkpoint_def prune_gone_def
        run_bank_def demo_dnode_sel)
  moreover have "maybe_advance_checkpoint demo_log_any (c\<lparr>dc_state := Some b2, dc_executed := [- 10, - 11]\<rparr>)
      = Some (Inr (), c\<lparr>dc_state := Some b2, dc_executed := [- 10, - 11]\<rparr>)"
    by (simp add: maybe_advance_checkpoint_def assms usize_add_def Let_def)
  ultimately have "virtual_state demo_log_any c = Some (Inr b2, c\<lparr>dc_state := Some b2, dc_executed := [- 10, - 11]\<rparr>)"
    by (simp add: virtual_state_def order rbind_def)
  then show "\<exists>bank. virtual_state demo_log_any c = Some (Inr bank, c\<lparr>dc_state := Some bank, dc_executed := [- 10, - 11]\<rparr>)" ..
qed

lemma demo_mine_tick: "\<exists>n'. mine_tick demo_dnode 500 0 demo_input demo_run_node = Some (Inr False, n')"
proof -
  obtain b c where m: "dag_mine demo_log_any 1750000005 [5] demo_dag = Some (Inr b, c)"
    and c: "dc_engine c = demo_engine_next 3 (- 10) (- 11)" "dc_state c = None" "dc_checkpoint c = None"
    "dc_base_accounts c = None" "dc_allocations c = []" "dc_history_pruned c = False" "dc_finality_depth c = 100"
    "dc_genesis_dag c = - 10" "dc_block_txs c (- 11) = Some [5]" "dc_headers c (- 11) \<noteq> None"
    using demo_mine_any by metis
  obtain bank where v: "virtual_state demo_log_any c = Some (Inr bank, c\<lparr>dc_state := Some bank, dc_executed := [- 10, - 11]\<rparr>)"
    using demo_mined_state(2) [OF c] by blast
  obtain txs sh where d: "drain_mempool (\<lambda>t. Some [t]) (dn_shared demo_run_node) = (txs, sh)" "txs = [5]"
    by (simp add: demo_run_node_def drain_mempool_def mempool_drain_def Let_def)
  have "refresh demo_dnode [5] n \<noteq> None" if "dn_chain n = c" for n
  proof -
    have "dc_total_order (c\<lparr>dc_state := Some bank, dc_executed := [- 10, - 11]\<rparr>) = dc_total_order c"
      by (simp add: dc_total_order_def)
    then show ?thesis using that v demo_mined_state(1) [OF c] by (simp add: refresh_def demo_dnode_sel)
  qed
  note refreshed = this
  obtain n2 where "refresh demo_dnode [5] ((tell_all demo_dnode (NewBlock [8]) (demo_run_node\<lparr>dn_shared := sh, dn_chain := c\<rparr>))
      \<lparr>dn_produced := dn_produced (demo_run_node\<lparr>dn_shared := sh\<rparr>) + 1\<rparr>) = Some n2"
    using refreshed [of "(tell_all demo_dnode (NewBlock [8]) (demo_run_node\<lparr>dn_shared := sh, dn_chain := c\<rparr>))
      \<lparr>dn_produced := dn_produced (demo_run_node\<lparr>dn_shared := sh\<rparr>) + 1\<rparr>"] by auto
  then show ?thesis using m d by (simp add: mine_tick_def demo_dnode_sel demo_input_def Let_def)
qed

theorem mined_txs_reported_ok_witness:
  "\<exists>n'. mine_tick demo_dnode 500 0 demo_input demo_run_node = Some (Inr False, n')
    \<and> signature_status [5] (dn_shared n') = Some None
    \<and> (\<forall>b. \<exists>outcome b'. execute_transaction demo_bank 5 env_blockhash b = Some (Inr outcome, b') \<and> \<not> to_succeeded outcome)"
proof -
  obtain n' where n': "mine_tick demo_dnode 500 0 demo_input demo_run_node = Some (Inr False, n')"
    using demo_mine_tick by blast
  have "int (unat (500 :: u64)) \<le> di_instant demo_input 8 - dn_last_mine demo_run_node"
    by (simp add: demo_input_def demo_dnode_sel)
  moreover have "5 \<in> set (fst (drain_mempool (dv_first_sig demo_dnode) (dn_shared demo_run_node)))"
    by (simp add: demo_run_node_def drain_mempool_def mempool_drain_def Let_def)
  moreover have "dv_first_sig demo_dnode 5 = Some [5]" by (simp add: demo_dnode_sel)
  ultimately have "signature_status [5] (dn_shared n') = Some None" by (rule mined_txs_reported_ok [OF n'])
  then show ?thesis using n' demo_tx_fails by blast
qed

end
