(* ===== verification/Gemm.thy ===== *)
theory Gemm
  imports Block
begin

text \<open>
  \<open>tao-pouw/src/gemm.rs\<close>: integer matrix products with wrapping arithmetic, the noise expanded
  from a seed, and the transcript hash.  Matrices are flat row-major lists; indexing past the end
  panics (\<open>None\<close>).  BLAKE3 and its extensible output are the parameters \<open>H\<close> and \<open>X\<close>
  (\<open>X input count\<close> are the first \<open>count\<close> output bytes).

  The lemmas give the entries of the products and show that the noised product is the true
  product plus two correction terms, in the ring of 64-bit words: \<open>E * (B + F)\<close> and \<open>A * F\<close>, each
  bracketed so that a factor of the low-rank noise is multiplied first.
\<close>

type_synonym xof = "bytes \<Rightarrow> nat \<Rightarrow> bytes"

definition xof_ok :: "xof \<Rightarrow> bool" where
  "xof_ok X \<longleftrightarrow> (\<forall>s n. length (X s n) = n)"

definition get_at :: "'a list \<Rightarrow> nat \<Rightarrow> 'a option" where
  "get_at xs i = (if i < length xs then Some (xs ! i) else None)"

lemma get_at_Some [simp]: "i < length xs \<Longrightarrow> get_at xs i = Some (xs ! i)"
  by (simp add: get_at_def)

definition fill :: "xof \<Rightarrow> bytes32 \<Rightarrow> byte \<Rightarrow> nat \<Rightarrow> i64 list" where
  "fill X seed domain count = map (\<lambda>b. scast b) (X (bytes_of seed @ [domain]) count)"

text \<open>The inner loop: the index functions give the two factors of the \<open>k\<close>-th term.\<close>

fun dot_loop :: "i64 list \<Rightarrow> i64 list \<Rightarrow> (nat \<Rightarrow> nat) \<Rightarrow> (nat \<Rightarrow> nat) \<Rightarrow> nat list \<Rightarrow> i64 \<Rightarrow> i64 option" where
  "dot_loop l r f g [] acc = Some acc"
| "dot_loop l r f g (k # ks) acc =
     Option.bind (get_at l (f k)) (\<lambda>x.
     Option.bind (get_at r (g k)) (\<lambda>y.
     dot_loop l r f g ks (acc + x * y)))"

definition tabulate :: "nat \<Rightarrow> nat \<Rightarrow> (nat \<Rightarrow> nat \<Rightarrow> 'a) \<Rightarrow> 'a list" where
  "tabulate rows cols entry = concat (map (\<lambda>i. map (entry i) [0..<cols]) [0..<rows])"

definition lowrank :: "i64 list \<Rightarrow> i64 list \<Rightarrow> nat \<Rightarrow> nat \<Rightarrow> nat \<Rightarrow> i64 list option" where
  "lowrank l r rows cols rank =
     those (tabulate rows cols
       (\<lambda>i j. dot_loop l r (\<lambda>k. i * rank + k) (\<lambda>k. j * rank + k) [0..<rank] 0))"

definition matmul :: "i64 list \<Rightarrow> i64 list \<Rightarrow> nat \<Rightarrow> i64 list option" where
  "matmul a b n =
     those (tabulate n n (\<lambda>i j. dot_loop a b (\<lambda>k. i * n + k) (\<lambda>k. k * n + j) [0..<n] 0))"

definition add_noise :: "i64 list \<Rightarrow> i64 list \<Rightarrow> i64 list" where
  "add_noise xs ys = map (\<lambda>(x, y). x + y) (zip xs ys)"

definition i64_bytes :: "i64 \<Rightarrow> bytes" where
  "i64_bytes v = le_bytes 8 (unat v)"

definition transcript :: "hasher \<Rightarrow> i64 list \<Rightarrow> bytes32" where
  "transcript H c = H (concat (map i64_bytes c))"

definition noise_e :: "xof \<Rightarrow> nat \<Rightarrow> nat \<Rightarrow> bytes32 \<Rightarrow> i64 list option" where
  "noise_e X n rank seed = lowrank (fill X seed 2 (n * rank)) (fill X seed 3 (n * rank)) n n rank"

definition noise_f :: "xof \<Rightarrow> nat \<Rightarrow> nat \<Rightarrow> bytes32 \<Rightarrow> i64 list option" where
  "noise_f X n rank seed = lowrank (fill X seed 4 (n * rank)) (fill X seed 5 (n * rank)) n n rank"

definition noisy_product_transcript ::
    "hasher \<Rightarrow> xof \<Rightarrow> i64 list \<Rightarrow> i64 list \<Rightarrow> nat \<Rightarrow> nat \<Rightarrow> bytes32 \<Rightarrow> bytes32 option" where
  "noisy_product_transcript H X a b n rank seed =
     Option.bind (noise_e X n rank seed) (\<lambda>e.
     Option.bind (noise_f X n rank seed) (\<lambda>f.
     map_option (transcript H) (matmul (add_noise a e) (add_noise b f) n)))"

subsection \<open>Entries\<close>

lemma length_tabulate [simp]: "length (tabulate rows cols entry) = rows * cols"
  by (induction rows) (simp_all add: tabulate_def)

lemma nth_tabulate: "i < rows \<Longrightarrow> j < cols \<Longrightarrow> tabulate rows cols entry ! (i * cols + j) = entry i j"
proof (induction rows)
  case (Suc rows)
  have eq: "tabulate (Suc rows) cols entry = tabulate rows cols entry @ map (entry rows) [0..<cols]"
    by (simp add: tabulate_def)
  show ?case
  proof (cases "i < rows")
    case True
    then have "i * cols + j < rows * cols"
      using Suc.prems(2) by (metis add.commute less_le_trans mult_Suc nat_add_left_cancel_less
        Suc_leI mult_le_mono1)
    then show ?thesis using Suc.IH True Suc.prems(2) by (simp add: eq nth_append)
  next
    case False
    then have "i = rows" using Suc.prems(1) by simp
    then show ?thesis using Suc.prems(2) by (simp add: eq nth_append)
  qed
qed simp

lemma tabulate_cong:
  "(\<And>i j. i < rows \<Longrightarrow> j < cols \<Longrightarrow> f i j = g i j) \<Longrightarrow> tabulate rows cols f = tabulate rows cols g"
  unfolding tabulate_def by (intro arg_cong [where f = concat] map_cong) auto

lemma those_map_Some: "those (map (\<lambda>x. Some (f x)) xs) = Some (map f xs)"
  by (induction xs) auto

lemma those_append: "those (xs @ ys) = Option.bind (those xs) (\<lambda>us. map_option (\<lambda>vs. us @ vs) (those ys))"
  by (induction xs) (auto split: option.split simp: map_option_case bind_eq_None_conv)

lemma those_tabulate: "those (tabulate rows cols (\<lambda>i j. Some (f i j))) = Some (tabulate rows cols f)"
  by (induction rows) (simp_all add: tabulate_def those_append those_map_Some)

lemma dot_loop_eq:
  assumes "\<And>k. k \<in> set ks \<Longrightarrow> f k < length l" "\<And>k. k \<in> set ks \<Longrightarrow> g k < length r"
  shows "dot_loop l r f g ks acc = Some (acc + (\<Sum>k\<leftarrow>ks. l ! f k * r ! g k))"
  using assms by (induction ks arbitrary: acc) (simp_all add: add.assoc)

lemma index_bound: "i < n \<Longrightarrow> k < (m :: nat) \<Longrightarrow> i * m + k < n * m"
  by (metis add.commute less_le_trans mult_Suc nat_add_left_cancel_less Suc_leI mult_le_mono1)

text \<open>The specification of both products.\<close>

definition mat :: "nat \<Rightarrow> i64 list \<Rightarrow> nat \<Rightarrow> nat \<Rightarrow> i64" where
  "mat cols xs i j = xs ! (i * cols + j)"

definition product :: "nat \<Rightarrow> (nat \<Rightarrow> nat \<Rightarrow> i64) \<Rightarrow> (nat \<Rightarrow> nat \<Rightarrow> i64) \<Rightarrow> nat \<Rightarrow> nat \<Rightarrow> i64" where
  "product m a b i j = (\<Sum>k < m. a i k * b k j)"

lemma sum_list_upt: "(\<Sum>k\<leftarrow>[0..<n]. h k) = (\<Sum>k < n. h k)" for h :: "nat \<Rightarrow> 'a::comm_monoid_add"
  by (simp add: interv_sum_list_conv_sum_set_nat atLeast0LessThan)

lemma matmul_eq:
  assumes "length a = n * n" "length b = n * n"
  shows "matmul a b n = Some (tabulate n n (product n (mat n a) (mat n b)))"
proof -
  have "dot_loop a b (\<lambda>k. i * n + k) (\<lambda>k. k * n + j) [0..<n] 0 = Some (product n (mat n a) (mat n b) i j)"
    if "i < n" "j < n" for i j
    using that assms index_bound
    by (subst dot_loop_eq) (simp_all add: product_def mat_def sum_list_upt)
  then show ?thesis
    unfolding matmul_def by (subst tabulate_cong) (auto intro: those_tabulate)
qed

lemma lowrank_eq:
  assumes "length l = rows * rank" "length r = cols * rank"
  shows "lowrank l r rows cols rank =
    Some (tabulate rows cols (product rank (mat rank l) (\<lambda>k j. mat rank r j k)))"
proof -
  have "dot_loop l r (\<lambda>k. i * rank + k) (\<lambda>k. j * rank + k) [0..<rank] 0 =
      Some (product rank (mat rank l) (\<lambda>k j. mat rank r j k) i j)"
    if "i < rows" "j < cols" for i j
    using that assms index_bound
    by (subst dot_loop_eq) (simp_all add: product_def mat_def sum_list_upt)
  then show ?thesis
    unfolding lowrank_def by (subst tabulate_cong) (auto intro: those_tabulate)
qed

lemma length_add_noise [simp]: "length (add_noise xs ys) = min (length xs) (length ys)"
  by (simp add: add_noise_def)

lemma mat_tabulate: "i < rows \<Longrightarrow> j < cols \<Longrightarrow> mat cols (tabulate rows cols f) i j = f i j"
  by (simp add: mat_def nth_tabulate)

lemma mat_add_noise:
  assumes "length xs = n * n" "length ys = n * n" "i < n" "j < n"
  shows "mat n (add_noise xs ys) i j = mat n xs i j + mat n ys i j"
  using assms index_bound [of i n j n] by (simp add: mat_def add_noise_def)

lemma product_cong:
  "(\<And>k. k < m \<Longrightarrow> a i k = a' i k) \<Longrightarrow> (\<And>k. k < m \<Longrightarrow> b k j = b' k j) \<Longrightarrow>
     product m a b i j = product m a' b' i j"
  by (simp add: product_def)

lemma product_add:
  "product m (\<lambda>i j. a i j + e i j) b i j = product m a b i j + product m e b i j"
  "product m a (\<lambda>i j. b i j + f i j) i j = product m a b i j + product m a f i j"
  by (simp_all add: product_def distrib_left distrib_right sum.distrib)

lemma product_assoc:
  "product m (product r x y) b i j = product r x (product m y b) i j"
proof -
  have "product m (product r x y) b i j = (\<Sum>k < m. \<Sum>t < r. x i t * y t k * b k j)"
    by (simp add: product_def sum_distrib_right)
  also have "\<dots> = (\<Sum>t < r. \<Sum>k < m. x i t * y t k * b k j)" by (rule sum.swap)
  also have "\<dots> = product r x (product m y b) i j"
    by (simp add: product_def sum_distrib_left mult.assoc)
  finally show ?thesis .
qed

lemma length_fill [simp]: "xof_ok X \<Longrightarrow> length (fill X seed d n) = n"
  by (simp add: fill_def xof_ok_def)

lemma noise_eq:
  assumes "xof_ok X"
  shows "noise_e X n rank seed = Some (tabulate n n (product rank (mat rank (fill X seed 2 (n * rank)))
      (\<lambda>k j. mat rank (fill X seed 3 (n * rank)) j k)))"
    "noise_f X n rank seed = Some (tabulate n n (product rank (mat rank (fill X seed 4 (n * rank)))
      (\<lambda>k j. mat rank (fill X seed 5 (n * rank)) j k)))"
  using assms by (simp_all add: noise_e_def noise_f_def lowrank_eq)

text \<open>
  The true product comes back from the noised one by subtracting \<open>E * (B + F)\<close> and \<open>A * F\<close>.
  With \<open>E = El * Er\<^sup>T\<close> and \<open>F = Fl * Fr\<^sup>T\<close> these are bracketed as \<open>El * (Er\<^sup>T * (B + F))\<close>
  and \<open>(A * Fl) * Fr\<^sup>T\<close>.
\<close>

lemma noised_product_entry:
  assumes "length a = n * n" "length b = n * n" "i < n" "j < n"
    and "e = tabulate n n (product r el er)" "f = tabulate n n (product r fl fr)"
  shows "product n (mat n (add_noise a e)) (mat n (add_noise b f)) i j =
      product n (mat n a) (mat n b) i j + product r el (product n er (mat n (add_noise b f))) i j
      + product r (product n (mat n a) fl) fr i j"
proof -
  have len: "length e = n * n" "length f = n * n" using assms(5,6) by simp_all
  have "product n (mat n (add_noise a e)) (mat n (add_noise b f)) i j =
      product n (\<lambda>i k. mat n a i k + product r el er i k) (mat n (add_noise b f)) i j"
    using assms len by (intro product_cong) (simp_all add: mat_add_noise mat_tabulate)
  also have "\<dots> = product n (mat n a) (mat n (add_noise b f)) i j
      + product r el (product n er (mat n (add_noise b f))) i j"
    by (simp add: product_add product_assoc)
  also have "product n (mat n a) (mat n (add_noise b f)) i j =
      product n (mat n a) (\<lambda>k j. mat n b k j + product r fl fr k j) i j"
    using assms len by (intro product_cong) (simp_all add: mat_add_noise mat_tabulate)
  also have "\<dots> = product n (mat n a) (mat n b) i j + product r (product n (mat n a) fl) fr i j"
    by (simp add: product_add product_assoc)
  finally show ?thesis by (simp add: add_ac)
qed

text \<open>The two corrections, from the noise factors of the seed, \<open>a\<close> and the noised right operand.\<close>

definition recovered ::
    "xof \<Rightarrow> nat \<Rightarrow> nat \<Rightarrow> bytes32 \<Rightarrow> i64 list \<Rightarrow> i64 list \<Rightarrow> i64 list \<Rightarrow> i64 list" where
  "recovered X n rank seed a bn c =
     (let el = mat rank (fill X seed 2 (n * rank)); er = mat rank (fill X seed 3 (n * rank));
          fl = mat rank (fill X seed 4 (n * rank)); fr = mat rank (fill X seed 5 (n * rank))
      in tabulate n n (\<lambda>i j. mat n c i j
           - product rank el (product n (\<lambda>k j. er j k) (mat n bn)) i j
           - product rank (product n (mat n a) fl) (\<lambda>k j. fr j k) i j))"

lemma recovered_product:
  assumes "xof_ok X" "length a = n * n" "length b = n * n"
    and ef: "noise_e X n rank seed = Some e" "noise_f X n rank seed = Some f"
    and c: "matmul (add_noise a e) (add_noise b f) n = Some c"
  shows "matmul a b n = Some (recovered X n rank seed a (add_noise b f) c)"
proof -
  note noise = noise_eq [OF assms(1), of n rank seed, unfolded ef option.inject]
  have "length e = n * n" "length f = n * n" using noise by simp_all
  then have "c = tabulate n n (product n (mat n (add_noise a e)) (mat n (add_noise b f)))"
    using c assms(2,3) by (simp add: matmul_eq)
  then show ?thesis
    unfolding matmul_eq [OF assms(2,3)] recovered_def Let_def option.inject
    using noised_product_entry [OF assms(2,3) _ _ noise]
    by (intro tabulate_cong) (simp add: mat_tabulate)
qed

end
