(* ===== verification/UtilityGate.thy ===== *)
theory UtilityGate
  imports Gemm
begin

text \<open>
  \<open>tao-pouw/src/utility_gate.rs\<close>: a Merkle commitment over weight tiles, the model registry, and
  the gate that accepts a solution only for the committed tile and the requested input.  The
  lemmas show that the proofs of the registry verify, and that a verified path of any length leads
  to the committed tile, provided BLAKE3 has no collision among the inputs hashed.
\<close>

definition ascii :: "string \<Rightarrow> bytes" where
  "ascii s = map of_char s"

record gate_proof =
  gp_index :: nat
  gp_siblings :: "bytes32 list"

definition tile_bytes :: "i64 list \<Rightarrow> bytes" where
  "tile_bytes tile = ascii ''tao-tile'' @ concat (map i64_bytes tile)"

definition tile_leaf :: "hasher \<Rightarrow> i64 list \<Rightarrow> bytes32" where
  "tile_leaf H tile = H (tile_bytes tile)"

definition node_hash :: "hasher \<Rightarrow> bytes32 \<Rightarrow> bytes32 \<Rightarrow> bytes32" where
  "node_hash H l r = H (bytes_of l @ bytes_of r)"

text \<open>The loop variable \<open>p\<close> is \<open>2 ^ e\<close>.\<close>

function pow2_loop :: "nat \<Rightarrow> nat \<Rightarrow> nat" where
  "pow2_loop e n = (if 2 ^ e < n then pow2_loop (e + 1) n else 2 ^ e)"
  by pat_completeness auto
termination
  by (relation "measure (\<lambda>(e, n). n - e)") (auto dest: less_trans [OF less_exp])

declare pow2_loop.simps [simp del]

definition next_pow2 :: "nat \<Rightarrow> nat" where
  "next_pow2 n = pow2_loop 0 n"

definition empty_tile :: "hasher \<Rightarrow> bytes32" where
  "empty_tile H = H (ascii ''tao-empty-tile'')"

definition padded_leaves :: "hasher \<Rightarrow> bytes32 list \<Rightarrow> bytes32 list" where
  "padded_leaves H leaves =
     leaves @ replicate (next_pow2 (max (length leaves) 1) - length leaves) (empty_tile H)"

definition next_tiles :: "hasher \<Rightarrow> bytes32 list \<Rightarrow> bytes32 list" where
  "next_tiles H level = map (\<lambda>(l, r). node_hash H l r) (pairs level)"

function gate_levels :: "hasher \<Rightarrow> bytes32 list \<Rightarrow> bytes32 list" where
  "gate_levels H level = (if 1 < length level then gate_levels H (next_tiles H level) else level)"
  by pat_completeness auto
termination
  by (relation "measure (\<lambda>(H, level). length level)") (auto simp: next_tiles_def)

declare gate_levels.simps [simp del]

definition gate_root :: "hasher \<Rightarrow> bytes32 list \<Rightarrow> bytes32" where
  "gate_root H leaves = gate_levels H leaves ! 0"

text \<open>\<open>idx ^ 1\<close>.\<close>

definition flip_low :: "nat \<Rightarrow> nat" where
  "flip_low i = (if even i then i + 1 else i - 1)"

function proof_loop :: "hasher \<Rightarrow> bytes32 list \<Rightarrow> nat \<Rightarrow> bytes32 list option" where
  "proof_loop H level idx =
     (if 1 < length level then
        Option.bind (get_at level (flip_low idx)) (\<lambda>s.
        map_option ((#) s) (proof_loop H (next_tiles H level) (idx div 2)))
      else Some [])"
  by pat_completeness auto
termination
  by (relation "measure (\<lambda>(H, level, idx). length level)") (auto simp: next_tiles_def)

declare proof_loop.simps [simp del]

definition gate_merkle_proof :: "hasher \<Rightarrow> bytes32 list \<Rightarrow> nat \<Rightarrow> gate_proof option" where
  "gate_merkle_proof H leaves index =
     map_option (\<lambda>sibs. \<lparr>gp_index = index, gp_siblings = sibs\<rparr>) (proof_loop H leaves index)"

definition path_step :: "hasher \<Rightarrow> bytes32 \<Rightarrow> nat \<Rightarrow> bytes32 \<Rightarrow> bytes32" where
  "path_step H h idx sib = (if even idx then node_hash H h sib else node_hash H sib h)"

fun path_hash :: "hasher \<Rightarrow> bytes32 \<Rightarrow> nat \<Rightarrow> bytes32 list \<Rightarrow> bytes32" where
  "path_hash H h idx [] = h"
| "path_hash H h idx (sib # sibs) = path_hash H (path_step H h idx sib) (idx div 2) sibs"

definition gate_merkle_verify :: "hasher \<Rightarrow> bytes32 \<Rightarrow> bytes32 \<Rightarrow> gate_proof \<Rightarrow> bool" where
  "gate_merkle_verify H root leaf p \<longleftrightarrow> path_hash H leaf (gp_index p) (gp_siblings p) = root"

subsection \<open>The registry\<close>

record registered_model =
  rm_name :: bytes
  rm_n :: nat
  rm_weight_root :: bytes32
  rm_num_tiles :: nat
  rm_padded_leaves :: "bytes32 list"

type_synonym model_registry = "bytes32 \<rightharpoonup> registered_model"

definition tile_leaves :: "hasher \<Rightarrow> i64 list list \<Rightarrow> bytes32 list" where
  "tile_leaves H tiles = padded_leaves H (map (tile_leaf H) tiles)"

definition model_id_of :: "hasher \<Rightarrow> bytes \<Rightarrow> nat \<Rightarrow> bytes32 \<Rightarrow> bytes32" where
  "model_id_of H name n root =
     H (ascii ''tao-model'' @ name @ le_bytes 8 n @ bytes_of root)"

definition model_register ::
    "hasher \<Rightarrow> bytes \<Rightarrow> nat \<Rightarrow> i64 list list \<Rightarrow> model_registry \<Rightarrow> (bytes32 \<times> model_registry) option" where
  "model_register H name n tiles reg =
     (if tiles = [] \<or> \<not> list_all (\<lambda>t. length t = n * n) tiles then None
      else
        let leaves = tile_leaves H tiles; root = gate_root H leaves; i = model_id_of H name n root in
        Some (i, reg(i \<mapsto> \<lparr>rm_name = name, rm_n = n, rm_weight_root = root,
          rm_num_tiles = length tiles, rm_padded_leaves = leaves\<rparr>)))"

text \<open>\<open>None\<close> outside: a panic; inside: an unknown model.\<close>

definition tile_proof :: "hasher \<Rightarrow> model_registry \<Rightarrow> bytes32 \<Rightarrow> nat \<Rightarrow> gate_proof option option" where
  "tile_proof H reg i index =
     (case reg i of None \<Rightarrow> Some None
      | Some m \<Rightarrow> map_option Some (gate_merkle_proof H (rm_padded_leaves m) index))"

subsection \<open>Work items and solutions\<close>

record work_item =
  wi_model_id :: bytes32
  wi_tile_index :: nat
  wi_input :: "i64 list"

definition work_commitment :: "hasher \<Rightarrow> work_item \<Rightarrow> bytes32" where
  "work_commitment H w =
     H (ascii ''tao-work'' @ bytes_of (wi_model_id w) @ le_bytes 8 (wi_tile_index w)
        @ bytes_of (tile_leaf H (wi_input w)))"

record bound_solution =
  bs_work_commitment :: bytes32
  bs_weight_tile :: "i64 list"
  bs_weight_proof :: gate_proof
  bs_input :: "i64 list"
  bs_nonce :: u64

datatype gate_error = UnknownModel | WorkMismatch | InputMismatch | ForgedWeights | PowNotMet

definition noise_seed :: "hasher \<Rightarrow> bytes32 \<Rightarrow> u64 \<Rightarrow> bytes32" where
  "noise_seed H wc nonce = H (ascii ''tao-noise'' @ bytes_of wc @ i64_bytes nonce)"

definition gate_verify ::
    "hasher \<Rightarrow> xof \<Rightarrow> nat \<Rightarrow> model_registry \<Rightarrow> work_item \<Rightarrow> target \<Rightarrow> bound_solution \<Rightarrow>
     (gate_error + unit) option" where
  "gate_verify H X rank reg w t sol =
     (case reg (wi_model_id w) of None \<Rightarrow> Some (Inl UnknownModel)
      | Some m \<Rightarrow>
          if bs_work_commitment sol \<noteq> work_commitment H w then Some (Inl WorkMismatch)
          else if bs_input sol \<noteq> wi_input w then Some (Inl InputMismatch)
          else if gp_index (bs_weight_proof sol) \<noteq> wi_tile_index w then Some (Inl ForgedWeights)
          else if \<not> gate_merkle_verify H (rm_weight_root m) (tile_leaf H (bs_weight_tile sol))
              (bs_weight_proof sol) then Some (Inl ForgedWeights)
          else
            let seed = noise_seed H (bs_work_commitment sol) (bs_nonce sol) in
            map_option (\<lambda>hash. if meets_target hash t then Inr () else Inl PowNotMet)
              (noisy_product_transcript H X (bs_weight_tile sol) (bs_input sol) (rm_n m) rank seed))"

definition gate_useful_output :: "bound_solution \<Rightarrow> nat \<Rightarrow> i64 list option" where
  "gate_useful_output sol n = matmul (bs_weight_tile sol) (bs_input sol) n"

text \<open>The search for the first nonce whose transcript meets the target.\<close>

partial_function (option) solve_loop :: "(u64 \<Rightarrow> bytes32 option) \<Rightarrow> target \<Rightarrow> u64 \<Rightarrow> u64 option" where
  "solve_loop hash_of t nonce =
     Option.bind (hash_of nonce) (\<lambda>hash.
     if meets_target hash t then Some nonce else solve_loop hash_of t (nonce + 1))"

definition solve ::
    "hasher \<Rightarrow> xof \<Rightarrow> nat \<Rightarrow> nat \<Rightarrow> work_item \<Rightarrow> target \<Rightarrow> i64 list \<Rightarrow> gate_proof \<Rightarrow>
     bound_solution option" where
  "solve H X rank n w t tile wp =
     (let wc = work_commitment H w in
      map_option (\<lambda>nonce. \<lparr>bs_work_commitment = wc, bs_weight_tile = tile, bs_weight_proof = wp,
          bs_input = wi_input w, bs_nonce = nonce\<rparr>)
        (solve_loop (\<lambda>nonce.
          noisy_product_transcript H X tile (wi_input w) n rank (noise_seed H wc nonce)) t 0))"

declare solve_loop.simps [code]

lemma solve_loop_Some:
  assumes "solve_loop hash_of t nonce = Some m"
  shows "\<exists>hash. hash_of m = Some hash \<and> meets_target hash t"
  using assms
proof (induction rule: solve_loop.raw_induct [rotated, consumes 1])
  case (1 search hash_of t nonce m)
  obtain hash where hash: "hash_of nonce = Some hash"
    using 1(2) by (cases "hash_of nonce") simp_all
  then have found: "(if meets_target hash t then Some nonce else search hash_of t (nonce + 1)) = Some m"
    using 1(2) by simp
  show ?case
  proof (cases "meets_target hash t")
    case True
    then show ?thesis using found hash by auto
  next
    case False
    then have "search hash_of t (nonce + 1) = Some m" using found by (simp only: if_False)
    then show ?thesis by (rule 1(1))
  qed
qed

subsection \<open>The tree over the leaves\<close>

lemma pow2_loop_is_pow2: "\<exists>d. pow2_loop e n = 2 ^ d"
proof (induction e n rule: pow2_loop.induct)
  case (1 e n)
  then show ?case by (cases "2 ^ e < n") (auto simp: pow2_loop.simps [of e n])
qed

lemma pow2_loop_ge: "n \<le> pow2_loop e n"
proof (induction e n rule: pow2_loop.induct)
  case (1 e n)
  then show ?case by (cases "2 ^ e < n") (auto simp: pow2_loop.simps [of e n])
qed

lemma padded_length:
  obtains d where "length (padded_leaves H leaves) = 2 ^ d"
proof -
  have "length leaves \<le> next_pow2 (max (length leaves) 1)"
    using pow2_loop_ge [of "max (length leaves) 1" 0] by (simp add: next_pow2_def)
  then have "length (padded_leaves H leaves) = next_pow2 (max (length leaves) 1)"
    by (simp add: padded_leaves_def)
  then show thesis using pow2_loop_is_pow2 [of 0] that by (auto simp: next_pow2_def)
qed

lemma gate_root_single [simp]: "length level = 1 \<Longrightarrow> gate_root H level = level ! 0"
  by (simp add: gate_root_def gate_levels.simps)

lemma gate_root_step: "1 < length level \<Longrightarrow> gate_root H level = gate_root H (next_tiles H level)"
  by (simp add: gate_root_def gate_levels.simps [of H level])

lemma length_next_tiles [simp]: "length (next_tiles H level) = length level div 2"
  by (simp add: next_tiles_def)

lemma next_tiles_nth:
  "i < length level div 2 \<Longrightarrow> next_tiles H level ! i = node_hash H (level ! (2 * i)) (level ! Suc (2 * i))"
  by (simp add: next_tiles_def pairs_nth)

text \<open>Completeness: the proof of an index leads from its leaf to the root.\<close>

lemma proof_loop_complete:
  assumes "length level = 2 ^ d" "i < 2 ^ d"
  shows "\<exists>sibs. proof_loop H level i = Some sibs \<and> path_hash H (level ! i) i sibs = gate_root H level"
  using assms
proof (induction d arbitrary: level i)
  case 0
  then show ?case by (simp add: proof_loop.simps)
next
  case (Suc d)
  have long: "1 < length level" using Suc.prems(1) by (simp add: Suc_lessI)
  have flip: "flip_low i < length level"
    using Suc.prems by (auto simp: flip_low_def elim!: oddE evenE)
  have half: "i div 2 < length level div 2" using Suc.prems by auto
  then have nxt: "next_tiles H level ! (i div 2) = path_step H (level ! i) i (level ! flip_low i)"
    by (auto simp: next_tiles_nth path_step_def flip_low_def elim!: oddE evenE)
  have "length (next_tiles H level) = 2 ^ d" "i div 2 < 2 ^ d" using Suc.prems by auto
  from Suc.IH [OF this] obtain sibs where
    "proof_loop H (next_tiles H level) (i div 2) = Some sibs"
    "path_hash H (next_tiles H level ! (i div 2)) (i div 2) sibs = gate_root H (next_tiles H level)"
    by blast
  then show ?case
    using long flip nxt gate_root_step [OF long, of H]
    by (simp add: proof_loop.simps [of H level])
qed

text \<open>The root of two halves.\<close>

lemma gate_root_halves:
  assumes "length xs = 2 ^ d" "length ys = 2 ^ d"
  shows "gate_root H (xs @ ys) = node_hash H (gate_root H xs) (gate_root H ys)"
  using assms
proof (induction d arbitrary: xs ys)
  case 0
  then obtain x y where "xs = [x]" "ys = [y]" by (auto simp: length_Suc_conv)
  then show ?case
    by (simp add: gate_root_def gate_levels.simps [of H "[_, _]"] gate_levels.simps [of H "[_]"]
        next_tiles_def)
next
  case (Suc d)
  have long: "1 < length xs" "1 < length ys" "1 < length (xs @ ys)"
    using Suc.prems by (simp_all add: Suc_lessI)
  have "next_tiles H (xs @ ys) = next_tiles H xs @ next_tiles H ys"
    using Suc.prems(1) by (simp add: next_tiles_def pairs_append)
  moreover have "gate_root H (next_tiles H xs @ next_tiles H ys) =
      node_hash H (gate_root H (next_tiles H xs)) (gate_root H (next_tiles H ys))"
    using Suc.prems by (intro Suc.IH) simp_all
  ultimately show ?case using long by (simp add: gate_root_step)
qed

subsection \<open>Binding\<close>

text \<open>The inputs hashed above the leaves of a tree of depth \<open>d\<close>, and along a path.\<close>

fun tree_inputs :: "hasher \<Rightarrow> nat \<Rightarrow> bytes32 list \<Rightarrow> bytes set" where
  "tree_inputs H 0 level = {}"
| "tree_inputs H (Suc d) level =
     insert (bytes_of (gate_root H (take (2 ^ d) level)) @ bytes_of (gate_root H (drop (2 ^ d) level)))
       (tree_inputs H d (take (2 ^ d) level) \<union> tree_inputs H d (drop (2 ^ d) level))"

definition step_input :: "bytes32 \<Rightarrow> nat \<Rightarrow> bytes32 \<Rightarrow> bytes" where
  "step_input h idx sib =
     (if even idx then bytes_of h @ bytes_of sib else bytes_of sib @ bytes_of h)"

fun path_inputs :: "hasher \<Rightarrow> bytes32 \<Rightarrow> nat \<Rightarrow> bytes32 list \<Rightarrow> bytes set" where
  "path_inputs H h idx [] = {}"
| "path_inputs H h idx (sib # sibs) =
     insert (step_input h idx sib) (path_inputs H (path_step H h idx sib) (idx div 2) sibs)"

lemma path_step_eq: "path_step H h idx sib = H (step_input h idx sib)"
  by (simp add: path_step_def step_input_def node_hash_def)

lemma length_step_input [simp]: "length (step_input h idx sib) = 64"
  by (simp add: step_input_def)

lemma path_hash_snoc:
  "path_hash H h idx (sibs @ [s]) = H (step_input (path_hash H h idx sibs) (idx div 2 ^ length sibs) s)"
  by (induction sibs arbitrary: h idx) (simp_all add: path_step_eq div_mult2_eq)

lemma path_inputs_snoc:
  "path_inputs H h idx (sibs @ [s]) =
     insert (step_input (path_hash H h idx sibs) (idx div 2 ^ length sibs) s) (path_inputs H h idx sibs)"
  by (induction sibs arbitrary: h idx) (auto simp: div_mult2_eq)

lemma path_binding:
  assumes "length level = 2 ^ d"
    and "\<And>l. l \<in> set level \<Longrightarrow> \<exists>y \<in> S. l = H y \<and> length y \<noteq> 64"
    and "x \<in> S" "length x \<noteq> 64"
    and "tree_inputs H d level \<subseteq> S" "path_inputs H (H x) idx sibs \<subseteq> S" "inj_on H S"
    and "path_hash H (H x) idx sibs = gate_root H level"
  shows "length sibs = d \<and> level ! (idx mod 2 ^ d) = H x"
  using assms(1,2,5,6,8)
proof (induction d arbitrary: level sibs)
  case 0
  then obtain l where l: "level = [l]" by (auto simp: length_Suc_conv)
  then obtain y where y: "y \<in> S" "l = H y" "length y \<noteq> 64" using 0(2) by auto
  have root: "gate_root H level = H y" using l y by simp
  show ?case
  proof (cases sibs rule: rev_cases)
    case Nil
    then show ?thesis using root 0(5) l y by simp
  next
    case (snoc sibs' s)
    then have "H (step_input (path_hash H (H x) idx sibs') (idx div 2 ^ length sibs') s) = H y"
      using 0(5) root by (simp add: path_hash_snoc)
    moreover have "step_input (path_hash H (H x) idx sibs') (idx div 2 ^ length sibs') s \<in> S"
      using 0(4) snoc by (simp add: path_inputs_snoc)
    ultimately have "step_input (path_hash H (H x) idx sibs') (idx div 2 ^ length sibs') s = y"
      using y(1) assms(7) by (meson inj_onD)
    then have "length y = 64" by (metis length_step_input)
    with y(3) show ?thesis by simp
  qed
next
  case (Suc d)
  define xs ys where "xs = take (2 ^ d) level" and "ys = drop (2 ^ d) level"
  have len: "length xs = 2 ^ d" "length ys = 2 ^ d" and level: "level = xs @ ys"
    using Suc.prems(1) by (simp_all add: xs_def ys_def)
  define top where "top = bytes_of (gate_root H xs) @ bytes_of (gate_root H ys)"
  have root: "gate_root H level = H top"
    using gate_root_halves [OF len, of H] by (simp add: level top_def node_hash_def)
  have top: "top \<in> S" and sub: "tree_inputs H d xs \<subseteq> S" "tree_inputs H d ys \<subseteq> S"
    using Suc.prems(3) by (simp_all add: xs_def ys_def top_def)
  have leaves: "\<And>l. l \<in> set xs \<Longrightarrow> \<exists>y \<in> S. l = H y \<and> length y \<noteq> 64"
    "\<And>l. l \<in> set ys \<Longrightarrow> \<exists>y \<in> S. l = H y \<and> length y \<noteq> 64"
    using Suc.prems(2) level by auto
  show ?case
  proof (cases sibs rule: rev_cases)
    case Nil
    then have "H x = H top" using Suc.prems(5) root by simp
    then have "x = top" using assms(3,7) top by (meson inj_onD)
    then show ?thesis using assms(4) by (simp add: top_def)
  next
    case (snoc sibs' s)
    define m where "m = idx div 2 ^ length sibs'"
    define h where "h = path_hash H (H x) idx sibs'"
    have "H (step_input h m s) = H top"
      using Suc.prems(5) root snoc by (simp add: path_hash_snoc m_def h_def)
    moreover have "step_input h m s \<in> S" and path: "path_inputs H (H x) idx sibs' \<subseteq> S"
      using Suc.prems(4) snoc by (auto simp: path_inputs_snoc m_def h_def)
    ultimately have eq: "step_input h m s = top" using top assms(7) by (meson inj_onD)
    show ?thesis
    proof (cases "even m")
      case True
      then have "h = gate_root H xs" using eq by (simp add: step_input_def top_def)
      then have ih: "length sibs' = d \<and> xs ! (idx mod 2 ^ d) = H x"
        using Suc.IH [OF len(1) leaves(1) sub(1) path] by (simp add: h_def)
      then have "idx mod 2 ^ Suc d = idx mod 2 ^ d"
        using True by (simp add: m_def mod_mult2_eq even_iff_mod_2_eq_zero mult.commute [of 2])
      then show ?thesis using ih snoc len by (simp add: level nth_append)
    next
      case False
      then have "h = gate_root H ys" using eq by (simp add: step_input_def top_def)
      then have ih: "length sibs' = d \<and> ys ! (idx mod 2 ^ d) = H x"
        using Suc.IH [OF len(2) leaves(2) sub(2) path] by (simp add: h_def)
      then have "idx mod 2 ^ Suc d = 2 ^ d + idx mod 2 ^ d"
        using False by (simp add: m_def mod_mult2_eq odd_iff_mod_2_eq_one mult.commute [of 2])
      then show ?thesis using ih snoc len by (simp add: level nth_append)
    qed
  qed
qed

end
