(* ===== verification/Pouw.thy ===== *)
theory Pouw
  imports UtilityGate Pow "HOL-Library.Log_Nat"
begin

text \<open>
  \<open>tao-pouw/src/lib.rs\<close>: the two matrix-product PoW algorithms.  Both keep the contract of
  \<open>PowAlgorithm\<close> (interpretations of \<open>pow_contract\<close>), so mining and the height switch apply to
  them.  A hash that would panic is excluded by the constructors' assertions; the \<open>pow_hash\<close> of
  the record reads it with \<open>the\<close>, and \<open>matmul_hash_total\<close> and \<open>gate_hash_total\<close> show that there
  is always a value.
\<close>

record matmul_pow =
  mp_n :: nat
  mp_rank :: nat

definition matmul_pow_new :: "nat \<Rightarrow> nat \<Rightarrow> matmul_pow option" where
  "matmul_pow_new n rank =
     (if 0 < n \<and> 0 < rank \<and> rank \<le> n then Some \<lparr>mp_n = n, mp_rank = rank\<rparr> else None)"

definition gpu_default :: "matmul_pow option" where
  "gpu_default = matmul_pow_new 64 4"

definition matmul_compute ::
    "hasher \<Rightarrow> xof \<Rightarrow> (block_header \<Rightarrow> bytes) \<Rightarrow> matmul_pow \<Rightarrow> block_header \<Rightarrow> bytes32 option" where
  "matmul_compute H X ser p h =
     (let seed = H (ser h); n = mp_n p; r = mp_rank p;
          a = fill X seed 0 (n * n); b = fill X seed 1 (n * n) in
      noisy_product_transcript H X a b n r seed)"

definition matmul_algorithm ::
    "hasher \<Rightarrow> xof \<Rightarrow> (block_header \<Rightarrow> bytes) \<Rightarrow> matmul_pow \<Rightarrow> pow_algorithm" where
  "matmul_algorithm H X ser p =
     \<lparr>pa_name = ''matmul-pouw'', pa_pow_hash = (\<lambda>h. the (matmul_compute H X ser p h)),
      pa_verify = default_verify (\<lambda>h. the (matmul_compute H X ser p h))\<rparr>"

subsection \<open>The utility gate as block PoW\<close>

record utility_gate_pow =
  ug_weights :: "i64 list list"
  ug_n :: nat
  ug_rank :: nat
  ug_model_id :: bytes32

definition gate_from_weights ::
    "hasher \<Rightarrow> bytes \<Rightarrow> nat \<Rightarrow> nat \<Rightarrow> i64 list list \<Rightarrow> utility_gate_pow option" where
  "gate_from_weights H name n rank weights =
     (if \<not> (0 < n \<and> 0 < rank \<and> rank \<le> n \<and> weights \<noteq> []) then None
      else if \<not> list_all (\<lambda>t. length t = n * n) weights then None
      else Option.bind (model_register H name n weights (\<lambda>_. None)) (\<lambda>(model_id, _).
        Some \<lparr>ug_weights = weights, ug_n = n, ug_rank = rank, ug_model_id = model_id\<rparr>))"

definition gate_demo :: "hasher \<Rightarrow> bytes \<Rightarrow> nat \<Rightarrow> nat \<Rightarrow> nat \<Rightarrow> utility_gate_pow option" where
  "gate_demo H name n rank tiles =
     gate_from_weights H name n rank
       (map (\<lambda>t. map (\<lambda>i. word_of_nat ((t * 7 + i * 3) mod 17) - 8) [0..<n * n]) [0..<tiles])"

definition gate_from_seed ::
    "hasher \<Rightarrow> xof \<Rightarrow> bytes \<Rightarrow> nat \<Rightarrow> nat \<Rightarrow> nat \<Rightarrow> bytes32 \<Rightarrow> utility_gate_pow option" where
  "gate_from_seed H X name n rank tiles seed =
     gate_from_weights H name n rank
       (map (\<lambda>t. fill X (H (ascii ''tao-weight-tile'' @ bytes_of seed @ le_bytes 8 t)) 0 (n * n))
         [0..<tiles])"

text \<open>The work item of a header: the tile index, the input and the commitment.\<close>

definition header_base :: "hasher \<Rightarrow> (block_header \<Rightarrow> bytes) \<Rightarrow> block_header \<Rightarrow> bytes32" where
  "header_base H ser h = H (ser (h\<lparr>bh_nonce := 0\<rparr>))"

definition gate_work ::
    "hasher \<Rightarrow> xof \<Rightarrow> (block_header \<Rightarrow> bytes) \<Rightarrow> utility_gate_pow \<Rightarrow> block_header \<Rightarrow>
     nat \<times> i64 list \<times> bytes32" where
  "gate_work H X ser g h =
     (let base = header_base H ser h;
          tile = le_value (take 8 (bytes_of base)) mod length (ug_weights g);
          input = fill X base 7 (ug_n g * ug_n g);
          wc = H (ascii ''tao-utility-wc'' @ bytes_of (ug_model_id g) @ bytes_of base) in
      (tile, input, wc))"

definition gate_output ::
    "hasher \<Rightarrow> xof \<Rightarrow> (block_header \<Rightarrow> bytes) \<Rightarrow> utility_gate_pow \<Rightarrow> block_header \<Rightarrow> i64 list option" where
  "gate_output H X ser g h =
     (let (tile, input, _) = gate_work H X ser g h in
      Option.bind (get_at (ug_weights g) tile) (\<lambda>w. matmul w input (ug_n g)))"

definition gate_hash ::
    "hasher \<Rightarrow> xof \<Rightarrow> (block_header \<Rightarrow> bytes) \<Rightarrow> utility_gate_pow \<Rightarrow> block_header \<Rightarrow> bytes32 option" where
  "gate_hash H X ser g h =
     (let (tile, input, wc) = gate_work H X ser g h;
          seed = H (ascii ''tao-noise'' @ bytes_of wc @ i64_bytes (bh_nonce h)) in
      Option.bind (get_at (ug_weights g) tile) (\<lambda>w.
      noisy_product_transcript H X w input (ug_n g) (ug_rank g) seed))"

definition gate_algorithm ::
    "hasher \<Rightarrow> xof \<Rightarrow> (block_header \<Rightarrow> bytes) \<Rightarrow> utility_gate_pow \<Rightarrow> pow_algorithm" where
  "gate_algorithm H X ser g =
     \<lparr>pa_name = ''utility-matmul-pouw'', pa_pow_hash = (\<lambda>h. the (gate_hash H X ser g h)),
      pa_verify = default_verify (\<lambda>h. the (gate_hash H X ser g h))\<rparr>"

subsection \<open>The contract\<close>

interpretation matmul_pow: pow_contract
  "pa_pow_hash (matmul_algorithm H X ser p)" "pa_verify (matmul_algorithm H X ser p)"
  for H :: hasher and X :: xof and ser :: "block_header \<Rightarrow> bytes" and p :: matmul_pow
  by unfold_locales (simp add: matmul_algorithm_def default_verify_def)

interpretation gate_pow: pow_contract
  "pa_pow_hash (gate_algorithm H X ser g)" "pa_verify (gate_algorithm H X ser g)"
  for H :: hasher and X :: xof and ser :: "block_header \<Rightarrow> bytes" and g :: utility_gate_pow
  by unfold_locales (simp add: gate_algorithm_def default_verify_def)

lemma pouw_ok: "pow_ok (matmul_algorithm H X ser p)" "pow_ok (gate_algorithm H X ser g)"
  unfolding pow_ok_def by (rule matmul_pow.pow_contract_axioms gate_pow.pow_contract_axioms)+

lemma noisy_transcript_eq:
  assumes "xof_ok X" "length a = n * n" "length b = n * n"
  obtains e f where "noise_e X n rank seed = Some e" "noise_f X n rank seed = Some f"
    "length e = n * n" "length f = n * n"
    "noisy_product_transcript H X a b n rank seed = Some (transcript H
      (tabulate n n (product n (mat n (add_noise a e)) (mat n (add_noise b f)))))"
proof -
  define e where "e = the (noise_e X n rank seed)"
  define f where "f = the (noise_f X n rank seed)"
  have ef: "noise_e X n rank seed = Some e" "noise_f X n rank seed = Some f"
    "length e = n * n" "length f = n * n"
    using noise_eq [OF assms(1), of n rank seed] by (simp_all add: e_def f_def)
  then have "matmul (add_noise a e) (add_noise b f) n =
      Some (tabulate n n (product n (mat n (add_noise a e)) (mat n (add_noise b f))))"
    using assms by (intro matmul_eq) simp_all
  then show thesis using that ef by (simp add: noisy_product_transcript_def)
qed

lemma matmul_hash_total:
  assumes "xof_ok X"
  shows "matmul_compute H X ser p h \<noteq> None"
  using noisy_transcript_eq [OF assms, of "fill X (H (ser h)) 0 (mp_n p * mp_n p)" "mp_n p"
      "fill X (H (ser h)) 1 (mp_n p * mp_n p)" "mp_rank p" "H (ser h)" H] assms
  by (auto simp: matmul_compute_def Let_def)

lemma gate_from_weights_Some:
  assumes "gate_from_weights H name n rank weights = Some g"
  shows "ug_weights g = weights" "ug_n g = n" "ug_rank g = rank" "weights \<noteq> []"
    "list_all (\<lambda>t. length t = n * n) weights"
    "ug_model_id g = model_id_of H name n (gate_root H (tile_leaves H weights))"
  using assms by (auto simp: gate_from_weights_def model_register_def Let_def split: if_splits)

lemma gate_tile:
  assumes "gate_from_weights H name n rank weights = Some g" "gate_work H X ser g h = (tile, input, wc)"
  shows "tile < length weights" "length (weights ! tile) = n * n"
proof -
  note g = gate_from_weights_Some [OF assms(1)]
  show "tile < length weights" using assms(2) g by (auto simp: gate_work_def Let_def)
  then show "length (weights ! tile) = n * n" using g(5) by (simp add: list_all_length)
qed

lemma gate_hash_total:
  assumes "xof_ok X" "gate_from_weights H name n rank weights = Some g"
  shows "gate_hash H X ser g h \<noteq> None"
proof -
  note g = gate_from_weights_Some [OF assms(2)]
  obtain tile input wc where w: "gate_work H X ser g h = (tile, input, wc)" by (metis prod_cases3)
  note t = gate_tile [OF assms(2) w]
  have "length input = n * n" using w g assms(1) by (auto simp: gate_work_def Let_def)
  from noisy_transcript_eq [OF assms(1) t(2) this] show ?thesis
    using w g t(1) by (simp add: gate_hash_def Let_def) (metis option.distinct(1))
qed

lemma gate_complete:
  assumes "model_register H name n tiles reg = Some (i, reg')" and "k < length tiles"
    and "xof_ok X" and "length input = n * n"
    and "w = \<lparr>wi_model_id = i, wi_tile_index = k, wi_input = input\<rparr>"
  shows "\<exists>wp. tile_proof H reg' i k = Some (Some wp)
    \<and> (solve H X rank n w t (tiles ! k) wp = Some sol \<longrightarrow>
         gate_verify H X rank reg' w t sol = Some (Inr ())
         \<and> gate_useful_output sol n = matmul (tiles ! k) input n)"
proof -
  define leaves where "leaves = tile_leaves H tiles"
  have m: "reg' i = Some \<lparr>rm_name = name, rm_n = n, rm_weight_root = gate_root H leaves,
      rm_num_tiles = length tiles, rm_padded_leaves = leaves\<rparr>"
    using assms(1) by (auto simp: model_register_def Let_def leaves_def split: if_splits)
  obtain d where d: "length leaves = 2 ^ d" unfolding leaves_def tile_leaves_def by (rule padded_length)
  have k: "k < 2 ^ d" "leaves ! k = tile_leaf H (tiles ! k)"
    using assms(2) d by (simp_all add: leaves_def tile_leaves_def padded_leaves_def nth_append)
  from proof_loop_complete [OF d k(1), of H] obtain sibs where
    sibs: "proof_loop H leaves k = Some sibs" "path_hash H (leaves ! k) k sibs = gate_root H leaves" by blast
  define wp where "wp = \<lparr>gp_index = k, gp_siblings = sibs\<rparr>"
  have "gate_verify H X rank reg' w t sol = Some (Inr ())
      \<and> gate_useful_output sol n = matmul (tiles ! k) input n"
    if "solve H X rank n w t (tiles ! k) wp = Some sol"
  proof -
    from that obtain nonce where
      "solve_loop (\<lambda>nonce. noisy_product_transcript H X (tiles ! k) input n rank
        (noise_seed H (work_commitment H w) nonce)) t 0 = Some nonce"
      "sol = \<lparr>bs_work_commitment = work_commitment H w, bs_weight_tile = tiles ! k,
        bs_weight_proof = wp, bs_input = input, bs_nonce = nonce\<rparr>"
      using assms(5) by (auto simp: solve_def Let_def)
    with solve_loop_Some obtain hash where "noisy_product_transcript H X (tiles ! k) input n rank
        (noise_seed H (work_commitment H w) nonce) = Some hash" "meets_target hash t" by blast
    with \<open>sol = _\<close> show ?thesis
      using m sibs k assms(5) by (auto simp: gate_verify_def Let_def wp_def gate_merkle_verify_def
          gate_useful_output_def)
  qed
  moreover have "tile_proof H reg' i k = Some (Some wp)"
    using m sibs(1) by (simp add: tile_proof_def gate_merkle_proof_def wp_def)
  ultimately show ?thesis by blast
qed

subsection \<open>Properties\<close>

text \<open>
  Property C38.  Proof of useful work: whatever noise the nonce seeds, the PoW hash is the
  transcript of the noised product \<open>(A + E) * (B + F)\<close>, and from that product the true product
  of the weight tile and the input is recovered by subtracting \<open>E * (B + F)\<close> and \<open>A * F\<close>, both
  computed through the low-rank factors of the noise.  Nothing is claimed of the cost.
\<close>

theorem noised_product_recovers:
  assumes "xof_ok X" and "length a = n * n" and "length b = n * n"
  shows "\<exists>e f c. noise_e X n rank seed = Some e \<and> noise_f X n rank seed = Some f
    \<and> matmul (add_noise a e) (add_noise b f) n = Some c
    \<and> noisy_product_transcript H X a b n rank seed = Some (transcript H c)
    \<and> matmul a b n = Some (recovered X n rank seed a (add_noise b f) c)"
proof -
  obtain e f where ef: "noise_e X n rank seed = Some e" "noise_f X n rank seed = Some f"
    "length e = n * n" "length f = n * n"
    using noise_eq [OF assms(1), of n rank seed] by simp
  then obtain c where c: "matmul (add_noise a e) (add_noise b f) n = Some c"
    using assms(2,3) by (simp add: matmul_eq)
  have "noisy_product_transcript H X a b n rank seed = Some (transcript H c)"
    by (simp add: noisy_product_transcript_def ef(1,2) c)
  with ef(1,2) c recovered_product [OF assms ef(1,2) c] show ?thesis by blast
qed

definition zero_xof :: xof where
  "zero_xof s n = replicate n 0"

definition one_xof :: xof where
  "one_xof s n = replicate n 1"

theorem noised_product_recovers_witness:
  "\<exists>e f c. noise_e one_xof 2 1 0 = Some e \<and> noise_f one_xof 2 1 0 = Some f
    \<and> e = [1, 1, 1, 1] \<and> f = [1, 1, 1, 1]
    \<and> matmul (add_noise [1, 2, 3, 4] e) (add_noise [5, 6, 7, 8] f) 2 = Some c
    \<and> c = [36, 41, 64, 73]
    \<and> noisy_product_transcript (\<lambda>bs. word_of_nat (length bs)) one_xof [1, 2, 3, 4] [5, 6, 7, 8] 2 1 0 =
        Some (transcript (\<lambda>bs. word_of_nat (length bs)) c)
    \<and> recovered one_xof 2 1 0 [1, 2, 3, 4] (add_noise [5, 6, 7, 8] f) c = [19, 22, 43, 50]"
proof -
  have x: "xof_ok one_xof" by (simp add: xof_ok_def one_xof_def)
  have noise: "noise_e one_xof 2 1 0 = Some [1, 1, 1, 1]" "noise_f one_xof 2 1 0 = Some [1, 1, 1, 1]"
    by (simp_all add: noise_e_def noise_f_def lowrank_def tabulate_def fill_def one_xof_def
        get_at_def upt_rec)
  have c: "matmul (add_noise [1, 2, 3, 4] [1, 1, 1, 1]) (add_noise [5, 6, 7, 8] [1, 1, 1, 1]) 2 =
      Some [36, 41, 64, 73]"
    by (simp add: matmul_def tabulate_def add_noise_def get_at_def upt_rec)
  have ab: "matmul [1, 2, 3, 4] [5, 6, 7, 8] 2 = Some [19, 22, 43, 50]"
    by (simp add: matmul_def tabulate_def get_at_def upt_rec)
  show ?thesis
    using noised_product_recovers [OF x, of "[1, 2, 3, 4]" 2 "[5, 6, 7, 8]" 1 0
        "\<lambda>bs. word_of_nat (length bs)"]
    by (simp add: noise c ab del: One_nat_def)
qed

text \<open>
  The gate and the registry agree: after a model is registered, the proof the
  registry gives for a tile, with any nonce whose transcript meets the target, is accepted, and
  a solution that the miner's search returns is accepted.
\<close>

theorem gate_accepts_real_work:
  assumes "model_register H name n tiles reg = Some (i, reg')" and "k < length tiles"
    and "xof_ok X" and "length input = n * n"
    and "w = \<lparr>wi_model_id = i, wi_tile_index = k, wi_input = input\<rparr>"
  shows "\<exists>wp. tile_proof H reg' i k = Some (Some wp)
    \<and> (solve H X rank n w t (tiles ! k) wp = Some sol \<longrightarrow>
         gate_verify H X rank reg' w t sol = Some (Inr ())
         \<and> gate_useful_output sol n = matmul (tiles ! k) input n)"
  using assms by (rule gate_complete)

lemma matmul_zero_noise_meets:
  assumes "xof_ok X" "length a = n * n" "length b = n * n"
  shows "\<exists>m. solve_loop (\<lambda>nonce. noisy_product_transcript H X a b n rank (f nonce)) (- 1) 0 = Some m"
proof -
  from noisy_transcript_eq [OF assms, of rank "f 0" H] obtain c where
    "noisy_product_transcript H X a b n rank (f 0) = Some c" by metis
  then show ?thesis by (subst solve_loop.simps) (simp add: meets_target_def)
qed

theorem gate_accepts_real_work_witness:
  "\<exists>i reg' wp sol.
     model_register (\<lambda>bs. word_of_nat (length bs)) [] 1 [[5]] (\<lambda>_. None) = Some (i, reg')
     \<and> tile_proof (\<lambda>bs. word_of_nat (length bs)) reg' i 0 = Some (Some wp)
     \<and> gate_verify (\<lambda>bs. word_of_nat (length bs)) zero_xof 1 reg'
         \<lparr>wi_model_id = i, wi_tile_index = 0, wi_input = [7]\<rparr> (- 1) sol = Some (Inr ())
     \<and> gate_useful_output sol 1 = matmul [5] [7] 1"
proof -
  let ?H = "\<lambda>bs :: bytes. word_of_nat (length bs) :: bytes32"
  obtain i reg' where reg: "model_register ?H [] 1 [[5]] (\<lambda>_. None) = Some (i, reg')"
    by (simp add: model_register_def Let_def)
  let ?w = "\<lparr>wi_model_id = i, wi_tile_index = 0, wi_input = [7]\<rparr>"
  have x: "xof_ok zero_xof" by (simp add: xof_ok_def zero_xof_def)
  have accepted: "\<exists>wp. tile_proof ?H reg' i 0 = Some (Some wp)
    \<and> (solve ?H zero_xof 1 1 ?w (- 1) ([[5]] ! 0) wp = Some sol \<longrightarrow>
         gate_verify ?H zero_xof 1 reg' ?w (- 1) sol = Some (Inr ())
         \<and> gate_useful_output sol 1 = matmul ([[5]] ! 0) [7] 1)" for sol
    by (rule gate_accepts_real_work [OF reg _ x _ refl]) simp_all
  then obtain wp where wp: "tile_proof ?H reg' i 0 = Some (Some wp)" by blast
  obtain sol where "solve ?H zero_xof 1 1 ?w (- 1) ([[5]] ! 0) wp = Some sol"
    using matmul_zero_noise_meets [OF x, of "[5]" 1 "[7]" ?H 1 "noise_seed ?H (work_commitment ?H ?w)"]
    by (auto simp: solve_def Let_def)
  with accepted [of sol] wp have "gate_verify ?H zero_xof 1 reg' ?w (- 1) sol = Some (Inr ())
      \<and> gate_useful_output sol 1 = matmul [5] [7] 1" by simp
  with reg wp show ?thesis by blast
qed

lemma le_bytes_inj: "v < 256 ^ n \<Longrightarrow> w < 256 ^ n \<Longrightarrow> le_bytes n v = le_bytes n w \<Longrightarrow> v = w"
  by (simp add: le_bytes_def be_bytes_inj)

lemma i64_bytes_inj: "i64_bytes v = i64_bytes w \<Longrightarrow> v = w"
  using le_bytes_inj [of "unat v" 8 "unat w"] unsigned_less [of v, where 'a = nat]
    unsigned_less [of w, where 'a = nat]
  by (simp add: i64_bytes_def word_unat_eq_iff)

lemma length_i64_bytes [simp]: "length (i64_bytes v) = 8"
  by (simp add: i64_bytes_def)

lemma concat_i64_inj:
  "length xs = length ys \<Longrightarrow> concat (map i64_bytes xs) = concat (map i64_bytes ys) \<Longrightarrow> xs = ys"
  by (induction xs ys rule: list_induct2) (auto dest: i64_bytes_inj)

lemma length_tile_bytes: "length (tile_bytes tile) = 8 + 8 * length tile"
  by (induction tile) (simp_all add: tile_bytes_def ascii_def)

lemma square_not_7: "n * n \<noteq> (7 :: nat)"
proof
  assume eq: "n * n = 7"
  then have "n < 3" using mult_le_mono [of 3 n 3 n] by (cases "n < 3") auto
  then have "n = 0 \<or> n = 1 \<or> n = 2" by linarith
  with eq show False by auto
qed

lemma registered_model:
  assumes "model_register H name n tiles reg = Some (i, reg')"
  shows "\<forall>tile \<in> set tiles. length tile = n * n"
    "reg' i = Some \<lparr>rm_name = name, rm_n = n, rm_weight_root = gate_root H (tile_leaves H tiles),
      rm_num_tiles = length tiles, rm_padded_leaves = tile_leaves H tiles\<rparr>"
proof -
  have ok: "list_all (\<lambda>t. length t = n * n) tiles" "tiles \<noteq> []"
    using assms unfolding model_register_def by (metis option.distinct(1))+
  then show "\<forall>tile \<in> set tiles. length tile = n * n" by (simp add: list_all_iff)
  show "reg' i = Some \<lparr>rm_name = name, rm_n = n, rm_weight_root = gate_root H (tile_leaves H tiles),
      rm_num_tiles = length tiles, rm_padded_leaves = tile_leaves H tiles\<rparr>"
    using assms ok by (auto simp: model_register_def Let_def)
qed

lemma gate_verify_accepted:
  assumes "gate_verify H X rank reg w t sol = Some (Inr ())" "reg (wi_model_id w) = Some m"
  shows "bs_input sol = wi_input w" "gp_index (bs_weight_proof sol) = wi_tile_index w"
    "path_hash H (H (tile_bytes (bs_weight_tile sol))) (wi_tile_index w)
      (gp_siblings (bs_weight_proof sol)) = rm_weight_root m"
proof -
  have eq: "gate_verify H X rank reg w t sol =
      (if bs_work_commitment sol \<noteq> work_commitment H w then Some (Inl WorkMismatch)
       else if bs_input sol \<noteq> wi_input w then Some (Inl InputMismatch)
       else if gp_index (bs_weight_proof sol) \<noteq> wi_tile_index w then Some (Inl ForgedWeights)
       else if \<not> gate_merkle_verify H (rm_weight_root m) (tile_leaf H (bs_weight_tile sol))
           (bs_weight_proof sol) then Some (Inl ForgedWeights)
       else map_option (\<lambda>hash. if meets_target hash t then Inr () else Inl PowNotMet)
         (noisy_product_transcript H X (bs_weight_tile sol) (bs_input sol) (rm_n m) rank
           (noise_seed H (bs_work_commitment sol) (bs_nonce sol))))"
    using assms(2) by (simp add: gate_verify_def Let_def)
  show 1: "bs_input sol = wi_input w" using assms(1) unfolding eq by (meson option.inject sum.distinct(1))
  show 2: "gp_index (bs_weight_proof sol) = wi_tile_index w"
    using assms(1) 1 unfolding eq by (meson option.inject sum.distinct(1))
  have "gate_merkle_verify H (rm_weight_root m) (tile_leaf H (bs_weight_tile sol)) (bs_weight_proof sol)"
    using assms(1) 1 2 unfolding eq by (meson option.inject sum.distinct(1))
  then show "path_hash H (H (tile_bytes (bs_weight_tile sol))) (wi_tile_index w)
      (gp_siblings (bs_weight_proof sol)) = rm_weight_root m"
    using 2 by (simp add: gate_merkle_verify_def tile_leaf_def)
qed

text \<open>The inputs hashed by the commitment to the tiles and by the check of a solution.\<close>

definition gate_inputs :: "hasher \<Rightarrow> i64 list list \<Rightarrow> bound_solution \<Rightarrow> bytes set" where
  "gate_inputs H tiles sol =
     insert (ascii ''tao-empty-tile'') (insert (tile_bytes (bs_weight_tile sol)) (tile_bytes ` set tiles))
     \<union> tree_inputs H (floorlog 2 (length (tile_leaves H tiles)) - 1) (tile_leaves H tiles)
     \<union> path_inputs H (tile_leaf H (bs_weight_tile sol)) (gp_index (bs_weight_proof sol))
         (gp_siblings (bs_weight_proof sol))"

lemma floorlog_pow2: "floorlog 2 (2 ^ d) - 1 = d"
  by (simp add: floorlog_def)

lemma tile_leaves_split:
  obtains k where "tile_leaves H tiles = map (tile_leaf H) tiles @ replicate k (empty_tile H)"
  by (simp add: tile_leaves_def padded_leaves_def)

lemma tile_leaf_input:
  assumes "\<forall>tile \<in> set tiles. length tile = n * n" "l \<in> set (tile_leaves H tiles)"
  shows "\<exists>y \<in> gate_inputs H tiles sol. l = H y \<and> length y \<noteq> 64"
proof -
  obtain k where "tile_leaves H tiles = map (tile_leaf H) tiles @ replicate k (empty_tile H)"
    by (rule tile_leaves_split)
  with assms(2) consider tile where "tile \<in> set tiles" "l = tile_leaf H tile" | "l = empty_tile H"
    by auto
  then show ?thesis
  proof cases
    case (1 tile)
    then have "length (tile_bytes tile) \<noteq> 64"
      using assms(1) square_not_7 [of n] by (simp add: length_tile_bytes)
    with 1 show ?thesis
      by (intro bexI [of _ "tile_bytes tile"]) (simp_all add: tile_leaf_def gate_inputs_def)
  next
    case 2
    then show ?thesis
      by (intro bexI [of _ "ascii ''tao-empty-tile''"])
        (simp_all add: empty_tile_def gate_inputs_def, simp add: ascii_def)
  qed
qed

lemma gate_inputs_parts:
  assumes "length (tile_leaves H tiles) = 2 ^ d"
  shows "tile_bytes (bs_weight_tile sol) \<in> gate_inputs H tiles sol"
    "tree_inputs H d (tile_leaves H tiles) \<subseteq> gate_inputs H tiles sol"
    "path_inputs H (H (tile_bytes (bs_weight_tile sol))) (gp_index (bs_weight_proof sol))
      (gp_siblings (bs_weight_proof sol)) \<subseteq> gate_inputs H tiles sol"
  using floorlog_pow2 [of d] unfolding gate_inputs_def assms tile_leaf_def by auto

text \<open>
  Property C39.  No forged weights: a solution of the right dimension that the gate accepts for a
  registered model uses exactly the committed tile that the work item names (the index is read
  modulo the padded number of tiles) and the requested input, so its useful output is the real
  product; provided BLAKE3 does not collide on the inputs hashed.
\<close>

theorem gate_rejects_forged_weights:
  assumes "model_register H name n tiles reg = Some (i, reg')" and "wi_model_id w = i"
    and "gate_verify H X rank reg' w t sol = Some (Inr ())"
    and "length (bs_weight_tile sol) = n * n" and "inj_on H (gate_inputs H tiles sol)"
  shows "wi_tile_index w mod length (tile_leaves H tiles) < length tiles
    \<and> bs_weight_tile sol = tiles ! (wi_tile_index w mod length (tile_leaves H tiles))
    \<and> bs_input sol = wi_input w
    \<and> gate_useful_output sol n =
        matmul (tiles ! (wi_tile_index w mod length (tile_leaves H tiles))) (wi_input w) n"
proof -
  define leaves where "leaves = tile_leaves H tiles"
  note sizes = registered_model(1) [OF assms(1)]
  obtain d where d: "length leaves = 2 ^ d" unfolding leaves_def tile_leaves_def by (rule padded_length)
  obtain k where leaves: "leaves = map (tile_leaf H) tiles @ replicate k (empty_tile H)"
    unfolding leaves_def by (rule tile_leaves_split)
  note ok = gate_verify_accepted [OF assms(3), unfolded assms(2), OF registered_model(2) [OF assms(1)],
      simplified, folded leaves_def]
  note parts = gate_inputs_parts [OF d [unfolded leaves_def], of sol, folded leaves_def, unfolded ok(2)]
  have "length (tile_bytes (bs_weight_tile sol)) \<noteq> 64"
    using assms(4) square_not_7 [of n] by (simp add: length_tile_bytes)
  with path_binding [OF d _ parts(1) _ parts(2,3) assms(5) ok(3)]
  have at: "leaves ! (wi_tile_index w mod 2 ^ d) = H (tile_bytes (bs_weight_tile sol))"
    using tile_leaf_input [OF sizes] unfolding leaves_def by blast
  define j where "j = wi_tile_index w mod length leaves"
  have j: "j < length leaves" "leaves ! j = H (tile_bytes (bs_weight_tile sol))"
    using at d by (simp_all add: j_def)
  have "j < length tiles"
  proof (rule ccontr)
    assume "\<not> j < length tiles"
    then have "H (ascii ''tao-empty-tile'') = H (tile_bytes (bs_weight_tile sol))"
      using j by (simp add: leaves nth_append empty_tile_def)
    then have "ascii ''tao-empty-tile'' = tile_bytes (bs_weight_tile sol)"
      by (rule inj_onD [OF assms(5)]) (simp_all add: gate_inputs_def)
    then have "length (ascii ''tao-empty-tile'') = 8 + 8 * length (bs_weight_tile sol)"
      by (simp add: length_tile_bytes)
    then show False by (simp add: ascii_def) presburger
  qed
  then have "H (tile_bytes (tiles ! j)) = H (tile_bytes (bs_weight_tile sol))"
    using j by (simp add: leaves nth_append tile_leaf_def)
  then have "tile_bytes (tiles ! j) = tile_bytes (bs_weight_tile sol)"
    by (rule inj_onD [OF assms(5)]) (use \<open>j < length tiles\<close> in \<open>simp_all add: gate_inputs_def\<close>)
  then have "tiles ! j = bs_weight_tile sol"
    using concat_i64_inj [of "tiles ! j" "bs_weight_tile sol"] sizes assms(4) \<open>j < length tiles\<close>
    by (simp add: tile_bytes_def)
  then show ?thesis
    using \<open>j < length tiles\<close> ok(1) by (simp add: j_def gate_useful_output_def flip: leaves_def)
qed

theorem gate_rejects_forged_weights_witness:
  "\<exists>i reg' sol. gate_verify (\<lambda>bs. word_of_nat (length bs)) zero_xof 1 reg'
      \<lparr>wi_model_id = i, wi_tile_index = 0, wi_input = [7]\<rparr> (- 1) sol = Some (Inr ())
    \<and> bs_weight_tile sol = [5] \<and> bs_input sol = [7]"
proof -
  let ?H = "\<lambda>bs :: bytes. word_of_nat (length bs) :: bytes32"
  obtain i reg' where reg: "model_register ?H [] 1 [[5]] (\<lambda>_. None) = Some (i, reg')"
    by (simp add: model_register_def Let_def)
  let ?w = "\<lparr>wi_model_id = i, wi_tile_index = 0, wi_input = [7]\<rparr>"
  let ?proof = "\<lparr>gp_index = 0, gp_siblings = []\<rparr>"
  have x: "xof_ok zero_xof" by (simp add: xof_ok_def zero_xof_def)
  have leaves: "tile_leaves ?H [[5]] = [tile_leaf ?H [5]]"
    by (simp add: tile_leaves_def padded_leaves_def next_pow2_def pow2_loop.simps)
  obtain sol where solved: "solve ?H zero_xof 1 1 ?w (- 1) ([[5]] ! 0) ?proof = Some sol"
    using matmul_zero_noise_meets [OF x, of "[5]" 1 "[7]" ?H 1 "noise_seed ?H (work_commitment ?H ?w)"]
    by (auto simp: solve_def Let_def)
  then have sol: "bs_weight_tile sol = [5]" "bs_weight_proof sol = ?proof"
    by (auto simp: solve_def Let_def)
  have "\<exists>wp. tile_proof ?H reg' i 0 = Some (Some wp)
    \<and> (solve ?H zero_xof 1 1 ?w (- 1) ([[5]] ! 0) wp = Some sol \<longrightarrow>
         gate_verify ?H zero_xof 1 reg' ?w (- 1) sol = Some (Inr ())
         \<and> gate_useful_output sol 1 = matmul ([[5]] ! 0) [7] 1)"
    by (rule gate_complete [OF reg _ x _ refl]) simp_all
  moreover have "tile_proof ?H reg' i 0 = Some (Some ?proof)"
    using registered_model(2) [OF reg] leaves
    by (simp add: tile_proof_def gate_merkle_proof_def proof_loop.simps)
  ultimately have ok: "gate_verify ?H zero_xof 1 reg' ?w (- 1) sol = Some (Inr ())"
    using solved by simp
  have "gate_inputs ?H [[5]] sol = {ascii ''tao-empty-tile'', tile_bytes [5]}"
    by (auto simp: gate_inputs_def sol leaves floorlog_pow2 [of 0, simplified])
  moreover have "length (tile_bytes [5]) = 16" by (simp add: length_tile_bytes)
  ultimately have "inj_on ?H (gate_inputs ?H [[5]] sol)"
    by (simp add: inj_on_def ascii_def)
  from gate_rejects_forged_weights [OF reg _ ok _ this] sol(1) ok show ?thesis by auto
qed

end
