(* ===== verification/Cli.thy ===== *)
theory Cli
  imports Pouw GenesisLoad
begin

text \<open>
  Commands of \<^verbatim>\<open>crates/tao-node/src/main.rs\<close>: the choice of the proof-of-work algorithm in \<open>run\<close>, and
  \<open>utility_mine\<close>.  Parsing of the command line and of files, and printing, are outside the model; a failure is a
  \<open>cli_error\<close>, a panic or a search that never ends is \<open>None\<close>.
\<close>

datatype cli_error =
  InvalidDimensions | TileOutOfRange nat nat nat | InputLength nat nat nat | MissingTileProof
| GateRejected nat gate_error | NoPouwModel | BadWeightSeed string | ModelIdMismatch string string
| UnknownAlgorithm string | MissingMiner | InvalidMiner string string

subsection \<open>The proof-of-work algorithm\<close>

record pow_args =
  pw_matmul :: bool
  pw_matmul_n :: "nat option"
  pw_matmul_rank :: "nat option"
  pw_switch_height :: "u64 option"
  pw_pouw :: bool

definition hex_digit :: "nat \<Rightarrow> char" where
  "hex_digit d = (if d < 10 then char_of (48 + d) else char_of (87 + d))"

definition hex_bytes :: "bytes32 \<Rightarrow> string" where
  "hex_bytes w = concat (map (\<lambda>b. [hex_digit (unat b div 16), hex_digit (unat b mod 16)]) (bytes_of w))"

definition use_matmul :: "pow_args \<Rightarrow> bool" where
  "use_matmul a \<longleftrightarrow> pw_matmul a \<or> pw_matmul_n a \<noteq> None \<or> pw_matmul_rank a \<noteq> None"

definition cli_override :: "pow_args \<Rightarrow> bool" where
  "cli_override a \<longleftrightarrow> pw_pouw a \<or> use_matmul a \<or> pw_switch_height a \<noteq> None"

definition pow_choice :: "pow_args \<Rightarrow> genesis_config \<Rightarrow> string \<times> u64 option" where
  "pow_choice a g =
     (if cli_override a
      then (if pw_pouw a then ''pouw'' else ''matmul'', pw_switch_height a)
      else (pp_algorithm (gc_pow g), pp_switch_height (gc_pow g)))"

definition pouw_stack ::
    "hasher \<Rightarrow> xof \<Rightarrow> (block_header \<Rightarrow> bytes) \<Rightarrow> (string \<Rightarrow> string + bytes) \<Rightarrow> genesis_config \<Rightarrow>
     (cli_error + pow_algorithm) option" where
  "pouw_stack H X ser hexdec g =
     (case gc_pouw g of
        None \<Rightarrow> Some (Inl NoPouwModel)
      | Some mp \<Rightarrow>
          (case parse_target hexdec (pm_weight_seed mp) of
             Inl e \<Rightarrow> Some (Inl (BadWeightSeed e))
           | Inr seed \<Rightarrow>
               Option.bind (gate_from_seed H X (ascii (pm_name mp)) (pm_n mp) (pm_rank mp) (pm_tiles mp) seed)
                 (\<lambda>gate.
               let derived = hex_bytes (ug_model_id gate) in
               case pm_model_id mp of
                 Some expected \<Rightarrow>
                   if derived \<noteq> expected then Some (Inl (ModelIdMismatch expected derived))
                   else Some (Inr (gate_algorithm H X ser gate))
               | None \<Rightarrow> Some (Inr (gate_algorithm H X ser gate)))))"

definition base_pow ::
    "hasher \<Rightarrow> xof \<Rightarrow> (block_header \<Rightarrow> bytes) \<Rightarrow> (string \<Rightarrow> string + bytes) \<Rightarrow> pow_args \<Rightarrow> genesis_config \<Rightarrow>
     string \<Rightarrow> (cli_error + pow_algorithm) option" where
  "base_pow H X ser hexdec a g algorithm =
     (if algorithm = ''pouw'' then pouw_stack H X ser hexdec g
      else if algorithm = ''matmul'' then
        map_option (\<lambda>p. Inr (matmul_algorithm H X ser p))
          (matmul_pow_new (case pw_matmul_n a of Some n \<Rightarrow> n | None \<Rightarrow> 8)
             (case pw_matmul_rank a of Some r \<Rightarrow> r | None \<Rightarrow> 2))
      else if algorithm = ''blake3'' then Some (Inr (blake3_pow H ser))
      else Some (Inl (UnknownAlgorithm algorithm)))"

definition pow_stack ::
    "hasher \<Rightarrow> xof \<Rightarrow> (block_header \<Rightarrow> bytes) \<Rightarrow> (string \<Rightarrow> string + bytes) \<Rightarrow> pow_args \<Rightarrow> genesis_config \<Rightarrow>
     (cli_error + pow_algorithm) option" where
  "pow_stack H X ser hexdec a g =
     (let (algorithm, switch_height) = pow_choice a g in
      map_option (\<lambda>r. and_then r (\<lambda>base.
        case switch_height of
          Some h \<Rightarrow>
            Inr (if algorithm \<noteq> ''blake3''
                 then height_switch \<lparr>hs_before = blake3_pow H ser, hs_after = base, hs_activation_height = h\<rparr>
                 else base)
        | None \<Rightarrow> Inr base))
        (base_pow H X ser hexdec a g algorithm))"

text \<open>The reward address, needed only when mining.\<close>

definition reward_address ::
    "(string \<Rightarrow> string + bytes32) \<Rightarrow> bool \<Rightarrow> string option \<Rightarrow> node_config \<Rightarrow> cli_error + bytes32" where
  "reward_address parse_key mine miner cfg =
     (if mine then
        (case (case miner of Some s \<Rightarrow> Some s | None \<Rightarrow> miner_reward_address (nc_miner cfg)) of
           None \<Rightarrow> Inl MissingMiner
         | Some s \<Rightarrow> map_err (InvalidMiner s) (parse_key s))
      else Inr 0)"

subsection \<open>The utility miner\<close>

record inference_result =
  ir_tile :: nat
  ir_nonce :: u64
  ir_output :: "i64 list"

definition demo_weights :: "nat \<Rightarrow> nat \<Rightarrow> i64 list list" where
  "demo_weights n tiles =
     map (\<lambda>t. map (\<lambda>i. word_of_nat ((t * 7 + i * 3) mod 17) - 8) [0..<n * n]) [0..<tiles]"

definition generated_queue :: "nat \<Rightarrow> nat \<Rightarrow> nat \<Rightarrow> (nat \<times> i64 list) list" where
  "generated_queue blocks n tiles =
     map (\<lambda>h. (h mod tiles, map (\<lambda>i. word_of_nat ((h + i) mod 5) - 2) [0..<n * n])) [0..<blocks]"

fun check_requests :: "nat \<Rightarrow> nat \<Rightarrow> nat \<Rightarrow> (nat \<times> i64 list) list \<Rightarrow> cli_error + unit" where
  "check_requests i n tiles [] = Inr ()"
| "check_requests i n tiles ((tile, input) # rs) =
     (if tile \<ge> tiles then Inl (TileOutOfRange i tile tiles)
      else if length input \<noteq> n * n then Inl (InputLength i (length input) (n * n))
      else check_requests (i + 1) n tiles rs)"

text \<open>\<open>target[0] = 0x00\<close>, the other bytes \<open>0xff\<close>.\<close>

definition easy_target :: target where
  "easy_target = array_of (0 # replicate 31 0xff)"

fun serve_queue ::
    "hasher \<Rightarrow> xof \<Rightarrow> nat \<Rightarrow> nat \<Rightarrow> model_registry \<Rightarrow> bytes32 \<Rightarrow> i64 list list \<Rightarrow> target \<Rightarrow> nat \<Rightarrow>
     (nat \<times> i64 list) list \<Rightarrow> (cli_error + inference_result list) option" where
  "serve_queue H X n rank reg model_id weights t idx [] = Some (Inr [])"
| "serve_queue H X n rank reg model_id weights t idx ((tile, input) # rs) =
     (let w = \<lparr>wi_model_id = model_id, wi_tile_index = tile, wi_input = input\<rparr> in
      case tile_proof H reg model_id tile of
        None \<Rightarrow> None
      | Some None \<Rightarrow> Some (Inl MissingTileProof)
      | Some (Some wp) \<Rightarrow>
          Option.bind (get_at weights tile) (\<lambda>weight.
          Option.bind (solve H X rank n w t weight wp) (\<lambda>sol.
          case gate_verify H X rank reg w t sol of
            None \<Rightarrow> None
          | Some (Inl e) \<Rightarrow> Some (Inl (GateRejected idx e))
          | Some (Inr _) \<Rightarrow>
              Option.bind (gate_useful_output sol n) (\<lambda>out.
              map_option (map_sum id ((#) \<lparr>ir_tile = tile, ir_nonce = bs_nonce sol, ir_output = out\<rparr>))
                (serve_queue H X n rank reg model_id weights t (idx + 1) rs)))))"

definition total_nonces :: "inference_result list \<Rightarrow> nat" where
  "total_nonces rs = sum_list (map (\<lambda>r. unat (ir_nonce r) + 1) rs)"

definition output_checksum :: "inference_result list \<Rightarrow> i64" where
  "output_checksum rs = sum_list (map (\<lambda>r. sum_list (ir_output r)) rs)"

definition utility_mine ::
    "hasher \<Rightarrow> xof \<Rightarrow> nat \<Rightarrow> nat \<Rightarrow> nat \<Rightarrow> nat \<Rightarrow> (nat \<times> i64 list) list option \<Rightarrow>
     (cli_error + inference_result list) option" where
  "utility_mine H X blocks n rank tiles requests =
     (if n = 0 \<or> rank = 0 \<or> rank > n \<or> tiles = 0 then Some (Inl InvalidDimensions)
      else
        Option.bind (model_register H (ascii ''tao-demo-llm'') n (demo_weights n tiles) (\<lambda>_. None)) (\<lambda>(model_id, reg).
        case (case requests of
                Some rs \<Rightarrow> map_sum id (\<lambda>_. rs) (check_requests 0 n tiles rs)
              | None \<Rightarrow> Inr (generated_queue blocks n tiles)) of
          Inl e \<Rightarrow> Some (Inl e)
        | Inr queue \<Rightarrow> serve_queue H X n rank reg model_id (demo_weights n tiles) easy_target 0 queue))"

subsection \<open>What they do\<close>

text \<open>Without overriding flags the algorithm is a function of the genesis configuration.\<close>

lemma pow_stack_genesis:
  assumes "\<not> cli_override a" and "\<not> cli_override a'"
  shows "pow_stack H X ser hexdec a g = pow_stack H X ser hexdec a' g"
proof -
  have "pow_choice a g = pow_choice a' g" using assms by (simp add: pow_choice_def)
  moreover have "base_pow H X ser hexdec a g algorithm = base_pow H X ser hexdec a' g algorithm" for algorithm
    using assms by (simp add: base_pow_def cli_override_def use_matmul_def)
  ultimately show ?thesis by (simp add: pow_stack_def)
qed

lemma check_requests_Inr:
  "check_requests i n tiles rs = Inr u \<longleftrightarrow> (\<forall>(tile, input) \<in> set rs. tile < tiles \<and> length input = n * n)"
  by (induction rs arbitrary: i) (auto split: if_splits)

lemma check_requests_Inl:
  "check_requests i n tiles rs = Inl e \<Longrightarrow> (\<exists>j a b. e = TileOutOfRange j a b) \<or> (\<exists>j a b. e = InputLength j a b)"
  by (induction rs arbitrary: i) (auto split: if_splits)

lemma generated_queue_ok:
  "0 < tiles \<Longrightarrow> \<forall>(tile, input) \<in> set (generated_queue blocks n tiles). tile < tiles \<and> length input = n * n"
  by (auto simp: generated_queue_def)

definition served :: "i64 list list \<Rightarrow> nat \<Rightarrow> nat \<times> i64 list \<Rightarrow> inference_result \<Rightarrow> bool" where
  "served weights n req res \<longleftrightarrow> ir_tile res = fst req \<and> matmul (weights ! fst req) (snd req) n = Some (ir_output res)"

lemma serve_queue_served:
  assumes reg: "model_register H name n weights reg0 = Some (model_id, reg)" and x: "xof_ok X"
  shows "\<forall>(tile, input) \<in> set rs. tile < length weights \<and> length input = n * n \<Longrightarrow>
    serve_queue H X n rank reg model_id weights t idx rs = Some r \<Longrightarrow>
    \<exists>results. r = Inr results \<and> list_all2 (served weights n) rs results"
proof (induction rs arbitrary: idx r)
  case (Cons req rs)
  obtain tile input where req: "req = (tile, input)" by fastforce
  let ?w = "\<lparr>wi_model_id = model_id, wi_tile_index = tile, wi_input = input\<rparr>"
  have ok: "tile < length weights" "length input = n * n" using Cons.prems(1) req by auto
  obtain wp where wp: "tile_proof H reg model_id tile = Some (Some wp)"
    using gate_complete [OF reg ok(1) x ok(2) refl, where rank = rank and t = t] by blast
  obtain sol where sol: "solve H X rank n ?w t (weights ! tile) wp = Some sol"
    using Cons.prems(2) req wp ok(1) by (auto simp: Let_def bind_eq_Some_conv)
  have gate: "gate_verify H X rank reg ?w t sol = Some (Inr ())" "gate_useful_output sol n = matmul (weights ! tile) input n"
    using gate_complete [OF reg ok(1) x ok(2) refl, where rank = rank and t = t and sol = sol] sol wp by auto
  obtain out r' where out: "matmul (weights ! tile) input n = Some out"
    "serve_queue H X n rank reg model_id weights t (idx + 1) rs = Some r'"
    "r = map_sum id ((#) \<lparr>ir_tile = tile, ir_nonce = bs_nonce sol, ir_output = out\<rparr>) r'"
    using Cons.prems(2) req wp ok(1) sol gate by (auto simp: Let_def bind_eq_Some_conv)
  obtain results where "r' = Inr results" "list_all2 (served weights n) rs results"
    using Cons.IH [OF _ out(2)] Cons.prems(1) by auto
  moreover have "served weights n req \<lparr>ir_tile = tile, ir_nonce = bs_nonce sol, ir_output = out\<rparr>"
    using out(1) req by (simp add: served_def)
  ultimately show ?case using out(3) by simp
qed simp

text \<open>
  The utility miner serves real work: whatever it is asked, a run that ends either refuses the
  request for its own shape, or serves every request in order with the product of the requested
  model layer and the input; its own solutions are never rejected by the gate.
\<close>

theorem utility_mine_serves:
  assumes "xof_ok X" and "utility_mine H X blocks n rank tiles requests = Some r"
  shows "case r of
      Inl e \<Rightarrow> e = InvalidDimensions \<or> (\<exists>j a b. e = TileOutOfRange j a b) \<or> (\<exists>j a b. e = InputLength j a b)
    | Inr results \<Rightarrow> list_all2 (served (demo_weights n tiles) n)
        (case requests of Some rs \<Rightarrow> rs | None \<Rightarrow> generated_queue blocks n tiles) results"
proof (cases "n = 0 \<or> rank = 0 \<or> rank > n \<or> tiles = 0")
  case True
  then show ?thesis using assms(2) by (auto simp: utility_mine_def)
next
  case False
  obtain model_id reg where reg: "model_register H (ascii ''tao-demo-llm'') n (demo_weights n tiles) (\<lambda>_. None) = Some (model_id, reg)"
    using assms(2) False by (auto simp: utility_mine_def bind_eq_Some_conv)
  let ?q = "case requests of Some rs \<Rightarrow> map_sum id (\<lambda>_. rs) (check_requests 0 n tiles rs)
      | None \<Rightarrow> Inr (generated_queue blocks n tiles)"
  have len: "length (demo_weights n tiles) = tiles" by (simp add: demo_weights_def)
  show ?thesis
  proof (cases ?q)
    case (Inl e)
    then obtain rs where "requests = Some rs" "check_requests 0 n tiles rs = Inl e"
      by (cases requests; cases "check_requests 0 n tiles (the requests)") auto
    moreover have "r = Inl e" using assms(2) False reg Inl by (simp add: utility_mine_def)
    ultimately show ?thesis using check_requests_Inl by fastforce
  next
    case (Inr queue)
    have "\<forall>(tile, input) \<in> set queue. tile < tiles \<and> length input = n * n"
      "queue = (case requests of Some rs \<Rightarrow> rs | None \<Rightarrow> generated_queue blocks n tiles)"
      using Inr generated_queue_ok [of tiles blocks n] False check_requests_Inr [of 0 n tiles "the requests"]
      by (cases requests; cases "check_requests 0 n tiles (the requests)"; auto)+
    note queue = this
    have "serve_queue H X n rank reg model_id (demo_weights n tiles) easy_target 0 queue = Some r"
      using assms(2) False reg Inr by (simp add: utility_mine_def)
    from serve_queue_served [OF reg assms(1) _ this] queue(1) len
    obtain results where "r = Inr results" "list_all2 (served (demo_weights n tiles) n) queue results" by auto
    then show ?thesis using queue(2) by simp
  qed
qed

lemma zero_hash_solves:
  assumes "xof_ok X" "length a = n * n" "length b = n * n"
  shows "solve_loop (\<lambda>nonce. noisy_product_transcript (\<lambda>_. 0) X a b n rank (f nonce)) t 0 = Some 0"
proof -
  from noisy_transcript_eq [OF assms, of rank "f 0" "\<lambda>_. 0"] obtain c where
    c: "noisy_product_transcript (\<lambda>_. 0) X a b n rank (f 0) = Some (transcript (\<lambda>_. 0) c)" by metis
  have "meets_target (transcript (\<lambda>_. 0) c) t" by (simp add: meets_target_def transcript_def)
  then show ?thesis using c by (subst solve_loop.simps) simp
qed

theorem utility_mine_serves_witness:
  "\<exists>res. utility_mine (\<lambda>_. 0) zero_xof 0 1 1 1 (Some [(0, [7])]) = Some (Inr [res]) \<and> ir_output res = [- 56]"
proof -
  let ?H = "\<lambda>_ :: bytes. 0 :: bytes32"
  have x: "xof_ok zero_xof" by (simp add: xof_ok_def zero_xof_def)
  have w: "demo_weights 1 1 = [[- 8]]" by (simp add: demo_weights_def)
  obtain i reg where reg: "model_register ?H (ascii ''tao-demo-llm'') 1 [[- 8]] (\<lambda>_. None) = Some (i, reg)"
    by (simp add: model_register_def Let_def)
  let ?w = "\<lparr>wi_model_id = i, wi_tile_index = 0, wi_input = [7]\<rparr>"
  have l: "0 < length [[- 8 :: i64]]" "length [7 :: i64] = 1 * 1" by simp_all
  note gate = gate_complete [OF reg l(1) x l(2) refl, where rank = 1 and t = easy_target, simplified nth_Cons_0]
  obtain wp where wp: "tile_proof ?H reg i 0 = Some (Some wp)" using gate by blast
  obtain sol where sol: "solve ?H zero_xof 1 1 ?w easy_target [- 8] wp = Some sol"
    using zero_hash_solves [OF x, of "[- 8]" 1 "[7]" 1] by (auto simp: solve_def Let_def)
  have "gate_verify ?H zero_xof 1 reg ?w easy_target sol = Some (Inr ())" "gate_useful_output sol 1 = matmul [- 8] [7] 1"
    using gate [of sol] wp sol by simp_all
  moreover have m: "matmul [- 8] [7] 1 = Some [- 56]" by code_simp
  ultimately have run: "utility_mine ?H zero_xof 0 1 1 1 (Some [(0, [7])])
      = Some (Inr [\<lparr>ir_tile = 0, ir_nonce = bs_nonce sol, ir_output = [- 56]\<rparr>])"
    using reg wp sol by (simp add: utility_mine_def w [simplified] Let_def)
  from utility_mine_serves [OF x this]
  have "served [[- 8]] 1 (0, [7]) \<lparr>ir_tile = 0, ir_nonce = bs_nonce sol, ir_output = [- 56]\<rparr>"
    by (simp add: w [simplified])
  with run show ?thesis by auto
qed

end
