(* ===== verification/Rpc.thy ===== *)
theory Rpc
  imports NodeShared AccountsDb GenesisLoad Effects
begin

text \<open>
  The JSON-RPC server: \<^verbatim>\<open>crates/tao-node/src/rpc.rs\<close>.

  A request is a JSON value of the parameter type \<open>'v\<close>, read through \<open>json_ops\<close>; an answer is an
  \<open>rpc_value\<close>, what the \<open>json!\<close> macros build, with the members of an object as a list.  The codecs (base58, base64,
  \<open>bincode\<close>), the account readers and the signing of a faucet transfer are parameters too.  Requests are
  functions of the shared state; the HTTP server around them is not modelled.
\<close>

record 'v json_ops =
  js_index :: "'v \<Rightarrow> nat \<Rightarrow> 'v option"
  js_member :: "'v \<Rightarrow> string \<Rightarrow> 'v option"
  js_str :: "'v \<Rightarrow> string option"
  js_u64 :: "'v \<Rightarrow> u64 option"
  js_array :: "'v \<Rightarrow> 'v list option"
  js_null :: 'v

datatype 'v rpc_value =
  RNull | RBool bool | RNum int | RStr string | RList "'v rpc_value list"
| RObj "(string \<times> 'v rpc_value) list" | RGiven 'v

record ('v, 'db, 'a, 'tx, 'key, 's) rpc_env =
  rp_json :: "'v json_ops"
  rp_b58_decode :: "string \<Rightarrow> string + bytes"
  rp_b58_encode :: "bytes \<Rightarrow> string"
  rp_b64_decode :: "string \<Rightarrow> string + bytes"
  rp_b64_encode :: "bytes \<Rightarrow> string"
  rp_de_tx :: "bytes \<Rightarrow> string + 'tx"
  rp_ser_tx :: "'tx \<Rightarrow> string + bytes"
  rp_first_sig :: "'tx \<Rightarrow> bytes option"
  rp_rocks :: "'db rocks_ops"
  rp_accounts :: "'a account_ops"
  rp_owner :: "'a \<Rightarrow> bytes32"
  rp_executable :: "'a \<Rightarrow> bool"
  rp_rent_epoch :: "'a \<Rightarrow> u64"
  rp_rent_minimum :: "nat \<Rightarrow> u64"
  rp_keypair :: "bytes \<Rightarrow> string + 'key"
  rp_transfer :: "'key \<Rightarrow> bytes32 \<Rightarrow> u64 \<Rightarrow> bytes32 \<Rightarrow> 'tx"
  rp_codec :: msg_codec
  rp_write :: "'s \<Rightarrow> bytes \<Rightarrow> bool \<times> 's"

type_synonym rpc_error = "int \<times> string"

type_synonym ('v, 'db, 'tx, 's) rm = "(('db, 'tx, 's) shared, rpc_error, 'v rpc_value) eff"

definition INVALID_PARAMS :: int where "INVALID_PARAMS = - 32602"
definition METHOD_NOT_FOUND :: int where "METHOD_NOT_FOUND = - 32601"
definition INTERNAL_ERROR :: int where "INTERNAL_ERROR = - 32603"

definition rpc_context :: "u64 \<Rightarrow> 'v rpc_value" where
  "rpc_context slot = RObj [(''slot'', RNum (uint slot)), (''apiVersion'', RStr ''2.0.0'')]"

definition with_context :: "u64 \<Rightarrow> 'v rpc_value \<Rightarrow> 'v rpc_value" where
  "with_context slot v = RObj [(''context'', rpc_context slot), (''value'', v)]"

definition param_str0 :: "'v json_ops \<Rightarrow> 'v \<Rightarrow> rpc_error + string" where
  "param_str0 js params =
     (case Option.bind (js_index js params 0) (js_str js) of
        None \<Rightarrow> Inl (INVALID_PARAMS, ''expected string param at 0'') | Some s \<Rightarrow> Inr s)"

definition rpc_pubkey :: "('v, 'db, 'a, 'tx, 'key, 's) rpc_env \<Rightarrow> string \<Rightarrow> rpc_error + bytes32" where
  "rpc_pubkey rp s =
     (case rp_b58_decode rp s of
        Inl _ \<Rightarrow> Inl (INVALID_PARAMS, ''invalid base58 pubkey'')
      | Inr bs \<Rightarrow>
          if length bs \<noteq> 32 then Inl (INVALID_PARAMS, ''pubkey must be 32 bytes'') else Inr (array_of bs))"

text \<open>The account named by the first parameter.\<close>

definition param_account ::
    "('v, 'db, 'a, 'tx, 'key, 's) rpc_env \<Rightarrow> 'v \<Rightarrow> ('db, 'tx, 's) shared \<Rightarrow> rpc_error + 'a option" where
  "param_account rp params sh =
     and_then (param_str0 (rp_json rp) params) (\<lambda>s.
     and_then (rpc_pubkey rp s) (\<lambda>pubkey.
     map_err (\<lambda>e. (INTERNAL_ERROR, err_text e)) (adb_get (rp_rocks rp) (rp_accounts rp) (sh_accounts sh) pubkey)))"

definition account_info :: "('v, 'db, 'a, 'tx, 'key, 's) rpc_env \<Rightarrow> 'a \<Rightarrow> 'v rpc_value" where
  "account_info rp a =
     RObj [(''lamports'', RNum (uint (ao_lamports (rp_accounts rp) a))),
       (''owner'', RStr (rp_b58_encode rp (bytes_of (rp_owner rp a)))),
       (''data'', RList [RStr (rp_b64_encode rp (ao_data (rp_accounts rp) a)), RStr ''base64'']),
       (''executable'', RBool (rp_executable rp a)), (''rentEpoch'', RNum (uint (rp_rent_epoch rp a))),
       (''space'', RNum (int (length (ao_data (rp_accounts rp) a))))]"

text \<open>Queue a signed transaction and relay its bytes; the answer is its first signature.\<close>

definition submit_and_relay ::
    "('v, 'db, 'a, 'tx, 'key, 's) rpc_env \<Rightarrow> 'tx \<Rightarrow> bytes \<Rightarrow> bytes \<Rightarrow> ('v, 'db, 'tx, 's) rm" where
  "submit_and_relay rp tx raw sig sh =
     Option.bind (submit_tx (rp_first_sig rp) tx sh) (\<lambda>sh.
     rret (RStr (rp_b58_encode rp sig)) (gossip_tx (rp_codec rp) (rp_write rp) raw sh))"

definition send_transaction ::
    "('v, 'db, 'a, 'tx, 'key, 's) rpc_env \<Rightarrow> 'v \<Rightarrow> ('v, 'db, 'tx, 's) rm" where
  "send_transaction rp params sh =
     (let js = rp_json rp;
          encoding = (case Option.bind (js_index js params 1) (\<lambda>c. Option.bind (js_member js c ''encoding'') (js_str js)) of
              None \<Rightarrow> ''base58'' | Some s \<Rightarrow> s);
          parsed = and_then (param_str0 js params) (\<lambda>encoded.
            and_then (if encoding = ''base64''
                then map_err (\<lambda>e. (INVALID_PARAMS, ''base64: '' @ e)) (rp_b64_decode rp encoded)
                else map_err (\<lambda>e. (INVALID_PARAMS, ''base58: '' @ e)) (rp_b58_decode rp encoded)) (\<lambda>raw.
            and_then (map_err (\<lambda>e. (INVALID_PARAMS, ''decode transaction: '' @ e)) (rp_de_tx rp raw)) (\<lambda>tx.
            case rp_first_sig rp tx of
              None \<Rightarrow> Inl (INVALID_PARAMS, ''transaction has no signature'')
            | Some sig \<Rightarrow> Inr (tx, raw, sig))))
      in case parsed of
        Inl e \<Rightarrow> rfail e sh
      | Inr (tx, raw, sig) \<Rightarrow> submit_and_relay rp tx raw sig sh)"

definition request_airdrop ::
    "('v, 'db, 'a, 'tx, 'key, 's) rpc_env \<Rightarrow> 'v \<Rightarrow> ('v, 'db, 'tx, 's) rm" where
  "request_airdrop rp params sh =
     (let js = rp_json rp;
          made = and_then (and_then (param_str0 js params) (rpc_pubkey rp)) (\<lambda>target.
            case Option.bind (js_index js params 1) (js_u64 js) of
              None \<Rightarrow> Inl (INVALID_PARAMS, ''expected lamports param at 1'')
            | Some lamports \<Rightarrow>
                (case sh_faucet sh of
                   None \<Rightarrow> Inl (INVALID_PARAMS, ''faucet not enabled on this node'')
                 | Some secret \<Rightarrow>
                     and_then (map_err (\<lambda>e. (INTERNAL_ERROR, ''bad faucet key: '' @ e)) (rp_keypair rp secret)) (\<lambda>key.
                     let tx = rp_transfer rp key target lamports (sh_latest_blockhash sh) in
                     case rp_first_sig rp tx of
                       None \<Rightarrow> Inl (INTERNAL_ERROR, ''faucet tx has no signature'')
                     | Some sig \<Rightarrow>
                         and_then (map_err (\<lambda>e. (INTERNAL_ERROR, e)) (rp_ser_tx rp tx)) (\<lambda>raw.
                         Inr (tx, raw, sig)))))
      in case made of
        Inl e \<Rightarrow> rfail e sh
      | Inr (tx, raw, sig) \<Rightarrow> submit_and_relay rp tx raw sig sh)"

definition signature_value ::
    "('v, 'db, 'a, 'tx, 'key, 's) rpc_env \<Rightarrow> ('db, 'tx, 's) shared \<Rightarrow> 'v \<Rightarrow> 'v rpc_value" where
  "signature_value rp sh v =
     (case js_str (rp_json rp) v of
        None \<Rightarrow> RNull
      | Some s \<Rightarrow>
          (case rp_b58_decode rp s of
             Inl _ \<Rightarrow> RNull
           | Inr bs \<Rightarrow>
               if length bs \<noteq> 64 then RNull
               else (case signature_status bs sh of
                 None \<Rightarrow> RNull
               | Some result \<Rightarrow>
                   RObj [(''slot'', RNum (uint (sh_slot sh))), (''confirmations'', RNull),
                     (''err'', case result of None \<Rightarrow> RNull | Some e \<Rightarrow> RStr e),
                     (''confirmationStatus'', RStr ''finalized'')])))"

subsection \<open>Methods\<close>

definition dispatch ::
    "('v, 'db, 'a, 'tx, 'key, 's) rpc_env \<Rightarrow> string \<Rightarrow> 'v \<Rightarrow> ('v, 'db, 'tx, 's) rm" where
  "dispatch rp m params sh =
     (let js = rp_json rp; slot = sh_slot sh; height = RNum (uint slot) in
      if m = ''getHealth'' then rret (RStr ''ok'') sh
      else if m = ''getVersion''
      then rret (RObj [(''solana-core'', RStr ''2.0.0-tao''), (''feature-set'', RNum 0)]) sh
      else if m = ''getSlot'' \<or> m = ''getBlockHeight'' then rret height sh
      else if m = ''getGenesisHash'' then rret (RStr (rp_b58_encode rp (bytes_of (sh_genesis_hash sh)))) sh
      else if m = ''getEpochInfo''
      then rret (RObj [(''absoluteSlot'', height), (''blockHeight'', height), (''epoch'', RNum 0),
        (''slotIndex'', height), (''slotsInEpoch'', RNum 432000), (''transactionCount'', height)]) sh
      else if m = ''getLatestBlockhash''
      then rret (with_context slot
        (RObj [(''blockhash'', RStr (rp_b58_encode rp (bytes_of (sh_latest_blockhash sh)))),
               (''lastValidBlockHeight'', RNum (uint (slot + 150)))])) sh
      else if m = ''getMinimumBalanceForRentExemption''
      then rret (RNum (uint (rp_rent_minimum rp
        (case Option.bind (js_index js params 0) (js_u64 js) of None \<Rightarrow> 0 | Some n \<Rightarrow> unat n)))) sh
      else if m = ''getFeeForMessage'' then rret (with_context slot (RNum 5000)) sh
      else if m = ''getBalance''
      then (case param_account rp params sh of
        Inl e \<Rightarrow> rfail e sh
      | Inr found \<Rightarrow> rret (with_context slot (RNum (case found of None \<Rightarrow> 0
          | Some a \<Rightarrow> uint (ao_lamports (rp_accounts rp) a)))) sh)
      else if m = ''getAccountInfo''
      then (case param_account rp params sh of
        Inl e \<Rightarrow> rfail e sh
      | Inr found \<Rightarrow> rret (with_context slot (case found of None \<Rightarrow> RNull | Some a \<Rightarrow> account_info rp a)) sh)
      else if m = ''sendTransaction'' then send_transaction rp params sh
      else if m = ''requestAirdrop'' then request_airdrop rp params sh
      else if m = ''getSignatureStatuses''
      then (case Option.bind (js_index js params 0) (js_array js) of
        None \<Rightarrow> rfail (INVALID_PARAMS, ''expected array of signatures'') sh
      | Some sigs \<Rightarrow> rret (with_context slot (RList (map (signature_value rp sh) sigs))) sh)
      else rfail (METHOD_NOT_FOUND, ''method not found: '' @ m) sh)"

definition handle_one ::
    "('v, 'db, 'a, 'tx, 'key, 's) rpc_env \<Rightarrow> 'v \<Rightarrow> ('db, 'tx, 's) shared \<Rightarrow>
     ('v rpc_value \<times> ('db, 'tx, 's) shared) option" where
  "handle_one rp req sh =
     (let js = rp_json rp;
          i = (case js_member js req ''id'' of None \<Rightarrow> js_null js | Some v \<Rightarrow> v);
          m = (case Option.bind (js_member js req ''method'') (js_str js) of None \<Rightarrow> '''' | Some s \<Rightarrow> s);
          params = (case js_member js req ''params'' of None \<Rightarrow> js_null js | Some v \<Rightarrow> v) in
      map_option (\<lambda>(r, sh). (RObj [(''jsonrpc'', RStr ''2.0''), (''id'', RGiven i),
          (case r of
             Inr v \<Rightarrow> (''result'', v)
           | Inl (code, message) \<Rightarrow>
               (''error'', RObj [(''code'', RNum code),
                  (''message'', RStr message)]))], sh))
        (dispatch rp m params sh))"

text \<open>The handler: one request, or a batch answered in order.\<close>

fun handle_batch ::
    "('v, 'db, 'a, 'tx, 'key, 's) rpc_env \<Rightarrow> 'v list \<Rightarrow> ('db, 'tx, 's) shared \<Rightarrow>
     ('v rpc_value list \<times> ('db, 'tx, 's) shared) option" where
  "handle_batch rp [] sh = Some ([], sh)"
| "handle_batch rp (req # reqs) sh =
     Option.bind (handle_one rp req sh) (\<lambda>(v, sh).
     map_option (\<lambda>(vs, sh). (v # vs, sh)) (handle_batch rp reqs sh))"

definition handle ::
    "('v, 'db, 'a, 'tx, 'key, 's) rpc_env \<Rightarrow> 'v \<Rightarrow> ('db, 'tx, 's) shared \<Rightarrow>
     ('v rpc_value \<times> ('db, 'tx, 's) shared) option" where
  "handle rp body sh =
     (case js_array (rp_json rp) body of
        Some batch \<Rightarrow> map_option (\<lambda>(vs, sh). (RList vs, sh)) (handle_batch rp batch sh)
      | None \<Rightarrow> handle_one rp body sh)"

subsection \<open>What a request can change\<close>

text \<open>Only the queue of transactions and the peers' streams.\<close>

definition rpc_keeps :: "('db, 'tx, 's) shared \<Rightarrow> ('db, 'tx, 's) shared \<Rightarrow> bool" where
  "rpc_keeps sh sh' \<longleftrightarrow> sh' = sh\<lparr>sh_mempool := sh_mempool sh', sh_network := sh_network sh'\<rparr>"

lemma rpc_keeps_refl [simp]: "rpc_keeps sh sh"
  by (simp add: rpc_keeps_def)

lemma rpc_keeps_trans: "rpc_keeps a b \<Longrightarrow> rpc_keeps b c \<Longrightarrow> rpc_keeps a c"
  by (cases a; cases b; cases c) (simp add: rpc_keeps_def)

lemma submit_and_relay_keeps: "submit_and_relay rp tx raw sig sh = Some (r, sh') \<Longrightarrow> rpc_keeps sh sh' \<and> (\<exists>v. r = Inr v)"
  by (cases sh) (auto simp: submit_and_relay_def submit_tx_def gossip_tx_def rpc_keeps_def bind_eq_Some_conv)

lemma send_transaction_keeps:
  "send_transaction rp params sh = Some (r, sh') \<Longrightarrow> rpc_keeps sh sh' \<and> ((\<exists>e. r = Inl e) \<longrightarrow> sh' = sh)"
  by (auto simp: send_transaction_def Let_def split: sum.splits dest: submit_and_relay_keeps)

lemma request_airdrop_keeps:
  "request_airdrop rp params sh = Some (r, sh') \<Longrightarrow> rpc_keeps sh sh' \<and> ((\<exists>e. r = Inl e) \<longrightarrow> sh' = sh)"
  by (auto simp: request_airdrop_def Let_def split: sum.splits dest: submit_and_relay_keeps)

text \<open>A request that leaves the state alone.\<close>

definition reads_only :: "('db, 'tx, 's) shared \<Rightarrow> ((rpc_error + 'x) \<times> ('db, 'tx, 's) shared) option \<Rightarrow> bool" where
  "reads_only sh x \<longleftrightarrow> (\<forall>r sh'. x = Some (r, sh') \<longrightarrow> sh' = sh)"

lemma reads_only_intros:
  "reads_only sh (rret v sh)" "reads_only sh (rfail e sh)"
  "reads_only sh (case s of Inl e \<Rightarrow> rfail e sh | Inr w \<Rightarrow> rret (g w) sh)"
  "reads_only sh (case t of None \<Rightarrow> rfail e sh | Some w \<Rightarrow> rret (f w) sh)"
  by (auto simp: reads_only_def split: sum.splits option.splits)

lemma reads_only_if: "(c \<Longrightarrow> reads_only sh a) \<Longrightarrow> (\<not> c \<Longrightarrow> reads_only sh b) \<Longrightarrow> reads_only sh (if c then a else b)"
  by simp

definition transacts :: "string \<Rightarrow> bool" where
  "transacts m \<longleftrightarrow> m = ''sendTransaction'' \<or> m = ''requestAirdrop''"

lemma transacts_I: "m = ''sendTransaction'' \<Longrightarrow> transacts m" "m = ''requestAirdrop'' \<Longrightarrow> transacts m"
  by (simp_all add: transacts_def)

lemma dispatch_reads_only:
  assumes "\<not> transacts m"
  shows "reads_only sh (dispatch rp m params sh)"
  unfolding dispatch_def Let_def
  by (intro reads_only_if reads_only_intros) (rule notE [OF assms], erule transacts_I)+

lemma dispatch_transacts:
  "dispatch rp ''sendTransaction'' params sh = send_transaction rp params sh"
  "dispatch rp ''requestAirdrop'' params sh = request_airdrop rp params sh"
  by (simp_all add: dispatch_def)

lemma dispatch_keeps:
  assumes "dispatch rp m params sh = Some (r, sh')"
  shows "rpc_keeps sh sh' \<and> ((\<exists>e. r = Inl e) \<or> \<not> transacts m \<longrightarrow> sh' = sh)"
proof (cases "transacts m")
  case True
  then have "m = ''sendTransaction'' \<or> m = ''requestAirdrop''" by (simp only: transacts_def)
  then show ?thesis
  proof
    assume m: "m = ''sendTransaction''"
    show ?thesis using send_transaction_keeps [OF assms [unfolded m dispatch_transacts]] True by simp
  next
    assume m: "m = ''requestAirdrop''"
    show ?thesis using request_airdrop_keeps [OF assms [unfolded m dispatch_transacts]] True by simp
  qed
next
  case False
  then have "sh' = sh" using dispatch_reads_only [OF False, of sh rp params] assms by (simp add: reads_only_def)
  then show ?thesis by simp
qed

lemma handle_one_keeps:
  assumes "handle_one rp req sh = Some (v, sh')"
  shows "rpc_keeps sh sh'"
proof -
  obtain m params z where z: "dispatch rp m params sh = Some z" "sh' = snd z"
  proof -
    note run = assms [unfolded handle_one_def Let_def map_option_eq_Some]
    from run obtain z where z: "dispatch rp
        (case Option.bind (js_member (rp_json rp) req ''method'') (js_str (rp_json rp)) of None \<Rightarrow> [] | Some s \<Rightarrow> s)
        (case js_member (rp_json rp) req ''params'' of None \<Rightarrow> js_null (rp_json rp) | Some v \<Rightarrow> v) sh = Some z"
      "sh' = snd z" by (elim exE conjE) (simp only: split_beta prod.inject fst_conv snd_conv)
    show thesis by (rule that [OF z])
  qed
  then have "dispatch rp m params sh = Some (fst z, sh')" by simp
  from dispatch_keeps [OF this] show ?thesis ..
qed

lemma handle_batch_keeps: "handle_batch rp reqs sh = Some (vs, sh') \<Longrightarrow> rpc_keeps sh sh'"
proof (induction reqs arbitrary: sh vs)
  case (Cons req reqs)
  obtain v sh1 vs1 where one: "handle_one rp req sh = Some (v, sh1)" and rest: "handle_batch rp reqs sh1 = Some (vs1, sh')"
    using Cons.prems by (cases "handle_one rp req sh") auto
  show ?case by (rule rpc_keeps_trans [OF handle_one_keeps [OF one] Cons.IH [OF rest]])
qed simp

text \<open>
  Property C40.  What a client can change: no HTTP request, single or batch, changes anything of the node but its
  queue of transactions and the streams to its peers; the accounts, the head and the reported
  signatures stay as they are, and so does everything in a request that is refused or is
  neither \<open>sendTransaction\<close> nor \<open>requestAirdrop\<close>.
\<close>

theorem rpc_request_frame:
  assumes "handle rp body sh = Some (v, sh')"
  shows "sh_accounts sh' = sh_accounts sh \<and> sh_slot sh' = sh_slot sh
    \<and> sh_latest_blockhash sh' = sh_latest_blockhash sh \<and> sh_sig_status sh' = sh_sig_status sh
    \<and> sh_faucet sh' = sh_faucet sh \<and> sh_genesis_hash sh' = sh_genesis_hash sh
    \<and> (\<forall>m params r sh1. dispatch rp m params sh = Some (r, sh1) \<longrightarrow>
        (\<exists>e. r = Inl e) \<or> \<not> (m = ''sendTransaction'' \<or> m = ''requestAirdrop'') \<longrightarrow> sh1 = sh)"
proof -
  have "rpc_keeps sh sh'"
  proof (cases "js_array (rp_json rp) body")
    case None
    then show ?thesis using assms by (intro handle_one_keeps) (simp add: handle_def)
  next
    case (Some batch)
    then obtain vs where "handle_batch rp batch sh = Some (vs, sh')" using assms by (auto simp: handle_def)
    then show ?thesis by (rule handle_batch_keeps)
  qed
  then have sh': "sh' = sh\<lparr>sh_mempool := sh_mempool sh', sh_network := sh_network sh'\<rparr>" by (simp only: rpc_keeps_def)
  have fields: "sh_accounts sh' = sh_accounts sh" "sh_slot sh' = sh_slot sh"
    "sh_latest_blockhash sh' = sh_latest_blockhash sh" "sh_sig_status sh' = sh_sig_status sh"
    "sh_faucet sh' = sh_faucet sh" "sh_genesis_hash sh' = sh_genesis_hash sh"
    by (subst sh', simp)+
  have "sh1 = sh" if "dispatch rp m params sh = Some (r, sh1)"
    and "(\<exists>e. r = Inl e) \<or> \<not> (m = ''sendTransaction'' \<or> m = ''requestAirdrop'')" for m params r sh1
    using dispatch_keeps [OF that(1)] that(2) unfolding transacts_def [symmetric] by (elim conjE mp)
  then show ?thesis by (intro conjI allI impI fields)
qed

text \<open>Requests as lists of words, the method first; a transaction is its bytes, and its own signature.\<close>

definition demo_json :: "string list json_ops" where
  "demo_json = \<lparr>js_index = (\<lambda>v i. if i < length v then Some [v ! i] else None),
     js_member = (\<lambda>v k. if k = ''method'' then Some (take 1 v) else if k = ''params'' then Some (drop 1 v) else None),
     js_str = (\<lambda>v. if length v = 1 then Some (hd v) else None), js_u64 = (\<lambda>_. None), js_array = (\<lambda>_. None), js_null = []\<rparr>"

definition demo_rpc :: "(string list, unit, unit, bytes, unit, unit) rpc_env" where
  "demo_rpc = \<lparr>rp_json = demo_json, rp_b58_decode = (\<lambda>s. Inr (map of_char s)), rp_b58_encode = (\<lambda>bs. replicate (length bs) (CHR ''z'')),
     rp_b64_decode = (\<lambda>_. Inl ''unsupported''), rp_b64_encode = (\<lambda>_. []), rp_de_tx = Inr, rp_ser_tx = Inr, rp_first_sig = Some,
     rp_rocks = \<lparr>rk_get = (\<lambda>_ _. Inr None), rk_get_smt = (\<lambda>_ _. Inr None), rk_write = (\<lambda>db _. Inr db), rk_iter = (\<lambda>_. [])\<rparr>,
     rp_accounts = \<lparr>ao_ser = (\<lambda>_. Inr []), ao_de = (\<lambda>_. Inr ()), ao_lamports = (\<lambda>_. 0), ao_data = (\<lambda>_. [])\<rparr>,
     rp_owner = (\<lambda>_. 0), rp_executable = (\<lambda>_. False), rp_rent_epoch = (\<lambda>_. 0), rp_rent_minimum = (\<lambda>_. 0),
     rp_keypair = (\<lambda>_. Inl ''unsupported''), rp_transfer = (\<lambda>_ _ _ _. []), rp_codec = demo_codec, rp_write = (\<lambda>s _. (True, s))\<rparr>"

lemma demo_rpc_sel:
  "rp_json demo_rpc = demo_json" "rp_b58_decode demo_rpc s = Inr (map of_char s)" "rp_de_tx demo_rpc bs = Inr bs"
  "rp_first_sig demo_rpc = Some" "rp_codec demo_rpc = demo_codec"
  by (simp_all add: demo_rpc_def)

definition demo_shared :: "(unit, bytes, unit) shared" where
  "demo_shared = shared_new () 0 7 0 None"

lemma demo_send:
  "\<exists>v sh. handle demo_rpc [''sendTransaction'', ''tx''] demo_shared = Some (v, sh) \<and> mp_txs (sh_mempool sh) = [[116, 120]]"
proof -
  let ?req = "[''sendTransaction'', ''tx'']"
  have json: "js_array demo_json ?req = None" "js_member demo_json ?req ''method'' = Some [''sendTransaction'']"
    "js_member demo_json ?req ''params'' = Some [''tx'']" "js_member demo_json ?req ''id'' = None"
    "js_str demo_json [''sendTransaction''] = Some ''sendTransaction''" "js_index demo_json [''tx''] 0 = Some [''tx'']"
    "js_index demo_json [''tx''] 1 = None" "js_index demo_json [''tx''] (Suc 0) = None" "js_str demo_json [''tx''] = Some ''tx''"
    by (simp_all add: demo_json_def)
  obtain sh where sh: "submit_tx Some [116, 120] demo_shared = Some sh" "mp_txs (sh_mempool sh) = [[116, 120]]"
    by (simp add: submit_tx_def mempool_submit_def demo_shared_def shared_new_def mempool_new_def)
  have "\<exists>v sh'. send_transaction demo_rpc [''tx''] demo_shared = Some (v, sh') \<and> mp_txs (sh_mempool sh') = [[116, 120]]"
    using sh by (simp add: send_transaction_def param_str0_def demo_rpc_sel json Let_def submit_and_relay_def gossip_tx_def map_err_def)
  then show ?thesis
    by (simp add: handle_def handle_one_def demo_rpc_sel json Let_def dispatch_transacts) blast
qed

theorem rpc_request_frame_witness:
  "\<exists>v sh. handle demo_rpc [''sendTransaction'', ''tx''] demo_shared = Some (v, sh)
    \<and> mp_txs (sh_mempool sh) = [[116, 120]] \<and> sh_slot sh = 7"
proof -
  obtain v sh where h: "handle demo_rpc [''sendTransaction'', ''tx''] demo_shared = Some (v, sh)" "mp_txs (sh_mempool sh) = [[116, 120]]"
    using demo_send by blast
  have "sh_slot sh = sh_slot demo_shared" using rpc_request_frame [OF h(1)] by (elim conjE)
  then have "sh_slot sh = 7" by (simp add: demo_shared_def shared_new_def)
  with h show ?thesis by blast
qed

end
