(* ===== verification/BlockhashQueue.thy ===== *)
theory BlockhashQueue
  imports Prelude
begin

text \<open>
  Recent block hashes: \<^verbatim>\<open>crates/tao-runtime/src/blockhash_queue.rs\<close>.  The deque is a list,
  newest first; \<open>None\<close> from the constructor is its assertion.
\<close>

record blockhash_queue =
  bq_recent :: "bytes32 list"
  bq_max_age :: nat

definition bq_new :: "nat \<Rightarrow> blockhash_queue option" where
  "bq_new max_age =
     (if max_age > 0 then Some \<lparr>bq_recent = [], bq_max_age = max_age\<rparr> else None)"

function pop_loop :: "nat \<Rightarrow> bytes32 list \<Rightarrow> bytes32 list" where
  "pop_loop max_age recent =
     (if length recent > max_age then pop_loop max_age (butlast recent) else recent)"
  by pat_completeness auto
termination
  by (relation "measure (\<lambda>(_, recent). length recent)") auto

declare pop_loop.simps [simp del]

definition bq_register :: "blockhash_queue \<Rightarrow> bytes32 \<Rightarrow> blockhash_queue" where
  "bq_register q h = q\<lparr>bq_recent := pop_loop (bq_max_age q) (h # bq_recent q)\<rparr>"

definition bq_contains :: "blockhash_queue \<Rightarrow> bytes32 \<Rightarrow> bool" where
  "bq_contains q h \<longleftrightarrow> list_ex (\<lambda>x. x = h) (bq_recent q)"

definition bq_latest :: "blockhash_queue \<Rightarrow> bytes32 option" where
  "bq_latest q = (case bq_recent q of [] \<Rightarrow> None | h # _ \<Rightarrow> Some h)"

fun list_position :: "('a \<Rightarrow> bool) \<Rightarrow> 'a list \<Rightarrow> nat option" where
  "list_position P [] = None"
| "list_position P (x # xs) = (if P x then Some 0 else map_option Suc (list_position P xs))"

definition bq_age_of :: "blockhash_queue \<Rightarrow> bytes32 \<Rightarrow> nat option" where
  "bq_age_of q h = list_position (\<lambda>x. x = h) (bq_recent q)"

definition bq_len :: "blockhash_queue \<Rightarrow> nat" where
  "bq_len q = length (bq_recent q)"

definition bq_is_empty :: "blockhash_queue \<Rightarrow> bool" where
  "bq_is_empty q \<longleftrightarrow> bq_recent q = []"

lemma pop_loop_take: "pop_loop max_age recent = take max_age recent"
proof (induction max_age recent rule: pop_loop.induct)
  case (1 max_age recent)
  show ?case
  proof (cases "length recent > max_age")
    case True
    then have "take max_age (butlast recent) = take max_age recent"
      by (simp add: butlast_conv_take)
    with True 1 show ?thesis by (simp add: pop_loop.simps [of max_age recent])
  qed (simp add: pop_loop.simps [of max_age recent])
qed

lemma list_position_Some:
  "list_position P xs = Some i \<longleftrightarrow> i < length xs \<and> P (xs ! i) \<and> (\<forall>j < i. \<not> P (xs ! j))"
proof (induction xs arbitrary: i)
  case (Cons x xs)
  show ?case
  proof (cases i)
    case 0
    then show ?thesis using Cons by auto
  next
    case (Suc k)
    then show ?thesis using Cons by (auto simp: less_Suc_eq_0_disj)
  qed
qed simp

text \<open>After a history of registrations the queue is its last \<open>max_age\<close> hashes.\<close>

lemma bq_history:
  assumes "bq_new max_age = Some q"
  shows "foldl bq_register q hs = \<lparr>bq_recent = take max_age (rev hs), bq_max_age = max_age\<rparr>"
proof (induction hs rule: rev_induct)
  case Nil
  then show ?case using assms by (auto simp: bq_new_def split: if_splits)
next
  case (snoc h hs)
  have "take max_age (h # take max_age xs) = take max_age (h # xs)" for xs :: "bytes32 list"
    by (cases max_age) (simp_all add: take_take min_def)
  with snoc show ?case by (simp add: bq_register_def pop_loop_take)
qed

text \<open>
  A transaction's block hash is recent exactly when it is among the last
  \<open>max_age\<close> registered hashes: after any history, \<open>age_of\<close> returns the distance of the most
  recent registration of the hash from the end of the history, if that is below \<open>max_age\<close>, and
  \<open>contains\<close> says whether it returns one.
\<close>

theorem blockhash_age:
  assumes "bq_new max_age = Some q"
  shows "(bq_age_of (foldl bq_register q hs) h = Some i \<longleftrightarrow>
      i < max_age \<and> i < length hs \<and> rev hs ! i = h \<and> h \<notin> set (take i (rev hs)))
    \<and> (bq_contains (foldl bq_register q hs) h \<longleftrightarrow> bq_age_of (foldl bq_register q hs) h \<noteq> None)"
proof -
  have pos: "list_position P xs = None \<longleftrightarrow> \<not> list_ex P xs" for P and xs :: "bytes32 list"
    by (induction xs) auto
  have "(\<forall>j < i. take max_age (rev hs) ! j \<noteq> h) \<longleftrightarrow> h \<notin> set (take i (rev hs))"
    if "i < length hs" "i < max_age"
    using that by (auto simp: in_set_conv_nth)
  moreover have "i < max_age \<Longrightarrow> take max_age (rev hs) ! i = rev hs ! i" by simp
  ultimately have "bq_age_of (foldl bq_register q hs) h = Some i \<longleftrightarrow>
      i < max_age \<and> i < length hs \<and> rev hs ! i = h \<and> h \<notin> set (take i (rev hs))"
    unfolding bq_age_of_def bq_history [OF assms] list_position_Some blockhash_queue.select_convs
      length_take length_rev min_less_iff_conj by metis
  moreover have "bq_contains (foldl bq_register q hs) h \<longleftrightarrow> bq_age_of (foldl bq_register q hs) h \<noteq> None"
    by (simp only: bq_contains_def bq_age_of_def pos not_not)
  ultimately show ?thesis by blast
qed

theorem blockhash_age_witness:
  "bq_age_of (foldl bq_register \<lparr>bq_recent = [], bq_max_age = 2\<rparr> [7, 8, 9]) 8 = Some 1"
  using blockhash_age [of 2 "\<lparr>bq_recent = [], bq_max_age = 2\<rparr>" "[7, 8, 9]" 8 1]
  by (simp add: bq_new_def)

end
