(* ===== verification/TaoDag.thy ===== *)
theory TaoDag
  imports Prelude
begin

text \<open>
  The GHOSTDAG ordering prototype: \<^verbatim>\<open>crates/tao-dag/src/lib.rs\<close>.

  The node table is an association list in insertion order, read through \<open>map_of\<close>; hash
  sets are sets, and where the code walks one its elements are listed in increasing order (the
  results do not depend on that order).  Inside \<open>add_block\<close> only ids of stored blocks are looked
  up (part of \<open>dag_ok\<close>), so the index panics of the private helpers cannot happen there and the
  helpers read an absent block as one with no past; the public accessors return \<open>None\<close> for it.
\<close>

datatype dag_error = DagDuplicate | DagUnknownParent | DagNoParents

record dag_node =
  dn_parents :: "u64 list"
  dn_past :: "u64 set"
  dn_blue_set :: "u64 set"
  dn_selected_parent :: "u64 option"
  dn_mergeset_blues :: "u64 list"
  dn_mergeset_reds :: "u64 list"

record dag =
  dg_k :: nat
  dg_genesis :: u64
  dg_nodes :: "(u64 \<times> dag_node) list"

definition dag_new :: "nat \<Rightarrow> u64 \<Rightarrow> dag" where
  "dag_new k genesis =
     \<lparr>dg_k = k, dg_genesis = genesis,
      dg_nodes = [(genesis, \<lparr>dn_parents = [], dn_past = {}, dn_blue_set = {genesis},
        dn_selected_parent = None, dn_mergeset_blues = [], dn_mergeset_reds = []\<rparr>)]\<rparr>"

definition dag_node_of :: "dag \<Rightarrow> u64 \<Rightarrow> dag_node option" where
  "dag_node_of d = map_of (dg_nodes d)"

definition dag_contains :: "dag \<Rightarrow> u64 \<Rightarrow> bool" where
  "dag_contains d b \<longleftrightarrow> dag_node_of d b \<noteq> None"

definition dag_blue_score :: "dag \<Rightarrow> u64 \<Rightarrow> nat option" where
  "dag_blue_score d b = map_option (\<lambda>n. card (dn_blue_set n)) (dag_node_of d b)"

definition dag_selected_parent :: "dag \<Rightarrow> u64 \<Rightarrow> u64 option option" where
  "dag_selected_parent d b = map_option dn_selected_parent (dag_node_of d b)"

definition dag_parents :: "dag \<Rightarrow> u64 \<Rightarrow> u64 list option" where
  "dag_parents d b = map_option dn_parents (dag_node_of d b)"

definition past_of :: "dag \<Rightarrow> u64 \<Rightarrow> u64 set" where
  "past_of d b = (case dag_node_of d b of None \<Rightarrow> {} | Some n \<Rightarrow> dn_past n)"

definition blues_of :: "dag \<Rightarrow> u64 \<Rightarrow> u64 set" where
  "blues_of d b = (case dag_node_of d b of None \<Rightarrow> {} | Some n \<Rightarrow> dn_blue_set n)"

definition is_anticone :: "dag \<Rightarrow> u64 \<Rightarrow> u64 \<Rightarrow> bool" where
  "is_anticone d x c \<longleftrightarrow> x \<noteq> c \<and> x \<notin> past_of d c \<and> c \<notin> past_of d x"

definition topo_key :: "dag \<Rightarrow> u64 \<Rightarrow> nat \<times> u64" where
  "topo_key d b = (card (past_of d b), b)"

definition topo_le :: "dag \<Rightarrow> u64 \<Rightarrow> u64 \<Rightarrow> bool" where
  "topo_le d a b \<longleftrightarrow> (case (topo_key d a, topo_key d b) of
     ((m, x), (n, y)) \<Rightarrow> m < n \<or> m = n \<and> x \<le> y)"

text \<open>Sorting by the key is stable insertion sort.\<close>

fun topo_insert :: "dag \<Rightarrow> u64 \<Rightarrow> u64 list \<Rightarrow> u64 list" where
  "topo_insert d x [] = [x]"
| "topo_insert d x (y # ys) = (if topo_le d x y then x # y # ys else y # topo_insert d x ys)"

definition topo_sort :: "dag \<Rightarrow> u64 list \<Rightarrow> u64 list" where
  "topo_sort d xs = foldr (topo_insert d) xs []"

text \<open>\<open>max_by_key\<close> on \<open>(blue_score, Reverse(id))\<close>: a later element wins when it is not smaller.\<close>

definition score_le :: "dag \<Rightarrow> u64 \<Rightarrow> u64 \<Rightarrow> bool" where
  "score_le d p q \<longleftrightarrow> card (blues_of d p) < card (blues_of d q)
     \<or> card (blues_of d p) = card (blues_of d q) \<and> q \<le> p"

fun best_by_score :: "dag \<Rightarrow> u64 \<Rightarrow> u64 list \<Rightarrow> u64" where
  "best_by_score d best [] = best"
| "best_by_score d best (p # ps) = best_by_score d (if score_le d best p then p else best) ps"

fun classify :: "dag \<Rightarrow> u64 list \<Rightarrow> u64 list \<Rightarrow> u64 list \<Rightarrow> u64 list \<Rightarrow> u64 list \<times> u64 list" where
  "classify d [] accepted blues reds = (blues, reds)"
| "classify d (c # cs) accepted blues reds =
     (let anti = filter (\<lambda>x. is_anticone d x c) accepted in
      if length anti > dg_k d then classify d cs accepted blues (reds @ [c])
      else if list_all (\<lambda>x. length (filter (\<lambda>y. is_anticone d y x) accepted) + 1 \<le> dg_k d) anti
      then classify d cs (accepted @ [c]) (blues @ [c]) reds
      else classify d cs accepted blues (reds @ [c]))"

text \<open>The node \<open>add_block\<close> stores, once its checks have passed.\<close>

definition dag_make_node :: "dag \<Rightarrow> u64 \<Rightarrow> u64 list \<Rightarrow> dag_node" where
  "dag_make_node d i parents =
     (let past = (\<Union>p \<in> set parents. insert p (past_of d p));
          sp = best_by_score d (hd parents) (tl parents);
          mergeset = topo_sort d (sorted_list_of_set {b \<in> past. b \<noteq> sp \<and> b \<notin> past_of d sp});
          (blues, reds) = classify d mergeset (sorted_list_of_set (blues_of d sp)) [] []
      in \<lparr>dn_parents = parents, dn_past = past,
          dn_blue_set = insert i (blues_of d sp \<union> set blues),
          dn_selected_parent = Some sp, dn_mergeset_blues = blues, dn_mergeset_reds = reds\<rparr>)"

definition dag_add_block :: "dag \<Rightarrow> u64 \<Rightarrow> u64 list \<Rightarrow> dag_error + dag" where
  "dag_add_block d i parents =
     (if dag_contains d i then Inl DagDuplicate
      else if parents = [] then Inl DagNoParents
      else if list_ex (\<lambda>p. \<not> dag_contains d p) parents then Inl DagUnknownParent
      else Inr (d\<lparr>dg_nodes := dg_nodes d @ [(i, dag_make_node d i parents)]\<rparr>))"

definition dag_tip :: "dag \<Rightarrow> u64 option" where
  "dag_tip d = (case map fst (dg_nodes d) of [] \<Rightarrow> None | b # bs \<Rightarrow> Some (best_by_score d b bs))"

definition is_blue_at_tip :: "dag \<Rightarrow> u64 \<Rightarrow> bool option" where
  "is_blue_at_tip d b = map_option (\<lambda>t. b \<in> blues_of d t) (dag_tip d)"

text \<open>The selected-parent chain, tip first; the fuel bounds its length by the number of blocks.\<close>

fun sp_chain :: "dag \<Rightarrow> nat \<Rightarrow> u64 \<Rightarrow> u64 list option" where
  "sp_chain d 0 b = None"
| "sp_chain d (Suc n) b =
     (case dag_node_of d b of
        None \<Rightarrow> None
      | Some node \<Rightarrow>
          (case dn_selected_parent node of
             None \<Rightarrow> Some [b]
           | Some p \<Rightarrow> map_option (\<lambda>bs. b # bs) (sp_chain d n p)))"

definition order_step :: "dag \<Rightarrow> u64 \<Rightarrow> u64 list" where
  "order_step d b =
     (if b = dg_genesis d then [b]
      else case dag_node_of d b of
        None \<Rightarrow> [b]
      | Some node \<Rightarrow>
          topo_sort d (dn_mergeset_blues node) @ topo_sort d (dn_mergeset_reds node) @ [b])"

definition dag_order :: "dag \<Rightarrow> u64 list option" where
  "dag_order d =
     (case dag_tip d of
        None \<Rightarrow> None
      | Some t \<Rightarrow>
          map_option (\<lambda>chain. concat (map (order_step d) (rev chain)))
            (sp_chain d (length (dg_nodes d)) t))"

inductive dag_reachable :: "nat \<Rightarrow> u64 \<Rightarrow> dag \<Rightarrow> bool" for k g where
  start: "dag_reachable k g (dag_new k g)"
| add: "dag_reachable k g d \<Longrightarrow> dag_add_block d i parents = Inr d' \<Longrightarrow> dag_reachable k g d'"

subsection \<open>Sorting and selection\<close>

lemma set_topo_sort [simp]: "set (topo_sort d xs) = set xs"
proof -
  have "set (topo_insert d x ys) = insert x (set ys)" for x ys by (induction ys) auto
  then show ?thesis unfolding topo_sort_def by (induction xs) auto
qed

lemma distinct_topo_sort [simp]: "distinct (topo_sort d xs) \<longleftrightarrow> distinct xs"
proof -
  have ins: "set (topo_insert d x ys) = insert x (set ys)" for x ys by (induction ys) auto
  have dist: "distinct (topo_insert d x ys) \<longleftrightarrow> x \<notin> set ys \<and> distinct ys" for x ys
    by (induction ys) (auto simp: ins)
  have "set (foldr (topo_insert d) xs []) = set xs" for xs by (induction xs) (auto simp: ins)
  then show ?thesis unfolding topo_sort_def by (induction xs) (auto simp: dist)
qed

lemma topo_le_linear: "topo_le d x y \<or> topo_le d y x"
  by (auto simp: topo_le_def topo_key_def)

lemma topo_le_total: "\<not> topo_le d x y \<Longrightarrow> topo_le d y x"
  using topo_le_linear by blast

lemma topo_le_trans: "topo_le d x y \<Longrightarrow> topo_le d y z \<Longrightarrow> topo_le d x z"
  by (auto simp: topo_le_def topo_key_def)

lemma sorted_topo_sort: "sorted_wrt (topo_le d) (topo_sort d xs)"
proof -
  have ins: "set (topo_insert d x ys) = insert x (set ys)" for x ys by (induction ys) auto
  have "sorted_wrt (topo_le d) (topo_insert d x ys)" if "sorted_wrt (topo_le d) ys" for x ys
    using that by (induction ys) (auto simp: ins intro: topo_le_trans dest: topo_le_total)
  then show ?thesis unfolding topo_sort_def by (induction xs) auto
qed

lemma topo_sort_cong:
  assumes "\<And>x. x \<in> set xs \<Longrightarrow> past_of d x = past_of d' x"
  shows "topo_sort d xs = topo_sort d' xs"
proof -
  have ins: "set (topo_insert d x ys) = insert x (set ys)" for d x ys by (induction ys) auto
  have le: "topo_insert d x ys = topo_insert d' x ys"
    if "\<And>z. z \<in> insert x (set ys) \<Longrightarrow> past_of d z = past_of d' z" for x ys
    using that by (induction ys) (auto simp: topo_le_def topo_key_def)
  have sets: "set (foldr (topo_insert d') xs []) = set xs" for xs by (induction xs) (auto simp: ins)
  show ?thesis unfolding topo_sort_def
    using assms
  proof (induction xs)
    case (Cons x xs)
    then show ?case using le [of x "foldr (topo_insert d') xs []"] by (auto simp: sets)
  qed simp
qed

lemma best_by_score_mem: "best_by_score d b bs \<in> insert b (set bs)"
  by (induction d b bs rule: best_by_score.induct) auto

lemma best_by_score_cong:
  assumes "\<And>x. x \<in> insert b (set bs) \<Longrightarrow> blues_of d x = blues_of d' x"
  shows "best_by_score d b bs = best_by_score d' b bs"
  using assms
proof (induction bs arbitrary: b)
  case (Cons p bs)
  have "score_le d b p = score_le d' b p" using Cons.prems by (simp add: score_le_def)
  moreover have "best_by_score d q bs = best_by_score d' q bs" if "q = b \<or> q = p" for q
    using that Cons.prems by (intro Cons.IH) auto
  ultimately show ?case by simp
qed simp

lemma score_le_trans: "score_le d x y \<Longrightarrow> score_le d y z \<Longrightarrow> score_le d x z"
  by (auto simp: score_le_def)

lemma score_le_antisym: "score_le d x y \<Longrightarrow> score_le d y x \<Longrightarrow> x = y"
  by (auto simp: score_le_def)

lemma score_le_linear: "score_le d x y \<or> score_le d y x"
  by (auto simp: score_le_def)

lemma best_by_score_max: "x \<in> insert b (set bs) \<Longrightarrow> score_le d x (best_by_score d b bs)"
proof (induction bs arbitrary: b x)
  case Nil
  then show ?case by (simp add: score_le_def)
next
  case (Cons p bs)
  let ?q = "if score_le d b p then p else b"
  have "score_le d z ?q" if "z = b \<or> z = p" for z
    using that score_le_linear [of d b p] by (auto simp: score_le_def)
  moreover have "score_le d ?q (best_by_score d ?q bs)" by (rule Cons.IH) simp
  ultimately have "score_le d z (best_by_score d ?q bs)" if "z = b \<or> z = p" for z
    using that score_le_trans by blast
  moreover have "score_le d x (best_by_score d ?q bs)" if "x \<in> set bs"
    using that by (intro Cons.IH) simp
  ultimately show ?case using Cons.prems by auto
qed

subsection \<open>Classification\<close>

lemma is_anticone_sym: "is_anticone d x y \<longleftrightarrow> is_anticone d y x"
  by (auto simp: is_anticone_def)

text \<open>A set of blocks in which each has at most \<open>k\<close> of the others in its anticone.\<close>

definition cluster :: "dag \<Rightarrow> u64 set \<Rightarrow> bool" where
  "cluster d B \<longleftrightarrow> (\<forall>x \<in> B. card {y \<in> B. is_anticone d y x} \<le> dg_k d)"

lemma cluster_insert:
  assumes "cluster d B" and "finite B" and "c \<notin> B"
    and "card {y \<in> B. is_anticone d y c} \<le> dg_k d"
    and "\<And>x. x \<in> B \<Longrightarrow> is_anticone d x c \<Longrightarrow> card {y \<in> B. is_anticone d y x} + 1 \<le> dg_k d"
  shows "cluster d (insert c B)"
  unfolding cluster_def
proof
  fix x
  assume "x \<in> insert c B"
  show "card {y \<in> insert c B. is_anticone d y x} \<le> dg_k d"
  proof (cases "x = c")
    case True
    then have "{y \<in> insert c B. is_anticone d y x} = {y \<in> B. is_anticone d y c}"
      by (auto simp: is_anticone_def)
    with assms(4) show ?thesis by simp
  next
    case False
    with \<open>x \<in> insert c B\<close> have "x \<in> B" by simp
    show ?thesis
    proof (cases "is_anticone d c x")
      case True
      then have "{y \<in> insert c B. is_anticone d y x} = insert c {y \<in> B. is_anticone d y x}" by auto
      moreover have "card {y \<in> B. is_anticone d y x} + 1 \<le> dg_k d"
        using True \<open>x \<in> B\<close> by (intro assms(5)) (simp_all add: is_anticone_sym)
      ultimately show ?thesis using assms(2,3) by simp
    next
      case False
      then have "{y \<in> insert c B. is_anticone d y x} = {y \<in> B. is_anticone d y x}" by auto
      with assms(1) \<open>x \<in> B\<close> show ?thesis by (simp add: cluster_def)
    qed
  qed
qed

lemma length_filter_card: "distinct xs \<Longrightarrow> length (filter P xs) = card {x \<in> set xs. P x}"
  by (simp add: distinct_length_filter Int_def conj_commute)

lemma classify_correct:
  assumes "distinct (acc @ cs)" and "cluster d (set acc)"
    and "classify d cs acc bs rs = (bl, rd)"
  shows "\<exists>b r. bl = bs @ b \<and> rd = rs @ r \<and> set b \<union> set r = set cs \<and> distinct (b @ r)
    \<and> cluster d (set acc \<union> set b)"
  using assms
proof (induction d cs acc bs rs rule: classify.induct)
  case (1 d acc bs rs)
  then show ?case by simp
next
  case (2 d c cs acc bs rs)
  let ?anti = "filter (\<lambda>x. is_anticone d x c) acc"
  let ?ok = "list_all (\<lambda>x. length (filter (\<lambda>y. is_anticone d y x) acc) + 1 \<le> dg_k d) ?anti"
  have dist: "distinct acc" "c \<notin> set acc" "distinct (acc @ cs)" "distinct ((acc @ [c]) @ cs)" "c \<notin> set cs"
    using "2.prems"(1) by auto
  show ?case
  proof (cases "length ?anti \<le> dg_k d \<and> ?ok")
    case True
    have "cluster d (insert c (set acc))"
    proof (rule cluster_insert [OF "2.prems"(2) _ dist(2)])
      show "card {y \<in> set acc. is_anticone d y c} \<le> dg_k d"
        using True dist(1) by (simp add: length_filter_card)
      show "card {y \<in> set acc. is_anticone d y x} + 1 \<le> dg_k d"
        if "x \<in> set acc" "is_anticone d x c" for x
        using True dist(1) that by (simp add: list_all_iff length_filter_card)
    qed simp
    then have "cluster d (set (acc @ [c]))" by simp
    moreover have "classify d cs (acc @ [c]) (bs @ [c]) rs = (bl, rd)"
      using "2.prems"(3) True by (simp add: Let_def)
    ultimately obtain b r where "bl = (bs @ [c]) @ b" "rd = rs @ r" "set b \<union> set r = set cs"
      "distinct (b @ r)" "cluster d (set (acc @ [c]) \<union> set b)"
      using "2.IH"(2) [OF refl _ _ dist(4)] True by auto
    with dist(5) show ?thesis
      by (intro exI [of _ "c # b"] exI [of _ r]) auto
  next
    case False
    then have "classify d cs acc bs (rs @ [c]) = (bl, rd)"
      using "2.prems"(3) by (auto simp: Let_def split: if_splits)
    then obtain b r where "bl = bs @ b" "rd = (rs @ [c]) @ r" "set b \<union> set r = set cs"
      "distinct (b @ r)" "cluster d (set acc \<union> set b)"
      using "2.IH"(1) [OF refl _ dist(3) "2.prems"(2)] "2.IH"(3) [OF refl _ _ dist(3) "2.prems"(2)] False
      by (cases "length ?anti > dg_k d") auto
    with dist(5) show ?thesis
      by (intro exI [of _ b] exI [of _ "c # r"]) auto
  qed
qed

lemma classify_cong:
  assumes "\<And>x. x \<in> set acc \<union> set cs \<Longrightarrow> past_of d x = past_of d' x" and "dg_k d = dg_k d'"
  shows "classify d cs acc bs rs = classify d' cs acc bs rs"
  using assms(1)
proof (induction cs arbitrary: acc bs rs)
  case (Cons c cs)
  have anti: "is_anticone d x y = is_anticone d' x y" if "x \<in> insert c (set acc)" "y \<in> insert c (set acc)" for x y
    using that Cons.prems by (auto simp: is_anticone_def)
  have f: "filter (\<lambda>x. is_anticone d x y) acc = filter (\<lambda>x. is_anticone d' x y) acc"
    if "y \<in> insert c (set acc)" for y
    using anti that by (intro filter_cong) auto
  have ok: "list_all (\<lambda>x. length (filter (\<lambda>y. is_anticone d y x) acc) + 1 \<le> dg_k d) (filter (\<lambda>x. is_anticone d x c) acc)
      = list_all (\<lambda>x. length (filter (\<lambda>y. is_anticone d' y x) acc) + 1 \<le> dg_k d') (filter (\<lambda>x. is_anticone d' x c) acc)"
    using f assms(2) by (auto simp: list_all_iff)
  have "classify d cs acc bs (rs @ [c]) = classify d' cs acc bs (rs @ [c])"
    using Cons.prems by (intro Cons.IH) auto
  moreover have "classify d cs (acc @ [c]) (bs @ [c]) rs = classify d' cs (acc @ [c]) (bs @ [c]) rs"
    using Cons.prems by (intro Cons.IH) auto
  ultimately show ?case using ok f [of c] assms(2) by (simp only: classify.simps Let_def) simp
qed simp

subsection \<open>The invariant\<close>

abbreviation dag_keys :: "dag \<Rightarrow> u64 set" where
  "dag_keys d \<equiv> dom (dag_node_of d)"

definition genesis_node :: "u64 \<Rightarrow> dag_node" where
  "genesis_node g = \<lparr>dn_parents = [], dn_past = {}, dn_blue_set = {g}, dn_selected_parent = None,
     dn_mergeset_blues = [], dn_mergeset_reds = []\<rparr>"

definition dag_ok :: "dag \<Rightarrow> bool" where
  "dag_ok d \<longleftrightarrow>
     distinct (map fst (dg_nodes d))
     \<and> dag_node_of d (dg_genesis d) = Some (genesis_node (dg_genesis d))
     \<and> (\<forall>b n. dag_node_of d b = Some n \<longrightarrow> b \<noteq> dg_genesis d \<longrightarrow>
          dn_parents n \<noteq> [] \<and> set (dn_parents n) \<subseteq> dag_keys d \<and> n = dag_make_node d b (dn_parents n))
     \<and> (\<forall>b \<in> dag_keys d. past_of d b \<subseteq> dag_keys d \<and> finite (past_of d b) \<and> b \<notin> past_of d b
          \<and> (\<forall>x \<in> past_of d b. past_of d x \<subseteq> past_of d b)
          \<and> (b \<noteq> dg_genesis d \<longrightarrow> dg_genesis d \<in> past_of d b))
     \<and> (\<forall>b \<in> dag_keys d. blues_of d b \<subseteq> insert b (past_of d b) \<and> b \<in> blues_of d b
          \<and> cluster d (blues_of d b))"

lemma dag_okD:
  assumes "dag_ok d"
  shows "distinct (map fst (dg_nodes d))"
    and "dag_node_of d (dg_genesis d) = Some (genesis_node (dg_genesis d))"
    and "dag_node_of d b = Some n \<Longrightarrow> b \<noteq> dg_genesis d \<Longrightarrow>
      dn_parents n \<noteq> [] \<and> set (dn_parents n) \<subseteq> dag_keys d \<and> n = dag_make_node d b (dn_parents n)"
    and "b \<in> dag_keys d \<Longrightarrow> past_of d b \<subseteq> dag_keys d"
    and "b \<in> dag_keys d \<Longrightarrow> finite (past_of d b)"
    and "b \<in> dag_keys d \<Longrightarrow> b \<notin> past_of d b"
    and "b \<in> dag_keys d \<Longrightarrow> x \<in> past_of d b \<Longrightarrow> past_of d x \<subseteq> past_of d b"
    and "b \<in> dag_keys d \<Longrightarrow> b \<noteq> dg_genesis d \<Longrightarrow> dg_genesis d \<in> past_of d b"
    and "b \<in> dag_keys d \<Longrightarrow> blues_of d b \<subseteq> insert b (past_of d b)"
    and "b \<in> dag_keys d \<Longrightarrow> b \<in> blues_of d b"
    and "b \<in> dag_keys d \<Longrightarrow> cluster d (blues_of d b)"
  using assms unfolding dag_ok_def by blast+

lemma finite_dag_keys: "finite (dag_keys d)"
  by (simp add: dag_node_of_def finite_dom_map_of)

lemma past_of_mono: "dag_node_of d b = Some n \<Longrightarrow> past_of d b = dn_past n \<and> blues_of d b = dn_blue_set n"
  by (simp add: past_of_def blues_of_def)

text \<open>A node depends only on the pasts and blue sets of a closed set around its parents.\<close>

lemma dag_make_node_cong:
  assumes same: "\<And>x. x \<in> S \<Longrightarrow> past_of d x = past_of d' x \<and> blues_of d x = blues_of d' x"
    and closed: "\<And>x. x \<in> S \<Longrightarrow> past_of d x \<subseteq> S \<and> finite (past_of d x) \<and> blues_of d x \<subseteq> S \<and> finite (blues_of d x)"
    and parents: "set parents \<subseteq> S" "parents \<noteq> []" and k: "dg_k d = dg_k d'"
  shows "dag_make_node d i parents = dag_make_node d' i parents"
proof -
  let ?sp = "best_by_score d (hd parents) (tl parents)"
  have mem: "insert (hd parents) (set (tl parents)) = set parents" using parents(2) by (cases parents) auto
  then have sp: "?sp \<in> S" using best_by_score_mem [of d "hd parents" "tl parents"] parents(1) by auto
  have sp': "best_by_score d' (hd parents) (tl parents) = ?sp"
    using mem parents(1) same by (intro best_by_score_cong [symmetric]) auto
  have past: "(\<Union>p \<in> set parents. insert p (past_of d' p)) = (\<Union>p \<in> set parents. insert p (past_of d p))"
    using parents(1) same by auto
  define P where "P = (\<Union>p \<in> set parents. insert p (past_of d p))"
  have "finite P" using parents(1) closed by (auto simp: P_def)
  moreover have "P \<subseteq> S" using parents(1) closed by (auto simp: P_def)
  ultimately have M: "set (sorted_list_of_set {b \<in> P. b \<noteq> ?sp \<and> b \<notin> past_of d ?sp}) \<subseteq> S" by auto
  define ms where "ms = topo_sort d (sorted_list_of_set {b \<in> P. b \<noteq> ?sp \<and> b \<notin> past_of d ?sp})"
  have ms': "topo_sort d' (sorted_list_of_set {b \<in> P. b \<noteq> ?sp \<and> b \<notin> past_of d ?sp}) = ms"
    unfolding ms_def using M same by (intro topo_sort_cong) auto
  have "classify d ms (sorted_list_of_set (blues_of d ?sp)) [] [] =
      classify d' ms (sorted_list_of_set (blues_of d ?sp)) [] []"
    using M closed [OF sp] same k by (intro classify_cong) (auto simp: ms_def)
  moreover have e: "past_of d' ?sp = past_of d ?sp" "blues_of d' ?sp = blues_of d ?sp"
    using same [OF sp] by simp_all
  ultimately show ?thesis
    unfolding dag_make_node_def Let_def sp' past P_def [symmetric] e ms' ms_def [symmetric] by simp
qed

lemma dag_ok_closed:
  assumes "dag_ok d" and "x \<in> dag_keys d"
  shows "past_of d x \<subseteq> dag_keys d \<and> finite (past_of d x) \<and> blues_of d x \<subseteq> dag_keys d \<and> finite (blues_of d x)"
  using dag_okD(4,5,9) [OF assms] assms(2) by (auto intro: finite_subset)

lemma dag_new_ok: "dag_ok (dag_new k g)"
proof -
  have n: "dag_node_of (dag_new k g) = [g \<mapsto> genesis_node g]"
    by (simp add: dag_node_of_def dag_new_def genesis_node_def)
  have none: "{y \<in> {g}. is_anticone (dag_new k g) y g} = {}" by (auto simp: is_anticone_def)
  have "cluster (dag_new k g) {g}"
    unfolding cluster_def
  proof
    fix x
    assume "x \<in> {g}"
    then have "x = g" by simp
    show "card {y \<in> {g}. is_anticone (dag_new k g) y x} \<le> dg_k (dag_new k g)"
      unfolding \<open>x = g\<close> none by simp
  qed
  then show ?thesis
    unfolding dag_ok_def past_of_def blues_of_def n
    by (simp add: dag_new_def genesis_node_def)
qed

text \<open>The parts of a new node.\<close>

lemma dag_make_node_parts:
  assumes ok: "dag_ok d" and parents: "set parents \<subseteq> dag_keys d" "parents \<noteq> []" and new: "i \<notin> dag_keys d"
  obtains sp blues reds where
    "dag_make_node d i parents = \<lparr>dn_parents = parents,
       dn_past = (\<Union>p \<in> set parents. insert p (past_of d p)),
       dn_blue_set = insert i (blues_of d sp \<union> set blues), dn_selected_parent = Some sp,
       dn_mergeset_blues = blues, dn_mergeset_reds = reds\<rparr>"
    "sp \<in> set parents" "distinct (blues @ reds)"
    "set blues \<union> set reds = (\<Union>p \<in> set parents. insert p (past_of d p)) - insert sp (past_of d sp)"
    "cluster d (blues_of d sp \<union> set blues)"
    "\<And>p. p \<in> set parents \<Longrightarrow> score_le d p sp"
proof -
  define sp where "sp = best_by_score d (hd parents) (tl parents)"
  have mem: "insert (hd parents) (set (tl parents)) = set parents" using parents(2) by (cases parents) auto
  then have sp: "sp \<in> set parents"
    using best_by_score_mem [of d "hd parents" "tl parents"] by (simp add: sp_def)
  then have spk: "sp \<in> dag_keys d" using parents(1) by auto
  define P where "P = (\<Union>p \<in> set parents. insert p (past_of d p))"
  define ms where "ms = topo_sort d (sorted_list_of_set {b \<in> P. b \<noteq> sp \<and> b \<notin> past_of d sp})"
  have "finite P" using parents(1) dag_ok_closed [OF ok] by (auto simp: P_def)
  then have ms: "set ms = P - insert sp (past_of d sp)" "distinct ms"
    by (auto simp: ms_def)
  have fin: "finite (blues_of d sp)" "blues_of d sp \<subseteq> insert sp (past_of d sp)"
    using dag_ok_closed [OF ok spk] dag_okD(9) [OF ok spk] by simp_all
  define acc where "acc = sorted_list_of_set (blues_of d sp)"
  have acc: "set acc = blues_of d sp" "distinct acc" using fin(1) by (simp_all add: acc_def)
  obtain blues reds where cl: "classify d ms acc [] [] = (blues, reds)" by fastforce
  have "distinct (acc @ ms)" using acc ms fin(2) by auto
  moreover have "cluster d (set acc)" using dag_okD(11) [OF ok spk] by (simp add: acc)
  ultimately have "set blues \<union> set reds = set ms" "distinct (blues @ reds)"
      "cluster d (set acc \<union> set blues)"
    using classify_correct [OF _ _ cl] by auto
  moreover have "dag_make_node d i parents = \<lparr>dn_parents = parents, dn_past = P,
       dn_blue_set = insert i (blues_of d sp \<union> set blues), dn_selected_parent = Some sp,
       dn_mergeset_blues = blues, dn_mergeset_reds = reds\<rparr>"
    using cl by (simp add: dag_make_node_def Let_def flip: sp_def P_def ms_def acc_def)
  moreover have "score_le d p sp" if "p \<in> set parents" for p
    unfolding sp_def by (rule best_by_score_max) (use that mem in simp)
  ultimately show ?thesis using that sp ms acc unfolding P_def by simp
qed

lemma dag_add_block_Inr:
  assumes "dag_add_block d i parents = Inr d'"
  shows "i \<notin> dag_keys d" "parents \<noteq> []" "set parents \<subseteq> dag_keys d" "dg_k d' = dg_k d"
    "dg_genesis d' = dg_genesis d" "dg_nodes d' = dg_nodes d @ [(i, dag_make_node d i parents)]"
    "dag_node_of d' = (dag_node_of d)(i \<mapsto> dag_make_node d i parents)"
proof -
  show i: "i \<notin> dag_keys d" and "parents \<noteq> []" "set parents \<subseteq> dag_keys d" "dg_k d' = dg_k d"
    "dg_genesis d' = dg_genesis d" and n: "dg_nodes d' = dg_nodes d @ [(i, dag_make_node d i parents)]"
    using assms by (auto simp: dag_add_block_def dag_contains_def list_ex_iff split: if_splits)
  then show "dag_node_of d' = (dag_node_of d)(i \<mapsto> dag_make_node d i parents)"
    by (auto simp: dag_node_of_def map_add_def fun_eq_iff split: option.split)
qed

lemma dag_add_block_same:
  assumes "dag_add_block d i parents = Inr d'" and "x \<noteq> i"
  shows "past_of d' x = past_of d x" "blues_of d' x = blues_of d x"
  using dag_add_block_Inr(7) [OF assms(1)] assms(2) by (simp_all add: past_of_def blues_of_def)

lemma cluster_cong:
  assumes "\<And>x. x \<in> B \<Longrightarrow> past_of d' x = past_of d x" and "dg_k d' = dg_k d"
  shows "cluster d' B \<longleftrightarrow> cluster d B"
proof -
  have "{y \<in> B. is_anticone d' y x} = {y \<in> B. is_anticone d y x}" if "x \<in> B" for x
    using that assms(1) by (auto simp: is_anticone_def)
  then show ?thesis by (simp add: cluster_def assms(2))
qed

definition parents_past :: "dag \<Rightarrow> u64 list \<Rightarrow> u64 set" where
  "parents_past d parents = (\<Union>p \<in> set parents. insert p (past_of d p))"

lemma parents_past_facts:
  assumes ok: "dag_ok d" and ps: "set ps \<subseteq> dag_keys d" "ps \<noteq> []"
  shows "parents_past d ps \<subseteq> dag_keys d" and "finite (parents_past d ps)"
    and "x \<in> parents_past d ps \<Longrightarrow> past_of d x \<subseteq> parents_past d ps"
    and "dg_genesis d \<in> parents_past d ps"
proof -
  show "parents_past d ps \<subseteq> dag_keys d"
    unfolding parents_past_def using ps(1) dag_okD(4) [OF ok] by (intro UN_least) blast
  show "finite (parents_past d ps)"
    unfolding parents_past_def using ps(1) dag_okD(5) [OF ok] by (intro finite_UN_I) blast+
  show "past_of d x \<subseteq> parents_past d ps" if x: "x \<in> parents_past d ps"
  proof -
    from x obtain p where p: "p \<in> set ps" "x \<in> insert p (past_of d p)" by (auto simp: parents_past_def)
    then have "p \<in> dag_keys d" using ps(1) by blast
    then have "past_of d x \<subseteq> past_of d p" using dag_okD(7) [OF ok] p(2) by blast
    with p(1) show ?thesis unfolding parents_past_def by blast
  qed
  have hd: "hd ps \<in> set ps" using ps(2) by simp
  then have "hd ps \<in> dag_keys d" using ps(1) by blast
  then have "dg_genesis d \<in> insert (hd ps) (past_of d (hd ps))"
    using dag_okD(8) [OF ok, of "hd ps"] by (cases "hd ps = dg_genesis d") auto
  with hd show "dg_genesis d \<in> parents_past d ps" unfolding parents_past_def by blast
qed

lemma cluster_add_tip:
  assumes "cluster d B" and "finite B" and "i \<notin> B" and "B \<subseteq> past_of d i"
  shows "cluster d (insert i B)"
proof -
  have none: "\<not> is_anticone d y i" if "y \<in> B" for y
    using that assms(4) by (auto simp: is_anticone_def)
  then have empty: "{y \<in> B. is_anticone d y i} = {}" by blast
  show ?thesis
  proof (rule cluster_insert [OF assms(1-3)])
    show "card {y \<in> B. is_anticone d y i} \<le> dg_k d" unfolding empty by simp
    show "card {y \<in> B. is_anticone d y x} + 1 \<le> dg_k d" if "x \<in> B" "is_anticone d x i" for x
      using none that by blast
  qed
qed

text \<open>The old blocks keep their place when a block is added.\<close>

lemma dag_add_block_old:
  assumes ok: "dag_ok d" and add: "dag_add_block d i parents = Inr d'" and b: "b \<in> dag_keys d"
  shows "b \<noteq> i" and "past_of d' b = past_of d b" and "blues_of d' b = blues_of d b"
    and "x \<in> past_of d b \<Longrightarrow> past_of d' x = past_of d x"
    and "cluster d' (blues_of d b)"
proof -
  note A = dag_add_block_Inr [OF add]
  show bi: "b \<noteq> i" using b A(1) by blast
  then show "past_of d' b = past_of d b" "blues_of d' b = blues_of d b"
    using dag_add_block_same [OF add] by blast+
  have old: "past_of d' x = past_of d x" if "x \<in> dag_keys d" for x
    using that A(1) dag_add_block_same(1) [OF add, of x] by blast
  show "past_of d' x = past_of d x" if "x \<in> past_of d b"
    using that dag_okD(4) [OF ok b] old by blast
  have "past_of d' x = past_of d x" if "x \<in> blues_of d b" for x
    using that dag_ok_closed [OF ok b] old by blast
  then have "cluster d' (blues_of d b) \<longleftrightarrow> cluster d (blues_of d b)"
    using A(4) by (rule cluster_cong)
  then show "cluster d' (blues_of d b)" using dag_okD(11) [OF ok b] by simp
qed

lemma dag_add_block_new:
  assumes ok: "dag_ok d" and add: "dag_add_block d i parents = Inr d'"
  shows "past_of d' i = parents_past d parents"
    and "blues_of d' i \<subseteq> insert i (past_of d' i) \<and> i \<in> blues_of d' i \<and> cluster d' (blues_of d' i)"
proof -
  note A = dag_add_block_Inr [OF add]
  obtain sp blues reds where
    node: "dag_make_node d i parents = \<lparr>dn_parents = parents,
       dn_past = (\<Union>p \<in> set parents. insert p (past_of d p)),
       dn_blue_set = insert i (blues_of d sp \<union> set blues), dn_selected_parent = Some sp,
       dn_mergeset_blues = blues, dn_mergeset_reds = reds\<rparr>"
    and sp: "sp \<in> set parents"
    and ms: "set blues \<union> set reds = (\<Union>p \<in> set parents. insert p (past_of d p)) - insert sp (past_of d sp)"
    and cl: "cluster d (blues_of d sp \<union> set blues)"
    by (rule dag_make_node_parts [OF ok A(3,2,1)])
  show past: "past_of d' i = parents_past d parents"
    by (simp add: past_of_def A(7) node parents_past_def)
  have blues: "blues_of d' i = insert i (blues_of d sp \<union> set blues)"
    by (simp add: blues_of_def A(7) node)
  note P = parents_past_facts [OF ok A(3,2)]
  have "sp \<in> dag_keys d" using sp A(3) by blast
  then have "blues_of d sp \<subseteq> insert sp (past_of d sp)" by (rule dag_okD(9) [OF ok])
  then have sub: "blues_of d sp \<union> set blues \<subseteq> parents_past d parents"
    using sp ms unfolding parents_past_def by blast
  have i: "i \<notin> blues_of d sp \<union> set blues" using sub P(1) A(1) by blast
  have "past_of d' x = past_of d x" if "x \<in> blues_of d sp \<union> set blues" for x
    using that i dag_add_block_same(1) [OF add, of x] by blast
  then have "cluster d' (blues_of d sp \<union> set blues) \<longleftrightarrow> cluster d (blues_of d sp \<union> set blues)"
    using A(4) by (rule cluster_cong)
  with cl have "cluster d' (blues_of d sp \<union> set blues)" by simp
  then have "cluster d' (insert i (blues_of d sp \<union> set blues))"
    using finite_subset [OF sub P(2)] i sub unfolding past [symmetric] by (rule cluster_add_tip)
  then show "blues_of d' i \<subseteq> insert i (past_of d' i) \<and> i \<in> blues_of d' i \<and> cluster d' (blues_of d' i)"
    using sub unfolding blues past by blast
qed

lemma dag_add_block_make_node:
  assumes ok: "dag_ok d" and add: "dag_add_block d i parents = Inr d'"
    and "set ps \<subseteq> dag_keys d" "ps \<noteq> []"
  shows "dag_make_node d b ps = dag_make_node d' b ps"
proof (rule dag_make_node_cong [of "dag_keys d"])
  show "past_of d x = past_of d' x \<and> blues_of d x = blues_of d' x" if "x \<in> dag_keys d" for x
    using dag_add_block_old(2,3) [OF ok add that] by simp
  show "past_of d x \<subseteq> dag_keys d \<and> finite (past_of d x) \<and> blues_of d x \<subseteq> dag_keys d \<and> finite (blues_of d x)"
    if "x \<in> dag_keys d" for x
    using dag_ok_closed [OF ok that] .
qed (use assms(3,4) dag_add_block_Inr(4) [OF add] in simp_all)

lemma dag_add_block_ok:
  assumes ok: "dag_ok d" and add: "dag_add_block d i parents = Inr d'"
  shows "dag_ok d'"
proof -
  note A = dag_add_block_Inr [OF add] and old = dag_add_block_old [OF ok add]
    and new = dag_add_block_new [OF ok add]
  let ?g = "dg_genesis d"
  note P = parents_past_facts [OF ok A(3,2)]
  have keys: "dag_keys d' = insert i (dag_keys d)" unfolding A(7) by (simp add: dom_fun_upd)
  have g: "?g \<in> dag_keys d" using dag_okD(2) [OF ok] by (rule domI)
  have part5: "blues_of d' b \<subseteq> insert b (past_of d' b) \<and> b \<in> blues_of d' b \<and> cluster d' (blues_of d' b)"
    if "b \<in> dag_keys d'" for b
  proof (cases "b = i")
    case False
    with that have b: "b \<in> dag_keys d" unfolding keys by blast
    then show ?thesis using dag_okD(9,10) [OF ok b] old(2,3,5) [OF b] by simp
  qed (use new(2) in simp)
  have part4: "past_of d' b \<subseteq> dag_keys d' \<and> finite (past_of d' b) \<and> b \<notin> past_of d' b
      \<and> (\<forall>x \<in> past_of d' b. past_of d' x \<subseteq> past_of d' b) \<and> (b \<noteq> ?g \<longrightarrow> ?g \<in> past_of d' b)"
    if "b \<in> dag_keys d'" for b
  proof (cases "b = i")
    case True
    have "past_of d' x \<subseteq> parents_past d parents" if "x \<in> parents_past d parents" for x
      using P(3) [OF that] old(2) [of x] P(1) that by blast
    then show ?thesis using P(1,2,4) A(1) unfolding True new(1) keys by blast
  next
    case False
    with that have b: "b \<in> dag_keys d" unfolding keys by blast
    have "past_of d' x \<subseteq> past_of d b" if "x \<in> past_of d b" for x
      using dag_okD(7) [OF ok b that] old(4) [OF b that] by simp
    then show ?thesis
      using dag_okD(4,5,6,8) [OF ok b] unfolding old(2) [OF b] keys by blast
  qed
  have part3: "dn_parents n \<noteq> [] \<and> set (dn_parents n) \<subseteq> dag_keys d' \<and> n = dag_make_node d' b (dn_parents n)"
    if n: "dag_node_of d' b = Some n" "b \<noteq> ?g" for b n
  proof (cases "b = i")
    case True
    with n have n': "n = dag_make_node d i parents" by (simp add: A(7))
    have "dn_parents (dag_make_node d i parents) = parents"
      by (simp add: dag_make_node_def Let_def split: prod.split)
    then show ?thesis
      using A(2,3) dag_add_block_make_node [OF ok add A(3,2), of i] unfolding n' True keys by auto
  next
    case False
    with n have "dag_node_of d b = Some n" by (simp add: A(7))
    from dag_okD(3) [OF ok this n(2)] dag_add_block_make_node [OF ok add, of "dn_parents n" b]
    show ?thesis unfolding keys by auto
  qed
  have "i \<notin> fst ` set (dg_nodes d)" using A(1) by (simp add: dag_node_of_def dom_map_of_conv_image_fst)
  then have "distinct (map fst (dg_nodes d'))" using dag_okD(1) [OF ok] by (simp add: A(6))
  moreover have "dag_node_of d' (dg_genesis d') = Some (genesis_node (dg_genesis d'))"
    using dag_okD(2) [OF ok] old(1) [OF g] by (simp add: A(5,7))
  ultimately show ?thesis
    unfolding dag_ok_def A(5) using part3 part4 part5 by (intro conjI allI ballI impI) blast+
qed

lemma dag_reachable_ok: "dag_reachable k g d \<Longrightarrow> dag_ok d \<and> dg_k d = k \<and> dg_genesis d = g"
proof (induction rule: dag_reachable.induct)
  case start
  then show ?case using dag_new_ok by (simp add: dag_new_def)
next
  case (add d i parents d')
  then show ?case using dag_add_block_ok dag_add_block_Inr(4,5) by metis
qed

subsection \<open>The total order\<close>

text \<open>\<open>before xs x y\<close>: \<open>x\<close> stands in front of \<open>y\<close>.\<close>

definition before :: "'a list \<Rightarrow> 'a \<Rightarrow> 'a \<Rightarrow> bool" where
  "before xs x y \<longleftrightarrow> (\<exists>us vs. xs = us @ vs \<and> x \<in> set us \<and> y \<in> set vs)"

lemma before_append:
  "x \<in> set us \<Longrightarrow> y \<in> set vs \<Longrightarrow> before (us @ vs) x y"
  "before us x y \<Longrightarrow> before (us @ vs) x y"
  "before vs x y \<Longrightarrow> before (us @ vs) x y"
proof -
  show "x \<in> set us \<Longrightarrow> y \<in> set vs \<Longrightarrow> before (us @ vs) x y" by (auto simp: before_def)
  show "before us x y \<Longrightarrow> before (us @ vs) x y"
    unfolding before_def by (metis append_assoc set_append UnCI)
  show "before vs x y \<Longrightarrow> before (us @ vs) x y"
    unfolding before_def by (metis append_assoc set_append UnCI)
qed

lemma before_sorted:
  assumes "sorted_wrt R xs" and "x \<in> set xs" and "y \<in> set xs" and "x \<noteq> y" and "\<not> R y x"
  shows "before xs x y"
  using assms
proof (induction xs)
  case (Cons z xs)
  then consider "x = z" "y \<in> set xs" | "x \<in> set xs" "y \<in> set xs" by auto
  then show ?case
  proof cases
    case 1
    then have "z # xs = [z] @ xs" "x \<in> set [z]" by simp_all
    with 1 show ?thesis unfolding before_def by blast
  next
    case 2
    with Cons have "before xs x y" by simp
    then show ?thesis using before_append(3) [of xs x y "[z]"] by simp
  qed
qed simp

lemma past_smaller:
  assumes "dag_ok d" and "y \<in> dag_keys d" and "x \<in> past_of d y"
  shows "card (past_of d x) < card (past_of d y)"
proof -
  have "x \<in> dag_keys d" using dag_okD(4) [OF assms(1,2)] assms(3) by blast
  then have "past_of d x \<subset> past_of d y"
    using dag_okD(6) [OF assms(1)] dag_okD(7) [OF assms(1-3)] assms(3) by blast
  then show ?thesis using dag_okD(5) [OF assms(1,2)] by (rule psubset_card_mono [rotated])
qed

lemma before_topo_sort:
  assumes "dag_ok d" and "y \<in> dag_keys d" and "x \<in> past_of d y" and "x \<in> set xs" and "y \<in> set xs"
  shows "before (topo_sort d xs) x y"
proof (rule before_sorted [OF sorted_topo_sort])
  show "\<not> topo_le d y x"
    using past_smaller [OF assms(1-3)] by (simp add: topo_le_def topo_key_def)
  show "x \<noteq> y" using dag_okD(6) [OF assms(1,2)] assms(3) by blast
qed (use assms in simp_all)

text \<open>What a stored block merges.\<close>

lemma stored_node_parts:
  assumes ok: "dag_ok d" and n: "dag_node_of d b = Some n" and b: "b \<noteq> dg_genesis d"
  obtains sp where "dn_selected_parent n = Some sp" "sp \<in> set (dn_parents n)" "sp \<in> past_of d b"
    "distinct (dn_mergeset_blues n @ dn_mergeset_reds n)"
    "set (dn_mergeset_blues n) \<union> set (dn_mergeset_reds n) = past_of d b - insert sp (past_of d sp)"
    "past_of d sp \<subseteq> past_of d b" "past_of d b = parents_past d (dn_parents n)"
    "\<And>p. p \<in> set (dn_parents n) \<Longrightarrow> score_le d p sp"
proof -
  have node: "dn_parents n \<noteq> []" "set (dn_parents n) \<subseteq> dag_keys d" "n = dag_make_node d b (dn_parents n)"
    using dag_okD(3) [OF ok n b] by blast+
  define ps where "ps = dn_parents n"
  define sp where "sp = best_by_score d (hd ps) (tl ps)"
  have past: "past_of d b = parents_past d ps"
    using past_of_mono [OF n] arg_cong [OF node(3), of dn_past]
    by (simp add: dag_make_node_def Let_def parents_past_def ps_def split: prod.splits)
  define ms where "ms = topo_sort d (sorted_list_of_set {x \<in> past_of d b. x \<noteq> sp \<and> x \<notin> past_of d sp})"
  define acc where "acc = sorted_list_of_set (blues_of d sp)"
  have mem: "insert (hd ps) (set (tl ps)) = set ps" using node(1) by (cases ps) (auto simp: ps_def)
  then have sp: "sp \<in> set ps" using best_by_score_mem [of d "hd ps" "tl ps"] by (simp add: sp_def)
  then have spk: "sp \<in> dag_keys d" using node(2) unfolding ps_def by blast
  have bk: "b \<in> dag_keys d" using n by (rule domI)
  have spb: "sp \<in> past_of d b" using sp unfolding past parents_past_def by blast
  obtain blues reds where cl: "classify d ms acc [] [] = (blues, reds)" by fastforce
  have "n = dag_make_node d b ps" using node(3) by (simp only: ps_def)
  then have parts: "dn_selected_parent n = Some sp" "dn_mergeset_blues n = blues" "dn_mergeset_reds n = reds"
    using cl past
    by (simp_all add: dag_make_node_def Let_def parents_past_def flip: sp_def ms_def acc_def)
      (simp_all add: ms_def parents_past_def)
  have ms: "set ms = past_of d b - insert sp (past_of d sp)" "distinct ms"
    using dag_okD(5) [OF ok bk] by (auto simp: ms_def)
  have acc: "set acc = blues_of d sp" "distinct acc"
    using dag_ok_closed [OF ok spk] by (simp_all add: acc_def)
  have "distinct (acc @ ms)" using acc ms dag_okD(9) [OF ok spk] by auto
  moreover have "cluster d (set acc)" using dag_okD(11) [OF ok spk] by (simp add: acc)
  ultimately have "set blues \<union> set reds = set ms" "distinct (blues @ reds)"
    using classify_correct [OF _ _ cl] by auto
  moreover have "score_le d p sp" if "p \<in> set ps" for p
    unfolding sp_def by (rule best_by_score_max) (use that mem in simp)
  ultimately show ?thesis
    using that [of sp] parts sp spb ms(1) past dag_okD(7) [OF ok bk spb] by (simp add: ps_def)
qed

text \<open>The one way an ancestor can end up behind: it is red and its descendant blue in one merge set.\<close>

definition blue_before_red :: "dag \<Rightarrow> u64 \<Rightarrow> u64 \<Rightarrow> bool" where
  "blue_before_red d x y \<longleftrightarrow> (\<exists>c m. dag_node_of d c = Some m \<and>
     y \<in> set (dn_mergeset_blues m) \<and> x \<in> set (dn_mergeset_reds m))"

definition order_ok :: "dag \<Rightarrow> u64 \<Rightarrow> u64 list \<Rightarrow> bool" where
  "order_ok d b out \<longleftrightarrow> distinct out \<and> set out = insert b (past_of d b) \<and>
     (\<forall>y \<in> set out. \<forall>x \<in> past_of d y. before out x y \<or> blue_before_red d x y)"

lemma order_ok_extend:
  assumes ok: "dag_ok d" and n: "dag_node_of d b = Some n" and b: "b \<noteq> dg_genesis d"
    and sp: "dn_selected_parent n = Some sp" and out: "order_ok d sp out"
  shows "order_ok d b (out @ order_step d b)"
proof -
  obtain sp' where P: "dn_selected_parent n = Some sp'" "sp' \<in> set (dn_parents n)" "sp' \<in> past_of d b"
    "distinct (dn_mergeset_blues n @ dn_mergeset_reds n)"
    "set (dn_mergeset_blues n) \<union> set (dn_mergeset_reds n) = past_of d b - insert sp' (past_of d sp')"
    "past_of d sp' \<subseteq> past_of d b"
    by (rule stored_node_parts [OF ok n b])
  have [simp]: "sp' = sp" using P(1) sp by simp
  have bk: "b \<in> dag_keys d" using n by (rule domI)
  let ?bl = "topo_sort d (dn_mergeset_blues n)" and ?rd = "topo_sort d (dn_mergeset_reds n)"
  have step: "order_step d b = ?bl @ ?rd @ [b]" using n b by (simp add: order_step_def)
  have o: "distinct out" "set out = insert sp (past_of d sp)"
    "\<And>x y. y \<in> set out \<Longrightarrow> x \<in> past_of d y \<Longrightarrow> before out x y \<or> blue_before_red d x y"
    using out by (auto simp: order_ok_def)
  have bout: "b \<notin> past_of d b" using dag_okD(6) [OF ok bk] .
  have ms: "set ?bl \<union> set ?rd = past_of d b - set out" using P(5) o(2) by simp
  have sub: "set out \<subseteq> past_of d b" using P(3,6) o(2) by simp
  have set: "set (out @ order_step d b) = insert b (past_of d b)"
    using ms sub unfolding step by auto
  have "distinct (out @ order_step d b)"
    using o(1) P(4) ms sub bout unfolding step by auto
  moreover have "before (out @ order_step d b) x y \<or> blue_before_red d x y"
    if y: "y \<in> set (out @ order_step d b)" and x: "x \<in> past_of d y" for x y
  proof -
    consider "y \<in> set out" | "y \<in> set ?bl" | "y \<in> set ?rd" | "y = b"
      using y unfolding step by auto
    then show ?thesis
    proof cases
      case 1
      then show ?thesis using o(3) [OF 1 x] before_append(2) [of out x y "order_step d b"] by blast
    next
      case 2
      then have yb: "y \<in> past_of d b" using ms by blast
      then have "x \<in> past_of d b" using x dag_okD(7) [OF ok bk] by blast
      then consider "x \<in> set out" | "x \<in> set ?bl" | "x \<in> set ?rd" using ms by blast
      then show ?thesis
      proof cases
        case 1
        with 2 show ?thesis unfolding step by (intro disjI1 before_append(1)) auto
      next
        case x2: 2
        have "y \<in> dag_keys d" using yb dag_okD(4) [OF ok bk] by blast
        then have "before ?bl x y" using x x2 2 by (intro before_topo_sort [OF ok]) simp_all
        then show ?thesis unfolding step by (intro disjI1 before_append(3) before_append(2))
      next
        case 3
        with 2 n show ?thesis by (auto simp: blue_before_red_def)
      qed
    next
      case 3
      then have yb: "y \<in> past_of d b" using ms by blast
      then have "x \<in> past_of d b" using x dag_okD(7) [OF ok bk] by blast
      then consider "x \<in> set (out @ ?bl)" | "x \<in> set ?rd" using ms by auto
      then show ?thesis
      proof cases
        case 1
        with 3 have "before ((out @ ?bl) @ (?rd @ [b])) x y" by (intro before_append(1)) auto
        then show ?thesis unfolding step by simp
      next
        case 2
        have "y \<in> dag_keys d" using yb dag_okD(4) [OF ok bk] by blast
        then have "before ?rd x y" using x 2 3 by (intro before_topo_sort [OF ok]) simp_all
        then have "before (?rd @ [b]) x y" by (rule before_append(2))
        then have "before (?bl @ ?rd @ [b]) x y" by (rule before_append(3))
        then show ?thesis unfolding step by (intro disjI1) (rule before_append(3))
      qed
    next
      case 4
      then have "x \<in> set (out @ ?bl @ ?rd)" using x ms by auto
      then have "before ((out @ ?bl @ ?rd) @ [b]) x y" using 4 by (intro before_append(1)) auto
      then show ?thesis unfolding step by simp
    qed
  qed
  ultimately show ?thesis unfolding order_ok_def set by blast
qed

lemma sp_chain_order:
  assumes ok: "dag_ok d" and "b \<in> dag_keys d" and "card (past_of d b) < n"
  shows "\<exists>chain. sp_chain d n b = Some chain \<and> order_ok d b (concat (map (order_step d) (rev chain)))"
  using assms(2,3)
proof (induction n arbitrary: b)
  case (Suc m)
  then obtain node where node: "dag_node_of d b = Some node" by blast
  show ?case
  proof (cases "b = dg_genesis d")
    case True
    then have "node = genesis_node b" using dag_okD(2) [OF ok] node by simp
    moreover have "past_of d b = {}" using node calculation by (simp add: past_of_def genesis_node_def)
    ultimately show ?thesis
      using node True by (simp add: genesis_node_def order_step_def order_ok_def)
  next
    case False
    obtain sp where sp: "dn_selected_parent node = Some sp" "sp \<in> past_of d b"
      by (rule stored_node_parts [OF ok node False])
    have "sp \<in> dag_keys d" using sp(2) dag_okD(4) [OF ok Suc.prems(1)] by blast
    moreover have "card (past_of d sp) < m"
      using past_smaller [OF ok Suc.prems(1) sp(2)] Suc.prems(2) by linarith
    ultimately obtain chain where chain: "sp_chain d m sp = Some chain"
      "order_ok d sp (concat (map (order_step d) (rev chain)))"
      using Suc.IH by blast
    then have "sp_chain d (Suc m) b = Some (b # chain)" using node sp(1) by simp
    moreover have "order_ok d b (concat (map (order_step d) (rev chain)) @ order_step d b)"
      by (rule order_ok_extend [OF ok node False sp(1) chain(2)])
    ultimately show ?thesis by simp
  qed
qed simp

lemma dag_tip_max:
  assumes "dag_ok d"
  obtains t where "dag_tip d = Some t" "t \<in> dag_keys d" "\<And>b. b \<in> dag_keys d \<Longrightarrow> score_le d b t"
proof -
  have keys: "dag_keys d = set (map fst (dg_nodes d))"
    by (simp add: dag_node_of_def dom_map_of_conv_image_fst)
  have "dag_keys d \<noteq> {}" using dag_okD(2) [OF assms] by blast
  then obtain b bs where bs: "map fst (dg_nodes d) = b # bs" unfolding keys by (cases "map fst (dg_nodes d)") auto
  then have tip: "dag_tip d = Some (best_by_score d b bs)" by (simp add: dag_tip_def)
  have mem: "dag_keys d = insert b (set bs)" unfolding keys bs by simp
  show ?thesis
  proof (rule that [OF tip])
    show "best_by_score d b bs \<in> dag_keys d" using best_by_score_mem [of d b bs] by (simp only: mem)
    show "score_le d x (best_by_score d b bs)" if "x \<in> dag_keys d" for x
      using that best_by_score_max [of x b bs d] by (simp only: mem)
  qed
qed

lemma past_bounded:
  assumes ok: "dag_ok d" and b: "b \<in> dag_keys d"
  shows "card (past_of d b) < length (dg_nodes d)"
proof -
  have "past_of d b \<subset> dag_keys d" using dag_okD(4,6) [OF ok b] b by blast
  then have "card (past_of d b) < card (dag_keys d)" using finite_dag_keys by (rule psubset_card_mono [rotated])
  also have "\<dots> = length (dg_nodes d)"
    using dag_okD(1) [OF ok] distinct_card [of "map fst (dg_nodes d)"]
    by (simp add: dag_node_of_def dom_map_of_conv_image_fst)
  finally show ?thesis .
qed

lemma dag_order_lemma:
  assumes "dag_ok d"
  shows "\<exists>t out. dag_tip d = Some t \<and> t \<in> dag_keys d \<and> dag_order d = Some out \<and> order_ok d t out"
proof -
  obtain t where t: "dag_tip d = Some t" "t \<in> dag_keys d" by (rule dag_tip_max [OF assms])
  from sp_chain_order [OF assms t(2) past_bounded [OF assms t(2)]] obtain chain where
    "sp_chain d (length (dg_nodes d)) t = Some chain" "order_ok d t (concat (map (order_step d) (rev chain)))"
    by blast
  with t show ?thesis by (simp add: dag_order_def)
qed

subsection \<open>Independence of the insertion order\<close>

lemma dag_nodes_determined:
  assumes ok: "dag_ok d" "dag_ok d'" and conf: "dg_k d = dg_k d'" "dg_genesis d = dg_genesis d'"
    and parents: "\<And>b. dag_parents d b = dag_parents d' b"
    and "b \<in> dag_keys d"
  shows "dag_node_of d b = dag_node_of d' b"
  using assms(6)
proof (induction "card (past_of d b)" arbitrary: b rule: less_induct)
  case less
  obtain n where n: "dag_node_of d b = Some n" using less.prems by blast
  obtain n' where n': "dag_node_of d' b = Some n'" "dn_parents n' = dn_parents n"
    using parents [of b] n by (cases "dag_node_of d' b") (auto simp: dag_parents_def)
  show ?case
  proof (cases "b = dg_genesis d")
    case True
    then show ?thesis using dag_okD(2) [OF ok(1)] dag_okD(2) [OF ok(2)] conf(2) by simp
  next
    case False
    have same: "past_of d x = past_of d' x \<and> blues_of d x = blues_of d' x" if "x \<in> past_of d b" for x
    proof -
      have "x \<in> dag_keys d" using that dag_okD(4) [OF ok(1) less.prems] by blast
      with past_smaller [OF ok(1) less.prems that] have "dag_node_of d x = dag_node_of d' x"
        by (rule less.hyps)
      then show ?thesis by (simp add: past_of_def blues_of_def)
    qed
    have closed: "past_of d x \<subseteq> past_of d b \<and> finite (past_of d x) \<and> blues_of d x \<subseteq> past_of d b
        \<and> finite (blues_of d x)" if "x \<in> past_of d b" for x
    proof -
      have x: "x \<in> dag_keys d" using that dag_okD(4) [OF ok(1) less.prems] by blast
      show ?thesis
        using dag_okD(7) [OF ok(1) less.prems that] dag_ok_closed [OF ok(1) x]
          dag_okD(9) [OF ok(1) x] that by blast
    qed
    have ps: "dn_parents n \<noteq> []" "n = dag_make_node d b (dn_parents n)"
      using dag_okD(3) [OF ok(1) n False] by blast+
    have "past_of d b = parents_past d (dn_parents n)"
      by (rule stored_node_parts [OF ok(1) n False])
    then have "set (dn_parents n) \<subseteq> past_of d b" unfolding parents_past_def by blast
    then have "dag_make_node d b (dn_parents n) = dag_make_node d' b (dn_parents n)"
      using ps(1) conf(1) by (intro dag_make_node_cong [of "past_of d b"] same closed)
    moreover have "n' = dag_make_node d' b (dn_parents n')"
      using dag_okD(3) [OF ok(2) n'(1)] False conf(2) by simp
    ultimately show ?thesis using n n' ps(2) by simp
  qed
qed

lemma dag_order_determined:
  assumes ok: "dag_ok d" "dag_ok d'" and conf: "dg_k d = dg_k d'" "dg_genesis d = dg_genesis d'"
    and parents: "\<And>b. dag_parents d b = dag_parents d' b"
  shows "dag_order d = dag_order d' \<and> dag_tip d = dag_tip d'"
proof -
  have keys: "dag_keys d = dag_keys d'"
  proof -
    have "b \<in> dag_keys d \<longleftrightarrow> b \<in> dag_keys d'" for b
      using parents [of b] by (cases "dag_node_of d b"; cases "dag_node_of d' b") (auto simp: dag_parents_def)
    then show ?thesis by blast
  qed
  have nodes: "dag_node_of d = dag_node_of d'"
  proof
    fix b
    show "dag_node_of d b = dag_node_of d' b"
    proof (cases "b \<in> dag_keys d")
      case True
      then show ?thesis by (rule dag_nodes_determined [OF assms])
    next
      case False
      then have "b \<notin> dag_keys d'" using keys by simp
      with False show ?thesis by (simp add: domIff)
    qed
  qed
  have len: "length (dg_nodes d) = length (dg_nodes d')"
    using dag_okD(1) [OF ok(1)] dag_okD(1) [OF ok(2)] keys
      distinct_card [of "map fst (dg_nodes d)"] distinct_card [of "map fst (dg_nodes d')"]
    by (simp add: dag_node_of_def dom_map_of_conv_image_fst)
  have past: "past_of d = past_of d'" "blues_of d = blues_of d'"
    by (simp_all add: past_of_def blues_of_def nodes fun_eq_iff)
  obtain t where t: "dag_tip d = Some t" "t \<in> dag_keys d" "\<And>b. b \<in> dag_keys d \<Longrightarrow> score_le d b t"
    by (rule dag_tip_max [OF ok(1)]) blast
  obtain t' where t': "dag_tip d' = Some t'" "t' \<in> dag_keys d'" "\<And>b. b \<in> dag_keys d' \<Longrightarrow> score_le d' b t'"
    by (rule dag_tip_max [OF ok(2)]) blast
  have "score_le d t t'" using t'(3) [of t] t(2) keys by (simp add: score_le_def past)
  moreover have "score_le d t' t" using t(3) [of t'] t'(2) keys by simp
  ultimately have tip: "t = t'" by (rule score_le_antisym)
  have sort: "topo_sort d xs = topo_sort d' xs" for xs by (rule topo_sort_cong) (simp add: past)
  have "sp_chain d n b = sp_chain d' n b" for n b
    by (induction n arbitrary: b) (simp_all add: nodes split: option.split)
  moreover have "order_step d = order_step d'"
    using conf(2) by (simp add: fun_eq_iff order_step_def nodes sort split: option.split)
  ultimately show ?thesis using t t' tip len by (simp add: dag_order_def)
qed

subsection \<open>Properties\<close>

text \<open>
  Property C26.  The GHOSTDAG bound: in every reachable DAG the blue set of each block contains
  the block, lies in its past and itself, and has at most \<open>k\<close> blue blocks in the anticone of
  each of its members.
\<close>

theorem dag_blue_set_is_k_cluster:
  assumes "dag_reachable k g d" and "dag_node_of d b = Some n" and "x \<in> dn_blue_set n"
  shows "b \<in> dn_blue_set n \<and> x \<in> insert b (dn_past n)
    \<and> card {y \<in> dn_blue_set n. is_anticone d y x} \<le> k"
proof -
  have ok: "dag_ok d" "dg_k d = k" using dag_reachable_ok [OF assms(1)] by simp_all
  have b: "b \<in> dag_keys d" using assms(2) by (rule domI)
  have n: "past_of d b = dn_past n" "blues_of d b = dn_blue_set n"
    using past_of_mono [OF assms(2)] by simp_all
  show ?thesis
    using dag_okD(9-11) [OF ok(1) b] assms(3) unfolding n cluster_def ok(2) by blast
qed

text \<open>
  The total order: in every reachable DAG \<open>order\<close> returns a list without
  repetitions of exactly the best tip and its past, in which every ancestor stands in front of
  its descendants, except where the ancestor is red and the descendant blue in one merge set.
\<close>

theorem dag_order_correct:
  assumes "dag_reachable k g d"
  shows "\<exists>t out. dag_tip d = Some t \<and> dag_order d = Some out \<and> distinct out
    \<and> set out = insert t (past_of d t)
    \<and> (\<forall>y \<in> set out. \<forall>x \<in> past_of d y. before out x y \<or> blue_before_red d x y)"
  using dag_order_lemma dag_reachable_ok [OF assms] unfolding order_ok_def by blast

text \<open>
  Determinism: two nodes that hold the same blocks (ids with their parent lists)
  compute the same best tip and the same total order, whatever the order the blocks arrived in.
\<close>

theorem dag_order_insertion_independent:
  assumes "dag_reachable k g d" and "dag_reachable k g d'"
    and "\<And>b. dag_parents d b = dag_parents d' b"
  shows "dag_order d = dag_order d' \<and> dag_tip d = dag_tip d'"
  using dag_reachable_ok [OF assms(1)] dag_reachable_ok [OF assms(2)]
  by (intro dag_order_determined assms(3)) simp_all

subsection \<open>Witnesses\<close>

definition dag_build :: "nat \<Rightarrow> (u64 \<times> u64 list) list \<Rightarrow> dag" where
  "dag_build k blocks =
     foldl (\<lambda>d (i, ps). case dag_add_block d i ps of Inl _ \<Rightarrow> d | Inr d' \<Rightarrow> d') (dag_new k 0) blocks"

lemma dag_build_reachable: "dag_reachable k 0 (dag_build k blocks)"
proof (induction blocks rule: rev_induct)
  case Nil
  then show ?case by (simp add: dag_build_def dag_reachable.start)
next
  case (snoc b blocks)
  obtain i ps where b: "b = (i, ps)" by fastforce
  have "dag_build k (blocks @ [b]) =
      (case dag_add_block (dag_build k blocks) i ps of Inl _ \<Rightarrow> dag_build k blocks | Inr d' \<Rightarrow> d')"
    by (simp only: dag_build_def b foldl_append foldl.simps prod.case)
  with snoc show ?case
    by (cases "dag_add_block (dag_build k blocks) i ps") (auto intro: dag_reachable.add)
qed

definition twisted :: "(u64 \<times> u64 list) list" where
  "twisted = [(1, [0]), (2, [1]), (3, [2]), (4, [3]), (5, [0]), (6, [3, 5]), (7, [4, 6])]"

lemma twisted_order: "dag_order (dag_build 1 twisted) = Some [0, 1, 2, 3, 4, 6, 5, 7]"
  by code_simp

lemma twisted_parents: "dag_parents (dag_build 1 twisted) 6 = Some [3, 5]"
  by code_simp

text \<open>
  The order need not be topological: there are DAGs in which a block stands in
  front of one of its own parents, because the blue blocks of a merge set are put before the
  red ones.
\<close>

theorem dag_order_not_topological:
  "\<exists>d. dag_reachable 1 0 d \<and> dag_order d = Some [0, 1, 2, 3, 4, 6, 5, 7] \<and> dag_parents d 6 = Some [3, 5]"
  using dag_build_reachable twisted_order twisted_parents by blast

theorem dag_blue_set_is_k_cluster_witness:
  "\<exists>n. dag_node_of (dag_build 1 []) 0 = Some n \<and> card {y \<in> dn_blue_set n. is_anticone (dag_build 1 []) y 0} \<le> 1"
proof -
  have "dag_node_of (dag_build 1 []) 0 = Some (genesis_node 0)"
    by (simp add: dag_build_def dag_new_def dag_node_of_def genesis_node_def)
  from dag_blue_set_is_k_cluster [OF dag_build_reachable this, of 0] this show ?thesis
    by (auto simp: genesis_node_def)
qed

theorem dag_order_correct_witness:
  "\<exists>out. dag_order (dag_build 1 twisted) = Some out \<and> distinct out"
  using dag_order_correct [OF dag_build_reachable, of 1 twisted] by blast

theorem dag_order_insertion_independent_witness:
  "dag_order (dag_build 1 [(1, [0]), (2, [0]), (3, [1, 2])]) =
   dag_order (dag_build 1 [(2, [0]), (1, [0]), (3, [1, 2])])"
proof -
  have "map (\<lambda>(i, n). (i, dn_parents n)) (dg_nodes (dag_build 1 [(1, [0]), (2, [0]), (3, [1, 2])])) =
      [(0, []), (1, [0]), (2, [0]), (3, [1, 2])]" by code_simp
  moreover have "map (\<lambda>(i, n). (i, dn_parents n)) (dg_nodes (dag_build 1 [(2, [0]), (1, [0]), (3, [1, 2])])) =
      [(0, []), (2, [0]), (1, [0]), (3, [1, 2])]" by code_simp
  moreover have "dag_parents d b = map_of (map (\<lambda>(i, n). (i, dn_parents n)) (dg_nodes d)) b" for d b
    by (simp add: dag_parents_def dag_node_of_def map_of_map)
  ultimately have "dag_parents (dag_build 1 [(1, [0]), (2, [0]), (3, [1, 2])]) b =
      dag_parents (dag_build 1 [(2, [0]), (1, [0]), (3, [1, 2])]) b" for b
    by simp
  from dag_order_insertion_independent [OF dag_build_reachable dag_build_reachable this]
  show ?thesis by (rule conjunct1)
qed

end
