(* ===== verification/ReachTree.thy ===== *)
theory ReachTree
  imports Reach
begin

text \<open>
  What the reachability store means.  \<open>tree_ok\<close> is its structure: the parent and children fields
  describe one tree below the root.  \<open>iv_ok\<close> is its labelling: every interval is legal and not
  empty, strictly contains those of its children, and siblings are adjacent.  The lemmas relate
  the two: containment of intervals is ancestry in the tree, and binary search over disjoint
  intervals in order finds the item above a block.
\<close>

subsection \<open>Views of the store\<close>

definition ids :: "mem_store \<Rightarrow> blk set" where
  "ids s = dom (ms_map s)"

definition kids :: "mem_store \<Rightarrow> blk \<Rightarrow> blk list" where
  "kids s b = (case ms_map s b of None \<Rightarrow> [] | Some d \<Rightarrow> md_children d)"

definition par :: "mem_store \<Rightarrow> blk \<Rightarrow> blk" where
  "par s b = (case ms_map s b of None \<Rightarrow> NONE | Some d \<Rightarrow> md_parent d)"

definition iv :: "mem_store \<Rightarrow> blk \<Rightarrow> interval" where
  "iv s b = (case ms_map s b of None \<Rightarrow> iv_empty | Some d \<Rightarrow> md_interval d)"

definition covering :: "mem_store \<Rightarrow> blk \<Rightarrow> blk list" where
  "covering s b = (case ms_map s b of None \<Rightarrow> [] | Some d \<Rightarrow> md_future_covering_set d)"

lemma reads [simp]:
  assumes "b \<in> ids s"
  shows "get_interval s b = Inr (iv s b)" "get_children s b = Inr (kids s b)"
    "get_parent s b = Inr (par s b)" "get_future_covering_set s b = Inr (covering s b)"
  using assms
  by (auto simp: ids_def get_interval_def get_children_def get_parent_def
      get_future_covering_set_def get_data_def iv_def kids_def par_def covering_def)

lemma kids_outside: "b \<notin> ids s \<Longrightarrow> kids s b = []"
  by (auto simp: kids_def ids_def domIff)

definition tree_edge :: "mem_store \<Rightarrow> (blk \<times> blk) set" where
  "tree_edge s = {(p, b). b \<in> set (kids s p)}"

definition anc :: "mem_store \<Rightarrow> blk \<Rightarrow> blk \<Rightarrow> bool" where
  "anc s a b \<longleftrightarrow> (a, b) \<in> (tree_edge s)\<^sup>*"

text \<open>\<open>x\<close> hangs below an earlier child of a common ancestor than \<open>y\<close> does.\<close>

definition tree_before :: "mem_store \<Rightarrow> blk \<Rightarrow> blk \<Rightarrow> bool" where
  "tree_before s x y \<longleftrightarrow>
     (\<exists>p i j. i < j \<and> j < length (kids s p) \<and> anc s (kids s p ! i) x \<and> anc s (kids s p ! j) y)"

definition tree_ok :: "mem_store \<Rightarrow> blk \<Rightarrow> bool" where
  "tree_ok s root \<longleftrightarrow>
     root \<in> ids s \<and> NONE \<notin> ids s \<and> par s root = NONE \<and>
     (\<forall>p \<in> ids s. distinct (kids s p) \<and> (\<forall>c \<in> set (kids s p). c \<in> ids s \<and> par s c = p)) \<and>
     (\<forall>b \<in> ids s. anc s root b)"

definition iv_ok :: "mem_store \<Rightarrow> bool" where
  "iv_ok s \<longleftrightarrow>
     (\<forall>p \<in> ids s. legal (iv s p) \<and> lo (iv s p) < hi (iv s p) \<and>
        (\<exists>a b. lo (iv s p) \<le> a \<and> tiling a (map (iv s) (kids s p)) b \<and> b < hi (iv s p)))"

subsection \<open>Ancestry\<close>

lemma anc_refl [simp]: "anc s a a"
  by (simp add: anc_def)

lemma anc_trans [trans]: "anc s a b \<Longrightarrow> anc s b c \<Longrightarrow> anc s a c"
  by (simp add: anc_def)

lemma anc_kid: "c \<in> set (kids s p) \<Longrightarrow> anc s p c"
  by (auto simp: anc_def tree_edge_def)

lemma anc_step: "anc s a p \<Longrightarrow> c \<in> set (kids s p) \<Longrightarrow> anc s a c"
  using anc_kid anc_trans by blast

lemma anc_cases:
  assumes "anc s a b"
  obtains "a = b" | c where "c \<in> set (kids s a)" "anc s c b"
  using assms unfolding anc_def by (erule converse_rtranclE) (auto simp: tree_edge_def)

lemma anc_up_cases:
  assumes "anc s a b"
  obtains "a = b" | p where "b \<in> set (kids s p)" "anc s a p"
  using assms unfolding anc_def by (erule rtranclE) (auto simp: tree_edge_def)

lemma anc_induct [consumes 1, case_names root kid]:
  assumes "anc s a b" "P a" "\<And>p c. anc s a p \<Longrightarrow> c \<in> set (kids s p) \<Longrightarrow> P p \<Longrightarrow> P c"
  shows "P b"
  using assms(1) unfolding anc_def
proof (induction rule: rtrancl_induct)
  case base
  then show ?case by (rule assms(2))
next
  case (step p c)
  then show ?case using assms(3) [of p c] by (auto simp: anc_def tree_edge_def)
qed

lemma kid_in_ids: "tree_ok s r \<Longrightarrow> c \<in> set (kids s p) \<Longrightarrow> c \<in> ids s \<and> p \<in> ids s \<and> par s c = p"
  using kids_outside [of p s] by (cases "p \<in> ids s") (auto simp: tree_ok_def)

lemma anc_in_ids:
  assumes "tree_ok s r" "anc s a b"
  shows "a = b \<or> a \<in> ids s \<and> b \<in> ids s"
  using assms(2) by (induction rule: anc_induct) (use kid_in_ids [OF assms(1)] in blast)+

lemma anc_ids: "tree_ok s r \<Longrightarrow> anc s a b \<Longrightarrow> a \<in> ids s \<longleftrightarrow> b \<in> ids s"
  using anc_in_ids by blast

lemma parent_cases:
  assumes "tree_ok s r" "b \<in> ids s"
  obtains "b = r" | "b \<in> set (kids s (par s b))" "par s b \<in> ids s"
proof -
  have "anc s r b" using assms by (simp add: tree_ok_def)
  then show thesis
  proof (cases rule: anc_up_cases)
    case 1
    then show ?thesis using that(1) by simp
  next
    case (2 p)
    then show ?thesis using kid_in_ids [OF assms(1) 2(1)] that(2) by simp
  qed
qed

lemma tree_before_kid:
  assumes "c \<in> set (kids s p)"
  shows "tree_before s p x \<Longrightarrow> tree_before s c x" "tree_before s x p \<Longrightarrow> tree_before s x c"
  unfolding tree_before_def by (meson anc_step [OF _ assms])+

lemma tree_before_siblings:
  assumes "i < j" "j < length (kids s p)" "anc s (kids s p ! i) x" "anc s (kids s p ! j) y"
  shows "tree_before s x y"
  using assms unfolding tree_before_def by blast

text \<open>Any two blocks are related by ancestry or separated at a common ancestor.\<close>

lemma tree_trichotomy:
  assumes ok: "tree_ok s r" and ab: "a \<in> ids s" "b \<in> ids s"
  shows "anc s a b \<or> anc s b a \<or> tree_before s a b \<or> tree_before s b a"
proof -
  have "anc s r a" using ok ab by (simp add: tree_ok_def)
  then show ?thesis
  proof (induction rule: anc_induct)
    case root
    then show ?case using ok ab by (simp add: tree_ok_def)
  next
    case (kid p c)
    obtain i where i: "i < length (kids s p)" "kids s p ! i = c"
      using kid(2) by (auto simp: in_set_conv_nth)
    note up = tree_before_kid [OF kid(2)]
    from kid.IH consider "anc s p b" | "anc s b p" | "tree_before s p b" | "tree_before s b p"
      by blast
    then show ?case
    proof cases
      case 1
      then show ?thesis
      proof (cases rule: anc_cases)
        case 1
        then show ?thesis using anc_kid [OF kid(2)] by simp
      next
        case (2 c')
        then obtain j where j: "j < length (kids s p)" "kids s p ! j = c'"
          by (auto simp: in_set_conv_nth)
        consider "i < j" | "i = j" | "j < i" by (rule linorder_cases)
        then show ?thesis
        proof cases
          case 1
          then have "tree_before s c b"
            by (rule tree_before_siblings [of i j s p]) (use i j 2(2) in simp_all)
          then show ?thesis by blast
        next
          case 2
          then show ?thesis using i j \<open>anc s c' b\<close> by simp
        next
          case 3
          then have "tree_before s b c"
            by (rule tree_before_siblings [of j i s p]) (use i j 2(2) in simp_all)
          then show ?thesis by blast
        qed
      qed
    next
      case 2
      then show ?thesis using anc_step [OF _ kid(2)] by blast
    next
      case 3
      then show ?thesis using up(1) by blast
    next
      case 4
      then show ?thesis using up(2) by blast
    qed
  qed
qed

subsection \<open>Labelled trees\<close>

lemma iv_okD:
  assumes "iv_ok s" "p \<in> ids s"
  shows "legal (iv s p)" "lo (iv s p) < hi (iv s p)"
  using assms by (simp_all add: iv_ok_def)

lemma iv_ok_tiling:
  assumes "iv_ok s" "p \<in> ids s"
  obtains a b where "lo (iv s p) \<le> a" "tiling a (map (iv s) (kids s p)) b" "b < hi (iv s p)"
  using assms unfolding iv_ok_def by blast

lemma kid_inside:
  assumes "tree_ok s r" "iv_ok s" "c \<in> set (kids s p)"
  shows "lo (iv s p) \<le> lo (iv s c) \<and> hi (iv s c) < hi (iv s p)"
proof -
  have "p \<in> ids s" using kid_in_ids [OF assms(1,3)] by blast
  from iv_ok_tiling [OF assms(2) this] obtain a b where
    t: "lo (iv s p) \<le> a" "tiling a (map (iv s) (kids s p)) b" "b < hi (iv s p)" .
  have "a \<le> lo (iv s c) \<and> hi (iv s c) \<le> b"
    using tiling_in [OF t(2), of "iv s c"] assms(3) by simp
  with t show ?thesis by linarith
qed

lemma anc_inside:
  assumes "tree_ok s r" "iv_ok s" "anc s a b"
  shows "lo (iv s a) \<le> lo (iv s b) \<and> hi (iv s b) \<le> hi (iv s a) \<and> (a \<noteq> b \<longrightarrow> hi (iv s b) < hi (iv s a))"
  using assms(3)
proof (induction rule: anc_induct)
  case (kid p c)
  then show ?case using kid_inside [OF assms(1,2) kid(2)] by auto
qed simp

lemma tiling_ordered:
  assumes "tiling a (map f xs) b" "i < j" "j < length xs"
  shows "hi (f (xs ! i)) \<le> lo (f (xs ! j))"
proof -
  have "xs = take j xs @ xs ! j # drop (Suc j) xs" using assms(3) by (rule id_take_nth_drop)
  then have "tiling a (map f (take j xs) @ f (xs ! j) # map f (drop (Suc j) xs)) b"
    using assms(1) by (metis list.simps(9) map_append)
  then have "tiling a (map f (take j xs)) (lo (f (xs ! j)))"
    by (auto simp: tiling_append)
  moreover have "xs ! i \<in> set (take j xs)"
    using assms(2,3) by (auto simp: in_set_conv_nth intro!: exI [of _ i])
  then have "f (xs ! i) \<in> set (map f (take j xs))" by simp
  ultimately show ?thesis using tiling_in by blast
qed

lemma tree_before_iv:
  assumes "tree_ok s r" "iv_ok s" "tree_before s x y"
  shows "hi (iv s x) \<le> lo (iv s y)"
proof -
  from assms(3) obtain p i j where ij: "i < j" "j < length (kids s p)"
    and anc: "anc s (kids s p ! i) x" "anc s (kids s p ! j) y"
    unfolding tree_before_def by blast
  have "p \<in> ids s" using ij kids_outside [of p s] by force
  from iv_ok_tiling [OF assms(2) this] obtain a b where
    "tiling a (map (iv s) (kids s p)) b" .
  then have "hi (iv s (kids s p ! i)) \<le> lo (iv s (kids s p ! j))"
    using ij by (rule tiling_ordered)
  with anc_inside [OF assms(1,2) anc(1)] anc_inside [OF assms(1,2) anc(2)] show ?thesis by linarith
qed

lemma tree_before_iff:
  assumes "tree_ok s r" "iv_ok s" "x \<in> ids s" "y \<in> ids s"
  shows "tree_before s x y \<longleftrightarrow> hi (iv s x) \<le> lo (iv s y)"
proof
  assume le: "hi (iv s x) \<le> lo (iv s y)"
  note ne = iv_okD(2) [OF assms(2,3)] iv_okD(2) [OF assms(2,4)]
  have "\<not> anc s x y" "\<not> anc s y x"
    using anc_inside [OF assms(1,2), of x y] anc_inside [OF assms(1,2), of y x] le ne by linarith+
  moreover have "\<not> tree_before s y x"
    using tree_before_iv [OF assms(1,2), of y x] le ne by linarith
  ultimately show "tree_before s x y" using tree_trichotomy [OF assms(1,3,4)] by blast
qed (rule tree_before_iv [OF assms(1,2)])

lemma anc_iff_inside:
  assumes "tree_ok s r" "iv_ok s" "a \<in> ids s" "b \<in> ids s"
  shows "anc s a b \<longleftrightarrow> lo (iv s a) \<le> lo (iv s b) \<and> hi (iv s b) \<le> hi (iv s a)"
proof
  assume inside: "lo (iv s a) \<le> lo (iv s b) \<and> hi (iv s b) \<le> hi (iv s a)"
  note ne = iv_okD(2) [OF assms(2,3)] iv_okD(2) [OF assms(2,4)]
  have "\<not> tree_before s a b" "\<not> tree_before s b a"
    using tree_before_iv [OF assms(1,2)] inside ne by fastforce+
  moreover have "a = b" if "anc s b a"
    using anc_inside [OF assms(1,2) that] inside by auto
  ultimately show "anc s a b" using tree_trichotomy [OF assms(1,3,4)] by auto
qed (use anc_inside [OF assms(1,2)] in blast)

end
