(* ===== verification/ReachQuery.thy ===== *)
theory ReachQuery
  imports ReachTree
begin

text \<open>
  The queries on a labelled tree: chain ancestry, the next block on the way down, and the binary
  search over blocks whose intervals are disjoint and in order.
\<close>

lemma is_chain_ancestor_of_eq:
  assumes "tree_ok s r" "iv_ok s" "a \<in> ids s" "b \<in> ids s"
  shows "is_chain_ancestor_of s a b = Inr (anc s a b)"
  using anc_iff_inside [OF assms] assms(3,4)
  by (simp add: is_chain_ancestor_of_def iv_contains_iff)

lemma is_strict_chain_ancestor_of_eq:
  assumes "tree_ok s r" "iv_ok s" "a \<in> ids s" "b \<in> ids s"
  shows "is_strict_chain_ancestor_of s a b = Inr (anc s a b \<and> a \<noteq> b)"
proof -
  have "anc s a b \<and> a \<noteq> b \<longleftrightarrow> lo (iv s a) \<le> lo (iv s b) \<and> hi (iv s b) < hi (iv s a)"
    using anc_iff_inside [OF assms] anc_inside [OF assms(1,2), of a b] by auto
  then show ?thesis
    using assms(3,4) by (simp add: is_strict_chain_ancestor_of_def iv_strictly_contains_iff)
qed

text \<open>Blocks of the store in the order of their disjoint intervals.\<close>

definition in_order :: "mem_store \<Rightarrow> blk list \<Rightarrow> bool" where
  "in_order s hs \<longleftrightarrow>
     set hs \<subseteq> ids s \<and> (\<forall>i j. i < j \<and> j < length hs \<longrightarrow> hi (iv s (hs ! i)) \<le> lo (iv s (hs ! j)))"

lemma in_order_kids:
  assumes "tree_ok s r" "iv_ok s" "p \<in> ids s"
  shows "in_order s (kids s p)"
proof -
  from iv_ok_tiling [OF assms(2,3)] obtain a b where "tiling a (map (iv s) (kids s p)) b" .
  then show ?thesis
    using tiling_ordered kid_in_ids [OF assms(1)] unfolding in_order_def by blast
qed

lemma start_key_eq: "hs ! i \<in> ids s \<Longrightarrow> start_key s hs i = Inr (iv_start (iv s (hs ! i)))"
  by (simp add: start_key_def)

lemma no_anc_below:
  assumes "tree_ok s r" "iv_ok s" "h \<in> ids s" "d \<in> ids s" "hi (iv s h) < hi (iv s d)"
  shows "\<not> anc s h d"
  using anc_inside [OF assms(1,2), of h d] assms(5) by auto

lemma in_order_nth: "in_order s hs \<Longrightarrow> i < length hs \<Longrightarrow> hs ! i \<in> ids s"
  using nth_mem unfolding in_order_def by blast

text \<open>The index that the search for the last label of \<open>d\<close> gives.\<close>

lemma search_end_label:
  assumes ok: "iv_ok s" and hs: "in_order s hs"
  obtains (hit) i where "i < length hs" "Suc (lo (iv s (hs ! i))) = hi (iv s d)"
      "binary_search_by (start_key s hs) (iv_end (iv s d)) (length hs) = Inr (Inr i)"
  | (miss) i where "i \<le> length hs"
      "binary_search_by (start_key s hs) (iv_end (iv s d)) (length hs) = Inr (Inl i)"
      "\<And>j. j < i \<Longrightarrow> lo (iv s (hs ! j)) < hi (iv s d)"
      "\<And>j. j < length hs \<Longrightarrow> i \<le> j \<Longrightarrow> hi (iv s d) \<le> lo (iv s (hs ! j))"
proof -
  define k where "k i = iv_start (iv s (hs ! i))" for i
  define point where "point = iv_end (iv s d)"
  have lo: "lo (iv s (hs ! i)) = unat (k i)" for i by (simp add: k_def lo_def)
  have point: "hi (iv s d) = Suc (unat point)" by (simp add: point_def hi_def)
  have key: "start_key s hs i = Inr (k i)" if "i < length hs" for i
    using start_key_eq [OF in_order_nth [OF hs that]] by (simp add: k_def)
  have mono: "k i < k j" if "i < j" "j < length hs" for i j
  proof -
    have "hi (iv s (hs ! i)) \<le> lo (iv s (hs ! j))" using hs that by (simp add: in_order_def)
    moreover have "lo (iv s (hs ! i)) < hi (iv s (hs ! i))"
      using iv_okD(2) [OF ok in_order_nth [OF hs]] that by simp
    ultimately show ?thesis by (simp add: word_less_nat_alt lo)
  qed
  have "(\<exists>i < length hs. binary_search_by (start_key s hs) point (length hs) = Inr (Inr i) \<and> k i = point)
    \<or> (\<exists>i \<le> length hs. binary_search_by (start_key s hs) point (length hs) = Inr (Inl i)
        \<and> (\<forall>j < i. k j < point) \<and> (\<forall>j < length hs. i \<le> j \<longrightarrow> point < k j))"
    by (rule binary_search_by_spec) (fact key, fact mono)
  then show thesis
  proof (elim disjE exE conjE)
    fix i
    assume "i < length hs" "k i = point"
      "binary_search_by (start_key s hs) point (length hs) = Inr (Inr i)"
    then show thesis by (intro hit [of i]) (simp_all add: lo point point_def)
  next
    fix i
    assume i: "i \<le> length hs" "\<forall>j < i. k j < point" "\<forall>j < length hs. i \<le> j \<longrightarrow> point < k j"
      "binary_search_by (start_key s hs) point (length hs) = Inr (Inl i)"
    show thesis
    proof (rule miss [of i])
      show "lo (iv s (hs ! j)) < hi (iv s d)" if "j < i" for j
        using i(2) that by (auto simp: lo point word_less_nat_alt)
      show "hi (iv s d) \<le> lo (iv s (hs ! j))" if "j < length hs" "i \<le> j" for j
        using i(3) that by (auto simp: lo point word_less_nat_alt)
    qed (use i in \<open>simp_all add: point_def\<close>)
  qed
qed

lemma touching_anc:
  assumes ok: "tree_ok s r" "iv_ok s" and ids: "h \<in> ids s" "d \<in> ids s"
    and touch: "lo (iv s h) < hi (iv s d)" "hi (iv s d) \<le> hi (iv s h)"
  shows "anc s h d"
proof -
  have nb: "lo (iv s d) < hi (iv s d)" using iv_okD(2) [OF ok(2) ids(2)] .
  have "\<not> tree_before s h d" using tree_before_iv [OF ok, of h d] touch nb by linarith
  moreover have "\<not> tree_before s d h" using tree_before_iv [OF ok, of d h] touch nb by linarith
  moreover have "h = d" if "anc s d h" using anc_inside [OF ok that] touch(2) by fastforce
  ultimately show ?thesis using tree_trichotomy [OF ok(1) ids] anc_refl [of s d] by metis
qed

lemma binary_search_descendant_spec:
  assumes ok: "tree_ok s r" "iv_ok s" and d: "d \<in> ids s" and hs: "in_order s hs"
  shows "(\<exists>i < length hs. binary_search_descendant s hs d = Inr (Found (hs ! i) i) \<and> anc s (hs ! i) d)
    \<or> (\<exists>i \<le> length hs. binary_search_descendant s hs d = Inr (NotFound i)
        \<and> (\<forall>h \<in> set hs. \<not> anc s h d)
        \<and> (\<forall>j < i. lo (iv s (hs ! j)) < hi (iv s d))
        \<and> (\<forall>j < length hs. i \<le> j \<longrightarrow> hi (iv s d) \<le> lo (iv s (hs ! j))))"
  using ok(2) hs
proof (cases rule: search_end_label [where d = d])
  case (hit i)
  have mem: "hs ! i \<in> ids s" by (rule in_order_nth [OF hs hit(1)])
  have "lo (iv s (hs ! i)) < hi (iv s d)" "hi (iv s d) \<le> hi (iv s (hs ! i))"
    using hit(2) iv_okD(2) [OF ok(2) mem] by linarith+
  then have "anc s (hs ! i) d" by (rule touching_anc [OF ok mem d])
  moreover have "binary_search_descendant s hs d = Inr (Found (hs ! i) i)"
    using d hit(3) by (simp add: binary_search_descendant_def)
  ultimately show ?thesis using hit(1) by blast
next
  case (miss i)
  have not_above: "\<not> anc s (hs ! j) d" if "i \<le> j" "j < length hs" for j
    using anc_inside [OF ok, of "hs ! j" d] miss(4) [OF that(2,1)] iv_okD(2) [OF ok(2) d] by auto
  have not_below: "\<not> anc s (hs ! j) d" if "j < i - 1" for j
  proof -
    have "hi (iv s (hs ! j)) \<le> lo (iv s (hs ! (i - 1)))"
      using hs that miss(1) by (simp add: in_order_def)
    also have "\<dots> < hi (iv s d)" using miss(3) [of "i - 1"] that by simp
    finally have "hi (iv s (hs ! j)) < hi (iv s d)" .
    moreover have "hs ! j \<in> ids s" using in_order_nth [OF hs, of j] that miss(1) by simp
    ultimately show ?thesis using no_anc_below [OF ok _ d] by blast
  qed
  have last: "is_chain_ancestor_of s (hs ! (i - 1)) d = Inr (anc s (hs ! (i - 1)) d)" if "0 < i"
    using is_chain_ancestor_of_eq [OF ok in_order_nth [OF hs] d, of "i - 1"] that miss(1) by simp
  have eq: "binary_search_descendant s hs d =
      Inr (if 0 < i \<and> anc s (hs ! (i - 1)) d then Found (hs ! (i - 1)) (i - 1) else NotFound i)"
    using d miss(2) last by (cases "0 < i") (simp_all add: binary_search_descendant_def)
  show ?thesis
  proof (cases "0 < i \<and> anc s (hs ! (i - 1)) d")
    case True
    then have "i - 1 < length hs" using miss(1) by linarith
    moreover have "binary_search_descendant s hs d = Inr (Found (hs ! (i - 1)) (i - 1))"
      using eq True by simp
    ultimately show ?thesis using True by blast
  next
    case False
    have "\<not> anc s (hs ! j) d" if "j < length hs" for j
    proof -
      consider "j < i - 1" | "0 < i" "j = i - 1" | "i \<le> j" by linarith
      then show ?thesis using not_below not_above that False by cases auto
    qed
    then have "\<forall>h \<in> set hs. \<not> anc s h d" by (auto simp: in_set_conv_nth)
    moreover have "binary_search_descendant s hs d = Inr (NotFound i)"
      using eq False by simp
    ultimately show ?thesis using miss(1,3,4) by blast
  qed
qed

lemma binary_search_descendant_cases:
  assumes "tree_ok s r" "iv_ok s" "d \<in> ids s" "in_order s hs"
  obtains (found) i where "i < length hs" "anc s (hs ! i) d"
      "binary_search_descendant s hs d = Inr (Found (hs ! i) i)"
  | (not_found) i where "i \<le> length hs" "binary_search_descendant s hs d = Inr (NotFound i)"
      "\<And>h. h \<in> set hs \<Longrightarrow> \<not> anc s h d" "\<And>j. j < i \<Longrightarrow> lo (iv s (hs ! j)) < hi (iv s d)"
      "\<And>j. j < length hs \<Longrightarrow> i \<le> j \<Longrightarrow> hi (iv s d) \<le> lo (iv s (hs ! j))"
  using binary_search_descendant_spec [OF assms] by blast

lemma unique_kid_above:
  assumes "tree_ok s r" "iv_ok s" "c \<in> set (kids s a)" "c' \<in> set (kids s a)" "anc s c d" "anc s c' d"
    "d \<in> ids s"
  shows "c = c'"
proof (rule ccontr)
  assume "c \<noteq> c'"
  obtain i j where ij: "i < length (kids s a)" "kids s a ! i = c" "j < length (kids s a)" "kids s a ! j = c'"
    using assms(3,4) by (auto simp: in_set_conv_nth)
  with \<open>c \<noteq> c'\<close> have "tree_before s d d"
    using tree_before_siblings [of i j s a d d] tree_before_siblings [of j i s a d d] assms(5,6)
    by (cases "i < j") (auto simp: not_less le_less)
  then show False
    using tree_before_iv [OF assms(1,2)] iv_okD(2) [OF assms(2,7)] by fastforce
qed

lemma get_next_unchecked_eq:
  assumes ok: "tree_ok s r" "iv_ok s" and "d \<in> ids s" "c \<in> set (kids s a)" "anc s c d"
  shows "get_next_chain_ancestor_unchecked s d a = Inr c"
proof -
  have a: "a \<in> ids s" using kid_in_ids [OF ok(1) assms(4)] by blast
  from ok assms(3) in_order_kids [OF ok a] show ?thesis
  proof (cases rule: binary_search_descendant_cases)
    case (found i)
    then have "kids s a ! i = c"
      using unique_kid_above [OF ok nth_mem assms(4) found(2) assms(5,3)] by simp
    with found a show ?thesis by (simp add: get_next_chain_ancestor_unchecked_def)
  next
    case (not_found i)
    then show ?thesis using assms(4,5) by blast
  qed
qed

lemma get_next_chain_ancestor_spec:
  assumes ok: "tree_ok s r" "iv_ok s" and ids: "d \<in> ids s" "a \<in> ids s"
  shows "get_next_chain_ancestor s d a =
      (if anc s a d \<and> a \<noteq> d then Inr (THE c. c \<in> set (kids s a) \<and> anc s c d) else Inl BadQuery)"
proof (cases "anc s a d \<and> a \<noteq> d")
  case True
  then obtain c where c: "c \<in> set (kids s a)" "anc s c d" by (auto elim: anc_cases)
  then have "(THE c. c \<in> set (kids s a) \<and> anc s c d) = c"
    using unique_kid_above [OF ok _ c(1) _ c(2) ids(1)] by blast
  with True c show ?thesis
    using is_strict_chain_ancestor_of_eq [OF ok ids(2,1)] get_next_unchecked_eq [OF ok ids(1) c]
    by (auto simp: get_next_chain_ancestor_def)
next
  case False
  then show ?thesis
    using is_strict_chain_ancestor_of_eq [OF ok ids(2,1)]
    by (auto simp: get_next_chain_ancestor_def)
qed

end
