(* ===== verification/ReachAdd.thy ===== *)
theory ReachAdd
  imports ReachQuery
begin

text \<open>
  Insertion.  \<open>with_ivs s f\<close> relabels the tree of \<open>s\<close> by \<open>f\<close>, \<open>grow s p n i\<close> hangs the new leaf \<open>n\<close>
  with interval \<open>i\<close> below \<open>p\<close>; every state the insertion goes through is one of these.  The future
  covering sets are related to the DAG by \<open>dag_ok\<close>.
\<close>

subsection \<open>Relabelling\<close>

definition with_ivs :: "mem_store \<Rightarrow> (blk \<Rightarrow> interval) \<Rightarrow> mem_store" where
  "with_ivs s f = s\<lparr>ms_map := (\<lambda>b. map_option (\<lambda>d. d\<lparr>md_interval := f b\<rparr>) (ms_map s b))\<rparr>"

lemma with_ivs_views [simp]:
  "ids (with_ivs s f) = ids s" "kids (with_ivs s f) = kids s" "par (with_ivs s f) = par s"
  "covering (with_ivs s f) = covering s" "tree_edge (with_ivs s f) = tree_edge s"
  "anc (with_ivs s f) = anc s" "tree_before (with_ivs s f) = tree_before s"
  "ms_reindex_root (with_ivs s f) = ms_reindex_root s"
proof -
  show "ids (with_ivs s f) = ids s" by (auto simp: ids_def with_ivs_def domIff)
  show k: "kids (with_ivs s f) = kids s"
    by (rule ext) (auto simp: kids_def with_ivs_def split: option.split)
  show "par (with_ivs s f) = par s"
    by (rule ext) (auto simp: par_def with_ivs_def split: option.split)
  show "covering (with_ivs s f) = covering s"
    by (rule ext) (auto simp: covering_def with_ivs_def split: option.split)
  show e: "tree_edge (with_ivs s f) = tree_edge s" by (simp add: tree_edge_def k)
  then show a: "anc (with_ivs s f) = anc s" by (intro ext) (simp add: anc_def)
  show "tree_before (with_ivs s f) = tree_before s" by (intro ext) (simp add: tree_before_def k a)
qed (simp add: with_ivs_def)

lemma iv_with_ivs [simp]: "b \<in> ids s \<Longrightarrow> iv (with_ivs s f) b = f b"
  by (auto simp: iv_def with_ivs_def ids_def split: option.split)

lemma with_ivs_iv: "with_ivs s (iv s) = s"
proof -
  have "map_option (\<lambda>d. d\<lparr>md_interval := iv s b\<rparr>) (ms_map s b) = ms_map s b" for b
    by (cases "ms_map s b") (simp_all add: iv_def)
  then show ?thesis by (simp add: with_ivs_def)
qed

lemma with_ivs_twice [simp]: "with_ivs (with_ivs s f) g = with_ivs s g"
  by (simp add: with_ivs_def option.map_comp comp_def)

lemma with_ivs_cong: "(\<And>b. b \<in> ids s \<Longrightarrow> f b = g b) \<Longrightarrow> with_ivs s f = with_ivs s g"
proof -
  assume eq: "\<And>b. b \<in> ids s \<Longrightarrow> f b = g b"
  have "map_option (\<lambda>d. d\<lparr>md_interval := f b\<rparr>) (ms_map s b) =
      map_option (\<lambda>d. d\<lparr>md_interval := g b\<rparr>) (ms_map s b)" for b
    using eq [of b] by (cases "ms_map s b") (simp_all add: ids_def domIff)
  then show ?thesis by (simp add: with_ivs_def)
qed

lemma set_interval_with_ivs:
  assumes "b \<in> ids s"
  shows "set_interval b i (with_ivs s f) = Inr (with_ivs s (f(b := i)))"
proof -
  obtain d where d: "ms_map s b = Some d" using assms by (auto simp: ids_def)
  have "(\<lambda>x. map_option (\<lambda>d. d\<lparr>md_interval := f x\<rparr>) (ms_map s x))(b \<mapsto> d\<lparr>md_interval := i\<rparr>) =
      (\<lambda>x. map_option (\<lambda>d. d\<lparr>md_interval := (f(b := i)) x\<rparr>) (ms_map s x))"
    using d by (intro ext) auto
  with d show ?thesis
    by (simp add: set_interval_def get_data_def put_data_def with_ivs_def del: fun_upd_apply)
qed

lemma tree_ok_with_ivs [simp]: "tree_ok (with_ivs s f) r \<longleftrightarrow> tree_ok s r"
  by (simp add: tree_ok_def)

subsection \<open>A new leaf\<close>

definition grow :: "mem_store \<Rightarrow> blk \<Rightarrow> blk \<Rightarrow> interval \<Rightarrow> mem_store" where
  "grow s p n i =
     (case ms_map s p of None \<Rightarrow> s
      | Some d \<Rightarrow> s\<lparr>ms_map := (ms_map s)(p \<mapsto> d\<lparr>md_children := md_children d @ [n]\<rparr>,
          n \<mapsto> mem_data_new p i (md_height d + 1))\<rparr>)"

lemma grow_views:
  assumes "p \<in> ids s" "n \<notin> ids s"
  shows "ids (grow s p n i) = insert n (ids s)"
    "kids (grow s p n i) = (kids s)(p := kids s p @ [n])"
    "par (grow s p n i) = (par s)(n := p)"
    "iv (grow s p n i) = (iv s)(n := i)"
    "covering (grow s p n i) = covering s"
    "ms_reindex_root (grow s p n i) = ms_reindex_root s"
  using assms
  by (auto simp: grow_def ids_def kids_def par_def iv_def covering_def mem_data_new_def
      intro!: ext split: option.split)

lemma anc_grow:
  assumes "tree_ok s r" "p \<in> ids s" "n \<notin> ids s"
  shows "anc (grow s p n i) a b \<longleftrightarrow> anc s a b \<or> b = n \<and> anc s a p"
proof
  assume "anc (grow s p n i) a b"
  then show "anc s a b \<or> b = n \<and> anc s a p"
  proof (induction rule: anc_induct)
    case (kid q c)
    have kids: "c \<in> set (kids s q) \<or> q = p \<and> c = n"
      using kid(2) assms by (auto simp: grow_views split: if_splits)
    have "q \<noteq> n" if "c \<in> set (kids s q)" using kid_in_ids [OF assms(1) that] assms(3) by blast
    then show ?case using kids kid.IH assms(2,3) by (auto intro: anc_step)
  qed simp
next
  have mono: "anc (grow s p n i) x y" if "anc s x y" for x y
    using that
  proof (induction rule: anc_induct)
    case (kid q c)
    then show ?case
      by (intro anc_step [of _ x q c]) (auto simp: grow_views [OF assms(2,3)])
  qed simp
  have "anc (grow s p n i) p n" by (rule anc_kid) (simp add: grow_views [OF assms(2,3)])
  then show "anc (grow s p n i) a b" if "anc s a b \<or> b = n \<and> anc s a p"
    using that mono anc_trans by blast
qed

lemma tree_ok_grow:
  assumes "tree_ok s r" "p \<in> ids s" "n \<notin> ids s" "n \<noteq> NONE"
  shows "tree_ok (grow s p n i) r"
proof -
  note views = grow_views [OF assms(2,3)]
  have p: "p \<noteq> n" "r \<noteq> n" using assms by (auto simp: tree_ok_def)
  have n: "n \<notin> set (kids s q)" for q using kid_in_ids [OF assms(1)] assms(3) by blast
  have "distinct (kids (grow s p n i) q) \<and> (\<forall>c \<in> set (kids (grow s p n i) q).
      c \<in> insert n (ids s) \<and> par (grow s p n i) c = q)" for q
    using assms(1) n kid_in_ids [OF assms(1)] kids_outside [of q s]
    by (cases "q \<in> ids s") (auto simp: views tree_ok_def)
  moreover have "anc (grow s p n i) r b" if "b \<in> insert n (ids s)" for b
    using that assms(1,2) by (auto simp: anc_grow [OF assms(1-3)] tree_ok_def)
  ultimately show ?thesis using assms p by (simp add: tree_ok_def views)
qed

lemma decrease_end_one:
  assumes "legal i" "lo i < hi i"
  shows "legal (decrease_end i 1)" "lo (decrease_end i 1) = lo i" "hi (decrease_end i 1) = hi i - 1"
proof -
  have "0 < unat (iv_end i)" using assms by (simp add: legal_def lo_def hi_def)
  then have "unat (iv_end i - 1) = unat (iv_end i) - 1" by (rule unat_pred_u64)
  then show "legal (decrease_end i 1)" "lo (decrease_end i 1) = lo i"
    "hi (decrease_end i 1) = hi i - 1"
    using assms by (simp_all add: decrease_end_def legal_def lo_def hi_def)
qed

lemma lo_iv_new: "lo (iv_new x y) = unat x" "hi (iv_new x y) = Suc (unat y)"
  by (simp_all add: lo_def hi_def)

text \<open>What is left of the interval of \<open>p\<close> after its last child.\<close>

lemma interval_remaining_after_spec:
  assumes "iv_ok s" "p \<in> ids s" "set (kids s p) \<subseteq> ids s"
  obtains i a where "interval_remaining_after s p = Inr i" "legal i" "hi i = hi (iv s p) - 1"
    "lo (iv s p) \<le> a" "tiling a (map (iv s) (kids s p)) (lo i)" "lo i < hi (iv s p)"
proof -
  note p = iv_okD [OF assms(1,2)]
  note cap = decrease_end_one [OF p]
  from iv_ok_tiling [OF assms(1,2)] obtain a b where
    t: "lo (iv s p) \<le> a" "tiling a (map (iv s) (kids s p)) b" "b < hi (iv s p)" .
  show thesis
  proof (cases "kids s p = []")
    case True
    then show thesis
      using that [of "decrease_end (iv s p) 1" "lo (iv s p)"] cap p assms(2)
      by (simp add: interval_remaining_after_def interval_children_capacity_def)
  next
    case False
    define c where "c = last (kids s p)"
    have c: "c \<in> ids s" using assms(3) False last_in_set [OF False] by (auto simp: c_def)
    have "map (iv s) (kids s p) = map (iv s) (butlast (kids s p)) @ [iv s c]"
      using False by (metis append_butlast_last_id c_def list.simps(8,9) map_append)
    then have "b = hi (iv s c)" "legal (iv s c)" using t(2) by (auto simp: tiling_append)
    then have start: "unat (iv_end (iv s c) + 1) = b"
      using unat_end_Suc [of "iv s c"] by simp
    define i where "i = iv_new (iv_end (iv s c) + 1) (iv_end (decrease_end (iv s p) 1))"
    have lo: "lo i = b" using start by (simp add: i_def lo_def)
    have hi: "hi i = hi (iv s p) - 1" using cap(3) by (simp add: i_def hi_def)
    have "0 < b" using p(1) t(1) tiling_le [OF t(2)] by (simp add: legal_def)
    moreover have "hi (iv s p) < 2 ^ 64" using p(1) by (simp add: legal_def)
    ultimately have "legal i" unfolding legal_def lo hi using t(3) by linarith
    then show thesis
      using that [of i a] lo hi t c False assms(2)
      by (simp add: interval_remaining_after_def interval_children_capacity_def c_def i_def)
  qed
qed

text \<open>A leaf inside what is left keeps the labelling.\<close>

lemma iv_ok_grow:
  assumes "tree_ok s r" "iv_ok s" "p \<in> ids s" "n \<notin> ids s"
    and "lo (iv s p) \<le> a" "tiling a (map (iv s) (kids s p)) (lo i)"
    and "legal i" "lo i < hi i" "hi i < hi (iv s p)"
  shows "iv_ok (grow s p n i)"
proof -
  note views = grow_views [OF assms(3,4)]
  have n: "n \<notin> set (kids s q)" for q using kid_in_ids [OF assms(1)] assms(4) by blast
  have keep: "map ((iv s)(n := i)) (kids s q) = map (iv s) (kids s q)" for q
    using n [of q] by (auto intro: map_cong)
  have new: "\<exists>a b. lo (iv s p) \<le> a \<and> tiling a (map ((iv s)(n := i)) (kids s p @ [n])) b
      \<and> b < hi (iv s p)"
  proof (intro exI conjI)
    show "tiling a (map ((iv s)(n := i)) (kids s p @ [n])) (hi i)"
      unfolding map_append keep tiling_append using assms(6,7) by auto
  qed (use assms in simp_all)
  have old: "\<exists>a b. lo (iv s q) \<le> a \<and> tiling a (map ((iv s)(n := i)) (kids s q)) b \<and> b < hi (iv s q)"
    if "q \<in> ids s" for q
    unfolding keep using assms(2) that unfolding iv_ok_def by blast
  have leaf: "kids s n = []" using assms(4) by (rule kids_outside)
  have "legal (((iv s)(n := i)) q) \<and> lo (((iv s)(n := i)) q) < hi (((iv s)(n := i)) q)
      \<and> (\<exists>a b. lo (((iv s)(n := i)) q) \<le> a
        \<and> tiling a (map ((iv s)(n := i)) (((kids s)(p := kids s p @ [n])) q)) b
        \<and> b < hi (((iv s)(n := i)) q))" if "q \<in> insert n (ids s)" for q
  proof (cases "q = n")
    case True
    then show ?thesis using assms leaf by auto
  next
    case False
    then have "q \<in> ids s" using that by simp
    moreover have "p \<noteq> n" using assms(3,4) by blast
    ultimately show ?thesis
      using False new old iv_okD [OF assms(2)] by (cases "q = p") simp_all
  qed
  then show ?thesis by (simp add: iv_ok_def views)
qed

text \<open>
  Insertion below a parent that has room: the new leaf gets the first half of what is left.
\<close>

lemma add_tree_block_room:
  assumes "tree_ok s r" "iv_ok s" "p \<in> ids s" "n \<notin> ids s"
    and "interval_remaining_after s p = Inr i" "lo i < hi i"
  shows "add_tree_block fo n p depth slack s = Some (Inr (), grow s p n (fst (split_half i)))
    \<and> iv_ok (grow s p n (fst (split_half i)))"
proof -
  have sub: "set (kids s p) \<subseteq> ids s" using kid_in_ids [OF assms(1)] by blast
  from interval_remaining_after_spec [OF assms(2,3) sub] assms(5) obtain a where
    i: "legal i" "hi i = hi (iv s p) - 1" "lo i < hi (iv s p)"
    and t: "lo (iv s p) \<le> a" "tiling a (map (iv s) (kids s p)) (lo i)" by auto
  note half = split_half_spec [OF i(1) assms(6)]
  have "iv_ok (grow s p n (fst (split_half i)))"
    by (rule iv_ok_grow [OF assms(1-4) t(1)]) (use half t(2) i(2) assms(6) in simp_all)
  moreover obtain d where d: "ms_map s p = Some d" using assms(3) by (auto simp: ids_def)
  moreover have "ms_map s n = None" "p \<noteq> n" using assms(3,4) by (auto simp: ids_def)
  ultimately show ?thesis
    using assms(5,6) iv_is_empty_iff [OF i(1)]
    by (simp add: add_tree_block_def append_child_def get_data_def put_data_def rwrite_def rbind_def
        get_height_def store_insert_def grow_def)
qed

end
