(* ===== verification/ReachDag.thy ===== *)
theory ReachDag
  imports ReachAdd
begin

text \<open>
  The DAG above the tree.  A future covering set lists, in tree order, blocks whose subtrees make
  up the future of a block outside its own subtree; \<open>dag_ok s D\<close> says that the sets describe the
  ancestry \<open>D\<close>.  Adding a block to the sets of its merge set extends \<open>D\<close> by exactly that block.
\<close>

definition covers_ok :: "mem_store \<Rightarrow> blk \<Rightarrow> bool" where
  "covers_ok s a \<longleftrightarrow>
     set (covering s a) \<subseteq> ids s \<and>
     (\<forall>i j. i < j \<and> j < length (covering s a) \<longrightarrow> tree_before s (covering s a ! i) (covering s a ! j))"

definition dag_ok :: "mem_store \<Rightarrow> (blk \<Rightarrow> blk \<Rightarrow> bool) \<Rightarrow> bool" where
  "dag_ok s D \<longleftrightarrow>
     (\<forall>a \<in> ids s. covers_ok s a) \<and>
     (\<forall>a \<in> ids s. \<forall>b \<in> ids s. D a b \<longleftrightarrow> anc s a b \<or> (\<exists>h \<in> set (covering s a). anc s h b))"

text \<open>The ancestry after \<open>n\<close> was added with selected parent \<open>p\<close> and merge set \<open>M\<close>.\<close>

definition dag_extend :: "(blk \<Rightarrow> blk \<Rightarrow> bool) \<Rightarrow> blk \<Rightarrow> blk \<Rightarrow> blk set \<Rightarrow> blk \<Rightarrow> blk \<Rightarrow> bool" where
  "dag_extend D n p M a b \<longleftrightarrow> (if b = n then a = n \<or> D a p \<or> a \<in> M else a \<noteq> n \<and> D a b)"

lemma dag_ok_iff:
  "dag_ok s D \<Longrightarrow> a \<in> ids s \<Longrightarrow> b \<in> ids s \<Longrightarrow>
     D a b \<longleftrightarrow> anc s a b \<or> (\<exists>h \<in> set (covering s a). anc s h b)"
  by (simp add: dag_ok_def)

lemma in_order_covering:
  assumes "tree_ok s r" "iv_ok s" "covers_ok s a"
  shows "in_order s (covering s a)"
  using assms(3) tree_before_iv [OF assms(1,2)] unfolding covers_ok_def in_order_def by blast

lemma is_dag_ancestor_of_eq:
  assumes ok: "tree_ok s r" "iv_ok s" "dag_ok s D" and ids: "a \<in> ids s" "b \<in> ids s"
  shows "is_dag_ancestor_of s a b = Inr (D a b)"
proof -
  have "covers_ok s a" using ok(3) ids(1) by (simp add: dag_ok_def)
  note ord = in_order_covering [OF ok(1,2) this]
  note D = dag_ok_iff [OF ok(3) ids] is_chain_ancestor_of_eq [OF ok(1,2) ids]
  from ok(1,2) ids(2) ord show ?thesis
  proof (cases rule: binary_search_descendant_cases)
    case (found i)
    then have "covering s a ! i \<in> set (covering s a)" by simp
    then have "D a b" using D(1) found(2) by blast
    then show ?thesis using D(2) ids found(3) by (simp add: is_dag_ancestor_of_def)
  next
    case (not_found i)
    then have "D a b \<longleftrightarrow> anc s a b" using D(1) by blast
    then show ?thesis using D(2) ids not_found(2) by (simp add: is_dag_ancestor_of_def)
  qed
qed

subsection \<open>Relabelled and grown stores\<close>

definition grown :: "mem_store \<Rightarrow> blk \<Rightarrow> blk \<Rightarrow> mem_store \<Rightarrow> bool" where
  "grown s p n s' \<longleftrightarrow> (\<exists>i f. s' = with_ivs (grow s p n i) f) \<and> iv_ok s'"

lemma tree_before_grow:
  assumes ok: "tree_ok s r" "p \<in> ids s" "n \<notin> ids s" and "tree_before s x y"
  shows "tree_before (grow s p n i) x y"
proof -
  from assms(4) obtain q j k where jk: "j < k" "k < length (kids s q)"
    "anc s (kids s q ! j) x" "anc s (kids s q ! k) y" unfolding tree_before_def by blast
  have "kids (grow s p n i) q ! j = kids s q ! j" "kids (grow s p n i) q ! k = kids s q ! k"
    "k < length (kids (grow s p n i) q)"
    using jk by (auto simp: grow_views [OF ok(2,3)] nth_append)
  then show ?thesis
    using jk anc_grow [OF ok] by (intro tree_before_siblings [of j k _ q]) simp_all
qed

lemma dag_ok_grown:
  assumes ok: "tree_ok s r" "p \<in> ids s" "n \<notin> ids s" "dag_ok s D" and g: "grown s p n s'"
  shows "dag_ok s' (dag_extend D n p {})"
proof -
  from g obtain i f where s': "s' = with_ivs (grow s p n i) f" by (auto simp: grown_def)
  have v: "ids s' = insert n (ids s)" "covering s' = covering s"
    "anc s' a b \<longleftrightarrow> anc s a b \<or> b = n \<and> anc s a p" for a b
    using anc_grow [OF ok(1-3)] by (simp_all add: s' grow_views [OF ok(2,3)])
  have n: "covering s n = []" using ok(3) by (auto simp: covering_def ids_def domIff)
  have old: "covers_ok s' a" if "a \<in> ids s" for a
  proof -
    have "covers_ok s a" using ok(4) that by (simp add: dag_ok_def)
    then show ?thesis
      using tree_before_grow [OF ok(1-3)] unfolding covers_ok_def s' by (auto simp: grow_views [OF ok(2,3)])
  qed
  have new: "covers_ok s' n" by (simp add: covers_ok_def v n)
  have out: "a = n \<longleftrightarrow> b = n" if "anc s a b" "a = n \<or> b = n" for a b
    using anc_in_ids [OF ok(1) that(1)] that(2) ok(3) by blast
  have rel: "dag_extend D n p {} a b \<longleftrightarrow> anc s' a b \<or> (\<exists>h \<in> set (covering s' a). anc s' h b)"
    if ab: "a \<in> ids s'" "b \<in> ids s'" for a b
  proof (cases "b = n")
    case False
    then have "b \<in> ids s" using ab v(1) by blast
    then show ?thesis
      using False dag_ok_iff [OF ok(4), of a b] ab out [of a b] ok(3)
      by (cases "a = n") (auto simp: dag_extend_def v n)
  next
    case True
    show ?thesis
    proof (cases "a = n")
      case False
      then have a: "a \<in> ids s" using ab v(1) by blast
      have "h \<noteq> n" if "h \<in> set (covering s a)" for h
        using ok(4) a that ok(3) unfolding dag_ok_def covers_ok_def by blast
      then show ?thesis
        using True False dag_ok_iff [OF ok(4) a ok(2)] out by (auto simp: dag_extend_def v)
    qed (use True in \<open>simp add: dag_extend_def\<close>)
  qed
  show ?thesis using old new rel by (auto simp: dag_ok_def v(1))
qed

subsection \<open>Adding to the covering sets\<close>

definition put_covering :: "mem_store \<Rightarrow> blk \<Rightarrow> blk list \<Rightarrow> mem_store" where
  "put_covering s b hs =
     (case ms_map s b of None \<Rightarrow> s
      | Some d \<Rightarrow> put_data s b (d\<lparr>md_future_covering_set := hs\<rparr>))"

lemma put_covering_views:
  assumes "b \<in> ids s"
  shows "ids (put_covering s b hs) = ids s" "kids (put_covering s b hs) = kids s"
    "par (put_covering s b hs) = par s" "iv (put_covering s b hs) = iv s"
    "covering (put_covering s b hs) = (covering s)(b := hs)"
    "anc (put_covering s b hs) = anc s" "tree_before (put_covering s b hs) = tree_before s"
    "ms_reindex_root (put_covering s b hs) = ms_reindex_root s"
proof -
  show v: "ids (put_covering s b hs) = ids s" "kids (put_covering s b hs) = kids s"
    "par (put_covering s b hs) = par s" "iv (put_covering s b hs) = iv s"
    "covering (put_covering s b hs) = (covering s)(b := hs)"
    "ms_reindex_root (put_covering s b hs) = ms_reindex_root s"
    using assms
    by (auto simp: put_covering_def put_data_def ids_def kids_def par_def iv_def covering_def
        intro!: ext split: option.split)
  show a: "anc (put_covering s b hs) = anc s" by (intro ext) (simp add: anc_def tree_edge_def v)
  show "tree_before (put_covering s b hs) = tree_before s"
    by (intro ext) (simp add: tree_before_def v a)
qed

lemma insert_item_eq:
  assumes "b \<in> ids s" "i \<le> length (covering s b)"
  shows "insert_future_covering_item b x i s =
    Inr (put_covering s b (take i (covering s b) @ x # drop i (covering s b)))"
  using assms
  by (auto simp: insert_future_covering_item_def get_data_def ids_def covering_def vec_insert_def
      put_covering_def)

lemma ordered_insert:
  assumes "\<And>i j. i < j \<Longrightarrow> j < length xs \<Longrightarrow> P (xs ! i) (xs ! j)"
    and "k \<le> length xs" "\<And>i. i < k \<Longrightarrow> P (xs ! i) x" "\<And>j. k \<le> j \<Longrightarrow> j < length xs \<Longrightarrow> P x (xs ! j)"
    and "i < j" "j < Suc (length xs)"
  shows "P ((take k xs @ x # drop k xs) ! i) ((take k xs @ x # drop k xs) ! j)"
proof -
  have nth: "(take k xs @ x # drop k xs) ! m = (if m < k then xs ! m else if m = k then x else xs ! (m - 1))"
    if "m < Suc (length xs)" for m
    using that assms(2) by (auto simp: nth_append nth_Cons' min_absorb2)
  consider "j < k" | "j = k" | "i < k" "k < j" | "i = k" "k < j" | "k < i" using assms(5) by linarith
  then show ?thesis
    using assms nth [of i] nth [of j] by cases auto
qed

lemma insert_to_future_covering_set_ok:
  assumes ok: "tree_ok s r" "iv_ok s" "dag_ok s (dag_extend D n p M)"
    and ids: "m \<in> ids s" "n \<in> ids s" "kids s n = []" and m: "m \<notin> M" "\<not> D m p" "m \<noteq> n"
  obtains s' where "insert_to_future_covering_set m n s = Some (Inr (), s')"
    "tree_ok s' r" "iv_ok s'" "dag_ok s' (dag_extend D n p (insert m M))"
    "ids s' = ids s" "kids s' = kids s" "iv s' = iv s" "ms_reindex_root s' = ms_reindex_root s"
proof -
  have cov: "covers_ok s m" using ok(3) ids(1) by (simp add: dag_ok_def)
  note ord = in_order_covering [OF ok(1,2) cov]
  have not_anc: "\<not> anc s h n" if "h \<in> set (covering s m)" for h
    using dag_ok_iff [OF ok(3) ids(1,2)] that m by (auto simp: dag_extend_def)
  have leaf: "h = n" if "anc s n h" for h
    using that ids(3) by (auto elim: anc_cases)
  from ok(1,2) ids(2) ord show thesis
  proof (cases rule: binary_search_descendant_cases)
    case (found i)
    then show thesis using not_anc by simp
  next
    case (not_found i)
    define hs where "hs = take i (covering s m) @ n # drop i (covering s m)"
    define s' where "s' = put_covering s m hs"
    note v = put_covering_views [OF ids(1), of hs, folded s'_def]
    have set_hs: "set hs = insert n (set (covering s m))"
      unfolding hs_def by (metis append_take_drop_id insert_is_Un list.simps(15) set_append sup_left_commute)
    have below: "tree_before s (covering s m ! j) n" if "j < i" for j
    proof -
      have j: "j < length (covering s m)" using that not_found(1) by simp
      then have h: "covering s m ! j \<in> set (covering s m)" "covering s m ! j \<in> ids s"
        using in_order_nth [OF ord] by simp_all
      have "\<not> tree_before s n (covering s m ! j)"
        using tree_before_iv [OF ok(1,2), of n "covering s m ! j"] not_found(4) [OF that] by auto
      then show ?thesis
        using tree_trichotomy [OF ok(1) h(2) ids(2)] not_anc [OF h(1)] leaf by fastforce
    qed
    have above: "tree_before s n (covering s m ! j)" if "i \<le> j" "j < length (covering s m)" for j
      using tree_before_iff [OF ok(1,2) ids(2) in_order_nth [OF ord that(2)]] not_found(5) that by simp
    have "tree_before s (hs ! j) (hs ! k)" if "j < k" "k < length hs" for j k
      unfolding hs_def
      by (rule ordered_insert [OF _ not_found(1) below above])
        (use that cov in \<open>simp_all add: hs_def covers_ok_def\<close>)
    then have "covers_ok s' m"
      using cov ids(2) set_hs by (auto simp: covers_ok_def v)
    moreover have "covers_ok s' a" if "a \<in> ids s" "a \<noteq> m" for a
      using ok(3) that by (auto simp: dag_ok_def covers_ok_def v)
    moreover have "dag_extend D n p (insert m M) a b \<longleftrightarrow>
        anc s' a b \<or> (\<exists>h \<in> set (covering s' a). anc s' h b)" if "a \<in> ids s" "b \<in> ids s" for a b
      using dag_ok_iff [OF ok(3) that] set_hs leaf m(3)
      by (cases "a = m"; cases "b = n") (auto simp: dag_extend_def v)
    ultimately have "dag_ok s' (dag_extend D n p (insert m M))"
      by (auto simp: dag_ok_def v(1))
    moreover have "tree_ok s' r" using ok(1) by (simp add: tree_ok_def v)
    moreover have "iv_ok s'" using ok(2) by (simp add: iv_ok_def v)
    moreover have "insert_to_future_covering_set m n s = Some (Inr (), s')"
      using ids(1) not_found(1,2)
      by (simp add: insert_to_future_covering_set_def rwrite_def insert_item_eq s'_def hs_def)
    ultimately show thesis using that v by blast
  qed
qed

lemma add_dag_block_ok:
  assumes "tree_ok s r" "iv_ok s" "dag_ok s (dag_extend D n p M)"
    and "n \<in> ids s" "kids s n = []" "distinct ms" "set ms \<inter> M = {}"
    and "\<And>m. m \<in> set ms \<Longrightarrow> m \<in> ids s \<and> \<not> D m p \<and> m \<noteq> n"
  shows "\<exists>s'. add_dag_block n ms s = Some (Inr (), s')
    \<and> tree_ok s' r \<and> iv_ok s' \<and> dag_ok s' (dag_extend D n p (M \<union> set ms))
    \<and> ids s' = ids s \<and> iv s' = iv s \<and> ms_reindex_root s' = ms_reindex_root s"
  using assms
proof (induction ms arbitrary: s M)
  case Nil
  then show ?case by (simp add: add_dag_block_def)
next
  case (Cons m ms)
  from insert_to_future_covering_set_ok [OF Cons.prems(1-3) _ Cons.prems(4,5)] Cons.prems(7,8)
  obtain t where t: "insert_to_future_covering_set m n s = Some (Inr (), t)"
    "tree_ok t r" "iv_ok t" "dag_ok t (dag_extend D n p (insert m M))"
    "ids t = ids s" "kids t = kids s" "iv t = iv s" "ms_reindex_root t = ms_reindex_root s"
    by (metis disjoint_iff list.set_intros(1))
  have "\<exists>s'. add_dag_block n ms t = Some (Inr (), s')
    \<and> tree_ok s' r \<and> iv_ok s' \<and> dag_ok s' (dag_extend D n p (insert m M \<union> set ms))
    \<and> ids s' = ids t \<and> iv s' = iv t \<and> ms_reindex_root s' = ms_reindex_root t"
    using Cons.prems(4-8) t by (intro Cons.IH) auto
  then show ?case using t by (simp add: add_dag_block_def rbind_Some)
qed

end
