(* ===== verification/ReachLabel.thy ===== *)
theory ReachLabel
  imports ReachDag
begin

text \<open>
  Labellings of a fixed tree.  Reindexing changes only the intervals of the store, so its states
  are \<open>with_ivs s f\<close> for one tree \<open>s\<close> and a labelling \<open>f\<close>.  \<open>fair s f x\<close> says that all of the subtree
  of \<open>x\<close> is well labelled; \<open>weight s x\<close> is the number of blocks of the subtree, the room it needs.
\<close>

subsection \<open>The tree is well-founded\<close>

lemma tree_edge_iff: "(p, c) \<in> tree_edge s \<longleftrightarrow> c \<in> set (kids s p)"
  by (simp add: tree_edge_def)

lemma no_cycle:
  assumes ok: "tree_ok s r"
  shows "(x, x) \<notin> (tree_edge s)\<^sup>+"
proof
  assume cyc: "(x, x) \<in> (tree_edge s)\<^sup>+"
  have up: "\<exists>q. y \<in> set (kids s q) \<and> (y, q) \<in> (tree_edge s)\<^sup>*" if "(y, y) \<in> (tree_edge s)\<^sup>+" for y
    using tranclD2 [OF that] by (auto simp: tree_edge_iff)
  have "x \<in> ids s" using up [OF cyc] kid_in_ids [OF ok] by blast
  then have "anc s r x" using ok by (simp add: tree_ok_def)
  then have "(x, x) \<notin> (tree_edge s)\<^sup>+"
  proof (induction rule: anc_induct)
    case root
    show ?case
    proof
      assume "(r, r) \<in> (tree_edge s)\<^sup>+"
      then obtain q where "r \<in> set (kids s q)" using up by blast
      then show False using kid_in_ids [OF ok] ok by (metis tree_ok_def)
    qed
  next
    case (kid p c)
    show ?case
    proof
      assume "(c, c) \<in> (tree_edge s)\<^sup>+"
      then obtain q where q: "c \<in> set (kids s q)" "(c, q) \<in> (tree_edge s)\<^sup>*" using up by blast
      then have "q = p" using kid_in_ids [OF ok] kid(2) by blast
      then have "(p, p) \<in> (tree_edge s)\<^sup>+"
        using q kid(2) by (meson r_into_trancl' rtrancl_into_trancl2 tree_edge_iff)
      then show False using kid.IH by blast
    qed
  qed
  then show False using cyc by blast
qed

lemma wf_tree: "tree_ok s r \<Longrightarrow> wf ((tree_edge s)\<inverse>)"
  by (rule finite_acyclic_wf_converse) (simp_all add: acyclic_def no_cycle)

lemma tree_induct [consumes 1, case_names node]:
  assumes "tree_ok s r" and "\<And>x. (\<And>c. c \<in> set (kids s x) \<Longrightarrow> P c) \<Longrightarrow> P x"
  shows "P x"
  using wf_tree [OF assms(1)]
proof (induction x rule: wf_induct_rule)
  case (less x)
  show ?case by (rule assms(2)) (simp add: less tree_edge_iff)
qed

lemma kid_not_above: "tree_ok s r \<Longrightarrow> c \<in> set (kids s x) \<Longrightarrow> \<not> anc s c x"
  using no_cycle [of s r x] unfolding anc_def by (metis rtrancl_into_trancl2 tree_edge_iff)

lemma anc_antisym: "tree_ok s r \<Longrightarrow> anc s a b \<Longrightarrow> anc s b a \<Longrightarrow> a = b"
  by (metis anc_cases anc_trans kid_not_above)

lemma anc_parent: "tree_ok s r \<Longrightarrow> c \<in> set (kids s x) \<Longrightarrow> anc s a c \<Longrightarrow> a = c \<or> anc s a x"
  by (metis anc_up_cases kid_in_ids)

lemma anc_linear:
  assumes "tree_ok s r" "anc s a y" "anc s b y"
  shows "anc s a b \<or> anc s b a"
  using assms(2,3)
proof (induction rule: anc_induct)
  case root
  then show ?case by blast
next
  case (kid p c)
  then show ?case using anc_parent [OF assms(1) kid(2)] anc_step by blast
qed

lemma kids_apart:
  assumes "tree_ok s r" "c \<in> set (kids s x)" "c' \<in> set (kids s x)" "anc s c y" "anc s c' y"
  shows "c = c'"
  using anc_linear [OF assms(1,4,5)] anc_parent [OF assms(1)] kid_not_above [OF assms(1)] assms(2,3)
  by metis

subsection \<open>Subtrees\<close>

definition desc :: "mem_store \<Rightarrow> blk \<Rightarrow> blk set" where
  "desc s x = {y. anc s x y}"

definition weight :: "mem_store \<Rightarrow> blk \<Rightarrow> nat" where
  "weight s x = card (desc s x)"

lemma desc_refl [simp]: "x \<in> desc s x"
  by (simp add: desc_def)

lemma desc_kids: "desc s x = insert x (\<Union>c \<in> set (kids s x). desc s c)"
  unfolding desc_def by (auto elim: anc_cases intro: anc_trans anc_kid)

lemma desc_ids: "tree_ok s r \<Longrightarrow> x \<in> ids s \<Longrightarrow> desc s x \<subseteq> ids s"
  unfolding desc_def using anc_ids by blast

lemma desc_apart:
  "tree_ok s r \<Longrightarrow> c \<in> set (kids s x) \<Longrightarrow> c' \<in> set (kids s x) \<Longrightarrow> c \<noteq> c' \<Longrightarrow> desc s c \<inter> desc s c' = {}"
  unfolding desc_def using kids_apart by blast

lemma not_desc_kid: "tree_ok s r \<Longrightarrow> c \<in> set (kids s x) \<Longrightarrow> x \<notin> desc s c"
  unfolding desc_def using kid_not_above by blast

lemma distinct_kids: "tree_ok s r \<Longrightarrow> distinct (kids s x)"
  using kids_outside [of x s] by (cases "x \<in> ids s") (auto simp: tree_ok_def)

lemma weight_kids:
  assumes "tree_ok s r"
  shows "weight s x = Suc (sum_list (map (weight s) (kids s x)))"
proof -
  have "card (\<Union>c \<in> set (kids s x). desc s c) = (\<Sum>c \<in> set (kids s x). card (desc s c))"
    by (rule card_UN_disjoint) (simp, simp, use desc_apart [OF assms] in blast)
  also have "\<dots> = sum_list (map (weight s) (kids s x))"
    using distinct_kids [OF assms] by (simp add: sum_list_distinct_conv_sum_set weight_def)
  finally show ?thesis
    unfolding weight_def desc_kids [of s x]
    by (subst card_insert_disjoint) (use not_desc_kid [OF assms] in \<open>auto simp: weight_def\<close>)
qed

lemma weight_pos: "0 < weight s x"
  by (metis card_gt_0_iff desc_refl empty_iff finite weight_def)

lemma weight_mono: "anc s x y \<Longrightarrow> weight s y \<le> weight s x"
  unfolding weight_def desc_def by (intro card_mono) (auto intro: anc_trans)

lemma weight_kid: "tree_ok s r \<Longrightarrow> c \<in> set (kids s x) \<Longrightarrow> weight s c < weight s x"
  using weight_kids [of s r x] member_le_sum_list [of "weight s c" "map (weight s) (kids s x)"] by auto

lemma weight_le: "tree_ok s r \<Longrightarrow> x \<in> ids s \<Longrightarrow> weight s x \<le> card (ids s)"
  unfolding weight_def by (intro card_mono) (simp_all add: desc_ids)

subsection \<open>Labellings\<close>

definition fair_at :: "mem_store \<Rightarrow> (blk \<Rightarrow> interval) \<Rightarrow> blk \<Rightarrow> bool" where
  "fair_at s f p \<longleftrightarrow> legal (f p) \<and> lo (f p) < hi (f p) \<and>
     (\<exists>a b. lo (f p) \<le> a \<and> tiling a (map f (kids s p)) b \<and> b < hi (f p))"

definition fair :: "mem_store \<Rightarrow> (blk \<Rightarrow> interval) \<Rightarrow> blk \<Rightarrow> bool" where
  "fair s f x \<longleftrightarrow> (\<forall>y. anc s x y \<longrightarrow> fair_at s f y)"

definition room :: "interval \<Rightarrow> nat" where
  "room i = hi i - lo i"

definition fits :: "mem_store \<Rightarrow> (blk \<Rightarrow> interval) \<Rightarrow> blk \<Rightarrow> bool" where
  "fits s f x \<longleftrightarrow> legal (f x) \<and> weight s x \<le> room (f x)"

lemma iv_ok_fair: "iv_ok s \<longleftrightarrow> (\<forall>p \<in> ids s. fair_at s (iv s) p)"
  by (simp add: iv_ok_def fair_at_def)

lemma fair_at_cong:
  "f p = g p \<Longrightarrow> (\<And>c. c \<in> set (kids s p) \<Longrightarrow> f c = g c) \<Longrightarrow> fair_at s f p \<longleftrightarrow> fair_at s g p"
  unfolding fair_at_def by (metis map_cong)

lemma fair_cong: "(\<And>y. anc s x y \<Longrightarrow> f y = g y) \<Longrightarrow> fair s f x \<longleftrightarrow> fair s g x"
  unfolding fair_def using fair_at_cong [of f _ g s] anc_step by metis

lemma fair_kids: "fair s f x \<longleftrightarrow> fair_at s f x \<and> (\<forall>c \<in> set (kids s x). fair s f c)"
  unfolding fair_def by (metis anc_cases anc_kid anc_refl anc_trans)

lemma fair_below: "fair s f x \<Longrightarrow> anc s x y \<Longrightarrow> fair s f y"
  unfolding fair_def using anc_trans by blast

lemma fair_atI:
  "legal (f p) \<Longrightarrow> lo (f p) < hi (f p) \<Longrightarrow> lo (f p) \<le> a \<Longrightarrow> tiling a (map f (kids s p)) b \<Longrightarrow> b < hi (f p)
   \<Longrightarrow> fair_at s f p"
  unfolding fair_at_def by blast

lemma fair_atE:
  assumes "fair_at s f p"
  obtains a b where "legal (f p)" "lo (f p) < hi (f p)" "lo (f p) \<le> a" "tiling a (map f (kids s p)) b" "b < hi (f p)"
  using assms unfolding fair_at_def by blast

lemma fair_at_with_ivs [simp]: "fair_at (with_ivs s f) g p \<longleftrightarrow> fair_at s g p"
  by (simp add: fair_at_def)

lemma iv_ok_with_ivs:
  assumes "tree_ok s r"
  shows "iv_ok (with_ivs s f) \<longleftrightarrow> (\<forall>p \<in> ids s. fair_at s f p)"
proof -
  have "fair_at s (iv (with_ivs s f)) p \<longleftrightarrow> fair_at s f p" if "p \<in> ids s" for p
    by (rule fair_at_cong) (use that kid_in_ids [OF assms] in auto)
  then show ?thesis by (simp add: iv_ok_fair)
qed

lemma anc_root: "tree_ok s r \<Longrightarrow> anc s r y \<longleftrightarrow> y \<in> ids s"
  using anc_ids unfolding tree_ok_def by blast

lemma fair_root: "tree_ok s r \<Longrightarrow> fair s f r \<longleftrightarrow> (\<forall>p \<in> ids s. fair_at s f p)"
  by (simp add: fair_def anc_root Ball_def)

lemma tiling_room: "tiling a (map f xs) b \<Longrightarrow> b = a + sum_list (map (\<lambda>x. room (f x)) xs)"
proof (induction xs arbitrary: a)
  case (Cons x xs)
  then have "b = hi (f x) + sum_list (map (\<lambda>x. room (f x)) xs)" by simp
  then show ?case using Cons.prems by (auto simp: room_def legal_def)
qed simp

text \<open>A well labelled subtree has room for its blocks.\<close>

lemma fair_fits:
  assumes ok: "tree_ok s r" and "fair s f x"
  shows "fits s f x"
  using assms
proof (induction x rule: tree_induct)
  case (node x)
  have kids: "weight s c \<le> room (f c)" if "c \<in> set (kids s x)" for c
    using node.IH [OF that] node.prems fair_kids [of s f x] that by (simp add: fits_def)
  have "fair_at s f x" using node.prems fair_kids [of s f x] by blast
  then obtain a b where ab: "legal (f x)" "lo (f x) \<le> a" "tiling a (map f (kids s x)) b" "b < hi (f x)"
    by (rule fair_atE)
  have "sum_list (map (weight s) (kids s x)) \<le> sum_list (map (\<lambda>c. room (f c)) (kids s x))"
    by (rule sum_list_mono) (rule kids)
  then have "weight s x \<le> room (f x)"
    using ab tiling_room [OF ab(3)] weight_kids [OF ok, of x] by (simp add: room_def)
  then show ?case using ab(1) by (simp add: fits_def)
qed

end
