(* ===== verification/ReachCount.thy ===== *)
theory ReachCount
  imports ReachLabel
begin

text \<open>
  \<open>count_subtrees\<close> ends, and afterwards the cache holds the weight of every block of the subtree.
  The loop is breadth first and sums up from the leaves; its invariant \<open>counting\<close> names the blocks that
  have been expanded (\<open>E\<close>) and those that have been counted at their parent (\<open>C\<close>).
\<close>

definition sized :: "mem_store \<Rightarrow> (blk \<rightharpoonup> u64) \<Rightarrow> bool" where
  "sized s m \<longleftrightarrow> (\<forall>x n. m x = Some n \<longrightarrow> unat n = weight s x \<and> (\<forall>y. anc s x y \<longrightarrow> m y \<noteq> None))"

lemma sizedD: "sized s m \<Longrightarrow> m x = Some n \<Longrightarrow> unat n = weight s x"
  "sized s m \<Longrightarrow> m x \<noteq> None \<Longrightarrow> anc s x y \<Longrightarrow> m y \<noteq> None"
  unfolding sized_def by blast+

lemma sized_put:
  assumes "sized s m" "unat n = weight s x" "\<And>c. c \<in> set (kids s x) \<Longrightarrow> m c \<noteq> None"
  shows "sized s (m(x \<mapsto> n))"
proof -
  have "(m(x \<mapsto> n)) z \<noteq> None" if "anc s y z" "(m(x \<mapsto> n)) y = Some k" for y k z
  proof (cases "z = x")
    case False
    have "m z \<noteq> None"
    proof (cases "y = x")
      case True
      from that(1) obtain c where "c \<in> set (kids s x)" "anc s c z"
        using False True by (auto elim: anc_cases)
      then show ?thesis using sizedD(2) [OF assms(1) assms(3)] by blast
    next
      case False
      then show ?thesis using that sizedD(2) [OF assms(1), of y z] by simp
    qed
    then show ?thesis using False by simp
  qed simp
  then show ?thesis using assms(1,2) unfolding sized_def by (metis fun_upd_apply option.inject)
qed

lemma sizes_of_eq:
  assumes "\<And>c. c \<in> set cs \<Longrightarrow> m c \<noteq> None"
  shows "sizes_of m cs = Some (map (the \<circ> m) cs)"
  using assms
proof (induction cs)
  case (Cons c cs)
  obtain n where "m c = Some n" using Cons.prems [of c] by auto
  then show ?case using Cons by simp
qed simp

lemma sizes_sum_weights:
  assumes "sized s m" "\<And>c. c \<in> set cs \<Longrightarrow> m c \<noteq> None"
  shows "sizes_sum (map (the \<circ> m) cs) = sum_list (map (weight s) cs)"
proof -
  have "map unat (map (the \<circ> m) cs) = map (weight s) cs"
    using assms(2) sizedD(1) [OF assms(1)] by fastforce
  then show ?thesis by (simp only: sizes_sum_def)
qed

text \<open>A context over the tree \<open>s\<close> labelled by \<open>f\<close>.\<close>

definition ctx_at :: "mem_store \<Rightarrow> (blk \<Rightarrow> interval) \<Rightarrow> reindex_ctx \<Rightarrow> bool" where
  "ctx_at s f c \<longleftrightarrow> rc_store c = with_ivs s f \<and> sized s (rc_subtree_sizes c)"

lemma cread_eq: "cread q c = Some (q (rc_store c), c)"
  by (simp add: cread_def)

lemma rbind_cread [simp]:
  "rbind (cread q) f c = (case q (rc_store c) of Inl e \<Rightarrow> Some (Inl e, c) | Inr x \<Rightarrow> f x c)"
  by (simp add: rbind_def cread_def)

lemma get_with_ivs [simp]:
  assumes "b \<in> ids s"
  shows "get_interval (with_ivs s f) b = Inr (f b)" "get_children (with_ivs s f) b = Inr (kids s b)"
    "get_parent (with_ivs s f) b = Inr (par s b)"
  using assms by simp_all

lemma get_height_with_ivs [simp]: "get_height (with_ivs s f) b = get_height s b"
  by (cases "ms_map s b") (simp_all add: get_height_def get_data_def with_ivs_def)

lemma rbind_set_size [simp]:
  "rbind (set_size b n) f c = f () (c\<lparr>rc_subtree_sizes := (rc_subtree_sizes c)(b \<mapsto> n)\<rparr>)"
  by (simp add: set_size_def rbind_def rwrite_def)

lemma rbind_sizes_of:
  "sizes_of (rc_subtree_sizes c) cs = Some ns \<Longrightarrow> rbind (subtree_sizes_of cs) f c = f ns c"
  by (simp add: subtree_sizes_of_def)

subsection \<open>Climbing\<close>

definition counting ::
    "mem_store \<Rightarrow> blk \<Rightarrow> blk set \<Rightarrow> blk set \<Rightarrow> (blk \<rightharpoonup> u64) \<Rightarrow> (blk \<rightharpoonup> u64) \<Rightarrow> blk \<Rightarrow> bool" where
  "counting s b E C counts m pend \<longleftrightarrow>
     sized s m \<and> b \<in> E \<and> E \<subseteq> desc s b \<and>
     (\<forall>y \<in> E. kids s y \<noteq> [] \<and> (y \<noteq> b \<longrightarrow> (\<exists>p \<in> E. y \<in> set (kids s p)))) \<and>
     (\<forall>y \<in> C. m y \<noteq> None \<and> (\<exists>p \<in> E. y \<in> set (kids s p))) \<and>
     (\<forall>y. y \<notin> E \<longrightarrow> counts y = None) \<and>
     (\<forall>y \<in> E. unat (count_of counts y) = card (set (kids s y) \<inter> C)) \<and>
     (\<forall>y \<in> E. m y \<noteq> None \<longleftrightarrow> set (kids s y) \<subseteq> C) \<and>
     (\<forall>y \<in> E. y \<noteq> b \<longrightarrow> set (kids s y) \<subseteq> C \<longrightarrow> y \<in> C \<or> y = pend)"

lemma countingD:
  assumes "counting s b E C counts m pend"
  shows "sized s m" "b \<in> E" "E \<subseteq> desc s b" "\<And>y. y \<in> E \<Longrightarrow> kids s y \<noteq> []"
    "\<And>y. y \<in> E \<Longrightarrow> y \<noteq> b \<Longrightarrow> \<exists>p \<in> E. y \<in> set (kids s p)"
    "\<And>y. y \<in> C \<Longrightarrow> m y \<noteq> None" "\<And>y. y \<in> C \<Longrightarrow> \<exists>p \<in> E. y \<in> set (kids s p)"
    "\<And>y. y \<notin> E \<Longrightarrow> counts y = None"
    "\<And>y. y \<in> E \<Longrightarrow> unat (count_of counts y) = card (set (kids s y) \<inter> C)"
    "\<And>y. y \<in> E \<Longrightarrow> m y \<noteq> None \<longleftrightarrow> set (kids s y) \<subseteq> C"
    "\<And>y. y \<in> E \<Longrightarrow> y \<noteq> b \<Longrightarrow> set (kids s y) \<subseteq> C \<Longrightarrow> y \<in> C \<or> y = pend"
  using assms unfolding counting_def by blast+

lemma countingI:
  assumes "sized s m" "b \<in> E" "E \<subseteq> desc s b" "\<And>y. y \<in> E \<Longrightarrow> kids s y \<noteq> []"
    "\<And>y. y \<in> E \<Longrightarrow> y \<noteq> b \<Longrightarrow> \<exists>p \<in> E. y \<in> set (kids s p)"
    "\<And>y. y \<in> C \<Longrightarrow> m y \<noteq> None" "\<And>y. y \<in> C \<Longrightarrow> \<exists>p \<in> E. y \<in> set (kids s p)"
    "\<And>y. y \<notin> E \<Longrightarrow> counts y = None"
    "\<And>y. y \<in> E \<Longrightarrow> unat (count_of counts y) = card (set (kids s y) \<inter> C)"
    "\<And>y. y \<in> E \<Longrightarrow> m y \<noteq> None \<longleftrightarrow> set (kids s y) \<subseteq> C"
    "\<And>y. y \<in> E \<Longrightarrow> y \<noteq> b \<Longrightarrow> set (kids s y) \<subseteq> C \<Longrightarrow> y \<in> C \<or> y = pend"
  shows "counting s b E C counts m pend"
  using assms unfolding counting_def by blast

text \<open>One step up: \<open>x\<close> is counted at its parent \<open>p\<close>.\<close>

lemma counting_step:
  assumes ok: "tree_ok s r" and inv: "counting s b E C counts m x"
    and x: "x \<in> set (kids s p)" "p \<in> E" "x \<notin> C" "m x \<noteq> None"
    and small: "length (kids s p) < 2 ^ 64"
  defines "counts' \<equiv> counts(p \<mapsto> count_of counts p + 1)"
  shows "unat (count_of counts p + 1) = card (set (kids s p) \<inter> insert x C)"
    and "m p = None"
    and "\<not> set (kids s p) \<subseteq> insert x C \<Longrightarrow> counting s b E (insert x C) counts' m b"
    and "set (kids s p) \<subseteq> insert x C \<Longrightarrow> unat n = weight s p \<Longrightarrow>
      counting s b E (insert x C) counts' (m(p \<mapsto> n)) p"
proof -
  note d = countingD [OF inv]
  have only: "y \<in> E \<Longrightarrow> x \<in> set (kids s y) \<longleftrightarrow> y = p" for y
    using kid_in_ids [OF ok x(1)] kid_in_ids [OF ok, of x y] x(1) by auto
  have "card (set (kids s p) \<inter> insert x C) = Suc (card (set (kids s p) \<inter> C))"
    using x by (simp add: Int_insert_right)
  moreover have "card (set (kids s p) \<inter> insert x C) \<le> length (kids s p)"
    by (rule order_trans [OF card_mono card_length]) auto
  ultimately show cnt: "unat (count_of counts p + 1) = card (set (kids s p) \<inter> insert x C)"
    using d(9) [OF x(2)] small unat_add_u64 [of "count_of counts p" 1] by simp
  show mp: "m p = None" using d(10) [OF x(2)] x(1,3) by blast
  have count': "unat (count_of counts' y) = card (set (kids s y) \<inter> insert x C)" if "y \<in> E" for y
    using cnt only [OF that] d(9) [OF that] by (cases "y = p") (simp_all add: counts'_def count_of_def)
  have sub: "set (kids s y) \<subseteq> insert x C \<longleftrightarrow> set (kids s y) \<subseteq> C" if "y \<in> E" "y \<noteq> p" for y
    using only [OF that(1)] that(2) by blast
  have none: "y \<notin> E \<Longrightarrow> counts' y = None" for y using d(8) x(2) by (auto simp: counts'_def)
  have counted: "\<exists>p \<in> E. y \<in> set (kids s p)" if "y \<in> insert x C" for y using d(7) x(1,2) that by auto
  show "counting s b E (insert x C) counts' m b" if "\<not> set (kids s p) \<subseteq> insert x C"
  proof (rule countingI)
    show "m y \<noteq> None \<longleftrightarrow> set (kids s y) \<subseteq> insert x C" if "y \<in> E" for y
      using d(10) [OF that] sub [OF that] mp \<open>\<not> set (kids s p) \<subseteq> insert x C\<close> by (cases "y = p") auto
    show "y \<in> insert x C \<or> y = b" if "y \<in> E" "y \<noteq> b" "set (kids s y) \<subseteq> insert x C" for y
      using d(11) [OF that(1,2)] sub [OF that(1)] that(3) \<open>\<not> set (kids s p) \<subseteq> insert x C\<close> by blast
    show "m y \<noteq> None" if "y \<in> insert x C" for y using d(6) x(4) that by auto
  qed (use d count' none counted in auto)
  assume all: "set (kids s p) \<subseteq> insert x C" and n: "unat n = weight s p"
  show "counting s b E (insert x C) counts' (m(p \<mapsto> n)) p"
  proof (rule countingI)
    show "sized s (m(p \<mapsto> n))"
      by (rule sized_put [OF d(1) n]) (use all d(6) x(4) in auto)
    show "(m(p \<mapsto> n)) y \<noteq> None \<longleftrightarrow> set (kids s y) \<subseteq> insert x C" if "y \<in> E" for y
      using d(10) [OF that] sub [OF that] all by (cases "y = p") auto
    show "y \<in> insert x C \<or> y = p" if "y \<in> E" "y \<noteq> b" "set (kids s y) \<subseteq> insert x C" for y
      using d(11) [OF that(1,2)] sub [OF that(1)] that(3) by blast
    show "(m(p \<mapsto> n)) y \<noteq> None" if "y \<in> insert x C" for y using d(6) x(4) that by auto
  qed (use d count' none counted in auto)
qed

lemma set_full_iff: "distinct xs \<Longrightarrow> set xs \<subseteq> C \<longleftrightarrow> card (set xs \<inter> C) = length xs"
  by (metis card_subset_eq distinct_card finite_set inf.absorb_iff2 inf_commute inf_le1)

lemma length_kids:
  assumes "tree_ok s r" "x \<in> ids s"
  shows "length (kids s x) < card (ids s)"
proof -
  have "sum_list (map (\<lambda>_. 1) (kids s x)) \<le> sum_list (map (weight s) (kids s x))"
    by (rule sum_list_mono) (simp add: Suc_le_eq weight_pos)
  then show ?thesis using weight_kids [OF assms(1), of x] weight_le [OF assms] by (simp add: sum_list_triv)
qed

lemma count_up_ok:
  assumes ok: "tree_ok s r" and small: "card (ids s) < 2 ^ 32" and b: "b \<in> ids s" and "anc s b x"
    and "counting s b E C counts m x" "x \<notin> C" "m x \<noteq> None" "x \<noteq> b \<longrightarrow> (\<exists>p \<in> E. x \<in> set (kids s p))"
    and st: "rc_store c = with_ivs s f"
  shows "\<exists>counts' m' C'. count_up b x counts (c\<lparr>rc_subtree_sizes := m\<rparr>) = Some (Inr counts', c\<lparr>rc_subtree_sizes := m'\<rparr>)
    \<and> counting s b E C' counts' m' b \<and> C \<subseteq> C' \<and> (x \<noteq> b \<longrightarrow> x \<in> C') \<and> C' \<subseteq> insert x (C \<union> E)"
  using assms(4-8)
proof (induction arbitrary: C counts m rule: anc_induct)
  case root
  then have "count_up b b counts (c\<lparr>rc_subtree_sizes := m\<rparr>) = Some (Inr counts, c\<lparr>rc_subtree_sizes := m\<rparr>)
    \<and> counting s b E C counts m b \<and> C \<subseteq> C \<and> (b \<noteq> b \<longrightarrow> b \<in> C) \<and> C \<subseteq> insert b (C \<union> E)"
    by (intro conjI impI) (simp add: count_up.simps [of b b], simp_all add: subset_insertI2)
  then show ?case by (intro exI)
next
  case (kid p x)
  have x: "x \<noteq> b" using kid_not_above [OF ok kid(2)] kid(1) by blast
  then have p: "p \<in> E" using kid.prems(4) kid_in_ids [OF ok] kid(2) by blast
  have ids: "x \<in> ids s" "p \<in> ids s" "par s x = p" using kid_in_ids [OF ok kid(2)] by auto
  have len: "length (kids s p) < 2 ^ 64" using length_kids [OF ok ids(2)] small by simp
  note step = counting_step [OF ok kid.prems(1) kid(2) p kid.prems(2,3) len]
  define counts' where "counts' = counts(p \<mapsto> count_of counts p + 1)"
  have test: "count_of counts p + 1 < word_of_nat (length (kids s p)) \<longleftrightarrow> \<not> set (kids s p) \<subseteq> insert x C"
  proof -
    have "card (set (kids s p) \<inter> insert x C) \<le> length (kids s p)"
      by (rule order_trans [OF card_mono card_length]) auto
    then show ?thesis
      using step(1) len set_full_iff [OF distinct_kids [OF ok], of p "insert x C"]
      by (auto simp: word_less_nat_alt)
  qed
  show ?case
  proof (cases "set (kids s p) \<subseteq> insert x C")
    case False
    then have "count_up b x counts (c\<lparr>rc_subtree_sizes := m\<rparr>) = Some (Inr counts', c\<lparr>rc_subtree_sizes := m\<rparr>)"
      using x test ids st by (subst count_up.simps) (simp add: counts'_def)
    then have "count_up b x counts (c\<lparr>rc_subtree_sizes := m\<rparr>) = Some (Inr counts', c\<lparr>rc_subtree_sizes := m\<rparr>)
      \<and> counting s b E (insert x C) counts' m b \<and> C \<subseteq> insert x C \<and> (x \<noteq> b \<longrightarrow> x \<in> insert x C)
      \<and> insert x C \<subseteq> insert x (C \<union> E)"
      using step(3) [OF False, folded counts'_def] by (intro conjI impI; (assumption | blast))
    then show ?thesis by (intro exI)
  next
    case True
    note d = countingD [OF kid.prems(1)]
    have all: "m y \<noteq> None" if "y \<in> set (kids s p)" for y using True that d(6) kid.prems(3) by blast
    define n where "n = sum_list (map (the \<circ> m) (kids s p)) + 1"
    have sum: "sizes_sum (map (the \<circ> m) (kids s p)) + 1 = weight s p"
      using sizes_sum_weights [OF d(1), of "kids s p"] all weight_kids [OF ok, of p] by simp
    have "weight s p < 2 ^ 32" using weight_le [OF ok ids(2)] small by simp
    then have n: "unat n = weight s p"
      using sum unat_add_u64 [of "sum_list (map (the \<circ> m) (kids s p))" 1] by (simp add: n_def unat_sum_list)
    have run: "count_up b x counts (c\<lparr>rc_subtree_sizes := m\<rparr>)
        = count_up b p counts' (c\<lparr>rc_subtree_sizes := m(p \<mapsto> n)\<rparr>)"
      using x test True ids st sizes_of_eq [OF all]
      by (subst count_up.simps) (simp add: counts'_def rbind_sizes_of n_def)
    have pC: "p \<notin> C" using d(6) step(2) by blast
    have up: "p \<noteq> b \<longrightarrow> (\<exists>q \<in> E. p \<in> set (kids s q))" using d(5) p by blast
    have px: "p \<noteq> x" using kid_not_above [OF ok kid(2)] by auto
    have "(m(p \<mapsto> n)) p \<noteq> None" "p \<notin> insert x C" using pC px by auto
    from kid.IH [OF step(4) [OF True n] this(2,1) up] obtain counts2 m2 C2 where
      2: "count_up b p counts' (c\<lparr>rc_subtree_sizes := m(p \<mapsto> n)\<rparr>) = Some (Inr counts2, c\<lparr>rc_subtree_sizes := m2\<rparr>)"
        "counting s b E C2 counts2 m2 b" "insert x C \<subseteq> C2" "C2 \<subseteq> insert p (insert x C \<union> E)"
      unfolding counts'_def [symmetric] by (elim exE conjE) (rule that; assumption)
    then have "count_up b p counts' (c\<lparr>rc_subtree_sizes := m(p \<mapsto> n)\<rparr>) = Some (Inr counts2, c\<lparr>rc_subtree_sizes := m2\<rparr>)
      \<and> counting s b E C2 counts2 m2 b \<and> C \<subseteq> C2 \<and> (x \<noteq> b \<longrightarrow> x \<in> C2) \<and> C2 \<subseteq> insert x (C \<union> E)"
      using p by (intro conjI impI; (assumption | blast))
    then show ?thesis unfolding run by (intro exI)
  qed
qed

subsection \<open>The loop\<close>

definition frontier :: "mem_store \<Rightarrow> blk \<Rightarrow> blk list \<Rightarrow> blk set \<Rightarrow> blk set \<Rightarrow> bool" where
  "frontier s b Q E C \<longleftrightarrow> distinct Q \<and> set Q \<inter> E = {} \<and> set Q \<inter> C = {} \<and>
     (\<forall>x \<in> set Q. \<exists>p \<in> E. x \<in> set (kids s p)) \<and> (\<forall>p \<in> E. set (kids s p) \<subseteq> set Q \<union> E \<union> C)"

lemma counting_done:
  assumes ok: "tree_ok s r" and inv: "counting s b E C counts m b" and "frontier s b [] E C"
  shows "m b \<noteq> None"
proof -
  note d = countingD [OF inv]
  have "y \<in> E \<longrightarrow> m y \<noteq> None" for y
    using ok
  proof (induction y rule: tree_induct)
    case (node y)
    show ?case
    proof
      assume y: "y \<in> E"
      have "c \<in> C" if "c \<in> set (kids s y)" for c
      proof (rule ccontr)
        assume "c \<notin> C"
        then have "c \<in> E" using assms(3) y that by (auto simp: frontier_def)
        moreover have "c \<noteq> b"
          using kid_not_above [OF ok that] d(3) y by (auto simp: desc_def)
        ultimately show False
          using node.IH [OF that] d(10,11) \<open>c \<notin> C\<close> by blast
      qed
      then show "m y \<noteq> None" using d(10) [OF y] by blast
    qed
  qed
  then show ?thesis using d(2) by blast
qed

text \<open>Expanding a block whose size is not known.\<close>

lemma counting_expand:
  assumes ok: "tree_ok s r" and inv: "counting s b E C counts m b" and fr: "frontier s b (x # Q) E C"
    and x: "kids s x \<noteq> []" "m x = None"
  shows "counting s b (insert x E) C counts m b" "frontier s b (Q @ kids s x) (insert x E) C"
proof -
  note d = countingD [OF inv]
  have xE: "x \<notin> E" "x \<notin> C" "x \<notin> set Q" and up: "\<exists>p \<in> E. x \<in> set (kids s p)"
    using fr by (auto simp: frontier_def)
  then have xb: "anc s b x" using d(3) by (auto simp: desc_def intro: anc_step)
  have fresh: "c \<notin> E \<and> c \<notin> C \<and> c \<notin> set Q \<and> c \<noteq> x" if "c \<in> set (kids s x)" for c
  proof -
    have "p = x" if "c \<in> set (kids s p)" for p
      using kid_in_ids [OF ok that] kid_in_ids [OF ok \<open>c \<in> set (kids s x)\<close>] by simp
    then have only: "\<not> (\<exists>p \<in> E. c \<in> set (kids s p))" using xE by blast
    moreover have "c \<noteq> b" "c \<noteq> x" using kid_not_above [OF ok that] xb by auto
    ultimately show ?thesis using d(5,7) fr unfolding frontier_def by (metis list.set_intros(2))
  qed
  have open_kid: "\<not> set (kids s x) \<subseteq> C"
    using fresh [of "hd (kids s x)"] hd_in_set [OF x(1)] by blast
  show "counting s b (insert x E) C counts m b"
  proof (rule countingI)
    show "unat (count_of counts y) = card (set (kids s y) \<inter> C)" if "y \<in> insert x E" for y
    proof (cases "y = x")
      case True
      then have "set (kids s y) \<inter> C = {}" using fresh by blast
      then show ?thesis using d(8) [OF xE(1)] True by (simp add: count_of_def)
    qed (use d(9) that in auto)
    show "m y \<noteq> None \<longleftrightarrow> set (kids s y) \<subseteq> C" if "y \<in> insert x E" for y
      using that d(10) x open_kid by (cases "y = x") auto
    show "y \<in> C \<or> y = b" if "y \<in> insert x E" "y \<noteq> b" "set (kids s y) \<subseteq> C" for y
      using that d(11) open_kid by (cases "y = x") auto
  qed (use d x up xb in \<open>auto simp: desc_def\<close>)
  show "frontier s b (Q @ kids s x) (insert x E) C"
    using fr fresh distinct_kids [OF ok, of x] unfolding frontier_def by auto
qed

text \<open>A block whose size is known, or a leaf, is counted at its parent.\<close>

lemma counting_pend:
  assumes inv: "counting s b E C counts m b" and m': "sized s (m(x \<mapsto> n))" "x \<notin> E"
  shows "counting s b E C counts (m(x \<mapsto> n)) x"
proof (rule countingI)
  note d = countingD [OF inv]
  show "(m(x \<mapsto> n)) y \<noteq> None" if "y \<in> C" for y using d(6) [OF that] by simp
  show "(m(x \<mapsto> n)) y \<noteq> None \<longleftrightarrow> set (kids s y) \<subseteq> C" if "y \<in> E" for y
    using d(10) [OF that] m'(2) that by (cases "y = x") simp_all
  show "y \<in> C \<or> y = x" if "y \<in> E" "y \<noteq> b" "set (kids s y) \<subseteq> C" for y
    using d(11) [OF that] that(2) by blast
qed (use m' countingD [OF inv] in blast)+

lemma count_loop_ok:
  assumes ok: "tree_ok s r" and small: "card (ids s) < 2 ^ 32" and b: "b \<in> ids s"
    and "counting s b E C counts m b" "frontier s b Q E C" and st: "rc_store c = with_ivs s f"
  shows "\<exists>m'. count_loop b Q counts (c\<lparr>rc_subtree_sizes := m\<rparr>) = Some (Inr (), c\<lparr>rc_subtree_sizes := m'\<rparr>)
    \<and> sized s m' \<and> m' b \<noteq> None"
  using assms(4,5)
proof (induction "card (desc s b - (E \<union> C))" arbitrary: E C counts m Q rule: less_induct)
  case less
  note d = countingD [OF less.prems(1)]
  show ?case
  proof (cases Q)
    case Nil
    then have "m b \<noteq> None" using counting_done [OF ok less.prems(1)] less.prems(2) by simp
    then show ?thesis using Nil d(1)
      by (intro exI [of _ m]) (simp add: count_loop.simps [of b "[]"])
  next
    case (Cons x rest)
    have x: "x \<notin> E" "x \<notin> C" and up: "\<exists>p \<in> E. x \<in> set (kids s p)"
      using less.prems(2) Cons by (auto simp: frontier_def)
    then have xb: "anc s b x" using d(3) by (auto simp: desc_def intro: anc_step)
    then have ids: "x \<in> ids s" using anc_ids [OF ok] b by blast
    have smaller: "card (desc s b - (E' \<union> C')) < card (desc s b - (E \<union> C))"
      if "E \<subseteq> E'" "C \<subseteq> C'" "x \<in> E' \<union> C'" for E' C'
      by (rule psubset_card_mono) (use that x xb in \<open>auto simp: desc_def\<close>)
    show ?thesis
    proof (cases "kids s x \<noteq> [] \<and> m x = None")
      case True
      then have "count_loop b Q counts (c\<lparr>rc_subtree_sizes := m\<rparr>)
          = count_loop b (rest @ kids s x) counts (c\<lparr>rc_subtree_sizes := m\<rparr>)"
        using Cons ids st by (subst count_loop.simps) simp
      moreover note counting_expand [OF ok less.prems(1) less.prems(2) [unfolded Cons]] True
      ultimately show ?thesis
        using less.hyps [OF smaller [of "insert x E" C]] by fastforce
    next
      case False
      define m1 where "m1 = (if kids s x = [] then m(x \<mapsto> 1) else m)"
      have inv1: "counting s b E C counts m1 x"
      proof (cases "kids s x = []")
        case True
        then have "weight s x = 1" using weight_kids [OF ok, of x] by simp
        then have "sized s (m(x \<mapsto> 1))" using True by (intro sized_put [OF d(1)]) simp_all
        then show ?thesis using counting_pend [OF less.prems(1) _ x(1)] True by (simp add: m1_def)
      next
        case False
        then show ?thesis using less.prems(1) unfolding m1_def counting_def by auto
      qed
      have m1x: "m1 x \<noteq> None" using False by (auto simp: m1_def)
      have xnb: "x \<noteq> b" using x d(2) by blast
      from count_up_ok [OF ok small b xb inv1 x(2) m1x _ st] up obtain counts' m' C' where
        up': "count_up b x counts (c\<lparr>rc_subtree_sizes := m1\<rparr>) = Some (Inr counts', c\<lparr>rc_subtree_sizes := m'\<rparr>)"
        and inv': "counting s b E C' counts' m' b" and C': "C \<subseteq> C'" "x \<in> C'" "C' \<subseteq> insert x (C \<union> E)"
        using xnb by blast
      have "count_loop b Q counts (c\<lparr>rc_subtree_sizes := m\<rparr>)
          = rbind (count_up b x counts) (\<lambda>counts. count_loop b rest counts) (c\<lparr>rc_subtree_sizes := m1\<rparr>)"
        using Cons ids st False by (subst count_loop.simps) (cases "kids s x = []"; auto simp: m1_def)
      also have "\<dots> = count_loop b rest counts' (c\<lparr>rc_subtree_sizes := m'\<rparr>)"
        by (rule rbind_Some(1) [where m = "count_up b x counts"]) (rule up')
      finally have run: "count_loop b Q counts (c\<lparr>rc_subtree_sizes := m\<rparr>)
          = count_loop b rest counts' (c\<lparr>rc_subtree_sizes := m'\<rparr>)" .
      have "frontier s b rest E C'"
      proof -
        have "set (kids s p) \<subseteq> set rest \<union> E \<union> C'" if "p \<in> E" for p
          using less.prems(2) that C'(1,2) unfolding Cons frontier_def by fastforce
        then show ?thesis using less.prems(2) C'(3) unfolding Cons frontier_def by auto
      qed
      then show ?thesis unfolding run
        using less.hyps [OF smaller [of E C'] inv'] C' by blast
    qed
  qed
qed

lemma count_subtrees_ok:
  assumes ok: "tree_ok s r" and small: "card (ids s) < 2 ^ 32" and b: "b \<in> ids s" and at: "ctx_at s f c"
  shows "\<exists>m'. count_subtrees b c = Some (Inr (), c\<lparr>rc_subtree_sizes := m'\<rparr>) \<and> sized s m' \<and> m' b \<noteq> None"
proof -
  define m where "m = rc_subtree_sizes c"
  have st: "rc_store c = with_ivs s f" "sized s m" "c\<lparr>rc_subtree_sizes := m\<rparr> = c"
    using at by (simp_all add: ctx_at_def m_def)
  consider "m b \<noteq> None" | "m b = None" "kids s b = []" | "m b = None" "kids s b \<noteq> []" by blast
  then show ?thesis
  proof cases
    case 1
    then show ?thesis using st
      by (intro exI [of _ m]) (simp add: count_subtrees_def m_def [symmetric])
  next
    case 2
    then have "weight s b = 1" using weight_kids [OF ok, of b] by simp
    then have "sized s (m(b \<mapsto> 1))" using 2 by (intro sized_put [OF st(2)]) simp_all
    moreover have "rbind (count_up b b (\<lambda>_. None)) (count_loop b []) c' = Some (Inr (), c')" for c'
      by (subst rbind_Some(1) [where m = "count_up b b (\<lambda>_. None)"])
        (simp_all add: count_up.simps [of b b] count_loop.simps [of b "[]"])
    then have "count_subtrees b c = Some (Inr (), c\<lparr>rc_subtree_sizes := m(b \<mapsto> 1)\<rparr>)"
      using 2 b st by (simp add: count_subtrees_def m_def [symmetric] count_loop.simps [of b "[b]"])
    ultimately show ?thesis by fastforce
  next
    case 3
    have "counting s b {b} {} (\<lambda>_. None) m b"
      by (rule countingI) (use st 3 in \<open>auto simp: count_of_def\<close>)
    moreover have "frontier s b (kids s b) {b} {}"
      using distinct_kids [OF ok, of b] kid_not_above [OF ok, of b b] by (auto simp: frontier_def)
    moreover have "count_subtrees b c = count_loop b (kids s b) (\<lambda>_. None) c"
      using 3 b st by (simp add: count_subtrees_def m_def [symmetric] count_loop.simps [of b "[b]"])
    ultimately show ?thesis
      using count_loop_ok [OF ok small b _ _ st(1), of "{b}" "{}" "\<lambda>_. None" m "kids s b"] st(3) by simp
  qed
qed

end
