(* ===== verification/ReachPropagate.thy ===== *)
theory ReachPropagate
  imports ReachCount
begin

text \<open>
  \<open>propagate_interval\<close> ends and labels the subtree of a block well, whenever the interval of the block
  has room for it; nothing outside of the subtree changes.  \<open>runs s m c P\<close> is total correctness of a
  computation on a context over the tree \<open>s\<close>: it returns, with a labelling that satisfies \<open>P\<close>.
\<close>

subsection \<open>Total correctness over a tree\<close>

definition runs ::
    "mem_store \<Rightarrow> (reindex_ctx, 'a) rm \<Rightarrow> reindex_ctx \<Rightarrow> ('a \<Rightarrow> (blk \<Rightarrow> interval) \<Rightarrow> bool) \<Rightarrow> bool" where
  "runs s m c P \<longleftrightarrow>
     (\<exists>x c' f'. m c = Some (Inr x, c') \<and> ctx_at s f' c' \<and> rc_slack c' = rc_slack c \<and> P x f')"

lemma runsI:
  "m c = Some (Inr x, c') \<Longrightarrow> ctx_at s f' c' \<Longrightarrow> rc_slack c' = rc_slack c \<Longrightarrow> P x f' \<Longrightarrow> runs s m c P"
  unfolding runs_def by blast

lemma runsE:
  assumes "runs s m c P"
  obtains x c' f' where "m c = Some (Inr x, c')" "ctx_at s f' c'" "rc_slack c' = rc_slack c" "P x f'"
  using assms unfolding runs_def by blast

lemma runs_rret: "ctx_at s f c \<Longrightarrow> P x f \<Longrightarrow> runs s (rret x) c P"
  by (rule runsI) simp_all

lemma runs_rbind:
  assumes "runs s m c Q"
    and "\<And>x f' c'. ctx_at s f' c' \<Longrightarrow> rc_slack c' = rc_slack c \<Longrightarrow> Q x f' \<Longrightarrow> runs s (k x) c' P"
  shows "runs s (rbind m k) c P"
proof -
  from assms(1) obtain x c1 f1 where 1: "m c = Some (Inr x, c1)" "ctx_at s f1 c1" "rc_slack c1 = rc_slack c" "Q x f1"
    by (rule runsE)
  from assms(2) [OF 1(2-4)] obtain y c2 f2 where
    2: "k x c1 = Some (Inr y, c2)" "ctx_at s f2 c2" "rc_slack c2 = rc_slack c1" "P y f2" by (rule runsE)
  have "rbind m k c = Some (Inr y, c2)"
    using rbind_Some(1) [where m = m and s = c and f = k, OF 1(1)] 2(1) by simp
  then show ?thesis using 1(3) 2(2-4) by (intro runsI [where c' = c2 and f' = f2 and x = y]) simp_all
qed

lemma runs_conseq: "runs s m c Q \<Longrightarrow> (\<And>x f. Q x f \<Longrightarrow> P x f) \<Longrightarrow> runs s m c P"
  unfolding runs_def by blast

text \<open>A read of the store, and a write of an interval, inside a run.\<close>

lemma runs_cread:
  "q (rc_store c) = Inr x \<Longrightarrow> runs s (k x) c P \<Longrightarrow> runs s (rbind (cread q) k) c P"
  by (simp add: runs_def)

lemma runs_rread:
  "q c = Inr x \<Longrightarrow> runs s (k x) c P \<Longrightarrow> runs s (rbind (rread q) k) c P"
  by (simp add: runs_def)

lemma cwrite_interval:
  assumes "rc_store c = with_ivs s f" "b \<in> ids s"
  shows "cwrite (set_interval b i) c = Some (Inr (), c\<lparr>rc_store := with_ivs s (f(b := i))\<rparr>)"
  using assms by (simp add: cwrite_def rwrite_def set_interval_with_ivs)

lemma ctx_at_put:
  "ctx_at s f c \<Longrightarrow> ctx_at s g (c\<lparr>rc_store := with_ivs s g\<rparr>)"
  by (simp add: ctx_at_def)

lemma runs_set_interval:
  assumes "ctx_at s f c" "b \<in> ids s" "P () (f(b := i))"
  shows "runs s (cwrite (set_interval b i)) c P"
  using assms cwrite_interval [of c s f b i] ctx_at_put [OF assms(1), of "f(b := i)"]
  by (intro runsI [where f' = "f(b := i)" and c' = "c\<lparr>rc_store := with_ivs s (f(b := i))\<rparr>"])
    (simp_all add: ctx_at_def)

text \<open>A context over one labelling is one over any labelling that agrees with it on the blocks.\<close>

lemma ctx_at_cong: "(\<And>b. b \<in> ids s \<Longrightarrow> f b = g b) \<Longrightarrow> ctx_at s f c \<longleftrightarrow> ctx_at s g c"
  using with_ivs_cong [of s f g] by (simp add: ctx_at_def)

definition off :: "blk set \<Rightarrow> (blk \<Rightarrow> interval) \<Rightarrow> (blk \<Rightarrow> interval) \<Rightarrow> bool" where
  "off X f g \<longleftrightarrow> (\<forall>y. y \<notin> X \<longrightarrow> g y = f y)"

lemma offD: "off X f g \<Longrightarrow> y \<notin> X \<Longrightarrow> g y = f y"
  by (simp add: off_def)

lemma off_refl [simp]: "off X f f"
  by (simp add: off_def)

lemma off_trans: "off X f g \<Longrightarrow> off Y g h \<Longrightarrow> X \<union> Y \<subseteq> Z \<Longrightarrow> off Z f h"
  unfolding off_def by (metis UnCI in_mono)

lemma off_mono: "off X f g \<Longrightarrow> X \<subseteq> Y \<Longrightarrow> off Y f g"
  unfolding off_def by blast

lemma off_upd: "off X f g \<Longrightarrow> insert b X \<subseteq> Y \<Longrightarrow> off Y f (g(b := i))"
  unfolding off_def by auto

subsection \<open>Setting the intervals of the children\<close>

fun relabel :: "(blk \<Rightarrow> interval) \<Rightarrow> blk list \<Rightarrow> interval list \<Rightarrow> blk \<Rightarrow> interval" where
  "relabel f (b # bs) (i # ivs) = relabel (f(b := i)) bs ivs"
| "relabel f _ _ = f"

lemma relabel_off: "y \<notin> set bs \<Longrightarrow> relabel f bs ivs y = f y"
  by (induction f bs ivs rule: relabel.induct) auto

lemma relabel_nth:
  "distinct bs \<Longrightarrow> length ivs = length bs \<Longrightarrow> map (relabel f bs ivs) bs = ivs"
proof (induction f bs ivs rule: relabel.induct)
  case (1 f b bs i ivs)
  then have "map (relabel (f(b := i)) bs ivs) bs = ivs" "relabel (f(b := i)) bs ivs b = i"
    using relabel_off [of b bs "f(b := i)" ivs] by (simp_all del: fun_upd_apply add: fun_upd_same)
  then show ?case by (simp del: fun_upd_apply)
qed auto

lemma set_intervals_eq:
  assumes "rc_store c = with_ivs s f" "set bs \<subseteq> ids s" "length ivs = length bs"
  shows "set_intervals bs ivs c = Some (Inr (), c\<lparr>rc_store := with_ivs s (relabel f bs ivs)\<rparr>)"
  using assms
proof (induction f bs ivs arbitrary: c rule: relabel.induct)
  case (1 f b bs i ivs)
  define c1 where "c1 = c\<lparr>rc_store := with_ivs s (f(b := i))\<rparr>"
  have c1: "cwrite (set_interval b i) c = Some (Inr (), c1)"
    using cwrite_interval [of c s f b i] 1(2,3) by (simp add: c1_def)
  have "set_intervals (b # bs) (i # ivs) c = set_intervals bs ivs c1"
    using rbind_Some(1) [where m = "cwrite (set_interval b i)", OF c1] by (simp add: set_intervals_def)
  also have "\<dots> = Some (Inr (), c1\<lparr>rc_store := with_ivs s (relabel (f(b := i)) bs ivs)\<rparr>)"
    using 1(1) [of c1] 1(3,4) by (simp add: c1_def del: fun_upd_apply)
  finally show ?case by (simp add: c1_def del: fun_upd_apply)
qed (simp_all add: set_intervals_def)

subsection \<open>Propagation\<close>

definition below :: "mem_store \<Rightarrow> blk \<Rightarrow> blk set" where
  "below s x = desc s x - {x}"

definition apart :: "mem_store \<Rightarrow> blk list \<Rightarrow> bool" where
  "apart s Q \<longleftrightarrow> distinct Q \<and> (\<forall>x \<in> set Q. \<forall>y \<in> set Q. anc s x y \<longrightarrow> x = y)"

lemma apart_kids:
  assumes ok: "tree_ok s r" and "apart s (x # rest)"
  shows "apart s (rest @ kids s x)"
proof -
  have kk: "c = c'" if "c \<in> set (kids s x)" "c' \<in> set (kids s x)" "anc s c c'" for c c'
    using anc_parent [OF ok that(2,3)] kid_not_above [OF ok that(1)] by blast
  have up: "\<not> anc s c y \<and> \<not> anc s y c" if "c \<in> set (kids s x)" "y \<in> set rest" for c y
  proof -
    have "\<not> anc s x y" "\<not> anc s y x" using assms(2) that(2) by (auto simp: apart_def)
    then show ?thesis using anc_kid [OF that(1)] anc_parent [OF ok that(1)] anc_trans by blast
  qed
  then have "set rest \<inter> set (kids s x) = {}" using anc_refl [of s] by blast
  then show ?thesis
    using assms(2) distinct_kids [OF ok, of x] kk up unfolding apart_def by auto
qed

lemma below_kids: "tree_ok s r \<Longrightarrow> below s x = (\<Union>c \<in> set (kids s x). desc s c)"
  unfolding below_def using desc_kids [of s x] not_desc_kid [of s r _ x] by auto

lemma in_below: "y \<in> below s x \<longleftrightarrow> anc s x y \<and> x \<noteq> y"
  by (auto simp: below_def desc_def)

lemma children_capacity_with_ivs [simp]:
  "b \<in> ids s \<Longrightarrow> interval_children_capacity (with_ivs s f) b = Inr (decrease_end (f b) 1)"
  by (simp add: interval_children_capacity_def)

text \<open>Splitting the capacity of a block that fits among its children.\<close>

lemma split_among_kids:
  assumes ok: "tree_ok s r" and m: "sized s m" "m x \<noteq> None" and fit: "fits s f x" and k: "kids s x \<noteq> []"
  obtains ns ivs where "sizes_of m (kids s x) = Some ns"
    "split_exponential fo (decrease_end (f x) 1) ns = Some ivs" "length ivs = length (kids s x)"
    "fair_at s (relabel f (kids s x) ivs) x" "\<And>c. c \<in> set (kids s x) \<Longrightarrow> fits s (relabel f (kids s x) ivs) c"
proof -
  have all: "m c \<noteq> None" if "c \<in> set (kids s x)" for c using sizedD(2) [OF m anc_kid [OF that]] .
  define ns where "ns = map (the \<circ> m) (kids s x)"
  have ns: "sizes_of m (kids s x) = Some ns" using sizes_of_eq [OF all] by (simp add: ns_def)
  have unat_ns: "map unat ns = map (weight s) (kids s x)"
    unfolding ns_def using sizedD(1) [OF m(1)] all by fastforce
  then have sum: "Suc (sizes_sum ns) = weight s x" using weight_kids [OF ok, of x] by (simp add: sizes_sum_def)
  have legal: "legal (f x)" "weight s x \<le> hi (f x) - lo (f x)" using fit by (auto simp: fits_def room_def)
  then have lt: "lo (f x) < hi (f x)" using sum by linarith
  note i = decrease_end_one [OF legal(1) lt]
  obtain c0 where "c0 \<in> set (kids s x)" using k hd_in_set by blast
  then have "0 < sizes_sum ns"
    using weight_pos [of s c0] unat_ns member_le_sum_list [of "weight s c0" "map (weight s) (kids s x)"]
    by (auto simp: sizes_sum_def)
  moreover have "sizes_sum ns \<le> hi (decrease_end (f x) 1) - lo (decrease_end (f x) 1)"
    using sum legal(2) i by linarith
  ultimately obtain ivs where ivs: "split_exponential fo (decrease_end (f x) 1) ns = Some ivs"
    "splits (decrease_end (f x) 1) ivs" "length ivs = length ns"
    "list_all2 (\<lambda>n j. unat n \<le> hi j - lo j) ns ivs"
    using split_exponential_splits [OF i(1)] by blast
  have len: "length ivs = length (kids s x)" using ivs(3) by (simp add: ns_def)
  define g where "g = relabel f (kids s x) ivs"
  have g: "map g (kids s x) = ivs" "g x = f x"
    using relabel_nth [OF distinct_kids [OF ok] len] relabel_off [of x "kids s x"] kid_not_above [OF ok, of x x]
    by (auto simp: g_def)
  have tile: "tiling (lo (f x)) (map g (kids s x)) (hi (f x) - 1)"
    using ivs(2) i g(1) by (simp add: splits_def)
  have "fair_at s g x"
    by (rule fair_atI [OF _ _ _ tile]) (use legal lt g in simp_all)
  moreover have "fits s g c" if "c \<in> set (kids s x)" for c
  proof -
    from that obtain j where j: "j < length (kids s x)" "kids s x ! j = c" unfolding in_set_conv_nth by blast
    have gc: "g c = ivs ! j" using g(1) j by (metis nth_map)
    have "legal (g c)" using tiling_in [OF tile, of "g c"] that by simp
    moreover have "weight s c = unat (ns ! j)" using unat_ns j by (metis length_map nth_map)
    moreover have "unat (ns ! j) \<le> hi (ivs ! j) - lo (ivs ! j)"
      using ivs(4) j(1) by (simp add: list_all2_conv_all_nth ns_def)
    ultimately show ?thesis by (simp add: fits_def room_def gc)
  qed
  ultimately show thesis using that [OF ns ivs(1) len] by (simp add: g_def)
qed

lemma propagate_loop_run:
  assumes ok: "tree_ok s r" and "ctx_at s f c" and "set Q \<subseteq> ids s" "apart s Q"
    and "\<forall>x \<in> set Q. fits s f x \<and> rc_subtree_sizes c x \<noteq> None"
  shows "runs s (propagate_loop fo Q) c
    (\<lambda>_ g. (\<forall>x \<in> set Q. fair s g x) \<and> off (\<Union>x \<in> set Q. below s x) f g)"
  using assms(2-)
proof (induction "sum_list (map (weight s) Q)" arbitrary: Q f c rule: less_induct)
  case less
  show ?case
  proof (cases Q)
    case Nil
    then have "propagate_loop fo Q c = Some (Inr (), c)" by (simp add: propagate_loop.simps [of fo "[]"])
    then show ?thesis using less.prems(1) Nil by (intro runsI [where f' = f]) simp_all
  next
    case (Cons x rest)
    have st: "rc_store c = with_ivs s f" "sized s (rc_subtree_sizes c)"
      using less.prems(1) by (simp_all add: ctx_at_def)
    have x: "x \<in> ids s" "fits s f x" "rc_subtree_sizes c x \<noteq> None" using less.prems Cons by auto
    have kid: "set (kids s x) \<subseteq> ids s" using kid_in_ids [OF ok] by blast
    have ap: "apart s (rest @ kids s x)" using apart_kids [OF ok less.prems(3) [unfolded Cons]] .
    have rest: "\<not> anc s x y \<and> \<not> anc s y x" if "y \<in> set rest" for y
      using less.prems(3) that unfolding Cons apart_def by auto
    show ?thesis
    proof (cases "kids s x = []")
      case True
      have run: "propagate_loop fo Q c = propagate_loop fo rest c"
        using Cons True x st by (subst propagate_loop.simps) simp
      have leaf: "fair s g x" if "off (\<Union>x \<in> set rest. below s x) f g" for g
      proof -
        have "g x = f x" using offD [OF that, of x] rest by (auto simp: in_below)
        moreover have "legal (f x)" "lo (f x) < hi (f x)"
          using x(2) weight_pos [of s x] by (auto simp: fits_def room_def)
        ultimately show ?thesis using True by (auto simp: fair_kids [of s g x] fair_at_def)
      qed
      have "runs s (propagate_loop fo rest) c
          (\<lambda>_ g. (\<forall>x \<in> set rest. fair s g x) \<and> off (\<Union>x \<in> set rest. below s x) f g)"
        by (rule less.hyps) (use less.prems Cons weight_pos [of s x] in \<open>auto simp: apart_def\<close>)
      with run have "runs s (propagate_loop fo Q) c (\<lambda>_ g. (\<forall>x \<in> set rest. fair s g x)
          \<and> off (\<Union>x \<in> set rest. below s x) f g)" by (simp add: runs_def)
      then show ?thesis
      proof (rule runs_conseq)
        fix u g assume g: "(\<forall>x \<in> set rest. fair s g x) \<and> off (\<Union>x \<in> set rest. below s x) f g"
        have "off (\<Union>x \<in> set Q. below s x) f g" by (rule off_mono [OF g [THEN conjunct2]]) (auto simp: Cons)
        then show "(\<forall>x \<in> set Q. fair s g x) \<and> off (\<Union>x \<in> set Q. below s x) f g"
          using g leaf [of g] by (auto simp: Cons)
      qed
    next
      case False
      from split_among_kids [OF ok st(2) x(3,2) False, of fo] obtain ns ivs where
        ns: "sizes_of (rc_subtree_sizes c) (kids s x) = Some ns"
        and ivs: "split_exponential fo (decrease_end (f x) 1) ns = Some ivs" "length ivs = length (kids s x)"
        and at: "fair_at s (relabel f (kids s x) ivs) x"
        and fit: "\<And>c. c \<in> set (kids s x) \<Longrightarrow> fits s (relabel f (kids s x) ivs) c" by blast
      define g where "g = relabel f (kids s x) ivs"
      define c' where "c' = c\<lparr>rc_store := with_ivs s g\<rparr>"
      have set: "set_intervals (kids s x) ivs c = Some (Inr (), c')"
        using set_intervals_eq [OF st(1) kid ivs(2)] by (simp add: c'_def g_def)
      have run: "propagate_loop fo Q c = propagate_loop fo (rest @ kids s x) c'"
        using Cons False x st ivs
        by (subst propagate_loop.simps)
          (simp add: rbind_sizes_of [OF ns] rbind_Some(1) [where m = "set_intervals (kids s x) ivs", OF set])
      have g: "g y = f y" if "y \<notin> set (kids s x)" for y using relabel_off that by (simp add: g_def)
      have inner: "runs s (propagate_loop fo (rest @ kids s x)) c'
          (\<lambda>_ h. (\<forall>y \<in> set (rest @ kids s x). fair s h y) \<and> off (\<Union>y \<in> set (rest @ kids s x). below s y) g h)"
      proof (rule less.hyps)
        show "sum_list (map (weight s) (rest @ kids s x)) < sum_list (map (weight s) Q)"
          using weight_kids [OF ok, of x] by (simp add: Cons)
        show "ctx_at s g c'" using less.prems(1) by (simp add: c'_def ctx_at_put)
        show "set (rest @ kids s x) \<subseteq> ids s" using less.prems(2) kid by (auto simp: Cons)
        show "\<forall>y \<in> set (rest @ kids s x). fits s g y \<and> rc_subtree_sizes c' y \<noteq> None"
        proof (intro ballI)
          fix y assume y: "y \<in> set (rest @ kids s x)"
          show "fits s g y \<and> rc_subtree_sizes c' y \<noteq> None"
          proof (cases "y \<in> set (kids s x)")
            case True
            then show ?thesis using fit sizedD(2) [OF st(2) x(3) anc_kid] by (simp add: g_def c'_def)
          next
            case False
            then have "g y = f y" "y \<in> set rest" using g y by simp_all
            then show ?thesis using less.prems(4) by (simp add: fits_def Cons c'_def)
          qed
        qed
      qed (rule ap)
      have slack: "rc_slack c' = rc_slack c" by (simp add: c'_def)
      have "runs s (propagate_loop fo Q) c
          (\<lambda>_ h. (\<forall>y \<in> set (rest @ kids s x). fair s h y) \<and> off (\<Union>y \<in> set (rest @ kids s x). below s y) g h)"
        using inner run slack by (simp add: runs_def)
      then show ?thesis
      proof (rule runs_conseq)
        fix u h
        assume h: "(\<forall>y \<in> set (rest @ kids s x). fair s h y) \<and> off (\<Union>y \<in> set (rest @ kids s x). below s y) g h"
        have out: "h y = g y" if "\<And>z. z \<in> set (rest @ kids s x) \<Longrightarrow> y \<notin> below s z" for y
          using h that unfolding off_def by blast
        have "h x = g x"
          by (rule out) (use rest kid_not_above [OF ok] in \<open>auto simp: in_below\<close>)
        moreover have "h c = g c" if "c \<in> set (kids s x)" for c
        proof (rule out)
          fix z assume "z \<in> set (rest @ kids s x)"
          then show "c \<notin> below s z" using ap that by (auto simp: in_below apart_def)
        qed
        ultimately have "fair_at s h x" using at fair_at_cong [of h x g s] by (simp add: g_def)
        then have "fair s h x" using h fair_kids [of s h x] by auto
        moreover have "off (\<Union>x \<in> set Q. below s x) f h"
          unfolding off_def
        proof (intro allI impI)
          fix y assume y: "y \<notin> (\<Union>x \<in> set Q. below s x)"
          then have nx: "y \<notin> below s x" by (simp add: Cons)
          have "y \<notin> below s z" if "z \<in> set (rest @ kids s x)" for z
            using y nx that anc_trans [OF anc_kid] kid_not_above [OF ok] by (auto simp: Cons in_below)
          moreover have "y \<notin> set (kids s x)" using nx anc_kid kid_not_above [OF ok, of y x] by (auto simp: in_below)
          ultimately show "h y = f y" using out g by simp
        qed
        ultimately show "(\<forall>x \<in> set Q. fair s h x) \<and> off (\<Union>x \<in> set Q. below s x) f h"
          using h by (simp add: Cons)
      qed
    qed
  qed
qed

lemma apart_single [simp]: "apart s [x]"
  by (simp add: apart_def)

lemma propagate_interval_run:
  assumes ok: "tree_ok s r" and small: "card (ids s) < 2 ^ 32" and "ctx_at s f c" "b \<in> ids s" "fits s f b"
  shows "runs s (propagate_interval fo b) c (\<lambda>_ g. fair s g b \<and> off (below s b) f g)"
proof -
  from count_subtrees_ok [OF ok small assms(4,3)] obtain m where
    m: "count_subtrees b c = Some (Inr (), c\<lparr>rc_subtree_sizes := m\<rparr>)" "sized s m" "m b \<noteq> None" by blast
  define c' where "c' = c\<lparr>rc_subtree_sizes := m\<rparr>"
  have "ctx_at s f c'" using assms(3) m(2) by (simp add: ctx_at_def c'_def)
  then have "runs s (propagate_loop fo [b]) c' (\<lambda>_ g. (\<forall>x \<in> set [b]. fair s g x) \<and> off (\<Union>x \<in> set [b]. below s x) f g)"
    by (rule propagate_loop_run [OF ok]) (use assms m in \<open>simp_all add: c'_def\<close>)
  moreover have "propagate_interval fo b c = propagate_loop fo [b] c'"
    using rbind_Some(1) [where m = "count_subtrees b", OF m(1)] by (simp add: propagate_interval_def c'_def)
  moreover have "rc_slack c' = rc_slack c" by (simp add: c'_def)
  ultimately show ?thesis by (simp add: runs_def)
qed

text \<open>A block is given a new interval with enough room, and its subtree is relabelled.\<close>

lemma apply_op_run:
  assumes "ctx_at s f c" "b \<in> ids s" "P () (f(b := op (f b) d))"
  shows "runs s (apply_interval_op b d op) c P"
  unfolding apply_interval_op_def
  using runs_set_interval [where P = P, OF assms(1,2), of "op (f b) d"] assms
  by (intro runs_cread [where x = "f b"]) (simp_all add: ctx_at_def)

lemma apply_op_propagate_run:
  assumes ok: "tree_ok s r" and small: "card (ids s) < 2 ^ 32" and at: "ctx_at s f c" and b: "b \<in> ids s"
    and new: "legal (op (f b) d)" "weight s b \<le> room (op (f b) d)"
  shows "runs s (apply_interval_op_and_propagate fo b d op) c
    (\<lambda>_ g. fair s g b \<and> g b = op (f b) d \<and> off (desc s b) f g)"
  unfolding apply_interval_op_and_propagate_def
proof (rule runs_cread)
  show "get_interval (rc_store c) b = Inr (f b)" using at b by (simp add: ctx_at_def)
  show "runs s (rbind (cwrite (set_interval b (op (f b) d))) (\<lambda>_. propagate_interval fo b)) c
      (\<lambda>_ g. fair s g b \<and> g b = op (f b) d \<and> off (desc s b) f g)"
  proof (rule runs_rbind)
    show "runs s (cwrite (set_interval b (op (f b) d))) c (\<lambda>_ g. g = f(b := op (f b) d))"
      by (rule runs_set_interval [OF at b]) simp
  next
    fix u :: unit and g c'
    assume g: "ctx_at s g c'" "g = f(b := op (f b) d)"
    then have "fits s g b" using new by (simp add: fits_def)
    then have "runs s (propagate_interval fo b) c' (\<lambda>_ h. fair s h b \<and> off (below s b) g h)"
      by (rule propagate_interval_run [OF ok small g(1) b])
    then show "runs s (propagate_interval fo b) c' (\<lambda>_ h. fair s h b \<and> h b = op (f b) d \<and> off (desc s b) f h)"
    proof (rule runs_conseq)
      fix v h assume h: "fair s h b \<and> off (below s b) g h"
      then have "h b = g b" by (simp add: off_def below_def)
      moreover have "off (desc s b) f h"
        using h g(2) unfolding off_def below_def by auto
      ultimately show "fair s h b \<and> h b = op (f b) d \<and> off (desc s b) f h" using h g(2) by simp
    qed
  qed
qed

end
