(* ===== verification/ReachShift.thy ===== *)
theory ReachShift
  imports ReachPropagate
begin

text \<open>
  Moving intervals.  To make room for a block, a chosen sibling is shrunk on one side, the siblings in
  between are shifted, and the interval of the block grows.  The two directions have one contract,
  the locale \<open>reclaim_moves\<close>, which both are shown to keep.
\<close>

subsection \<open>The operations on a legal interval\<close>

lemma increase_spec:
  assumes "legal i" "hi i + unat d < 2 ^ 64"
  shows "legal (increase i d)" "lo (increase i d) = lo i + unat d" "hi (increase i d) = hi i + unat d"
proof -
  have "unat (iv_start i + d) = unat (iv_start i) + unat d" "unat (iv_end i + d) = unat (iv_end i) + unat d"
    using assms by (auto intro!: unat_add_u64 simp: legal_def lo_def hi_def)
  then show "legal (increase i d)" "lo (increase i d) = lo i + unat d" "hi (increase i d) = hi i + unat d"
    using assms by (auto simp: increase_def legal_def lo_def hi_def)
qed

lemma decrease_spec:
  assumes "legal i" "unat d < lo i"
  shows "legal (decrease i d)" "lo (decrease i d) = lo i - unat d" "hi (decrease i d) = hi i - unat d"
proof -
  have "unat (iv_start i - d) = unat (iv_start i) - unat d" "unat (iv_end i - d) = unat (iv_end i) - unat d"
    using assms by (auto intro!: unat_sub_u64 simp: legal_def lo_def hi_def)
  then show "legal (decrease i d)" "lo (decrease i d) = lo i - unat d" "hi (decrease i d) = hi i - unat d"
    using assms by (auto simp: decrease_def legal_def lo_def hi_def)
qed

lemma increase_start_spec:
  assumes "legal i" "unat d \<le> room i"
  shows "legal (increase_start i d)" "lo (increase_start i d) = lo i + unat d" "hi (increase_start i d) = hi i"
proof -
  have "unat (iv_start i + d) = unat (iv_start i) + unat d"
    using assms by (auto intro!: unat_add_u64 simp: legal_def lo_def hi_def room_def)
  then show "legal (increase_start i d)" "lo (increase_start i d) = lo i + unat d" "hi (increase_start i d) = hi i"
    using assms by (auto simp: increase_start_def legal_def lo_def hi_def room_def)
qed

lemma decrease_end_spec:
  assumes "legal i" "unat d \<le> room i"
  shows "legal (decrease_end i d)" "lo (decrease_end i d) = lo i" "hi (decrease_end i d) = hi i - unat d"
proof -
  have "unat (iv_end i - d) = unat (iv_end i) - unat d" "unat d \<le> unat (iv_end i)"
    using assms by (auto intro!: unat_sub_u64 simp: legal_def lo_def hi_def room_def)
  then show "legal (decrease_end i d)" "lo (decrease_end i d) = lo i" "hi (decrease_end i d) = hi i - unat d"
    using assms by (auto simp: decrease_end_def legal_def lo_def hi_def room_def)
qed

lemma increase_end_spec:
  assumes "legal i" "hi i + unat d < 2 ^ 64"
  shows "legal (increase_end i d)" "lo (increase_end i d) = lo i" "hi (increase_end i d) = hi i + unat d"
proof -
  have "unat (iv_end i + d) = unat (iv_end i) + unat d"
    using assms by (auto intro!: unat_add_u64 simp: legal_def lo_def hi_def)
  then show "legal (increase_end i d)" "lo (increase_end i d) = lo i" "hi (increase_end i d) = hi i + unat d"
    using assms by (auto simp: increase_end_def legal_def lo_def hi_def)
qed

lemma decrease_start_spec:
  assumes "legal i" "unat d < lo i"
  shows "legal (decrease_start i d)" "lo (decrease_start i d) = lo i - unat d" "hi (decrease_start i d) = hi i"
proof -
  have "unat (iv_start i - d) = unat (iv_start i) - unat d"
    using assms by (auto intro!: unat_sub_u64 simp: legal_def lo_def hi_def)
  then show "legal (decrease_start i d)" "lo (decrease_start i d) = lo i - unat d" "hi (decrease_start i d) = hi i"
    using assms by (auto simp: decrease_start_def legal_def lo_def hi_def)
qed

subsection \<open>Shifting a run of adjacent intervals\<close>

lemma tiling_increase:
  assumes "tiling a (map f xs) b" "b + unat d < 2 ^ 64" "\<And>y. y \<in> set xs \<Longrightarrow> g y = increase (f y) d"
  shows "tiling (a + unat d) (map g xs) (b + unat d)"
  using assms
proof (induction xs arbitrary: a)
  case (Cons x xs)
  have "hi (f x) \<le> b" using Cons.prems(1) tiling_le by auto
  then show ?case using Cons increase_spec [of "f x" d] by auto
qed simp

lemma tiling_decrease:
  assumes "tiling a (map f xs) b" "unat d < a" "\<And>y. y \<in> set xs \<Longrightarrow> g y = decrease (f y) d"
  shows "tiling (a - unat d) (map g xs) (b - unat d)"
  using assms
proof (induction xs arbitrary: a)
  case (Cons x xs)
  have "lo (f x) \<le> hi (f x)" using Cons.prems(1) by (auto simp: legal_def)
  then show ?case using Cons decrease_spec [of "f x" d] by auto
qed simp

lemma tiling_cong: "(\<And>y. y \<in> set xs \<Longrightarrow> g y = f y) \<Longrightarrow> tiling a (map g xs) b \<longleftrightarrow> tiling a (map f xs) b"
  by (metis (mono_tags, lifting) map_cong)

lemma tiling_split:
  assumes "tiling a (map f (xs @ x # ys)) b"
  shows "tiling a (map f xs) (lo (f x))" "legal (f x)" "tiling (hi (f x)) (map f ys) b"
  using assms by (auto simp: tiling_append)

lemma takeWhile_upto: "z \<notin> set xs \<Longrightarrow> takeWhile (\<lambda>y. y \<noteq> z) (xs @ z # ys) = xs"
  by (induction xs) auto

subsection \<open>The contract of the two directions\<close>

text \<open>
  \<open>gap i a b\<close> is what an interval \<open>i\<close> leaves free on the side in question, when its children reach from \<open>a\<close>
  to \<open>b\<close>.  \<open>sibs\<close> lists the siblings on that side, the nearest first.
\<close>

locale reclaim_moves =
  fixes shrink shift_by grow_by :: "interval \<Rightarrow> u64 \<Rightarrow> interval"
    and sibs :: "blk list \<times> blk list \<Rightarrow> blk list"
    and remaining :: "mem_store \<Rightarrow> blk \<Rightarrow> reach_error + interval"
    and gap :: "interval \<Rightarrow> nat \<Rightarrow> nat \<Rightarrow> nat"
  assumes sibs_set: "set (sibs (xs, ys)) \<subseteq> set xs \<union> set ys"
    and sibs_distinct: "distinct (xs @ ys) \<Longrightarrow> distinct (sibs (xs, ys))"
    and remaining_gap: "\<lbrakk>p \<in> ids s; set (kids s p) \<subseteq> ids s; kids s p \<noteq> []; legal (f p);
        lo (f p) \<le> a; tiling a (map f (kids s p)) b; b < hi (f p)\<rbrakk> \<Longrightarrow>
      \<exists>i. remaining (with_ivs s f) p = Inr i \<and> unat (iv_size i) = gap (f p) a b"
    and gap_room: "\<lbrakk>legal i; lo i \<le> a; a \<le> b; b < hi i\<rbrakk> \<Longrightarrow> gap i a b + (b - a) < room i"
    and shrink_room: "\<lbrakk>legal i; unat d \<le> room i\<rbrakk> \<Longrightarrow> legal (shrink i d) \<and> room (shrink i d) = room i - unat d"
    and shrink_gap: "\<lbrakk>legal i; lo i \<le> a; a \<le> b; b < hi i; unat d \<le> gap i a b\<rbrakk> \<Longrightarrow>
      lo (shrink i d) \<le> a \<and> b < hi (shrink i d)"
    and moved_legal: "\<lbrakk>tiling a (map f (xs @ x # ys)) b; unat d \<le> room (f x); y \<in> set (sibs (xs, ys))\<rbrakk> \<Longrightarrow>
      legal (shift_by (f y) d) \<and> room (shift_by (f y) d) = room (f y)
      \<and> legal (grow_by (f y) d) \<and> room (grow_by (f y) d) = room (f y) + unat d"
    and shift_all: "\<lbrakk>tiling a (map f (xs @ x # ys)) b; unat d \<le> room (f x); distinct (xs @ x # ys);
        g x = shrink (f x) d; \<And>y. y \<in> set (sibs (xs, ys)) \<Longrightarrow> g y = shift_by (f y) d;
        \<And>y. y \<in> set xs \<union> set ys \<Longrightarrow> y \<notin> set (sibs (xs, ys)) \<Longrightarrow> g y = f y;
        legal i; lo i \<le> a; b < hi i\<rbrakk> \<Longrightarrow>
      \<exists>a' b'. tiling a' (map g (xs @ x # ys)) b' \<and> lo i \<le> a' \<and> b' < hi i \<and> gap i a' b' = gap i a b + unat d"
    and shift_upto: "\<lbrakk>tiling a (map f (xs @ x # ys)) b; unat d \<le> room (f x); distinct (xs @ x # ys);
        z \<in> set (sibs (xs, ys)); g x = shrink (f x) d; g z = grow_by (f z) d;
        \<And>y. y \<in> set (takeWhile (\<lambda>y. y \<noteq> z) (sibs (xs, ys))) \<Longrightarrow> g y = shift_by (f y) d;
        \<And>y. y \<in> set xs \<union> set ys \<Longrightarrow> y \<noteq> z \<Longrightarrow> y \<notin> set (takeWhile (\<lambda>y. y \<noteq> z) (sibs (xs, ys))) \<Longrightarrow> g y = f y\<rbrakk> \<Longrightarrow>
      tiling a (map g (xs @ x # ys)) b"
begin

lemma sibs_other: "x \<notin> set xs \<union> set ys \<Longrightarrow> x \<notin> set (sibs (xs, ys))"
  using sibs_set by blast

end

lemma remaining_before_gap:
  assumes p: "p \<in> ids s" "set (kids s p) \<subseteq> ids s" "kids s p \<noteq> []"
    and f: "legal (f p)" "lo (f p) \<le> a" "tiling a (map f (kids s p)) b" "b < hi (f p)"
  shows "\<exists>i. interval_remaining_before (with_ivs s f) p = Inr i \<and> unat (iv_size i) = a - lo (f p)"
proof -
  obtain k ks where k: "kids s p = k # ks" using p(3) by (cases "kids s p") auto
  have fk: "lo (f k) = a" "legal (f k)" "a \<le> b" using f(3) tiling_le [OF f(3)] by (auto simp: k)
  have lt: "lo (f p) < hi (f p)" using f(2,4) fk(3) by linarith
  define i where "i = iv_new (iv_start (decrease_end (f p) 1)) (iv_start (f k) - 1)"
  have "unat (iv_start (f k) - 1) = a - 1" using fk by (simp add: unat_pred_u64 legal_def lo_def)
  then have "hi i = a" "lo i = lo (f p)"
    using fk decrease_end_one [OF f(1) lt] by (auto simp: i_def hi_def lo_def legal_def)
  moreover have "legal i" using calculation f(1,2) fk by (auto simp: legal_def)
  ultimately have "unat (iv_size i) = a - lo (f p)" using unat_iv_size [of i] by simp
  moreover have "interval_remaining_before (with_ivs s f) p = Inr i"
    using p k by (simp add: interval_remaining_before_def i_def)
  ultimately show ?thesis by blast
qed

lemma remaining_after_gap:
  assumes p: "p \<in> ids s" "set (kids s p) \<subseteq> ids s" "kids s p \<noteq> []"
    and f: "legal (f p)" "lo (f p) \<le> a" "tiling a (map f (kids s p)) b" "b < hi (f p)"
  shows "\<exists>i. interval_remaining_after (with_ivs s f) p = Inr i \<and> unat (iv_size i) = hi (f p) - 1 - b"
proof -
  obtain ks k where k: "kids s p = ks @ [k]" using p(3) by (cases "kids s p" rule: rev_cases) auto
  have fk: "hi (f k) = b" "legal (f k)" "a \<le> b" using f(3) tiling_le [OF f(3)] by (auto simp: k tiling_append)
  have lt: "lo (f p) < hi (f p)" using f(2,4) fk(3) by linarith
  note cap = decrease_end_one [OF f(1) lt]
  define i where "i = iv_new (iv_end (f k) + 1) (iv_end (decrease_end (f p) 1))"
  have "lo i = b" "hi i = hi (f p) - 1"
    using unat_end_Suc [OF fk(2)] fk cap by (auto simp: i_def hi_def lo_def)
  moreover have "legal i" using calculation f fk cap by (auto simp: legal_def)
  ultimately have "unat (iv_size i) = hi (f p) - 1 - b" using unat_iv_size [of i] by simp
  moreover have "interval_remaining_after (with_ivs s f) p = Inr i"
    using p k by (simp add: interval_remaining_after_def i_def)
  ultimately show ?thesis by blast
qed

subsection \<open>Before the chosen child\<close>

lemma before_legal:
  assumes t: "tiling a (map f (xs @ x # ys)) b" and d: "unat d \<le> room (f x)" and y: "y \<in> set xs"
  shows "legal (f y)" "hi (f y) + unat d < 2 ^ 64"
proof -
  note s = tiling_split [OF t]
  have "legal (f y)" "hi (f y) \<le> lo (f x)" using tiling_in [OF s(1), of "f y"] y by auto
  then show "legal (f y)" "hi (f y) + unat d < 2 ^ 64" using s(2) d by (auto simp: legal_def room_def)
qed

lemma before_shift:
  assumes t: "tiling a (map f (xs @ x # ys)) b" and d: "unat d \<le> room (f x)"
    and xs: "xs = us @ vs" and g: "g x = increase_start (f x) d"
    and vs: "\<And>y. y \<in> set vs \<Longrightarrow> g y = increase (f y) d" and ys: "\<And>y. y \<in> set ys \<Longrightarrow> g y = f y"
  obtains m where "tiling a (map f us) m" "tiling (m + unat d) (map g (vs @ x # ys)) b"
proof -
  note s = tiling_split [OF t]
  from s(1) obtain m where m: "tiling a (map f us) m" "tiling m (map f vs) (lo (f x))"
    by (auto simp: xs tiling_append)
  have "lo (f x) + unat d < 2 ^ 64" using s(2) d by (auto simp: legal_def room_def)
  then have "tiling (m + unat d) (map g vs) (lo (f x) + unat d)" using tiling_increase [OF m(2)] vs by blast
  moreover have "tiling (hi (f x)) (map g ys) b" using s(3) tiling_cong [of ys g f] ys by blast
  ultimately have "tiling (m + unat d) (map g (vs @ x # ys)) b"
    using increase_start_spec [OF s(2) d] g by (auto simp: tiling_append)
  then show thesis using that m(1) by blast
qed

interpretation moves_before: reclaim_moves increase_start increase increase_end "\<lambda>p. rev (fst p)"
  interval_remaining_before "\<lambda>i a b. a - lo i"
proof unfold_locales
  fix p s f a b
  assume "p \<in> ids s" "set (kids s p) \<subseteq> ids s" "kids s p \<noteq> []" "legal (f p)" "lo (f p) \<le> a"
    "tiling a (map f (kids s p)) b" "b < hi (f p)"
  then show "\<exists>i. interval_remaining_before (with_ivs s f) p = Inr i \<and> unat (iv_size i) = a - lo (f p)"
    by (rule remaining_before_gap)
next
  fix i and d :: u64 assume "legal i" "unat d \<le> room i"
  then show "legal (increase_start i d) \<and> room (increase_start i d) = room i - unat d"
    using increase_start_spec [of i d] by (simp add: room_def)
next
  fix i a b and d :: u64
  assume "legal i" "lo i \<le> a" "a \<le> b" "b < hi i" "unat d \<le> a - lo i"
  then show "lo (increase_start i d) \<le> a \<and> b < hi (increase_start i d)"
    using increase_start_spec [of i d] by (simp add: room_def)
next
  fix a f xs x ys b and d :: u64 and y
  assume t: "tiling a (map f (xs @ x # ys)) b" "unat d \<le> room (f x)" and y: "y \<in> set (rev (fst (xs, ys)))"
  note l = before_legal [OF t, of y]
  show "legal (increase (f y) d) \<and> room (increase (f y) d) = room (f y)
      \<and> legal (increase_end (f y) d) \<and> room (increase_end (f y) d) = room (f y) + unat d"
    using increase_spec [of "f y" d] increase_end_spec [of "f y" d] l y by (auto simp: room_def legal_def)
next
  fix a f xs x ys b and d :: u64 and g i
  assume t: "tiling a (map f (xs @ x # ys)) b" "unat d \<le> room (f x)" and g: "g x = increase_start (f x) d"
    "\<And>y. y \<in> set (rev (fst (xs, ys))) \<Longrightarrow> g y = increase (f y) d"
    and same: "\<And>y. y \<in> set xs \<union> set ys \<Longrightarrow> y \<notin> set (rev (fst (xs, ys))) \<Longrightarrow> g y = f y"
    and dist: "distinct (xs @ x # ys)" and i: "lo i \<le> a" "b < hi i"
  have ys: "g y = f y" if "y \<in> set ys" for y using same [of y] that dist by auto
  obtain m where "tiling a (map f []) m" "tiling (m + unat d) (map g (xs @ x # ys)) b"
    by (rule before_shift [OF t, of "[]" xs g]) (use g ys in auto)
  then show "\<exists>a' b'. tiling a' (map g (xs @ x # ys)) b' \<and> lo i \<le> a' \<and> b' < hi i \<and> a' - lo i = a - lo i + unat d"
    using i by (intro exI [of _ "a + unat d"] exI [of _ b]) auto
next
  fix a f xs x ys b and d :: u64 and z g
  assume t: "tiling a (map f (xs @ x # ys)) b" "unat d \<le> room (f x)" and g: "g x = increase_start (f x) d"
    "g z = increase_end (f z) d"
    "\<And>y. y \<in> set (takeWhile (\<lambda>y. y \<noteq> z) (rev (fst (xs, ys)))) \<Longrightarrow> g y = increase (f y) d"
    and same: "\<And>y. y \<in> set xs \<union> set ys \<Longrightarrow> y \<noteq> z \<Longrightarrow>
      y \<notin> set (takeWhile (\<lambda>y. y \<noteq> z) (rev (fst (xs, ys)))) \<Longrightarrow> g y = f y"
    and dist: "distinct (xs @ x # ys)" and z: "z \<in> set (rev (fst (xs, ys)))"
  from z obtain us vs where xs: "xs = us @ z # vs" "z \<notin> set vs"
    using split_list_last [of z xs] by auto
  have tw: "takeWhile (\<lambda>y. y \<noteq> z) (rev (fst (xs, ys))) = rev vs" using xs takeWhile_upto [of z "rev vs"] by simp
  have old: "g y = f y" if "y \<in> set us \<union> set ys" for y
    using same [of y, unfolded tw] that dist unfolding xs(1) by auto
  obtain m where m: "tiling a (map f (us @ [z])) m" "tiling (m + unat d) (map g (vs @ x # ys)) b"
    by (rule before_shift [OF t, of "us @ [z]" vs g]) (use g old xs tw in auto)
  then have zm: "legal (f z)" "hi (f z) = m" "tiling a (map f us) (lo (f z))" by (auto simp: tiling_append)
  have "z \<in> set xs" using xs by simp
  note z' = increase_end_spec [OF zm(1) before_legal(2) [OF t this]]
  have "tiling a (map g us) (lo (f z))" using zm(3) tiling_cong [of us g f] old by blast
  then show "tiling a (map g (xs @ x # ys)) b"
    using m(2) z' zm g(2) unfolding xs(1) by (auto simp: tiling_append)
qed (auto simp: room_def)

subsection \<open>After the chosen child\<close>

lemma after_legal:
  assumes t: "tiling a (map f (xs @ x # ys)) b" and d: "unat d \<le> room (f x)" and y: "y \<in> set ys"
  shows "legal (f y)" "unat d < lo (f y)"
proof -
  note s = tiling_split [OF t]
  have "legal (f y)" "hi (f x) \<le> lo (f y)" using tiling_in [OF s(3), of "f y"] y by auto
  then show "legal (f y)" "unat d < lo (f y)" using s(2) d by (auto simp: legal_def room_def)
qed

lemma after_shift:
  assumes t: "tiling a (map f (xs @ x # ys)) b" and d: "unat d \<le> room (f x)"
    and ys: "ys = us @ vs" and g: "g x = decrease_end (f x) d"
    and us: "\<And>y. y \<in> set us \<Longrightarrow> g y = decrease (f y) d" and xs: "\<And>y. y \<in> set xs \<Longrightarrow> g y = f y"
  obtains m where "tiling a (map g (xs @ x # us)) (m - unat d)" "tiling m (map f vs) b" "unat d < m"
proof -
  note s = tiling_split [OF t]
  from s(3) obtain m where m: "tiling (hi (f x)) (map f us) m" "tiling m (map f vs) b"
    by (auto simp: ys tiling_append)
  have lt: "unat d < hi (f x)" using s(2) d by (auto simp: legal_def room_def)
  have "tiling (hi (f x) - unat d) (map g us) (m - unat d)" using tiling_decrease [OF m(1) lt] us by blast
  moreover have "tiling a (map g xs) (lo (f x))" using s(1) tiling_cong [of xs g f] xs by blast
  ultimately have "tiling a (map g (xs @ x # us)) (m - unat d)"
    using decrease_end_spec [OF s(2) d] g by (auto simp: tiling_append)
  moreover have "unat d < m" using lt tiling_le [OF m(1)] by linarith
  ultimately show thesis using that m(2) by blast
qed

interpretation moves_after: reclaim_moves decrease_end decrease decrease_start snd
  interval_remaining_after "\<lambda>i a b. hi i - 1 - b"
proof unfold_locales
  fix p s f a b
  assume "p \<in> ids s" "set (kids s p) \<subseteq> ids s" "kids s p \<noteq> []" "legal (f p)" "lo (f p) \<le> a"
    "tiling a (map f (kids s p)) b" "b < hi (f p)"
  then show "\<exists>i. interval_remaining_after (with_ivs s f) p = Inr i \<and> unat (iv_size i) = hi (f p) - 1 - b"
    by (rule remaining_after_gap)
next
  fix i and d :: u64 assume "legal i" "unat d \<le> room i"
  then show "legal (decrease_end i d) \<and> room (decrease_end i d) = room i - unat d"
    using decrease_end_spec [of i d] by (simp add: room_def)
next
  fix i a b and d :: u64
  assume "legal i" "lo i \<le> a" "a \<le> b" "b < hi i" "unat d \<le> hi i - 1 - b"
  then show "lo (decrease_end i d) \<le> a \<and> b < hi (decrease_end i d)"
    using decrease_end_spec [of i d] by (simp add: room_def)
next
  fix a f xs x ys b and d :: u64 and y
  assume t: "tiling a (map f (xs @ x # ys)) b" "unat d \<le> room (f x)" and y: "y \<in> set (snd (xs, ys))"
  note l = after_legal [OF t, of y]
  show "legal (decrease (f y) d) \<and> room (decrease (f y) d) = room (f y)
      \<and> legal (decrease_start (f y) d) \<and> room (decrease_start (f y) d) = room (f y) + unat d"
    using decrease_spec [of "f y" d] decrease_start_spec [of "f y" d] l y by (auto simp: room_def legal_def)
next
  fix a f xs x ys b and d :: u64 and g i
  assume t: "tiling a (map f (xs @ x # ys)) b" "unat d \<le> room (f x)" and g: "g x = decrease_end (f x) d"
    "\<And>y. y \<in> set (snd (xs, ys)) \<Longrightarrow> g y = decrease (f y) d"
    and same: "\<And>y. y \<in> set xs \<union> set ys \<Longrightarrow> y \<notin> set (snd (xs, ys)) \<Longrightarrow> g y = f y"
    and dist: "distinct (xs @ x # ys)" and i: "lo i \<le> a" "b < hi i"
  have xs: "g y = f y" if "y \<in> set xs" for y using same [of y] that dist by auto
  obtain m where "tiling a (map g (xs @ x # ys)) (m - unat d)" "tiling m (map f []) b" "unat d < m"
    by (rule after_shift [OF t, of ys "[]" g]) (use g xs in auto)
  then show "\<exists>a' b'. tiling a' (map g (xs @ x # ys)) b' \<and> lo i \<le> a' \<and> b' < hi i
      \<and> hi i - 1 - b' = hi i - 1 - b + unat d"
    using i by (intro exI [of _ a] exI [of _ "b - unat d"]) auto
next
  fix a f xs x ys b and d :: u64 and z g
  assume t: "tiling a (map f (xs @ x # ys)) b" "unat d \<le> room (f x)" and g: "g x = decrease_end (f x) d"
    "g z = decrease_start (f z) d"
    "\<And>y. y \<in> set (takeWhile (\<lambda>y. y \<noteq> z) (snd (xs, ys))) \<Longrightarrow> g y = decrease (f y) d"
    and same: "\<And>y. y \<in> set xs \<union> set ys \<Longrightarrow> y \<noteq> z \<Longrightarrow>
      y \<notin> set (takeWhile (\<lambda>y. y \<noteq> z) (snd (xs, ys))) \<Longrightarrow> g y = f y"
    and dist: "distinct (xs @ x # ys)" and z: "z \<in> set (snd (xs, ys))"
  from z obtain us vs where ys: "ys = us @ z # vs" "z \<notin> set us"
    using split_list_first [of z ys] by auto
  have tw: "takeWhile (\<lambda>y. y \<noteq> z) (snd (xs, ys)) = us" using ys takeWhile_upto [of z us] by simp
  have old: "g y = f y" if "y \<in> set xs \<union> set vs" for y
    using same [of y, unfolded tw] that dist unfolding ys(1) by auto
  obtain m where m: "tiling a (map g (xs @ x # us)) (m - unat d)" "tiling m (map f (z # vs)) b" "unat d < m"
    by (rule after_shift [OF t, of us "z # vs" g]) (use g old ys tw in auto)
  then have zm: "legal (f z)" "lo (f z) = m" "tiling (hi (f z)) (map f vs) b" by auto
  have "z \<in> set ys" using ys by simp
  note z' = decrease_start_spec [OF zm(1) after_legal(2) [OF t this]]
  have "tiling (hi (f z)) (map g vs) b" using zm(3) tiling_cong [of vs g f] old by blast
  then have "tiling (m - unat d) (map g (z # vs)) b" using z' zm g(2) by simp
  then have "tiling a (map g ((xs @ x # us) @ z # vs)) b" using m(1) by (subst map_append) (auto simp only: tiling_append)
  then show "tiling a (map g (xs @ x # ys)) b" by (simp add: ys(1))
qed (auto simp: room_def)

end
