(* ===== verification/ReachReclaim.thy ===== *)
theory ReachReclaim
  imports ReachShift
begin

text \<open>
  Reclaiming.  A block outside of the reindex root's subtree gets the room it needs from the slacks
  along the chain down to the reindex root, and from the reindex root itself.  Both directions are
  proved at once, in the locale \<open>reclaim_run\<close>.
\<close>

subsection \<open>The next block on the way down\<close>

lemma next_kid:
  assumes x: "x \<in> ids s" "set (kids s x) \<subseteq> ids s" and d: "d \<in> ids s"
    and t: "tiling a (map f (kids s x)) b"
    and mono: "\<And>i j. i < j \<Longrightarrow> j < length (kids s x) \<Longrightarrow> lo (f (kids s x ! i)) < lo (f (kids s x ! j))"
    and k: "k \<in> set (kids s x)" "lo (f k) \<le> lo (f d)" "lo (f d) < hi (f d)" "hi (f d) \<le> hi (f k)"
  shows "get_next_chain_ancestor_unchecked (with_ivs s f) d x = Inr k"
proof -
  define cs where "cs = kids s x"
  define K where "K i = iv_start (f (cs ! i))" for i
  define point where "point = iv_end (f d)"
  obtain j where j: "j < length cs" "cs ! j = k" using k(1) by (metis cs_def in_set_conv_nth)
  have ids: "cs ! i \<in> ids s" if "i < length cs" for i using x(2) that nth_mem unfolding cs_def by blast
  have lo: "lo (f (cs ! i)) = unat (K i)" for i by (simp add: K_def lo_def)
  have point: "hi (f d) = Suc (unat point)" by (simp add: point_def hi_def)
  have key: "start_key (with_ivs s f) cs i = Inr (K i)" if "i < length cs" for i
    using ids [OF that] by (simp add: start_key_def K_def)
  have inc: "K i < K i'" if "i < i'" "i' < length cs" for i i'
    using mono [of i i'] that by (simp add: word_less_nat_alt lo [unfolded cs_def] cs_def)
  have after: "hi (f d) \<le> lo (f (cs ! i))" if "j < i" "i < length cs" for i
    using tiling_ordered [OF t, of j i] that j k(4) by (simp add: cs_def)
  have at: "unat (K j) \<le> unat point" using k(2,3) point lo [of j] j(2) by simp
  have chain: "is_chain_ancestor_of (with_ivs s f) k d = Inr True"
    using k j ids [OF j(1)] d by (simp add: is_chain_ancestor_of_def iv_contains_iff)
  have "(\<exists>i < length cs. binary_search_by (start_key (with_ivs s f) cs) point (length cs) = Inr (Inr i) \<and> K i = point)
    \<or> (\<exists>i \<le> length cs. binary_search_by (start_key (with_ivs s f) cs) point (length cs) = Inr (Inl i)
        \<and> (\<forall>j < i. K j < point) \<and> (\<forall>j < length cs. i \<le> j \<longrightarrow> point < K j))"
    by (rule binary_search_by_spec) (fact key, fact inc)
  then have "\<exists>i. binary_search_descendant (with_ivs s f) cs d = Inr (Found k i)"
  proof (elim disjE exE conjE)
    fix i
    assume i: "i < length cs" "K i = point"
      and run: "binary_search_by (start_key (with_ivs s f) cs) point (length cs) = Inr (Inr i)"
    have "i = j"
    proof (rule linorder_cases [of i j])
      assume "i < j"
      then have "unat (K i) < unat (K j)" using inc j(1) by (simp add: word_less_nat_alt)
      then show ?thesis using at i(2) by simp
    next
      assume "j < i"
      then show ?thesis using after [OF _ i(1)] lo [of i] point i(2) by simp
    qed
    then show ?thesis using run d j by (simp add: binary_search_descendant_def point_def)
  next
    fix i
    assume i: "i \<le> length cs" "\<forall>j < i. K j < point" "\<forall>j < length cs. i \<le> j \<longrightarrow> point < K j"
      and run: "binary_search_by (start_key (with_ivs s f) cs) point (length cs) = Inr (Inl i)"
    have "j < i"
    proof (rule ccontr)
      assume "\<not> j < i"
      then have "point < K j" using i(3) j(1) by simp
      then show False using at by (simp add: word_less_nat_alt)
    qed
    have "i - 1 = j"
    proof (rule ccontr)
      assume "i - 1 \<noteq> j"
      then have "j < i - 1" "i - 1 < length cs" "K (i - 1) < point" using \<open>j < i\<close> i by auto
      then show False using after [of "i - 1"] lo [of "i - 1"] point by (simp add: word_less_nat_alt)
    qed
    then show ?thesis using run d j chain \<open>j < i\<close> by (auto simp: binary_search_descendant_def point_def)
  qed
  then show ?thesis using x(1) by (auto simp: get_next_chain_ancestor_unchecked_def cs_def)
qed

lemma tiling_starts:
  assumes "tiling a (map f xs) b" "\<And>i. Suc i < length xs \<Longrightarrow> lo (f (xs ! i)) < hi (f (xs ! i))"
    and "i < j" "j < length xs"
  shows "lo (f (xs ! i)) < lo (f (xs ! j))"
  using tiling_ordered [OF assms(1,3,4)] assms(2) [of i] assms(3,4) by linarith

lemma fair_inside:
  assumes "tree_ok s r" "fair s f x" "anc s x y"
  shows "lo (f x) \<le> lo (f y) \<and> hi (f y) \<le> hi (f x)"
  using assms(3,2)
proof (induction rule: anc_induct)
  case (kid p c)
  have "fair_at s f p" using kid by (simp add: fair_def)
  then obtain a b where "lo (f p) \<le> a" "tiling a (map f (kids s p)) b" "b < hi (f p)" by (rule fair_atE)
  then show ?case using kid tiling_in [of a "map f (kids s p)" b "f c"] by auto
qed simp

lemma fair_nonempty: "fair s f x \<Longrightarrow> lo (f x) < hi (f x) \<and> legal (f x)"
  unfolding fair_def fair_at_def using anc_refl by blast

lemma next_kid_fair:
  assumes ok: "tree_ok s r" and f: "fair s f x" and x: "x \<in> ids s" and k: "k \<in> set (kids s x)" "anc s k d"
  shows "get_next_chain_ancestor_unchecked (with_ivs s f) d x = Inr k"
proof -
  have at: "fair_at s f x" and kids: "\<And>c. c \<in> set (kids s x) \<Longrightarrow> fair s f c" using f fair_kids [of s f x] by auto
  from at obtain a b where t: "tiling a (map f (kids s x)) b" by (rule fair_atE)
  show ?thesis
  proof (rule next_kid [OF x _ _ t])
    show "set (kids s x) \<subseteq> ids s" "d \<in> ids s" using kid_in_ids [OF ok] anc_ids [OF ok k(2)] k(1) by auto
    show "lo (f (kids s x ! i)) < lo (f (kids s x ! j))" if "i < j" "j < length (kids s x)" for i j
      by (rule tiling_starts [OF t _ that]) (use kids fair_nonempty nth_mem Suc_lessD in blast)
    show "lo (f k) \<le> lo (f d)" "hi (f d) \<le> hi (f k)" using fair_inside [OF ok kids [OF k(1)] k(2)] by auto
    show "lo (f d) < hi (f d)" using fair_nonempty fair_below [OF kids [OF k(1)] k(2)] by blast
  qed (rule k)
qed

subsection \<open>The loop over the siblings\<close>

definition touched :: "blk \<Rightarrow> blk list \<Rightarrow> blk set" where
  "touched alloc S = set (takeWhile (\<lambda>y. y \<noteq> alloc) S) \<union> (set S \<inter> {alloc})"

lemma touched_subset: "touched alloc S \<subseteq> set S"
  unfolding touched_def using set_takeWhileD by fastforce

definition sibs_moved ::
    "mem_store \<Rightarrow> blk \<Rightarrow> blk list \<Rightarrow> u64 \<Rightarrow> (interval \<Rightarrow> u64 \<Rightarrow> interval) \<Rightarrow> (interval \<Rightarrow> u64 \<Rightarrow> interval) \<Rightarrow>
     (blk \<Rightarrow> interval) \<Rightarrow> (blk \<Rightarrow> interval) \<Rightarrow> bool" where
  "sibs_moved s alloc S d op last_op f g \<longleftrightarrow>
     (\<forall>y \<in> set (takeWhile (\<lambda>y. y \<noteq> alloc) S). fair s g y \<and> g y = op (f y) d) \<and>
     (alloc \<in> set S \<longrightarrow> fair s g alloc \<and> g alloc = last_op (f alloc) d) \<and>
     off (\<Union>y \<in> touched alloc S. desc s y) f g"

lemma offset_loop_run:
  assumes ok: "tree_ok s r" and small: "card (ids s) < 2 ^ 32" and "ctx_at s f c"
    and "set S \<subseteq> set (kids s q)" "distinct S"
    and "\<And>y. y \<in> set S \<Longrightarrow> y \<noteq> alloc \<Longrightarrow> legal (op (f y) d) \<and> weight s y \<le> room (op (f y) d)"
    and "alloc \<in> set S \<Longrightarrow> legal (last_op (f alloc) d) \<and> weight s alloc \<le> room (last_op (f alloc) d)"
  shows "runs s (offset_loop fo alloc d op last_op S) c (\<lambda>_ g. sibs_moved s alloc S d op last_op f g)"
  using assms(3-)
proof (induction S arbitrary: f c)
  case Nil
  then show ?case by (auto simp: sibs_moved_def simp del: rm_simps intro!: runs_rret)
next
  case (Cons y S)
  have y: "y \<in> set (kids s q)" "y \<in> ids s" using Cons.prems(2) kid_in_ids [OF ok] by auto
  show ?case
  proof (cases "y = alloc")
    case True
    then have "runs s (apply_interval_op_and_propagate fo y d last_op) c
        (\<lambda>_ g. fair s g y \<and> g y = last_op (f y) d \<and> off (desc s y) f g)"
      using Cons.prems by (intro apply_op_propagate_run [OF ok small _ y(2)]) simp_all
    then show ?thesis using True
      by (auto simp: sibs_moved_def touched_def elim!: runs_conseq)
  next
    case False
    have "runs s (rbind (apply_interval_op_and_propagate fo y d op) (\<lambda>_. offset_loop fo alloc d op last_op S)) c
        (\<lambda>_ g. sibs_moved s alloc (y # S) d op last_op f g)"
    proof (rule runs_rbind)
      show "runs s (apply_interval_op_and_propagate fo y d op) c
          (\<lambda>_ g. fair s g y \<and> g y = op (f y) d \<and> off (desc s y) f g)"
        using Cons.prems False by (intro apply_op_propagate_run [OF ok small _ y(2)]) simp_all
    next
      fix u :: unit and g c'
      assume c': "ctx_at s g c'" and g: "fair s g y \<and> g y = op (f y) d \<and> off (desc s y) f g"
      have disj: "desc s y \<inter> desc s z = {}" if "z \<in> set S" for z
        by (rule desc_apart [OF ok y(1)]) (use Cons.prems(2,3) that in auto)
      have same: "g z = f z" if "z \<in> set S" for z
      proof -
        have "z \<notin> desc s y" using disj [OF that] desc_refl [of z s] by blast
        then show ?thesis using g by (simp add: off_def)
      qed
      have "runs s (offset_loop fo alloc d op last_op S) c' (\<lambda>_ h. sibs_moved s alloc S d op last_op g h)"
        by (rule Cons.IH [OF c']) (use Cons.prems same in auto)
      then show "runs s (offset_loop fo alloc d op last_op S) c'
          (\<lambda>_ h. sibs_moved s alloc (y # S) d op last_op f h)"
      proof (rule runs_conseq)
        fix v h assume h: "sibs_moved s alloc S d op last_op g h"
        have hy: "h z = g z" if "z \<in> desc s y" for z
        proof -
          have "z \<notin> (\<Union>y \<in> touched alloc S. desc s y)" using disj touched_subset that by blast
          then show ?thesis using h by (simp add: sibs_moved_def off_def)
        qed
        have "fair s h y" using g fair_cong [of s y h g] hy by (simp add: desc_def)
        moreover have "h y = op (f y) d" using hy g by simp
        moreover have "off (\<Union>z \<in> touched alloc (y # S). desc s z) f h"
          using g h False unfolding sibs_moved_def off_def touched_def by auto
        moreover have "fair s h z \<and> h z = op (f z) d" if "z \<in> set (takeWhile (\<lambda>y. y \<noteq> alloc) S)" for z
          using h that same [of z] set_takeWhileD [OF that] by (simp add: sibs_moved_def)
        moreover have "alloc \<in> set S \<longrightarrow> fair s h alloc \<and> h alloc = last_op (f alloc) d"
          using h same [of alloc] by (simp add: sibs_moved_def)
        ultimately show "sibs_moved s alloc (y # S) d op last_op f h"
          using False by (auto simp: sibs_moved_def)
      qed
    qed
    then show ?thesis using False by simp
  qed
qed

subsection \<open>One level of the chain\<close>

lemma split_children_eq: "x \<notin> set xs \<Longrightarrow> split_children (xs @ x # ys) x = Inr (xs, ys)"
proof -
  assume "x \<notin> set xs"
  then have "position x (xs @ x # ys) = Some (length xs)" by (induction xs) auto
  then show ?thesis by (simp add: split_children_def)
qed

text \<open>
  The state after the level of \<open>x\<close> has been handled: \<open>x\<close> is shrunk by \<open>d\<close>, the siblings on the side
  up to \<open>alloc\<close> have made room, and nothing outside of their subtrees has changed.
\<close>

definition level ::
    "mem_store \<Rightarrow> blk \<Rightarrow> blk list \<Rightarrow> blk \<Rightarrow> u64 \<Rightarrow> (interval \<Rightarrow> u64 \<Rightarrow> interval) \<Rightarrow> (interval \<Rightarrow> u64 \<Rightarrow> interval) \<Rightarrow>
     (interval \<Rightarrow> u64 \<Rightarrow> interval) \<Rightarrow> (blk \<Rightarrow> interval) \<Rightarrow> (blk \<Rightarrow> interval) \<Rightarrow> bool" where
  "level s alloc S x d shr shf grw f g \<longleftrightarrow>
     fair s g x \<and> g x = shr (f x) d \<and>
     (\<forall>y \<in> set (takeWhile (\<lambda>y. y \<noteq> alloc) S). fair s g y \<and> g y = shf (f y) d) \<and>
     (alloc \<in> set S \<longrightarrow> fair s g alloc \<and> g alloc = grw (f alloc) d) \<and>
     off (desc s x \<union> (\<Union>y \<in> touched alloc S. desc s y)) f g"

locale reclaim_run = reclaim_moves shrink shift_by grow_by sibs remaining gap
  for shrink shift_by grow_by :: "interval \<Rightarrow> u64 \<Rightarrow> interval"
    and sibs :: "blk list \<times> blk list \<Rightarrow> blk list"
    and remaining :: "mem_store \<Rightarrow> blk \<Rightarrow> reach_error + interval"
    and gap :: "interval \<Rightarrow> nat \<Rightarrow> nat \<Rightarrow> nat" +
  fixes fo :: "'f f64_ops"
    and offs :: "blk \<Rightarrow> blk \<Rightarrow> u64 \<Rightarrow> (reindex_ctx, unit) rm"
    and down :: "blk \<Rightarrow> blk \<Rightarrow> u64 \<Rightarrow> blk \<Rightarrow> u64 \<Rightarrow> u64 \<Rightarrow> reindex_ctx \<Rightarrow> ((reach_error + (blk \<times> u64)) \<times> reindex_ctx) option"
    and up :: "blk \<Rightarrow> blk \<Rightarrow> u64 \<Rightarrow> blk \<Rightarrow> reindex_ctx \<Rightarrow> ((reach_error + unit) \<times> reindex_ctx) option"
  assumes offs_eq: "offs alloc current offset =
      rbind (cread (\<lambda>s. get_parent s current)) (\<lambda>parent.
      rbind (cread (\<lambda>s. get_children s parent)) (\<lambda>children.
      rbind (rread (\<lambda>_. split_children children current)) (\<lambda>p.
      offset_loop fo alloc offset shift_by grow_by (sibs p))))"
    and down_eq: "down alloc root required current slack_sum path_len c =
      (if current = root then
        let offset = required + rc_slack c * path_len - slack_sum in
        rbind (apply_interval_op_and_propagate fo current offset shrink) (\<lambda>_.
        rbind (offs alloc current offset) (\<lambda>_. rret (current, rc_slack c))) c
      else
        rbind (cread (\<lambda>s. remaining s current)) (\<lambda>i.
        let gap = iv_size i; sum = slack_sum + gap in
        if required \<le> sum then
          let offset = gap - (sum - required) in
          rbind (apply_interval_op current offset shrink) (\<lambda>_.
          rbind (offs alloc current offset) (\<lambda>_. rret (current, 0)))
        else
          rbind (cread (\<lambda>s. get_next_chain_ancestor_unchecked s root current)) (\<lambda>child c.
          down alloc root required child sum (path_len + 1) c)) c)"
    and up_eq: "up alloc common psa child c =
      rbind (cread (\<lambda>s. get_parent s child)) (\<lambda>current.
      if current = common then rret ()
      else
        rbind (cread (\<lambda>s. remaining s current)) (\<lambda>i.
        let offset = iv_size i - psa in
        rbind (apply_interval_op current offset shrink) (\<lambda>_.
        rbind (offs alloc current offset) (\<lambda>_ c. up alloc common psa current c)))) c"
begin

lemma offs_run:
  assumes ok: "tree_ok s r" and small: "card (ids s) < 2 ^ 32" and c: "ctx_at s h c" and q: "kids s q = xs @ x # ys"
    and t: "tiling a (map f (kids s q)) b" and d: "unat d \<le> room (f x)"
    and same: "\<And>y. y \<in> set (kids s q) \<Longrightarrow> y \<noteq> x \<Longrightarrow> h y = f y"
    and fit: "\<And>y. y \<in> set (sibs (xs, ys)) \<Longrightarrow> y \<noteq> alloc \<Longrightarrow> fair s f y"
    and al: "alloc \<in> set (sibs (xs, ys)) \<Longrightarrow> weight s alloc \<le> room (f alloc) + unat d"
  shows "runs s (offs alloc x d) c (\<lambda>_ g. sibs_moved s alloc (sibs (xs, ys)) d shift_by grow_by h g)"
proof -
  have dist: "distinct (xs @ x # ys)" using distinct_kids [OF ok, of q] q by simp
  have xq: "x \<in> set (kids s q)" using q by simp
  note ids = kid_in_ids [OF ok xq]
  have sub: "set (sibs (xs, ys)) \<subseteq> set (kids s q)" using sibs_set [of xs ys] q by auto
  have hf: "h y = f y" if "y \<in> set (sibs (xs, ys))" for y
    using same [of y] that sub sibs_other [of x xs ys] dist by auto
  note legal = moved_legal [OF t [unfolded q] d]
  have "runs s (offset_loop fo alloc d shift_by grow_by (sibs (xs, ys))) c
      (\<lambda>_ g. sibs_moved s alloc (sibs (xs, ys)) d shift_by grow_by h g)"
  proof (rule offset_loop_run [OF ok small c sub])
    show "distinct (sibs (xs, ys))" using sibs_distinct dist by simp
    show "legal (shift_by (h y) d) \<and> weight s y \<le> room (shift_by (h y) d)"
      if "y \<in> set (sibs (xs, ys))" "y \<noteq> alloc" for y
      using legal [OF that(1)] hf [OF that(1)] fair_fits [OF ok fit [OF that]] by (simp add: fits_def)
    show "legal (grow_by (h alloc) d) \<and> weight s alloc \<le> room (grow_by (h alloc) d)"
      if "alloc \<in> set (sibs (xs, ys))"
      using legal [OF that] hf [OF that] al [OF that] by simp
  qed
  then show ?thesis
    using c ids q dist unfolding offs_eq
    by (simp add: runs_def ctx_at_def split_children_eq)
qed

lemma level_run:
  assumes ok: "tree_ok s r" and small: "card (ids s) < 2 ^ 32" and c: "ctx_at s h c" and q: "kids s q = xs @ x # ys"
    and t: "tiling a (map f (kids s q)) b" and d: "unat d \<le> room (f x)"
    and h: "fair s h x" "h x = shrink (f x) d" "off (desc s x) f h"
    and fit: "\<And>y. y \<in> set (sibs (xs, ys)) \<Longrightarrow> y \<noteq> alloc \<Longrightarrow> fair s f y"
    and al: "alloc \<in> set (sibs (xs, ys)) \<Longrightarrow> weight s alloc \<le> room (f alloc) + unat d"
  shows "runs s (offs alloc x d) c (\<lambda>_ g. level s alloc (sibs (xs, ys)) x d shrink shift_by grow_by f g
    \<and> (\<forall>y \<in> desc s x. g y = h y))"
proof -
  have dist: "distinct (xs @ x # ys)" using distinct_kids [OF ok, of q] q by simp
  have disj: "desc s x \<inter> desc s y = {}" if "y \<in> set (xs @ ys)" for y
    by (rule desc_apart [OF ok, of x q]) (use q that dist in auto)
  have sub: "touched alloc (sibs (xs, ys)) \<subseteq> set (xs @ ys)"
    using touched_subset [of alloc "sibs (xs, ys)"] sibs_set [of xs ys] by auto
  have same: "h y = f y" if "y \<in> set (xs @ ys)" for y
    using h(3) disj [OF that] desc_refl [of y s] by (auto simp: off_def)
  have "runs s (offs alloc x d) c (\<lambda>_ g. sibs_moved s alloc (sibs (xs, ys)) d shift_by grow_by h g)"
    by (rule offs_run [OF ok small c q t d _ fit al]) (use same q in auto)
  then show ?thesis
  proof (rule runs_conseq)
    fix u g assume g: "sibs_moved s alloc (sibs (xs, ys)) d shift_by grow_by h g"
    have gh: "g y = h y" if "y \<in> desc s x" for y
    proof -
      have "y \<notin> (\<Union>y \<in> touched alloc (sibs (xs, ys)). desc s y)" using that disj sub by blast
      then show ?thesis using g by (simp add: sibs_moved_def off_def)
    qed
    have "fair s g x" using fair_cong [of s x g h] gh h(1) by (simp add: desc_def)
    moreover have "off (desc s x \<union> (\<Union>y \<in> touched alloc (sibs (xs, ys)). desc s y)) f g"
      using h(3) g by (auto simp: off_def sibs_moved_def)
    moreover have "g x = shrink (f x) d" using gh h(2) by simp
    moreover have "h y = f y" if "y \<in> set (sibs (xs, ys))" for y using same sibs_set [of xs ys] that by auto
    ultimately show "level s alloc (sibs (xs, ys)) x d shrink shift_by grow_by f g \<and> (\<forall>y \<in> desc s x. g y = h y)"
      using g gh by (auto simp: level_def sibs_moved_def dest: set_takeWhileD)
  qed
qed

text \<open>Seen from the parent, a handled level below has widened the gap.\<close>

lemma level_gap:
  assumes ok: "tree_ok s r" and q: "kids s q = xs @ x # ys"
    and t: "tiling a (map f (kids s q)) b" "legal (f q)" "lo (f q) \<le> a" "b < hi (f q)" and d: "unat d \<le> room (f x)"
    and kids: "\<And>c. c \<in> set (kids s q) \<Longrightarrow> fair s f c"
    and l: "level s alloc (sibs (xs, ys)) x d shrink shift_by grow_by f g" and al: "alloc \<notin> set (kids s q)"
  shows "\<exists>a' b'. tiling a' (map g (kids s q)) b' \<and> lo (f q) \<le> a' \<and> b' < hi (f q)
      \<and> gap (f q) a' b' = gap (f q) a b + unat d"
    and "g q = f q" "\<And>c. c \<in> set (kids s q) \<Longrightarrow> fair s g c" "off (below s q) f g"
proof -
  have dist: "distinct (xs @ x # ys)" using distinct_kids [OF ok, of q] q by simp
  have no: "alloc \<notin> set (sibs (xs, ys))" using al sibs_set [of xs ys] q by auto
  then have tw: "takeWhile (\<lambda>y. y \<noteq> alloc) (sibs (xs, ys)) = sibs (xs, ys)"
    by (auto simp: takeWhile_eq_all_conv)
  have tc: "touched alloc (sibs (xs, ys)) = set (sibs (xs, ys))"
    unfolding touched_def tw using no by auto
  have sub: "insert x (set (sibs (xs, ys))) \<subseteq> set (kids s q)" using sibs_set [of xs ys] q by auto
  have o: "off (\<Union>y \<in> insert x (set (sibs (xs, ys))). desc s y) f g" using l tc by (simp add: level_def)
  have rest: "g y = f y" if "y \<in> desc s c" "c \<in> set (kids s q)" "c \<notin> insert x (set (sibs (xs, ys)))" for y c
  proof -
    have "y \<notin> desc s z" if "z \<in> insert x (set (sibs (xs, ys)))" for z
      using desc_apart [OF ok \<open>c \<in> set (kids s q)\<close>, of z] that sub \<open>c \<notin> _\<close> \<open>y \<in> desc s c\<close> by blast
    then show ?thesis using o by (simp add: off_def)
  qed
  show "off (below s q) f g"
    by (rule off_mono [OF o]) (use below_kids [OF ok, of q] sub in blast)
  then show "g q = f q" by (simp add: off_def below_def)
  show "fair s g c" if "c \<in> set (kids s q)" for c
  proof (cases "c \<in> insert x (set (sibs (xs, ys)))")
    case True
    then show ?thesis using l tw by (auto simp: level_def)
  next
    case False
    then show ?thesis using fair_cong [of s c g f] rest [OF _ that] kids [OF that] by (simp add: desc_def)
  qed
  show "\<exists>a' b'. tiling a' (map g (kids s q)) b' \<and> lo (f q) \<le> a' \<and> b' < hi (f q)
      \<and> gap (f q) a' b' = gap (f q) a b + unat d"
    unfolding q
  proof (rule shift_all [OF t(1) [unfolded q] d dist _ _ _ t(2,3,4)])
    show "g x = shrink (f x) d" using l by (simp add: level_def)
    show "g y = shift_by (f y) d" if "y \<in> set (sibs (xs, ys))" for y using l tw that by (simp add: level_def)
    show "g y = f y" if "y \<in> set xs \<union> set ys" "y \<notin> set (sibs (xs, ys))" for y
      by (rule rest [of y y]) (use that q dist in auto)
  qed
qed

subsection \<open>The way down and up\<close>

text \<open>A level that shrinks its block within the gap, without relabelling below.\<close>

lemma gap_level_run:
  assumes ok: "tree_ok s r" and small: "card (ids s) < 2 ^ 32" and c: "ctx_at s g c" and q: "kids s q = xs @ x # ys"
    and t: "tiling a (map f (kids s q)) b"
    and fit: "\<And>y. y \<in> set (sibs (xs, ys)) \<Longrightarrow> y \<noteq> alloc \<Longrightarrow> fair s f y"
    and al: "alloc \<in> set (sibs (xs, ys)) \<Longrightarrow> weight s alloc \<le> room (f alloc) + unat d"
    and g: "g x = f x" "off (below s x) f g" "\<And>k. k \<in> set (kids s x) \<Longrightarrow> fair s g k"
    and x: "legal (f x)" "lo (f x) \<le> a'" "tiling a' (map g (kids s x)) b'" "b' < hi (f x)" "unat d \<le> gap (f x) a' b'"
  shows "runs s (rbind (apply_interval_op x d shrink) (\<lambda>_. offs alloc x d)) c
    (\<lambda>_ h. level s alloc (sibs (xs, ys)) x d shrink shift_by grow_by f h \<and> (\<forall>y \<in> below s x. h y = g y))"
proof -
  have xq: "x \<in> set (kids s q)" using q by simp
  note ids = kid_in_ids [OF ok xq]
  have ab: "a' \<le> b'" using tiling_le [OF x(3)] .
  have d: "unat d \<le> room (f x)" using gap_room [OF x(1,2) ab x(4)] x(5) by linarith
  define h where "h = g(x := shrink (f x) d)"
  have hk: "h y = g y" if "y \<noteq> x" for y using that by (simp add: h_def)
  have kx: "k \<noteq> x" if "anc s c k" "c \<in> set (kids s x)" for c k
    using kid_not_above [OF ok that(2)] that(1) by blast
  have fair_h: "fair s h x"
  proof -
    have kids: "fair s h k" if "k \<in> set (kids s x)" for k
      using fair_cong [of s k h g] hk kx [OF _ that] g(3) [OF that] by simp
    have t': "tiling a' (map h (kids s x)) b'" using tiling_cong [of "kids s x" h g] hk kx anc_refl x(3) by blast
    have "legal (h x)" "lo (h x) \<le> a'" "b' < hi (h x)"
      using shrink_gap [OF x(1,2) ab x(4,5)] shrink_room [OF x(1) d] by (simp_all add: h_def)
    then have "fair_at s h x" using t' ab by (intro fair_atI) auto
    then show ?thesis using kids fair_kids [of s h x] by blast
  qed
  show ?thesis
  proof (rule runs_rbind)
    show "runs s (apply_interval_op x d shrink) c (\<lambda>_ h'. h' = h)"
      by (rule apply_op_run [OF c]) (use ids in \<open>simp_all add: h_def g(1)\<close>)
  next
    fix u :: unit and h' c' assume c': "ctx_at s h' c'" "h' = h"
    have "runs s (offs alloc x d) c' (\<lambda>_ k. level s alloc (sibs (xs, ys)) x d shrink shift_by grow_by f k
        \<and> (\<forall>y \<in> desc s x. k y = h y))"
    proof (rule level_run [OF ok small _ q t d fair_h])
      show "off (desc s x) f h" using g(1,2) by (auto simp: off_def below_def h_def)
    qed (use c' fit al in \<open>auto simp: h_def\<close>)
    then show "runs s (offs alloc x d) c' (\<lambda>_ k. level s alloc (sibs (xs, ys)) x d shrink shift_by grow_by f k
        \<and> (\<forall>y \<in> below s x. k y = g y))"
      by (rule runs_conseq) (auto simp: below_def hk)
  qed
qed

lemma down_root:
  assumes ok: "tree_ok s r" and small: "card (ids s) < 2 ^ 32" and c: "ctx_at s f c" and q: "kids s q = xs @ x # ys"
    and t: "tiling a (map f (kids s q)) b" "legal (f x)"
    and fit: "\<And>y. y \<in> set (sibs (xs, ys)) \<Longrightarrow> y \<noteq> alloc \<Longrightarrow> fair s f y"
    and al: "alloc \<in> set (sibs (xs, ys)) \<Longrightarrow> \<sigma> = 0 \<and> weight s alloc \<le> room (f alloc) + unat req"
    and \<sigma>: "unat \<sigma> < unat req" and cap: "unat req + unat (rc_slack c) * unat k + weight s x \<le> room (f x)"
  shows "\<exists>c2 g d. down alloc x req x \<sigma> k c = Some (Inr (x, rc_slack c), c2) \<and> ctx_at s g c2
    \<and> rc_slack c2 = rc_slack c \<and> unat d + unat \<sigma> = unat req + unat (rc_slack c) * unat k
    \<and> level s alloc (sibs (xs, ys)) x d shrink shift_by grow_by f g"
proof -
  have xq: "x \<in> set (kids s q)" using q by simp
  note ids = kid_in_ids [OF ok xq]
  define d where "d = req + rc_slack c * k - \<sigma>"
  have room: "room (f x) < 2 ^ 64" using t(2) unfolding legal_def room_def by linarith
  then have mul: "unat (rc_slack c * k) = unat (rc_slack c) * unat k"
    using cap by (subst unat_mult_lem [symmetric]) simp
  have "unat (req + rc_slack c * k) = unat req + unat (rc_slack c) * unat k"
    using cap room mul by (subst unat_add_u64) simp_all
  then have d: "unat d = unat req + unat (rc_slack c) * unat k - unat \<sigma>"
    using \<sigma> by (simp add: d_def unat_sub_u64)
  have dr: "unat d \<le> room (f x)" "weight s x \<le> room (f x) - unat d" using d cap by linarith+
  have "runs s (rbind (apply_interval_op_and_propagate fo x d shrink) (\<lambda>_. offs alloc x d)) c
    (\<lambda>_ g. level s alloc (sibs (xs, ys)) x d shrink shift_by grow_by f g)"
  proof (rule runs_rbind)
    show "runs s (apply_interval_op_and_propagate fo x d shrink) c
        (\<lambda>_ h. fair s h x \<and> h x = shrink (f x) d \<and> off (desc s x) f h)"
      by (rule apply_op_propagate_run [OF ok small c]) (use ids shrink_room [OF t(2) dr(1)] dr in auto)
  next
    fix u :: unit and h c' assume h: "ctx_at s h c'" "fair s h x \<and> h x = shrink (f x) d \<and> off (desc s x) f h"
    have "weight s alloc \<le> room (f alloc) + unat d" if "alloc \<in> set (sibs (xs, ys))"
      using al [OF that] d by simp
    then show "runs s (offs alloc x d) c' (\<lambda>_ g. level s alloc (sibs (xs, ys)) x d shrink shift_by grow_by f g)"
      using level_run [OF ok small h(1) q t(1) dr(1), of alloc] h(2) fit by (auto elim!: runs_conseq)
  qed
  then obtain u c2 g where g: "rbind (apply_interval_op_and_propagate fo x d shrink) (\<lambda>_. offs alloc x d) c = Some (Inr u, c2)"
    "ctx_at s g c2" "rc_slack c2 = rc_slack c" "level s alloc (sibs (xs, ys)) x d shrink shift_by grow_by f g"
    by (rule runsE)
  have "down alloc x req x \<sigma> k c = rbind (rbind (apply_interval_op_and_propagate fo x d shrink) (\<lambda>_. offs alloc x d))
      (\<lambda>_. rret (x, rc_slack c)) c"
    by (simp add: down_eq [of alloc x req x] Let_def d_def [symmetric] rbind_assoc)
  also have "\<dots> = Some (Inr (x, rc_slack c), c2)"
    by (simp only: rbind_Some(1) [where m = "rbind _ (\<lambda>_. offs alloc x d)", OF g(1)] rm_simps)
  finally show ?thesis using g d \<sigma> by (intro exI [of _ c2] exI [of _ g] exI [of _ d]) simp
qed

lemma reclaim_path:
  assumes ok: "tree_ok s r" and small: "card (ids s) < 2 ^ 32" and com: "alloc \<in> set (kids s common)"
    and c: "ctx_at s f c" "rc_slack c = slack"
    and "anc s x R" "\<not> anc s x common" "fair s f x" "kids s q = xs @ x # ys" "tiling a (map f (kids s q)) b"
    and "\<And>y. y \<in> set (sibs (xs, ys)) \<Longrightarrow> y \<noteq> alloc \<Longrightarrow> fair s f y"
    and "alloc \<in> set (sibs (xs, ys)) \<Longrightarrow> \<sigma> = 0 \<and> k = 0 \<and> weight s alloc \<le> room (f alloc) + unat req"
    and "unat \<sigma> < unat req" "unat \<sigma> + room (f x) < 2 ^ 64" "unat k + weight s x \<le> 2 ^ 32"
    and "unat req + unat slack * (unat k + weight s x) + weight s R \<le> room (f R)"
  shows "\<exists>psa y c1 c2 g d. down alloc R req x \<sigma> k c = Some (Inr (y, psa), c1)
    \<and> up alloc common psa y c1 = up alloc common psa x c2 \<and> (psa = 0 \<or> psa = slack)
    \<and> ctx_at s g c2 \<and> rc_slack c2 = slack \<and> unat d + unat \<sigma> = unat req + unat psa * unat k
    \<and> level s alloc (sibs (xs, ys)) x d shrink shift_by grow_by f g \<and> unat d \<le> room (f x)
    \<and> room (f R) \<le> room (g R) + unat req + unat slack * (unat k + weight s x)"
  using ok assms(6-)
proof (induction x arbitrary: q xs ys a b \<sigma> k rule: tree_induct)
  case (node x)
  note anc = node.prems(1) and ncom = node.prems(2) and fx = node.prems(3) and q = node.prems(4) and t = node.prems(5)
    and fit = node.prems(6) and al = node.prems(7) and \<sigma> = node.prems(8,9) and k = node.prems(10) and cap = node.prems(11)
  have xq: "x \<in> set (kids s q)" using q by simp
  note ids = kid_in_ids [OF ok xq]
  have lx: "legal (f x)" using fair_nonempty [OF fx] by blast
  show ?case
  proof (cases "x = R")
    case True
    have "unat req + unat (rc_slack c) * unat k + weight s x \<le> room (f x)"
      using cap True c(2) by (simp add: algebra_simps)
    from down_root [OF ok small c(1) q t lx fit _ \<sigma>(1) this, of alloc] al obtain c2 g d where
      run: "down alloc x req x \<sigma> k c = Some (Inr (x, rc_slack c), c2)" "ctx_at s g c2" "rc_slack c2 = rc_slack c"
      and d: "unat d + unat \<sigma> = unat req + unat (rc_slack c) * unat k"
      and l: "level s alloc (sibs (xs, ys)) x d shrink shift_by grow_by f g" by blast
    have dr: "unat d \<le> room (f x)" using d cap True c(2) by (simp add: algebra_simps)
    have "room (g x) = room (f x) - unat d" using l shrink_room [OF lx dr] by (simp add: level_def)
    then have "room (f R) \<le> room (g R) + unat req + unat slack * (unat k + weight s x)"
      using d True c(2) by (simp add: algebra_simps)
    then show ?thesis using run d l dr True c(2)
      by (intro exI [of _ slack] exI [of _ x] exI [of _ c2] exI [of _ g] exI [of _ d]) simp
  next
    case False
    then obtain x' where x': "x' \<in> set (kids s x)" "anc s x' R" using anc by (auto elim: anc_cases)
    have at: "fair_at s f x" and kf: "\<And>y. y \<in> set (kids s x) \<Longrightarrow> fair s f y" using fx fair_kids [of s f x] by auto
    from at obtain a1 b1 where t1: "lo (f x) \<le> a1" "tiling a1 (map f (kids s x)) b1" "b1 < hi (f x)" by (rule fair_atE)
    have ab1: "a1 \<le> b1" using tiling_le [OF t1(2)] .
    have kx: "set (kids s x) \<subseteq> ids s" "kids s x \<noteq> []" using kid_in_ids [OF ok] x'(1) by auto
    define n where "n = gap (f x) a1 b1"
    obtain i where i: "remaining (with_ivs s f) x = Inr i" "unat (iv_size i) = n"
      using remaining_gap [OF _ kx lx t1] ids unfolding n_def by blast
    have st: "rc_store c = with_ivs s f" using c(1) by (simp add: ctx_at_def)
    have nroom: "n + (b1 - a1) < room (f x)" unfolding n_def by (rule gap_room [OF lx t1(1) ab1 t1(3)])
    have sum: "unat (\<sigma> + iv_size i) = unat \<sigma> + n" using i(2) nroom \<sigma>(2) by (subst unat_add_u64) simp_all
    have Rx: "R \<in> below s x" using anc False by (auto simp: in_below)
    show ?thesis
    proof (cases "req \<le> \<sigma> + iv_size i")
      case True
      define d where "d = iv_size i - (\<sigma> + iv_size i - req)"
      have "unat (\<sigma> + iv_size i - req) = unat \<sigma> + n - unat req" using True sum by (simp add: unat_sub_u64 word_le_nat_alt)
      then have d: "unat d = unat req - unat \<sigma>" "unat d \<le> n"
        using i(2) \<sigma>(1) True sum by (auto simp: d_def unat_sub_u64 word_le_nat_alt)
      have "runs s (rbind (apply_interval_op x d shrink) (\<lambda>_. offs alloc x d)) c
          (\<lambda>_ h. level s alloc (sibs (xs, ys)) x d shrink shift_by grow_by f h \<and> (\<forall>y \<in> below s x. h y = f y))"
        by (rule gap_level_run [OF ok small c(1) q t fit _ _ _ kf lx t1])
          (use al d in \<open>auto simp: n_def\<close>)
      then obtain u c2 g where g: "rbind (apply_interval_op x d shrink) (\<lambda>_. offs alloc x d) c = Some (Inr u, c2)"
        "ctx_at s g c2" "rc_slack c2 = rc_slack c"
        "level s alloc (sibs (xs, ys)) x d shrink shift_by grow_by f g" "\<forall>y \<in> below s x. g y = f y"
        by (auto elim!: runsE)
      have "down alloc R req x \<sigma> k c = rbind (rbind (apply_interval_op x d shrink) (\<lambda>_. offs alloc x d)) (\<lambda>_. rret (x, 0)) c"
        using False True st i(1) by (simp add: down_eq [of alloc R req x] Let_def d_def [symmetric] rbind_assoc)
      also have "\<dots> = Some (Inr (x, 0), c2)" by (simp only: rbind_Some(1) [where m = "rbind _ (\<lambda>_. offs alloc x d)", OF g(1)] rm_simps)
      finally have run: "down alloc R req x \<sigma> k c = Some (Inr (x, 0), c2)" .
      have "g R = f R" using g(5) Rx by blast
      then show ?thesis using run g d c(2) \<sigma>(1) nroom
        by (intro exI [of _ 0] exI [of _ x] exI [of _ c2] exI [of _ g] exI [of _ d]) simp
    next
      case more: False
      then have less: "unat \<sigma> + n < unat req" using sum by (simp add: word_le_nat_alt)
      from x'(1) obtain xs' ys' where q': "kids s x = xs' @ x' # ys'" by (meson split_list)
      have nal: "alloc \<notin> set (kids s x)"
        using kid_in_ids [OF ok com] kid_in_ids [OF ok, of alloc x] ncom by auto
      have wx: "weight s x' < weight s x" by (rule weight_kid [OF ok x'(1)])
      have k1: "unat (k + 1) = unat k + 1" using k weight_pos [of s x] by (subst unat_add_u64) simp_all
      have fx': "legal (f x')" "room (f x') \<le> b1 - a1"
        using tiling_in [OF t1(2), of "f x'"] x'(1) by (auto simp: room_def legal_def)
      define \<sigma>' where "\<sigma>' = \<sigma> + iv_size i"
      have sibs': "y \<in> set (kids s x)" if "y \<in> set (sibs (xs', ys'))" for y using sibs_set [of xs' ys'] that q' by auto
      have IH: "\<exists>psa y c1 c2 g d. down alloc R req x' \<sigma>' (k + 1) c = Some (Inr (y, psa), c1)
        \<and> up alloc common psa y c1 = up alloc common psa x' c2 \<and> (psa = 0 \<or> psa = slack)
        \<and> ctx_at s g c2 \<and> rc_slack c2 = slack \<and> unat d + unat \<sigma>' = unat req + unat psa * unat (k + 1)
        \<and> level s alloc (sibs (xs', ys')) x' d shrink shift_by grow_by f g \<and> unat d \<le> room (f x')
        \<and> room (f R) \<le> room (g R) + unat req + unat slack * (unat (k + 1) + weight s x')"
      proof (rule node.IH [OF x'(1) x'(2) _ kf [OF x'(1)] q' t1(2)])
        show "\<not> anc s x' common" using ncom anc_kid [OF x'(1)] anc_trans by blast
        show "unat \<sigma>' < unat req" using less sum by (simp add: \<sigma>'_def)
        show "unat \<sigma>' + room (f x') < 2 ^ 64" using sum nroom fx'(2) \<sigma>(2) by (simp add: \<sigma>'_def)
        show "unat (k + 1) + weight s x' \<le> 2 ^ 32" using k k1 wx by simp
        have "unat slack * (unat (k + 1) + weight s x') \<le> unat slack * (unat k + weight s x)"
          by (rule mult_le_mono2) (use k1 wx in simp)
        then show "unat req + unat slack * (unat (k + 1) + weight s x') + weight s R \<le> room (f R)"
          using cap by linarith
      qed (use sibs' kf nal in auto)
      then obtain psa y c1 c2 g d' where
        down: "down alloc R req x' \<sigma>' (k + 1) c = Some (Inr (y, psa), c1)"
        and up: "up alloc common psa y c1 = up alloc common psa x' c2" and psa: "psa = 0 \<or> psa = slack"
        and c2: "ctx_at s g c2" "rc_slack c2 = slack"
        and d': "unat d' + unat \<sigma>' = unat req + unat psa * unat (k + 1)"
        and l: "level s alloc (sibs (xs', ys')) x' d' shrink shift_by grow_by f g" and d'room: "unat d' \<le> room (f x')"
        and room: "room (f R) \<le> room (g R) + unat req + unat slack * (unat (k + 1) + weight s x')" by blast
      have run: "down alloc R req x \<sigma> k c = Some (Inr (y, psa), c1)"
        using False more st i(1) down next_kid_fair [OF ok fx _ x'] ids
        by (simp add: down_eq [of alloc R req x] Let_def \<sigma>'_def)
      from level_gap(1) [OF ok q' t1(2) lx t1(1) t1(3) d'room kf l nal] obtain a2 b2 where
        t2: "tiling a2 (map g (kids s x)) b2" "lo (f x) \<le> a2" "b2 < hi (f x)"
        and n2: "gap (f x) a2 b2 = n + unat d'" unfolding n_def by blast
      note g = level_gap(2-4) [OF ok q' t1(2) lx t1(1) t1(3) d'room kf l nal]
      obtain j where j: "remaining (with_ivs s g) x = Inr j" "unat (iv_size j) = n + unat d'"
        using remaining_gap [OF _ kx, of g a2 b2] lx t2 ids g(1) n2 by auto
      define D where "D = iv_size j - psa"
      have \<sigma>': "unat \<sigma>' = unat \<sigma> + n" using sum by (simp add: \<sigma>'_def)
      have "unat psa * unat (k + 1) = unat psa * unat k + unat psa" by (simp add: k1)
      then have eq: "unat d' + (unat \<sigma> + n) = unat req + (unat psa * unat k + unat psa)" using d' \<sigma>' by simp
      then have "unat psa \<le> n + unat d'" using less by linarith
      then have D: "unat D = n + unat d' - unat psa" using j(2) by (simp add: D_def unat_sub_u64)
      have Deq: "unat D + unat \<sigma> = unat req + unat psa * unat k" using eq D less by linarith
      have "runs s (rbind (apply_interval_op x D shrink) (\<lambda>_. offs alloc x D)) c2
          (\<lambda>_ h. level s alloc (sibs (xs, ys)) x D shrink shift_by grow_by f h \<and> (\<forall>y \<in> below s x. h y = g y))"
        by (rule gap_level_run [OF ok small c2(1) q t fit _ g(1,3,2) lx t2(2,1,3)])
          (use al Deq D n2 in auto)
      then obtain u c3 h where h: "rbind (apply_interval_op x D shrink) (\<lambda>_. offs alloc x D) c2 = Some (Inr u, c3)"
        "ctx_at s h c3" "rc_slack c3 = rc_slack c2"
        "level s alloc (sibs (xs, ys)) x D shrink shift_by grow_by f h" "\<forall>y \<in> below s x. h y = g y"
        by (auto elim!: runsE)
      have st2: "rc_store c2 = with_ivs s g" using c2(1) by (simp add: ctx_at_def)
      have "x \<noteq> common" using ncom by auto
      then have "up alloc common psa x' c2
          = rbind (rbind (apply_interval_op x D shrink) (\<lambda>_. offs alloc x D)) (\<lambda>_. up alloc common psa x) c2"
        using kid_in_ids [OF ok x'(1)] st2 j(1)
        by (simp add: up_eq [of alloc common psa x'] Let_def D_def [symmetric] rbind_assoc)
      also have "\<dots> = up alloc common psa x c3" by (rule rbind_Some(1) [where m = "rbind _ (\<lambda>_. offs alloc x D)", OF h(1)])
      finally have up': "up alloc common psa y c1 = up alloc common psa x c3" using up by simp
      have "gap (f x) a2 b2 < room (f x)" using gap_room [OF lx t2(2) tiling_le [OF t2(1)] t2(3)] by linarith
      then have Dr: "unat D \<le> room (f x)" using n2 D by linarith
      have "unat slack * (unat (k + 1) + weight s x') \<le> unat slack * (unat k + weight s x)"
        by (rule mult_le_mono2) (use k1 wx in simp)
      moreover have "room (h R) = room (g R)" using h(5) Rx by simp
      ultimately have "room (f R) \<le> room (h R) + unat req + unat slack * (unat k + weight s x)"
        using room by linarith
      then show ?thesis using run up' psa h(2-4) c2(2) Deq Dr
        by (intro exI [of _ psa] exI [of _ y] exI [of _ c1] exI [of _ c3] exI [of _ h] exI [of _ D]) simp
    qed
  qed
qed

subsection \<open>The whole of it\<close>

lemma reclaim_all:
  assumes ok: "tree_ok s r" and small: "card (ids s) < 2 ^ 32" and c: "ctx_at s f c"
    and q: "kids s common = xs @ x # ys" and al: "alloc \<in> set (sibs (xs, ys))" and anc: "anc s x R"
    and fair: "\<And>y. y \<in> ids s \<Longrightarrow> y \<notin> desc s alloc \<Longrightarrow> fair_at s f y"
    and req: "unat req = weight s alloc"
    and cap: "unat req + unat (rc_slack c) * weight s x + weight s R \<le> room (f R)"
  shows "runs s (rbind (down alloc R req x 0 0) (\<lambda>(y, psa). up alloc common psa y)) c
    (\<lambda>_ g. (\<forall>y \<in> ids s. fair_at s g y) \<and> room (f R) \<le> room (g R) + unat req + unat (rc_slack c) * weight s x)"
proof -
  have dist: "distinct (xs @ x # ys)" using distinct_kids [OF ok, of common] q by simp
  have xq: "x \<in> set (kids s common)" using q by simp
  have sub: "set (sibs (xs, ys)) \<subseteq> set (kids s common) - {x}" using sibs_set [of xs ys] q dist by auto
  then have alq: "alloc \<in> set (kids s common)" "alloc \<noteq> x" using al by auto
  note ids = kid_in_ids [OF ok xq]
  have com: "common \<in> ids s" "common \<notin> desc s alloc" using ids not_desc_kid [OF ok alq(1)] by auto
  from fair [OF com] obtain a b where t: "legal (f common)" "lo (f common) \<le> a"
    "tiling a (map f (kids s common)) b" "b < hi (f common)" by (rule fair_atE)
  have kf: "fair s f y" if "y \<in> set (kids s common)" "y \<noteq> alloc" for y
  proof -
    have "z \<in> ids s \<and> z \<notin> desc s alloc" if "anc s y z" for z
      using desc_apart [OF ok \<open>y \<in> set (kids s common)\<close> alq(1)] that \<open>y \<noteq> alloc\<close> anc_ids [OF ok that]
        kid_in_ids [OF ok \<open>y \<in> set (kids s common)\<close>] by (auto simp: desc_def)
    then show ?thesis using fair by (simp add: fair_def)
  qed
  have fx: "fair s f x" by (rule kf [OF xq]) (use alq in auto)
  have rx: "room (f x) < 2 ^ 64" using fair_nonempty [OF fx] unfolding legal_def room_def by linarith
  have wx: "weight s x \<le> 2 ^ 32" using weight_le [OF ok] ids small by (meson le_less_trans less_imp_le)
  have "\<exists>psa y c1 c2 g d. down alloc R req x 0 0 c = Some (Inr (y, psa), c1)
    \<and> up alloc common psa y c1 = up alloc common psa x c2 \<and> (psa = 0 \<or> psa = rc_slack c)
    \<and> ctx_at s g c2 \<and> rc_slack c2 = rc_slack c \<and> unat d + unat (0 :: u64) = unat req + unat psa * unat (0 :: u64)
    \<and> level s alloc (sibs (xs, ys)) x d shrink shift_by grow_by f g \<and> unat d \<le> room (f x)
    \<and> room (f R) \<le> room (g R) + unat req + unat (rc_slack c) * (unat (0 :: u64) + weight s x)"
  proof (rule reclaim_path [OF ok small alq(1) c refl anc _ fx q t(3)])
    show "\<not> anc s x common" by (rule kid_not_above [OF ok xq])
    show "unat (0 :: u64) < unat req" using req weight_pos by simp
  qed (use kf sub rx wx cap req in auto)
  then obtain psa y c1 c2 g d where run: "down alloc R req x 0 0 c = Some (Inr (y, psa), c1)"
    "up alloc common psa y c1 = up alloc common psa x c2"
    and c2: "ctx_at s g c2" "rc_slack c2 = rc_slack c" and d: "unat d = unat req" "unat d \<le> room (f x)"
    and l: "level s alloc (sibs (xs, ys)) x d shrink shift_by grow_by f g"
    and room: "room (f R) \<le> room (g R) + unat req + unat (rc_slack c) * weight s x" by auto
  have st2: "rc_store c2 = with_ivs s g" using c2(1) by (simp add: ctx_at_def)
  define T where "T = insert x (touched alloc (sibs (xs, ys)))"
  have T: "T \<subseteq> set (kids s common)" "alloc \<in> T"
    using touched_subset [of alloc "sibs (xs, ys)"] sub al xq by (auto simp: T_def touched_def)
  have o: "g z = f z" if "\<And>k. k \<in> T \<Longrightarrow> z \<notin> desc s k" for z
    using l that by (auto simp: level_def off_def T_def)
  have tf: "fair s g k" if "k \<in> T" for k using l that al by (auto simp: level_def T_def touched_def)
  have ko: "g k = f k" if "k \<in> set (kids s common)" "k \<notin> T" for k
    using o [of k] desc_apart [OF ok that(1)] T(1) that by (metis disjoint_iff desc_refl subsetD)
  have "tiling a (map g (kids s common)) b"
    unfolding q
  proof (rule shift_upto [OF t(3) [unfolded q] d(2) dist al])
    show "g y = f y" if "y \<in> set xs \<union> set ys" "y \<noteq> alloc" "y \<notin> set (takeWhile (\<lambda>y. y \<noteq> alloc) (sibs (xs, ys)))" for y
      by (rule ko) (use that q dist in \<open>auto simp: T_def touched_def\<close>)
  qed (use l al in \<open>auto simp: level_def\<close>)
  moreover have "g common = f common" by (rule o) (use not_desc_kid [OF ok] T(1) in blast)
  ultimately have fc: "fair_at s g common"
    using t tiling_le [OF t(3)] by (intro fair_atI [where a = a and b = b]) auto
  have "fair_at s g z" if z: "z \<in> ids s" for z
  proof (cases "z = common \<or> (\<exists>k \<in> T. z \<in> desc s k)")
    case True
    then show ?thesis using fc tf by (auto simp: fair_def desc_def)
  next
    case False
    have "g c = f c" if "c \<in> set (kids s z)" for c
    proof (rule o)
      fix k assume k: "k \<in> T"
      show "c \<notin> desc s k"
      proof
        assume "c \<in> desc s k"
        then have "c = k" using anc_parent [OF ok that, of k] False k by (auto simp: desc_def)
        then have "z = common" using kid_in_ids [OF ok that] kid_in_ids [OF ok, of k common] T(1) k by auto
        then show False using False by simp
      qed
    qed
    moreover have "g z = f z" by (rule o) (use False in blast)
    moreover have "fair_at s f z" using fair [OF z] False T(2) by blast
    ultimately show ?thesis using fair_at_cong [of g z f s] by blast
  qed
  moreover have "rbind (down alloc R req x 0 0) (\<lambda>(y, psa). up alloc common psa y) c = Some (Inr (), c2)"
  proof -
    have "rbind (down alloc R req x 0 0) (\<lambda>(y, psa). up alloc common psa y) c = up alloc common psa y c1"
      by (simp add: rbind_Some(1) [where m = "down alloc R req x 0 0", OF run(1)])
    also have "\<dots> = Some (Inr (), c2)"
      unfolding run(2) using ids st2 by (simp add: up_eq [of alloc common psa x])
    finally show ?thesis .
  qed
  ultimately show ?thesis using c2 room by (intro runsI [where f' = g and c' = c2]) auto
qed

end

interpretation reclaim_before: reclaim_run increase_start increase increase_end "\<lambda>p. rev (fst p)"
  interval_remaining_before "\<lambda>i a b. a - lo i" fo "offset_siblings_before fo" "reclaim_down_before fo"
  "reclaim_up_before fo" for fo :: "'f f64_ops"
proof unfold_locales
  show "offset_siblings_before fo alloc current offset =
      rbind (cread (\<lambda>s. get_parent s current)) (\<lambda>parent.
      rbind (cread (\<lambda>s. get_children s parent)) (\<lambda>children.
      rbind (rread (\<lambda>_. split_children children current)) (\<lambda>p.
      offset_loop fo alloc offset increase increase_end (rev (fst p)))))" for alloc current offset
    by (simp add: offset_siblings_before_def case_prod_beta')
qed (subst reclaim_down_before.simps reclaim_up_before.simps, rule refl)+

interpretation reclaim_after: reclaim_run decrease_end decrease decrease_start snd
  interval_remaining_after "\<lambda>i a b. hi i - 1 - b" fo "offset_siblings_after fo" "reclaim_down_after fo"
  "reclaim_up_after fo" for fo :: "'f f64_ops"
proof unfold_locales
  show "offset_siblings_after fo alloc current offset =
      rbind (cread (\<lambda>s. get_parent s current)) (\<lambda>parent.
      rbind (cread (\<lambda>s. get_children s parent)) (\<lambda>children.
      rbind (rread (\<lambda>_. split_children children current)) (\<lambda>p.
      offset_loop fo alloc offset decrease decrease_start (snd p))))" for alloc current offset
    by (simp add: offset_siblings_after_def case_prod_beta')
qed (subst reclaim_down_after.simps reclaim_up_after.simps, rule refl)+

end
