(* ===== verification/ReachReindex.thy ===== *)
theory ReachReindex
  imports ReachReclaim
begin

text \<open>
  Reindexing for a new leaf, and the insertion of a block into the tree: as long as the reindex root
  has room, the insertion succeeds and leaves a well labelled tree.
\<close>

subsection \<open>The reallocation above the reindex root\<close>

lemma earlier_run:
  assumes ok: "tree_ok s r" and small: "card (ids s) < 2 ^ 32" and c: "ctx_at s f c"
    and al: "alloc \<in> set (kids s common)" and anc: "anc s common R" "common \<noteq> R" "\<not> anc s alloc R"
    and fair: "\<And>y. y \<in> ids s \<Longrightarrow> y \<notin> desc s alloc \<Longrightarrow> fair_at s f y"
    and last: "lo (f alloc) < hi (f alloc) \<or> last (kids s common) = alloc"
    and req: "unat req = weight s alloc"
    and cap: "unat (rc_slack c) * card (ids s) + 2 * card (ids s) \<le> room (f R)"
  shows "runs s (reindex_intervals_earlier_than_root fo alloc R common req) c
    (\<lambda>_ g. (\<forall>y \<in> ids s. fair_at s g y)
      \<and> room (f R) \<le> room (g R) + card (ids s) + unat (rc_slack c) * card (ids s))"
proof -
  obtain x where x: "x \<in> set (kids s common)" "anc s x R" using anc(1,2) by (auto elim: anc_cases)
  then have ne: "x \<noteq> alloc" using anc(3) by auto
  note ids = kid_in_ids [OF ok x(1)] kid_in_ids [OF ok al]
  have R: "R \<in> ids s" using anc_ids [OF ok x(2)] ids by blast
  obtain xs ys where q: "kids s common = xs @ x # ys" by (meson split_list x(1))
  have dist: "distinct (xs @ x # ys)" using distinct_kids [OF ok, of common] q by simp
  have "common \<notin> desc s alloc" using not_desc_kid [OF ok al] .
  then obtain a b where t: "tiling a (map f (kids s common)) b" using fair ids(1) by (meson fair_atE)
  have fx: "fair s f x"
  proof -
    have "z \<in> ids s \<and> z \<notin> desc s alloc" if "anc s x z" for z
      using desc_apart [OF ok x(1) al ne] that anc_ids [OF ok that] ids by (auto simp: desc_def)
    then show ?thesis using fair by (simp add: fair_def)
  qed
  have full: "lo (f k) < hi (f k)" if "k \<in> set (kids s common)" "k \<noteq> alloc \<or> lo (f alloc) < hi (f alloc)" for k
  proof (cases "k = alloc")
    case False
    then have "k \<notin> desc s alloc" using desc_apart [OF ok that(1) al] desc_refl [of k s] by blast
    then show ?thesis using fair [of k] kid_in_ids [OF ok that(1)] by (auto simp: fair_at_def)
  qed (use that in auto)
  have step: "lo (f (kids s common ! i)) < hi (f (kids s common ! i))" if "Suc i < length (kids s common)" for i
  proof (rule full)
    have "kids s common ! i \<noteq> last (kids s common)"
      using that nth_eq_iff_index_eq [OF distinct_kids [OF ok, of common], of i "length (kids s common) - 1"]
      by (cases "kids s common = []") (auto simp: last_conv_nth)
    then show "kids s common ! i \<noteq> alloc \<or> lo (f alloc) < hi (f alloc)" using last by auto
  qed (use that in simp)
  have nxt: "get_next_chain_ancestor_unchecked (with_ivs s f) R common = Inr x"
  proof (rule next_kid [OF _ _ R t _ x(1)])
    show "lo (f (kids s common ! i)) < lo (f (kids s common ! j))" if "i < j" "j < length (kids s common)" for i j
      by (rule tiling_starts [OF t step that])
    show "lo (f x) \<le> lo (f R)" "hi (f R) \<le> hi (f x)" using fair_inside [OF ok fx x(2)] by auto
    show "lo (f R) < hi (f R)" using fair_nonempty fair_below [OF fx x(2)] by blast
  qed (use ids kid_in_ids [OF ok] in auto)
  have st: "rc_store c = with_ivs s f" using c by (simp add: ctx_at_def)
  have w: "weight s x \<le> card (ids s)" "weight s alloc \<le> card (ids s)" "weight s R \<le> card (ids s)"
    using weight_le [OF ok] ids R by auto
  have mul: "unat (rc_slack c) * weight s x \<le> unat (rc_slack c) * card (ids s)" using w(1) by simp
  have cap': "unat req + unat (rc_slack c) * weight s x + weight s R \<le> room (f R)" using cap mul w req by linarith
  have weaken: "runs s m c (\<lambda>_ g. (\<forall>y \<in> ids s. fair_at s g y) \<and> room (f R) \<le> room (g R) + unat req + unat (rc_slack c) * weight s x)
      \<Longrightarrow> runs s m c (\<lambda>_ g. (\<forall>y \<in> ids s. fair_at s g y)
      \<and> room (f R) \<le> room (g R) + card (ids s) + unat (rc_slack c) * card (ids s))" for m :: "(reindex_ctx, unit) rm"
    by (erule runs_conseq, elim conjE, intro conjI, assumption) (use mul w req in linarith)
  have cases: "alloc \<in> set xs \<or> alloc \<in> set ys" using al q ne by auto
  have x0: "legal (f x)" "lo (f x) < hi (f x)" using fair_nonempty [OF fx] by auto
  show ?thesis
  proof (cases "alloc \<in> set xs")
    case True
    then have "alloc \<noteq> last (kids s common)" using q dist by auto
    then have "lo (f alloc) < hi (f alloc)" using last by auto
    moreover have "hi (f alloc) \<le> lo (f x)"
      using tiling_in [OF tiling_split(1) [OF t [unfolded q]], of "f alloc"] True by simp
    ultimately have "iv_start (f alloc) < iv_start (f x)" by (simp add: word_less_nat_alt lo_def)
    then have "reindex_intervals_earlier_than_root fo alloc R common req c =
        rbind (reclaim_down_before fo alloc R req x 0 0) (\<lambda>(y, psa). reclaim_up_before fo alloc common psa y) c"
      using st nxt ids by (simp add: reindex_intervals_earlier_than_root_def reclaim_interval_before_def)
    moreover have "runs s (rbind (reclaim_down_before fo alloc R req x 0 0) (\<lambda>(y, psa). reclaim_up_before fo alloc common psa y)) c
        (\<lambda>_ g. (\<forall>y \<in> ids s. fair_at s g y) \<and> room (f R) \<le> room (g R) + unat req + unat (rc_slack c) * weight s x)"
      by (rule reclaim_before.reclaim_all [OF ok small c q _ x(2) fair req cap']) (use True in simp_all)
    ultimately show ?thesis using weaken by (simp add: runs_def)
  next
    case False
    then have ys: "alloc \<in> set ys" using cases by blast
    have "hi (f x) \<le> lo (f alloc)" using tiling_in [OF tiling_split(3) [OF t [unfolded q]], of "f alloc"] ys by simp
    then have "\<not> iv_start (f alloc) < iv_start (f x)" using x0(2) by (simp add: word_less_nat_alt lo_def)
    then have "reindex_intervals_earlier_than_root fo alloc R common req c =
        rbind (reclaim_down_after fo alloc R req x 0 0) (\<lambda>(y, psa). reclaim_up_after fo alloc common psa y) c"
      using st nxt ids by (simp add: reindex_intervals_earlier_than_root_def reclaim_interval_after_def)
    moreover have "runs s (rbind (reclaim_down_after fo alloc R req x 0 0) (\<lambda>(y, psa). reclaim_up_after fo alloc common psa y)) c
        (\<lambda>_ g. (\<forall>y \<in> ids s. fair_at s g y) \<and> room (f R) \<le> room (g R) + unat req + unat (rc_slack c) * weight s x)"
      by (rule reclaim_after.reclaim_all [OF ok small c q _ x(2) fair req cap']) (use ys in simp_all)
    ultimately show ?thesis using weaken by (simp add: runs_def)
  qed
qed

subsection \<open>The loop\<close>

lemma propagate_fixes:
  assumes ok: "tree_ok s r" and small: "card (ids s) < 2 ^ 32" and c: "ctx_at s f c" and x: "x \<in> ids s" "fits s f x"
    and rest: "\<And>y. y \<in> ids s \<Longrightarrow> y \<notin> desc s x \<Longrightarrow> fair_at s f y"
  shows "runs s (propagate_interval fo x) c (\<lambda>_ g. (\<forall>y \<in> ids s. fair_at s g y) \<and> off (below s x) f g)"
proof (rule runs_conseq [OF propagate_interval_run [OF ok small c x]])
  fix u g assume g: "fair s g x \<and> off (below s x) f g"
  have "fair_at s g y" if y: "y \<in> ids s" for y
  proof (cases "y \<in> desc s x")
    case True
    then show ?thesis using g by (simp add: fair_def desc_def)
  next
    case False
    have "k \<notin> below s x" if "k \<in> set (kids s y)" for k
      using False anc_parent [OF ok that, of x] by (auto simp: in_below desc_def)
    moreover have "y \<notin> below s x" using False by (simp add: below_def)
    ultimately have "fair_at s g y \<longleftrightarrow> fair_at s f y" using g by (intro fair_at_cong) (auto simp: off_def)
    then show ?thesis using rest [OF y False] by simp
  qed
  then show "(\<forall>y \<in> ids s. fair_at s g y) \<and> off (below s x) f g" using g by blast
qed

text \<open>One round: the subtree is counted, and relabelled when it fits.\<close>

lemma reindex_round:
  assumes ok: "tree_ok s r" and small: "card (ids s) < 2 ^ 32" and x: "x \<in> ids s" and lx: "legal (f x)"
    and c: "ctx_at s f c"
  obtains c1 w where "ctx_at s f c1" "rc_slack c1 = rc_slack c" "unat w = weight s x"
    "reindex_loop fo x R c =
      (if weight s x \<le> room (f x) then propagate_interval fo x c1
       else if blk_is_none (par s x) then Some (Inl (DataOverflow None), c1)
       else if x = R then Some (Inl (DataOverflow (Some R)), c1)
       else rbind (cread (\<lambda>s. is_strict_chain_ancestor_of s (par s x) R)) (\<lambda>earlier.
         if earlier then reindex_intervals_earlier_than_root fo x R (par s x) w
         else (\<lambda>c. reindex_loop fo (par s x) R c)) c1)"
proof -
  from count_subtrees_ok [OF ok small x c] obtain m where
    m: "count_subtrees x c = Some (Inr (), c\<lparr>rc_subtree_sizes := m\<rparr>)" "sized s m" "m x \<noteq> None" by blast
  then obtain w where w: "m x = Some w" "unat w = weight s x" using sizedD(1) by blast
  define c1 where "c1 = c\<lparr>rc_subtree_sizes := m\<rparr>"
  have st: "rc_store c = with_ivs s f" "rc_store c1 = with_ivs s f" "rc_subtree_sizes c1 = m"
    using c by (simp_all add: ctx_at_def c1_def)
  have le: "w \<le> iv_size (f x) \<longleftrightarrow> weight s x \<le> room (f x)"
    using w(2) unat_iv_size [OF lx] by (simp add: word_le_nat_alt room_def)
  have size: "rbind (subtree_size x) k c1 = k w c1" for k :: "u64 \<Rightarrow> (reindex_ctx, unit) rm"
    using w(1) st(3) by (simp add: subtree_size_def)
  have run: "reindex_loop fo x R c =
      (if weight s x \<le> room (f x) then propagate_interval fo x c1
       else if blk_is_none (par s x) then Some (Inl (DataOverflow None), c1)
       else if x = R then Some (Inl (DataOverflow (Some R)), c1)
       else rbind (cread (\<lambda>s. is_strict_chain_ancestor_of s (par s x) R)) (\<lambda>earlier.
         if earlier then reindex_intervals_earlier_than_root fo x R (par s x) w
         else (\<lambda>c. reindex_loop fo (par s x) R c)) c1)"
    using st x
    by (subst reindex_loop.simps)
      (simp add: rbind_Some(1) [where m = "count_subtrees x", OF m(1) [folded c1_def]] size le)
  show thesis
    by (rule that [OF _ _ w(2) run]) (use c m(2) in \<open>simp_all add: ctx_at_def c1_def\<close>)
qed

lemma reindex_loop_run:
  assumes ok: "tree_ok s r" and small: "card (ids s) < 2 ^ 32" and n: "n \<in> ids s" and R: "R \<in> ids s"
    and fair: "\<And>y. y \<in> ids s \<Longrightarrow> y \<noteq> n \<Longrightarrow> fair_at s f y" and ln: "legal (f n)"
    and last: "\<And>p. n \<in> set (kids s p) \<Longrightarrow> last (kids s p) = n"
    and chain: "\<And>p. p \<in> ids s \<Longrightarrow> p \<noteq> n \<Longrightarrow>
      is_strict_chain_ancestor_of (with_ivs s f) p R = Inr (anc s p R \<and> p \<noteq> R)"
    and nR: "n \<noteq> R" "kids s n = []"
    and x: "anc s x n" "\<not> (anc s x R \<and> x \<noteq> R)"
    and c: "ctx_at s f c" and cap: "unat (rc_slack c) * card (ids s) + 2 * card (ids s) \<le> room (f R)"
  shows "runs s (reindex_loop fo x R) c (\<lambda>_ g. (\<forall>y \<in> ids s. fair_at s g y)
      \<and> room (f R) \<le> room (g R) + card (ids s) + unat (rc_slack c) * card (ids s))"
proof -
  define P where "P = (\<lambda>(_ :: unit) g. (\<forall>y \<in> ids s. fair_at s g y)
      \<and> room (f R) \<le> room (g R) + card (ids s) + unat (rc_slack c) * card (ids s))"
  have lx: "legal (f x)" if "x \<in> ids s" for x using fair [OF that] ln by (cases "x = n") (auto simp: fair_at_def)
  have fits: "runs s (propagate_interval fo x) c1 P"
    if "ctx_at s f c1" "x \<in> ids s" "weight s x \<le> room (f x)" "anc s x n" "\<not> (anc s x R \<and> x \<noteq> R)" for x c1
  proof (rule runs_conseq)
    show "runs s (propagate_interval fo x) c1 (\<lambda>_ g. (\<forall>y \<in> ids s. fair_at s g y) \<and> off (below s x) f g)"
      using that lx by (intro propagate_fixes [OF ok small] fair) (auto simp: fits_def desc_def)
    have "R \<notin> below s x" using that(5) by (simp add: in_below)
    then show "P u g" if "(\<forall>y \<in> ids s. fair_at s g y) \<and> off (below s x) f g" for u g
      using that by (simp add: P_def off_def)
  qed
  have enough: "weight s R \<le> room (f R)" using weight_le [OF ok R] cap by linarith
  have xi: "x \<in> ids s" using anc_ids [OF ok x(1)] n by blast
  then have "anc s r x" using anc_root [OF ok] by blast
  then have "\<forall>c'. ctx_at s f c' \<longrightarrow> rc_slack c' = rc_slack c \<longrightarrow> runs s (reindex_loop fo x R) c' P"
    using x
  proof (induction rule: anc_induct)
    case root
    have rR: "r = R" using root anc_root [OF ok] R by blast
    show ?case
    proof (intro allI impI)
      fix c' assume c': "ctx_at s f c'" "rc_slack c' = rc_slack c"
      from reindex_round [OF ok small _ lx c'(1), of r fo R] R rR obtain c1 where
        c1: "ctx_at s f c1" "rc_slack c1 = rc_slack c'"
        "weight s r \<le> room (f r) \<Longrightarrow> reindex_loop fo r R c' = propagate_interval fo r c1" by metis
      then show "runs s (reindex_loop fo r R) c' P"
        using fits [OF c1(1), of r] enough root R rR by (simp add: runs_def)
    qed
  next
    case (kid p x)
    note ids = kid_in_ids [OF ok kid(2)]
    have xnR: "\<not> anc s x R" if "x \<noteq> R" using kid.prems(2) that by blast
    show ?case
    proof (intro allI impI)
      fix c' assume c': "ctx_at s f c'" "rc_slack c' = rc_slack c"
      from ids have xids: "x \<in> ids s" by blast
      from reindex_round [OF ok small xids lx [OF xids] c'(1), of fo R] obtain c1 w where
        c1: "ctx_at s f c1" "rc_slack c1 = rc_slack c'" and w: "unat w = weight s x"
        and run: "reindex_loop fo x R c' =
          (if weight s x \<le> room (f x) then propagate_interval fo x c1
           else if blk_is_none (par s x) then Some (Inl (DataOverflow None), c1)
           else if x = R then Some (Inl (DataOverflow (Some R)), c1)
           else rbind (cread (\<lambda>s. is_strict_chain_ancestor_of s (par s x) R)) (\<lambda>earlier.
             if earlier then reindex_intervals_earlier_than_root fo x R (par s x) w
             else (\<lambda>c. reindex_loop fo (par s x) R c)) c1)" .
      have sl: "rc_slack c1 = rc_slack c" using c1(2) c'(2) by simp
      show "runs s (reindex_loop fo x R) c' P"
      proof (cases "weight s x \<le> room (f x)")
        case True
        then show ?thesis using fits [OF c1(1) xids True kid.prems] run c1(2) by (simp add: runs_def)
      next
        case False
        have pn: "p \<noteq> n" using nR(2) kid(2) by auto
        have ppar: "par s x = p" "p \<in> ids s" "\<not> blk_is_none p"
          using ids ok by (auto simp: blk_is_none_def tree_ok_def)
        have xR: "x \<noteq> R" using False enough by auto
        have st: "rc_store c1 = with_ivs s f" using c1(1) by (simp add: ctx_at_def)
        show ?thesis
        proof (cases "anc s p R \<and> p \<noteq> R")
          case True
          have eq: "reindex_loop fo x R c' = reindex_intervals_earlier_than_root fo x R p w c1"
            using run False xR ppar st chain [OF ppar(2) pn] True by simp
          have "runs s (reindex_intervals_earlier_than_root fo x R p w) c1
            (\<lambda>_ g. (\<forall>y \<in> ids s. fair_at s g y)
              \<and> room (f R) \<le> room (g R) + card (ids s) + unat (rc_slack c1) * card (ids s))"
          proof (rule earlier_run [OF ok small c1(1) kid(2) _ _ xnR [OF xR] fair _ w])
            show "y \<noteq> n" if "y \<notin> desc s x" for y using that kid.prems(1) by (auto simp: desc_def)
            show "lo (f x) < hi (f x) \<or> last (kids s p) = x"
              using fair [OF xids] last [of p] kid(2) by (cases "x = n") (auto simp: fair_at_def)
          qed (use True cap sl in auto)
          then show ?thesis using eq sl c1(2) by (simp add: runs_def P_def)
        next
          case notabove: False
          have "reindex_loop fo x R c' = reindex_loop fo p R c1"
            using run False xR ppar st chain [OF ppar(2) pn] notabove by simp
          moreover have "anc s p n" using anc_trans [OF anc_kid [OF kid(2)] kid.prems(1)] .
          ultimately show ?thesis using kid.IH notabove c1 sl by (simp add: runs_def)
        qed
      qed
    qed
  qed
  then show ?thesis using c unfolding P_def by blast
qed

subsection \<open>Inserting a block\<close>

lemma with_ctx_runs:
  assumes "runs s m (reindex_ctx_new (with_ivs s f) depth slack) P"
  obtains x g where "with_ctx depth slack m (with_ivs s f) = Some (Inr x, with_ivs s g)" "P x g"
  using assms by (auto simp: with_ctx_def ctx_at_def elim!: runsE)

lemma ctx_at_new: "ctx_at s f (reindex_ctx_new (with_ivs s f) depth slack)"
  "rc_slack (reindex_ctx_new st depth slack) = slack"
  by (simp_all add: ctx_at_def reindex_ctx_new_def sized_def)

lemma root_with_ivs_grow: "p \<in> ids s \<Longrightarrow> ms_reindex_root (grow s p n i) = ms_reindex_root s"
  by (auto simp: grow_def split: option.split)

lemma get_interval_eq: "b \<in> ids s \<Longrightarrow> b \<in> ids s' \<Longrightarrow> iv s b = iv s' b \<Longrightarrow> get_interval s b = get_interval s' b"
  by simp

lemma add_tree_block_ok:
  assumes ok: "tree_ok s r" "iv_ok s" and p: "p \<in> ids s" and n: "n \<notin> ids s" "n \<noteq> NONE"
    and R: "ms_reindex_root s = Some R" "R \<in> ids s" and small: "Suc (card (ids s)) < 2 ^ 32"
    and cap: "unat slack * Suc (card (ids s)) + 2 * Suc (card (ids s)) \<le> room (iv s R)"
  shows "\<exists>s'. add_tree_block fo n p depth slack s = Some (Inr (), s') \<and> grown s p n s'
    \<and> ms_reindex_root s' = Some R
    \<and> room (iv s R) \<le> room (iv s' R) + Suc (card (ids s)) + unat slack * Suc (card (ids s))"
proof -
  have sub: "set (kids s p) \<subseteq> ids s" using kid_in_ids [OF ok(1)] by blast
  obtain i a where i: "interval_remaining_after s p = Inr i" "legal i" "hi i = hi (iv s p) - 1"
    and t: "lo (iv s p) \<le> a" "tiling a (map (iv s) (kids s p)) (lo i)" "lo i < hi (iv s p)"
    using interval_remaining_after_spec [OF ok(2) p sub] by blast
  note views = grow_views [OF p n(1)]
  have Rn: "R \<noteq> n" using R(2) n(1) by blast
  show ?thesis
  proof (cases "lo i < hi i")
    case True
    from add_tree_block_room [OF ok p n(1) i(1) True, of fo depth slack]
    have "add_tree_block fo n p depth slack s = Some (Inr (), grow s p n (fst (split_half i)))"
      "grown s p n (grow s p n (fst (split_half i)))"
      unfolding grown_def using with_ivs_iv by metis+
    then show ?thesis using R Rn p n by (simp add: views root_with_ivs_grow)
  next
    case False
    then have empty: "lo i = hi i" using i(2) by (simp add: legal_def)
    define s2 where "s2 = grow s p n i"
    define f where "f = (iv s)(n := i)"
    note v = views [of i, folded s2_def]
    have s2: "with_ivs s2 f = s2" using with_ivs_iv [of s2] v(4) by (simp add: f_def)
    have ok2: "tree_ok s2 r" unfolding s2_def by (rule tree_ok_grow [OF ok(1) p n])
    have card2: "card (ids s2) = Suc (card (ids s))" using n(1) by (simp add: v(1))
    have kn: "kids s2 n = []" using kids_outside [OF n(1)] p n(1) by (auto simp: v(2))
    have nk: "n \<notin> set (kids s q)" for q using kid_in_ids [OF ok(1)] n(1) by blast
    have anc2: "anc s2 a b \<longleftrightarrow> anc s a b \<or> b = n \<and> anc s a p" for a b
      unfolding s2_def by (rule anc_grow [OF ok(1) p n(1)])
    have keep: "map f (kids s q) = map (iv s) (kids s q)" for q
      using nk [of q] by (auto simp: f_def intro!: map_cong)
    have fair: "fair_at s2 f y" if "y \<in> ids s2" "y \<noteq> n" for y
    proof -
      have y: "y \<in> ids s" using that v(1) by simp
      note iy = iv_okD [OF ok(2) y]
      have fy: "f y = iv s y" using that(2) by (simp add: f_def)
      show ?thesis
      proof (cases "y = p")
        case True
        have "tiling a (map f (kids s p)) (lo i)" using t(2) by (simp only: keep)
        moreover have "map f (kids s2 p) = map f (kids s p) @ [i]" by (simp add: v(2) f_def)
        ultimately have "tiling a (map f (kids s2 y)) (hi i)"
          using i(2) empty True by (auto simp only: tiling_append tiling.simps)
        then show ?thesis using iy fy t True i(3) empty
          by (intro fair_atI [where a = a and b = "hi i"]) (auto simp: legal_def)
      next
        case False
        have "kids s2 y = kids s y" using False by (simp add: v(2))
        then have "fair_at s2 f y \<longleftrightarrow> fair_at s (iv s) y" unfolding fair_at_def by (simp only: fy keep)
        then show ?thesis using ok(2) y by (simp add: iv_ok_fair)
      qed
    qed
    have chain: "is_strict_chain_ancestor_of (with_ivs s2 f) q R = Inr (anc s2 q R \<and> q \<noteq> R)"
      if "q \<in> ids s2" "q \<noteq> n" for q
    proof -
      have q: "q \<in> ids s" using that v(1) by simp
      have "is_strict_chain_ancestor_of s2 q R = is_strict_chain_ancestor_of s q R"
        using q R(2) that Rn by (simp add: is_strict_chain_ancestor_of_def v)
      then show ?thesis
        using is_strict_chain_ancestor_of_eq [OF ok q R(2)] anc2 [of q R] Rn by (simp add: s2)
    qed
    have "runs s2 (reindex_loop fo n R) (reindex_ctx_new (with_ivs s2 f) depth slack)
      (\<lambda>_ g. (\<forall>y \<in> ids s2. fair_at s2 g y)
        \<and> room (f R) \<le> room (g R) + card (ids s2) + unat (rc_slack (reindex_ctx_new (with_ivs s2 f) depth slack)) * card (ids s2))"
    proof (rule reindex_loop_run [OF ok2 _ _ _ fair _ _ chain _ kn])
      show "last (kids s2 q) = n" if "n \<in> set (kids s2 q)" for q
        using that nk [of q] by (auto simp: v(2) split: if_splits)
      show "\<not> (anc s2 n R \<and> n \<noteq> R)" using kn by (auto elim: anc_cases)
    qed (use small cap R Rn i(2) n(1) in \<open>auto simp: v(1) f_def ctx_at_new\<close>)
    then obtain g where g: "with_ctx depth slack (reindex_intervals fo n R) s2 = Some (Inr (), with_ivs s2 g)"
      "\<forall>y \<in> ids s2. fair_at s2 g y" "room (f R) \<le> room (g R) + card (ids s2) + unat slack * card (ids s2)"
      unfolding reindex_intervals_def by (elim with_ctx_runs) (auto simp: ctx_at_new s2)
    have "grown s p n (with_ivs s2 g)"
      unfolding grown_def using iv_ok_with_ivs [OF ok2, of g] g(2) by (auto simp: s2_def)
    moreover have "iv (with_ivs s2 g) R = g R" "f R = iv s R" using R(2) Rn by (simp_all add: v(1) f_def)
    moreover have "add_tree_block fo n p depth slack s = Some (Inr (), with_ivs s2 g)"
    proof -
      obtain d where d: "ms_map s p = Some d" using p by (auto simp: ids_def)
      have "ms_map s n = None" "p \<noteq> n" using p n(1) by (auto simp: ids_def)
      then have "add_tree_block fo n p depth slack s = with_ctx depth slack (reindex_intervals fo n R) s2"
        using d i(1) iv_is_empty_iff [OF i(2)] empty R(1)
        by (simp add: add_tree_block_def append_child_def get_data_def put_data_def rwrite_def rbind_def
            get_height_def store_insert_def grow_def s2_def get_reindex_root_def)
      then show ?thesis using g(1) by simp
    qed
    moreover have "ms_reindex_root (with_ivs s2 g) = Some R" using R(1) p by (simp add: s2_def root_with_ivs_grow)
    ultimately show ?thesis using g(3) card2 by auto
  qed
qed

end
