(* ===== verification/ReachAdvance.thy ===== *)
theory ReachAdvance
  imports ReachReindex
begin

text \<open>
  Moving the reindex root.  On the way from the old root (or the common ancestor) to the new one, every
  sibling of the chain is tightened to the size of its subtree and the chain gets all the rest.  The
  advance ends, keeps the labelling, and the new root has as much room as the old one up to the
  tightened subtrees and two slacks per step.
\<close>

subsection \<open>Placing siblings\<close>

lemma concentrate_sizes_run:
  assumes ok: "tree_ok s r" and small: "card (ids s) < 2 ^ 32" and "ctx_at s f c" "set bs \<subseteq> ids s"
  shows "runs s (concentrate_sizes bs) c (\<lambda>ns g. map unat ns = map (weight s) bs \<and> with_ivs s g = with_ivs s f)"
  using assms(3,4)
proof (induction bs arbitrary: c)
  case Nil
  then show ?case by (auto simp del: rm_simps intro!: runs_rret)
next
  case (Cons b bs)
  from count_subtrees_ok [OF ok small _ Cons.prems(1), of b] Cons.prems(2) obtain m where
    m: "count_subtrees b c = Some (Inr (), c\<lparr>rc_subtree_sizes := m\<rparr>)" "sized s m" "m b \<noteq> None" by auto
  then obtain w where w: "m b = Some w" "unat w = weight s b" using sizedD(1) by blast
  define c1 where "c1 = c\<lparr>rc_subtree_sizes := m\<rparr>"
  have c1: "ctx_at s f c1" "rc_slack c1 = rc_slack c" using Cons.prems(1) m(2) by (simp_all add: ctx_at_def c1_def)
  from Cons.IH [OF c1(1)] Cons.prems(2) obtain ns c2 g where
    2: "concentrate_sizes bs c1 = Some (Inr ns, c2)" "ctx_at s g c2" "rc_slack c2 = rc_slack c1"
      "map unat ns = map (weight s) bs" "with_ivs s g = with_ivs s f" by (auto elim!: runsE)
  have "rbind (subtree_size b) k c1 = k w c1" for k :: "u64 \<Rightarrow> (reindex_ctx, u64 list) rm"
    using w(1) by (simp add: subtree_size_def c1_def)
  then have "concentrate_sizes (b # bs) c = Some (Inr (w # ns), c2)"
    by (simp add: rbind_Some(1) [where m = "count_subtrees b", OF m(1) [folded c1_def]]
        rbind_Some(1) [where m = "concentrate_sizes bs", OF 2(1)])
  moreover have "map unat (w # ns) = map (weight s) (b # bs)" using 2(4) w(2) by simp
  ultimately show ?case using 2(2,3,5) c1(2) by (intro runsI [where c' = c2 and f' = g and x = "w # ns"]) auto
qed

definition placed :: "mem_store \<Rightarrow> blk list \<Rightarrow> interval list \<Rightarrow> (blk \<Rightarrow> interval) \<Rightarrow> (blk \<Rightarrow> interval) \<Rightarrow> bool" where
  "placed s bs ivs f g \<longleftrightarrow> map g bs = ivs \<and> (\<forall>b \<in> set bs. fair s g b) \<and> off (\<Union>b \<in> set bs. desc s b) f g"

lemma set_propagate_run:
  assumes ok: "tree_ok s r" and small: "card (ids s) < 2 ^ 32" and c: "ctx_at s f c" and b: "b \<in> ids s"
    and i: "legal i" "weight s b \<le> room i"
  shows "runs s (rbind (cwrite (set_interval b i)) (\<lambda>_. propagate_interval fo b)) c
    (\<lambda>_ g. fair s g b \<and> g b = i \<and> off (desc s b) f g)"
proof (rule runs_rbind)
  show "runs s (cwrite (set_interval b i)) c (\<lambda>_ g. g = f(b := i))" by (rule runs_set_interval [OF c b]) simp
next
  fix u :: unit and g c' assume g: "ctx_at s g c'" "g = f(b := i)"
  show "runs s (propagate_interval fo b) c' (\<lambda>_ h. fair s h b \<and> h b = i \<and> off (desc s b) f h)"
  proof (rule runs_conseq)
    show "runs s (propagate_interval fo b) c' (\<lambda>_ h. fair s h b \<and> off (below s b) g h)"
      using i g by (intro propagate_interval_run [OF ok small g(1) b]) (simp add: fits_def)
    show "fair s h b \<and> h b = i \<and> off (desc s b) f h" if "fair s h b \<and> off (below s b) g h" for v h
      using that g(2) by (auto simp: off_def below_def)
  qed
qed

lemma place_siblings_run:
  assumes ok: "tree_ok s r" and small: "card (ids s) < 2 ^ 32" and "ctx_at s f c"
    and "set bs \<subseteq> set (kids s q)" "distinct bs" "list_all2 (\<lambda>b i. legal i \<and> weight s b \<le> room i) bs ivs"
  shows "runs s (place_siblings fo bs ivs) c (\<lambda>_ g. placed s bs ivs f g)"
  using assms(3-)
proof (induction bs arbitrary: ivs f c)
  case Nil
  then show ?case by (auto simp: place_siblings_def placed_def simp del: rm_simps intro!: runs_rret)
next
  case (Cons b bs)
  then obtain i is' where ivs: "ivs = i # is'" by (cases ivs) auto
  have b: "b \<in> set (kids s q)" "b \<in> ids s" using Cons.prems(2) kid_in_ids [OF ok] by auto
  have eq: "place_siblings fo (b # bs) ivs =
      rbind (rbind (cwrite (set_interval b i)) (\<lambda>_. propagate_interval fo b)) (\<lambda>_. place_siblings fo bs is')"
    by (simp add: place_siblings_def ivs)
  show ?case unfolding eq
  proof (rule runs_rbind)
    show "runs s (rbind (cwrite (set_interval b i)) (\<lambda>_. propagate_interval fo b)) c
        (\<lambda>_ g. fair s g b \<and> g b = i \<and> off (desc s b) f g)"
      using Cons.prems by (intro set_propagate_run [OF ok small _ b(2)]) (simp_all add: ivs)
  next
    fix u :: unit and g c' assume c': "ctx_at s g c'" and g: "fair s g b \<and> g b = i \<and> off (desc s b) f g"
    have disj: "desc s b \<inter> desc s z = {}" if "z \<in> set bs" for z
      by (rule desc_apart [OF ok b(1)]) (use Cons.prems(2,3) that in auto)
    have "runs s (place_siblings fo bs is') c' (\<lambda>_ h. placed s bs is' g h)"
      by (rule Cons.IH [OF c']) (use Cons.prems in \<open>auto simp: ivs\<close>)
    then show "runs s (place_siblings fo bs is') c' (\<lambda>_ h. placed s (b # bs) ivs f h)"
    proof (rule runs_conseq)
      fix v h assume h: "placed s bs is' g h"
      have hb: "h z = g z" if "z \<in> desc s b" for z
        using h disj that unfolding placed_def off_def by blast
      then have "fair s h b" "h b = i" using g fair_cong [of s b h g] by (auto simp: desc_def)
      moreover have "off (\<Union>z \<in> set (b # bs). desc s z) f h" using g h by (auto simp: placed_def off_def)
      ultimately show "placed s (b # bs) ivs f h" using h by (auto simp: placed_def ivs)
    qed
  qed
qed

subsection \<open>Concentrating on a child\<close>

lemma sum_unat: "sum_list (map unat ns) < 2 ^ 64 \<Longrightarrow> unat (sum_list ns :: u64) = sum_list (map unat ns)"
  using unat_sum_list [of ns] by (simp add: sizes_sum_def)

lemma rooms_fit:
  "length ivs = length ns \<Longrightarrow> map (\<lambda>j. hi j - lo j) ivs = map unat ns \<Longrightarrow> map unat ns = map (weight s) bs \<Longrightarrow>
   tiling a ivs b \<Longrightarrow> list_all2 (\<lambda>b i. legal i \<and> weight s b \<le> room i) bs ivs"
proof -
  assume a: "length ivs = length ns" "map (\<lambda>j. hi j - lo j) ivs = map unat ns" "map unat ns = map (weight s) bs"
    "tiling a ivs b"
  have len: "length bs = length ivs" using a(1) arg_cong [OF a(3), of length] by simp
  have "hi (ivs ! j) - lo (ivs ! j) = weight s (bs ! j)" if "j < length ivs" for j
    using map_eq_nth [OF a(2), of j] map_eq_nth [OF a(3), of j] a(1) len that by simp
  moreover have "legal (ivs ! j)" if "j < length ivs" for j using tiling_in [OF a(4)] that by simp
  ultimately show ?thesis using len by (auto simp: list_all2_conv_all_nth room_def)
qed

definition mass :: "mem_store \<Rightarrow> blk list \<Rightarrow> nat" where
  "mass s bs = sum_list (map (weight s) bs)"

lemma tighten_before_run:
  assumes ok: "tree_ok s r" and small: "card (ids s) < 2 ^ 32" and c: "ctx_at s f c"
    and bs: "set bs \<subseteq> set (kids s p)" "distinct bs" and p: "p \<in> ids s" "legal (f p)"
    and cap: "unat (rc_slack c) + mass s bs \<le> room (f p)"
  shows "runs s (tighten_intervals_before fo p bs) c (\<lambda>n g. unat n = mass s bs
    \<and> (\<exists>ivs. placed s bs ivs f g
      \<and> tiling (lo (f p) + unat (rc_slack c)) ivs (lo (f p) + unat (rc_slack c) + mass s bs)))"
  unfolding tighten_intervals_before_def
proof (rule runs_rbind)
  show "runs s (concentrate_sizes bs) c (\<lambda>ns g. map unat ns = map (weight s) bs \<and> with_ivs s g = with_ivs s f)"
    by (rule concentrate_sizes_run [OF ok small c]) (use bs(1) kid_in_ids [OF ok] in blast)
next
  fix ns :: "u64 list" and g c' assume c': "ctx_at s g c'" "rc_slack c' = rc_slack c"
    and ns: "map unat ns = map (weight s) bs \<and> with_ivs s g = with_ivs s f"
  then have cf: "ctx_at s f c'" by (simp add: ctx_at_def)
  have tot: "sum_list (map unat ns) = mass s bs" using ns by (simp add: mass_def)
  have room: "lo (f p) + unat (rc_slack c) + mass s bs < 2 ^ 64" "0 < lo (f p)"
    using p(2) cap unfolding legal_def room_def by linarith+
  have sum: "unat (sum_list ns) = mass s bs" using tot room by (simp add: sum_unat)
  define st where "st = iv_start (f p) + rc_slack c'"
  have st: "unat st = lo (f p) + unat (rc_slack c)"
    unfolding st_def using room c'(2) by (subst unat_add_u64) (simp_all add: lo_def)
  define i where "i = iv_new st (st + sum_list ns - 1)"
  have i: "legal i" "lo i = unat st" "hi i = unat st + mass s bs"
    using part_legal [of st "sum_list ns"] st sum room by (simp_all add: i_def)
  have ss: "sizes_sum ns = hi i - lo i" using tot i by (simp add: sizes_sum_def)
  from split_exact_splits [OF i(1) ss] obtain ivs where
    ivs: "split_exact i ns = Some ivs" "splits i ivs" "length ivs = length ns"
      "map (\<lambda>j. hi j - lo j) ivs = map unat ns" by blast
  have t: "tiling (lo (f p) + unat (rc_slack c)) ivs (lo (f p) + unat (rc_slack c) + mass s bs)"
    using ivs(2) i st by (simp add: splits_def)
  have gi: "get_interval (rc_store c') p = Inr (f p)" using cf p(1) by (simp add: ctx_at_def)
  have rr: "ok_or ReachPanic (split_exact (iv_new (iv_start (f p) + rc_slack c')
      (iv_start (f p) + rc_slack c' + sum_list ns - 1)) ns) = Inr ivs"
    using ivs(1) by (simp add: i_def st_def)
  have "runs s (rbind (place_siblings fo bs ivs) (\<lambda>_. rret (sum_list ns))) c'
    (\<lambda>n g. unat n = mass s bs \<and> (\<exists>ivs. placed s bs ivs f g
      \<and> tiling (lo (f p) + unat (rc_slack c)) ivs (lo (f p) + unat (rc_slack c) + mass s bs)))"
  proof (rule runs_rbind)
    show "runs s (place_siblings fo bs ivs) c' (\<lambda>_ g. placed s bs ivs f g)"
      by (rule place_siblings_run [OF ok small cf bs rooms_fit [OF ivs(3,4) _ t]]) (use ns in simp)
    show "runs s (rret (sum_list ns)) c2 (\<lambda>n g. unat n = mass s bs \<and> (\<exists>ivs. placed s bs ivs f g
        \<and> tiling (lo (f p) + unat (rc_slack c)) ivs (lo (f p) + unat (rc_slack c) + mass s bs)))"
      if "ctx_at s h c2" "placed s bs ivs f h" for u :: unit and h c2
      using that t sum by (intro runs_rret) auto
  qed
  then show "runs s (let sum = sum_list ns in
     rbind (cread (\<lambda>s. get_interval s p)) (\<lambda>i.
     rbind (rread (\<lambda>c. let st = iv_start i + rc_slack c in
       ok_or ReachPanic (split_exact (iv_new st (st + sum - 1)) ns))) (\<lambda>ivs.
     rbind (place_siblings fo bs ivs) (\<lambda>_. rret sum)))) c'
    (\<lambda>n g. unat n = mass s bs \<and> (\<exists>ivs. placed s bs ivs f g
      \<and> tiling (lo (f p) + unat (rc_slack c)) ivs (lo (f p) + unat (rc_slack c) + mass s bs)))"
    unfolding Let_def by (intro runs_cread [where x = "f p"] runs_rread [where x = ivs]) (simp_all add: gi rr)
qed

lemma tighten_after_run:
  assumes ok: "tree_ok s r" and small: "card (ids s) < 2 ^ 32" and c: "ctx_at s f c"
    and bs: "set bs \<subseteq> set (kids s p)" "distinct bs" and p: "p \<in> ids s" "legal (f p)"
    and cap: "unat (rc_slack c) + mass s bs < room (f p)"
  shows "runs s (tighten_intervals_after fo p bs) c (\<lambda>n g. unat n = mass s bs
    \<and> (\<exists>ivs. placed s bs ivs f g
      \<and> tiling (hi (f p) - 1 - unat (rc_slack c) - mass s bs) ivs (hi (f p) - 1 - unat (rc_slack c))))"
  unfolding tighten_intervals_after_def
proof (rule runs_rbind)
  show "runs s (concentrate_sizes bs) c (\<lambda>ns g. map unat ns = map (weight s) bs \<and> with_ivs s g = with_ivs s f)"
    by (rule concentrate_sizes_run [OF ok small c]) (use bs(1) kid_in_ids [OF ok] in blast)
next
  fix ns :: "u64 list" and g c' assume c': "ctx_at s g c'" "rc_slack c' = rc_slack c"
    and ns: "map unat ns = map (weight s) bs \<and> with_ivs s g = with_ivs s f"
  then have cf: "ctx_at s f c'" by (simp add: ctx_at_def)
  have tot: "sum_list (map unat ns) = mass s bs" using ns by (simp add: mass_def)
  have room: "lo (f p) + unat (rc_slack c) + mass s bs < hi (f p)" "0 < lo (f p)" "hi (f p) < 2 ^ 64"
    using p(2) cap unfolding legal_def room_def by linarith+
  have sum: "unat (sum_list ns) = mass s bs" using tot room by (simp add: sum_unat)
  define en where "en = iv_end (f p) - rc_slack c'"
  have ie: "unat (iv_end (f p)) = hi (f p) - 1" by (simp add: hi_def)
  have en: "unat en = hi (f p) - 1 - unat (rc_slack c)"
    unfolding en_def using room c'(2) ie by (subst unat_sub_u64) simp_all
  have a: "unat (en - sum_list ns) = unat en - mass s bs" using en room sum by (subst unat_sub_u64) simp_all
  have b: "unat (en - 1) = unat en - 1" using en room by (intro unat_pred_u64) simp
  define i where "i = iv_new (en - sum_list ns) (en - 1)"
  have i: "lo i = unat en - mass s bs" "hi i = unat en" "legal i"
    using a b en room by (auto simp: i_def lo_def hi_def legal_def)
  have ss: "sizes_sum ns = hi i - lo i" using tot i en room by (simp add: sizes_sum_def)
  from split_exact_splits [OF i(3) ss] obtain ivs where
    ivs: "split_exact i ns = Some ivs" "splits i ivs" "length ivs = length ns"
      "map (\<lambda>j. hi j - lo j) ivs = map unat ns" by blast
  have t: "tiling (hi (f p) - 1 - unat (rc_slack c) - mass s bs) ivs (hi (f p) - 1 - unat (rc_slack c))"
    using ivs(2) i en by (simp add: splits_def)
  have gi: "get_interval (rc_store c') p = Inr (f p)" using cf p(1) by (simp add: ctx_at_def)
  have rr: "ok_or ReachPanic (split_exact (iv_new (iv_end (f p) - rc_slack c' - sum_list ns)
      (iv_end (f p) - rc_slack c' - 1)) ns) = Inr ivs"
    using ivs(1) by (simp add: i_def en_def)
  have "runs s (rbind (place_siblings fo bs ivs) (\<lambda>_. rret (sum_list ns))) c'
    (\<lambda>n g. unat n = mass s bs \<and> (\<exists>ivs. placed s bs ivs f g
      \<and> tiling (hi (f p) - 1 - unat (rc_slack c) - mass s bs) ivs (hi (f p) - 1 - unat (rc_slack c))))"
  proof (rule runs_rbind)
    show "runs s (place_siblings fo bs ivs) c' (\<lambda>_ g. placed s bs ivs f g)"
      by (rule place_siblings_run [OF ok small cf bs rooms_fit [OF ivs(3,4) _ t]]) (use ns in simp)
    show "runs s (rret (sum_list ns)) c2 (\<lambda>n g. unat n = mass s bs \<and> (\<exists>ivs. placed s bs ivs f g
        \<and> tiling (hi (f p) - 1 - unat (rc_slack c) - mass s bs) ivs (hi (f p) - 1 - unat (rc_slack c))))"
      if "ctx_at s h c2" "placed s bs ivs f h" for u :: unit and h c2
      using that t sum by (intro runs_rret) auto
  qed
  then show "runs s (let sum = sum_list ns in
     rbind (cread (\<lambda>s. get_interval s p)) (\<lambda>i.
     rbind (rread (\<lambda>c. let en = iv_end i - rc_slack c in
       ok_or ReachPanic (split_exact (iv_new (en - sum) (en - 1)) ns))) (\<lambda>ivs.
     rbind (place_siblings fo bs ivs) (\<lambda>_. rret sum)))) c'
    (\<lambda>n g. unat n = mass s bs \<and> (\<exists>ivs. placed s bs ivs f g
      \<and> tiling (hi (f p) - 1 - unat (rc_slack c) - mass s bs) ivs (hi (f p) - 1 - unat (rc_slack c))))"
    unfolding Let_def by (intro runs_cread [where x = "f p"] runs_rread [where x = ivs]) (simp_all add: gi rr)
qed

lemma fair_enlarge:
  assumes ok: "tree_ok s r" and f: "fair s f k" and A: "legal A" "lo A \<le> lo (f k)" "hi (f k) \<le> hi A"
  shows "fair s (f(k := A)) k"
proof -
  have nk: "y \<noteq> k" if "c \<in> set (kids s k)" "anc s c y" for c y using kid_not_above [OF ok that(1)] that(2) by blast
  have at: "fair_at s f k" and kids: "\<And>c. c \<in> set (kids s k) \<Longrightarrow> fair s f c" using f fair_kids [of s f k] by auto
  have "fair s (f(k := A)) c" if "c \<in> set (kids s k)" for c
    using fair_cong [of s c "f(k := A)" f] nk [OF that] kids [OF that] by simp
  moreover from at obtain a b where t: "lo (f k) \<le> a" "tiling a (map f (kids s k)) b" "b < hi (f k)" by (rule fair_atE)
  moreover have "tiling a (map (f(k := A)) (kids s k)) b"
    using tiling_cong [of "kids s k" "f(k := A)" f] nk [OF _ anc_refl] t(2) by simp
  ultimately have "fair_at s (f(k := A)) k"
    using A tiling_le [OF t(2)] by (intro fair_atI [where a = a and b = b]) auto
  then show ?thesis using \<open>\<And>c. c \<in> set (kids s k) \<Longrightarrow> fair s (f(k := A)) c\<close> fair_kids [of s "f(k := A)" k] by blast
qed

lemma expand_run:
  assumes ok: "tree_ok s r" and small: "card (ids s) < 2 ^ 32" and c: "ctx_at s f c" and k: "k \<in> set (kids s p)"
    and fp: "legal (f p)" and fin: "is_final \<Longrightarrow> fair s f k"
    and cap: "unat sb + unat sa + 4 * unat (rc_slack c) + weight s k < room (f p)"
  shows "runs s (expand_interval_to_chosen fo p k sb sa is_final) c (\<lambda>_ g.
    legal (g k) \<and> lo (g k) = lo (f p) + unat (rc_slack c) + unat sb
    \<and> hi (g k) = hi (f p) - 1 - unat (rc_slack c) - unat sa
    \<and> (if is_final then fair s g k \<and> off (desc s k) f g else off {k} f g))"
proof -
  define A where "A = iv_new (iv_start (f p) + sb + rc_slack c) (iv_end (f p) - sa - rc_slack c - 1)"
  have ids: "k \<in> ids s" "p \<in> ids s" using kid_in_ids [OF ok k] by auto
  have room: "0 < lo (f p)" "lo (f p) \<le> hi (f p)" "hi (f p) < 2 ^ 64"
    "lo (f p) + unat sb + unat sa + 4 * unat (rc_slack c) + weight s k < hi (f p)"
    using fp cap unfolding legal_def room_def by linarith+
  have "unat (iv_start (f p) + sb) = lo (f p) + unat sb"
    using room by (subst unat_add_u64) (simp_all add: lo_def)
  then have loA: "lo A = lo (f p) + unat (rc_slack c) + unat sb"
    using room by (simp add: A_def lo_def unat_add_u64)
  have ie: "unat (iv_end (f p)) = hi (f p) - 1" by (simp add: hi_def)
  then have e1: "unat (iv_end (f p) - sa) = hi (f p) - 1 - unat sa" using room by (simp add: unat_sub_u64)
  then have e2: "unat (iv_end (f p) - sa - rc_slack c) = hi (f p) - 1 - unat sa - unat (rc_slack c)"
    using room by (simp add: unat_sub_u64)
  then have "unat (iv_end (f p) - sa - rc_slack c - 1) = hi (f p) - 1 - unat sa - unat (rc_slack c) - 1"
    using room by (subst unat_pred_u64) simp_all
  then have hiA: "hi A = hi (f p) - 1 - unat (rc_slack c) - unat sa" using room by (simp add: A_def hi_def)
  have A: "legal A" using loA hiA room unfolding legal_def by linarith
  define B where "B = iv_new (iv_start A + rc_slack c) (iv_end A - rc_slack c)"
  have "unat (iv_start A + rc_slack c) = lo A + unat (rc_slack c)"
    using loA room by (subst unat_add_u64) (simp_all add: lo_def)
  then have loB: "lo B = lo A + unat (rc_slack c)" by (simp add: B_def lo_def)
  have "unat (iv_end A - rc_slack c) = hi A - 1 - unat (rc_slack c)"
    using hiA room by (subst unat_sub_u64) (simp_all add: hi_def)
  then have hiB: "hi B = hi A - unat (rc_slack c)" using hiA room by (simp add: B_def hi_def)
  have B: "legal B" "weight s k \<le> room B"
    using loA hiA loB hiB room unfolding legal_def room_def by linarith+
  let ?P = "\<lambda>(_ :: unit) g. legal (g k) \<and> lo (g k) = lo (f p) + unat (rc_slack c) + unat sb
    \<and> hi (g k) = hi (f p) - 1 - unat (rc_slack c) - unat sa
    \<and> (if is_final then fair s g k \<and> off (desc s k) f g else off {k} f g)"
  define narrow where "narrow = (is_final \<and> \<not> iv_contains A (f k))"
  have "runs s (rbind (if narrow
            then rbind (cwrite (set_interval k B)) (\<lambda>_. propagate_interval fo k)
            else rret ()) (\<lambda>_. cwrite (set_interval k A))) c ?P"
  proof (rule runs_rbind)
    show "runs s (if narrow then rbind (cwrite (set_interval k B)) (\<lambda>_. propagate_interval fo k) else rret ()) c
        (\<lambda>_ g. (if narrow then fair s g k \<and> g k = B \<and> off (desc s k) f g else g = f))"
      using set_propagate_run [OF ok small c ids(1) B, of fo] c by (simp add: runs_rret del: rm_simps)
  next
    fix u :: unit and g c' assume c': "ctx_at s g c'"
      and g: "if narrow then fair s g k \<and> g k = B \<and> off (desc s k) f g else g = f"
    show "runs s (cwrite (set_interval k A)) c' ?P"
    proof (rule runs_set_interval [OF c' ids(1)])
      have "fair s (g(k := A)) k" if is_final
      proof (rule fair_enlarge [OF ok _ A])
        show "fair s g k" using g fin [OF that] by (simp split: if_splits)
        show "lo A \<le> lo (g k)" "hi (g k) \<le> hi A"
          using g that loB hiB by (auto simp: narrow_def iv_contains_iff split: if_splits)
      qed
      moreover have "off (desc s k) f (g(k := A))" using g by (auto simp: off_def split: if_splits)
      moreover have "off {k} f (g(k := A))" if "\<not> is_final" using g that by (auto simp: off_def narrow_def)
      ultimately show "?P () (g(k := A))" using A loA hiA by simp
    qed
  qed
  moreover have "rc_store c = with_ivs s f" using c by (simp add: ctx_at_def)
  then have "expand_interval_to_chosen fo p k sb sa is_final c
      = rbind (if narrow then rbind (cwrite (set_interval k B)) (\<lambda>_. propagate_interval fo k) else rret ())
          (\<lambda>_. cwrite (set_interval k A)) c"
    using ids by (simp add: expand_interval_to_chosen_def Let_def A_def B_def narrow_def)
  ultimately show ?thesis by (simp only: runs_def)
qed

lemma concentrate_run:
  assumes ok: "tree_ok s r" and small: "card (ids s) < 2 ^ 32" and c: "ctx_at s f c" and k: "k \<in> set (kids s p)"
    and fp: "legal (f p)" and fin: "is_final \<Longrightarrow> fair s f k"
    and cap: "4 * unat (rc_slack c) + weight s p \<le> room (f p)"
  shows "runs s (concentrate_interval fo p k is_final) c (\<lambda>_ g. fair_at s g p \<and> off (below s p) f g
    \<and> (\<forall>y \<in> set (kids s p). y \<noteq> k \<longrightarrow> fair s g y) \<and> legal (g k) \<and> lo (g k) < hi (g k)
    \<and> (if is_final then fair s g k else \<forall>y \<in> below s k. g y = f y)
    \<and> room (f p) + weight s k = room (g k) + 2 * unat (rc_slack c) + weight s p)"
proof -
  from k obtain xs ys where q: "kids s p = xs @ k # ys" by (meson split_list)
  have dist: "distinct (xs @ k # ys)" using distinct_kids [OF ok, of p] q by simp
  note ids = kid_in_ids [OF ok k]
  have disj: "desc s y \<inter> desc s z = {}" if "y \<in> set (kids s p)" "z \<in> set (kids s p)" "y \<noteq> z" for y z
    by (rule desc_apart [OF ok that])
  have w: "weight s p = Suc (mass s xs + weight s k + mass s ys)"
    using weight_kids [OF ok, of p] by (simp add: q mass_def)
  have wk: "0 < weight s k" by (rule weight_pos)
  let ?\<sigma> = "unat (rc_slack c)"
  let ?P = "\<lambda>(_ :: unit) g. fair_at s g p \<and> off (below s p) f g
    \<and> (\<forall>y \<in> set (kids s p). y \<noteq> k \<longrightarrow> fair s g y) \<and> legal (g k) \<and> lo (g k) < hi (g k)
    \<and> (if is_final then fair s g k else \<forall>y \<in> below s k. g y = f y)
    \<and> room (f p) + weight s k = room (g k) + 2 * ?\<sigma> + weight s p"
  have "runs s (rbind (tighten_intervals_before fo p xs) (\<lambda>sb. rbind (tighten_intervals_after fo p ys) (\<lambda>sa.
      expand_interval_to_chosen fo p k sb sa is_final))) c ?P"
  proof (rule runs_rbind)
    show "runs s (tighten_intervals_before fo p xs) c (\<lambda>n g. unat n = mass s xs
      \<and> (\<exists>ivs. placed s xs ivs f g \<and> tiling (lo (f p) + ?\<sigma>) ivs (lo (f p) + ?\<sigma> + mass s xs)))"
      by (rule tighten_before_run [OF ok small c]) (use q dist ids fp cap w in auto)
  next
    fix sb :: u64 and f1 c1 assume c1: "ctx_at s f1 c1" "rc_slack c1 = rc_slack c" and "unat sb = mass s xs
      \<and> (\<exists>ivs. placed s xs ivs f f1 \<and> tiling (lo (f p) + ?\<sigma>) ivs (lo (f p) + ?\<sigma> + mass s xs))"
    then obtain ib where sb: "unat sb = mass s xs" and pb: "placed s xs ib f f1"
      and tb: "tiling (lo (f p) + ?\<sigma>) ib (lo (f p) + ?\<sigma> + mass s xs)" by blast
    have o1: "f1 y = f y" if "\<And>x. x \<in> set xs \<Longrightarrow> y \<notin> desc s x" for y using pb that by (auto simp: placed_def off_def)
    have p1: "f1 p = f p" by (rule o1) (use not_desc_kid [OF ok, of _ p] q in simp)
    show "runs s (rbind (tighten_intervals_after fo p ys) (\<lambda>sa. expand_interval_to_chosen fo p k sb sa is_final)) c1 ?P"
    proof (rule runs_rbind)
      show "runs s (tighten_intervals_after fo p ys) c1 (\<lambda>n g. unat n = mass s ys
        \<and> (\<exists>ivs. placed s ys ivs f1 g \<and> tiling (hi (f1 p) - 1 - unat (rc_slack c1) - mass s ys) ivs
            (hi (f1 p) - 1 - unat (rc_slack c1))))"
        by (rule tighten_after_run [OF ok small c1(1)]) (use q dist ids fp cap w p1 c1(2) wk in auto)
    next
      fix sa :: u64 and f2 c2 assume c2: "ctx_at s f2 c2" "rc_slack c2 = rc_slack c1" and "unat sa = mass s ys
        \<and> (\<exists>ivs. placed s ys ivs f1 f2 \<and> tiling (hi (f1 p) - 1 - unat (rc_slack c1) - mass s ys) ivs
            (hi (f1 p) - 1 - unat (rc_slack c1)))"
      then obtain ia where sa: "unat sa = mass s ys" and pa: "placed s ys ia f1 f2"
        and ta: "tiling (hi (f p) - 1 - ?\<sigma> - mass s ys) ia (hi (f p) - 1 - ?\<sigma>)" using p1 c1(2) by auto
      have o2: "f2 y = f1 y" if "\<And>x. x \<in> set ys \<Longrightarrow> y \<notin> desc s x" for y using pa that by (auto simp: placed_def off_def)
      have p2: "f2 p = f p" using o2 [of p] p1 not_desc_kid [OF ok, of _ p] q by simp
      have k2: "f2 y = f y" if "y \<in> desc s k" for y
      proof -
        have "y \<notin> desc s x" if "x \<in> set xs \<union> set ys" for x
          using disj [OF k, of x] that \<open>y \<in> desc s k\<close> q dist by auto
        then show ?thesis using o1 o2 by simp
      qed
      have fin2: "fair s f2 k" if is_final using fin [OF that] fair_cong [of s k f2 f] k2 by (simp add: desc_def)
      have sl: "rc_slack c2 = rc_slack c" using c1(2) c2(2) by simp
      have cap2: "unat sb + unat sa + 4 * unat (rc_slack c2) + weight s k < room (f2 p)"
        using cap w sb sa p2 sl by simp
      show "runs s (expand_interval_to_chosen fo p k sb sa is_final) c2 ?P"
      proof (rule runs_conseq [OF expand_run [OF ok small c2(1) k _ fin2 cap2]])
        show "legal (f2 p)" using fp p2 by simp
        fix u :: unit and g
        assume "legal (g k) \<and> lo (g k) = lo (f2 p) + unat (rc_slack c2) + unat sb
          \<and> hi (g k) = hi (f2 p) - 1 - unat (rc_slack c2) - unat sa
          \<and> (if is_final then fair s g k \<and> off (desc s k) f2 g else off {k} f2 g)"
        then have gk: "legal (g k)" "lo (g k) = lo (f p) + ?\<sigma> + mass s xs" "hi (g k) = hi (f p) - 1 - ?\<sigma> - mass s ys"
          and gf: "if is_final then fair s g k \<and> off (desc s k) f2 g else off {k} f2 g"
          using p2 sl sa sb by simp_all
        have gk2: "off (desc s k) f2 g"
          using gf off_mono [of "{k}" f2 g "desc s k"] by (cases is_final) auto
        have num: "0 < lo (f p)" "lo (f p) + 4 * ?\<sigma> + mass s xs + weight s k + mass s ys < hi (f p)"
          using cap w fp unfolding legal_def room_def by linarith+
        have gx: "g z = f1 z" if "x \<in> set xs" "z \<in> desc s x" for x z
        proof -
          have "z \<notin> desc s y" if "y \<in> insert k (set ys)" for y
            using disj [of x y] \<open>x \<in> set xs\<close> \<open>z \<in> desc s x\<close> that q dist by auto
          then show ?thesis using o2 [of z] gk2 by (simp add: off_def)
        qed
        have gy: "g z = f2 z" if "y \<in> set ys" "z \<in> desc s y" for y z
          using disj [of y k] that q dist gk2 by (auto simp: off_def)
        have xsf: "fair s g x" if "x \<in> set xs" for x
          using pb that fair_cong [of s x g f1] gx [OF that] by (simp add: placed_def desc_def)
        have ysf: "fair s g y" if "y \<in> set ys" for y
          using pa that fair_cong [of s y g f2] gy [OF that] by (simp add: placed_def desc_def)
        have "map g xs = ib" "map g ys = ia"
          using pb pa gx gy desc_refl by (auto simp: placed_def intro!: map_cong)
        then have t: "tiling (lo (f p) + ?\<sigma>) (map g (kids s p)) (hi (f p) - 1 - ?\<sigma>)"
          using tb ta gk by (auto simp: q tiling_append)
        have o: "off (below s p) f g"
          unfolding off_def
        proof (intro allI impI)
          fix y assume "y \<notin> below s p"
          then have "y \<notin> desc s x" if "x \<in> set (kids s p)" for x using below_kids [OF ok, of p] that by blast
          then show "g y = f y" using gk2 o2 [of y] o1 [of y] q by (auto simp: off_def)
        qed
        then have "g p = f p" by (simp add: off_def below_def)
        then have "fair_at s g p"
          using t fp num by (intro fair_atI [where a = "lo (f p) + ?\<sigma>" and b = "hi (f p) - 1 - ?\<sigma>"]) auto
        moreover have "\<forall>y \<in> below s k. g y = f y" if "\<not> is_final"
          using gf that k2 by (auto simp: off_def below_def)
        moreover have "room (f p) + weight s k = room (g k) + 2 * ?\<sigma> + weight s p"
          using gk num w by (simp add: room_def)
        moreover have "lo (g k) < hi (g k)" using gk num wk by simp
        ultimately show "?P u g" using o xsf ysf gk(1) gf q by auto
      qed
    qed
  qed
  moreover have "rc_store c = with_ivs s f" using c by (simp add: ctx_at_def)
  ultimately show ?thesis
    using ids split_children_eq [of k xs ys] dist q by (simp add: concentrate_interval_def runs_def)
qed

subsection \<open>The advance\<close>

lemma next_kid_below:
  assumes ok: "tree_ok s r" and x: "x \<in> ids s" and t: "tiling a (map f (kids s x)) b"
    and fair: "\<And>y. y \<in> ids s \<Longrightarrow> y \<noteq> x \<Longrightarrow> fair_at s f y"
    and k: "k \<in> set (kids s x)" "anc s k d"
  shows "get_next_chain_ancestor_unchecked (with_ivs s f) d x = Inr k"
proof -
  have ff: "fair s f y" if "y \<in> set (kids s x)" for y
    unfolding fair_def
    using fair anc_ids [OF ok] kid_in_ids [OF ok that] kid_not_above [OF ok that] by blast
  show ?thesis
  proof (rule next_kid [OF x _ _ t])
    show "set (kids s x) \<subseteq> ids s" "d \<in> ids s" using kid_in_ids [OF ok] anc_ids [OF ok k(2)] k(1) by auto
    show "lo (f (kids s x ! i)) < lo (f (kids s x ! j))" if "i < j" "j < length (kids s x)" for i j
      by (rule tiling_starts [OF t _ that]) (use ff fair_nonempty nth_mem Suc_lessD in blast)
    show "lo (f k) \<le> lo (f d)" "hi (f d) \<le> hi (f k)" using fair_inside [OF ok ff [OF k(1)] k(2)] by auto
    show "lo (f d) < hi (f d)" using fair_nonempty fair_below [OF ff [OF k(1)] k(2)] by blast
  qed (rule k)
qed

lemma advance_loop_ok:
  assumes ok: "tree_ok s r" and small: "card (ids s) < 2 ^ 32" and x: "x \<in> ids s" "anc s x nxt"
    and "legal (f x)" "tiling a (map f (kids s x)) b"
    and "\<And>y. y \<in> ids s \<Longrightarrow> y \<noteq> x \<Longrightarrow> fair_at s f y" "x = nxt \<Longrightarrow> fair_at s f x"
    and "(2 * unat slack + 1) * weight s x + 4 * unat slack \<le> room (f x)"
  shows "\<exists>g. advance_loop fo depth slack nxt x (with_ivs s f) = Some (Inr (), with_ivs s g)
    \<and> (\<forall>y \<in> ids s. fair_at s g y)
    \<and> room (f x) + (2 * unat slack + 1) * weight s nxt \<le> room (g nxt) + (2 * unat slack + 1) * weight s x"
  using ok assms(3-)
proof (induction x arbitrary: f a b rule: tree_induct)
  case (node x)
  note x = node.prems(1,2) and lx = node.prems(3) and t = node.prems(4) and fair = node.prems(5) and cap = node.prems(7)
  show ?case
  proof (cases "x = nxt")
    case True
    have "\<forall>y \<in> ids s. fair_at s f y" using fair node.prems(6) True by blast
    then show ?thesis using True
      by (intro exI [of _ f]) (simp add: advance_loop.simps [of fo depth slack nxt nxt])
  next
    case False
    then obtain k where k: "k \<in> set (kids s x)" "anc s k nxt" using x(2) by (auto elim: anc_cases)
    note ids = kid_in_ids [OF ok k(1)]
    have fk: "fair s f k"
      unfolding fair_def using fair anc_ids [OF ok] ids kid_not_above [OF ok k(1)] by blast
    have nxt: "get_next_chain_ancestor_unchecked (with_ivs s f) nxt x = Inr k"
      by (rule next_kid_below [OF ok x(1) t fair k])
    have wx: "weight s x \<le> (2 * unat slack + 1) * weight s x" by simp
    have "runs s (concentrate_interval fo x k (k = nxt)) (reindex_ctx_new (with_ivs s f) depth slack)
      (\<lambda>_ g. fair_at s g x \<and> off (below s x) f g
        \<and> (\<forall>y \<in> set (kids s x). y \<noteq> k \<longrightarrow> fair s g y) \<and> legal (g k) \<and> lo (g k) < hi (g k)
        \<and> (if k = nxt then fair s g k else \<forall>y \<in> below s k. g y = f y)
        \<and> room (f x) + weight s k
          = room (g k) + 2 * unat (rc_slack (reindex_ctx_new (with_ivs s f) depth slack)) + weight s x)"
      by (rule concentrate_run [where f = f, OF ok small _ k(1) lx]) (use fk cap wx in \<open>simp_all add: ctx_at_new\<close>)
    then obtain g where run: "with_ctx depth slack (concentrate_interval fo x k (k = nxt)) (with_ivs s f) = Some (Inr (), with_ivs s g)"
      and g: "fair_at s g x" "off (below s x) f g" "\<forall>y \<in> set (kids s x). y \<noteq> k \<longrightarrow> fair s g y" "legal (g k)"
        "if k = nxt then fair s g k else \<forall>y \<in> below s k. g y = f y"
      and room: "room (f x) + weight s k = room (g k) + 2 * unat slack + weight s x"
      by (elim with_ctx_runs) (auto simp: ctx_at_new)
    have step: "advance_loop fo depth slack nxt x (with_ivs s f) = advance_loop fo depth slack nxt k (with_ivs s g)"
      using False nxt
      by (simp add: advance_loop.simps [of fo depth slack nxt x]
          rbind_Some(1) [where m = "with_ctx depth slack (concentrate_interval fo x k (k = nxt))", OF run])
    have below_k: "fair_at s g y" if "anc s k y" "y \<noteq> k" for y
    proof (cases "k = nxt")
      case True
      then show ?thesis using g(5) that by (simp add: fair_def)
    next
      case kn: False
      have "g c = f c" if "c \<in> set (kids s y)" for c
      proof -
        have "anc s k c" "c \<noteq> k"
          using \<open>anc s k y\<close> anc_step [OF _ that] kid_not_above [OF ok that] by auto
        then show ?thesis using g(5) kn by (auto simp: in_below)
      qed
      moreover have "g y = f y" using g(5) kn that by (auto simp: in_below)
      ultimately have "fair_at s g y \<longleftrightarrow> fair_at s f y" by (intro fair_at_cong) auto
      then show ?thesis using fk that by (simp add: fair_def)
    qed
    have fair': "fair_at s g y" if y: "y \<in> ids s" "y \<noteq> k" for y
    proof -
      consider "y = x" | c where "c \<in> set (kids s x)" "anc s c y" | "\<not> anc s x y" by (metis anc_cases)
      then show ?thesis
      proof cases
        case 1
        then show ?thesis using g(1) by simp
      next
        case 2
        then show ?thesis using g(3) below_k y(2) by (cases "c = k") (auto simp: fair_def)
      next
        case 3
        have "c \<notin> below s x" if "c \<in> set (kids s y)" for c
          using 3 anc_parent [OF ok that, of x] by (auto simp: in_below)
        moreover have "y \<notin> below s x" using 3 by (simp add: in_below)
        ultimately have "fair_at s g y \<longleftrightarrow> fair_at s f y" using g(2) by (intro fair_at_cong) (auto simp: off_def)
        moreover have "y \<noteq> x" using 3 by auto
        ultimately show ?thesis using fair [OF y(1)] by simp
      qed
    qed
    obtain a' b' where t': "tiling a' (map g (kids s k)) b'"
    proof (cases "k = nxt")
      case True
      then have "fair_at s g k" using g(5) by (simp add: fair_def)
      then show thesis using that by (meson fair_atE)
    next
      case kn: False
      have "fair_at s f k" using fk by (simp add: fair_def)
      then obtain a1 b1 where "tiling a1 (map f (kids s k)) b1" by (meson fair_atE)
      moreover have "g c = f c" if "c \<in> set (kids s k)" for c
        using g(5) kn anc_kid [OF that] kid_not_above [OF ok that] by (auto simp: in_below)
      ultimately show thesis using that tiling_cong [of "kids s k" g f] by blast
    qed
    have wk: "weight s k + 1 \<le> weight s x" using weight_kid [OF ok k(1)] by simp
    then have "(2 * unat slack + 1) * (weight s k + 1) \<le> (2 * unat slack + 1) * weight s x" by (rule mult_le_mono2)
    then have mul: "(2 * unat slack + 1) * weight s k + 2 * unat slack + 1 \<le> (2 * unat slack + 1) * weight s x"
      by (simp add: algebra_simps)
    have step_cost: "2 * unat slack + weight s x + (2 * unat slack + 1) * weight s k \<le> (2 * unat slack + 1) * weight s x + weight s k"
    proof -
      obtain e where e: "weight s x = weight s k + 1 + e" using wk le_Suc_ex by blast
      show ?thesis unfolding e by (simp add: algebra_simps)
    qed
    have cap': "(2 * unat slack + 1) * weight s k + 4 * unat slack \<le> room (g k)" using cap room step_cost by linarith
    from node.IH [OF k(1) _ k(2) g(4) t' fair' _ cap'] ids g(5) have "\<exists>h. advance_loop fo depth slack nxt k (with_ivs s g) = Some (Inr (), with_ivs s h)
      \<and> (\<forall>y \<in> ids s. fair_at s h y)
      \<and> room (g k) + (2 * unat slack + 1) * weight s nxt \<le> room (h nxt) + (2 * unat slack + 1) * weight s k"
      by (simp add: fair_def split: if_splits)
    then obtain h where h: "advance_loop fo depth slack nxt k (with_ivs s g) = Some (Inr (), with_ivs s h)"
      "\<forall>y \<in> ids s. fair_at s h y"
      "room (g k) + (2 * unat slack + 1) * weight s nxt \<le> room (h nxt) + (2 * unat slack + 1) * weight s k" by blast
    have "room (f x) + (2 * unat slack + 1) * weight s nxt \<le> room (h nxt) + (2 * unat slack + 1) * weight s x"
      using h(3) room step_cost by linarith
    then show ?thesis unfolding step using h(1,2) by blast
  qed
qed

subsection \<open>Heights\<close>

text \<open>The height of a block is its depth in the tree; it fits its word.\<close>

definition heights :: "mem_store \<Rightarrow> blk \<Rightarrow> bool" where
  "heights s r \<longleftrightarrow> get_height s r = Inr 0 \<and>
     (\<forall>p. \<forall>k \<in> set (kids s p). \<forall>h. get_height s p = Inr h \<longrightarrow> get_height s k = Inr (h + 1))"

definition height_of :: "mem_store \<Rightarrow> blk \<Rightarrow> nat" where
  "height_of s b = (case get_height s b of Inl _ \<Rightarrow> 0 | Inr h \<Rightarrow> unat h)"

lemma height_bound:
  assumes ok: "tree_ok s r" and h: "heights s r" and small: "card (ids s) < 2 ^ 32" and x: "x \<in> ids s"
  shows "\<exists>h. get_height s x = Inr h \<and> unat h + weight s x \<le> card (ids s)"
proof -
  have r: "r \<in> ids s" using ok by (simp add: tree_ok_def)
  have "anc s r x" using anc_root [OF ok] x by blast
  then show ?thesis
  proof (induction rule: anc_induct)
    case root
    then show ?case using h weight_le [OF ok r] by (simp add: heights_def)
  next
    case (kid p k)
    then obtain h' where h': "get_height s p = Inr h'" "unat h' + weight s p \<le> card (ids s)" by blast
    have "unat (h' + 1) = unat h' + 1" using h'(2) small by (subst unat_add_u64) simp_all
    moreover have "get_height s k = Inr (h' + 1)" using h kid(2) h'(1) by (simp add: heights_def)
    ultimately show ?case using h'(2) weight_kid [OF ok kid(2)] by simp
  qed
qed

lemma height_get:
  assumes "tree_ok s r" "heights s r" "card (ids s) < 2 ^ 32" "x \<in> ids s"
  obtains h where "get_height s x = Inr h" "unat h = height_of s x"
  using height_bound [OF assms] by (auto simp: height_of_def)

lemma height_kid:
  assumes ok: "tree_ok s r" "heights s r" "card (ids s) < 2 ^ 32" and k: "k \<in> set (kids s p)"
  shows "height_of s k = Suc (height_of s p)"
proof -
  have p: "p \<in> ids s" using kid_in_ids [OF ok(1) k] by blast
  obtain h where h: "get_height s p = Inr h" "unat h + weight s p \<le> card (ids s)" using height_bound [OF ok p] by blast
  have "unat (h + 1) = unat h + 1" using h(2) ok(3) by (subst unat_add_u64) simp_all
  moreover have "get_height s k = Inr (h + 1)" using ok(2) k h(1) by (simp add: heights_def)
  ultimately show ?thesis using h(1) by (simp add: height_of_def)
qed

lemma height_anc:
  assumes "tree_ok s r" "heights s r" "card (ids s) < 2 ^ 32" "anc s a b"
  shows "height_of s a \<le> height_of s b \<and> (a \<noteq> b \<longrightarrow> height_of s a < height_of s b)"
  using assms(4) by (induction rule: anc_induct) (use height_kid [OF assms(1-3)] in fastforce)+

lemma heights_with_ivs [simp]: "heights (with_ivs s f) r \<longleftrightarrow> heights s r"
  by (simp add: heights_def)

lemma heights_grow:
  assumes h: "heights s r" and ok: "tree_ok s r" and p: "p \<in> ids s" and n: "n \<notin> ids s"
  shows "heights (grow s p n i) r"
proof -
  note v = grow_views [OF p n]
  obtain d where d: "ms_map s p = Some d" using p by (auto simp: ids_def)
  have pn: "p \<noteq> n" "r \<noteq> n" using p n ok by (auto simp: tree_ok_def)
  have old: "get_height (grow s p n i) b = get_height s b" if "b \<noteq> n" for b
    using that d by (simp add: get_height_def get_data_def grow_def)
  have new: "get_height (grow s p n i) n = Inr (md_height d + 1)" "get_height s p = Inr (md_height d)"
    using d by (simp_all add: get_height_def get_data_def grow_def mem_data_new_def)
  have nk: "n \<notin> set (kids s q)" "kids s n = []" for q using kid_in_ids [OF ok] n kids_outside [OF n] by auto
  have "get_height (grow s p n i) k = Inr (h' + 1)"
    if "k \<in> set (kids (grow s p n i) q)" "get_height (grow s p n i) q = Inr h'" for q k h'
  proof (cases "k = n")
    case True
    then have "q = p" using that(1) nk(1) by (auto simp: v(2) split: if_splits)
    then show ?thesis using True that(2) old [OF pn(1)] new by simp
  next
    case False
    then have "k \<in> set (kids s q)" using that(1) by (auto simp: v(2) split: if_splits)
    moreover have "q \<noteq> n" using calculation nk(2) by auto
    ultimately show ?thesis using h that(2) old [of q] old [of k] False by (simp add: heights_def)
  qed
  then show ?thesis using h old [OF pn(2)] by (auto simp: heights_def)
qed

subsection \<open>The choice of the new root\<close>

lemma next_unchecked_ok:
  assumes ok: "tree_ok s r" "iv_ok s" and d: "d \<in> ids s" and x: "anc s x d" "x \<noteq> d"
  obtains k where "k \<in> set (kids s x)" "anc s k d" "get_next_chain_ancestor_unchecked s d x = Inr k"
proof -
  from x obtain k where "k \<in> set (kids s x)" "anc s k d" by (auto elim: anc_cases)
  then show thesis using that get_next_unchecked_eq [OF ok d] by blast
qed

lemma next_root_loop_ok:
  assumes ok: "tree_ok s r" "iv_ok s" "heights s r" "card (ids s) < 2 ^ 32" and d: "d \<in> ids s"
    and hd: "get_height s d = Inr hh" and depth: "0 < depth" and "anc s x d" "x \<noteq> d"
  shows "\<exists>y. next_root_loop d hh depth x s = Some (Inr y, s) \<and> anc s x y \<and> anc s y d \<and> y \<noteq> d"
  using ok(1) assms(8,9)
proof (induction x rule: tree_induct)
  case (node x)
  obtain k where k: "k \<in> set (kids s x)" "anc s k d" "get_next_chain_ancestor_unchecked s d x = Inr k"
    by (rule next_unchecked_ok [OF ok(1,2) d node.prems])
  obtain h where h: "get_height s k = Inr h" "unat h = height_of s k"
    using height_get [OF ok(1,3,4)] kid_in_ids [OF ok(1) k(1)] by blast
  have hle: "height_of s k \<le> height_of s d" "height_of s d = unat hh"
    using height_anc [OF ok(1,3,4) k(2)] hd by (simp_all add: height_of_def)
  then have nlt: "\<not> hh < h" using h(2) by (simp add: word_less_nat_alt)
  show ?case
  proof (cases "hh - h < depth")
    case True
    then have "next_root_loop d hh depth x s = Some (Inr x, s)"
      using k(3) h(1) nlt by (simp add: next_root_loop.simps [of d hh depth x])
    then show ?thesis using node.prems by auto
  next
    case False
    have "k \<noteq> d"
    proof
      assume "k = d"
      then have "hh = h" using h(1) hd by simp
      then show False using False depth by simp
    qed
    moreover have "next_root_loop d hh depth x s = next_root_loop d hh depth k s"
      using k(3) h(1) nlt False by (simp add: next_root_loop.simps [of d hh depth x])
    ultimately show ?thesis using node.IH [OF k(1,2)] anc_trans [OF anc_kid [OF k(1)]] by auto
  qed
qed

lemma find_common_ok:
  assumes ok: "tree_ok s r" "iv_ok s" and x: "x \<in> ids s" and R: "R \<in> ids s"
  shows "\<exists>y. find_common_tree_ancestor x R s = Some (Inr y, s) \<and> anc s y x \<and> anc s y R"
proof -
  have "anc s r x" using anc_root [OF ok(1)] x by blast
  then show ?thesis
  proof (induction rule: anc_induct)
    case root
    have "anc s r R" "r \<in> ids s" using anc_root [OF ok(1)] R ok(1) by (auto simp: tree_ok_def)
    then have "find_common_tree_ancestor r R s = Some (Inr r, s)"
      using is_chain_ancestor_of_eq [OF ok _ R, of r] by (simp add: find_common_tree_ancestor.simps [of r])
    then show ?case using \<open>anc s r R\<close> by auto
  next
    case (kid p x)
    note ids = kid_in_ids [OF ok(1) kid(2)]
    show ?case
    proof (cases "anc s x R")
      case True
      then have "find_common_tree_ancestor x R s = Some (Inr x, s)"
        using is_chain_ancestor_of_eq [OF ok _ R, of x] ids by (simp add: find_common_tree_ancestor.simps [of x])
      then show ?thesis using True by auto
    next
      case False
      then have "find_common_tree_ancestor x R s = find_common_tree_ancestor p R s"
        using is_chain_ancestor_of_eq [OF ok _ R, of x] ids by (simp add: find_common_tree_ancestor.simps [of x])
      then show ?thesis using kid.IH anc_step [OF _ kid(2)] by auto
    qed
  qed
qed

end
