(* ===== verification/ReachRuns.thy ===== *)
theory ReachRuns
  imports ReachAdvance
begin

text \<open>
  Runs of the index: the store \<open>init\<close> makes, then blocks inserted one by one, each followed by a hint.
  Up to \<open>2 ^ 23\<close> blocks no insertion and no hint fails, whatever the rounding of the interval
  arithmetic does, and the queries answer the ancestry of the inserted blocks.
\<close>

subsection \<open>Hints\<close>

lemma try_advancing_ok:
  assumes ok: "tree_ok s r" "iv_ok s" "heights s r" "card (ids s) < 2 ^ 32" and depth: "0 < depth"
    and R: "ms_reindex_root s = Some R" "R \<in> ids s" and hint: "hint \<in> ids s" "hint \<noteq> R"
    and cap: "(2 * unat slack + 1) * card (ids s) + 4 * unat slack \<le> room (iv s R)"
  shows "\<exists>g R'. try_advancing_reindex_root fo hint depth slack s
      = Some (Inr (), (with_ivs s g)\<lparr>ms_reindex_root := Some R'\<rparr>)
    \<and> (\<forall>y \<in> ids s. fair_at s g y) \<and> R' \<in> ids s
    \<and> room (iv s R) \<le> room (g R') + (2 * unat slack + 1) * card (ids s)"
proof -
  have fair: "\<forall>y \<in> ids s. fair_at s (iv s) y" using ok(2) by (simp add: iv_ok_fair)
  obtain hh where hh: "get_height s hint = Inr hh" "unat hh = height_of s hint"
    by (rule height_get [OF ok(1,3,4) hint(1)])
  have move: "\<exists>g R'. rbind (advance_loop fo depth slack y x) (\<lambda>_. rwrite (set_reindex_root y)) s
      = Some (Inr (), (with_ivs s g)\<lparr>ms_reindex_root := Some R'\<rparr>)
    \<and> (\<forall>y \<in> ids s. fair_at s g y) \<and> R' \<in> ids s
    \<and> room (iv s R) \<le> room (g R') + (2 * unat slack + 1) * card (ids s)"
    if x: "x \<in> ids s" "anc s x y" "room (iv s R) \<le> room (iv s x)" for x y
  proof -
    have w: "(2 * unat slack + 1) * weight s x \<le> (2 * unat slack + 1) * card (ids s)"
      using weight_le [OF ok(1) x(1)] by (rule mult_le_mono2)
    have fx: "fair_at s (iv s) x" using fair x(1) by blast
    then obtain a b where ab: "legal (iv s x)" "tiling a (map (iv s) (kids s x)) b" by (meson fair_atE)
    have "(2 * unat slack + 1) * weight s x + 4 * unat slack \<le> room (iv s x)" using w cap x(3) by linarith
    from advance_loop_ok [OF ok(1,4) x(1,2) ab _ fx this, of fo depth] fair obtain g where
      g: "advance_loop fo depth slack y x (with_ivs s (iv s)) = Some (Inr (), with_ivs s g)"
        "\<forall>y \<in> ids s. fair_at s g y"
        "room (iv s x) + (2 * unat slack + 1) * weight s y \<le> room (g y) + (2 * unat slack + 1) * weight s x"
      by blast
    have "y \<in> ids s" using anc_ids [OF ok(1) x(2)] x(1) by blast
    moreover have "room (iv s R) \<le> room (g y) + (2 * unat slack + 1) * card (ids s)" using g(3) w x(3) by linarith
    moreover have "rbind (advance_loop fo depth slack y x) (\<lambda>_. rwrite (set_reindex_root y)) s
        = Some (Inr (), (with_ivs s g)\<lparr>ms_reindex_root := Some y\<rparr>)"
      using g(1) by (simp add: with_ivs_iv rbind_Some(1) rwrite_def set_reindex_root_def)
    ultimately show ?thesis using g(2) by blast
  qed
  have stay: "(with_ivs s (iv s))\<lparr>ms_reindex_root := Some R\<rparr> = s" using R(1) by (simp add: with_ivs_iv)
  obtain x y where step: "find_next_reindex_root R hint depth slack s = Some (Inr (x, y), s)"
    and xy: "R \<noteq> y \<longrightarrow> x \<in> ids s \<and> anc s x y \<and> room (iv s R) \<le> room (iv s x)"
  proof (cases "anc s R hint")
    case True
    obtain y where "next_root_loop hint hh depth R s = Some (Inr y, s)" "anc s R y"
      using next_root_loop_ok [OF ok hint(1) hh(1) depth True] hint(2) by blast
    then show thesis
      using that [of R y] True R(2) hh(1) is_chain_ancestor_of_eq [OF ok(1,2) R(2) hint(1)]
      by (simp add: find_next_reindex_root_def rbind_Some(1))
  next
    case False
    obtain hR where hR: "get_height s R = Inr hR" "unat hR = height_of s R"
      by (rule height_get [OF ok(1,3,4) R(2)])
    note q = is_chain_ancestor_of_eq [OF ok(1,2) R(2) hint(1)]
    show thesis
    proof (cases "hh < hR \<or> hh - hR < slack")
      case True
      then show thesis using that [of R R] False R(2) hh(1) hR(1) q
        by (simp add: find_next_reindex_root_def)
    next
      case far: False
      obtain x where x: "find_common_tree_ancestor hint R s = Some (Inr x, s)" "anc s x hint" "anc s x R"
        using find_common_ok [OF ok(1,2) hint(1) R(2)] by blast
      have "x \<noteq> hint"
      proof
        assume "x = hint"
        then have "height_of s hint < height_of s R"
          using height_anc [OF ok(1,3,4) x(3)] hint(2) by simp
        then show False using far hh(2) hR(2) by (simp add: word_less_nat_alt)
      qed
      then obtain y where y: "next_root_loop hint hh depth x s = Some (Inr y, s)" "anc s x y"
        using next_root_loop_ok [OF ok hint(1) hh(1) depth x(2)] by blast
      have "x \<in> ids s" using anc_ids [OF ok(1) x(3)] R(2) by blast
      moreover have "room (iv s R) \<le> room (iv s x)"
        using anc_inside [OF ok(1,2) x(3)] unfolding room_def by linarith
      moreover have "find_next_reindex_root R hint depth slack s = Some (Inr (x, y), s)"
        using False far hh(1) hR(1) q
        by (simp add: find_next_reindex_root_def
            rbind_Some(1) [where m = "find_common_tree_ancestor hint R", OF x(1)]
            rbind_Some(1) [where m = "next_root_loop hint hh depth x", OF y(1)])
      ultimately show thesis using that y(2) by blast
    qed
  qed
  have eq: "try_advancing_reindex_root fo hint depth slack s =
      (if R = y then rret () else rbind (advance_loop fo depth slack y x) (\<lambda>_. rwrite (set_reindex_root y))) s"
    using R(1) by (simp add: try_advancing_reindex_root_def get_reindex_root_def
        rbind_Some(1) [where m = "find_next_reindex_root R hint depth slack", OF step])
  show ?thesis
  proof (cases "R = y")
    case True
    then show ?thesis using eq stay fair R(2) by (intro exI [of _ "iv s"] exI [of _ R]) simp
  next
    case False
    then show ?thesis using move [of x y] xy eq by simp
  qed
qed


subsection \<open>The index after an insertion\<close>

lemma set_root_views [simp]:
  "ids (s\<lparr>ms_reindex_root := r\<rparr>) = ids s" "kids (s\<lparr>ms_reindex_root := r\<rparr>) = kids s"
  "par (s\<lparr>ms_reindex_root := r\<rparr>) = par s" "iv (s\<lparr>ms_reindex_root := r\<rparr>) = iv s"
  "covering (s\<lparr>ms_reindex_root := r\<rparr>) = covering s" "anc (s\<lparr>ms_reindex_root := r\<rparr>) = anc s"
  "tree_before (s\<lparr>ms_reindex_root := r\<rparr>) = tree_before s"
  "get_height (s\<lparr>ms_reindex_root := r\<rparr>) = get_height s"
proof -
  show v: "ids (s\<lparr>ms_reindex_root := r\<rparr>) = ids s" "kids (s\<lparr>ms_reindex_root := r\<rparr>) = kids s"
    "par (s\<lparr>ms_reindex_root := r\<rparr>) = par s" "iv (s\<lparr>ms_reindex_root := r\<rparr>) = iv s"
    "covering (s\<lparr>ms_reindex_root := r\<rparr>) = covering s" "get_height (s\<lparr>ms_reindex_root := r\<rparr>) = get_height s"
    by (simp_all add: ids_def kids_def par_def iv_def covering_def get_height_def get_data_def fun_eq_iff)
  show a: "anc (s\<lparr>ms_reindex_root := r\<rparr>) = anc s" by (intro ext) (simp add: anc_def tree_edge_def v)
  show "tree_before (s\<lparr>ms_reindex_root := r\<rparr>) = tree_before s" by (intro ext) (simp add: tree_before_def v a)
qed

lemma set_root_ok [simp]:
  "tree_ok (s\<lparr>ms_reindex_root := x\<rparr>) r \<longleftrightarrow> tree_ok s r" "iv_ok (s\<lparr>ms_reindex_root := x\<rparr>) \<longleftrightarrow> iv_ok s"
  "dag_ok (s\<lparr>ms_reindex_root := x\<rparr>) D \<longleftrightarrow> dag_ok s D" "heights (s\<lparr>ms_reindex_root := x\<rparr>) r \<longleftrightarrow> heights s r"
  by (simp_all add: tree_ok_def iv_ok_def dag_ok_def covers_ok_def heights_def)

lemma dag_ok_with_ivs [simp]: "dag_ok (with_ivs s f) D \<longleftrightarrow> dag_ok s D"
  by (simp add: dag_ok_def covers_ok_def)

text \<open>The covering sets carry neither the tree nor the heights.\<close>

lemma keeps_tree_data:
  "keeps (\<lambda>s. ids s = X \<and> kids s = K \<and> get_height s = H) (add_dag_block b ms)"
proof -
  have put: "ids (put_data s m (d\<lparr>md_future_covering_set := hs\<rparr>)) = ids s
      \<and> kids (put_data s m (d\<lparr>md_future_covering_set := hs\<rparr>)) = kids s
      \<and> get_height (put_data s m (d\<lparr>md_future_covering_set := hs\<rparr>)) = get_height s"
    if "ms_map s m = Some d" for s m d hs
    using that by (auto simp: put_data_def ids_def kids_def get_height_def get_data_def fun_eq_iff)
  have "ids t = ids s \<and> kids t = kids s \<and> get_height t = get_height s"
    if "insert_future_covering_item m x i s = Inr t" for m x i s t
    using that put [of s m]
    by (auto simp: insert_future_covering_item_def get_data_def split: option.splits)
  then show ?thesis
    unfolding add_dag_block_def insert_to_future_covering_set_def
    by (intro keeps_rules keeps_rfor, case_tac xb) (auto intro!: keeps_rules)
qed


text \<open>
  The invariant of the index.  Every insertion and every hint may cost the reindex root the sizes of
  subtrees and slack on the blocks it moves; \<open>index_cost\<close> bounds what one of each takes from a store of
  \<open>index_limit\<close> blocks.
\<close>

definition index_limit :: nat where "index_limit = 2 ^ 24"

definition index_cost :: nat where
  "index_cost = (3 * unat DEFAULT_REINDEX_SLACK + 2) * index_limit"

definition index_ok :: "mem_store \<Rightarrow> (blk \<Rightarrow> blk \<Rightarrow> bool) \<Rightarrow> bool" where
  "index_ok s D \<longleftrightarrow> tree_ok s ORIGIN \<and> iv_ok s \<and> dag_ok s D \<and> heights s ORIGIN \<and>
     (\<exists>R \<in> ids s. ms_reindex_root s = Some R \<and> 2 ^ 64 - 2 \<le> room (iv s R) + index_cost * card (ids s))"

lemma slack_val: "unat DEFAULT_REINDEX_SLACK = 16384"
  by (simp add: DEFAULT_REINDEX_SLACK_def push_bit_eq_mult)

lemma index_cost_val: "index_cost = 49154 * 16777216" "index_limit = 16777216"
  by (simp_all add: index_cost_def slack_val index_limit_def)

text \<open>The tree part of an insertion.\<close>

lemma index_tree_step:
  assumes I: "index_ok s D" and small: "card (ids s) < index_limit"
    and n: "n \<notin> ids s" "n \<noteq> NONE" and p: "p \<in> ids s"
  shows "\<exists>s1 R. add_tree_block fo n p DEFAULT_REINDEX_DEPTH DEFAULT_REINDEX_SLACK s = Some (Inr (), s1)
    \<and> tree_ok s1 ORIGIN \<and> iv_ok s1 \<and> dag_ok s1 (dag_extend D n p {}) \<and> heights s1 ORIGIN
    \<and> ids s1 = insert n (ids s) \<and> kids s1 n = [] \<and> covering s1 = covering s
    \<and> (\<forall>a b. anc s1 a b \<longleftrightarrow> anc s a b \<or> b = n \<and> anc s a p)
    \<and> R \<in> ids s \<and> ms_reindex_root s1 = Some R
    \<and> 2 ^ 64 - 2 \<le> room (iv s1 R) + 16385 * Suc (card (ids s)) + index_cost * card (ids s)"
proof -
  define N where "N = Suc (card (ids s))"
  have N: "N \<le> 16777216" using small by (simp add: N_def index_cost_val)
  from I obtain R where ok: "tree_ok s ORIGIN" "iv_ok s" "dag_ok s D" "heights s ORIGIN"
    and R: "R \<in> ids s" "ms_reindex_root s = Some R" and room: "2 ^ 64 - 2 \<le> room (iv s R) + index_cost * card (ids s)"
    unfolding index_ok_def by blast
  have "2 ^ 64 - 2 \<le> room (iv s R) + index_cost * N - index_cost" using room by (simp add: N_def)
  then have "16384 * N + 2 * N \<le> room (iv s R)" using N by (simp add: index_cost_val)
  then obtain s1 where s1: "add_tree_block fo n p DEFAULT_REINDEX_DEPTH DEFAULT_REINDEX_SLACK s = Some (Inr (), s1)"
    "grown s p n s1" "ms_reindex_root s1 = Some R"
    and room_s1: "room (iv s R) \<le> room (iv s1 R) + N + 16384 * N"
    using add_tree_block_ok [OF ok(1,2) p n R(2,1), of DEFAULT_REINDEX_SLACK fo DEFAULT_REINDEX_DEPTH] N
    unfolding slack_val N_def by auto
  from s1(2) obtain i f where s1_eq: "s1 = with_ivs (grow s p n i) f" and iv1: "iv_ok s1" by (auto simp: grown_def)
  have "tree_ok s1 ORIGIN" unfolding s1_eq using tree_ok_grow [OF ok(1) p n] by simp
  moreover have "heights s1 ORIGIN" unfolding s1_eq using heights_grow [OF ok(4,1) p n(1)] by simp
  moreover have "dag_ok s1 (dag_extend D n p {})" by (rule dag_ok_grown [OF ok(1) p n(1) ok(3) s1(2)])
  moreover note v = grow_views [OF p n(1)]
  have "ids s1 = insert n (ids s)" "kids s1 n = []" "covering s1 = covering s"
    using kids_outside [OF n(1)] p n(1) by (auto simp: s1_eq v)
  moreover have "anc s1 a b \<longleftrightarrow> anc s a b \<or> b = n \<and> anc s a p" for a b
    unfolding s1_eq with_ivs_views using anc_grow [OF ok(1) p n(1)] by simp
  moreover have "2 ^ 64 - 2 \<le> room (iv s1 R) + 16385 * N + index_cost * card (ids s)"
    using room room_s1 by simp
  ultimately show ?thesis using s1 iv1 R(1) unfolding N_def by blast
qed

lemma index_step:
  assumes I: "index_ok s D" and small: "card (ids s) < index_limit"
    and n: "n \<notin> ids s" "n \<noteq> NONE" and p: "p \<in> ids s"
    and ms: "distinct ms" "\<And>m. m \<in> set ms \<Longrightarrow> m \<in> ids s \<and> \<not> D m p"
  shows "\<exists>t u. reach_add_block fo n p ms s = Some (Inr (), t) \<and> hint_virtual_selected_parent fo n t = Some (Inr (), u)
    \<and> index_ok u (dag_extend D n p (set ms)) \<and> ids u = insert n (ids s)
    \<and> (\<forall>a b. anc u a b \<longleftrightarrow> anc s a b \<or> b = n \<and> anc s a p)"
proof -
  define N where "N = Suc (card (ids s))"
  have N: "N \<le> 16777216" using small by (simp add: N_def index_cost_val)
  from index_tree_step [OF I small n p, of fo] obtain s1 R where
    s1: "add_tree_block fo n p DEFAULT_REINDEX_DEPTH DEFAULT_REINDEX_SLACK s = Some (Inr (), s1)" "ms_reindex_root s1 = Some R"
    and tree1: "tree_ok s1 ORIGIN" and iv1: "iv_ok s1" and dag1: "dag_ok s1 (dag_extend D n p {})" and h1: "heights s1 ORIGIN"
    and ids1: "ids s1 = insert n (ids s)" and kids1: "kids s1 n = []" and R: "R \<in> ids s"
    and anc1: "\<And>a b. anc s1 a b \<longleftrightarrow> anc s a b \<or> b = n \<and> anc s a p"
    and room: "2 ^ 64 - 2 \<le> room (iv s1 R) + 16385 * N + index_cost * card (ids s)"
    unfolding N_def by blast
  have card1: "card (ids s1) = N" using n(1) by (simp add: ids1 N_def)
  have "\<exists>t. add_dag_block n ms s1 = Some (Inr (), t)
    \<and> tree_ok t ORIGIN \<and> iv_ok t \<and> dag_ok t (dag_extend D n p ({} \<union> set ms))
    \<and> ids t = ids s1 \<and> iv t = iv s1 \<and> ms_reindex_root t = ms_reindex_root s1"
    by (rule add_dag_block_ok [OF tree1 iv1 dag1]) (use ms n(1) in \<open>auto simp: ids1 kids1\<close>)
  then obtain t where t: "add_dag_block n ms s1 = Some (Inr (), t)" "tree_ok t ORIGIN" "iv_ok t"
    "dag_ok t (dag_extend D n p (set ms))" "ids t = ids s1" "iv t = iv s1" "ms_reindex_root t = Some R"
    using s1(2) by auto
  have tv: "kids t = kids s1" "get_height t = get_height s1"
    using keeps_run [OF keeps_tree_data [of "ids s1" "kids s1" "get_height s1"] _ t(1)] by simp_all
  have ht: "heights t ORIGIN" using h1 by (simp add: heights_def tv)
  have anct: "anc t = anc s1" by (intro ext) (simp add: anc_def tree_edge_def tv)
  have room_t: "2 ^ 64 - 2 \<le> room (iv t R) + 16385 * N + index_cost * N - index_cost"
    using room by (simp add: t(6) N_def)
  have "(2 * 16384 + 1) * N + 4 * 16384 \<le> room (iv t R)" using room_t N by (simp add: index_cost_val)
  then have "\<exists>g R'. try_advancing_reindex_root fo n DEFAULT_REINDEX_DEPTH DEFAULT_REINDEX_SLACK t
      = Some (Inr (), (with_ivs t g)\<lparr>ms_reindex_root := Some R'\<rparr>)
    \<and> (\<forall>y \<in> ids t. fair_at t g y) \<and> R' \<in> ids t
    \<and> room (iv t R) \<le> room (g R') + (2 * unat DEFAULT_REINDEX_SLACK + 1) * card (ids t)"
    using R n(1) N
    by (intro try_advancing_ok [OF t(2,3) ht _ _ t(7)])
      (auto simp: t(5) ids1 card1 [unfolded ids1] slack_val DEFAULT_REINDEX_DEPTH_def)
  then obtain g R' where hint: "hint_virtual_selected_parent fo n t = Some (Inr (), (with_ivs t g)\<lparr>ms_reindex_root := Some R'\<rparr>)"
    and fair: "\<forall>y \<in> ids t. fair_at t g y" and R': "R' \<in> ids t"
    and room_u: "room (iv t R) \<le> room (g R') + 32769 * N"
    unfolding hint_virtual_selected_parent_def by (auto simp: slack_val t(5) card1)
  define u where "u = (with_ivs t g)\<lparr>ms_reindex_root := Some R'\<rparr>"
  have "iv u R' = g R'" using R' by (simp add: u_def)
  moreover have "49154 * N \<le> index_cost" using N by (simp add: index_cost_val)
  ultimately have "2 ^ 64 - 2 \<le> room (iv u R') + index_cost * N" using room_t room_u by simp
  then have "index_ok u (dag_extend D n p (set ms))"
    unfolding index_ok_def using t(2-4) ht fair R' iv_ok_with_ivs [OF t(2), of g]
    by (auto simp: u_def t(5) card1)
  moreover have "reach_add_block fo n p ms s = Some (Inr (), t)"
    using s1(1) t(1) by (simp add: reach_add_block_def add_block_with_params_def rbind_Some(1))
  ultimately show ?thesis
    using hint by (intro exI conjI) (auto simp: u_def t(5) ids1 anct anc1)
qed


subsection \<open>Runs\<close>

text \<open>
  \<open>T\<close> is the ancestry along selected parents, \<open>D\<close> the ancestry of the DAG: a block has itself, the
  ancestors of its selected parent, and for \<open>D\<close> its merge set, as its ancestors.  A merge set holds
  blocks that are not ancestors of the selected parent.
\<close>

inductive index_run :: "'f f64_ops \<Rightarrow> mem_store \<Rightarrow> (blk \<Rightarrow> blk \<Rightarrow> bool) \<Rightarrow> (blk \<Rightarrow> blk \<Rightarrow> bool) \<Rightarrow> bool"
  for fo where
  start: "reach_init mem_store_new = Some (Inr (), s) \<Longrightarrow> index_run fo s (=) (=)"
| insert: "index_run fo s T D \<Longrightarrow> card (ids s) < index_limit \<Longrightarrow> n \<notin> ids s \<Longrightarrow> n \<noteq> NONE \<Longrightarrow> p \<in> ids s \<Longrightarrow>
    distinct ms \<Longrightarrow> (\<And>m. m \<in> set ms \<Longrightarrow> m \<in> ids s \<and> \<not> D m p) \<Longrightarrow>
    reach_add_block fo n p ms s = Some (Inr (), t) \<Longrightarrow> hint_virtual_selected_parent fo n t = Some (Inr (), u) \<Longrightarrow>
    index_run fo u (dag_extend T n p {}) (dag_extend D n p (set ms))"

definition index_new :: mem_store where
  "index_new = \<lparr>ms_map = [ORIGIN \<mapsto> mem_data_new NONE iv_maximal 0], ms_reindex_root = Some ORIGIN\<rparr>"

lemma reach_init_new: "reach_init mem_store_new = Some (Inr (), index_new)"
  by (simp add: reach_init_def init_with_params_def store_has_def mem_store_new_def rwrite_def store_init_def
      store_insert_def put_data_def set_reindex_root_def index_new_def)

lemma index_new_views: "ids index_new = {ORIGIN}" "kids index_new b = []" "covering index_new b = []"
  "iv index_new ORIGIN = iv_maximal" "par index_new ORIGIN = NONE" "anc index_new a b \<longleftrightarrow> a = b"
proof -
  show v: "ids index_new = {ORIGIN}" "kids index_new b = []" "covering index_new b = []"
    "iv index_new ORIGIN = iv_maximal" "par index_new ORIGIN = NONE" for b
    by (auto simp: index_new_def ids_def kids_def covering_def iv_def par_def mem_data_new_def)
  have "tree_edge index_new = {}" by (auto simp: tree_edge_def v)
  then show "anc index_new a b \<longleftrightarrow> a = b" by (simp add: anc_def)
qed

lemma maximal: "legal iv_maximal" "lo iv_maximal = 1" "hi iv_maximal = 2 ^ 64 - 1"
  by (simp_all add: legal_def lo_def hi_def iv_maximal_def iv_new_def)

lemma index_start: "index_ok index_new (=)"
proof -
  have "ORIGIN \<noteq> NONE" by (simp add: ORIGIN_def NONE_def)
  then have "tree_ok index_new ORIGIN" by (auto simp: tree_ok_def index_new_views)
  moreover have "iv_ok index_new"
    by (auto simp: iv_ok_def index_new_views maximal intro: exI [of _ "1 :: nat"])
  moreover have "dag_ok index_new (=)" by (auto simp: dag_ok_def covers_ok_def index_new_views)
  moreover have "heights index_new ORIGIN"
    by (auto simp: heights_def index_new_views) (simp add: get_height_def get_data_def index_new_def mem_data_new_def)
  moreover have "ms_reindex_root index_new = Some ORIGIN" by (simp add: index_new_def)
  ultimately show ?thesis
    by (simp add: index_ok_def index_new_views room_def maximal)
qed

lemma index_run_ok:
  assumes "index_run fo s T D"
  shows "index_ok s D \<and> (\<forall>a \<in> ids s. \<forall>b \<in> ids s. T a b \<longleftrightarrow> anc s a b)"
  using assms
proof induction
  case (start s)
  then have "s = index_new" by (simp add: reach_init_new)
  then show ?case by (simp add: index_start index_new_views)
next
  case (insert s T D n p ms t u)
  from insert.IH have I: "index_ok s D" and T: "\<forall>a \<in> ids s. \<forall>b \<in> ids s. T a b \<longleftrightarrow> anc s a b" by blast+
  have ok: "tree_ok s ORIGIN" using I by (simp add: index_ok_def)
  have u: "index_ok u (dag_extend D n p (set ms))" "ids u = Set.insert n (ids s)"
    "anc u a b \<longleftrightarrow> anc s a b \<or> b = n \<and> anc s a p" for a b
    using index_step [OF I insert.hyps(2-6), of fo] insert.hyps(7-9) by auto
  have "anc s a n \<longleftrightarrow> a = n" "b \<in> ids s \<Longrightarrow> \<not> anc s n b" for a b
    using anc_in_ids [OF ok] insert.hyps(3) by auto
  then have "\<forall>a \<in> ids u. \<forall>b \<in> ids u. dag_extend T n p {} a b \<longleftrightarrow> anc u a b"
    using u(2,3) T insert.hyps(3,5) by (auto simp: dag_extend_def)
  then show ?case using u(1) by blast
qed


subsection \<open>Properties\<close>

text \<open>Property C20. The reachability index never fails on a well-formed insertion.  In every store a run
  of insertions leads to, with fewer than 2^24 blocks, adding a new block under any known selected parent
  with a merge set of known blocks outside the selected parent's past succeeds - whatever reindexing it
  takes, whatever the floating-point arithmetic of the interval splits returns - and so does the hint that
  moves the reindex root; the result is a store of the run again.  No error, no panic, no endless loop.\<close>

theorem index_never_fails:
  assumes "index_run fo s T D" and "card (ids s) < index_limit"
    and "n \<notin> ids s" "n \<noteq> NONE" "p \<in> ids s"
    and "distinct ms" "\<And>m. m \<in> set ms \<Longrightarrow> m \<in> ids s \<and> \<not> D m p"
  shows "\<exists>t u. reach_add_block fo n p ms s = Some (Inr (), t)
    \<and> hint_virtual_selected_parent fo n t = Some (Inr (), u)
    \<and> index_run fo u (dag_extend T n p {}) (dag_extend D n p (set ms))"
proof -
  have "index_ok s D" using index_run_ok [OF assms(1)] by blast
  then obtain t u where "reach_add_block fo n p ms s = Some (Inr (), t)"
    "hint_virtual_selected_parent fo n t = Some (Inr (), u)"
    using index_step [OF _ assms(2-6)] assms(7) by blast
  then show ?thesis using index_run.insert [OF assms] by blast
qed

theorem index_never_fails_witness:
  "\<forall>fo. \<exists>t u. reach_add_block fo 1 ORIGIN [] index_new = Some (Inr (), t)
    \<and> hint_virtual_selected_parent fo 1 t = Some (Inr (), u)
    \<and> index_run fo u (dag_extend (=) 1 ORIGIN {}) (dag_extend (=) 1 ORIGIN (set []))"
proof
  show "\<exists>t u. reach_add_block fo 1 ORIGIN [] index_new = Some (Inr (), t)
    \<and> hint_virtual_selected_parent fo 1 t = Some (Inr (), u)
    \<and> index_run fo u (dag_extend (=) 1 ORIGIN {}) (dag_extend (=) 1 ORIGIN (set []))" for fo
    by (rule index_never_fails [OF index_run.start [OF reach_init_new]])
      (simp_all add: index_new_views index_limit_def ORIGIN_def NONE_def)
qed

text \<open>Property C19. The queries of the reachability index answer the ancestry of the inserted blocks.  In
  every store of a run, \<open>is_chain_ancestor_of\<close> answers the ancestry along selected parents,
  \<open>is_dag_ancestor_of\<close> the ancestry of the DAG (a block has the ancestors of its selected parent, its
  merge set and itself), and \<open>get_next_chain_ancestor\<close> finds the child of a proper chain ancestor on the
  way to the block: the interval labels and covering sets are an equivalent of the graph.\<close>

theorem index_answers:
  assumes "index_run fo s T D" and "a \<in> ids s" "b \<in> ids s"
  shows "is_chain_ancestor_of s a b = Inr (T a b) \<and> is_dag_ancestor_of s a b = Inr (D a b)
    \<and> (T a b \<and> a \<noteq> b \<longrightarrow> (\<exists>c. get_next_chain_ancestor s b a = Inr c \<and> get_parent s c = Inr a \<and> T c b))"
proof -
  have I: "index_ok s D" and T: "\<And>x y. x \<in> ids s \<Longrightarrow> y \<in> ids s \<Longrightarrow> T x y \<longleftrightarrow> anc s x y"
    using index_run_ok [OF assms(1)] by blast+
  then have ok: "tree_ok s ORIGIN" "iv_ok s" "dag_ok s D" by (simp_all add: index_ok_def)
  have "\<exists>c. get_next_chain_ancestor s b a = Inr c \<and> get_parent s c = Inr a \<and> T c b" if ab: "anc s a b" "a \<noteq> b"
  proof -
    obtain c where c: "c \<in> set (kids s a)" "anc s c b" "get_next_chain_ancestor_unchecked s b a = Inr c"
      by (rule next_unchecked_ok [OF ok(1,2) assms(3) ab])
    note ids = kid_in_ids [OF ok(1) c(1)]
    have "is_strict_chain_ancestor_of s a b = Inr True"
      using is_strict_chain_ancestor_of_eq [OF ok(1,2) assms(2,3)] ab by simp
    then have "get_next_chain_ancestor s b a = Inr c" using c(3) ab(2) by (simp add: get_next_chain_ancestor_def)
    then show ?thesis using ids T [of c b] c(2) assms(3) by auto
  qed
  then show ?thesis
    using T [OF assms(2,3)] is_chain_ancestor_of_eq [OF ok(1,2) assms(2,3)] is_dag_ancestor_of_eq [OF ok assms(2,3)] by simp
qed

theorem index_answers_witness:
  "\<forall>fo :: unit f64_ops. \<exists>s T D. index_run fo s T D \<and> is_chain_ancestor_of s ORIGIN 1 = Inr True
    \<and> is_dag_ancestor_of s 1 ORIGIN = Inr False"
proof
  fix fo :: "unit f64_ops"
  have O: "(1 :: blk) \<noteq> ORIGIN" "(1 :: blk) \<noteq> NONE" by (simp_all add: ORIGIN_def NONE_def)
  have start: "index_run fo index_new (=) (=)" by (rule index_run.start [OF reach_init_new])
  have pre: "card (ids index_new) < index_limit" "1 \<notin> ids index_new" "ORIGIN \<in> ids index_new"
    using O by (simp_all add: index_new_views index_limit_def)
  then obtain t u where tu: "reach_add_block fo 1 ORIGIN [] index_new = Some (Inr (), t)"
    "hint_virtual_selected_parent fo 1 t = Some (Inr (), u)" "ids u = insert 1 (ids index_new)"
    using index_step [OF index_start pre(1,2) O(2) pre(3), of "[]" fo] by auto
  let ?T = "dag_extend (=) 1 ORIGIN {}" and ?D = "dag_extend (=) 1 ORIGIN (set [])"
  have run: "index_run fo u ?T ?D"
    by (rule index_run.insert [OF start pre(1,2) O(2) pre(3) _ _ tu(1,2)]) simp_all
  have mem: "1 \<in> ids u" "ORIGIN \<in> ids u" using tu(3) pre(3) by auto
  have TD: "?T ORIGIN 1" "\<not> ?D 1 ORIGIN" using O by (simp_all add: dag_extend_def)
  have "is_chain_ancestor_of u ORIGIN 1 = Inr True" "is_dag_ancestor_of u 1 ORIGIN = Inr False"
    using index_answers [OF run mem(2,1)] index_answers [OF run mem(1,2)] TD by simp_all
  then show "\<exists>s T D. index_run fo s T D \<and> is_chain_ancestor_of s ORIGIN 1 = Inr True
    \<and> is_dag_ancestor_of s 1 ORIGIN = Inr False" using run by blast
qed

end
