(* ===== verification/GhostMerge.thy ===== *)
theory GhostMerge
  imports DagEngine ReachRuns
begin

text \<open>
  The merge set of GHOSTDAG.  Over an index that answers the ancestry of the block graph, the breadth
  first search of \<open>unordered_mergeset_without_selected_parent\<close> ends and returns exactly the ancestors
  of the parents that are not ancestors of the selected parent.
\<close>

subsection \<open>The graph of the blocks\<close>

definition parent_edge :: "(blk \<rightharpoonup> blk list) \<Rightarrow> (blk \<times> blk) set" where
  "parent_edge rel = {(p, c). \<exists>ps. rel c = Some ps \<and> p \<in> set ps}"

definition dag_anc :: "(blk \<rightharpoonup> blk list) \<Rightarrow> blk \<Rightarrow> blk \<Rightarrow> bool" where
  "dag_anc rel a b \<longleftrightarrow> (a, b) \<in> (parent_edge rel)\<^sup>*"

lemma dag_anc_refl [simp]: "dag_anc rel a a"
  by (simp add: dag_anc_def)

lemma dag_anc_trans: "dag_anc rel a b \<Longrightarrow> dag_anc rel b c \<Longrightarrow> dag_anc rel a c"
  by (simp add: dag_anc_def)

lemma dag_anc_parent: "rel c = Some ps \<Longrightarrow> p \<in> set ps \<Longrightarrow> dag_anc rel p c"
  by (auto simp: dag_anc_def parent_edge_def)

lemma dag_anc_step: "dag_anc rel a p \<Longrightarrow> rel c = Some ps \<Longrightarrow> p \<in> set ps \<Longrightarrow> dag_anc rel a c"
  using dag_anc_parent dag_anc_trans by blast

lemma dag_anc_cases:
  assumes "dag_anc rel a b"
  obtains "a = b" | p ps where "rel b = Some ps" "p \<in> set ps" "dag_anc rel a p"
  using assms unfolding dag_anc_def by (erule rtranclE) (auto simp: parent_edge_def)

lemma dag_anc_iff: "dag_anc rel a b \<longleftrightarrow> a = b \<or> (\<exists>ps. rel b = Some ps \<and> (\<exists>p \<in> set ps. dag_anc rel a p))"
  using dag_anc_step [of rel a _ b] by (auto elim: dag_anc_cases)

lemma dag_anc_down [consumes 1, case_names root kid]:
  assumes "dag_anc rel a b" "P b" "\<And>x y ps. rel y = Some ps \<Longrightarrow> x \<in> set ps \<Longrightarrow> dag_anc rel y b \<Longrightarrow> P y \<Longrightarrow> P x"
  shows "P a"
  using assms(1) unfolding dag_anc_def
proof (induction rule: converse_rtrancl_induct)
  case base
  then show ?case by (rule assms(2))
next
  case (step x y)
  then show ?case using assms(3) [of y _ x] by (auto simp: parent_edge_def dag_anc_def)
qed

lemma dag_anc_up [consumes 1, case_names root kid]:
  assumes "dag_anc rel a b" "P a" "\<And>p c ps. dag_anc rel a p \<Longrightarrow> rel c = Some ps \<Longrightarrow> p \<in> set ps \<Longrightarrow> P p \<Longrightarrow> P c"
  shows "P b"
  using assms(1) unfolding dag_anc_def
proof (induction rule: rtrancl_induct)
  case base
  then show ?case by (rule assms(2))
next
  case (step p c)
  then show ?case using assms(3) [of p c] by (auto simp: parent_edge_def dag_anc_def)
qed

text \<open>Relations among known blocks: every parent is known.\<close>

definition parents_known :: "blk set \<Rightarrow> (blk \<rightharpoonup> blk list) \<Rightarrow> bool" where
  "parents_known K rel \<longleftrightarrow> (\<forall>c ps. rel c = Some ps \<longrightarrow> c \<in> K \<and> ps \<noteq> [] \<and> set ps \<subseteq> K)"

lemma parents_knownD: "parents_known K rel \<Longrightarrow> rel c = Some ps \<Longrightarrow> c \<in> K \<and> ps \<noteq> [] \<and> set ps \<subseteq> K"
  by (simp add: parents_known_def)

lemma parents_known_anc: "dag_anc rel a b \<Longrightarrow> parents_known K rel \<Longrightarrow> a = b \<or> a \<in> K \<and> b \<in> K"
  by (induction rule: dag_anc_down) (auto dest: parents_knownD)

text \<open>A new block adds its parents' ancestry to itself and nothing else.\<close>

lemma dag_anc_add:
  assumes cl: "parents_known K rel" and b: "b \<notin> K" and ps: "set ps \<subseteq> K"
  shows "dag_anc (rel(b \<mapsto> ps)) x y \<longleftrightarrow> (if y = b then x = b \<or> (\<exists>p \<in> set ps. dag_anc rel x p) else dag_anc rel x y)"
proof -
  have rel: "rel b = None" using parents_knownD [OF cl, of b] b by (cases "rel b") auto
  have up: "dag_anc (rel(b \<mapsto> ps)) u v" if "dag_anc rel u v" for u v
  proof -
    have "parent_edge rel \<subseteq> parent_edge (rel(b \<mapsto> ps))" using rel by (auto simp: parent_edge_def)
    then show ?thesis using that rtrancl_mono unfolding dag_anc_def by blast
  qed
  have down: "dag_anc rel u v" if "dag_anc (rel(b \<mapsto> ps)) u v" "v \<noteq> b" for u v
    using that(1,2)
    unfolding dag_anc_def [of "rel(b \<mapsto> ps)"]
  proof (induction rule: rtrancl_induct)
    case (step y z)
    then obtain qs where qs: "rel z = Some qs" "y \<in> set qs" by (auto simp: parent_edge_def split: if_splits)
    then have "y \<noteq> b" using parents_knownD [OF cl] b by blast
    then show ?case using step.IH dag_anc_step [where rel = rel and c = z and ps = qs and p = y] qs by blast
  qed simp
  show ?thesis
  proof (cases "y = b")
    case True
    have "dag_anc (rel(b \<mapsto> ps)) x b \<longleftrightarrow> x = b \<or> (\<exists>p \<in> set ps. dag_anc (rel(b \<mapsto> ps)) x p)"
      using dag_anc_step [of "rel(b \<mapsto> ps)" x _ b ps] by (auto elim: dag_anc_cases)
    moreover have "dag_anc (rel(b \<mapsto> ps)) x p \<longleftrightarrow> dag_anc rel x p" if "p \<in> set ps" for p
      using up down that ps b by blast
    ultimately show ?thesis using True by auto
  next
    case False
    then show ?thesis using up down by auto
  qed
qed

subsection \<open>The search\<close>

text \<open>What the manager relies on: its index answers the ancestry of its relations.\<close>

definition answers :: "ghostdag_manager \<Rightarrow> blk set \<Rightarrow> bool" where
  "answers g K \<longleftrightarrow> parents_known K (gm_relations g)
     \<and> (\<forall>a \<in> K. \<forall>b \<in> K. dag_anc_query g a b = Some (dag_anc (gm_relations g) a b))
     \<and> dom (gm_relations g) = K - {ORIGIN} \<and> ORIGIN \<in> K \<and> (\<forall>a \<in> K. dag_anc (gm_relations g) ORIGIN a)"

definition merged :: "ghostdag_manager \<Rightarrow> blk \<Rightarrow> blk list \<Rightarrow> blk set" where
  "merged g sp ps = {x. (\<exists>p \<in> set ps. dag_anc (gm_relations g) x p) \<and> \<not> dag_anc (gm_relations g) x sp}"

text \<open>The state of the search: the queue, the merge set so far, known ancestors of the selected parent.\<close>

definition searching :: "ghostdag_manager \<Rightarrow> blk set \<Rightarrow> blk \<Rightarrow> blk list \<Rightarrow> blk list \<Rightarrow> blk list \<Rightarrow> blk set \<Rightarrow> bool" where
  "searching g K sp ps queue ms past \<longleftrightarrow> set queue \<subseteq> set ms \<and> distinct ms \<and> set ms \<subseteq> K \<inter> merged g sp ps
     \<and> (\<forall>x \<in> past. dag_anc (gm_relations g) x sp)"

lemma scan_parents_ok:
  assumes g: "answers g K" and sp: "sp \<in> K"
    and "searching g K sp qs queue ms past" "set xs \<subseteq> K" "\<And>x. x \<in> set xs \<Longrightarrow> \<exists>p \<in> set qs. dag_anc (gm_relations g) x p"
  shows "\<exists>new past'. scan_parents g sp xs (queue, ms, past) = Some (queue @ new, ms @ new, past')
    \<and> searching g K sp qs (queue @ new) (ms @ new) past'
    \<and> (\<forall>x \<in> set xs. x \<in> set (ms @ new) \<or> dag_anc (gm_relations g) x sp)"
  using assms(3-)
proof (induction xs arbitrary: queue ms past)
  case Nil
  then show ?case by (intro exI [of _ "[]"] exI [of _ past]) simp
next
  case (Cons x xs)
  have q: "dag_anc_query g x sp = Some (dag_anc (gm_relations g) x sp)"
    using g sp Cons.prems(2) by (simp add: answers_def)
  consider "x \<in> set ms \<or> x \<in> past" | "x \<notin> set ms" "x \<notin> past" "dag_anc (gm_relations g) x sp"
    | "x \<notin> set ms" "x \<notin> past" "\<not> dag_anc (gm_relations g) x sp" by blast
  then show ?case
  proof cases
    case 1
    then have "x \<in> set ms \<or> dag_anc (gm_relations g) x sp" using Cons.prems(1) by (auto simp: searching_def)
    then show ?thesis using Cons.IH [OF Cons.prems(1)] Cons.prems(2,3) 1 by fastforce
  next
    case 2
    have "searching g K sp qs queue ms (insert x past)" using Cons.prems(1) 2 by (simp add: searching_def)
    from Cons.IH [OF this] show ?thesis using Cons.prems(2,3) 2 q by fastforce
  next
    case 3
    have "searching g K sp qs (queue @ [x]) (ms @ [x]) past"
      using Cons.prems 3 by (auto simp: searching_def merged_def)
    from Cons.IH [OF this] Cons.prems(2,3) obtain new past' where
      *: "scan_parents g sp xs (queue @ [x], ms @ [x], past) = Some ((queue @ [x]) @ new, (ms @ [x]) @ new, past')"
        "searching g K sp qs ((queue @ [x]) @ new) ((ms @ [x]) @ new) past'"
        "\<forall>y \<in> set xs. y \<in> set ((ms @ [x]) @ new) \<or> dag_anc (gm_relations g) y sp"
      by fastforce
    then show ?thesis using 3 q by (intro exI [of _ "x # new"] exI [of _ past']) auto
  qed
qed

lemma mergeset_loop_ok:
  assumes g: "answers g K" and sp: "sp \<in> K" and qs: "set qs \<subseteq> K"
    and "searching g K sp qs queue ms past" "\<And>q. q \<in> set qs \<Longrightarrow> q \<in> set ms \<or> dag_anc (gm_relations g) q sp"
    and "\<And>c xs x. c \<in> set ms \<Longrightarrow> c \<notin> set queue \<Longrightarrow> gm_relations g c = Some xs \<Longrightarrow> x \<in> set xs \<Longrightarrow>
      x \<in> set ms \<or> dag_anc (gm_relations g) x sp"
  shows "\<exists>ms'. mergeset_loop g sp (queue, ms, past) = Some ms' \<and> distinct ms' \<and> set ms' = merged g sp qs"
  using assms(4-)
proof (induction "length queue + 2 * card (K - set ms)" arbitrary: queue ms past rule: less_induct)
  case less
  note S = less.prems(1)
  let ?D = "dag_anc (gm_relations g)"
  have cl: "parents_known K (gm_relations g)" using g by (simp add: answers_def)
  show ?case
  proof (cases queue)
    case Nil
    have "x \<in> set ms" if "x \<in> merged g sp qs" for x
    proof -
      from that obtain p where p: "p \<in> set qs" "?D x p" "\<not> ?D x sp" by (auto simp: merged_def)
      from p(2) have "\<not> ?D x sp \<longrightarrow> x \<in> set ms"
      proof (induction rule: dag_anc_down)
        case root
        then show ?case using less.prems(2) p(1) by blast
      next
        case (kid x y ps)
        then show ?case using less.prems(3) [of y ps x] Nil dag_anc_parent dag_anc_trans by (metis empty_iff empty_set)
      qed
      then show ?thesis using p(3) by blast
    qed
    then have "set ms = merged g sp qs" using S by (auto simp: searching_def)
    then show ?thesis using S Nil by (simp add: mergeset_loop.simps [of g sp] searching_def)
  next
    case (Cons c rest)
    have c: "c \<in> K" "\<exists>p \<in> set qs. ?D c p" "\<not> ?D c sp" using S Cons by (auto simp: searching_def merged_def)
    then have "c \<noteq> ORIGIN" using g sp by (auto simp: answers_def)
    then obtain ps where ps: "gm_relations g c = Some ps" using g c(1) by (cases "gm_relations g c") (auto simp: answers_def)
    have psK: "set ps \<subseteq> K" using parents_knownD [OF cl ps] by blast
    have S': "searching g K sp qs rest ms past" using S Cons by (auto simp: searching_def)
    have "\<exists>p \<in> set qs. ?D x p" if "x \<in> set ps" for x using c(2) dag_anc_parent [where rel = "gm_relations g" and c = c and ps = ps and p = x] ps that dag_anc_trans by blast
    from scan_parents_ok [OF g sp S' psK this] obtain new past' where
      scan: "scan_parents g sp ps (rest, ms, past) = Some (rest @ new, ms @ new, past')"
        "searching g K sp qs (rest @ new) (ms @ new) past'"
        "\<forall>x \<in> set ps. x \<in> set (ms @ new) \<or> ?D x sp" by blast
    have new: "set new \<subseteq> K - set ms" "distinct new" using scan(2) by (auto simp: searching_def)
    have "K - set (ms @ new) = (K - set ms) - set new" by auto
    then have card: "card (K - set (ms @ new)) = card (K - set ms) - length new"
      using new by (simp add: card_Diff_subset distinct_card)
    have "length new \<le> card (K - set ms)" using new by (metis card_mono distinct_card finite)
    then have dec: "length (rest @ new) + 2 * card (K - set (ms @ new)) < length queue + 2 * card (K - set ms)"
      using card Cons by simp
    have "\<exists>ms'. mergeset_loop g sp (rest @ new, ms @ new, past') = Some ms' \<and> distinct ms' \<and> set ms' = merged g sp qs"
    proof (rule less.hyps [OF dec scan(2)])
      show "q \<in> set (ms @ new) \<or> ?D q sp" if "q \<in> set qs" for q using less.prems(2) [OF that] by auto
      show "x \<in> set (ms @ new) \<or> ?D x sp"
        if "d \<in> set (ms @ new)" "d \<notin> set (rest @ new)" "gm_relations g d = Some xs" "x \<in> set xs" for d xs x
      proof (cases "d = c")
        case True
        then show ?thesis using scan(3) that ps by auto
      next
        case False
        then show ?thesis using less.prems(3) [of d xs x] that Cons by auto
      qed
    qed
    then show ?thesis using Cons ps scan(1) by (simp add: mergeset_loop.simps [of g sp "(c # rest, ms, past)"])
  qed
qed

lemma mergeset_ok:
  assumes g: "answers g K" and sp: "sp \<in> set ps" and ps: "set ps \<subseteq> K"
    and apart: "\<And>p. p \<in> set ps \<Longrightarrow> p \<noteq> sp \<Longrightarrow> \<not> dag_anc (gm_relations g) p sp"
  shows "\<exists>ms. unordered_mergeset_without_selected_parent g sp ps = Some ms \<and> distinct ms \<and> set ms = merged g sp ps"
proof -
  define queue where "queue = filter (\<lambda>p. p \<noteq> sp) ps"
  have "searching g K sp ps queue (remdups queue) {}"
    using ps apart dag_anc_refl [of "gm_relations g"] by (auto simp: searching_def merged_def queue_def intro!: bexI)
  then have "\<exists>ms. mergeset_loop g sp (queue, remdups queue, {}) = Some ms \<and> distinct ms \<and> set ms = merged g sp ps"
    by (intro mergeset_loop_ok [OF g _ ps]) (use sp ps in \<open>auto simp: queue_def\<close>)
  then show ?thesis by (simp add: unordered_mergeset_without_selected_parent_def queue_def Let_def)
qed

end
