(* ===== verification/GhostColor.thy ===== *)
theory GhostColor
  imports GhostMerge "HOL-Library.Multiset"
begin

text \<open>
  The colouring of GHOSTDAG never panics: over a store in which every block descends from genesis along
  its selected parents and records the blue anticone size of every blue of its merge set, at most \<open>k\<close>,
  every blue anticone size is found, no size exceeds \<open>k\<close>, and the walk down the selected chain ends at
  the latest at genesis.
\<close>

subsection \<open>The selected chain\<close>

definition sp_rel :: "(blk \<rightharpoonup> ghostdag_data) \<Rightarrow> blk \<rightharpoonup> blk list" where
  "sp_rel gd c = (if c = ORIGIN then None else map_option (\<lambda>d. [gd_selected_parent d]) (gd c))"

definition chain_anc :: "(blk \<rightharpoonup> ghostdag_data) \<Rightarrow> blk \<Rightarrow> blk \<Rightarrow> bool" where
  "chain_anc gd = dag_anc (sp_rel gd)"

lemma sp_rel_eq: "sp_rel gd c = Some ps \<longleftrightarrow> c \<noteq> ORIGIN \<and> (\<exists>d. gd c = Some d \<and> ps = [gd_selected_parent d])"
  by (auto simp: sp_rel_def)

lemma chain_anc_cases:
  assumes "chain_anc gd a b"
  obtains "a = b" | d where "b \<noteq> ORIGIN" "gd b = Some d" "chain_anc gd a (gd_selected_parent d)"
  using assms unfolding chain_anc_def by (rule dag_anc_cases) (auto simp: sp_rel_eq chain_anc_def)

lemma chain_anc_up [consumes 1, case_names root kid]:
  assumes "chain_anc gd a b" "P a"
    "\<And>c d. c \<noteq> ORIGIN \<Longrightarrow> gd c = Some d \<Longrightarrow> chain_anc gd a (gd_selected_parent d) \<Longrightarrow> P (gd_selected_parent d) \<Longrightarrow> P c"
  shows "P b"
  using assms(1,2) unfolding chain_anc_def
  by (rule dag_anc_up) (use assms(3) in \<open>auto simp: sp_rel_eq chain_anc_def\<close>)

lemma chain_anc_refl [simp]: "chain_anc gd a a"
  by (simp add: chain_anc_def)

lemma chain_anc_trans: "chain_anc gd a b \<Longrightarrow> chain_anc gd b c \<Longrightarrow> chain_anc gd a c"
  unfolding chain_anc_def by (rule dag_anc_trans)

lemma chain_anc_parent: "gd c = Some d \<Longrightarrow> c \<noteq> ORIGIN \<Longrightarrow> chain_anc gd (gd_selected_parent d) c"
  unfolding chain_anc_def by (rule dag_anc_parent [where ps = "[gd_selected_parent d]"]) (auto simp: sp_rel_eq)

text \<open>What a stored or partial colouring records.\<close>

definition recorded :: "u16 \<Rightarrow> blk set \<Rightarrow> ghostdag_data \<Rightarrow> bool" where
  "recorded k K d \<longleftrightarrow> set (gd_mergeset_blues d) \<subseteq> K \<inter> dom (gd_blues_anticone_sizes d)
     \<and> (\<forall>b n. gd_blues_anticone_sizes d b = Some n \<longrightarrow> n \<le> k)"

definition coloured :: "ghostdag_manager \<Rightarrow> blk set \<Rightarrow> bool" where
  "coloured g K \<longleftrightarrow> answers g K \<and> dom (gm_store g) = K \<and> gm_genesis g \<noteq> ORIGIN \<and> gm_k g < - 1
     \<and> (\<forall>c d. gm_store g c = Some d \<longrightarrow> c \<noteq> ORIGIN \<longrightarrow>
         recorded (gm_k g) K d \<and> gd_selected_parent d \<in> K \<and> dag_anc (gm_relations g) (gd_selected_parent d) c
         \<and> chain_anc (gm_store g) (gm_genesis g) c
         \<and> (c = gm_genesis g \<longrightarrow> gd_selected_parent d = ORIGIN \<and> gd_mergeset_blues d = [ORIGIN]))"

lemma colouredD:
  assumes "coloured g K" "gm_store g c = Some d" "c \<noteq> ORIGIN"
  shows "recorded (gm_k g) K d" "gd_selected_parent d \<in> K" "chain_anc (gm_store g) (gm_genesis g) c"
    "c = gm_genesis g \<Longrightarrow> gd_selected_parent d = ORIGIN" "c = gm_genesis g \<Longrightarrow> gd_mergeset_blues d = [ORIGIN]"
    "dag_anc (gm_relations g) (gd_selected_parent d) c"
  using assms by (simp_all add: coloured_def)

lemma coloured_query:
  "coloured g K \<Longrightarrow> a \<in> K \<Longrightarrow> b \<in> K \<Longrightarrow> dag_anc_query g a b = Some (dag_anc (gm_relations g) a b)"
  by (simp add: coloured_def answers_def)

lemma coloured_store: "coloured g K \<Longrightarrow> a \<in> K \<Longrightarrow> \<exists>d. gm_store g a = Some d"
  by (auto simp: coloured_def)

lemma chain_bottom:
  assumes "coloured g K" "chain_anc (gm_store g) a b" "b = gm_genesis g \<or> b = ORIGIN"
  shows "a = gm_genesis g \<or> a = ORIGIN"
  using assms(2)
proof (cases rule: chain_anc_cases)
  case (2 d)
  then have "gd_selected_parent d = ORIGIN" using assms colouredD(4) [OF assms(1)] by blast
  then show ?thesis using 2(3) by (auto elim: chain_anc_cases)
qed (use assms(3) in auto)

lemma chain_in_dag:
  assumes "coloured g K" "chain_anc (gm_store g) a b"
  shows "dag_anc (gm_relations g) a b"
  using assms(2)
proof (induction rule: chain_anc_up)
  case (kid c d)
  then show ?case using colouredD(6) [OF assms(1) kid(2,1)] dag_anc_trans by blast
qed simp

subsection \<open>Blue anticone sizes\<close>

lemma anticone_size_found:
  assumes g: "coloured g K" and c: "c \<noteq> ORIGIN" "c \<noteq> gm_genesis g" "gm_store g c = Some d"
    and peer: "gd_blues_anticone_sizes d peer \<noteq> None" and "chain_anc (gm_store g) c sp"
    and "\<And>b n. sizes b = Some n \<Longrightarrow> n \<le> gm_k g"
  shows "\<exists>n. anticone_size_loop g peer sizes sp = Some n \<and> n \<le> gm_k g"
  using assms(6,7)
proof (induction arbitrary: sizes rule: chain_anc_up)
  case root
  have "\<exists>n. gd_blues_anticone_sizes d peer = Some n \<and> n \<le> gm_k g"
    using peer colouredD(1) [OF g c(3,1)] by (auto simp: recorded_def)
  then show ?case using root c
    by (cases "sizes peer")
      (auto simp: anticone_size_loop.simps [of g peer sizes] anticone_sizes_of_def selected_parent_of_def
        anticone_size_loop.simps [of g peer "gd_blues_anticone_sizes d"])
next
  case (kid z dz)
  have "chain_anc (gm_store g) c z" using kid(3) chain_anc_parent [where gd = "gm_store g" and c = z and d = dz] kid(1,2) chain_anc_trans by blast
  then have z: "z \<noteq> gm_genesis g" "z \<noteq> ORIGIN" using chain_bottom [OF g] c by blast+
  have "\<exists>n. anticone_size_loop g peer (gd_blues_anticone_sizes dz) (gd_selected_parent dz) = Some n \<and> n \<le> gm_k g"
    by (rule kid.IH) (use colouredD(1) [OF g kid(2,1)] in \<open>auto simp: recorded_def\<close>)
  then show ?case using kid.prems kid(2) z
    by (cases "sizes peer")
      (auto simp: anticone_size_loop.simps [of g peer sizes] anticone_sizes_of_def selected_parent_of_def)
qed

subsection \<open>One candidate\<close>

definition small_sizes :: "u16 \<Rightarrow> (blk \<rightharpoonup> u16) \<Rightarrow> bool" where
  "small_sizes k sizes \<longleftrightarrow> (\<forall>b n. sizes b = Some n \<longrightarrow> n < k)"

fun coloring_ok :: "u16 \<Rightarrow> coloring_state \<Rightarrow> bool" where
  "coloring_ok k (Blue sizes n) \<longleftrightarrow> small_sizes k sizes \<and> n \<le> k"
| "coloring_ok k (Pending sizes n) \<longleftrightarrow> small_sizes k sizes \<and> n \<le> k"
| "coloring_ok k Red \<longleftrightarrow> True"

lemma color_peers_ok:
  assumes g: "coloured g K" and cand: "cand \<in> K" and k: "k = gm_k g"
    and "set peers \<subseteq> K" "\<And>p. p \<in> set peers \<Longrightarrow> \<not> dag_anc (gm_relations g) p cand \<Longrightarrow>
      \<exists>n. blue_anticone_size g p new = Some n \<and> n \<le> k"
    and "small_sizes k sizes" "n \<le> k"
  shows "\<exists>st. color_peers g new cand k peers sizes n = Some st \<and> coloring_ok k st"
  using assms(4-)
proof (induction peers arbitrary: sizes n)
  case Nil
  then show ?case by simp
next
  case (Cons p peers)
  have q: "dag_anc_query g p cand = Some (dag_anc (gm_relations g) p cand)"
    using coloured_query [OF g _ cand] Cons.prems(1) by simp
  show ?case
  proof (cases "dag_anc (gm_relations g) p cand")
    case True
    then show ?thesis using Cons.IH [of sizes n] Cons.prems q by auto
  next
    case False
    then obtain pn where pn: "blue_anticone_size g p new = Some pn" "pn \<le> k" using Cons.prems(2) [of p] by auto
    show ?thesis
    proof (cases "k < n + 1 \<or> pn = k")
      case True
      then show ?thesis using q False pn by auto
    next
      case go: False
      have "small_sizes k (sizes(p \<mapsto> pn))" using Cons.prems(3) pn(2) go by (auto simp: small_sizes_def)
      then show ?thesis
        using Cons.IH [of "sizes(p \<mapsto> pn)" "n + 1"] Cons.prems q False pn go
        by (auto simp del: fun_upd_apply)
    qed
  qed
qed

text \<open>The chain blocks a candidate is compared with: first the new block, then its selected chain.\<close>

lemma blue_anticone_found:
  assumes g: "coloured g K" and new: "recorded (gm_k g) K new" and d: "gm_store g c = Some d" "c \<noteq> ORIGIN"
    and c: "chain_anc (gm_store g) c (gd_selected_parent new)"
    and p: "p \<in> set (gd_mergeset_blues d)" "\<not> dag_anc (gm_relations g) p cand" and cand: "cand \<in> K"
  shows "\<exists>n. blue_anticone_size g p new = Some n \<and> n \<le> gm_k g"
proof -
  have "dag_anc (gm_relations g) ORIGIN cand" using g cand by (simp add: coloured_def answers_def)
  then have "c \<noteq> gm_genesis g" using colouredD(5) [OF g d] p by auto
  moreover have "gd_blues_anticone_sizes d p \<noteq> None" using colouredD(1) [OF g d] p(1) by (auto simp: recorded_def)
  ultimately show ?thesis unfolding blue_anticone_size_def
    using new by (intro anticone_size_found [OF g d(2) _ d(1) _ c]) (auto simp: recorded_def)
qed

definition verdict_ok :: "u16 \<Rightarrow> ((blk \<rightharpoonup> u16) \<times> u16) option \<Rightarrow> bool" where
  "verdict_ok k v \<longleftrightarrow> (case v of None \<Rightarrow> True | Some (sizes, n) \<Rightarrow> small_sizes k sizes \<and> n \<le> k)"

lemma candidate_chain_ok:
  assumes g: "coloured g K" and new: "recorded (gm_k g) K new" and cand: "cand \<in> K" "cand \<noteq> ORIGIN"
    and "chain_anc (gm_store g) (gm_genesis g) c" "chain_anc (gm_store g) c (gd_selected_parent new)"
    and "c \<in> K" "gm_store g c = Some d" "small_sizes (gm_k g) sizes" "n \<le> gm_k g"
  shows "\<exists>v. candidate_loop g new cand (gm_k g) (Some c, d) sizes n = Some v \<and> verdict_ok (gm_k g) v"
  using assms(5-)
proof (induction arbitrary: d sizes n rule: chain_anc_up)
  case root
  obtain dc where "gm_store g cand = Some dc" using coloured_store [OF g cand(1)] by blast
  then have "dag_anc (gm_relations g) (gm_genesis g) cand"
    using chain_in_dag [OF g] colouredD(3) [OF g _ cand(2)] by blast
  then show ?case using coloured_query [OF g root(2) cand(1)] root(4,5)
    by (simp add: candidate_loop.simps [of g new] check_blue_candidate_with_chain_block_def verdict_ok_def)
next
  case (kid c dc)
  have d: "d = dc" using kid.prems(3) kid(2) by simp
  have blues: "set (gd_mergeset_blues dc) \<subseteq> K" using colouredD(1) [OF g kid(2,1)] by (auto simp: recorded_def)
  have peers: "\<exists>st. color_peers g new cand (gm_k g) (gd_mergeset_blues dc) sizes n = Some st \<and> coloring_ok (gm_k g) st"
    by (rule color_peers_ok [OF g cand(1) refl blues])
      (use blue_anticone_found [OF g new kid(2,1) kid.prems(1) _ _ cand(1)] kid.prems(4,5) in auto)
  show ?case
  proof (cases "dag_anc (gm_relations g) c cand")
    case True
    then show ?thesis using coloured_query [OF g kid.prems(2) cand(1)] kid.prems(4,5)
      by (simp add: candidate_loop.simps [of g new] check_blue_candidate_with_chain_block_def verdict_ok_def)
  next
    case False
    obtain st where st: "color_peers g new cand (gm_k g) (gd_mergeset_blues dc) sizes n = Some st" "coloring_ok (gm_k g) st"
      using peers by blast
    then have check: "check_blue_candidate_with_chain_block g new (Some c, dc) cand sizes n (gm_k g) = Some st"
      using False coloured_query [OF g kid.prems(2) cand(1)] by (simp add: check_blue_candidate_with_chain_block_def)
    let ?sp = "gd_selected_parent dc"
    obtain d' where d': "gm_store g ?sp = Some d'" using coloured_store [OF g colouredD(2) [OF g kid(2,1)]] by blast
    have sp: "chain_anc (gm_store g) ?sp (gd_selected_parent new)"
      using chain_anc_parent [where gd = "gm_store g" and c = c and d = dc] kid(1,2) kid.prems(1) chain_anc_trans by blast
    show ?thesis
    proof (cases st)
      case (Pending s m)
      then have "\<exists>v. candidate_loop g new cand (gm_k g) (Some ?sp, d') s m = Some v \<and> verdict_ok (gm_k g) v"
        using st(2) kid.IH [OF sp colouredD(2) [OF g kid(2,1)] d'] by simp
      then show ?thesis using check d' Pending d by (simp add: candidate_loop.simps [of g new cand _ "(Some c, dc)"])
    qed (use check d st(2) in \<open>auto simp: candidate_loop.simps [of g new cand _ "(Some c, dc)"] verdict_ok_def\<close>)
  qed
qed


lemma check_candidate_ok:
  assumes g: "coloured g K" and new: "recorded (gm_k g) K new" and cand: "cand \<in> K" "cand \<noteq> ORIGIN"
    and sp: "gd_selected_parent new \<in> K" "gd_selected_parent new \<noteq> ORIGIN"
  shows "\<exists>v. check_blue_candidate g new cand (gm_k g) = Some v \<and> verdict_ok (gm_k g) v"
proof -
  let ?sp = "gd_selected_parent new"
  obtain d where d: "gm_store g ?sp = Some d" using coloured_store [OF g sp(1)] by blast
  have blues: "set (gd_mergeset_blues new) \<subseteq> K" using new by (auto simp: recorded_def)
  have known: "\<exists>n. blue_anticone_size g p new = Some n \<and> n \<le> gm_k g" if p: "p \<in> set (gd_mergeset_blues new)" for p
  proof -
    obtain n where "gd_blues_anticone_sizes new p = Some n" "n \<le> gm_k g"
      using new p by (auto simp: recorded_def)
    then show ?thesis by (simp add: blue_anticone_size_def anticone_size_loop.simps [of g p])
  qed
  have "small_sizes (gm_k g) (\<lambda>_. None)" "(0 :: u16) \<le> gm_k g" by (simp_all add: small_sizes_def)
  then obtain st where st: "color_peers g new cand (gm_k g) (gd_mergeset_blues new) (\<lambda>_. None) 0 = Some st" "coloring_ok (gm_k g) st"
    using color_peers_ok [OF g cand(1) refl blues, of new "\<lambda>_. None" 0] known by blast
  have check: "check_blue_candidate_with_chain_block g new (None, new) cand (\<lambda>_. None) 0 (gm_k g) = Some st"
    using st(1) by (simp add: check_blue_candidate_with_chain_block_def)
  show ?thesis
  proof (cases st)
    case (Pending s m)
    then have "\<exists>v. candidate_loop g new cand (gm_k g) (Some ?sp, d) s m = Some v \<and> verdict_ok (gm_k g) v"
      using candidate_chain_ok [OF g new cand colouredD(3) [OF g d sp(2)] chain_anc_refl sp(1) d] st(2) by simp
    then show ?thesis using check d Pending
      by (simp add: check_blue_candidate_def verdict_ok_def candidate_loop.simps [of g new cand _ "(None, new)"])
  qed (use check st(2) in \<open>auto simp: check_blue_candidate_def verdict_ok_def
      candidate_loop.simps [of g new cand _ "(None, new)"]\<close>)
qed

subsection \<open>The whole colouring\<close>

lemma recorded_blue:
  assumes "recorded k K new" "cand \<in> K" "small_sizes k sizes" "n \<le> k"
  shows "recorded k K (add_blue cand n sizes new)"
proof -
  have "m + 1 \<le> k" if "sizes b = Some m" for b m
    using assms(3) that by (auto simp: small_sizes_def intro: inc_le)
  then show ?thesis using assms by (auto simp: recorded_def add_blue_def split: option.splits if_splits)
qed

lemma recorded_red: "recorded k K (add_red cand new) \<longleftrightarrow> recorded k K new"
  by (simp add: recorded_def add_red_def)

lemma color_all_ok:
  assumes g: "coloured g K" and "recorded (gm_k g) K new" "set cands \<subseteq> K - {ORIGIN}"
    and "gd_selected_parent new \<in> K" "gd_selected_parent new \<noteq> ORIGIN" "gd_mergeset_blues new \<noteq> []"
  shows "\<exists>new'. color_all g cands new = Some new' \<and> recorded (gm_k g) K new'
    \<and> gd_selected_parent new' = gd_selected_parent new \<and> gd_mergeset_blues new' \<noteq> []
    \<and> hd (gd_mergeset_blues new') = hd (gd_mergeset_blues new)
    \<and> mset (unordered_mergeset new') = mset (unordered_mergeset new) + mset cands"
  using assms(2-)
proof (induction cands arbitrary: new)
  case Nil
  then show ?case by simp
next
  case (Cons c cands)
  have c: "c \<in> K" "c \<noteq> ORIGIN" using Cons.prems(2) by auto
  from check_candidate_ok [OF g Cons.prems(1) c Cons.prems(3,4)] obtain v where
    v: "check_blue_candidate g new c (gm_k g) = Some v" "verdict_ok (gm_k g) v" by blast
  define new1 where "new1 = (case v of Some (sizes, n) \<Rightarrow> add_blue c n sizes new | None \<Rightarrow> add_red c new)"
  have "recorded (gm_k g) K new1"
    using v(2) recorded_blue [OF Cons.prems(1) c(1)] Cons.prems(1)
    by (auto simp: new1_def verdict_ok_def recorded_red split: option.splits)
  moreover have "gd_selected_parent new1 = gd_selected_parent new" "gd_mergeset_blues new1 \<noteq> []"
    "hd (gd_mergeset_blues new1) = hd (gd_mergeset_blues new)"
    "mset (unordered_mergeset new1) = add_mset c (mset (unordered_mergeset new))"
    using Cons.prems(5) by (auto simp: new1_def add_blue_def add_red_def unordered_mergeset_def neq_Nil_conv split: option.splits)
  moreover have "color_all g (c # cands) new = color_all g cands new1" using v(1) by (simp add: new1_def)
  ultimately show ?case using Cons.IH [of new1] Cons.prems(2-4) by auto
qed

end
