(* ===== verification/GhostRuns.thy ===== *)
theory GhostRuns
  imports GhostColor
begin

text \<open>
  Runs of the GHOSTDAG engine: genesis on ORIGIN, then blocks whose parents are known and pairwise
  unrelated.  The engine accepts every such block up to \<open>index_limit\<close> blocks, its index answers the
  ancestry of the block graph, and the merge set of a block is what its other parents add to the past.
\<close>

subsection \<open>The data of a block\<close>

lemma those_map: "(\<And>x. x \<in> set xs \<Longrightarrow> f x = Some (h x)) \<Longrightarrow> those (map f xs) = Some (map h xs)"
  by (induction xs) auto

definition the_sortable :: "ghostdag_manager \<Rightarrow> blk \<Rightarrow> sortable_block" where
  "the_sortable g b = (case gm_store g b of None \<Rightarrow> SortableBlock b 0 | Some d \<Rightarrow> SortableBlock b (gd_blue_work d))"

lemma sb_hash_the_sortable [simp]: "sb_hash (the_sortable g b) = b"
  by (simp add: the_sortable_def split: option.split)

lemma sortables: "set bs \<subseteq> dom (gm_store g) \<Longrightarrow> those (map (sortable g) bs) = Some (map (the_sortable g) bs)"
  by (rule those_map) (auto simp: sortable_def blue_work_of_def the_sortable_def)

lemma fold_max: "fold max xs x \<in> set (x # xs) \<and> (\<forall>y \<in> set (x # xs). y \<le> fold max xs x)" for x :: "'a :: linorder"
proof (induction xs arbitrary: x)
  case (Cons z xs)
  from Cons.IH [of "max z x"] show ?case by (auto simp: max_def split: if_splits)
qed simp

lemma find_selected_parent_ok:
  assumes "set ps \<subseteq> dom (gm_store g)" "ps \<noteq> []"
  obtains sp where "find_selected_parent g ps = Some sp" "sp \<in> set ps"
    "\<And>p. p \<in> set ps \<Longrightarrow> the_sortable g p \<le> the_sortable g sp"
proof -
  obtain q qs where qs: "ps = q # qs" using assms(2) by (cases ps) auto
  define m where "m = fold max (map (the_sortable g) qs) (the_sortable g q)"
  have m: "m \<in> the_sortable g ` set ps" "\<forall>p \<in> set ps. the_sortable g p \<le> m"
    using fold_max [of "map (the_sortable g) qs" "the_sortable g q"] by (auto simp: m_def qs)
  have "find_selected_parent g ps = Some (sb_hash m)"
    using sortables [OF assms(1)] by (simp add: find_selected_parent_def qs m_def)
  moreover have "the_sortable g (sb_hash m) = m" "sb_hash m \<in> set ps" using m(1) by auto
  ultimately show thesis using that m(2) by metis
qed

lemma sort_blocks_ok:
  assumes "set bs \<subseteq> dom (gm_store g)"
  shows "\<exists>xs. sort_blocks g bs = Some xs \<and> mset xs = mset bs"
proof -
  have "mset (map sb_hash (sort (map (the_sortable g) bs))) = mset bs"
    by (simp add: image_mset.compositionality comp_def)
  then show ?thesis using sortables [OF assms] by (simp add: sort_blocks_def del: mset_map)
qed

text \<open>The result of \<open>ghostdag\<close> on parents of which none is an ancestor of another.\<close>

definition antichain :: "(blk \<Rightarrow> blk \<Rightarrow> bool) \<Rightarrow> blk list \<Rightarrow> bool" where
  "antichain D ps \<longleftrightarrow> (\<forall>p \<in> set ps. \<forall>q \<in> set ps. p \<noteq> q \<longrightarrow> \<not> D p q)"

definition merges :: "ghostdag_manager \<Rightarrow> blk list \<Rightarrow> ghostdag_data \<Rightarrow> bool" where
  "merges g ps d \<longleftrightarrow> gd_selected_parent d \<in> set ps
     \<and> (\<forall>p \<in> set ps. the_sortable g p \<le> the_sortable g (gd_selected_parent d))
     \<and> gd_mergeset_blues d \<noteq> [] \<and> hd (gd_mergeset_blues d) = gd_selected_parent d
     \<and> distinct (unordered_mergeset d) \<and> set (unordered_mergeset d) = merged g (gd_selected_parent d) ps"

lemma merged_known:
  assumes "answers g K" "set ps \<subseteq> K" "sp \<in> K"
  shows "merged g sp ps \<subseteq> K - {ORIGIN}"
proof
  fix x assume "x \<in> merged g sp ps"
  then obtain p where p: "p \<in> set ps" "dag_anc (gm_relations g) x p" "\<not> dag_anc (gm_relations g) x sp"
    by (auto simp: merged_def)
  have "x \<in> K" using parents_known_anc [OF p(2)] p(1) assms(1,2) by (auto simp: answers_def)
  then show "x \<in> K - {ORIGIN}" using p(3) assms(1,3) by (auto simp: answers_def)
qed

lemma sum_unit_work: "sum_list (map unit_work bs) = word_of_nat (length bs)"
  by (induction bs) (simp_all add: unit_work_def)

lemma ghostdag_ok:
  assumes g: "coloured g K" and ps: "ps \<noteq> []" "set ps \<subseteq> K - {ORIGIN}" "antichain (dag_anc (gm_relations g)) ps"
  shows "\<exists>d dsp. ghostdag unit_work g ps = Some d \<and> merges g ps d \<and> recorded (gm_k g) K d
    \<and> gm_store g (gd_selected_parent d) = Some dsp
    \<and> gd_blue_work d = gd_blue_work dsp + word_of_nat (length (gd_mergeset_blues d))"
proof -
  have A: "answers g K" and dom: "dom (gm_store g) = K" using g by (simp_all add: coloured_def)
  obtain sp where sp: "find_selected_parent g ps = Some sp" "sp \<in> set ps"
    "\<And>p. p \<in> set ps \<Longrightarrow> the_sortable g p \<le> the_sortable g sp"
    using find_selected_parent_ok [of ps g] ps dom by blast
  have spK: "sp \<in> K" "sp \<noteq> ORIGIN" using sp(2) ps(2) by auto
  obtain dsp where dsp: "gm_store g sp = Some dsp" using coloured_store [OF g spK(1)] by blast
  obtain ms where ms: "unordered_mergeset_without_selected_parent g sp ps = Some ms" "distinct ms" "set ms = merged g sp ps"
    using mergeset_ok [OF A sp(2)] ps(2,3) sp(2) by (auto simp: antichain_def)
  have msK: "set ms \<subseteq> K - {ORIGIN}" unfolding ms(3) using merged_known [OF A] ps(2) spK(1) by blast
  obtain xs where xs: "sort_blocks g ms = Some xs" "mset xs = mset ms"
    using sort_blocks_ok [of ms g] msK dom by blast
  have "set xs \<subseteq> K - {ORIGIN}" using msK mset_eq_setD [OF xs(2)] by simp
  moreover have "recorded (gm_k g) K (new_with_selected_parent sp)"
    using spK by (auto simp: recorded_def new_with_selected_parent_def ghostdag_data_new_def split: if_splits)
  ultimately obtain new where new: "color_all g xs (new_with_selected_parent sp) = Some new" "recorded (gm_k g) K new"
    "gd_selected_parent new = sp" "gd_mergeset_blues new \<noteq> []" "hd (gd_mergeset_blues new) = sp"
    "mset (unordered_mergeset new) = mset ms"
    using color_all_ok [OF g, of "new_with_selected_parent sp" xs] spK xs(2)
    by (auto simp: new_with_selected_parent_def ghostdag_data_new_def unordered_mergeset_def)
  define d where "d = finalize_score_and_work (gd_blue_score dsp + word_of_nat (length (gd_mergeset_blues new)))
    (gd_blue_work dsp + sum_list (map unit_work (gd_mergeset_blues new))) new"
  have "ghostdag unit_work g ps = Some d"
    using ps(1) sp(1) spK(2) ms(1) xs(1) new(1) dsp
    by (simp add: ghostdag_def is_origin_def ordered_mergeset_without_selected_parent_def blue_score_of_def
        blue_work_of_def d_def)
  moreover have "merges g ps d"
    using sp new ms(2,3) mset_eq_setD [OF new(6)] mset_eq_imp_distinct_iff [OF new(6)]
    by (simp add: merges_def d_def finalize_score_and_work_def unordered_mergeset_def)
  moreover have "recorded (gm_k g) K d" using new(2) by (simp add: d_def finalize_score_and_work_def recorded_def)
  ultimately show ?thesis using dsp new(3)
    by (intro exI [of _ d] exI [of _ dsp]) (simp add: d_def finalize_score_and_work_def sum_unit_work)
qed


subsection \<open>The invariant of the engine\<close>

definition ghost_ok :: "dag_engine \<Rightarrow> bool" where
  "ghost_ok e \<longleftrightarrow> coloured (manager_of e) (ids (de_reach e))
     \<and> index_ok (de_reach e) (dag_anc (de_relations e))
     \<and> (\<forall>a \<in> ids (de_reach e). \<forall>b \<in> ids (de_reach e). anc (de_reach e) a b \<longleftrightarrow> chain_anc (de_gd e) a b)
     \<and> (if de_genesis e \<in> ids (de_reach e) then de_tip e \<in> ids (de_reach e) else de_tip e = de_genesis e)
     \<and> de_tip e \<noteq> ORIGIN"

text \<open>A block that may be attached: genesis on ORIGIN, or a block on unrelated known blocks.\<close>

definition attaches :: "dag_engine \<Rightarrow> blk \<Rightarrow> blk list \<Rightarrow> bool" where
  "attaches e b ps \<longleftrightarrow> b \<notin> dom (de_gd e) \<and> b \<noteq> NONE \<and>
     (if b = de_genesis e then ps = [ORIGIN]
      else ps \<noteq> [] \<and> set ps \<subseteq> dom (de_gd e) - {ORIGIN} \<and> antichain (dag_anc (de_relations e)) ps)"

lemma index_ok_cong:
  assumes "index_ok s D" "\<And>a b. a \<in> ids s \<Longrightarrow> b \<in> ids s \<Longrightarrow> D a b \<longleftrightarrow> D' a b"
  shows "index_ok s D'"
  using assms by (auto simp: index_ok_def dag_ok_def)

lemma manager_fields [simp]:
  "gm_genesis (manager_of e) = de_genesis e" "gm_k (manager_of e) = de_k e" "gm_store (manager_of e) = de_gd e"
  "gm_relations (manager_of e) = de_relations e" "gm_reach (manager_of e) = de_reach e"
  by (simp_all add: manager_of_def)

lemma engine_index_answers:
  "index_ok (de_reach e) (dag_anc (de_relations e)) \<Longrightarrow> a \<in> ids (de_reach e) \<Longrightarrow> b \<in> ids (de_reach e) \<Longrightarrow>
     dag_anc_query (manager_of e) a b = Some (dag_anc (de_relations e) a b)"
  using is_dag_ancestor_of_eq [of "de_reach e" ORIGIN "dag_anc (de_relations e)" a b]
  by (simp add: index_ok_def dag_anc_query_def ok_value_def)

lemma engine_new_eq:
  "engine_new k g = Some \<lparr>de_genesis = g, de_k = k, de_reach = index_new, de_gd = [ORIGIN \<mapsto> origin_ghostdag_data],
     de_relations = (\<lambda>_. None), de_tip = g\<rparr>"
  using reach_init_new by (simp add: engine_new_def unwrap_rm_def)

lemma dag_anc_empty: "dag_anc (\<lambda>_. None) a b \<longleftrightarrow> a = b"
  by (auto elim: dag_anc_cases)

lemma ghost_start:
  assumes "engine_new k g = Some e" "g \<noteq> ORIGIN" "k < - 1"
  shows "ghost_ok e"
proof -
  have e: "de_genesis e = g" "de_k e = k" "de_reach e = index_new" "de_gd e = [ORIGIN \<mapsto> origin_ghostdag_data]"
    "de_relations e = (\<lambda>_. None)" "de_tip e = g" using assms(1) by (auto simp: engine_new_eq)
  have D: "dag_anc (de_relations e) = (=)" by (intro ext) (simp add: e dag_anc_empty)
  have I: "index_ok (de_reach e) (dag_anc (de_relations e))" unfolding D e(3) by (rule index_start)
  have "coloured (manager_of e) (ids (de_reach e))"
    using assms(2,3) engine_index_answers [OF I]
    by (auto simp: coloured_def answers_def parents_known_def e index_new_views dag_anc_empty split: if_splits)
  then show ?thesis using I assms(2) by (simp add: ghost_ok_def e index_new_views)
qed

text \<open>A block as the engine adds it: its blue work is that of the selected parent plus its blues.\<close>

definition weighed :: "dag_engine \<Rightarrow> blk \<Rightarrow> ghostdag_data \<Rightarrow> bool" where
  "weighed e b d \<longleftrightarrow> (if b = de_genesis e then d = new_with_selected_parent ORIGIN
     else \<exists>dsp. de_gd e (gd_selected_parent d) = Some dsp \<and>
       gd_blue_work d = gd_blue_work dsp + word_of_nat (length (gd_mergeset_blues d)))"

lemma ghost_data:
  assumes ok: "ghost_ok e" and at: "attaches e b ps"
  shows "\<exists>d. ghostdag unit_work (manager_of e) ps = Some d \<and> merges (manager_of e) ps d
    \<and> recorded (de_k e) (ids (de_reach e)) d \<and> weighed e b d"
proof (cases "b = de_genesis e")
  case True
  then have ps: "ps = [ORIGIN]" using at by (simp add: attaches_def)
  have A: "answers (manager_of e) (ids (de_reach e))" "ORIGIN \<in> dom (de_gd e)"
    using ok by (auto simp: ghost_ok_def coloured_def answers_def)
  have "merged (manager_of e) ORIGIN [ORIGIN] = {}" by (auto simp: merged_def)
  moreover have "ghostdag unit_work (manager_of e) ps = Some (new_with_selected_parent ORIGIN)"
    using A(2) by (auto simp: ghostdag_def ps find_selected_parent_def sortable_def blue_work_of_def is_origin_def)
  ultimately show ?thesis using ps A(1)
    by (auto simp: merges_def recorded_def new_with_selected_parent_def ghostdag_data_new_def
        unordered_mergeset_def answers_def weighed_def True)
next
  case False
  have "dom (de_gd e) = ids (de_reach e)" using ok by (simp add: ghost_ok_def coloured_def)
  then have "ps \<noteq> []" "set ps \<subseteq> ids (de_reach e) - {ORIGIN}" "antichain (dag_anc (gm_relations (manager_of e))) ps"
    using at False by (simp_all add: attaches_def)
  then show ?thesis using ghostdag_ok [of "manager_of e" "ids (de_reach e)" ps] ok False
    by (auto simp: ghost_ok_def weighed_def)
qed

lemma recorded_mono: "recorded k K d \<Longrightarrow> K \<subseteq> K' \<Longrightarrow> recorded k K' d"
  by (auto simp: recorded_def)

lemma sp_rel_known: "coloured g K \<Longrightarrow> parents_known K (sp_rel (gm_store g))"
  using colouredD(2) by (fastforce simp: parents_known_def sp_rel_eq coloured_def)

lemma sp_rel_add: "b \<noteq> ORIGIN \<Longrightarrow> sp_rel (gd(b \<mapsto> d)) = (sp_rel gd)(b \<mapsto> [gd_selected_parent d])"
  by (auto simp: sp_rel_def fun_eq_iff)

lemma chain_anc_add:
  assumes "coloured g K" "b \<notin> K" "b \<noteq> ORIGIN" "gd_selected_parent d \<in> K"
  shows "chain_anc ((gm_store g)(b \<mapsto> d)) x y \<longleftrightarrow>
    (if y = b then x = b \<or> chain_anc (gm_store g) x (gd_selected_parent d) else chain_anc (gm_store g) x y)"
  using dag_anc_add [OF sp_rel_known [OF assms(1)] assms(2), of "[gd_selected_parent d]"] assms(3,4)
  by (simp add: chain_anc_def sp_rel_add)

lemma chain_known: "coloured g K \<Longrightarrow> chain_anc (gm_store g) a b \<Longrightarrow> b \<in> K \<Longrightarrow> a \<in> K"
  using parents_known_anc [of "sp_rel (gm_store g)" a b K] sp_rel_known by (auto simp: chain_anc_def)

text \<open>The colouring of the store with one more block.\<close>

lemma coloured_add:
  assumes g: "coloured g K" and b: "b \<notin> K" and ps: "set ps \<subseteq> K" "ps \<noteq> []"
    and g': "gm_store g' = (gm_store g)(b \<mapsto> d)" "gm_relations g' = (gm_relations g)(b \<mapsto> ps)"
      "gm_genesis g' = gm_genesis g" "gm_k g' = gm_k g"
    and q: "\<And>x y. x \<in> insert b K \<Longrightarrow> y \<in> insert b K \<Longrightarrow> dag_anc_query g' x y = Some (dag_anc (gm_relations g') x y)"
    and d: "gd_selected_parent d \<in> set ps" "recorded (gm_k g) K d"
    and root: "if b = gm_genesis g then gd_selected_parent d = ORIGIN \<and> gd_mergeset_blues d = [ORIGIN]
      else gd_selected_parent d \<noteq> ORIGIN"
  shows "coloured g' (insert b K)"
proof -
  let ?sp = "gd_selected_parent d"
  have A: "answers g K" and known: "parents_known K (gm_relations g)" and dom: "dom (gm_store g) = K"
    and O: "ORIGIN \<in> K" "b \<noteq> ORIGIN" using g b by (auto simp: coloured_def answers_def)
  have sp: "?sp \<in> K" using d(1) ps(1) by blast
  have up: "dag_anc (gm_relations g') x y" if "dag_anc (gm_relations g) x y" "y \<in> K" for x y
    using dag_anc_add [OF known b ps(1), of x y] that b by (auto simp: g'(2))
  have spb: "dag_anc (gm_relations g') ?sp b" by (rule dag_anc_parent [where ps = ps]) (simp_all add: g'(2) d(1))
  have chain: "chain_anc (gm_store g') x y \<longleftrightarrow>
    (if y = b then x = b \<or> chain_anc (gm_store g) x ?sp else chain_anc (gm_store g) x y)" for x y
    unfolding g'(1) by (rule chain_anc_add [OF g b O(2) sp])
  have "answers g' (insert b K)" unfolding answers_def
  proof (intro conjI ballI)
    show "parents_known (insert b K) (gm_relations g')"
      using known ps by (auto simp: parents_known_def g'(2))
    show "dom (gm_relations g') = insert b K - {ORIGIN}" using A O by (auto simp: answers_def g'(2))
    have O_K: "dag_anc (gm_relations g') ORIGIN x" if "x \<in> K" for x using A up that by (simp add: answers_def)
    show "dag_anc (gm_relations g') ORIGIN x" if "x \<in> insert b K" for x
      using that O_K O_K [OF sp] dag_anc_trans [OF _ spb] by blast
  qed (use O q in auto)
  moreover have "recorded (gm_k g) (insert b K) dc \<and> gd_selected_parent dc \<in> insert b K
      \<and> dag_anc (gm_relations g') (gd_selected_parent dc) c \<and> chain_anc (gm_store g') (gm_genesis g) c
      \<and> (c = gm_genesis g \<longrightarrow> gd_selected_parent dc = ORIGIN \<and> gd_mergeset_blues dc = [ORIGIN])"
    if c: "gm_store g' c = Some dc" "c \<noteq> ORIGIN" for c dc
  proof (cases "c = b")
    case True
    obtain dsp where "gm_store g ?sp = Some dsp" using coloured_store [OF g sp] by blast
    then have "?sp \<noteq> ORIGIN \<longrightarrow> chain_anc (gm_store g) (gm_genesis g) ?sp" using colouredD(3) [OF g] by blast
    then have "chain_anc (gm_store g') (gm_genesis g) b" using root chain [of "gm_genesis g" b] by (cases "b = gm_genesis g") auto
    moreover have "b = gm_genesis g \<longrightarrow> ?sp = ORIGIN \<and> gd_mergeset_blues d = [ORIGIN]" using root by (cases "b = gm_genesis g") auto
    moreover have "dc = d" using c(1) True by (simp add: g'(1))
    moreover have "recorded (gm_k g) (insert b K) d" using d(2) by (rule recorded_mono) blast
    ultimately show ?thesis using True sp spb by blast
  next
    case False
    then have old: "gm_store g c = Some dc" using c(1) by (simp add: g'(1))
    then have "c \<in> K" using dom by blast
    note D = colouredD [OF g old c(2)]
    have "recorded (gm_k g) (insert b K) dc" using D(1) by (rule recorded_mono) blast
    moreover have "dag_anc (gm_relations g') (gd_selected_parent dc) c" using up [OF D(6) \<open>c \<in> K\<close>] .
    moreover have "chain_anc (gm_store g') (gm_genesis g) c" using chain [of "gm_genesis g" c] D(3) False by simp
    ultimately show ?thesis using D(2,4,5) by blast
  qed
  moreover have "dom (gm_store g') = insert b K" by (simp add: g'(1) dom)
  moreover have "gm_genesis g' \<noteq> ORIGIN" "gm_k g' < - 1" using g by (simp_all add: coloured_def g'(3,4))
  ultimately show ?thesis unfolding coloured_def g'(3,4) by blast
qed


text \<open>The engine accepts the block.\<close>

definition grows :: "dag_engine \<Rightarrow> blk \<Rightarrow> blk list \<Rightarrow> ghostdag_data \<Rightarrow> dag_engine \<Rightarrow> bool" where
  "grows e b ps d e' \<longleftrightarrow> de_gd e' = (de_gd e)(b \<mapsto> d) \<and> de_relations e' = (de_relations e)(b \<mapsto> ps)
     \<and> de_genesis e' = de_genesis e \<and> de_k e' = de_k e \<and> ids (de_reach e') = insert b (ids (de_reach e))
     \<and> the_sortable (manager_of e') (de_tip e')
       = max (the_sortable (manager_of e') (de_tip e)) (the_sortable (manager_of e') b)"

lemma ghost_step:
  assumes ok: "ghost_ok e" and small: "card (ids (de_reach e)) < index_limit" and at: "attaches e b ps"
  shows "\<exists>d e'. engine_add_block fo b ps e = Some (d, e') \<and> ghost_ok e' \<and> grows e b ps d e'
    \<and> merges (manager_of e) ps d \<and> weighed e b d"
proof -
  define K where "K = ids (de_reach e)"
  let ?D = "dag_anc (de_relations e)"
  obtain d where d: "ghostdag unit_work (manager_of e) ps = Some d" "merges (manager_of e) ps d" "recorded (de_k e) K d"
    and w: "weighed e b d"
    using ghost_data [OF ok at] by (auto simp: K_def)
  have gen: "b = de_genesis e \<longrightarrow> gd_selected_parent d = ORIGIN \<and> gd_mergeset_blues d = [ORIGIN]"
    using w by (simp add: weighed_def new_with_selected_parent_def ghostdag_data_new_def)
  let ?sp = "gd_selected_parent d"
  from ok have g: "coloured (manager_of e) K" and I: "index_ok (de_reach e) ?D"
    and anc: "\<And>x y. x \<in> K \<Longrightarrow> y \<in> K \<Longrightarrow> anc (de_reach e) x y \<longleftrightarrow> chain_anc (de_gd e) x y"
    and tip: "if de_genesis e \<in> K then de_tip e \<in> K else de_tip e = de_genesis e" "de_tip e \<noteq> ORIGIN"
    by (auto simp: ghost_ok_def K_def)
  have dom: "dom (de_gd e) = K" and A: "answers (manager_of e) K" and O: "ORIGIN \<in> K"
    using g by (auto simp: coloured_def answers_def)
  have known: "parents_known K (de_relations e)" using A by (simp add: answers_def)
  have b: "b \<notin> K" "b \<noteq> NONE" using at by (simp_all add: attaches_def dom)
  have ps: "ps \<noteq> []" "set ps \<subseteq> K" using at O by (auto simp: attaches_def dom split: if_splits)
  have sp: "?sp \<in> set ps" "?sp \<in> K" using d(2) ps(2) by (auto simp: merges_def)
  have ms: "distinct (unordered_mergeset d)" "set (unordered_mergeset d) = merged (manager_of e) ?sp ps"
    using d(2) by (simp_all add: merges_def)
  have msK: "m \<in> ids (de_reach e) \<and> \<not> ?D m ?sp" if "m \<in> set (unordered_mergeset d)" for m
    using merged_known [OF A ps(2) sp(2)] that by (auto simp: ms(2) merged_def K_def)
  obtain t u where t: "reach_add_block fo b ?sp (unordered_mergeset d) (de_reach e) = Some (Inr (), t)"
    "hint_virtual_selected_parent fo b t = Some (Inr (), u)"
    and u: "index_ok u (dag_extend ?D b ?sp (merged (manager_of e) ?sp ps))" "ids u = insert b K"
    "\<And>x y. anc u x y \<longleftrightarrow> anc (de_reach e) x y \<or> y = b \<and> anc (de_reach e) x ?sp"
    using index_step [where n = b and p = ?sp and fo = fo, OF I small _ b(2) _ ms(1) msK] b(1) sp(2) by (auto simp: K_def ms(2))
  have tip': "((de_gd e)(b \<mapsto> d)) (de_tip e) \<noteq> None" and rooted: "b \<noteq> de_genesis e \<Longrightarrow> de_genesis e \<in> K"
  proof -
    show r: "de_genesis e \<in> K" if "b \<noteq> de_genesis e"
    proof -
      have "?sp \<in> K - {ORIGIN}" using at that sp(1) by (auto simp: attaches_def dom)
      moreover obtain dsp where "de_gd e ?sp = Some dsp" using dom sp(2) by blast
      ultimately show ?thesis using colouredD(3) [OF g, of ?sp dsp] chain_known [OF g _ sp(2)] by simp
    qed
    show "((de_gd e)(b \<mapsto> d)) (de_tip e) \<noteq> None" using r tip dom by (auto split: if_splits)
  qed
  then obtain td where td: "((de_gd e)(b \<mapsto> d)) (de_tip e) = Some td" by blast
  define e' where "e' = e\<lparr>de_reach := u, de_gd := (de_gd e)(b \<mapsto> d), de_relations := (de_relations e)(b \<mapsto> ps),
    de_tip := (if gd_blue_work td < gd_blue_work d \<or> gd_blue_work d = gd_blue_work td \<and> de_tip e < b then b else de_tip e)\<rparr>"
  have run: "engine_add_block fo b ps e = Some (d, e')"
    using d(1) t td by (simp add: engine_add_block_def unwrap_rm_def Let_def e'_def del: fun_upd_apply)
  have bO: "b \<noteq> ORIGIN" using b(1) O by auto
  have "the_sortable (manager_of e') (de_tip e) = SortableBlock (de_tip e) (gd_blue_work td)"
    "the_sortable (manager_of e') b = SortableBlock b (gd_blue_work d)"
    using td by (simp_all add: the_sortable_def e'_def)
  moreover have "de_tip e' = (if SortableBlock (de_tip e) (gd_blue_work td) < SortableBlock b (gd_blue_work d) then b else de_tip e)"
    by (auto simp: e'_def less_sortable_block_def)
  ultimately have "the_sortable (manager_of e') (de_tip e')
      = max (the_sortable (manager_of e') (de_tip e)) (the_sortable (manager_of e') b)" by (auto simp: max_def not_le dest: less_asym)
  then have grows: "grows e b ps d e'" using u(2) by (simp add: grows_def e'_def K_def)
  have below: "\<not> ?D b y" if "y \<noteq> b" for y using parents_known_anc [of "de_relations e" b y K] known b(1) that by auto
  have I': "index_ok u (dag_anc ((de_relations e)(b \<mapsto> ps)))"
  proof (rule index_ok_cong [OF u(1)])
    show "dag_extend ?D b ?sp (merged (manager_of e) ?sp ps) x y \<longleftrightarrow> dag_anc ((de_relations e)(b \<mapsto> ps)) x y" for x y
      using sp(1) below by (auto simp: dag_extend_def merged_def dag_anc_add [OF known b(1) ps(2)])
  qed
  have "coloured (manager_of e') (insert b K)"
  proof (rule coloured_add [OF g b(1) ps(2,1), where d = d])
    show "dag_anc_query (manager_of e') x y = Some (dag_anc (gm_relations (manager_of e')) x y)"
      if "x \<in> insert b K" "y \<in> insert b K" for x y
      using engine_index_answers [of e' x y] that I' u(2) by (simp add: e'_def)
  qed (use d(3) sp(1) gen at in \<open>auto simp: e'_def attaches_def split: if_splits\<close>)
  moreover have "\<forall>x \<in> insert b K. \<forall>y \<in> insert b K. anc u x y \<longleftrightarrow> chain_anc ((de_gd e)(b \<mapsto> d)) x y"
  proof -
    have tree: "tree_ok (de_reach e) ORIGIN" using I by (simp add: index_ok_def)
    have "chain_anc ((de_gd e)(b \<mapsto> d)) x y \<longleftrightarrow>
      (if y = b then x = b \<or> chain_anc (de_gd e) x ?sp else chain_anc (de_gd e) x y)" for x y
      using chain_anc_add [OF g b(1) bO sp(2)] by simp
    moreover have "anc (de_reach e) x b \<longleftrightarrow> x = b" "y \<noteq> b \<Longrightarrow> \<not> anc (de_reach e) b y" for x y
      using anc_in_ids [OF tree] b(1) by (auto simp: K_def)
    moreover have "y \<in> K \<Longrightarrow> y \<noteq> b \<Longrightarrow> \<not> chain_anc (de_gd e) b y" for y using chain_known [OF g, of b y] b(1) by auto
    ultimately show ?thesis using anc sp(2) b(1) by (auto simp: u(3))
  qed
  ultimately have "ghost_ok e'"
    using I' u(2) tip rooted bO by (auto simp: ghost_ok_def e'_def split: if_splits)
  then show ?thesis using run grows d(2) w by blast
qed

end
