(* ===== verification/GhostOrder.thy ===== *)
theory GhostOrder
  imports GhostRuns
begin

text \<open>
  Runs of the engine and the total order.  Along a run the blue work of a block exceeds that of each of
  its parents, so the blocks a chain block merges, sorted by blue work, come out parents first; the
  merge sets of the selected chain partition the past of the tip, so the total order lists every
  block of that past exactly once.
\<close>

inductive engine_run :: "'f f64_ops \<Rightarrow> u16 \<Rightarrow> blk \<Rightarrow> dag_engine \<Rightarrow> bool" for fo k g where
  start: "engine_new k g = Some e \<Longrightarrow> engine_run fo k g e"
| add: "engine_run fo k g e \<Longrightarrow> card (dom (de_gd e)) < index_limit \<Longrightarrow> attaches e b ps \<Longrightarrow>
    engine_add_block fo b ps e = Some (d, e') \<Longrightarrow> engine_run fo k g e'"

subsection \<open>What every block of a run records\<close>

definition work_of :: "dag_engine \<Rightarrow> blk \<Rightarrow> nat" where
  "work_of e b = (case de_gd e b of None \<Rightarrow> 0 | Some d \<Rightarrow> unat (gd_blue_work d))"

definition block_ok :: "dag_engine \<Rightarrow> blk \<Rightarrow> blk list \<Rightarrow> ghostdag_data \<Rightarrow> bool" where
  "block_ok e b ps d \<longleftrightarrow> merges (manager_of e) ps d \<and> unat (gd_blue_work d) \<le> card (dom (de_gd e)) * index_limit
     \<and> (if b = de_genesis e then ps = [ORIGIN] \<and> gd_blue_work d = 0
        else ORIGIN \<notin> set ps \<and> (\<forall>p \<in> set ps. work_of e p < unat (gd_blue_work d)))"

definition blocks_ok :: "dag_engine \<Rightarrow> bool" where
  "blocks_ok e \<longleftrightarrow> (\<forall>b ps d. de_relations e b = Some ps \<longrightarrow> de_gd e b = Some d \<longrightarrow> block_ok e b ps d)"

lemma work_of_le: "the_sortable (manager_of e) a \<le> the_sortable (manager_of e) b \<Longrightarrow> a \<in> dom (de_gd e) \<Longrightarrow>
    b \<in> dom (de_gd e) \<Longrightarrow> work_of e a \<le> work_of e b"
  by (auto simp: the_sortable_def work_of_def less_eq_sortable_block_def word_less_nat_alt)


lemma ghost_ids: "ghost_ok e \<Longrightarrow> ids (de_reach e) = dom (de_gd e)"
  by (simp add: ghost_ok_def coloured_def)

lemma blues_few:
  assumes "answers g K" "set ps \<subseteq> K" "merges g ps d"
  shows "length (gd_mergeset_blues d) \<le> card K"
proof -
  let ?sp = "gd_selected_parent d"
  have sp: "?sp \<in> K" using assms(2,3) by (auto simp: merges_def)
  have "set (unordered_mergeset d) \<subseteq> K - {?sp}"
    using merged_known [OF assms(1,2) sp] assms(3) by (auto simp: merges_def merged_def)
  then have "set (drop 1 (gd_mergeset_blues d)) \<subseteq> K - {?sp}" by (auto simp: unordered_mergeset_def)
  moreover have "distinct (drop 1 (gd_mergeset_blues d))" using assms(3) by (simp add: merges_def unordered_mergeset_def)
  ultimately have "length (drop 1 (gd_mergeset_blues d)) \<le> card (K - {?sp})" by (metis card_mono distinct_card finite)
  moreover have "card (K - {?sp}) = card K - 1" "0 < card K" using sp by (auto simp: card_gt_0_iff)
  ultimately show ?thesis by simp
qed

lemma blocks_ok_step:
  assumes ok: "ghost_ok e" "blocks_ok e" and small: "card (dom (de_gd e)) < index_limit" and at: "attaches e b ps"
    and g: "grows e b ps d e'" "merges (manager_of e) ps d" "weighed e b d"
  shows "blocks_ok e'"
proof -
  define K where "K = dom (de_gd e)"
  have A: "answers (manager_of e) K" using ok(1) by (simp add: K_def ghost_ok_def coloured_def)
  have known: "parents_known K (de_relations e)" using A by (simp add: answers_def)
  have b: "b \<notin> K" using at by (simp add: attaches_def K_def)
  have psK: "set ps \<subseteq> K" using at A by (auto simp: attaches_def K_def answers_def split: if_splits)
  have e': "de_gd e' = (de_gd e)(b \<mapsto> d)" "de_relations e' = (de_relations e)(b \<mapsto> ps)" "de_genesis e' = de_genesis e"
    using g(1) by (simp_all add: grows_def)
  have D: "dag_anc (de_relations e') x y \<longleftrightarrow> dag_anc (de_relations e) x y" if "y \<in> K" for x y
    using dag_anc_add [OF known b psK, of x y] that b by (auto simp: e'(2))
  have merges: "merges (manager_of e') qs dq" if "merges (manager_of e) qs dq" "set qs \<subseteq> K" for qs dq
  proof -
    have "gd_selected_parent dq \<in> K" using that by (auto simp: merges_def)
    then have "merged (manager_of e') (gd_selected_parent dq) qs = merged (manager_of e) (gd_selected_parent dq) qs"
      using D that(2) by (auto simp: merged_def)
    moreover have "the_sortable (manager_of e') q = the_sortable (manager_of e) q" if "q \<in> K" for q
      using that b by (auto simp: the_sortable_def e'(1))
    ultimately show ?thesis using that \<open>gd_selected_parent dq \<in> K\<close> by (auto simp: merges_def)
  qed
  have work: "work_of e' q = work_of e q" if "q \<in> K" for q using that b by (auto simp: work_of_def e'(1))
  have card: "card (dom (de_gd e')) = Suc (card K)" using b by (simp add: e'(1) K_def)
  have new: "block_ok e' b ps d"
  proof (cases "b = de_genesis e")
    case True
    then show ?thesis using g(3) at merges [OF g(2) psK]
      by (simp add: block_ok_def weighed_def attaches_def e'(3) new_with_selected_parent_def ghostdag_data_new_def)
  next
    case False
    then obtain dsp where dsp: "de_gd e (gd_selected_parent d) = Some dsp"
      "gd_blue_work d = gd_blue_work dsp + word_of_nat (length (gd_mergeset_blues d))" using g(3) by (auto simp: weighed_def)
    have pO: "ORIGIN \<notin> set ps" "gd_selected_parent d \<in> set ps" using at False g(2) by (auto simp: attaches_def merges_def)
    then have "gd_selected_parent d \<noteq> ORIGIN" by auto
    moreover have "dom (de_relations e) = K - {ORIGIN}" using A by (simp add: answers_def)
    ultimately obtain qs where "de_relations e (gd_selected_parent d) = Some qs"
      using pO(2) psK by (cases "de_relations e (gd_selected_parent d)") auto
    then have "unat (gd_blue_work dsp) \<le> card K * index_limit"
      using ok(2) dsp(1) by (auto simp: blocks_ok_def block_ok_def K_def)
    moreover have len: "length (gd_mergeset_blues d) \<le> card K" by (rule blues_few [OF A psK g(2)])
    moreover have "card K * index_limit \<le> index_limit * index_limit" using small by (simp add: K_def)
    moreover have lim: "card K \<le> index_limit" using small by (simp add: K_def)
    ultimately have w: "unat (gd_blue_work d) = unat (gd_blue_work dsp) + length (gd_mergeset_blues d)"
      "unat (gd_blue_work d) \<le> card K * index_limit + index_limit"
      by (simp_all add: dsp(2) unat_word_ariths unat_of_nat index_limit_def)
    have pos: "0 < length (gd_mergeset_blues d)" using g(2) by (simp add: merges_def)
    have le: "work_of e p \<le> unat (gd_blue_work dsp)" if "p \<in> set ps" for p
      using work_of_le [of e p "gd_selected_parent d"] g(2) that psK pO(2) dsp(1)
      by (auto simp: merges_def K_def work_of_def [of _ "gd_selected_parent d"])
    have "work_of e' p < unat (gd_blue_work d)" if "p \<in> set ps" for p
    proof -
      have "work_of e' p = work_of e p" using work psK that by blast
      then show ?thesis using pos le [OF that] w(1) by linarith
    qed
    then show ?thesis using False pO(1) merges [OF g(2) psK] w(2) by (simp add: block_ok_def e'(3) card)
  qed
  have old: "block_ok e' c qs dc" if c: "de_relations e c = Some qs" "de_gd e c = Some dc" "c \<noteq> b" for c qs dc
  proof -
    have "block_ok e c qs dc" using ok(2) c by (simp add: blocks_ok_def)
    moreover have qs: "set qs \<subseteq> K" using parents_knownD [OF known c(1)] by blast
    moreover have "card K * index_limit \<le> card (dom (de_gd e')) * index_limit" by (simp add: card)
    ultimately show ?thesis using merges [of qs dc] work
      by (auto simp: block_ok_def e'(3) K_def [symmetric] subset_iff split: if_splits intro: le_trans)
  qed
  show ?thesis unfolding blocks_ok_def
    using new old by (auto simp: e'(1,2) split: if_splits)
qed

lemma engine_run_ok:
  assumes "engine_run fo k g e" "g \<noteq> ORIGIN" "k < - 1"
  shows "ghost_ok e \<and> blocks_ok e \<and> de_genesis e = g \<and> de_k e = k"
  using assms
proof induction
  case (start e)
  then show ?case using ghost_start [of k g e] by (auto simp: blocks_ok_def engine_new_eq)
next
  case (add e b ps d e')
  have ok: "ghost_ok e" "blocks_ok e" "de_genesis e = g" "de_k e = k" using add.IH add.prems by blast+
  have small: "card (ids (de_reach e)) < index_limit" using add.hyps(2) ghost_ids [OF ok(1)] by simp
  from ghost_step [OF ok(1) small add.hyps(3), of fo] add.hyps(4) have
    s: "ghost_ok e'" "grows e b ps d e'" "merges (manager_of e) ps d" "weighed e b d" by auto
  then show ?case using blocks_ok_step [OF ok(1,2) add.hyps(2,3) s(2-4)] ok by (simp add: grows_def)
qed


subsection \<open>Blue work grows along the edges\<close>

definition good_engine :: "dag_engine \<Rightarrow> bool" where
  "good_engine e \<longleftrightarrow> ghost_ok e \<and> blocks_ok e"

lemma good_answers: "good_engine e \<Longrightarrow> answers (manager_of e) (dom (de_gd e))"
proof -
  assume e: "good_engine e"
  then have "coloured (manager_of e) (ids (de_reach e))" by (simp add: good_engine_def ghost_ok_def)
  then show ?thesis using ghost_ids [of e] e by (simp add: coloured_def good_engine_def)
qed

lemma good_known: "good_engine e \<Longrightarrow> parents_known (dom (de_gd e)) (de_relations e)"
  using good_answers [of e] unfolding answers_def manager_fields by blast

lemma good_relations: "good_engine e \<Longrightarrow> dom (de_relations e) = dom (de_gd e) - {ORIGIN}"
  using good_answers [of e] unfolding answers_def manager_fields by blast

lemma good_origin: "good_engine e \<Longrightarrow> b \<in> dom (de_gd e) \<Longrightarrow> dag_anc (de_relations e) ORIGIN b"
  using good_answers [of e] unfolding answers_def manager_fields by blast

lemma good_block:
  assumes "good_engine e" "b \<in> dom (de_gd e)" "b \<noteq> ORIGIN"
  obtains ps d where "de_relations e b = Some ps" "de_gd e b = Some d" "block_ok e b ps d"
proof -
  obtain ps where "de_relations e b = Some ps" using good_relations [OF assms(1)] assms(2,3) by blast
  then show thesis using that assms(1,2) by (auto simp: good_engine_def blocks_ok_def)
qed

lemma relations_data:
  assumes "good_engine e" "de_relations e b = Some ps"
  shows "b \<noteq> ORIGIN \<and> (\<exists>d. de_gd e b = Some d \<and> block_ok e b ps d)"
proof -
  have "b \<in> dom (de_gd e) - {ORIGIN}" using good_relations [OF assms(1)] assms(2) by blast
  then show ?thesis using assms by (auto simp: good_engine_def blocks_ok_def)
qed

lemma origin_bottom: "good_engine e \<Longrightarrow> dag_anc (de_relations e) x ORIGIN \<Longrightarrow> x = ORIGIN"
  using relations_data by (blast elim: dag_anc_cases)

lemma work_less:
  assumes e: "good_engine e" and D: "dag_anc (de_relations e) x y" and x: "x \<noteq> ORIGIN" "x \<noteq> y"
  shows "work_of e x < work_of e y"
proof -
  from D have "x = y \<or> work_of e x < work_of e y"
  proof (induction rule: dag_anc_up)
    case (kid p c ps)
    obtain d where d: "de_gd e c = Some d" "block_ok e c ps d" using relations_data [OF e kid(2)] by blast
    have "p \<noteq> ORIGIN" using origin_bottom [OF e] kid(1) x(1) by blast
    then have "c \<noteq> de_genesis e" using d(2) kid(3) by (auto simp: block_ok_def split: if_splits)
    then have "work_of e p < work_of e c" using d kid(3) by (simp add: block_ok_def work_of_def [of _ c])
    then show ?case using kid.IH by auto
  qed simp
  then show ?thesis using x(2) by blast
qed

subsection \<open>The total order\<close>

definition the_work_key :: "dag_engine \<Rightarrow> blk \<Rightarrow> sortable_block" where
  "the_work_key e = the_sortable (manager_of e)"

lemma sort_by_work_ok:
  assumes "set bs \<subseteq> dom (de_gd e)"
  shows "\<exists>xs. sort_by_work e bs = Some xs \<and> mset xs = mset bs \<and> sorted_wrt (\<lambda>x y. work_of e x \<le> work_of e y) xs"
proof -
  have keys: "those (map (work_key e) bs) = Some (map (the_work_key e) bs)"
    using assms by (intro those_map) (auto simp: work_key_def the_work_key_def the_sortable_def)
  define ss where "ss = sort (map (the_work_key e) bs)"
  have ss: "sorted ss" "set ss = the_work_key e ` set bs" "mset (map sb_hash ss) = mset bs"
    by (simp_all add: ss_def the_work_key_def image_mset.compositionality comp_def)
  have "work_of e (sb_hash s) \<le> work_of e (sb_hash s')" if "s \<in> set ss" "s' \<in> set ss" "s \<le> s'" for s s'
    using that ss(2) assms work_of_le [of e] by (force simp: the_work_key_def)
  then have "sorted_wrt (\<lambda>x y. work_of e x \<le> work_of e y) (map sb_hash ss)"
    using ss(1) unfolding sorted_wrt_map by (rule sorted_wrt_mono_rel)
  then show ?thesis using ss(3) keys by (simp add: sort_by_work_def ss_def del: mset_map)
qed

lemma order_chain_append:
  "order_chain e as = Some xs \<Longrightarrow> order_chain e bs = Some ys \<Longrightarrow> order_chain e (as @ bs) = Some (xs @ ys)"
  by (induction as arbitrary: xs) (auto simp: bind_eq_Some_conv)

text \<open>A list of the past of a block, the block included, parents first.\<close>

definition linearises :: "dag_engine \<Rightarrow> blk \<Rightarrow> blk list \<Rightarrow> bool" where
  "linearises e b xs \<longleftrightarrow> distinct xs \<and> set xs = {x. x \<noteq> ORIGIN \<and> dag_anc (de_relations e) x b}
     \<and> sorted_wrt (\<lambda>x y. \<not> dag_anc (de_relations e) y x) xs"

lemma linearises_step:
  assumes e: "good_engine e" and c: "de_relations e c = Some ps" "de_gd e c = Some d" "c \<noteq> de_genesis e"
    and xs: "linearises e (gd_selected_parent d) xs"
    and ms: "mset ms = mset (unordered_mergeset d)" "sorted_wrt (\<lambda>x y. work_of e x \<le> work_of e y) ms"
  shows "linearises e c (xs @ ms @ [c])"
proof -
  let ?D = "dag_anc (de_relations e)" let ?sp = "gd_selected_parent d"
  have cO: "c \<noteq> ORIGIN" and B: "merges (manager_of e) ps d" "ORIGIN \<notin> set ps"
    using relations_data [OF e c(1)] c(2,3) by (auto simp: block_ok_def)
  have set_ms: "set ms = {x. (\<exists>p \<in> set ps. ?D x p) \<and> \<not> ?D x ?sp}" and dist: "distinct ms"
    using B(1) mset_eq_setD [OF ms(1)] mset_eq_imp_distinct_iff [OF ms(1)] by (simp_all add: merges_def merged_def)
  have sp: "?sp \<in> set ps" using B(1) by (simp add: merges_def)
  have up: "?D x c \<longleftrightarrow> x = c \<or> (\<exists>p \<in> set ps. ?D x p)" for x
    using c(1) dag_anc_step [of "de_relations e" x _ c ps] by (auto elim: dag_anc_cases)
  have lighter: "work_of e p < work_of e c" if "p \<in> set ps" for p
    using relations_data [OF e c(1)] c(2,3) that by (auto simp: block_ok_def work_of_def [of _ c])
  have notin: "\<not> ?D c p" if "p \<in> set ps" for p
    using work_less [OF e, of c p] cO lighter [OF that] by fastforce
  have spO: "?D ORIGIN ?sp"
  proof -
    have "?sp \<in> dom (de_gd e)" using parents_knownD [OF good_known [OF e] c(1)] sp by blast
    then show ?thesis by (rule good_origin [OF e])
  qed
  have set_xs: "set xs = {x. x \<noteq> ORIGIN \<and> ?D x ?sp}" and dx: "distinct xs"
    and sx: "sorted_wrt (\<lambda>x y. \<not> ?D y x) xs" using xs by (auto simp: linearises_def)
  have "set (xs @ ms @ [c]) = {x. x \<noteq> ORIGIN \<and> ?D x c}"
    using cO sp spO by (auto simp: set_xs set_ms up)
  moreover have "distinct (xs @ ms @ [c])" using dx dist notin sp by (auto simp: set_xs set_ms)
  moreover have "sorted_wrt (\<lambda>x y. \<not> ?D y x) (xs @ ms @ [c])"
  proof -
    have ms_sorted: "sorted_wrt (\<lambda>x y. \<not> ?D y x) ms"
    proof -
      have "sorted_wrt (\<lambda>x y. x \<noteq> y \<and> work_of e x \<le> work_of e y) ms"
        using ms(2) dist by (induction ms) auto
      then show ?thesis
      proof (rule sorted_wrt_mono_rel [rotated])
        fix x y assume "x \<in> set ms" "y \<in> set ms" "x \<noteq> y \<and> work_of e x \<le> work_of e y"
        moreover have "y \<noteq> ORIGIN" if "y \<in> set ms" for y using that spO by (auto simp: set_ms)
        ultimately show "\<not> ?D y x" using work_less [OF e, of y x] by fastforce
      qed
    qed
    moreover have "\<not> ?D y x" if "x \<in> set xs" "y \<in> set ms" for x y
      using that dag_anc_trans unfolding set_xs set_ms by blast
    moreover have "\<not> ?D c x" if "x \<in> set xs \<or> x \<in> set ms" for x
      using that notin sp dag_anc_trans unfolding set_xs set_ms by blast
    ultimately show ?thesis using sx by (auto simp: sorted_wrt_append)
  qed
  ultimately show ?thesis by (simp add: linearises_def)
qed


definition chain_listed :: "dag_engine \<Rightarrow> blk \<Rightarrow> bool" where
  "chain_listed e c \<longleftrightarrow> (\<exists>bs xs. (\<forall>acc. chain_loop e c acc = Some (bs @ acc))
     \<and> order_chain e bs = Some xs \<and> linearises e c xs)"

lemma genesis_listed:
  assumes e: "good_engine e" and g: "de_genesis e \<in> dom (de_gd e)"
  shows "chain_listed e (de_genesis e)"
proof -
  have gO: "de_genesis e \<noteq> ORIGIN" using e by (simp add: good_engine_def ghost_ok_def coloured_def)
  obtain ps d where "de_relations e (de_genesis e) = Some ps" "block_ok e (de_genesis e) ps d"
    by (rule good_block [OF e g gO])
  then have "de_relations e (de_genesis e) = Some [ORIGIN]" by (simp add: block_ok_def)
  then have "dag_anc (de_relations e) x (de_genesis e) \<longleftrightarrow> x = de_genesis e \<or> x = ORIGIN" for x
    using dag_anc_parent [of "de_relations e" "de_genesis e" "[ORIGIN]" ORIGIN] origin_bottom [OF e]
    by (auto elim: dag_anc_cases)
  then have "linearises e (de_genesis e) [de_genesis e]" using gO by (auto simp: linearises_def)
  then show ?thesis unfolding chain_listed_def
    by (intro exI [of _ "[de_genesis e]"]) (simp add: chain_loop.simps [of e "de_genesis e"])
qed

lemma chain_listed:
  assumes e: "good_engine e" and g: "de_genesis e \<in> dom (de_gd e)"
    and "chain_anc (de_gd e) (de_genesis e) c" "c \<in> dom (de_gd e)"
  shows "chain_listed e c"
  using assms(3,4)
proof (induction rule: chain_anc_up)
  case root
  show ?case by (rule genesis_listed [OF e g])
next
  case (kid c d)
  show ?case
  proof (cases "c = de_genesis e")
    case True
    then show ?thesis using genesis_listed [OF e g] by simp
  next
    case False
    let ?sp = "gd_selected_parent d"
    obtain ps where ps: "de_relations e c = Some ps" "block_ok e c ps d"
      using good_block [OF e kid.prems kid(1)] kid(2) by (metis option.inject)
    have sp: "?sp \<in> set ps" "set ps \<subseteq> dom (de_gd e)"
      using ps parents_knownD [OF good_known [OF e] ps(1)] by (auto simp: block_ok_def merges_def)
    then obtain bs xs where IH: "\<forall>acc. chain_loop e ?sp acc = Some (bs @ acc)" "order_chain e bs = Some xs"
      "linearises e ?sp xs" using kid.IH unfolding chain_listed_def by blast
    have "merged (manager_of e) ?sp ps \<subseteq> dom (de_gd e) - {ORIGIN}"
      by (rule merged_known [OF good_answers [OF e] sp(2)]) (use sp in blast)
    then have "set (unordered_mergeset d) \<subseteq> dom (de_gd e)" using ps(2) by (auto simp: block_ok_def merges_def)
    then obtain ms where ms: "sort_by_work e (unordered_mergeset d) = Some ms" "mset ms = mset (unordered_mergeset d)"
      "sorted_wrt (\<lambda>x y. work_of e x \<le> work_of e y) ms" using sort_by_work_ok by blast
    have "order_chain e [c] = Some (ms @ [c])" using False kid(2) ms(1) by simp
    then have "order_chain e (bs @ [c]) = Some (xs @ ms @ [c])" using order_chain_append IH(2) by fastforce
    moreover have "chain_loop e c acc = Some ((bs @ [c]) @ acc)" for acc
      using False kid(2) IH(1) by (simp add: chain_loop.simps [of e c] engine_selected_parent_def)
    ultimately show ?thesis
      using linearises_step [OF e ps(1) kid(2) False IH(3) ms(2,3)] unfolding chain_listed_def by blast
  qed
qed

lemma engine_order:
  assumes e: "good_engine e" and g: "de_genesis e \<in> dom (de_gd e)"
  shows "\<exists>xs. total_order e = Some xs \<and> linearises e (de_tip e) xs"
proof -
  have ok: "ghost_ok e" using e by (simp add: good_engine_def)
  have tip: "de_tip e \<noteq> ORIGIN" using ok by (simp add: ghost_ok_def)
  have t: "de_tip e \<in> dom (de_gd e)" using ok g ghost_ids [OF ok] by (auto simp: ghost_ok_def)
  have "coloured (manager_of e) (dom (de_gd e))" using ok ghost_ids [OF ok] by (simp add: ghost_ok_def)
  moreover obtain d where "de_gd e (de_tip e) = Some d" using t by blast
  ultimately have "chain_anc (de_gd e) (de_genesis e) (de_tip e)" using colouredD(3) tip by fastforce
  from chain_listed [OF e g this t] show ?thesis by (auto simp: chain_listed_def total_order_def)
qed

end
