(* ===== verification/GhostSame.thy ===== *)
theory GhostSame
  imports GhostOrder
begin

text \<open>
  GHOSTDAG is a function of the past.  Two managers whose stores and relations agree on a set of blocks
  closed under parents give every block on that set the same data, whatever else they hold and however
  their indices are labelled; so engines that received the same blocks in different orders agree on
  the data of every block, on the tip and on the total order.
\<close>

subsection \<open>Managers that share a past\<close>

definition sharing :: "ghostdag_manager \<Rightarrow> blk set \<Rightarrow> ghostdag_manager \<Rightarrow> blk set \<Rightarrow> blk set \<Rightarrow> bool" where
  "sharing g K g' K' P \<longleftrightarrow> coloured g K \<and> coloured g' K' \<and> P \<subseteq> K \<and> P \<subseteq> K'
     \<and> gm_genesis g' = gm_genesis g \<and> gm_k g' = gm_k g
     \<and> (\<forall>x \<in> P. gm_store g' x = gm_store g x \<and> gm_relations g' x = gm_relations g x)
     \<and> (\<forall>x \<in> P. \<forall>ps. gm_relations g x = Some ps \<longrightarrow> set ps \<subseteq> P)
     \<and> (\<forall>x \<in> P. \<forall>d. x \<noteq> ORIGIN \<longrightarrow> gm_store g x = Some d \<longrightarrow> set (gd_mergeset_blues d) \<subseteq> P)"

lemma sharingD:
  assumes "sharing g K g' K' P"
  shows "coloured g K" "coloured g' K'" "P \<subseteq> K" "P \<subseteq> K'" "gm_genesis g' = gm_genesis g" "gm_k g' = gm_k g"
    "\<And>x. x \<in> P \<Longrightarrow> gm_store g' x = gm_store g x" "\<And>x. x \<in> P \<Longrightarrow> gm_relations g' x = gm_relations g x"
    "\<And>x ps. x \<in> P \<Longrightarrow> gm_relations g x = Some ps \<Longrightarrow> set ps \<subseteq> P"
    "\<And>x d. x \<in> P \<Longrightarrow> x \<noteq> ORIGIN \<Longrightarrow> gm_store g x = Some d \<Longrightarrow> set (gd_mergeset_blues d) \<subseteq> P"
  using assms unfolding sharing_def by blast+

lemma share_anc:
  assumes s: "sharing g K g' K' P" and y: "y \<in> P"
  shows "dag_anc (gm_relations g) x y \<Longrightarrow> x \<in> P" "dag_anc (gm_relations g') x y \<longleftrightarrow> dag_anc (gm_relations g) x y"
proof -
  have down: "x \<in> P \<and> dag_anc (gm_relations g') x y" if "dag_anc (gm_relations g) x y"
    using that
  proof (induction rule: dag_anc_down)
    case root
    then show ?case using y by simp
  next
    case (kid x z ps)
    then have z: "z \<in> P" "dag_anc (gm_relations g') z y" by blast+
    then have "gm_relations g' z = Some ps" using sharingD(8) [OF s z(1)] kid(1) by simp
    then have "dag_anc (gm_relations g') x z" using kid(2) dag_anc_parent [of "gm_relations g'" z ps x] by blast
    then show ?case using z sharingD(9) [OF s z(1) kid(1)] kid(2) dag_anc_trans by blast
  qed
  have "x \<in> P \<and> dag_anc (gm_relations g) x y" if "dag_anc (gm_relations g') x y"
    using that
  proof (induction rule: dag_anc_down)
    case root
    then show ?case using y by simp
  next
    case (kid x z ps)
    then have z: "z \<in> P" "dag_anc (gm_relations g) z y" by blast+
    then have rel: "gm_relations g z = Some ps" using sharingD(8) [OF s z(1)] kid(1) by simp
    then have "dag_anc (gm_relations g) x z" using kid(2) dag_anc_parent [of "gm_relations g" z ps x] by blast
    then show ?case using z sharingD(9) [OF s z(1) rel] kid(2) dag_anc_trans by blast
  qed
  then show "dag_anc (gm_relations g) x y \<Longrightarrow> x \<in> P" "dag_anc (gm_relations g') x y \<longleftrightarrow> dag_anc (gm_relations g) x y"
    using down by blast+
qed

lemma share_query:
  assumes s: "sharing g K g' K' P" and "x \<in> P" "y \<in> P"
  shows "dag_anc_query g' x y = dag_anc_query g x y"
proof -
  have "x \<in> K" "y \<in> K" "x \<in> K'" "y \<in> K'" using sharingD(3,4) [OF s] assms(2,3) by blast+
  then show ?thesis
    using coloured_query [OF sharingD(1) [OF s]] coloured_query [OF sharingD(2) [OF s]] share_anc(2) [OF s assms(3)]
    by simp
qed

lemma share_sp:
  assumes s: "sharing g K g' K' P" and x: "x \<in> P" "x \<noteq> ORIGIN" "gm_store g x = Some d"
  shows "gd_selected_parent d \<in> P"
  using share_anc(1) [OF s x(1)] colouredD(6) [OF sharingD(1) [OF s] x(3,2)] by blast

lemma share_chain:
  assumes s: "sharing g K g' K' P" and x: "x \<in> P" "x \<noteq> ORIGIN"
  shows "chain_anc (gm_store g) (gm_genesis g) x"
proof -
  obtain d where "gm_store g x = Some d" using coloured_store [OF sharingD(1) [OF s]] sharingD(3) [OF s] x(1) by blast
  then show ?thesis using colouredD(3) [OF sharingD(1) [OF s]] x(2) by blast
qed

subsection \<open>The same colouring\<close>

lemma anticone_same:
  assumes s: "sharing g K g' K' P" and "chain_anc (gm_store g) (gm_genesis g) sp" "sp \<in> P"
  shows "anticone_size_loop g' b sizes sp = anticone_size_loop g b sizes sp"
  using assms(2,3)
proof (induction arbitrary: sizes rule: chain_anc_up)
  case root
  show ?case using sharingD(5) [OF s]
    by (cases "sizes b") (simp_all add: anticone_size_loop.simps [of g' b sizes] anticone_size_loop.simps [of g b sizes])
next
  case (kid c d)
  have sp: "gd_selected_parent d \<in> P" by (rule share_sp [OF s kid.prems kid(1,2)])
  have "gm_store g' c = Some d" using sharingD(7) [OF s kid.prems] kid(2) by simp
  then show ?case using sharingD(5) [OF s] kid(2) kid.IH [OF sp]
    by (cases "sizes b")
      (simp_all add: anticone_size_loop.simps [of g' b sizes] anticone_size_loop.simps [of g b sizes]
        anticone_sizes_of_def selected_parent_of_def)
qed

lemma color_peers_same:
  assumes s: "sharing g K g' K' P" and cand: "cand \<in> P"
    and sp: "gd_selected_parent new \<in> P" "gd_selected_parent new \<noteq> ORIGIN" and "set peers \<subseteq> P"
  shows "color_peers g' new cand k peers sizes n = color_peers g new cand k peers sizes n"
  using assms(5)
proof (induction peers arbitrary: sizes n)
  case (Cons p peers)
  have "blue_anticone_size g' p new = blue_anticone_size g p new"
    unfolding blue_anticone_size_def by (rule anticone_same [OF s share_chain [OF s sp] sp(1)])
  then show ?case using Cons share_query [OF s _ cand, of p]
    by (auto simp del: fun_upd_apply intro!: Option.bind_cong)
qed simp

lemma candidate_chain_same:
  assumes s: "sharing g K g' K' P" and cand: "cand \<in> P" "cand \<noteq> ORIGIN"
    and sp: "gd_selected_parent new \<in> P" "gd_selected_parent new \<noteq> ORIGIN"
    and "chain_anc (gm_store g) (gm_genesis g) c" "c \<in> P" "gm_store g c = Some d"
  shows "candidate_loop g' new cand k (Some c, d) sizes n = candidate_loop g new cand k (Some c, d) sizes n"
  using assms(6-)
proof (induction arbitrary: d sizes n rule: chain_anc_up)
  case root
  have "dag_anc (gm_relations g) (gm_genesis g) cand"
    by (rule chain_in_dag [OF sharingD(1) [OF s] share_chain [OF s cand]])
  moreover have "gm_genesis g \<in> K" "cand \<in> K" using sharingD(3) [OF s] root(1) cand(1) by blast+
  ultimately have "dag_anc_query g (gm_genesis g) cand = Some True"
    using coloured_query [OF sharingD(1) [OF s]] by simp
  moreover have "dag_anc_query g' (gm_genesis g) cand = dag_anc_query g (gm_genesis g) cand"
    by (rule share_query [OF s root(1) cand(1)])
  ultimately show ?case
    by (simp add: candidate_loop.simps [of g new cand k "(Some (gm_genesis g), d)"]
        candidate_loop.simps [of g' new cand k "(Some (gm_genesis g), d)"] check_blue_candidate_with_chain_block_def)
next
  case (kid c dc)
  have d: "d = dc" using kid.prems(2) kid(2) by simp
  let ?sp = "gd_selected_parent dc"
  have spP: "?sp \<in> P" by (rule share_sp [OF s kid.prems(1) kid(1,2)])
  obtain d' where d': "gm_store g ?sp = Some d'"
    using coloured_store [OF sharingD(1) [OF s]] sharingD(3) [OF s] spP by blast
  have "gm_store g' ?sp = Some d'" using sharingD(7) [OF s spP] d' by simp
  moreover have "check_blue_candidate_with_chain_block g' new (Some c, dc) cand sizes n k
      = check_blue_candidate_with_chain_block g new (Some c, dc) cand sizes n k"
    using share_query [OF s kid.prems(1) cand(1)]
      color_peers_same [OF s cand(1) sp sharingD(10) [OF s kid.prems(1) kid(1,2)]]
    unfolding check_blue_candidate_with_chain_block_def fst_conv snd_conv option.case
    by (cases "dag_anc_query g c cand") simp_all
  ultimately show ?case unfolding d
    using kid.IH [OF spP d'] d'
    by (simp add: candidate_loop.simps [of g new cand k "(Some c, dc)"]
        candidate_loop.simps [of g' new cand k "(Some c, dc)"] cong: coloring_state.case_cong)
qed

lemma check_candidate_same:
  assumes s: "sharing g K g' K' P" and cand: "cand \<in> P" "cand \<noteq> ORIGIN"
    and sp: "gd_selected_parent new \<in> P" "gd_selected_parent new \<noteq> ORIGIN" and blues: "set (gd_mergeset_blues new) \<subseteq> P"
  shows "check_blue_candidate g' new cand k = check_blue_candidate g new cand k"
proof -
  let ?sp = "gd_selected_parent new"
  obtain d where d: "gm_store g ?sp = Some d"
    using coloured_store [OF sharingD(1) [OF s]] sharingD(3) [OF s] sp(1) by blast
  have "gm_store g' ?sp = Some d" using sharingD(7) [OF s sp(1)] d by simp
  moreover have "check_blue_candidate_with_chain_block g' new (None, new) cand sizes n k
      = check_blue_candidate_with_chain_block g new (None, new) cand sizes n k" for sizes n
    using color_peers_same [OF s cand(1) sp blues] by (simp add: check_blue_candidate_with_chain_block_def)
  ultimately show ?thesis
    using candidate_chain_same [OF s cand sp share_chain [OF s sp] sp(1) d] d
    by (simp add: check_blue_candidate_def candidate_loop.simps [of g new cand k "(None, new)"]
        candidate_loop.simps [of g' new cand k "(None, new)"] cong: coloring_state.case_cong)
qed

lemma color_all_same:
  assumes s: "sharing g K g' K' P" and "set cands \<subseteq> P - {ORIGIN}"
    and "gd_selected_parent new \<in> P" "gd_selected_parent new \<noteq> ORIGIN" "set (gd_mergeset_blues new) \<subseteq> P"
  shows "color_all g' cands new = color_all g cands new"
  using assms(2-)
proof (induction cands arbitrary: new)
  case (Cons c cands)
  have c: "c \<in> P" "c \<noteq> ORIGIN" using Cons.prems(1) by auto
  have "color_all g' cands (add_blue c n sizes new) = color_all g cands (add_blue c n sizes new)"
    "color_all g' cands (add_red c new) = color_all g cands (add_red c new)" for n sizes
    using Cons.prems c by (auto simp: add_blue_def add_red_def intro!: Cons.IH)
  then show ?case using check_candidate_same [OF s c Cons.prems(2-4)] sharingD(6) [OF s]
    by (auto intro!: Option.bind_cong split: option.split)
qed simp

subsection \<open>The same data\<close>

lemma share_sortable: "sharing g K g' K' P \<Longrightarrow> x \<in> P \<Longrightarrow> sortable g' x = sortable g x"
  using sharingD(7) by (simp add: sortable_def blue_work_of_def)

lemma sort_by_mset: "mset xs = mset ys \<Longrightarrow> sort xs = sort ys" for xs :: "'a :: linorder list"
  by (rule properties_for_sort) simp_all

lemma ghostdag_same:
  assumes s: "sharing g K g' K' P" and ps: "ps \<noteq> []" "set ps \<subseteq> P - {ORIGIN}" "antichain (dag_anc (gm_relations g)) ps"
  shows "ghostdag unit_work g' ps = ghostdag unit_work g ps"
proof -
  have A: "answers g K" "answers g' K'" and dom: "dom (gm_store g) = K" "dom (gm_store g') = K'"
    using sharingD(1,2) [OF s] by (simp_all add: coloured_def)
  have psK: "set ps \<subseteq> K" "set ps \<subseteq> K'" using ps(2) sharingD(3,4) [OF s] by auto
  have "set ps \<subseteq> dom (gm_store g)" unfolding dom(1) by (rule psK(1))
  from find_selected_parent_ok [OF this ps(1)] obtain sp where
    sp: "find_selected_parent g ps = Some sp" "sp \<in> set ps" by blast
  have spP: "sp \<in> P" "sp \<noteq> ORIGIN" using sp(2) ps(2) by auto
  have "those (map (sortable g') ps) = those (map (sortable g) ps)"
    using ps(2) share_sortable [OF s] by (intro arg_cong [where f = those] map_cong) auto
  then have sp': "find_selected_parent g' ps = Some sp" using sp(1) by (simp add: find_selected_parent_def)
  have anc: "dag_anc (gm_relations g') x p \<longleftrightarrow> dag_anc (gm_relations g) x p" if "p \<in> set ps" for x p
    using share_anc(2) [OF s] that ps(2) by blast
  have merged: "merged g' sp ps = merged g sp ps" using anc sp(2) by (auto simp: merged_def)
  obtain ms where ms: "unordered_mergeset_without_selected_parent g sp ps = Some ms" "distinct ms" "set ms = merged g sp ps"
    using mergeset_ok [OF A(1) sp(2) psK(1)] ps(3) sp(2) unfolding antichain_def by blast
  have "\<not> dag_anc (gm_relations g') p sp" if "p \<in> set ps" "p \<noteq> sp" for p
    using ps(3) sp(2) that anc [OF sp(2)] by (simp add: antichain_def)
  then obtain ms' where ms': "unordered_mergeset_without_selected_parent g' sp ps = Some ms'" "distinct ms'" "set ms' = merged g sp ps"
    using mergeset_ok [OF A(2) sp(2) psK(2)] unfolding merged by blast
  have "set ms' = set ms" using ms(3) ms'(3) by simp
  then have "mset ms' = mset ms" using set_eq_iff_mset_eq_distinct [OF ms'(2) ms(2)] by simp
  have "merged g sp ps \<subseteq> P" unfolding merged_def using share_anc(1) [OF s] ps(2) by blast
  moreover have "merged g sp ps \<subseteq> K - {ORIGIN}" by (rule merged_known [OF A(1) psK(1)]) (use sp(2) psK(1) in blast)
  ultimately have msP: "merged g sp ps \<subseteq> P - {ORIGIN}" by blast
  then have dms: "set ms \<subseteq> dom (gm_store g)" "set ms' \<subseteq> dom (gm_store g')"
    using ms(3) ms'(3) dom sharingD(3,4) [OF s] by auto
  have keys: "map (the_sortable g') ms' = map (the_sortable g) ms'"
    using msP ms'(3) sharingD(7) [OF s] by (intro map_cong) (auto simp: the_sortable_def)
  have "sort (map (the_sortable g') ms') = sort (map (the_sortable g) ms)"
    unfolding keys by (rule sort_by_mset) (simp only: mset_map \<open>mset ms' = mset ms\<close>)
  then have sorted: "sort_blocks g' ms' = sort_blocks g ms"
    using sortables [OF dms(1)] sortables [OF dms(2)] by (simp add: sort_blocks_def)
  obtain xs where xs: "sort_blocks g ms = Some xs" "mset xs = mset ms" using sort_blocks_ok [OF dms(1)] by blast
  have "set xs \<subseteq> P - {ORIGIN}" using msP ms(3) mset_eq_setD [OF xs(2)] by simp
  then have "color_all g' xs (new_with_selected_parent sp) = color_all g xs (new_with_selected_parent sp)"
    using spP by (intro color_all_same [OF s]) (simp_all add: new_with_selected_parent_def ghostdag_data_new_def)
  moreover have "blue_score_of g' sp = blue_score_of g sp" "blue_work_of g' sp = blue_work_of g sp"
    using sharingD(7) [OF s spP(1)] by (simp_all add: blue_score_of_def blue_work_of_def)
  ultimately show ?thesis
    using sp(1) sp' spP(2) ms(1) ms'(1) sorted xs(1)
    by (simp add: ghostdag_def is_origin_def ordered_mergeset_without_selected_parent_def)
qed


subsection \<open>The data of a run\<close>

text \<open>Every block holds what \<open>ghostdag\<close> computes from the engine as it is now, and the tip is the heaviest block.\<close>

definition computed :: "dag_engine \<Rightarrow> blk \<Rightarrow> blk list \<Rightarrow> ghostdag_data \<Rightarrow> bool" where
  "computed e b ps d \<longleftrightarrow> (if b = de_genesis e then d = new_with_selected_parent ORIGIN
     else antichain (dag_anc (de_relations e)) ps \<and> ghostdag unit_work (manager_of e) ps = Some d)"

definition settled :: "dag_engine \<Rightarrow> bool" where
  "settled e \<longleftrightarrow> good_engine e \<and> de_gd e ORIGIN = Some origin_ghostdag_data
     \<and> (\<forall>b ps d. de_relations e b = Some ps \<longrightarrow> de_gd e b = Some d \<longrightarrow> computed e b ps d)
     \<and> (\<forall>b \<in> dom (de_gd e) - {ORIGIN}. the_sortable (manager_of e) b \<le> the_sortable (manager_of e) (de_tip e))"

lemma good_coloured: "good_engine e \<Longrightarrow> coloured (manager_of e) (dom (de_gd e))"
  using ghost_ids [of e] unfolding good_engine_def ghost_ok_def by metis

lemma good_tip:
  assumes "good_engine e"
  shows "de_genesis e \<in> dom (de_gd e) \<Longrightarrow> de_tip e \<in> dom (de_gd e) - {ORIGIN}"
    "de_genesis e \<notin> dom (de_gd e) \<Longrightarrow> de_tip e = de_genesis e"
proof -
  have "ids (de_reach e) = dom (de_gd e)" using assms ghost_ids by (simp add: good_engine_def)
  moreover have "(if de_genesis e \<in> ids (de_reach e) then de_tip e \<in> ids (de_reach e) else de_tip e = de_genesis e)
    \<and> de_tip e \<noteq> ORIGIN" using assms unfolding good_engine_def ghost_ok_def by blast
  ultimately show "de_genesis e \<in> dom (de_gd e) \<Longrightarrow> de_tip e \<in> dom (de_gd e) - {ORIGIN}"
    "de_genesis e \<notin> dom (de_gd e) \<Longrightarrow> de_tip e = de_genesis e" by (metis DiffI singletonD, metis)
qed

lemma merges_blues: "merges g ps d \<Longrightarrow> set (gd_mergeset_blues d) \<subseteq> insert (gd_selected_parent d) (merged g (gd_selected_parent d) ps)"
  by (cases "gd_mergeset_blues d") (auto simp: merges_def unordered_mergeset_def)

lemma good_blues:
  assumes "good_engine e" "de_gd e x = Some d" "x \<noteq> ORIGIN" "b \<in> set (gd_mergeset_blues d)"
  shows "dag_anc (de_relations e) b x"
proof -
  have "x \<in> dom (de_gd e)" using assms(2) by blast
  then obtain ps where ps: "de_relations e x = Some ps" "block_ok e x ps d"
    using good_block [OF assms(1) _ assms(3)] assms(2) by (metis option.inject)
  then have m: "merges (manager_of e) ps d" by (simp add: block_ok_def)
  then have "\<exists>p \<in> set ps. dag_anc (de_relations e) b p"
    using merges_blues [OF m] assms(4) dag_anc_refl by (fastforce simp: merges_def merged_def)
  then show ?thesis using dag_anc_step [of "de_relations e" b _ x ps] ps(1) by blast
qed

lemma sharing_past:
  assumes e: "good_engine e" "good_engine e'" and kg: "de_genesis e' = de_genesis e" "de_k e' = de_k e"
    and P: "P \<subseteq> dom (de_gd e)" "P \<subseteq> dom (de_gd e')"
      "\<And>x. x \<in> P \<Longrightarrow> de_gd e' x = de_gd e x" "\<And>x. x \<in> P \<Longrightarrow> de_relations e' x = de_relations e x"
    and down: "\<And>x y. y \<in> P \<Longrightarrow> dag_anc (de_relations e) x y \<Longrightarrow> x \<in> P"
  shows "sharing (manager_of e) (dom (de_gd e)) (manager_of e') (dom (de_gd e')) P"
proof -
  have "set ps \<subseteq> P" if "x \<in> P" "de_relations e x = Some ps" for x ps
    using down [OF that(1)] dag_anc_parent [of "de_relations e" x ps] that(2) by blast
  moreover have "set (gd_mergeset_blues d) \<subseteq> P" if "x \<in> P" "x \<noteq> ORIGIN" "de_gd e x = Some d" for x d
    using down [OF that(1)] good_blues [OF e(1) that(3,2)] by blast
  ultimately show ?thesis
    unfolding sharing_def manager_fields using good_coloured [OF e(1)] good_coloured [OF e(2)] kg P by blast
qed

text \<open>An addition leaves the data of the other blocks what \<open>ghostdag\<close> computes.\<close>

lemma settled_step:
  assumes e: "settled e" "good_engine e'" and at: "attaches e b ps"
    and d: "ghostdag unit_work (manager_of e) ps = Some d" "weighed e b d" and g: "grows e b ps d e'"
  shows "settled e'"
proof -
  have ge: "good_engine e" "good_engine e'" using e by (simp_all add: settled_def)
  define K where "K = dom (de_gd e)"
  have e': "de_gd e' = (de_gd e)(b \<mapsto> d)" "de_relations e' = (de_relations e)(b \<mapsto> ps)" "de_genesis e' = de_genesis e"
    "de_k e' = de_k e" using g by (simp_all add: grows_def)
  have b: "b \<notin> K" using at by (simp add: attaches_def K_def)
  have known: "parents_known K (de_relations e)" using good_known [OF ge(1)] by (simp add: K_def)
  have O: "ORIGIN \<in> K" using e(1) by (auto simp: settled_def K_def)
  have psK: "set ps \<subseteq> K" using at O by (auto simp: attaches_def K_def split: if_splits)
  have share: "sharing (manager_of e) K (manager_of e') (dom (de_gd e')) K"
    unfolding K_def
  proof (rule sharing_past [OF ge e'(3,4)])
    show "x \<in> dom (de_gd e)" if "y \<in> dom (de_gd e)" "dag_anc (de_relations e) x y" for x y
      using parents_known_anc [OF that(2) known] that(1) by (auto simp: K_def)
  qed (use b in \<open>auto simp: e'(1,2) K_def\<close>)
  have keep: "computed e' c qs dc" if c: "computed e c qs dc" "set qs \<subseteq> K"
    "c \<noteq> de_genesis e \<longrightarrow> qs \<noteq> [] \<and> ORIGIN \<notin> set qs" for c qs dc
  proof (cases "c = de_genesis e")
    case True
    then show ?thesis using c(1) by (simp add: computed_def e'(3))
  next
    case False
    have "dag_anc (de_relations e') p q \<longleftrightarrow> dag_anc (de_relations e) p q" if "q \<in> set qs" for p q
      using share_anc(2) [OF share, of q p] c(2) that by auto
    then have "antichain (dag_anc (de_relations e')) qs" using c(1) False by (simp add: computed_def antichain_def)
    moreover have "ghostdag unit_work (manager_of e') qs = ghostdag unit_work (manager_of e) qs"
      by (rule ghostdag_same [OF share]) (use c False in \<open>auto simp: computed_def\<close>)
    ultimately show ?thesis using c(1) False by (simp add: computed_def e'(3))
  qed
  have "computed e' b ps d"
    by (rule keep [OF _ psK]) (use at d in \<open>auto simp: computed_def attaches_def weighed_def split: if_splits\<close>)
  moreover have "computed e' c qs dc" if c: "de_relations e c = Some qs" "de_gd e c = Some dc" for c qs dc
  proof (rule keep)
    show "computed e c qs dc" using e(1) c by (simp add: settled_def)
    show "set qs \<subseteq> K" using parents_knownD [OF known c(1)] by blast
    show "c \<noteq> de_genesis e \<longrightarrow> qs \<noteq> [] \<and> ORIGIN \<notin> set qs"
      using relations_data [OF ge(1) c(1)] parents_knownD [OF known c(1)] c(2) by (auto simp: block_ok_def)
  qed
  moreover have "the_sortable (manager_of e') x \<le> the_sortable (manager_of e') (de_tip e')" if x: "x \<in> dom (de_gd e') - {ORIGIN}" for x
  proof -
    have tip: "the_sortable (manager_of e') (de_tip e')
      = max (the_sortable (manager_of e') (de_tip e)) (the_sortable (manager_of e') b)" using g by (simp add: grows_def)
    show ?thesis
    proof (cases "x = b")
      case False
      then have xK: "x \<in> K" "x \<noteq> ORIGIN" using x by (auto simp: e'(1) K_def)
      then have le: "the_sortable (manager_of e) x \<le> the_sortable (manager_of e) (de_tip e)" using e(1) by (simp add: settled_def K_def)
      have "de_genesis e \<in> K"
      proof -
        obtain dx where "de_gd e x = Some dx" using xK(1) by (auto simp: K_def)
        then have "chain_anc (de_gd e) (de_genesis e) x"
          using colouredD(3) [OF good_coloured [OF ge(1)], of x] xK(2) by simp
        then show ?thesis using chain_known [OF good_coloured [OF ge(1)]] xK(1) by (simp add: K_def)
      qed
      then have "de_tip e \<in> K" using good_tip(1) [OF ge(1)] unfolding K_def by blast
      then have "the_sortable (manager_of e') x \<le> the_sortable (manager_of e') (de_tip e)"
        using le xK(1) b by (auto simp: the_sortable_def e'(1))
      then show ?thesis unfolding tip by (simp add: le_max_iff_disj)
    qed (simp add: tip)
  qed
  moreover have "de_gd e' ORIGIN = Some origin_ghostdag_data" using e(1) b O by (auto simp: settled_def e'(1))
  ultimately show ?thesis unfolding settled_def using ge(2)
    by (auto simp: e'(1,2) split: if_splits)
qed


lemma added_data: "engine_add_block fo b ps e = Some (d, e') \<Longrightarrow> ghostdag unit_work (manager_of e) ps = Some d"
  by (auto simp: engine_add_block_def bind_eq_Some_conv Let_def)

lemma run_settled:
  assumes "engine_run fo k g e" "g \<noteq> ORIGIN" "k < - 1"
  shows "settled e \<and> de_genesis e = g \<and> de_k e = k"
  using assms
proof induction
  case (start e)
  then show ?case using engine_run_ok [OF engine_run.start [OF start(1), of undefined]]
    by (auto simp: settled_def good_engine_def engine_new_eq split: if_splits)
next
  case (add e b ps d e')
  have s: "settled e" "de_genesis e = g" "de_k e = k" using add.IH add.prems by blast+
  then have ok: "ghost_ok e" "blocks_ok e" by (simp_all add: settled_def good_engine_def)
  have small: "card (ids (de_reach e)) < index_limit" using add.hyps(2) ghost_ids [OF ok(1)] by simp
  from ghost_step [OF ok(1) small add.hyps(3), of fo] add.hyps(4) have
    g: "ghost_ok e'" "grows e b ps d e'" "merges (manager_of e) ps d" "weighed e b d" by auto
  then have "good_engine e'" using blocks_ok_step [OF ok add.hyps(2,3) g(2-4)] by (simp add: good_engine_def)
  then have "settled e'" by (rule settled_step [OF s(1) _ add.hyps(3) added_data [OF add.hyps(4)] g(4,2)])
  then show ?case using s g(2) by (simp add: grows_def)
qed

subsection \<open>Two engines\<close>

lemma same_data:
  assumes e: "settled e" "settled e'" and kg: "de_genesis e' = de_genesis e" "de_k e' = de_k e"
    and "b \<in> dom (de_gd e)" "b \<in> dom (de_gd e')"
    and "\<And>x. dag_anc (de_relations e) x b \<Longrightarrow> de_relations e' x = de_relations e x"
  shows "de_gd e' b = de_gd e b"
  using assms(5-)
proof (induction "work_of e b" arbitrary: b rule: less_induct)
  case less
  let ?D = "dag_anc (de_relations e)"
  have ge: "good_engine e" "good_engine e'" using e by (simp_all add: settled_def)
  show ?case
  proof (cases "b = ORIGIN")
    case True
    then show ?thesis using e by (simp add: settled_def)
  next
    case bO: False
    obtain ps d where ps: "de_relations e b = Some ps" "de_gd e b = Some d" "block_ok e b ps d"
      by (rule good_block [OF ge(1) less.prems(1) bO])
    obtain d' where d': "de_gd e' b = Some d'" using less.prems(2) by blast
    have ps': "de_relations e' b = Some ps" using less.prems(3) [of b] ps(1) by simp
    have c: "computed e b ps d" "computed e' b ps d'" using e ps(1,2) ps' d' by (simp_all add: settled_def)
    show ?thesis
    proof (cases "b = de_genesis e")
      case True
      then show ?thesis using c kg(1) d' ps(2) by (simp add: computed_def)
    next
      case False
      define P where "P = {x. \<exists>p \<in> set ps. ?D x p}"
      have below: "?D x b" if "x \<in> P" for x
        using that dag_anc_step [of "de_relations e" x _ b ps] ps(1) by (auto simp: P_def)
      have psK: "ps \<noteq> []" "set ps \<subseteq> dom (de_gd e)" using parents_knownD [OF good_known [OF ge(1)] ps(1)] by blast+
      have PK: "x \<in> dom (de_gd e)" if "x \<in> P" for x
        using that parents_known_anc [of "de_relations e" x _ "dom (de_gd e)"] good_known [OF ge(1)] psK(2)
        by (auto simp: P_def)
      have rel: "de_relations e' x = de_relations e x" if "x \<in> P" for x using less.prems(3) below that by blast
      have PK': "x \<in> dom (de_gd e')" if "x \<in> P" for x
      proof (cases "x = ORIGIN")
        case True
        then show ?thesis using e(2) by (auto simp: settled_def)
      next
        case False
        then have "x \<in> dom (de_relations e)" using PK [OF that] good_relations [OF ge(1)] by simp
        then have "x \<in> dom (de_relations e')" using rel [OF that] by (simp add: domIff)
        then show ?thesis using good_relations [OF ge(2)] by simp
      qed
      have gd: "de_gd e' x = de_gd e x" if x: "x \<in> P" for x
      proof (cases "x = ORIGIN")
        case True
        then show ?thesis using e by (simp add: settled_def)
      next
        case xO: False
        have "work_of e x < work_of e b"
        proof -
          obtain p where p: "p \<in> set ps" "?D x p" using x by (auto simp: P_def)
          have "work_of e p < work_of e b" using ps(2,3) False p(1) by (simp add: block_ok_def work_of_def [of _ b])
          then show ?thesis using work_less [OF ge(1) p(2) xO] by (cases "x = p") auto
        qed
        then show ?thesis
        proof (rule less.hyps [OF _ PK [OF x] PK' [OF x]])
          show "de_relations e' y = de_relations e y" if "?D y x" for y
            using less.prems(3) dag_anc_trans [OF that below [OF x]] by blast
        qed
      qed
      have down: "x \<in> P" if "y \<in> P" "?D x y" for x y using that dag_anc_trans unfolding P_def by blast
      have share: "sharing (manager_of e) (dom (de_gd e)) (manager_of e') (dom (de_gd e')) P"
        by (rule sharing_past [OF ge kg _ _ gd rel down]) (use PK PK' in blast)+
      have "set ps \<subseteq> P" unfolding P_def using dag_anc_refl by blast
      then have "set ps \<subseteq> P - {ORIGIN}" using ps(3) False by (auto simp: block_ok_def)
      then have "ghostdag unit_work (manager_of e') ps = ghostdag unit_work (manager_of e) ps"
        using c(1) False by (intro ghostdag_same [OF share psK(1)]) (simp_all add: computed_def)
      then show ?thesis using c False kg(1) d' ps(2) by (simp add: computed_def)
    qed
  qed
qed

lemma the_sortable_inj: "the_sortable g a = the_sortable g b \<Longrightarrow> a = b"
  by (metis sb_hash_the_sortable)

lemma same_engines:
  assumes e: "settled e" "settled e'" and kg: "de_genesis e' = de_genesis e" "de_k e' = de_k e"
    and rel: "de_relations e' = de_relations e"
  shows "de_gd e' = de_gd e" "de_tip e' = de_tip e"
proof -
  have ge: "good_engine e" "good_engine e'" using e by (simp_all add: settled_def)
  have dom: "dom (de_gd e') = dom (de_gd e)"
    using good_relations [OF ge(1)] good_relations [OF ge(2)] rel e by (auto simp: settled_def)
  show gd: "de_gd e' = de_gd e"
  proof
    show "de_gd e' b = de_gd e b" for b
    proof (cases "b \<in> dom (de_gd e)")
      case True
      then show ?thesis using same_data [OF e kg True] dom rel by simp
    next
      case False
      then show ?thesis using dom by (metis domIff)
    qed
  qed
  show "de_tip e' = de_tip e"
  proof (cases "de_genesis e \<in> dom (de_gd e)")
    case True
    have "de_tip e \<in> dom (de_gd e) - {ORIGIN}" "de_tip e' \<in> dom (de_gd e') - {ORIGIN}"
      using good_tip(1) [OF ge(1) True] good_tip(1) [OF ge(2)] True kg(1) dom by simp_all
    moreover have "the_sortable (manager_of e') x = the_sortable (manager_of e) x" for x
      using gd by (simp add: the_sortable_def)
    ultimately have "the_sortable (manager_of e) (de_tip e') = the_sortable (manager_of e) (de_tip e)"
      using e gd by (intro antisym) (simp_all add: settled_def)
    then show ?thesis by (rule the_sortable_inj)
  next
    case False
    then show ?thesis using good_tip(2) [OF ge(1)] good_tip(2) [OF ge(2)] kg(1) dom by simp
  qed
qed


subsection \<open>The same order\<close>

lemma chain_loop_transfer:
  assumes "chain_loop e c acc = Some y"
  shows "de_gd e' = de_gd e \<and> de_genesis e' = de_genesis e \<longrightarrow> chain_loop e' c acc = Some y"
  using assms
proof (induction rule: chain_loop.raw_induct [rotated, consumes 1])
  case (1 f e c acc y)
  show ?case
  proof (intro impI)
    assume same: "de_gd e' = de_gd e \<and> de_genesis e' = de_genesis e"
    show "chain_loop e' c acc = Some y"
    proof (cases "c = de_genesis e")
      case True
      then show ?thesis using 1(2) same by (simp add: chain_loop.simps [of e' "de_genesis e" acc])
    next
      case False
      with 1(2) obtain sp where sp: "engine_selected_parent e c = Some sp" "f e sp (c # acc) = Some y"
        by (auto simp: bind_eq_Some_conv)
      moreover have "engine_selected_parent e' c = Some sp" using sp(1) same by (simp add: engine_selected_parent_def)
      ultimately show ?thesis using 1(1) [OF sp(2)] same False by (simp add: chain_loop.simps [of e' c acc])
    qed
  qed
qed

lemma total_order_same:
  assumes "de_gd e' = de_gd e" "de_genesis e' = de_genesis e" "de_tip e' = de_tip e"
  shows "total_order e' = total_order e"
proof -
  have "work_key e' = work_key e" by (rule ext) (simp add: work_key_def assms(1))
  then have "order_chain e' bs = order_chain e bs" for bs
    by (induction bs) (simp_all add: assms(1,2) sort_by_work_def)
  then have "order_chain e' = order_chain e" by blast
  moreover have "chain_loop e' c acc = chain_loop e c acc" for c acc
    using chain_loop_transfer [of e c acc _ e'] chain_loop_transfer [of e' c acc _ e] assms(1,2)
    by (cases "chain_loop e c acc"; cases "chain_loop e' c acc") auto
  ultimately show ?thesis by (simp add: total_order_def assms(3))
qed

end
