(* ===== verification/GhostParents.thy ===== *)
theory GhostParents
  imports GhostSame
begin

text \<open>
  Parents that are not an antichain.  Nothing in the acceptance of a block excludes a parent that is an
  ancestor of another one, and the merge set starts from every parent but the selected one.  Such a
  parent on the selected chain is merged and counted again; off the chain the update of the index
  fails and the engine panics.
\<close>

subsection \<open>On the chain: counted twice\<close>

lemma settled_query:
  "settled e \<Longrightarrow> a \<in> dom (de_gd e) \<Longrightarrow> b \<in> dom (de_gd e) \<Longrightarrow>
     dag_anc_query (manager_of e) a b = Some (dag_anc (de_relations e) a b)"
  using coloured_query [OF good_coloured, of e a b] by (simp add: settled_def)

lemma scan_known_past:
  assumes "\<And>x. x \<in> set xs \<Longrightarrow> x \<notin> set ms \<and> dag_anc_query g x sp = Some True"
  shows "\<exists>past'. scan_parents g sp xs (queue, ms, past) = Some (queue, ms, past')"
  using assms by (induction xs arbitrary: past) auto

text \<open>A block with one parent merges nothing.\<close>

lemma single_parent:
  assumes e: "settled e" and p: "de_relations e p = Some [q]" "q \<noteq> ORIGIN" and d: "de_gd e p = Some d"
  shows "p \<noteq> de_genesis e" "gd_selected_parent d = q" "gd_mergeset_blues d = [q]"
proof -
  have ge: "good_engine e" using e by (simp add: settled_def)
  have B: "block_ok e p [q] d" using relations_data [OF ge p(1)] d by auto
  then show "p \<noteq> de_genesis e" using p(2) by (auto simp: block_ok_def)
  have m: "merges (manager_of e) [q] d" using B by (simp add: block_ok_def)
  then show sp: "gd_selected_parent d = q" by (simp add: merges_def)
  have "set (unordered_mergeset d) = {}" using m by (simp add: merges_def merged_def)
  then have "drop 1 (gd_mergeset_blues d) = []" by (simp add: unordered_mergeset_def)
  then show "gd_mergeset_blues d = [q]" using m sp by (cases "gd_mergeset_blues d") (auto simp: merges_def)
qed

lemma work_sortable_less:
  assumes "work_of e q < work_of e p" "q \<in> dom (de_gd e)" "p \<in> dom (de_gd e)"
  shows "the_sortable (manager_of e) q < the_sortable (manager_of e) p"
  using assms by (auto simp: work_of_def the_sortable_def less_sortable_block_def word_less_nat_alt)

lemma ghost_single:
  assumes e: "settled e" and p: "p \<in> dom (de_gd e)" "p \<noteq> ORIGIN"
  shows "\<exists>d. ghostdag unit_work (manager_of e) [p] = Some d \<and> gd_mergeset_blues d = [p]
    \<and> gd_selected_parent d = p \<and> gd_blue_work d = gd_blue_work (the (de_gd e p)) + 1"
proof -
  have g: "coloured (manager_of e) (dom (de_gd e))" using e good_coloured by (simp add: settled_def)
  obtain d dsp where d: "ghostdag unit_work (manager_of e) [p] = Some d" "merges (manager_of e) [p] d"
    "de_gd e (gd_selected_parent d) = Some dsp" "gd_blue_work d = gd_blue_work dsp + word_of_nat (length (gd_mergeset_blues d))"
    using ghostdag_ok [OF g, of "[p]"] p by (auto simp: antichain_def)
  have "set (unordered_mergeset d) = {}" "gd_selected_parent d = p" using d(2) by (simp_all add: merges_def merged_def)
  moreover from this have "drop 1 (gd_mergeset_blues d) = []" by (simp add: unordered_mergeset_def)
  then have "gd_mergeset_blues d = [p]" using d(2) \<open>gd_selected_parent d = p\<close>
    by (cases "gd_mergeset_blues d") (auto simp: merges_def)
  ultimately show ?thesis using d by simp
qed

lemma ghost_doubled:
  assumes e: "settled e" and k: "1 \<le> de_k e" "de_k e < - 1"
    and p: "de_relations e p = Some [q]" "q \<noteq> ORIGIN"
  shows "\<exists>d. ghostdag unit_work (manager_of e) [p, q] = Some d \<and> gd_mergeset_blues d = [p, q]
    \<and> gd_selected_parent d = p \<and> gd_blue_work d = gd_blue_work (the (de_gd e p)) + 2"
proof -
  let ?g = "manager_of e" let ?D = "dag_anc (de_relations e)"
  have ge: "good_engine e" using e by (simp add: settled_def)
  have K: "p \<in> dom (de_gd e)" "q \<in> dom (de_gd e)" using parents_knownD [OF good_known [OF ge] p(1)] by auto
  have pO: "p \<noteq> ORIGIN" using relations_data [OF ge p(1)] by blast
  obtain dp where dp: "de_gd e p = Some dp" using K(1) by blast
  obtain qs dq where qs: "de_relations e q = Some qs" "de_gd e q = Some dq" by (rule good_block [OF ge K(2) p(2)])
  note single = single_parent [OF e p dp]
  have up: "?D q p" using dag_anc_parent [of "de_relations e" p "[q]" q] p(1) by simp
  have lighter: "work_of e q < work_of e p"
    using relations_data [OF ge p(1)] single(1) by (auto simp: block_ok_def work_of_def [of _ p])
  have ne: "p \<noteq> q" using lighter by auto
  have not_up: "\<not> ?D p q" using work_less [OF ge _ pO ne] lighter by fastforce
  have query: "dag_anc_query ?g q p = Some True" "dag_anc_query ?g p q = Some False" "dag_anc_query ?g q q = Some True"
    using settled_query [OF e] K up not_up by simp_all
  have works: "blue_work_of ?g p = Some (gd_blue_work dp)" "blue_score_of ?g p = Some (gd_blue_score dp)"
    by (simp_all add: blue_work_of_def blue_score_of_def dp)
  have "those (map (sortable ?g) [p, q]) = Some (map (the_sortable ?g) [p, q])"
    by (rule sortables) (use K in simp)
  then have sel: "find_selected_parent ?g [p, q] = Some p"
    using less_imp_le [OF work_sortable_less [OF lighter K(2,1)]] by (simp add: find_selected_parent_def max_def)
  have "x \<notin> set [q] \<and> dag_anc_query ?g x p = Some True" if x: "x \<in> set qs" for x
  proof -
    have xq: "?D x q" using dag_anc_parent [of "de_relations e" q qs x] qs(1) x by simp
    have "x \<in> dom (de_gd e)" using parents_knownD [OF good_known [OF ge] qs(1)] x by blast
    then have "dag_anc_query ?g x p = Some True" using settled_query [OF e _ K(1)] dag_anc_trans [OF xq up] by simp
    moreover have "x \<noteq> q"
    proof
      assume "x = q"
      then have "q \<in> set qs" using x by simp
      then show False using relations_data [OF ge qs(1)] qs(2) p(2) by (auto simp: block_ok_def work_of_def split: if_splits)
    qed
    ultimately show ?thesis by simp
  qed
  then obtain past where "scan_parents ?g p qs ([], [q], {}) = Some ([], [q], past)" using scan_known_past by blast
  then have ms: "unordered_mergeset_without_selected_parent ?g p [p, q] = Some [q]"
    using ne qs(1) by (simp add: unordered_mergeset_without_selected_parent_def Let_def
        mergeset_loop.simps [of ?g p "([q], [q], {})"] mergeset_loop.simps [of ?g p "([], [q], past)"])
  have "those (map (sortable ?g) [q]) = Some (map (the_sortable ?g) [q])"
    by (rule sortables) (use K in simp)
  then have ord: "ordered_mergeset_without_selected_parent ?g p [p, q] = Some [q]"
    using ms by (simp add: ordered_mergeset_without_selected_parent_def sort_blocks_def)
  define new where "new = new_with_selected_parent p"
  have new: "gd_mergeset_blues new = [p]" "gd_selected_parent new = p" "gd_blues_anticone_sizes new = [p \<mapsto> 0]"
    by (simp_all add: new_def new_with_selected_parent_def ghostdag_data_new_def)
  have size: "blue_anticone_size ?g p new = Some 0"
    by (simp add: blue_anticone_size_def new anticone_size_loop.simps [of ?g p])
  have k1: "\<not> de_k e < 1" "de_k e \<noteq> 0" "de_k e + 1 \<noteq> 1" using k(1) by auto
  have c1: "check_blue_candidate_with_chain_block ?g new (None, new) q (\<lambda>_. None) 0 (de_k e) = Some (Pending [p \<mapsto> 0] 1)"
    using query(2) size k1 by (simp add: check_blue_candidate_with_chain_block_def new)
  have c2: "check_blue_candidate_with_chain_block ?g new (Some p, dp) q [p \<mapsto> 0] 1 (de_k e) = Some (Pending [p \<mapsto> 0] 1)"
    using query single(3) by (simp add: check_blue_candidate_with_chain_block_def)
  have c3: "check_blue_candidate_with_chain_block ?g new (Some q, dq) q [p \<mapsto> 0] 1 (de_k e) = Some (Blue [p \<mapsto> 0] 1)"
    using query by (simp add: check_blue_candidate_with_chain_block_def)
  have "candidate_loop ?g new q (de_k e) (Some q, dq) [p \<mapsto> 0] 1 = Some (Some ([p \<mapsto> 0], 1))"
    using c3 by (simp add: candidate_loop.simps [of ?g new q _ "(Some q, dq)"])
  then have "candidate_loop ?g new q (de_k e) (Some p, dp) [p \<mapsto> 0] 1 = Some (Some ([p \<mapsto> 0], 1))"
    using c2 single(2) qs(2) by (simp add: candidate_loop.simps [of ?g new q _ "(Some p, dp)"])
  then have "candidate_loop ?g new q (de_k e) (None, new) (\<lambda>_. None) 0 = Some (Some ([p \<mapsto> 0], 1))"
    using c1 new(2) dp by (simp add: candidate_loop.simps [of ?g new q _ "(None, new)"])
  then have "check_blue_candidate ?g new q (de_k e) = Some (Some ([p \<mapsto> 0], 1))"
    using k1 by (simp add: check_blue_candidate_def new)
  then have col: "color_all ?g [q] new = Some (add_blue q 1 [p \<mapsto> 0] new)" by simp
  have "gd_mergeset_blues (add_blue q 1 [p \<mapsto> 0] new) = [p, q]" "gd_selected_parent (add_blue q 1 [p \<mapsto> 0] new) = p"
    by (simp_all add: add_blue_def new)
  then show ?thesis
    using sel pO ord col works dp
    by (simp add: ghostdag_def is_origin_def new_def finalize_score_and_work_def unit_work_def)
qed


subsection \<open>Off the chain: a panic\<close>

text \<open>Every parent but the selected one ends up in the merge set.\<close>

lemma scan_keeps: "scan_parents g sp xs (queue, ms, past) = Some (queue', ms', past') \<Longrightarrow> set ms \<subseteq> set ms'"
proof (induction xs arbitrary: queue ms past)
  case (Cons x xs)
  then show ?case by (fastforce simp: bind_eq_Some_conv split: if_splits)
qed simp

lemma mergeset_loop_keeps:
  assumes "mergeset_loop g sp st = Some r"
  shows "set (fst (snd st)) \<subseteq> set r"
  using assms
proof (induction rule: mergeset_loop.raw_induct [rotated, consumes 1])
  case (1 f g sp st r)
  obtain queue ms past where st: "st = (queue, ms, past)" by (cases st) auto
  show ?case
  proof (cases queue)
    case Nil
    then show ?thesis using 1(2) by (simp add: st)
  next
    case (Cons c rest)
    then obtain ps st' where "scan_parents g sp ps (rest, ms, past) = Some st'" "f g sp st' = Some r"
      using 1(2) by (auto simp: st bind_eq_Some_conv)
    moreover obtain q m a where "st' = (q, m, a)" by (cases st') auto
    ultimately show ?thesis using 1(1) scan_keeps by (fastforce simp: st)
  qed
qed

lemma sort_blocks_set: "sort_blocks g bs = Some xs \<Longrightarrow> set xs = set bs"
proof -
  have "map sb_hash ss = bs" if "those (map (sortable g) bs) = Some ss" for ss
    using that by (induction bs arbitrary: ss) (auto simp: sortable_def split: option.splits)
  then have "sb_hash ` set ss = set bs" if "those (map (sortable g) bs) = Some ss" for ss
    using that by (metis set_map)
  then show "sort_blocks g bs = Some xs \<Longrightarrow> set xs = set bs" by (auto simp: sort_blocks_def)
qed

lemma color_all_keeps:
  "color_all g cands new = Some new' \<Longrightarrow> gd_mergeset_blues new \<noteq> [] \<Longrightarrow>
   gd_selected_parent new' = gd_selected_parent new \<and> set cands \<union> set (unordered_mergeset new) \<subseteq> set (unordered_mergeset new')"
proof (induction cands arbitrary: new)
  case (Cons c cands)
  from Cons.prems(1) obtain v where v: "color_all g cands (case v of Some (sizes, n) \<Rightarrow> add_blue c n sizes new | None \<Rightarrow> add_red c new) = Some new'"
    by (auto simp: bind_eq_Some_conv)
  define new1 where "new1 = (case v of Some (sizes, n) \<Rightarrow> add_blue c n sizes new | None \<Rightarrow> add_red c new)"
  have "gd_mergeset_blues new1 \<noteq> []" "gd_selected_parent new1 = gd_selected_parent new"
    "set (unordered_mergeset new1) = insert c (set (unordered_mergeset new))"
    using Cons.prems(2) by (auto simp: new1_def add_blue_def add_red_def unordered_mergeset_def neq_Nil_conv split: option.splits)
  then show ?case using Cons.IH [of new1] v by (auto simp: new1_def)
qed simp

lemma ghostdag_merges_parents:
  assumes "ghostdag work g ps = Some d" "find_selected_parent g ps = Some sp" "sp \<noteq> ORIGIN"
  shows "gd_selected_parent d = sp \<and> set ps - {sp} \<subseteq> set (unordered_mergeset d)"
proof -
  from assms obtain xs new where run: "ordered_mergeset_without_selected_parent g sp ps = Some xs"
    "color_all g xs (new_with_selected_parent sp) = Some new"
    and d: "gd_selected_parent d = gd_selected_parent new" "unordered_mergeset d = unordered_mergeset new"
    by (auto simp: ghostdag_def is_origin_def bind_eq_Some_conv finalize_score_and_work_def unordered_mergeset_def split: if_splits)
  from run(1) obtain ms where ms: "unordered_mergeset_without_selected_parent g sp ps = Some ms" "sort_blocks g ms = Some xs"
    by (auto simp: ordered_mergeset_without_selected_parent_def bind_eq_Some_conv)
  have "set ps - {sp} \<subseteq> set ms"
    using ms(1) mergeset_loop_keeps [of g sp _ ms] by (fastforce simp: unordered_mergeset_without_selected_parent_def Let_def)
  moreover have "gd_selected_parent new = sp \<and> set xs \<subseteq> set (unordered_mergeset new)"
    using color_all_keeps [OF run(2)] by (auto simp: new_with_selected_parent_def ghostdag_data_new_def)
  ultimately show ?thesis using d sort_blocks_set [OF ms(2)] by auto
qed

text \<open>A covering set that already covers the new block refuses it.\<close>

lemma covered_refused:
  assumes ok: "tree_ok s r" "iv_ok s" "covers_ok s q" and ids: "q \<in> ids s" "n \<in> ids s"
    and h: "h \<in> set (covering s q)" "anc s h n"
  shows "insert_to_future_covering_set q n s = Some (Inl DataInconsistency, s)"
proof -
  note ord = in_order_covering [OF ok]
  from ok(1,2) ids(2) ord show ?thesis
  proof (cases rule: binary_search_descendant_cases)
    case (found i)
    then show ?thesis using ids(1) by (simp add: insert_to_future_covering_set_def)
  next
    case (not_found i)
    then show ?thesis using h by blast
  qed
qed

lemma insert_shape:
  assumes "insert_to_future_covering_set m n s = Some (Inr u, t)"
  shows "m \<in> ids s \<and> (\<exists>hs. t = put_covering s m hs)"
proof -
  obtain d where d: "ms_map s m = Some d"
    using assms by (cases "ms_map s m") (auto simp: insert_to_future_covering_set_def get_future_covering_set_def get_data_def)
  then have m: "m \<in> ids s" by (auto simp: ids_def)
  then have "get_future_covering_set s m = Inr (covering s m)" by simp
  then obtain i where "insert_future_covering_item m n i s = Inr t"
    using assms by (cases "binary_search_descendant s (covering s m) n")
      (auto simp: insert_to_future_covering_set_def rwrite_def split: search_output.splits sum.splits)
  then obtain hs where "t = put_data s m (d\<lparr>md_future_covering_set := hs\<rparr>)"
    using d by (auto simp: insert_future_covering_item_def get_data_def)
  then show ?thesis using m d by (auto simp: put_covering_def)
qed

lemma covered_fails:
  assumes "tree_ok s r" "iv_ok s" "covers_ok s q" "q \<in> ids s" "n \<in> ids s"
    and "h \<in> set (covering s q)" "anc s h n" "q \<in> set ms"
  shows "add_dag_block n ms s \<noteq> Some (Inr u, t)"
  using assms
proof (induction ms arbitrary: s)
  case (Cons m ms)
  show ?case
  proof
    assume "add_dag_block n (m # ms) s = Some (Inr u, t)"
    then obtain v s' where s': "insert_to_future_covering_set m n s = Some (Inr v, s')" "add_dag_block n ms s' = Some (Inr u, t)"
      unfolding add_dag_block_def rfor.simps by (rule rbind_Inr_E)
    have mq: "m \<noteq> q" using covered_refused [OF Cons.prems(1-7)] s'(1) by auto
    obtain hs where hs: "s' = put_covering s m hs" "m \<in> ids s" using insert_shape [OF s'(1)] by blast
    note v = put_covering_views [OF hs(2), of hs, folded hs(1)]
    have "tree_ok s' r" "iv_ok s'" "covers_ok s' q"
      using Cons.prems(1-3) mq by (simp_all add: tree_ok_def iv_ok_def covers_ok_def v)
    then have "add_dag_block n ms s' \<noteq> Some (Inr u, t)"
      using Cons.prems(4-8) mq by (intro Cons.IH) (auto simp: v)
    then show False using s'(2) by blast
  qed
qed simp


lemma unrelated_chain_refused:
  assumes e: "settled e" and small: "card (dom (de_gd e)) < index_limit" and b: "b \<notin> dom (de_gd e)" "b \<noteq> NONE"
    and ps: "set ps \<subseteq> dom (de_gd e)" "q \<in> set ps"
    and p: "find_selected_parent (manager_of e) ps = Some p" "p \<noteq> ORIGIN"
    and q: "dag_anc (de_relations e) q p" "\<not> chain_anc (de_gd e) q p"
  shows "engine_add_block fo b ps e = None"
proof (rule ccontr)
  let ?s = "de_reach e" let ?D = "dag_anc (de_relations e)"
  assume "engine_add_block fo b ps e \<noteq> None"
  then obtain d r u where d: "ghostdag unit_work (manager_of e) ps = Some d"
    and run: "reach_add_block fo b (gd_selected_parent d) (unordered_mergeset d) ?s = Some (Inr u, r)"
    by (auto simp: engine_add_block_def bind_eq_Some_conv unwrap_rm_def split: option.splits sum.splits)
  have sp: "gd_selected_parent d = p" and merged: "set ps - {p} \<subseteq> set (unordered_mergeset d)"
    using ghostdag_merges_parents [OF d p] by blast+
  have ge: "ghost_ok e" using e by (simp add: settled_def good_engine_def)
  have ids: "ids ?s = dom (de_gd e)" by (rule ghost_ids [OF ge])
  have I: "index_ok ?s ?D" using ge by (simp add: ghost_ok_def)
  have "ps \<noteq> []" "set ps \<subseteq> dom (gm_store (manager_of e))" using ps by auto
  then have "p \<in> set ps" using find_selected_parent_ok [of ps "manager_of e"] p(1) by (metis option.inject)
  then have pK: "p \<in> ids ?s" "q \<in> ids ?s" using ps ids by auto
  have chain: "\<not> anc ?s q p" using ge q(2) pK by (auto simp: ghost_ok_def)
  have "dag_ok ?s ?D" using I by (simp add: index_ok_def)
  then obtain h where h: "h \<in> set (covering ?s q)" "anc ?s h p" using dag_ok_iff [OF _ pK(2,1)] q(1) chain by blast
  obtain x s1 where s1: "add_tree_block fo b p DEFAULT_REINDEX_DEPTH DEFAULT_REINDEX_SLACK ?s = Some (Inr x, s1)"
    "add_dag_block b (unordered_mergeset d) s1 = Some (Inr u, r)"
    using run unfolding reach_add_block_def add_block_with_params_def option.case sp by (rule rbind_Inr_E)
  have "card (ids ?s) < index_limit" "b \<notin> ids ?s" using small b(1) ids by simp_all
  from index_tree_step [OF I this b(2) pK(1), of fo] s1(1) have
    t: "tree_ok s1 ORIGIN" "iv_ok s1" "dag_ok s1 (dag_extend ?D b p {})" "ids s1 = insert b (ids ?s)"
      "covering s1 = covering ?s" "\<And>a c. anc s1 a c \<longleftrightarrow> anc ?s a c \<or> c = b \<and> anc ?s a p" by auto
  have "covers_ok s1 q" using t(3,4) pK(2) by (simp add: dag_ok_def)
  moreover have "q \<in> set (unordered_mergeset d)" using merged ps(2) q(2) by auto
  ultimately show False
    using covered_fails [OF t(1,2), of q b h "unordered_mergeset d" u r] s1(2) h pK(2) by (simp add: t)
qed

end
