(* ===== verification/GhostProps.thy ===== *)
theory GhostProps
  imports GhostParents
begin

text \<open>
  The properties of the GHOSTDAG engine over its runs, with a small concrete run (genesis, two siblings
  in either order, a merge block) at which they are applied.
\<close>

subsection \<open>A small run\<close>

lemma run_extend:
  assumes "engine_run fo k g e" "g \<noteq> ORIGIN" "k < - 1" "card (dom (de_gd e)) < index_limit" "attaches e b ps"
  shows "\<exists>e' d. engine_add_block fo b ps e = Some (d, e') \<and> engine_run fo k g e' \<and> grows e b ps d e'
    \<and> merges (manager_of e) ps d"
proof -
  have ok: "ghost_ok e" using engine_run_ok [OF assms(1-3)] by blast
  then show ?thesis
    using ghost_step [OF ok _ assms(5), of fo] engine_run.add [OF assms(1,4,5)] assms(4) ghost_ids [OF ok] by fastforce
qed

lemma small_ids: "(1 :: blk) \<noteq> ORIGIN" "(2 :: blk) \<noteq> ORIGIN" "(3 :: blk) \<noteq> ORIGIN" "(4 :: blk) \<noteq> ORIGIN" "(5 :: blk) \<noteq> ORIGIN"
  "(1 :: blk) \<noteq> NONE" "(2 :: blk) \<noteq> NONE" "(3 :: blk) \<noteq> NONE" "(4 :: blk) \<noteq> NONE" "(5 :: blk) \<noteq> NONE"
  by (simp_all add: ORIGIN_def NONE_def)

definition pair_run :: "blk \<Rightarrow> blk \<Rightarrow> dag_engine \<Rightarrow> bool" where
  "pair_run b c e \<longleftrightarrow> dom (de_gd e) = {ORIGIN, 1, b, c} \<and> de_relations e = [1 \<mapsto> [ORIGIN], b \<mapsto> [1], c \<mapsto> [1]] \<and> de_genesis e = 1"

lemma genesis_run:
  "\<exists>e. engine_run fo 3 1 e \<and> dom (de_gd e) = {ORIGIN, 1} \<and> de_relations e = [1 \<mapsto> [ORIGIN]] \<and> de_genesis e = 1"
proof -
  obtain e where e: "engine_new 3 1 = Some e" by (simp add: engine_new_eq)
  then have v: "dom (de_gd e) = {ORIGIN}" "de_relations e = (\<lambda>_. None)" "de_genesis e = 1" by (auto simp: engine_new_eq split: if_splits)
  have "attaches e 1 [ORIGIN]" using small_ids by (simp add: attaches_def v)
  from run_extend [OF engine_run.start [OF e] _ _ _ this, of fo] obtain e' d where
    "engine_run fo 3 1 e'" "grows e 1 [ORIGIN] d e'" using v small_ids by (auto simp: index_limit_def)
  moreover from this(2) have "dom (de_gd e') = {ORIGIN, 1}" "de_relations e' = [1 \<mapsto> [ORIGIN]]" "de_genesis e' = 1"
    using v by (auto simp: grows_def)
  ultimately show ?thesis by blast
qed

lemma sibling_run:
  assumes e: "engine_run fo 3 1 e" "de_genesis e = 1" and b: "b \<notin> dom (de_gd e)" "b \<noteq> NONE" "b \<noteq> 1"
    and one: "1 \<in> dom (de_gd e)" and small: "card (dom (de_gd e)) < index_limit"
  shows "\<exists>e'. engine_run fo 3 1 e' \<and> dom (de_gd e') = insert b (dom (de_gd e))
    \<and> de_relations e' = (de_relations e)(b \<mapsto> [1]) \<and> de_genesis e' = 1"
proof -
  have "attaches e b [1]" using b one small_ids e(2) by (simp add: attaches_def antichain_def)
  from run_extend [OF e(1) _ _ small this] show ?thesis using small_ids e(2) by (auto simp: grows_def)
qed

lemma pair_run:
  assumes "b \<noteq> c" "b \<notin> {ORIGIN, NONE, 1}" "c \<notin> {ORIGIN, NONE, 1}"
  shows "\<exists>e. engine_run fo 3 1 e \<and> pair_run b c e"
proof -
  obtain e where e: "engine_run fo 3 1 e" "dom (de_gd e) = {ORIGIN, 1}" "de_relations e = [1 \<mapsto> [ORIGIN]]" "de_genesis e = 1"
    using genesis_run by blast
  obtain e1 where e1: "engine_run fo 3 1 e1" "dom (de_gd e1) = {b, ORIGIN, 1}"
    "de_relations e1 = [1 \<mapsto> [ORIGIN], b \<mapsto> [1]]" "de_genesis e1 = 1"
    using sibling_run [OF e(1,4), of b] assms e(2,3) small_ids by (auto simp: index_limit_def card_insert_if)
  have "card {b, ORIGIN, 1} < index_limit" using assms by (simp add: index_limit_def card_insert_if)
  then show ?thesis
    using sibling_run [OF e1(1,4), of c] assms e1(2,3) by (auto simp: pair_run_def insert_commute)
qed

text \<open>The merge block on the two siblings, and the sibling it does not select.\<close>

lemma merge_run:
  "\<exists>e p q. engine_run fo 3 1 e \<and> dom (de_gd e) = {ORIGIN, 1, 2, 3, 4} \<and> {p, q} = {2, 3}
    \<and> de_relations e = [1 \<mapsto> [ORIGIN], 2 \<mapsto> [1], 3 \<mapsto> [1], 4 \<mapsto> [2, 3]] \<and> \<not> chain_anc (de_gd e) q 4"
proof -
  have "\<exists>e. engine_run fo 3 1 e \<and> pair_run 2 3 e" by (rule pair_run) (simp_all add: small_ids)
  then obtain e where e: "engine_run fo 3 1 e" "pair_run 2 3 e" by blast
  then have v: "dom (de_gd e) = {ORIGIN, 1, 2, 3}" "de_relations e = [1 \<mapsto> [ORIGIN], 2 \<mapsto> [1], 3 \<mapsto> [1]]" "de_genesis e = 1"
    by (simp_all add: pair_run_def)
  have e_ok: "settled e" using run_settled [OF e(1)] small_ids by simp
  have apart: "\<not> dag_anc (de_relations e) 2 3" "\<not> dag_anc (de_relations e) 3 2"
  proof -
    have ge: "good_engine e" using e_ok by (simp add: settled_def)
    have bottom: "dag_anc (de_relations e) x ORIGIN \<longleftrightarrow> x = ORIGIN" for x using origin_bottom [OF ge] by auto
    have "dag_anc (de_relations e) x 1 \<longleftrightarrow> x = 1 \<or> x = ORIGIN" for x
      using bottom v(2) dag_anc_iff [of "de_relations e" x 1] by simp
    then show "\<not> dag_anc (de_relations e) 2 3" "\<not> dag_anc (de_relations e) 3 2"
      using v(2) small_ids dag_anc_iff [of "de_relations e" 2 3] dag_anc_iff [of "de_relations e" 3 2] by simp_all
  qed
  then have at: "attaches e 4 [2, 3]" using v small_ids by (simp add: attaches_def antichain_def)
  have "card (dom (de_gd e)) < index_limit" using small_ids by (simp add: v index_limit_def card_insert_if)
  from run_extend [OF e(1) _ _ this at] small_ids obtain e' d where
    e': "engine_run fo 3 1 e'" "grows e 4 [2, 3] d e'" "merges (manager_of e) [2, 3] d" by auto
  define p where "p = gd_selected_parent d"
  define q where "q = (if p = 2 then 3 else 2 :: blk)"
  have pq: "{p, q} = {2, 3}" "p \<noteq> q" using e'(3) by (auto simp: merges_def p_def q_def)
  have gd: "de_gd e' = (de_gd e)(4 \<mapsto> d)" using e'(2) by (simp add: grows_def)
  have s': "settled e'" using run_settled [OF e'(1)] small_ids by simp
  have parents: "gd_selected_parent dc = 1" if "de_gd e' c = Some dc" "c = 2 \<or> c = 3" for c dc
    using single_parent(2) [OF e_ok, of c 1 dc] that v(2) small_ids by (auto simp: gd split: if_splits)
  have "\<not> chain_anc (de_gd e') q 4"
  proof
    assume "chain_anc (de_gd e') q 4"
    moreover have "q \<noteq> 4" using pq(1) by (auto simp: doubleton_eq_iff)
    ultimately have "chain_anc (de_gd e') q p" using gd by (cases rule: chain_anc_cases) (auto simp: p_def)
    then have "chain_anc (de_gd e') q 1"
      using pq parents by (cases rule: chain_anc_cases) (auto simp: doubleton_eq_iff)
    moreover have "coloured (manager_of e') (dom (de_gd e'))"
      by (rule good_coloured) (use s' in \<open>simp add: settled_def\<close>)
    moreover have "de_genesis e' = 1" using e'(2) v(3) by (simp add: grows_def)
    ultimately have "q = 1 \<or> q = ORIGIN" using chain_bottom [of "manager_of e'" _ q 1] by simp
    then show False using pq small_ids by (auto simp: doubleton_eq_iff)
  qed
  then show ?thesis using e' v pq(1) small_ids by (intro exI [of _ e'] exI [of _ p] exI [of _ q]) (auto simp: grows_def)
qed


subsection \<open>The index and the engine\<close>

text \<open>Property C18. The GHOSTDAG engine accepts every well-formed block.  After any run of such blocks, with fewer
  than 2^24 blocks, adding a new block whose parents are known and pairwise unrelated (genesis on ORIGIN) returns: no
  unwrap of the stores, no assertion of the colouring, no update of the index fails, and every loop ends.
  The selected parent is one of the parents, and the merge set is exactly what the other parents add to
  its past, each block once.\<close>

theorem engine_accepts:
  assumes "engine_run fo k g e" "g \<noteq> ORIGIN" "k < - 1" and "card (dom (de_gd e)) < index_limit" "attaches e b ps"
  shows "\<exists>d e'. engine_add_block fo b ps e = Some (d, e') \<and> de_gd e' b = Some d \<and> gd_selected_parent d \<in> set ps
    \<and> distinct (unordered_mergeset d)
    \<and> set (unordered_mergeset d) = {x. (\<exists>p \<in> set ps. dag_anc (de_relations e) x p)
        \<and> \<not> dag_anc (de_relations e) x (gd_selected_parent d)}"
  using run_extend [OF assms] by (auto simp: grows_def merges_def merged_def)

theorem engine_accepts_witness:
  "\<forall>fo :: unit f64_ops. \<exists>d e'. engine_add_block fo 1 [ORIGIN] (the (engine_new 3 1)) = Some (d, e') \<and> de_gd e' 1 = Some d"
proof
  fix fo :: "unit f64_ops"
  obtain e where e: "engine_new 3 1 = Some e" by (simp add: engine_new_eq)
  then have v: "dom (de_gd e) = {ORIGIN}" "de_genesis e = 1" by (auto simp: engine_new_eq split: if_splits)
  have "attaches e 1 [ORIGIN]" using small_ids by (simp add: attaches_def v)
  from engine_accepts [OF engine_run.start [OF e] _ _ _ this, of fo]
  show "\<exists>d e'. engine_add_block fo 1 [ORIGIN] (the (engine_new 3 1)) = Some (d, e') \<and> de_gd e' 1 = Some d"
    using small_ids v e by (auto simp: index_limit_def)
qed

text \<open>Property C16. The engine answers ancestry.  After any run, each block having known and pairwise unrelated
  parents and fewer than 2^24 blocks before it, \<open>is_dag_ancestor_of\<close> returns for every two
  known blocks, and its answer is reachability in the graph of the recorded parents: the interval labels,
  their reindexing, the merge sets and the covering sets together implement the transitive closure of the
  relations.\<close>

theorem engine_answers_ancestry:
  assumes "engine_run fo k g e" "g \<noteq> ORIGIN" "k < - 1" and "a \<in> dom (de_gd e)" "b \<in> dom (de_gd e)"
  shows "engine_is_dag_ancestor_of e a b = Some (dag_anc (de_relations e) a b)"
proof -
  have "settled e" using run_settled [OF assms(1-3)] by blast
  from settled_query [OF this assms(4,5)] show ?thesis by (simp add: engine_is_dag_ancestor_of_def dag_anc_query_def)
qed

theorem engine_answers_ancestry_witness:
  "\<forall>fo :: unit f64_ops. \<exists>e. engine_run fo 3 1 e \<and> engine_is_dag_ancestor_of e 1 2 = Some True"
proof
  fix fo :: "unit f64_ops"
  obtain e where e: "engine_run fo 3 1 e" "pair_run 2 3 e" using pair_run [of 2 3 fo] small_ids by auto
  have "dag_anc (de_relations e) 1 2" by (rule dag_anc_parent [where ps = "[1]"]) (use e(2) in \<open>simp_all add: pair_run_def\<close>)
  then have "engine_is_dag_ancestor_of e 1 2 = Some True"
    using engine_answers_ancestry [OF e(1), of 1 2] e(2) small_ids by (simp add: pair_run_def)
  then show "\<exists>e. engine_run fo 3 1 e \<and> engine_is_dag_ancestor_of e 1 2 = Some True" using e(1) by blast
qed

text \<open>Property C17. The total order linearises the past of the heaviest block.  After any run that added
  genesis, and in which every block was added with known, pairwise unrelated parents and with fewer than 2^24
  blocks before it, \<open>total_order\<close> returns; it lists every ancestor of the tip and the tip itself exactly once
  (ORIGIN apart), no block before one of its ancestors, and no known block has more blue work than the tip.
  The condition on the parents is needed: the engine also takes a parent list with a block and its own
  parent, and merges that parent a second time.\<close>

theorem engine_order_correct:
  assumes "engine_run fo k g e" "g \<noteq> ORIGIN" "k < - 1" and "g \<in> dom (de_gd e)"
  shows "\<exists>xs. total_order e = Some xs \<and> distinct xs
    \<and> set xs = {x. x \<noteq> ORIGIN \<and> dag_anc (de_relations e) x (de_tip e)}
    \<and> sorted_wrt (\<lambda>x y. \<not> dag_anc (de_relations e) y x) xs
    \<and> (\<forall>b \<in> dom (de_gd e) - {ORIGIN}. work_of e b \<le> work_of e (de_tip e))"
proof -
  have s: "settled e" "de_genesis e = g" using run_settled [OF assms(1-3)] by blast+
  then have ge: "good_engine e" by (simp add: settled_def)
  have tip: "de_tip e \<in> dom (de_gd e)" using good_tip(1) [OF ge] s(2) assms(4) by blast
  have "work_of e b \<le> work_of e (de_tip e)" if "b \<in> dom (de_gd e) - {ORIGIN}" for b
    using s(1) that tip by (intro work_of_le) (auto simp: settled_def)
  then show ?thesis using engine_order [OF ge] s(2) assms(4) by (auto simp: linearises_def)
qed

theorem engine_order_correct_witness:
  "\<forall>fo :: unit f64_ops. \<exists>e xs. engine_run fo 3 1 e \<and> total_order e = Some xs \<and> distinct xs \<and> de_tip e \<in> set xs"
proof
  fix fo :: "unit f64_ops"
  obtain e where e: "engine_run fo 3 1 e" "dom (de_gd e) = {ORIGIN, 1}" "de_genesis e = 1" using genesis_run by blast
  have "good_engine e" using run_settled [OF e(1)] small_ids by (simp add: settled_def)
  then have "de_tip e \<noteq> ORIGIN" using good_tip(1) [of e] e(2,3) by auto
  moreover have "1 \<in> dom (de_gd e)" by (simp add: e(2))
  with engine_order_correct [OF e(1)] small_ids obtain xs where "total_order e = Some xs" "distinct xs"
    "set xs = {x. x \<noteq> ORIGIN \<and> dag_anc (de_relations e) x (de_tip e)}" by auto
  ultimately have "engine_run fo 3 1 e \<and> total_order e = Some xs \<and> distinct xs \<and> de_tip e \<in> set xs" using e(1) by simp
  then show "\<exists>e xs. engine_run fo 3 1 e \<and> total_order e = Some xs \<and> distinct xs \<and> de_tip e \<in> set xs" by blast
qed


subsection \<open>Agreement between nodes\<close>

text \<open>The GHOSTDAG data of a block is a function of its past.  Two nodes with the same genesis
  and k, each after a run of its own - other blocks, another order of arrival, differently labelled
  indices, even different floating-point arithmetic - hold the same data (selected parent, blues, reds,
  anticone sizes, blue score and work) for every block both know over the same past.\<close>

theorem same_past_same_data:
  assumes "engine_run fo k g e" "engine_run fo' k g e'" "g \<noteq> ORIGIN" "k < - 1"
    and "b \<in> dom (de_gd e)" "b \<in> dom (de_gd e')"
    and "\<And>x. dag_anc (de_relations e) x b \<Longrightarrow> de_relations e' x = de_relations e x"
  shows "engine_data e' b = engine_data e b"
  using same_data [of e e' b] run_settled [OF assms(1,3,4)] run_settled [OF assms(2-4)] assms(5-)
  by (simp add: engine_data_def)

theorem same_past_same_data_witness:
  "\<forall>fo :: unit f64_ops. \<exists>e e'. engine_run fo 3 1 e \<and> engine_run fo 3 1 e' \<and> 3 \<notin> dom (de_gd e) \<and> 2 \<notin> dom (de_gd e')
    \<and> engine_data e' 4 = engine_data e 4 \<and> 4 \<in> dom (de_gd e)"
proof
  fix fo :: "unit f64_ops"
  have "(4 :: blk) \<noteq> 2" "(4 :: blk) \<noteq> 3" by simp_all
  then obtain e e' where e: "engine_run fo 3 1 e" "pair_run 2 4 e" "engine_run fo 3 1 e'" "pair_run 3 4 e'"
    using pair_run [of 2 4 fo] pair_run [of 3 4 fo] small_ids by auto
  then have v: "dom (de_gd e) = {ORIGIN, 1, 2, 4}" "de_relations e = [1 \<mapsto> [ORIGIN], 2 \<mapsto> [1], 4 \<mapsto> [1]]"
    "dom (de_gd e') = {ORIGIN, 1, 3, 4}" "de_relations e' = [1 \<mapsto> [ORIGIN], 3 \<mapsto> [1], 4 \<mapsto> [1]]"
    by (simp_all add: pair_run_def)
  have "dag_anc (de_relations e) x ORIGIN \<longleftrightarrow> x = ORIGIN" for x
    using dag_anc_iff [of "de_relations e" x ORIGIN] v(2) small_ids by simp
  then have "dag_anc (de_relations e) x 4 \<longleftrightarrow> x = 4 \<or> x = 1 \<or> x = ORIGIN" for x
    using dag_anc_iff [of "de_relations e" x 4] dag_anc_iff [of "de_relations e" x 1] v(2) by simp
  then have "de_relations e' x = de_relations e x" if "dag_anc (de_relations e) x 4" for x
    using that v(2,4) small_ids by auto
  then have "engine_data e' 4 = engine_data e 4"
    using same_past_same_data [OF e(1,3), of 4] small_ids v(1,3) by simp
  then show "\<exists>e e'. engine_run fo 3 1 e \<and> engine_run fo 3 1 e' \<and> 3 \<notin> dom (de_gd e) \<and> 2 \<notin> dom (de_gd e')
    \<and> engine_data e' 4 = engine_data e 4 \<and> 4 \<in> dom (de_gd e)"
    using e v(1,3) small_ids by (intro exI [of _ e] exI [of _ e']) simp
qed

text \<open>Property C15. Nodes that hold the same blocks agree, whatever order the blocks arrived in: the same
  GHOSTDAG data for every block, the same tip, and the same total order.  The nodes are after runs in which
  every block was added with known, pairwise unrelated parents and with fewer than 2^24 blocks before it.\<close>

theorem same_blocks_same_order:
  assumes "engine_run fo k g e" "engine_run fo' k g e'" "g \<noteq> ORIGIN" "k < - 1" and "de_relations e' = de_relations e"
  shows "de_gd e' = de_gd e \<and> de_tip e' = de_tip e \<and> total_order e' = total_order e"
proof -
  have "settled e" "settled e'" "de_genesis e' = de_genesis e" "de_k e' = de_k e"
    using run_settled [OF assms(1,3,4)] run_settled [OF assms(2-4)] by simp_all
  with same_engines [OF this assms(5)] show ?thesis using total_order_same [of e' e] by simp
qed

theorem same_blocks_same_order_witness:
  "\<forall>fo :: unit f64_ops. \<exists>e e'. engine_run fo 3 1 e \<and> engine_run fo 3 1 e' \<and> 2 \<in> dom (de_gd e) \<and> 3 \<in> dom (de_gd e)
    \<and> de_gd e' = de_gd e \<and> de_tip e' = de_tip e \<and> total_order e' = total_order e"
proof
  fix fo :: "unit f64_ops"
  obtain e e' where e: "engine_run fo 3 1 e" "pair_run 2 3 e" "engine_run fo 3 1 e'" "pair_run 3 2 e'"
    using pair_run [of 2 3 fo] pair_run [of 3 2 fo] small_ids by auto
  have "de_relations e' = de_relations e" using e(2,4) by (auto simp: pair_run_def fun_eq_iff)
  from same_blocks_same_order [OF e(1,3) _ _ this] show "\<exists>e e'. engine_run fo 3 1 e \<and> engine_run fo 3 1 e'
    \<and> 2 \<in> dom (de_gd e) \<and> 3 \<in> dom (de_gd e) \<and> de_gd e' = de_gd e \<and> de_tip e' = de_tip e \<and> total_order e' = total_order e"
    using e(1,2,3) small_ids by (intro exI [of _ e] exI [of _ e']) (simp add: pair_run_def)
qed

subsection \<open>Parents that are ancestors of one another\<close>

text \<open>Property C36. A redundant parent on the selected chain inflates the blue work, for k at least 1.  For a
  block p with the single parent q, not ORIGIN, listing q beside p as a parent merges q again as a blue block:
  the past of the parents p, q is the past of p, but the data computed for p, q has the blues p and q where
  the data for p alone has the blue p only, and one more unit of blue work.\<close>

theorem redundant_parent_inflates_work:
  assumes "engine_run fo k g e" "g \<noteq> ORIGIN" "k < - 1" "1 \<le> k" and "de_relations e p = Some [q]" "q \<noteq> ORIGIN"
  shows "{x. \<exists>r \<in> {p, q}. dag_anc (de_relations e) x r} = {x. dag_anc (de_relations e) x p}
    \<and> (\<exists>d d'. ghostdag unit_work (manager_of e) [p] = Some d \<and> ghostdag unit_work (manager_of e) [p, q] = Some d'
      \<and> gd_selected_parent d = p \<and> gd_selected_parent d' = p
      \<and> gd_mergeset_blues d = [p] \<and> gd_mergeset_blues d' = [p, q] \<and> gd_blue_work d' = gd_blue_work d + 1)"
proof
  have "dag_anc (de_relations e) x p" if "dag_anc (de_relations e) x q" for x
    by (rule dag_anc_step [where rel = "de_relations e" and p = q and ps = "[q]"]) (use that assms(5) in simp_all)
  then show "{x. \<exists>r \<in> {p, q}. dag_anc (de_relations e) x r} = {x. dag_anc (de_relations e) x p}" by auto
  have s: "settled e" "de_k e = k" using run_settled [OF assms(1-3)] by blast+
  then have ge: "good_engine e" by (simp add: settled_def)
  have p: "p \<in> dom (de_gd e)" "p \<noteq> ORIGIN" using relations_data [OF ge assms(5)] by auto
  from ghost_single [OF s(1) p] ghost_doubled [OF s(1) _ _ assms(5,6)] s(2) assms(3,4)
  show "\<exists>d d'. ghostdag unit_work (manager_of e) [p] = Some d \<and> ghostdag unit_work (manager_of e) [p, q] = Some d'
      \<and> gd_selected_parent d = p \<and> gd_selected_parent d' = p
      \<and> gd_mergeset_blues d = [p] \<and> gd_mergeset_blues d' = [p, q] \<and> gd_blue_work d' = gd_blue_work d + 1" by auto
qed

theorem redundant_parent_inflates_work_witness:
  "\<forall>fo :: unit f64_ops. \<exists>e d d'. engine_run fo 3 1 e \<and> ghostdag unit_work (manager_of e) [2] = Some d
    \<and> ghostdag unit_work (manager_of e) [2, 1] = Some d' \<and> gd_mergeset_blues d = [2] \<and> gd_mergeset_blues d' = [2, 1]
    \<and> gd_blue_work d' = gd_blue_work d + 1
    \<and> {x. \<exists>r \<in> {2, 1}. dag_anc (de_relations e) x r} = {x. dag_anc (de_relations e) x 2}"
proof
  fix fo :: "unit f64_ops"
  obtain e where e: "engine_run fo 3 1 e" "pair_run 2 3 e" using pair_run [of 2 3 fo] small_ids by auto
  then have "de_relations e 2 = Some [1]" by (simp add: pair_run_def)
  note both = redundant_parent_inflates_work [OF e(1) _ _ _ this]
  have "\<exists>d d'. ghostdag unit_work (manager_of e) [2] = Some d
      \<and> ghostdag unit_work (manager_of e) [2, 1] = Some d' \<and> gd_mergeset_blues d = [2] \<and> gd_mergeset_blues d' = [2, 1]
      \<and> gd_blue_work d' = gd_blue_work d + 1"
    using both small_ids by auto
  moreover have "{x. \<exists>r \<in> {2, 1}. dag_anc (de_relations e) x r} = {x. dag_anc (de_relations e) x 2}"
    using both small_ids by simp
  ultimately show "\<exists>e d d'. engine_run fo 3 1 e \<and> ghostdag unit_work (manager_of e) [2] = Some d
    \<and> ghostdag unit_work (manager_of e) [2, 1] = Some d' \<and> gd_mergeset_blues d = [2] \<and> gd_mergeset_blues d' = [2, 1]
    \<and> gd_blue_work d' = gd_blue_work d + 1
    \<and> {x. \<exists>r \<in> {2, 1}. dag_anc (de_relations e) x r} = {x. dag_anc (de_relations e) x 2}" using e(1) by blast
qed

text \<open>Property C35. A redundant parent off the selected chain crashes the engine.  If one of the known parents
  of a new block is an ancestor of the selected parent without being on its selected chain, the covering
  set of that parent already covers the new block, its update reports an inconsistency, and
  \<open>add_block\<close> panics on the unwrap: the error of the index is never returned to the caller.\<close>

theorem redundant_parent_panics:
  assumes "engine_run fo k g e" "g \<noteq> ORIGIN" "k < - 1" "card (dom (de_gd e)) < index_limit"
    and "b \<notin> dom (de_gd e)" "b \<noteq> NONE" "set ps \<subseteq> dom (de_gd e)" "q \<in> set ps"
    and "find_selected_parent (manager_of e) ps = Some p" "p \<noteq> ORIGIN"
    and "dag_anc (de_relations e) q p" "\<not> chain_anc (de_gd e) q p"
  shows "engine_add_block fo b ps e = None"
  using run_settled [OF assms(1-3)] by (intro unrelated_chain_refused [OF _ assms(4-)]) blast

theorem redundant_parent_panics_witness:
  "\<forall>fo :: unit f64_ops. \<exists>e q. engine_run fo 3 1 e \<and> q \<in> {2, 3} \<and> engine_add_block fo 5 [4, q] e = None"
proof
  fix fo :: "unit f64_ops"
  obtain e p q where e: "engine_run fo 3 1 e" "dom (de_gd e) = {ORIGIN, 1, 2, 3, 4}" "{p, q} = {2, 3}"
    "de_relations e = [1 \<mapsto> [ORIGIN], 2 \<mapsto> [1], 3 \<mapsto> [1], 4 \<mapsto> [2, 3]]" "\<not> chain_anc (de_gd e) q 4"
    using merge_run by blast
  have q: "q = 2 \<or> q = 3" using e(3) by auto
  have "good_engine e" using run_settled [OF e(1)] small_ids by (simp add: settled_def)
  moreover have up: "dag_anc (de_relations e) q 4"
    by (rule dag_anc_parent [where ps = "[2, 3]"]) (use q in \<open>auto simp: e(4)\<close>)
  ultimately have "work_of e q < work_of e 4" using work_less [of e q 4] q small_ids by auto
  moreover have K: "q \<in> dom (de_gd e)" "4 \<in> dom (de_gd e)" using q by (auto simp: e(2))
  ultimately have "the_sortable (manager_of e) q < the_sortable (manager_of e) 4" by (rule work_sortable_less)
  moreover obtain sp where "find_selected_parent (manager_of e) [4, q] = Some sp" "sp \<in> {4, q}"
    "the_sortable (manager_of e) 4 \<le> the_sortable (manager_of e) sp"
    using find_selected_parent_ok [of "[4, q]" "manager_of e"] K by auto
  ultimately have sp: "find_selected_parent (manager_of e) [4, q] = Some 4" by auto
  have "card (dom (de_gd e)) < index_limit" using small_ids by (simp add: e(2) index_limit_def card_insert_if)
  moreover have "5 \<notin> dom (de_gd e)" using small_ids by (simp add: e(2))
  ultimately have "engine_add_block fo 5 [4, q] e = None"
    using redundant_parent_panics [OF e(1) _ _ _ _ _ _ _ sp _ up e(5), of 5] K small_ids by simp
  then show "\<exists>e q. engine_run fo 3 1 e \<and> q \<in> {2, 3} \<and> engine_add_block fo 5 [4, q] e = None" using e(1) q by blast
qed

end
