(* ===== verification/DagCrash.thy ===== *)
theory DagCrash
  imports DagReplay GhostProps
begin

text \<open>
  A block the engine panics on is in the log before the panic.  Acceptance checks the parents of a block
  for existence and duplicates only, and appends the record before the engine sees the block; so a
  valid block with a redundant parent off the selected chain stops the node, and every later opening
  of its log stops at the same record.
\<close>

lemma remap_known:
  assumes "set ps \<subseteq> known" "distinct ps" "ps \<noteq> []"
  shows "remap_parents origin known ps = ps"
proof -
  have "dedup seen xs = xs" if "distinct xs" "set xs \<inter> seen = {}" for seen and xs :: "bytes32 list"
    using that by (induction xs arbitrary: seen) auto
  moreover have "map (\<lambda>p. if p = origin \<or> p \<in> known then p else origin) ps = ps"
    using assms(1) by (intro map_idI) auto
  ultimately show ?thesis using assms(2,3) by (simp add: remap_parents_def)
qed

lemma panic_in_log:
  assumes codec: "record_codec ev" and c: "dag_runs ev op c" and b: "bid ev b \<notin> dc_blocks c" "valid_block ev now c b"
    and rec: "ev_ser_record ev (RecBlock b) = Inr rec" "length rec < 2 ^ 32"
    and panic: "engine_add_block (ev_floats ev) (bid ev b) (dh_parents (db_header b)) (dc_engine c) = None"
  shows "accept ev now b c = None \<and> open_with_genesis ev op (dc_log c @ log_record rec) = None"
proof -
  let ?h = "db_header b"
  obtain sp where v: "validate_block_intrinsic ev now b = Inr ()" "set (dh_parents ?h) \<subseteq> dc_blocks c"
    "selected_parent_dag c (dh_parents ?h) = Some sp" "selected_chain_target c sp = Some (dh_target ?h)"
    "\<not> regresses c sp ?h" "dh_interlink ?h = interlink_for_parent c sp"
    using b(2) by (auto simp: valid_block_def)
  have "dh_parents ?h \<noteq> []" "distinct (dh_parents ?h)" using v(1) by (auto simp: validate_Inr Let_def)
  then have remap: "remap_parents g (dc_blocks c) (dh_parents ?h) = dh_parents ?h" for g using remap_known v(2) by blast
  have crash: "dag_apply ev b c' = None"
    if "dc_blocks c' = dc_blocks c" "dc_engine c' = dc_engine c" for c' :: "('a, 'b, 'c, 'd) dag_chain"
    using b(1) panic remap that by (simp add: dag_apply_def apply_with_id_def)
  have log: "log_block ev b c = Some (Inr (), c\<lparr>dc_log := dc_log c @ log_record rec\<rparr>)"
    using rec by (simp add: log_block_def rwrite_def log_append_def log_record_def)
  have refused: "accept ev now b c = None"
    using b(1) v crash [of "c\<lparr>dc_log := dc_log c @ log_record rec\<rparr>"]
    by (simp add: accept_def Let_def rbind_Some(1) [where m = "log_block ev b", OF log])
  obtain c0 ps where ps: "chain_init ev op [] = Some c0" "dc_log c = log_of ps"
    "\<forall>p \<in> set ps. length p < 2 ^ 32" "rfor ps (replay_record ev) c0 = Some (Inr (), volatile [] c)"
    using runs_logged [OF codec c] by (auto simp: logged_def)
  have "log_read_all (log_of (ps @ [rec]) @ []) = Inr (ps @ [rec])"
    using ps(3) rec(2) by (subst log_read_of) (simp_all add: log_read_short)
  then have read: "log_read_all (dc_log c @ log_record rec) = Inr (ps @ [rec])" by (simp add: ps(2) log_of_def)
  define L where "L = dc_log c @ log_record rec"
  have init: "chain_init ev op L = Some (volatile L c0)"
  proof -
    have "chain_init ev op L = Some (c0\<lparr>dc_log := L\<rparr>)" using ps(1) by (subst chain_init_log) simp
    with chain_init_volatile [OF this] show ?thesis by (simp add: volatile_def)
  qed
  have "commutes (volatile L) (rfor ps (replay_record ev))" by (intro commutes_rfor commutes_replay)
  from commutes_run [OF this ps(4)] have "rfor ps (replay_record ev) (volatile L c0) = Some (Inr (), volatile L (volatile [] c))" .
  moreover have "replay_record ev rec (volatile L (volatile [] c)) = None"
    using codec rec(1) crash by (simp add: replay_record_def record_codec_def volatile_def)
  ultimately have "rfor (ps @ [rec]) (replay_record ev) (volatile L c0) = None" by (simp add: rfor_append rbind_def)
  then have "open_with_genesis ev op L = None" using init read by (simp add: open_with_genesis_def L_def)
  then show ?thesis using refused by (simp add: L_def)
qed

lemma redundant_parent_bricks_node:
  assumes "record_codec ev" "dag_runs ev op c" and "bid ev b \<notin> dc_blocks c" "valid_block ev now c b"
    and "ev_ser_record ev (RecBlock b) = Inr rec" "length rec < 2 ^ 32"
    and run: "engine_run (ev_floats ev) k g (dc_engine c)" "g \<noteq> ORIGIN" "k < - 1"
      "card (dom (de_gd (dc_engine c))) < index_limit"
    and new: "bid ev b \<notin> dom (de_gd (dc_engine c))" "bid ev b \<noteq> NONE"
      "set (dh_parents (db_header b)) \<subseteq> dom (de_gd (dc_engine c))"
    and q: "q \<in> set (dh_parents (db_header b))" "p \<noteq> ORIGIN"
      "find_selected_parent (manager_of (dc_engine c)) (dh_parents (db_header b)) = Some p"
      "dag_anc (de_relations (dc_engine c)) q p" "\<not> chain_anc (de_gd (dc_engine c)) q p"
  shows "accept ev now b c = None \<and> open_with_genesis ev op (dc_log c @ log_record rec) = None"
proof (rule panic_in_log [OF assms(1-6)])
  have "settled (dc_engine c)" using run_settled [OF run(1-3)] by blast
  then show "engine_add_block (ev_floats ev) (bid ev b) (dh_parents (db_header b)) (dc_engine c) = None"
    by (rule unrelated_chain_refused [OF _ run(4) new q(1,3,2,4,5)])
qed

end
