(* ===== verification/DagLean.thy ===== *)
theory DagLean
  imports DagTips DagCrash
begin

text \<open>
  The DAG chain over its GHOSTDAG engine.  In a run where no block taken from a peer lists a parent that is an
  ancestor of another (a lean run), the engine inside the chain is in a run of its own over exactly the
  blocks of the chain: mining and accepting never panic in it, the parents a miner picks are unrelated,
  and a mined block becomes the tip of the total order.
\<close>

subsection \<open>Lean runs\<close>

text \<open>The parents of every block, genesis hanging on ORIGIN.\<close>

definition block_edges :: "('db, 'a, 'p, 'tx) dag_chain \<Rightarrow> bytes32 \<rightharpoonup> bytes32 list" where
  "block_edges c = (\<lambda>i. map_option dh_parents (dc_headers c i))(dc_genesis_dag c \<mapsto> [ORIGIN])"

definition unrelated :: "('db, 'a, 'p, 'tx) dag_chain \<Rightarrow> bytes32 list \<Rightarrow> bool" where
  "unrelated c ps \<longleftrightarrow> antichain (dag_anc (block_edges c)) ps"

inductive lean_runs ::
    "('db, 'a, 'p, 'tx, 'san, 'chk, 'f) dag_env \<Rightarrow> open_params \<Rightarrow> ('db, 'a, 'p, 'tx) dag_chain \<Rightarrow> bool"
  for ev op where
  lean_init: "chain_init ev op [] = Some c \<Longrightarrow> lean_runs ev op c"
| lean_accept: "lean_runs ev op c \<Longrightarrow> unrelated c (dh_parents (db_header b)) \<Longrightarrow> accept ev now b c = Some (r, c') \<Longrightarrow>
    \<forall>x. r \<noteq> Inl (DecodeTx x) \<Longrightarrow> lean_runs ev op c'"
| lean_mine: "lean_runs ev op c \<Longrightarrow> mine_at ev txs timestamp c = Some (r, c') \<Longrightarrow> \<forall>x. r \<noteq> Inl (DecodeTx x) \<Longrightarrow>
    lean_runs ev op c'"
| lean_state: "lean_runs ev op c \<Longrightarrow> virtual_state ev c = Some (r, c') \<Longrightarrow> lean_runs ev op c'"
| lean_finality: "lean_runs ev op c \<Longrightarrow> lean_runs ev op (set_finality_depth d c)"

lemma lean_dag_runs: "lean_runs ev op c \<Longrightarrow> dag_runs ev op c"
  by (induction rule: lean_runs.induct) (blast intro: dag_runs.intros)+

text \<open>No id is one of the two reserved hashes, and the index has room.\<close>

definition fits :: "('db, 'a, 'p, 'tx) dag_chain \<Rightarrow> bool" where
  "fits c \<longleftrightarrow> ORIGIN \<notin> dc_blocks c \<and> NONE \<notin> dc_blocks c \<and> card (dc_blocks c) < index_limit"

subsection \<open>The engine of a chain\<close>

definition follows :: "'f f64_ops \<Rightarrow> u16 \<Rightarrow> ('db, 'a, 'p, 'tx) dag_chain \<Rightarrow> bool" where
  "follows fo k c \<longleftrightarrow> engine_run fo k (dc_genesis_dag c) (dc_engine c)
     \<and> dom (de_gd (dc_engine c)) = insert ORIGIN (dc_blocks c) \<and> de_relations (dc_engine c) = block_edges c
     \<and> (\<exists>h. dc_headers c (dc_genesis_dag c) = Some h \<and> dh_parents h = []) \<and> dc_genesis_dag c \<in> dc_blocks c"

lemma follows_cong:
  assumes "follows fo k c" and "volatile [] c' = volatile [] c"
  shows "follows fo k c'"
proof -
  have "dc_engine c' = dc_engine c" "dc_blocks c' = dc_blocks c" "dc_genesis_dag c' = dc_genesis_dag c"
    "dc_headers c' = dc_headers c" by (metis assms(2) volatile_sel)+
  then show ?thesis using assms(1) by (simp add: follows_def block_edges_def)
qed

lemma follows_engine:
  assumes "follows fo k c" "fits c" "k < - 1"
  shows "settled (dc_engine c) \<and> good_engine (dc_engine c) \<and> de_genesis (dc_engine c) = dc_genesis_dag c"
proof -
  have "engine_run fo k (dc_genesis_dag c) (dc_engine c)" "dc_genesis_dag c \<noteq> ORIGIN"
    using assms(1,2) by (auto simp: follows_def fits_def)
  from run_settled [OF this assms(3)] show ?thesis by (simp add: settled_def)
qed

lemma follows_init:
  assumes "chain_init ev op [] = Some c" and "fits c" "op_k op < - 1"
  shows "follows (ev_floats ev) (op_k op) c"
proof -
  define g where "g = hid ev (dag_genesis_header (op_target op) (op_commitment op))"
  have c: "dc_genesis_dag c = g" "dc_blocks c = {g}" "fresh_engine (ev_floats ev) (op_k op) g = Some (dc_engine c)"
    "dc_headers c = [g \<mapsto> dag_genesis_header (op_target op) (op_commitment op)]"
    using assms(1) by (auto simp: chain_init_def Let_def g_def)
  have g: "g \<noteq> ORIGIN" "g \<noteq> NONE" using assms(2) by (auto simp: fits_def c)
  obtain e where e: "engine_new (op_k op) g = Some e" by (simp add: engine_new_eq)
  then have v: "dom (de_gd e) = {ORIGIN}" "de_relations e = (\<lambda>_. None)" "de_genesis e = g"
    by (auto simp: engine_new_eq split: if_splits)
  have run: "engine_run (ev_floats ev) (op_k op) g e" by (rule engine_run.start [OF e])
  have "attaches e g [ORIGIN]" using g by (simp add: attaches_def v)
  from run_extend [OF run g(1) assms(3) _ this] obtain d e' where
    "engine_add_block (ev_floats ev) g [ORIGIN] e = Some (d, e')" "engine_run (ev_floats ev) (op_k op) g e'"
    "grows e g [ORIGIN] d e'" by (auto simp: v index_limit_def)
  moreover from this(1) have "dc_engine c = e'" using c(3) e by (simp add: fresh_engine_def)
  ultimately have r: "engine_run (ev_floats ev) (op_k op) g (dc_engine c)" "grows e g [ORIGIN] d (dc_engine c)" by simp_all
  have "de_gd (dc_engine c) = (de_gd e)(g \<mapsto> d)" "de_relations (dc_engine c) = [g \<mapsto> [ORIGIN]]"
    using r(2) by (simp_all add: grows_def v)
  moreover from this(2) have "de_relations (dc_engine c) = block_edges c" by (simp add: block_edges_def c fun_eq_iff)
  ultimately show ?thesis using r(1) by (simp add: follows_def c v dag_genesis_header_def insert_commute)
qed

text \<open>Applying a block on unrelated known parents: the engine takes it.\<close>

lemma follows_apply:
  assumes f: "follows fo k c" and fits: "fits c" "k < - 1" and small: "Suc (card (dc_blocks c)) < index_limit"
    and fin: "finite (dc_blocks c)"
    and i: "i \<notin> dc_blocks c" "i \<noteq> ORIGIN" "i \<noteq> NONE"
    and ps: "ps \<noteq> []" "distinct ps" "set ps \<subseteq> dc_blocks c" "unrelated c ps"
  shows "\<exists>d e. engine_add_block fo i (remap_parents (dc_genesis_dag c) (dc_blocks c) ps) (dc_engine c) = Some (d, e)
    \<and> engine_run fo k (dc_genesis_dag c) e \<and> grows (dc_engine c) i ps d e \<and> merges (manager_of (dc_engine c)) ps d"
proof -
  have run: "engine_run fo k (dc_genesis_dag c) (dc_engine c)" and dom: "dom (de_gd (dc_engine c)) = insert ORIGIN (dc_blocks c)"
    and rel: "de_relations (dc_engine c) = block_edges c" and g: "dc_genesis_dag c \<in> dc_blocks c"
    using f by (simp_all add: follows_def)
  have "ORIGIN \<notin> dc_blocks c" using fits(1) by (simp add: fits_def)
  moreover have "de_genesis (dc_engine c) \<noteq> i" using follows_engine [OF f fits] g i(1) by auto
  ultimately have "attaches (dc_engine c) i ps"
    using i ps unfolding attaches_def dom rel by (auto simp: unrelated_def)
  moreover have "card (dom (de_gd (dc_engine c))) < index_limit" unfolding dom using small fin by (simp add: card_insert_if)
  moreover have "dc_genesis_dag c \<noteq> ORIGIN" using g \<open>ORIGIN \<notin> dc_blocks c\<close> by auto
  ultimately show ?thesis using run_extend [OF run _ fits(2)] unfolding remap_known [OF ps(3,2,1)] by blast
qed


lemma follows_adds:
  assumes f: "follows (ev_floats ev) k c" "headers_ok ev c" and fits: "fits c'" "k < - 1"
    and add: "adds_block ev b c c'" and new: "bid ev b \<notin> dc_blocks c"
    and ps: "dh_parents (db_header b) \<noteq> []" "distinct (dh_parents (db_header b))"
      "set (dh_parents (db_header b)) \<subseteq> dc_blocks c" "unrelated c (dh_parents (db_header b))"
  shows "follows (ev_floats ev) k c'"
proof -
  let ?i = "bid ev b" and ?h = "db_header b"
  obtain L where run: "dag_apply ev b (c\<lparr>dc_log := L\<rparr>) = Some (Inr (), c')" using add by (auto simp: adds_block_def)
  from apply_run [OF run [unfolded dag_apply_def]] new obtain d e T where
    e: "engine_add_block (ev_floats ev) ?i (remap_parents (dc_genesis_dag c) (dc_blocks c) (dh_parents ?h)) (dc_engine c) = Some (d, e)"
    and c': "c' = c\<lparr>dc_log := L, dc_engine := e, dc_block_txs := T, dc_headers := (dc_headers c)(?i \<mapsto> ?h),
      dc_blocks := insert ?i (dc_blocks c), dc_tips := filter (\<lambda>t. t \<notin> set (dh_parents ?h)) (dc_tips c) @ [?i]\<rparr>" by auto
  have fin: "finite (dc_blocks c)" using f(2) by (simp add: headers_ok_def)
  have "fits c" and i: "?i \<noteq> ORIGIN" "?i \<noteq> NONE" and small: "Suc (card (dc_blocks c)) < index_limit"
    using fits(1) new fin by (auto simp: fits_def c')
  from follows_apply [OF f(1) this(1) fits(2) small fin new i ps] e have
    r: "engine_run (ev_floats ev) k (dc_genesis_dag c) e" "grows (dc_engine c) ?i (dh_parents ?h) d e" by auto
  have g: "dc_genesis_dag c \<noteq> ?i" using f(1) new by (auto simp: follows_def)
  have "block_edges c' = (block_edges c)(?i \<mapsto> dh_parents ?h)" using g by (auto simp: block_edges_def c' fun_eq_iff)
  then show ?thesis using f(1) r g unfolding follows_def by (auto simp: c' grows_def)
qed

lemma dag_anc_child: "dag_anc rel p q \<Longrightarrow> p \<noteq> q \<Longrightarrow> \<exists>c ps. rel c = Some ps \<and> p \<in> set ps"
  unfolding dag_anc_def by (erule converse_rtranclE) (auto simp: parent_edge_def)

lemma block_edges_header:
  assumes "follows fo k c" "block_edges c i = Some ps" "p \<in> set ps" "p \<noteq> ORIGIN"
  shows "\<exists>h \<in> ran (dc_headers c). p \<in> set (dh_parents h)"
  using assms by (auto simp: block_edges_def ran_def split: if_splits)

text \<open>A tip is an ancestor of no other block; the heaviest block of the engine is a tip.\<close>

lemma tip_top:
  assumes f: "follows fo k c" "tips_ok c" "fits c" and t: "t \<in> set (dc_tips c)" and D: "dag_anc (block_edges c) t x"
  shows "t = x"
proof (rule ccontr)
  assume "t \<noteq> x"
  with dag_anc_child [OF D] obtain i ps where i: "block_edges c i = Some ps" "t \<in> set ps" by blast
  have "t \<in> dc_blocks c" using t f(2) by (simp add: tips_ok_def)
  then have "t \<noteq> ORIGIN" using f(3) by (auto simp: fits_def)
  from block_edges_header [OF f(1) i this] t f(2) show False by (auto simp: tips_ok_def)
qed

lemma child_heavier:
  assumes f: "follows fo k c" "fits c" "k < - 1" and h: "dc_headers c i = Some h" "p \<in> set (dh_parents h)"
  shows "dag_anc (block_edges c) p i \<and> work_of (dc_engine c) p < work_of (dc_engine c) i"
proof -
  have e: "good_engine (dc_engine c)" "de_genesis (dc_engine c) = dc_genesis_dag c" using follows_engine [OF f] by blast+
  have "i \<noteq> dc_genesis_dag c" using f(1) h by (auto simp: follows_def)
  moreover from this have edge: "block_edges c i = Some (dh_parents h)" using h by (simp add: block_edges_def)
  moreover have "de_relations (dc_engine c) = block_edges c" using f(1) by (simp add: follows_def)
  ultimately obtain d where "de_gd (dc_engine c) i = Some d" "block_ok (dc_engine c) i (dh_parents h) d"
    using relations_data [OF e(1)] by metis
  then show ?thesis using h(2) edge e(2) \<open>i \<noteq> dc_genesis_dag c\<close> dag_anc_parent
    by (auto simp: block_ok_def work_of_def [of _ i])
qed

lemma top_tip:
  assumes f: "follows fo k c" "tips_ok c" "fits c" "k < - 1" and dom: "dom (dc_headers c) = dc_blocks c"
    and x: "x \<in> dc_blocks c" "\<And>i. i \<in> dc_blocks c \<Longrightarrow> dag_anc (block_edges c) x i \<Longrightarrow> work_of (dc_engine c) i \<le> work_of (dc_engine c) x"
  shows "x \<in> set (dc_tips c)"
proof -
  have "x \<notin> set (dh_parents h)" if h: "dc_headers c i = Some h" for i h
    using child_heavier [OF f(1,3,4) h, of x] x(2) [of i] domI [of "dc_headers c" i h] h dom by auto
  then show ?thesis using x(1) f(2) by (auto simp: tips_ok_def ran_def)
qed

lemma follows_tip:
  assumes f: "follows fo k c" "fits c" "k < - 1"
  shows "de_tip (dc_engine c) \<in> dc_blocks c"
    "x \<in> dc_blocks c \<Longrightarrow> work_of (dc_engine c) x \<le> work_of (dc_engine c) (de_tip (dc_engine c))"
proof -
  let ?e = "dc_engine c"
  have e: "settled ?e" "good_engine ?e" "de_genesis ?e = dc_genesis_dag c" using follows_engine [OF f] by blast+
  have K: "dom (de_gd ?e) = insert ORIGIN (dc_blocks c)" using f(1) by (simp add: follows_def)
  have "de_genesis ?e \<in> dom (de_gd ?e)" using f(1) e(3) by (simp add: K follows_def)
  then show t: "de_tip ?e \<in> dc_blocks c" using good_tip(1) [OF e(2)] unfolding K by auto
  assume x: "x \<in> dc_blocks c"
  show "work_of ?e x \<le> work_of ?e (de_tip ?e)"
  proof (rule work_of_le)
    have "x \<noteq> ORIGIN" using x f(2) by (auto simp: fits_def)
    then show "the_sortable (manager_of ?e) x \<le> the_sortable (manager_of ?e) (de_tip ?e)"
      using e(1) x unfolding settled_def K by blast
  qed (use x t K in auto)
qed

lemma heaviest_tip:
  assumes "follows fo k c" "tips_ok c" "fits c" "k < - 1" and "dom (dc_headers c) = dc_blocks c"
  shows "de_tip (dc_engine c) \<in> set (dc_tips c)"
  using follows_tip [OF assms(1,3,4)] by (intro top_tip [OF assms])

lemma tips_cover:
  assumes f: "follows fo k c" "tips_ok c" "fits c" "k < - 1" and dom: "dom (dc_headers c) = dc_blocks c"
    and fin: "finite (dc_blocks c)" and x: "x \<in> dc_blocks c"
  shows "\<exists>t \<in> set (dc_tips c). dag_anc (block_edges c) x t"
proof -
  define S where "S = {y \<in> dc_blocks c. dag_anc (block_edges c) x y}"
  have S: "finite S" "x \<in> S" using fin x by (simp_all add: S_def)
  define m where "m = Max (work_of (dc_engine c) ` S)"
  have "m \<in> work_of (dc_engine c) ` S" unfolding m_def by (rule Max_in) (use S in auto)
  then obtain y where y: "y \<in> S" "work_of (dc_engine c) y = m" by auto
  have le: "work_of (dc_engine c) z \<le> m" if "z \<in> S" for z unfolding m_def using S(1) that by simp
  have "y \<in> set (dc_tips c)"
    using y le dag_anc_trans by (intro top_tip [OF f dom]) (fastforce simp: S_def)+
  then show ?thesis using y(1) by (auto simp: S_def)
qed

lemma block_parents_ok:
  assumes f: "follows fo k c" "tips_ok c" "fits c" "k < - 1" and dom: "dom (dc_headers c) = dc_blocks c"
  shows "block_parents c \<noteq> []" "distinct (block_parents c)" "set (block_parents c) \<subseteq> set (dc_tips c)"
    "de_tip (dc_engine c) \<in> set (block_parents c)" "unrelated c (block_parents c)"
    "length (dc_tips c) \<le> MAX_PARENTS \<Longrightarrow> block_parents c = dc_tips c"
proof -
  have t: "de_tip (dc_engine c) \<in> set (dc_tips c)" by (rule heaviest_tip [OF assms])
  show "block_parents c \<noteq> []" "distinct (block_parents c)" "de_tip (dc_engine c) \<in> set (block_parents c)"
    "length (dc_tips c) \<le> MAX_PARENTS \<Longrightarrow> block_parents c = dc_tips c"
    using f(2) t by (auto simp: block_parents_def tips_ok_def Let_def dest!: in_set_takeD)
  show sub: "set (block_parents c) \<subseteq> set (dc_tips c)" using t by (auto simp: block_parents_def Let_def dest: in_set_takeD)
  show "unrelated c (block_parents c)" using sub tip_top [OF f(1-3)] by (auto simp: unrelated_def antichain_def)
qed

lemma built_parents: "build_block_at ev c txs ts = Some b \<Longrightarrow> dh_parents (db_header b) = block_parents c"
  using mine_loop_run by (fastforce simp: build_block_at_def Let_def bind_eq_Some_conv)

lemma fits_back: "fits c' \<Longrightarrow> dc_blocks c \<subseteq> dc_blocks c' \<Longrightarrow> finite (dc_blocks c') \<Longrightarrow> fits c"
  using card_mono [of "dc_blocks c'" "dc_blocks c"] by (auto simp: fits_def)

lemma adds_blocks:
  assumes "adds_block ev b c c'"
  shows "dc_blocks c' = insert (bid ev b) (dc_blocks c)"
proof (cases "bid ev b \<in> dc_blocks c")
  case True
  then show ?thesis using assms by (auto simp: adds_block_def dag_apply_def apply_with_id_def)
next
  case False
  then show ?thesis using assms by (auto simp: adds_block_def dag_apply_def dest!: apply_run)
qed

lemma follows_adds_any:
  assumes f: "fits c \<Longrightarrow> follows (ev_floats ev) k c" "headers_ok ev c" "headers_ok ev c'" and fits: "fits c'" "k < - 1"
    and add: "c' = c \<or> adds_block ev b c c'"
    and ps: "fits c \<Longrightarrow> bid ev b \<notin> dc_blocks c \<Longrightarrow> dh_parents (db_header b) \<noteq> [] \<and> distinct (dh_parents (db_header b))
      \<and> set (dh_parents (db_header b)) \<subseteq> dc_blocks c \<and> unrelated c (dh_parents (db_header b))"
  shows "follows (ev_floats ev) k c'"
proof -
  have "dc_blocks c \<subseteq> dc_blocks c'" using add adds_blocks by blast
  then have c: "fits c" using fits_back [OF fits(1)] f(3) by (simp add: headers_ok_def)
  show ?thesis
  proof (cases "adds_block ev b c c' \<and> bid ev b \<notin> dc_blocks c")
    case True
    then show ?thesis using follows_adds [OF f(1) [OF c] f(2) fits, of b] ps c by blast
  next
    case False
    then have "volatile [] c' = volatile [] c"
      using add by (auto simp: adds_block_def dag_apply_def apply_with_id_def volatile_def)
    then show ?thesis by (rule follows_cong [OF f(1) [OF c]])
  qed
qed

lemma lean_follows: "lean_runs ev op c \<Longrightarrow> op_k op < - 1 \<Longrightarrow> fits c \<Longrightarrow> follows (ev_floats ev) (op_k op) c"
proof (induction rule: lean_runs.induct)
  case (lean_init c)
  then show ?case by (simp add: follows_init)
next
  case (lean_accept c b now r c')
  have runs: "dag_runs ev op c" "dag_runs ev op c'"
    using lean_dag_runs lean_runs.lean_accept [OF lean_accept(1-4)] lean_accept(1) by blast+
  have add: "c' = c \<or> valid_block ev now c b \<and> adds_block ev b c c'" using accept_adds [OF lean_accept(3,4)] by blast
  show ?case
  proof (cases "valid_block ev now c b")
    case True
    show ?thesis
      by (rule follows_adds_any [where b = b, OF _ runs_headers_ok [OF runs(1)] runs_headers_ok [OF runs(2)]])
        (use lean_accept add True in \<open>auto simp: valid_block_def validate_Inr Let_def\<close>)
  next
    case False
    then show ?thesis using add lean_accept by simp
  qed
next
  case (lean_mine c txs timestamp r c')
  have runs: "dag_runs ev op c" "dag_runs ev op c'"
    using lean_dag_runs lean_runs.lean_mine [OF lean_mine(1-3)] lean_mine(1) by blast+
  obtain b where b: "build_block_at ev c txs timestamp = Some b" "c' = c \<or> adds_block ev b c c'"
    using mine_adds [OF lean_mine(2,3)] by blast
  have H: "headers_ok ev c" by (rule runs_headers_ok [OF runs(1)])
  have T: "tips_ok c" by (rule runs_tips_ok [OF runs(1)])
  show ?case
  proof (rule follows_adds_any [OF _ H runs_headers_ok [OF runs(2)] lean_mine(6,5) b(2)])
    assume fits: "fits c"
    show f: "follows (ev_floats ev) (op_k op) c" by (rule lean_mine.IH [OF lean_mine(5) fits])
    have "dom (dc_headers c) = dc_blocks c" using H by (simp add: headers_ok_def)
    from block_parents_ok [OF f T fits lean_mine(5) this]
    show "dh_parents (db_header b) \<noteq> [] \<and> distinct (dh_parents (db_header b))
      \<and> set (dh_parents (db_header b)) \<subseteq> dc_blocks c \<and> unrelated c (dh_parents (db_header b))"
      using T unfolding built_parents [OF b(1)] tips_ok_def by auto
  qed
next
  case (lean_state c r c')
  from virtual_state_volatile [OF lean_state(2)] have v: "volatile [] c' = volatile [] c" by simp
  then have "dc_blocks c' = dc_blocks c" by (metis volatile_sel(2))
  then show ?case using lean_state follows_cong [OF _ v] by (simp add: fits_def)
next
  case (lean_finality c d)
  have "volatile [] (set_finality_depth d c) = volatile [] c" by (simp add: set_finality_depth_def volatile_def)
  moreover have "fits c" using lean_finality(4) by (simp add: fits_def set_finality_depth_def)
  ultimately show ?case using lean_finality follows_cong by blast
qed


subsection \<open>The total order\<close>

lemma follows_order:
  assumes f: "follows fo k c" "fits c" "k < - 1"
  shows "\<exists>xs. dc_total_order c = Some xs \<and> distinct xs
    \<and> set xs = {x \<in> dc_blocks c. dag_anc (block_edges c) x (de_tip (dc_engine c))}
    \<and> sorted_wrt (\<lambda>x y. \<not> dag_anc (block_edges c) y x) xs"
proof -
  let ?e = "dc_engine c" let ?D = "dag_anc (block_edges c)"
  have e: "good_engine ?e" "de_genesis ?e = dc_genesis_dag c" using follows_engine [OF f] by blast+
  have K: "dom (de_gd ?e) = insert ORIGIN (dc_blocks c)" and rel: "de_relations ?e = block_edges c" and g: "dc_genesis_dag c \<in> dc_blocks c"
    using f(1) by (simp_all add: follows_def)
  have "de_genesis ?e \<in> dom (de_gd ?e)" using e(2) g by (simp add: K)
  from engine_order [OF e(1) this] obtain xs where xs: "total_order ?e = Some xs" "linearises ?e (de_tip ?e) xs" by blast
  have "x \<in> insert ORIGIN (dc_blocks c)" if "?D x (de_tip ?e)" for x
    using parents_known_anc [OF that] good_known [OF e(1)] follows_tip(1) [OF f] unfolding rel K by blast
  moreover have "x \<noteq> ORIGIN" if "x \<in> dc_blocks c" for x using that f(2) by (auto simp: fits_def)
  ultimately have "{x. x \<noteq> ORIGIN \<and> ?D x (de_tip ?e)} = {x \<in> dc_blocks c. ?D x (de_tip ?e)}" by blast
  then show ?thesis using xs by (simp add: linearises_def rel dc_total_order_def)
qed

lemma genesis_below:
  assumes f: "follows fo k c" "fits c" "k < - 1" and x: "x \<in> dc_blocks c"
  shows "dag_anc (block_edges c) (dc_genesis_dag c) x"
proof -
  let ?e = "dc_engine c"
  have e: "good_engine ?e" "de_genesis ?e = dc_genesis_dag c" using follows_engine [OF f] by blast+
  have col: "coloured (manager_of ?e) (dom (de_gd ?e))" by (rule good_coloured [OF e(1)])
  have xO: "x \<noteq> ORIGIN" "x \<in> dom (de_gd ?e)" using f(1,2) x by (auto simp: follows_def fits_def)
  then obtain d where "de_gd ?e x = Some d" by blast
  then have "chain_anc (de_gd ?e) (de_genesis ?e) x" using colouredD(3) [OF col, of x d] xO(1) by simp
  from chain_in_dag [OF col, of "de_genesis ?e" x] this show ?thesis using f(1) e(2) by (simp add: follows_def)
qed


subsection \<open>A block that joins\<close>

text \<open>A block that may join: a fresh id, and transactions that decode.\<close>

definition joinable ::
    "('db, 'a, 'p, 'tx, 'san, 'chk, 'f) dag_env \<Rightarrow> ('db, 'a, 'p, 'tx) dag_chain \<Rightarrow> dag_block \<Rightarrow> bool" where
  "joinable ev c b \<longleftrightarrow> bid ev b \<notin> dc_blocks c \<and> bid ev b \<noteq> ORIGIN \<and> bid ev b \<noteq> NONE
     \<and> Suc (card (dc_blocks c)) < index_limit \<and> (\<exists>txs. decode_txs ev (db_transactions b) = Inr txs)
     \<and> (\<exists>rec. ev_ser_record ev (RecBlock b) = Inr rec \<and> length rec < 2 ^ 32)"

lemma joins:
  assumes f: "follows (ev_floats ev) k c" "fits c" "k < - 1" "finite (dc_blocks c)" and b: "joinable ev c b"
    and ps: "dh_parents (db_header b) \<noteq> []" "distinct (dh_parents (db_header b))"
      "set (dh_parents (db_header b)) \<subseteq> dc_blocks c" "unrelated c (dh_parents (db_header b))"
  shows "\<exists>d c'. rbind (log_block ev b) (\<lambda>_. dag_apply ev b) c = Some (Inr (), c')
    \<and> dc_blocks c' = insert (bid ev b) (dc_blocks c)
    \<and> dc_tips c' = filter (\<lambda>t. t \<notin> set (dh_parents (db_header b))) (dc_tips c) @ [bid ev b]
    \<and> grows (dc_engine c) (bid ev b) (dh_parents (db_header b)) d (dc_engine c')"
proof -
  let ?i = "bid ev b" and ?h = "db_header b"
  have i: "?i \<notin> dc_blocks c" "?i \<noteq> ORIGIN" "?i \<noteq> NONE" and small: "Suc (card (dc_blocks c)) < index_limit"
    using b by (simp_all add: joinable_def)
  obtain rec txs where rec: "ev_ser_record ev (RecBlock b) = Inr rec" "length rec < 2 ^ 32"
    and txs: "decode_txs ev (db_transactions b) = Inr txs" using b by (auto simp: joinable_def)
  have log: "log_block ev b c = Some (Inr (), c\<lparr>dc_log := dc_log c @ log_record rec\<rparr>)"
    using rec by (simp add: log_block_def rwrite_def log_append_def log_record_def)
  obtain d e where e: "engine_add_block (ev_floats ev) ?i (remap_parents (dc_genesis_dag c) (dc_blocks c) (dh_parents ?h))
      (dc_engine c) = Some (d, e)" "grows (dc_engine c) ?i (dh_parents ?h) d e"
    using follows_apply [OF f(1-3) small f(4) i ps] by blast
  show ?thesis unfolding rbind_Some(1) [where m = "log_block ev b", OF log] using e txs i(1)
    by (auto simp: dag_apply_def apply_with_id_def Let_def)
qed

lemma run_facts:
  assumes "lean_runs ev op c" "op_k op < - 1" "fits c"
  shows "follows (ev_floats ev) (op_k op) c" "tips_ok c" "dom (dc_headers c) = dc_blocks c" "finite (dc_blocks c)"
  using lean_follows [OF assms] runs_tips_ok [OF lean_dag_runs [OF assms(1)]] runs_headers_ok [OF lean_dag_runs [OF assms(1)]]
  by (auto simp: headers_ok_def)

text \<open>A block that lists the heaviest block among its parents becomes the heaviest.\<close>

lemma heavier_tip:
  assumes f: "follows fo k c" "fits c" "k < - 1" and f': "follows fo k c'" "fits c'"
    and g: "grows (dc_engine c) i ps d (dc_engine c')" "i \<in> dc_blocks c' - dc_blocks c" and tip: "de_tip (dc_engine c) \<in> set ps"
  shows "de_tip (dc_engine c') = i"
proof -
  let ?e = "dc_engine c" let ?e' = "dc_engine c'"
  have e: "de_genesis ?e = dc_genesis_dag c" "good_engine ?e'"
    using follows_engine [OF f] follows_engine [OF f' f(3)] by blast+
  have g': "de_relations ?e' i = Some ps" "de_genesis ?e' = de_genesis ?e"
    "the_sortable (manager_of ?e') (de_tip ?e') = max (the_sortable (manager_of ?e') (de_tip ?e)) (the_sortable (manager_of ?e') i)"
    using g(1) by (simp_all add: grows_def)
  have "i \<noteq> de_genesis ?e'" using g(2) e(1) g'(2) f(1) by (auto simp: follows_def)
  moreover obtain di where "de_gd ?e' i = Some di" "block_ok ?e' i ps di" using relations_data [OF e(2) g'(1)] by blast
  ultimately have less: "work_of ?e' (de_tip ?e) < work_of ?e' i" using tip by (auto simp: block_ok_def work_of_def [of _ i])
  have "de_tip ?e' = sb_hash (max (the_sortable (manager_of ?e') (de_tip ?e)) (the_sortable (manager_of ?e') i))"
    using g'(3) sb_hash_the_sortable by metis
  then have "de_tip ?e' = de_tip ?e \<or> de_tip ?e' = i" by (simp add: max_def)
  moreover have "work_of ?e' i \<le> work_of ?e' (de_tip ?e')" using follows_tip(2) [OF f' f(3)] g(2) by blast
  ultimately show ?thesis using less by auto
qed

lemma fits_insert: "fits c \<Longrightarrow> joinable ev c b \<Longrightarrow> finite (dc_blocks c) \<Longrightarrow> dc_blocks c' = insert (bid ev b) (dc_blocks c) \<Longrightarrow> fits c'"
  by (auto simp: fits_def joinable_def)

lemma accept_valid:
  "bid ev b \<notin> dc_blocks c \<Longrightarrow> valid_block ev now c b \<Longrightarrow> accept ev now b c = rbind (log_block ev b) (\<lambda>_. dag_apply ev b) c"
  by (auto simp: accept_def valid_block_def Let_def)

subsection \<open>Two nodes\<close>

lemma same_rules_trans: "same_rules a b \<Longrightarrow> same_rules b c \<Longrightarrow> same_rules a c"
  by (simp add: same_rules_def)

lemma adds_rules:
  assumes "adds_block ev b c c'"
  shows "same_rules c c'"
proof (cases "bid ev b \<in> dc_blocks c")
  case True
  then show ?thesis using assms by (auto simp: adds_block_def dag_apply_def apply_with_id_def same_rules_def)
next
  case False
  then show ?thesis using assms by (auto simp: adds_block_def dag_apply_def same_rules_def dest!: apply_run)
qed

lemma volatile_rules:
  assumes "volatile [] c' = volatile [] c"
  shows "same_rules c c'"
proof -
  have "dc_reward (volatile [] x) = dc_reward x" "dc_base_accounts (volatile [] x) = dc_base_accounts x"
    "dc_allocations (volatile [] x) = dc_allocations x" "dc_history_pruned (volatile [] x) = dc_history_pruned x"
    "dc_genesis_dag (volatile [] x) = dc_genesis_dag x" for x :: "('a, 'b, 'c, 'd) dag_chain"
    by (simp_all add: volatile_def)
  then show ?thesis unfolding same_rules_def using assms by metis
qed

lemma runs_rules: "dag_runs ev op c \<Longrightarrow> \<exists>c0. chain_init ev op [] = Some c0 \<and> same_rules c0 c"
proof (induction rule: dag_runs.induct)
  case (runs_init c)
  then show ?case by (auto simp: same_rules_def)
next
  case (runs_accept c now b r c')
  then show ?case using accept_adds [OF runs_accept(2,3)] adds_rules same_rules_trans by metis
next
  case (runs_mine c txs timestamp r c')
  then show ?case using mine_adds [OF runs_mine(2,3)] adds_rules same_rules_trans by metis
next
  case (runs_state c r c')
  then show ?case using virtual_state_volatile [OF runs_state(2)] volatile_rules same_rules_trans by metis
next
  case (runs_finality c d)
  then show ?case by (auto simp: same_rules_def set_finality_depth_def)
qed

lemma miner_rules:
  assumes "dag_runs ev op c" "dag_runs ev (op\<lparr>op_miner := m\<rparr>) c'"
  shows "same_rules c c'"
proof -
  obtain a a' where "chain_init ev op [] = Some a" "same_rules a c" "chain_init ev (op\<lparr>op_miner := m\<rparr>) [] = Some a'" "same_rules a' c'"
    using runs_rules [OF assms(1)] runs_rules [OF assms(2)] by blast
  moreover from this(1,3) have "same_rules a a'" by (auto simp: chain_init_def Let_def same_rules_def)
  ultimately show ?thesis by (simp add: same_rules_def)
qed

lemma same_order:
  assumes f: "follows fo k c" "fits c" "follows fo k c'" "fits c'" "k < - 1"
    and same: "dc_headers c' = dc_headers c" "dc_genesis_dag c' = dc_genesis_dag c"
  shows "dc_total_order c' = dc_total_order c"
proof -
  let ?e = "dc_engine c" let ?e' = "dc_engine c'"
  have e: "settled ?e" "settled ?e'" "de_genesis ?e' = de_genesis ?e"
    using follows_engine [OF f(1,2,5)] follows_engine [OF f(3-5)] same(2) by simp_all
  have "dc_genesis_dag c \<noteq> ORIGIN" "engine_run fo k (dc_genesis_dag c) ?e" "engine_run fo k (dc_genesis_dag c) ?e'"
    using f(1-3) same(2) by (auto simp: follows_def fits_def)
  then have k: "de_k ?e' = de_k ?e" using engine_run_ok f(5) by metis
  have "de_relations ?e' = de_relations ?e" using f(1,3) same by (simp add: follows_def block_edges_def)
  from same_engines [OF e k this] show ?thesis using total_order_same [of ?e' ?e] e(3) by (simp add: dc_total_order_def)
qed

lemma state_bank:
  assumes "virtual_state ev c = Some (Inr bank, d)"
  shows "\<exists>xs. dc_total_order c = Some xs \<and> next_bank ev c xs = Some (Inr bank)"
proof (rule virtual_state_run [OF assms])
  fix order nb
  assume "dc_total_order c = Some order" "next_bank ev c order = Some nb"
    and "case nb of
        Inl e \<Rightarrow> Inr bank = Inl e \<and> d = c\<lparr>dc_state := None\<rparr>
      | Inr b \<Rightarrow> (Inr bank = Inr b \<or> (\<exists>e. Inr bank = Inl e)) \<and>
          (\<exists>K. d = c\<lparr>dc_state := Some b, dc_executed := order, dc_checkpoint := K\<rparr>
             \<and> (dc_checkpoint c \<noteq> None \<longrightarrow> K \<noteq> None))"
  then show ?thesis by (cases nb) auto
qed

lemma same_state:
  assumes ok: "cache_ok ev c" "cache_ok ev c'" and cp: "dc_checkpoint c = None" "dc_checkpoint c' = None"
    and same: "same_rules c c'" "dc_headers c' = dc_headers c" "dc_block_txs c' = dc_block_txs c"
    and order: "dc_total_order c' = dc_total_order c"
    and run: "virtual_state ev c = Some (Inr bank, d)" "virtual_state ev c' = Some (Inr bank', d')"
  shows "bank' = bank"
proof -
  obtain xs where xs: "dc_total_order c = Some xs" "next_bank ev c xs = Some (Inr bank)"
    using state_bank [OF run(1)] by blast
  have "next_bank ev c' xs = Some (Inr bank')" using state_bank [OF run(2)] order xs(1) by auto
  moreover have "rebuilt ev c' xs = rebuilt ev c xs"
    by (rule rebuilt_same [OF same(1)]) (simp add: same_block_def same(2,3))
  ultimately show ?thesis using next_bank_rebuilt [OF ok(1) cp(1)] next_bank_rebuilt [OF ok(2) cp(2)] xs(2) by simp
qed

end
