(* ===== verification/DagLeanProps.thy ===== *)
theory DagLeanProps
  imports DagLean
begin

text \<open>
  The properties of the DAG chain over its engine in lean runs, and the steps of the concrete node of
  \<open>DagDemo\<close>, paying any miner, at which they are applied.
\<close>

subsection \<open>The concrete node\<close>

text \<open>Acceptance does not read the miner.\<close>

lemma commutes_log_miner: "commutes (\<lambda>c. c\<lparr>dc_miner := m\<rparr>) (log_block ev b)"
  unfolding commutes_def
proof
  fix c :: "('a, 'b, 'c, 'd) dag_chain"
  show "log_block ev b (c\<lparr>dc_miner := m\<rparr>) = map_option (map_prod id (\<lambda>c. c\<lparr>dc_miner := m\<rparr>)) (log_block ev b c)"
    by (cases "ev_ser_record ev (RecBlock b)"; cases "log_append (dc_log c) (projr (ev_ser_record ev (RecBlock b)))")
      (simp_all add: log_block_def rwrite_def)
qed

lemma commutes_apply_miner: "commutes (\<lambda>c. c\<lparr>dc_miner := m\<rparr>) (dag_apply ev b)"
  unfolding commutes_def
proof
  fix c :: "('a, 'b, 'c, 'd) dag_chain"
  show "dag_apply ev b (c\<lparr>dc_miner := m\<rparr>) = map_option (map_prod id (\<lambda>c. c\<lparr>dc_miner := m\<rparr>)) (dag_apply ev b c)"
  proof (cases "engine_add_block (ev_floats ev) (bid ev b)
      (remap_parents (dc_genesis_dag c) (dc_blocks c) (dh_parents (db_header b))) (dc_engine c)")
    case None
    then show ?thesis by (simp add: dag_apply_def apply_with_id_def)
  next
    case (Some de)
    then show ?thesis
      by (cases de; cases "decode_txs ev (db_transactions b)") (simp_all add: dag_apply_def apply_with_id_def Let_def)
  qed
qed

lemma demo_valid_block: "valid_block demo_env 1750000005 (demo_dag\<lparr>dc_miner := m\<rparr>) demo_block"
proof -
  have "interlink_for_parent (demo_dag\<lparr>dc_miner := m\<rparr>) (- 10) = [- 10]"
    using demo_interlink by (simp add: interlink_for_parent_def)
  moreover have "selected_parent_dag (demo_dag\<lparr>dc_miner := m\<rparr>) [- 10] = Some (- 10)"
    "selected_chain_target (demo_dag\<lparr>dc_miner := m\<rparr>) (- 10) = Some (- 1)"
    using demo_target by (simp_all add: selected_parent_dag_def selected_chain_target_def cong: list.case_cong)
  moreover have "\<not> regresses (demo_dag\<lparr>dc_miner := m\<rparr>) (- 10) (db_header demo_block)"
    by (simp add: regresses_def demo_dag_sel demo_block_def dag_genesis_header_def MAX_TIMESTAMP_DRIFT_SECS_def)
  ultimately show ?thesis by (simp add: valid_block_def demo_valid demo_head demo_dag_sel)
qed

lemma demo_accept_any: "accept demo_env 1750000005 demo_block (demo_dag\<lparr>dc_miner := m\<rparr>) = Some (Inr (), demo_grown\<lparr>dc_miner := m\<rparr>)"
proof -
  have new: "bid demo_env demo_block \<notin> dc_blocks (demo_dag\<lparr>dc_miner := m\<rparr>)" for m by (simp add: demo_ids_of_headers demo_dag_sel)
  have "demo_dag\<lparr>dc_miner := 7\<rparr> = demo_dag"
    by (simp add: demo_dag_def chain_init_def demo_ids_of_headers demo_fresh_engine ORIGIN_def Let_def demo_params_def)
  then have "rbind (log_block demo_env demo_block) (\<lambda>_. dag_apply demo_env demo_block) demo_dag = Some (Inr (), demo_grown)"
    using accept_valid [OF new demo_valid_block, of 7] demo_accept by simp
  from commutes_run [OF commutes_rbind [OF commutes_log_miner commutes_apply_miner] this]
  show ?thesis unfolding accept_valid [OF new demo_valid_block] .
qed

lemma demo_lean:
  "lean_runs demo_env (demo_params\<lparr>op_miner := m\<rparr>) (demo_dag\<lparr>dc_miner := m\<rparr>)"
  "lean_runs demo_env (demo_params\<lparr>op_miner := m\<rparr>) (demo_grown\<lparr>dc_miner := m\<rparr>)"
proof -
  have "chain_init demo_env (demo_params\<lparr>op_miner := m\<rparr>) [] = Some (demo_dag\<lparr>dc_miner := m\<rparr>)"
    by (simp add: demo_dag_def chain_init_def demo_ids_of_headers demo_fresh_engine ORIGIN_def Let_def demo_params_def)
  then show first: "lean_runs demo_env (demo_params\<lparr>op_miner := m\<rparr>) (demo_dag\<lparr>dc_miner := m\<rparr>)" by (rule lean_init)
  show "lean_runs demo_env (demo_params\<lparr>op_miner := m\<rparr>) (demo_grown\<lparr>dc_miner := m\<rparr>)"
    by (rule lean_accept [OF first _ demo_accept_any]) (simp_all add: unrelated_def antichain_def demo_head)
qed

lemma demo_miner: "demo_params\<lparr>op_miner := 7\<rparr> = demo_params" "demo_dag\<lparr>dc_miner := 7\<rparr> = demo_dag" "demo_grown\<lparr>dc_miner := 7\<rparr> = demo_grown"
  by (simp_all add: demo_grown_def demo_dag_def chain_init_def demo_ids_of_headers demo_fresh_engine ORIGIN_def Let_def demo_params_def)

lemma demo_lean_7: "lean_runs demo_env demo_params demo_dag" "lean_runs demo_env demo_params demo_grown"
  using demo_lean [of 7] by (simp_all add: demo_miner)

lemma demo_fits: "fits demo_dag" "fits demo_grown" "op_k demo_params < - 1"
  by (simp_all add: fits_def demo_grown_def demo_dag_sel ORIGIN_def NONE_def index_limit_def demo_params_def)

lemma demo_joinable: "joinable demo_env demo_dag demo_block"
proof -
  have "ev_ser_record demo_env (RecBlock demo_block) = Inr [1]" by (simp add: demo_env_def)
  then show ?thesis
    by (simp add: joinable_def demo_ids_of_headers demo_dag_sel ORIGIN_def NONE_def index_limit_def demo_head)
qed

lemma demo_build: "build_block_at demo_env demo_dag [] 1750000005 = Some demo_block"
proof -
  have tip: "de_tip (demo_engine 3 (- 10)) = - 10" by (simp add: demo_engine_def)
  have "block_parents demo_dag = [- 10]" by (simp add: block_parents_def demo_dag_sel MAX_PARENTS_def Let_def)
  moreover have "dc_miner demo_dag = 7" using arg_cong [OF demo_miner(2), of dc_miner] by simp
  moreover have "ev_bank demo_env = demo_bank" by (simp add: demo_env_def)
  moreover have "mine_loop f (- 1) h = Some h" for f h by (subst mine_loop.simps) (simp add: meets_target_def)
  ultimately show ?thesis
    by (simp add: build_block_at_def Let_def dc_next_target_def demo_dag_sel tip demo_target demo_interlink demo_block_def)
qed

lemma demo_state_any: "\<exists>bank d. virtual_state demo_env (demo_grown\<lparr>dc_miner := m\<rparr>) = Some (Inr bank, d)"
proof -
  let ?c = "demo_grown\<lparr>dc_miner := m\<rparr>"
  have cp: "dc_checkpoint demo_grown = None" by (simp add: demo_grown_def demo_dag_rest)
  obtain bank where "next_bank demo_env demo_grown [- 10, - 11] = Some (Inr bank)"
    using demo_virtual_state state_bank demo_order by fastforce
  moreover have "rebuilt demo_env ?c ids = rebuilt demo_env demo_grown ids" for ids
    by (rule rebuilt_same) (simp_all add: same_rules_def same_block_def)
  ultimately have "next_bank demo_env ?c [- 10, - 11] = Some (Inr bank)"
    using next_bank_rebuilt [OF runs_cache_ok [OF lean_dag_runs [OF demo_lean(2)]]] cp
      next_bank_rebuilt [OF runs_cache_ok [OF demo_runs(2)] cp] by simp
  moreover have "dc_total_order ?c = Some [- 10, - 11]" using demo_order by (simp add: dc_total_order_def)
  moreover have "maybe_advance_checkpoint demo_env (?c\<lparr>dc_state := Some bank, dc_executed := [- 10, - 11]\<rparr>)
      = Some (Inr (), ?c\<lparr>dc_state := Some bank, dc_executed := [- 10, - 11]\<rparr>)"
    by (simp add: maybe_advance_checkpoint_def demo_grown_def demo_dag_rest usize_add_def Let_def)
  ultimately show ?thesis by (simp add: virtual_state_def rbind_def)
qed

subsection \<open>Properties\<close>

text \<open>Property C11. Acceptance of a valid block never panics in a lean run.  A block that passes the checks, whose
  parents are unrelated, whose id is fresh and not reserved, whose record serializes and whose transactions
  decode is accepted, as long as the chain stays below 2^24 blocks: its record is
  logged, the engine takes it, it becomes a known block and a tip, and the run stays lean.\<close>

theorem valid_block_joins:
  assumes "lean_runs ev op c" "op_k op < - 1" "fits c" and "joinable ev c b" "valid_block ev now c b"
    and "unrelated c (dh_parents (db_header b))"
  shows "\<exists>c'. accept ev now b c = Some (Inr (), c') \<and> lean_runs ev op c' \<and> fits c'
    \<and> dc_blocks c' = insert (bid ev b) (dc_blocks c) \<and> bid ev b \<in> set (dc_tips c')"
proof -
  note R = run_facts [OF assms(1-3)]
  have new: "bid ev b \<notin> dc_blocks c" using assms(4) by (simp add: joinable_def)
  have "dh_parents (db_header b) \<noteq> []" "distinct (dh_parents (db_header b))" "set (dh_parents (db_header b)) \<subseteq> dc_blocks c"
    using assms(5) by (auto simp: valid_block_def validate_Inr Let_def)
  from joins [OF R(1) assms(3,2) R(4) assms(4) this assms(6)] obtain c' where
    "accept ev now b c = Some (Inr (), c')" "dc_blocks c' = insert (bid ev b) (dc_blocks c)" "bid ev b \<in> set (dc_tips c')"
    unfolding accept_valid [OF new assms(5)] by auto
  then show ?thesis using lean_accept [OF assms(1,6)] fits_insert [OF assms(3,4) R(4)] by blast
qed

theorem valid_block_joins_witness:
  "\<exists>c'. accept demo_env 1750000005 demo_block demo_dag = Some (Inr (), c') \<and> lean_runs demo_env demo_params c'
    \<and> dc_blocks c' = {- 11, - 10}"
proof -
  have v: "valid_block demo_env 1750000005 demo_dag demo_block" using demo_valid_block [of 7] by (simp add: demo_miner)
  have u: "unrelated demo_dag (dh_parents (db_header demo_block))" by (simp add: unrelated_def antichain_def demo_head)
  show ?thesis using valid_block_joins [OF demo_lean_7(1) demo_fits(3,1) demo_joinable v u]
    by (auto simp: demo_dag_sel demo_ids_of_headers)
qed

text \<open>Property C10. Mining extends the order.  In a lean run below 2^24 blocks, a block the node has built (with a fresh id, a
  record that serializes and transactions that decode) is mined without a panic:
  the parents the node picks (its tips, cut to 16 with the heaviest first) are unrelated, the mined block
  becomes the tip of the engine, and when the node had at most 16 tips it becomes the only tip and the
  total order then lists every block of the chain exactly once.\<close>

theorem mined_block_joins:
  assumes "lean_runs ev op c" "op_k op < - 1" "fits c" and "build_block_at ev c txs now = Some b" "joinable ev c b"
  shows "\<exists>c'. mine_at ev txs now c = Some (Inr b, c') \<and> lean_runs ev op c' \<and> fits c'
    \<and> de_tip (dc_engine c') = bid ev b
    \<and> (length (dc_tips c) \<le> MAX_PARENTS \<longrightarrow> dc_tips c' = [bid ev b]
        \<and> (\<exists>xs. dc_total_order c' = Some xs \<and> distinct xs \<and> set xs = dc_blocks c'))"
proof -
  let ?i = "bid ev b" and ?ps = "dh_parents (db_header b)"
  note R = run_facts [OF assms(1-3)]
  note P = block_parents_ok [OF R(1,2) assms(3,2) R(3), folded built_parents [OF assms(4)]]
  have tips: "set (dc_tips c) \<subseteq> dc_blocks c" using R(2) by (auto simp: tips_ok_def)
  then have "set ?ps \<subseteq> dc_blocks c" using P(3) by blast
  from joins [OF R(1) assms(3,2) R(4) assms(5) P(1,2) this P(5)] obtain d c' where
    run: "rbind (log_block ev b) (\<lambda>_. dag_apply ev b) c = Some (Inr (), c')" and
    c': "dc_blocks c' = insert ?i (dc_blocks c)" "dc_tips c' = filter (\<lambda>t. t \<notin> set ?ps) (dc_tips c) @ [?i]"
    "grows (dc_engine c) ?i ?ps d (dc_engine c')" by blast
  have mine: "mine_at ev txs now c = Some (Inr b, c')"
    using run assms(4) by (auto simp: mine_at_def rbind_def split: option.splits sum.splits)
  have lean: "lean_runs ev op c'" by (rule lean_mine [OF assms(1) mine]) simp
  have fits: "fits c'" by (rule fits_insert [OF assms(3,5) R(4) c'(1)])
  note R' = run_facts [OF lean assms(2) fits]
  have tip: "de_tip (dc_engine c') = ?i"
    by (rule heavier_tip [OF R(1) assms(3,2) R'(1) fits c'(3) _ P(4)]) (use c'(1) assms(5) in \<open>auto simp: joinable_def\<close>)
  have order: "\<exists>xs. dc_total_order c' = Some xs \<and> distinct xs \<and> set xs = dc_blocks c'" if "dc_tips c' = [?i]"
  proof -
    have "dag_anc (block_edges c') x ?i" if "x \<in> dc_blocks c'" for x
      using tips_cover [OF R'(1,2) fits assms(2) R'(3,4) that] by (simp add: \<open>dc_tips c' = [?i]\<close>)
    then show ?thesis using follows_order [OF R'(1) fits assms(2)] tip by auto
  qed
  have "dc_tips c' = [?i]" if "length (dc_tips c) \<le> MAX_PARENTS" using P(6) [OF that] by (simp add: c'(2))
  then show ?thesis using mine lean fits tip order by blast
qed

theorem mined_block_joins_witness:
  "\<exists>c' xs. mine_at demo_env [] 1750000005 demo_dag = Some (Inr demo_block, c') \<and> dc_tips c' = [- 11]
    \<and> dc_total_order c' = Some xs \<and> distinct xs \<and> set xs = dc_blocks c'"
  using mined_block_joins [OF demo_lean_7(1) demo_fits(3,1) demo_build demo_joinable]
  by (auto simp: demo_dag_sel MAX_PARENTS_def demo_ids_of_headers)


text \<open>Property C9. Replicas converge.  Two nodes with the same genesis, each after a lean run of its own - blocks
  received in another order, some mined here and some there, paid to different miners - that hold the same
  headers and transactions compute the same total order, and while neither has taken a checkpoint, the
  virtual states they answer with are the same bank.\<close>

theorem replicas_converge:
  assumes "lean_runs ev op c" "lean_runs ev (op\<lparr>op_miner := m\<rparr>) c'" "op_k op < - 1" "fits c"
    and "dc_headers c' = dc_headers c" "dc_block_txs c' = dc_block_txs c"
    and "dc_checkpoint c = None" "dc_checkpoint c' = None"
    and "virtual_state ev c = Some (Inr bank, d)" "virtual_state ev c' = Some (Inr bank', d')"
  shows "dc_total_order c' = dc_total_order c \<and> bank' = bank"
proof -
  note R = run_facts [OF assms(1,3,4)]
  have runs: "dag_runs ev op c" "dag_runs ev (op\<lparr>op_miner := m\<rparr>) c'" using assms(1,2) lean_dag_runs by blast+
  have rules: "same_rules c c'" by (rule miner_rules [OF runs])
  have "dc_blocks c' = dc_blocks c"
    using R(3) runs_headers_ok [OF runs(2)] unfolding headers_ok_def assms(5) by blast
  then have fits: "fits c'" using assms(4) by (simp add: fits_def)
  have "follows (ev_floats ev) (op_k op) c'" using run_facts(1) [OF assms(2) _ fits] assms(3) by simp
  from same_order [OF R(1) assms(4) this fits assms(3,5)] rules
  have order: "dc_total_order c' = dc_total_order c" by (simp add: same_rules_def)
  with same_state [OF runs_cache_ok [OF runs(1)] runs_cache_ok [OF runs(2)] assms(7,8) rules assms(5,6) order assms(9,10)]
  show ?thesis by blast
qed

theorem replicas_converge_witness:
  "\<exists>bank d d'. virtual_state demo_env demo_grown = Some (Inr bank, d)
    \<and> virtual_state demo_env (demo_grown\<lparr>dc_miner := 8\<rparr>) = Some (Inr bank, d')"
proof -
  have cp: "dc_checkpoint demo_grown = None" by (simp add: demo_grown_def demo_dag_rest)
  obtain bank d bank' d' where run: "virtual_state demo_env demo_grown = Some (Inr bank, d)"
    "virtual_state demo_env (demo_grown\<lparr>dc_miner := 8\<rparr>) = Some (Inr bank', d')"
    using demo_virtual_state demo_state_any by blast
  have "bank' = bank"
    using replicas_converge [OF demo_lean_7(2) demo_lean(2) demo_fits(3,2) _ _ cp _ run] cp by simp
  then show ?thesis using run by blast
qed

text \<open>The order of a node.  After any lean run the total order exists: it starts at genesis and lists
  every block in the past of the tip exactly once, no block before one of its ancestors, and no known
  block has more blue work than the tip.\<close>

theorem lean_order_correct:
  assumes "lean_runs ev op c" "op_k op < - 1" "fits c"
  shows "\<exists>xs. dc_total_order c = Some (dc_genesis_dag c # xs) \<and> distinct (dc_genesis_dag c # xs)
    \<and> set (dc_genesis_dag c # xs) = {x \<in> dc_blocks c. dag_anc (block_edges c) x (de_tip (dc_engine c))}
    \<and> sorted_wrt (\<lambda>x y. \<not> dag_anc (block_edges c) y x) (dc_genesis_dag c # xs)
    \<and> (\<forall>b \<in> dc_blocks c. work_of (dc_engine c) b \<le> work_of (dc_engine c) (de_tip (dc_engine c)))"
proof -
  note R = run_facts [OF assms]
  let ?D = "dag_anc (block_edges c)" let ?g = "dc_genesis_dag c"
  obtain ys where ys: "dc_total_order c = Some ys" "distinct ys" "set ys = {x \<in> dc_blocks c. ?D x (de_tip (dc_engine c))}"
    "sorted_wrt (\<lambda>x y. \<not> ?D y x) ys" using follows_order [OF R(1) assms(3,2)] by blast
  have "?g \<in> set ys" using genesis_below [OF R(1) assms(3,2)] follows_tip(1) [OF R(1) assms(3,2)] R(1) ys(3)
    by (simp add: follows_def)
  then obtain xs zs where split: "ys = xs @ ?g # zs" by (auto simp: in_set_conv_decomp)
  have "\<not> ?D ?g x \<and> x \<in> dc_blocks c" if "x \<in> set xs" for x using ys(3,4) that by (auto simp: split sorted_wrt_append)
  then have "xs = []" using genesis_below [OF R(1) assms(3,2)] by (cases xs) auto
  then show ?thesis using ys follows_tip(2) [OF R(1) assms(3,2)] by (auto simp: split)
qed

theorem lean_order_correct_witness:
  "\<exists>xs. dc_total_order demo_grown = Some (dc_genesis_dag demo_grown # xs) \<and> distinct (dc_genesis_dag demo_grown # xs)"
  using lean_order_correct [OF demo_lean_7(2) demo_fits(3,2)] by blast


end
