(* ===== verification/Spec2Isabelle.thy ===== *)
theory Spec2Isabelle
  imports DagVm DagProps DagMine DagImport DagTips NodeProps DagNodeProps Cli Rpc BlockhashQueue TaoDag ReachDag DagLeanProps
begin

text \<open>
  A verification library for the tao node, a proof-of-work chain that runs Solana transactions
  (Rust, \<^verbatim>\<open>src/crates/\<close>).

  \<^bold>\<open>The program.\<close>  A miner grinds block headers against a target (\<^verbatim>\<open>tao-consensus\<close>), with BLAKE3 or
  with one of two matrix-product algorithms (\<^verbatim>\<open>tao-pouw\<close>), and executes the transactions of a block in
  a bank (\<^verbatim>\<open>tao-runtime\<close>) over an account store with a sparse Merkle root (\<^verbatim>\<open>tao-database\<close>).  There are two
  ledgers.  The linear node (\<^verbatim>\<open>tao-node/src/node.rs\<close>) keeps a header chain with a fork choice by work.
  The DAG node (\<^verbatim>\<open>tao-node/src/main.rs\<close>, \<^verbatim>\<open>tao-dagvm\<close>) keeps a GHOSTDAG block DAG (\<^verbatim>\<open>tao-ghostdag\<close> over
  \<^verbatim>\<open>tao-reachability\<close>), executes its blocks in the total order, checkpoints, prunes and exchanges
  snapshots with proofs.  Both write every block to an append-only log, gossip over
  length-prefixed frames (\<^verbatim>\<open>tao-p2p\<close>), take transactions from a pool (\<^verbatim>\<open>tao-mempool\<close>) and answer JSON-RPC
  requests over a state shared with the node loop.

  \<^bold>\<open>Theories and sources.\<close>
  \<^item> \<open>Prelude\<close>, \<open>Effects\<close>: integers and byte arrays, lists, the monads of fallible and stateful code.
  \<^item> \<open>Target\<close>, \<open>Block\<close>, \<open>Pow\<close>, \<open>Difficulty\<close>, \<open>Chain\<close>: \<^verbatim>\<open>tao-consensus\<close>, file by file (\<open>Pow\<close> has \<^verbatim>\<open>pow/\<close> and
    \<^verbatim>\<open>mine.rs\<close>); \<open>GenesisLoad\<close>: the two \<^verbatim>\<open>genesis.rs\<close> of consensus and runtime; \<open>Core\<close>: \<^verbatim>\<open>tao-core\<close>.
  \<^item> \<open>Smt\<close> (operations), \<open>SmtTree\<close> and \<open>SmtStore\<close> (their specification), \<open>AccountsDb\<close>, \<open>BlockLog\<close>: \<^verbatim>\<open>tao-database\<close>.
  \<^item> \<open>Bank\<close>, \<open>BlockhashQueue\<close>: \<^verbatim>\<open>tao-runtime\<close>.  \<open>Mempool\<close>: \<^verbatim>\<open>tao-mempool\<close>.  \<open>TaoDag\<close>: \<^verbatim>\<open>tao-dag\<close>, the first
    GHOSTDAG prototype.
  \<^item> \<open>Interval\<close>, \<open>ReachStore\<close>, \<open>Inquirer\<close>, \<open>Reindex\<close>, \<open>Reach\<close>: \<^verbatim>\<open>tao-reachability\<close> (\<open>Reach\<close> has \<^verbatim>\<open>tree.rs\<close> and the
    updates of \<^verbatim>\<open>inquirer.rs\<close>).  \<open>ReachTree\<close>, \<open>ReachQuery\<close>, \<open>ReachAdd\<close>, \<open>ReachDag\<close>, \<open>ReachKeeps\<close> hold what the
    index means and what its operations keep; the correctness of the reallocation of intervals is in \<open>ReachLabel\<close>
    (labellings and subtree sizes), \<open>ReachCount\<close>, \<open>ReachPropagate\<close>, \<open>ReachShift\<close> and \<open>ReachReclaim\<close> (the loops of
    \<^verbatim>\<open>reindex.rs\<close>), \<open>ReachReindex\<close> (a whole insertion), \<open>ReachAdvance\<close> (moving the reindex root) and \<open>ReachRuns\<close>.
  \<^item> \<open>Ghostdag\<close>, \<open>DagEngine\<close>: \<^verbatim>\<open>tao-ghostdag\<close> (\<^verbatim>\<open>protocol.rs\<close>, \<^verbatim>\<open>engine.rs\<close>).  \<open>GhostMerge\<close> (the merge set),
    \<open>GhostColor\<close> (the colouring), \<open>GhostRuns\<close> (adding a block), \<open>GhostOrder\<close> (the total order), \<open>GhostSame\<close> (two
    engines), \<open>GhostParents\<close> (redundant parents) and \<open>GhostProps\<close> hold its theorems.
  \<^item> \<open>DagChain\<close> (open, replay, build, mine, validate, accept, apply, proofs), \<open>DagState\<close> (the virtual state and
    its checkpoint), \<open>DagPrune\<close> (pruning, snapshots): \<^verbatim>\<open>tao-dagvm/src/dag_chain.rs\<close>; \<open>DagVm\<close>: its \<^verbatim>\<open>lib.rs\<close>.
    The proofs are in \<open>DagRuns\<close> (runs of a chain and their invariant), \<open>DagReplay\<close> (the log), \<open>DagProof\<close>
    (interlinks), \<open>DagProps\<close>, \<open>DagTips\<close>, \<open>DagMine\<close>, \<open>DagImport\<close>, \<open>DagCrash\<close>, \<open>DagLean\<close> and \<open>DagLeanProps\<close>
    (the chain over its engine), with the concrete chain of \<open>DagDemo\<close>.
  \<^item> \<open>Gemm\<close>, \<open>UtilityGate\<close>, \<open>Pouw\<close>: \<^verbatim>\<open>tao-pouw\<close>.  \<open>P2p\<close>: \<^verbatim>\<open>tao-p2p\<close>.
  \<^item> \<open>NodeShared\<close>, \<open>Node\<close>, \<open>Rpc\<close>: \<^verbatim>\<open>shared.rs\<close>, \<^verbatim>\<open>node.rs\<close>, \<^verbatim>\<open>rpc.rs\<close> of \<^verbatim>\<open>tao-node\<close>; \<open>DagNode\<close>, \<open>Cli\<close>: the DAG node
    and the utility miner of its \<^verbatim>\<open>main.rs\<close>.  \<open>NodeRuns\<close>, \<open>NodeProps\<close>, \<open>DagNodeProps\<close> hold the theorems.

  \<^bold>\<open>Conventions.\<close>  A \<open>[u8; 32]\<close> is a 256-bit word, a machine integer a word that wraps as in a release build,
  \<open>usize\<close> is 64 bits.  A function that can fail returns a sum, the error on the left.  A panic is the value
  \<open>None\<close> (in the reachability index, the error \<open>ReachPanic\<close>), and so is a loop that does not end: such loops are
  \<open>partial_function\<close>, never cut off by fuel.  State is a record that is passed and returned; in the monad \<open>rm\<close>
  it also survives an error, because the code mutates in place before it fails.  The messages of the errors of
  \<^verbatim>\<open>dag_chain.rs\<close> are constructors.  The clock and the instants a loop reads are arguments, in the order it
  reads them.  Where the code walks a hash map or set whose order Rust leaves open, either the order cannot
  matter, or it is a parameter.

  Code outside the repository is a parameter: BLAKE3 and its extendable output, \<open>bincode\<close>, hex, base58
  and base64, RocksDB, the Solana virtual machine and account types, TCP streams, JSON values, and the \<open>f64\<close>
  operations of the interval split.  They are gathered in records (\<open>bank_env\<close>, \<open>dag_env\<close>, \<open>node_env\<close>, \<open>dnode_env\<close>,
  \<open>json_ops\<close>, ...).  A theorem that relies on one says so in a premise (a codec reads back what it
  wrote, a hash has no collision among the inputs named), and its witness has a concrete function there.

  Two constants of the code bound loops: the walk of a proof stops after 1000000 steps, and the theorems
  about proofs carry that bound; \<open>proof_walk\<close> counts the guard as the code does.  Recursions on a fixed height
  (the 256 levels of the Merkle tree) count the levels left.  The theorems about runs of the reachability index
  and of the engine hold for up to 2^24 blocks: an insertion and the hint after it cost the reindex root at most
  \<open>index_cost\<close> of its interval (the slack and the subtree sizes of every block they move), and that many
  insertions leave more than a fifth of the 64-bit range.  Termination of every loop is part of these theorems,
  by recursion on the finite block tree.

  \<^bold>\<open>Interfaces.\<close>  \<open>pow_contract\<close> is what an algorithm owes to mining: a header verifies exactly when its hash
  meets its target; BLAKE3, the height switch and both matrix algorithms interpret it.  The node store of
  the Merkle tree, the contract between the tree and the account store, is the locale of \<open>SmtStore\<close>, interpreted on
  the columns of the account database.  The reindexing works in two mirrored directions; \<open>reclaim_moves\<close> is what
  shifting a sibling owes to the walk that looks for slack, \<open>reclaim_run\<close> what the walk's two loops do, and both are
  interpreted for the siblings before and after the chosen child.  Each client's lemmas are proved in its locale.

  \<^bold>\<open>What is shown.\<close>
  \<^item> Consensus: the reachable header chains are trees of validated headers, fork choice, convergence of
    two nodes with the same headers, the retarget formula and its limits (the formula where no difference of
    timestamps leaves an \<open>i64\<close>; outside, the difference wraps, which \<open>solvetime_wraps\<close> shows), the meaning of work,
    mined candidates are accepted, what makes \<open>add_header\<close> panic, the allocation of its buffer included.
  \<^item> DAG chain: acceptance rules, the well-formedness of every run, a restart gives back the blocks of the log
    as long as no undecodable transaction was met (after one the log no longer opens),
    the cached state is the rebuilt one, honest proofs of a pruned history verify, the verifier accepts exactly
    the lists of linked headers with work, what an imported snapshot has been checked for and what not, mining
    ends exactly when a nonce exists.  Over its engine, in runs where no block taken from a peer lists a parent that is
    an ancestor of another: the engine holds exactly the blocks of the chain and never panics, valid blocks on
    unrelated parents are accepted, mined blocks become the tip and (up to 16 tips) pull every block into the order, and nodes that
    hold the same blocks compute the same order and, before a checkpoint, the same state.
  \<^item> Reachability: every insertion and every hint succeeds, reindexing included, and the queries answer
    the ancestry of the inserted blocks, whatever the floating-point splits return.
  \<^item> Ordering, over runs in which every block lists pairwise unrelated parents: the engine accepts every block on unrelated known parents, its merge sets are what a block adds
    to the past of its selected parent, its queries answer reachability in the graph of the parents, the
    total order lists the past of the heaviest tip once and parents first; data, tip and order depend on the
    blocks alone, not on their order of arrival.  For the prototype of \<^verbatim>\<open>tao-dag\<close>: the blue set is a k-cluster,
    and what its order guarantees.
  \<^item> State: the incremental root is the root of the full tree, proofs are complete and binding, the
    log reads back its records, the pool keeps its bound, the emission is bounded.
  \<^item> Nodes: the loop over pending blocks ends and loses none of them, accepted blocks are served unchanged, a restart of the linear node gives back its
    state, the RPC changes only the transaction queue and the streams, frames arrive in order, the
    matrix algorithms' gate rejects forged weights, the utility miner serves what it is asked.
  \<^item> Where the code does less than it says, the theorem states what it does: accounts of a snapshot
    are not bound to its proof, a peer block with a wrong state root is kept in the chain, mined
    transactions are always reported as successful, a frame may be sent that no reader takes, and a parent that is
    an ancestor of the selected parent is counted as blue once more or, off the selected chain, makes the engine panic
    after the block is in the log.

  \<^bold>\<open>Not modelled.\<close>  Input and output: \<open>Network::start\<close> (binding, dialling, threads), the HTTP server, command lines,
  TOML and key files, signals, logging, and the wallet commands of \<^verbatim>\<open>tao-cli\<close>, which wrap third-party
  signing code.  \<^verbatim>\<open>tao-wallet\<close> and \<^verbatim>\<open>tao-rpc\<close> are empty.  Locks are taken as atomic operations, reference
  cells as plain state.  An open account store is its content, so what RocksDB does when one directory is
  opened twice, as the DAG node may do on a reorganisation, is outside the model.  Of the allocator, only the capacity
  limit of \<open>Vec::with_capacity\<close> in \<open>recent_headers\<close> is modelled; running out of memory is not.  Runs of the engine with more than
  2^24 blocks, where the reindex root may run out of interval, are modelled but not covered by the theorems.
\<close>

end
